(* ===== verification/Prelude.thy ===== *)
theory Prelude
  imports Main "HOL-Library.Word"
begin

text \<open>
  What every component theory shares: the byte type and the C standard library routines on byte
  arrays that the sources call (\<open>memchr\<close>, \<open>memrchr\<close>, \<open>memcmp\<close>, \<open>memmove\<close>), the machine
  integer types, the \<open>named_theorems\<close> collections of the development, and the generic lemmas
  on lists, words and options the component proofs are built from.

  A byte is a \<open>char\<close> (exactly eight bits), a byte array or a slice's contents is a
  \<open>char list\<close>; \<open>byte_val\<close> reads a byte as an \<open>unsigned char\<close>.  Lengths and
  offsets are \<open>nat\<close> where they are bounded by the size of an array the code owns, and
  \<open>64 word\<close> where the code computes with a number it read from the wire.
\<close>

type_synonym byte = char
type_synonym bytes = "char list"
type_synonym u64 = "64 word"
type_synonym u32 = "32 word"

named_theorems bytes_simps \<open>arithmetic of byte arrays: writes, moves, lengths\<close>
named_theorems inv_simps \<open>definitions of the components' invariants\<close>
named_theorems op_defs \<open>definitions of operations, unfolded by the functional lemmas\<close>

abbreviation byte_val :: "byte \<Rightarrow> nat" where
  "byte_val c \<equiv> of_char c"

abbreviation CR :: byte where "CR \<equiv> CHR 0x0D"
abbreviation LF :: byte where "LF \<equiv> CHR 0x0A"
abbreviation TAB :: byte where "TAB \<equiv> CHR 0x09"
abbreviation NUL :: byte where "NUL \<equiv> CHR 0x00"
abbreviation DQUOTE :: byte where "DQUOTE \<equiv> CHR 0x22"
abbreviation BSLASH :: byte where "BSLASH \<equiv> CHR 0x5C"

abbreviation CRLF :: bytes where "CRLF \<equiv> [CR, LF]"

abbreviation INT_MAX :: nat where "INT_MAX \<equiv> 2147483647"


lemma bit_unat_eq: "bit (unat w) n \<longleftrightarrow> bit w n"
  for w :: "'a::len word"
  by (simp add: bit_unsigned_iff)


lemma unat_of_nat_less: "n < 2 ^ LENGTH('a) \<Longrightarrow> unat (of_nat n :: 'a::len word) = n"
  by (simp add: unat_of_nat)

lemma sint_word_of_int_64:
  "- 9223372036854775808 \<le> k \<Longrightarrow> k < 9223372036854775808 \<Longrightarrow> sint (word_of_int k :: 64 word) = k"
  by (simp add: signed_take_bit_int_eq_self sint_sbintrunc')


section \<open>The byte routines of the C library\<close>

text \<open>\<open>memchr\<close>: the index of the first byte equal to \<open>c\<close>; \<open>memrchr\<close>: the last one.\<close>

fun memchr :: "byte \<Rightarrow> bytes \<Rightarrow> nat option" where
  "memchr c [] = None"
| "memchr c (x # xs) = (if x = c then Some 0 else map_option Suc (memchr c xs))"

fun memrchr :: "byte \<Rightarrow> bytes \<Rightarrow> nat option" where
  "memrchr c [] = None"
| "memrchr c (x # xs) =
     (case memrchr c xs of
        Some i \<Rightarrow> Some (Suc i)
      | None \<Rightarrow> (if x = c then Some 0 else None))"

text \<open>\<open>memmem\<close> with a two-byte needle, as the engine calls it for the CRLF of a line.\<close>

fun memmem2 :: "byte \<Rightarrow> byte \<Rightarrow> bytes \<Rightarrow> nat option" where
  "memmem2 a b (x # y # ys) =
     (if x = a \<and> y = b then Some 0 else map_option Suc (memmem2 a b (y # ys)))"
| "memmem2 a b _ = None"

text \<open>
  \<open>memwrite buf off src\<close> is \<open>memcpy (buf + off, src, n)\<close>; \<open>memmove_in\<close> is
  \<open>memmove\<close> inside one array, with the source read before the destination is written.
\<close>

definition memwrite :: "bytes \<Rightarrow> nat \<Rightarrow> bytes \<Rightarrow> bytes" where
  "memwrite buf off src = take off buf @ src @ drop (off + length src) buf"

definition memread :: "bytes \<Rightarrow> nat \<Rightarrow> nat \<Rightarrow> bytes" where
  "memread buf off n = take n (drop off buf)"

definition memmove_in :: "bytes \<Rightarrow> nat \<Rightarrow> nat \<Rightarrow> nat \<Rightarrow> bytes" where
  "memmove_in buf dst src n = memwrite buf dst (memread buf src n)"

lemma memchr_None_iff: "memchr c xs = None \<longleftrightarrow> c \<notin> set xs"
  by (induction xs) auto

lemma memchr_Some:
  assumes "memchr c xs = Some i"
  shows "i < length xs" and "xs ! i = c" and "c \<notin> set (take i xs)"
  using assms by (induction xs arbitrary: i) (auto split: if_splits)

lemma memchr_Some_iff:
  "memchr c xs = Some i \<longleftrightarrow> i < length xs \<and> xs ! i = c \<and> c \<notin> set (take i xs)"
proof (induction xs arbitrary: i)
  case Nil
  then show ?case by simp
next
  case (Cons x xs)
  then show ?case by (cases i) auto
qed

lemma memchr_split:
  "memchr c xs = Some i \<Longrightarrow> xs = take i xs @ c # drop (Suc i) xs"
  using memchr_Some(1,2) id_take_nth_drop by metis

lemma memchr_append_notin [simp]:
  "c \<notin> set xs \<Longrightarrow> memchr c (xs @ c # ys) = Some (length xs)"
  by (induction xs) auto

lemma memrchr_Some:
  assumes "memrchr c xs = Some i"
  shows "i < length xs" and "xs ! i = c" and "c \<notin> set (drop (Suc i) xs)"
  using assms
proof (induction xs arbitrary: i)
  case (Cons x xs)
  {
    case 1
    with Cons show ?case by (cases "memrchr c xs") (auto split: if_splits)
  next
    case 2
    with Cons show ?case by (cases "memrchr c xs") (auto split: if_splits)
  next
    case 3
    have none: "memrchr c xs = None \<Longrightarrow> c \<notin> set xs"
      by (induction xs) (auto split: option.splits if_splits)
    with 3 Cons show ?case by (cases "memrchr c xs") (auto split: if_splits)
  }
qed simp_all

lemma memrchr_None_iff: "memrchr c xs = None \<longleftrightarrow> c \<notin> set xs"
  by (induction xs) (auto split: option.splits)

lemma memmem2_Some:
  assumes "memmem2 a b xs = Some i"
  shows "Suc i < length xs" and "xs ! i = a" and "xs ! Suc i = b"
  using assms by (induction a b xs arbitrary: i rule: memmem2.induct) (auto split: if_splits)

lemma memmem2_Some_bound: "memmem2 a b xs = Some i \<Longrightarrow> i + 2 \<le> length xs"
  using memmem2_Some(1) by fastforce

lemma memmem2_split:
  assumes "memmem2 a b xs = Some i"
  shows "xs = take i xs @ [a, b] @ drop (i + 2) xs"
  using assms
proof (induction a b xs arbitrary: i rule: memmem2.induct)
  case (1 a b x y ys)
  show ?case
  proof (cases "x = a \<and> y = b")
    case True
    with 1 show ?thesis by simp
  next
    case False
    with 1(2) obtain j where j: "memmem2 a b (y # ys) = Some j" "i = Suc j"
      by auto
    then have "y # ys = take j (y # ys) @ [a, b] @ drop (j + 2) (y # ys)"
      using 1(1) False by blast
    with j(2) show ?thesis by simp
  qed
qed simp_all

lemma memmem2_append_line:
  assumes "a \<notin> set xs"
  shows "memmem2 a b (xs @ a # b # ys) = Some (length xs)"
  using assms
proof (induction xs)
  case (Cons x xs)
  then show ?case by (cases xs) auto
qed simp

lemma length_memwrite [simp, bytes_simps]:
  "off + length src \<le> length buf \<Longrightarrow> length (memwrite buf off src) = length buf"
  by (simp add: memwrite_def)

lemma length_memread [simp, bytes_simps]:
  "length (memread buf off n) = min n (length buf - off)"
  by (simp add: memread_def)

lemma memread_0 [simp]: "memread buf off 0 = []"
  by (simp add: memread_def)

lemma memwrite_Nil [simp]: "off \<le> length buf \<Longrightarrow> memwrite buf off [] = buf"
  by (simp add: memwrite_def)

lemma length_memmove_in [simp, bytes_simps]:
  "dst + n \<le> length buf \<Longrightarrow> length (memmove_in buf dst src n) = length buf"
  by (simp add: memmove_in_def)

lemma memread_memwrite_same [bytes_simps]:
  "off + length src \<le> length buf \<Longrightarrow> n = length src \<Longrightarrow> memread (memwrite buf off src) off n = src"
  by (simp add: memread_def memwrite_def)

lemma memread_memwrite_before [bytes_simps]:
  "a + n \<le> off \<Longrightarrow> off \<le> length buf \<Longrightarrow> memread (memwrite buf off src) a n = memread buf a n"
  by (simp add: memread_def memwrite_def drop_take)

lemma memread_memwrite_after [bytes_simps]:
  assumes "off + length src \<le> a" and "off + length src \<le> length buf"
  shows "memread (memwrite buf off src) a n = memread buf a n"
proof -
  have "drop a (memwrite buf off src) = drop a buf"
    using assms by (simp add: memwrite_def)
  then show ?thesis by (simp add: memread_def)
qed

lemma memread_append:
  "memread buf a (m + n) = memread buf a m @ memread buf (a + m) n"
  by (simp add: memread_def take_add add.commute)

lemma memread_take: "k \<le> n \<Longrightarrow> take k (memread buf a n) = memread buf a k"
  by (simp add: memread_def)

lemma memread_drop:
  "k \<le> n \<Longrightarrow> drop k (memread buf a n) = memread buf (a + k) (n - k)"
  by (simp add: memread_def drop_take add.commute)

lemma memread_write_end [bytes_simps]:
  assumes "a \<le> off" and "off + length src \<le> length buf"
  shows "memread (memwrite buf off src) a (off - a + length src) = memread buf a (off - a) @ src"
proof -
  have "a + (off - a) = off" using assms by simp
  then show ?thesis
    using assms by (simp only: memread_append) (simp add: memread_memwrite_before memread_memwrite_same)
qed

lemma memread_all: "length buf = n \<Longrightarrow> memread buf 0 n = buf"
  by (simp add: memread_def)


section \<open>Decimal and hexadecimal digits\<close>

text \<open>The value a digit string denotes, most significant digit first.\<close>

definition digit_val :: "byte \<Rightarrow> nat" where
  "digit_val c = byte_val c - 48"

definition is_digit :: "byte \<Rightarrow> bool" where
  "is_digit c \<longleftrightarrow> 48 \<le> byte_val c \<and> byte_val c \<le> 57"

definition digits_value :: "bytes \<Rightarrow> nat" where
  "digits_value ds = foldl (\<lambda>v c. v * 10 + digit_val c) 0 ds"

definition digit_char :: "nat \<Rightarrow> byte" where
  "digit_char d = char_of (48 + d)"

lemma byte_val_char_of [simp]: "n < 256 \<Longrightarrow> byte_val (char_of n) = n"
  by simp

lemma byte_val_digit_char: "d < 10 \<Longrightarrow> byte_val (digit_char d) = 48 + d"
  by (simp add: digit_char_def)

lemma is_digit_digit_char [simp]: "d < 10 \<Longrightarrow> is_digit (digit_char d)"
  by (simp add: is_digit_def byte_val_digit_char)

lemma digit_val_digit_char [simp]: "d < 10 \<Longrightarrow> digit_val (digit_char d) = d"
  by (simp add: digit_val_def byte_val_digit_char)

lemma digit_val_less: "is_digit c \<Longrightarrow> digit_val c < 10"
  unfolding is_digit_def digit_val_def by linarith

lemma digits_value_Nil [simp]: "digits_value [] = 0"
  by (simp add: digits_value_def)

lemma digits_value_snoc [simp]:
  "digits_value (ds @ [c]) = digits_value ds * 10 + digit_val c"
  by (simp add: digits_value_def)

lemma foldl_digits_mono: "(v::nat) \<le> foldl (\<lambda>v c. v * 10 + digit_val c) v ds"
proof (induction ds arbitrary: v)
  case (Cons c ds)
  have "v \<le> v * 10 + digit_val c" by simp
  also have "\<dots> \<le> foldl (\<lambda>v c. v * 10 + digit_val c) (v * 10 + digit_val c) ds"
    by (rule Cons.IH)
  finally show ?case by simp
qed simp

text \<open>Rounding down to a power of two.\<close>

unbundle bit_operations_syntax

lemma and_not_mask: "unat (x AND NOT (2 ^ k - 1 :: u64)) = unat x - unat x mod 2 ^ k"
proof -
  have m: "(2 ^ k - 1 :: u64) = mask k" by (simp add: mask_eq_exp_minus_1)
  have "x - (x AND mask k) = x AND NOT (x AND mask k)" by (rule disjunctive_diff) (simp add: bit_and_iff)
  also have "\<dots> = x AND NOT (mask k)" by (rule bit_word_eqI) (auto simp: bit_simps)
  finally have "x AND NOT (mask k) = x - take_bit k x" by (simp add: take_bit_eq_mask)
  moreover have "unat (take_bit k x) = unat x mod 2 ^ k" by (metis take_bit_eq_mod unsigned_take_bit_eq)
  moreover have "take_bit k x \<le> x" by (simp add: word_le_nat_alt unsigned_take_bit_eq)
  ultimately show ?thesis unfolding m by (simp add: unat_sub)
qed

end
