(* ===== verification/Find.thy ===== *)
theory Find
  imports Prelude
begin

text \<open>
  Substring search, \<^verbatim>\<open>lib/http/find.c\<close>: the scalar search, the block searches written with
  SSE2 and AVX2 vectors, and the entry points \<open>ioxd_slice_find_bytes\<close>,
  \<open>ioxd_slice_find\<close>, \<open>ioxd_slice_find_char\<close> and \<open>ioxd_slice_rfind_char\<close>.

  A vector register is the list of its lanes, a comparison mask is the \<open>32 word\<close> that
  \<open>pmovmskb\<close> returns, and the loop over its set bits uses \<open>m AND (m - 1)\<close> and
  \<open>__builtin_ctz\<close> as the source does.  A \<open>ptrdiff_t\<close> result is an \<open>int\<close>.
\<close>

unbundle bit_operations_syntax

section \<open>The specification: the first occurrence\<close>

definition occurs_at :: "bytes \<Rightarrow> bytes \<Rightarrow> nat \<Rightarrow> bool" where
  "occurs_at hay needle i \<longleftrightarrow>
     i + length needle \<le> length hay \<and> memread hay i (length needle) = needle"

definition find_spec :: "bytes \<Rightarrow> bytes \<Rightarrow> int" where
  "find_spec hay needle =
     (case filter (occurs_at hay needle) [0..<Suc (length hay)] of
        [] \<Rightarrow> -1
      | i # _ \<Rightarrow> int i)"


section \<open>The scalar search\<close>

text \<open>
  The loop looks for the needle's first byte with \<open>memchr\<close> among the candidate positions,
  then compares the last byte, then the bytes in between.
\<close>

definition middle_matches :: "bytes \<Rightarrow> bytes \<Rightarrow> nat \<Rightarrow> bool" where
  "middle_matches hay needle at \<longleftrightarrow>
     memread hay (at + 1) (length needle - 2) = memread needle 1 (length needle - 2)"

function find_scalar_from :: "bytes \<Rightarrow> bytes \<Rightarrow> nat \<Rightarrow> int" where
  "find_scalar_from hay needle at =
     (let n = length needle; span = length hay - n + 1 in
      case memchr (needle ! 0) (memread hay at (span - at)) of
        None \<Rightarrow> -1
      | Some k \<Rightarrow>
          (let p = at + k in
           if hay ! (p + n - 1) = needle ! (n - 1) \<and> middle_matches hay needle p then int p
           else find_scalar_from hay needle (p + 1)))"
  by pat_completeness auto
termination
  by (relation "measure (\<lambda>(hay, needle, at). length hay - length needle + 2 - at)")
     (auto dest!: memchr_Some(1))

declare find_scalar_from.simps [simp del]

definition ioxd__find_scalar :: "bytes \<Rightarrow> bytes \<Rightarrow> int" where
  "ioxd__find_scalar hay needle = find_scalar_from hay needle 0"


section \<open>Vectors and masks\<close>

definition load16 :: "bytes \<Rightarrow> nat \<Rightarrow> bytes" where
  "load16 p i = memread p i 16"

definition load32 :: "bytes \<Rightarrow> nat \<Rightarrow> bytes" where
  "load32 p i = memread p i 32"

definition lanes_eq :: "bytes \<Rightarrow> byte \<Rightarrow> bool list" where
  "lanes_eq v c = map (\<lambda>x. x = c) v"

definition lanes_and :: "bool list \<Rightarrow> bool list \<Rightarrow> bool list" where
  "lanes_and = map2 (\<and>)"

text \<open>\<open>pmovmskb\<close>: one bit of the result per lane.\<close>

definition mask_of :: "bool list \<Rightarrow> u32" where
  "mask_of lanes = horner_sum of_bool 2 lanes"

definition ctz :: "u32 \<Rightarrow> nat" where
  "ctz m = length (takeWhile (\<lambda>j. \<not> bit m j) [0..<32])"

text \<open>
  \<open>for (; m; m &= m - 1)\<close>: the set bits of the mask, lowest first, each a candidate position
  \<open>i + j\<close> that the test \<open>hit\<close> confirms or rejects.
\<close>

lemma mask_step_less: "m \<noteq> 0 \<Longrightarrow> unat (m AND (m - 1)) < unat (m :: u32)"
proof -
  assume nz: "m \<noteq> 0"
  have "m AND (m - 1) \<le> m - 1" by (rule word_and_le1)
  then have "unat (m AND (m - 1)) \<le> unat (m - 1)" by (simp add: word_le_nat_alt)
  also have "\<dots> < unat m" using nz by (simp add: unat_minus_one unat_gt_0)
  finally show ?thesis .
qed

function mask_scan :: "(nat \<Rightarrow> bool) \<Rightarrow> nat \<Rightarrow> u32 \<Rightarrow> int" where
  "mask_scan hit i m =
     (if m = 0 then -1
      else let j = ctz m in
        if hit (i + j) then int (i + j) else mask_scan hit i (m AND (m - 1)))"
  by pat_completeness auto
termination
  by (relation "measure (\<lambda>(hit, i, m). unat m)") (auto simp: mask_step_less)

declare mask_scan.simps [simp del]


section \<open>The block searches\<close>

definition block16 :: "bytes \<Rightarrow> nat \<Rightarrow> bytes \<Rightarrow> int" where
  "block16 hay i needle =
     (let n = length needle;
          a = load16 hay i;
          b = load16 hay (i + n - 1);
          m = mask_of (lanes_and (lanes_eq a (needle ! 0)) (lanes_eq b (needle ! (n - 1))))
      in mask_scan (middle_matches hay needle) i m)"

text \<open>
  The block loop: the last block is moved back so that it ends at the last candidate.  The
  index never passes \<open>span - 16\<close>, so the source's \<open>i + 16 == span\<close> is \<open>i + 16 \<ge> span\<close>.
\<close>

function sse2_blocks :: "bytes \<Rightarrow> bytes \<Rightarrow> nat \<Rightarrow> nat \<Rightarrow> int" where
  "sse2_blocks hay needle span i =
     (let at = block16 hay i needle in
      if at \<ge> 0 then at
      else if i + 16 \<ge> span then -1
      else sse2_blocks hay needle span (if i + 16 + 16 > span then span - 16 else i + 16))"
  by pat_completeness auto
termination
  by (relation "measure (\<lambda>(hay, needle, span, i). span - i)") auto

declare sse2_blocks.simps [simp del]

definition ioxd__find_sse2 :: "bytes \<Rightarrow> bytes \<Rightarrow> int" where
  "ioxd__find_sse2 hay needle =
     (let n = length needle; len = length hay; span = len - n + 1 in
      if span \<ge> 16 then sse2_blocks hay needle span 0
      else if len \<ge> 16 then
        (let m = mask_of (lanes_eq (load16 hay 0) (needle ! 0)) AND (push_bit span 1 - 1)
         in mask_scan (\<lambda>j. memread hay (j + 1) (n - 1) = memread needle 1 (n - 1)) 0 m)
      else ioxd__find_scalar hay needle)"

definition block32 :: "bytes \<Rightarrow> nat \<Rightarrow> bytes \<Rightarrow> int" where
  "block32 hay i needle =
     (let n = length needle;
          a = load32 hay i;
          b = load32 hay (i + n - 1);
          m = mask_of (lanes_and (lanes_eq a (needle ! 0)) (lanes_eq b (needle ! (n - 1))))
      in mask_scan (middle_matches hay needle) i m)"

function avx2_blocks :: "bytes \<Rightarrow> bytes \<Rightarrow> nat \<Rightarrow> nat \<Rightarrow> int" where
  "avx2_blocks hay needle span i =
     (let at = block32 hay i needle in
      if at \<ge> 0 then at
      else if i + 32 \<ge> span then -1
      else avx2_blocks hay needle span (if i + 32 + 32 > span then span - 32 else i + 32))"
  by pat_completeness auto
termination
  by (relation "measure (\<lambda>(hay, needle, span, i). span - i)") auto

declare avx2_blocks.simps [simp del]

definition ioxd__find_avx2 :: "bytes \<Rightarrow> bytes \<Rightarrow> int" where
  "ioxd__find_avx2 hay needle =
     (let span = length hay - length needle + 1 in
      if span < 32 then ioxd__find_sse2 hay needle
      else avx2_blocks hay needle span 0)"

text \<open>\<open>find\<close> asks the CPU; the answer of \<open>__builtin_cpu_supports\<close> is its argument.\<close>

definition find_on :: "bool \<Rightarrow> bytes \<Rightarrow> bytes \<Rightarrow> int" where
  "find_on avx2 hay needle =
     (if avx2 then ioxd__find_avx2 hay needle else ioxd__find_sse2 hay needle)"

definition ioxd_slice_find_char :: "bytes \<Rightarrow> byte \<Rightarrow> int" where
  "ioxd_slice_find_char s c =
     (if length s = 0 then -1 else case memchr c s of Some at \<Rightarrow> int at | None \<Rightarrow> -1)"

definition ioxd_slice_rfind_char :: "bytes \<Rightarrow> byte \<Rightarrow> int" where
  "ioxd_slice_rfind_char s c =
     (if length s = 0 then -1 else case memrchr c s of Some at \<Rightarrow> int at | None \<Rightarrow> -1)"

definition ioxd_slice_find_bytes :: "bool \<Rightarrow> bytes \<Rightarrow> bytes \<Rightarrow> int" where
  "ioxd_slice_find_bytes avx2 s needle =
     (let n = length needle in
      if n = 0 then 0
      else if n > length s then -1
      else if n = 1 then ioxd_slice_find_char s (needle ! 0)
      else find_on avx2 s needle)"

definition ioxd_slice_find :: "bool \<Rightarrow> bytes \<Rightarrow> bytes \<Rightarrow> int" where
  "ioxd_slice_find avx2 s needle = ioxd_slice_find_bytes avx2 s needle"



section \<open>The set bits of a mask\<close>

lemma bit_mask_of [simp]: "length lanes \<le> 32 \<Longrightarrow> bit (mask_of lanes) j \<longleftrightarrow> j < length lanes \<and> lanes ! j"
  by (auto simp: mask_of_def bit_horner_sum_bit_iff nth_eq_iff_index_eq)

lemma ctz_props:
  assumes "(m :: u32) \<noteq> 0"
  shows "ctz m < 32" and "bit m (ctz m)" and "\<And>k. k < ctz m \<Longrightarrow> \<not> bit m k"
proof -
  obtain k where k: "bit m k" using assms by (metis bit_eqI bit_0_eq bot_apply bot_bool_def)
  then have k32: "k < 32" using bit_imp_le_length[of m k] by simp
  let ?tw = "takeWhile (\<lambda>j. \<not> bit m j) [0..<32]"
  have "\<exists>j\<in>set [0..<32]. \<not> (\<not> bit m j)" using k k32 by auto
  then have lt: "length ?tw < length [0..<32::nat]"
    by (metis length_takeWhile_le nat_less_le takeWhile_eq_all_conv takeWhile_eq_take take_all_iff dual_order.refl)
  then show "ctz m < 32" by (simp add: ctz_def)
  have "bit m ([0..<32] ! length ?tw)" using nth_length_takeWhile[OF lt] by simp
  then show "bit m (ctz m)" using lt by (simp add: ctz_def)
  fix j assume j: "j < ctz m"
  then have "?tw ! j \<in> set ?tw" by (simp add: ctz_def)
  then have "\<not> bit m (?tw ! j)" by (blast dest: set_takeWhileD)
  then show "\<not> bit m j" using j lt by (simp add: ctz_def takeWhile_nth)
qed

text \<open>\<open>m &= m - 1\<close> clears exactly the lowest set bit.\<close>

lemma bit_clear_lowest:
  assumes "(m :: u32) \<noteq> 0"
  shows "bit (m AND (m - 1)) k \<longleftrightarrow> bit m k \<and> k \<noteq> ctz m"
proof -
  let ?t = "ctz m"
  obtain n' where n': "unat m = Suc n'" using assms by (metis not0_implies_Suc unat_eq_zero)
  have pred: "unat (m - 1) = n'" using assms n' by (simp add: unat_minus_one)
  have "take_bit ?t (unat m) = 0"
    using ctz_props(3)[OF assms] by (intro bit_eqI) (auto simp: bit_take_bit_iff bit_unat_eq)
  then have dvd: "2 ^ ?t dvd unat m" by (simp add: take_bit_eq_mod dvd_eq_mod_eq_0)
  have odd: "odd (unat m div 2 ^ ?t)"
    using ctz_props(2)[OF assms] bit_unat_eq[of m] unfolding bit_iff_odd[of "unat m"] by simp
  have nd: "\<not> 2 ^ k dvd unat m" if "?t < k"
  proof
    assume "2 ^ k dvd unat m"
    then have "2 ^ Suc ?t dvd unat m" using that by (meson Suc_leI dvd_trans le_imp_power_dvd)
    then obtain c where "unat m = 2 ^ ?t * (2 * c)" by (auto simp: dvd_def)
    then have "unat m div 2 ^ ?t = 2 * c" by simp
    with odd show False by simp
  qed
  have "bit (m - 1) k \<longleftrightarrow> odd (n' div 2 ^ k)"
    using bit_unat_eq[of "m - 1" k] unfolding pred bit_iff_odd[of n'] by simp
  then have "bit (m AND (m - 1)) k \<longleftrightarrow> bit m k \<and> odd (n' div 2 ^ k)"
    by (simp add: bit_and_iff)
  moreover have "odd (n' div 2 ^ k) \<longleftrightarrow> k \<noteq> ?t" if "bit m k"
  proof -
    have "\<not> k < ?t" using ctz_props(3)[OF assms] that by blast
    then consider "k = ?t" | "?t < k" by linarith
    then show ?thesis
    proof cases
      case 1
      have "Suc n' div 2 ^ ?t = Suc (n' div 2 ^ ?t)"
        using dvd n' by (simp add: div_Suc dvd_eq_mod_eq_0)
      then show ?thesis using odd n' 1 by simp
    next
      case 2
      have "Suc n' div 2 ^ k = n' div 2 ^ k"
        using nd[OF 2] n' by (simp add: div_Suc dvd_eq_mod_eq_0)
      moreover have "odd (unat m div 2 ^ k)"
        using that bit_unat_eq[of m k] unfolding bit_iff_odd[of "unat m"] by simp
      ultimately show ?thesis using 2 n' by simp
    qed
  qed
  ultimately show ?thesis by blast
qed


section \<open>First hits\<close>

text \<open>\<open>first_hit P lo hi r\<close>: \<open>r\<close> is the least index of \<open>[lo, hi)\<close> with \<open>P\<close>, or -1.\<close>

definition first_hit :: "(nat \<Rightarrow> bool) \<Rightarrow> nat \<Rightarrow> nat \<Rightarrow> int \<Rightarrow> bool" where
  "first_hit P lo hi r \<longleftrightarrow>
     (r = -1 \<and> (\<forall>k. lo \<le> k \<longrightarrow> k < hi \<longrightarrow> \<not> P k)) \<or>
     (\<exists>i. r = int i \<and> lo \<le> i \<and> i < hi \<and> P i \<and> (\<forall>k. lo \<le> k \<longrightarrow> k < i \<longrightarrow> \<not> P k))"

lemma first_hit_unique: "first_hit P lo hi r \<Longrightarrow> first_hit P lo hi r' \<Longrightarrow> r = r'"
  unfolding first_hit_def by (metis linorder_neqE_nat)

lemma first_hit_none: "first_hit P lo hi (-1) \<longleftrightarrow> (\<forall>k. lo \<le> k \<longrightarrow> k < hi \<longrightarrow> \<not> P k)"
  by (auto simp: first_hit_def)

lemma first_hit_join:
  assumes "first_hit P a b (-1)" and "first_hit P b' c r" and "a \<le> b'" and "b' \<le> b"
  shows "first_hit P a c r"
proof -
  have below: "\<not> P k" if "a \<le> k" "k < b'" for k
    using assms(1,4) that by (auto simp: first_hit_none)
  have ext: "(\<forall>k. b' \<le> k \<longrightarrow> k < d \<longrightarrow> \<not> P k) \<longleftrightarrow> (\<forall>k. a \<le> k \<longrightarrow> k < d \<longrightarrow> \<not> P k)" for d
    using below assms(3) by (meson not_le order.trans)
  show ?thesis using assms(2,3) unfolding first_hit_def ext by fastforce
qed

lemma first_hit_extend:
  "first_hit P a b r \<Longrightarrow> r \<ge> 0 \<Longrightarrow> b \<le> c \<Longrightarrow> first_hit P a c r"
  unfolding first_hit_def by auto

lemma first_hit_cong:
  "(\<And>k. lo \<le> k \<Longrightarrow> k < hi \<Longrightarrow> P k \<longleftrightarrow> Q k) \<Longrightarrow> first_hit P lo hi r \<Longrightarrow> first_hit Q lo hi r"
  unfolding first_hit_def by (metis order.strict_trans)

lemma first_hit_neg: "first_hit P lo hi r \<Longrightarrow> \<not> r \<ge> 0 \<Longrightarrow> r = -1"
  unfolding first_hit_def by auto

lemma filter_upt_first_hit:
  "first_hit P lo hi (case filter P [lo..<hi] of [] \<Rightarrow> -1 | i # _ \<Rightarrow> int i)"
proof (induction "hi - lo" arbitrary: lo)
  case 0
  then show ?case by (simp add: first_hit_def)
next
  case (Suc d)
  then have lt: "lo < hi" by simp
  then have upt: "[lo..<hi] = lo # [Suc lo..<hi]" by (simp add: upt_conv_Cons)
  show ?case
  proof (cases "P lo")
    case True
    then show ?thesis using lt unfolding upt first_hit_def by auto
  next
    case False
    then have "first_hit P lo (Suc lo) (-1)" by (simp add: first_hit_def less_Suc_eq_le)
    moreover have "first_hit P (Suc lo) hi (case filter P [Suc lo..<hi] of [] \<Rightarrow> -1 | i # _ \<Rightarrow> int i)"
      using Suc(1)[of "Suc lo"] Suc(2) by simp
    ultimately have "first_hit P lo hi (case filter P [Suc lo..<hi] of [] \<Rightarrow> -1 | i # _ \<Rightarrow> int i)"
      by (rule first_hit_join) simp_all
    then show ?thesis using False by (simp add: upt)
  qed
qed

lemma find_spec_first_hit:
  assumes "0 < length needle" and "length needle \<le> length hay"
  shows "first_hit (occurs_at hay needle) 0 (length hay - length needle + 1) r \<longleftrightarrow> r = find_spec hay needle"
proof -
  have all: "first_hit (occurs_at hay needle) 0 (Suc (length hay)) (find_spec hay needle)"
    unfolding find_spec_def by (rule filter_upt_first_hit)
  have le: "occurs_at hay needle k \<Longrightarrow> k < length hay - length needle + 1" for k
    by (auto simp: occurs_at_def)
  have "first_hit (occurs_at hay needle) 0 (length hay - length needle + 1) (find_spec hay needle)"
    using all unfolding first_hit_def
  proof (elim disjE exE conjE)
    fix i assume "find_spec hay needle = int i" "occurs_at hay needle i"
      "\<forall>k. 0 \<le> k \<longrightarrow> k < i \<longrightarrow> \<not> occurs_at hay needle k"
    then show "find_spec hay needle = - 1 \<and> (\<forall>k. 0 \<le> k \<longrightarrow> k < length hay - length needle + 1 \<longrightarrow> \<not> occurs_at hay needle k) \<or>
      (\<exists>i. find_spec hay needle = int i \<and> 0 \<le> i \<and> i < length hay - length needle + 1 \<and> occurs_at hay needle i \<and>
        (\<forall>k. 0 \<le> k \<longrightarrow> k < i \<longrightarrow> \<not> occurs_at hay needle k))" using le[of i] by blast
  qed simp
  then show ?thesis using first_hit_unique by blast
qed

lemma mask_scan_first_hit:
  "first_hit (\<lambda>p. i \<le> p \<and> bit m (p - i) \<and> hit p) i (i + 32) (mask_scan hit i m)"
proof (induction hit i m rule: mask_scan.induct)
  case (1 hit i m)
  show ?case
  proof (cases "m = 0")
    case True
    then show ?thesis by (simp add: mask_scan.simps[of hit i 0] first_hit_def)
  next
    case False
    note c = ctz_props[OF False]
    show ?thesis
    proof (cases "hit (i + ctz m)")
      case True
      have "\<not> bit m (k - i)" if "i \<le> k" "k < i + ctz m" for k
        using c(3)[of "k - i"] that by auto
      then show ?thesis
        using True False c(1,2)
        by (auto simp: mask_scan.simps[of hit i m] first_hit_def Let_def intro!: exI[of _ "i + ctz m"])
    next
      case hit: False
      have "first_hit (\<lambda>p. i \<le> p \<and> bit (m AND (m - 1)) (p - i) \<and> hit p) i (i + 32)
              (mask_scan hit i (m AND (m - 1)))"
        using 1(1)[OF False refl hit] by simp
      then have "first_hit (\<lambda>p. i \<le> p \<and> bit m (p - i) \<and> hit p) i (i + 32)
              (mask_scan hit i (m AND (m - 1)))"
        by (rule first_hit_cong[rotated])
           (use hit le_add_diff_inverse in \<open>fastforce simp: bit_clear_lowest[OF False]\<close>)
      then show ?thesis using False hit by (simp add: mask_scan.simps[of hit i m] Let_def)
    qed
  qed
qed

text \<open>Two bytes at the ends and the bytes between decide an occurrence.\<close>

lemma list_ends_eq:
  assumes "2 \<le> length xs" "length ys = length xs"
  shows "xs = ys \<longleftrightarrow> xs ! 0 = ys ! 0 \<and> xs ! (length xs - 1) = ys ! (length xs - 1) \<and>
           memread xs 1 (length xs - 2) = memread ys 1 (length xs - 2)"
proof -
  have split: "zs = zs ! 0 # memread zs 1 (length zs - 2) @ [zs ! (length zs - 1)]"
    if "2 \<le> length zs" for zs :: bytes
  proof (rule nth_equalityI)
    show "length zs = length (zs ! 0 # memread zs 1 (length zs - 2) @ [zs ! (length zs - 1)])"
      using that by simp
    fix i assume i: "i < length zs"
    consider "i = 0" | j where "i = Suc j" "j < length zs - 2" | "i = length zs - 1" "2 \<le> length zs"
      using i that by (cases i) (auto, linarith)
    then show "zs ! i = (zs ! 0 # memread zs 1 (length zs - 2) @ [zs ! (length zs - 1)]) ! i"
      using that by cases (auto simp: memread_def nth_append nth_Cons')
  qed
  show ?thesis using split[of xs] split[of ys] assms by metis
qed

lemma occurs_at_ends:
  assumes n: "2 \<le> length needle" and p: "p + length needle \<le> length hay"
  shows "occurs_at hay needle p \<longleftrightarrow>
    hay ! p = needle ! 0 \<and> hay ! (p + length needle - 1) = needle ! (length needle - 1) \<and>
    middle_matches hay needle p"
proof -
  let ?x = "memread hay p (length needle)"
  have len: "length ?x = length needle" using p by simp
  have m: "memread ?x 1 (length needle - 2) = memread hay (p + 1) (length needle - 2)"
    using n by (simp add: memread_def drop_take min_def add.commute)
  have "0 < length needle" using n by linarith
  then have "?x ! 0 = hay ! p" "?x ! (length needle - 1) = hay ! (p + length needle - 1)"
    using p by (simp_all add: memread_def Nat.add_diff_assoc Suc_le_eq)
  then show ?thesis
    using list_ends_eq[of ?x needle] n p len m
    by (auto simp: occurs_at_def middle_matches_def)
qed


section \<open>Every search finds the first occurrence\<close>

definition searchable :: "bytes \<Rightarrow> bytes \<Rightarrow> bool" where
  "searchable hay needle \<longleftrightarrow> 2 \<le> length needle \<and> length needle \<le> length hay"

lemma find_scalar_first_hit:
  assumes "searchable hay needle" and "at \<le> length hay - length needle + 1"
  shows "first_hit (occurs_at hay needle) at (length hay - length needle + 1) (find_scalar_from hay needle at)"
  using assms
proof (induction hay needle at rule: find_scalar_from.induct)
  case (1 hay needle at)
  let ?n = "length needle" and ?span = "length hay - length needle + 1"
  let ?P = "occurs_at hay needle"
  have n: "2 \<le> ?n" "?n \<le> length hay" using 1(2) by (auto simp: searchable_def)
  have ends: "?P p \<longleftrightarrow> hay ! p = needle ! 0 \<and> hay ! (p + ?n - 1) = needle ! (?n - 1) \<and> middle_matches hay needle p"
    if "p < ?span" for p
    using occurs_at_ends[of needle p hay] n that by simp
  have seg: "memread hay at (?span - at) ! k = hay ! (at + k)" if "k < ?span - at" for k
    using that n by (simp add: memread_def)
  show ?case
  proof (cases "memchr (needle ! 0) (memread hay at (?span - at))")
    case None
    then have notin: "needle ! 0 \<notin> set (memread hay at (?span - at))" by (simp add: memchr_None_iff)
    have "\<not> ?P p" if "at \<le> p" "p < ?span" for p
    proof -
      have "hay ! p = memread hay at (?span - at) ! (p - at)" using seg[of "p - at"] that by simp
      moreover have "p - at < length (memread hay at (?span - at))" using that n by simp
      ultimately have "hay ! p \<noteq> needle ! 0" using notin nth_mem by metis
      then show ?thesis using ends[OF that(2)] by simp
    qed
    then show ?thesis
      using None by (simp add: find_scalar_from.simps[of hay needle at] Let_def first_hit_none)
  next
    case (Some k)
    let ?p = "at + k"
    note mc = memchr_Some[OF Some]
    have k: "k < ?span - at" using mc(1) by simp
    have p: "?p < ?span" using k by simp
    have before: "\<not> ?P q" if "at \<le> q" "q < ?p" for q
    proof -
      have "q - at < k" using that by simp
      then have "memread hay at (?span - at) ! (q - at) \<in> set (take k (memread hay at (?span - at)))"
        using mc(1) by (metis in_set_conv_nth length_take min_less_iff_conj nth_take order.strict_trans)
      then have "hay ! q \<noteq> needle ! 0" using mc(3) seg[of "q - at"] that k by auto
      then show ?thesis using ends[of q] that p by simp
    qed
    show ?thesis
    proof (cases "hay ! (?p + ?n - 1) = needle ! (?n - 1) \<and> middle_matches hay needle ?p")
      case True
      moreover have "?P ?p" using ends[OF p] True mc(2) seg[OF k] by simp
      ultimately show ?thesis
        using Some before p
        by (auto simp: find_scalar_from.simps[of hay needle at] Let_def first_hit_def intro!: exI[of _ ?p])
    next
      case False
      then have "\<not> ?P ?p" using ends[OF p] by simp
      with before have "first_hit ?P at (?p + 1) (-1)" by (auto simp: first_hit_none less_Suc_eq)
      moreover have "first_hit ?P (?p + 1) ?span (find_scalar_from hay needle (?p + 1))"
        using 1(1)[OF refl refl Some refl] False 1(2) p by simp
      ultimately have "first_hit ?P at ?span (find_scalar_from hay needle (?p + 1))"
        by (rule first_hit_join) simp_all
      then show ?thesis using Some False by (auto simp: find_scalar_from.simps[of hay needle at] Let_def)
    qed
  qed
qed

lemma block_first_hit:
  assumes "searchable hay needle" and "i + w \<le> length hay - length needle + 1" and "w \<le> 32"
  shows "first_hit (occurs_at hay needle) i (i + w)
    (mask_scan (middle_matches hay needle) i
      (mask_of (lanes_and (lanes_eq (memread hay i w) (needle ! 0))
        (lanes_eq (memread hay (i + length needle - 1) w) (needle ! (length needle - 1))))))"
    (is "first_hit ?P i (i + w) (mask_scan ?hit i (mask_of ?l))")
proof -
  have n: "2 \<le> length needle" "length needle \<le> length hay" using assms(1) by (auto simp: searchable_def)
  have len: "length ?l = w" using assms(2) n by (simp add: lanes_and_def lanes_eq_def)
  have l: "?l ! j \<longleftrightarrow> hay ! (i + j) = needle ! 0 \<and> hay ! (i + j + length needle - 1) = needle ! (length needle - 1)"
    if "j < w" for j
    using that assms(2) n
    by (auto simp: lanes_and_def lanes_eq_def memread_def algebra_simps Nat.add_diff_assoc2)
  have "first_hit (\<lambda>p. i \<le> p \<and> bit (mask_of ?l) (p - i) \<and> ?hit p) i (i + 32) (mask_scan ?hit i (mask_of ?l))"
    by (rule mask_scan_first_hit)
  moreover have eq: "(i \<le> p \<and> bit (mask_of ?l) (p - i) \<and> ?hit p) \<longleftrightarrow> i \<le> p \<and> p < i + w \<and> ?P p" for p
    using l[of "p - i"] occurs_at_ends[of needle p hay] assms(2,3) n len by auto
  ultimately have "first_hit (\<lambda>p. i \<le> p \<and> p < i + w \<and> ?P p) i (i + 32) (mask_scan ?hit i (mask_of ?l))"
    by (simp only: eq)
  then show ?thesis using assms(3) unfolding first_hit_def by auto
qed

text \<open>The block loop, for any block width.\<close>

lemma block_loop_first_hit:
  assumes rec: "\<And>i. f i = (let at = blk i in if at \<ge> 0 then at else if i + w \<ge> span then -1
      else f (if i + w + w > span then span - w else i + w))"
    and blk: "\<And>i. i + w \<le> span \<Longrightarrow> first_hit P i (i + w) (blk i)"
    and "0 < w" and "i + w \<le> span"
  shows "first_hit P i span (f i)"
  using assms(4)
proof (induction "span - i" arbitrary: i rule: less_induct)
  case less
  note b = blk[OF less.prems]
  show ?case
  proof (cases "blk i \<ge> 0")
    case True
    then show ?thesis using first_hit_extend[OF b True less.prems] by (simp add: rec[of i] Let_def)
  next
    case False
    note none = b[unfolded first_hit_neg[OF b False]]
    show ?thesis
    proof (cases "i + w \<ge> span")
      case True
      then have "span = i + w" using less.prems by simp
      then show ?thesis using none False by (simp add: rec[of i] Let_def)
    next
      case more: False
      define j where "j = (if i + w + w > span then span - w else i + w)"
      have j: "j + w \<le> span" "i < j" "j \<le> i + w" using more less.prems \<open>0 < w\<close> by (auto simp: j_def)
      have "first_hit P j span (f j)" using less.hyps[of j] j by simp
      with none have "first_hit P i span (f j)" by (rule first_hit_join) (use j in simp_all)
      then show ?thesis using False more by (simp add: rec[of i] Let_def j_def)
    qed
  qed
qed

lemma first_hit_find_spec:
  "searchable hay needle \<Longrightarrow>
    first_hit (occurs_at hay needle) 0 (length hay - length needle + 1) r \<Longrightarrow> r = find_spec hay needle"
  using find_spec_first_hit[of needle hay r] by (fastforce simp: searchable_def)

lemma find_scalar_correct: "searchable hay needle \<Longrightarrow> ioxd__find_scalar hay needle = find_spec hay needle"
  using find_scalar_first_hit[of hay needle 0] first_hit_find_spec[of hay needle]
  by (simp add: ioxd__find_scalar_def)

lemma sse2_blocks_correct:
  assumes "searchable hay needle" and "16 \<le> length hay - length needle + 1"
  shows "sse2_blocks hay needle (length hay - length needle + 1) 0 = find_spec hay needle"
proof -
  let ?span = "length hay - length needle + 1"
  have "first_hit (occurs_at hay needle) 0 ?span (sse2_blocks hay needle ?span 0)"
  proof (rule block_loop_first_hit[where w = 16 and blk = "\<lambda>i. block16 hay i needle"])
    show "sse2_blocks hay needle ?span i = (let at = block16 hay i needle in
        if at \<ge> 0 then at else if i + 16 \<ge> ?span then -1
        else sse2_blocks hay needle ?span (if i + 16 + 16 > ?span then ?span - 16 else i + 16))" for i
      by (subst sse2_blocks.simps) simp
    show "first_hit (occurs_at hay needle) i (i + 16) (block16 hay i needle)" if "i + 16 \<le> ?span" for i
      using block_first_hit[OF assms(1) that] by (simp add: block16_def Let_def load16_def)
  qed (use assms(2) in simp_all)
  then show ?thesis by (rule first_hit_find_spec[OF assms(1)])
qed

lemma avx2_blocks_correct:
  assumes "searchable hay needle" and "32 \<le> length hay - length needle + 1"
  shows "avx2_blocks hay needle (length hay - length needle + 1) 0 = find_spec hay needle"
proof -
  let ?span = "length hay - length needle + 1"
  have "first_hit (occurs_at hay needle) 0 ?span (avx2_blocks hay needle ?span 0)"
  proof (rule block_loop_first_hit[where w = 32 and blk = "\<lambda>i. block32 hay i needle"])
    show "avx2_blocks hay needle ?span i = (let at = block32 hay i needle in
        if at \<ge> 0 then at else if i + 32 \<ge> ?span then -1
        else avx2_blocks hay needle ?span (if i + 32 + 32 > ?span then ?span - 32 else i + 32))" for i
      by (subst avx2_blocks.simps) simp
    show "first_hit (occurs_at hay needle) i (i + 32) (block32 hay i needle)" if "i + 32 \<le> ?span" for i
      using block_first_hit[OF assms(1) that] by (simp add: block32_def Let_def load32_def)
  qed (use assms(2) in simp_all)
  then show ?thesis by (rule first_hit_find_spec[OF assms(1)])
qed

text \<open>The short haystack: one vector load, the mask cut to the candidate positions.\<close>

lemma sse2_short_correct:
  assumes s: "searchable hay needle" and "length hay - length needle + 1 < 16" and "16 \<le> length hay"
  shows "mask_scan (\<lambda>j. memread hay (j + 1) (length needle - 1) = memread needle 1 (length needle - 1)) 0
      (mask_of (lanes_eq (load16 hay 0) (needle ! 0)) AND
        (push_bit (length hay - length needle + 1) 1 - 1)) = find_spec hay needle"
    (is "mask_scan ?hit 0 (?m AND (push_bit ?span 1 - 1)) = _")
proof -
  have n: "2 \<le> length needle" "length needle \<le> length hay" using s by (auto simp: searchable_def)
  have mask: "push_bit ?span 1 - 1 = (mask ?span :: u32)" by (simp add: mask_eq_exp_minus_1 push_bit_eq_mult)
  have bits: "bit (?m AND (push_bit ?span 1 - 1)) p \<longleftrightarrow> p < ?span \<and> hay ! p = needle ! 0" for p
    using assms(2,3) unfolding mask by (auto simp: bit_and_iff bit_mask_iff lanes_eq_def load16_def memread_def)
  have occ: "occurs_at hay needle p \<longleftrightarrow> hay ! p = needle ! 0 \<and> ?hit p" if "p < ?span" for p
  proof -
    have p: "p + length needle \<le> length hay" using that n by simp
    have cons: "zs = zs ! 0 # memread zs 1 (length zs - 1)" if "0 < length zs" for zs :: bytes
      using that by (cases zs) (auto simp: memread_def)
    have x: "memread hay p (length needle) = hay ! p # memread hay (p + 1) (length needle - 1)"
      using p n by (auto simp: memread_def Cons_nth_drop_Suc[symmetric] take_Cons')
    have y: "needle = needle ! 0 # memread needle 1 (length needle - 1)" using cons[of needle] n by linarith
    show ?thesis unfolding occurs_at_def using p x y by (metis list.inject)
  qed
  have "first_hit (\<lambda>p. 0 \<le> p \<and> bit (?m AND (push_bit ?span 1 - 1)) (p - 0) \<and> ?hit p) 0 (0 + 32)
      (mask_scan ?hit 0 (?m AND (push_bit ?span 1 - 1)))"
    by (rule mask_scan_first_hit)
  then have "first_hit (occurs_at hay needle) 0 ?span (mask_scan ?hit 0 (?m AND (push_bit ?span 1 - 1)))"
    using occ bits assms(2) unfolding first_hit_def by auto
  then show ?thesis by (rule first_hit_find_spec[OF s])
qed

lemma find_sse2_correct: "searchable hay needle \<Longrightarrow> ioxd__find_sse2 hay needle = find_spec hay needle"
  using sse2_blocks_correct[of hay needle] sse2_short_correct[of hay needle] find_scalar_correct[of hay needle]
  by (simp add: ioxd__find_sse2_def Let_def)

lemma find_avx2_correct: "searchable hay needle \<Longrightarrow> ioxd__find_avx2 hay needle = find_spec hay needle"
  using avx2_blocks_correct[of hay needle] find_sse2_correct[of hay needle]
  by (simp add: ioxd__find_avx2_def Let_def)

lemma find_char_correct: "ioxd_slice_find_char s c = find_spec s [c]"
proof (cases "s = []")
  case True
  then show ?thesis by (simp add: ioxd_slice_find_char_def find_spec_def occurs_at_def)
next
  case False
  have occ: "occurs_at s [c] i \<longleftrightarrow> i < length s \<and> s ! i = c" for i
    by (auto simp: occurs_at_def memread_def take_Suc_conv_app_nth hd_drop_conv_nth take_Suc)
  have "first_hit (occurs_at s [c]) 0 (length s - length [c] + 1) (ioxd_slice_find_char s c)"
  proof (cases "memchr c s")
    case None
    then have "c \<notin> set s" by (simp add: memchr_None_iff)
    then have "\<not> occurs_at s [c] k" for k by (auto simp: occ)
    then show ?thesis using None False by (simp add: ioxd_slice_find_char_def first_hit_none)
  next
    case (Some i)
    note m = memchr_Some[OF Some]
    have "\<not> occurs_at s [c] k" if "k < i" for k
      using m(1,3) that by (auto simp: occ in_set_conv_nth)
    then show ?thesis using Some False m(1,2)
      by (auto simp: ioxd_slice_find_char_def first_hit_def occ)
  qed
  then show ?thesis using find_spec_first_hit[of "[c]" s] False by (auto simp: Suc_le_eq)
qed

text \<open>
  C22.  Whatever the CPU, \<open>ioxd_slice_find_bytes\<close> returns the least index at which the needle
  occurs in the slice, and -1 when it occurs nowhere: the SSE2 and AVX2 block searches, with their
  masks and their overlapping last block, and the scalar loop all agree with the specification.
\<close>

theorem find_bytes_first_occurrence:
  "ioxd_slice_find_bytes avx2 hay needle = find_spec hay needle"
proof -
  have long: "length hay < length needle \<Longrightarrow> -1 = find_spec hay needle" for hay needle
    by (auto simp: find_spec_def occurs_at_def filter_empty_conv)
  have empty: "find_spec hay [] = 0"
    by (simp add: find_spec_def occurs_at_def upt_conv_Cons del: upt_Suc)
  consider "needle = []" | "length hay < length needle" | c where "needle = [c]"
    | "searchable hay needle"
    by (cases needle rule: remdups_adj.cases) (fastforce simp: searchable_def not_less)+
  then show ?thesis
    by cases (auto simp: ioxd_slice_find_bytes_def find_on_def long empty find_char_correct
        find_sse2_correct find_avx2_correct Let_def searchable_def)
qed

end
