(* ===== verification/Slice.thy ===== *)
theory Slice
  imports Find "HOL-Library.Sublist"
begin

text \<open>
  Slices and their helpers, \<^verbatim>\<open>include/ioxd/slice.h\<close> and the first half of
  \<^verbatim>\<open>lib/http/api.c\<close>: comparing, trimming, cutting and iterating slices, the conversions to
  machine integers and booleans, percent-decoding, and the key/value parser of query strings.

  A slice is the list of the bytes it spans.  An output parameter written only on success is the
  payload of an \<open>option\<close>; \<open>uint64_t\<close>, \<open>int64_t\<close> and \<open>int\<close> results are words, so the
  overflow tests of the source are computed the way the machine computes them.
\<close>

unbundle bit_operations_syntax

section \<open>Comparing and cutting\<close>

definition ioxd_slice_from :: "bytes \<Rightarrow> nat \<Rightarrow> bytes" where
  "ioxd_slice_from s at = (let at = (if at > length s then length s else at) in drop at s)"

definition ioxd_slice_upto :: "bytes \<Rightarrow> nat \<Rightarrow> bytes" where
  "ioxd_slice_upto s at = take (if at < length s then at else length s) s"

definition ioxd_slice_eq :: "bytes \<Rightarrow> bytes \<Rightarrow> bool" where
  "ioxd_slice_eq s cstr \<longleftrightarrow>
     (let n = length cstr in n = length s \<and> (n = 0 \<or> memread s 0 n = cstr))"

definition lower :: "byte \<Rightarrow> byte" where
  "lower c = (if (byte_val c + 256 - 65) mod 256 < 26 then char_of (byte_val c + 32) else c)"

fun same_ci :: "bytes \<Rightarrow> bytes \<Rightarrow> bool" where
  "same_ci (a # as) (b # bs) = (if lower a \<noteq> lower b then False else same_ci as bs)"
| "same_ci _ _ = True"

definition ioxd_slice_eq_ci :: "bytes \<Rightarrow> bytes \<Rightarrow> bool" where
  "ioxd_slice_eq_ci s cstr \<longleftrightarrow> (if length cstr \<noteq> length s then False else same_ci s cstr)"

definition ioxd_slice_starts_with :: "bytes \<Rightarrow> bytes \<Rightarrow> bool" where
  "ioxd_slice_starts_with s pre \<longleftrightarrow>
     (let n = length pre in n \<le> length s \<and> (n = 0 \<or> memread s 0 n = pre))"

definition ioxd_slice_ends_with :: "bytes \<Rightarrow> bytes \<Rightarrow> bool" where
  "ioxd_slice_ends_with s suf \<longleftrightarrow>
     (let n = length suf in n \<le> length s \<and> (n = 0 \<or> memread s (length s - n) n = suf))"

definition is_space :: "byte \<Rightarrow> bool" where
  "is_space c \<longleftrightarrow> c = CHR '' '' \<or> c = TAB \<or> c = CR \<or> c = LF"

fun trim_front :: "bytes \<Rightarrow> bytes" where
  "trim_front [] = []"
| "trim_front (c # s) = (if is_space c then trim_front s else c # s)"

function trim_back :: "bytes \<Rightarrow> bytes" where
  "trim_back s = (if s \<noteq> [] \<and> is_space (s ! (length s - 1)) then trim_back (take (length s - 1) s) else s)"
  by pat_completeness auto
termination
  by (relation "measure length") auto

declare trim_back.simps [simp del]

definition ioxd_slice_trim :: "bytes \<Rightarrow> bytes" where
  "ioxd_slice_trim s = trim_back (trim_front s)"

text \<open>The result, the head and the tail; the source may be asked for either part only.\<close>

definition ioxd_slice_cut :: "bytes \<Rightarrow> byte \<Rightarrow> bool \<times> bytes \<times> bytes" where
  "ioxd_slice_cut s sep =
     (let at = ioxd_slice_find_char s sep;
          head = (if at < 0 then s else ioxd_slice_upto s (nat at));
          tail = (if at < 0 then ioxd_slice_from s (length s) else ioxd_slice_from s (nat at + 1))
      in (at \<ge> 0, head, tail))"

text \<open>The next item and the list moved past it; \<open>None\<close> once the list is spent.\<close>

lemma cut_tail_shorter:
  "s \<noteq> [] \<Longrightarrow> length (snd (snd (ioxd_slice_cut s sep))) < length s"
  by (auto simp: ioxd_slice_cut_def ioxd_slice_from_def Let_def)

function ioxd_slice_next :: "bytes \<Rightarrow> byte \<Rightarrow> (bytes \<times> bytes) option" where
  "ioxd_slice_next lst sep =
     (if length lst = 0 then None
      else let (_, head, lst') = ioxd_slice_cut lst sep;
               head = ioxd_slice_trim head
           in if length head \<noteq> 0 then Some (head, lst') else ioxd_slice_next lst' sep)"
  by pat_completeness auto
termination
  by (relation "measure (\<lambda>(lst, sep). length lst)") (use cut_tail_shorter in \<open>fastforce simp: prod_eq_iff\<close>)+

declare ioxd_slice_next.simps [simp del]

text \<open>
  \<open>ioxd_cstr\<close>: what \<open>buf\<close> holds afterwards (unchanged for a zero capacity) and the result.
\<close>

definition ioxd_cstr :: "bytes \<Rightarrow> bytes \<Rightarrow> nat \<Rightarrow> bool \<times> bytes" where
  "ioxd_cstr s buf cap =
     (if cap = 0 then (False, buf)
      else let n = (if length s < cap then length s else cap - 1);
               buf = memwrite buf 0 (take n s @ [NUL])
           in (n = length s \<and> memchr NUL (memread buf 0 n) = None, buf))"


section \<open>Conversions\<close>

text \<open>\<open>unsigned d = (unsigned char)p[i] - '0'\<close> wraps huge for a byte below the digits.\<close>

definition digit_of :: "byte \<Rightarrow> u32" where
  "digit_of c = of_nat (byte_val c) - 48"

fun digits_loop :: "bytes \<Rightarrow> u64 \<Rightarrow> u64 \<Rightarrow> u64 option" where
  "digits_loop [] limit v = Some v"
| "digits_loop (c # cs) limit v =
     (let d = digit_of c in
      if d > 9 \<or> v > (limit - ucast d) div 10 then None
      else digits_loop cs limit (v * 10 + ucast d))"

definition digits_to_u64 :: "bytes \<Rightarrow> u64 \<Rightarrow> u64 option" where
  "digits_to_u64 p limit = (if length p = 0 then None else digits_loop p limit 0)"

definition UINT64_MAX :: u64 where "UINT64_MAX = - 1"
definition INT64_MAX :: u64 where "INT64_MAX = 9223372036854775807"

definition ioxd_to_u64 :: "bytes \<Rightarrow> u64 option" where
  "ioxd_to_u64 s = digits_to_u64 s UINT64_MAX"

text \<open>An \<open>int64_t\<close> is a \<open>64 word\<close> read with \<open>sint\<close>.\<close>

definition ioxd_to_i64 :: "bytes \<Rightarrow> u64 option" where
  "ioxd_to_i64 s =
     (let negative = (length s > 0 \<and> s ! 0 = CHR ''-'');
          limit = (if negative then INT64_MAX + 1 else INT64_MAX)
      in case digits_to_u64 (drop (of_bool negative) s) limit of
           None \<Rightarrow> None
         | Some magnitude \<Rightarrow>
             Some (if negative then (if magnitude \<noteq> 0 then - (magnitude - 1) - 1 else 0) else magnitude))"

definition ioxd_to_int :: "bytes \<Rightarrow> u32 option" where
  "ioxd_to_int s =
     (case ioxd_to_i64 s of
        None \<Rightarrow> None
      | Some v \<Rightarrow> (if sint v < - 2147483648 \<or> sint v > 2147483647 then None else Some (ucast v)))"

definition yes_words :: "bytes list" where
  "yes_words = [''true'', ''1'', ''yes'', ''on'']"

definition no_words :: "bytes list" where
  "no_words = [''false'', ''0'', ''no'', ''off'']"

fun to_bool_loop :: "bytes \<Rightarrow> (bytes \<times> bytes) list \<Rightarrow> bool option" where
  "to_bool_loop s [] = None"
| "to_bool_loop s ((y, n) # rest) =
     (if ioxd_slice_eq_ci s y then Some True
      else if ioxd_slice_eq_ci s n then Some False
      else to_bool_loop s rest)"

definition ioxd_to_bool :: "bytes \<Rightarrow> bool option" where
  "ioxd_to_bool s = to_bool_loop s (zip yes_words no_words)"


section \<open>Percent-decoding and key/value pairs\<close>

definition ioxd__http_hexval :: "byte \<Rightarrow> int" where
  "ioxd__http_hexval c =
     (if 48 \<le> byte_val c \<and> byte_val c \<le> 57 then int (byte_val c) - 48
      else let c = byte_val c OR 32 in
        if 97 \<le> c \<and> c \<le> 102 then int c - 97 + 10 else -1)"

fun decode :: "bytes \<Rightarrow> bytes" where
  "decode [] = []"
| "decode (c # cs) =
     (if c = CHR ''+'' then CHR '' '' # decode cs
      else if c = CHR ''%'' \<and> length cs \<ge> 2 then
        (let hi = ioxd__http_hexval (cs ! 0); lo = ioxd__http_hexval (cs ! 1) in
         if hi \<ge> 0 \<and> lo \<ge> 0 \<and> \<not> (hi = 0 \<and> lo = 0)
         then char_of (nat (hi * 16 + lo)) # decode (drop 2 cs)
         else CHR ''%'' # decode cs)
      else c # decode cs)"

text \<open>The decoded slice and the arena bytes used; \<open>None\<close> when it would not fit.\<close>

definition decode_into :: "bytes \<Rightarrow> nat \<Rightarrow> nat \<Rightarrow> (bytes \<times> nat) option" where
  "decode_into sl arena_cap used =
     (if used + length sl > arena_cap then None
      else let decoded = decode sl in Some (decoded, used + length decoded))"

text \<open>
  The scan of one pair from its start: where it ends, where its first \<open>=\<close> is (relative to the
  start), and whether its key or its value holds a byte to decode.
\<close>

fun scan_pair :: "bytes \<Rightarrow> nat \<Rightarrow> nat option \<Rightarrow> bool \<Rightarrow> bool \<Rightarrow> nat \<times> nat option \<times> bool \<times> bool" where
  "scan_pair [] i eq_at kd vd = (i, eq_at, kd, vd)"
| "scan_pair (ch # cs) i eq_at kd vd =
     (if ch = CHR ''&'' then (i, eq_at, kd, vd)
      else if ch = CHR ''='' then
        scan_pair cs (Suc i) (if eq_at = None then Some i else eq_at) kd vd
      else if ch = CHR ''%'' \<or> ch = CHR ''+'' then
        (if eq_at = None then scan_pair cs (Suc i) eq_at True vd
         else scan_pair cs (Suc i) eq_at kd True)
      else scan_pair cs (Suc i) eq_at kd vd)"

text \<open>One pair decoded into the arena where it needs to be; \<open>None\<close> gives its arena bytes back.\<close>

definition take_pair :: "bytes \<Rightarrow> bytes \<Rightarrow> bool \<Rightarrow> bool \<Rightarrow> nat \<Rightarrow> nat \<Rightarrow> ((bytes \<times> bytes) \<times> nat) option" where
  "take_pair key value kd vd arena_cap used =
     (case (if kd then decode_into key arena_cap used else Some (key, used)) of
        None \<Rightarrow> None
      | Some (key, used) \<Rightarrow>
          (case (if vd then decode_into value arena_cap used else Some (value, used)) of
             None \<Rightarrow> None
           | Some (value, used) \<Rightarrow> Some ((key, value), used)))"

lemma scan_pair_end: "scan_pair cs i eq_at kd vd = (e, r) \<Longrightarrow> i \<le> e \<and> e \<le> i + length cs"
proof (induction cs arbitrary: i eq_at kd vd)
  case (Cons c cs)
  from Cons.prems show ?case by (auto split: if_splits dest!: Cons.IH)
qed simp

text \<open>The loop over the pairs; \<open>out\<close> is filled in order and its length is the count.\<close>

function kv_loop :: "bytes \<Rightarrow> nat \<Rightarrow> nat \<Rightarrow> nat \<Rightarrow> bool \<Rightarrow> (bytes \<times> bytes) list
    \<Rightarrow> (bytes \<times> bytes) list \<times> nat \<times> bool" where
  "kv_loop text cap arena_cap used lost out =
     (if text = [] then (out, used, lost)
      else if length out = cap then (out, used, True)
      else
        (let (e, eq_at, kd, vd) = scan_pair text 0 None False False;
             rest = drop (e + 1) text
         in if e > 0 then
              (let key = take (case eq_at of Some q \<Rightarrow> q | None \<Rightarrow> e) text;
                   value = (case eq_at of Some q \<Rightarrow> memread text (q + 1) (e - q - 1) | None \<Rightarrow> [])
               in case take_pair key value kd vd arena_cap used of
                    Some (kv, used') \<Rightarrow> kv_loop rest cap arena_cap used' lost (out @ [kv])
                  | None \<Rightarrow> kv_loop rest cap arena_cap used True out)
            else kv_loop rest cap arena_cap used lost out))"
  by pat_completeness auto
termination
  by (relation "measure (\<lambda>(text, _). length text)") auto

declare kv_loop.simps [simp del]

definition ioxd_kv_parse :: "bytes \<Rightarrow> nat \<Rightarrow> nat \<Rightarrow> (bytes \<times> bytes) list \<times> nat \<times> bool" where
  "ioxd_kv_parse text cap arena_cap = kv_loop text cap arena_cap 0 False []"

text \<open>The value of the first pair with that key; \<open>None\<close> is the absent slice.\<close>

fun kv_lookup :: "(bytes \<times> bytes) list \<Rightarrow> bytes \<Rightarrow> bytes option" where
  "kv_lookup [] name = None"
| "kv_lookup ((k, v) # pairs) name =
     (if length k = length name \<and> k = name then Some v else kv_lookup pairs name)"


section \<open>Comparing and cutting: what the helpers compute\<close>

lemma slice_eq_iff [simp]: "ioxd_slice_eq s t \<longleftrightarrow> s = t"
  by (auto simp: ioxd_slice_eq_def memread_def Let_def)

lemma starts_with_iff: "ioxd_slice_starts_with s p \<longleftrightarrow> (\<exists>t. s = p @ t)"
proof
  assume h: "ioxd_slice_starts_with s p"
  then have "take (length p) s = p" by (auto simp: ioxd_slice_starts_with_def memread_def Let_def)
  then show "\<exists>t. s = p @ t" by (metis append_take_drop_id)
qed (auto simp: ioxd_slice_starts_with_def memread_def Let_def)

lemma ends_with_iff: "ioxd_slice_ends_with s p \<longleftrightarrow> (\<exists>t. s = t @ p)"
proof
  assume h: "ioxd_slice_ends_with s p"
  then have "drop (length s - length p) s = p"
    by (auto simp: ioxd_slice_ends_with_def memread_def Let_def)
  then show "\<exists>t. s = t @ p" by (metis append_take_drop_id)
qed (auto simp: ioxd_slice_ends_with_def memread_def Let_def)

lemma same_ci_iff: "length s = length t \<Longrightarrow> same_ci s t \<longleftrightarrow> map lower s = map lower t"
  by (induction s t rule: same_ci.induct) auto

lemma eq_ci_iff: "ioxd_slice_eq_ci s t \<longleftrightarrow> map lower s = map lower t"
  using same_ci_iff[of s t] map_eq_imp_length_eq[of lower s lower t]
  by (auto simp: ioxd_slice_eq_ci_def)

lemma trim_front_eq: "trim_front s = dropWhile is_space s"
  by (induction s) auto

lemma trim_back_eq: "trim_back s = rev (dropWhile is_space (rev s))"
proof (induction s rule: trim_back.induct)
  case (1 s)
  show ?case
  proof (cases s rule: rev_cases)
    case Nil
    then show ?thesis by (simp add: trim_back.simps)
  next
    case (snoc ys y)
    then show ?thesis using 1 by (subst trim_back.simps) (auto simp: nth_append)
  qed
qed

text \<open>Trimming takes a whole run of whitespace off each end and nothing else.\<close>

lemma slice_trim_decomp:
  "\<exists>l r. s = l @ ioxd_slice_trim s @ r \<and> list_all is_space l \<and> list_all is_space r"
proof -
  let ?t = "dropWhile is_space s"
  have a: "s = takeWhile is_space s @ ?t" by simp
  have "rev ?t = takeWhile is_space (rev ?t) @ dropWhile is_space (rev ?t)" by simp
  then have "rev (rev ?t) = rev (takeWhile is_space (rev ?t) @ dropWhile is_space (rev ?t))" by simp
  then have b: "?t = rev (dropWhile is_space (rev ?t)) @ rev (takeWhile is_space (rev ?t))"
    by (simp only: rev_append rev_rev_ident)
  have "s = takeWhile is_space s @ ioxd_slice_trim s @ rev (takeWhile is_space (rev ?t))"
    using a b by (simp add: ioxd_slice_trim_def trim_front_eq trim_back_eq)
  moreover have "list_all is_space (takeWhile is_space s)"
    "list_all is_space (rev (takeWhile is_space (rev ?t)))"
    by (auto simp: list_all_iff dest: set_takeWhileD)
  ultimately show ?thesis by blast
qed

lemma slice_trim_ends:
  "ioxd_slice_trim s = [] \<or> \<not> is_space (hd (ioxd_slice_trim s)) \<and> \<not> is_space (last (ioxd_slice_trim s))"
proof (cases "ioxd_slice_trim s = []")
  case False
  let ?t = "dropWhile is_space s"
  have t: "ioxd_slice_trim s = rev (dropWhile is_space (rev ?t))"
    by (simp add: ioxd_slice_trim_def trim_front_eq trim_back_eq)
  have ne: "dropWhile is_space (rev ?t) \<noteq> []" using False t by simp
  then have l: "\<not> is_space (last (ioxd_slice_trim s))" using t hd_dropWhile[OF ne] by (simp add: last_rev)
  have "?t \<noteq> []" using ne by (metis dropWhile.simps(1) rev.simps(1))
  moreover have "\<exists>zs. ?t = ioxd_slice_trim s @ zs"
    using t by (metis takeWhile_dropWhile_id rev_append rev_rev_ident)
  ultimately have "hd (ioxd_slice_trim s) = hd ?t" using False by (metis hd_append2)
  then show ?thesis using l hd_dropWhile[OF \<open>?t \<noteq> []\<close>] by simp
qed simp

fun split_on :: "byte \<Rightarrow> bytes \<Rightarrow> bytes list" where
  "split_on sep [] = [[]]"
| "split_on sep (c # cs) =
     (if c = sep then [] # split_on sep cs
      else (case split_on sep cs of [] \<Rightarrow> [[c]] | p # ps \<Rightarrow> (c # p) # ps))"

lemma split_on_nonempty [simp]: "split_on sep s \<noteq> []"
  by (induction s) (auto split: list.splits)

lemma split_on_notin: "sep \<notin> set s \<Longrightarrow> split_on sep s = [s]"
  by (induction s) auto

lemma split_on_append: "sep \<notin> set s \<Longrightarrow> split_on sep (s @ sep # t) = s # split_on sep t"
  by (induction s) auto

text \<open>Cutting: at the first separator, or the whole slice and an empty tail.\<close>

lemma slice_cut_none: "sep \<notin> set s \<Longrightarrow> ioxd_slice_cut s sep = (False, s, [])"
  by (auto simp: ioxd_slice_cut_def ioxd_slice_find_char_def ioxd_slice_from_def Let_def
      memchr_None_iff[THEN iffD2])

lemma slice_cut_at: "sep \<notin> set s \<Longrightarrow> ioxd_slice_cut (s @ sep # t) sep = (True, s, t)"
  by (auto simp: ioxd_slice_cut_def ioxd_slice_find_char_def ioxd_slice_from_def ioxd_slice_upto_def Let_def)

lemma slice_cut_cases:
  obtains "sep \<notin> set s" "ioxd_slice_cut s sep = (False, s, [])"
  | h t where "sep \<notin> set h" "s = h @ sep # t" "ioxd_slice_cut s sep = (True, h, t)"
proof (cases "sep \<in> set s")
  case True
  then obtain h t where "s = h @ sep # t" "sep \<notin> set h" using split_list_first by metis
  then show ?thesis using slice_cut_at that(2) by blast
qed (use slice_cut_none that(1) in blast)

text \<open>The items of a list, as a loop over \<open>ioxd_slice_next\<close> sees them.\<close>

lemma slice_next_shorter: "ioxd_slice_next l sep = Some (item, l') \<Longrightarrow> length l' < length l"
proof (induction l sep rule: ioxd_slice_next.induct)
  case (1 l sep)
  obtain b h t where cut: "ioxd_slice_cut l sep = (b, h, t)" by (metis surj_pair)
  have ne: "l \<noteq> []" using 1(2) by (auto simp: ioxd_slice_next.simps[of l sep])
  then have lt: "length t < length l" using cut_tail_shorter[OF ne, of sep] cut by simp
  show ?case
  proof (cases "ioxd_slice_trim h = []")
    case True
    then have "ioxd_slice_next t sep = Some (item, l')"
      using 1(2) ne cut by (simp add: ioxd_slice_next.simps[of l sep])
    then have "length l' < length t" using 1(1) True ne cut by simp
    then show ?thesis using lt by simp
  next
    case False
    then show ?thesis using 1(2) ne cut lt by (auto simp: ioxd_slice_next.simps[of l sep])
  qed
qed

function slice_items :: "bytes \<Rightarrow> byte \<Rightarrow> bytes list" where
  "slice_items l sep =
     (case ioxd_slice_next l sep of None \<Rightarrow> [] | Some (item, l') \<Rightarrow> item # slice_items l' sep)"
  by pat_completeness auto
termination
  by (relation "measure (\<lambda>(l, sep). length l)") (auto dest: slice_next_shorter)

declare slice_items.simps [simp del]

lemma slice_items_cut:
  assumes "l \<noteq> []" and "ioxd_slice_cut l sep = (b, h, t)"
  shows "slice_items l sep =
    (if ioxd_slice_trim h = [] then [] else [ioxd_slice_trim h]) @ slice_items t sep"
  using assms
  by (subst slice_items.simps, subst ioxd_slice_next.simps)
     (auto simp: slice_items.simps[of t sep])


lemma slice_items_Nil [simp]: "slice_items [] sep = []"
  by (simp add: slice_items.simps ioxd_slice_next.simps)

lemma slice_items_split:
  "slice_items l sep = filter (\<lambda>x. x \<noteq> []) (map ioxd_slice_trim (split_on sep l))"
proof (induction l rule: length_induct)
  case (1 l)
  show ?case
  proof (cases "l = []")
    case True
    then show ?thesis by (simp add: ioxd_slice_trim_def trim_back.simps)
  next
    case False
    show ?thesis
    proof (cases rule: slice_cut_cases[of sep l])
      case 1
      then show ?thesis using slice_items_cut[OF False, of sep] by (simp add: split_on_notin)
    next
      case (2 h t)
      then have "slice_items t sep = filter (\<lambda>x. x \<noteq> []) (map ioxd_slice_trim (split_on sep t))"
        using 1 by simp
      then show ?thesis using slice_items_cut[OF False 2(3)] 2(1,2) by (simp add: split_on_append)
    qed
  qed
qed


section \<open>Conversions: exact, with no wrap-around\<close>

lemma digit_of_le_9: "digit_of c \<le> 9 \<longleftrightarrow> is_digit c"
proof -
  have u: "unat (of_nat (byte_val c) :: u32) = byte_val c"
    using nat_of_char_less_256[of c] by (intro unat_of_nat_less) (simp add: less_trans[of _ 256])
  show ?thesis
  proof (cases "48 \<le> byte_val c")
    case True
    then have "unat (digit_of c) = byte_val c - 48"
      using u by (simp add: digit_of_def unat_sub word_le_nat_alt)
    then show ?thesis using True by (auto simp: word_le_nat_alt is_digit_def)
  next
    case False
    then have "unat (digit_of c) = 2 ^ 32 + byte_val c - 48"
      using u by (simp add: digit_of_def unat_sub_if')
    then show ?thesis using False by (auto simp: word_le_nat_alt is_digit_def)
  qed
qed

lemma unat_digit_of: "is_digit c \<Longrightarrow> unat (ucast (digit_of c) :: u64) = digit_val c"
proof -
  assume d: "is_digit c"
  have u: "unat (of_nat (byte_val c) :: u32) = byte_val c"
    using nat_of_char_less_256[of c] by (intro unat_of_nat_less) (simp add: less_trans[of _ 256])
  have "unat (digit_of c) = byte_val c - 48"
    using u d by (simp add: digit_of_def unat_sub word_le_nat_alt is_digit_def)
  moreover have "unat (ucast (digit_of c) :: u64) = unat (digit_of c)"
    using unsigned_less[of "digit_of c", where 'a = nat]
    by (simp add: unsigned_ucast_eq take_bit_nat_eq_self)
  ultimately show ?thesis by (simp add: digit_val_def)
qed

text \<open>One step of the loop: the test is exactly that the next value stays within the limit.\<close>

lemma digit_step:
  assumes "is_digit c" and "unat limit \<ge> 9"
  shows "(v > (limit - ucast (digit_of c)) div 10) \<longleftrightarrow> unat v * 10 + digit_val c > unat (limit :: u64)"
    and "unat v * 10 + digit_val c \<le> unat limit \<Longrightarrow>
           unat (v * 10 + ucast (digit_of c)) = unat v * 10 + digit_val c"
proof -
  let ?d = "ucast (digit_of c) :: u64"
  have d: "unat ?d = digit_val c" "digit_val c < 10" using assms(1) unat_digit_of digit_val_less by auto
  have le: "?d \<le> limit" using d assms(2) by (simp add: word_le_nat_alt)
  have sub: "unat (limit - ?d) = unat limit - digit_val c" using unat_sub[OF le] d by simp
  have dv: "unat ((limit - ?d) div 10) = (unat limit - digit_val c) div 10"
    using sub by (simp add: unat_div)
  show "(v > (limit - ?d) div 10) \<longleftrightarrow> unat v * 10 + digit_val c > unat limit"
    unfolding word_less_nat_alt dv using d assms(2) by linarith
  assume h: "unat v * 10 + digit_val c \<le> unat limit"
  have lim: "unat limit < 2 ^ 64" using unsigned_less[of limit, where 'a = nat] by simp
  have mul: "unat (v * 10) = unat v * 10"
    using h lim by (subst unat_mult_lem[THEN iffD1]) auto
  show "unat (v * 10 + ?d) = unat v * 10 + digit_val c"
    using h lim mul d by (subst unat_add_lem[THEN iffD1]) auto
qed

lemma digits_loop_spec:
  assumes "unat limit \<ge> 9" and "unat v \<le> unat limit"
  shows "digits_loop ds limit v =
    (if list_all is_digit ds \<and> foldl (\<lambda>v c. v * 10 + digit_val c) (unat v) ds \<le> unat limit
     then Some (of_nat (foldl (\<lambda>v c. v * 10 + digit_val c) (unat v) ds)) else None)"
  using assms(2)
proof (induction ds arbitrary: v)
  case Nil
  then show ?case by simp
next
  case (Cons c ds)
  let ?f = "\<lambda>v c. v * 10 + digit_val c"
  show ?case
  proof (cases "is_digit c")
    case False
    then have "digit_of c > 9" using digit_of_le_9[of c] by simp
    then show ?thesis using False by (simp add: Let_def)
  next
    case True
    note step = digit_step[OF True assms(1), of v]
    have nine: "\<not> digit_of c > 9" using digit_of_le_9[of c] True by simp
    show ?thesis
    proof (cases "?f (unat v) c \<le> unat limit")
      case le: True
      then have "digits_loop (c # ds) limit v = digits_loop ds limit (v * 10 + ucast (digit_of c))"
        using nine step(1) by (simp add: Let_def)
      then show ?thesis using Cons.IH[of "v * 10 + ucast (digit_of c)"] step(2)[OF le] le True by simp
    next
      case gt: False
      then have "\<not> foldl ?f (?f (unat v) c) ds \<le> unat limit"
        using foldl_digits_mono[of "?f (unat v) c" ds] by linarith
      then show ?thesis using gt nine step(1) True by (simp add: Let_def)
    qed
  qed
qed

text \<open>
  \<open>digits_to_u64\<close> accepts a slice exactly when it is a non-empty string of decimal digits
  whose value does not exceed the limit, and then returns that value: the overflow test of the loop,
  computed on 64-bit words, never lets a product or a sum wrap around.
\<close>

lemma digits_to_u64_iff:
  assumes "unat limit \<ge> 9"
  shows "digits_to_u64 p limit = Some v \<longleftrightarrow>
    p \<noteq> [] \<and> list_all is_digit p \<and> digits_value p \<le> unat limit \<and> unat v = digits_value p"
proof -
  have "unat (of_nat (digits_value p) :: u64) = digits_value p" if "digits_value p \<le> unat limit"
    using that unsigned_less[of limit, where 'a = nat] by (intro unat_of_nat_less) simp
  then show ?thesis
    using digits_loop_spec[OF assms, of 0 p]
    by (auto simp: digits_to_u64_def digits_value_def intro: word_unat_eq_iff[THEN iffD2])
qed

lemma unat_INT64_MAX: "unat INT64_MAX = 9223372036854775807"
  by (simp add: INT64_MAX_def)

lemma unat_UINT64_MAX: "unat UINT64_MAX = 18446744073709551615"
  unfolding UINT64_MAX_def by transfer (simp add: mask_eq_exp_minus_1)

lemma to_u64_exact:
  "ioxd_to_u64 s = Some v \<longleftrightarrow>
    s \<noteq> [] \<and> list_all is_digit s \<and> digits_value s < 2 ^ 64 \<and> unat v = digits_value s"
proof -
  have "digits_to_u64 s UINT64_MAX = Some v \<longleftrightarrow>
    s \<noteq> [] \<and> list_all is_digit s \<and> digits_value s \<le> unat UINT64_MAX \<and> unat v = digits_value s"
    by (rule digits_to_u64_iff) (simp add: unat_UINT64_MAX)
  then show ?thesis by (auto simp: ioxd_to_u64_def unat_UINT64_MAX)
qed


lemma sint_of_magnitude:
  assumes "unat m \<le> 9223372036854775807"
  shows "sint (m :: u64) = int (unat m)"
proof -
  have u: "uint m = int (unat m)" by simp
  have "- 9223372036854775808 \<le> uint m" "uint m < 9223372036854775808"
    using assms unfolding u by linarith+
  from sint_word_of_int_64[OF this] show ?thesis by simp
qed

lemma sint_of_negated:
  assumes "unat m \<le> 9223372036854775808"
  shows "sint (- (m - 1) - 1 :: u64) = - int (unat m)"
proof -
  have u: "uint m = int (unat m)" by simp
  have "- 9223372036854775808 \<le> - uint m" "- uint m < 9223372036854775808"
    using assms unfolding u by linarith+
  from sint_word_of_int_64[OF this] show ?thesis by simp
qed


definition i64_text :: "bytes \<Rightarrow> int \<Rightarrow> bool" where
  "i64_text s v \<longleftrightarrow>
     (\<exists>ds. ds \<noteq> [] \<and> list_all is_digit ds \<and>
        (s = ds \<and> v = int (digits_value ds) \<or> s = CHR ''-'' # ds \<and> v = - int (digits_value ds)))"

lemma not_digit_minus [simp]: "\<not> is_digit (CHR ''-'')"
  by (simp add: is_digit_def)

lemma to_i64_negative:
  "ioxd_to_i64 (CHR ''-'' # ds) = Some w \<longleftrightarrow>
     ds \<noteq> [] \<and> list_all is_digit ds \<and> sint w = - int (digits_value ds)"
proof -
  have lim: "unat (INT64_MAX + 1) = 9223372036854775808" by (simp add: INT64_MAX_def)
  note iff = digits_to_u64_iff[of "INT64_MAX + 1" ds, unfolded lim, simplified]
  have "ioxd_to_i64 (CHR ''-'' # ds) = Some w \<longleftrightarrow>
      (\<exists>m. digits_to_u64 ds (INT64_MAX + 1) = Some m \<and> w = - (m - 1) - 1)"
    by (auto simp: ioxd_to_i64_def split: option.splits)
  also have "\<dots> \<longleftrightarrow> ds \<noteq> [] \<and> list_all is_digit ds \<and> sint w = - int (digits_value ds)"
  proof
    assume "\<exists>m. digits_to_u64 ds (INT64_MAX + 1) = Some m \<and> w = - (m - 1) - 1"
    then obtain m where m: "digits_to_u64 ds (INT64_MAX + 1) = Some m" "w = - (m - 1) - 1" by blast
    then have "unat m = digits_value ds" "unat m \<le> 9223372036854775808" using iff by auto
    then have "sint w = - int (digits_value ds)" using sint_of_negated[of m] m(2) by metis
    then show "ds \<noteq> [] \<and> list_all is_digit ds \<and> sint w = - int (digits_value ds)" using m(1) iff by blast
  next
    assume h: "ds \<noteq> [] \<and> list_all is_digit ds \<and> sint w = - int (digits_value ds)"
    have "- 9223372036854775808 \<le> sint w" using sint_ge[of w] by simp
    then have le: "digits_value ds \<le> 9223372036854775808" using h by linarith
    let ?m = "of_nat (digits_value ds) :: u64"
    have m: "unat ?m = digits_value ds" using le by (intro unat_of_nat_less) simp
    then have "sint (- (?m - 1) - 1) = sint w" using sint_of_negated[of ?m] le h by simp
    then show "\<exists>m. digits_to_u64 ds (INT64_MAX + 1) = Some m \<and> w = - (m - 1) - 1"
      using iff m le h by (metis word_eq_iff_signed)
  qed
  finally show ?thesis .
qed

lemma to_i64_plain:
  assumes "\<not> (length s > 0 \<and> s ! 0 = CHR ''-'')"
  shows "ioxd_to_i64 s = Some w \<longleftrightarrow> s \<noteq> [] \<and> list_all is_digit s \<and> sint w = int (digits_value s)"
proof -
  have "ioxd_to_i64 s = Some w \<longleftrightarrow> digits_to_u64 s INT64_MAX = Some w"
    using assms by (auto simp: ioxd_to_i64_def split: option.splits)
  also have "\<dots> \<longleftrightarrow> s \<noteq> [] \<and> list_all is_digit s \<and> digits_value s \<le> 9223372036854775807 \<and> unat w = digits_value s"
    using digits_to_u64_iff[of INT64_MAX s w] by (simp add: unat_INT64_MAX)
  also have "\<dots> \<longleftrightarrow> s \<noteq> [] \<and> list_all is_digit s \<and> sint w = int (digits_value s)"
  proof (intro conj_cong refl iffI)
    assume "digits_value s \<le> 9223372036854775807 \<and> unat w = digits_value s"
    then show "sint w = int (digits_value s)" using sint_of_magnitude[of w] by metis
  next
    assume h: "sint w = int (digits_value s)"
    have le: "digits_value s \<le> 9223372036854775807" using h sint_lt[of w] by simp
    let ?m = "of_nat (digits_value s) :: u64"
    have m: "unat ?m = digits_value s" using le by (intro unat_of_nat_less) simp
    then have "?m = w" using sint_of_magnitude[of ?m] le h by (metis word_eq_iff_signed)
    then show "digits_value s \<le> 9223372036854775807 \<and> unat w = digits_value s" using le m by simp
  qed
  finally show ?thesis .
qed

lemma to_i64_iff: "ioxd_to_i64 s = Some w \<longleftrightarrow> i64_text s (sint w)"
proof (cases "length s > 0 \<and> s ! 0 = CHR ''-''")
  case True
  then obtain ds where "s = CHR ''-'' # ds" by (cases s) auto
  then show ?thesis using to_i64_negative[of ds w] by (auto simp: i64_text_def)
next
  case False
  then have "s \<noteq> CHR ''-'' # ds" for ds by auto
  then show ?thesis using to_i64_plain[OF False, of w] by (auto simp: i64_text_def)
qed

text \<open>
  \<open>ioxd_to_i64\<close> accepts exactly the slices that are an optional minus sign and decimal
  digits denoting a number of the \<open>int64_t\<close> range, \<open>INT64_MIN\<close> included, and returns that
  number; anything else is refused.
\<close>

theorem to_i64_exact: "ioxd_to_i64 s = Some w \<longleftrightarrow> i64_text s (sint w)"
  by (rule to_i64_iff)


section \<open>Percent-decoding\<close>

definition special :: "byte \<Rightarrow> bool" where
  "special c \<longleftrightarrow> c = CHR ''%'' \<or> c = CHR ''+''"

lemma special_eq [simp]: "\<not> special (CHR ''='')"
  by (simp add: special_def)

lemma decode_plain: "list_all (\<lambda>c. \<not> special c) s \<Longrightarrow> decode s = s"
  by (induction s rule: decode.induct) (auto simp: special_def)

lemma decode_length: "length (decode s) \<le> length s"
proof (induction s rule: decode.induct)
  case (2 c cs)
  let ?hi = "ioxd__http_hexval (cs ! 0)" and ?lo = "ioxd__http_hexval (cs ! 1)"
  have "length (decode (drop 2 cs)) \<le> length cs"
    if "c \<noteq> CHR ''+''" "c = CHR ''%'' \<and> length cs \<ge> 2" "?hi \<ge> 0 \<and> ?lo \<ge> 0 \<and> \<not> (?hi = 0 \<and> ?lo = 0)"
    using 2(2)[OF that(1,2) refl refl that(3)] by simp
  then show ?case using 2(1,3,4) by (auto simp: Let_def)
qed simp

lemma hexval_bounds: "ioxd__http_hexval c \<le> 15"
  by (auto simp: ioxd__http_hexval_def Let_def)

text \<open>
  Percent-decoding never lengthens its input and never produces a NUL byte that was not
  there: an escaped \<open>%00\<close> stays as written, so a decoded value cannot end early as a C string.
\<close>

theorem decode_safe: "NUL \<notin> set s \<Longrightarrow> length (decode s) \<le> length s \<and> NUL \<notin> set (decode s)"
proof -
  have "NUL \<in> set (decode s) \<Longrightarrow> NUL \<in> set s"
  proof (induction s rule: decode.induct)
    case (2 c cs)
    let ?hi = "ioxd__http_hexval (cs ! 0)" and ?lo = "ioxd__http_hexval (cs ! 1)"
    show ?case
    proof (cases "c \<noteq> CHR ''+'' \<and> c = CHR ''%'' \<and> length cs \<ge> 2 \<and>
        ?hi \<ge> 0 \<and> ?lo \<ge> 0 \<and> \<not> (?hi = 0 \<and> ?lo = 0)")
      case True
      have "nat (?hi * 16 + ?lo) < 256" "0 < nat (?hi * 16 + ?lo)"
        using hexval_bounds[of "cs ! 0"] hexval_bounds[of "cs ! 1"] True by auto
      then have "byte_val (char_of (nat (?hi * 16 + ?lo))) \<noteq> byte_val NUL" by simp
      then have "char_of (nat (?hi * 16 + ?lo)) \<noteq> NUL" by metis
      moreover have "decode (c # cs) = char_of (nat (?hi * 16 + ?lo)) # decode (drop 2 cs)"
        using True by (simp add: Let_def)
      ultimately have "NUL \<in> set (decode (drop 2 cs))" using 2(5) by auto
      then have "NUL \<in> set (drop 2 cs)" using 2 True by (auto simp: Let_def)
      then show ?thesis by (auto dest: in_set_dropD)
    next
      case False
      then show ?thesis using 2 by (auto simp: Let_def split: if_splits)
    qed
  qed simp
  then show "NUL \<notin> set s \<Longrightarrow> ?thesis" using decode_length by blast
qed

theorem decode_safe_witness: "NUL \<notin> set ''a%00b'' \<and> NUL \<notin> set (decode ''a%00b'')"
  using decode_safe[of "''a%00b''"] by simp


definition hex_digit :: "nat \<Rightarrow> byte" where
  "hex_digit d = ''0123456789abcdef'' ! d"

definition pct_encode :: "bytes \<Rightarrow> bytes" where
  "pct_encode s =
     concat (map (\<lambda>c. [CHR ''%'', hex_digit (byte_val c div 16), hex_digit (byte_val c mod 16)]) s)"

lemma hexval_hex_digit: "d < 16 \<Longrightarrow> ioxd__http_hexval (hex_digit d) = int d"
proof -
  have "\<forall>d \<in> set [0..<16]. ioxd__http_hexval (hex_digit d) = int d" by code_simp
  then show "d < 16 \<Longrightarrow> ioxd__http_hexval (hex_digit d) = int d" by simp
qed

lemma decode_escape:
  assumes "ioxd__http_hexval a = int h" and "ioxd__http_hexval b = int l" and "\<not> (h = 0 \<and> l = 0)"
  shows "decode (CHR ''%'' # a # b # cs) = char_of (h * 16 + l) # decode cs"
proof -
  have "nat (int h * 16 + int l) = h * 16 + l" by (simp add: nat_add_distrib nat_mult_distrib)
  then show ?thesis using assms by (subst decode.simps) (auto simp del: decode.simps simp: Let_def)
qed

text \<open>
  Percent-encoding any byte string without a NUL and decoding it gives the string back.
\<close>

theorem decode_pct_encode: "NUL \<notin> set s \<Longrightarrow> decode (pct_encode s) = s"
proof (induction s)
  case Nil
  then show ?case by (simp add: pct_encode_def)
next
  case (Cons c s)
  let ?h = "byte_val c div 16" and ?l = "byte_val c mod 16"
  have h: "?h < 16" using nat_of_char_less_256[of c] by linarith
  have "byte_val c \<noteq> byte_val NUL" using Cons.prems by (metis list.set_intros(1) of_char_eq_iff)
  then have nz: "\<not> (?h = 0 \<and> ?l = 0)" using div_mult_mod_eq[of "byte_val c" 16] by auto
  have "pct_encode (c # s) = CHR ''%'' # hex_digit ?h # hex_digit ?l # pct_encode s"
    by (simp add: pct_encode_def)
  then have "decode (pct_encode (c # s)) = char_of (?h * 16 + ?l) # decode (pct_encode s)"
    using decode_escape[OF hexval_hex_digit hexval_hex_digit nz] h by simp
  then show ?case using Cons by simp
qed

theorem decode_pct_encode_witness: "NUL \<notin> set ''a b%c'' \<and> decode (pct_encode ''a b%c'') = ''a b%c''"
proof -
  have h: "NUL \<notin> set ''a b%c''" by simp
  show ?thesis using h decode_pct_encode[OF h] by blast
qed


section \<open>Key/value pairs\<close>

definition kv_pair_spec :: "bytes \<Rightarrow> bytes \<times> bytes" where
  "kv_pair_spec p =
     (case memchr (CHR ''='') p of
        None \<Rightarrow> (decode p, [])
      | Some q \<Rightarrow> (decode (take q p), decode (drop (Suc q) p)))"

definition kv_spec :: "bytes \<Rightarrow> (bytes \<times> bytes) list" where
  "kv_spec text = map kv_pair_spec (filter (\<lambda>p. p \<noteq> []) (split_on (CHR ''&'') text))"

abbreviation segment :: "bytes \<Rightarrow> bytes" where
  "segment cs \<equiv> takeWhile (\<lambda>c. c \<noteq> CHR ''&'') cs"

lemma scan_pair_after_eq:
  "scan_pair cs i (Some q) kd vd =
     (i + length (segment cs), Some q, kd, vd \<or> list_ex special (segment cs))"
proof (induction cs arbitrary: i vd)
  case (Cons c cs)
  show ?case by (auto simp: Cons.IH special_def[of c])
qed simp

lemma scan_pair_spec:
  "scan_pair cs i None kd vd =
     (i + length (segment cs), map_option (\<lambda>q. i + q) (memchr (CHR ''='') (segment cs)),
      kd \<or> list_ex special (takeWhile (\<lambda>c. c \<noteq> CHR ''='') (segment cs)),
      vd \<or> list_ex special (dropWhile (\<lambda>c. c \<noteq> CHR ''='') (segment cs)))"
proof (induction cs arbitrary: i kd vd)
  case (Cons c cs)
  show ?case
    by (cases "memchr (CHR ''='') (segment cs)")
       (auto simp: Cons.IH scan_pair_after_eq special_def[of c])
qed simp

lemma takeWhile_memchr:
  "takeWhile (\<lambda>c. c \<noteq> x) s = (case memchr x s of Some q \<Rightarrow> take q s | None \<Rightarrow> s)"
  by (induction s) (auto split: option.splits)

lemma dropWhile_memchr:
  "dropWhile (\<lambda>c. c \<noteq> x) s = (case memchr x s of Some q \<Rightarrow> x # drop (Suc q) s | None \<Rightarrow> [])"
  by (induction s) (auto split: option.splits)

text \<open>A pair the loop keeps is the decoded pair, whether or not it went through the arena.\<close>

lemma take_pair_spec:
  assumes "take_pair key val kd vd acap used = Some (kv, used')"
    and "\<not> kd \<Longrightarrow> list_all (\<lambda>c. \<not> special c) key" and "\<not> vd \<Longrightarrow> list_all (\<lambda>c. \<not> special c) val"
  shows "kv = (decode key, decode val)" and "used' \<le> used + length key + length val"
    and "used \<le> acap \<Longrightarrow> used' \<le> acap"
  using assms decode_length[of key] decode_length[of val] decode_plain[of key] decode_plain[of val]
  by (auto simp: take_pair_def decode_into_def Let_def split: if_splits)

lemma take_pair_fits:
  "used + length key + length val \<le> acap \<Longrightarrow> take_pair key val kd vd acap used \<noteq> None"
  using decode_length[of key] by (auto simp: take_pair_def decode_into_def Let_def)


lemma pairs_of_text:
  assumes "tx \<noteq> []"
  shows "filter (\<lambda>p. p \<noteq> []) (split_on (CHR ''&'') tx) =
    (if segment tx = [] then [] else [segment tx]) @
    filter (\<lambda>p. p \<noteq> []) (split_on (CHR ''&'') (drop (length (segment tx) + 1) tx))"
proof (cases "CHR ''&'' \<in> set tx")
  case True
  then obtain h t where tx: "tx = h @ CHR ''&'' # t" and h: "CHR ''&'' \<notin> set h"
    using split_list_first by metis
  have "segment tx = h" using h by (auto simp: tx takeWhile_append)
  then show ?thesis using split_on_append[OF h, of t] by (simp add: tx)
next
  case False
  then have seg: "segment tx = tx" by (induction tx) auto
  show ?thesis unfolding seg using False by (simp add: split_on_notin)
qed

text \<open>One turn of the loop, in terms of the text's first segment.\<close>

lemma kv_loop_step [consumes 2, case_names skip kept dropped]:
  assumes "tx \<noteq> []" and "length out \<noteq> cap"
  obtains (skip) "segment tx = []"
      "kv_loop tx cap acap used lost out = kv_loop (drop (length (segment tx) + 1) tx) cap acap used lost out"
  | (kept) used' where "segment tx \<noteq> []" "used' \<le> used + length (segment tx)" "used \<le> acap \<Longrightarrow> used' \<le> acap"
      "kv_loop tx cap acap used lost out =
        kv_loop (drop (length (segment tx) + 1) tx) cap acap used' lost (out @ [kv_pair_spec (segment tx)])"
  | (dropped) "segment tx \<noteq> []" "acap < used + length (segment tx)"
      "kv_loop tx cap acap used lost out =
        kv_loop (drop (length (segment tx) + 1) tx) cap acap used True out"
proof -
  let ?s = "segment tx"
  let ?eq = "memchr (CHR ''='') ?s"
  define key where "key = take (case ?eq of Some q \<Rightarrow> q | None \<Rightarrow> length ?s) tx"
  define val where "val = (case ?eq of Some q \<Rightarrow> memread tx (q + 1) (length ?s - q - 1) | None \<Rightarrow> [])"
  define kd where "kd = list_ex special (takeWhile (\<lambda>c. c \<noteq> CHR ''='') ?s)"
  define vd where "vd = list_ex special (dropWhile (\<lambda>c. c \<noteq> CHR ''='') ?s)"
  have scan: "scan_pair tx 0 None False False = (length ?s, ?eq, kd, vd)"
    by (simp add: scan_pair_spec kd_def vd_def option.map_ident)
  have pre: "take (length ?s) tx = ?s" by (metis takeWhile_eq_take)
  have key: "key = takeWhile (\<lambda>c. c \<noteq> CHR ''='') ?s"
    using memchr_Some(1)[of "CHR ''=''" ?s] pre take_take[of _ "length ?s" tx]
    by (cases ?eq) (auto simp: key_def takeWhile_memchr min_def)
  have val: "CHR ''='' # val = dropWhile (\<lambda>c. c \<noteq> CHR ''='') ?s \<or> val = []"
    using pre drop_take[of "Suc (the ?eq)" "length ?s" tx]
    by (cases ?eq) (auto simp: val_def dropWhile_memchr memread_def)
  have sum: "length key + length val \<le> length ?s"
  proof -
    have "length key + length (dropWhile (\<lambda>c. c \<noteq> CHR ''='') ?s) = length ?s"
      unfolding key by (metis length_append takeWhile_dropWhile_id)
    moreover have "length val \<le> length (dropWhile (\<lambda>c. c \<noteq> CHR ''='') ?s)"
      using val by (metis le0 le_SucI length_Cons list.size(3) order_refl)
    ultimately show ?thesis by linarith
  qed
  have plain: "\<not> kd \<Longrightarrow> list_all (\<lambda>c. \<not> special c) key" "\<not> vd \<Longrightarrow> list_all (\<lambda>c. \<not> special c) val"
    using key val by (auto simp: kd_def vd_def list_ex_iff list_all_iff) (metis list.set_intros(2))
  have spec: "kv_pair_spec ?s = (decode key, decode val)"
    using key pre drop_take[of "Suc (the ?eq)" "length ?s" tx]
    by (cases ?eq) (auto simp: kv_pair_spec_def val_def takeWhile_memchr memread_def)
  have loop: "kv_loop tx cap acap used lost out =
      (let rest = drop (length ?s + 1) tx in
       if length ?s > 0 then
         case take_pair key val kd vd acap used of
           Some (kv, used') \<Rightarrow> kv_loop rest cap acap used' lost (out @ [kv])
         | None \<Rightarrow> kv_loop rest cap acap used True out
       else kv_loop rest cap acap used lost out)"
    using assms by (subst kv_loop.simps) (simp add: scan key_def val_def Let_def)
  show thesis
  proof (cases "?s = []")
    case True
    then show thesis using skip loop by (simp add: Let_def)
  next
    case False
    show thesis
    proof (cases "take_pair key val kd vd acap used")
      case None
      then have "acap < used + length ?s" using take_pair_fits[of used key val acap kd vd] sum by linarith
      then show thesis using dropped[OF False] loop None False by (simp add: Let_def)
    next
      case (Some r)
      then obtain kv used' where r: "take_pair key val kd vd acap used = Some (kv, used')" by (cases r) auto
      note tp = take_pair_spec[OF r plain]
      show thesis
        by (rule kept[OF False]) (use tp sum loop r False spec in \<open>auto simp: Let_def\<close>)
    qed
  qed
qed


lemma kv_spec_step:
  assumes "tx \<noteq> []"
  shows "kv_spec tx = (if segment tx = [] then [] else [kv_pair_spec (segment tx)]) @
    kv_spec (drop (length (segment tx) + 1) tx)"
  unfolding kv_spec_def by (subst pairs_of_text[OF assms]) simp

lemma kv_loop_spec:
  assumes "used \<le> acap" and "length out \<le> cap" and "kv_loop tx cap acap used lost out = (out', used', lost')"
  shows "\<exists>xs. out' = out @ xs \<and> subseq xs (kv_spec tx) \<and> length out' \<le> cap \<and> used' \<le> acap \<and>
    (\<not> lost' \<longrightarrow> \<not> lost \<and> xs = kv_spec tx)"
  using assms
proof (induction tx arbitrary: used lost out rule: length_induct)
  case (1 tx)
  note prems = 1(2-4)
  note IH = 1(1)[rule_format, where ys = "drop (length (segment tx) + 1) tx"]
  show ?case
  proof (cases "tx = [] \<or> length out = cap")
    case True
    then show ?thesis using prems kv_loop.simps[of "[]"]
      by (cases "tx = []") (auto simp: kv_loop.simps[of tx] kv_spec_def)
  next
    case False
    then have ne: "tx \<noteq> []" and nc: "length out \<noteq> cap" by auto
    have sh: "length (drop (length (segment tx) + 1) tx) < length tx" using ne by simp
    note spec = kv_spec_step[OF ne]
    from ne nc show ?thesis
    proof (cases rule: kv_loop_step[where acap = acap and used = used and lost = lost])
      case skip
      then show ?thesis using IH[OF sh prems(1,2), of lost] prems(3) spec by auto
    next
      case (kept u)
      then show ?thesis
        using IH[OF sh, of u "out @ [kv_pair_spec (segment tx)]" lost] prems nc spec by auto
    next
      case dropped
      then obtain xs where "out' = out @ xs" "subseq xs (kv_spec (drop (length (segment tx) + 1) tx))"
        "length out' \<le> cap" "used' \<le> acap" "lost'"
        using IH[OF sh prems(1,2), of True] prems(3) by auto
      then show ?thesis using spec by (auto intro: list_emb_Cons)
    qed
  qed
qed

lemma kv_loop_complete:
  assumes "used + length tx \<le> acap" and "length out + length (kv_spec tx) < cap"
  shows "fst (kv_loop tx cap acap used False out) = out @ kv_spec tx \<and>
    \<not> snd (snd (kv_loop tx cap acap used False out))"
  using assms
proof (induction tx arbitrary: used out rule: length_induct)
  case (1 tx)
  note prems = 1(2,3)
  note IH = 1(1)[rule_format, where ys = "drop (length (segment tx) + 1) tx"]
  show ?case
  proof (cases "tx = []")
    case True
    then show ?thesis using kv_loop.simps[of "[]"] by (simp add: kv_spec_def)
  next
    case ne: False
    have nc: "length out \<noteq> cap" using prems(2) by simp
    have sh: "length (drop (length (segment tx) + 1) tx) < length tx" using ne by simp
    have seg: "length (segment tx) \<le> length tx" by (rule length_takeWhile_le)
    note spec = kv_spec_step[OF ne]
    from ne nc show ?thesis
    proof (cases rule: kv_loop_step[where acap = acap and used = used and lost = False])
      case skip
      then show ?thesis using IH[OF sh, of used out] prems spec by auto
    next
      case (kept u)
      then show ?thesis
        using IH[OF sh, of u "out @ [kv_pair_spec (segment tx)]"] prems spec seg by simp
    next
      case dropped
      then show ?thesis using prems(1) seg by linarith
    qed
  qed
qed

text \<open>
  \<open>ioxd_kv_parse\<close> never returns more than \<open>cap\<close> pairs nor uses more than
  \<open>arena_cap\<close> arena bytes, and what it returns are pairs of the text in order, keys and values
  decoded; when it does not report truncation it returned every pair; and it does not report
  truncation when the text has fewer than \<open>cap\<close> pairs and is no longer than the arena.
\<close>

theorem kv_parse_spec:
  "case ioxd_kv_parse tx cap arena_cap of (out, used, truncated) \<Rightarrow>
     length out \<le> cap \<and> used \<le> arena_cap \<and> subseq out (kv_spec tx) \<and>
     (\<not> truncated \<longrightarrow> out = kv_spec tx) \<and>
     (length (kv_spec tx) < cap \<and> length tx \<le> arena_cap \<longrightarrow> \<not> truncated)"
proof -
  obtain out used lost where e: "ioxd_kv_parse tx cap arena_cap = (out, used, lost)"
    by (metis surj_pair)
  then show ?thesis
    using kv_loop_spec[of 0 arena_cap "[]" cap tx False out used lost]
      kv_loop_complete[of 0 tx arena_cap "[]" cap]
    by (auto simp: ioxd_kv_parse_def)
qed

theorem kv_parse_spec_witness:
  "length (kv_spec ''a=1&b=%41'') < 32 \<and> length ''a=1&b=%41'' \<le> 2048 \<and>
   ioxd_kv_parse ''a=1&b=%41'' 32 2048 = ([(''a'', ''1''), (''b'', ''A'')], 1, False) \<and>
   kv_spec ''a=1&b=%41'' = [(''a'', ''1''), (''b'', ''A'')]"
proof -
  have s: "kv_spec ''a=1&b=%41'' = [(''a'', ''1''), (''b'', ''A'')]" by code_simp
  have p: "ioxd_kv_parse ''a=1&b=%41'' 32 2048 = ([(''a'', ''1''), (''b'', ''A'')], 1, False)" by code_simp
  show ?thesis using kv_parse_spec[where tx = "''a=1&b=%41''" and cap = 32 and arena_cap = 2048] s p by simp
qed

text \<open>
  The flag can be set although no pair was left out: with the table full, anything after the last
  pair - even empty pairs, which are skipped everywhere else - counts as lost.
\<close>

lemma kv_parse_truncated_by_ampersand:
  "ioxd_kv_parse ''a=1&&'' 1 0 = ([(''a'', ''1'')], 0, True) \<and> kv_spec ''a=1&&'' = [(''a'', ''1'')]"
  by code_simp

lemma kv_lookup_map_of: "kv_lookup pairs name = map_of pairs name"
  by (induction pairs name rule: kv_lookup.induct) auto

end
