(* ===== verification/Ring.thy ===== *)
theory Ring
  imports Prelude "HOL-Library.Multiset"
begin

text \<open>
  The two rings of a worker: \<^verbatim>\<open>lib/io/spsc.h\<close>, the queue of delivered buffers between the
  recv completion and the connection's coroutine, and \<^verbatim>\<open>lib/io/bufring.c\<close>, the ring the
  buffers go back to the kernel through.  Both index a power-of-two array with a mask over
  32-bit counters that only grow and wrap around; \<open>ring_view\<close> reads the live window of such an
  array, and the lemmas on it are shared.

  The contract of a bounded first-in-first-out queue is the locale \<open>bounded_fifo\<close>; it is
  interpreted on the spsc ring.
\<close>

unbundle bit_operations_syntax

section \<open>Power-of-two rings\<close>

definition ring_slot :: "u32 \<Rightarrow> u32 \<Rightarrow> nat" where
  "ring_slot msk i = unat (i AND msk)"

definition ring_view :: "'a list \<Rightarrow> u32 \<Rightarrow> u32 \<Rightarrow> u32 \<Rightarrow> 'a list" where
  "ring_view xs msk head tail =
     map (\<lambda>i. xs ! ring_slot msk (head + of_nat i)) [0..<unat (tail - head)]"

lemma ring_slot_take_bit: "ring_slot (2 ^ k - 1) i = unat (take_bit k i)"
  by (simp add: ring_slot_def take_bit_eq_mask mask_eq_exp_minus_1)

lemma ring_slot_less: "k < 32 \<Longrightarrow> ring_slot (2 ^ k - 1) i < 2 ^ k"
  by (simp add: ring_slot_take_bit unsigned_take_bit_eq)

lemma unat_succ_diff:
  assumes "unat (tail - head :: u32) < 2 ^ 31"
  shows "unat (tail + 1 - head) = unat (tail - head) + 1"
proof -
  have "unat (tail - head + 1) = unat (tail - head) + 1"
    using assms by (subst unat_word_ariths) simp
  then show ?thesis by (simp add: algebra_simps)
qed

lemma unat_pred_diff:
  assumes "tail \<noteq> (head :: u32)"
  shows "unat (tail - (head + 1)) = unat (tail - head) - 1"
proof -
  have "tail - head \<noteq> 0" using assms by simp
  then have "unat (tail - head - 1) = unat (tail - head) - 1" by (rule unat_minus_one)
  then show ?thesis by (simp add: algebra_simps)
qed

lemma take_bit_same_diff:
  assumes "k < 32" and "take_bit k a = take_bit k (b :: u32)"
  shows "take_bit k (a - b) = 0"
proof -
  have "take_bit k (uint a) = take_bit k (uint b)"
    using assms(2) by (metis unsigned_take_bit_eq)
  then have "take_bit k (uint a - uint b) = 0" using take_bit_diff[of k "uint a" "uint b"] by simp
  then have "take_bit k (take_bit 32 (uint a - uint b)) = 0" using assms(1) by (simp add: min_def)
  then have "uint (take_bit k (a - b)) = 0" by (simp add: unsigned_take_bit_eq uint_word_arith_bintrs)
  then show ?thesis by (metis uint_0_iff)
qed

text \<open>Two counters less than the ring's size apart never share a slot.\<close>

lemma ring_slot_distinct:
  assumes k: "k < 32" and d: "0 < unat (a - b :: u32)" "unat (a - b) < 2 ^ k"
  shows "ring_slot (2 ^ k - 1) a \<noteq> ring_slot (2 ^ k - 1) b"
proof
  assume "ring_slot (2 ^ k - 1) a = ring_slot (2 ^ k - 1) b"
  then have "take_bit k a = take_bit k b" by (metis ring_slot_take_bit unsigned_word_eqI)
  then have "take_bit k (a - b) = 0" by (rule take_bit_same_diff[OF k])
  moreover have "take_bit k (unat (a - b)) = unat (a - b)" using d(2) by (simp add: take_bit_nat_eq_self)
  ultimately have "unat (a - b) = 0" using unsigned_take_bit_eq[of k "a - b", where 'a = nat] by simp
  then show False using d(1) by simp
qed

lemma ring_view_push:
  assumes k: "k < 32" and len: "length xs = 2 ^ k" and room: "unat (tail - head) < 2 ^ k"
  shows "ring_view (xs[ring_slot (2 ^ k - 1) tail := x]) (2 ^ k - 1) head (tail + 1) =
    ring_view xs (2 ^ k - 1) head tail @ [x]"
proof -
  let ?s = "ring_slot (2 ^ k - 1)" and ?n = "unat (tail - head)"
  have "(2::nat) ^ k \<le> 2 ^ 31" using k by (intro power_increasing) auto
  then have n: "unat (tail + 1 - head) = ?n + 1" using unat_succ_diff room by (meson less_le_trans)
  have at_end: "head + of_nat ?n = tail" by simp
  have "?s (head + of_nat i) \<noteq> ?s tail" if i: "i < ?n" for i
  proof -
    have "tail - (head + of_nat i) = of_nat (?n - i)" using i by (simp add: of_nat_diff)
    moreover have "unat (of_nat (?n - i) :: u32) = ?n - i"
      using unsigned_less[of "tail - head", where 'a = nat] by (intro unat_of_nat_less) linarith
    ultimately have "unat (tail - (head + of_nat i)) = ?n - i" by metis
    then have "0 < unat (tail - (head + of_nat i))" "unat (tail - (head + of_nat i)) < 2 ^ k"
      using i room by linarith+
    from ring_slot_distinct[OF k this] show ?thesis by metis
  qed
  then have old: "xs[?s tail := x] ! ?s (head + of_nat i) = xs ! ?s (head + of_nat i)" if "i < ?n" for i
    using that by (metis nth_list_update_neq)
  have new: "xs[?s tail := x] ! ?s (head + of_nat ?n) = x"
    unfolding at_end using len ring_slot_less[OF k] by simp
  have "[0..<?n + 1] = [0..<?n] @ [?n]" by simp
  then show ?thesis
    unfolding ring_view_def n using old new by (simp del: upt_Suc)
qed

lemma ring_view_pop:
  assumes "tail \<noteq> head"
  shows "ring_view xs msk head tail = xs ! ring_slot msk head # ring_view xs msk (head + 1) tail"
proof -
  have "0 < unat (tail - head)" using assms by (simp add: unat_gt_0)
  then have "[0..<unat (tail - head)] = 0 # map Suc [0..<unat (tail - head) - 1]"
    by (metis One_nat_def Suc_diff_Suc diff_zero map_Suc_upt upt_conv_Cons)
  then show ?thesis
    unfolding ring_view_def unat_pred_diff[OF assms] by (simp add: o_def add.assoc)
qed

lemma ring_view_empty [simp]: "ring_view xs msk h h = []"
  by (simp add: ring_view_def)

lemma length_ring_view [simp]: "length (ring_view xs msk head tail) = unat (tail - head)"
  by (simp add: ring_view_def)


section \<open>The contract of a bounded queue\<close>

text \<open>
  A sequence of operations by the two sides: the producer puts an item when the queue is not full
  (and reports whether it could), the consumer gets one when it is not empty.
\<close>

datatype 'a qop = Put 'a | Get

datatype 'a qout = Stored | Refused | Got 'a | Nothing

fun run_ops :: "('q \<Rightarrow> bool) \<Rightarrow> ('q \<Rightarrow> bool) \<Rightarrow> ('a \<Rightarrow> 'q \<Rightarrow> 'q) \<Rightarrow> ('q \<Rightarrow> 'a \<times> 'q) \<Rightarrow>
    'a qop list \<Rightarrow> 'q \<Rightarrow> 'a qout list \<times> 'q" where
  "run_ops is_empty is_full push pop [] q = ([], q)"
| "run_ops is_empty is_full push pop (Put x # ops) q =
     (if is_full q then map_prod (Cons Refused) id (run_ops is_empty is_full push pop ops q)
      else map_prod (Cons Stored) id (run_ops is_empty is_full push pop ops (push x q)))"
| "run_ops is_empty is_full push pop (Get # ops) q =
     (if is_empty q then map_prod (Cons Nothing) id (run_ops is_empty is_full push pop ops q)
      else map_prod (Cons (Got (fst (pop q)))) id (run_ops is_empty is_full push pop ops (snd (pop q))))"

text \<open>The same sequence on the abstract queue: a list of at most \<open>n\<close> items.\<close>

abbreviation list_queue :: "nat \<Rightarrow> 'a qop list \<Rightarrow> 'a list \<Rightarrow> 'a qout list \<times> 'a list" where
  "list_queue n \<equiv>
     run_ops (\<lambda>xs. xs = []) (\<lambda>xs. length xs = n) (\<lambda>x xs. xs @ [x]) (\<lambda>xs. (hd xs, tl xs))"

locale bounded_fifo =
  fixes good :: "'q \<Rightarrow> bool"
    and contents :: "'q \<Rightarrow> 'a list"
    and capacity :: nat
    and reset :: "'q \<Rightarrow> 'q"
    and count :: "'q \<Rightarrow> nat"
    and is_empty :: "'q \<Rightarrow> bool"
    and is_full :: "'q \<Rightarrow> bool"
    and push :: "'a \<Rightarrow> 'q \<Rightarrow> 'q"
    and pop :: "'q \<Rightarrow> 'a \<times> 'q"
    and peek :: "'q \<Rightarrow> 'a"
  assumes reset_contents: "good q \<Longrightarrow> good (reset q) \<and> contents (reset q) = []"
    and count_contents: "good q \<Longrightarrow> count q = length (contents q)"
    and within_capacity: "good q \<Longrightarrow> length (contents q) \<le> capacity"
    and empty_iff: "good q \<Longrightarrow> is_empty q \<longleftrightarrow> contents q = []"
    and full_iff: "good q \<Longrightarrow> is_full q \<longleftrightarrow> length (contents q) = capacity"
    and push_contents: "good q \<Longrightarrow> \<not> is_full q \<Longrightarrow> good (push x q) \<and> contents (push x q) = contents q @ [x]"
    and pop_contents:
      "good q \<Longrightarrow> \<not> is_empty q \<Longrightarrow>
        good (snd (pop q)) \<and> contents q = fst (pop q) # contents (snd (pop q)) \<and> peek q = fst (pop q)"
begin

lemma run_refines:
  assumes "good q"
  shows "fst (run_ops is_empty is_full push pop ops q) = fst (list_queue capacity ops (contents q)) \<and>
    good (snd (run_ops is_empty is_full push pop ops q)) \<and>
    contents (snd (run_ops is_empty is_full push pop ops q)) = snd (list_queue capacity ops (contents q))"
  using assms
proof (induction ops arbitrary: q)
  case (Cons op ops)
  note q = Cons.prems
  show ?case
    using Cons.IH q push_contents[OF q] pop_contents[OF q] full_iff[OF q] empty_iff[OF q] by (cases op) auto
qed simp

lemma count_after_run:
  "good q \<Longrightarrow> count (snd (run_ops is_empty is_full push pop ops q)) \<le> capacity"
  using run_refines count_contents within_capacity by metis

end


section \<open>The queue of delivered buffers: spsc.h\<close>

text \<open>
  \<open>rx_ptr\<close> names the memory a delivered buffer's bytes are in: the sources keep a pointer
  and a ring id side by side, and read the bytes only through the pointer.
\<close>

record rx_item =
  rx_ptr :: nat
  rx_len :: u32
  rx_buf_id :: "16 word"

abbreviation RX_QUEUE :: nat where "RX_QUEUE \<equiv> 64"

record spsc =
  items :: "rx_item list"
  head :: u32
  tail :: u32

definition ioxd__spsc_reset :: "spsc \<Rightarrow> spsc" where
  "ioxd__spsc_reset q = q\<lparr>head := 0, tail := 0\<rparr>"

definition ioxd__spsc_count :: "spsc \<Rightarrow> u32" where
  "ioxd__spsc_count q = tail q - head q"

definition ioxd__spsc_empty :: "spsc \<Rightarrow> bool" where
  "ioxd__spsc_empty q \<longleftrightarrow> tail q = head q"

definition ioxd__spsc_full :: "spsc \<Rightarrow> bool" where
  "ioxd__spsc_full q \<longleftrightarrow> tail q - head q = of_nat RX_QUEUE"

text \<open>The slot the source returns is filled by its caller at once; here with \<open>it\<close>.\<close>

definition ioxd__spsc_push :: "rx_item \<Rightarrow> spsc \<Rightarrow> spsc" where
  "ioxd__spsc_push it q =
     q\<lparr>items := (items q)[ring_slot (of_nat RX_QUEUE - 1) (tail q) := it], tail := tail q + 1\<rparr>"

definition ioxd__spsc_pop :: "spsc \<Rightarrow> rx_item \<times> spsc" where
  "ioxd__spsc_pop q = (items q ! ring_slot (of_nat RX_QUEUE - 1) (head q), q\<lparr>head := head q + 1\<rparr>)"

definition ioxd__spsc_peek :: "spsc \<Rightarrow> rx_item" where
  "ioxd__spsc_peek q = items q ! ring_slot (of_nat RX_QUEUE - 1) (head q)"

definition spsc_good :: "spsc \<Rightarrow> bool" where
  "spsc_good q \<longleftrightarrow> length (items q) = RX_QUEUE \<and> unat (tail q - head q) \<le> RX_QUEUE"

definition spsc_contents :: "spsc \<Rightarrow> rx_item list" where
  "spsc_contents q = ring_view (items q) (of_nat RX_QUEUE - 1) (head q) (tail q)"

lemma rx_mask: "(of_nat RX_QUEUE - 1 :: u32) = 2 ^ 6 - 1"
  by simp

lemma spsc_full_iff: "spsc_good q \<Longrightarrow> ioxd__spsc_full q \<longleftrightarrow> unat (tail q - head q) = RX_QUEUE"
  by (auto simp: ioxd__spsc_full_def intro: unsigned_word_eqI)

lemma spsc_push_contents:
  assumes "spsc_good q" and "\<not> ioxd__spsc_full q"
  shows "spsc_good (ioxd__spsc_push it q)"
    and "spsc_contents (ioxd__spsc_push it q) = spsc_contents q @ [it]"
proof -
  have room: "unat (tail q - head q) < 2 ^ 6"
    using assms spsc_full_iff[OF assms(1)] by (auto simp: spsc_good_def)
  have len: "length (items q) = 2 ^ 6" using assms by (simp add: spsc_good_def)
  have "unat (tail q + 1 - head q) = unat (tail q - head q) + 1"
    using unat_succ_diff[of "tail q" "head q"] room by simp
  then show "spsc_good (ioxd__spsc_push it q)"
    using assms(1) room by (simp add: spsc_good_def ioxd__spsc_push_def)
  show "spsc_contents (ioxd__spsc_push it q) = spsc_contents q @ [it]"
    using ring_view_push[of 6 "items q" "tail q" "head q" it, OF _ len room]
    by (simp add: spsc_contents_def ioxd__spsc_push_def)
qed

lemma spsc_pop_contents:
  assumes "spsc_good q" and "\<not> ioxd__spsc_empty q"
  shows "spsc_good (snd (ioxd__spsc_pop q))"
    and "spsc_contents q = fst (ioxd__spsc_pop q) # spsc_contents (snd (ioxd__spsc_pop q))"
  using assms ring_view_pop[of "tail q" "head q" "items q"]
  by (auto simp: spsc_good_def ioxd__spsc_pop_def ioxd__spsc_empty_def spsc_contents_def unat_pred_diff)

interpretation rxq: bounded_fifo spsc_good spsc_contents RX_QUEUE ioxd__spsc_reset
  "\<lambda>q. unat (ioxd__spsc_count q)" ioxd__spsc_empty ioxd__spsc_full ioxd__spsc_push ioxd__spsc_pop
  ioxd__spsc_peek
proof unfold_locales
  fix q :: spsc and it :: rx_item
  assume g: "spsc_good q"
  show "spsc_good (ioxd__spsc_reset q) \<and> spsc_contents (ioxd__spsc_reset q) = []"
    using g by (simp add: spsc_good_def ioxd__spsc_reset_def spsc_contents_def)
  show "unat (ioxd__spsc_count q) = length (spsc_contents q)"
    by (simp add: ioxd__spsc_count_def spsc_contents_def)
  show "length (spsc_contents q) \<le> RX_QUEUE"
    using g by (simp add: spsc_good_def spsc_contents_def)
  show "ioxd__spsc_empty q \<longleftrightarrow> spsc_contents q = []"
    using spsc_pop_contents(2)[OF g] by (cases "ioxd__spsc_empty q") (simp_all add: ioxd__spsc_empty_def spsc_contents_def)
  show "ioxd__spsc_full q \<longleftrightarrow> length (spsc_contents q) = RX_QUEUE"
    using spsc_full_iff[OF g] by (simp add: spsc_contents_def)
  show "\<not> ioxd__spsc_full q \<Longrightarrow>
      spsc_good (ioxd__spsc_push it q) \<and> spsc_contents (ioxd__spsc_push it q) = spsc_contents q @ [it]"
    using spsc_push_contents[OF g] by blast
  show "\<not> ioxd__spsc_empty q \<Longrightarrow>
      spsc_good (snd (ioxd__spsc_pop q)) \<and>
      spsc_contents q = fst (ioxd__spsc_pop q) # spsc_contents (snd (ioxd__spsc_pop q)) \<and>
      ioxd__spsc_peek q = fst (ioxd__spsc_pop q)"
    using spsc_pop_contents[OF g] by (auto simp: ioxd__spsc_peek_def ioxd__spsc_pop_def)
qed



section \<open>The ring of provided buffers: bufring.c\<close>

text \<open>
  A descriptor offered to the kernel, and the ring: \<open>ring_tail\<close> is the 16-bit tail the kernel
  reads, \<open>b_tail\<close> the worker's own.  The mapping of the slab's pages and the registration
  system call are outside the model; the slab starts at address \<open>slab\<close>.  An id outside the
  ring aborts the process: \<open>None\<close>.
\<close>

record buf_slot =
  slot_addr :: nat
  slot_len :: u32
  slot_bid :: "16 word"

record bufring =
  bufs :: "buf_slot list"
  ring_tail :: "16 word"
  slab :: nat
  b_count :: u32
  b_size :: u32
  b_mask :: u32
  b_tail :: u32
  dirty :: bool
  returned :: u32

definition ioxd__bufring_at :: "bufring \<Rightarrow> 16 word \<Rightarrow> nat option" where
  "ioxd__bufring_at b buf_id =
     (if unat buf_id \<ge> unat (b_count b) then None
      else Some (slab b + unat buf_id * unat (b_size b)))"

text \<open>
  The loop of \<open>init\<close> that offers every buffer; the pages came zeroed from \<open>mmap\<close>.
\<close>

function init_slots :: "bufring \<Rightarrow> nat \<Rightarrow> buf_slot list \<Rightarrow> buf_slot list option" where
  "init_slots b i ss =
     (if i < unat (b_count b) then
        (case ioxd__bufring_at b (of_nat i) of
           None \<Rightarrow> None
         | Some a \<Rightarrow>
             init_slots b (i + 1) (ss[i := \<lparr>slot_addr = a, slot_len = b_size b, slot_bid = of_nat i\<rparr>]))
      else Some ss)"
  by pat_completeness auto
termination
  by (relation "measure (\<lambda>(b, i, _). unat (b_count b) - i)") auto

declare init_slots.simps [simp del]

definition ioxd__bufring_init :: "nat \<Rightarrow> u32 \<Rightarrow> u32 \<Rightarrow> bufring option" where
  "ioxd__bufring_init pages cnt sz =
     (let zero = \<lparr>slot_addr = 0, slot_len = 0, slot_bid = 0\<rparr>;
          b = \<lparr>bufs = replicate (unat cnt) zero, ring_tail = 0, slab = pages, b_count = cnt,
               b_size = sz, b_mask = cnt - 1, b_tail = 0, dirty = False, returned = 0\<rparr>
      in case init_slots b 0 (bufs b) of
           None \<Rightarrow> None
         | Some ss \<Rightarrow> Some (b\<lparr>bufs := ss, b_tail := cnt, ring_tail := ucast cnt\<rparr>))"

definition ioxd__bufring_return :: "bufring \<Rightarrow> 16 word \<Rightarrow> bufring option" where
  "ioxd__bufring_return b buf_id =
     (case ioxd__bufring_at b buf_id of
        None \<Rightarrow> None
      | Some a \<Rightarrow>
          Some (b\<lparr>bufs := (bufs b)[ring_slot (b_mask b) (b_tail b) :=
                            \<lparr>slot_addr = a, slot_len = b_size b, slot_bid = buf_id\<rparr>],
                  b_tail := b_tail b + 1, returned := returned b + 1, dirty := True\<rparr>))"

definition ioxd__bufring_publish :: "bufring \<Rightarrow> bufring" where
  "ioxd__bufring_publish b =
     (if \<not> dirty b then b else b\<lparr>ring_tail := ucast (b_tail b), dirty := False\<rparr>)"

text \<open>
  A worker and its kernel: the kernel keeps a 16-bit head, takes the next offered buffer while its
  head is not the published tail, and the worker returns buffers it holds and publishes, in any
  order.
\<close>

record buf_world =
  w_ring :: bufring
  w_khead :: "16 word"
  w_held :: "buf_slot list"

inductive buf_reach :: "nat \<Rightarrow> u32 \<Rightarrow> u32 \<Rightarrow> buf_world \<Rightarrow> bool"
  for pages :: nat and cnt :: u32 and sz :: u32 where
  start: "ioxd__bufring_init pages cnt sz = Some b \<Longrightarrow>
    buf_reach pages cnt sz \<lparr>w_ring = b, w_khead = 0, w_held = []\<rparr>"
| kernel_take: "buf_reach pages cnt sz w \<Longrightarrow> w_khead w \<noteq> ring_tail (w_ring w) \<Longrightarrow>
    buf_reach pages cnt sz
      (w\<lparr>w_khead := w_khead w + 1,
         w_held := bufs (w_ring w) ! unat (ucast (w_khead w) AND b_mask (w_ring w)) # w_held w\<rparr>)"
| give_back: "buf_reach pages cnt sz w \<Longrightarrow> s \<in> set (w_held w) \<Longrightarrow>
    ioxd__bufring_return (w_ring w) (slot_bid s) = Some b \<Longrightarrow>
    buf_reach pages cnt sz (w\<lparr>w_ring := b, w_held := remove1 s (w_held w)\<rparr>)"
| publish: "buf_reach pages cnt sz w \<Longrightarrow>
    buf_reach pages cnt sz (w\<lparr>w_ring := ioxd__bufring_publish (w_ring w)\<rparr>)"

text \<open>The descriptor every buffer is offered with, and the invariant of the world.\<close>

definition buf_desc :: "nat \<Rightarrow> u32 \<Rightarrow> nat \<Rightarrow> buf_slot" where
  "buf_desc pages sz i =
     \<lparr>slot_addr = pages + i * unat sz, slot_len = sz, slot_bid = of_nat i\<rparr>"

definition ring_shape :: "nat \<Rightarrow> nat \<Rightarrow> u32 \<Rightarrow> bufring \<Rightarrow> bool" where
  "ring_shape k pages sz b \<longleftrightarrow>
     b_count b = 2 ^ k \<and> b_mask b = 2 ^ k - 1 \<and> b_size b = sz \<and> slab b = pages \<and>
     length (bufs b) = 2 ^ k"

definition buf_inv :: "nat \<Rightarrow> nat \<Rightarrow> u32 \<Rightarrow> buf_world \<Rightarrow> u32 \<Rightarrow> u32 \<Rightarrow> bool" where
  "buf_inv k pages sz w kh pt \<longleftrightarrow>
     (let b = w_ring w in
      ring_shape k pages sz b \<and> w_khead w = ucast kh \<and> ring_tail b = ucast pt \<and>
      (\<not> dirty b \<longrightarrow> pt = b_tail b) \<and>
      unat (pt - kh) \<le> unat (b_tail b - kh) \<and>
      mset (w_held w) + mset (ring_view (bufs b) (2 ^ k - 1) kh (b_tail b)) =
        mset (map (buf_desc pages sz) [0..<2 ^ k]))"

lemma buf_inv_count:
  assumes "buf_inv k pages sz w kh pt"
  shows "length (w_held w) + unat (b_tail (w_ring w) - kh) = 2 ^ k"
proof -
  have "mset (w_held w) + mset (ring_view (bufs (w_ring w)) (2 ^ k - 1) kh (b_tail (w_ring w))) =
      mset (map (buf_desc pages sz) [0..<2 ^ k])"
    using assms by (simp add: buf_inv_def Let_def)
  from arg_cong[OF this, of size] show ?thesis by simp
qed

lemma ucast_16_succ: "(ucast (kh + 1 :: u32) :: 16 word) = ucast kh + 1"
proof transfer
  fix kh :: int
  have "take_bit 16 (kh + 1) = take_bit 16 (take_bit 16 kh + take_bit 16 1)"
    by (rule take_bit_add[symmetric])
  also have "\<dots> = take_bit 16 (take_bit 16 (take_bit 32 kh) + take_bit 16 1)" by (simp add: min_def)
  also have "\<dots> = take_bit 16 (take_bit 32 kh + 1)" by (rule take_bit_add)
  finally show "take_bit LENGTH(16) (take_bit LENGTH(32) (kh + 1)) =
      take_bit LENGTH(16) (take_bit LENGTH(32) kh + 1)" by simp
qed

lemma kernel_slot:
  assumes "k \<le> 15"
  shows "unat ((ucast (ucast (kh :: u32) :: 16 word) :: u32) AND (2 ^ k - 1)) = ring_slot (2 ^ k - 1) kh"
proof -
  have "(ucast (ucast kh :: 16 word) :: u32) AND mask k = kh AND mask k"
    using assms by (intro bit_word_eqI) (auto simp: bit_simps)
  then show ?thesis by (simp add: ring_slot_def mask_eq_exp_minus_1)
qed

lemma buf_inv_take:
  assumes inv: "buf_inv k pages sz w kh pt" and k: "k \<le> 15" and ne: "w_khead w \<noteq> ring_tail (w_ring w)"
  shows "buf_inv k pages sz
     (w\<lparr>w_khead := w_khead w + 1,
        w_held := bufs (w_ring w) ! unat (ucast (w_khead w) AND b_mask (w_ring w)) # w_held w\<rparr>) (kh + 1) pt"
proof -
  let ?b = "w_ring w"
  have "pt \<noteq> kh" using inv ne by (auto simp: buf_inv_def Let_def)
  moreover have "unat (pt - kh) \<le> unat (b_tail ?b - kh)" using inv by (simp add: buf_inv_def Let_def)
  moreover have "0 < unat (pt - kh)" using \<open>pt \<noteq> kh\<close> by (simp add: unat_gt_0)
  ultimately have t: "b_tail ?b \<noteq> kh" by auto
  have slot: "unat (ucast (ucast kh :: 16 word) AND b_mask ?b) = ring_slot (2 ^ k - 1) kh"
    using inv kernel_slot[OF k, of kh] by (simp add: buf_inv_def ring_shape_def Let_def)
  show ?thesis
    using inv ring_view_pop[OF t, of "bufs ?b" "2 ^ k - 1"] unat_pred_diff[OF t] unat_pred_diff[OF \<open>pt \<noteq> kh\<close>]
      diff_le_mono[of "unat (pt - kh)" "unat (b_tail ?b - kh)" 1]
    by (simp add: buf_inv_def Let_def slot ucast_16_succ)
qed

lemma held_is_desc:
  assumes "buf_inv k pages sz w kh pt" and "s \<in> set (w_held w)"
  obtains i where "i < 2 ^ k" and "s = buf_desc pages sz i"
proof -
  have "s \<in># mset (map (buf_desc pages sz) [0..<2 ^ k])"
    using assms by (metis buf_inv_def in_multiset_in_set union_iff)
  then show thesis using that by auto
qed

lemma return_held:
  assumes inv: "buf_inv k pages sz w kh pt" and k: "k \<le> 15" and s: "s \<in> set (w_held w)"
  shows "ioxd__bufring_return (w_ring w) (slot_bid s) =
    Some ((w_ring w)\<lparr>bufs := (bufs (w_ring w))[ring_slot (2 ^ k - 1) (b_tail (w_ring w)) := s],
      b_tail := b_tail (w_ring w) + 1, returned := returned (w_ring w) + 1, dirty := True\<rparr>)"
proof -
  obtain i where i: "i < 2 ^ k" and se: "s = buf_desc pages sz i" using held_is_desc[OF inv s] .
  have "(2::nat) ^ k \<le> 2 ^ 15" using k by (intro power_increasing) auto
  then have "unat (of_nat i :: 16 word) = i" "unat (of_nat (2 ^ k) :: u32) = 2 ^ k"
    using i by (auto intro!: unat_of_nat_less simp del: of_nat_power)
  then show ?thesis
    using inv i by (simp add: ioxd__bufring_return_def ioxd__bufring_at_def buf_inv_def ring_shape_def
        Let_def se buf_desc_def)
qed

lemma buf_inv_give_back:
  assumes inv: "buf_inv k pages sz w kh pt" and k: "k \<le> 15" and s: "s \<in> set (w_held w)"
    and b: "ioxd__bufring_return (w_ring w) (slot_bid s) = Some b"
  shows "buf_inv k pages sz (w\<lparr>w_ring := b, w_held := remove1 s (w_held w)\<rparr>) kh pt"
proof -
  let ?r = "w_ring w"
  have held: "mset (remove1 s (w_held w)) + {#s#} = mset (w_held w)" using s by simp
  have "0 < length (w_held w)" using s by (cases "w_held w") auto
  then have room: "unat (b_tail ?r - kh) < 2 ^ k" using buf_inv_count[OF inv] by linarith
  have "(2::nat) ^ k \<le> 2 ^ 15" using k by (intro power_increasing) auto
  then have suc: "unat (b_tail ?r + 1 - kh) = unat (b_tail ?r - kh) + 1" using room by (intro unat_succ_diff) simp
  have len: "length (bufs ?r) = 2 ^ k" using inv by (simp add: buf_inv_def ring_shape_def Let_def)
  have view: "ring_view ((bufs ?r)[ring_slot (2 ^ k - 1) (b_tail ?r) := s]) (2 ^ k - 1) kh (b_tail ?r + 1) =
      ring_view (bufs ?r) (2 ^ k - 1) kh (b_tail ?r) @ [s]"
    using ring_view_push[OF _ len room] k by simp
  have "mset (remove1 s (w_held w)) + mset (ring_view (bufs ?r) (2 ^ k - 1) kh (b_tail ?r) @ [s]) =
      mset (w_held w) + mset (ring_view (bufs ?r) (2 ^ k - 1) kh (b_tail ?r))"
    unfolding held[symmetric] by simp
  then show ?thesis
    using inv b return_held[OF inv k s]
    by (auto simp: buf_inv_def ring_shape_def Let_def view suc simp del: mset_append mset_remove1)
qed

lemma buf_inv_publish:
  "buf_inv k pages sz w kh pt \<Longrightarrow>
     \<exists>pt'. buf_inv k pages sz (w\<lparr>w_ring := ioxd__bufring_publish (w_ring w)\<rparr>) kh pt'"
  by (cases "dirty (w_ring w)")
     (auto simp: buf_inv_def ring_shape_def Let_def ioxd__bufring_publish_def
       intro: exI[of _ "b_tail (w_ring w)"] exI[of _ pt])

lemma init_slots_spec:
  assumes "b_count b = 2 ^ k" and "k \<le> 15" and "slab b = pages" and "b_size b = sz" and "length ss = 2 ^ k"
    and "i \<le> 2 ^ k"
  shows "init_slots b i ss = Some (take i ss @ map (buf_desc pages sz) [i..<2 ^ k])"
proof -
  have "(2::nat) ^ k \<le> 2 ^ 15" using assms(2) by (intro power_increasing) auto
  then have cnt: "unat (b_count b) = 2 ^ k" and id: "\<And>j. j < 2 ^ k \<Longrightarrow> unat (of_nat j :: 16 word) = j"
    using assms(1) unat_of_nat_less[of "2 ^ k", where 'a = 32] by (simp_all add: unat_of_nat_less)
  from assms(5,6) show ?thesis
  proof (induction "2 ^ k - i" arbitrary: i ss)
    case 0
    then show ?case by (simp add: init_slots.simps[of b] cnt)
  next
    case (Suc d)
    have i: "i < 2 ^ k" using Suc(2) by simp
    let ?ss = "ss[i := buf_desc pages sz i]"
    have "init_slots b i ss = init_slots b (i + 1) ?ss"
      using i assms(3,4) by (subst init_slots.simps) (simp add: cnt id ioxd__bufring_at_def buf_desc_def)
    also have "\<dots> = Some (take (i + 1) ?ss @ map (buf_desc pages sz) [i + 1..<2 ^ k])"
      using Suc i by (intro Suc(1)) auto
    also have "take (i + 1) ?ss = take i ss @ [buf_desc pages sz i]"
      using i Suc(3) by (simp add: take_Suc_conv_app_nth)
    finally show ?case using i by (simp add: upt_conv_Cons)
  qed
qed

lemma buf_inv_init:
  assumes k: "k \<le> 15" and b: "ioxd__bufring_init pages (2 ^ k) sz = Some b"
  shows "buf_inv k pages sz \<lparr>w_ring = b, w_khead = 0, w_held = []\<rparr> 0 (2 ^ k)"
proof -
  have "(2::nat) ^ k \<le> 2 ^ 15" using k by (intro power_increasing) auto
  then have cnt: "unat (2 ^ k :: u32) = 2 ^ k"
    using unat_of_nat_less[of "2 ^ k", where 'a = 32] by simp
  have slot: "ring_slot (2 ^ k - 1) (of_nat i) = i" if "i < 2 ^ k" for i
  proof -
    have "unat (of_nat i :: u32) = i" using that \<open>2 ^ k \<le> 2 ^ 15\<close> by (intro unat_of_nat_less) simp
    then show ?thesis using that by (simp add: ring_slot_take_bit unsigned_take_bit_eq take_bit_nat_eq_self)
  qed
  have view: "ring_view (map (buf_desc pages sz) [0..<2 ^ k]) (2 ^ k - 1) 0 (2 ^ k) =
      map (buf_desc pages sz) [0..<2 ^ k]"
    using slot by (auto simp: ring_view_def cnt intro!: map_cong)
  show ?thesis using b k
    by (auto simp: ioxd__bufring_init_def Let_def init_slots_spec[where k = k and pages = pages and sz = sz] cnt
        buf_inv_def ring_shape_def view split: option.splits)
qed

lemma buf_reach_inv:
  assumes "buf_reach pages cnt sz w" and "cnt = 2 ^ k" and "k \<le> 15"
  shows "\<exists>kh pt. buf_inv k pages sz w kh pt"
  using assms(1)
proof induction
  case (start b)
  then show ?case using buf_inv_init[OF assms(3)] unfolding assms(2) by blast
next
  case (kernel_take w)
  then show ?case using buf_inv_take[OF _ assms(3)] by blast
next
  case (give_back w s b)
  then show ?case using buf_inv_give_back[OF _ assms(3)] by blast
next
  case (publish w)
  then show ?case using buf_inv_publish by blast
qed

lemma ucast_16_eq_iff:
  assumes "unat (t - h :: u32) < 2 ^ 16"
  shows "(ucast t :: 16 word) = ucast h \<longleftrightarrow> t = h"
proof
  assume "(ucast t :: 16 word) = ucast h"
  then have "(ucast (ucast t :: 16 word) :: u32) = ucast (ucast h :: 16 word)" by simp
  then have "take_bit 16 t = take_bit 16 h" by (simp add: word_eq_iff_unsigned unsigned_ucast_eq unsigned_take_bit_eq)
  then have "ring_slot (2 ^ 16 - 1) t = ring_slot (2 ^ 16 - 1) h" by (simp only: ring_slot_take_bit)
  then show "t = h" using ring_slot_distinct[of 16 t h] assms by (auto simp: unat_gt_0)
qed simp

text \<open>
  C20.  Whatever the interleaving of kernel deliveries, returns and publishes, every buffer of the
  slab is at each moment either held by the worker or waiting in the ring, exactly once, with the
  address and length it was mapped with; giving back a buffer the worker holds never aborts; and
  once the returns are published, the kernel's 16-bit comparison of its head with the tail finds
  the ring empty exactly when the worker holds every buffer, however often the counters wrapped.
\<close>

theorem bufring_no_buffer_lost:
  assumes "buf_reach pages (2 ^ k) sz w" and "k \<le> 15"
  shows "(\<exists>kh. w_khead w = ucast kh \<and>
       mset (w_held w) + mset (ring_view (bufs (w_ring w)) (b_mask (w_ring w)) kh (b_tail (w_ring w))) =
         mset (map (buf_desc pages sz) [0..<2 ^ k])) \<and>
     (\<forall>s \<in> set (w_held w). ioxd__bufring_return (w_ring w) (slot_bid s) \<noteq> None) \<and>
     (\<not> dirty (w_ring w) \<longrightarrow> (w_khead w = ring_tail (w_ring w) \<longleftrightarrow> length (w_held w) = 2 ^ k))"
proof -
  obtain kh pt where inv: "buf_inv k pages sz w kh pt" using buf_reach_inv[OF assms(1) refl assms(2)] by blast
  let ?t = "b_tail (w_ring w)"
  have cnt: "length (w_held w) + unat (?t - kh) = 2 ^ k" by (rule buf_inv_count[OF inv])
  have "(2::nat) ^ k \<le> 2 ^ 15" using assms(2) by (intro power_increasing) auto
  then have lt: "unat (?t - kh) < 2 ^ 16" using cnt by simp
  have "\<not> dirty (w_ring w) \<longrightarrow> (w_khead w = ring_tail (w_ring w) \<longleftrightarrow> length (w_held w) = 2 ^ k)"
    using inv ucast_16_eq_iff[OF lt] cnt by (auto simp: buf_inv_def Let_def unat_0_iff)
  then show ?thesis
    using inv return_held[OF inv assms(2)]
    by (auto simp: buf_inv_def ring_shape_def Let_def)
qed

theorem bufring_no_buffer_lost_witness:
  "\<exists>w. buf_reach 4096 (2 ^ 2) 16384 w \<and> length (w_held w) = 1 \<and>
     (\<forall>s \<in> set (w_held w). ioxd__bufring_return (w_ring w) (slot_bid s) \<noteq> None)"
proof -
  obtain b where b: "ioxd__bufring_init 4096 (2 ^ 2) 16384 = Some b" "ring_tail b = 4"
    by (simp add: ioxd__bufring_init_def Let_def init_slots_spec[where k = 2 and pages = 4096 and sz = 16384]
        del: power2_eq_square)
  let ?w = "\<lparr>w_ring = b, w_khead = 0, w_held = []\<rparr>"
  let ?v = "?w\<lparr>w_khead := w_khead ?w + 1,
         w_held := bufs (w_ring ?w) ! unat (ucast (w_khead ?w) AND b_mask (w_ring ?w)) # w_held ?w\<rparr>"
  have "buf_reach 4096 (2 ^ 2) 16384 ?v"
    by (rule kernel_take[OF start[OF b(1)]]) (simp add: b(2))
  then show ?thesis using bufring_no_buffer_lost[of 4096 2 16384 ?v] by (intro exI[of _ ?v]) simp
qed

text \<open>
  C21.  The ring of delivered buffers behaves as a first-in-first-out list of at most 64 items: any
  sequence of guarded pushes and pops gives the same results and leaves the same contents on the
  ring as on the list, whatever the values of the two 32-bit counters, which wrap around.
\<close>

theorem spsc_refines_queue:
  assumes "spsc_good q"
  shows "fst (run_ops ioxd__spsc_empty ioxd__spsc_full ioxd__spsc_push ioxd__spsc_pop ops q) =
      fst (list_queue RX_QUEUE ops (spsc_contents q)) \<and>
    spsc_contents (snd (run_ops ioxd__spsc_empty ioxd__spsc_full ioxd__spsc_push ioxd__spsc_pop ops q)) =
      snd (list_queue RX_QUEUE ops (spsc_contents q))"
  using rxq.run_refines[OF assms] by blast

definition wrapped_ring :: spsc where
  "wrapped_ring = \<lparr>items = replicate 64 \<lparr>rx_ptr = 0, rx_len = 0, rx_buf_id = 0\<rparr>, head = - 1, tail = - 1\<rparr>"

theorem spsc_refines_queue_witness:
  "spsc_good wrapped_ring \<and>
   fst (run_ops ioxd__spsc_empty ioxd__spsc_full ioxd__spsc_push ioxd__spsc_pop
      [Put \<lparr>rx_ptr = 1, rx_len = 5, rx_buf_id = 7\<rparr>, Put \<lparr>rx_ptr = 2, rx_len = 9, rx_buf_id = 3\<rparr>, Get, Get, Get]
      wrapped_ring) =
     [Stored, Stored, Got \<lparr>rx_ptr = 1, rx_len = 5, rx_buf_id = 7\<rparr>,
      Got \<lparr>rx_ptr = 2, rx_len = 9, rx_buf_id = 3\<rparr>, Nothing]"
proof -
  have g: "spsc_good wrapped_ring" and c: "spsc_contents wrapped_ring = []"
    by (simp_all add: spsc_good_def wrapped_ring_def spsc_contents_def)
  show ?thesis using g spsc_refines_queue[OF g, of "[Put \<lparr>rx_ptr = 1, rx_len = 5, rx_buf_id = 7\<rparr>,
      Put \<lparr>rx_ptr = 2, rx_len = 9, rx_buf_id = 3\<rparr>, Get, Get, Get]"] by (simp add: c)
qed

end
