(* ===== verification/Conn_Io.thy ===== *)
theory Conn_Io
  imports Prelude "HOL-Library.Multiset" "HOL-Library.Sublist"
begin

text \<open>
  The connection as the code above it sees it, \<^verbatim>\<open>lib/io/conn.c\<close>: the call that takes the
  next received buffer and the calls that send.  Both wait for the kernel, so what the kernel does
  is in the state: the payloads it will deliver and how many of them it already has, the result
  the input ends with, and how much each send accepts.

  A received buffer is named by the delivery that filled it.  The kernel does not fill a provided
  buffer again before it was given back, so a name stands for one buffer with one content for as
  long as the reader holds it; \<open>io_returned\<close> records the buffers given back to the ring.
\<close>

record item =
  it_id :: nat
  it_len :: nat

record io =
  io_rx :: "bytes list"
  io_ready :: nat
  io_end :: int
  io_next :: nat
  io_slab :: "nat \<Rightarrow> bytes"
  io_returned :: "nat list"
  io_wire :: bytes
  io_lim :: "nat \<Rightarrow> int"
  io_sends :: nat

abbreviation EPIPE :: int where "EPIPE \<equiv> 32"

definition buf_return :: "nat \<Rightarrow> io \<Rightarrow> io" where
  "buf_return i w = w\<lparr>io_returned := i # io_returned w\<rparr>"

text \<open>
  The loop of \<open>recv_item\<close> ends when a buffer was delivered or the input ended; the wait in
  between is the kernel delivering the next payload.
\<close>

definition ioxd__conn_recv_item :: "io \<Rightarrow> (int + item) \<times> io" where
  "ioxd__conn_recv_item w =
     (case io_rx w of
        p # rest \<Rightarrow>
          (Inr \<lparr>it_id = io_next w, it_len = length p\<rparr>,
           w\<lparr>io_rx := rest, io_ready := io_ready w - 1, io_next := io_next w + 1,
             io_slab := (io_slab w)(io_next w := p)\<rparr>)
      | [] \<Rightarrow> (Inl (io_end w), w))"

text \<open>\<open>ioxd__spsc_empty (&conn->rx)\<close>.\<close>

definition rx_empty :: "io \<Rightarrow> bool" where
  "rx_empty w \<longleftrightarrow> io_ready w = 0 \<or> io_rx w = []"

text \<open>One send operation: the kernel fails, or accepts a prefix of what it was offered.\<close>

definition await_send :: "bytes \<Rightarrow> io \<Rightarrow> int \<times> io" where
  "await_send data w =
     (let r = io_lim w (io_sends w);
          n = (if r \<le> 0 then 0 else min (nat r) (length data))
      in (if r \<le> 0 then r else int n,
          w\<lparr>io_wire := io_wire w @ take n data, io_sends := io_sends w + 1\<rparr>))"

definition int_of_size :: "nat \<Rightarrow> int" where
  "int_of_size n = sint (word_of_int (int n) :: 32 word)"

abbreviation UINT32_MAX :: nat where "UINT32_MAX \<equiv> 4294967295"

function send_loop :: "bytes \<Rightarrow> io \<Rightarrow> int option \<times> io" where
  "send_loop src w =
     (if length src > 0 then
        let (n, w) = await_send (take UINT32_MAX src) w in
        if n < 0 then (Some n, w)
        else if n = 0 then (Some (- EPIPE), w)
        else send_loop (drop (nat n) src) w
      else (None, w))"
  by pat_completeness auto
termination
  by (relation "measure (\<lambda>(src, _). length src)") (auto simp: await_send_def Let_def)

declare send_loop.simps [simp del]

definition ioxd__conn_send :: "bytes \<Rightarrow> io \<Rightarrow> int \<times> io" where
  "ioxd__conn_send data w =
     (case send_loop data w of
        (Some e, w) \<Rightarrow> (e, w)
      | (None, w) \<Rightarrow> (int_of_size (length data), w))"

text \<open>The vectors a send consumed: whole ones are skipped, the next one is advanced.\<close>

fun skip_iov :: "bytes list \<Rightarrow> nat \<Rightarrow> bytes list" where
  "skip_iov [] left = []"
| "skip_iov (v # iov) left = (if left \<ge> length v then skip_iov iov (left - length v) else drop left v # iov)"

lemma concat_skip_iov: "concat (skip_iov iov n) = drop n (concat iov)"
  by (induction iov n rule: skip_iov.induct) auto

function ioxd__conn_sendv :: "bytes list \<Rightarrow> io \<Rightarrow> int \<times> io" where
  "ioxd__conn_sendv iov w =
     (if length iov > 0 then
        let (sent, w) = await_send (concat iov) w in
        if sent < 0 then (sent, w)
        else if sent = 0 then (- EPIPE, w)
        else ioxd__conn_sendv (skip_iov iov (nat sent)) w
      else (0, w))"
  by pat_completeness auto
termination
proof (relation "measure (\<lambda>(iov, _). length (concat iov))", goal_cases)
  case (2 iov w x sent w')
  then have "sent \<le> int (length (concat iov))" by (auto simp: await_send_def Let_def split: if_splits)
  with 2 have "0 < nat sent" "nat sent \<le> length (concat iov)" by auto
  then have "length (drop (nat sent) (concat iov)) < length (concat iov)" by simp
  then show ?case by (simp add: concat_skip_iov)
qed simp

declare ioxd__conn_sendv.simps [simp del]


section \<open>What sending does to the wire\<close>

lemma await_send_result:
  assumes "await_send data w = (n, w')"
  obtains "n \<le> 0" "w' = w\<lparr>io_sends := io_sends w + 1\<rparr>"
  | k where "n = int k" "0 < k \<or> data = []" "k \<le> length data"
      "w' = w\<lparr>io_wire := io_wire w @ take k data, io_sends := io_sends w + 1\<rparr>"
proof (cases "io_lim w (io_sends w) \<le> 0")
  case True
  then show thesis using assms that(1) by (simp add: await_send_def Let_def)
next
  case False
  then show thesis
    using assms that(2)[of "min (nat (io_lim w (io_sends w))) (length data)"]
    by (auto simp: await_send_def Let_def)
qed

text \<open>
  A state \<open>sent_to w w' out\<close>: \<open>w'\<close> is \<open>w\<close> after the bytes \<open>out\<close> went to the wire, with
  nothing else of the connection changed but the count of send operations.
\<close>

definition sent_to :: "io \<Rightarrow> io \<Rightarrow> bytes \<Rightarrow> bool" where
  "sent_to w w' out \<longleftrightarrow> (\<exists>k. w' = w\<lparr>io_wire := io_wire w @ out, io_sends := io_sends w + k\<rparr>)"

lemma sent_to_refl [simp]: "sent_to w w []"
  unfolding sent_to_def by (rule exI[of _ 0]) simp

lemma sent_to_trans:
  assumes "sent_to w w' a" and "sent_to w' w'' b"
  shows "sent_to w w'' (a @ b)"
proof -
  obtain k l where "w' = w\<lparr>io_wire := io_wire w @ a, io_sends := io_sends w + k\<rparr>"
    "w'' = w'\<lparr>io_wire := io_wire w' @ b, io_sends := io_sends w' + l\<rparr>"
    using assms by (auto simp: sent_to_def)
  then show ?thesis unfolding sent_to_def by (intro exI[of _ "k + l"]) simp
qed

lemma sent_to_fields:
  assumes "sent_to w w' out"
  shows "io_wire w' = io_wire w @ out" "io_rx w' = io_rx w" "io_slab w' = io_slab w"
    "io_returned w' = io_returned w" "io_next w' = io_next w" "io_ready w' = io_ready w"
    "io_end w' = io_end w" "io_lim w' = io_lim w"
  using assms by (auto simp: sent_to_def)

lemma await_send_sent:
  assumes "await_send data w = (n, w')"
  shows "sent_to w w' (take (nat n) data)" and "n \<le> int (length data)" 
proof -
  show "sent_to w w' (take (nat n) data)"
    using assms by (rule await_send_result)
       (auto simp: sent_to_def intro: exI[of _ "Suc 0"])
  show "n \<le> int (length data)"
    using assms by (rule await_send_result) auto
qed

lemma send_loop_wire:
  assumes "send_loop src w = (r, w')"
  shows "\<exists>out. sent_to w w' out \<and> prefix out src \<and>
    (r = None \<longrightarrow> out = src) \<and> (\<forall>e. r = Some e \<longrightarrow> e < 0 \<and> out \<noteq> src)"
  using assms
proof (induction src w rule: send_loop.induct)
  case (1 src w)
  obtain n w1 where a: "await_send (take UINT32_MAX src) w = (n, w1)" by (metis surj_pair)
  note s = await_send_sent[OF a]
  show ?case
  proof (cases "length src > 0 \<and> n > 0")
    case False
    then have "send_loop src w = (if length src > 0 then (Some (if n < 0 then n else - EPIPE), w1) else (None, w))"
      using a by (subst send_loop.simps) (auto simp: Let_def)
    with False s show ?thesis using 1(2) by (auto intro!: exI[of _ "[]"] split: if_splits)
  next
    case True
    then have "send_loop src w = send_loop (drop (nat n) src) w1"
      using a by (subst send_loop.simps) (auto simp: Let_def)
    moreover have "n \<le> int (length src)" using s(2) by simp
    moreover have t: "take (nat n) (take UINT32_MAX src) = take (nat n) src" using s(2) by (auto simp: min_def split: if_splits)
    ultimately obtain out where o: "sent_to w1 w' out" "prefix out (drop (nat n) src)"
      "r = None \<longrightarrow> out = drop (nat n) src" "\<forall>e. r = Some e \<longrightarrow> e < 0 \<and> out \<noteq> drop (nat n) src"
      using 1 a True by (metis linorder_not_less order.asym)
    have "sent_to w w' (take (nat n) src @ out)" using sent_to_trans[OF s(1) o(1)] t by simp
    moreover have "src = take (nat n) src @ drop (nat n) src" by simp
    ultimately show ?thesis using o(2-4)
      by (intro exI[of _ "take (nat n) src @ out"]) (metis same_append_eq same_prefix_prefix)
  qed
qed

lemma int_of_size_small: "n < 2 ^ 31 \<Longrightarrow> int_of_size n = int n"
proof -
  assume "n < 2 ^ 31"
  then have "signed_take_bit 31 (int n) = int n" by (intro signed_take_bit_int_eq_self) auto
  then show "int_of_size n = int n" unfolding int_of_size_def sint_sbintrunc' by simp
qed

text \<open>
  Sending puts a prefix of the data on the wire, and all of it exactly when the loop ends without
  an error of the kernel.
\<close>

lemma conn_send_wire:
  assumes "ioxd__conn_send data w = (rc, w')" and "length data < 2 ^ 31"
  shows "\<exists>out. sent_to w w' out \<and> prefix out data \<and> (if rc < 0 then out \<noteq> data else out = data \<and> rc = int (length data))"
proof -
  obtain r where r: "send_loop data w = (r, w')" "rc = (case r of Some e \<Rightarrow> e | None \<Rightarrow> int_of_size (length data))"
    using assms(1) by (auto simp: ioxd__conn_send_def split: prod.splits option.splits)
  from send_loop_wire[OF r(1)] show ?thesis
    using r(2) int_of_size_small[OF assms(2)] by (cases r) auto
qed

lemma skip_iov_done: "concat (skip_iov iov n) = [] \<Longrightarrow> skip_iov iov n = []"
  by (induction iov n rule: skip_iov.induct) (auto split: if_splits)

lemma conn_sendv_wire:
  assumes "ioxd__conn_sendv iov w = (rc, w')"
  shows "\<exists>out. sent_to w w' out \<and> prefix out (concat iov) \<and> rc \<le> 0 \<and> (rc = 0 \<longrightarrow> out = concat iov) \<and>
    (rc < 0 \<and> concat iov \<noteq> [] \<longrightarrow> out \<noteq> concat iov)"
  using assms
proof (induction iov w rule: ioxd__conn_sendv.induct)
  case (1 iov w)
  obtain n w1 where a: "await_send (concat iov) w = (n, w1)" by (metis surj_pair)
  note s = await_send_sent[OF a]
  show ?case
  proof (cases "length iov > 0 \<and> n > 0")
    case False
    then have "ioxd__conn_sendv iov w = (if length iov > 0 then (if n < 0 then n else - EPIPE, w1) else (0, w))"
      using a by (subst ioxd__conn_sendv.simps) (auto simp: Let_def)
    with False s show ?thesis using 1(2) by (auto intro!: exI[of _ "[]"] split: if_splits)
  next
    case True
    let ?rest = "skip_iov iov (nat n)"
    have rest: "concat ?rest = drop (nat n) (concat iov)" by (rule concat_skip_iov)
    have "ioxd__conn_sendv iov w = ioxd__conn_sendv ?rest w1"
      using a True by (subst ioxd__conn_sendv.simps) (auto simp: Let_def)
    then obtain out where o: "sent_to w1 w' out" "prefix out (concat ?rest)" "rc \<le> 0"
      "rc = 0 \<longrightarrow> out = concat ?rest" "rc < 0 \<and> concat ?rest \<noteq> [] \<longrightarrow> out \<noteq> concat ?rest"
      using 1 a True by (metis linorder_not_less order.asym)
    have fin: "concat ?rest = [] \<Longrightarrow> rc = 0"
      using skip_iov_done[of iov "nat n"] \<open>ioxd__conn_sendv iov w = ioxd__conn_sendv ?rest w1\<close> 1(2)
      by (auto simp: ioxd__conn_sendv.simps)
    have "sent_to w w' (take (nat n) (concat iov) @ out)" by (rule sent_to_trans[OF s(1) o(1)])
    moreover have "concat iov = take (nat n) (concat iov) @ concat ?rest" by (simp add: rest)
    ultimately show ?thesis using o(2-5) fin
      by (intro exI[of _ "take (nat n) (concat iov) @ out"])
         (metis less_irrefl same_append_eq same_prefix_prefix)
  qed
qed

end
