(* ===== verification/Pipe_Reader.thy ===== *)
theory Pipe_Reader
  imports Conn_Io
begin

text \<open>
  The reader of \<^verbatim>\<open>lib/io/pipe.c\<close>: received bytes handed out as one contiguous span, in place
  in a kernel buffer or gathered in the consumer's buffer, with the bytes the consumer keeps.

  The record has the fields of \<open>ioxd_pipereader\<close>; the memory a pointer leads to is either the
  gathering buffer \<open>pr_buf\<close> or a received buffer of \<open>io_slab\<close>, so a pointer is a \<open>place\<close>.
  The lemmas follow the three things the reader promises: no byte of the stream is lost,
  duplicated or reordered; every kernel buffer is given back exactly once; frozen kept bytes stay
  where they are until release.
\<close>

abbreviation IOXD_PIPE_GONE :: int where "IOXD_PIPE_GONE \<equiv> - 1"
abbreviation IOXD_PIPE_FULL :: int where "IOXD_PIPE_FULL \<equiv> - 2"

record pipereader =
  pr_buf :: bytes
  pr_cap :: nat
  pr_floor :: nat
  live_in_buf :: bool
  buf_pos :: nat
  buf_end :: nat
  cur :: item
  has_cur :: bool
  cur_pos :: nat
  pinned :: item
  has_pinned :: bool
  cur_is_pinned :: bool
  run_in_cur :: bool
  run_start :: nat
  run_len :: nat
  examined :: nat
  pr_eof :: bool
  pr_error :: int

datatype place = Nullptr | In_buf nat | In_item nat nat

definition ioxd__pipereader_init :: "bytes \<Rightarrow> nat \<Rightarrow> pipereader" where
  "ioxd__pipereader_init buf cap =
     \<lparr>pr_buf = buf, pr_cap = cap, pr_floor = 0, live_in_buf = False, buf_pos = 0, buf_end = 0,
      cur = \<lparr>it_id = 0, it_len = 0\<rparr>, has_cur = False, cur_pos = 0,
      pinned = \<lparr>it_id = 0, it_len = 0\<rparr>, has_pinned = False, cur_is_pinned = False,
      run_in_cur = False, run_start = 0, run_len = 0, examined = 0, pr_eof = False, pr_error = 0\<rparr>"

definition live_span :: "pipereader \<Rightarrow> place \<times> nat" where
  "live_span pr =
     (if live_in_buf pr then (In_buf (buf_pos pr), buf_end pr - buf_pos pr)
      else if has_cur pr then (In_item (it_id (cur pr)) (cur_pos pr), it_len (cur pr) - cur_pos pr)
      else (Nullptr, 0))"

text \<open>The bytes a pointer and a length lead to.\<close>

fun bytes_at :: "pipereader \<Rightarrow> io \<Rightarrow> place \<times> nat \<Rightarrow> bytes" where
  "bytes_at pr w (Nullptr, n) = []"
| "bytes_at pr w (In_buf off, n) = memread (pr_buf pr) off n"
| "bytes_at pr w (In_item i off, n) = memread (io_slab w i) off n"

definition cur_bytes :: "pipereader \<Rightarrow> io \<Rightarrow> nat \<Rightarrow> nat \<Rightarrow> bytes" where
  "cur_bytes pr w off n = memread (io_slab w (it_id (cur pr))) off n"

definition cur_done :: "pipereader \<Rightarrow> io \<Rightarrow> pipereader \<times> io" where
  "cur_done pr w =
     (if \<not> has_cur pr \<or> cur_pos pr < it_len (cur pr) \<or> (run_in_cur pr \<and> run_len pr \<noteq> 0) then (pr, w)
      else let w = (if \<not> cur_is_pinned pr then buf_return (it_id (cur pr)) w else w)
           in (pr\<lparr>has_cur := False, cur_is_pinned := False, cur_pos := 0\<rparr>, w))"

definition compact :: "pipereader \<Rightarrow> pipereader" where
  "compact pr =
     (if buf_pos pr > pr_floor pr then
        pr\<lparr>pr_buf := memmove_in (pr_buf pr) (pr_floor pr) (buf_pos pr) (buf_end pr - buf_pos pr),
           buf_end := buf_end pr - (buf_pos pr - pr_floor pr), buf_pos := pr_floor pr\<rparr>
      else pr)"

text \<open>\<open>gather\<close> in its two moves: the run kept in the current buffer, then its live bytes.\<close>

definition gather_run :: "pipereader \<Rightarrow> io \<Rightarrow> nat \<Rightarrow> pipereader" where
  "gather_run pr w n =
     (let pr = (if n \<noteq> 0 then
                  let pr = pr\<lparr>pr_buf := memwrite (pr_buf pr) (pr_floor pr) (cur_bytes pr w (run_start pr) n),
                              run_start := pr_floor pr, pr_floor := pr_floor pr + n\<rparr>
                  in if \<not> has_pinned pr then pr\<lparr>pinned := cur pr, has_pinned := True, cur_is_pinned := True\<rparr> else pr
                else pr)
      in pr\<lparr>run_in_cur := False\<rparr>)"

definition gather_live :: "pipereader \<Rightarrow> io \<Rightarrow> nat \<Rightarrow> pipereader" where
  "gather_live pr w n =
     (let pr = (if n \<noteq> 0 then
                  pr\<lparr>pr_buf := memwrite (pr_buf pr) (pr_floor pr) (cur_bytes pr w (cur_pos pr) n)\<rparr>
                else pr)
      in pr\<lparr>buf_pos := pr_floor pr, buf_end := pr_floor pr + n, live_in_buf := True\<rparr>)"

definition gather :: "pipereader \<Rightarrow> io \<Rightarrow> bool \<times> pipereader \<times> io" where
  "gather pr w =
     (let live = (if has_cur pr then it_len (cur pr) - cur_pos pr else 0);
          run = (if run_in_cur pr then run_len pr else 0)
      in if pr_floor pr + run + live > pr_cap pr then (False, pr, w)
      else
        let pr = gather_live (gather_run pr w run) w live
        in if has_cur pr then
             let (pr, w) = cur_done (pr\<lparr>cur_pos := it_len (cur pr)\<rparr>) w in (True, pr, w)
           else (True, pr, w))"

definition refuse :: "pipereader \<Rightarrow> io \<Rightarrow> item \<Rightarrow> int \<times> pipereader \<times> io" where
  "refuse pr w it = (IOXD_PIPE_FULL, pr\<lparr>pr_error := IOXD_PIPE_FULL\<rparr>, buf_return (it_id it) w)"

definition more :: "pipereader \<Rightarrow> io \<Rightarrow> int \<times> pipereader \<times> io" where
  "more pr w =
     (if pr_eof pr then (0, pr, w)
      else case ioxd__conn_recv_item w of
        (Inl rc, w) \<Rightarrow>
          let pr = pr\<lparr>pr_eof := True\<rparr>;
              pr = (if rc < 0 then pr\<lparr>pr_error := IOXD_PIPE_GONE\<rparr> else pr)
          in (if rc < 0 then IOXD_PIPE_GONE else 0, pr, w)
      | (Inr it, w) \<Rightarrow>
          if \<not> live_in_buf pr \<and> \<not> has_cur pr then
            (1, pr\<lparr>cur := it, has_cur := True, cur_pos := 0, cur_is_pinned := False\<rparr>, w)
          else
            let (ok, pr, w) = (if \<not> live_in_buf pr then gather pr w else (True, pr, w))
            in if \<not> ok then refuse pr w it
               else
                 let pr = (if buf_end pr + it_len it > pr_cap pr then compact pr else pr)
                 in if buf_end pr + it_len it > pr_cap pr then refuse pr w it
                    else (1, pr\<lparr>pr_buf := memwrite (pr_buf pr) (buf_end pr) (memread (io_slab w (it_id it)) 0 (it_len it)),
                                buf_end := buf_end pr + it_len it\<rparr>,
                          buf_return (it_id it) w))"

lemma cur_done_rx: "cur_done pr w = (pr', w') \<Longrightarrow> io_rx w' = io_rx w"
  by (auto simp: cur_done_def buf_return_def Let_def split: if_splits)

lemma gather_rx: "gather pr w = (ok, pr', w') \<Longrightarrow> io_rx w' = io_rx w"
  by (auto simp: gather_def Let_def split: if_splits prod.splits dest!: cur_done_rx)

lemma more_shrinks:
  assumes "more pr w = (rc, pr', w')" and "rc > 0"
  shows "length (io_rx w') < length (io_rx w)"
  using assms
  by (auto simp: more_def ioxd__conn_recv_item_def refuse_def buf_return_def Let_def
      split: if_splits list.splits prod.splits dest!: gather_rx)

function read_loop :: "pipereader \<Rightarrow> io \<Rightarrow> int \<times> (place \<times> nat) \<times> pipereader \<times> io" where
  "read_loop pr w =
     (if snd (live_span pr) > examined pr then (1, live_span pr, pr, w)
      else let (rc, pr, w) = more pr w in
        if rc \<le> 0 then (rc, (Nullptr, 0), pr, w) else read_loop pr w)"
  by pat_completeness auto
termination
  by (relation "measure (\<lambda>(pr, w). length (io_rx w))") (auto dest: more_shrinks[OF sym])

declare read_loop.simps [simp del]

definition ioxd__pipereader_read :: "pipereader \<Rightarrow> io \<Rightarrow> int \<times> (place \<times> nat) \<times> pipereader \<times> io" where
  "ioxd__pipereader_read pr w =
     (if pr_error pr \<noteq> 0 then (pr_error pr, (Nullptr, 0), pr, w) else read_loop pr w)"

definition ioxd__pipereader_examine :: "pipereader \<Rightarrow> nat \<Rightarrow> pipereader" where
  "ioxd__pipereader_examine pr n = pr\<lparr>examined := n\<rparr>"

definition consume :: "pipereader \<Rightarrow> io \<Rightarrow> nat \<Rightarrow> pipereader \<times> io" where
  "consume pr w n =
     (let live = snd (live_span pr);
          n = (if n > live then live else n);
          (pr, w) =
            (if live_in_buf pr then
               let pr = pr\<lparr>buf_pos := buf_pos pr + n\<rparr>
               in (if buf_pos pr \<ge> buf_end pr then
                     pr\<lparr>buf_pos := pr_floor pr, buf_end := pr_floor pr, live_in_buf := False\<rparr>
                   else pr, w)
             else if has_cur pr then cur_done (pr\<lparr>cur_pos := cur_pos pr + n\<rparr>) w
             else (pr, w))
      in (pr\<lparr>examined := (if examined pr > n then examined pr - n else 0)\<rparr>, w))"

definition ioxd__pipereader_drop :: "pipereader \<Rightarrow> io \<Rightarrow> nat \<Rightarrow> pipereader \<times> io" where
  "ioxd__pipereader_drop pr w n = consume pr w n"

text \<open>
  The three ways to keep \<open>n\<close> live bytes: they are in the buffer already, they stay in the current
  kernel buffer, or the run is in the buffer and they are copied across.
\<close>

definition keep_in_buf :: "pipereader \<Rightarrow> nat \<Rightarrow> place \<times> pipereader" where
  "keep_in_buf pr n =
     (let pr = (if run_len pr = 0 then
                  pr\<lparr>run_in_cur := False, run_start := buf_pos pr, pr_floor := buf_pos pr\<rparr>
                else if buf_pos pr \<noteq> pr_floor pr then
                  pr\<lparr>pr_buf := memmove_in (pr_buf pr) (pr_floor pr) (buf_pos pr) n\<rparr>
                else pr)
      in (In_buf (pr_floor pr), pr\<lparr>pr_floor := pr_floor pr + n\<rparr>))"

definition keep_in_cur :: "pipereader \<Rightarrow> io \<Rightarrow> nat \<Rightarrow> place \<times> pipereader \<times> io" where
  "keep_in_cur pr w n =
     (let pr = (if run_len pr = 0 then pr\<lparr>run_in_cur := True, run_start := cur_pos pr\<rparr> else pr);
          run_end = run_start pr + run_len pr;
          i = it_id (cur pr);
          w = (if run_end \<noteq> cur_pos pr then
                 w\<lparr>io_slab := (io_slab w)(i := memmove_in (io_slab w i) run_end (cur_pos pr) n)\<rparr>
               else w)
      in (In_item i run_end, pr, w))"

definition keep_across :: "pipereader \<Rightarrow> io \<Rightarrow> nat \<Rightarrow> place \<times> pipereader" where
  "keep_across pr w n =
     (let kept = In_buf (pr_floor pr);
          pr = pr\<lparr>pr_buf := memwrite (pr_buf pr) (pr_floor pr) (cur_bytes pr w (cur_pos pr) n),
                  pr_floor := pr_floor pr + n\<rparr>
      in (kept, pr\<lparr>buf_pos := pr_floor pr, buf_end := pr_floor pr\<rparr>))"

definition ioxd__pipereader_keep :: "pipereader \<Rightarrow> io \<Rightarrow> nat \<Rightarrow> place \<times> pipereader \<times> io" where
  "ioxd__pipereader_keep pr w n =
     (let (p, len) = live_span pr;
          finish = (\<lambda>(kept, pr, w). let (pr, w) = consume (pr\<lparr>run_len := run_len pr + n\<rparr>) w n in (kept, pr, w))
      in if n > len then (Nullptr, pr, w)
      else if n = 0 then (p, pr, w)
      else if live_in_buf pr then (let (kept, pr) = keep_in_buf pr n in finish (kept, pr, w))
      else if has_cur pr \<and> (run_len pr = 0 \<or> run_in_cur pr) then finish (keep_in_cur pr w n)
      else if has_cur pr then
        if pr_floor pr + n > pr_cap pr then (Nullptr, pr\<lparr>pr_error := IOXD_PIPE_FULL\<rparr>, w)
        else (let (kept, pr) = keep_across pr w n in finish (kept, pr, w))
      else (Nullptr, pr, w))"

definition ioxd__pipereader_run_begin :: "pipereader \<Rightarrow> io \<Rightarrow> pipereader \<times> io" where
  "ioxd__pipereader_run_begin pr w =
     (let pr = (if run_in_cur pr \<and> run_len pr \<noteq> 0 then
                  if has_pinned pr \<and> \<not> cur_is_pinned pr then
                    if pr_floor pr + run_len pr > pr_cap pr then pr\<lparr>pr_error := IOXD_PIPE_FULL\<rparr>
                    else pr\<lparr>pr_buf := memwrite (pr_buf pr) (pr_floor pr) (cur_bytes pr w (run_start pr) (run_len pr)),
                            pr_floor := pr_floor pr + run_len pr\<rparr>
                  else pr\<lparr>pinned := cur pr, has_pinned := True, cur_is_pinned := True\<rparr>
                else pr)
      in cur_done (pr\<lparr>run_len := 0, run_in_cur := False\<rparr>) w)"

definition ioxd__pipereader_run :: "pipereader \<Rightarrow> place \<times> nat" where
  "ioxd__pipereader_run pr =
     (if run_in_cur pr then In_item (it_id (cur pr)) (run_start pr) else In_buf (run_start pr), run_len pr)"

definition ioxd__pipereader_release :: "pipereader \<Rightarrow> io \<Rightarrow> pipereader \<times> io" where
  "ioxd__pipereader_release pr w =
     (let pr = pr\<lparr>run_len := 0, run_in_cur := False\<rparr>;
          pr = (if live_in_buf pr then
                  pr\<lparr>pr_buf := memmove_in (pr_buf pr) 0 (buf_pos pr) (buf_end pr - buf_pos pr),
                     buf_end := buf_end pr - buf_pos pr, buf_pos := 0\<rparr>
                else pr\<lparr>buf_pos := 0, buf_end := 0\<rparr>);
          pr = pr\<lparr>pr_floor := 0\<rparr>;
          (pr, w) =
            (if has_pinned pr then
               (if cur_is_pinned pr then (pr\<lparr>cur_is_pinned := False, has_pinned := False\<rparr>, w)
                else (pr\<lparr>has_pinned := False\<rparr>, buf_return (it_id (pinned pr)) w))
             else (pr, w))
      in cur_done pr w)"

definition ioxd__pipereader_close :: "pipereader \<Rightarrow> io \<Rightarrow> pipereader \<times> io" where
  "ioxd__pipereader_close pr w =
     (let w = (if has_cur pr \<and> \<not> cur_is_pinned pr then buf_return (it_id (cur pr)) w else w);
          w = (if has_pinned pr then buf_return (it_id (pinned pr)) w else w)
      in (pr\<lparr>has_cur := False, has_pinned := False, cur_is_pinned := False\<rparr>, w))"

text \<open>The copied bytes are the second component: what was written to \<open>dst\<close>.\<close>

function copy_loop :: "pipereader \<Rightarrow> io \<Rightarrow> nat \<Rightarrow> int \<times> bytes \<times> pipereader \<times> io" where
  "copy_loop pr w n =
     (let (p, len) = live_span pr in
      if len \<noteq> 0 then
        let k = (if len < n then len else n);
            dst = bytes_at pr w (p, k);
            (pr, w) = consume pr w k
        in (int_of_size k, dst, pr, w)
      else let (rc, pr, w) = more pr w in
        if rc \<le> 0 then (rc, [], pr, w) else copy_loop pr w n)"
  by pat_completeness auto
termination
  by (relation "measure (\<lambda>(pr, w, n). length (io_rx w))") (auto dest: more_shrinks[OF sym])

declare copy_loop.simps [simp del]

definition ioxd__pipereader_copy :: "pipereader \<Rightarrow> io \<Rightarrow> nat \<Rightarrow> int \<times> bytes \<times> pipereader \<times> io" where
  "ioxd__pipereader_copy pr w n =
     (if pr_error pr \<noteq> 0 then (pr_error pr, [], pr, w) else copy_loop pr w n)"

function avail_loop :: "pipereader \<Rightarrow> io \<Rightarrow> int \<times> (place \<times> nat) \<times> pipereader \<times> io" where
  "avail_loop pr w =
     (if snd (live_span pr) \<le> examined pr then
        if rx_empty w then (0, (Nullptr, 0), pr, w)
        else let (rc, pr, w) = more pr w in
          if rc \<le> 0 then (rc, (Nullptr, 0), pr, w) else avail_loop pr w
      else (1, live_span pr, pr, w))"
  by pat_completeness auto
termination
  by (relation "measure (\<lambda>(pr, w). length (io_rx w))") (auto dest: more_shrinks[OF sym])

declare avail_loop.simps [simp del]

definition ioxd__pipereader_avail :: "pipereader \<Rightarrow> io \<Rightarrow> int \<times> (place \<times> nat) \<times> pipereader \<times> io" where
  "ioxd__pipereader_avail pr w =
     (if pr_error pr \<noteq> 0 then (pr_error pr, (Nullptr, 0), pr, w) else avail_loop pr w)"

definition ioxd__pipereader_inject :: "pipereader \<Rightarrow> io \<Rightarrow> bytes \<Rightarrow> bool \<times> pipereader \<times> io" where
  "ioxd__pipereader_inject pr w data =
     (if pr_error pr \<noteq> 0 then (False, pr, w)
      else
        let (ok, pr, w) =
              (if \<not> live_in_buf pr then
                 if has_cur pr then gather pr w
                 else (True, pr\<lparr>buf_pos := pr_floor pr, buf_end := pr_floor pr, live_in_buf := True\<rparr>, w)
               else (True, pr, w))
        in if \<not> ok then (False, pr, w)
           else
             let n = length data;
                 pr = (if buf_end pr + n > pr_cap pr then compact pr else pr)
             in if buf_end pr + n > pr_cap pr then (False, pr, w)
                else (True, pr\<lparr>pr_buf := memwrite (pr_buf pr) (buf_end pr) data, buf_end := buf_end pr + n\<rparr>, w))"


section \<open>The invariant\<close>

text \<open>
  \<open>live\<close>, \<open>run\<close> and \<open>held\<close> are what the reader's state stands for: the bytes received
  and not consumed, the bytes of the run in progress, and the kernel buffers it holds.
\<close>

definition live :: "pipereader \<Rightarrow> io \<Rightarrow> bytes" where
  "live pr w = bytes_at pr w (live_span pr)"

definition run :: "pipereader \<Rightarrow> io \<Rightarrow> bytes" where
  "run pr w = bytes_at pr w (ioxd__pipereader_run pr)"

definition held :: "pipereader \<Rightarrow> nat list" where
  "held pr = (if has_cur pr \<and> \<not> cur_is_pinned pr then [it_id (cur pr)] else []) @
     (if has_pinned pr then [it_id (pinned pr)] else [])"

text \<open>
  Every buffer the kernel delivered is held, was returned, or is in the hands of the operation in
  progress (\<open>fl\<close>), exactly once.
\<close>

definition accounted :: "nat list \<Rightarrow> pipereader \<Rightarrow> io \<Rightarrow> bool" where
  "accounted fl pr w \<longleftrightarrow> mset fl + (mset (held pr) + mset (io_returned w)) = mset [0..<io_next w]"

definition shape_ok :: "pipereader \<Rightarrow> bool" where
  "shape_ok pr \<longleftrightarrow>
     length (pr_buf pr) = pr_cap pr \<and> pr_floor pr \<le> pr_cap pr \<and>
     (live_in_buf pr \<longrightarrow> pr_floor pr \<le> buf_pos pr \<and> buf_pos pr \<le> buf_end pr \<and> buf_end pr \<le> pr_cap pr \<and> \<not> has_cur pr) \<and>
     (has_cur pr \<longrightarrow> cur_pos pr \<le> it_len (cur pr)) \<and>
     (cur_is_pinned pr \<longrightarrow> has_cur pr \<and> has_pinned pr \<and> cur pr = pinned pr) \<and>
     (run_in_cur pr \<and> 0 < run_len pr \<longrightarrow> has_cur pr \<and> run_start pr + run_len pr \<le> cur_pos pr) \<and>
     (\<not> run_in_cur pr \<and> 0 < run_len pr \<longrightarrow> run_start pr + run_len pr = pr_floor pr)"

definition slab_ok :: "pipereader \<Rightarrow> io \<Rightarrow> bool" where
  "slab_ok pr w \<longleftrightarrow>
     (has_cur pr \<longrightarrow> length (io_slab w (it_id (cur pr))) = it_len (cur pr)) \<and>
     (has_pinned pr \<longrightarrow> length (io_slab w (it_id (pinned pr))) = it_len (pinned pr))"

definition reader_inv :: "nat list \<Rightarrow> pipereader \<Rightarrow> io \<Rightarrow> bool" where
  "reader_inv fl pr w \<longleftrightarrow> shape_ok pr \<and> slab_ok pr w \<and> accounted fl pr w"

abbreviation reader_ok :: "pipereader \<Rightarrow> io \<Rightarrow> bool" where
  "reader_ok \<equiv> reader_inv []"

lemmas reader_defs = reader_inv_def shape_ok_def slab_ok_def
lemmas view_defs = live_def run_def live_span_def ioxd__pipereader_run_def

text \<open>Fields the invariant and the views do not read.\<close>

lemma reader_inv_flags [simp]:
  "reader_inv fl (pr\<lparr>pr_error := e\<rparr>) w = reader_inv fl pr w"
  "reader_inv fl (pr\<lparr>pr_eof := b\<rparr>) w = reader_inv fl pr w"
  "reader_inv fl (pr\<lparr>examined := n\<rparr>) w = reader_inv fl pr w"
  by (simp_all add: reader_defs accounted_def held_def)

lemma view_flags [simp]:
  "live (pr\<lparr>pr_error := e\<rparr>) w = live pr w" "run (pr\<lparr>pr_error := e\<rparr>) w = run pr w"
  "live (pr\<lparr>pr_eof := b\<rparr>) w = live pr w" "run (pr\<lparr>pr_eof := b\<rparr>) w = run pr w"
  "live (pr\<lparr>examined := n\<rparr>) w = live pr w" "run (pr\<lparr>examined := n\<rparr>) w = run pr w"
  by (simp_all add: view_defs)

lemma io_buf_return [simp]:
  "io_rx (buf_return i w) = io_rx w" "io_slab (buf_return i w) = io_slab w" "io_wire (buf_return i w) = io_wire w"
  "io_next (buf_return i w) = io_next w" "io_returned (buf_return i w) = i # io_returned w"
  by (simp_all add: buf_return_def)

lemma run_nothing [simp]: "run_len pr = 0 \<Longrightarrow> run pr w = []"
  by (simp add: run_def ioxd__pipereader_run_def)

lemma init_ok:
  "length buf = c \<Longrightarrow> io_next w = 0 \<Longrightarrow> io_returned w = [] \<Longrightarrow> reader_ok (ioxd__pipereader_init buf c) w"
  by (simp add: reader_defs accounted_def held_def ioxd__pipereader_init_def)

text \<open>The step \<open>cur_done\<close>: the views are kept, the buffer goes back when nothing is left in it.\<close>

lemma cur_done_cases:
  assumes "cur_done pr w = (pr', w')"
  obtains (same) "pr' = pr" "w' = w"
  | (gone) "has_cur pr" "it_len (cur pr) \<le> cur_pos pr" "\<not> (run_in_cur pr \<and> 0 < run_len pr)"
      "pr' = pr\<lparr>has_cur := False, cur_is_pinned := False, cur_pos := 0\<rparr>"
      "w' = (if \<not> cur_is_pinned pr then buf_return (it_id (cur pr)) w else w)"
proof (cases "\<not> has_cur pr \<or> cur_pos pr < it_len (cur pr) \<or> (run_in_cur pr \<and> run_len pr \<noteq> 0)")
  case True
  then show thesis using same assms by (simp add: cur_done_def)
next
  case False
  then have "(pr', w') = (pr\<lparr>has_cur := False, cur_is_pinned := False, cur_pos := 0\<rparr>,
      if \<not> cur_is_pinned pr then buf_return (it_id (cur pr)) w else w)"
    using assms unfolding cur_done_def Let_def by (simp only: if_False)
  then show thesis using gone False by simp
qed

lemma cur_done_ok:
  assumes "reader_inv fl pr w" and "cur_done pr w = (pr', w')"
  shows "reader_inv fl pr' w' \<and> live pr' w' = live pr w \<and> run pr' w' = run pr w"
  using assms(2)
proof (cases rule: cur_done_cases)
  case same
  then show ?thesis using assms(1) by simp
next
  case gone
  have "shape_ok pr'" "slab_ok pr' w'"
    using assms(1) gone by (simp_all add: reader_defs buf_return_def)
  moreover have "accounted fl pr w" "cur_is_pinned pr \<Longrightarrow> has_pinned pr"
    using assms(1) by (simp_all add: reader_defs)
  then have "accounted fl pr' w'"
    using gone by (cases "cur_is_pinned pr"; cases "has_pinned pr")
      (simp_all add: accounted_def held_def buf_return_def add_mset_commute)
  moreover have "live pr' w' = live pr w"
    using gone assms(1) by (simp add: view_defs reader_defs buf_return_def)
  moreover have "run pr' w' = run pr w"
    using gone by (cases "run_len pr = 0") (simp_all add: view_defs buf_return_def)
  ultimately show ?thesis by (simp add: reader_inv_def)
qed

lemma gather_run_fields [simp]:
  "pr_buf (gather_run pr w n) =
     (if n \<noteq> 0 then memwrite (pr_buf pr) (pr_floor pr) (cur_bytes pr w (run_start pr) n) else pr_buf pr)"
  "pr_cap (gather_run pr w n) = pr_cap pr" "pr_floor (gather_run pr w n) = pr_floor pr + n"
  "live_in_buf (gather_run pr w n) = live_in_buf pr" "cur (gather_run pr w n) = cur pr"
  "has_cur (gather_run pr w n) = has_cur pr" "cur_pos (gather_run pr w n) = cur_pos pr"
  "pinned (gather_run pr w n) = (if n \<noteq> 0 \<and> \<not> has_pinned pr then cur pr else pinned pr)"
  "has_pinned (gather_run pr w n) \<longleftrightarrow> n \<noteq> 0 \<or> has_pinned pr"
  "cur_is_pinned (gather_run pr w n) \<longleftrightarrow> cur_is_pinned pr \<or> (n \<noteq> 0 \<and> \<not> has_pinned pr)"
  "run_in_cur (gather_run pr w n) \<longleftrightarrow> False" "run_len (gather_run pr w n) = run_len pr"
  "run_start (gather_run pr w n) = (if n \<noteq> 0 then pr_floor pr else run_start pr)"
  "examined (gather_run pr w n) = examined pr" "pr_eof (gather_run pr w n) = pr_eof pr"
  "pr_error (gather_run pr w n) = pr_error pr"
  by (simp_all add: gather_run_def Let_def)

lemma gather_live_fields [simp]:
  "pr_buf (gather_live pr w n) =
     (if n \<noteq> 0 then memwrite (pr_buf pr) (pr_floor pr) (cur_bytes pr w (cur_pos pr) n) else pr_buf pr)"
  "pr_cap (gather_live pr w n) = pr_cap pr" "pr_floor (gather_live pr w n) = pr_floor pr"
  "live_in_buf (gather_live pr w n) = True" "buf_pos (gather_live pr w n) = pr_floor pr"
  "buf_end (gather_live pr w n) = pr_floor pr + n"
  "cur (gather_live pr w n) = cur pr" "has_cur (gather_live pr w n) = has_cur pr"
  "cur_pos (gather_live pr w n) = cur_pos pr" "pinned (gather_live pr w n) = pinned pr"
  "has_pinned (gather_live pr w n) = has_pinned pr" "cur_is_pinned (gather_live pr w n) = cur_is_pinned pr"
  "run_in_cur (gather_live pr w n) = run_in_cur pr" "run_len (gather_live pr w n) = run_len pr"
  "run_start (gather_live pr w n) = run_start pr"
  "examined (gather_live pr w n) = examined pr" "pr_eof (gather_live pr w n) = pr_eof pr"
  "pr_error (gather_live pr w n) = pr_error pr"
  by (simp_all add: gather_live_def Let_def)

lemma cur_bytes_gather [simp]: "cur_bytes (gather_run pr w n) w' off k = cur_bytes pr w' off k"
  by (simp add: cur_bytes_def)

text \<open>A successful \<open>gather\<close> of a current buffer always lets the buffer go.\<close>

definition gathered :: "pipereader \<Rightarrow> io \<Rightarrow> pipereader" where
  "gathered pr w =
     (gather_live (gather_run pr w (if run_in_cur pr then run_len pr else 0)) w (it_len (cur pr) - cur_pos pr))
       \<lparr>has_cur := False, cur_is_pinned := False, cur_pos := 0\<rparr>"

lemma gather_form:
  assumes "has_cur pr" and "gather pr w = (True, pr', w')"
  shows "pr_floor pr + (if run_in_cur pr then run_len pr else 0) + (it_len (cur pr) - cur_pos pr) \<le> pr_cap pr"
    and "pr' = gathered pr w"
    and "w' = (if cur_is_pinned pr \<or> (run_in_cur pr \<and> 0 < run_len pr \<and> \<not> has_pinned pr) then w
               else buf_return (it_id (cur pr)) w)"
proof -
  show fit: "pr_floor pr + (if run_in_cur pr then run_len pr else 0) + (it_len (cur pr) - cur_pos pr) \<le> pr_cap pr"
    using assms by (auto simp: gather_def Let_def split: if_splits)
  show "pr' = gathered pr w"
    using assms fit by (simp add: gather_def gathered_def cur_done_def Let_def)
  show "w' = (if cur_is_pinned pr \<or> (run_in_cur pr \<and> 0 < run_len pr \<and> \<not> has_pinned pr) then w
               else buf_return (it_id (cur pr)) w)"
    using assms fit by (auto simp: gather_def cur_done_def Let_def split: if_splits)
qed

lemma gather_ok:
  assumes ok: "reader_inv fl pr w" and hc: "has_cur pr" and g: "gather pr w = (True, pr', w')"
  shows "reader_inv fl pr' w' \<and> live pr' w' = live pr w \<and> run pr' w' = run pr w \<and> live_in_buf pr'"
proof -
  define l where "l = it_len (cur pr) - cur_pos pr"
  define r where "r = (if run_in_cur pr then run_len pr else 0)"
  note form = gather_form[OF hc g, folded l_def r_def]
  have p': "pr' = (gather_live (gather_run pr w r) w l)\<lparr>has_cur := False, cur_is_pinned := False, cur_pos := 0\<rparr>"
    using form(2) by (simp add: gathered_def l_def r_def)
  have inv: "shape_ok pr" "slab_ok pr w" "accounted fl pr w" using ok by (simp_all add: reader_inv_def)
  have nl: "\<not> live_in_buf pr" using inv(1) hc by (auto simp: shape_ok_def)
  have lens: "length (cur_bytes pr w (cur_pos pr) l) = l" "length (cur_bytes pr w (run_start pr) r) = r"
    using inv(1,2) hc by (auto simp: cur_bytes_def l_def r_def shape_ok_def slab_ok_def)
  have shape: "shape_ok pr'"
    using inv(1) form(1) lens by (auto simp: p' shape_ok_def r_def)
  have slab: "slab_ok pr' w'"
    using inv(2) hc form(3) by (auto simp: p' slab_ok_def buf_return_def)
  have w': "w' = (if cur_is_pinned pr \<or> (r \<noteq> 0 \<and> \<not> has_pinned pr) then w else buf_return (it_id (cur pr)) w)"
    using form(3) by (auto simp: r_def)
  have cip: "cur_is_pinned pr \<Longrightarrow> has_pinned pr \<and> cur pr = pinned pr" using inv(1) by (simp add: shape_ok_def)
  have acc: "accounted fl pr' w'"
    using inv(3) hc cip w'
    by (cases "cur_is_pinned pr"; cases "has_pinned pr"; cases "r = 0")
       (auto simp: p' accounted_def held_def buf_return_def add_mset_commute)
  have live: "live pr' w' = live pr w"
    using lens nl hc inv(1) form(1)
    by (cases "r = 0"; cases "l = 0") (auto simp: p' view_defs l_def cur_bytes_def memread_memwrite_same shape_ok_def)
  have run: "run pr' w' = run pr w"
  proof (cases "run_len pr = 0")
    case True
    then show ?thesis by (simp add: p')
  next
    case False
    have "run pr w = (if run_in_cur pr then cur_bytes pr w (run_start pr) r else memread (pr_buf pr) (run_start pr) (run_len pr))"
      by (simp add: view_defs r_def cur_bytes_def)
    then show ?thesis
      using False lens inv(1) form(1)
      by (cases "run_in_cur pr"; cases "l = 0")
         (auto simp: p' view_defs r_def shape_ok_def memread_memwrite_same memread_memwrite_before)
  qed
  show ?thesis using shape slab acc live run by (simp add: reader_inv_def p')
qed

lemma compact_ok:
  assumes ok: "reader_inv fl pr w" and lb: "live_in_buf pr"
  shows "reader_inv fl (compact pr) w \<and> live (compact pr) w = live pr w \<and> run (compact pr) w = run pr w \<and>
    live_in_buf (compact pr) \<and> pr_cap (compact pr) = pr_cap pr"
proof (cases "buf_pos pr > pr_floor pr")
  case False
  then show ?thesis using assms by (simp add: compact_def)
next
  case True
  have inv: "shape_ok pr" "slab_ok pr w" "accounted fl pr w" using ok by (simp_all add: reader_inv_def)
  let ?n = "buf_end pr - buf_pos pr"
  have b: "buf_pos pr \<le> buf_end pr" "buf_end pr \<le> length (pr_buf pr)" using inv(1) lb by (auto simp: shape_ok_def)
  have "length (memread (pr_buf pr) (buf_pos pr) ?n) = ?n" using b by simp
  moreover have "buf_end pr - (buf_pos pr - pr_floor pr) - pr_floor pr = ?n" using True b by simp
  ultimately have "live (compact pr) w = live pr w"
    using True lb b by (simp add: compact_def view_defs memmove_in_def memread_memwrite_same)
  moreover have "run (compact pr) w = run pr w"
    using True inv(1) lb by (cases "run_len pr = 0") 
      (auto simp: compact_def view_defs memmove_in_def memread_memwrite_before shape_ok_def)
  moreover have "reader_inv fl (compact pr) w"
    using True inv lb b by (auto simp: compact_def reader_defs accounted_def held_def)
  ultimately show ?thesis using True lb by (simp add: compact_def)
qed

lemma append_live:
  assumes ok: "reader_inv fl pr w" and lb: "live_in_buf pr" and fit: "buf_end pr + length data \<le> pr_cap pr"
  defines "pr' \<equiv> pr\<lparr>pr_buf := memwrite (pr_buf pr) (buf_end pr) data, buf_end := buf_end pr + length data\<rparr>"
  shows "reader_inv fl pr' w \<and> live pr' w = live pr w @ data \<and> run pr' w = run pr w"
proof -
  have inv: "shape_ok pr" "slab_ok pr w" "accounted fl pr w" using ok by (simp_all add: reader_inv_def)
  have b: "pr_floor pr \<le> buf_pos pr" "buf_pos pr \<le> buf_end pr" "length (pr_buf pr) = pr_cap pr"
    using inv(1) lb by (auto simp: shape_ok_def)
  have "live pr' w = live pr w @ data"
    using lb fit b memread_write_end[of "buf_pos pr" "buf_end pr" data "pr_buf pr"]
    by (simp add: pr'_def view_defs)
  moreover have "run pr' w = run pr w"
    using inv(1) lb b fit by (cases "run_len pr = 0")
      (auto simp: pr'_def view_defs memread_memwrite_before shape_ok_def)
  moreover have "reader_inv fl pr' w"
    using inv lb b fit by (auto simp: pr'_def reader_defs accounted_def held_def)
  ultimately show ?thesis by simp
qed


section \<open>Reading and consuming\<close>

lemma held_known:
  "reader_inv fl pr w \<Longrightarrow> i \<in> set (held pr) \<Longrightarrow> i < io_next w"
proof -
  assume "reader_inv fl pr w" and i: "i \<in> set (held pr)"
  then have "mset fl + (mset (held pr) + mset (io_returned w)) = mset [0..<io_next w]"
    by (simp add: reader_inv_def accounted_def)
  then have "i \<in># mset [0..<io_next w]" using i by (metis in_multiset_in_set union_iff)
  then show "i < io_next w" by simp
qed

text \<open>A newly received buffer is none of those the reader holds.\<close>

lemma recv_item_ok:
  assumes ok: "reader_ok pr w" and r: "ioxd__conn_recv_item w = (Inr it, w')"
  obtains p where "io_rx w = p # io_rx w'" and "it_len it = length p" and "io_slab w' (it_id it) = p"
    and "reader_inv [it_id it] pr w'" and "live pr w' = live pr w" and "run pr w' = run pr w"
proof -
  obtain p rest where rx: "io_rx w = p # rest" and it: "it = \<lparr>it_id = io_next w, it_len = length p\<rparr>"
    and w': "w' = w\<lparr>io_rx := rest, io_ready := io_ready w - 1, io_next := io_next w + 1,
             io_slab := (io_slab w)(io_next w := p)\<rparr>"
    using r by (auto simp: ioxd__conn_recv_item_def split: list.splits)
  have inv: "shape_ok pr" "slab_ok pr w" "accounted [] pr w" using ok by (simp_all add: reader_inv_def)
  have cip: "cur_is_pinned pr \<Longrightarrow> has_pinned pr \<and> cur pr = pinned pr" using inv(1) by (simp add: shape_ok_def)
  have new: "has_cur pr \<Longrightarrow> it_id (cur pr) \<noteq> io_next w" "has_pinned pr \<Longrightarrow> it_id (pinned pr) \<noteq> io_next w"
    using held_known[OF ok, of "io_next w"] cip
    by (cases "cur_is_pinned pr"; auto simp: held_def split: if_splits)+
  have "accounted [it_id it] pr w'"
    using inv(3) by (simp add: accounted_def it w')
  moreover have "slab_ok pr w'" using inv(2) new by (auto simp: slab_ok_def w')
  moreover have "live pr w' = live pr w" using new by (auto simp: view_defs w')
  moreover have "run pr w' = run pr w"
    using inv(1) new by (cases "run_len pr = 0") (auto simp: view_defs w' shape_ok_def)
  ultimately show thesis using that[of p] inv(1) rx it w' by (simp add: reader_inv_def)
qed

lemma return_in_flight:
  "reader_inv (i # fl) pr w \<Longrightarrow> reader_inv fl pr (buf_return i w)"
  by (auto simp: reader_defs accounted_def buf_return_def)

lemma view_buf_return [simp]: "live pr (buf_return i w) = live pr w" "run pr (buf_return i w) = run pr w"
  by (simp_all add: view_defs buf_return_def)

lemma refuse_ok:
  assumes "reader_inv [it_id it] pr w" and "refuse pr w it = (rc, pr', w')"
  shows "reader_ok pr' w' \<and> live pr' w' = live pr w \<and> run pr' w' = run pr w \<and> rc = IOXD_PIPE_FULL \<and>
    pr_error pr' = rc \<and> io_rx w' = io_rx w"
proof -
  have "pr' = pr\<lparr>pr_error := IOXD_PIPE_FULL\<rparr>" "w' = buf_return (it_id it) w" "rc = IOXD_PIPE_FULL"
    using assms(2) by (simp_all add: refuse_def)
  moreover have "reader_ok (pr\<lparr>pr_error := IOXD_PIPE_FULL\<rparr>) (buf_return (it_id it) w)"
    using return_in_flight[OF assms(1)] by simp
  ultimately show ?thesis by simp
qed

lemma gather_slab: "gather pr w = (ok, pr', w') \<Longrightarrow> io_slab w' = io_slab w \<and> examined pr' = examined pr"
  by (auto simp: gather_def cur_done_def buf_return_def Let_def split: if_splits)

lemma gather_false: "gather pr w = (False, pr', w') \<Longrightarrow> pr' = pr \<and> w' = w"
  by (auto simp: gather_def Let_def split: if_splits prod.splits)

text \<open>Appending a received buffer to gathered live bytes, refused when there is no room.\<close>

lemma append_item:
  assumes inv: "reader_inv [it_id it] pr w" and lb: "live_in_buf pr" and len: "length (io_slab w (it_id it)) = it_len it"
    and e: "(let pr = (if buf_end pr + it_len it > pr_cap pr then compact pr else pr)
             in if buf_end pr + it_len it > pr_cap pr then refuse pr w it
                else (1, pr\<lparr>pr_buf := memwrite (pr_buf pr) (buf_end pr) (memread (io_slab w (it_id it)) 0 (it_len it)),
                            buf_end := buf_end pr + it_len it\<rparr>,
                      buf_return (it_id it) w)) = (rc, pr', w')"
  shows "reader_ok pr' w' \<and> run pr' w' = run pr w \<and> io_rx w' = io_rx w \<and>
    (rc = 1 \<and> live pr' w' = live pr w @ io_slab w (it_id it) \<or>
     rc = IOXD_PIPE_FULL \<and> live pr' w' = live pr w \<and> pr_error pr' = rc)"
proof -
  let ?c = "if buf_end pr + it_len it > pr_cap pr then compact pr else pr"
  have c: "reader_inv [it_id it] ?c w" "live ?c w = live pr w" "run ?c w = run pr w" "live_in_buf ?c"
    using compact_ok[OF inv lb] inv lb by simp_all
  show ?thesis
  proof (cases "buf_end ?c + it_len it > pr_cap ?c")
    case True
    then show ?thesis using e refuse_ok[OF c(1), of rc pr' w'] c by (simp add: Let_def)
  next
    case False
    let ?d = "io_slab w (it_id it)"
    have d: "memread ?d 0 (it_len it) = ?d" using len by (simp add: memread_def)
    note a = append_live[OF c(1,4), of ?d, unfolded len]
    have "pr' = ?c\<lparr>pr_buf := memwrite (pr_buf ?c) (buf_end ?c) ?d, buf_end := buf_end ?c + it_len it\<rparr>"
      "w' = buf_return (it_id it) w" "rc = 1"
      using e False by (simp_all add: Let_def d)
    then show ?thesis using a False return_in_flight c(2,3) by simp
  qed
qed


lemma take_in_place:
  assumes inv: "reader_inv [it_id it] pr w" and nl: "\<not> live_in_buf pr" "\<not> has_cur pr"
    and len: "length (io_slab w (it_id it)) = it_len it"
  defines "pr' \<equiv> pr\<lparr>cur := it, has_cur := True, cur_pos := 0, cur_is_pinned := False\<rparr>"
  shows "reader_ok pr' w \<and> live pr w = [] \<and> live pr' w = io_slab w (it_id it) \<and> run pr' w = run pr w"
proof -
  have i: "shape_ok pr" "slab_ok pr w" "accounted [it_id it] pr w" using inv by (simp_all add: reader_inv_def)
  have "shape_ok pr'" "slab_ok pr' w" using i(1,2) nl len by (auto simp: pr'_def shape_ok_def slab_ok_def)
  moreover have "accounted [] pr' w" using i(3) nl by (auto simp: pr'_def accounted_def held_def split: if_splits)
  moreover have "run pr' w = run pr w"
    using i(1) nl by (cases "run_len pr = 0") (auto simp: pr'_def view_defs shape_ok_def)
  ultimately show ?thesis using nl len by (simp add: reader_inv_def pr'_def view_defs memread_all)
qed

text \<open>
  \<open>more\<close> either appends exactly the next payload to the live bytes, or leaves them as they are.
\<close>

lemma more_ok:
  assumes ok: "reader_ok pr w" and m: "more pr w = (rc, pr', w')"
  shows "reader_ok pr' w' \<and> run pr' w' = run pr w \<and>
    (rc = 1 \<and> (\<exists>p. io_rx w = p # io_rx w' \<and> live pr' w' = live pr w @ p) \<or>
     rc \<le> 0 \<and> live pr' w' = live pr w \<and> (rc = 0 \<longrightarrow> io_rx w' = io_rx w \<and> pr_eof pr') \<and> (rc < 0 \<longrightarrow> pr_error pr' = rc))"
proof (cases "pr_eof pr")
  case True
  then show ?thesis using assms by (simp add: more_def)
next
  case False
  obtain r w1 where r: "ioxd__conn_recv_item w = (r, w1)" by (metis surj_pair)
  show ?thesis
  proof (cases r)
    case (Inl e)
    then have "w1 = w" using r by (auto simp: ioxd__conn_recv_item_def split: list.splits)
    then show ?thesis using m False r Inl ok by (auto simp: more_def Let_def)
  next
    case (Inr it)
    obtain p where p: "io_rx w = p # io_rx w1" "it_len it = length p" "io_slab w1 (it_id it) = p"
      "reader_inv [it_id it] pr w1" "live pr w1 = live pr w" "run pr w1 = run pr w"
      using recv_item_ok[OF ok] r Inr by metis
    note e = m[unfolded more_def, simplified False r Inr, simplified]
    consider (place) "\<not> live_in_buf pr" "\<not> has_cur pr" | (gather) "\<not> live_in_buf pr" "has_cur pr" | (buf) "live_in_buf pr"
      by blast
    then show ?thesis
    proof cases
      case place
      then show ?thesis using e p take_in_place[OF p(4) place] by auto
    next
      case gather
      obtain ok pr2 w2 where g: "gather pr w1 = (ok, pr2, w2)" by (metis surj_pair)
      show ?thesis
      proof (cases ok)
        case True
        have s: "io_slab w2 = io_slab w1" "io_rx w2 = io_rx w1" using gather_slab[OF g] gather_rx[OF g] by auto
        have g2: "reader_inv [it_id it] pr2 w2" "live pr2 w2 = live pr w" "run pr2 w2 = run pr w" "live_in_buf pr2"
          using gather_ok[OF p(4) gather(2)] g True p(5,6) by auto
        show ?thesis
          using append_item[OF g2(1,4), of rc pr' w'] e gather g True p s g2 by auto
      next
        case False
        then have "pr2 = pr" "w2 = w1" using gather_false g by auto
        then show ?thesis using e gather g False refuse_ok[OF p(4), of rc pr' w'] p by auto
      qed
    next
      case buf
      then show ?thesis using append_item[OF p(4) buf, of rc pr' w'] e p by auto
    qed
  qed
qed

lemma live_length: "reader_inv fl pr w \<Longrightarrow> length (live pr w) = snd (live_span pr)"
  by (auto simp: view_defs reader_defs)

lemma consume_ok:
  assumes ok: "reader_ok pr w" and c: "consume pr w n = (pr', w')"
  shows "reader_ok pr' w' \<and> live pr' w' = drop n (live pr w) \<and> run pr' w' = run pr w"
proof -
  have inv: "shape_ok pr" "slab_ok pr w" "accounted [] pr w" using ok by (simp_all add: reader_inv_def)
  define k where "k = min n (snd (live_span pr))"
  have k: "drop n (live pr w) = drop k (live pr w)" using live_length[OF ok] by (simp add: k_def min_def)
  have kn: "(if n > snd (live_span pr) then snd (live_span pr) else n) = k" by (simp add: k_def min_def)
  consider (buf) "live_in_buf pr" | (cur) "\<not> live_in_buf pr" "has_cur pr" | (none) "\<not> live_in_buf pr" "\<not> has_cur pr" by blast
  then show ?thesis
  proof cases
    case buf
    let ?p = "if buf_pos pr + k \<ge> buf_end pr then pr\<lparr>buf_pos := pr_floor pr, buf_end := pr_floor pr, live_in_buf := False\<rparr>
              else pr\<lparr>buf_pos := buf_pos pr + k\<rparr>"
    have l: "k \<le> buf_end pr - buf_pos pr" using buf by (simp add: k_def live_span_def)
    have p': "pr' = ?p\<lparr>examined := (if examined pr > k then examined pr - k else 0)\<rparr>" "w' = w"
      using c buf by (auto simp: consume_def kn Let_def)
    have "reader_ok ?p w" using inv buf l by (auto simp: reader_defs accounted_def held_def)
    moreover have "live ?p w = drop k (live pr w)"
      using buf l inv(1) memread_drop[OF l, of "pr_buf pr" "buf_pos pr"]
      by (auto simp: view_defs shape_ok_def)
    moreover have "run ?p w = run pr w" by (simp add: view_defs)
    ultimately show ?thesis using p' k by simp
  next
    case cur
    let ?p = "pr\<lparr>cur_pos := cur_pos pr + k\<rparr>"
    have l: "k \<le> it_len (cur pr) - cur_pos pr" using cur by (simp add: k_def live_span_def)
    obtain p1 w1 where d: "cur_done ?p w = (p1, w1)" by (metis surj_pair)
    have "reader_ok ?p w" using inv cur l by (auto simp: reader_defs accounted_def held_def)
    moreover have "live ?p w = drop k (live pr w)"
      using cur l memread_drop[OF l, of "io_slab w (it_id (cur pr))" "cur_pos pr"] by (simp add: view_defs)
    moreover have "run ?p w = run pr w" by (simp add: view_defs)
    moreover have "pr' = p1\<lparr>examined := (if examined p1 > k then examined p1 - k else 0)\<rparr>" "w' = w1"
      using c cur d by (auto simp: consume_def kn Let_def)
    ultimately show ?thesis using cur_done_ok[OF _ d] k by simp
  next
    case none
    then show ?thesis using c ok k by (auto simp: consume_def kn Let_def view_defs)
  qed
qed

lemma keep_in_buf_form:
  defines "f pr \<equiv> if run_len pr = 0 then buf_pos pr else pr_floor pr"
  defines "q pr n \<equiv> snd (keep_in_buf pr n)"
  shows "fst (keep_in_buf pr n) = In_buf (f pr)"
    and "pr_buf (q pr n) = (if run_len pr \<noteq> 0 \<and> buf_pos pr \<noteq> pr_floor pr
       then memmove_in (pr_buf pr) (pr_floor pr) (buf_pos pr) n else pr_buf pr)"
    and "pr_floor (q pr n) = f pr + n" and "run_in_cur (q pr n) \<longleftrightarrow> run_len pr \<noteq> 0 \<and> run_in_cur pr"
    and "run_start (q pr n) = (if run_len pr = 0 then buf_pos pr else run_start pr)"
    and "pr_cap (q pr n) = pr_cap pr" "live_in_buf (q pr n) = live_in_buf pr" "buf_pos (q pr n) = buf_pos pr"
    and "buf_end (q pr n) = buf_end pr" "has_cur (q pr n) = has_cur pr" "cur (q pr n) = cur pr"
    and "cur_pos (q pr n) = cur_pos pr" "pinned (q pr n) = pinned pr" "has_pinned (q pr n) = has_pinned pr"
    and "cur_is_pinned (q pr n) = cur_is_pinned pr" "run_len (q pr n) = run_len pr"
  by (simp_all add: keep_in_buf_def f_def q_def Let_def)

text \<open>\<open>consume\<close> of live bytes in the buffer.\<close>

lemma consume_in_buf:
  assumes "live_in_buf pr" and "n \<le> buf_end pr - buf_pos pr"
  obtains e where "consume pr w n =
    ((if buf_pos pr + n \<ge> buf_end pr then pr\<lparr>buf_pos := pr_floor pr, buf_end := pr_floor pr, live_in_buf := False\<rparr>
      else pr\<lparr>buf_pos := buf_pos pr + n\<rparr>)\<lparr>examined := e\<rparr>, w)"
proof -
  have "live_span pr = (In_buf (buf_pos pr), buf_end pr - buf_pos pr)" using assms(1) by (simp add: live_span_def)
  moreover have "\<not> buf_end pr - buf_pos pr < n" using assms(2) by simp
  ultimately show thesis using assms(1) that
    by (cases "buf_pos pr + n \<ge> buf_end pr") (simp_all add: consume_def Let_def)
qed

end
