(* ===== verification/Pipe_Stream.thy ===== *)
theory Pipe_Stream
  imports Pipe_Reader
begin

text \<open>
  What the pipe's reader promises, over \<^verbatim>\<open>lib/io/pipe.c\<close> as modelled in \<open>Pipe_Reader\<close>: the
  remaining operations (\<open>keep\<close>, \<open>run_begin\<close>, \<open>release\<close>, \<open>close\<close>, \<open>copy\<close>, \<open>avail\<close>,
  \<open>inject\<close>) preserve the invariant, and any sequence of operations conserves the stream, gives
  every kernel buffer back exactly once, and leaves frozen kept bytes in place.
\<close>

section \<open>Keeping bytes\<close>

lemma held_cong:
  "has_cur q = has_cur pr \<Longrightarrow> cur_is_pinned q = cur_is_pinned pr \<Longrightarrow> has_pinned q = has_pinned pr \<Longrightarrow>
     cur q = cur pr \<Longrightarrow> pinned q = pinned pr \<Longrightarrow> held q = held pr"
  by (simp add: held_def)

lemma accounted_cong:
  "held q = held pr \<Longrightarrow> io_returned v = io_returned w \<Longrightarrow> io_next v = io_next w \<Longrightarrow> accounted fl q v = accounted fl pr w"
  by (simp add: accounted_def)

lemma memmove_down:
  assumes "dst \<le> src" and "src + n \<le> length buf"
  shows "length (memmove_in buf dst src n) = length buf"
    and "memread (memmove_in buf dst src n) dst n = memread buf src n"
    and "src + n \<le> a \<Longrightarrow> memread (memmove_in buf dst src n) a m = memread buf a m"
    and "a + m \<le> dst \<Longrightarrow> memread (memmove_in buf dst src n) a m = memread buf a m"
  using assms by (simp_all add: memmove_in_def memread_memwrite_same memread_memwrite_before memread_memwrite_after)

text \<open>The kept bytes of a run that grows by \<open>n\<close> bytes right behind it.\<close>

lemma run_grows:
  "memread buf rs (rl + n) = memread buf rs rl @ memread buf (rs + rl) n"
  by (rule memread_append)

lemma keep_in_buf_ok:
  assumes ok: "reader_ok pr w" and lb: "live_in_buf pr" and n: "0 < n" "n \<le> snd (live_span pr)"
    and k: "ioxd__pipereader_keep pr w n = (pl, pr', w')"
  shows "reader_ok pr' w' \<and> live pr' w' = drop n (live pr w) \<and> run pr' w' = run pr w @ take n (live pr w) \<and>
    pl \<noteq> Nullptr \<and> bytes_at pr' w' (pl, n) = take n (live pr w) \<and> w' = w"
proof -
  define f where "f = (if run_len pr = 0 then buf_pos pr else pr_floor pr)"
  define rs where "rs = (if run_len pr = 0 then buf_pos pr else run_start pr)"
  define q where "q = snd (keep_in_buf pr n)"
  define B where "B = pr_buf q"
  note form = keep_in_buf_form[of pr n, folded q_def f_def rs_def]
  have inv: "shape_ok pr" "slab_ok pr w" "accounted [] pr w" using ok by (simp_all add: reader_inv_def)
  have b: "pr_floor pr \<le> buf_pos pr" "buf_end pr \<le> length (pr_buf pr)" "n \<le> buf_end pr - buf_pos pr" "\<not> has_cur pr"
    "length (pr_buf pr) = pr_cap pr" "buf_pos pr \<le> buf_end pr"
    using inv(1) lb n by (auto simp: shape_ok_def live_span_def)
  have nrc: "0 < run_len pr \<Longrightarrow> \<not> run_in_cur pr \<and> rs + run_len pr = f" using inv(1) b(4) by (auto simp: shape_ok_def rs_def f_def)
  have rsf: "rs + run_len pr = f" using nrc by (cases "run_len pr = 0") (auto simp: rs_def f_def)
  have fle: "f \<le> buf_pos pr" using b(1) by (simp add: f_def)
  have mv: "length B = length (pr_buf pr)" "memread B f n = memread (pr_buf pr) (buf_pos pr) n"
    "\<And>a m. buf_pos pr + n \<le> a \<Longrightarrow> memread B a m = memread (pr_buf pr) a m"
    "\<And>a m. a + m \<le> pr_floor pr \<Longrightarrow> memread B a m = memread (pr_buf pr) a m"
    using memmove_down[of "pr_floor pr" "buf_pos pr" n "pr_buf pr"] b by (auto simp: B_def form(2) f_def)
  let ?q = "q\<lparr>run_len := run_len q + n\<rparr>"
  let ?q2 = "if buf_pos ?q + n \<ge> buf_end ?q then ?q\<lparr>buf_pos := pr_floor ?q, buf_end := pr_floor ?q, live_in_buf := False\<rparr>
             else ?q\<lparr>buf_pos := buf_pos ?q + n\<rparr>"
  obtain x where x: "consume ?q w n = (?q2\<lparr>examined := x\<rparr>, w)"
    using consume_in_buf[of ?q n w] lb b(3) form by auto
  have kb: "keep_in_buf pr n = (In_buf f, q)" using form(1) by (metis prod.collapse q_def)
  have e: "pl = In_buf f" "w' = w" "pr' = ?q2\<lparr>examined := x\<rparr>"
    using k lb n x by (simp_all add: ioxd__pipereader_keep_def kb case_prod_beta)
  have ok': "reader_ok ?q2 w"
  proof -
    have "shape_ok ?q2"
      using inv(1) b mv(1) fle rsf nrc unfolding shape_ok_def
      by (cases "buf_pos pr + n \<ge> buf_end pr") (simp_all add: form(3-) B_def[symmetric])
    moreover have "slab_ok ?q2 w" using inv(2) by (simp add: slab_ok_def form(3-))
    moreover have "held ?q2 = held pr" by (rule held_cong) (simp_all add: form(3-))
    then have "accounted [] ?q2 w" using inv(3) accounted_cong by blast
    ultimately show ?thesis by (simp add: reader_inv_def)
  qed
  have live': "live ?q2 w = drop n (live pr w)"
    using lb b mv(3) memread_drop[OF b(3), of "pr_buf pr" "buf_pos pr"] by (auto simp: view_defs form(3-) B_def[symmetric])
  have kept: "memread B f n = take n (live pr w)"
    using lb b mv(2) memread_take[of n "buf_end pr - buf_pos pr" "pr_buf pr" "buf_pos pr"] by (simp add: view_defs)
  have old: "memread B rs (run_len pr) = run pr w"
    using nrc mv(4) by (cases "run_len pr = 0") (auto simp: view_defs rs_def f_def)
  have "run ?q2 w = memread B rs (run_len pr + n)"
    using nrc by (auto simp: view_defs form B_def)
  then have run': "run ?q2 w = run pr w @ take n (live pr w)"
    using run_grows[of B rs "run_len pr" n] kept old rsf by simp
  show ?thesis using e ok' live' run' kept by (simp add: form B_def)
qed

lemma consume_in_run:
  assumes "\<not> live_in_buf q" "has_cur q" "run_in_cur q" "run_len q \<noteq> 0" "n \<le> it_len (cur q) - cur_pos q"
  obtains e where "consume q w n = (q\<lparr>cur_pos := cur_pos q + n, examined := e\<rparr>, w)"
proof -
  have "live_span q = (In_item (it_id (cur q)) (cur_pos q), it_len (cur q) - cur_pos q)"
    using assms(1,2) by (simp add: live_span_def)
  moreover have "\<not> it_len (cur q) - cur_pos q < n" using assms(5) by simp
  ultimately have "consume q w n = (q\<lparr>cur_pos := cur_pos q + n,
      examined := (if examined q > n then examined q - n else 0)\<rparr>, w)"
    using assms(1-4) by (simp add: consume_def cur_done_def Let_def)
  then show thesis by (rule that)
qed

lemma keep_in_cur_ok:
  assumes ok: "reader_ok pr w" and hc: "has_cur pr" and rc: "run_len pr = 0 \<or> run_in_cur pr"
    and n: "0 < n" "n \<le> snd (live_span pr)" and k: "ioxd__pipereader_keep pr w n = (pl, pr', w')"
  shows "reader_ok pr' w' \<and> live pr' w' = drop n (live pr w) \<and> run pr' w' = run pr w @ take n (live pr w) \<and>
    pl \<noteq> Nullptr \<and> bytes_at pr' w' (pl, n) = take n (live pr w) \<and> io_rx w' = io_rx w"
proof -
  have inv: "shape_ok pr" "slab_ok pr w" "accounted [] pr w" using ok by (simp_all add: reader_inv_def)
  have nl: "\<not> live_in_buf pr" using inv(1) hc by (auto simp: shape_ok_def)
  define i where "i = it_id (cur pr)"
  define rs where "rs = (if run_len pr = 0 then cur_pos pr else run_start pr)"
  define re where "re = rs + run_len pr"
  define S where "S = (if re \<noteq> cur_pos pr then memmove_in (io_slab w i) re (cur_pos pr) n else io_slab w i)"
  define W where "W = w\<lparr>io_slab := (io_slab w)(i := S)\<rparr>"
  have ls: "live_span pr = (In_item i (cur_pos pr), it_len (cur pr) - cur_pos pr)"
    using nl hc by (simp add: live_span_def i_def)
  have b: "n \<le> it_len (cur pr) - cur_pos pr" "length (io_slab w i) = it_len (cur pr)" "cur_pos pr \<le> it_len (cur pr)"
    using n ls inv hc by (auto simp: slab_ok_def i_def shape_ok_def)
  have re: "re \<le> cur_pos pr" using rc inv(1) by (auto simp: re_def rs_def shape_ok_def)
  have mv: "length S = it_len (cur pr)" "memread S re n = memread (io_slab w i) (cur_pos pr) n"
    "\<And>a m. cur_pos pr + n \<le> a \<Longrightarrow> memread S a m = memread (io_slab w i) a m"
    "\<And>a m. a + m \<le> re \<Longrightarrow> memread S a m = memread (io_slab w i) a m"
    using memmove_down[of re "cur_pos pr" n "io_slab w i"] re b by (auto simp: S_def)
  define q where "q = (if run_len pr = 0 then pr\<lparr>run_in_cur := True, run_start := cur_pos pr\<rparr> else pr)"
  have kc: "keep_in_cur pr w n = (In_item i re, q, W)"
    by (auto simp: keep_in_cur_def Let_def i_def re_def rs_def W_def S_def q_def)
  have q: "run_in_cur q" "run_start q = rs" "run_len q = run_len pr" "live_in_buf q = live_in_buf pr" "cur q = cur pr"
    "has_cur q = has_cur pr" "cur_pos q = cur_pos pr" "pinned q = pinned pr" "has_pinned q = has_pinned pr"
    "cur_is_pinned q = cur_is_pinned pr" "pr_buf q = pr_buf pr" "pr_cap q = pr_cap pr" "pr_floor q = pr_floor pr"
    using rc by (auto simp: rs_def q_def)
  let ?r = "q\<lparr>run_len := run_len q + n, cur_pos := cur_pos pr + n\<rparr>"
  obtain x where x: "consume (q\<lparr>run_len := run_len q + n\<rparr>) W n = (?r\<lparr>examined := x\<rparr>, W)"
    using consume_in_run[of "q\<lparr>run_len := run_len q + n\<rparr>" n W] nl hc q n b(1) by auto
  have e: "pl = In_item i re" "w' = W" "pr' = ?r\<lparr>examined := x\<rparr>"
    using k nl hc rc n ls x b by (simp_all add: ioxd__pipereader_keep_def kc)
  have ok': "reader_ok ?r W"
  proof -
    have "shape_ok ?r" using inv(1) b(1,3) hc nl re by (simp add: shape_ok_def re_def q)
    moreover have "slab_ok ?r W" using inv(2) mv(1) hc by (auto simp: slab_ok_def W_def i_def q)
    moreover have "held ?r = held pr" by (rule held_cong) (simp_all add: q)
    then have "accounted [] ?r W" using inv(3) accounted_cong[of ?r pr W w] by (simp add: W_def)
    ultimately show ?thesis by (simp add: reader_inv_def)
  qed
  have live': "live ?r W = drop n (live pr w)"
    using nl hc mv(3) memread_drop[OF b(1), of "io_slab w i" "cur_pos pr"] ls
    by (auto simp: view_defs W_def i_def[symmetric] q)
  have kept: "memread S re n = take n (live pr w)"
    using ls mv(2) b memread_take[of n "it_len (cur pr) - cur_pos pr" "io_slab w i" "cur_pos pr"] by (simp add: live_def)
  have old: "memread S rs (run_len pr) = run pr w"
    using rc mv(4)[of rs "run_len pr"] by (cases "run_len pr = 0") (auto simp: run_def ioxd__pipereader_run_def re_def rs_def i_def)
  have "run ?r W = memread S rs (run_len pr + n)"
    by (simp add: run_def ioxd__pipereader_run_def W_def i_def q)
  then have run': "run ?r W = run pr w @ take n (live pr w)"
    using run_grows[of S rs "run_len pr" n] kept old re_def by simp
  show ?thesis using e ok' live' run' kept by (simp add: W_def)
qed

text \<open>The state a copy across the two places reaches before the bytes are consumed.\<close>

definition across :: "pipereader \<Rightarrow> io \<Rightarrow> nat \<Rightarrow> pipereader" where
  "across pr w n =
     pr\<lparr>pr_buf := memwrite (pr_buf pr) (pr_floor pr) (cur_bytes pr w (cur_pos pr) n),
        pr_floor := pr_floor pr + n, buf_pos := pr_floor pr + n, buf_end := pr_floor pr + n,
        run_len := run_len pr + n\<rparr>"

lemma across_ok:
  assumes ok: "reader_ok pr w" and hc: "has_cur pr" and rc: "run_len pr \<noteq> 0" "\<not> run_in_cur pr"
    and n: "0 < n" "n \<le> snd (live_span pr)" and fit: "pr_floor pr + n \<le> pr_cap pr"
    and k: "ioxd__pipereader_keep pr w n = (pl, pr', w')"
  shows "reader_ok (across pr w n) w" and "consume (across pr w n) w n = (pr', w')" and "pl = In_buf (pr_floor pr)"
    and "length (cur_bytes pr w (cur_pos pr) n) = n"
proof -
  have inv: "shape_ok pr" "slab_ok pr w" "accounted [] pr w" using ok by (simp_all add: reader_inv_def)
  have nl: "\<not> live_in_buf pr" using inv(1) hc by (auto simp: shape_ok_def)
  show len: "length (cur_bytes pr w (cur_pos pr) n) = n"
    using nl hc n inv by (auto simp: view_defs cur_bytes_def slab_ok_def)
  have "shape_ok (across pr w n)" using inv(1) fit rc nl len by (auto simp: shape_ok_def across_def)
  moreover have "slab_ok (across pr w n) w" using inv(2) by (simp add: slab_ok_def across_def)
  moreover have "held (across pr w n) = held pr" by (rule held_cong) (simp_all add: across_def)
  then have "accounted [] (across pr w n) w" using inv(3) accounted_cong by blast
  ultimately show "reader_ok (across pr w n) w" by (simp add: reader_inv_def)
  show "pl = In_buf (pr_floor pr)" "consume (across pr w n) w n = (pr', w')"
    using k nl hc rc n fit
    by (auto simp: ioxd__pipereader_keep_def keep_across_def across_def case_prod_beta Let_def split: if_splits)
qed

lemma keep_across_ok:
  assumes ok: "reader_ok pr w" and hc: "has_cur pr" and rc: "run_len pr \<noteq> 0" "\<not> run_in_cur pr"
    and n: "0 < n" "n \<le> snd (live_span pr)" and fit: "pr_floor pr + n \<le> pr_cap pr"
    and k: "ioxd__pipereader_keep pr w n = (pl, pr', w')"
  shows "reader_ok pr' w' \<and> live pr' w' = drop n (live pr w) \<and> run pr' w' = run pr w @ take n (live pr w) \<and>
    pl \<noteq> Nullptr \<and> bytes_at pr' w' (pl, n) = take n (live pr w)"
proof -
  note a = across_ok[OF assms]
  have sh: "shape_ok pr" using ok by (simp add: reader_inv_def)
  have nl: "\<not> live_in_buf pr" using sh hc by (auto simp: shape_ok_def)
  define D where "D = cur_bytes pr w (cur_pos pr) n"
  let ?q = "across pr w n"
  have D: "D = take n (live pr w)"
    using nl hc n memread_take[of n "it_len (cur pr) - cur_pos pr" "io_slab w (it_id (cur pr))" "cur_pos pr"]
    by (auto simp: D_def view_defs cur_bytes_def)
  have len: "length (pr_buf pr) = pr_cap pr" and end_: "run_start pr + run_len pr = pr_floor pr"
    using sh rc by (auto simp: shape_ok_def)
  have lq: "live ?q w = live pr w" using nl by (simp add: view_defs across_def)
  have rq: "run ?q w = run pr w @ D"
    using rc len fit a(4)[folded D_def] end_
      run_grows[of "memwrite (pr_buf pr) (pr_floor pr) D" "run_start pr" "run_len pr" n]
    by (simp add: run_def ioxd__pipereader_run_def across_def D_def[symmetric] memread_memwrite_same memread_memwrite_before)
  have kept: "memread (pr_buf ?q) (pr_floor pr) n = D"
    using a(4) len fit by (simp add: across_def D_def memread_memwrite_same)
  have buf: "pr_buf pr' = pr_buf ?q"
    using a(2) nl hc by (auto simp: consume_def cur_done_def Let_def live_span_def across_def split: if_splits)
  show ?thesis using consume_ok[OF a(1,2)] lq rq kept D buf a(3) by simp
qed

text \<open>
  \<open>keep\<close>: it consumes the bytes and adds them to the run, and returns where they are; or it
  returns the null pointer and nothing moved.
\<close>

lemma keep_ok:
  assumes ok: "reader_ok pr w" and k: "ioxd__pipereader_keep pr w n = (pl, pr', w')"
  shows "reader_ok pr' w' \<and>
    (n \<le> length (live pr w) \<and> live pr' w' = drop n (live pr w) \<and> run pr' w' = run pr w @ take n (live pr w) \<and>
       bytes_at pr' w' (pl, n) = take n (live pr w) \<and> (0 < n \<longrightarrow> pl \<noteq> Nullptr) \<or>
     pl = Nullptr \<and> live pr' w' = live pr w \<and> run pr' w' = run pr w \<and> w' = w \<and>
       (n \<le> length (live pr w) \<longrightarrow> pr_error pr' = IOXD_PIPE_FULL))"
proof (cases "0 < n \<and> n \<le> snd (live_span pr)")
  case False
  then have "(pl, pr', w') = (if n > snd (live_span pr) then (Nullptr, pr, w) else (fst (live_span pr), pr, w))"
    using k by (auto simp: ioxd__pipereader_keep_def case_prod_beta)
  then show ?thesis using ok live_length[OF ok] False
    by (cases "live_span pr"; cases "fst (live_span pr)") (auto split: if_splits)
next
  case True
  note n = conjunct1[OF True] conjunct2[OF True]
  have len: "length (live pr w) = snd (live_span pr)" by (rule live_length[OF ok])
  have somewhere: "live_in_buf pr \<or> has_cur pr" using n by (auto simp: live_span_def split: if_splits)
  consider (buf) "live_in_buf pr" | (cur) "has_cur pr" "run_len pr = 0 \<or> run_in_cur pr" "\<not> live_in_buf pr"
    | (across) "has_cur pr" "run_len pr \<noteq> 0" "\<not> run_in_cur pr" "\<not> live_in_buf pr" "pr_floor pr + n \<le> pr_cap pr"
    | (full) "has_cur pr" "run_len pr \<noteq> 0" "\<not> run_in_cur pr" "\<not> live_in_buf pr" "pr_floor pr + n > pr_cap pr"
    using somewhere linorder_not_le[of "pr_floor pr + n" "pr_cap pr"] by blast
  then show ?thesis
  proof cases
    case buf
    then show ?thesis using keep_in_buf_ok[OF ok buf n k] n len by auto
  next
    case cur
    then show ?thesis using keep_in_cur_ok[OF ok cur(1,2) n k] n len by simp
  next
    case across
    then show ?thesis using keep_across_ok[OF ok across(1-3) n across(5) k] n len by simp
  next
    case full
    then show ?thesis using ok k n by (auto simp: ioxd__pipereader_keep_def case_prod_beta split: if_splits)
  qed
qed


section \<open>Runs, release and close\<close>

lemma run_begin_ok:
  assumes ok: "reader_ok pr w" and r: "ioxd__pipereader_run_begin pr w = (pr', w')"
  shows "reader_ok pr' w' \<and> live pr' w' = live pr w \<and> run pr' w' = [] \<and> io_rx w' = io_rx w"
proof -
  have inv: "shape_ok pr" "slab_ok pr w" "accounted [] pr w" using ok by (simp_all add: reader_inv_def)
  define q where "q = (if run_in_cur pr \<and> run_len pr \<noteq> 0 then
      if has_pinned pr \<and> \<not> cur_is_pinned pr then
        if pr_floor pr + run_len pr > pr_cap pr then pr\<lparr>pr_error := IOXD_PIPE_FULL\<rparr>
        else pr\<lparr>pr_buf := memwrite (pr_buf pr) (pr_floor pr) (cur_bytes pr w (run_start pr) (run_len pr)),
                pr_floor := pr_floor pr + run_len pr\<rparr>
      else pr\<lparr>pinned := cur pr, has_pinned := True, cur_is_pinned := True\<rparr>
    else pr)"
  let ?q = "q\<lparr>run_len := 0, run_in_cur := False\<rparr>"
  have len: "run_in_cur pr \<and> run_len pr \<noteq> 0 \<Longrightarrow> length (cur_bytes pr w (run_start pr) (run_len pr)) = run_len pr"
    using inv(1,2) by (auto simp: cur_bytes_def shape_ok_def slab_ok_def)
  have "shape_ok ?q" using inv(1) len by (auto simp: shape_ok_def q_def)
  moreover have "slab_ok ?q w" using inv(1,2) by (auto simp: slab_ok_def shape_ok_def q_def)
  moreover have "accounted [] ?q w" using inv(1,3) by (auto simp: accounted_def held_def shape_ok_def q_def split: if_splits)
  moreover have "live ?q w = live pr w" using inv(1) by (auto simp: view_defs q_def shape_ok_def)
  moreover have "cur_done ?q w = (pr', w')" using r by (simp add: ioxd__pipereader_run_begin_def q_def Let_def)
  ultimately show ?thesis using cur_done_ok[of "[]" ?q w pr' w'] cur_done_rx by (auto simp: reader_inv_def)
qed

lemma release_ok:
  assumes ok: "reader_ok pr w" and r: "ioxd__pipereader_release pr w = (pr', w')"
  shows "reader_ok pr' w' \<and> live pr' w' = live pr w \<and> run pr' w' = [] \<and> io_rx w' = io_rx w"
proof -
  have inv: "shape_ok pr" "slab_ok pr w" "accounted [] pr w" using ok by (simp_all add: reader_inv_def)
  have cip: "cur_is_pinned pr \<Longrightarrow> has_pinned pr \<and> has_cur pr \<and> cur pr = pinned pr" using inv(1) by (simp add: shape_ok_def)
  define q1 where "q1 = (let pr = pr\<lparr>run_len := 0, run_in_cur := False\<rparr> in if live_in_buf pr then
      pr\<lparr>pr_buf := memmove_in (pr_buf pr) 0 (buf_pos pr) (buf_end pr - buf_pos pr),
         buf_end := buf_end pr - buf_pos pr, buf_pos := 0\<rparr>
    else pr\<lparr>buf_pos := 0, buf_end := 0\<rparr>)"
  define q where "q = (if has_pinned pr then
      (if cur_is_pinned pr then q1\<lparr>pr_floor := 0, cur_is_pinned := False, has_pinned := False\<rparr>
       else q1\<lparr>pr_floor := 0, has_pinned := False\<rparr>) else q1\<lparr>pr_floor := 0\<rparr>)"
  define v where "v = (if has_pinned pr \<and> \<not> cur_is_pinned pr then buf_return (it_id (pinned pr)) w else w)"
  have d: "cur_done q v = (pr', w')"
    using r by (simp add: ioxd__pipereader_release_def q_def q1_def v_def Let_def split: if_splits)
  have f: "run_len q = 0" "run_in_cur q = False" "pr_floor q = 0" "has_pinned q = False" "cur_is_pinned q = False"
    "has_cur q = has_cur pr" "cur q = cur pr" "cur_pos q = cur_pos pr" "live_in_buf q = live_in_buf pr" "pr_cap q = pr_cap pr"
    "buf_pos q = 0" "buf_end q = (if live_in_buf pr then buf_end pr - buf_pos pr else 0)"
    "pr_buf q = (if live_in_buf pr then memmove_in (pr_buf pr) 0 (buf_pos pr) (buf_end pr - buf_pos pr) else pr_buf pr)"
    using cip by (auto simp: q_def q1_def Let_def)
  have "shape_ok q" using inv(1) by (auto simp: shape_ok_def f)
  moreover have "slab_ok q v" using inv(2) by (auto simp: slab_ok_def f v_def)
  moreover have "accounted [] q v" using cip inv(3)
    by (cases "cur_is_pinned pr"; cases "has_pinned pr"; cases "has_cur pr")
       (auto simp: accounted_def held_def f v_def add_mset_commute)
  moreover have "live q v = live pr w"
    using inv(1) memmove_down(2)[of 0 "buf_pos pr" "buf_end pr - buf_pos pr" "pr_buf pr"]
    by (auto simp: view_defs f v_def shape_ok_def)
  moreover have "io_rx v = io_rx w" by (simp add: v_def)
  ultimately show ?thesis using cur_done_ok[OF _ d] cur_done_rx[OF d] f(1) by (auto simp: reader_inv_def)
qed

lemma close_ok:
  assumes ok: "reader_ok pr w" and r: "ioxd__pipereader_close pr w = (pr', w')"
  shows "mset (io_returned w') = mset [0..<io_next w'] \<and> held pr' = [] \<and> io_rx w' = io_rx w"
proof -
  have "cur_is_pinned pr \<Longrightarrow> has_pinned pr" "accounted [] pr w" using ok by (auto simp: reader_defs)
  then show ?thesis using r
    by (cases "cur_is_pinned pr"; cases "has_pinned pr"; cases "has_cur pr")
       (auto simp: ioxd__pipereader_close_def accounted_def held_def Let_def add_mset_commute)
qed


section \<open>Sequences of operations\<close>

lemma cur_done_flags: "cur_done pr w = (pr', w') \<Longrightarrow> pr_error pr' = pr_error pr \<and> examined pr' = examined pr"
  by (erule cur_done_cases) simp_all

text \<open>\<open>inject\<close> appends to the live bytes.\<close>

lemma inject_base:
  assumes ok: "reader_ok pr w" and "\<not> live_in_buf pr" and "\<not> has_cur pr"
  defines "pr' \<equiv> pr\<lparr>buf_pos := pr_floor pr, buf_end := pr_floor pr, live_in_buf := True\<rparr>"
  shows "reader_ok pr' w \<and> live pr' w = [] \<and> live pr w = []"
proof -
  have "shape_ok pr'" "slab_ok pr' w" using ok assms(2,3) by (auto simp: pr'_def reader_defs)
  moreover have "held pr' = held pr" by (simp add: pr'_def held_def)
  then have "accounted [] pr' w" using ok by (simp add: reader_inv_def accounted_def)
  ultimately show ?thesis using assms(2,3) by (simp add: reader_inv_def pr'_def view_defs)
qed

lemma inject_ok:
  assumes ok: "reader_ok pr w" and i: "ioxd__pipereader_inject pr w data = (True, pr', w')"
  shows "reader_ok pr' w' \<and> live pr' w' = live pr w @ data \<and> io_rx w' = io_rx w"
proof -
  obtain q v where s: "(if \<not> live_in_buf pr then if has_cur pr then gather pr w
      else (True, pr\<lparr>buf_pos := pr_floor pr, buf_end := pr_floor pr, live_in_buf := True\<rparr>, w) else (True, pr, w)) = (True, q, v)"
    using i by (auto simp: ioxd__pipereader_inject_def split: if_splits prod.splits)
  have q: "reader_ok q v" "live q v = live pr w" "live_in_buf q" "io_rx v = io_rx w"
    using s gather_ok[OF ok, of q v] gather_rx[of pr w True q v] inject_base[OF ok] ok by (auto split: if_splits)
  define c where "c = (if buf_end q + length data > pr_cap q then compact q else q)"
  have c: "reader_ok c v" "live c v = live q v" "live_in_buf c" using compact_ok[OF q(1,3)] q by (simp_all add: c_def)
  have "pr_error pr = 0" using i by (auto simp: ioxd__pipereader_inject_def split: if_splits)
  then have e: "\<not> buf_end c + length data > pr_cap c" "pr' = c\<lparr>pr_buf := memwrite (pr_buf c) (buf_end c) data, buf_end := buf_end c + length data\<rparr>" "w' = v"
    using i unfolding ioxd__pipereader_inject_def s by (auto simp: Let_def c_def[symmetric] split: if_splits)
  show ?thesis using append_live[OF c(1,3), of data] e q c by simp
qed

lemma gather_flags: "gather pr w = (ok, pr', w') \<Longrightarrow> pr_error pr' = pr_error pr \<and> examined pr' = examined pr"
  by (auto simp: gather_def Let_def split: if_splits prod.splits dest!: cur_done_flags)

lemma compact_flags [simp]: "pr_error (compact pr) = pr_error pr" "examined (compact pr) = examined pr"
  by (simp_all add: compact_def)

lemma more_flags:
  "more pr w = (rc, pr', w') \<Longrightarrow> examined pr' = examined pr \<and> (rc \<ge> 0 \<longrightarrow> pr_error pr' = pr_error pr)"
  by (auto simp: more_def refuse_def Let_def split: if_splits prod.splits sum.splits dest!: gather_flags)

text \<open>The bytes still to come: live ones and the payloads not yet delivered.\<close>

definition pending :: "pipereader \<Rightarrow> io \<Rightarrow> bytes" where
  "pending pr w = live pr w @ concat (io_rx w)"

text \<open>
  \<open>conserves t pr w pr' w'\<close>: the operation took the bytes \<open>t\<close> off the stream and nothing else
  happened to it, unless the reader failed; a failed reader still only ever gives out a prefix.
\<close>

definition conserves :: "bytes \<Rightarrow> pipereader \<Rightarrow> io \<Rightarrow> pipereader \<Rightarrow> io \<Rightarrow> bool" where
  "conserves t pr w pr' w' \<longleftrightarrow>
     reader_ok pr' w' \<and>
     (pr_error pr = 0 \<longrightarrow>
        (pr_error pr' = 0 \<longrightarrow> pending pr w = t @ pending pr' w') \<and> prefix (t @ live pr' w') (pending pr w)) \<and>
     (pr_error pr \<noteq> 0 \<longrightarrow> pr_error pr' \<noteq> 0 \<and> live pr w = t @ live pr' w')"

lemma more_conserves:
  assumes "reader_ok pr w" and "more pr w = (rc, pr', w')" and "pr_error pr = 0"
  shows "conserves [] pr w pr' w'"
  using more_ok[OF assms(1,2)] more_flags[OF assms(2)] assms(3)
  by (auto simp: conserves_def pending_def)

lemma conserves_trans:
  assumes "conserves t pr w pr' w'" and "conserves u pr' w' pr'' w''"
  shows "conserves (t @ u) pr w pr'' w''"
proof (cases "pr_error pr' = 0")
  case True
  then have "prefix (u @ live pr'' w'') (pending pr' w')" using assms(2) by (simp add: conserves_def)
  then show ?thesis using True assms by (auto simp: conserves_def)
next
  case False
  then show ?thesis using assms by (auto simp: conserves_def)
qed

lemma consume_flags: "consume pr w n = (pr', w') \<Longrightarrow> pr_error pr' = pr_error pr \<and> io_rx w' = io_rx w"
  by (auto simp: consume_def Let_def split: if_splits prod.splits dest: cur_done_flags cur_done_rx)

lemma consume_conserves:
  "reader_ok pr w \<Longrightarrow> consume pr w n = (pr', w') \<Longrightarrow> conserves (take n (live pr w)) pr w pr' w'"
  using consume_ok[of pr w n pr' w'] consume_flags[of pr w n pr' w'] by (simp add: conserves_def pending_def)

lemma read_loop_ok:
  assumes "reader_ok pr w" and "pr_error pr = 0" and "read_loop pr w = (rc, sp, pr', w')"
  shows "conserves [] pr w pr' w' \<and> run pr' w' = run pr w \<and> (rc > 0 \<longrightarrow> bytes_at pr' w' sp = live pr' w' \<and> examined pr < length (live pr' w')) \<and>
    (rc < 0 \<longrightarrow> pr_error pr' = rc) \<and> (rc \<ge> 0 \<longrightarrow> pr_error pr' = 0)"
  using assms
proof (induction pr w rule: read_loop.induct)
  case (1 pr w)
  obtain r q v where m: "more pr w = (r, q, v)" by (metis surj_pair)
  note mo = more_ok[OF 1(2) m] and mf = more_flags[OF m] and mc = more_conserves[OF 1(2) m 1(3)]
  consider (now) "examined pr < snd (live_span pr)" | (stop) "\<not> examined pr < snd (live_span pr)" "r \<le> 0"
    | (again) "\<not> examined pr < snd (live_span pr)" "r > 0" by linarith
  then show ?case
  proof cases
    case now
    then have "rc = 1" "sp = live_span pr" "pr' = pr" "w' = w" using 1(4) by (auto simp: read_loop.simps[of pr w])
    then show ?thesis using 1(2,3) now live_length[OF 1(2)] by (simp add: conserves_def pending_def live_def)
  next
    case stop
    then have "rc = r" "pr' = q" "w' = v" using 1(4) m by (simp_all add: read_loop.simps[of pr w])
    then show ?thesis using stop mo mf mc 1(3) by auto
  next
    case again
    then have e: "read_loop q v = (rc, sp, pr', w')" using 1(4) m by (simp add: read_loop.simps[of pr w])
    have q: "reader_ok q v" "pr_error q = 0" using mo mf again 1(3) by auto
    from 1(1)[OF again(1) refl m[symmetric] refl _ q e] again(2) show ?thesis
      using conserves_trans[OF mc] mo mf by simp
  qed
qed

lemma copy_loop_ok:
  assumes "reader_ok pr w" and "pr_error pr = 0" and "copy_loop pr w n = (rc, dst, pr', w')"
  shows "conserves dst pr w pr' w' \<and> length dst \<le> n"
  using assms
proof (induction pr w n rule: copy_loop.induct)
  case (1 pr w n)
  obtain r q v where m: "more pr w = (r, q, v)" by (metis surj_pair)
  note mo = more_ok[OF 1(2) m] and mf = more_flags[OF m] and mc = more_conserves[OF 1(2) m 1(3)]
  obtain p len where ls: "live_span pr = (p, len)" by fastforce
  consider (now) "len \<noteq> 0" | (stop) "len = 0" "r \<le> 0" | (again) "len = 0" "r > 0" by linarith
  then show ?case
  proof cases
    case now
    let ?k = "if len < n then len else n"
    have ll: "length (live pr w) = len" using live_length[OF 1(2)] ls by simp
    have "bytes_at pr w (p, ?k) = take ?k (live pr w)"
      using ls by (cases p) (auto simp: live_def memread_take)
    then have d: "dst = take ?k (live pr w)" "consume pr w ?k = (pr', w')"
      using 1(4) now ls by (auto simp: copy_loop.simps[of pr w n] Let_def split: prod.splits if_splits)
    have "length dst \<le> n" using d(1) ll by simp
    then show ?thesis using consume_conserves[OF 1(2) d(2)] d(1) by simp
  next
    case stop
    then have "dst = []" "pr' = q" "w' = v" using 1(4) m ls by (auto simp: copy_loop.simps[of pr w n])
    then show ?thesis using mc by simp
  next
    case again
    then have e: "copy_loop q v n = (rc, dst, pr', w')" using 1(4) m ls by (auto simp: copy_loop.simps[of pr w n])
    have q: "reader_ok q v" "pr_error q = 0" using mo mf again 1(3) by auto
    have "conserves dst q v pr' w' \<and> length dst \<le> n"
      by (rule 1(1)[OF refl ls[symmetric] _ refl m[symmetric] refl _ q e]) (use again in auto)
    then show ?thesis using conserves_trans[OF mc] by fastforce
  qed
qed

lemma avail_loop_ok:
  assumes "reader_ok pr w" and "pr_error pr = 0" and "avail_loop pr w = (rc, sp, pr', w')"
  shows "conserves [] pr w pr' w' \<and> run pr' w' = run pr w \<and> (rc > 0 \<longrightarrow> bytes_at pr' w' sp = live pr' w')"
  using assms
proof (induction pr w rule: avail_loop.induct)
  case (1 pr w)
  obtain r q v where m: "more pr w = (r, q, v)" by (metis surj_pair)
  note mo = more_ok[OF 1(2) m] and mf = more_flags[OF m] and mc = more_conserves[OF 1(2) m 1(3)]
  show ?case
  proof (cases "snd (live_span pr) \<le> examined pr \<and> \<not> rx_empty w \<and> r > 0")
    case False
    then show ?thesis
      using 1(2-4) m mo mc by (auto simp: avail_loop.simps[of pr w] conserves_def pending_def live_def split: if_splits)
  next
    case True
    then have e: "avail_loop q v = (rc, sp, pr', w')" using 1(4) m by (simp add: avail_loop.simps[of pr w])
    have q: "reader_ok q v" "pr_error q = 0" using mo mf True 1(3) by auto
    have "conserves [] q v pr' w' \<and> run pr' w' = run q v \<and> (rc > 0 \<longrightarrow> bytes_at pr' w' sp = live pr' w')"
      by (rule 1(1)[OF _ _ refl m[symmetric] refl _ q e]) (use True in auto)
    then show ?thesis using conserves_trans[OF mc] mo by fastforce
  qed
qed

text \<open>
  An operation of the consumer and what it takes off the stream: the bytes dropped, the bytes the
  pointer of a keep leads to, the bytes copied out.
\<close>

datatype rop = Read | Examine nat | Drop nat | Keep nat | Run_begin | Release | Copy nat | Avail

fun rop_step :: "rop \<Rightarrow> pipereader \<times> io \<Rightarrow> bytes \<times> pipereader \<times> io" where
  "rop_step Read (pr, w) = (let (rc, sp, pr, w) = ioxd__pipereader_read pr w in ([], pr, w))"
| "rop_step (Examine n) (pr, w) = ([], ioxd__pipereader_examine pr n, w)"
| "rop_step (Drop n) (pr, w) = (take n (bytes_at pr w (live_span pr)), ioxd__pipereader_drop pr w n)"
| "rop_step (Keep n) (pr, w) =
     (let (pl, pr, w) = ioxd__pipereader_keep pr w n in (bytes_at pr w (pl, n), pr, w))"
| "rop_step Run_begin (pr, w) = ([], ioxd__pipereader_run_begin pr w)"
| "rop_step Release (pr, w) = ([], ioxd__pipereader_release pr w)"
| "rop_step (Copy n) (pr, w) = (let (rc, dst, pr, w) = ioxd__pipereader_copy pr w n in (dst, pr, w))"
| "rop_step Avail (pr, w) = (let (rc, sp, pr, w) = ioxd__pipereader_avail pr w in ([], pr, w))"

fun rop_run :: "rop list \<Rightarrow> pipereader \<times> io \<Rightarrow> bytes \<times> pipereader \<times> io" where
  "rop_run [] s = ([], s)"
| "rop_run (op # ops) s = (let (t, s') = rop_step op s; (u, s'') = rop_run ops s' in (t @ u, s''))"

lemma conserves_same: "reader_ok pr w \<Longrightarrow> conserves [] pr w pr w"
  by (simp add: conserves_def pending_def)

lemma keep_parts_flags [simp]:
  "pr_error (snd (keep_in_buf pr n)) = pr_error pr" "pr_error (snd (keep_across pr w n)) = pr_error pr"
  "pr_error (fst (snd (keep_in_cur pr w n))) = pr_error pr" "io_rx (snd (snd (keep_in_cur pr w n))) = io_rx w"
  by (simp_all add: keep_in_buf_def keep_across_def keep_in_cur_def Let_def)

lemma consume_flags_proj: "pr_error (fst (consume pr w n)) = pr_error pr" "io_rx (snd (consume pr w n)) = io_rx w"
  using consume_flags[of pr w n] by (metis prod.collapse)+

lemma keep_flags:
  assumes "ioxd__pipereader_keep pr w n = (pl, pr', w')"
  shows "io_rx w' = io_rx w \<and> (pr_error pr' = pr_error pr \<or> pr_error pr' = IOXD_PIPE_FULL \<and> pl = Nullptr)"
proof -
  have "io_rx (snd (snd (ioxd__pipereader_keep pr w n))) = io_rx w"
    by (simp add: ioxd__pipereader_keep_def Let_def case_prod_beta consume_flags_proj)
  moreover have "pr_error (fst (snd (ioxd__pipereader_keep pr w n))) = pr_error pr \<or>
      pr_error (fst (snd (ioxd__pipereader_keep pr w n))) = IOXD_PIPE_FULL \<and> fst (ioxd__pipereader_keep pr w n) = Nullptr"
    by (simp add: ioxd__pipereader_keep_def Let_def case_prod_beta consume_flags_proj)
  ultimately show ?thesis using assms by simp
qed

lemma cur_done_error [simp]: "pr_error (fst (cur_done pr w)) = pr_error pr"
  by (simp add: cur_done_def Let_def)

lemma release_flags: "pr_error (fst (ioxd__pipereader_release pr w)) = pr_error pr"
  by (simp add: ioxd__pipereader_release_def Let_def)

lemma run_begin_flags:
  "pr_error (fst (ioxd__pipereader_run_begin pr w)) = pr_error pr \<or>
   pr_error (fst (ioxd__pipereader_run_begin pr w)) = IOXD_PIPE_FULL"
  by (simp add: ioxd__pipereader_run_begin_def Let_def)

lemma rop_conserves:
  assumes ok: "reader_ok pr w" and st: "rop_step op (pr, w) = (t, pr', w')"
  shows "conserves t pr w pr' w'"
proof (cases op)
  case Read
  obtain rc sp q v where r: "ioxd__pipereader_read pr w = (rc, sp, q, v)" by (metis surj_pair)
  then have "t = []" "pr' = q" "w' = v" using st Read by simp_all
  then show ?thesis using read_loop_ok[OF ok, of rc sp q v] conserves_same[OF ok] r
    by (cases "pr_error pr = 0") (simp_all add: ioxd__pipereader_read_def)
next
  case (Examine n)
  then have "t = []" "pr' = pr\<lparr>examined := n\<rparr>" "w' = w" using st by (simp_all add: ioxd__pipereader_examine_def)
  then show ?thesis using ok by (simp add: conserves_def pending_def)
next
  case (Drop n)
  then have "t = take n (live pr w)" "consume pr w n = (pr', w')"
    using st by (simp_all add: ioxd__pipereader_drop_def live_def)
  then show ?thesis using consume_conserves[OF ok] by simp
next
  case (Keep n)
  obtain pl q v where k: "ioxd__pipereader_keep pr w n = (pl, q, v)" by (metis surj_pair)
  then have e: "t = bytes_at q v (pl, n)" "pr' = q" "w' = v" using st Keep by auto
  show ?thesis
  proof (cases "pl = Nullptr \<and> live q v = live pr w \<and> v = w")
    case True
    then show ?thesis using keep_ok[OF ok k] keep_flags[OF k] e by (auto simp: conserves_def pending_def)
  next
    case False
    then have "live q v = drop n (live pr w)" "bytes_at q v (pl, n) = take n (live pr w)"
      "pr_error q = pr_error pr \<or> pr_error q = IOXD_PIPE_FULL"
      using keep_ok[OF ok k] keep_flags[OF k] by auto
    then show ?thesis using keep_ok[OF ok k] keep_flags[OF k] e by (auto simp: conserves_def pending_def)
  qed
next
  case Run_begin
  then have r: "ioxd__pipereader_run_begin pr w = (pr', w')" "t = []" using st by auto
  then have "pr_error pr' = pr_error pr \<or> pr_error pr' = IOXD_PIPE_FULL" using run_begin_flags[of pr w] by simp
  then show ?thesis using run_begin_ok[OF ok r(1)] r(2) by (auto simp: conserves_def pending_def)
next
  case Release
  then have r: "ioxd__pipereader_release pr w = (pr', w')" "t = []" using st by auto
  then have "pr_error pr' = pr_error pr" using release_flags[of pr w] by simp
  then show ?thesis using release_ok[OF ok r(1)] r(2) by (auto simp: conserves_def pending_def)
next
  case (Copy n)
  obtain rc d q v where r: "ioxd__pipereader_copy pr w n = (rc, d, q, v)" by (metis surj_pair)
  then have "t = d" "pr' = q" "w' = v" using st Copy by simp_all
  then show ?thesis using copy_loop_ok[OF ok, of n rc d q v] conserves_same[OF ok] r
    by (cases "pr_error pr = 0") (simp_all add: ioxd__pipereader_copy_def)
next
  case Avail
  obtain rc sp q v where r: "ioxd__pipereader_avail pr w = (rc, sp, q, v)" by (metis surj_pair)
  then have "t = []" "pr' = q" "w' = v" using st Avail by simp_all
  then show ?thesis using avail_loop_ok[OF ok, of rc sp q v] conserves_same[OF ok] r
    by (cases "pr_error pr = 0") (simp_all add: ioxd__pipereader_avail_def)
qed

lemma rop_run_conserves:
  "reader_ok pr w \<Longrightarrow> rop_run ops (pr, w) = (t, pr', w') \<Longrightarrow> conserves t pr w pr' w'"
proof (induction ops arbitrary: pr w t)
  case Nil
  then show ?case using conserves_same by simp
next
  case (Cons op ops)
  obtain u q v where s: "rop_step op (pr, w) = (u, q, v)" by (metis surj_pair)
  then obtain x where r: "rop_run ops (q, v) = (x, pr', w')" "t = u @ x"
    using Cons.prems(2) by (auto split: prod.splits)
  note c = rop_conserves[OF Cons.prems(1) s]
  then have "reader_ok q v" by (simp add: conserves_def)
  then show ?case using Cons.IH[OF _ r(1)] conserves_trans[OF c] r(2) by simp
qed

definition fresh_io :: "bytes list \<Rightarrow> int \<Rightarrow> io" where
  "fresh_io payloads e =
     \<lparr>io_rx = payloads, io_ready = 0, io_end = e, io_next = 0, io_slab = (\<lambda>_. []), io_returned = [],
      io_wire = [], io_lim = (\<lambda>_. 1000000), io_sends = 0\<rparr>"

text \<open>
  C17.  The reader neither loses, duplicates nor reorders a byte.  Over any sequence of reads,
  drops, keeps, copies and releases on a new connection, the bytes handed to the consumer, in order,
  followed by the live bytes and the payloads not yet delivered, are exactly the payloads the peer
  sent - through in-place spans, gathering, compaction and pinning alike; a reader that failed
  (no room, peer gone) has handed out a prefix of them.
\<close>

theorem reader_conserves_stream:
  assumes "length buf = c" and "io_next w = 0" and "io_returned w = []"
    and "rop_run ops (ioxd__pipereader_init buf c, w) = (taken, pr', w')"
  shows "(pr_error pr' = 0 \<longrightarrow> taken @ live pr' w' @ concat (io_rx w') = concat (io_rx w)) \<and>
    prefix (taken @ live pr' w') (concat (io_rx w))"
proof -
  have "conserves taken (ioxd__pipereader_init buf c) w pr' w'"
    using rop_run_conserves[OF init_ok[OF assms(1-3)] assms(4)] .
  moreover have "live (ioxd__pipereader_init buf c) w = []" "pr_error (ioxd__pipereader_init buf c) = 0"
    by (simp_all add: ioxd__pipereader_init_def view_defs)
  ultimately show ?thesis by (simp add: conserves_def pending_def)
qed

abbreviation sample_ops :: "rop list" where
  "sample_ops \<equiv> [Read, Keep 2, Run_begin, Read, Examine 3, Read, Keep 4, Copy 1]"

lemma sample_run_error:
  "pr_error (fst (snd (rop_run sample_ops (ioxd__pipereader_init (replicate 8 NUL) 8, fresh_io [''abcde'', ''fgh''] 0)))) = 0"
  by code_simp

theorem reader_conserves_stream_witness:
  "\<exists>taken pr' w'. rop_run sample_ops (ioxd__pipereader_init (replicate 8 NUL) 8, fresh_io [''abcde'', ''fgh''] 0) = (taken, pr', w') \<and>
     taken @ live pr' w' @ concat (io_rx w') = ''abcdefgh''"
proof -
  obtain t p v where r: "rop_run sample_ops (ioxd__pipereader_init (replicate 8 NUL) 8, fresh_io [''abcde'', ''fgh''] 0) = (t, p, v)"
    by (metis surj_pair)
  have "pr_error p = 0" using sample_run_error unfolding r by simp
  then show ?thesis using r reader_conserves_stream[OF _ _ _ r] by (simp add: fresh_io_def)
qed

text \<open>
  Every kernel buffer is given back to the ring exactly once.  After any sequence of
  operations the reader holds at most two buffers, no buffer is both held and returned or returned
  twice, and closing it has given back precisely the buffers the kernel delivered.
\<close>

theorem reader_returns_every_buffer:
  assumes "length buf = c" and "io_next w = 0" and "io_returned w = []"
    and "rop_run ops (ioxd__pipereader_init buf c, w) = (taken, pr', w')"
    and "ioxd__pipereader_close pr' w' = (pr'', w'')"
  shows "length (held pr') \<le> 2 \<and> distinct (held pr' @ io_returned w') \<and>
    mset (io_returned w'') = mset [0..<io_next w'']"
proof -
  have ok: "reader_ok pr' w'"
    using rop_run_conserves[OF init_ok[OF assms(1-3)] assms(4)] by (simp add: conserves_def)
  then have "mset (held pr' @ io_returned w') = mset [0..<io_next w']"
    by (simp add: reader_inv_def accounted_def)
  then have "distinct (held pr' @ io_returned w')" by (metis distinct_upt mset_eq_imp_distinct_iff)
  then show ?thesis using close_ok[OF ok assms(5)] by (simp add: held_def)
qed

theorem reader_returns_every_buffer_witness:
  "\<exists>taken pr' w' pr'' w''.
     rop_run sample_ops (ioxd__pipereader_init (replicate 8 NUL) 8, fresh_io [''abcde'', ''fgh''] 0) = (taken, pr', w') \<and>
     ioxd__pipereader_close pr' w' = (pr'', w'') \<and> mset (io_returned w'') = mset [0..<io_next w'']"
proof -
  obtain t p v where r: "rop_run sample_ops (ioxd__pipereader_init (replicate 8 NUL) 8, fresh_io [''abcde'', ''fgh''] 0) = (t, p, v)"
    by (metis surj_pair)
  obtain p2 v2 where c: "ioxd__pipereader_close p v = (p2, v2)" by (metis surj_pair)
  show ?thesis using r c reader_returns_every_buffer[OF _ _ _ r c] by (auto simp: fresh_io_def)
qed

end
