(* ===== verification/Pipe_Frozen.thy ===== *)
theory Pipe_Frozen
  imports Pipe_Stream
begin

text \<open>
  Kept bytes stay where they are: every operation of the pipe's reader but \<open>release\<close> leaves the
  frozen kept bytes - those of runs that ended - at the place they were kept, unchanged.  The HTTP
  engine relies on it: the request's slices point into the kept head while the body is read.
\<close>

section \<open>Frozen kept bytes\<close>

text \<open>
  The kept bytes of earlier runs: below the run in progress in the gathering buffer, and in the
  pinned kernel buffer, below the bytes still live in it when it is also the current one.
\<close>

definition frozen_floor :: "pipereader \<Rightarrow> nat" where
  "frozen_floor pr = (if \<not> run_in_cur pr \<and> 0 < run_len pr then run_start pr else pr_floor pr)"

definition frozen_item :: "pipereader \<Rightarrow> nat" where
  "frozen_item pr =
     (if cur_is_pinned pr then if run_in_cur pr \<and> 0 < run_len pr then run_start pr else cur_pos pr
      else it_len (pinned pr))"

fun frozen :: "pipereader \<Rightarrow> place \<times> nat \<Rightarrow> bool" where
  "frozen pr (Nullptr, n) = False"
| "frozen pr (In_buf off, n) = (off + n \<le> frozen_floor pr)"
| "frozen pr (In_item i off, n) = (has_pinned pr \<and> i = it_id (pinned pr) \<and> off + n \<le> frozen_item pr)"

definition stable :: "pipereader \<Rightarrow> io \<Rightarrow> pipereader \<Rightarrow> io \<Rightarrow> bool" where
  "stable pr w pr' w' \<longleftrightarrow>
     frozen_floor pr \<le> frozen_floor pr' \<and>
     (\<forall>a n. a + n \<le> frozen_floor pr \<longrightarrow> memread (pr_buf pr') a n = memread (pr_buf pr) a n) \<and>
     (has_pinned pr \<longrightarrow> has_pinned pr' \<and> pinned pr' = pinned pr \<and> frozen_item pr \<le> frozen_item pr' \<and>
       (\<forall>a n. a + n \<le> frozen_item pr \<longrightarrow>
          memread (io_slab w' (it_id (pinned pr))) a n = memread (io_slab w (it_id (pinned pr))) a n))"

lemma stable_frozen:
  assumes "stable pr w pr' w'" and "frozen pr (pl, n)"
  shows "frozen pr' (pl, n) \<and> bytes_at pr' w' (pl, n) = bytes_at pr w (pl, n)"
  using assms by (cases pl) (auto simp: stable_def)

lemma stable_refl [simp]: "stable pr w pr w"
  by (simp add: stable_def)

lemma stable_trans:
  assumes "stable pr w pr' w'" and "stable pr' w' pr'' w''"
  shows "stable pr w pr'' w''"
proof -
  have 1: "frozen_floor pr \<le> frozen_floor pr'" "frozen_floor pr' \<le> frozen_floor pr''"
    "\<And>a n. a + n \<le> frozen_floor pr \<Longrightarrow> memread (pr_buf pr') a n = memread (pr_buf pr) a n"
    "\<And>a n. a + n \<le> frozen_floor pr' \<Longrightarrow> memread (pr_buf pr'') a n = memread (pr_buf pr') a n"
    using assms by (simp_all add: stable_def)
  have "memread (pr_buf pr'') a n = memread (pr_buf pr) a n" if "a + n \<le> frozen_floor pr" for a n
    using 1(3)[OF that] 1(4)[of a n] 1(1) that by simp
  moreover have "has_pinned pr \<longrightarrow> has_pinned pr'' \<and> pinned pr'' = pinned pr \<and> frozen_item pr \<le> frozen_item pr'' \<and>
       (\<forall>a n. a + n \<le> frozen_item pr \<longrightarrow>
          memread (io_slab w'' (it_id (pinned pr))) a n = memread (io_slab w (it_id (pinned pr))) a n)"
    using assms by (auto simp: stable_def)
  ultimately show ?thesis using 1(1,2) by (simp add: stable_def)
qed

lemma stable_flags [simp]:
  "stable pr w (pr'\<lparr>examined := e\<rparr>) w' = stable pr w pr' w'" "stable pr w (pr'\<lparr>pr_error := x\<rparr>) w' = stable pr w pr' w'"
  "stable pr w (pr'\<lparr>pr_eof := b\<rparr>) w' = stable pr w pr' w'" "stable pr w pr' (buf_return i w') = stable pr w pr' w'"
  by (simp_all add: stable_def frozen_floor_def frozen_item_def)

lemma cur_done_stable:
  assumes "shape_ok pr" and "cur_done pr w = (pr', w')"
  shows "stable pr w pr' w'"
  using assms(2)
proof (cases rule: cur_done_cases)
  case same
  then show ?thesis by simp
next
  case gone
  then show ?thesis using assms(1) by (auto simp: stable_def frozen_floor_def frozen_item_def shape_ok_def)
qed

lemma frozen_floor_le: "shape_ok pr \<Longrightarrow> frozen_floor pr \<le> pr_floor pr"
  by (auto simp: frozen_floor_def shape_ok_def)

lemma frozen_item_le: "shape_ok pr \<Longrightarrow> cur_is_pinned pr \<Longrightarrow> frozen_item pr \<le> cur_pos pr"
  by (auto simp: frozen_item_def shape_ok_def)

lemma frozen_cong:
  "run_in_cur q = run_in_cur pr \<Longrightarrow> run_len q = run_len pr \<Longrightarrow> run_start q = run_start pr \<Longrightarrow>
   pr_floor q = pr_floor pr \<Longrightarrow> frozen_floor q = frozen_floor pr"
  "run_in_cur q = run_in_cur pr \<Longrightarrow> run_len q = run_len pr \<Longrightarrow> run_start q = run_start pr \<Longrightarrow>
   cur_is_pinned q = cur_is_pinned pr \<Longrightarrow> cur_pos q = cur_pos pr \<Longrightarrow> pinned q = pinned pr \<Longrightarrow>
   frozen_item q = frozen_item pr"
  by (simp_all add: frozen_floor_def frozen_item_def)

text \<open>A change of the gathering buffer above the floor disturbs nothing frozen.\<close>

lemma stable_bufI:
  assumes "shape_ok pr" and "\<And>a n. a + n \<le> pr_floor pr \<Longrightarrow> memread (pr_buf q) a n = memread (pr_buf pr) a n"
    and "frozen_floor q = frozen_floor pr" and "frozen_item q = frozen_item pr"
    and "has_pinned q = has_pinned pr" and "pinned q = pinned pr"
  shows "stable pr w q w"
  using assms(2-) frozen_floor_le[OF assms(1)] by (auto simp: stable_def)

lemma compact_stable:
  assumes "shape_ok pr" and "live_in_buf pr"
  shows "stable pr w (compact pr) w"
proof (rule stable_bufI[OF assms(1)])
  show "memread (pr_buf (compact pr)) a n = memread (pr_buf pr) a n" if "a + n \<le> pr_floor pr" for a n
    using that assms by (auto simp: compact_def memmove_in_def memread_memwrite_before shape_ok_def)
qed (auto simp: compact_def frozen_floor_def frozen_item_def)

lemma append_stable:
  assumes "shape_ok pr" and "live_in_buf pr"
  shows "stable pr w (pr\<lparr>pr_buf := memwrite (pr_buf pr) (buf_end pr) data, buf_end := e\<rparr>) w"
proof (rule stable_bufI[OF assms(1)], goal_cases)
  case (1 a n)
  then show ?case using assms by (simp add: memread_memwrite_before shape_ok_def)
qed (auto simp: frozen_floor_def frozen_item_def)

lemma gather_stable:
  assumes ok: "reader_inv fl pr w" and hc: "has_cur pr" and g: "gather pr w = (True, pr', w')"
  shows "stable pr w pr' w'"
proof -
  define l where "l = it_len (cur pr) - cur_pos pr"
  define r where "r = (if run_in_cur pr then run_len pr else 0)"
  note form = gather_form[OF hc g, folded l_def r_def]
  have p': "pr' = (gather_live (gather_run pr w r) w l)\<lparr>has_cur := False, cur_is_pinned := False, cur_pos := 0\<rparr>"
    using form(2) by (simp add: gathered_def l_def r_def)
  have sh: "shape_ok pr" using ok by (simp add: reader_inv_def)
  have s: "io_slab w' = io_slab w" using form(3) by simp
  have ff: "frozen_floor pr \<le> frozen_floor pr'"
    using sh by (auto simp: p' frozen_floor_def shape_ok_def r_def)
  moreover have "memread (pr_buf pr') a n = memread (pr_buf pr) a n" if "a + n \<le> frozen_floor pr" for a n
  proof -
    have "a + n \<le> pr_floor pr" using that frozen_floor_le[OF sh] by simp
    then show ?thesis using sh form(1)
      by (cases "r = 0"; cases "l = 0") (auto simp: p' memread_memwrite_before shape_ok_def length_memwrite cur_bytes_def)
  qed
  moreover have "has_pinned pr \<Longrightarrow> has_pinned pr' \<and> pinned pr' = pinned pr \<and> frozen_item pr \<le> frozen_item pr'"
    using sh by (auto simp: p' frozen_item_def shape_ok_def)
  ultimately show ?thesis by (simp add: stable_def s)
qed

lemma held_distinct: "reader_inv fl pr w \<Longrightarrow> distinct (fl @ held pr)"
proof -
  assume "reader_inv fl pr w"
  then have "mset ((fl @ held pr) @ io_returned w) = mset [0..<io_next w]"
    by (simp add: reader_inv_def accounted_def ac_simps)
  then have "distinct ((fl @ held pr) @ io_returned w)" by (metis distinct_upt mset_eq_imp_distinct_iff)
  then show ?thesis by (simp only: distinct_append)
qed

lemma recv_stable:
  assumes "reader_ok pr w" and "ioxd__conn_recv_item w = (r, w')"
  shows "stable pr w pr w'"
proof -
  have "has_pinned pr \<Longrightarrow> it_id (pinned pr) < io_next w" by (rule held_known[OF assms(1)]) (simp add: held_def)
  then show ?thesis using assms(2) by (auto simp: stable_def ioxd__conn_recv_item_def split: list.splits)
qed

lemma append_item_stable:
  assumes inv: "reader_inv [it_id it] pr w" and lb: "live_in_buf pr"
    and e: "(let pr = (if buf_end pr + it_len it > pr_cap pr then compact pr else pr)
             in if buf_end pr + it_len it > pr_cap pr then refuse pr w it
                else (1, pr\<lparr>pr_buf := memwrite (pr_buf pr) (buf_end pr) (memread (io_slab w (it_id it)) 0 (it_len it)),
                            buf_end := buf_end pr + it_len it\<rparr>,
                      buf_return (it_id it) w)) = (rc, pr', w')"
  shows "stable pr w pr' w'"
proof -
  define c where "c = (if buf_end pr + it_len it > pr_cap pr then compact pr else pr)"
  have sh: "shape_ok pr" using inv by (simp add: reader_inv_def)
  have c: "shape_ok c" "live_in_buf c" "stable pr w c w"
    using compact_ok[OF inv lb] compact_stable[OF sh lb] sh lb by (auto simp: c_def reader_inv_def)
  have "stable c w pr' w'"
    using e append_stable[OF c(1,2)]
    by (cases "buf_end c + it_len it > pr_cap c") (auto simp: c_def[symmetric] refuse_def Let_def)
  then show ?thesis using stable_trans[OF c(3)] by blast
qed

lemma more_stable:
  assumes ok: "reader_ok pr w" and m: "more pr w = (rc, pr', w')"
  shows "stable pr w pr' w'"
proof (cases "pr_eof pr")
  case True
  then show ?thesis using m by (auto simp: more_def)
next
  case False
  obtain r w1 where r: "ioxd__conn_recv_item w = (r, w1)" by (metis surj_pair)
  note s = recv_stable[OF ok r]
  show ?thesis
  proof (cases r)
    case (Inl e)
    then have "(pr', w') = ((if e < 0 then pr\<lparr>pr_eof := True, pr_error := IOXD_PIPE_GONE\<rparr> else pr\<lparr>pr_eof := True\<rparr>), w1)"
      using m False r by (simp add: more_def Let_def)
    then have p: "pr' = (if e < 0 then pr\<lparr>pr_eof := True, pr_error := IOXD_PIPE_GONE\<rparr> else pr\<lparr>pr_eof := True\<rparr>)" "w' = w1"
      by (simp_all only: prod.inject)
    show ?thesis unfolding p using s by (cases "e < 0") simp_all
  next
    case (Inr it)
    have inv: "reader_inv [it_id it] pr w1" using recv_item_ok[OF ok] r Inr by metis
    note e = m[unfolded more_def, simplified False r Inr, simplified]
    consider (place) "\<not> live_in_buf pr" "\<not> has_cur pr" | (gather) "\<not> live_in_buf pr" "has_cur pr" | (buf) "live_in_buf pr"
      by blast
    then have "stable pr w1 pr' w'"
    proof cases
      case place
      then have p: "pr' = pr\<lparr>cur := it, has_cur := True, cur_pos := 0, cur_is_pinned := False\<rparr>" "w' = w1"
        using e by simp_all
      have "\<not> cur_is_pinned pr" using inv place by (auto simp: reader_defs)
      then show ?thesis by (simp add: p stable_def frozen_floor_def frozen_item_def)
    next
      case gather
      obtain ok2 pr2 w2 where g: "gather pr w1 = (ok2, pr2, w2)" by (metis surj_pair)
      show ?thesis
      proof (cases ok2)
        case True
        have g2: "reader_inv [it_id it] pr2 w2" "live_in_buf pr2" "stable pr w1 pr2 w2"
          using gather_ok[OF inv gather(2)] gather_stable[OF inv gather(2)] g True by auto
        show ?thesis using append_item_stable[OF g2(1,2), of rc pr' w'] e gather g True stable_trans[OF g2(3)] by auto
      next
        case False
        then have "pr2 = pr" "w2 = w1" using gather_false g by auto
        then show ?thesis using e gather g False by (auto simp: refuse_def)
      qed
    next
      case buf
      then show ?thesis using append_item_stable[OF inv buf, of rc pr' w'] e by auto
    qed
    then show ?thesis using stable_trans[OF s] by blast
  qed
qed

lemma consume_stable:
  assumes ok: "reader_ok pr w" and c: "consume pr w n = (pr', w')"
  shows "stable pr w pr' w'"
proof -
  define k where "k = (if n > snd (live_span pr) then snd (live_span pr) else n)"
  have sh: "shape_ok pr" using ok by (simp add: reader_inv_def)
  consider (buf) "live_in_buf pr" | (cur) "\<not> live_in_buf pr" "has_cur pr" | (none) "\<not> live_in_buf pr" "\<not> has_cur pr" by blast
  then show ?thesis
  proof cases
    case buf
    let ?q = "fst (consume pr w n)"
    have "pr_buf ?q = pr_buf pr" "frozen_floor ?q = frozen_floor pr" "frozen_item ?q = frozen_item pr"
      "has_pinned ?q = has_pinned pr" "pinned ?q = pinned pr" "snd (consume pr w n) = w"
      using buf by (simp_all add: consume_def Let_def frozen_floor_def frozen_item_def)
    then show ?thesis using c by (simp add: stable_def)
  next
    case cur
    let ?p = "pr\<lparr>cur_pos := cur_pos pr + k\<rparr>"
    obtain p1 w1 where d: "cur_done ?p w = (p1, w1)" by (metis surj_pair)
    have "k \<le> it_len (cur pr) - cur_pos pr" using cur by (simp add: k_def live_span_def)
    then have sp: "shape_ok ?p" using sh cur by (auto simp: shape_ok_def)
    have "stable pr w ?p w" by (auto simp: stable_def frozen_floor_def frozen_item_def)
    moreover have "\<exists>x. (p1\<lparr>examined := x\<rparr>, w1) = (pr', w')"
      using c cur d by (simp add: consume_def k_def[symmetric] Let_def) blast
    then have "stable pr w pr' w' = stable pr w p1 w1" by auto
    ultimately show ?thesis using stable_trans cur_done_stable[OF sp d] by blast
  next
    case none
    then have "\<exists>x. (pr\<lparr>examined := x\<rparr>, w) = (pr', w')"
      using c by (simp add: consume_def k_def[symmetric] Let_def) blast
    then show ?thesis by auto
  qed
qed

lemma keep_in_buf_stable:
  assumes sh: "shape_ok pr" and lb: "live_in_buf pr" and n: "n \<le> buf_end pr - buf_pos pr"
    and k: "ioxd__pipereader_keep pr w n = (pl, pr', w')" and nz: "0 < n"
  shows "stable pr w pr' w'"
proof -
  define q where "q = snd (keep_in_buf pr n)"
  note form = keep_in_buf_form[of pr n, folded q_def]
  let ?q = "q\<lparr>run_len := run_len q + n\<rparr>"
  obtain x where x: "consume ?q w n =
     ((if buf_pos ?q + n \<ge> buf_end ?q then ?q\<lparr>buf_pos := pr_floor ?q, buf_end := pr_floor ?q, live_in_buf := False\<rparr>
      else ?q\<lparr>buf_pos := buf_pos ?q + n\<rparr>)\<lparr>examined := x\<rparr>, w)"
    using consume_in_buf[of ?q n w] lb n form by auto
  have e: "consume ?q w n = (pr', w')"
    using k lb n nz by (simp add: ioxd__pipereader_keep_def live_span_def case_prod_beta q_def)
  have nrc: "\<not> (run_in_cur pr \<and> 0 < run_len pr)" "pr_floor pr \<le> buf_pos pr" "pr_floor pr \<le> length (pr_buf pr)"
    using sh lb by (auto simp: shape_ok_def)
  have f: "frozen_floor pr' = run_start q" "pr_buf pr' = pr_buf q" "has_pinned pr' = has_pinned pr" "pinned pr' = pinned pr"
    "cur_is_pinned pr' = cur_is_pinned pr" "cur_pos pr' = cur_pos pr" "run_in_cur pr' \<longleftrightarrow> run_in_cur q" "w' = w"
    using e x nz nrc(1) form by (auto simp: frozen_floor_def)
  have "frozen_floor pr \<le> run_start q" using nrc form(5) sh by (auto simp: frozen_floor_def)
  moreover have "memread (pr_buf q) a m = memread (pr_buf pr) a m" if "a + m \<le> frozen_floor pr" for a m
    using that frozen_floor_le[OF sh] nrc(3) by (auto simp: form(2) memmove_in_def memread_memwrite_before)
  moreover have "frozen_item pr \<le> frozen_item pr'" using f form(4) nrc(1) by (auto simp: frozen_item_def)
  ultimately show ?thesis by (simp add: stable_def f)
qed

lemma keep_in_cur_stable:
  assumes ok: "reader_ok pr w" and hc: "has_cur pr" and rc: "run_len pr = 0 \<or> run_in_cur pr"
    and n: "0 < n" "n \<le> snd (live_span pr)" and k: "ioxd__pipereader_keep pr w n = (pl, pr', w')"
  shows "stable pr w pr' w'"
proof -
  have sh: "shape_ok pr" and sl: "slab_ok pr w" using ok by (simp_all add: reader_inv_def)
  have nl: "\<not> live_in_buf pr" using sh hc by (auto simp: shape_ok_def)
  define i where "i = it_id (cur pr)"
  define rs where "rs = (if run_len pr = 0 then cur_pos pr else run_start pr)"
  define q where "q = (if run_len pr = 0 then pr\<lparr>run_in_cur := True, run_start := cur_pos pr\<rparr> else pr)"
  define S where "S = (if rs + run_len pr \<noteq> cur_pos pr
      then memmove_in (io_slab w i) (rs + run_len pr) (cur_pos pr) n else io_slab w i)"
  define W where "W = w\<lparr>io_slab := (io_slab w)(i := S)\<rparr>"
  have kc: "keep_in_cur pr w n = (In_item i (rs + run_len pr), q, W)"
    by (auto simp: keep_in_cur_def Let_def i_def rs_def W_def S_def q_def)
  have q: "run_in_cur q" "run_start q = rs" "run_len q = run_len pr" "live_in_buf q = live_in_buf pr" "cur q = cur pr"
    "has_cur q = has_cur pr" "cur_pos q = cur_pos pr" "pinned q = pinned pr" "has_pinned q = has_pinned pr"
    "cur_is_pinned q = cur_is_pinned pr" "pr_buf q = pr_buf pr" "pr_floor q = pr_floor pr"
    using rc by (auto simp: rs_def q_def)
  have b: "n \<le> it_len (cur pr) - cur_pos pr" using n nl hc by (simp add: live_span_def)
  have re: "rs + run_len pr \<le> cur_pos pr" using rc sh by (auto simp: rs_def shape_ok_def)
  have top: "cur_pos pr + n \<le> it_len (cur pr)" using b n(1) by linarith
  obtain x where x: "consume (q\<lparr>run_len := run_len q + n\<rparr>) W n =
      (q\<lparr>run_len := run_len q + n, cur_pos := cur_pos q + n, examined := x\<rparr>, W)"
    using consume_in_run[of "q\<lparr>run_len := run_len q + n\<rparr>" n W] nl hc q n b by auto
  have e: "w' = W" "pr' = q\<lparr>run_len := run_len q + n, cur_pos := cur_pos q + n, examined := x\<rparr>"
    using k nl hc rc n x b by (simp_all add: ioxd__pipereader_keep_def kc live_span_def)
  have ff: "frozen_floor pr' = frozen_floor pr" using rc by (auto simp: frozen_floor_def e q)
  have fi: "frozen_item pr' = frozen_item pr" using rc n by (auto simp: frozen_item_def e q rs_def)
  have same: "memread S a m = memread (io_slab w i) a m" if "a + m \<le> rs + run_len pr" for a m
    using that memmove_down(4)[of "rs + run_len pr" "cur_pos pr" n "io_slab w i" a m] re top sl hc
    by (auto simp: S_def slab_ok_def i_def)
  have "memread (io_slab W (it_id (pinned pr))) a m = memread (io_slab w (it_id (pinned pr))) a m"
    if "has_pinned pr" "a + m \<le> frozen_item pr" for a m
  proof (cases "cur_is_pinned pr")
    case True
    then have "frozen_item pr \<le> rs + run_len pr" using rc by (auto simp: frozen_item_def rs_def)
    then show ?thesis using that same by (simp add: W_def)
  next
    case False
    then have "it_id (pinned pr) \<noteq> i" using held_distinct[OF ok] that(1) hc by (simp add: held_def i_def)
    then show ?thesis by (simp add: W_def)
  qed
  then show ?thesis using ff fi by (simp add: stable_def e q)
qed

lemma keep_across_stable:
  assumes ok: "reader_ok pr w" and hc: "has_cur pr" and rc: "run_len pr \<noteq> 0" "\<not> run_in_cur pr"
    and n: "0 < n" "n \<le> snd (live_span pr)" and fit: "pr_floor pr + n \<le> pr_cap pr"
    and k: "ioxd__pipereader_keep pr w n = (pl, pr', w')"
  shows "stable pr w pr' w'"
proof -
  note a = across_ok[OF assms]
  have sh: "shape_ok pr" using ok by (simp add: reader_inv_def)
  have "frozen_floor (across pr w n) = frozen_floor pr" "frozen_item (across pr w n) = frozen_item pr"
    using rc by (simp_all add: across_def frozen_floor_def frozen_item_def)
  moreover have "memread (pr_buf (across pr w n)) x m = memread (pr_buf pr) x m" if "x + m \<le> pr_floor pr" for x m
    using that sh by (simp add: across_def memread_memwrite_before shape_ok_def)
  ultimately have "stable pr w (across pr w n) w" by (intro stable_bufI[OF sh]) (simp_all add: across_def)
  then show ?thesis using stable_trans consume_stable[OF a(1,2)] by blast
qed

lemma keep_stable:
  assumes ok: "reader_ok pr w" and k: "ioxd__pipereader_keep pr w n = (pl, pr', w')"
  shows "stable pr w pr' w'"
proof (cases "0 < n \<and> n \<le> snd (live_span pr)")
  case False
  then have "(pl, pr', w') = (if n > snd (live_span pr) then (Nullptr, pr, w) else (fst (live_span pr), pr, w))"
    using k by (auto simp: ioxd__pipereader_keep_def case_prod_beta)
  then show ?thesis by (simp split: if_splits)
next
  case True
  note n = conjunct1[OF True] conjunct2[OF True]
  have sh: "shape_ok pr" using ok by (simp add: reader_inv_def)
  have somewhere: "live_in_buf pr \<or> has_cur pr" using n by (auto simp: live_span_def split: if_splits)
  consider (buf) "live_in_buf pr" | (cur) "has_cur pr" "run_len pr = 0 \<or> run_in_cur pr" "\<not> live_in_buf pr"
    | (across) "has_cur pr" "run_len pr \<noteq> 0" "\<not> run_in_cur pr" "\<not> live_in_buf pr" "pr_floor pr + n \<le> pr_cap pr"
    | (full) "has_cur pr" "run_len pr \<noteq> 0" "\<not> run_in_cur pr" "\<not> live_in_buf pr" "pr_floor pr + n > pr_cap pr"
    using somewhere linorder_not_le[of "pr_floor pr + n" "pr_cap pr"] by blast
  then show ?thesis
  proof cases
    case buf
    then show ?thesis using keep_in_buf_stable[OF sh buf _ k] n by (simp add: live_span_def)
  next
    case cur
    then show ?thesis using keep_in_cur_stable[OF ok cur(1,2) n k] by simp
  next
    case across
    then show ?thesis using keep_across_stable[OF ok across(1-3) n across(5) k] by simp
  next
    case full
    then have "(Nullptr, pr\<lparr>pr_error := IOXD_PIPE_FULL\<rparr>, w) = (pl, pr', w')"
      using k n by (simp add: ioxd__pipereader_keep_def case_prod_beta Let_def)
    then show ?thesis by auto
  qed
qed

lemma run_begin_stable:
  assumes ok: "reader_ok pr w" and r: "ioxd__pipereader_run_begin pr w = (pr', w')"
  shows "stable pr w pr' w'"
proof -
  have sh: "shape_ok pr" using ok by (simp add: reader_inv_def)
  define q where "q = (if run_in_cur pr \<and> run_len pr \<noteq> 0 then
      if has_pinned pr \<and> \<not> cur_is_pinned pr then
        if pr_floor pr + run_len pr > pr_cap pr then pr\<lparr>pr_error := IOXD_PIPE_FULL\<rparr>
        else pr\<lparr>pr_buf := memwrite (pr_buf pr) (pr_floor pr) (cur_bytes pr w (run_start pr) (run_len pr)),
                pr_floor := pr_floor pr + run_len pr\<rparr>
      else pr\<lparr>pinned := cur pr, has_pinned := True, cur_is_pinned := True\<rparr>
    else pr)\<lparr>run_len := 0, run_in_cur := False\<rparr>"
  have d: "cur_done q w = (pr', w')" using r by (simp add: ioxd__pipereader_run_begin_def q_def Let_def)
  have "pr_floor pr \<le> frozen_floor q" by (simp add: q_def frozen_floor_def)
  then have "frozen_floor pr \<le> frozen_floor q" using frozen_floor_le[OF sh] by simp
  moreover have "memread (pr_buf q) a m = memread (pr_buf pr) a m" if "a + m \<le> frozen_floor pr" for a m
    using that frozen_floor_le[OF sh] sh by (simp add: q_def memread_memwrite_before shape_ok_def)
  moreover have "has_pinned pr \<Longrightarrow> has_pinned q \<and> pinned q = pinned pr \<and> frozen_item pr \<le> frozen_item q"
    using sh by (auto simp: q_def frozen_item_def shape_ok_def)
  ultimately have "stable pr w q w" by (simp add: stable_def)
  moreover have "stable q w pr' w'"
    using d
  proof (cases rule: cur_done_cases)
    case gone
    then show ?thesis using sh by (auto simp: q_def stable_def frozen_floor_def frozen_item_def shape_ok_def)
  qed simp
  ultimately show ?thesis using stable_trans by blast
qed


section \<open>Any sequence of operations\<close>

lemma read_loop_stable:
  assumes "reader_ok pr w" and "read_loop pr w = (rc, sp, pr', w')"
  shows "stable pr w pr' w'"
  using assms
proof (induction pr w rule: read_loop.induct)
  case (1 pr w)
  obtain r q v where m: "more pr w = (r, q, v)" by (metis surj_pair)
  have q: "reader_ok q v" using more_ok[OF 1(2) m] by simp
  show ?case
  proof (cases "\<not> examined pr < snd (live_span pr) \<and> r > 0")
    case False
    then show ?thesis using 1(2,3) m more_stable[OF 1(2) m] by (auto simp: read_loop.simps[of pr w] split: if_splits)
  next
    case True
    then have e: "read_loop q v = (rc, sp, pr', w')" using 1(3) m by (simp add: read_loop.simps[of pr w])
    have "stable q v pr' w'" by (rule 1(1)[OF _ refl m[symmetric] refl _ q e]) (use True in auto)
    then show ?thesis using stable_trans[OF more_stable[OF 1(2) m]] by blast
  qed
qed

lemma avail_loop_stable:
  assumes "reader_ok pr w" and "avail_loop pr w = (rc, sp, pr', w')"
  shows "stable pr w pr' w'"
  using assms
proof (induction pr w rule: avail_loop.induct)
  case (1 pr w)
  obtain r q v where m: "more pr w = (r, q, v)" by (metis surj_pair)
  have q: "reader_ok q v" using more_ok[OF 1(2) m] by simp
  show ?case
  proof (cases "snd (live_span pr) \<le> examined pr \<and> \<not> rx_empty w \<and> r > 0")
    case False
    then show ?thesis using 1(2,3) m more_stable[OF 1(2) m] by (auto simp: avail_loop.simps[of pr w] split: if_splits)
  next
    case True
    then have e: "avail_loop q v = (rc, sp, pr', w')" using 1(3) m by (simp add: avail_loop.simps[of pr w])
    have "stable q v pr' w'" by (rule 1(1)[OF _ _ refl m[symmetric] refl _ q e]) (use True in auto)
    then show ?thesis using stable_trans[OF more_stable[OF 1(2) m]] by blast
  qed
qed

lemma copy_loop_stable:
  assumes "reader_ok pr w" and "copy_loop pr w n = (rc, dst, pr', w')"
  shows "stable pr w pr' w'"
  using assms
proof (induction pr w n rule: copy_loop.induct)
  case (1 pr w n)
  obtain r q v where m: "more pr w = (r, q, v)" by (metis surj_pair)
  obtain p len where ls: "live_span pr = (p, len)" by fastforce
  have q: "reader_ok q v" using more_ok[OF 1(2) m] by simp
  consider (now) "len \<noteq> 0" | (stop) "len = 0" "r \<le> 0" | (again) "len = 0" "r > 0" by linarith
  then show ?case
  proof cases
    case now
    then have "consume pr w (if len < n then len else n) = (pr', w')"
      using 1(3) ls by (auto simp: copy_loop.simps[of pr w n] Let_def split: prod.splits if_splits)
    then show ?thesis using consume_stable[OF 1(2)] by blast
  next
    case stop
    then show ?thesis using 1(3) m ls more_stable[OF 1(2) m] by (auto simp: copy_loop.simps[of pr w n])
  next
    case again
    then have e: "copy_loop q v n = (rc, dst, pr', w')" using 1(3) m ls by (auto simp: copy_loop.simps[of pr w n])
    have "stable q v pr' w'" by (rule 1(1)[OF refl ls[symmetric] _ refl m[symmetric] refl _ q e]) (use again in auto)
    then show ?thesis using stable_trans[OF more_stable[OF 1(2) m]] by blast
  qed
qed

lemma rop_stable:
  assumes ok: "reader_ok pr w" and nr: "op \<noteq> Release" and st: "rop_step op (pr, w) = (t, pr', w')"
  shows "stable pr w pr' w'"
proof (cases op)
  case Read
  obtain rc sp q v where r: "ioxd__pipereader_read pr w = (rc, sp, q, v)" by (metis surj_pair)
  then have "pr' = q" "w' = v" using st Read by auto
  then show ?thesis using read_loop_stable[OF ok, of rc sp q v] r
    by (cases "pr_error pr = 0") (simp_all add: ioxd__pipereader_read_def)
next
  case (Examine n)
  then show ?thesis using st by (auto simp: ioxd__pipereader_examine_def)
next
  case (Drop n)
  then show ?thesis using st consume_stable[OF ok] by (auto simp: ioxd__pipereader_drop_def)
next
  case (Keep n)
  obtain pl q v where k: "ioxd__pipereader_keep pr w n = (pl, q, v)" by (metis surj_pair)
  then have "pr' = q" "w' = v" using st Keep by auto
  then show ?thesis using keep_stable[OF ok k] by simp
next
  case Run_begin
  then show ?thesis using st run_begin_stable[OF ok] by auto
next
  case Release
  then show ?thesis using nr by simp
next
  case (Copy n)
  obtain rc d q v where r: "ioxd__pipereader_copy pr w n = (rc, d, q, v)" by (metis surj_pair)
  then have "pr' = q" "w' = v" using st Copy by auto
  then show ?thesis using copy_loop_stable[OF ok, of n rc d q v] r
    by (cases "pr_error pr = 0") (simp_all add: ioxd__pipereader_copy_def)
next
  case Avail
  obtain rc sp q v where r: "ioxd__pipereader_avail pr w = (rc, sp, q, v)" by (metis surj_pair)
  then have "pr' = q" "w' = v" using st Avail by auto
  then show ?thesis using avail_loop_stable[OF ok, of rc sp q v] r
    by (cases "pr_error pr = 0") (simp_all add: ioxd__pipereader_avail_def)
qed

lemma rop_run_stable:
  "reader_ok pr w \<Longrightarrow> Release \<notin> set ops \<Longrightarrow> rop_run ops (pr, w) = (t, pr', w') \<Longrightarrow> stable pr w pr' w'"
proof (induction ops arbitrary: pr w t)
  case (Cons op ops)
  obtain u q v where s: "rop_step op (pr, w) = (u, q, v)" by (metis surj_pair)
  then obtain x where r: "rop_run ops (q, v) = (x, pr', w')"
    using Cons.prems(3) by (auto split: prod.splits)
  have "reader_ok q v" using rop_conserves[OF Cons.prems(1) s] by (simp add: conserves_def)
  moreover have "stable pr w q v" using rop_stable[OF Cons.prems(1) _ s] Cons.prems(2) by auto
  ultimately show ?case using Cons.IH[OF _ _ r] stable_trans Cons.prems(2) by auto
qed simp

text \<open>
  Ending a run.  Its bytes stay where they are, in the gathering buffer or in the kernel buffer that is pinned for them; only when another
  kernel buffer is pinned already are they moved to the gathering buffer, if there is room.
\<close>

definition run_moves :: "pipereader \<Rightarrow> bool" where
  "run_moves pr \<longleftrightarrow> run_in_cur pr \<and> has_pinned pr \<and> \<not> cur_is_pinned pr"

definition ended_run :: "pipereader \<Rightarrow> place \<times> nat" where
  "ended_run pr = (if run_moves pr then In_buf (pr_floor pr) else fst (ioxd__pipereader_run pr), run_len pr)"

lemma cur_done_bytes:
  assumes "cur_done q w = (pr', w')"
  shows "bytes_at pr' w' (pl, n) = bytes_at q w (pl, n)" "pr_error pr' = pr_error q"
proof -
  have "io_slab w' = io_slab w \<and> pr_buf pr' = pr_buf q \<and> pr_error pr' = pr_error q" using assms by (cases rule: cur_done_cases) simp_all
  then show "bytes_at pr' w' (pl, n) = bytes_at q w (pl, n)" "pr_error pr' = pr_error q" by (cases pl; simp)+
qed

lemma run_begin_frozen:
  assumes ok: "reader_ok pr w" and r: "ioxd__pipereader_run_begin pr w = (pr', w')" and n: "0 < run_len pr"
    and fit: "run_moves pr \<longrightarrow> pr_floor pr + run_len pr \<le> pr_cap pr"
  shows "frozen pr' (ended_run pr)" "bytes_at pr' w' (ended_run pr) = run pr w"
proof -
  have sh: "shape_ok pr" and sl: "slab_ok pr w" using ok by (simp_all add: reader_inv_def)
  consider (buf) "\<not> run_in_cur pr" | (moved) "run_in_cur pr" "run_moves pr" | (pin) "run_in_cur pr" "\<not> run_moves pr" by blast
  then have "frozen pr' (ended_run pr) \<and> bytes_at pr' w' (ended_run pr) = run pr w"
  proof cases
    case buf
    then have d: "cur_done (pr\<lparr>run_len := 0, run_in_cur := False\<rparr>) w = (pr', w')" using r by (simp add: ioxd__pipereader_run_begin_def)
    from d have "pr_floor pr' = pr_floor pr" "run_len pr' = 0" by (cases rule: cur_done_cases; simp)+
    then show ?thesis using cur_done_bytes(1)[OF d, of "In_buf (run_start pr)" "run_len pr"] buf sh n by (simp add: ended_run_def run_moves_def run_def ioxd__pipereader_run_def frozen_floor_def shape_ok_def)
  next
    case moved
    let ?q = "pr\<lparr>pr_buf := memwrite (pr_buf pr) (pr_floor pr) (cur_bytes pr w (run_start pr) (run_len pr)), pr_floor := pr_floor pr + run_len pr, run_len := 0, run_in_cur := False\<rparr>"
    have d: "cur_done ?q w = (pr', w')" using r moved fit n by (simp add: ioxd__pipereader_run_begin_def run_moves_def)
    from d have "pr_floor pr' = pr_floor pr + run_len pr" "run_len pr' = 0" by (cases rule: cur_done_cases; simp)+
    moreover have "length (cur_bytes pr w (run_start pr) (run_len pr)) = run_len pr" using sh sl moved n by (auto simp: cur_bytes_def shape_ok_def slab_ok_def)
    ultimately show ?thesis using cur_done_bytes(1)[OF d, of "In_buf (pr_floor pr)" "run_len pr"] moved fit sh
      memread_memwrite_same[of "pr_floor pr" "cur_bytes pr w (run_start pr) (run_len pr)" "pr_buf pr"]
      by (simp add: ended_run_def run_def ioxd__pipereader_run_def frozen_floor_def shape_ok_def cur_bytes_def)
  next
    case pin
    let ?q = "pr\<lparr>pinned := cur pr, has_pinned := True, cur_is_pinned := True, run_len := 0, run_in_cur := False\<rparr>"
    have d: "cur_done ?q w = (pr', w')" using r pin n by (auto simp: ioxd__pipereader_run_begin_def run_moves_def)
    have l: "run_start pr + run_len pr \<le> cur_pos pr" "cur_pos pr \<le> it_len (cur pr)" using sh pin n by (auto simp: shape_ok_def)
    from d have "has_pinned pr' \<and> pinned pr' = cur pr \<and> run_start pr + run_len pr \<le> frozen_item pr'" by (cases rule: cur_done_cases) (use l in \<open>auto simp: frozen_item_def\<close>)
    then show ?thesis using cur_done_bytes(1)[OF d, of "In_item (it_id (cur pr)) (run_start pr)" "run_len pr"] pin by (simp add: ended_run_def run_def ioxd__pipereader_run_def)
  qed
  then show "frozen pr' (ended_run pr)" "bytes_at pr' w' (ended_run pr) = run pr w" by blast+
qed

lemma frozen_held:
  assumes "reader_ok pr w" and "frozen pr (In_item i off, n)"
  shows "i \<in> set (held pr)" "i \<notin> set (io_returned w)"
proof -
  show h: "i \<in> set (held pr)" using assms(2) by (simp add: held_def)
  have "mset (held pr @ io_returned w) = mset [0..<io_next w]" using assms(1) by (simp add: reader_inv_def accounted_def)
  then have "distinct (held pr @ io_returned w)" by (metis distinct_upt mset_eq_imp_distinct_iff)
  then show "i \<notin> set (io_returned w)" using h by auto
qed

text \<open>
  C18.  The bytes of a run that was ended stay put.  However the reader came to hold a run of kept bytes - the request head of the
  HTTP engine - after \<open>run_begin\<close> ends it they are at one place, the place they were kept at unless another kernel buffer was pinned before and they were moved to the
  gathering buffer, and they are there with the same contents after any further reads, keeps, drops, copies and new runs,
  until \<open>release\<close>; the kernel buffer they are in is held and was not given back.  Only where they had to be moved and there was no room is the
  reader left with an error instead.
\<close>

theorem frozen_bytes_stay:
  assumes "length buf = c" and "io_next w = 0" and "io_returned w = []"
    and "rop_run before (ioxd__pipereader_init buf c, w) = (t, pr0, w0)" and "0 < run_len pr0"
    and "ioxd__pipereader_run_begin pr0 w0 = (pr1, w1)"
    and "Release \<notin> set after" and "rop_run after (pr1, w1) = (u, pr2, w2)"
  shows "if run_moves pr0 \<and> pr_cap pr0 < pr_floor pr0 + run_len pr0 then pr_error pr1 = IOXD_PIPE_FULL
    else bytes_at pr2 w2 (ended_run pr0) = run pr0 w0 \<and>
      (\<forall>i off. fst (ended_run pr0) = In_item i off \<longrightarrow> i \<in> set (held pr2) \<and> i \<notin> set (io_returned w2))"
proof (cases "run_moves pr0 \<and> pr_cap pr0 < pr_floor pr0 + run_len pr0")
  case True
  then have "cur_done (pr0\<lparr>pr_error := IOXD_PIPE_FULL, run_len := 0, run_in_cur := False\<rparr>) w0 = (pr1, w1)"
    using assms(5,6) by (simp add: ioxd__pipereader_run_begin_def run_moves_def)
  then show ?thesis using True cur_done_bytes(2) by fastforce
next
  case False
  have ok0: "reader_ok pr0 w0" using rop_run_conserves[OF init_ok[OF assms(1-3)] assms(4)] by (simp add: conserves_def)
  have s: "rop_step Run_begin (pr0, w0) = ([], pr1, w1)" using assms(6) by simp
  have ok1: "reader_ok pr1 w1" using rop_conserves[OF ok0 s] by (simp add: conserves_def)
  have ok2: "reader_ok pr2 w2" using rop_run_conserves[OF ok1 assms(8)] by (simp add: conserves_def)
  have f: "run_moves pr0 \<longrightarrow> pr_floor pr0 + run_len pr0 \<le> pr_cap pr0" using False by auto
  note E = run_begin_frozen[OF ok0 assms(6,5) f]
  have "frozen pr2 (ended_run pr0) \<and> bytes_at pr2 w2 (ended_run pr0) = run pr0 w0"
    using stable_frozen[OF rop_run_stable[OF ok1 assms(7,8)], of "fst (ended_run pr0)" "snd (ended_run pr0)"] E by simp
  then show ?thesis using False frozen_held[OF ok2, where n = "snd (ended_run pr0)"] by (metis prod.collapse)
qed

abbreviation kept_head :: "bytes \<times> pipereader \<times> io" where
  "kept_head \<equiv> rop_run [Read, Keep 3] (ioxd__pipereader_init (replicate 8 NUL) 8, fresh_io [''abcde'', ''fgh''] 0)"

lemma kept_head_run:
  "ended_run (fst (snd kept_head)) = (In_item 0 0, 3) \<and> run (fst (snd kept_head)) (snd (snd kept_head)) = ''abc'' \<and> \<not> run_moves (fst (snd kept_head))"
  by code_simp

theorem frozen_bytes_stay_witness:
  "\<exists>u pr2 w2. rop_run [Read, Examine 2, Read, Keep 4] (ioxd__pipereader_run_begin (fst (snd kept_head)) (snd (snd kept_head))) = (u, pr2, w2) \<and>
     bytes_at pr2 w2 (In_item 0 0, 3) = ''abc'' \<and> 0 \<notin> set (io_returned w2)"
proof -
  obtain t p v where h: "kept_head = (t, p, v)" by (metis surj_pair)
  obtain p1 v1 where b: "ioxd__pipereader_run_begin p v = (p1, v1)" by fastforce
  obtain u q x where r: "rop_run [Read, Examine 2, Read, Keep 4] (p1, v1) = (u, q, x)" by (metis surj_pair)
  have f: "ended_run p = (In_item 0 0, 3)" "run p v = ''abc''" "\<not> run_moves p" using kept_head_run unfolding h by simp_all
  have n: "0 < run_len p" using f(1) by (auto simp: ended_run_def)
  have "Release \<notin> set [Read, Examine 2, Read, Keep 4]" by simp
  from frozen_bytes_stay[OF _ _ _ h n b this r] show ?thesis using f b r unfolding h by (auto simp: fresh_io_def)
qed

end
