(* ===== verification/Request_Head.thy ===== *)
theory Request_Head
  imports Slice
begin

text \<open>
  The request from its head, the first part of \<^verbatim>\<open>lib/http/engine.c\<close>: the list-header tokens,
  the headers the engine picks out while it lower-cases their names, and \<open>fill_request\<close>, which
  splits the target, parses the query and settles how the body is framed - or refuses the request.

  The parser's output is the record \<open>request\<close> with the method, the target, the version and the
  headers filled in; a header without a name is a folded continuation line.  A position inside a
  header value is the suffix still to be read.
\<close>

unbundle bit_operations_syntax

abbreviation IOXD_MAX_HEADERS :: nat where "IOXD_MAX_HEADERS \<equiv> 64"
abbreviation IOXD_MAX_PARAMS :: nat where "IOXD_MAX_PARAMS \<equiv> 32"
abbreviation IOXD_PARAM_CAP :: nat where "IOXD_PARAM_CAP \<equiv> 2048"
abbreviation SIZE_MAX :: u64 where "SIZE_MAX \<equiv> - 1"

type_synonym header = "bytes option \<times> bytes"

record request =
  rq_method :: bytes
  rq_target :: bytes
  rq_path :: bytes
  rq_query :: bytes
  rq_minor_version :: int
  rq_headers :: "header list"
  rq_params :: "(bytes \<times> bytes) list"
  rq_route_params :: "(bytes \<times> bytes) list"
  rq_content_length :: u64
  rq_chunked :: bool
  rq_body :: bytes
  rq_keep_alive :: bool
  rq_expect_continue :: bool


section \<open>Bytes and tokens\<close>

definition lower_ascii :: "byte \<Rightarrow> byte" where
  "lower_ascii a =
     (if (of_nat (byte_val a) - 65 :: u32) < 26 then char_of (byte_val a OR 32) else a)"

fun eq_ci_loop :: "bytes \<Rightarrow> bytes \<Rightarrow> bool" where
  "eq_ci_loop (a # as) (b # bs) = (if lower_ascii a \<noteq> lower_ascii b then False else eq_ci_loop as bs)"
| "eq_ci_loop _ _ = True"

definition eq_ci :: "bytes \<Rightarrow> bytes \<Rightarrow> bool" where
  "eq_ci a b = (if length a \<noteq> length b then False else eq_ci_loop a b)"

fun parse_length_loop :: "bytes \<Rightarrow> u64 \<Rightarrow> u64 option" where
  "parse_length_loop [] v = Some v"
| "parse_length_loop (c # s) v =
     (let d = of_nat (byte_val c) - 48 :: u32 in
      if d > 9 \<or> v > (SIZE_MAX - ucast d) div 10 then None
      else parse_length_loop s (v * 10 + ucast d))"

definition parse_length :: "bytes \<Rightarrow> u64 option" where
  "parse_length s = (if length s = 0 then None else parse_length_loop s 0)"

definition token_blank :: "byte \<Rightarrow> bool" where
  "token_blank c \<longleftrightarrow> c = CHR '' '' \<or> c = TAB"

fun strip_blanks_end :: "bytes \<Rightarrow> bytes" where
  "strip_blanks_end [] = []"
| "strip_blanks_end (c # cs) =
     (let r = strip_blanks_end cs in if r = [] \<and> token_blank c then [] else c # r)"

definition next_token :: "bytes \<Rightarrow> (bytes \<times> bytes) option" where
  "next_token s =
     (let s = dropWhile (\<lambda>c. token_blank c \<or> c = CHR '','') s in
      if s = [] then None
      else Some (strip_blanks_end (takeWhile (\<lambda>c. c \<noteq> CHR '','') s), dropWhile (\<lambda>c. c \<noteq> CHR '','') s))"

lemma next_token_shorter: "next_token s = Some (t, r) \<Longrightarrow> length r < length s"
proof -
  assume a: "next_token s = Some (t, r)"
  let ?d = "dropWhile (\<lambda>c. token_blank c \<or> c = CHR '','') s"
  have d: "?d \<noteq> []" and r: "r = dropWhile (\<lambda>c. c \<noteq> CHR '','') ?d"
    using a by (auto simp: next_token_def Let_def split: if_splits)
  have "hd ?d \<noteq> CHR '',''" using d hd_dropWhile[OF d] by auto
  then have "length r < length ?d" using d r by (cases ?d) (auto simp: le_imp_less_Suc length_dropWhile_le)
  then show ?thesis using length_dropWhile_le[of _ s] by (meson less_le_trans)
qed

function token_present_ci :: "bytes \<Rightarrow> bytes \<Rightarrow> bool" where
  "token_present_ci s tok =
     (case next_token s of
        None \<Rightarrow> False
      | Some (t, r) \<Rightarrow> (if eq_ci t tok then True else token_present_ci r tok))"
  by pat_completeness auto
termination
  by (relation "measure (\<lambda>(s, _). length s)") (auto dest: next_token_shorter)

declare token_present_ci.simps [simp del]


section \<open>Lower-casing eight bytes at a time\<close>

text \<open>\<open>memcpy\<close> between eight bytes and a little-endian \<open>uint64_t\<close>.\<close>

definition load_u64 :: "bytes \<Rightarrow> u64" where
  "load_u64 cs = of_nat (horner_sum of_char 256 cs)"

definition store_u64 :: "u64 \<Rightarrow> bytes" where
  "store_u64 w = map (\<lambda>i. char_of (unat (drop_bit (8 * i) w AND 255))) [0..<8]"

definition lower_word :: "u64 \<Rightarrow> u64" where
  "lower_word w =
     (let upper = ((w + 0x3f3f3f3f3f3f3f3f) AND NOT (w + 0x2525252525252525)) AND 0x8080808080808080
      in w OR drop_bit 2 upper)"

definition lower_byte :: "byte \<Rightarrow> byte" where
  "lower_byte c = (if (of_nat (byte_val c) - 65 :: u32) < 26 then char_of (byte_val c + 32) else c)"

fun lower_inplace :: "bytes \<Rightarrow> bytes" where
  "lower_inplace (a # b # c # d # e # f # g # h # rest) =
     store_u64 (lower_word (load_u64 [a, b, c, d, e, f, g, h])) @ lower_inplace rest"
| "lower_inplace s = map lower_byte s"


section \<open>The headers the engine picks\<close>

record picked_headers =
  pk_content_length :: bytes
  n_content_length :: nat
  n_transfer_enc :: nat
  n_host :: nat
  te_last_chunked :: bool
  te_other :: bool
  pk_close :: bool
  pk_keep_alive :: bool
  pk_expect_continue :: bool
  pk_refuse :: int

function te_tokens :: "picked_headers \<Rightarrow> bytes \<Rightarrow> bool \<Rightarrow> picked_headers \<times> bool" where
  "te_tokens picked s any =
     (case next_token s of
        None \<Rightarrow> (picked, any)
      | Some (tok, r) \<Rightarrow>
          (let last = (next_token r = None) in
           if last \<and> eq_ci tok ''chunked'' then te_tokens (picked\<lparr>te_last_chunked := True\<rparr>) r True
           else te_tokens (picked\<lparr>te_other := True\<rparr>) r True))"
  by pat_completeness auto
termination
  by (relation "measure (\<lambda>(_, s, _). length s)") (auto dest: next_token_shorter)

declare te_tokens.simps [simp del]

definition pick_transfer_encoding :: "picked_headers \<Rightarrow> bytes \<Rightarrow> picked_headers" where
  "pick_transfer_encoding picked value =
     (let picked = picked\<lparr>n_transfer_enc := n_transfer_enc picked + 1\<rparr>;
          picked = (if te_last_chunked picked then picked\<lparr>te_other := True\<rparr> else picked);
          picked = picked\<lparr>te_last_chunked := False\<rparr>;
          (picked, any) = te_tokens picked value False
      in if \<not> any then picked\<lparr>pk_refuse := 400\<rparr> else picked)"

definition pick_one :: "picked_headers \<Rightarrow> bytes \<Rightarrow> bytes \<Rightarrow> picked_headers" where
  "pick_one picked name v =
     (if length name = 4 then
        (if name = ''host'' then picked\<lparr>n_host := n_host picked + 1\<rparr> else picked)
      else if length name = 6 then
        (if name = ''expect'' then
           if eq_ci v ''100-continue'' then picked\<lparr>pk_expect_continue := True\<rparr> else picked\<lparr>pk_refuse := 417\<rparr>
         else picked)
      else if length name = 10 then
        (if name = ''connection'' then
           let picked = (if token_present_ci v ''close'' then picked\<lparr>pk_close := True\<rparr> else picked)
           in if token_present_ci v ''keep-alive'' then picked\<lparr>pk_keep_alive := True\<rparr> else picked
         else picked)
      else if length name = 14 then
        (if name = ''content-length'' then
           let first = (n_content_length picked = 0);
               picked' = picked\<lparr>n_content_length := n_content_length picked + 1\<rparr>;
               picked' = (if \<not> first \<and> \<not> (length v = length (pk_content_length picked) \<and> v = pk_content_length picked)
                          then picked'\<lparr>pk_refuse := 400\<rparr> else picked')
           in picked'\<lparr>pk_content_length := v\<rparr>
         else picked)
      else if length name = 17 then
        (if name = ''transfer-encoding'' then pick_transfer_encoding picked v else picked)
      else picked)"

fun pick_loop :: "header list \<Rightarrow> picked_headers \<Rightarrow> header list \<times> picked_headers" where
  "pick_loop [] picked = ([], picked)"
| "pick_loop ((None, v) # hs) picked =
     (let (hs, picked) = pick_loop hs (picked\<lparr>pk_refuse := 400\<rparr>) in ((None, v) # hs, picked))"
| "pick_loop ((Some name, v) # hs) picked =
     (let name = lower_inplace name;
          (hs, picked) = pick_loop hs (pick_one picked name v)
      in ((Some name, v) # hs, picked))"

definition no_picked :: picked_headers where
  "no_picked = \<lparr>pk_content_length = [], n_content_length = 0, n_transfer_enc = 0, n_host = 0,
     te_last_chunked = False, te_other = False, pk_close = False, pk_keep_alive = False,
     pk_expect_continue = False, pk_refuse = 0\<rparr>"

definition pick_headers :: "request \<Rightarrow> picked_headers \<times> request" where
  "pick_headers req =
     (let (hs, picked) = pick_loop (rq_headers req) no_picked in (picked, req\<lparr>rq_headers := hs\<rparr>))"

definition keep_alive_from :: "int \<Rightarrow> picked_headers \<Rightarrow> bool" where
  "keep_alive_from minor_version picked =
     (if pk_close picked then False else minor_version \<ge> 1 \<or> pk_keep_alive picked)"

definition starts_ci :: "bytes \<Rightarrow> bytes \<Rightarrow> bool" where
  "starts_ci s lit = (let n = length lit in length s \<ge> n \<and> eq_ci (take n s) lit)"

definition split_target :: "bytes \<Rightarrow> bytes \<times> bytes" where
  "split_target target =
     (let target =
            (if length target \<noteq> 0 \<and> target ! 0 \<noteq> CHR ''/'' \<and> (starts_ci target ''http://'' \<or> starts_ci target ''https://'')
             then let skip = (if target ! 4 = CHR '':'' then 7 else 8) in
               case memchr (CHR ''/'') (drop skip target) of
                 Some i \<Rightarrow> drop (skip + i) target
               | None \<Rightarrow> ''/''
             else target)
      in case memchr (CHR ''?'') target of
           Some q \<Rightarrow> (take q target, drop (q + 1) target)
         | None \<Rightarrow> (target, []))"

definition fill_request :: "request \<Rightarrow> nat \<Rightarrow> int \<times> request" where
  "fill_request req arena_cap =
     (let (path, query) = split_target (rq_target req);
          req = req\<lparr>rq_path := path, rq_query := query\<rparr>;
          (params, used, truncated) =
            (if length query \<noteq> 0 then ioxd_kv_parse query IOXD_MAX_PARAMS arena_cap else ([], 0, False));
          req = req\<lparr>rq_params := params, rq_route_params := [], rq_body := []\<rparr>;
          (picked, req) = pick_headers req;
          req = req\<lparr>rq_chunked := False, rq_content_length := 0,
                    rq_keep_alive := keep_alive_from (rq_minor_version req) picked,
                    rq_expect_continue := pk_expect_continue picked\<rparr>
      in if pk_refuse picked \<noteq> 0 then (pk_refuse picked, req)
      else if truncated then (if length params = IOXD_MAX_PARAMS then 400 else 414, req)
      else if (if rq_minor_version req \<ge> 1 then n_host picked \<noteq> 1 else n_host picked > 1) then (400, req)
      else if n_transfer_enc picked \<noteq> 0 then
        if n_content_length picked \<noteq> 0 then (400, req)
        else if te_other picked then (501, req)
        else if \<not> te_last_chunked picked then (400, req)
        else (0, req\<lparr>rq_chunked := True\<rparr>)
      else if n_content_length picked \<noteq> 0 then
        (case parse_length (pk_content_length picked) of
           None \<Rightarrow> (400, req)
         | Some n \<Rightarrow> (0, req\<lparr>rq_content_length := n\<rparr>))
      else (0, req))"


section \<open>The byte routines\<close>

lemma upper_range: "(of_nat (byte_val c) - 65 :: u32) < 26 \<longleftrightarrow> 65 \<le> byte_val c \<and> byte_val c < 91"
proof -
  have u: "unat (of_nat (byte_val c) :: u32) = byte_val c"
    using nat_of_char_less_256[of c] by (intro unat_of_nat_less) (simp add: less_trans[of _ 256])
  show ?thesis
  proof (cases "65 \<le> byte_val c")
    case True
    then have "unat (of_nat (byte_val c) - 65 :: u32) = byte_val c - 65"
      using u by (simp add: unat_sub word_le_nat_alt)
    then show ?thesis using True by (auto simp: word_less_nat_alt)
  next
    case False
    then have "unat (of_nat (byte_val c) - 65 :: u32) = 2 ^ 32 + byte_val c - 65"
      using u by (simp add: unat_sub_if')
    then show ?thesis using False by (auto simp: word_less_nat_alt)
  qed
qed

lemma lower_range: "lower c = (if 65 \<le> byte_val c \<and> byte_val c < 91 then char_of (byte_val c + 32) else c)"
proof (cases "65 \<le> byte_val c")
  case True
  then have e: "byte_val c + 256 - 65 = byte_val c - 65 + 256" by linarith
  have "(byte_val c + 256 - 65) mod 256 = byte_val c - 65"
    unfolding e using nat_of_char_less_256[of c] by (simp add: less_imp_diff_less)
  then show ?thesis using True by (simp add: lower_def less_diff_conv2)
next
  case False
  then have "(byte_val c + 256 - 65) mod 256 = byte_val c + 191" by simp
  then show ?thesis using False by (simp add: lower_def)
qed

lemma or_32_upper: "65 \<le> v \<Longrightarrow> v < 91 \<Longrightarrow> v OR 32 = v + (32 :: nat)"
proof -
  assume "65 \<le> v" and "v < 91"
  then have "v \<in> set [65..<91]" by (simp only: set_upt atLeastLessThan_iff)
  moreover have "\<forall>v \<in> set [65..<91]. v OR 32 = v + (32 :: nat)" by (simp add: upt_rec)
  ultimately show "v OR 32 = v + 32" by blast
qed

lemma lower_ascii_lower [simp]: "lower_ascii c = lower c"
  by (simp add: lower_ascii_def lower_range upper_range or_32_upper)

lemma lower_byte_lower [simp]: "lower_byte c = lower c"
  by (simp add: lower_byte_def lower_range upper_range)

lemma eq_ci_map: "eq_ci a b \<longleftrightarrow> map lower a = map lower b"
proof -
  have "length a = length b \<Longrightarrow> eq_ci_loop a b \<longleftrightarrow> map lower a = map lower b"
    by (induction a b rule: eq_ci_loop.induct) auto
  moreover have "map lower a = map lower b \<Longrightarrow> length a = length b" by (metis length_map)
  ultimately show ?thesis by (auto simp: eq_ci_def)
qed

lemma parse_length_digits: "parse_length s = digits_to_u64 s UINT64_MAX"
proof -
  have "parse_length_loop s v = digits_loop s UINT64_MAX v" for v
    by (induction s arbitrary: v) (simp_all add: digit_of_def UINT64_MAX_def Let_def)
  then show ?thesis by (simp add: parse_length_def digits_to_u64_def)
qed

lemma parse_length_exact:
  "parse_length s = Some w \<longleftrightarrow> s \<noteq> [] \<and> list_all is_digit s \<and> unat w = digits_value s"
proof -
  have "unat w \<le> 18446744073709551615" using unsigned_less[of w, where 'a = nat] by simp
  then show ?thesis
    unfolding parse_length_digits using digits_to_u64_iff[of UINT64_MAX s w] unat_UINT64_MAX by auto
qed


section \<open>Eight bytes in a word\<close>

definition word_of :: "nat list \<Rightarrow> u64" where
  "word_of bs = of_nat (horner_sum id 256 bs)"

lemma bit_byte_cons:
  assumes "b < 256"
  shows "bit (b + 256 * r :: nat) n = (if n < 8 then bit b n else bit r (n - 8))"
proof -
  have b: "take_bit 8 b = b" using assms by (simp add: take_bit_nat_eq_self)
  then have small: "\<not> bit b m" if "8 \<le> m" for m using that by (metis bit_take_bit_iff not_le)
  have "b AND push_bit 8 r = 0" by (rule bit_eqI) (use small in \<open>auto simp: bit_simps\<close>)
  then have or: "b + push_bit 8 r = b OR push_bit 8 r" by (rule disjunctive_add_eq_or)
  have "b + 256 * r = b + push_bit 8 r" by (simp add: push_bit_eq_mult)
  then have "bit (b + 256 * r) n = bit (b OR push_bit 8 r) n" by (simp only: or)
  then show ?thesis using small[of n] by (auto simp: bit_or_iff bit_push_bit_iff)
qed

lemma bit_horner:
  assumes "\<forall>b \<in> set bs. b < 256"
  shows "bit (horner_sum id 256 bs :: nat) n \<longleftrightarrow> n div 8 < length bs \<and> bit (bs ! (n div 8)) (n mod 8)"
  using assms
proof (induction bs arbitrary: n)
  case (Cons b bs)
  show ?case
  proof (cases "n < 8")
    case True
    then show ?thesis using Cons.prems by (simp add: bit_byte_cons)
  next
    case False
    then have "n div 8 = Suc ((n - 8) div 8)" "n mod 8 = (n - 8) mod 8"
      by (simp_all add: le_div_geq le_mod_geq)
    then show ?thesis using Cons False by (simp add: bit_byte_cons)
  qed
qed simp

lemma bit_word_of:
  assumes "\<forall>b \<in> set bs. b < 256" and "length bs = 8"
  shows "bit (word_of bs) n \<longleftrightarrow> n < 64 \<and> bit (bs ! (n div 8)) (n mod 8)"
  using bit_horner[OF assms(1), of n] assms(2) by (auto simp: word_of_def bit_simps)

lemma horner_add: "length as = length bs \<Longrightarrow>
  horner_sum id 256 (map2 (+) as bs) = horner_sum id 256 as + (horner_sum id 256 bs :: nat)"
  by (induction as bs rule: list_induct2) (simp_all add: algebra_simps)

lemma word_of_add: "length as = length bs \<Longrightarrow> word_of as + word_of bs = word_of (map2 (+) as bs)"
  by (simp add: word_of_def horner_add)

lemma word_of_consts:
  "(0x3f3f3f3f3f3f3f3f :: u64) = word_of (replicate 8 63)" "(0x2525252525252525 :: u64) = word_of (replicate 8 37)"
  "(0x8080808080808080 :: u64) = word_of (replicate 8 128)"
proof -
  have r: "replicate 8 k = [k, k, k, k, k, k, k, k]" for k :: nat by (simp add: numeral_eq_Suc)
  show "(0x3f3f3f3f3f3f3f3f :: u64) = word_of (replicate 8 63)" "(0x2525252525252525 :: u64) = word_of (replicate 8 37)"
    "(0x8080808080808080 :: u64) = word_of (replicate 8 128)"
    by (simp_all add: word_of_def r)
qed

lemma map2_replicate: "length as = n \<Longrightarrow> map2 (+) as (replicate n k) = map (\<lambda>a. a + k) as"
  by (induction as arbitrary: n) auto

lemma high_bit: "b < 256 \<Longrightarrow> bit (b :: nat) 7 \<longleftrightarrow> 128 \<le> b"
proof -
  assume "b < 256"
  then have "b div 128 = (if 128 \<le> b then 1 else 0)" by (auto intro!: div_nat_eqI)
  then show ?thesis by (simp add: bit_iff_odd)
qed

lemma bit_128: "k < 8 \<Longrightarrow> bit (128 :: nat) k \<longleftrightarrow> k = 7"
proof -
  have "(128 :: nat) = 2 ^ 7" by simp
  then show "k < 8 \<Longrightarrow> bit (128 :: nat) k \<longleftrightarrow> k = 7" by (simp only: bit_exp_iff) auto
qed

lemma bit_lower_word:
  assumes "\<forall>b \<in> set bs. b < 128" and "length bs = 8" and "n < 64"
  shows "bit (lower_word (word_of bs)) n \<longleftrightarrow>
    bit (bs ! (n div 8)) (n mod 8) \<or> n mod 8 = 5 \<and> 65 \<le> bs ! (n div 8) \<and> bs ! (n div 8) < 91"
proof -
  define upper where "upper = ((word_of bs + 0x3f3f3f3f3f3f3f3f) AND NOT (word_of bs + 0x2525252525252525)) AND 0x8080808080808080"
  have lt: "bs ! i < 128" if "i < 8" for i using assms(1,2) that by auto
  have add: "word_of bs + 0x3f3f3f3f3f3f3f3f = word_of (map (\<lambda>b. b + 63) bs)"
    "word_of bs + 0x2525252525252525 = word_of (map (\<lambda>b. b + 37) bs)"
    unfolding word_of_consts using assms(2) by (simp_all only: word_of_add length_replicate map2_replicate)
  have up: "bit upper m \<longleftrightarrow> m mod 8 = 7 \<and> 65 \<le> bs ! (m div 8) \<and> bs ! (m div 8) < 91" if "m < 64" for m
  proof -
    have i: "m div 8 < 8" using that by linarith
    have "bit (0x8080808080808080 :: u64) m \<longleftrightarrow> m mod 8 = 7"
      unfolding word_of_consts(3) using i that by (subst bit_word_of) (auto simp: bit_128)
    moreover have "bit (word_of (map (\<lambda>b. b + 63) bs)) m \<longleftrightarrow> 65 \<le> bs ! (m div 8)" if "m mod 8 = 7"
    proof -
      have b: "bs ! (m div 8) + 63 < 256" using lt[OF i] by linarith
      have "\<forall>b \<in> set (map (\<lambda>b. b + 63) bs). b < 256" using assms(1) by fastforce
      from bit_word_of[OF this] show ?thesis using assms(2) i \<open>m < 64\<close> that high_bit[OF b] by simp
    qed
    moreover have "bit (word_of (map (\<lambda>b. b + 37) bs)) m \<longleftrightarrow> 91 \<le> bs ! (m div 8)" if "m mod 8 = 7"
    proof -
      have b: "bs ! (m div 8) + 37 < 256" using lt[OF i] by linarith
      have "\<forall>b \<in> set (map (\<lambda>b. b + 37) bs). b < 256" using assms(1) by fastforce
      from bit_word_of[OF this] show ?thesis using assms(2) i \<open>m < 64\<close> that high_bit[OF b] by simp
    qed
    ultimately show ?thesis using that unfolding upper_def add by (auto simp: bit_simps)
  qed
  have "bit (drop_bit 2 upper) n \<longleftrightarrow> n mod 8 = 5 \<and> 65 \<le> bs ! (n div 8) \<and> bs ! (n div 8) < 91"
  proof (cases "n + 2 < 64")
    case True
    have "(n + 2) mod 8 = 7 \<longleftrightarrow> n mod 8 = 5" "n mod 8 = 5 \<Longrightarrow> (n + 2) div 8 = n div 8" by presburger+
    then show ?thesis using up[OF True] by (auto simp: bit_drop_bit_eq add.commute)
  next
    case False
    then have "\<not> bit upper (n + 2)" by (simp add: bit_simps not_less bit_word.rep_eq)
    moreover have "n mod 8 \<noteq> 5" using False assms(3) by presburger
    ultimately show ?thesis by (simp add: bit_drop_bit_eq add.commute)
  qed
  moreover have "bit (word_of bs) n \<longleftrightarrow> bit (bs ! (n div 8)) (n mod 8)"
    using assms by (subst bit_word_of) (auto intro: order.strict_trans)
  ultimately show ?thesis by (simp add: lower_word_def upper_def Let_def bit_or_iff)
qed

lemma byte_high_bits: "8 \<le> k \<Longrightarrow> \<not> bit (byte_val c) k"
proof -
  have "take_bit 8 (byte_val c) = byte_val c" using nat_of_char_less_256[of c] by (simp add: take_bit_nat_eq_self)
  then show "8 \<le> k \<Longrightarrow> \<not> bit (byte_val c) k" by (metis bit_take_bit_iff not_le)
qed

lemma store_u64_bits:
  assumes len: "length cs = 8" and bits: "\<And>n. n < 64 \<Longrightarrow> bit w n \<longleftrightarrow> bit (byte_val (cs ! (n div 8))) (n mod 8)"
  shows "store_u64 w = cs"
proof (rule nth_equalityI)
  show "length (store_u64 w) = length cs" by (simp add: store_u64_def len)
next
  fix i assume "i < length (store_u64 w)"
  then have i: "i < 8" by (simp add: store_u64_def)
  have m: "(255 :: u64) = mask 8" by (simp add: mask_eq_exp_minus_1)
  have "unat (drop_bit (8 * i) w AND 255) = byte_val (cs ! i)"
  proof (rule bit_eqI)
    fix k
    have "bit (unat (drop_bit (8 * i) w AND 255)) k \<longleftrightarrow> k < 8 \<and> bit w (8 * i + k)"
      unfolding m bit_unat_eq by (auto simp: bit_and_iff bit_drop_bit_eq bit_mask_iff)
    also have "\<dots> \<longleftrightarrow> bit (byte_val (cs ! i)) k"
    proof (cases "k < 8")
      case True
      then have "8 * i + k < 64" "(8 * i + k) div 8 = i" "(8 * i + k) mod 8 = k" using i by auto
      then show ?thesis using bits[of "8 * i + k"] True by simp
    qed (simp add: byte_high_bits)
    finally show "bit (unat (drop_bit (8 * i) w AND 255)) k = bit (byte_val (cs ! i)) k" .
  qed
  then show "store_u64 w ! i = cs ! i" using i by (simp add: store_u64_def)
qed

lemma load_word_of: "load_u64 cs = word_of (map of_char cs)"
proof -
  have "horner_sum of_char 256 cs = (horner_sum id 256 (map of_char cs) :: nat)" by (induction cs) simp_all
  then show ?thesis by (simp add: load_u64_def word_of_def)
qed

lemma byte_val_lower: "byte_val (lower c) = (if 65 \<le> byte_val c \<and> byte_val c < 91 then byte_val c OR 32 else byte_val c)"
  by (simp add: lower_range or_32_upper)

lemma bit_32: "bit (32 :: nat) k \<longleftrightarrow> k = 5"
proof -
  have "(32 :: nat) = 2 ^ 5" by simp
  then show ?thesis by (simp only: bit_exp_iff) auto
qed

lemma lower_word_bytes:
  assumes "length cs = 8" and "list_all (\<lambda>c. byte_val c < 128) cs"
  shows "store_u64 (lower_word (load_u64 cs)) = map lower cs"
proof (rule store_u64_bits)
  fix n :: nat assume n: "n < 64"
  then have i: "n div 8 < length cs" using assms(1) by simp
  have "bit (lower_word (load_u64 cs)) n \<longleftrightarrow> bit (byte_val (cs ! (n div 8))) (n mod 8) \<or>
      n mod 8 = 5 \<and> 65 \<le> byte_val (cs ! (n div 8)) \<and> byte_val (cs ! (n div 8)) < 91"
    unfolding load_word_of using bit_lower_word[of "map of_char cs" n] assms n i by (simp add: list_all_iff)
  then show "bit (lower_word (load_u64 cs)) n \<longleftrightarrow> bit (byte_val (map lower cs ! (n div 8))) (n mod 8)"
    using i by (auto simp: byte_val_lower bit_or_iff bit_32)
qed (simp add: assms(1))

text \<open>
  The eight-bytes-a-step folding is the folding of each byte, for the bytes a field name may hold.
\<close>

lemma lower_inplace_map: "list_all (\<lambda>c. byte_val c < 128) s \<Longrightarrow> lower_inplace s = map lower s"
proof (induction s rule: lower_inplace.induct)
  case (1 a b c d e f g h rest)
  then show ?case using lower_word_bytes[of "[a, b, c, d, e, f, g, h]"] by simp
qed simp_all


section \<open>Framing\<close>

text \<open>The tokens of a list header, and the values of a field over all its lines.\<close>

function tokens :: "bytes \<Rightarrow> bytes list" where
  "tokens s = (case next_token s of None \<Rightarrow> [] | Some (t, r) \<Rightarrow> t # tokens r)"
  by pat_completeness auto
termination
  by (relation "measure length") (auto dest: next_token_shorter)

declare tokens.simps [simp del]

definition field_values :: "bytes \<Rightarrow> header list \<Rightarrow> bytes list" where
  "field_values name hs = map snd (filter (\<lambda>(n, _). n = Some name) hs)"

lemma tokens_none_iff: "tokens s = [] \<longleftrightarrow> next_token s = None"
  by (subst tokens.simps) (auto split: option.splits)

lemma token_present_tokens: "token_present_ci s tok \<longleftrightarrow> (\<exists>t \<in> set (tokens s). eq_ci t tok)"
proof (induction s tok rule: token_present_ci.induct)
  case (1 s tok)
  then show ?case
    by (subst token_present_ci.simps, subst tokens.simps) (auto split: option.splits)
qed

lemma te_tokens_spec:
  "te_tokens picked s any =
     (let toks = tokens s;
          good = (toks \<noteq> [] \<and> eq_ci (last toks) ''chunked'')
      in (picked\<lparr>te_last_chunked := te_last_chunked picked \<or> good,
                 te_other := te_other picked \<or> length toks > 1 \<or> (toks \<noteq> [] \<and> \<not> good)\<rparr>, any \<or> toks \<noteq> []))"
proof (induction picked s any rule: te_tokens.induct)
  case (1 picked s any)
  show ?case
  proof (cases "next_token s")
    case None
    then have "tokens s = []" by (simp add: tokens_none_iff)
    then show ?thesis using None by (subst te_tokens.simps) simp
  next
    case (Some tr)
    obtain t r where tr: "tr = (t, r)" by fastforce
    have ts: "tokens s = t # tokens r" using Some tr by (subst tokens.simps) simp
    show ?thesis
      using 1(1)[OF Some tr[symmetric] refl] 1(2)[OF Some tr[symmetric] refl] Some tr ts
      by (subst te_tokens.simps) (auto simp: Let_def tokens_none_iff[symmetric] neq_Nil_conv)
  qed
qed

text \<open>The loop over the headers as a fold over the headers with folded names.\<close>

definition lower_header :: "header \<Rightarrow> header" where
  "lower_header h = (map_option lower_inplace (fst h), snd h)"

definition pick_step :: "picked_headers \<Rightarrow> header \<Rightarrow> picked_headers" where
  "pick_step picked h =
     (case fst h of None \<Rightarrow> picked\<lparr>pk_refuse := 400\<rparr> | Some name \<Rightarrow> pick_one picked name (snd h))"

lemma pick_loop_fold:
  "pick_loop hs picked = (map lower_header hs, foldl pick_step picked (map lower_header hs))"
proof (induction hs picked rule: pick_loop.induct)
  case (2 v hs picked)
  then show ?case by (simp add: lower_header_def pick_step_def Let_def)
next
  case (3 name v hs picked)
  then show ?case by (simp add: lower_header_def pick_step_def Let_def)
qed simp

lemma field_values_snoc:
  "field_values name (hs @ [h]) = field_values name hs @ (if fst h = Some name then [snd h] else [])"
  by (cases h) (simp add: field_values_def)

definition te_exactly_chunked :: "bytes list \<Rightarrow> bool" where
  "te_exactly_chunked vs \<longleftrightarrow> (\<exists>v t. vs = [v] \<and> tokens v = [t] \<and> eq_ci t ''chunked'')"

definition picked_ok :: "header list \<Rightarrow> picked_headers \<Rightarrow> bool" where
  "picked_ok hs p \<longleftrightarrow>
     n_content_length p = length (field_values ''content-length'' hs) \<and>
     n_transfer_enc p = length (field_values ''transfer-encoding'' hs) \<and>
     n_host p = length (field_values ''host'' hs) \<and>
     (pk_refuse p = 0 \<longrightarrow>
        (\<forall>h \<in> set hs. fst h \<noteq> None) \<and>
        (\<forall>v \<in> set (field_values ''content-length'' hs). v = pk_content_length p) \<and>
        (\<forall>v \<in> set (field_values ''transfer-encoding'' hs). tokens v \<noteq> []) \<and>
        (\<not> te_other p \<longrightarrow>
           (if te_last_chunked p then te_exactly_chunked (field_values ''transfer-encoding'' hs)
            else field_values ''transfer-encoding'' hs = [])))"

text \<open>A header that is none of the framing ones leaves the framing state alone.\<close>

lemma pick_one_other:
  assumes "name \<noteq> ''host''" "name \<noteq> ''content-length''" "name \<noteq> ''transfer-encoding''"
  shows "n_content_length (pick_one p name v) = n_content_length p" "n_transfer_enc (pick_one p name v) = n_transfer_enc p"
    "n_host (pick_one p name v) = n_host p" "te_other (pick_one p name v) = te_other p"
    "te_last_chunked (pick_one p name v) = te_last_chunked p" "pk_content_length (pick_one p name v) = pk_content_length p"
    "pk_refuse (pick_one p name v) = 0 \<Longrightarrow> pk_refuse p = 0"
  using assms by (auto simp: pick_one_def Let_def split: if_splits)

lemma pick_te:
  "pick_one p ''transfer-encoding'' v =
     (let toks = tokens v; good = (toks \<noteq> [] \<and> eq_ci (last toks) ''chunked'');
          q = p\<lparr>n_transfer_enc := n_transfer_enc p + 1, te_last_chunked := good,
                te_other := te_other p \<or> te_last_chunked p \<or> length toks > 1 \<or> (toks \<noteq> [] \<and> \<not> good)\<rparr>
      in if toks = [] then q\<lparr>pk_refuse := 400\<rparr> else q)"
  by (simp add: pick_one_def pick_transfer_encoding_def te_tokens_spec Let_def)

lemma picked_ok_step:
  assumes ok: "picked_ok hs p"
  shows "picked_ok (hs @ [h]) (pick_step p h)"
proof (cases "fst h")
  case None
  then show ?thesis using ok by (auto simp: picked_ok_def pick_step_def field_values_snoc)
next
  case (Some name)
  consider (host) "name = ''host''" | (cl) "name = ''content-length''" | (te) "name = ''transfer-encoding''"
    | (other) "name \<noteq> ''host''" "name \<noteq> ''content-length''" "name \<noteq> ''transfer-encoding''" by blast
  then show ?thesis
  proof cases
    case host
    then show ?thesis using ok Some by (auto simp: picked_ok_def pick_step_def field_values_snoc pick_one_def)
  next
    case cl
    then show ?thesis using ok Some
      by (auto simp: picked_ok_def pick_step_def field_values_snoc pick_one_def Let_def)
  next
    case te
    then show ?thesis using ok Some
      by (cases "tokens (snd h)" rule: rev_cases)
         (auto simp: picked_ok_def pick_step_def field_values_snoc pick_te te_exactly_chunked_def Let_def)
  next
    case other
    then show ?thesis using ok Some pick_one_other[OF other, of p "snd h"]
      by (auto simp: picked_ok_def pick_step_def field_values_snoc)
  qed
qed

lemma picked_ok_fold: "picked_ok hs (foldl pick_step no_picked hs)"
proof (induction hs rule: rev_induct)
  case Nil
  then show ?case by (simp add: picked_ok_def no_picked_def field_values_def)
next
  case (snoc h hs)
  then show ?case using picked_ok_step by simp
qed

text \<open>What the request's fields are after a successful \<open>fill_request\<close>.\<close>

lemma fill_request_ok:
  assumes "fill_request req arena_cap = (0, req')"
  defines "hs \<equiv> map lower_header (rq_headers req)"
  defines "p \<equiv> foldl pick_step no_picked hs"
  shows "rq_headers req' = hs" and "pk_refuse p = 0"
    and "if rq_minor_version req \<ge> 1 then n_host p = 1 else n_host p \<le> 1"
    and "if rq_chunked req' then n_transfer_enc p \<noteq> 0 \<and> n_content_length p = 0 \<and> \<not> te_other p \<and> te_last_chunked p \<and> rq_content_length req' = 0
      else n_transfer_enc p = 0 \<and>
        (if n_content_length p = 0 then rq_content_length req' = 0 else parse_length (pk_content_length p) = Some (rq_content_length req'))"
    and "rq_keep_alive req' = keep_alive_from (rq_minor_version req) p"
proof -
  obtain path query where st: "split_target (rq_target req) = (path, query)" by fastforce
  obtain params used tr where kv: "(if length query \<noteq> 0 then ioxd_kv_parse query IOXD_MAX_PARAMS arena_cap else ([], 0, False)) = (params, used, tr)"
    by (metis surj_pair)
  have ph: "pick_headers (r\<lparr>rq_path := a, rq_query := b, rq_params := c, rq_route_params := [], rq_body := []\<rparr>) =
      (p, r\<lparr>rq_path := a, rq_query := b, rq_params := c, rq_route_params := [], rq_body := [], rq_headers := hs\<rparr>)"
    if "rq_headers r = rq_headers req" for r a b c
    using that by (simp add: pick_headers_def pick_loop_fold p_def hs_def)
  note e = assms(1)[unfolded fill_request_def st kv prod.case Let_def, simplified ph[OF refl] kv prod.case, simplified]
  show "pk_refuse p = 0" using e by (auto split: if_splits)
  show "rq_headers req' = hs" using e by (auto split: if_splits option.splits)
  show "if rq_minor_version req \<ge> 1 then n_host p = 1 else n_host p \<le> 1" using e by (auto split: if_splits)
  show "rq_keep_alive req' = keep_alive_from (rq_minor_version req) p" using e by (auto split: if_splits option.splits)
  show "if rq_chunked req' then n_transfer_enc p \<noteq> 0 \<and> n_content_length p = 0 \<and> \<not> te_other p \<and> te_last_chunked p \<and> rq_content_length req' = 0
      else n_transfer_enc p = 0 \<and>
        (if n_content_length p = 0 then rq_content_length req' = 0 else parse_length (pk_content_length p) = Some (rq_content_length req'))"
    using e
    by (cases "n_transfer_enc p = 0"; cases "n_content_length p = 0"; cases "parse_length (pk_content_length p)")
       (auto split: if_splits)
qed

text \<open>The values of the headers of a given name, read without regard to case.\<close>

definition values_ci :: "bytes \<Rightarrow> header list \<Rightarrow> bytes list" where
  "values_ci name hs = map snd (filter (\<lambda>h. map_option (map lower) (fst h) = Some name) hs)"

definition ascii_names :: "header list \<Rightarrow> bool" where
  "ascii_names hs \<longleftrightarrow> list_all (\<lambda>h. case fst h of None \<Rightarrow> True | Some n \<Rightarrow> list_all (\<lambda>c. byte_val c < 128) n) hs"

lemma lower_header_map:
  "ascii_names [h] \<Longrightarrow> lower_header h = (map_option (map lower) (fst h), snd h)"
  by (cases "fst h") (simp_all add: ascii_names_def lower_header_def lower_inplace_map)

lemma field_values_lowered: "ascii_names hs \<Longrightarrow> field_values name (map lower_header hs) = values_ci name hs"
  by (induction hs) (simp_all add: field_values_def values_ci_def lower_header_map ascii_names_def)

text \<open>C6. The framing of an accepted request is never ambiguous, the ground of request smuggling. When
  \<open>fill_request\<close> accepts a head, no header line is a folded one; an HTTP/1.1 request has exactly one Host and
  an older one at most one; the body is chunked only when the head has one Transfer-Encoding field whose one
  coding is \<open>chunked\<close> and no Content-Length; and when it is not chunked there is no Transfer-Encoding, and the
  length is zero with no Content-Length and otherwise what the digits of every Content-Length of the head say,
  exactly and within 64 bits.\<close>

theorem request_framing_unambiguous:
  assumes "fill_request req arena_cap = (0, req')" and "ascii_names (rq_headers req)"
  shows "(\<forall>h \<in> set (rq_headers req). fst h \<noteq> None) \<and>
    length (values_ci ''host'' (rq_headers req)) \<le> 1 \<and>
    (rq_minor_version req \<ge> 1 \<longrightarrow> length (values_ci ''host'' (rq_headers req)) = 1) \<and>
    (if rq_chunked req'
     then te_exactly_chunked (values_ci ''transfer-encoding'' (rq_headers req)) \<and>
          values_ci ''content-length'' (rq_headers req) = [] \<and> rq_content_length req' = 0
     else values_ci ''transfer-encoding'' (rq_headers req) = [] \<and>
          (values_ci ''content-length'' (rq_headers req) = [] \<longrightarrow> rq_content_length req' = 0) \<and>
          (\<forall>v \<in> set (values_ci ''content-length'' (rq_headers req)).
             v \<noteq> [] \<and> list_all is_digit v \<and> unat (rq_content_length req') = digits_value v)) \<and>
    rq_headers req' = map (\<lambda>h. (map_option (map lower) (fst h), snd h)) (rq_headers req)"
proof -
  define hs p where "hs = map lower_header (rq_headers req)" and "p = foldl pick_step no_picked hs"
  have ok: "picked_ok hs p" by (simp add: p_def picked_ok_fold)
  note f = fill_request_ok[OF assms(1), folded hs_def, folded p_def]
  have v: "field_values n hs = values_ci n (rq_headers req)" for n
    using field_values_lowered[OF assms(2)] by (simp add: hs_def)
  have n: "length (values_ci ''content-length'' (rq_headers req)) = n_content_length p"
    "length (values_ci ''transfer-encoding'' (rq_headers req)) = n_transfer_enc p"
    "length (values_ci ''host'' (rq_headers req)) = n_host p"
    using ok by (simp_all add: picked_ok_def v)
  have r: "\<forall>h \<in> set hs. fst h \<noteq> None" "\<forall>v \<in> set (values_ci ''content-length'' (rq_headers req)). v = pk_content_length p"
    "\<not> te_other p \<and> te_last_chunked p \<Longrightarrow> te_exactly_chunked (values_ci ''transfer-encoding'' (rq_headers req))"
    using ok f(2) by (auto simp: picked_ok_def v)
  have names: "\<forall>h \<in> set (rq_headers req). fst h \<noteq> None"
    using r(1) by (auto simp: hs_def lower_header_def)
  have host: "length (values_ci ''host'' (rq_headers req)) \<le> 1 \<and>
      (rq_minor_version req \<ge> 1 \<longrightarrow> length (values_ci ''host'' (rq_headers req)) = 1)"
    using f(3) n(3) by (auto split: if_splits)
  have hdrs: "rq_headers req' = map (\<lambda>h. (map_option (map lower) (fst h), snd h)) (rq_headers req)"
    using f(1) assms(2) by (auto simp: hs_def ascii_names_def list_all_iff intro!: lower_header_map)
  have "if rq_chunked req'
     then te_exactly_chunked (values_ci ''transfer-encoding'' (rq_headers req)) \<and>
          values_ci ''content-length'' (rq_headers req) = [] \<and> rq_content_length req' = 0
     else values_ci ''transfer-encoding'' (rq_headers req) = [] \<and>
          (values_ci ''content-length'' (rq_headers req) = [] \<longrightarrow> rq_content_length req' = 0) \<and>
          (\<forall>v \<in> set (values_ci ''content-length'' (rq_headers req)).
             v \<noteq> [] \<and> list_all is_digit v \<and> unat (rq_content_length req') = digits_value v)"
    using f(4) r(2,3) n(1,2) by (auto simp: parse_length_exact split: if_splits)
  then show ?thesis using names host hdrs by blast
qed

definition sample_request :: request where
  "sample_request = \<lparr>rq_method = ''POST'', rq_target = ''/a'', rq_path = [], rq_query = [], rq_minor_version = 1,
     rq_headers = [(Some ''Host'', ''h''), (Some ''Content-Length'', ''12''), (Some ''content-length'', ''12'')],
     rq_params = [], rq_route_params = [], rq_content_length = 0, rq_chunked = False, rq_body = [],
     rq_keep_alive = False, rq_expect_continue = False\<rparr>"

theorem request_framing_unambiguous_witness:
  "\<exists>req'. fill_request sample_request 100 = (0, req') \<and> unat (rq_content_length req') = 12"
proof -
  have p: "pick_headers r = (foldl pick_step no_picked (map lower_header (rq_headers r)), r\<lparr>rq_headers := map lower_header (rq_headers r)\<rparr>)" for r
    by (simp add: pick_headers_def pick_loop_fold)
  have ln: "map lower ''Host'' = ''host''" "map lower ''Content-Length'' = ''content-length''" "map lower ''content-length'' = ''content-length''" by code_simp+
  have h: "map lower_header (rq_headers sample_request) = [(Some ''host'', ''h''), (Some ''content-length'', ''12''), (Some ''content-length'', ''12'')]"
    by (simp only: sample_request_def request.simps list.map) (simp add: lower_header_map ascii_names_def ln del: list.map)
  have k: "foldl pick_step no_picked [(Some ''host'', ''h''), (Some ''content-length'', ''12''), (Some ''content-length'', ''12'')] =
    no_picked\<lparr>n_host := 1, n_content_length := 2, pk_content_length := ''12''\<rparr>"
    by (simp add: pick_step_def pick_one_def no_picked_def)
  have st: "split_target ''/a'' = (''/a'', [])" by code_simp
  have pl: "parse_length ''12'' = Some 12" by (subst parse_length_exact) (simp add: digits_value_def is_digit_def digit_val_def)
  have a: "fst (fill_request sample_request 100) = 0"
    using st pl h k by (simp add: fill_request_def p sample_request_def Let_def) (simp add: no_picked_def)
  obtain req' where r: "fill_request sample_request 100 = (0, req')" using a by (cases "fill_request sample_request 100") simp
  have v: "values_ci ''content-length'' (rq_headers sample_request) = [''12'', ''12'']" "ascii_names (rq_headers sample_request)"
    "values_ci ''transfer-encoding'' (rq_headers sample_request) = []" "digits_value ''12'' = 12"
    by code_simp+
  then have "unat (rq_content_length req') = 12"
    using request_framing_unambiguous[OF r v(2)] by (auto simp: te_exactly_chunked_def split: if_splits)
  then show ?thesis using r by blast
qed

end
