(* ===== verification/Pipe_Writer.thy ===== *)
theory Pipe_Writer
  imports Conn_Io
begin

text \<open>
  The writer of \<^verbatim>\<open>lib/io/pipe.c\<close>: a slab \<open>[lead][cap][slack]\<close> with the pending data in the
  middle, a frame's front growing down into the lead and its back into the slack, sent as one
  span.  A pointer into the slab is the offset it has in \<open>pw_buf\<close>.
\<close>

record pipewriter =
  pw_buf :: bytes
  pw_lead :: nat
  pw_cap :: nat
  pw_slack :: nat
  pw_head :: nat
  pw_len :: nat
  pw_tail :: nat
  pw_failed :: bool

definition ioxd__pipewriter_init :: "bytes \<Rightarrow> nat \<Rightarrow> nat \<Rightarrow> nat \<Rightarrow> pipewriter" where
  "ioxd__pipewriter_init buf lead cap slack =
     \<lparr>pw_buf = buf, pw_lead = lead, pw_cap = cap, pw_slack = slack, pw_head = 0, pw_len = 0, pw_tail = 0,
      pw_failed = False\<rparr>"

definition ioxd__pipewriter_reset :: "pipewriter \<Rightarrow> pipewriter" where
  "ioxd__pipewriter_reset pw = pw\<lparr>pw_head := 0, pw_len := 0, pw_tail := 0\<rparr>"

definition ioxd__pipewriter_at :: "pipewriter \<Rightarrow> nat" where
  "ioxd__pipewriter_at pw = pw_lead pw + pw_len pw"

definition ioxd__pipewriter_room :: "pipewriter \<Rightarrow> nat" where
  "ioxd__pipewriter_room pw = pw_cap pw - pw_len pw"

definition span :: "pipewriter \<Rightarrow> bytes" where
  "span pw = memread (pw_buf pw) (pw_lead pw - pw_head pw) (pw_head pw + pw_len pw + pw_tail pw)"

definition ioxd__pipewriter_flush_with :: "pipewriter \<Rightarrow> io \<Rightarrow> bytes \<Rightarrow> int \<times> pipewriter \<times> io" where
  "ioxd__pipewriter_flush_with pw w data =
     (if pw_failed pw then (- 1, pw, w)
      else
        let total = pw_head pw + pw_len pw + pw_tail pw;
            n = length data;
            (rc, w) =
              (if total \<noteq> 0 \<and> n \<noteq> 0 then ioxd__conn_sendv [span pw, data] w
               else if total \<noteq> 0 then ioxd__conn_send (span pw) w
               else if n \<noteq> 0 then ioxd__conn_send data w
               else (0, w));
            pw = pw\<lparr>pw_head := 0, pw_len := 0, pw_tail := 0\<rparr>
        in if rc < 0 then (- 1, pw\<lparr>pw_failed := True\<rparr>, w) else (0, pw, w))"

definition ioxd__pipewriter_flush :: "pipewriter \<Rightarrow> io \<Rightarrow> int \<times> pipewriter \<times> io" where
  "ioxd__pipewriter_flush pw w = ioxd__pipewriter_flush_with pw w []"

definition ioxd__pipewriter_reserve :: "pipewriter \<Rightarrow> io \<Rightarrow> nat \<Rightarrow> nat option \<times> pipewriter \<times> io" where
  "ioxd__pipewriter_reserve pw w n =
     (if pw_failed pw \<or> n > pw_cap pw then (None, pw, w)
      else
        let (rc, pw, w) = (if pw_len pw + n > pw_cap pw then ioxd__pipewriter_flush pw w else (0, pw, w))
        in if rc < 0 then (None, pw, w) else (Some (ioxd__pipewriter_at pw), pw, w))"

definition ioxd__pipewriter_advance :: "pipewriter \<Rightarrow> nat \<Rightarrow> pipewriter" where
  "ioxd__pipewriter_advance pw n =
     (let room = ioxd__pipewriter_room pw in pw\<lparr>pw_len := pw_len pw + (if n < room then n else room)\<rparr>)"

definition ioxd__pipewriter_front :: "pipewriter \<Rightarrow> nat \<Rightarrow> nat option \<times> pipewriter" where
  "ioxd__pipewriter_front pw n =
     (if n > pw_lead pw - pw_head pw then (None, pw)
      else let pw = pw\<lparr>pw_head := pw_head pw + n\<rparr> in (Some (pw_lead pw - pw_head pw), pw))"

definition ioxd__pipewriter_back :: "pipewriter \<Rightarrow> nat \<Rightarrow> nat option \<times> pipewriter" where
  "ioxd__pipewriter_back pw n =
     (if n > pw_slack pw - pw_tail pw then (None, pw)
      else (Some (pw_lead pw + pw_len pw + pw_tail pw), pw\<lparr>pw_tail := pw_tail pw + n\<rparr>))"

text \<open>What the holder of a pointer into the slab writes there.\<close>

definition poke :: "pipewriter \<Rightarrow> nat \<Rightarrow> bytes \<Rightarrow> pipewriter" where
  "poke pw off data = pw\<lparr>pw_buf := memwrite (pw_buf pw) off data\<rparr>"

definition ioxd__pipewriter_through :: "pipewriter \<Rightarrow> io \<Rightarrow> bytes \<Rightarrow> int \<times> pipewriter \<times> io" where
  "ioxd__pipewriter_through pw w data =
     (if pw_failed pw then (- 1, pw, w)
      else let (rc, w) = ioxd__conn_send data w
           in if rc < 0 then (- 1, pw\<lparr>pw_failed := True\<rparr>, w) else (0, pw, w))"

definition ioxd__pipewriter_write :: "pipewriter \<Rightarrow> io \<Rightarrow> bytes \<Rightarrow> int \<times> pipewriter \<times> io" where
  "ioxd__pipewriter_write pw w data =
     (let n = length data in
      if pw_failed pw then (- 1, pw, w)
      else if n > pw_cap pw then
        let (rc, pw, w) = ioxd__pipewriter_flush pw w
        in if rc < 0 then (- 1, pw, w) else ioxd__pipewriter_through pw w data
      else
        case ioxd__pipewriter_reserve pw w n of
          (None, pw, w) \<Rightarrow> (- 1, pw, w)
        | (Some at, pw, w) \<Rightarrow> (0, (poke pw at data)\<lparr>pw_len := pw_len pw + n\<rparr>, w))"

definition ioxd__pipewriter_send :: "pipewriter \<Rightarrow> io \<Rightarrow> bytes \<Rightarrow> int \<times> pipewriter \<times> io" where
  "ioxd__pipewriter_send pw w data =
     (let (rc, pw, w) = ioxd__pipewriter_write pw w data
      in if rc < 0 then (- 1, pw, w) else ioxd__pipewriter_flush pw w)"


section \<open>The invariant\<close>

definition writer_ok :: "pipewriter \<Rightarrow> bool" where
  "writer_ok pw \<longleftrightarrow>
     length (pw_buf pw) = pw_lead pw + pw_cap pw + pw_slack pw \<and>
     pw_head pw \<le> pw_lead pw \<and> pw_len pw \<le> pw_cap pw \<and> pw_tail pw \<le> pw_slack pw \<and>
     pw_lead pw + pw_cap pw + pw_slack pw < 2 ^ 31"

lemma span_length: "writer_ok pw \<Longrightarrow> length (span pw) = pw_head pw + pw_len pw + pw_tail pw"
  by (auto simp: writer_ok_def span_def)

lemma span_small: "writer_ok pw \<Longrightarrow> length (span pw) < 2 ^ 31"
  using span_length[of pw] by (auto simp: writer_ok_def)

text \<open>The layout of the slab never changes.\<close>

definition same_slab :: "pipewriter \<Rightarrow> pipewriter \<Rightarrow> bool" where
  "same_slab pw pw' \<longleftrightarrow> pw_lead pw' = pw_lead pw \<and> pw_cap pw' = pw_cap pw \<and> pw_slack pw' = pw_slack pw"

text \<open>
  A flush: the wire gets the span and the data behind it; on failure a prefix of them, and the
  writer is marked.  Nothing is pending afterwards.
\<close>

lemma flush_with_ok:
  assumes ok: "writer_ok pw" and nf: "\<not> pw_failed pw" and n: "length data < 2 ^ 31"
    and f: "ioxd__pipewriter_flush_with pw w data = (rc, pw', w')"
  shows "writer_ok pw' \<and> same_slab pw pw' \<and> span pw' = [] \<and> pw_head pw' = 0 \<and> pw_len pw' = 0 \<and> pw_tail pw' = 0 \<and>
    (\<exists>out. sent_to w w' out \<and> prefix out (span pw @ data) \<and>
      (if pw_failed pw' then rc = - 1 else rc = 0 \<and> out = span pw @ data))"
proof -
  let ?total = "pw_head pw + pw_len pw + pw_tail pw"
  define s where "s = (if ?total \<noteq> 0 \<and> length data \<noteq> 0 then ioxd__conn_sendv [span pw, data] w
               else if ?total \<noteq> 0 then ioxd__conn_send (span pw) w
               else if length data \<noteq> 0 then ioxd__conn_send data w
               else (0, w))"
  obtain r v where s: "s = (r, v)" by (metis surj_pair)
  have len: "length (span pw) = ?total" by (rule span_length[OF ok])
  have out: "\<exists>out. sent_to w v out \<and> prefix out (span pw @ data) \<and> (\<not> r < 0 \<longrightarrow> out = span pw @ data)"
  proof -
    consider (both) "?total \<noteq> 0" "length data \<noteq> 0" | (pend) "?total \<noteq> 0" "data = []"
      | (data) "?total = 0" "length data \<noteq> 0" | (none) "?total = 0" "data = []" by fastforce
    then show ?thesis
    proof cases
      case both
      then have "ioxd__conn_sendv [span pw, data] w = (r, v)" using s by (simp add: s_def)
      from conn_sendv_wire[OF this] show ?thesis by auto
    next
      case pend
      then have "ioxd__conn_send (span pw) w = (r, v)" using s by (simp add: s_def)
      from conn_send_wire[OF this span_small[OF ok]] show ?thesis using pend by (auto split: if_splits)
    next
      case data
      then have "ioxd__conn_send data w = (r, v)" "span pw = []" using s len by (auto simp: s_def)
      from conn_send_wire[OF this(1) n] this(2) show ?thesis by (auto split: if_splits)
    next
      case none
      then show ?thesis using s len by (auto simp: s_def)
    qed
  qed
  have e: "(rc, pw', w') = (if r < 0 then (- 1, pw\<lparr>pw_head := 0, pw_len := 0, pw_tail := 0, pw_failed := True\<rparr>, v)
      else (0, pw\<lparr>pw_head := 0, pw_len := 0, pw_tail := 0\<rparr>, v))"
    using f nf s unfolding s_def by (cases "r < 0") (auto simp: ioxd__pipewriter_flush_with_def Let_def)
  then have w: "w' = v" and p: "pw_head pw' = 0" "pw_len pw' = 0" "pw_tail pw' = 0" "pw_failed pw' \<longleftrightarrow> r < 0"
    "pw_buf pw' = pw_buf pw" "same_slab pw pw'" "rc = (if r < 0 then - 1 else 0)"
    using nf by (auto simp: same_slab_def split: if_splits)
  have "writer_ok pw'" using ok p by (auto simp: writer_ok_def same_slab_def)
  then show ?thesis using p w out by (auto simp: span_def)
qed


lemma flush_ok:
  assumes "writer_ok pw" and "\<not> pw_failed pw" and "ioxd__pipewriter_flush pw w = (rc, pw', w')"
  shows "writer_ok pw' \<and> same_slab pw pw' \<and> span pw' = [] \<and> pw_head pw' = 0 \<and> pw_len pw' = 0 \<and> pw_tail pw' = 0 \<and>
    (\<exists>out. sent_to w w' out \<and> prefix out (span pw) \<and> (if pw_failed pw' then rc = - 1 else rc = 0 \<and> out = span pw))"
  using flush_with_ok[OF assms(1,2), of "[]" w rc pw' w'] assms(3)
  by (auto simp: ioxd__pipewriter_flush_def split: if_splits)

text \<open>
  The contract of a call that appends \<open>data\<close> to the reply: what went to the wire followed by
  what is pending is what was pending followed by the data; a failed call sent a prefix of it.
\<close>

definition appends :: "bytes \<Rightarrow> int \<Rightarrow> pipewriter \<Rightarrow> io \<Rightarrow> pipewriter \<Rightarrow> io \<Rightarrow> bool" where
  "appends data rc pw w pw' w' \<longleftrightarrow>
     writer_ok pw' \<and> same_slab pw pw' \<and> pw_tail pw' = 0 \<and>
     (\<exists>out. sent_to w w' out \<and> prefix out (span pw @ data) \<and>
       (if pw_failed pw' then rc < 0 else rc \<ge> 0 \<and> out @ span pw' = span pw @ data))"

lemma reserve_ok:
  assumes ok: "writer_ok pw" and nf: "\<not> pw_failed pw" and t: "pw_tail pw = 0"
    and r: "ioxd__pipewriter_reserve pw w n = (at, pw', w')"
  shows "writer_ok pw' \<and> same_slab pw pw' \<and> pw_tail pw' = 0 \<and>
    (\<exists>out. sent_to w w' out \<and> prefix out (span pw) \<and> (\<not> pw_failed pw' \<longrightarrow> out @ span pw' = span pw)) \<and>
    (n \<le> pw_cap pw \<longrightarrow> (at = None \<longleftrightarrow> pw_failed pw')) \<and>
    (\<forall>a. at = Some a \<longrightarrow> \<not> pw_failed pw' \<and> a = pw_lead pw' + pw_len pw' \<and> pw_len pw' + n \<le> pw_cap pw')"
proof (cases "pw_len pw + n > pw_cap pw \<and> n \<le> pw_cap pw")
  case False
  then have "pw' = pw" "w' = w" "at = (if n > pw_cap pw then None else Some (pw_lead pw + pw_len pw))"
    using r nf by (auto simp: ioxd__pipewriter_reserve_def ioxd__pipewriter_at_def split: if_splits)
  then show ?thesis using ok nf t False by (auto simp: same_slab_def intro: exI[of _ "[]"])
next
  case True
  obtain rc q v where f: "ioxd__pipewriter_flush pw w = (rc, q, v)" by (metis surj_pair)
  note fo = flush_ok[OF ok nf f]
  have e: "pw' = q" "w' = v" "at = (if rc < 0 then None else Some (pw_lead q + pw_len q))"
    using r nf f True by (auto simp: ioxd__pipewriter_reserve_def ioxd__pipewriter_at_def split: if_splits)
  have "pw_cap q = pw_cap pw" "rc < 0 \<longleftrightarrow> pw_failed q" using fo by (auto simp: same_slab_def split: if_splits)
  then show ?thesis using fo e True by (auto split: if_splits)
qed

lemma span_poke:
  assumes "writer_ok pw" and "pw_tail pw = 0" and "pw_len pw + length data \<le> pw_cap pw"
  defines "pw' \<equiv> (poke pw (pw_lead pw + pw_len pw) data)\<lparr>pw_len := pw_len pw + length data\<rparr>"
  shows "writer_ok pw' \<and> span pw' = span pw @ data"
proof -
  have b: "pw_lead pw + pw_len pw + length data \<le> length (pw_buf pw)" "pw_head pw \<le> pw_lead pw"
    using assms(1,3) by (auto simp: writer_ok_def)
  have "span pw' = span pw @ data"
    using assms(2) b memread_write_end[of "pw_lead pw - pw_head pw" "pw_lead pw + pw_len pw" data "pw_buf pw"]
    by (simp add: pw'_def span_def poke_def ac_simps)
  moreover have "writer_ok pw'" using assms(1,3) b by (auto simp: pw'_def writer_ok_def poke_def)
  ultimately show ?thesis by simp
qed

lemma write_ok:
  assumes ok: "writer_ok pw" and nf: "\<not> pw_failed pw" and t: "pw_tail pw = 0" and n: "length data < 2 ^ 31"
    and r: "ioxd__pipewriter_write pw w data = (rc, pw', w')"
  shows "appends data rc pw w pw' w'"
proof (cases "length data > pw_cap pw")
  case False
  obtain at q v where res: "ioxd__pipewriter_reserve pw w (length data) = (at, q, v)" by (metis surj_pair)
  note ro = reserve_ok[OF ok nf t res]
  show ?thesis
  proof (cases at)
    case None
    then have "rc = - 1" "pw' = q" "w' = v" using r nf res False by (auto simp: ioxd__pipewriter_write_def)
    then show ?thesis using ro None False by (auto simp: appends_def intro: prefix_order.trans)
  next
    case (Some a)
    then have a: "a = pw_lead q + pw_len q" "pw_len q + length data \<le> pw_cap q" "\<not> pw_failed q" using ro by auto
    have e: "rc = 0" "pw' = (poke q a data)\<lparr>pw_len := pw_len q + length data\<rparr>" "w' = v"
      using r nf res False Some by (auto simp: ioxd__pipewriter_write_def)
    have sp: "writer_ok pw'" "span pw' = span q @ data" using span_poke[of q data] ro a e by auto
    obtain out where o: "sent_to w v out" "out @ span q = span pw" using ro a(3) by auto
    moreover have "prefix out (span pw @ data)" using o(2) by (metis append.assoc prefixI)
    moreover have "same_slab pw pw'" "pw_tail pw' = 0" "\<not> pw_failed pw'"
      using ro e a(3) by (auto simp: same_slab_def poke_def)
    moreover have "out @ span pw' = span pw @ data" using sp(2) o(2) by (metis append.assoc)
    ultimately show ?thesis using e sp(1) by (auto simp: appends_def)
  qed
next
  case True
  obtain r1 q v where f: "ioxd__pipewriter_flush pw w = (r1, q, v)" by (metis surj_pair)
  note fo = flush_ok[OF ok nf f]
  show ?thesis
  proof (cases "pw_failed q")
    case True
    then have "rc = - 1" "pw' = q" "w' = v"
      using r nf f \<open>length data > pw_cap pw\<close> fo by (auto simp: ioxd__pipewriter_write_def split: if_splits)
    then show ?thesis using fo True by (auto simp: appends_def intro: prefix_order.trans)
  next
    case False
    then have th: "ioxd__pipewriter_through q v data = (rc, pw', w')" and o: "sent_to w v (span pw)"
      using r nf f \<open>length data > pw_cap pw\<close> fo by (auto simp: ioxd__pipewriter_write_def split: if_splits)
    obtain r2 x where c: "ioxd__conn_send data v = (r2, x)" by (metis surj_pair)
    obtain out where o2: "sent_to v x out" "prefix out data" "if r2 < 0 then out \<noteq> data else out = data"
      using conn_send_wire[OF c n] by (auto split: if_splits)
    have "(rc, pw', w') = (if r2 < 0 then (- 1, q\<lparr>pw_failed := True\<rparr>, x) else (0, q, x))"
      using th False c by (simp add: ioxd__pipewriter_through_def split: if_splits)
    then have e: "w' = x" "pw_failed pw' \<longleftrightarrow> r2 < 0" "rc = (if r2 < 0 then - 1 else 0)" "writer_ok pw'" "same_slab pw pw'"
      "pw_tail pw' = 0" "span pw' = []"
      using False fo by (auto simp: writer_ok_def same_slab_def span_def split: if_splits)
    have "sent_to w w' (span pw @ out)" using sent_to_trans[OF o o2(1)] e by simp
    then show ?thesis using e o2 unfolding appends_def by (auto split: if_splits)
  qed
qed


lemma appends_flush:
  assumes a: "appends data rc pw w q v" and nf: "\<not> pw_failed q" and f: "ioxd__pipewriter_flush q v = (r, pw', w')"
  shows "appends data r pw w pw' w'"
proof -
  obtain out where o: "sent_to w v out" "out @ span q = span pw @ data" and q: "writer_ok q" "same_slab pw q"
    using a nf by (auto simp: appends_def)
  note fo = flush_ok[OF q(1) nf f]
  then obtain out2 where o2: "sent_to v w' out2" "prefix out2 (span q)"
    "if pw_failed pw' then r = - 1 else r = 0 \<and> out2 = span q" by blast
  have "sent_to w w' (out @ out2)" by (rule sent_to_trans[OF o(1) o2(1)])
  moreover have "prefix (out @ out2) (span pw @ data)" using o2(2) by (simp add: o(2)[symmetric])
  moreover have "same_slab pw pw'" using fo q(2) by (auto simp: same_slab_def)
  moreover have "if pw_failed pw' then r < 0 else r \<ge> 0 \<and> (out @ out2) @ span pw' = span pw @ data"
    using o2(3) fo o(2) by (auto split: if_splits)
  ultimately show ?thesis using fo unfolding appends_def by blast
qed

text \<open>The writing calls of a raw handler, in any order.\<close>

datatype wop = Write bytes | Flush | Send bytes

fun wop_data :: "wop \<Rightarrow> bytes" where
  "wop_data (Write d) = d"
| "wop_data Flush = []"
| "wop_data (Send d) = d"

fun wop_step :: "wop \<Rightarrow> pipewriter \<times> io \<Rightarrow> int \<times> pipewriter \<times> io" where
  "wop_step (Write d) (pw, w) = ioxd__pipewriter_write pw w d"
| "wop_step Flush (pw, w) = ioxd__pipewriter_flush pw w"
| "wop_step (Send d) (pw, w) = ioxd__pipewriter_send pw w d"

fun wop_run :: "wop list \<Rightarrow> pipewriter \<times> io \<Rightarrow> pipewriter \<times> io" where
  "wop_run [] s = s"
| "wop_run (op # ops) s = wop_run ops (snd (wop_step op s))"

lemma wop_appends:
  assumes ok: "writer_ok pw" and nf: "\<not> pw_failed pw" and t: "pw_tail pw = 0"
    and n: "length (wop_data op) < 2 ^ 31" and s: "wop_step op (pw, w) = (rc, pw', w')"
  shows "appends (wop_data op) rc pw w pw' w'"
proof (cases op)
  case (Write d)
  then show ?thesis using write_ok[OF ok nf t] n s by simp
next
  case Flush
  have "appends [] 0 pw w pw w" using ok nf t by (auto simp: appends_def same_slab_def intro: exI[of _ "[]"])
  then show ?thesis using appends_flush[of "[]" 0 pw w pw w] nf s Flush by simp
next
  case (Send d)
  obtain r q v where x: "ioxd__pipewriter_write pw w d = (r, q, v)" by (metis surj_pair)
  have a: "appends d r pw w q v" using write_ok[OF ok nf t _ x] n Send by simp
  show ?thesis
  proof (cases "r < 0")
    case True
    then have "pw_failed q" using a by (auto simp: appends_def split: if_splits)
    then show ?thesis using a True s Send x by (auto simp: ioxd__pipewriter_send_def appends_def)
  next
    case False
    then have "\<not> pw_failed q" using a by (auto simp: appends_def split: if_splits)
    then show ?thesis using appends_flush[OF a] s Send x False by (simp add: ioxd__pipewriter_send_def)
  qed
qed

lemma failed_sticky:
  "pw_failed pw \<Longrightarrow> wop_step op (pw, w) = (- 1, pw, w)"
  by (cases op) (simp_all add: ioxd__pipewriter_write_def ioxd__pipewriter_flush_def ioxd__pipewriter_flush_with_def
      ioxd__pipewriter_send_def)

lemma wop_run_failed: "pw_failed pw \<Longrightarrow> wop_run ops (pw, w) = (pw, w)"
  by (induction ops) (simp_all add: failed_sticky)

lemma wop_run_appends:
  assumes "writer_ok pw" and "\<not> pw_failed pw" and "pw_tail pw = 0" and "\<forall>op \<in> set ops. length (wop_data op) < 2 ^ 31"
    and "wop_run ops (pw, w) = (pw', w')"
  shows "\<exists>out. io_wire w' = io_wire w @ out \<and> prefix out (span pw @ concat (map wop_data ops)) \<and>
    (\<not> pw_failed pw' \<longrightarrow> out @ span pw' = span pw @ concat (map wop_data ops))"
  using assms
proof (induction ops arbitrary: pw w)
  case Nil
  then show ?case by auto
next
  case (Cons op ops)
  obtain rc q v where s: "wop_step op (pw, w) = (rc, q, v)" by (metis surj_pair)
  have a: "appends (wop_data op) rc pw w q v" using wop_appends[OF Cons.prems(1-3) _ s] Cons.prems(4) by simp
  obtain o1 where st: "sent_to w v o1" and o12: "prefix o1 (span pw @ wop_data op)"
    "\<not> pw_failed q \<longrightarrow> o1 @ span q = span pw @ wop_data op"
    using a unfolding appends_def by (metis (full_types))
  note o1 = sent_to_fields(1)[OF st] o12
  have q: "writer_ok q" "pw_tail q = 0" using a by (simp_all add: appends_def)
  have r: "wop_run ops (q, v) = (pw', w')" using Cons.prems(5) s by simp
  show ?case
  proof (cases "pw_failed q")
    case True
    then have "pw' = q" "w' = v" using r wop_run_failed by auto
    then show ?thesis using o1(1,2) True by (intro exI[of _ o1]) (auto intro: prefix_order.trans)
  next
    case False
    then obtain o2 where o2: "io_wire w' = io_wire v @ o2" "prefix o2 (span q @ concat (map wop_data ops))"
      "\<not> pw_failed pw' \<longrightarrow> o2 @ span pw' = span q @ concat (map wop_data ops)"
      using Cons.IH[OF q(1) False q(2) _ r] Cons.prems(4) by auto
    have "span pw @ wop_data op = o1 @ span q" using o1(3) False by simp
    then have "(span pw @ wop_data op) @ concat (map wop_data ops) = (o1 @ span q) @ concat (map wop_data ops)" by simp
    then have eq: "span pw @ concat (map wop_data (op # ops)) = o1 @ span q @ concat (map wop_data ops)" by simp
    show ?thesis unfolding eq using o2 o1(1) by (intro exI[of _ "o1 @ o2"]) simp
  qed
qed

section \<open>A peer that takes what it is sent\<close>

lemma send_loop_live: "\<forall>k. 0 < io_lim w k \<Longrightarrow> fst (send_loop src w) = None"
proof (induction src w rule: send_loop.induct)
  case (1 src w)
  show ?case
  proof (cases "length src > 0")
    case True
    obtain n v where a: "await_send (take UINT32_MAX src) w = (n, v)" by fastforce
    have p: "0 < io_lim w (io_sends w)" using 1(2) by blast
    have n: "n > 0" "\<forall>k. 0 < io_lim v k"
      using a 1(2) True p by (auto simp: await_send_def Let_def min_def)
    then show ?thesis using 1(1)[OF True a[symmetric] refl] a True
      by (subst send_loop.simps) (simp add: Let_def)
  next
    case False
    then show ?thesis by (subst send_loop.simps) simp
  qed
qed

lemma conn_send_live:
  assumes "\<forall>k. 0 < io_lim w k" and "length data < 2 ^ 31" and "ioxd__conn_send data w = (r, w')"
  shows "\<not> r < 0"
  using assms send_loop_live[OF assms(1), of data] int_of_size_small[of "length data"]
  by (auto simp: ioxd__conn_send_def split: prod.splits option.splits)

lemma through_live:
  assumes "\<forall>k. 0 < io_lim w k" and "length data < 2 ^ 31" and "\<not> pw_failed pw"
  shows "fst (ioxd__pipewriter_through pw w data) = 0"
  using assms(3) conn_send_live[OF assms(1,2)] by (auto simp: ioxd__pipewriter_through_def Let_def split: prod.splits)

lemma flush_live:
  assumes "\<forall>k. 0 < io_lim w k" and "writer_ok pw" and "\<not> pw_failed pw"
  shows "fst (ioxd__pipewriter_flush pw w) = 0"
  using assms(3) conn_send_live[OF assms(1) span_small[OF assms(2)]]
  by (auto simp: ioxd__pipewriter_flush_def ioxd__pipewriter_flush_with_def Let_def split: prod.splits if_splits)

lemma write_live:
  assumes live: "\<forall>k. 0 < io_lim w k" and ok: "writer_ok pw" "\<not> pw_failed pw" "pw_tail pw = 0" and n: "length data < 2 ^ 31"
  shows "fst (ioxd__pipewriter_write pw w data) = 0"
proof -
  obtain rc q v where f: "ioxd__pipewriter_flush pw w = (rc, q, v)" by (metis surj_pair)
  have rc: "rc = 0" using flush_live[OF live ok(1,2)] f by simp
  obtain out where o: "sent_to w v out" "\<not> pw_failed q" using flush_ok[OF ok(1,2) f] rc by (auto split: if_splits)
  have "\<forall>k. 0 < io_lim v k" using live sent_to_fields(8)[OF o(1)] by simp
  from through_live[OF this n o(2)] show ?thesis
    using rc f ok(2) by (auto simp: ioxd__pipewriter_write_def ioxd__pipewriter_reserve_def Let_def)
qed

lemma wop_live:
  assumes live: "\<forall>k. 0 < io_lim w k" and ok: "writer_ok pw" "\<not> pw_failed pw" "pw_tail pw = 0" and n: "length (wop_data op) < 2 ^ 31"
    and s: "wop_step op (pw, w) = (rc, q, v)"
  shows "\<not> pw_failed q \<and> (\<forall>k. 0 < io_lim v k)"
proof -
  obtain r q1 v1 where x: "ioxd__pipewriter_write pw w (wop_data op) = (r, q1, v1)" by (metis surj_pair)
  have r: "r = 0" using write_live[OF live ok n] x by simp
  obtain out where a: "writer_ok q1" "sent_to w v1 out" "\<not> pw_failed q1" using write_ok[OF ok n x] r by (auto simp: appends_def split: if_splits)
  have "\<forall>k. 0 < io_lim v1 k" using live sent_to_fields(8)[OF a(2)] by simp
  note fl = flush_live[OF this a(1,3)] flush_live[OF live ok(1,2)]
  have "rc = 0" using s x r fl by (cases op) (auto simp: ioxd__pipewriter_send_def)
  moreover obtain out where "sent_to w v out" "if pw_failed q then rc < 0 else rc \<ge> 0" using wop_appends[OF ok n s] by (auto simp: appends_def split: if_splits)
  ultimately show ?thesis using live sent_to_fields(8) by (metis less_irrefl)
qed

lemma wop_run_live:
  assumes "\<forall>k. 0 < io_lim w k" and "writer_ok pw" "\<not> pw_failed pw" "pw_tail pw = 0" and "\<forall>op \<in> set ops. length (wop_data op) < 2 ^ 31"
  shows "\<not> pw_failed (fst (wop_run ops (pw, w)))"
  using assms
proof (induction ops arbitrary: pw w)
  case (Cons op ops)
  obtain rc q v where s: "wop_step op (pw, w) = (rc, q, v)" by (metis surj_pair)
  have n: "length (wop_data op) < 2 ^ 31" using Cons.prems(5) by simp
  have "writer_ok q" "pw_tail q = 0" using wop_appends[OF Cons.prems(2-4) n s] by (simp_all add: appends_def)
  then show ?case using Cons.IH[of v q] wop_live[OF Cons.prems(1-4) n s] s Cons.prems(5) by simp
qed simp

lemma wop_run_append: "wop_run (a @ b) s = wop_run b (wop_run a s)"
  by (induction a arbitrary: s) simp_all


definition slow_io :: io where
  "slow_io = \<lparr>io_rx = [], io_ready = 0, io_end = 0, io_next = 0, io_slab = (\<lambda>_. []), io_returned = [],
     io_wire = [], io_lim = (\<lambda>_. 3), io_sends = 0\<rparr>"

lemma slow_run:
  "wop_run [Write ''abcd'', Send ''ef''] (ioxd__pipewriter_init (replicate 8 NUL) 1 5 2, slow_io) = (p, v) \<Longrightarrow>
     \<not> pw_failed p \<and> span p = []"
  by (auto simp: ioxd__pipewriter_init_def ioxd__pipewriter_send_def ioxd__pipewriter_write_def
      ioxd__pipewriter_reserve_def ioxd__pipewriter_at_def ioxd__pipewriter_flush_def ioxd__pipewriter_flush_with_def
      poke_def span_def memread_def memwrite_def slow_io_def ioxd__conn_send_def send_loop.simps await_send_def
      int_of_size_small Let_def)


text \<open>
  The size is returned as an \<open>int\<close>: a send of two gibibytes that put every byte on the wire
  reports a negative number, which the callers take for a dead peer.
\<close>

lemma send_two_gib_reports_failure:
  assumes "length data = 2 ^ 31" and "send_loop data w = (None, w')"
  shows "fst (ioxd__conn_send data w) < 0"
proof -
  have "int_of_size (2 ^ 31) < 0" by (simp add: int_of_size_def)
  then show ?thesis using assms by (simp add: ioxd__conn_send_def)
qed

end
