(* ===== verification/Response.thy ===== *)
theory Response
  imports Request_Head Pipe_Writer "HOL-Library.Monad_Syntax"
begin

text \<open>
  The response as it is shaped (the second half of \<^verbatim>\<open>lib/http/api.c\<close>) and its head as it is
  serialized (\<^verbatim>\<open>lib/http/engine.c\<close>, from \<open>put_uint\<close> to \<open>build_head\<close>), with the lookups a
  handler makes on the request.

  The arena \<open>rs_head\<close> holds the added header lines from its start and a copied content type at its
  end; a slice of the response is a reference into the arena or, for a content type that was
  assigned, the bytes it points to.  A C string argument is the bytes before its terminator,
  \<open>None\<close> for a null pointer.  \<open>strtod_l\<close> is a parameter: \<open>None\<close> when the C locale could not be
  made, else the function from the text to the value, the number of bytes it read and whether it
  overflowed.
\<close>

abbreviation IOXD_MAX_RESP_HEADERS :: nat where "IOXD_MAX_RESP_HEADERS \<equiv> 16"
abbreviation IOXD_RESP_HEAD_CAP :: nat where "IOXD_RESP_HEAD_CAP \<equiv> 3072"
abbreviation IOXD_HEAD_CAP :: nat where "IOXD_HEAD_CAP \<equiv> 4096"

datatype slice_ref = Outside bytes | In_head nat nat

record response =
  rs_status :: int
  rs_content_type :: slice_ref
  rs_headers :: "(slice_ref \<times> slice_ref) list"
  rs_close :: bool
  rs_head_sent :: bool
  rs_content_length :: u64
  rs_has_length :: bool
  rs_chunked :: bool
  rs_failed :: bool
  rs_body_sent :: u64
  rs_head_len :: nat
  rs_head :: bytes

fun deref :: "response \<Rightarrow> slice_ref \<Rightarrow> bytes" where
  "deref res (Outside s) = s"
| "deref res (In_head a n) = memread (rs_head res) a n"


section \<open>Lookups on the request\<close>

definition ioxd_req_header :: "request \<Rightarrow> bytes \<Rightarrow> bytes option" where
  "ioxd_req_header req name = kv_lookup (map (\<lambda>(n, v). (case n of None \<Rightarrow> [] | Some n \<Rightarrow> n, v)) (rq_headers req)) name"

definition ioxd_req_param :: "request \<Rightarrow> bytes \<Rightarrow> bytes option" where
  "ioxd_req_param req key = kv_lookup (rq_params req) key"

definition double_char :: "bytes \<Rightarrow> nat \<Rightarrow> bool" where
  "double_char s i =
     (let ch = s ! i;
          after_e = (i > 0 \<and> (s ! (i - 1) = CHR ''e'' \<or> s ! (i - 1) = CHR ''E''));
          sign = (ch = CHR ''-'' \<and> i = 0 \<or> (ch = CHR ''-'' \<or> ch = CHR ''+'') \<and> after_e)
      in \<not> (\<not> (byte_val ch \<ge> 48 \<and> byte_val ch \<le> 57) \<and> ch \<noteq> CHR ''.'' \<and> ch \<noteq> CHR ''e'' \<and> ch \<noteq> CHR ''E'' \<and> \<not> sign))"

definition ioxd_to_double :: "(bytes \<Rightarrow> 'd \<times> nat \<times> bool) option \<Rightarrow> bytes \<Rightarrow> 'd option" where
  "ioxd_to_double strtod_l s =
     (if length s = 0 \<or> length s \<ge> 128 then None
      else if \<not> list_all (double_char s) [0..<length s] then None
      else case strtod_l of
        None \<Rightarrow> None
      | Some strtod \<Rightarrow>
          let (v, used, huge) = strtod s in if used \<noteq> length s \<or> huge then None else Some v)"

function qvalue :: "(bytes \<Rightarrow> 'd \<times> nat \<times> bool) option \<Rightarrow> bytes \<Rightarrow> 'd::{zero,one}" where
  "qvalue strtod_l params =
     (case ioxd_slice_next params (CHR '';'') of
        None \<Rightarrow> 1
      | Some (param, params) \<Rightarrow>
          let (found, key, val) = ioxd_slice_cut param (CHR ''='') in
          if found \<and> ioxd_slice_eq_ci (ioxd_slice_trim key) ''q'' then
            (case ioxd_to_double strtod_l (ioxd_slice_trim val) of Some q \<Rightarrow> q | None \<Rightarrow> 0)
          else qvalue strtod_l params)"
  by pat_completeness auto
termination
  by (relation "measure (\<lambda>(_, params). length params)") (auto dest: slice_next_shorter)

declare qvalue.simps [simp del]

function accepts_loop :: "(bytes \<Rightarrow> 'd \<times> nat \<times> bool) option \<Rightarrow> bytes \<Rightarrow> bytes \<Rightarrow> 'd \<Rightarrow> 'd::{zero,one}" where
  "accepts_loop strtod_l accept coding any =
     (case ioxd_slice_next accept (CHR '','') of
        None \<Rightarrow> any
      | Some (item, accept) \<Rightarrow>
          let (_, name, params) = ioxd_slice_cut item (CHR '';''); name = ioxd_slice_trim name in
          if ioxd_slice_eq_ci name coding then qvalue strtod_l params
          else accepts_loop strtod_l accept coding (if ioxd_slice_eq name ''*'' then qvalue strtod_l params else any))"
  by pat_completeness auto
termination
  by (relation "measure (\<lambda>(_, accept, _). length accept)") (auto dest: slice_next_shorter)

declare accepts_loop.simps [simp del]

definition ioxd_accepts_encoding :: "(bytes \<Rightarrow> 'd \<times> nat \<times> bool) option \<Rightarrow> request \<Rightarrow> bytes \<Rightarrow> 'd::{zero,one}" where
  "ioxd_accepts_encoding strtod_l req coding =
     accepts_loop strtod_l (case ioxd_req_header req ''accept-encoding'' of None \<Rightarrow> [] | Some v \<Rightarrow> v) coding 0"


section \<open>Shaping the response\<close>

definition is_tchar :: "byte \<Rightarrow> bool" where
  "is_tchar c \<longleftrightarrow>
     48 \<le> byte_val c \<and> byte_val c \<le> 57 \<or> 97 \<le> byte_val c \<and> byte_val c \<le> 122 \<or> 65 \<le> byte_val c \<and> byte_val c \<le> 90
     \<or> c \<noteq> NUL \<and> c \<in> set (''!#$%&'' @ [CHR 0x27] @ ''*+-.^_'' @ [CHR 0x60] @ ''|~'')"

definition value_char :: "byte \<Rightarrow> bool" where
  "value_char c \<longleftrightarrow> \<not> (byte_val c < 32 \<and> c \<noteq> TAB \<or> byte_val c = 127)"

definition valid_field_value :: "bytes \<Rightarrow> bool" where
  "valid_field_value v = list_all value_char v"

text \<open>A difference of two \<open>size_t\<close>.\<close>

definition size_minus :: "nat \<Rightarrow> nat \<Rightarrow> nat" where
  "size_minus a b = (if b \<le> a then a - b else a + 2 ^ 64 - b)"

definition content_type_reserved :: "response \<Rightarrow> nat" where
  "content_type_reserved res =
     (case rs_content_type res of
        Outside _ \<Rightarrow> 0
      | In_head a n \<Rightarrow> if a < IOXD_RESP_HEAD_CAP then n else 0)"

definition head_room :: "response \<Rightarrow> nat \<Rightarrow> nat option \<times> response" where
  "head_room res n =
     (if n > size_minus (size_minus IOXD_RESP_HEAD_CAP (content_type_reserved res)) (rs_head_len res) then (None, res)
      else (Some (rs_head_len res), res\<lparr>rs_head_len := rs_head_len res + n\<rparr>))"

definition put_bytes :: "bytes \<Rightarrow> nat \<times> bytes \<Rightarrow> nat \<times> bytes" where
  "put_bytes src = (\<lambda>(at, buf). (at + length src, memwrite buf at src))"

definition strncasecmp_eq :: "bytes \<Rightarrow> bytes \<Rightarrow> nat \<Rightarrow> bool" where
  "strncasecmp_eq a b n \<longleftrightarrow> map lower (take n a) = map lower (take n b)"

definition ioxd_content_type :: "response \<Rightarrow> bytes option \<Rightarrow> bool \<times> response" where
  "ioxd_content_type res type =
     (case type of
        None \<Rightarrow> (False, res)
      | Some type \<Rightarrow>
          if rs_head_sent res then (False, res)
          else let n = length type in
          if \<not> valid_field_value type then (False, res)
          else if n > size_minus IOXD_RESP_HEAD_CAP (rs_head_len res) then (False, res)
          else let copy = IOXD_RESP_HEAD_CAP - n;
                   (_, head) = put_bytes type (copy, rs_head res)
               in (True, res\<lparr>rs_head := head, rs_content_type := In_head copy n\<rparr>))"

definition ioxd_header :: "response \<Rightarrow> bytes option \<Rightarrow> bytes option \<Rightarrow> bool \<times> response" where
  "ioxd_header res name val =
     (case (name, val) of
        (Some name, Some val) \<Rightarrow>
          let name_len = length name; value_len = length val in
          if rs_head_sent res \<or> length (rs_headers res) = IOXD_MAX_RESP_HEADERS \<or> name_len = 0 then (False, res)
          else if \<not> list_all is_tchar name then (False, res)
          else if \<not> valid_field_value val then (False, res)
          else if name_len = 12 \<and> strncasecmp_eq name ''content-type'' 12 then ioxd_content_type res (Some val)
          else if name_len = 14 \<and> strncasecmp_eq name ''content-length'' 14
               \<or> name_len = 17 \<and> strncasecmp_eq name ''transfer-encoding'' 17
               \<or> name_len = 10 \<and> strncasecmp_eq name ''connection'' 10 then (False, res)
          else (case head_room res (name_len + 2 + value_len + 2) of
                  (None, res) \<Rightarrow> (False, res)
                | (Some line, res) \<Rightarrow>
                    let (at, head) = put_bytes (map lower name) (line, rs_head res);
                        (at, head) = put_bytes '': '' (at, head);
                        (at, head) = put_bytes val (at, head);
                        (at, head) = put_bytes CRLF (at, head)
                    in (True, res\<lparr>rs_head := head,
                          rs_headers := rs_headers res @ [(In_head line name_len, In_head (line + name_len + 2) value_len)]\<rparr>))
      | _ \<Rightarrow> (False, res))"

definition ioxd_content_length :: "response \<Rightarrow> u64 \<Rightarrow> bool \<times> response" where
  "ioxd_content_length res n =
     (if rs_head_sent res then (False, res)
      else (True, res\<lparr>rs_content_length := n, rs_has_length := True\<rparr>))"

definition ioxd_reason :: "int \<Rightarrow> bytes" where
  "ioxd_reason status =
     (if status = 200 then ''OK'' else if status = 201 then ''Created'' else if status = 204 then ''No Content''
      else if status = 301 then ''Moved Permanently'' else if status = 302 then ''Found'' else if status = 304 then ''Not Modified''
      else if status = 400 then ''Bad Request'' else if status = 401 then ''Unauthorized'' else if status = 403 then ''Forbidden''
      else if status = 404 then ''Not Found'' else if status = 405 then ''Method Not Allowed'' else if status = 409 then ''Conflict''
      else if status = 411 then ''Length Required'' else if status = 413 then ''Payload Too Large''
      else if status = 431 then ''Request Header Fields Too Large'' else if status = 500 then ''Internal Server Error''
      else if status = 501 then ''Not Implemented'' else if status = 503 then ''Service Unavailable'' else ''Unknown'')"

text \<open>
  \<open>init_response\<close> leaves the arena as the memory happens to be; the headers array is only read up
  to its count.
\<close>

definition init_response :: "response \<Rightarrow> pipewriter \<Rightarrow> response \<times> pipewriter" where
  "init_response res pw =
     (res\<lparr>rs_status := 200, rs_content_type := Outside ''text/plain'', rs_headers := [], rs_close := False,
          rs_head_sent := False, rs_content_length := 0, rs_has_length := False, rs_chunked := False,
          rs_failed := False, rs_body_sent := 0, rs_head_len := 0\<rparr>,
      ioxd__pipewriter_reset pw)"


section \<open>The head on the wire\<close>

text \<open>The digit loops: \<open>tmp\<close> as it is filled, least digit first; then copied reversed.\<close>

function put_uint_tmp :: "nat \<Rightarrow> bytes" where
  "put_uint_tmp v = char_of (48 + v mod 10) # (if v div 10 \<noteq> 0 then put_uint_tmp (v div 10) else [])"
  by pat_completeness auto
termination by (relation "measure id") auto

declare put_uint_tmp.simps [simp del]

definition put_uint :: "nat \<Rightarrow> bytes" where
  "put_uint v = rev (put_uint_tmp v)"

function put_hex_tmp :: "nat \<Rightarrow> bytes" where
  "put_hex_tmp v = ''0123456789abcdef'' ! (v AND 15) # (if drop_bit 4 v \<noteq> 0 then put_hex_tmp (drop_bit 4 v) else [])"
  by pat_completeness auto
termination by (relation "measure id") (auto simp: drop_bit_eq_div)

declare put_hex_tmp.simps [simp del]

definition put_hex :: "nat \<Rightarrow> bytes" where
  "put_hex v = rev (put_hex_tmp v)"

definition status_line :: "int \<Rightarrow> bytes option" where
  "status_line code =
     (if code = 200 then Some (''HTTP/1.1 200 OK'' @ CRLF)
      else if code = 204 then Some (''HTTP/1.1 204 No Content'' @ CRLF)
      else if code = 400 then Some (''HTTP/1.1 400 Bad Request'' @ CRLF)
      else if code = 404 then Some (''HTTP/1.1 404 Not Found'' @ CRLF)
      else if code = 405 then Some (''HTTP/1.1 405 Method Not Allowed'' @ CRLF)
      else if code = 500 then Some (''HTTP/1.1 500 Internal Server Error'' @ CRLF)
      else None)"

definition printf_d :: "int \<Rightarrow> bytes" where
  "printf_d i = (if i < 0 then CHR ''-'' # put_uint (nat (- i)) else put_uint (nat i))"

definition status_text :: "int \<Rightarrow> bytes" where
  "status_text code =
     ''HTTP/1.1 '' @ printf_d code @ '' '' @ ioxd_reason code @ CRLF @ ''content-length: 0'' @ CRLF @
     ''connection: close'' @ CRLF @ CRLF"

definition send_status :: "pipewriter \<Rightarrow> io \<Rightarrow> int \<Rightarrow> pipewriter \<times> io" where
  "send_status pw w code =
     (let full = status_text code;
          len = (if length full \<ge> 128 then 127 else length full);
          (_, pw, w) = ioxd__pipewriter_send (ioxd__pipewriter_reset pw) w (take len full)
      in (pw, w))"

datatype framing = FRAME_LENGTH | FRAME_CHUNKED | FRAME_UNTIL_CLOSE | FRAME_NONE

definition wire_status :: "int \<Rightarrow> int" where
  "wire_status status = (if status \<ge> 100 \<and> status \<le> 999 then status else 500)"

text \<open>The macros \<open>NEED\<close> and \<open>PUT\<close>: what was put so far, \<open>None\<close> once something did not fit.\<close>

definition NEED :: "nat \<Rightarrow> nat \<Rightarrow> bytes \<Rightarrow> bytes option" where
  "NEED cap n p = (if cap - length p < n then None else Some p)"

definition PUT :: "nat \<Rightarrow> bytes \<Rightarrow> bytes \<Rightarrow> bytes option" where
  "PUT cap src p = do { p \<leftarrow> NEED cap (length src) p; Some (p @ src) }"

definition put_status :: "nat \<Rightarrow> int \<Rightarrow> bytes option" where
  "put_status cap status =
     (case status_line status of
        Some line \<Rightarrow> PUT cap line []
      | None \<Rightarrow> do {
          p \<leftarrow> PUT cap ''HTTP/1.1 '' [];
          p \<leftarrow> NEED cap 3 p;
          p \<leftarrow> PUT cap '' '' (p @ put_uint (nat status));
          p \<leftarrow> PUT cap (ioxd_reason status) p;
          PUT cap CRLF p })"

definition put_framing :: "nat \<Rightarrow> framing \<Rightarrow> nat \<Rightarrow> bytes \<Rightarrow> bytes option" where
  "put_framing cap framing body_len p =
     (case framing of
        FRAME_LENGTH \<Rightarrow> do {
          p \<leftarrow> PUT cap ''content-length: '' p;
          p \<leftarrow> NEED cap 20 p;
          PUT cap CRLF (p @ put_uint body_len) }
      | FRAME_CHUNKED \<Rightarrow> PUT cap (''transfer-encoding: chunked'' @ CRLF) p
      | _ \<Rightarrow> Some p)"

definition put_connection :: "nat \<Rightarrow> request \<Rightarrow> response \<Rightarrow> bytes \<Rightarrow> bytes option" where
  "put_connection cap req res p =
     (let keep = (rq_keep_alive req \<and> \<not> rs_close res) in
      if \<not> keep then PUT cap (''connection: close'' @ CRLF) p
      else if rq_minor_version req = 0 then PUT cap (''connection: keep-alive'' @ CRLF) p
      else Some p)"

definition build_head :: "request \<Rightarrow> response \<Rightarrow> nat \<Rightarrow> framing \<Rightarrow> nat \<Rightarrow> bytes option" where
  "build_head req res cap framing body_len =
     do {
        p \<leftarrow> put_status cap (wire_status (rs_status res));
        p \<leftarrow> PUT cap ''content-type: '' p;
        p \<leftarrow> PUT cap (deref res (rs_content_type res)) p;
        p \<leftarrow> PUT cap CRLF p;
        p \<leftarrow> put_framing cap framing body_len p;
        p \<leftarrow> put_connection cap req res p;
        p \<leftarrow> PUT cap (memread (rs_head res) 0 (rs_head_len res)) p;
        PUT cap CRLF p }"

definition put_terminator :: bytes where
  "put_terminator = [CHR ''0'', CR, LF, CR, LF]"


section \<open>Numbers on the wire\<close>

lemma put_uint_rec: "put_uint v = (if v div 10 \<noteq> 0 then put_uint (v div 10) else []) @ [char_of (48 + v mod 10)]"
  by (simp add: put_uint_def put_uint_tmp.simps[of v])

lemma put_uint_digits: "list_all is_digit (put_uint v) \<and> digits_value (put_uint v) = v \<and> put_uint v \<noteq> []"
proof (induction v rule: less_induct)
  case (less v)
  have c: "is_digit (char_of (48 + v mod 10))" "digit_val (char_of (48 + v mod 10)) = v mod 10"
    by (simp_all add: is_digit_def digit_val_def)
  show ?case
  proof (cases "v div 10 = 0")
    case True
    then have "put_uint v = [char_of (48 + v mod 10)]" by (subst put_uint_rec) simp
    moreover have "v mod 10 = v" using True by (simp add: div_eq_0_iff)
    ultimately show ?thesis using c digits_value_snoc[of "[]"] by simp
  next
    case False
    then have "put_uint v = put_uint (v div 10) @ [char_of (48 + v mod 10)]" by (subst put_uint_rec) simp
    moreover have "v div 10 < v" using False by simp
    ultimately show ?thesis using less.IH[of "v div 10"] c by simp
  qed
qed

lemma put_uint_length: "v < 10 ^ Suc k \<Longrightarrow> length (put_uint v) \<le> Suc k"
proof (induction k arbitrary: v)
  case 0
  then show ?case by (subst put_uint_rec) simp
next
  case (Suc k)
  have "v div 10 < 10 ^ Suc k" using Suc.prems by (simp add: div_less_iff_less_mult mult.commute)
  then show ?case using Suc.IH[of "v div 10"] by (subst put_uint_rec) simp
qed

lemma put_uint_status: "100 \<le> v \<Longrightarrow> v \<le> 999 \<Longrightarrow> length (put_uint v) = 3"
proof -
  assume v: "100 \<le> v" "v \<le> 999"
  then have d: "v div 10 \<noteq> 0" "v div 10 div 10 \<noteq> 0" "v div 10 div 10 div 10 = 0" by (simp_all add: div_mult2_eq[symmetric])
  show ?thesis by (subst put_uint_rec, subst put_uint_rec, subst put_uint_rec) (use d in simp)
qed

lemma put_uint_clean: "c \<in> set (put_uint v) \<Longrightarrow> is_digit c"
  using put_uint_digits[of v] by (simp add: list_all_iff)

text \<open>The value a string of hexadecimal digits denotes, with the digit reader of the engine.\<close>

definition hex_value :: "bytes \<Rightarrow> nat" where
  "hex_value ds = foldl (\<lambda>v c. v * 16 + nat (ioxd__http_hexval c)) 0 ds"

lemma hex_digit: "d < 16 \<Longrightarrow> ioxd__http_hexval (''0123456789abcdef'' ! d) = int d"
proof -
  assume "d < 16"
  then have "d \<in> set [0..<16]" by simp
  moreover have "\<forall>d \<in> set [0..<16]. ioxd__http_hexval (''0123456789abcdef'' ! d) = int d" by code_simp
  ultimately show ?thesis by blast
qed

lemma put_hex_rec:
  "put_hex v = (if v div 16 \<noteq> 0 then put_hex (v div 16) else []) @ [''0123456789abcdef'' ! (v mod 16)]"
proof -
  have "v AND 15 = v mod 16" using take_bit_eq_mod[of 4 v] by (simp add: take_bit_eq_mask mask_eq_exp_minus_1)
  then show ?thesis by (simp add: put_hex_def put_hex_tmp.simps[of v] drop_bit_eq_div)
qed

lemma put_hex_digits:
  "list_all (\<lambda>c. ioxd__http_hexval c \<ge> 0) (put_hex v) \<and> hex_value (put_hex v) = v \<and> put_hex v \<noteq> []"
proof (induction v rule: less_induct)
  case (less v)
  have c: "ioxd__http_hexval (''0123456789abcdef'' ! (v mod 16)) = int (v mod 16)" by (rule hex_digit) simp
  show ?case
  proof (cases "v div 16 = 0")
    case True
    then have "put_hex v = [''0123456789abcdef'' ! (v mod 16)]" by (subst put_hex_rec) simp
    moreover have "v mod 16 = v" using True by (simp add: div_eq_0_iff)
    ultimately show ?thesis using c by (simp add: hex_value_def)
  next
    case False
    then have "put_hex v = put_hex (v div 16) @ [''0123456789abcdef'' ! (v mod 16)]" by (subst put_hex_rec) simp
    moreover have "v div 16 < v" using False by simp
    ultimately show ?thesis using less.IH[of "v div 16"] c by (simp add: hex_value_def)
  qed
qed

lemma put_hex_length: "v < 16 ^ Suc k \<Longrightarrow> length (put_hex v) \<le> Suc k"
proof (induction k arbitrary: v)
  case 0
  then show ?case by (subst put_hex_rec) simp
next
  case (Suc k)
  have "v div 16 < 16 ^ Suc k" using Suc.prems by (simp add: div_less_iff_less_mult mult.commute)
  then show ?case using Suc.IH[of "v div 16"] by (subst put_hex_rec) simp
qed


section \<open>The head as lines\<close>

lemma PUT_Some [simp]: "PUT cap src p = Some q \<longleftrightarrow> q = p @ src \<and> (src = [] \<or> length p + length src \<le> cap)"
  by (cases src) (auto simp: PUT_def NEED_def)

lemma PUT_fits [simp]: "length p + length src \<le> cap \<Longrightarrow> PUT cap src p = Some (p @ src)"
  by simp

definition framing_lines :: "framing \<Rightarrow> nat \<Rightarrow> bytes list" where
  "framing_lines framing n =
     (case framing of FRAME_LENGTH \<Rightarrow> [''content-length: '' @ put_uint n]
      | FRAME_CHUNKED \<Rightarrow> [''transfer-encoding: chunked''] | _ \<Rightarrow> [])"

definition connection_lines :: "request \<Rightarrow> response \<Rightarrow> bytes list" where
  "connection_lines req res =
     (if \<not> (rq_keep_alive req \<and> \<not> rs_close res) then [''connection: close'']
      else if rq_minor_version req = 0 then [''connection: keep-alive''] else [])"

definition first_line :: "int \<Rightarrow> bytes" where
  "first_line status = ''HTTP/1.1 '' @ put_uint (nat (wire_status status)) @ '' '' @ ioxd_reason (wire_status status)"

definition engine_lines :: "request \<Rightarrow> response \<Rightarrow> framing \<Rightarrow> nat \<Rightarrow> bytes list" where
  "engine_lines req res framing n =
     [first_line (rs_status res), ''content-type: '' @ deref res (rs_content_type res)] @ framing_lines framing n @ connection_lines req res"

definition crlf_lines :: "bytes list \<Rightarrow> bytes" where
  "crlf_lines ls = concat (map (\<lambda>l. l @ CRLF) ls)"

lemma crlf_lines_simps [simp]:
  "crlf_lines [] = []" "crlf_lines (l # ls) = l @ CRLF @ crlf_lines ls" "crlf_lines (ls @ ms) = crlf_lines ls @ crlf_lines ms"
  by (simp_all add: crlf_lines_def)

lemma status_line_first: "status_line (wire_status status) = Some line \<Longrightarrow> line = first_line status @ CRLF"
proof -
  have p: "put_uint 200 = ''200''" "put_uint 204 = ''204''" "put_uint 400 = ''400''" "put_uint 404 = ''404''"
    "put_uint 405 = ''405''" "put_uint 500 = ''500''" by code_simp+
  show "status_line (wire_status status) = Some line \<Longrightarrow> line = first_line status @ CRLF"
    by (auto simp: status_line_def first_line_def ioxd_reason_def p split: if_splits)
qed

definition head_text :: "request \<Rightarrow> response \<Rightarrow> framing \<Rightarrow> nat \<Rightarrow> bytes" where
  "head_text req res framing n = crlf_lines (engine_lines req res framing n) @ memread (rs_head res) 0 (rs_head_len res) @ CRLF"

lemma put_status_text: "put_status cap (wire_status s) = Some p \<Longrightarrow> p = first_line s @ CRLF"
  using status_line_first[of s]
  by (auto simp: put_status_def first_line_def NEED_def bind_eq_Some_conv split: option.splits if_splits)

lemma put_framing_text: "put_framing cap f n p = Some q \<Longrightarrow> q = p @ crlf_lines (framing_lines f n)"
  by (cases f) (auto simp: put_framing_def framing_lines_def NEED_def bind_eq_Some_conv split: if_splits)

lemma put_connection_text: "put_connection cap req res p = Some q \<Longrightarrow> q = p @ crlf_lines (connection_lines req res)"
  by (auto simp: put_connection_def connection_lines_def split: if_splits)

lemma build_head_text: "build_head req res cap framing n = Some h \<Longrightarrow> h = head_text req res framing n"
  by (auto simp: build_head_def head_text_def engine_lines_def bind_eq_Some_conv
      dest!: put_status_text put_framing_text put_connection_text)

lemma wire_status_bounds: "100 \<le> wire_status s" "wire_status s \<le> 999"
  by (simp_all add: wire_status_def)

lemma put_status_fits:
  assumes "length (first_line s) + 2 \<le> cap"
  shows "put_status cap (wire_status s) = Some (first_line s @ CRLF)"
proof (cases "status_line (wire_status s)")
  case None
  have "length (put_uint (nat (wire_status s))) = 3"
    using wire_status_bounds[of s] by (intro put_uint_status) auto
  then show ?thesis using None assms by (simp add: put_status_def first_line_def NEED_def)
next
  case (Some line)
  then show ?thesis using assms status_line_first[OF Some] by (simp add: put_status_def)
qed

lemma put_framing_fits:
  assumes "length (p @ crlf_lines (framing_lines f n)) + 20 \<le> cap"
  shows "put_framing cap f n p = Some (p @ crlf_lines (framing_lines f n))"
  using assms by (cases f) (auto simp: put_framing_def framing_lines_def NEED_def)

lemma put_connection_fits:
  assumes "length (p @ crlf_lines (connection_lines req res)) \<le> cap"
  shows "put_connection cap req res p = Some (p @ crlf_lines (connection_lines req res))"
  using assms by (auto simp: put_connection_def connection_lines_def)

lemma build_head_fits:
  assumes "length (head_text req res framing n) + 20 \<le> cap"
  shows "build_head req res cap framing n = Some (head_text req res framing n)"
  using assms
  by (simp add: build_head_def head_text_def engine_lines_def put_status_fits put_framing_fits put_connection_fits del: length_memread)


section \<open>The invariant of the response\<close>

definition read_headers :: "response \<Rightarrow> (bytes \<times> bytes) list" where
  "read_headers res = map (\<lambda>(k, v). (deref res k, deref res v)) (rs_headers res)"

definition header_line :: "bytes \<times> bytes \<Rightarrow> bytes" where
  "header_line h = fst h @ '': '' @ snd h"

definition good_header :: "bytes \<times> bytes \<Rightarrow> bool" where
  "good_header h \<longleftrightarrow>
     fst h \<noteq> [] \<and> list_all is_tchar (fst h) \<and> map lower (fst h) = fst h \<and> valid_field_value (snd h) \<and>
     fst h \<notin> {''content-type'', ''content-length'', ''transfer-encoding'', ''connection''}"

fun in_lines :: "response \<Rightarrow> slice_ref \<Rightarrow> bool" where
  "in_lines res (Outside s) \<longleftrightarrow> False"
| "in_lines res (In_head a n) \<longleftrightarrow> a + n \<le> rs_head_len res"

definition type_placed :: "response \<Rightarrow> bool" where
  "type_placed res = (case rs_content_type res of Outside s \<Rightarrow> True | In_head a n \<Rightarrow> a + n = IOXD_RESP_HEAD_CAP)"

definition resp_ok :: "response \<Rightarrow> bool" where
  "resp_ok res \<longleftrightarrow>
     length (rs_head res) = IOXD_RESP_HEAD_CAP \<and> rs_head_len res + content_type_reserved res \<le> IOXD_RESP_HEAD_CAP \<and>
     type_placed res \<and> valid_field_value (deref res (rs_content_type res)) \<and>
     length (rs_headers res) \<le> IOXD_MAX_RESP_HEADERS \<and>
     list_all (\<lambda>(k, v). in_lines res k \<and> in_lines res v) (rs_headers res) \<and>
     memread (rs_head res) 0 (rs_head_len res) = crlf_lines (map header_line (read_headers res)) \<and>
     list_all good_header (read_headers res)"

lemma memwrite_adjacent:
  "a + length s + length t \<le> length b \<Longrightarrow> a' = a + length s \<Longrightarrow> memwrite (memwrite b a s) a' t = memwrite b a (s @ t)"
  by (simp add: memwrite_def ac_simps)

lemma tchar_bounds: "is_tchar c \<Longrightarrow> 33 \<le> byte_val c \<and> byte_val c < 127"
  by (auto simp: is_tchar_def)

lemma tchar_lower: "is_tchar c \<Longrightarrow> is_tchar (lower c)"
  by (auto simp: lower_range is_tchar_def)

lemma lower_lower: "lower (lower c) = lower c"
  by (auto simp: lower_range)

lemma valid_clean: "valid_field_value v \<Longrightarrow> CR \<notin> set v \<and> LF \<notin> set v"
  by (auto simp: valid_field_value_def list_all_iff value_char_def)

lemma good_header_clean: "good_header h \<Longrightarrow> CR \<notin> set (header_line h) \<and> LF \<notin> set (header_line h) \<and> header_line h \<noteq> []"
proof -
  assume g: "good_header h"
  then have n: "\<forall>c \<in> set (fst h). is_tchar c" by (simp add: good_header_def list_all_iff)
  have "\<not> is_tchar CR" "\<not> is_tchar LF" by (simp_all add: is_tchar_def)
  then have "CR \<notin> set (fst h)" "LF \<notin> set (fst h)" using n by blast+
  moreover have "CR \<notin> set (snd h) \<and> LF \<notin> set (snd h)" using g valid_clean by (simp add: good_header_def)
  ultimately show ?thesis by (simp add: header_line_def)
qed

text \<open>Writing past the lines changes nothing the lines hold.\<close>

lemma lines_kept:
  assumes "rs_head_len res \<le> off" "off \<le> length (rs_head res)" "list_all (\<lambda>(k, v). in_lines res k \<and> in_lines res v) (rs_headers res)"
  shows "map (\<lambda>(k, v). (deref (res\<lparr>rs_head := memwrite (rs_head res) off src\<rparr>) k, deref (res\<lparr>rs_head := memwrite (rs_head res) off src\<rparr>) v)) (rs_headers res)
    = read_headers res"
proof -
  have d: "deref (res\<lparr>rs_head := memwrite (rs_head res) off src\<rparr>) r = deref res r" if "in_lines res r" for r
    using that assms(1,2) by (cases r) (auto simp: memread_memwrite_before)
  show ?thesis using assms(3) by (auto simp: read_headers_def list_all_iff d)
qed

lemma content_type_ok:
  assumes ok: "resp_ok res" and c: "ioxd_content_type res type = (b, res')"
  shows "resp_ok res'" and "read_headers res' = read_headers res"
    and "b \<Longrightarrow> \<exists>t. type = Some t \<and> deref res' (rs_content_type res') = t"
    and "\<not> b \<Longrightarrow> res' = res"
proof -
  have "resp_ok res' \<and> read_headers res' = read_headers res \<and>
      (b \<longrightarrow> (\<exists>t. type = Some t \<and> deref res' (rs_content_type res') = t)) \<and> (\<not> b \<longrightarrow> res' = res)"
  proof (cases b)
    case False
    then have "res' = res" using c by (auto simp: ioxd_content_type_def Let_def put_bytes_def split: option.splits if_splits)
    then show ?thesis using ok False by simp
  next
    case True
    then obtain t where t: "type = Some t" "valid_field_value t" "length t \<le> size_minus IOXD_RESP_HEAD_CAP (rs_head_len res)"
      and r: "res' = res\<lparr>rs_head := memwrite (rs_head res) (IOXD_RESP_HEAD_CAP - length t) t,
        rs_content_type := In_head (IOXD_RESP_HEAD_CAP - length t) (length t)\<rparr>"
      using c by (auto simp: ioxd_content_type_def Let_def put_bytes_def split: option.splits if_splits)
    define off where "off = IOXD_RESP_HEAD_CAP - length t"
    have hl: "rs_head_len res \<le> IOXD_RESP_HEAD_CAP" "length (rs_head res) = IOXD_RESP_HEAD_CAP" using ok by (auto simp: resp_ok_def)
    then have n: "rs_head_len res \<le> off" "off + length t = IOXD_RESP_HEAD_CAP" using t(3) by (auto simp: size_minus_def off_def)
    note r = r[folded off_def]
    have il: "list_all (\<lambda>(k, v). in_lines res k \<and> in_lines res v) (rs_headers res)" using ok by (simp add: resp_ok_def)
    have inl: "in_lines res' q = in_lines res q" for q using r by (cases q) simp_all
    have dr: "deref (res\<lparr>rs_head := h, rs_content_type := ct\<rparr>) r = deref (res\<lparr>rs_head := h\<rparr>) r" for h ct r by (cases r) simp_all
    have rh: "read_headers res' = read_headers res"
      using lines_kept[OF n(1) _ il, of t] n hl by (simp add: read_headers_def r dr)
    have ct: "deref res' (rs_content_type res') = t" using n hl by (simp add: r memread_memwrite_same)
    have "memread (rs_head res') 0 (rs_head_len res') = memread (rs_head res) 0 (rs_head_len res)"
      using n hl by (simp add: r memread_memwrite_before)
    then have "resp_ok res'"
      using ok rh ct t(2) n hl inl by (simp add: resp_ok_def type_placed_def content_type_reserved_def r[symmetric]) (simp add: r)
    then show ?thesis using rh ct t(1) True by simp
  qed
  then show "resp_ok res'" and "read_headers res' = read_headers res"
    and "b \<Longrightarrow> \<exists>t. type = Some t \<and> deref res' (rs_content_type res') = t" and "\<not> b \<Longrightarrow> res' = res" by auto
qed

lemma strncasecmp_full: "length n = length l \<Longrightarrow> map lower l = l \<Longrightarrow> strncasecmp_eq n l (length l) \<longleftrightarrow> map lower n = l"
  by (simp add: strncasecmp_eq_def)

text \<open>A header that was accepted is the last line of the head, with its name folded; one that was refused left no trace.\<close>

lemma head_room_ok:
  assumes "resp_ok res" and "head_room res n = (Some line, res')"
  shows "line = rs_head_len res" and "res' = res\<lparr>rs_head_len := rs_head_len res + n\<rparr>"
    and "rs_head_len res + n + content_type_reserved res \<le> IOXD_RESP_HEAD_CAP"
proof -
  have "rs_head_len res + content_type_reserved res \<le> IOXD_RESP_HEAD_CAP" using assms(1) by (simp add: resp_ok_def)
  then show "line = rs_head_len res" and "res' = res\<lparr>rs_head_len := rs_head_len res + n\<rparr>"
    and "rs_head_len res + n + content_type_reserved res \<le> IOXD_RESP_HEAD_CAP"
    using assms(2) by (auto simp: head_room_def size_minus_def split: if_splits)
qed

lemma add_line_ok:
  assumes ok: "resp_ok res" and g: "good_header (name, val)" and few: "length (rs_headers res) < IOXD_MAX_RESP_HEADERS"
    and room: "rs_head_len res + length (header_line (name, val) @ CRLF) + content_type_reserved res \<le> IOXD_RESP_HEAD_CAP"
  defines "res' \<equiv> res\<lparr>rs_head_len := rs_head_len res + length (header_line (name, val) @ CRLF),
      rs_head := memwrite (rs_head res) (rs_head_len res) (header_line (name, val) @ CRLF),
      rs_headers := rs_headers res @ [(In_head (rs_head_len res) (length name), In_head (rs_head_len res + length name + 2) (length val))]\<rparr>"
  shows "resp_ok res' \<and> read_headers res' = read_headers res @ [(name, val)]"
proof -
  define at line where "at = rs_head_len res" and "line = header_line (name, val) @ CRLF"
  have hl: "length (rs_head res) = IOXD_RESP_HEAD_CAP" "at + length line + content_type_reserved res \<le> IOXD_RESP_HEAD_CAP"
    using ok room by (auto simp: resp_ok_def at_def line_def)
  have r: "res' = res\<lparr>rs_head_len := at + length line, rs_head := memwrite (rs_head res) at line,
      rs_headers := rs_headers res @ [(In_head at (length name), In_head (at + length name + 2) (length val))]\<rparr>"
    by (simp add: res'_def at_def line_def)
  have il: "list_all (\<lambda>(k, v). in_lines res k \<and> in_lines res v) (rs_headers res)" using ok by (simp add: resp_ok_def)
  have dr: "deref res' q = deref (res\<lparr>rs_head := memwrite (rs_head res) at line\<rparr>) q" for q by (cases q) (simp_all add: r)
  have all: "memread (rs_head res') at (length line) = line" using hl by (simp add: r memread_memwrite_same)
  have "deref res' (In_head at (length name)) = name"
    using memread_take[of "length name" "length line" "rs_head res'" at] all by (simp add: line_def header_line_def)
  moreover have "deref res' (In_head (at + length name + 2) (length val)) = val"
  proof -
    have "val @ CRLF = drop (length name + 2) line" by (simp add: line_def header_line_def)
    also have "\<dots> = memread (rs_head res') (at + length name + 2) (length val + 2)"
      using memread_drop[of "length name + 2" "length line" "rs_head res'" at] all by (simp add: line_def header_line_def ac_simps)
    finally have "take (length val) (val @ CRLF) = memread (rs_head res') (at + length name + 2) (length val)"
      by (simp add: memread_take del: take_append)
    then show ?thesis by simp
  qed
  ultimately have rh: "read_headers res' = read_headers res @ [(name, val)]"
    using lines_kept[of res at line, OF _ _ il] hl by (simp add: read_headers_def dr) (simp add: r at_def)
  have ct: "deref res' (rs_content_type res') = deref res (rs_content_type res)"
    using ok hl
    by (cases "rs_content_type res") (auto simp: r resp_ok_def type_placed_def content_type_reserved_def memread_memwrite_after split: if_splits)
  have "memread (rs_head res') 0 (at + length line) = memread (rs_head res) 0 at @ line"
    using hl memread_write_end[of 0 at line "rs_head res"] by (simp add: r)
  then have ml: "memread (rs_head res') 0 (rs_head_len res') = crlf_lines (map header_line (read_headers res'))"
    using ok rh by (simp add: resp_ok_def at_def line_def r)
  have il': "list_all (\<lambda>(k, v). in_lines res' k \<and> in_lines res' v) (rs_headers res')"
  proof -
    have i: "in_lines res q \<Longrightarrow> in_lines res' q" for q by (cases q) (auto simp: r at_def)
    have "list_all (\<lambda>(k, v). in_lines res' k \<and> in_lines res' v) (rs_headers res)" using il i by (auto simp: list_all_iff)
    then show ?thesis by (simp add: r line_def header_line_def)
  qed
  have "resp_ok res'"
    unfolding resp_ok_def
    using ok few g ct rh ml il' hl by (simp add: resp_ok_def type_placed_def content_type_reserved_def) (simp add: r)
  then show ?thesis using rh by simp
qed

lemma header_ok:
  assumes ok: "resp_ok res" and h: "ioxd_header res name val = (b, res')"
  shows "resp_ok res'"
    and "b \<Longrightarrow> \<exists>n v. name = Some n \<and> val = Some v \<and>
        (if map lower n = ''content-type'' then read_headers res' = read_headers res \<and> deref res' (rs_content_type res') = v
         else read_headers res' = read_headers res @ [(map lower n, v)])"
    and "\<not> b \<Longrightarrow> res' = res"
proof -
  have main: "resp_ok res' \<and> (\<exists>n v. name = Some n \<and> val = Some v \<and>
        (if map lower n = ''content-type'' then read_headers res' = read_headers res \<and> deref res' (rs_content_type res') = v
         else read_headers res' = read_headers res @ [(map lower n, v)]))" if b
  proof -
    obtain n v where nv: "name = Some n" "val = Some v"
      using h \<open>b\<close> by (cases name; cases val) (simp_all add: ioxd_header_def)
    note e = h[unfolded nv ioxd_header_def, simplified, unfolded Let_def]
    have v: "valid_field_value v" "list_all is_tchar n" "n \<noteq> []" "length (rs_headers res) \<noteq> IOXD_MAX_RESP_HEADERS"
      using e that by (auto split: if_splits)
    have low: "map lower ''content-type'' = ''content-type''" "map lower ''content-length'' = ''content-length''"
      "map lower ''transfer-encoding'' = ''transfer-encoding''" "map lower ''connection'' = ''connection''" by code_simp+
    have s: "length n = 12 \<and> strncasecmp_eq n ''content-type'' 12 \<longleftrightarrow> map lower n = ''content-type''"
      "length n = 14 \<and> strncasecmp_eq n ''content-length'' 14 \<longleftrightarrow> map lower n = ''content-length''"
      "length n = 17 \<and> strncasecmp_eq n ''transfer-encoding'' 17 \<longleftrightarrow> map lower n = ''transfer-encoding''"
      "length n = 10 \<and> strncasecmp_eq n ''connection'' 10 \<longleftrightarrow> map lower n = ''connection''"
      unfolding strncasecmp_eq_def using low by (auto dest: arg_cong[where f = length])
    note e = e[unfolded s]
    show ?thesis
    proof (cases "map lower n = ''content-type''")
      case True
      then have "ioxd_content_type res (Some v) = (b, res')" using e v that by (auto split: if_splits)
      from content_type_ok[OF ok this] show ?thesis using nv True that by auto
    next
      case False
      then obtain line r where hr: "head_room res (length n + 2 + length v + 2) = (Some line, r)"
        using e v \<open>b\<close> by (cases "head_room res (length n + 2 + length v + 2)") (auto split: if_splits option.splits)
      note k = head_room_ok[OF ok hr]
      have g: "good_header (map lower n, v)"
        using e v that False
        by (auto simp: good_header_def list_all_iff tchar_lower lower_lower split: if_splits)
      have few: "length (rs_headers res) < IOXD_MAX_RESP_HEADERS" using v(4) ok by (simp add: resp_ok_def)
      have room: "rs_head_len res + length (header_line (map lower n, v) @ CRLF) + content_type_reserved res \<le> IOXD_RESP_HEAD_CAP"
        using k(3) by (simp add: header_line_def)
      have hl: "length (rs_head res) = IOXD_RESP_HEAD_CAP" using ok by (simp add: resp_ok_def)
      have "res' = res\<lparr>rs_head_len := rs_head_len res + length (header_line (map lower n, v) @ CRLF),
          rs_head := memwrite (rs_head res) (rs_head_len res) (header_line (map lower n, v) @ CRLF),
          rs_headers := rs_headers res @ [(In_head (rs_head_len res) (length (map lower n)), In_head (rs_head_len res + length (map lower n) + 2) (length v))]\<rparr>"
        using e v that False hr k hl
        by (auto simp: put_bytes_def Let_def header_line_def memwrite_adjacent ac_simps split: if_splits)
      with add_line_ok[OF ok g few room] show ?thesis using nv False by simp
    qed
  qed
  have refused: "res' = res" if "\<not> b"
  proof -
    have ct: "res' = res" if "ioxd_content_type res (Some v) = (b, res')" for v
      using content_type_ok(4)[OF ok that \<open>\<not> b\<close>] .
    show ?thesis using h that ct
      by (auto simp: ioxd_header_def head_room_def Let_def put_bytes_def split: option.splits if_splits)
  qed
  show "resp_ok res'" using main refused ok by (cases b) auto
  show "b \<Longrightarrow> \<exists>n v. name = Some n \<and> val = Some v \<and>
        (if map lower n = ''content-type'' then read_headers res' = read_headers res \<and> deref res' (rs_content_type res') = v
         else read_headers res' = read_headers res @ [(map lower n, v)])" using main by blast
  show "\<not> b \<Longrightarrow> res' = res" by (rule refused)
qed


section \<open>A reply shaped by any sequence of calls\<close>

datatype shape_op =
    Add_header "bytes option" "bytes option" | Set_type "bytes option" | Declare_length u64 | Set_status int | Close_after

fun shape_step :: "response \<Rightarrow> shape_op \<Rightarrow> response" where
  "shape_step res (Add_header n v) = snd (ioxd_header res n v)"
| "shape_step res (Set_type t) = snd (ioxd_content_type res t)"
| "shape_step res (Declare_length n) = snd (ioxd_content_length res n)"
| "shape_step res (Set_status s) = res\<lparr>rs_status := s\<rparr>"
| "shape_step res Close_after = res\<lparr>rs_close := True\<rparr>"

definition type_short :: "response \<Rightarrow> bool" where
  "type_short res = (case rs_content_type res of Outside s \<Rightarrow> length s \<le> 512 | In_head a n \<Rightarrow> True)"

lemma resp_ok_cong:
  assumes "rs_head res' = rs_head res" "rs_head_len res' = rs_head_len res" "rs_headers res' = rs_headers res"
    "rs_content_type res' = rs_content_type res"
  shows "resp_ok res' = resp_ok res" and "read_headers res' = read_headers res"
proof -
  have d: "deref res' q = deref res q" "in_lines res' q = in_lines res q" for q using assms by (cases q; simp)+
  show r: "read_headers res' = read_headers res" using assms d by (simp add: read_headers_def)
  show "resp_ok res' = resp_ok res" using assms d r by (simp add: resp_ok_def type_placed_def content_type_reserved_def)
qed

lemma shape_step_ok: "resp_ok res \<Longrightarrow> type_short res \<Longrightarrow> resp_ok (shape_step res op) \<and> type_short (shape_step res op)"
proof (cases op)
  case (Add_header n v)
  assume r: "resp_ok res" "type_short res"
  have "type_short (snd (ioxd_header res n v))" using r(2)
    by (auto simp: type_short_def ioxd_header_def ioxd_content_type_def head_room_def put_bytes_def Let_def split: option.splits if_splits prod.splits)
  then show ?thesis using Add_header header_ok(1)[OF r(1)] by (metis prod.collapse shape_step.simps(1))
next
  case (Set_type t)
  assume r: "resp_ok res" "type_short res"
  have "type_short (snd (ioxd_content_type res t))" using r(2)
    by (auto simp: type_short_def ioxd_content_type_def put_bytes_def Let_def split: option.splits)
  then show ?thesis using Set_type content_type_ok(1)[OF r(1)] by (metis prod.collapse shape_step.simps(2))
next
  case (Declare_length n)
  assume r: "resp_ok res" "type_short res"
  then show ?thesis using Declare_length resp_ok_cong(1)[of "snd (ioxd_content_length res n)" res]
    by (simp add: ioxd_content_length_def type_short_def)
next
  case (Set_status x)
  assume r: "resp_ok res" "type_short res"
  then show ?thesis using Set_status resp_ok_cong(1)[of "res\<lparr>rs_status := x\<rparr>" res] by (simp add: type_short_def)
next
  case Close_after
  assume r: "resp_ok res" "type_short res"
  then show ?thesis using Close_after resp_ok_cong(1)[of "res\<lparr>rs_close := True\<rparr>" res] by (simp add: type_short_def)
qed

lemma init_response_ok: "length (rs_head res) = IOXD_RESP_HEAD_CAP \<Longrightarrow> resp_ok (fst (init_response res pw)) \<and> type_short (fst (init_response res pw))"
  by (simp add: init_response_def resp_ok_def type_placed_def content_type_reserved_def read_headers_def type_short_def
      valid_field_value_def value_char_def)

lemma shape_ok:
  "resp_ok res \<Longrightarrow> type_short res \<Longrightarrow> resp_ok (foldl shape_step res ops) \<and> type_short (foldl shape_step res ops)"
  by (induction ops arbitrary: res) (auto simp: shape_step_ok)

lemma reason_facts: "length (ioxd_reason s) \<le> 31" "CR \<notin> set (ioxd_reason s)" "LF \<notin> set (ioxd_reason s)"
  by (simp_all add: ioxd_reason_def)

lemma put_uint_no_crlf: "CR \<notin> set (put_uint n)" "LF \<notin> set (put_uint n)"
proof -
  have "\<not> is_digit CR" "\<not> is_digit LF" by (simp_all add: is_digit_def)
  then show "CR \<notin> set (put_uint n)" "LF \<notin> set (put_uint n)" using put_uint_clean by blast+
qed

lemma engine_lines_clean:
  assumes "resp_ok res" and "l \<in> set (engine_lines req res f n)"
  shows "l \<noteq> [] \<and> CR \<notin> set l \<and> LF \<notin> set l"
proof -
  have t: "CR \<notin> set (deref res (rs_content_type res)) \<and> LF \<notin> set (deref res (rs_content_type res))"
    using assms(1) by (intro valid_clean) (simp add: resp_ok_def)
  consider (first) "l = first_line (rs_status res)" | (type) "l = ''content-type: '' @ deref res (rs_content_type res)"
    | (fr) "l \<in> set (framing_lines f n)" | (co) "l \<in> set (connection_lines req res)"
    using assms(2) by (auto simp: engine_lines_def)
  then show ?thesis
  proof cases
    case first
    then show ?thesis using put_uint_no_crlf reason_facts(2,3) by (simp add: first_line_def)
  next
    case type
    then show ?thesis using t by simp
  next
    case fr
    then show ?thesis using put_uint_no_crlf by (cases f) (auto simp: framing_lines_def)
  next
    case co
    then show ?thesis by (auto simp: connection_lines_def split: if_splits)
  qed
qed

lemma type_length:
  assumes "resp_ok res" and "type_short res"
  shows "length (deref res (rs_content_type res)) + rs_head_len res \<le> IOXD_RESP_HEAD_CAP + 512"
  using assms
  by (cases "rs_content_type res") (auto simp: resp_ok_def type_short_def content_type_reserved_def type_placed_def split: if_splits)

lemma head_text_length:
  assumes "resp_ok res" and "type_short res" and "n < 2 ^ 64"
  shows "length (head_text req res f n) + 20 \<le> IOXD_HEAD_CAP"
proof -
  have "length (put_uint (nat (wire_status (rs_status res)))) = 3"
    using wire_status_bounds[of "rs_status res"] by (intro put_uint_status) auto
  then have "length (first_line (rs_status res)) \<le> 44" using reason_facts(1) by (simp add: first_line_def)
  moreover have "length (crlf_lines (framing_lines f n)) \<le> 38"
  proof -
    have "n < 10 ^ Suc 19" using assms(3) by simp
    then have "length (put_uint n) \<le> 20" using put_uint_length[of n 19] by simp
    then show ?thesis by (cases f) (simp_all add: framing_lines_def)
  qed
  moreover have "length (crlf_lines (connection_lines req res)) \<le> 24" by (simp add: connection_lines_def)
  moreover have "length (memread (rs_head res) 0 (rs_head_len res)) \<le> rs_head_len res" by simp
  ultimately show ?thesis using type_length[OF assms(1,2)]
    by (simp add: head_text_def engine_lines_def del: length_memread)
qed

lemma built_head:
  assumes "resp_ok res" and "type_short res" and "n < 2 ^ 64"
  shows "build_head req res IOXD_HEAD_CAP f n =
      Some (crlf_lines (engine_lines req res f n @ map header_line (read_headers res)) @ CRLF)"
  using build_head_fits[OF head_text_length[OF assms]] assms(1) by (simp add: head_text_def resp_ok_def)

text \<open>C7. A reply cannot be split and its framing cannot be forged. Whatever a handler asks for through
  \<open>ioxd_header\<close>, \<open>ioxd_content_type\<close>, \<open>ioxd_content_length\<close>, the status and the close flag, the head that
  \<open>build_head\<close> serializes always fits its buffer and is, line by line, the status line, the content type, the
  engine's own framing and connection lines and then the accepted headers, each line free of CR and LF, so that
  no line ends early; and no accepted header is one of the four that the engine writes itself.\<close>

theorem response_head_cannot_be_split:
  assumes "length (rs_head res0) = IOXD_RESP_HEAD_CAP" and "n < 2 ^ 64"
    and "res = foldl shape_step (fst (init_response res0 pw)) ops"
  shows "build_head req res IOXD_HEAD_CAP framing n =
      Some (crlf_lines (engine_lines req res framing n @ map header_line (read_headers res)) @ CRLF) \<and>
    (\<forall>l \<in> set (engine_lines req res framing n @ map header_line (read_headers res)). l \<noteq> [] \<and> CR \<notin> set l \<and> LF \<notin> set l) \<and>
    (\<forall>h \<in> set (read_headers res). fst h \<notin> {''content-type'', ''content-length'', ''transfer-encoding'', ''connection''})"
proof -
  have ok: "resp_ok res" "type_short res"
    using shape_ok[of "fst (init_response res0 pw)" ops] init_response_ok[OF assms(1), of pw] assms(3) by auto
  have g: "\<forall>h \<in> set (read_headers res). good_header h" using ok(1) by (simp add: resp_ok_def list_all_iff)
  then have "\<forall>l \<in> set (map header_line (read_headers res)). l \<noteq> [] \<and> CR \<notin> set l \<and> LF \<notin> set l"
    using good_header_clean by auto
  moreover have "\<forall>h \<in> set (read_headers res). fst h \<notin> {''content-type'', ''content-length'', ''transfer-encoding'', ''connection''}"
    using g by (auto simp: good_header_def)
  moreover have "\<forall>l \<in> set (engine_lines req res framing n). l \<noteq> [] \<and> CR \<notin> set l \<and> LF \<notin> set l"
    using engine_lines_clean[OF ok(1)] by blast
  ultimately show ?thesis using built_head[OF ok assms(2), of req framing] by (simp only: set_append ball_Un simp_thms)
qed

definition blank_response :: response where
  "blank_response = \<lparr>rs_status = 0, rs_content_type = Outside [], rs_headers = [], rs_close = False, rs_head_sent = False,
     rs_content_length = 0, rs_has_length = False, rs_chunked = False, rs_failed = False, rs_body_sent = 0, rs_head_len = 0,
     rs_head = replicate IOXD_RESP_HEAD_CAP NUL\<rparr>"

theorem response_head_cannot_be_split_witness:
  "\<exists>res h. res = foldl shape_step (fst (init_response blank_response (ioxd__pipewriter_init [] 0 0 0)))
       [Set_status 404, Add_header (Some ''X-A'') (Some ''1''), Add_header (Some ''a'') (Some (''b'' @ CRLF @ ''c: d''))] \<and>
     build_head sample_request res IOXD_HEAD_CAP FRAME_LENGTH 5 = Some h \<and> length (rs_head res) = IOXD_RESP_HEAD_CAP"
proof -
  define res where "res = foldl shape_step (fst (init_response blank_response (ioxd__pipewriter_init [] 0 0 0)))
       [Set_status 404, Add_header (Some ''X-A'') (Some ''1''), Add_header (Some ''a'') (Some (''b'' @ CRLF @ ''c: d''))]"
  have b: "length (rs_head blank_response) = IOXD_RESP_HEAD_CAP" by (simp add: blank_response_def)
  have "resp_ok res" unfolding res_def using shape_ok init_response_ok[OF b] by blast
  then have "length (rs_head res) = IOXD_RESP_HEAD_CAP" by (simp add: resp_ok_def)
  then show ?thesis
    using response_head_cannot_be_split[OF b _ res_def, of 5 sample_request FRAME_LENGTH] res_def by auto
qed

end
