(* ===== verification/Pipe.thy ===== *)
theory Pipe
  imports Pipe_Stream Pipe_Writer
begin

text \<open>
  The pair every connection handler receives, \<open>struct ioxd_pipe\<close> of \<^verbatim>\<open>lib/io/pipe.h\<close>, its
  opening and closing, and the calls of the public \<^verbatim>\<open>ioxd/pipe.h\<close>.
\<close>

record ioxd_pipe =
  p_in :: pipereader
  p_out :: pipewriter

definition ioxd__pipe_init :: "bytes \<Rightarrow> nat \<Rightarrow> bytes \<Rightarrow> nat \<Rightarrow> nat \<Rightarrow> nat \<Rightarrow> ioxd_pipe" where
  "ioxd__pipe_init gather_buf gather_cap slab lead cap slack =
     \<lparr>p_in = ioxd__pipereader_init gather_buf gather_cap, p_out = ioxd__pipewriter_init slab lead cap slack\<rparr>"

definition ioxd__pipe_close :: "ioxd_pipe \<Rightarrow> io \<Rightarrow> ioxd_pipe \<times> io" where
  "ioxd__pipe_close p w =
     (let (_, pw, w) = ioxd__pipewriter_flush (p_out p) w;
          (pr, w) = ioxd__pipereader_close (p_in p) w
      in (p\<lparr>p_in := pr, p_out := pw\<rparr>, w))"

definition ioxd_pipe_read :: "ioxd_pipe \<Rightarrow> io \<Rightarrow> int \<times> (place \<times> nat) \<times> ioxd_pipe \<times> io" where
  "ioxd_pipe_read p w = (let (rc, l, pr, w) = ioxd__pipereader_read (p_in p) w in (rc, l, p\<lparr>p_in := pr\<rparr>, w))"

definition ioxd_pipe_examine :: "ioxd_pipe \<Rightarrow> nat \<Rightarrow> ioxd_pipe" where
  "ioxd_pipe_examine p n = p\<lparr>p_in := ioxd__pipereader_examine (p_in p) n\<rparr>"

definition ioxd_pipe_drop :: "ioxd_pipe \<Rightarrow> io \<Rightarrow> nat \<Rightarrow> ioxd_pipe \<times> io" where
  "ioxd_pipe_drop p w n = (let (pr, w) = ioxd__pipereader_drop (p_in p) w n in (p\<lparr>p_in := pr\<rparr>, w))"

definition ioxd_pipe_keep :: "ioxd_pipe \<Rightarrow> io \<Rightarrow> nat \<Rightarrow> place \<times> ioxd_pipe \<times> io" where
  "ioxd_pipe_keep p w n = (let (k, pr, w) = ioxd__pipereader_keep (p_in p) w n in (k, p\<lparr>p_in := pr\<rparr>, w))"

definition ioxd_pipe_kept :: "ioxd_pipe \<Rightarrow> place \<times> nat" where
  "ioxd_pipe_kept p = ioxd__pipereader_run (p_in p)"

definition ioxd_pipe_release :: "ioxd_pipe \<Rightarrow> io \<Rightarrow> ioxd_pipe \<times> io" where
  "ioxd_pipe_release p w = (let (pr, w) = ioxd__pipereader_release (p_in p) w in (p\<lparr>p_in := pr\<rparr>, w))"

definition ioxd_pipe_copy :: "ioxd_pipe \<Rightarrow> io \<Rightarrow> nat \<Rightarrow> int \<times> bytes \<times> ioxd_pipe \<times> io" where
  "ioxd_pipe_copy p w n = (let (rc, d, pr, w) = ioxd__pipereader_copy (p_in p) w n in (rc, d, p\<lparr>p_in := pr\<rparr>, w))"

definition ioxd_pipe_reserve :: "ioxd_pipe \<Rightarrow> io \<Rightarrow> nat \<Rightarrow> nat option \<times> ioxd_pipe \<times> io" where
  "ioxd_pipe_reserve p w n = (let (a, pw, w) = ioxd__pipewriter_reserve (p_out p) w n in (a, p\<lparr>p_out := pw\<rparr>, w))"

definition ioxd_pipe_advance :: "ioxd_pipe \<Rightarrow> nat \<Rightarrow> ioxd_pipe" where
  "ioxd_pipe_advance p n = p\<lparr>p_out := ioxd__pipewriter_advance (p_out p) n\<rparr>"

definition ioxd_pipe_write :: "ioxd_pipe \<Rightarrow> io \<Rightarrow> bytes \<Rightarrow> int \<times> ioxd_pipe \<times> io" where
  "ioxd_pipe_write p w d = (let (rc, pw, w) = ioxd__pipewriter_write (p_out p) w d in (rc, p\<lparr>p_out := pw\<rparr>, w))"

definition ioxd_pipe_flush :: "ioxd_pipe \<Rightarrow> io \<Rightarrow> int \<times> ioxd_pipe \<times> io" where
  "ioxd_pipe_flush p w = (let (rc, pw, w) = ioxd__pipewriter_flush (p_out p) w in (rc, p\<lparr>p_out := pw\<rparr>, w))"

definition ioxd_pipe_send :: "ioxd_pipe \<Rightarrow> io \<Rightarrow> bytes \<Rightarrow> int \<times> ioxd_pipe \<times> io" where
  "ioxd_pipe_send p w d = (let (rc, pw, w) = ioxd__pipewriter_send (p_out p) w d in (rc, p\<lparr>p_out := pw\<rparr>, w))"

text \<open>Sending touches nothing the reader's invariant reads, so the two halves do not interfere.\<close>

lemma sent_keeps_reader:
  assumes "sent_to w w' out"
  shows "reader_inv fl pr w' = reader_inv fl pr w" and "live pr w' = live pr w" and "run pr w' = run pr w"
  using sent_to_fields[OF assms] by (simp_all add: reader_defs accounted_def view_defs)

lemma pipe_close_ok:
  assumes "reader_ok (p_in p) w" and "writer_ok (p_out p)" and "\<not> pw_failed (p_out p)"
    and "ioxd__pipe_close p w = (p', w')"
  shows "mset (io_returned w') = mset [0..<io_next w'] \<and>
    (\<exists>out. io_wire w' = io_wire w @ out \<and> prefix out (span (p_out p)) \<and>
      (\<not> pw_failed (p_out p') \<longrightarrow> out = span (p_out p)))"
proof -
  obtain rc pw v where f: "ioxd__pipewriter_flush (p_out p) w = (rc, pw, v)" by (metis surj_pair)
  obtain pr x where c: "ioxd__pipereader_close (p_in p) v = (pr, x)" by (metis surj_pair)
  have e: "p' = p\<lparr>p_in := pr, p_out := pw\<rparr>" "w' = x" using assms(4) f c by (simp_all add: ioxd__pipe_close_def)
  obtain out where o: "sent_to w v out" "prefix out (span (p_out p))" "\<not> pw_failed pw \<longrightarrow> out = span (p_out p)"
    using flush_ok[OF assms(2,3) f] by (metis (full_types))
  have "reader_ok (p_in p) v" using assms(1) sent_keeps_reader(1)[OF o(1)] by simp
  from close_ok[OF this c] have "mset (io_returned w') = mset [0..<io_next w']" using e by simp
  moreover have "io_wire x = io_wire v" using c by (auto simp: ioxd__pipereader_close_def Let_def split: if_splits)
  ultimately show ?thesis using o sent_to_fields(1)[OF o(1)] e by auto
qed

end
