(* ===== verification/Reply.thy ===== *)
theory Reply
  imports Response Pipe
begin

text \<open>
  The reply of \<^verbatim>\<open>lib/http/engine.c\<close>, from \<open>send_coded\<close> to \<open>ioxd_advance\<close>: the head decided at the
  first flush, the slab sent as a raw body or as chunks, through the reply's filter when one is set,
  and what \<open>finish\<close> sends after the chain.

  A body filter is code of a middleware, so it is any value of \<open>coder\<close>: one run takes the input,
  the room for output and the operation, and gives the result, how much it consumed, what it
  produced and the filter that runs next.  A delegate for the head likewise is any function: it
  answers the calls it makes on the response, the filter it installs and the calls it makes once the
  filter is accepted.  A filter may produce
  output for ever, so everything that can run one is a partial function in the option monad, where
  \<open>None\<close> is not returning.  The context holds the request, the response, the engine's state, the
  pipe and the connection.
\<close>

datatype fop = IOXD_FILTER_MORE | IOXD_FILTER_FLUSH | IOXD_FILTER_FINISH

codatatype coder = Coder (run_coder: "bytes \<Rightarrow> nat \<Rightarrow> fop \<Rightarrow> int \<times> nat \<times> bytes \<times> coder")

type_synonym head_fn = "request \<Rightarrow> response \<Rightarrow> nat \<Rightarrow> bool \<Rightarrow> shape_op list \<times> (coder \<times> shape_op list) option"

record serve_state =
  st_body_read :: u64
  st_body_done :: bool
  st_body_whole :: bool
  st_body_err :: int
  st_chunk_left :: u64
  st_head_only :: bool
  st_no_body :: bool
  st_continue_sent :: bool
  st_on_head :: "head_fn option"
  st_filter :: "coder option"
  st_coded :: pipewriter

record ctx =
  cx_req :: request
  cx_res :: response
  cx_st :: serve_state
  cx_pipe :: ioxd_pipe
  cx_io :: io

abbreviation IOXD_DRAIN_MAX :: nat where "IOXD_DRAIN_MAX \<equiv> 1048576"

datatype flush_kind = FLUSH_FULL | FLUSH_ASKED | FLUSH_FINAL

definition WRITER :: "ctx \<Rightarrow> pipewriter" where
  "WRITER cx = p_out (cx_pipe cx)"

definition set_writer :: "pipewriter \<Rightarrow> io \<Rightarrow> ctx \<Rightarrow> ctx" where
  "set_writer pw w cx = cx\<lparr>cx_pipe := (cx_pipe cx)\<lparr>p_out := pw\<rparr>, cx_io := w\<rparr>"

definition set_coded :: "pipewriter \<Rightarrow> io \<Rightarrow> ctx \<Rightarrow> ctx" where
  "set_coded cw w cx = cx\<lparr>cx_st := (cx_st cx)\<lparr>st_coded := cw\<rparr>, cx_io := w\<rparr>"

definition upd_res :: "(response \<Rightarrow> response) \<Rightarrow> ctx \<Rightarrow> ctx" where
  "upd_res f cx = cx\<lparr>cx_res := f (cx_res cx)\<rparr>"

definition upd_st :: "(serve_state \<Rightarrow> serve_state) \<Rightarrow> ctx \<Rightarrow> ctx" where
  "upd_st f cx = cx\<lparr>cx_st := f (cx_st cx)\<rparr>"

definition fail :: "ctx \<Rightarrow> int \<times> ctx" where
  "fail cx = (- 1, upd_res (\<lambda>r. r\<lparr>rs_failed := True\<rparr>) cx)"


section \<open>Frames\<close>

text \<open>The slab's bytes as one chunk: the size line in front and the CRLF behind.\<close>

definition frame_chunk :: "pipewriter \<Rightarrow> bool \<times> pipewriter" where
  "frame_chunk pw =
     (let size_line = put_hex (pw_len pw);
          (front, pw) = ioxd__pipewriter_front pw (length size_line + 2);
          (back, pw) = ioxd__pipewriter_back pw 2
      in case (front, back) of
           (Some f, Some b) \<Rightarrow> (True, poke (poke pw f (size_line @ CRLF)) b CRLF)
         | _ \<Rightarrow> (False, pw))"

text \<open>The head in front of the span, or on its own first when it is bigger than the lead.\<close>

definition put_head :: "pipewriter \<Rightarrow> io \<Rightarrow> bytes \<Rightarrow> int \<times> pipewriter \<times> io" where
  "put_head pw w head =
     (case ioxd__pipewriter_front pw (length head) of
        (Some f, pw) \<Rightarrow> (0, poke pw f head, w)
      | (None, pw) \<Rightarrow> ioxd__pipewriter_through pw w head)"

definition put_back :: "pipewriter \<Rightarrow> bytes \<Rightarrow> bool \<times> pipewriter" where
  "put_back pw s =
     (case ioxd__pipewriter_back pw (length s) of
        (Some b, pw) \<Rightarrow> (True, poke pw b s)
      | (None, pw) \<Rightarrow> (False, pw))"

text \<open>The result, the head still to be sent and the context.\<close>

definition send_coded :: "ctx \<Rightarrow> bytes \<Rightarrow> int \<times> bytes \<times> ctx" where
  "send_coded cx head =
     (let cw = st_coded (cx_st cx);
          cx = upd_res (\<lambda>r. r\<lparr>rs_body_sent := rs_body_sent r + of_nat (pw_len cw)\<rparr>) cx;
          (framed, cw) = (if rs_chunked (cx_res cx) \<and> pw_len cw \<noteq> 0 then frame_chunk cw else (True, cw));
          cx = set_coded cw (cx_io cx) cx
      in if \<not> framed then (let (rc, cx) = fail cx in (rc, head, cx))
      else
        let (rc, cw, w) = (if head \<noteq> [] then put_head cw (cx_io cx) head else (0, cw, cx_io cx));
            cx = set_coded cw w cx
        in if rc < 0 then (let (rc, cx) = fail cx in (rc, head, cx))
        else
          let (rc, cw, w) = ioxd__pipewriter_flush cw (cx_io cx);
              cx = set_coded cw w cx
          in if rc < 0 then (let (rc, cx) = fail cx in (rc, [], cx)) else (0, [], cx))"

text \<open>
  The loop of \<open>encode\<close>; \<open>left\<close> is the input not consumed yet, \<open>head\<close> is \<open>None\<close> for the null
  pointer of a body coded whole.
\<close>

partial_function (option) encode_loop :: "ctx \<Rightarrow> fop \<Rightarrow> bytes option \<Rightarrow> bytes \<Rightarrow> (int \<times> bytes option \<times> ctx) option" where
  "encode_loop cx op head left =
     (case st_filter (cx_st cx) of
        None \<Rightarrow> (let (rc, cx) = fail cx in Some (rc, head, cx))
      | Some flt \<Rightarrow>
          (let cw = st_coded (cx_st cx); room = ioxd__pipewriter_room cw;
               (rc, in_len, out, flt') = run_coder flt left room op;
               cx = upd_st (\<lambda>s. s\<lparr>st_filter := Some flt'\<rparr>) cx
           in if rc < 0 \<or> in_len > length left \<or> length out > room then (let (rc, cx) = fail cx in Some (rc, head, cx))
           else
             let left = drop in_len left;
                 cw = ioxd__pipewriter_advance (poke cw (ioxd__pipewriter_at cw) out) (length out);
                 cx = set_coded cw (cx_io cx) cx
             in if rc = 0 \<and> left = [] then Some (0, head, cx)
             else if ioxd__pipewriter_room cw = 0 then
               (case head of
                  None \<Rightarrow> (let (rc, cx) = fail cx in Some (rc, head, cx))
                | Some h \<Rightarrow>
                    (let (rc, h, cx) = send_coded cx h in
                     if rc < 0 then (let (rc, cx) = fail cx in Some (rc, Some h, cx))
                     else encode_loop cx op (Some h) left))
             else if in_len = 0 \<and> out = [] then (let (rc, cx) = fail cx in Some (rc, head, cx))
             else encode_loop cx op head left))"

definition encode :: "ctx \<Rightarrow> fop \<Rightarrow> bytes option \<Rightarrow> (int \<times> bytes option \<times> ctx) option" where
  "encode cx op head =
     (let pw = WRITER cx in
      case encode_loop cx op head (memread (pw_buf pw) (pw_lead pw) (pw_len pw)) of
        None \<Rightarrow> None
      | Some (rc, head, cx) \<Rightarrow>
          if rc < 0 then Some (- 1, head, cx)
          else Some (0, head, set_writer ((WRITER cx)\<lparr>pw_len := 0\<rparr>) (cx_io cx) cx))"


section \<open>A flush\<close>

definition ioxd_on_head :: "ctx \<Rightarrow> head_fn option \<Rightarrow> bool \<times> ctx" where
  "ioxd_on_head cx fn =
     (if rs_head_sent (cx_res cx) then (False, cx) else (True, upd_st (\<lambda>s. s\<lparr>st_on_head := fn\<rparr>) cx))"

definition ioxd_reply_filter :: "ctx \<Rightarrow> coder \<Rightarrow> bool \<times> ctx" where
  "ioxd_reply_filter cx flt =
     (if rs_head_sent (cx_res cx) \<or> st_filter (cx_st cx) \<noteq> None then (False, cx)
      else (True, upd_st (\<lambda>s. s\<lparr>st_filter := Some flt\<rparr>) cx))"

text \<open>The delegate for the head, taken out of the state before it runs.\<close>

definition run_on_head :: "ctx \<Rightarrow> bool \<Rightarrow> ctx" where
  "run_on_head cx final =
     (case st_on_head (cx_st cx) of
        Some fn \<Rightarrow>
          if \<not> rs_head_sent (cx_res cx) \<and> \<not> st_head_only (cx_st cx) then
            let cx = upd_st (\<lambda>s. s\<lparr>st_on_head := None\<rparr>) cx;
                (ops, flt) = fn (cx_req cx) (cx_res cx) (pw_len (WRITER cx)) final;
                cx = upd_res (\<lambda>r. foldl shape_step r ops) cx
            in (case flt of
                  None \<Rightarrow> cx
                | Some (f, then_ops) \<Rightarrow>
                    let (installed, cx) = ioxd_reply_filter cx f in
                    if installed then upd_res (\<lambda>r. foldl shape_step r then_ops) cx else cx)
          else cx
      | None \<Rightarrow> cx)"

text \<open>How the body is delimited and what the head says of its length, settled at the first send.\<close>

definition choose_framing :: "request \<Rightarrow> response \<Rightarrow> bool \<Rightarrow> framing \<times> response" where
  "choose_framing req res final =
     (let status = wire_status (rs_status res); bodyless = (status < 200 \<or> status = 204 \<or> status = 304) in
      if bodyless then (if status = 304 \<and> rs_has_length res then FRAME_LENGTH else FRAME_NONE, res)
      else if \<not> rs_has_length res \<and> \<not> final then
        if rq_minor_version req \<ge> 1 then (FRAME_CHUNKED, res\<lparr>rs_chunked := True\<rparr>)
        else (FRAME_UNTIL_CLOSE, res\<lparr>rs_close := True\<rparr>)
      else (FRAME_LENGTH, res))"

definition drain_or_close :: "request \<Rightarrow> serve_state \<Rightarrow> response \<Rightarrow> response" where
  "drain_or_close req state res =
     (if \<not> st_body_done state \<and> st_body_err state = 0 then
        let left = (if rq_chunked req then SIZE_MAX else rq_content_length req - st_body_read state) in
        if left > of_nat IOXD_DRAIN_MAX \<or> rq_expect_continue req \<and> \<not> st_continue_sent state
        then res\<lparr>rs_close := True\<rparr> else res
      else res)"

definition decide_framing :: "ctx \<Rightarrow> bool \<Rightarrow> nat \<Rightarrow> framing \<times> u64 \<times> ctx" where
  "decide_framing cx final sw_len =
     (let res = cx_res cx; state = cx_st cx; req = cx_req cx;
          status = wire_status (rs_status res);
          bodyless = (status < 200 \<or> status = 204 \<or> status = 304);
          no_body = (st_head_only state \<or> bodyless);
          declared = (rs_has_length res \<and> (\<not> final \<or> no_body));
          body_len = (if declared then rs_content_length res else of_nat sw_len);
          res = (if rs_has_length res \<and> \<not> declared then res\<lparr>rs_content_length := of_nat sw_len\<rparr> else res);
          (framing, res) = choose_framing req res final;
          res = drain_or_close req state res
      in (framing, body_len, cx\<lparr>cx_res := res, cx_st := state\<lparr>st_no_body := no_body\<rparr>\<rparr>))"

text \<open>The head for the first send, empty once it went out; \<open>None\<close> when it cannot be built.\<close>

definition first_head :: "ctx \<Rightarrow> bool \<Rightarrow> nat \<Rightarrow> bytes option \<times> ctx" where
  "first_head cx final sw_len =
     (if rs_head_sent (cx_res cx) then (Some [], cx)
      else
        let (framing, body_len, cx) = decide_framing cx final sw_len in
        case build_head (cx_req cx) (cx_res cx) IOXD_HEAD_CAP framing (unat body_len) of
          None \<Rightarrow>
            let (pw, w) = send_status (WRITER cx) (cx_io cx) 500 in (None, snd (fail (set_writer pw w cx)))
        | Some head \<Rightarrow> (Some head, upd_res (\<lambda>r. r\<lparr>rs_head_sent := True\<rparr>) cx))"

text \<open>The writer that is sent: the slab, or the coded buffer.\<close>

definition send_writer :: "bool \<Rightarrow> ctx \<Rightarrow> pipewriter" where
  "send_writer coding cx = (if coding then st_coded (cx_st cx) else WRITER cx)"

definition set_send_writer :: "bool \<Rightarrow> pipewriter \<Rightarrow> io \<Rightarrow> ctx \<Rightarrow> ctx" where
  "set_send_writer coding sw w cx = (if coding then set_coded sw w cx else set_writer sw w cx)"

text \<open>Never a byte past the declared length: what of the slab and of the extra bytes may go, and whether some may not.\<close>

definition clamp :: "response \<Rightarrow> nat \<Rightarrow> nat \<Rightarrow> nat \<times> nat \<times> bool" where
  "clamp res len extra_len =
     (if rs_has_length res then
        let left = rs_content_length res - rs_body_sent res;
            (len, over) = (if of_nat len > left then (unat left, True) else (len, False));
            left = left - of_nat len;
            (extra_len, over) = (if of_nat extra_len > left then (unat left, True) else (extra_len, over))
        in (len, extra_len, over)
      else (len, extra_len, False))"

text \<open>The frame around the slab, when one is due.\<close>

definition frame_slab :: "bool \<Rightarrow> bool \<Rightarrow> pipewriter \<Rightarrow> bool \<times> bool \<times> pipewriter" where
  "frame_slab chunked final sw =
     (let (framed, sw) = (if chunked \<and> pw_len sw \<noteq> 0 then frame_chunk sw else (True, sw));
          (closed, sw) = (if framed \<and> final \<and> chunked then put_back sw put_terminator else (True, sw))
      in (framed, closed, sw))"

text \<open>The head, the span and the extra bytes, as one or two sends.\<close>

definition deliver :: "pipewriter \<Rightarrow> io \<Rightarrow> bytes \<Rightarrow> bytes \<Rightarrow> int \<times> pipewriter \<times> io" where
  "deliver pw w head extra =
     (let (rc, sw, w) = (if head \<noteq> [] then put_head pw w head else (0, pw, w))
      in if rc < 0 then (rc, sw, w) else ioxd__pipewriter_flush_with sw w extra)"

definition send_framed :: "bool \<Rightarrow> ctx \<Rightarrow> bool \<Rightarrow> bytes \<Rightarrow> bytes \<Rightarrow> int \<times> ctx" where
  "send_framed coding cx final head extra =
     (let sw = send_writer coding cx;
          (len, extra_len, over) = clamp (cx_res cx) (pw_len sw) (length extra);
          cx = upd_res (\<lambda>r. r\<lparr>rs_body_sent := rs_body_sent r + of_nat (len + extra_len)\<rparr>) cx;
          (framed, closed, sw) = frame_slab (rs_chunked (cx_res cx)) final (sw\<lparr>pw_len := len\<rparr>)
      in if \<not> framed \<or> \<not> closed then fail (set_send_writer coding sw (cx_io cx) cx)
      else
        let (rc, sw, w) = deliver sw (cx_io cx) head (take extra_len extra);
            cx = set_send_writer coding sw w cx
        in if rc < 0 then fail cx else if over then fail cx else (0, cx))"

definition send_head_only :: "ctx \<Rightarrow> bytes \<Rightarrow> int \<times> ctx" where
  "send_head_only cx head =
     (let cx = set_writer (ioxd__pipewriter_reset (WRITER cx)) (cx_io cx) cx;
          cx = set_coded (ioxd__pipewriter_reset (st_coded (cx_st cx))) (cx_io cx) cx;
          (rc, pw, w) = (if head \<noteq> [] then ioxd__pipewriter_through (WRITER cx) (cx_io cx) head else (0, WRITER cx, cx_io cx));
          cx = set_writer pw w cx
      in if rc < 0 then fail cx else (0, cx))"

definition flush_with :: "ctx \<Rightarrow> flush_kind \<Rightarrow> bytes \<Rightarrow> (int \<times> ctx) option" where
  "flush_with cx kind extra =
     (if rs_failed (cx_res cx) then Some (- 1, cx)
      else
        let final = (kind = FLUSH_FINAL);
            cx = run_on_head cx final;
            coding = (st_filter (cx_st cx) \<noteq> None \<and> \<not> st_head_only (cx_st cx));
            whole = (coding \<and> \<not> rs_head_sent (cx_res cx) \<and> final);
            cx = (if coding \<and> \<not> rs_head_sent (cx_res cx) \<and> \<not> whole then upd_res (\<lambda>r. r\<lparr>rs_has_length := False\<rparr>) cx else cx)
        in do {
          (rc, _, cx) \<leftarrow> (if whole then encode cx IOXD_FILTER_FINISH None else Some (0, None, cx));
          (if rc < 0 then Some (- 1, cx)
           else case first_head cx final (pw_len (send_writer coding cx)) of
             (None, cx) \<Rightarrow> Some (- 1, cx)
           | (Some head, cx) \<Rightarrow>
               if st_no_body (cx_st cx) then Some (send_head_only cx head)
               else if coding \<and> \<not> whole then do {
                 (rc, head, cx) \<leftarrow> encode cx (if final then IOXD_FILTER_FINISH else if kind = FLUSH_ASKED then IOXD_FILTER_FLUSH
                                           else IOXD_FILTER_MORE) (Some head);
                 (if rc < 0 then Some (- 1, cx) else Some (send_framed coding cx final (the head) extra)) }
               else Some (send_framed coding cx final head extra)) })"

definition flush :: "ctx \<Rightarrow> flush_kind \<Rightarrow> (int \<times> ctx) option" where
  "flush cx kind = flush_with cx kind []"

definition raw_framed :: "ctx \<Rightarrow> bool" where
  "raw_framed cx =
     (if st_on_head (cx_st cx) \<noteq> None \<or> st_filter (cx_st cx) \<noteq> None then False
      else if rs_head_sent (cx_res cx) then \<not> rs_chunked (cx_res cx)
      else rs_has_length (cx_res cx) \<or> rq_minor_version (cx_req cx) = 0)"

definition finish_tail :: "ctx \<Rightarrow> int \<times> ctx" where
  "finish_tail cx =
     (0, if rs_has_length (cx_res cx) \<and> \<not> st_no_body (cx_st cx) \<and> rs_body_sent (cx_res cx) \<noteq> rs_content_length (cx_res cx)
         then upd_res (\<lambda>r. r\<lparr>rs_close := True\<rparr>) cx else cx)"

definition finish :: "ctx \<Rightarrow> (int \<times> ctx) option" where
  "finish cx =
     (if rs_failed (cx_res cx) then Some (- 1, cx)
      else if \<not> rs_head_sent (cx_res cx) \<or> pw_len (WRITER cx) \<noteq> 0 \<or> st_filter (cx_st cx) \<noteq> None then do {
        (rc, cx) \<leftarrow> flush cx FLUSH_FINAL;
        (if rc < 0 then Some (- 1, cx) else Some (finish_tail cx)) }
      else if rs_chunked (cx_res cx) then
        (let (room, pw) = put_back (WRITER cx) put_terminator; cx = set_writer pw (cx_io cx) cx in
         if \<not> room then Some (fail cx)
         else
           let (rc, pw, w) = ioxd__pipewriter_flush (WRITER cx) (cx_io cx); cx = set_writer pw w cx
           in if rc < 0 then Some (fail cx) else Some (finish_tail cx))
      else Some (finish_tail cx))"


section \<open>What a handler calls\<close>

partial_function (option) write_loop :: "ctx \<Rightarrow> bytes \<Rightarrow> (int \<times> ctx) option" where
  "write_loop cx src =
     (if src = [] then Some (0, cx)
      else
        let pw = WRITER cx; room = ioxd__pipewriter_room pw in
        if room = 0 then
          (case flush cx FLUSH_FULL of
             None \<Rightarrow> None
           | Some (rc, cx) \<Rightarrow> if rc < 0 then Some (- 1, cx) else write_loop cx src)
        else
          let n = (if length src < room then length src else room);
              pw = ioxd__pipewriter_advance (poke pw (ioxd__pipewriter_at pw) (take n src)) n
          in write_loop (set_writer pw (cx_io cx) cx) (drop n src))"

definition ioxd_write :: "ctx \<Rightarrow> bytes \<Rightarrow> (int \<times> ctx) option" where
  "ioxd_write cx data =
     (if rs_failed (cx_res cx) then Some (- 1, cx)
      else if length data > ioxd__pipewriter_room (WRITER cx) \<and> raw_framed cx then flush_with cx FLUSH_FULL data
      else write_loop cx data)"

definition ioxd_text :: "ctx \<Rightarrow> bytes option \<Rightarrow> (int \<times> ctx) option" where
  "ioxd_text cx s = (case s of Some s \<Rightarrow> ioxd_write cx s | None \<Rightarrow> Some (0, cx))"

text \<open>
  \<open>vsnprintf\<close> with a given room: the formatted text is an argument, \<open>None\<close> for a formatting error;
  at most \<open>room - 1\<close> of its bytes and a terminator are stored.
\<close>

definition vsnprintf :: "pipewriter \<Rightarrow> nat \<Rightarrow> bytes \<Rightarrow> pipewriter" where
  "vsnprintf pw room s =
     (if room = 0 then pw else poke pw (ioxd__pipewriter_at pw) (take (room - 1) s @ [NUL]))"

definition write_formatted_heap :: "ctx \<Rightarrow> bool \<Rightarrow> bytes \<Rightarrow> (int \<times> ctx) option" where
  "write_formatted_heap cx malloc_ok s = (if \<not> malloc_ok then Some (fail cx) else ioxd_write cx s)"

definition ioxd_printf :: "ctx \<Rightarrow> bool \<Rightarrow> bytes option \<Rightarrow> (int \<times> ctx) option" where
  "ioxd_printf cx malloc_ok formatted =
     (if rs_failed (cx_res cx) then Some (- 1, cx)
      else case formatted of
        None \<Rightarrow> Some (- 1, cx)
      | Some s \<Rightarrow>
          let pw = WRITER cx; room = ioxd__pipewriter_room pw; n = length s;
              cx = set_writer (vsnprintf pw room s) (cx_io cx) cx
          in if n < room then Some (0, set_writer (ioxd__pipewriter_advance (WRITER cx) n) (cx_io cx) cx)
          else if n \<ge> pw_cap (WRITER cx) then write_formatted_heap cx malloc_ok s
          else do {
            (rc, cx) \<leftarrow> flush cx FLUSH_FULL;
            (if rc = 0 then
               let pw = vsnprintf (WRITER cx) (pw_cap (WRITER cx)) s
               in Some (0, set_writer (ioxd__pipewriter_advance pw n) (cx_io cx) cx)
             else Some (- 1, cx)) })"

definition ioxd_flush :: "ctx \<Rightarrow> (int \<times> ctx) option" where
  "ioxd_flush cx = flush cx FLUSH_ASKED"

definition ioxd_reserve :: "ctx \<Rightarrow> nat \<Rightarrow> (nat option \<times> ctx) option" where
  "ioxd_reserve cx n =
     (if rs_failed (cx_res cx) \<or> n > pw_cap (WRITER cx) then Some (None, cx)
      else if n > ioxd__pipewriter_room (WRITER cx) then do {
        (rc, cx) \<leftarrow> flush cx FLUSH_FULL;
        (if rc < 0 then Some (None, cx) else Some (Some (ioxd__pipewriter_at (WRITER cx)), cx)) }
      else Some (Some (ioxd__pipewriter_at (WRITER cx)), cx))"

definition ioxd_advance :: "ctx \<Rightarrow> nat \<Rightarrow> ctx" where
  "ioxd_advance cx n = set_writer (ioxd__pipewriter_advance (WRITER cx) n) (cx_io cx) cx"

end
