(* ===== verification/Reply_Wire.thy ===== *)
theory Reply_Wire
  imports Reply
begin

text \<open>
  What a reply puts on the wire: the span of the slab under the calls that put a head, a chunk's
  frame or a terminator around it, one flush, and then any sequence of the calls a handler makes,
  up to and including \<open>finish\<close>.  The reply has no filter and no delegate here, so every call
  returns.
\<close>

section \<open>Around the span\<close>

text \<open>A writer as the engine sets it up: the lead takes a chunk's size line, the slack its end and a terminator.\<close>

definition engine_slab :: "pipewriter \<Rightarrow> bool" where
  "engine_slab pw \<longleftrightarrow> writer_ok pw \<and> pw_lead pw \<ge> 16 \<and> pw_slack pw \<ge> 7 \<and> pw_cap pw > 0"

definition clean :: "pipewriter \<Rightarrow> bool" where
  "clean pw \<longleftrightarrow> pw_head pw = 0 \<and> pw_tail pw = 0"

definition pending :: "pipewriter \<Rightarrow> bytes" where
  "pending pw = memread (pw_buf pw) (pw_lead pw) (pw_len pw)"

lemma pending_length: "writer_ok pw \<Longrightarrow> length (pending pw) = pw_len pw"
  by (auto simp: writer_ok_def pending_def)

lemma clean_span: "clean pw \<Longrightarrow> span pw = pending pw"
  by (simp add: clean_def span_def pending_def)

lemma front_span:
  assumes ok: "writer_ok pw" and n: "length s \<le> pw_lead pw - pw_head pw"
    and f: "ioxd__pipewriter_front pw (length s) = (r, q)"
  defines "pw' \<equiv> poke q (the r) s"
  shows "r \<noteq> None" "writer_ok pw'" "span pw' = s @ span pw" "same_slab pw pw'" "pw_len pw' = pw_len pw"
    "pw_tail pw' = pw_tail pw" "pw_head pw' = pw_head pw + length s" "pw_failed pw' = pw_failed pw"
proof -
  define off where "off = pw_lead pw - (pw_head pw + length s)"
  have e: "r = Some off" "q = pw\<lparr>pw_head := pw_head pw + length s\<rparr>"
    using f n by (auto simp: ioxd__pipewriter_front_def Let_def off_def split: if_splits)
  have b: "off + length s = pw_lead pw - pw_head pw" "pw_head pw \<le> pw_lead pw" "off + length s \<le> length (pw_buf pw)"
    using ok n by (auto simp: writer_ok_def off_def)
  show "r \<noteq> None" "same_slab pw pw'" "pw_len pw' = pw_len pw" "pw_tail pw' = pw_tail pw"
    "pw_head pw' = pw_head pw + length s" "pw_failed pw' = pw_failed pw"
    by (simp_all add: e pw'_def poke_def same_slab_def)
  show "writer_ok pw'" using ok n b by (auto simp: e pw'_def poke_def writer_ok_def)
  have "span pw' = memread (memwrite (pw_buf pw) off s) off (length s + (pw_head pw + pw_len pw + pw_tail pw))"
    by (simp add: e pw'_def poke_def span_def off_def ac_simps)
  also have "\<dots> = s @ memread (pw_buf pw) (pw_lead pw - pw_head pw) (pw_head pw + pw_len pw + pw_tail pw)"
    using b by (simp only: memread_append) (simp add: memread_memwrite_same memread_memwrite_after)
  finally show "span pw' = s @ span pw" by (simp add: span_def)
qed

lemma back_span:
  assumes ok: "writer_ok pw" and n: "length s \<le> pw_slack pw - pw_tail pw"
    and f: "ioxd__pipewriter_back pw (length s) = (r, q)"
  defines "pw' \<equiv> poke q (the r) s"
  shows "r \<noteq> None" "writer_ok pw'" "span pw' = span pw @ s" "same_slab pw pw'" "pw_len pw' = pw_len pw"
    "pw_tail pw' = pw_tail pw + length s" "pw_head pw' = pw_head pw" "pw_failed pw' = pw_failed pw"
proof -
  define off where "off = pw_lead pw + pw_len pw + pw_tail pw"
  have e: "r = Some off" "q = pw\<lparr>pw_tail := pw_tail pw + length s\<rparr>"
    using f n by (auto simp: ioxd__pipewriter_back_def off_def split: if_splits)
  have b: "off + length s \<le> length (pw_buf pw)" "pw_head pw \<le> pw_lead pw" "pw_tail pw + length s \<le> pw_slack pw"
    using ok n by (auto simp: writer_ok_def off_def)
  show "r \<noteq> None" "same_slab pw pw'" "pw_len pw' = pw_len pw" "pw_tail pw' = pw_tail pw + length s"
    "pw_head pw' = pw_head pw" "pw_failed pw' = pw_failed pw"
    by (simp_all add: e pw'_def poke_def same_slab_def)
  show "writer_ok pw'" using ok b by (auto simp: e pw'_def poke_def writer_ok_def)
  have "span pw' = memread (memwrite (pw_buf pw) off s) (pw_lead pw - pw_head pw) (off - (pw_lead pw - pw_head pw) + length s)"
    using b by (simp add: e pw'_def poke_def span_def off_def ac_simps)
  also have "\<dots> = memread (pw_buf pw) (pw_lead pw - pw_head pw) (off - (pw_lead pw - pw_head pw)) @ s"
    using b by (intro memread_write_end) (auto simp: off_def)
  also have "off - (pw_lead pw - pw_head pw) = pw_head pw + pw_len pw + pw_tail pw" using b by (auto simp: off_def)
  finally show "span pw' = span pw @ s" by (simp add: span_def)
qed

definition chunk :: "bytes \<Rightarrow> bytes" where
  "chunk d = put_hex (length d) @ CRLF @ d @ CRLF"

lemma hex_short: "v < 2 ^ 32 \<Longrightarrow> length (put_hex v) \<le> 8"
  using put_hex_length[of v 7] by simp

text \<open>A writer that came out of putting something around another one's span.\<close>

definition around :: "bytes \<Rightarrow> bytes \<Rightarrow> pipewriter \<Rightarrow> pipewriter \<Rightarrow> bool" where
  "around a b pw pw' \<longleftrightarrow>
     writer_ok pw' \<and> same_slab pw pw' \<and> span pw' = a @ span pw @ b \<and> pw_len pw' = pw_len pw \<and>
     pw_head pw' = pw_head pw + length a \<and> pw_tail pw' = pw_tail pw + length b \<and> pw_failed pw' = pw_failed pw"

lemma frame_chunk_ok:
  assumes s: "engine_slab pw" and c: "clean pw"
  shows "fst (frame_chunk pw) \<and> around (put_hex (pw_len pw) @ CRLF) CRLF pw (snd (frame_chunk pw))"
proof -
  define line where "line = put_hex (pw_len pw) @ CRLF"
  have ok: "writer_ok pw" and room: "16 \<le> pw_lead pw" "7 \<le> pw_slack pw" using s by (auto simp: engine_slab_def)
  have z: "pw_head pw = 0" "pw_tail pw = 0" using c by (auto simp: clean_def)
  have "pw_len pw < 2 ^ 32" using ok by (auto simp: writer_ok_def)
  then have l: "length line \<le> pw_lead pw - pw_head pw" using hex_short[of "pw_len pw"] room z by (simp add: line_def)
  obtain r q where f: "ioxd__pipewriter_front pw (length line) = (r, q)" by fastforce
  note fs = front_span[OF ok l f]
  have q: "q = pw\<lparr>pw_head := length line\<rparr>" using f l z by (auto simp: ioxd__pipewriter_front_def Let_def split: if_splits)
  obtain r' q' where k: "ioxd__pipewriter_back q 2 = (r', q')" by fastforce
  have k': "ioxd__pipewriter_back (poke q (the r) line) (length CRLF) = (r', poke q' (the r) line)"
    using k by (auto simp: ioxd__pipewriter_back_def poke_def split: if_splits)
  note bs = back_span[OF fs(2) _ k']
  have l': "length CRLF \<le> pw_slack (poke q (the r) line) - pw_tail (poke q (the r) line)"
    using fs(4,6) room z by (simp add: same_slab_def)
  have res: "frame_chunk pw = (True, poke (poke q' (the r) line) (the r') CRLF)"
    using f k fs(1) bs(1)[OF l'] by (auto simp: frame_chunk_def line_def)
  show ?thesis
    using bs(2-)[OF l'] fs(3-) by (simp add: res around_def line_def[symmetric] same_slab_def)
qed

lemma put_back_ok:
  assumes "writer_ok pw" and "length s \<le> pw_slack pw - pw_tail pw"
  shows "fst (put_back pw s) \<and> around [] s pw (snd (put_back pw s))"
proof -
  obtain r q where f: "ioxd__pipewriter_back pw (length s) = (r, q)" by fastforce
  note b = back_span[OF assms f]
  then have "put_back pw s = (True, poke q (the r) s)" using f by (auto simp: put_back_def)
  then show ?thesis using b by (simp add: around_def)
qed

lemma through_ok:
  assumes ok: "writer_ok pw" and nf: "\<not> pw_failed pw" and n: "length data < 2 ^ 31"
    and t: "ioxd__pipewriter_through pw w data = (rc, pw', w')"
  shows "writer_ok pw' \<and> same_slab pw pw' \<and> span pw' = span pw \<and> pw_head pw' = pw_head pw \<and> pw_len pw' = pw_len pw \<and> pw_tail pw' = pw_tail pw \<and>
    (rc = 0 \<or> rc = - 1) \<and> (pw_failed pw' \<longleftrightarrow> rc < 0) \<and>
    (\<exists>out. sent_to w w' out \<and> prefix out data \<and> (rc = 0 \<longrightarrow> out = data))"
proof -
  obtain r x where c: "ioxd__conn_send data w = (r, x)" by (metis surj_pair)
  have "(rc, pw', w') = (if r < 0 then (- 1, pw\<lparr>pw_failed := True\<rparr>, x) else (0, pw, x))"
    using t nf c by (simp add: ioxd__pipewriter_through_def split: if_splits)
  then show ?thesis using conn_send_wire[OF c n] ok nf by (auto simp: writer_ok_def same_slab_def span_def split: if_splits)
qed

definition delivered :: "bytes \<Rightarrow> int \<Rightarrow> pipewriter \<Rightarrow> io \<Rightarrow> pipewriter \<Rightarrow> io \<Rightarrow> bool" where
  "delivered full rc pw w pw' w' \<longleftrightarrow>
     writer_ok pw' \<and> same_slab pw pw' \<and> (rc = 0 \<or> rc = - 1) \<and> (pw_failed pw' \<longleftrightarrow> rc < 0) \<and>
     (rc = 0 \<longrightarrow> clean pw' \<and> pw_len pw' = 0) \<and>
     (\<exists>out. sent_to w w' out \<and> prefix out full \<and> (rc = 0 \<longrightarrow> out = full))"

lemma flush_delivers:
  assumes "writer_ok pw" and "\<not> pw_failed pw" and "length extra < 2 ^ 31"
    and "ioxd__pipewriter_flush_with pw w extra = (rc, pw', w')"
  shows "delivered (span pw @ extra) rc pw w pw' w'"
  using flush_with_ok[OF assms] by (auto simp: delivered_def clean_def split: if_splits)

lemma delivered_after:
  assumes "sent_to w v a" and "delivered b rc q v pw' w'" and "same_slab pw q"
  shows "delivered (a @ b) rc pw w pw' w'"
  using assms sent_to_trans[OF assms(1)] by (fastforce simp: delivered_def same_slab_def)

lemma deliver_ok:
  assumes ok: "writer_ok pw" and nf: "\<not> pw_failed pw" and h: "length head < 2 ^ 31" and n: "length extra < 2 ^ 31"
    and d: "deliver pw w head extra = (rc, pw', w')"
  shows "delivered (head @ span pw @ extra) rc pw w pw' w'"
proof (cases "head = []")
  case True
  then show ?thesis using flush_delivers[OF ok nf n] d by (simp add: deliver_def)
next
  case ne: False
  show ?thesis
  proof (cases "length head \<le> pw_lead pw - pw_head pw")
    case True
    obtain r q where f: "ioxd__pipewriter_front pw (length head) = (r, q)" by fastforce
    note fs = front_span[OF ok True f]
    have "ioxd__pipewriter_flush_with (poke q (the r) head) w extra = (rc, pw', w')"
      using d ne f fs(1) by (auto simp: deliver_def put_head_def)
    from flush_delivers[OF fs(2) _ n this] show ?thesis using fs nf by (simp add: delivered_def same_slab_def)
  next
    case False
    then have f: "ioxd__pipewriter_front pw (length head) = (None, pw)" by (simp add: ioxd__pipewriter_front_def)
    obtain r q v where t: "ioxd__pipewriter_through pw w head = (r, q, v)" by (metis surj_pair)
    note th = through_ok[OF ok nf h t]
    obtain out where o: "sent_to w v out" "prefix out head" "r = 0 \<longrightarrow> out = head" using th by blast
    show ?thesis
    proof (cases "r < 0")
      case True
      then have "rc = r" "pw' = q" "w' = v" using d ne f t by (auto simp: deliver_def put_head_def)
      then show ?thesis using True th o by (auto simp: delivered_def intro: prefix_order.trans)
    next
      case False
      then have fl: "ioxd__pipewriter_flush_with q v extra = (rc, pw', w')" and r: "r = 0"
        using d ne f t th by (auto simp: deliver_def put_head_def)
      have "delivered (span q @ extra) rc q v pw' w'" using flush_delivers[OF _ _ n fl] th False by simp
      then show ?thesis using delivered_after[OF o(1)] o(3) r th by simp
    qed
  qed
qed


section \<open>One flush\<close>

lemma ctx_access [simp]:
  "WRITER (set_writer pw w cx) = pw" "cx_io (set_writer pw w cx) = w" "cx_res (set_writer pw w cx) = cx_res cx"
  "cx_st (set_writer pw w cx) = cx_st cx" "cx_req (set_writer pw w cx) = cx_req cx"
  "p_in (cx_pipe (set_writer pw w cx)) = p_in (cx_pipe cx)"
  "WRITER (upd_res f cx) = WRITER cx" "cx_io (upd_res f cx) = cx_io cx" "cx_res (upd_res f cx) = f (cx_res cx)"
  "cx_st (upd_res f cx) = cx_st cx" "cx_req (upd_res f cx) = cx_req cx" "cx_pipe (upd_res f cx) = cx_pipe cx"
  "WRITER (upd_st g cx) = WRITER cx" "cx_io (upd_st g cx) = cx_io cx" "cx_res (upd_st g cx) = cx_res cx"
  "cx_st (upd_st g cx) = g (cx_st cx)" "cx_req (upd_st g cx) = cx_req cx" "cx_pipe (upd_st g cx) = cx_pipe cx"
  "WRITER (set_coded cw w cx) = WRITER cx" "cx_io (set_coded cw w cx) = w" "cx_res (set_coded cw w cx) = cx_res cx"
  "cx_st (set_coded cw w cx) = (cx_st cx)\<lparr>st_coded := cw\<rparr>" "cx_req (set_coded cw w cx) = cx_req cx"
  "cx_pipe (set_coded cw w cx) = cx_pipe cx"
  by (simp_all add: WRITER_def set_writer_def upd_res_def upd_st_def set_coded_def)

lemma fail_simps [simp]: "fst (fail cx) = - 1" "snd (fail cx) = upd_res (\<lambda>r. r\<lparr>rs_failed := True\<rparr>) cx"
  by (simp_all add: fail_def)

text \<open>The body part of a flush: the slab as it is or as a chunk, the extra bytes, the terminator.\<close>

definition framed_body :: "bool \<Rightarrow> bool \<Rightarrow> bytes \<Rightarrow> bytes" where
  "framed_body chunked final d =
     (if chunked then (if d \<noteq> [] then chunk d else []) @ (if final then put_terminator else []) else d)"

definition same_but_out :: "ctx \<Rightarrow> ctx \<Rightarrow> bool" where
  "same_but_out cx cx' \<longleftrightarrow> cx_req cx' = cx_req cx \<and> cx_st cx' = cx_st cx \<and> p_in (cx_pipe cx') = p_in (cx_pipe cx)"

lemma same_but_out_simps [simp]:
  "same_but_out cx (set_writer pw w cx') = same_but_out cx cx'" "same_but_out cx (upd_res f cx') = same_but_out cx cx'"
  "same_but_out cx cx"
  by (simp_all add: same_but_out_def)

lemma truncated_writer:
  assumes "engine_slab pw" and "clean pw" and "n \<le> pw_len pw"
  shows "engine_slab (pw\<lparr>pw_len := n\<rparr>)" "clean (pw\<lparr>pw_len := n\<rparr>)" "pending (pw\<lparr>pw_len := n\<rparr>) = take n (pending pw)"
  using assms by (auto simp: engine_slab_def writer_ok_def clean_def pending_def memread_take)

lemma around_trans: "around a b p q \<Longrightarrow> around c d q r \<Longrightarrow> around (c @ a) (b @ d) p r"
  by (auto simp: around_def same_slab_def)

lemma frame_slab_ok:
  assumes s: "engine_slab sw" and c: "clean sw"
  obtains sw' where "frame_slab chunked final sw = (True, True, sw')" "writer_ok sw'" "same_slab sw sw'"
    "pw_failed sw' = pw_failed sw" "span sw' = framed_body chunked final (pending sw)"
proof -
  define q where "q = (if chunked \<and> pw_len sw \<noteq> 0 then snd (frame_chunk sw) else sw)"
  define a b where "a = (if chunked \<and> pw_len sw \<noteq> 0 then put_hex (pw_len sw) @ CRLF else [])"
    and "b = (if chunked \<and> pw_len sw \<noteq> 0 then CRLF else [])"
  have ok: "writer_ok sw" "7 \<le> pw_slack sw" using s by (auto simp: engine_slab_def)
  have q: "around a b sw q" using frame_chunk_ok[OF s c] ok by (auto simp: q_def a_def b_def around_def same_slab_def)
  define r where "r = (if final \<and> chunked then snd (put_back q put_terminator) else q)"
  have "length put_terminator \<le> pw_slack q - pw_tail q"
    using q ok c by (auto simp: around_def same_slab_def clean_def b_def put_terminator_def)
  then have pb: "fst (put_back q put_terminator) \<and> around [] put_terminator q (snd (put_back q put_terminator))"
    using q by (intro put_back_ok) (auto simp: around_def)
  have r: "around a (b @ (if final \<and> chunked then put_terminator else [])) sw r"
    using around_trans[OF q, of "[]" put_terminator r] pb q by (auto simp: r_def)
  have "frame_slab chunked final sw = (True, True, r)"
  proof (cases "chunked \<and> pw_len sw \<noteq> 0")
    case True
    then have "frame_chunk sw = (True, q)" using frame_chunk_ok[OF s c] by (auto simp: q_def prod_eq_iff)
    then show ?thesis using True pb by (auto simp: frame_slab_def r_def prod_eq_iff split: prod.splits)
  next
    case False
    then show ?thesis using pb by (auto simp: frame_slab_def r_def q_def prod_eq_iff split: prod.splits)
  qed
  moreover have "span r = framed_body chunked final (pending sw)"
    using r clean_span[OF c] pending_length[OF ok(1)] by (auto simp: around_def a_def b_def framed_body_def chunk_def)
  ultimately show thesis using that r by (auto simp: around_def)
qed

lemma send_framed_ok:
  assumes s: "engine_slab (WRITER cx)" and c: "clean (WRITER cx)" and nf: "\<not> pw_failed (WRITER cx)"
    and h: "length head < 2 ^ 31" and x: "length extra < 2 ^ 31"
    and cl: "clamp (cx_res cx) (pw_len (WRITER cx)) (length extra) = (len, xlen, over)" and l: "len \<le> pw_len (WRITER cx)"
    and r: "send_framed False cx final head extra = (rc, cx')"
  defines "full \<equiv> head @ framed_body (rs_chunked (cx_res cx)) final (take len (pending (WRITER cx))) @ take xlen extra"
  shows "same_but_out cx cx' \<and> engine_slab (WRITER cx') \<and> same_slab (WRITER cx) (WRITER cx') \<and> (rc = 0 \<or> rc = - 1) \<and>
    cx_res cx' = (cx_res cx)\<lparr>rs_body_sent := rs_body_sent (cx_res cx) + of_nat (len + xlen), rs_failed := rs_failed (cx_res cx) \<or> rc < 0\<rparr> \<and>
    (rc = 0 \<longrightarrow> clean (WRITER cx') \<and> pw_len (WRITER cx') = 0 \<and> \<not> pw_failed (WRITER cx') \<and> \<not> over) \<and>
    (\<exists>out. sent_to (cx_io cx) (cx_io cx') out \<and> prefix out full \<and> (rc = 0 \<longrightarrow> out = full))"
proof -
  define sw where "sw = (WRITER cx)\<lparr>pw_len := len\<rparr>"
  have sw: "engine_slab sw" "clean sw" "pending sw = take len (pending (WRITER cx))" "\<not> pw_failed sw" "same_slab (WRITER cx) sw"
    using truncated_writer[OF s c l] nf by (auto simp: sw_def same_slab_def)
  obtain q where q: "frame_slab (rs_chunked (cx_res cx)) final sw = (True, True, q)" "writer_ok q" "same_slab sw q"
    "pw_failed q = pw_failed sw" "span q = framed_body (rs_chunked (cx_res cx)) final (pending sw)"
    by (rule frame_slab_ok[OF sw(1,2)])
  define cx1 where "cx1 = upd_res (\<lambda>r. r\<lparr>rs_body_sent := rs_body_sent r + of_nat (len + xlen)\<rparr>) cx"
  obtain d p w where dl: "deliver q (cx_io cx) head (take xlen extra) = (d, p, w)" by (metis surj_pair)
  have "length (take xlen extra) < 2 ^ 31" using x by simp
  then have D: "delivered full d q (cx_io cx) p w"
    using deliver_ok[OF q(2) _ h _ dl] q sw by (simp add: full_def)
  have "(rc, cx') = (if d < 0 \<or> over then fail (set_writer p w cx1) else (0, set_writer p w cx1))"
    using r q(1) cl dl
    by (simp add: send_framed_def send_writer_def set_send_writer_def sw_def[symmetric] cx1_def fail_def Let_def split: if_splits)
  then have e: "rc = (if d < 0 \<or> over then - 1 else 0)"
    "cx' = (if d < 0 \<or> over then upd_res (\<lambda>r. r\<lparr>rs_failed := True\<rparr>) (set_writer p w cx1) else set_writer p w cx1)"
    by (auto simp: fail_def split: if_splits)
  have ss: "same_slab (WRITER cx) p" using sw(5) q(3) D by (auto simp: delivered_def same_slab_def)
  then have "engine_slab p" using s D by (auto simp: engine_slab_def delivered_def same_slab_def)
  then show ?thesis using e D ss by (auto simp: cx1_def delivered_def)
qed

text \<open>What is held back never exceeds what the declared length leaves.\<close>

lemma clamp_ok:
  assumes "clamp res len xlen = (l, x, over)" and "len < 2 ^ 31" and "xlen < 2 ^ 31"
  shows "l \<le> len" "x \<le> xlen" "\<not> over \<Longrightarrow> l = len \<and> x = xlen"
    "rs_has_length res \<Longrightarrow> l + x \<le> unat (rs_content_length res - rs_body_sent res)"
proof -
  define left where "left = rs_content_length res - rs_body_sent res"
  have u: "unat (of_nat len :: u64) = len" "unat (of_nat xlen :: u64) = xlen"
    using assms(2,3) by (intro unat_of_nat_less; simp)+
  have "l \<le> len \<and> x \<le> xlen \<and> (\<not> over \<longrightarrow> l = len \<and> x = xlen) \<and> (rs_has_length res \<longrightarrow> l + x \<le> unat left)"
  proof (cases "rs_has_length res")
    case False
    then show ?thesis using assms(1) by (auto simp: clamp_def)
  next
    case True
    show ?thesis
    proof (cases "of_nat len > left")
      case True
      then have "(l, x, over) = (if of_nat xlen > (0 :: u64) then (unat left, 0, True) else (unat left, xlen, True))"
        using assms(1) \<open>rs_has_length res\<close> by (auto simp: clamp_def Let_def left_def[symmetric] split: if_splits)
      then show ?thesis using True u by (auto simp: word_less_nat_alt split: if_splits)
    next
      case False
      then have le: "unat (left - of_nat len) = unat left - len" "len \<le> unat left" using u by (simp_all add: unat_sub word_le_nat_alt not_less)
      have "(l, x, over) = (if of_nat xlen > left - of_nat len then (len, unat left - len, True) else (len, xlen, False))"
        using assms(1) \<open>rs_has_length res\<close> False le by (auto simp: clamp_def Let_def left_def[symmetric] split: if_splits)
      then show ?thesis using le u by (auto simp: word_less_nat_alt split: if_splits)
    qed
  qed
  then show "l \<le> len" "x \<le> xlen" "\<not> over \<Longrightarrow> l = len \<and> x = xlen"
    "rs_has_length res \<Longrightarrow> l + x \<le> unat (rs_content_length res - rs_body_sent res)" by (auto simp: left_def)
qed

definition plain :: "ctx \<Rightarrow> bool" where
  "plain cx \<longleftrightarrow> st_filter (cx_st cx) = None \<and> st_on_head (cx_st cx) = None"

lemma flush_with_plain:
  assumes "plain cx" and "\<not> rs_failed (cx_res cx)"
  shows "flush_with cx kind extra =
    Some (case first_head cx (kind = FLUSH_FINAL) (pw_len (WRITER cx)) of
       (None, cx) \<Rightarrow> (- 1, cx)
     | (Some head, cx) \<Rightarrow>
         if st_no_body (cx_st cx) then send_head_only cx head else send_framed False cx (kind = FLUSH_FINAL) head extra)"
  using assms by (auto simp: flush_with_def plain_def run_on_head_def send_writer_def split: prod.splits option.splits)

text \<open>The body that a client reads from what is on the wire.\<close>

definition on_wire :: "bool \<Rightarrow> bytes \<Rightarrow> bytes \<Rightarrow> bool" where
  "on_wire chunked body data \<longleftrightarrow>
     (if chunked then \<exists>ps. [] \<notin> set ps \<and> body = concat (map chunk ps) \<and> concat ps = data else body = data)"

lemma on_wire_nothing [simp]: "on_wire chunked [] []"
  by (auto simp: on_wire_def intro: exI[of _ "[]"])

lemma on_wire_more:
  assumes "on_wire chunked body data" and "chunked \<longrightarrow> x = []"
  shows "on_wire chunked (body @ framed_body chunked False d @ x) (data @ d @ x)"
proof (cases chunked)
  case True
  then obtain ps where ps: "[] \<notin> set ps" "body = concat (map chunk ps)" "concat ps = data" using assms by (auto simp: on_wire_def)
  show ?thesis using True ps assms(2)
    by (auto simp: on_wire_def framed_body_def intro!: exI[of _ "ps @ (if d = [] then [] else [d])"])
next
  case False
  then show ?thesis using assms by (simp add: on_wire_def framed_body_def)
qed

definition framing_ok :: "response \<Rightarrow> framing \<Rightarrow> nat \<Rightarrow> nat \<Rightarrow> bool" where
  "framing_ok res framing n sent \<longleftrightarrow>
     (if rs_chunked res then framing = FRAME_CHUNKED \<and> \<not> rs_has_length res
      else if rs_has_length res then framing = FRAME_LENGTH \<and> n = unat (rs_content_length res) \<and> unat (rs_body_sent res) = sent \<and> sent \<le> n
      else framing = FRAME_UNTIL_CLOSE \<and> rs_close res)"

definition bodyless :: "int \<Rightarrow> bool" where
  "bodyless status \<longleftrightarrow> wire_status status < 200 \<or> wire_status status = 204 \<or> wire_status status = 304"

text \<open>
  A reply under way: nothing on the wire and everything written pending, or the head on the wire
  with the part of the body that is not pending any more.
\<close>

text \<open>
  The head that was sent is that of a response \<open>hr\<close>: its status, content type and headers; a status without a body is not framed as chunks.
\<close>

definition same_shape :: "response \<Rightarrow> response \<Rightarrow> bool" where
  "same_shape hr res \<longleftrightarrow> rs_status res = rs_status hr \<and> rs_content_type res = rs_content_type hr \<and> rs_headers res = rs_headers hr \<and>
     rs_head res = rs_head hr \<and> rs_head_len res = rs_head_len hr \<and> (rs_close hr \<longrightarrow> rs_close res)"

definition sent_head :: "response \<Rightarrow> response \<Rightarrow> framing \<Rightarrow> nat \<Rightarrow> bool" where
  "sent_head hr res0 framing n \<longleftrightarrow> same_shape hr res0 \<and> resp_ok res0 \<and> type_short res0 \<and> n < 2 ^ 64 \<and>
     (bodyless (rs_status res0) \<longrightarrow> framing = FRAME_NONE \<or> framing = FRAME_LENGTH)"

lemma same_shape_refl [simp]: "same_shape hr hr"
  by (simp add: same_shape_def)

definition under_way :: "response \<Rightarrow> io \<Rightarrow> bytes \<Rightarrow> ctx \<Rightarrow> bool" where
  "under_way hr w0 written cx \<longleftrightarrow>
     (\<exists>res0 framing n body data.
        sent_to w0 (cx_io cx) (head_text (cx_req cx) res0 framing n @ body) \<and> (st_head_only (cx_st cx) \<or> sent_head hr res0 framing n) \<and>
        (rs_close res0 \<longrightarrow> rs_close (cx_res cx)) \<and>
        (st_no_body (cx_st cx) \<longleftrightarrow> st_head_only (cx_st cx) \<or> bodyless (rs_status res0)) \<and>
        (if st_no_body (cx_st cx) then body = [] \<and> (rs_chunked (cx_res cx) \<longrightarrow> st_head_only (cx_st cx))
         else on_wire (rs_chunked (cx_res cx)) body data \<and> data @ pending (WRITER cx) = written \<and>
           framing_ok (cx_res cx) framing n (length data)))"

definition replying :: "request \<times> bool \<Rightarrow> response \<Rightarrow> io \<Rightarrow> bytes \<Rightarrow> ctx \<Rightarrow> bool" where
  "replying G hr w0 written cx \<longleftrightarrow>
     G = (cx_req cx, st_head_only (cx_st cx)) \<and> plain cx \<and> engine_slab (WRITER cx) \<and> clean (WRITER cx) \<and> \<not> pw_failed (WRITER cx) \<and>
     \<not> rs_failed (cx_res cx) \<and> resp_ok (cx_res cx) \<and> type_short (cx_res cx) \<and>
     (if rs_head_sent (cx_res cx) then under_way hr w0 written cx
      else sent_to w0 (cx_io cx) [] \<and> pending (WRITER cx) = written \<and> rs_body_sent (cx_res cx) = 0 \<and> \<not> rs_chunked (cx_res cx) \<and>
        same_shape hr (cx_res cx) \<and> \<not> rs_head_sent hr \<and> (rs_close (cx_res cx) \<longrightarrow> rs_close hr))"

definition same_head :: "response \<Rightarrow> response \<Rightarrow> bool" where
  "same_head res res' \<longleftrightarrow>
     rs_head res' = rs_head res \<and> rs_head_len res' = rs_head_len res \<and> rs_headers res' = rs_headers res \<and>
     rs_content_type res' = rs_content_type res \<and> rs_failed res' = rs_failed res \<and> rs_body_sent res' = rs_body_sent res \<and>
     rs_has_length res' = rs_has_length res \<and> rs_head_sent res' = rs_head_sent res \<and> rs_status res' = rs_status res"

lemma same_head_trans: "same_head a b \<Longrightarrow> same_head b c \<Longrightarrow> same_head a c"
  by (simp add: same_head_def)

lemma choose_framing_same: "same_head res (snd (choose_framing req res final))"
  by (simp add: choose_framing_def same_head_def Let_def)

lemma drain_or_close_same: "same_head res (drain_or_close req st res)"
  by (simp add: drain_or_close_def same_head_def Let_def)

lemma drain_or_close_rest [simp]:
  "rs_chunked (drain_or_close req st res) = rs_chunked res" "rs_content_length (drain_or_close req st res) = rs_content_length res"
  "rs_close res \<Longrightarrow> rs_close (drain_or_close req st res)"
  by (simp_all add: drain_or_close_def Let_def)

lemma decide_framing_fields:
  assumes "decide_framing cx final len = (framing, n, cx')"
  shows "cx_req cx' = cx_req cx" "cx_io cx' = cx_io cx" "cx_pipe cx' = cx_pipe cx" "WRITER cx' = WRITER cx"
    "cx_st cx' = (cx_st cx)\<lparr>st_no_body := st_no_body (cx_st cx')\<rparr>" "same_head (cx_res cx) (cx_res cx')"
proof -
  define res where "res = (if rs_has_length (cx_res cx) \<and> \<not> (rs_has_length (cx_res cx) \<and> (\<not> final \<or> st_head_only (cx_st cx) \<or>
      wire_status (rs_status (cx_res cx)) < 200 \<or> wire_status (rs_status (cx_res cx)) = 204 \<or> wire_status (rs_status (cx_res cx)) = 304))
      then (cx_res cx)\<lparr>rs_content_length := of_nat len\<rparr> else cx_res cx)"
  have "same_head (cx_res cx) res" by (simp add: res_def same_head_def)
  then have r: "same_head (cx_res cx) (drain_or_close (cx_req cx) (cx_st cx) (snd (choose_framing (cx_req cx) res final)))"
    using same_head_trans choose_framing_same drain_or_close_same by blast
  have e: "\<exists>b. cx' = cx\<lparr>cx_res := drain_or_close (cx_req cx) (cx_st cx) (snd (choose_framing (cx_req cx) res final)), cx_st := (cx_st cx)\<lparr>st_no_body := b\<rparr>\<rparr>"
    using assms by (simp only: decide_framing_def Let_def res_def[symmetric]) (auto split: prod.splits)
  show "cx_req cx' = cx_req cx" "cx_io cx' = cx_io cx" "cx_pipe cx' = cx_pipe cx" "WRITER cx' = WRITER cx"
    "cx_st cx' = (cx_st cx)\<lparr>st_no_body := st_no_body (cx_st cx')\<rparr>" "same_head (cx_res cx) (cx_res cx')"
    using e r by (auto simp: WRITER_def)
qed

lemma first_head_sent:
  assumes "resp_ok (cx_res cx)" and "type_short (cx_res cx)" and "\<not> rs_head_sent (cx_res cx)"
    and "decide_framing cx final len = (framing, n, cx1)"
  shows "first_head cx final len = (Some (head_text (cx_req cx) (cx_res cx1) framing (unat n)), upd_res (\<lambda>r. r\<lparr>rs_head_sent := True\<rparr>) cx1)"
    and "length (head_text (cx_req cx) (cx_res cx1) framing (unat n)) < 2 ^ 31"
    and "resp_ok (cx_res cx1)" and "type_short (cx_res cx1)" and "head_text (cx_req cx) (cx_res cx1) framing (unat n) \<noteq> []"
proof -
  note f = decide_framing_fields[OF assms(4)]
  show ok: "resp_ok (cx_res cx1)" "type_short (cx_res cx1)"
    using assms(1,2) resp_ok_cong(1)[of "cx_res cx1" "cx_res cx"] f(6) by (simp_all add: type_short_def same_head_def)
  have "unat n < 2 ^ 64" using unsigned_less[of n, where 'a = nat] by simp
  from head_text_length[OF ok this, of "cx_req cx" framing]
  have l: "length (head_text (cx_req cx) (cx_res cx1) framing (unat n)) + 20 \<le> IOXD_HEAD_CAP" .
  then show "length (head_text (cx_req cx) (cx_res cx1) framing (unat n)) < 2 ^ 31" by simp
  show "first_head cx final len = (Some (head_text (cx_req cx) (cx_res cx1) framing (unat n)), upd_res (\<lambda>r. r\<lparr>rs_head_sent := True\<rparr>) cx1)"
    using assms(3,4) build_head_fits[OF l] f(1) by (simp add: first_head_def)
  show "head_text (cx_req cx) (cx_res cx1) framing (unat n) \<noteq> []" by (simp add: head_text_def)
qed

lemma head_only_ok:
  assumes "engine_slab (WRITER cx)" and "\<not> pw_failed (WRITER cx)" and "length head < 2 ^ 31"
    and "send_head_only cx head = (rc, cx')"
  shows "cx_req cx' = cx_req cx \<and> p_in (cx_pipe cx') = p_in (cx_pipe cx) \<and>
    (\<exists>cw. cx_st cx' = (cx_st cx)\<lparr>st_coded := cw\<rparr>) \<and> engine_slab (WRITER cx') \<and> same_slab (WRITER cx) (WRITER cx') \<and> (rc = 0 \<or> rc = - 1) \<and>
    cx_res cx' = (cx_res cx)\<lparr>rs_failed := rs_failed (cx_res cx) \<or> rc < 0\<rparr> \<and>
    clean (WRITER cx') \<and> pw_len (WRITER cx') = 0 \<and> (rc = 0 \<longrightarrow> \<not> pw_failed (WRITER cx')) \<and>
    (\<exists>out. sent_to (cx_io cx) (cx_io cx') out \<and> prefix out head \<and> (rc = 0 \<longrightarrow> out = head))"
proof -
  define q where "q = ioxd__pipewriter_reset (WRITER cx)"
  have q: "writer_ok q" "\<not> pw_failed q" "same_slab (WRITER cx) q" "pw_head q = 0" "pw_len q = 0" "pw_tail q = 0"
    using assms(1,2) by (auto simp: q_def ioxd__pipewriter_reset_def engine_slab_def writer_ok_def same_slab_def)
  define cx1 where "cx1 = set_coded (ioxd__pipewriter_reset (st_coded (cx_st cx))) (cx_io cx) (set_writer q (cx_io cx) cx)"
  obtain r p w where t: "(if head \<noteq> [] then ioxd__pipewriter_through q (cx_io cx) head else (0, q, cx_io cx)) = (r, p, w)" by (metis surj_pair)
  have T: "writer_ok p \<and> same_slab q p \<and> pw_head p = 0 \<and> pw_len p = 0 \<and> pw_tail p = 0 \<and> (r = 0 \<or> r = - 1) \<and> (pw_failed p \<longleftrightarrow> r < 0) \<and>
      (\<exists>out. sent_to (cx_io cx) w out \<and> prefix out head \<and> (r = 0 \<longrightarrow> out = head))"
    using through_ok[OF q(1,2) assms(3)] t q by (cases "head = []") (simp_all add: same_slab_def)
  have "(rc, cx') = (if r < 0 then fail (set_writer p w cx1) else (0, set_writer p w cx1))"
    using assms(4) t by (cases "head = []"; cases "r < 0") (simp_all add: send_head_only_def q_def[symmetric] cx1_def Let_def)
  moreover have r: "r = 0 \<or> r = - 1" using T by blast
  ultimately have e: "rc = r" "cx' = (if r < 0 then upd_res (\<lambda>r. r\<lparr>rs_failed := True\<rparr>) (set_writer p w cx1) else set_writer p w cx1)"
    by (cases "r < 0"; simp add: fail_def)+
  have es: "engine_slab p" using T q(3) assms(1) by (auto simp: engine_slab_def same_slab_def)
  have ss: "same_slab (WRITER cx) p" using T q(3) by (auto simp: same_slab_def)
  have f: "cx_req cx' = cx_req cx" "p_in (cx_pipe cx') = p_in (cx_pipe cx)" "WRITER cx' = p" "cx_io cx' = w"
    "cx_st cx' = (cx_st cx)\<lparr>st_coded := ioxd__pipewriter_reset (st_coded (cx_st cx))\<rparr>"
    "cx_res cx' = (cx_res cx)\<lparr>rs_failed := rs_failed (cx_res cx) \<or> r < 0\<rparr>"
    by (cases "r < 0"; simp add: e(2) cx1_def)+
  show ?thesis
    unfolding f e(1) using T es ss f(5) by (simp add: clean_def) blast
qed

text \<open>The state between the decision on the head and the send of a flush that is not the last.\<close>

definition about_to_send :: "request \<times> bool \<Rightarrow> response \<Rightarrow> io \<Rightarrow> bytes \<Rightarrow> ctx \<Rightarrow> bytes \<Rightarrow> bool" where
  "about_to_send G hr w0 written cx head \<longleftrightarrow>
     G = (cx_req cx, st_head_only (cx_st cx)) \<and> plain cx \<and> engine_slab (WRITER cx) \<and> clean (WRITER cx) \<and> \<not> pw_failed (WRITER cx) \<and>
     \<not> rs_failed (cx_res cx) \<and> resp_ok (cx_res cx) \<and> type_short (cx_res cx) \<and> rs_head_sent (cx_res cx) \<and> length head < 2 ^ 31 \<and>
     (\<exists>res0 framing n body data out.
        sent_to w0 (cx_io cx) out \<and> out @ head = head_text (cx_req cx) res0 framing n @ body \<and> (st_head_only (cx_st cx) \<or> sent_head hr res0 framing n) \<and>
        (rs_close res0 \<longrightarrow> rs_close (cx_res cx)) \<and>
        (st_no_body (cx_st cx) \<longleftrightarrow> st_head_only (cx_st cx) \<or> bodyless (rs_status res0)) \<and>
        (if st_no_body (cx_st cx) then body = [] \<and> (rs_chunked (cx_res cx) \<longrightarrow> st_head_only (cx_st cx))
         else on_wire (rs_chunked (cx_res cx)) body data \<and> data @ pending (WRITER cx) = written \<and>
           framing_ok (cx_res cx) framing n (length data)))"

lemma decide_no_body:
  assumes "decide_framing cx final len = (framing, n, cx1)" and "\<not> rs_chunked (cx_res cx)"
  shows "st_no_body (cx_st cx1) \<longleftrightarrow> st_head_only (cx_st cx1) \<or> bodyless (rs_status (cx_res cx1))"
    and "st_no_body (cx_st cx1) \<Longrightarrow> rs_chunked (cx_res cx1) \<Longrightarrow> st_head_only (cx_st cx1)"
proof -
  have s: "rs_status (cx_res cx1) = rs_status (cx_res cx)" using decide_framing_fields(6)[OF assms(1)] by (simp add: same_head_def)
  have h: "st_head_only (cx_st cx1) = st_head_only (cx_st cx)" by (subst decide_framing_fields(5)[OF assms(1)]) simp
  have b: "st_no_body (cx_st cx1) \<longleftrightarrow> st_head_only (cx_st cx) \<or> bodyless (rs_status (cx_res cx))"
    using assms(1) by (auto simp: decide_framing_def Let_def bodyless_def split: prod.splits)
  then show "st_no_body (cx_st cx1) \<longleftrightarrow> st_head_only (cx_st cx1) \<or> bodyless (rs_status (cx_res cx1))" by (simp add: s h)
  show "st_head_only (cx_st cx1)" if "st_no_body (cx_st cx1)" "rs_chunked (cx_res cx1)"
  proof (rule ccontr)
    assume "\<not> ?thesis"
    then have "bodyless (rs_status (cx_res cx))" using b that h by simp
    then have "rs_chunked (cx_res cx1) = rs_chunked (cx_res cx)"
      using assms(1) by (auto simp: decide_framing_def choose_framing_def Let_def bodyless_def split: if_splits)
    then show False using that assms(2) by simp
  qed
qed

lemma framing_ok_fresh:
  assumes "decide_framing cx False len = (framing, n, cx1)" and "\<not> st_no_body (cx_st cx1)"
    and "rs_body_sent (cx_res cx) = 0" and "\<not> rs_chunked (cx_res cx)"
  shows "framing_ok (cx_res cx1) framing (unat n) 0"
    and "rs_chunked (cx_res cx1) \<Longrightarrow> \<not> rs_has_length (cx_res cx) \<and> rq_minor_version (cx_req cx) \<ge> 1"
proof -
  have nb: "\<not> st_head_only (cx_st cx)" "\<not> (wire_status (rs_status (cx_res cx)) < 200)" "wire_status (rs_status (cx_res cx)) \<noteq> 204"
    "wire_status (rs_status (cx_res cx)) \<noteq> 304"
    using assms(1,2) by (auto simp: decide_framing_def Let_def split: prod.splits if_splits)
  have same: "same_head (cx_res cx) (cx_res cx1)" by (rule decide_framing_fields(6)[OF assms(1)])
  consider (len) "rs_has_length (cx_res cx)" | (chunk) "\<not> rs_has_length (cx_res cx)" "rq_minor_version (cx_req cx) \<ge> 1"
    | (close) "\<not> rs_has_length (cx_res cx)" "\<not> rq_minor_version (cx_req cx) \<ge> 1" by blast
  then have "framing_ok (cx_res cx1) framing (unat n) 0 \<and> (rs_chunked (cx_res cx1) \<longrightarrow> \<not> rs_has_length (cx_res cx) \<and> rq_minor_version (cx_req cx) \<ge> 1)"
  proof cases
    case len
    then have "framing = FRAME_LENGTH" "n = rs_content_length (cx_res cx)"
      "cx_res cx1 = drain_or_close (cx_req cx) (cx_st cx) (cx_res cx)"
      using assms(1) nb by (auto simp: decide_framing_def choose_framing_def Let_def)
    then show ?thesis using len same assms(3,4) by (simp add: framing_ok_def same_head_def)
  next
    case chunk
    then have "framing = FRAME_CHUNKED" "cx_res cx1 = drain_or_close (cx_req cx) (cx_st cx) ((cx_res cx)\<lparr>rs_chunked := True\<rparr>)"
      using assms(1) nb by (auto simp: decide_framing_def choose_framing_def Let_def)
    then show ?thesis using chunk same by (simp add: framing_ok_def same_head_def)
  next
    case close
    then have "framing = FRAME_UNTIL_CLOSE" "cx_res cx1 = drain_or_close (cx_req cx) (cx_st cx) ((cx_res cx)\<lparr>rs_close := True\<rparr>)"
      using assms(1) nb by (auto simp: decide_framing_def choose_framing_def Let_def)
    then show ?thesis using close same assms(4) by (simp add: framing_ok_def same_head_def)
  qed
  then show "framing_ok (cx_res cx1) framing (unat n) 0"
    and "rs_chunked (cx_res cx1) \<Longrightarrow> \<not> rs_has_length (cx_res cx) \<and> rq_minor_version (cx_req cx) \<ge> 1" by auto
qed

lemma decide_sent_head:
  assumes "decide_framing cx final len = (framing, n, cx1)" and "resp_ok (cx_res cx)" "type_short (cx_res cx)" and "same_shape hr (cx_res cx)"
  shows "st_head_only (cx_st cx) \<or> sent_head hr (cx_res cx1) framing (unat n)"
proof -
  have sh: "same_head (cx_res cx) (cx_res cx1)" by (rule decide_framing_fields(6)[OF assms(1)])
  have "rs_close (cx_res cx) \<longrightarrow> rs_close (cx_res cx1)"
    using assms(1) by (auto simp: decide_framing_def choose_framing_def Let_def split: if_splits)
  then have "same_shape hr (cx_res cx1)" using sh assms(4) by (simp add: same_head_def same_shape_def)
  moreover have "resp_ok (cx_res cx1)" "type_short (cx_res cx1)"
    using sh assms(2,3) resp_ok_cong(1)[of "cx_res cx1" "cx_res cx"] by (simp_all add: same_head_def type_short_def)
  moreover have "unat n < 2 ^ 64" using unsigned_less[of n, where 'a = nat] by simp
  moreover have "bodyless (rs_status (cx_res cx1)) \<longrightarrow> framing = FRAME_NONE \<or> framing = FRAME_LENGTH"
    using assms(1) sh by (auto simp: decide_framing_def choose_framing_def same_head_def bodyless_def Let_def split: if_splits)
  ultimately show ?thesis by (simp add: sent_head_def)
qed

lemma first_head_replying:
  assumes R: "replying G hr w0 written cx"
  obtains head cx1 where "first_head cx False (pw_len (WRITER cx)) = (Some head, cx1)" "about_to_send G hr w0 written cx1 head"
    "WRITER cx1 = WRITER cx" "cx_req cx1 = cx_req cx" "p_in (cx_pipe cx1) = p_in (cx_pipe cx)"
    "raw_framed cx \<longrightarrow> st_no_body (cx_st cx1) \<or> \<not> rs_chunked (cx_res cx1)"
proof (cases "rs_head_sent (cx_res cx)")
  case True
  then have "first_head cx False (pw_len (WRITER cx)) = (Some [], cx)" by (simp add: first_head_def)
  moreover have "about_to_send G hr w0 written cx []"
    using R True unfolding about_to_send_def replying_def under_way_def by (auto split: if_splits)
  moreover have "raw_framed cx \<longrightarrow> \<not> rs_chunked (cx_res cx)" using True by (auto simp: raw_framed_def split: if_splits)
  ultimately show thesis by (intro that) auto
next
  case False
  obtain framing n cx1 where d: "decide_framing cx False (pw_len (WRITER cx)) = (framing, n, cx1)" by (metis surj_pair)
  have r: "plain cx" "engine_slab (WRITER cx)" "clean (WRITER cx)" "\<not> pw_failed (WRITER cx)" "\<not> rs_failed (cx_res cx)"
    "resp_ok (cx_res cx)" "type_short (cx_res cx)" "sent_to w0 (cx_io cx) []" "pending (WRITER cx) = written"
    "rs_body_sent (cx_res cx) = 0" "\<not> rs_chunked (cx_res cx)" "same_shape hr (cx_res cx)"
    using R False by (auto simp: replying_def)
  note f = decide_framing_fields[OF d]
  note h = first_head_sent[OF r(6,7) False d]
  define cx2 where "cx2 = upd_res (\<lambda>r. r\<lparr>rs_head_sent := True\<rparr>) cx1"
  have g: "G = (cx_req cx, st_head_only (cx_st cx))" using R by (simp add: replying_def)
  have st: "st_head_only (cx_st cx1) = st_head_only (cx_st cx)" "st_filter (cx_st cx1) = st_filter (cx_st cx)" "st_on_head (cx_st cx1) = st_on_head (cx_st cx)"
    by (subst f(5), simp)+
  have res2: "resp_ok (cx_res cx2)" "type_short (cx_res cx2)" "\<not> rs_failed (cx_res cx2)"
    using h(3,4) resp_ok_cong(1)[of "cx_res cx2" "cx_res cx1"] f(6) r(5) by (simp_all add: cx2_def type_short_def same_head_def)
  have "about_to_send G hr w0 written cx2 (head_text (cx_req cx) (cx_res cx1) framing (unat n))"
    unfolding about_to_send_def
  proof (intro conjI exI)
    show "st_head_only (cx_st cx2) \<or> sent_head hr (cx_res cx1) framing (unat n)"
      using decide_sent_head[OF d r(6,7,12)] st(1) by (simp add: cx2_def)
    show "st_no_body (cx_st cx2) \<longleftrightarrow> st_head_only (cx_st cx2) \<or> bodyless (rs_status (cx_res cx1))"
      using decide_no_body(1)[OF d r(11)] by (simp add: cx2_def)
    show "if st_no_body (cx_st cx2) then [] = ([] :: bytes) \<and> (rs_chunked (cx_res cx2) \<longrightarrow> st_head_only (cx_st cx2))
        else on_wire (rs_chunked (cx_res cx2)) [] [] \<and> [] @ pending (WRITER cx2) = written \<and> framing_ok (cx_res cx2) framing (unat n) (length ([] :: bytes))"
      using framing_ok_fresh(1)[OF d _ r(10,11)] r(9) f(4) decide_no_body(2)[OF d r(11)] by (simp add: cx2_def framing_ok_def)
    show "[] @ head_text (cx_req cx) (cx_res cx1) framing (unat n) = head_text (cx_req cx2) (cx_res cx1) framing (unat n) @ []"
      by (simp add: cx2_def f(1))
  qed (use r res2 h(2) f st g in \<open>simp_all add: cx2_def plain_def\<close>)
  moreover have "raw_framed cx \<longrightarrow> st_no_body (cx_st cx2) \<or> \<not> rs_chunked (cx_res cx2)"
    using framing_ok_fresh(2)[OF d _ r(10,11)] False by (auto simp: raw_framed_def cx2_def split: if_splits)
  ultimately show thesis using h(1) f by (intro that[of _ cx2]) (auto simp: cx2_def)
qed

lemma small_slab: "engine_slab pw \<Longrightarrow> pw_len pw < 2 ^ 31"
  by (auto simp: engine_slab_def writer_ok_def)

lemma framing_ok_more:
  assumes "framing_ok res framing n sent" and "rs_has_length res \<Longrightarrow> k \<le> unat (rs_content_length res - rs_body_sent res)"
  shows "framing_ok (res\<lparr>rs_body_sent := rs_body_sent res + of_nat k, rs_failed := b\<rparr>) framing n (sent + k)"
proof (cases "rs_has_length res \<and> \<not> rs_chunked res")
  case True
  have u: "unat (rs_body_sent res) = sent" "sent \<le> unat (rs_content_length res)" "n = unat (rs_content_length res)" "framing = FRAME_LENGTH"
    using assms(1) True by (auto simp: framing_ok_def split: if_splits)
  have k: "k \<le> unat (rs_content_length res) - sent" using assms(2) True u by (simp add: unat_sub word_le_nat_alt)
  then have le: "sent + k \<le> unat (rs_content_length res)" using u by linarith
  then have "sent + k < 2 ^ 64" using unsigned_less[of "rs_content_length res", where 'a = nat] by simp
  then have "unat (rs_body_sent res + of_nat k) = sent + k" using u by (simp add: unat_word_ariths unat_of_nat)
  then show ?thesis using True u le by (simp add: framing_ok_def)
next
  case False
  then show ?thesis using assms(1) by (auto simp: framing_ok_def split: if_splits)
qed

lemma flush_more:
  assumes R: "replying G hr w0 written cx" and k: "kind \<noteq> FLUSH_FINAL" and x: "length extra < 2 ^ 31"
    and raw: "extra = [] \<or> raw_framed cx" and f: "flush_with cx kind extra = Some (rc, cx')"
  shows "rc = 0 \<and> replying G hr w0 (written @ extra) cx' \<and> pw_len (WRITER cx') = 0 \<and> pw_cap (WRITER cx') > 0 \<and>
      pw_cap (WRITER cx') = pw_cap (WRITER cx) \<or> rc = - 1 \<and> rs_failed (cx_res cx')"
proof -
  obtain head cx1 where h: "first_head cx False (pw_len (WRITER cx)) = (Some head, cx1)" and A: "about_to_send G hr w0 written cx1 head"
    and s: "WRITER cx1 = WRITER cx" "cx_req cx1 = cx_req cx" "p_in (cx_pipe cx1) = p_in (cx_pipe cx)"
    and ch: "raw_framed cx \<longrightarrow> st_no_body (cx_st cx1) \<or> \<not> rs_chunked (cx_res cx1)"
    by (rule first_head_replying[OF R])
  have pl: "plain cx" "\<not> rs_failed (cx_res cx)" using R by (auto simp: replying_def)
  have F: "(rc, cx') = (if st_no_body (cx_st cx1) then send_head_only cx1 head else send_framed False cx1 False head extra)"
    using f flush_with_plain[OF pl, of kind extra] h k by (cases "st_no_body (cx_st cx1)") simp_all
  have a: "plain cx1" "engine_slab (WRITER cx1)" "clean (WRITER cx1)" "\<not> pw_failed (WRITER cx1)" "\<not> rs_failed (cx_res cx1)"
    "resp_ok (cx_res cx1)" "type_short (cx_res cx1)" "rs_head_sent (cx_res cx1)" "length head < 2 ^ 31"
    and g: "G = (cx_req cx1, st_head_only (cx_st cx1))"
    using A by (auto simp: about_to_send_def)
  obtain res0 framing n body data out where o: "sent_to w0 (cx_io cx1) out" "out @ head = head_text (cx_req cx1) res0 framing n @ body"
    "if st_no_body (cx_st cx1) then body = [] \<and> (rs_chunked (cx_res cx1) \<longrightarrow> st_head_only (cx_st cx1))
     else on_wire (rs_chunked (cx_res cx1)) body data \<and> data @ pending (WRITER cx1) = written \<and> framing_ok (cx_res cx1) framing n (length data)"
    "st_no_body (cx_st cx1) \<longleftrightarrow> st_head_only (cx_st cx1) \<or> bodyless (rs_status res0)"
    "st_head_only (cx_st cx1) \<or> sent_head hr res0 framing n" "rs_close res0 \<longrightarrow> rs_close (cx_res cx1)"
    using A unfolding about_to_send_def by blast
  show ?thesis
  proof (cases "st_no_body (cx_st cx1)")
    case True
    have "send_head_only cx1 head = (rc, cx')" using F True by simp
    note H = head_only_ok[OF a(2,4,9) this]
    have c': "plain cx'" "st_no_body (cx_st cx')" "st_head_only (cx_st cx') = st_head_only (cx_st cx1)" "cx_res cx' = (cx_res cx1)\<lparr>rs_failed := rs_failed (cx_res cx1) \<or> rc < 0\<rparr>"
      using H a(1) True by (auto simp: plain_def)
    show ?thesis
    proof (cases "rc = 0")
      case True
      have r: "resp_ok (cx_res cx')" "type_short (cx_res cx')"
        using resp_ok_cong(1)[of "cx_res cx'" "cx_res cx1"] c' a(6,7) by (simp_all add: type_short_def)
      have "sent_to (cx_io cx1) (cx_io cx') head" using H True by blast
      from sent_to_trans[OF o(1) this] have "sent_to w0 (cx_io cx') (head_text (cx_req cx') res0 framing n @ [])"
        using o(2,3) \<open>st_no_body (cx_st cx1)\<close> H by simp
      then have "replying G hr w0 (written @ extra) cx'"
        unfolding replying_def under_way_def using c' r a g H True o(3-6) \<open>st_no_body (cx_st cx1)\<close>
        by (auto simp: plain_def intro!: exI[of _ res0] exI[of _ framing] exI[of _ n])
      then show ?thesis using H True s(1) by (auto simp: engine_slab_def same_slab_def)
    next
      case False
      then show ?thesis using H by auto
    qed
  next
    case False
    have sf: "send_framed False cx1 False head extra = (rc, cx')" using F False by simp
    obtain len xlen over where cl: "clamp (cx_res cx1) (pw_len (WRITER cx1)) (length extra) = (len, xlen, over)" by (metis surj_pair)
    note C = clamp_ok[OF cl small_slab[OF a(2)] x]
    note S = send_framed_ok[OF a(2,3,4,9) x cl C(1) sf]
    show ?thesis
    proof (cases "rc = 0")
      case True
      then have ov: "\<not> over" using S by blast
      then have len: "len = pw_len (WRITER cx1)" "xlen = length extra" using C(3) by auto
      have res: "cx_res cx' = (cx_res cx1)\<lparr>rs_body_sent := rs_body_sent (cx_res cx1) + of_nat (len + xlen), rs_failed := False\<rparr>"
        using S True a(5) by simp
      have r: "resp_ok (cx_res cx')" "type_short (cx_res cx')"
        using resp_ok_cong(1)[of "cx_res cx'" "cx_res cx1"] res a(6,7) by (simp_all add: type_short_def)
      have st: "cx_st cx' = cx_st cx1" "cx_req cx' = cx_req cx1" using S by (auto simp: same_but_out_def)
      define d where "d = pending (WRITER cx1)"
      have dl: "length d = len" using pending_length a(2) len by (simp add: d_def engine_slab_def)
      have nx: "rs_chunked (cx_res cx1) \<longrightarrow> extra = []" using raw ch False by auto
      have "sent_to (cx_io cx1) (cx_io cx') (head @ framed_body (rs_chunked (cx_res cx1)) False d @ extra)"
        using S True len dl by (auto simp: d_def)
      from sent_to_trans[OF o(1) this]
      have w: "sent_to w0 (cx_io cx') (head_text (cx_req cx') res0 framing n @ body @ framed_body (rs_chunked (cx_res cx1)) False d @ extra)"
        using o(2) st(2) by (metis append.assoc)
      have ow: "on_wire (rs_chunked (cx_res cx1)) (body @ framed_body (rs_chunked (cx_res cx1)) False d @ extra) (data @ d @ extra)"
        using on_wire_more[OF _ nx] o(3) False by simp
      have "framing_ok (cx_res cx1) framing n (length data)" using o(3) False by simp
      from framing_ok_more[OF this C(4), of False] have "framing_ok (cx_res cx') framing n (length (data @ d @ extra))"
        using dl len by (simp add: res add.assoc)
      moreover have "pending (WRITER cx') = []" using S True by (simp add: pending_def)
      moreover have "written = data @ d" using o(3) False by (simp add: d_def)
      ultimately have "replying G hr w0 (written @ extra) cx'"
        unfolding replying_def under_way_def using r a g S True w ow st res False o(4-6)
        by (auto simp: plain_def intro!: exI[of _ res0] exI[of _ framing] exI[of _ n])
      then show ?thesis using S True s(1) by (auto simp: engine_slab_def same_slab_def)
    next
      case False
      then show ?thesis using S by auto
    qed
  qed
qed

lemma flush_returns:
  assumes "replying G hr w0 written cx"
  shows "\<exists>rc cx'. flush_with cx kind extra = Some (rc, cx')"
  using assms flush_with_plain[of cx kind extra] by (auto simp: replying_def split: prod.splits option.splits)


section \<open>The calls of a handler\<close>

text \<open>Bytes put behind the pending ones; more may have been stored than was advanced over.\<close>

lemma place_ok:
  assumes R: "replying G hr w0 written cx" and l: "length data \<le> ioxd__pipewriter_room (WRITER cx)" and n: "n \<le> length data"
  defines "pw' \<equiv> ioxd__pipewriter_advance (poke (WRITER cx) (ioxd__pipewriter_at (WRITER cx)) data) n"
  shows "replying G hr w0 (written @ take n data) (set_writer pw' (cx_io cx) cx)" and "pw_cap pw' = pw_cap (WRITER cx)"
    and "pw_len pw' = pw_len (WRITER cx) + n"
proof -
  define pw where "pw = WRITER cx"
  have s: "engine_slab pw" "clean pw" "\<not> pw_failed pw" using R by (auto simp: replying_def pw_def)
  then have ok: "writer_ok pw" "pw_len pw + length data \<le> pw_cap pw" "pw_tail pw = 0"
    using l by (auto simp: engine_slab_def clean_def ioxd__pipewriter_room_def pw_def writer_ok_def)
  have e: "pw' = pw\<lparr>pw_buf := memwrite (pw_buf pw) (pw_lead pw + pw_len pw) data, pw_len := pw_len pw + n\<rparr>"
    using n ok(2)
    by (auto simp: pw'_def ioxd__pipewriter_advance_def ioxd__pipewriter_room_def ioxd__pipewriter_at_def poke_def pw_def Let_def)
  have b: "pw_lead pw + pw_len pw + length data \<le> length (pw_buf pw)" using ok by (simp add: writer_ok_def)
  have "pending pw' = memread (memwrite (pw_buf pw) (pw_lead pw + pw_len pw) data) (pw_lead pw) (pw_len pw) @
      take n (memread (memwrite (pw_buf pw) (pw_lead pw + pw_len pw) data) (pw_lead pw + pw_len pw) (length data))"
    using n by (simp add: e pending_def memread_append memread_take)
  also have "\<dots> = pending pw @ take n data"
    using b by (simp add: memread_memwrite_before memread_memwrite_same pending_def)
  finally have p: "pending pw' = pending pw @ take n data" .
  have es: "engine_slab pw'" "clean pw'" "\<not> pw_failed pw'" using s ok n b by (auto simp: e engine_slab_def writer_ok_def clean_def)
  show "pw_cap pw' = pw_cap (WRITER cx)" "pw_len pw' = pw_len (WRITER cx) + n" by (simp_all add: e pw_def)
  show "replying G hr w0 (written @ take n data) (set_writer pw' (cx_io cx) cx)"
  proof (cases "rs_head_sent (cx_res cx)")
    case False
    then show ?thesis using R es p unfolding replying_def by (auto simp: plain_def pw_def)
  next
    case True
    then have "under_way hr w0 written cx" using R by (simp add: replying_def)
    then have "under_way hr w0 (written @ take n data) (set_writer pw' (cx_io cx) cx)"
      unfolding under_way_def using p by (auto simp: pw_def) (metis append.assoc)+
    then show ?thesis using R es True unfolding replying_def by (simp add: plain_def)
  qed
qed

text \<open>The outcome of a call that writes \<open>data\<close>: all of it is written, or the reply is dead.\<close>

definition wrote :: "request \<times> bool \<Rightarrow> response \<Rightarrow> io \<Rightarrow> bytes \<Rightarrow> bytes \<Rightarrow> int \<Rightarrow> ctx \<Rightarrow> bool" where
  "wrote G hr w0 written data rc cx' \<longleftrightarrow>
     rc = 0 \<and> replying G hr w0 (written @ data) cx' \<or> rc = - 1 \<and> rs_failed (cx_res cx')"

lemma write_loop_ok:
  assumes "replying G hr w0 written cx"
  shows "\<exists>rc cx'. write_loop cx src = Some (rc, cx') \<and> wrote G hr w0 written src rc cx'"
  using assms
proof (induction "2 * length src + (if ioxd__pipewriter_room (WRITER cx) = 0 then 1 else 0)" arbitrary: cx src written rule: less_induct)
  case less
  show ?case
  proof (cases "src = []")
    case True
    then show ?thesis using less.prems by (subst write_loop.simps) (simp add: wrote_def)
  next
    case ne: False
    show ?thesis
    proof (cases "ioxd__pipewriter_room (WRITER cx) = 0")
      case True
      obtain rc cx1 where f: "flush_with cx FLUSH_FULL [] = Some (rc, cx1)" using flush_returns[OF less.prems] by blast
      have st: "write_loop cx src = (if rc < 0 then Some (- 1, cx1) else write_loop cx1 src)"
        using ne True f by (subst write_loop.simps) (simp add: flush_def Let_def)
      from flush_more[OF less.prems _ _ _ f] consider (ok) "rc = 0" "replying G hr w0 written cx1" "pw_len (WRITER cx1) = 0" "pw_cap (WRITER cx1) > 0"
        | (bad) "rc = - 1" "rs_failed (cx_res cx1)" by auto
      then show ?thesis
      proof cases
        case ok
        then have "ioxd__pipewriter_room (WRITER cx1) \<noteq> 0" by (simp add: ioxd__pipewriter_room_def)
        then show ?thesis using less.hyps[OF _ ok(2), of src] True st ok(1) by simp
      next
        case bad
        then show ?thesis using st by (auto simp: wrote_def)
      qed
    next
      case False
      define n where "n = (if length src < ioxd__pipewriter_room (WRITER cx) then length src else ioxd__pipewriter_room (WRITER cx))"
      have n: "0 < n" "n \<le> length src" "n \<le> ioxd__pipewriter_room (WRITER cx)" using False ne by (auto simp: n_def)
      define cx1 where "cx1 = set_writer (ioxd__pipewriter_advance (poke (WRITER cx) (ioxd__pipewriter_at (WRITER cx)) (take n src)) n) (cx_io cx) cx"
      have st: "write_loop cx src = write_loop cx1 (drop n src)"
        using ne False by (subst write_loop.simps) (simp add: Let_def n_def cx1_def)
      have "replying G hr w0 (written @ take n src) cx1"
        using place_ok(1)[OF less.prems, of "take n src" n] n by (simp add: cx1_def)
      moreover have "2 * length (drop n src) + (if ioxd__pipewriter_room (WRITER cx1) = 0 then 1 else 0)
          < 2 * length src + (if ioxd__pipewriter_room (WRITER cx) = 0 then 1 else 0)" using n by (simp, linarith)
      ultimately obtain rc cx' where w: "write_loop cx1 (drop n src) = Some (rc, cx')"
        "wrote G hr w0 (written @ take n src) (drop n src) rc cx'"
        using less.hyps by blast
      then show ?thesis using st by (auto simp: wrote_def)
    qed
  qed
qed

lemma write_ok_ctx:
  assumes R: "replying G hr w0 written cx" and x: "length data < 2 ^ 31"
  shows "\<exists>rc cx'. ioxd_write cx data = Some (rc, cx') \<and> wrote G hr w0 written data rc cx'"
proof (cases "length data > ioxd__pipewriter_room (WRITER cx) \<and> raw_framed cx")
  case True
  obtain rc cx' where f: "flush_with cx FLUSH_FULL data = Some (rc, cx')" using flush_returns[OF R] by blast
  then have "ioxd_write cx data = Some (rc, cx')" using True R by (simp add: ioxd_write_def replying_def)
  then show ?thesis using flush_more[OF R _ x _ f] True by (auto simp: wrote_def)
next
  case False
  then have "ioxd_write cx data = write_loop cx data" using R by (auto simp: ioxd_write_def replying_def)
  then show ?thesis using write_loop_ok[OF R, of data] by simp
qed

lemma advance_none [simp]: "ioxd__pipewriter_advance pw 0 = pw"
  by (simp add: ioxd__pipewriter_advance_def Let_def)

lemma replying_scratch:
  assumes "replying G hr w0 written cx" and "length data \<le> ioxd__pipewriter_room (WRITER cx)"
  shows "replying G hr w0 written (set_writer (poke (WRITER cx) (ioxd__pipewriter_at (WRITER cx)) data) (cx_io cx) cx)"
  using place_ok(1)[OF assms, of 0] by simp

lemma printf_ok:
  assumes R: "replying G hr w0 written cx" and x: "length s < 2 ^ 31"
  shows "\<exists>rc cx'. ioxd_printf cx m (Some s) = Some (rc, cx') \<and> wrote G hr w0 written s rc cx'"
proof -
  define pw where "pw = WRITER cx"
  define room where "room = ioxd__pipewriter_room pw"
  define cx1 where "cx1 = set_writer (vsnprintf pw room s) (cx_io cx) cx"
  have nf: "\<not> rs_failed (cx_res cx)" using R by (simp add: replying_def)
  define stored where "stored = take (room - 1) s @ [NUL]"
  have v: "vsnprintf pw room s = (if room = 0 then pw else poke pw (ioxd__pipewriter_at pw) stored)"
    by (simp add: vsnprintf_def stored_def)
  have tl: "room \<noteq> 0 \<Longrightarrow> length stored \<le> room" by (simp add: stored_def)
  have R1: "replying G hr w0 written cx1"
  proof (cases "room = 0")
    case True
    then show ?thesis using R by (simp add: cx1_def vsnprintf_def) (simp add: pw_def set_writer_def WRITER_def)
  next
    case False
    then have "cx1 = set_writer (poke (WRITER cx) (ioxd__pipewriter_at (WRITER cx)) stored) (cx_io cx) cx"
      by (simp add: cx1_def v) (simp add: pw_def)
    moreover have "length stored \<le> ioxd__pipewriter_room (WRITER cx)" using tl[OF False] by (simp add: room_def pw_def)
    ultimately show ?thesis using replying_scratch[OF R] by simp
  qed
  have cap: "pw_cap (WRITER cx1) = pw_cap pw" by (simp add: cx1_def v poke_def)
  have e: "ioxd_printf cx m (Some s) =
      (if length s < room then Some (0, set_writer (ioxd__pipewriter_advance (WRITER cx1) (length s)) (cx_io cx1) cx1)
       else if length s \<ge> pw_cap (WRITER cx1) then write_formatted_heap cx1 m s
       else do { (rc, cx) \<leftarrow> flush cx1 FLUSH_FULL;
            (if rc = 0 then
               let pw = vsnprintf (WRITER cx) (pw_cap (WRITER cx)) s
               in Some (0, set_writer (ioxd__pipewriter_advance pw (length s)) (cx_io cx) cx)
             else Some (- 1, cx)) })"
    using nf by (simp add: ioxd_printf_def pw_def[symmetric] room_def[symmetric] cx1_def[symmetric] Let_def)
  consider (fits) "length s < room" | (heap) "\<not> length s < room" "length s \<ge> pw_cap (WRITER cx1)"
    | (flush) "\<not> length s < room" "length s < pw_cap (WRITER cx1)" by linarith
  then show ?thesis
  proof cases
    case fits
    then have "take (length s) stored = s" "length s \<le> length stored" "room \<noteq> 0" by (auto simp: stored_def)
    then have "replying G hr w0 (written @ s) (set_writer (ioxd__pipewriter_advance (WRITER cx1) (length s)) (cx_io cx1) cx1)"
      using place_ok(1)[OF R, of stored "length s"] tl
      by (simp add: cx1_def v pw_def[symmetric] room_def[symmetric]) (simp add: set_writer_def)
    then show ?thesis using e fits by (simp add: wrote_def)
  next
    case heap
    then show ?thesis
      using e write_ok_ctx[OF R1 x] by (cases m) (auto simp: write_formatted_heap_def wrote_def fail_def)
  next
    case flush
    obtain rc cx2 where f: "flush_with cx1 FLUSH_FULL [] = Some (rc, cx2)" using flush_returns[OF R1] by blast
    from flush_more[OF R1 _ _ _ f] consider (ok) "rc = 0" "replying G hr w0 written cx2" "pw_len (WRITER cx2) = 0" "pw_cap (WRITER cx2) > 0" "pw_cap (WRITER cx2) = pw_cap (WRITER cx1)"
      | (bad) "rc = - 1" "rs_failed (cx_res cx2)" by auto
    then show ?thesis
    proof cases
      case ok
      define t2 where "t2 = take (pw_cap (WRITER cx2) - 1) s @ [NUL]"
      have "replying G hr w0 (written @ s) (set_writer (ioxd__pipewriter_advance (vsnprintf (WRITER cx2) (pw_cap (WRITER cx2)) s) (length s)) (cx_io cx2) cx2)"
        using place_ok(1)[OF ok(2), of t2 "length s"] ok flush(2)
        by (auto simp: t2_def vsnprintf_def ioxd__pipewriter_room_def)
      then show ?thesis using e flush f ok(1) by (simp add: flush_def wrote_def)
    next
      case bad
      then show ?thesis using e flush f by (simp add: flush_def wrote_def)
    qed
  qed
qed

text \<open>What a handler may do with its reply; \<open>Place\<close> reserves, writes in place and advances.\<close>

datatype reply_op = Put bytes | Print bool "bytes option" | Place bytes | Push | Shape shape_op

fun reply_step :: "reply_op \<Rightarrow> ctx \<Rightarrow> (int \<times> ctx) option" where
  "reply_step (Put d) cx = ioxd_write cx d"
| "reply_step (Print m s) cx = ioxd_printf cx m s"
| "reply_step (Place d) cx = do {
     (at, cx) \<leftarrow> ioxd_reserve cx (length d);
     (case at of
        None \<Rightarrow> Some (- 1, cx)
      | Some a \<Rightarrow> Some (0, ioxd_advance (set_writer (poke (WRITER cx) a d) (cx_io cx) cx) (length d))) }"
| "reply_step Push cx = ioxd_flush cx"
| "reply_step (Shape op) cx = Some (0, upd_res (\<lambda>r. shape_step r op) cx)"

fun op_data :: "reply_op \<Rightarrow> bytes" where
  "op_data (Put d) = d"
| "op_data (Print m s) = (case s of Some s \<Rightarrow> s | None \<Rightarrow> [])"
| "op_data (Place d) = d"
| "op_data Push = []"
| "op_data (Shape op) = []"

text \<open>A run: the bytes of the calls that succeeded, and the context after them.\<close>

fun reply_run :: "reply_op list \<Rightarrow> ctx \<Rightarrow> (bytes \<times> ctx) option" where
  "reply_run [] cx = Some ([], cx)"
| "reply_run (op # ops) cx = do {
     (rc, cx) \<leftarrow> reply_step op cx;
     (rest, cx) \<leftarrow> reply_run ops cx;
     Some ((if rc < 0 then [] else op_data op) @ rest, cx) }"

lemma reserve_ok_ctx:
  assumes R: "replying G hr w0 written cx"
  obtains a cx' where "ioxd_reserve cx n = Some (a, cx')" "a = None \<Longrightarrow> rs_failed (cx_res cx') \<or> replying G hr w0 written cx'"
    "\<And>p. a = Some p \<Longrightarrow> replying G hr w0 written cx' \<and> p = ioxd__pipewriter_at (WRITER cx') \<and> n \<le> ioxd__pipewriter_room (WRITER cx')"
proof -
  have nf: "\<not> rs_failed (cx_res cx)" using R by (simp add: replying_def)
  consider (big) "n > pw_cap (WRITER cx)" | (flush) "\<not> n > pw_cap (WRITER cx)" "n > ioxd__pipewriter_room (WRITER cx)"
    | (fits) "\<not> n > pw_cap (WRITER cx)" "n \<le> ioxd__pipewriter_room (WRITER cx)" by linarith
  then show thesis
  proof cases
    case big
    then show thesis using that[of None cx] R by (simp add: ioxd_reserve_def)
  next
    case flush
    obtain rc cx2 where f: "flush_with cx FLUSH_FULL [] = Some (rc, cx2)" using flush_returns[OF R] by blast
    then have e: "ioxd_reserve cx n = Some (if rc < 0 then (None, cx2) else (Some (ioxd__pipewriter_at (WRITER cx2)), cx2))"
      using nf flush by (simp add: ioxd_reserve_def flush_def)
    from flush_more[OF R _ _ _ f] consider (ok) "rc = 0" "replying G hr w0 written cx2" "pw_len (WRITER cx2) = 0" "pw_cap (WRITER cx2) = pw_cap (WRITER cx)"
      | (bad) "rc = - 1" "rs_failed (cx_res cx2)" by auto
    then show thesis
    proof cases
      case ok
      then show thesis using that[OF e[unfolded ok(1), simplified]] flush by (simp add: ioxd__pipewriter_room_def)
    next
      case bad
      then show thesis using that[OF e[unfolded bad(1), simplified]] by simp
    qed
  next
    case fits
    then show thesis using that[of "Some (ioxd__pipewriter_at (WRITER cx))" cx] R nf by (simp add: ioxd_reserve_def)
  qed
qed

lemma shape_step_rest:
  "rs_failed (shape_step res op) = rs_failed res" "rs_head_sent (shape_step res op) = rs_head_sent res"
  "rs_body_sent (shape_step res op) = rs_body_sent res" "rs_chunked (shape_step res op) = rs_chunked res"
  by (cases op; auto simp: ioxd_header_def ioxd_content_type_def ioxd_content_length_def head_room_def put_bytes_def Let_def
      split: option.splits if_splits prod.splits)+

lemma shape_step_late:
  assumes "rs_head_sent res"
  shows "rs_has_length (shape_step res op) = rs_has_length res" "rs_content_length (shape_step res op) = rs_content_length res"
    "rs_close res \<Longrightarrow> rs_close (shape_step res op)"
  using assms by (cases op; auto simp: ioxd_header_def ioxd_content_type_def ioxd_content_length_def Let_def split: option.splits)+

lemma shape_replying:
  assumes R: "replying G hr w0 written cx"
  shows "replying G (if rs_head_sent (cx_res cx) then hr else shape_step (cx_res cx) op) w0 written (upd_res (\<lambda>r. shape_step r op) cx)"
proof -
  have ok: "resp_ok (shape_step (cx_res cx) op)" "type_short (shape_step (cx_res cx) op)"
    using R shape_step_ok by (auto simp: replying_def)
  have "under_way hr w0 written (upd_res (\<lambda>r. shape_step r op) cx)" if h: "rs_head_sent (cx_res cx)"
  proof -
    have fo: "framing_ok (cx_res cx) framing n k \<Longrightarrow> framing_ok (shape_step (cx_res cx) op) framing n k" for framing n k
      using shape_step_late[OF h, of op] shape_step_rest[of "cx_res cx" op] by (auto simp: framing_ok_def split: if_splits)
    have u: "under_way hr w0 written cx" using R h by (simp add: replying_def)
    show ?thesis using u unfolding under_way_def by (simp add: shape_step_rest) (metis fo shape_step_late(3)[OF h])
  qed
  then show ?thesis using R ok unfolding replying_def by (simp add: shape_step_rest plain_def)
qed

text \<open>
  The response whose head goes out: what the calls had made of it when the first bytes were sent, or
  when the handler returned.
\<close>

fun head_response :: "reply_op list \<Rightarrow> ctx \<Rightarrow> response" where
  "head_response [] cx = cx_res cx"
| "head_response (op # ops) cx =
     (case reply_step op cx of
        None \<Rightarrow> cx_res cx
      | Some (rc, cx') \<Rightarrow> if rs_head_sent (cx_res cx') then cx_res cx else head_response ops cx')"

definition next_shape :: "reply_op \<Rightarrow> response \<Rightarrow> response \<Rightarrow> response" where
  "next_shape op res hr = (case op of Shape o' \<Rightarrow> if rs_head_sent res then hr else shape_step res o' | _ \<Rightarrow> hr)"

lemma reply_step_ok:
  assumes R: "replying G hr w0 written cx" and x: "length (op_data op) < 2 ^ 31"
  shows "\<exists>rc cx'. reply_step op cx = Some (rc, cx') \<and>
    (rs_failed (cx_res cx') \<or> replying G (next_shape op (cx_res cx) hr) w0 (written @ (if rc < 0 then [] else op_data op)) cx')"
proof (cases op)
  case (Put d)
  then show ?thesis using write_ok_ctx[OF R, of d] x by (auto simp: wrote_def next_shape_def)
next
  case (Print m s)
  show ?thesis
  proof (cases s)
    case None
    then show ?thesis using Print R by (simp add: ioxd_printf_def replying_def next_shape_def)
  next
    case (Some t)
    then show ?thesis using Print printf_ok[OF R, of t m] x by (auto simp: wrote_def next_shape_def)
  qed
next
  case (Place d)
  obtain a cx1 where a: "ioxd_reserve cx (length d) = Some (a, cx1)" "a = None \<longrightarrow> rs_failed (cx_res cx1) \<or> replying G hr w0 written cx1"
    "\<forall>p. a = Some p \<longrightarrow> replying G hr w0 written cx1 \<and> p = ioxd__pipewriter_at (WRITER cx1) \<and> length d \<le> ioxd__pipewriter_room (WRITER cx1)"
    using reserve_ok_ctx[OF R, of "length d"] by metis
  show ?thesis
  proof (cases a)
    case None
    then show ?thesis using a Place by (simp add: next_shape_def)
  next
    case (Some p)
    then show ?thesis using a Place place_ok(1)[of G hr w0 written cx1 d "length d"]
      by (simp add: ioxd_advance_def next_shape_def) (simp add: set_writer_def)
  qed
next
  case Push
  obtain rc cx' where f: "flush_with cx FLUSH_ASKED [] = Some (rc, cx')" using flush_returns[OF R] by blast
  then show ?thesis using flush_more[OF R _ _ _ f] Push by (auto simp: ioxd_flush_def flush_def next_shape_def)
next
  case (Shape o')
  then show ?thesis using shape_replying[OF R] by (simp add: next_shape_def)
qed

lemma failed_step:
  assumes "rs_failed (cx_res cx)" shows "\<exists>rc cx'. reply_step op cx = Some (rc, cx') \<and> rs_failed (cx_res cx')"
  using assms
  by (cases op) (auto simp: ioxd_write_def ioxd_printf_def ioxd_reserve_def ioxd_flush_def flush_def flush_with_def shape_step_rest)

lemma failed_reply_run: "rs_failed (cx_res cx) \<Longrightarrow> \<exists>data cx'. reply_run ops cx = Some (data, cx') \<and> rs_failed (cx_res cx')"
proof (induction ops arbitrary: cx)
  case (Cons op ops)
  then obtain rc cx1 where s: "reply_step op cx = Some (rc, cx1)" "rs_failed (cx_res cx1)" using failed_step by blast
  then show ?case using Cons.IH[OF s(2)] by auto
qed auto

lemma replying_unsent:
  "replying G hr w0 written cx \<Longrightarrow> \<not> rs_head_sent (cx_res cx) \<Longrightarrow> same_shape hr (cx_res cx) \<and> same_shape (cx_res cx) hr"
  by (auto simp: replying_def same_shape_def)

lemma replying_flag:
  assumes "replying G hr w0 written cx" and "rs_head_sent (cx_res cx)"
  shows "replying G (hr\<lparr>rs_head_sent := True\<rparr>) w0 written cx"
proof -
  have "sent_head (hr\<lparr>rs_head_sent := True\<rparr>) = sent_head hr" by (intro ext) (simp add: sent_head_def same_shape_def)
  then have "under_way (hr\<lparr>rs_head_sent := True\<rparr>) w0 written cx = under_way hr w0 written cx" by (simp only: under_way_def)
  then show ?thesis using assms by (simp add: replying_def)
qed

lemma replying_flagged: "replying G hr w0 written cx \<Longrightarrow> rs_head_sent hr \<Longrightarrow> rs_head_sent (cx_res cx)"
  by (auto simp: replying_def split: if_splits)

lemma same_shape_trans: "same_shape a b \<Longrightarrow> same_shape b c \<Longrightarrow> same_shape a c"
  by (simp add: same_shape_def)

lemma reply_run_sent:
  assumes "rs_failed (cx_res cx) \<or> replying G hr w0 written cx" and "rs_head_sent hr" and "\<forall>op \<in> set ops. length (op_data op) < 2 ^ 31"
  shows "\<exists>data cx'. reply_run ops cx = Some (data, cx') \<and> (rs_failed (cx_res cx') \<or> replying G hr w0 (written @ data) cx')"
  using assms
proof (induction ops arbitrary: cx written)
  case (Cons op ops)
  obtain rc cx1 where s: "reply_step op cx = Some (rc, cx1)"
    "rs_failed (cx_res cx1) \<or> replying G hr w0 (written @ (if rc < 0 then [] else op_data op)) cx1"
  proof (cases "rs_failed (cx_res cx)")
    case True
    then show thesis using failed_step that by blast
  next
    case False
    then have R: "replying G hr w0 written cx" using Cons.prems(1) by blast
    have "next_shape op (cx_res cx) hr = hr"
      using replying_flagged[OF R Cons.prems(2)] by (simp add: next_shape_def split: reply_op.splits)
    then show thesis using reply_step_ok[OF R, of op] Cons.prems(3) that by auto
  qed
  then show ?case using Cons.IH[OF s(2) Cons.prems(2)] Cons.prems(3) by auto
qed auto

lemma reply_run_ok:
  assumes "rs_failed (cx_res cx) \<or> replying G hr w0 written cx \<and> \<not> rs_head_sent (cx_res cx)" and "\<forall>op \<in> set ops. length (op_data op) < 2 ^ 31"
  shows "\<exists>data cx'. reply_run ops cx = Some (data, cx') \<and>
    (rs_failed (cx_res cx') \<or> (\<exists>hr'. replying G hr' w0 (written @ data) cx' \<and> same_shape (head_response ops cx) hr'))"
  using assms
proof (induction ops arbitrary: cx hr written)
  case Nil
  then show ?case using replying_unsent by (metis append_Nil2 head_response.simps(1) reply_run.simps(1))
next
  case (Cons op ops)
  let ?w = "\<lambda>rc. written @ (if rc < 0 then [] else op_data op)"
  have x: "\<forall>o' \<in> set ops. length (op_data o') < 2 ^ 31" "length (op_data op) < 2 ^ 31" using Cons.prems(2) by auto
  show ?case
  proof (cases "rs_failed (cx_res cx)")
    case True
    then obtain rc cx1 where s: "reply_step op cx = Some (rc, cx1)" "rs_failed (cx_res cx1)" using failed_step by blast
    obtain data cx' where r: "reply_run ops cx1 = Some (data, cx')" "rs_failed (cx_res cx')"
      using failed_reply_run[OF s(2)] by blast
    then show ?thesis using s(1) by simp
  next
    case False
    then have R: "replying G hr w0 written cx" "\<not> rs_head_sent (cx_res cx)" using Cons.prems(1) by auto
    obtain rc cx1 where s: "reply_step op cx = Some (rc, cx1)"
      "rs_failed (cx_res cx1) \<or> replying G (next_shape op (cx_res cx) hr) w0 (?w rc) cx1"
      using reply_step_ok[OF R(1) x(2)] by blast
    show ?thesis
    proof (cases "rs_head_sent (cx_res cx1)")
      case True
      then have n: "next_shape op (cx_res cx) hr = hr"
        using s(1) R(2) by (auto simp: next_shape_def shape_step_rest split: reply_op.splits)
      then have "rs_failed (cx_res cx1) \<or> replying G (hr\<lparr>rs_head_sent := True\<rparr>) w0 (?w rc) cx1"
        using s(2) replying_flag[OF _ True, of G hr w0 "?w rc"] by metis
      from reply_run_sent[OF this _ x(1)] obtain data cx' where r: "reply_run ops cx1 = Some (data, cx')"
        "rs_failed (cx_res cx') \<or> replying G (hr\<lparr>rs_head_sent := True\<rparr>) w0 (?w rc @ data) cx'" by auto
      have "same_shape (head_response (op # ops) cx) (hr\<lparr>rs_head_sent := True\<rparr>)"
        using conjunct2[OF replying_unsent[OF R]] s(1) True by (simp add: same_shape_def)
      then show ?thesis using s(1) r by auto
    next
      case False
      from Cons.IH[of cx1 "next_shape op (cx_res cx) hr" "?w rc"] show ?thesis using s x(1) False by auto
    qed
  qed
qed


section \<open>The end of a reply\<close>

definition complete_body :: "framing \<Rightarrow> nat \<Rightarrow> bytes \<Rightarrow> bytes \<Rightarrow> bool \<Rightarrow> bool" where
  "complete_body framing n body written closing \<longleftrightarrow>
     (case framing of
        FRAME_LENGTH \<Rightarrow> body = written \<and> length written \<le> n \<and> (length written < n \<longrightarrow> closing)
      | FRAME_CHUNKED \<Rightarrow> \<exists>ps. [] \<notin> set ps \<and> concat ps = written \<and> body = concat (map chunk ps) @ put_terminator
      | FRAME_UNTIL_CLOSE \<Rightarrow> body = written \<and> closing
      | FRAME_NONE \<Rightarrow> False)"

definition reply_done :: "request \<times> bool \<Rightarrow> response \<Rightarrow> io \<Rightarrow> bytes \<Rightarrow> ctx \<Rightarrow> bool" where
  "reply_done G hr w0 written cx' \<longleftrightarrow>
     G = (cx_req cx', st_head_only (cx_st cx')) \<and>
     (\<exists>res0 framing n body.
        sent_to w0 (cx_io cx') (head_text (cx_req cx') res0 framing n @ body) \<and> (st_head_only (cx_st cx') \<or> sent_head hr res0 framing n) \<and>
        (rs_close res0 \<longrightarrow> rs_close (cx_res cx')) \<and>
        (if st_head_only (cx_st cx') \<or> bodyless (rs_status res0)
         then body = [] \<or> st_head_only (cx_st cx') \<and> body = put_terminator
         else complete_body framing n body written (rs_close (cx_res cx'))))"

lemma reply_doneI:
  assumes "G = (cx_req cx', st_head_only (cx_st cx'))" and "sent_to w0 (cx_io cx') (head_text (cx_req cx') res0 framing n @ body)"
    and "st_head_only (cx_st cx') \<or> sent_head hr res0 framing n" and "rs_close res0 \<Longrightarrow> rs_close (cx_res cx')"
    and "st_head_only (cx_st cx') \<or> bodyless (rs_status res0) \<Longrightarrow> body = [] \<or> st_head_only (cx_st cx') \<and> body = put_terminator"
    and "\<not> (st_head_only (cx_st cx') \<or> bodyless (rs_status res0)) \<Longrightarrow> complete_body framing n body written (rs_close (cx_res cx'))"
  shows "reply_done G hr w0 written cx'"
  unfolding reply_done_def
  by (rule conjI[OF assms(1)], rule exI[of _ res0], rule exI[of _ framing], rule exI[of _ n], rule exI[of _ body]) (use assms(2-) in \<open>simp split: if_split\<close>)

lemma finish_tail_fields:
  assumes "finish_tail cx = (rc, cx')"
  shows "rc = 0" "cx_io cx' = cx_io cx" "cx_req cx' = cx_req cx" "cx_st cx' = cx_st cx" "rs_failed (cx_res cx') = rs_failed (cx_res cx)"
    "rs_close (cx_res cx') \<longleftrightarrow> rs_close (cx_res cx) \<or>
       rs_has_length (cx_res cx) \<and> \<not> st_no_body (cx_st cx) \<and> rs_body_sent (cx_res cx) \<noteq> rs_content_length (cx_res cx)"
  using assms by (auto simp: finish_tail_def split: if_splits)

text \<open>A body whose framing held while it was sent is complete once the last piece and the terminator went out.\<close>

lemma complete_bodyI:
  assumes "on_wire (rs_chunked res) body data" and "framing_ok res framing n (length data)"
    and "closing \<longleftrightarrow> rs_close res \<or> rs_has_length res \<and> rs_body_sent res \<noteq> rs_content_length res"
  shows "complete_body framing n (body @ (if rs_chunked res then put_terminator else [])) data closing"
proof (cases "rs_chunked res")
  case True
  then show ?thesis using assms(1,2) by (auto simp: complete_body_def framing_ok_def on_wire_def)
next
  case False
  show ?thesis
  proof (cases "rs_has_length res")
    case True
    have "length data < n \<Longrightarrow> rs_body_sent res \<noteq> rs_content_length res"
      using assms(2) True False by (auto simp: framing_ok_def)
    then show ?thesis using assms True False by (auto simp: complete_body_def framing_ok_def on_wire_def)
  next
    case False
    then show ?thesis using assms \<open>\<not> rs_chunked res\<close> by (auto simp: complete_body_def framing_ok_def on_wire_def)
  qed
qed

lemma framed_final: "framed_body chunked True d = framed_body chunked False d @ (if chunked then put_terminator else [])"
  by (simp add: framed_body_def)

lemma decide_final:
  assumes "decide_framing cx True len = (framing, n, cx1)" and "\<not> st_no_body (cx_st cx1)" and "len < 2 ^ 31"
    and "\<not> rs_chunked (cx_res cx)"
  shows "framing = FRAME_LENGTH" "unat n = len" "\<not> rs_chunked (cx_res cx1)"
    "rs_has_length (cx_res cx1) \<Longrightarrow> rs_content_length (cx_res cx1) = of_nat len"
proof -
  have nb: "\<not> st_head_only (cx_st cx)" "\<not> (wire_status (rs_status (cx_res cx)) < 200)" "wire_status (rs_status (cx_res cx)) \<noteq> 204"
    "wire_status (rs_status (cx_res cx)) \<noteq> 304"
    using assms(1,2) by (auto simp: decide_framing_def Let_def split: prod.splits if_splits)
  have e: "framing = FRAME_LENGTH \<and> n = of_nat len \<and>
      cx_res cx1 = drain_or_close (cx_req cx) (cx_st cx) (if rs_has_length (cx_res cx) then (cx_res cx)\<lparr>rs_content_length := of_nat len\<rparr> else cx_res cx)"
    using assms(1) nb by (cases "rs_has_length (cx_res cx)") (auto simp: decide_framing_def choose_framing_def Let_def)
  have u: "unat (of_nat len :: u64) = len" using assms(3) by (intro unat_of_nat_less) simp
  show "framing = FRAME_LENGTH" "unat n = len" using e u by auto
  show "\<not> rs_chunked (cx_res cx1)" using e assms(4) by auto
  have "same_head (cx_res cx) (cx_res cx1)" by (rule decide_framing_fields(6)[OF assms(1)])
  then show "rs_has_length (cx_res cx1) \<Longrightarrow> rs_content_length (cx_res cx1) = of_nat len" using e by (auto simp: same_head_def)
qed

text \<open>The last flush, with the head still unsent: one message with the exact length.\<close>

lemma finish_whole:
  assumes R: "replying G hr w0 written cx" and h: "\<not> rs_head_sent (cx_res cx)" and f: "flush_with cx FLUSH_FINAL [] = Some (rc, cx2)"
    and t: "finish_tail cx2 = (rc', cx')"
  shows "rc = - 1 \<and> rs_failed (cx_res cx2) \<or> rc = 0 \<and> reply_done G hr w0 written cx'"
proof -
  obtain framing n cx0 where d: "decide_framing cx True (pw_len (WRITER cx)) = (framing, n, cx0)" by (metis surj_pair)
  have r: "plain cx" "engine_slab (WRITER cx)" "clean (WRITER cx)" "\<not> pw_failed (WRITER cx)" "\<not> rs_failed (cx_res cx)"
    "resp_ok (cx_res cx)" "type_short (cx_res cx)" "sent_to w0 (cx_io cx) []" "pending (WRITER cx) = written"
    "rs_body_sent (cx_res cx) = 0" "\<not> rs_chunked (cx_res cx)" "same_shape hr (cx_res cx)"
    using R h by (auto simp: replying_def)
  note fl = decide_framing_fields[OF d]
  note fh = first_head_sent[OF r(6,7) h d]
  define head where "head = head_text (cx_req cx) (cx_res cx0) framing (unat n)"
  define cx1 where "cx1 = upd_res (\<lambda>r. r\<lparr>rs_head_sent := True\<rparr>) cx0"
  note fh = fh[folded head_def cx1_def]
  have F: "(rc, cx2) = (if st_no_body (cx_st cx0) then send_head_only cx1 head else send_framed False cx1 True head [])"
    using f flush_with_plain[OF r(1,5), of FLUSH_FINAL "[]"] fh(1) by (auto simp: cx1_def split: if_splits)
  have w: "WRITER cx1 = WRITER cx" "cx_io cx1 = cx_io cx" "cx_req cx1 = cx_req cx" "cx_st cx1 = cx_st cx0" using fl by (auto simp: cx1_def)
  note nb = decide_no_body(1)[OF d r(11)]
  have sl: "engine_slab (WRITER cx1)" "clean (WRITER cx1)" "\<not> pw_failed (WRITER cx1)" using r w by auto
  note tf = finish_tail_fields[OF t]
  have g: "G = (cx_req cx, st_head_only (cx_st cx0))" using R by (subst fl(5)) (simp add: replying_def)
  have sh: "st_head_only (cx_st cx0) \<or> sent_head hr (cx_res cx0) framing (unat n)"
    using decide_sent_head[OF d r(6,7,12)] by (subst fl(5)) simp
  show ?thesis
  proof (cases "st_no_body (cx_st cx0)")
    case True
    have "send_head_only cx1 head = (rc, cx2)" using F True by simp
    note H = head_only_ok[OF sl(1,3) fh(2) this]
    have H': "rc = 0 \<or> rc = - 1" "cx_req cx2 = cx_req cx1" "rc = 0 \<longrightarrow> sent_to (cx_io cx1) (cx_io cx2) head"
      "\<exists>cw. cx_st cx2 = (cx_st cx1)\<lparr>st_coded := cw\<rparr>"
      "cx_res cx2 = (cx_res cx1)\<lparr>rs_failed := rs_failed (cx_res cx1) \<or> rc < 0\<rparr>" using H by blast+
    have st: "st_head_only (cx_st cx') = st_head_only (cx_st cx0)" using H'(4) tf(4) w(4) by auto
    have "reply_done G hr w0 written cx'" if "rc = 0"
    proof -
      have "sent_to (cx_io cx) (cx_io cx2) head" using H'(3) that w(2) by simp
      from sent_to_trans[OF r(8) this] have "sent_to w0 (cx_io cx') (head_text (cx_req cx') (cx_res cx0) framing (unat n) @ [])"
        using tf(2,3) w(3) H'(2) by (simp add: head_def)
      then show ?thesis by (rule reply_doneI[rotated]) (use nb True st g sh tf(3,6) w(3) H'(2,5) in \<open>auto simp: cx1_def\<close>)
    qed
    then show ?thesis using H'(1,5) by auto
  next
    case False
    have sf: "send_framed False cx1 True head [] = (rc, cx2)" using F False by simp
    obtain len xlen over where cl: "clamp (cx_res cx1) (pw_len (WRITER cx1)) (length ([] :: bytes)) = (len, xlen, over)" by (metis surj_pair)
    have x: "length ([] :: bytes) < 2 ^ 31" by simp
    note C = clamp_ok[OF cl small_slab[OF sl(1)] x]
    note df = decide_final[OF d False small_slab[OF r(2)] r(11)]
    have S': "rc = 0 \<or> rc = - 1" "same_but_out cx1 cx2" "rc = 0 \<longrightarrow> \<not> over"
      "cx_res cx2 = (cx_res cx1)\<lparr>rs_body_sent := rs_body_sent (cx_res cx1) + of_nat (len + xlen), rs_failed := rs_failed (cx_res cx1) \<or> rc < 0\<rparr>"
      "rc = 0 \<longrightarrow> sent_to (cx_io cx1) (cx_io cx2) (head @ framed_body (rs_chunked (cx_res cx1)) True (take len (pending (WRITER cx1))) @ take xlen [])"
      using send_framed_ok[OF sl fh(2) x cl C(1) sf] by blast+
    have "reply_done G hr w0 written cx'" if "rc = 0"
    proof -
      have len: "len = pw_len (WRITER cx)" "xlen = 0" using S'(3) C(2,3) that w(1) by auto
      have pl: "take len (pending (WRITER cx1)) = written" "length written = len"
        using len w(1) r(2,9) pending_length by (auto simp: engine_slab_def)
      have "sent_to (cx_io cx) (cx_io cx2) (head @ written)"
        using S'(5) that df(3) pl(1) w(2) by (simp add: cx1_def framed_body_def)
      from sent_to_trans[OF r(8) this] have "sent_to w0 (cx_io cx') (head_text (cx_req cx') (cx_res cx0) framing (unat n) @ written)"
        using tf(2,3) w(3) S'(2) by (simp add: head_def same_but_out_def)
      moreover have st: "cx_st cx' = cx_st cx0" using S'(2) tf(4) w(4) by (simp add: same_but_out_def)
      moreover have cb: "complete_body framing (unat n) written written (rs_close (cx_res cx'))"
        using df(1,2) pl(2) len(1) by (simp add: complete_body_def)
      ultimately show ?thesis 
        by (intro reply_doneI[where body = written]) (use nb False st cb g sh tf(3,6) w(3) S'(2,4) in \<open>auto simp: same_but_out_def cx1_def\<close>)
    qed
    then show ?thesis using S'(1,4) by auto
  qed
qed

text \<open>The last flush of a stream with bytes still pending.\<close>

lemma finish_rest:
  assumes R: "replying G hr w0 written cx" and h: "rs_head_sent (cx_res cx)" and f: "flush_with cx FLUSH_FINAL [] = Some (rc, cx2)"
    and t: "finish_tail cx2 = (rc', cx')"
  shows "rc = - 1 \<and> rs_failed (cx_res cx2) \<or> rc = 0 \<and> reply_done G hr w0 written cx'"
proof -
  have r: "plain cx" "engine_slab (WRITER cx)" "clean (WRITER cx)" "\<not> pw_failed (WRITER cx)" "\<not> rs_failed (cx_res cx)"
    "under_way hr w0 written cx" and g: "G = (cx_req cx, st_head_only (cx_st cx))"
    using R h by (auto simp: replying_def)
  obtain res0 framing n body data where o: "sent_to w0 (cx_io cx) (head_text (cx_req cx) res0 framing n @ body)"
    "st_no_body (cx_st cx) \<longleftrightarrow> st_head_only (cx_st cx) \<or> bodyless (rs_status res0)"
    "if st_no_body (cx_st cx) then body = [] \<and> (rs_chunked (cx_res cx) \<longrightarrow> st_head_only (cx_st cx))
     else on_wire (rs_chunked (cx_res cx)) body data \<and> data @ pending (WRITER cx) = written \<and> framing_ok (cx_res cx) framing n (length data)"
    "st_head_only (cx_st cx) \<or> sent_head hr res0 framing n" "rs_close res0 \<longrightarrow> rs_close (cx_res cx)"
    using r(6) unfolding under_way_def by blast
  have F: "(rc, cx2) = (if st_no_body (cx_st cx) then send_head_only cx [] else send_framed False cx True [] [])"
    using f flush_with_plain[OF r(1,5), of FLUSH_FINAL "[]"] h by (auto simp: first_head_def split: if_splits)
  note tf = finish_tail_fields[OF t]
  have x: "length ([] :: bytes) < 2 ^ 31" by simp
  show ?thesis
  proof (cases "st_no_body (cx_st cx)")
    case True
    have "send_head_only cx [] = (rc, cx2)" using F True by simp
    note H = head_only_ok[OF r(2,4) x this]
    have H': "rc = 0 \<or> rc = - 1" "cx_req cx2 = cx_req cx" "rc = 0 \<longrightarrow> sent_to (cx_io cx) (cx_io cx2) []"
      "\<exists>cw. cx_st cx2 = (cx_st cx)\<lparr>st_coded := cw\<rparr>"
      "cx_res cx2 = (cx_res cx)\<lparr>rs_failed := rs_failed (cx_res cx) \<or> rc < 0\<rparr>" using H by blast+
    have st: "st_head_only (cx_st cx') = st_head_only (cx_st cx)" using H'(4) tf(4) by auto
    have "reply_done G hr w0 written cx'" if "rc = 0"
    proof -
      have "sent_to (cx_io cx) (cx_io cx2) []" using H'(3) that by simp
      from sent_to_trans[OF o(1) this] have "sent_to w0 (cx_io cx') (head_text (cx_req cx') res0 framing n @ body)"
        using tf(2,3) H'(2) by simp
      then show ?thesis by (rule reply_doneI[rotated]) (use o(2-5) True st g tf(3,6) H'(2,5) in auto)
    qed
    then show ?thesis using H'(1,5) by auto
  next
    case False
    have sf: "send_framed False cx True [] [] = (rc, cx2)" using F False by simp
    obtain len xlen over where cl: "clamp (cx_res cx) (pw_len (WRITER cx)) (length ([] :: bytes)) = (len, xlen, over)" by (metis surj_pair)
    note C = clamp_ok[OF cl small_slab[OF r(2)] x]
    define d where "d = pending (WRITER cx)"
    define chunked where "chunked = rs_chunked (cx_res cx)"
    have S': "rc = 0 \<or> rc = - 1" "same_but_out cx cx2" "rc = 0 \<longrightarrow> \<not> over"
      "cx_res cx2 = (cx_res cx)\<lparr>rs_body_sent := rs_body_sent (cx_res cx) + of_nat (len + xlen), rs_failed := rs_failed (cx_res cx) \<or> rc < 0\<rparr>"
      "rc = 0 \<longrightarrow> sent_to (cx_io cx) (cx_io cx2) ([] @ framed_body chunked True (take len d) @ take xlen [])"
      using send_framed_ok[OF r(2,3,4) x x cl C(1) sf] unfolding d_def chunked_def by blast+
    have ok: "on_wire chunked body data" "data @ d = written" "framing_ok (cx_res cx) framing n (length data)"
      using o(3) False by (auto simp: d_def chunked_def)
    have "reply_done G hr w0 written cx'" if "rc = 0"
    proof -
      have len: "len = pw_len (WRITER cx)" "xlen = 0" using S'(3) C(2,3) that by auto
      have dl: "take len d = d" "length d = len" using len r(2) pending_length by (auto simp: engine_slab_def d_def)
      have "sent_to (cx_io cx) (cx_io cx2) (framed_body chunked False d @ (if chunked then put_terminator else []))"
        using S'(5) that dl(1) by (simp add: framed_final)
      from sent_to_trans[OF o(1) this]
      have w: "sent_to w0 (cx_io cx') (head_text (cx_req cx') res0 framing n @ body @ framed_body chunked False d @ (if chunked then put_terminator else []))"
        using tf(2,3) S'(2) by (simp add: same_but_out_def)
      have c2: "rs_chunked (cx_res cx2) = chunked" using S'(4) by (simp add: chunked_def)
      have "on_wire chunked (body @ framed_body chunked False d @ []) (data @ d @ [])" by (rule on_wire_more[OF ok(1)]) simp
      then have ow: "on_wire (rs_chunked (cx_res cx2)) (body @ framed_body chunked False d) written" using ok(2) c2 by simp
      have "framing_ok (cx_res cx2) framing n (length data + (len + xlen))"
        using framing_ok_more[OF ok(3) C(4), of "rs_failed (cx_res cx) \<or> rc < 0"] S'(4) by simp
      moreover have "length data + (len + xlen) = length written" using dl(2) len(2) ok(2) by auto
      ultimately have fo: "framing_ok (cx_res cx2) framing n (length written)" by simp
      have st: "cx_st cx' = cx_st cx" "cx_st cx2 = cx_st cx" using S'(2) tf(4) by (simp_all add: same_but_out_def)
      have "complete_body framing n ((body @ framed_body chunked False d) @ (if rs_chunked (cx_res cx2) then put_terminator else [])) written (rs_close (cx_res cx'))"
        by (rule complete_bodyI[OF ow fo]) (use tf(6) st False in simp)
      then show ?thesis by (intro reply_doneI[OF _ w]) (use o(2,4,5) False st c2 g tf(3,6) S'(2,4) in \<open>auto simp: same_but_out_def\<close>)
    qed
    then show ?thesis using S'(1,4) by auto
  qed
qed

text \<open>A stream that was drained: the terminator alone, or nothing.\<close>

lemma finish_drained:
  assumes R: "replying G hr w0 written cx" and h: "rs_head_sent (cx_res cx)" and z: "pw_len (WRITER cx) = 0"
  shows "\<exists>rc cx'. finish cx = Some (rc, cx') \<and> (rc = - 1 \<and> rs_failed (cx_res cx') \<or> rc = 0 \<and> reply_done G hr w0 written cx')"
proof -
  have r: "plain cx" "engine_slab (WRITER cx)" "clean (WRITER cx)" "\<not> pw_failed (WRITER cx)" "\<not> rs_failed (cx_res cx)"
    "under_way hr w0 written cx" and g: "G = (cx_req cx, st_head_only (cx_st cx))"
    using R h by (auto simp: replying_def)
  obtain res0 framing n body data where o: "sent_to w0 (cx_io cx) (head_text (cx_req cx) res0 framing n @ body)"
    "st_no_body (cx_st cx) \<longleftrightarrow> st_head_only (cx_st cx) \<or> bodyless (rs_status res0)"
    "if st_no_body (cx_st cx) then body = [] \<and> (rs_chunked (cx_res cx) \<longrightarrow> st_head_only (cx_st cx))
     else on_wire (rs_chunked (cx_res cx)) body data \<and> data @ pending (WRITER cx) = written \<and> framing_ok (cx_res cx) framing n (length data)"
    "st_head_only (cx_st cx) \<or> sent_head hr res0 framing n" "rs_close res0 \<longrightarrow> rs_close (cx_res cx)"
    using r(6) unfolding under_way_def by blast
  have nil: "pending (WRITER cx) = []" using z by (simp add: pending_def)
  have don: "reply_done G hr w0 written cx'" if t: "finish_tail cx2 = (rc', cx')"
    and s: "sent_to (cx_io cx) (cx_io cx2) (if rs_chunked (cx_res cx) then put_terminator else [])"
    and same: "cx_req cx2 = cx_req cx" "cx_st cx2 = cx_st cx" "cx_res cx2 = cx_res cx" for cx2 rc' cx'
  proof -
    note tf = finish_tail_fields[OF t]
    from sent_to_trans[OF o(1) s]
    have w: "sent_to w0 (cx_io cx') (head_text (cx_req cx') res0 framing n @ body @ (if rs_chunked (cx_res cx) then put_terminator else []))"
      using tf(2,3) same by simp
    have cb: "complete_body framing n (body @ (if rs_chunked (cx_res cx) then put_terminator else [])) written (rs_close (cx_res cx'))"
      if "\<not> st_no_body (cx_st cx)"
      by (rule complete_bodyI) (use o(3) that nil tf(6) same in auto)
    show ?thesis by (rule reply_doneI[OF _ w]) (use o(2-5) tf(3,4,6) same cb g in \<open>auto split: if_splits\<close>)
  qed
  show ?thesis
  proof (cases "rs_chunked (cx_res cx)")
    case False
    then have "finish cx = Some (finish_tail cx)" using r h z by (simp add: finish_def plain_def)
    moreover obtain rc cx' where t: "finish_tail cx = (rc, cx')" by fastforce
    ultimately show ?thesis using don[OF t] finish_tail_fields(1)[OF t] False by simp
  next
    case True
    have "length put_terminator \<le> pw_slack (WRITER cx) - pw_tail (WRITER cx)"
      using r(2,3) by (simp add: engine_slab_def clean_def put_terminator_def)
    then have pb: "fst (put_back (WRITER cx) put_terminator)" "around [] put_terminator (WRITER cx) (snd (put_back (WRITER cx) put_terminator))"
      using put_back_ok[of "WRITER cx" put_terminator] r(2) by (auto simp: engine_slab_def)
    define q where "q = snd (put_back (WRITER cx) put_terminator)"
    have q: "put_back (WRITER cx) put_terminator = (True, q)" "writer_ok q" "\<not> pw_failed q" "span q = put_terminator"
      using pb r(4) clean_span[OF r(3)] nil by (auto simp: q_def around_def prod_eq_iff)
    obtain rc p w where fl: "ioxd__pipewriter_flush q (cx_io cx) = (rc, p, w)" by (metis surj_pair)
    have D: "delivered (put_terminator @ []) rc q (cx_io cx) p w"
      using flush_delivers[OF q(2,3), of "[]"] fl q(4) by (simp add: ioxd__pipewriter_flush_def)
    then have D': "rc = 0 \<or> rc = - 1" "rc = 0 \<longrightarrow> sent_to (cx_io cx) w put_terminator" by (auto simp: delivered_def)
    define cx2 where "cx2 = set_writer p w (set_writer q (cx_io cx) cx)"
    have e: "finish cx = Some (if rc < 0 then fail cx2 else finish_tail cx2)"
      using r h z True q(1) fl by (simp add: finish_def plain_def cx2_def Let_def)
    show ?thesis
    proof (cases "rc = 0")
      case False
      then show ?thesis using e D'(1) by (auto simp: fail_def)
    next
      case rc0: True
      obtain rc' cx' where t: "finish_tail cx2 = (rc', cx')" by fastforce
      show ?thesis using don[OF t] finish_tail_fields(1)[OF t] D'(2) rc0 True e t by (simp add: cx2_def)
    qed
  qed
qed

lemma finish_replying:
  assumes R: "replying G hr w0 written cx"
  shows "\<exists>rc cx'. finish cx = Some (rc, cx') \<and> (rc = - 1 \<and> rs_failed (cx_res cx') \<or> rc = 0 \<and> reply_done G hr w0 written cx')"
proof (cases "rs_head_sent (cx_res cx) \<and> pw_len (WRITER cx) = 0")
  case True
  then show ?thesis using finish_drained[OF R] by blast
next
  case False
  obtain rc cx2 where f: "flush_with cx FLUSH_FINAL [] = Some (rc, cx2)" using flush_returns[OF R] by blast
  obtain rc' cx' where t: "finish_tail cx2 = (rc', cx')" by fastforce
  have e: "finish cx = Some (if rc < 0 then (- 1, cx2) else finish_tail cx2)"
    using R False f by (auto simp: finish_def flush_def replying_def)
  have "rc = - 1 \<and> rs_failed (cx_res cx2) \<or> rc = 0 \<and> reply_done G hr w0 written cx'"
    using finish_whole[OF R _ f t] finish_rest[OF R _ f t] by blast
  then show ?thesis using e t finish_tail_fields(1)[OF t] by auto
qed


section \<open>A peer that takes what it is sent\<close>

lemma head_only_live:
  assumes "engine_slab (WRITER cx)" and "\<not> pw_failed (WRITER cx)" and "length head < 2 ^ 31" and "\<forall>k. 0 < io_lim (cx_io cx) k"
    and "send_head_only cx head = (rc, cx')"
  shows "rc = 0"
proof -
  have "\<not> pw_failed (ioxd__pipewriter_reset (WRITER cx))" using assms(2) by (simp add: ioxd__pipewriter_reset_def)
  from through_live[OF assms(4,3) this] show ?thesis
    using assms(5) by (cases "head = []") (auto simp: send_head_only_def Let_def split: prod.splits)
qed

lemma finish_terminates_chunks:
  assumes "engine_slab (WRITER cx)" and "clean (WRITER cx)" and "pw_len (WRITER cx) = 0" and "\<not> pw_failed (WRITER cx)"
    and "st_filter (cx_st cx) = None" and "\<not> rs_failed (cx_res cx)" and "rs_head_sent (cx_res cx)" and "rs_chunked (cx_res cx)"
    and "\<not> rs_has_length (cx_res cx)" and "\<forall>k. 0 < io_lim (cx_io cx) k"
  shows "\<exists>cx'. finish cx = Some (0, cx') \<and> sent_to (cx_io cx) (cx_io cx') put_terminator \<and> (rs_close (cx_res cx') \<longleftrightarrow> rs_close (cx_res cx))"
proof -
  have "length put_terminator \<le> pw_slack (WRITER cx) - pw_tail (WRITER cx)"
    using assms(1,2) by (simp add: engine_slab_def clean_def put_terminator_def)
  then have pb: "fst (put_back (WRITER cx) put_terminator)" "around [] put_terminator (WRITER cx) (snd (put_back (WRITER cx) put_terminator))"
    using put_back_ok[of "WRITER cx" put_terminator] assms(1) by (auto simp: engine_slab_def)
  define q where "q = snd (put_back (WRITER cx) put_terminator)"
  have q: "put_back (WRITER cx) put_terminator = (True, q)" "writer_ok q" "\<not> pw_failed q" "span q = put_terminator"
    using pb assms(3,4) clean_span[OF assms(2)] by (auto simp: q_def around_def prod_eq_iff pending_def)
  obtain rc p w where fl: "ioxd__pipewriter_flush q (cx_io cx) = (rc, p, w)" by (metis surj_pair)
  have rc: "rc = 0" using flush_live[OF assms(10) q(2,3)] fl by simp
  have "delivered (put_terminator @ []) rc q (cx_io cx) p w"
    using flush_delivers[OF q(2,3), of "[]"] fl q(4) by (simp add: ioxd__pipewriter_flush_def)
  then have s: "sent_to (cx_io cx) w put_terminator" using rc by (auto simp: delivered_def)
  obtain rc' cx' where t: "finish_tail (set_writer p w (set_writer q (cx_io cx) cx)) = (rc', cx')" by fastforce
  have "finish cx = Some (rc', cx')" using assms q(1) fl rc t by (simp add: finish_def Let_def)
  then show ?thesis using finish_tail_fields[OF t] s assms(9) by auto
qed


section \<open>Whole replies\<close>

text \<open>The context of a request as the engine hands it to the chain, with nothing set on the reply yet.\<close>

definition fresh_reply :: "ctx \<Rightarrow> bool" where
  "fresh_reply cx \<longleftrightarrow>
     plain cx \<and> engine_slab (WRITER cx) \<and> \<not> pw_failed (WRITER cx) \<and> length (rs_head (cx_res cx)) = IOXD_RESP_HEAD_CAP \<and>
     init_response (cx_res cx) (WRITER cx) = (cx_res cx, WRITER cx)"

lemma fresh_fields:
  assumes "fresh_reply cx"
  shows "rs_status (cx_res cx) = 200" "\<not> rs_head_sent (cx_res cx)" "\<not> rs_has_length (cx_res cx)" "\<not> rs_chunked (cx_res cx)"
    "\<not> rs_failed (cx_res cx)" "rs_body_sent (cx_res cx) = 0" "\<not> rs_close (cx_res cx)" "pw_len (WRITER cx) = 0" "clean (WRITER cx)"
proof -
  define res pw where "res = cx_res cx" and "pw = WRITER cx"
  have r: "fst (init_response res pw) = res" and w: "ioxd__pipewriter_reset pw = pw"
    using assms by (simp_all add: fresh_reply_def init_response_def res_def pw_def)
  have "rs_status res = 200 \<and> \<not> rs_head_sent res \<and> \<not> rs_has_length res \<and> \<not> rs_chunked res \<and> \<not> rs_failed res \<and>
      rs_body_sent res = 0 \<and> \<not> rs_close res"
    by (subst (1 2 3 4 5 6 7) r[symmetric]) (simp add: init_response_def)
  moreover have "pw_len pw = 0 \<and> clean pw"
    by (subst (1 2) w[symmetric]) (simp add: ioxd__pipewriter_reset_def clean_def)
  ultimately show "rs_status (cx_res cx) = 200" "\<not> rs_head_sent (cx_res cx)" "\<not> rs_has_length (cx_res cx)" "\<not> rs_chunked (cx_res cx)"
    "\<not> rs_failed (cx_res cx)" "rs_body_sent (cx_res cx) = 0" "\<not> rs_close (cx_res cx)" "pw_len (WRITER cx) = 0" "clean (WRITER cx)"
    by (simp_all add: res_def pw_def)
qed

lemma fresh_replying:
  assumes "fresh_reply cx"
  shows "replying (cx_req cx, st_head_only (cx_st cx)) (cx_res cx) (cx_io cx) [] cx"
proof -
  have "resp_ok (cx_res cx) \<and> type_short (cx_res cx)"
    using assms init_response_ok[of "cx_res cx" "WRITER cx"] by (simp add: fresh_reply_def)
  then show ?thesis
    using assms fresh_fields[OF assms] by (simp add: fresh_reply_def replying_def pending_def)
qed

text \<open>
  The bytes of one reply: the lines of the engine's head for a response of the given shape, then its
  header lines, each of them clean, the empty line, and the body that this head announces.
\<close>

definition reply_message :: "request \<Rightarrow> response \<Rightarrow> bytes \<Rightarrow> bool \<Rightarrow> bytes \<Rightarrow> bool" where
  "reply_message req hr written closing msg \<longleftrightarrow>
     (\<exists>res0 framing n body. same_shape hr res0 \<and> (rs_close res0 \<longrightarrow> closing) \<and>
        (let ls = engine_lines req res0 framing n @ map header_line (read_headers res0) in
           msg = crlf_lines ls @ CRLF @ body \<and> (\<forall>l \<in> set ls. l \<noteq> [] \<and> CR \<notin> set l \<and> LF \<notin> set l)) \<and>
        (if bodyless (rs_status hr) then body = [] \<and> (framing = FRAME_NONE \<or> framing = FRAME_LENGTH)
         else complete_body framing n body written closing))"

lemma reply_done_wire:
  assumes rd: "reply_done (cx_req cx, st_head_only (cx_st cx)) hr (cx_io cx) written cx'" and h: "\<not> st_head_only (cx_st cx)"
    and sh: "same_shape hr0 hr"
  shows "\<exists>msg. io_wire (cx_io cx') = io_wire (cx_io cx) @ msg \<and> reply_message (cx_req cx) hr0 written (rs_close (cx_res cx')) msg"
proof -
  have h': "\<not> st_head_only (cx_st cx')" "cx_req cx' = cx_req cx" using rd h by (auto simp: reply_done_def)
  obtain res0 framing n body where o: "sent_to (cx_io cx) (cx_io cx') (head_text (cx_req cx') res0 framing n @ body)"
    "sent_head hr res0 framing n" "rs_close res0 \<longrightarrow> rs_close (cx_res cx')"
    "if bodyless (rs_status res0) then body = [] else complete_body framing n body written (rs_close (cx_res cx'))"
    using rd unfolding reply_done_def by (metis (full_types) h'(1))
  have r: "resp_ok res0" "type_short res0" "n < 2 ^ 64" "same_shape hr0 res0" "rs_status res0 = rs_status hr0"
    "bodyless (rs_status res0) \<longrightarrow> framing = FRAME_NONE \<or> framing = FRAME_LENGTH"
    using o(2) sh by (auto simp: sent_head_def same_shape_def)
  define ls where "ls = engine_lines (cx_req cx) res0 framing n @ map header_line (read_headers res0)"
  have t: "head_text (cx_req cx) res0 framing n = crlf_lines ls @ CRLF"
    using r(1) by (simp add: head_text_def resp_ok_def ls_def)
  have c: "\<forall>l \<in> set ls. l \<noteq> [] \<and> CR \<notin> set l \<and> LF \<notin> set l"
    unfolding ls_def using engine_lines_clean[OF r(1)] r(1) good_header_clean by (fastforce simp: resp_ok_def list_all_iff)
  have "io_wire (cx_io cx') = io_wire (cx_io cx) @ (crlf_lines ls @ CRLF @ body)"
    using sent_to_fields(1)[OF o(1)] h'(2) t by simp
  moreover have "reply_message (cx_req cx) hr0 written (rs_close (cx_res cx')) (crlf_lines ls @ CRLF @ body)"
    unfolding reply_message_def Let_def
    by (rule exI[of _ res0], rule exI[of _ framing], rule exI[of _ n], rule exI[of _ body]) (use c r o(3,4) in \<open>simp add: ls_def\<close>)
  ultimately show ?thesis by blast
qed

text \<open>C1. A reply reaches the wire whole and well framed. Take any request but HEAD and any calls a handler makes
  on its reply - \<open>ioxd_write\<close>, \<open>ioxd_printf\<close>, \<open>ioxd_reserve\<close> with \<open>ioxd_advance\<close>, \<open>ioxd_flush\<close>, and the
  ones that shape the head, in any order - with no filter and no delegate set and each call given less than
  \<open>2 ^ 31\<close> bytes: every call returns and so does \<open>finish\<close>. When \<open>finish\<close> reports success, what went out is one head
  and its body and nothing else. The head is, line by line and each line non-empty and free of CR and LF, the status
  line, the content type, the framing and connection lines and the accepted headers of the response as it stood when
  its first bytes were sent, ended by an empty line; it announces the close of the connection when the response asked for
  it, and only when the connection is closed. The body is exactly the bytes of the calls that succeeded,
  delimited as that head says: with a content length that is never exceeded, and that is met unless the connection
  closes; as non-empty chunks with a single terminator at the end; or up to the close of the connection. A 1xx, 204
  or 304 has no byte after its head. Otherwise the result is -1 and the reply is marked failed.\<close>

theorem reply_reaches_the_wire:
  assumes "fresh_reply cx" and "\<not> st_head_only (cx_st cx)" and "\<forall>op \<in> set ops. length (op_data op) < 2 ^ 31"
  shows "\<exists>written cx1 rc cx'. reply_run ops cx = Some (written, cx1) \<and> finish cx1 = Some (rc, cx') \<and>
    (if rc = 0 then
       \<exists>msg. io_wire (cx_io cx') = io_wire (cx_io cx) @ msg \<and>
         reply_message (cx_req cx) (head_response ops cx) written (rs_close (cx_res cx')) msg
     else rc = - 1 \<and> rs_failed (cx_res cx'))"
proof -
  let ?G = "(cx_req cx, st_head_only (cx_st cx))"
  obtain written cx1 where r: "reply_run ops cx = Some (written, cx1)"
    "rs_failed (cx_res cx1) \<or> (\<exists>hr. replying ?G hr (cx_io cx) written cx1 \<and> same_shape (head_response ops cx) hr)"
    using reply_run_ok[of cx ?G "cx_res cx" "cx_io cx" "[]" ops] fresh_replying[OF assms(1)] fresh_fields(2)[OF assms(1)] assms(3) by auto
  show ?thesis
  proof (cases "rs_failed (cx_res cx1)")
    case True
    then have "finish cx1 = Some (- 1, cx1)" by (simp add: finish_def)
    then show ?thesis using r(1) True by auto
  next
    case False
    then obtain hr rc cx' where f: "finish cx1 = Some (rc, cx')" "same_shape (head_response ops cx) hr"
      "rc = - 1 \<and> rs_failed (cx_res cx') \<or> rc = 0 \<and> reply_done ?G hr (cx_io cx) written cx'"
      using finish_replying r(2) by blast
    then show ?thesis using r(1) reply_done_wire[OF _ assms(2) f(2), of written cx'] by auto
  qed
qed

text \<open>C24. A chunked reply to HEAD ends in bytes that belong to no message. When the handler of an HTTP/1.1 HEAD
  request flushes before it has declared a length, the head announces chunks, no body follows it - and \<open>finish\<close>
  still sends the five bytes of the chunked terminator, with the connection left open, so that a client, for which
  the reply ended with the head, reads them as the start of the next reply.\<close>

theorem head_flush_leaves_a_terminator:
  assumes fresh: "fresh_reply cx" and h: "st_head_only (cx_st cx)" and m: "rq_minor_version (cx_req cx) \<ge> 1"
    and d: "st_body_done (cx_st cx)" and live: "\<forall>k. 0 < io_lim (cx_io cx) k"
  shows "\<exists>cx1 cx' res0. ioxd_flush cx = Some (0, cx1) \<and> finish cx1 = Some (0, cx') \<and>
    io_wire (cx_io cx') = io_wire (cx_io cx) @ head_text (cx_req cx) res0 FRAME_CHUNKED 0 @ put_terminator \<and>
    \<not> rs_close (cx_res cx')"
proof -
  note ff = fresh_fields[OF fresh]
  have r: "plain cx" "engine_slab (WRITER cx)" "\<not> pw_failed (WRITER cx)" "resp_ok (cx_res cx)" "type_short (cx_res cx)"
    using fresh_replying[OF fresh] by (auto simp: replying_def)
  define res0 where "res0 = (cx_res cx)\<lparr>rs_chunked := True\<rparr>"
  define cx0 where "cx0 = cx\<lparr>cx_res := res0, cx_st := (cx_st cx)\<lparr>st_no_body := True\<rparr>\<rparr>"
  have de: "decide_framing cx False (pw_len (WRITER cx)) = (FRAME_CHUNKED, 0, cx0)"
    using ff h m d by (simp add: decide_framing_def choose_framing_def drain_or_close_def wire_status_def Let_def cx0_def res0_def)
  note fh = first_head_sent[OF r(4,5) ff(2) de]
  define head where "head = head_text (cx_req cx) (cx_res cx0) FRAME_CHUNKED (unat (0 :: u64))"
  define cxs where "cxs = upd_res (\<lambda>r. r\<lparr>rs_head_sent := True\<rparr>) cx0"
  have w0: "WRITER cxs = WRITER cx" "cx_io cxs = cx_io cx" by (simp_all add: cxs_def cx0_def WRITER_def)
  have s: "engine_slab (WRITER cxs)" "\<not> pw_failed (WRITER cxs)" using r w0 by auto
  obtain rc cx1 where F: "send_head_only cxs head = (rc, cx1)" by fastforce
  have f: "ioxd_flush cx = Some (rc, cx1)"
    using F flush_with_plain[OF r(1) ff(5), of FLUSH_ASKED "[]"] fh(1)
    by (simp add: ioxd_flush_def flush_def head_def cx0_def cxs_def)
  have rc0: "rc = 0" using head_only_live[OF s fh(2)[folded head_def] _ F] live w0 by simp
  note H = head_only_ok[OF s fh(2)[folded head_def] F]
  have H': "cx_res cx1 = res0\<lparr>rs_head_sent := True, rs_failed := False\<rparr>" "sent_to (cx_io cx) (cx_io cx1) head" "engine_slab (WRITER cx1)"
    "clean (WRITER cx1)" "pw_len (WRITER cx1) = 0" "\<not> pw_failed (WRITER cx1)" "st_filter (cx_st cx1) = None"
    using H rc0 ff(5) r(1) w0 by (auto simp: cxs_def cx0_def res0_def plain_def)
  obtain cx' where e: "finish cx1 = Some (0, cx')" "sent_to (cx_io cx1) (cx_io cx') put_terminator"
    "rs_close (cx_res cx') \<longleftrightarrow> rs_close (cx_res cx1)"
    using finish_terminates_chunks[OF H'(3-7)] H'(1) live sent_to_fields(8)[OF H'(2)] ff(3) by (auto simp: res0_def)
  have "sent_to (cx_io cx) (cx_io cx') (head @ put_terminator)" by (rule sent_to_trans[OF H'(2) e(2)])
  then have "io_wire (cx_io cx') = io_wire (cx_io cx) @ head_text (cx_req cx) (cx_res cx0) FRAME_CHUNKED 0 @ put_terminator"
    using sent_to_fields(1) by (fastforce simp: head_def)
  then show ?thesis using f rc0 e(1,3) H'(1) ff(7) by (auto simp: res0_def)
qed

text \<open>A small context: a slab of eight bytes, a peer that takes everything.\<close>

definition sample_ctx :: "bool \<Rightarrow> ctx" where
  "sample_ctx head_only =
     \<lparr>cx_req = sample_request\<lparr>rq_keep_alive := True\<rparr>,
      cx_res = fst (init_response blank_response (ioxd__pipewriter_init [] 0 0 0)),
      cx_st = \<lparr>st_body_read = 0, st_body_done = True, st_body_whole = False, st_body_err = 0, st_chunk_left = 0,
               st_head_only = head_only, st_no_body = False, st_continue_sent = False, st_on_head = None, st_filter = None,
               st_coded = ioxd__pipewriter_init [] 0 0 0\<rparr>,
      cx_pipe = ioxd__pipe_init [] 0 (replicate 31 NUL) 16 8 7,
      cx_io = \<lparr>io_rx = [], io_ready = 0, io_end = 0, io_next = 0, io_slab = (\<lambda>_. []), io_returned = [], io_wire = [],
               io_lim = (\<lambda>_. 65536), io_sends = 0\<rparr>\<rparr>"

lemma sample_fresh: "fresh_reply (sample_ctx b)"
proof -
  have w: "WRITER (sample_ctx b) = ioxd__pipewriter_init (replicate 31 NUL) 16 8 7"
    by (simp add: sample_ctx_def WRITER_def ioxd__pipe_init_def)
  have r: "cx_res (sample_ctx b) = fst (init_response blank_response (ioxd__pipewriter_init [] 0 0 0))" by (simp add: sample_ctx_def)
  have p: "plain (sample_ctx b)" by (simp add: sample_ctx_def plain_def)
  show ?thesis unfolding fresh_reply_def w r
    using p by (simp add: engine_slab_def writer_ok_def ioxd__pipewriter_init_def init_response_def ioxd__pipewriter_reset_def blank_response_def)
qed

theorem reply_reaches_the_wire_witness:
  "\<exists>written cx1 rc cx'. reply_run [Put ''hello, world'', Push] (sample_ctx False) = Some (written, cx1) \<and>
     finish cx1 = Some (rc, cx') \<and> (rc = 0 \<or> rs_failed (cx_res cx'))"
proof -
  have h: "\<not> st_head_only (cx_st (sample_ctx False))" by (simp add: sample_ctx_def)
  have o: "\<forall>op \<in> set [Put ''hello, world'', Push]. length (op_data op) < 2 ^ 31" by simp
  show ?thesis using reply_reaches_the_wire[OF sample_fresh h o] by (metis (full_types))
qed

theorem head_flush_leaves_a_terminator_witness:
  "\<exists>cx1 cx'. ioxd_flush (sample_ctx True) = Some (0, cx1) \<and> finish cx1 = Some (0, cx') \<and>
     (\<exists>h. io_wire (cx_io cx') = h @ put_terminator)"
proof -
  have h: "st_head_only (cx_st (sample_ctx True))" "rq_minor_version (cx_req (sample_ctx True)) \<ge> 1"
    "st_body_done (cx_st (sample_ctx True))" "\<forall>k. 0 < io_lim (cx_io (sample_ctx True)) k"
    by (simp_all add: sample_ctx_def sample_request_def)
  show ?thesis using head_flush_leaves_a_terminator[OF sample_fresh h] by (metis append.assoc)
qed

end
