(* ===== verification/Json.thy ===== *)
theory Json
  imports Reply_Wire
begin

text \<open>
  The forward-only JSON writer, \<^verbatim>\<open>lib/json/json.c\<close>: bytes stored in place at the tail of a sink,
  strings escaped as they are written, commas and nesting tracked in two 64-bit masks.

  A sink is a reply, a raw pipe or a buffer in memory; the sink is a value, and a place in it is the
  offset of a byte.  \<open>snprintf\<close> with \<open>%.*g\<close>, \<open>strtod\<close> and \<open>isfinite\<close> are parameters of the calls
  that write a floating-point number.
\<close>

abbreviation RUN_MAX :: nat where "RUN_MAX \<equiv> 1024"
abbreviation IOXD_JSON_DEPTH :: nat where "IOXD_JSON_DEPTH \<equiv> 63"

text \<open>Where the bytes go; a buffer in memory is absent, or its bytes, with the number written.\<close>

datatype sink = To_reply ctx | To_pipe ioxd_pipe io | To_mem "bytes option" nat

record json =
  j_to :: sink
  has_value :: u64
  is_object :: u64
  j_depth :: nat
  after_key :: bool
  j_failed :: bool

fun tail :: "sink \<Rightarrow> nat option \<times> nat" where
  "tail (To_mem None n) = (None, 0)"
| "tail (To_mem (Some buf) n) = (Some n, length buf - n)"
| "tail (To_pipe p w) = (Some (pw_lead (p_out p) + pw_len (p_out p)), pw_cap (p_out p) - pw_len (p_out p))"
| "tail (To_reply cx) = (Some (pw_lead (WRITER cx) + pw_len (WRITER cx)), pw_cap (WRITER cx) - pw_len (WRITER cx))"

text \<open>What is stored through the pointer \<open>tail\<close> gave.\<close>

fun store :: "sink \<Rightarrow> nat \<Rightarrow> bytes \<Rightarrow> sink" where
  "store (To_mem b n) at data = To_mem (map_option (\<lambda>buf. memwrite buf at data) b) n"
| "store (To_pipe p w) at data = To_pipe (p\<lparr>p_out := poke (p_out p) at data\<rparr>) w"
| "store (To_reply cx) at data = To_reply (set_writer (poke (WRITER cx) at data) (cx_io cx) cx)"

fun commit :: "sink \<Rightarrow> nat \<Rightarrow> sink" where
  "commit (To_mem b len) n = To_mem b (len + n)"
| "commit (To_pipe p w) n = To_pipe (p\<lparr>p_out := (p_out p)\<lparr>pw_len := pw_len (p_out p) + n\<rparr>\<rparr>) w"
| "commit (To_reply cx) n = To_reply (set_writer ((WRITER cx)\<lparr>pw_len := pw_len (WRITER cx) + n\<rparr>) (cx_io cx) cx)"

fun sink_failed :: "sink \<Rightarrow> bool" where
  "sink_failed (To_reply cx) = (pw_failed (WRITER cx) \<or> rs_failed (cx_res cx))"
| "sink_failed (To_pipe p w) = pw_failed (p_out p)"
| "sink_failed (To_mem b n) = False"

fun sink_reserve :: "sink \<Rightarrow> nat \<Rightarrow> (nat option \<times> sink) option" where
  "sink_reserve (To_reply cx) n = do { (at, cx) \<leftarrow> ioxd_reserve cx n; Some (at, To_reply cx) }"
| "sink_reserve (To_pipe p w) n = (let (at, p, w) = ioxd_pipe_reserve p w n in Some (at, To_pipe p w))"
| "sink_reserve (To_mem b l) n = Some (None, To_mem b l)"

definition fail_json :: "json \<Rightarrow> json" where
  "fail_json j = j\<lparr>j_failed := True\<rparr>"

definition make_room :: "json \<Rightarrow> nat \<Rightarrow> (nat option \<times> json) option" where
  "make_room j n = do {
     (at, s) \<leftarrow> sink_reserve (j_to j) n;
     (let j = j\<lparr>j_to := s\<rparr> in Some (at, if at = None then fail_json j else j)) }"

definition want :: "json \<Rightarrow> nat \<Rightarrow> (nat option \<times> json) option" where
  "want j n =
     (let (at, room) = tail (j_to j) in
      if room \<ge> n \<and> \<not> sink_failed (j_to j) then Some (at, j) else make_room j n)"

partial_function (option) put :: "json \<Rightarrow> bytes \<Rightarrow> (bool \<times> json) option" where
  "put j p =
     (if p = [] then Some (True, j)
      else
        let n = length p; (at, room) = tail (j_to j) in do {
        (ok, j) \<leftarrow> (if room = 0 \<or> sink_failed (j_to j) then do {
                      (at, j) \<leftarrow> make_room j (if n < RUN_MAX then n else RUN_MAX);
                      Some (at \<noteq> None, j) }
                    else Some (True, j));
        (if \<not> ok then Some (False, j)
         else
           let (at, room) = tail (j_to j);
               k = (if n < room then n else room)
           in put (j\<lparr>j_to := commit (store (j_to j) (the at) (take k p)) k\<rparr>) (drop k p)) })"

definition needs_escape :: "byte \<Rightarrow> bool" where
  "needs_escape c \<longleftrightarrow> byte_val c < 32 \<or> c = DQUOTE \<or> c = BSLASH"

definition clean_run :: "bytes \<Rightarrow> nat" where
  "clean_run p = length (takeWhile (\<lambda>c. \<not> needs_escape c) p)"

definition escape :: "byte \<Rightarrow> bytes" where
  "escape c =
     (if c = DQUOTE then [BSLASH, DQUOTE]
      else if c = BSLASH then [BSLASH, BSLASH]
      else if c = LF then [BSLASH, CHR ''n'']
      else if c = CR then [BSLASH, CHR ''r'']
      else if c = TAB then [BSLASH, CHR ''t'']
      else if c = CHR 0x08 then [BSLASH, CHR ''b'']
      else if c = CHR 0x0C then [BSLASH, CHR ''f'']
      else [BSLASH, CHR ''u'', CHR ''0'', CHR ''0'', ''0123456789abcdef'' ! (byte_val c div 16), ''0123456789abcdef'' ! (byte_val c mod 16)])"

function put_escaped :: "json \<Rightarrow> bytes \<Rightarrow> (bool \<times> json) option" where
  "put_escaped j p =
     (if p = [] then Some (True, j)
      else
        let run = clean_run p in do {
        (ok, j) \<leftarrow> (if run \<noteq> 0 then put j (take run p) else Some (True, j));
        (if \<not> ok then Some (False, j)
         else
           let p = drop run p in
           case p of
             [] \<Rightarrow> Some (True, j)
           | c # p \<Rightarrow> do {
               (ok, j) \<leftarrow> put j (escape c);
               (if \<not> ok then Some (False, j) else put_escaped j p) }) })"
  by pat_completeness auto
termination by (relation "measure (\<lambda>(j, p). length p)") (auto dest!: arg_cong[where f = length])

declare put_escaped.simps [simp del]

text \<open>The bit of a level: \<open>(uint64_t)1 << depth\<close>.\<close>

definition level :: "nat \<Rightarrow> u64" where
  "level n = push_bit n 1"

definition value_lead :: "json \<Rightarrow> int \<times> json" where
  "value_lead j =
     (if j_failed j then (- 1, j)
      else if after_key j then (0, j\<lparr>after_key := False\<rparr>)
      else
        let lvl = level (j_depth j) in
        if is_object j AND lvl \<noteq> 0 then (- 1, fail_json j)
        else if has_value j AND lvl \<noteq> 0 then (1, j)
        else (0, j\<lparr>has_value := has_value j OR lvl\<rparr>))"


text \<open>The comma, the quotes and the byte that follows the closing one.\<close>

definition put_string :: "json \<Rightarrow> nat \<Rightarrow> bytes \<Rightarrow> byte \<Rightarrow> (bool \<times> json) option" where
  "put_string j comma p after =
     (let n = length p;
          need = comma + n + 2 + (if after \<noteq> NUL then 1 else 0);
          (at, room) = tail (j_to j)
      in if need \<le> RUN_MAX \<and> clean_run p = n \<and> at \<noteq> None \<and> need \<le> room \<and> \<not> sink_failed (j_to j) then
        let data = (if comma \<noteq> 0 then '','' else []) @ [DQUOTE] @ p @ [DQUOTE] @ (if after \<noteq> NUL then [after] else [])
        in Some (True, j\<lparr>j_to := commit (store (j_to j) (the at) data) need\<rparr>)
      else do {
        (ok, j) \<leftarrow> (if comma \<noteq> 0 then put j '','' else Some (True, j));
        (if \<not> ok then Some (False, j) else do {
        (ok, j) \<leftarrow> put j [DQUOTE];
        (if \<not> ok then Some (False, j) else do {
        (ok, j) \<leftarrow> put_escaped j p;
        (if \<not> ok then Some (False, j) else do {
        (ok, j) \<leftarrow> put j [DQUOTE];
        (if \<not> ok then Some (False, j)
         else if after = NUL then Some (True, j) else put j [after]) }) }) }) })"

definition put_value :: "json \<Rightarrow> bytes \<Rightarrow> (bool \<times> json) option" where
  "put_value j p =
     (let (comma, j) = value_lead j in
      if comma < 0 then Some (False, j)
      else do {
        (at, j) \<leftarrow> want j (nat comma + length p);
        (case at of
           None \<Rightarrow> Some (False, j)
         | Some at \<Rightarrow>
             Some (True, j\<lparr>j_to := commit (store (j_to j) at ((if comma \<noteq> 0 then '','' else []) @ p)) (nat comma + length p)\<rparr>)) })"

definition new_json :: "sink \<Rightarrow> json" where
  "new_json s = \<lparr>j_to = s, has_value = 0, is_object = 0, j_depth = 0, after_key = False, j_failed = False\<rparr>"

definition ioxd_json_reply :: "ctx \<Rightarrow> json" where
  "ioxd_json_reply cx = new_json (To_reply (upd_res (\<lambda>res. snd (ioxd_content_type res (Some ''application/json''))) cx))"

definition ioxd_json_pipe :: "ioxd_pipe \<Rightarrow> io \<Rightarrow> json" where
  "ioxd_json_pipe p w = new_json (To_pipe p w)"

definition ioxd_json_mem :: "bytes option \<Rightarrow> json" where
  "ioxd_json_mem buf = new_json (To_mem buf 0)"

definition open_level :: "json \<Rightarrow> byte \<Rightarrow> (bool \<times> json) option" where
  "open_level j bracket =
     (if j_failed j then Some (False, j)
      else if j_depth j = IOXD_JSON_DEPTH then Some (False, fail_json j)
      else
        let (comma, j) = value_lead j in
        if comma < 0 then Some (False, j)
        else
          let j = j\<lparr>j_depth := j_depth j + 1\<rparr>;
              lvl = level (j_depth j);
              j = j\<lparr>has_value := has_value j AND NOT lvl\<rparr>;
              j = (if bracket = CHR ''{'' then j\<lparr>is_object := is_object j OR lvl\<rparr> else j\<lparr>is_object := is_object j AND NOT lvl\<rparr>)
          in do {
            (at, j) \<leftarrow> want j (nat comma + 1);
            (case at of
               None \<Rightarrow> Some (False, j)
             | Some at \<Rightarrow>
                 Some (True, j\<lparr>j_to := commit (store (j_to j) at ((if comma \<noteq> 0 then '','' else []) @ [bracket])) (nat comma + 1)\<rparr>)) })"

definition ioxd_json_object :: "json \<Rightarrow> (bool \<times> json) option" where
  "ioxd_json_object j = open_level j (CHR ''{'')"

definition ioxd_json_array :: "json \<Rightarrow> (bool \<times> json) option" where
  "ioxd_json_array j = open_level j (CHR ''['')"

definition ioxd_json_end :: "json \<Rightarrow> (bool \<times> json) option" where
  "ioxd_json_end j =
     (if j_failed j then Some (False, j)
      else if j_depth j = 0 \<or> after_key j then Some (False, fail_json j)
      else
        let object = is_object j AND level (j_depth j) \<noteq> 0;
            j = j\<lparr>j_depth := j_depth j - 1\<rparr>
        in do {
          (at, j) \<leftarrow> want j 1;
          (case at of
             None \<Rightarrow> Some (False, j)
           | Some at \<Rightarrow> Some (True, j\<lparr>j_to := commit (store (j_to j) at (if object then ''}'' else '']'')) 1\<rparr>)) })"

definition ioxd_json_done :: "json \<Rightarrow> bool" where
  "ioxd_json_done j \<longleftrightarrow> \<not> j_failed j \<and> j_depth j = 0"

definition ioxd__json_key_n :: "json \<Rightarrow> bytes \<Rightarrow> (bool \<times> json) option" where
  "ioxd__json_key_n j name =
     (if j_failed j then Some (False, j)
      else
        let lvl = level (j_depth j) in
        if is_object j AND lvl = 0 \<or> after_key j then Some (False, fail_json j)
        else
          let comma = (if has_value j AND lvl \<noteq> 0 then 1 else 0);
              j = j\<lparr>has_value := has_value j OR lvl\<rparr>
          in do {
            (ok, j) \<leftarrow> put_string j comma name (CHR '':'');
            (if \<not> ok then Some (False, j) else Some (True, j\<lparr>after_key := True\<rparr>)) })"

definition ioxd_json_key :: "json \<Rightarrow> bytes \<Rightarrow> (bool \<times> json) option" where
  "ioxd_json_key j name = ioxd__json_key_n j (takeWhile (\<lambda>c. c \<noteq> NUL) name)"

definition ioxd_json_string :: "json \<Rightarrow> bytes \<Rightarrow> (bool \<times> json) option" where
  "ioxd_json_string j s =
     (let (comma, j) = value_lead j in if comma < 0 then Some (False, j) else put_string j (nat comma) s NUL)"

definition ioxd_json_null :: "json \<Rightarrow> (bool \<times> json) option" where
  "ioxd_json_null j = put_value j ''null''"

definition ioxd_json_bool :: "json \<Rightarrow> bool \<Rightarrow> (bool \<times> json) option" where
  "ioxd_json_bool j v = (if v then put_value j ''true'' else put_value j ''false'')"

definition ioxd_json_cstr :: "json \<Rightarrow> bytes option \<Rightarrow> (bool \<times> json) option" where
  "ioxd_json_cstr j s =
     (case s of
        None \<Rightarrow> ioxd_json_null j
      | Some s \<Rightarrow>
          let (comma, j) = value_lead j in
          if comma < 0 then Some (False, j) else put_string j (nat comma) (takeWhile (\<lambda>c. c \<noteq> NUL) s) NUL)"

lemma unsigned_numeral_10_64: "unat (10 :: u64) = 10"
  by simp

function digits_tmp :: "u64 \<Rightarrow> bytes" where
  "digits_tmp v = char_of (48 + unat (v mod 10)) # (if v div 10 \<noteq> 0 then digits_tmp (v div 10) else [])"
  by pat_completeness auto
termination
proof (relation "measure unat")
  fix v :: u64
  assume "v div 10 \<noteq> 0"
  then have "0 < unat v div 10" by (metis unat_div unat_gt_0 unsigned_numeral_10_64)
  then have "unat v div 10 < unat v" by simp
  then show "(v div 10, v) \<in> measure unat" by (simp add: unat_div)
qed simp

declare digits_tmp.simps [simp del]

definition digits :: "u64 \<Rightarrow> bytes" where
  "digits v = rev (digits_tmp v)"

definition ioxd_json_uint :: "json \<Rightarrow> u64 \<Rightarrow> (bool \<times> json) option" where
  "ioxd_json_uint j v = put_value j (digits v)"

definition ioxd_json_int :: "json \<Rightarrow> u64 \<Rightarrow> (bool \<times> json) option" where
  "ioxd_json_int j v =
     (let magnitude = (if sint v < 0 then - (v + 1) + 1 else v)
      in put_value j ((if sint v < 0 then ''-'' else []) @ digits magnitude))"

text \<open>
  \<open>shortest\<close>: \<open>fmt precision\<close> is what \<open>snprintf("%.*g")\<close> prints for the number, \<open>None\<close> for an error;
  \<open>reads_back\<close> is the comparison with \<open>strtod\<close> or \<open>strtof\<close> of the text; \<open>has_locale\<close> is whether the C
  locale could be made and entered.
\<close>

fun shortest_loop :: "nat \<Rightarrow> (nat \<Rightarrow> bytes option) \<Rightarrow> (bytes \<Rightarrow> bool) \<Rightarrow> nat \<Rightarrow> nat \<Rightarrow> bytes option" where
  "shortest_loop cap fmt reads_back precision 0 = fmt precision"
| "shortest_loop cap fmt reads_back precision (Suc more_left) =
     (case fmt precision of
        None \<Rightarrow> None
      | Some tmp \<Rightarrow>
          if length tmp \<ge> cap \<or> reads_back tmp then Some tmp else shortest_loop cap fmt reads_back (precision + 1) more_left)"

definition shortest :: "bool \<Rightarrow> nat \<Rightarrow> (nat \<Rightarrow> bytes option) \<Rightarrow> (bytes \<Rightarrow> bool) \<Rightarrow> nat \<Rightarrow> nat \<Rightarrow> bytes option" where
  "shortest has_locale cap fmt reads_back first_prec last_prec =
     (if \<not> has_locale then None
      else case shortest_loop cap fmt reads_back first_prec (last_prec - first_prec) of
        None \<Rightarrow> None
      | Some tmp \<Rightarrow> if length tmp \<ge> cap then None else Some tmp)"

definition put_number :: "json \<Rightarrow> bytes option \<Rightarrow> (bool \<times> json) option" where
  "put_number j n = (case n of None \<Rightarrow> Some (False, fail_json j) | Some tmp \<Rightarrow> put_value j tmp)"

definition ioxd_json_double :: "bool \<Rightarrow> (nat \<Rightarrow> bytes option) \<Rightarrow> (bytes \<Rightarrow> bool) \<Rightarrow> bool \<Rightarrow> json \<Rightarrow> (bool \<times> json) option" where
  "ioxd_json_double has_locale fmt strtod_same isfinite j =
     (if \<not> isfinite then ioxd_json_null j else put_number j (shortest has_locale 32 fmt strtod_same 15 17))"

definition ioxd_json_float :: "bool \<Rightarrow> (nat \<Rightarrow> bytes option) \<Rightarrow> (bytes \<Rightarrow> bool) \<Rightarrow> bool \<Rightarrow> json \<Rightarrow> (bool \<times> json) option" where
  "ioxd_json_float has_locale fmt strtof_same isfinite j =
     (if \<not> isfinite then ioxd_json_null j else put_number j (shortest has_locale 32 fmt strtof_same 6 9))"

definition ioxd_json_raw :: "json \<Rightarrow> bytes \<Rightarrow> (bool \<times> json) option" where
  "ioxd_json_raw j js =
     (if js = [] then Some (False, fail_json j)
      else
        let (comma, j) = value_lead j in
        if comma < 0 then Some (False, j)
        else do {
          (ok, j) \<leftarrow> (if comma \<noteq> 0 then put j '','' else Some (True, j));
          (if \<not> ok then Some (False, j) else put j js) })"

end
