(* ===== verification/Json_Text.thy ===== *)
theory Json_Text
  imports Json
begin

text \<open>
  What the JSON writer writes.  The contract of a sink is a locale, with the writer's elementary
  steps proved once inside it; the reply, a raw pipe and a buffer in memory interpret it.  The
  document is a tree, and the writer refines a machine that builds it.
\<close>

section \<open>Strings\<close>

text \<open>The bytes of a string with every byte that needs it escaped, and the fast way of \<open>put_string\<close>.\<close>

definition esc :: "bytes \<Rightarrow> bytes" where
  "esc p = concat (map (\<lambda>c. if needs_escape c then escape c else [c]) p)"

lemma esc_simps [simp]: "esc [] = []" "esc (c # p) = (if needs_escape c then escape c else [c]) @ esc p"
  by (simp_all add: esc_def)

lemma esc_append [simp]: "esc (p @ q) = esc p @ esc q"
  by (simp add: esc_def)

lemma clean_esc: "clean_run p = length p \<Longrightarrow> esc p = p"
proof -
  assume "clean_run p = length p"
  then have "takeWhile (\<lambda>c. \<not> needs_escape c) p = p" by (metis clean_run_def takeWhile_eq_take take_all order_refl)
  then have "\<forall>c \<in> set p. \<not> needs_escape c" by (metis takeWhile_eq_all_conv)
  then show ?thesis by (induction p) auto
qed

lemma esc_clean_run: "esc p = take (clean_run p) p @ esc (drop (clean_run p) p)"
  by (induction p) (auto simp: clean_run_def)

lemma clean_run_next: "drop (clean_run p) p = c # q \<Longrightarrow> needs_escape c"
  by (induction p) (auto simp: clean_run_def split: if_splits)

definition string_text :: "nat \<Rightarrow> bytes \<Rightarrow> byte \<Rightarrow> bytes" where
  "string_text comma p after = (if comma \<noteq> 0 then '','' else []) @ [DQUOTE] @ p @ [DQUOTE] @ (if after \<noteq> NUL then [after] else [])"

lemma put_string_eq:
  "put_string j comma p after =
     (let need = comma + length p + 2 + (if after \<noteq> NUL then 1 else 0) in
      if need \<le> RUN_MAX \<and> clean_run p = length p \<and> fst (tail (j_to j)) \<noteq> None \<and> need \<le> snd (tail (j_to j)) \<and> \<not> sink_failed (j_to j)
      then Some (True, j\<lparr>j_to := commit (store (j_to j) (the (fst (tail (j_to j)))) (string_text comma p after)) need\<rparr>)
      else do {
        (ok, j) \<leftarrow> (if comma \<noteq> 0 then put j '','' else Some (True, j));
        (if \<not> ok then Some (False, j) else do {
        (ok, j) \<leftarrow> put j [DQUOTE];
        (if \<not> ok then Some (False, j) else do {
        (ok, j) \<leftarrow> put_escaped j p;
        (if \<not> ok then Some (False, j) else do {
        (ok, j) \<leftarrow> put j [DQUOTE];
        (if \<not> ok then Some (False, j)
         else if after = NUL then Some (True, j) else put j [after]) }) }) }) })"
  by (simp only: put_string_def string_text_def Let_def case_prod_beta)


section \<open>The contract of a sink\<close>

locale json_sink =
  fixes holds :: "bytes \<Rightarrow> sink \<Rightarrow> bool"
  assumes tail_there: "holds out s \<Longrightarrow> snd (tail s) \<noteq> 0 \<Longrightarrow> fst (tail s) \<noteq> None"
    and store_appends: "holds out s \<Longrightarrow> tail s = (Some at, room) \<Longrightarrow> length d \<le> room \<Longrightarrow> \<not> sink_failed s \<Longrightarrow>
      holds (out @ d) (commit (store s at d) (length d))"
    and reserve_keeps: "holds out s \<Longrightarrow> \<exists>at s'. sink_reserve s n = Some (at, s') \<and>
      (at \<noteq> None \<longrightarrow> holds out s' \<and> at = fst (tail s') \<and> n \<le> snd (tail s') \<and> \<not> sink_failed s')"
begin

lemma make_room_ok:
  assumes "holds out (j_to j)"
  shows "\<exists>at j'. make_room j n = Some (at, j') \<and>
    (if at = None then j_failed j' else \<exists>s. j' = j\<lparr>j_to := s\<rparr> \<and> holds out s \<and> at = fst (tail s) \<and> n \<le> snd (tail s) \<and> \<not> sink_failed s)"
proof -
  obtain at s where r: "sink_reserve (j_to j) n = Some (at, s)"
    "at \<noteq> None \<longrightarrow> holds out s \<and> at = fst (tail s) \<and> n \<le> snd (tail s) \<and> \<not> sink_failed s" using reserve_keeps[OF assms] by blast
  have e: "make_room j n = Some (at, if at = None then fail_json (j\<lparr>j_to := s\<rparr>) else j\<lparr>j_to := s\<rparr>)"
    using r(1) by (cases at) (simp_all add: make_room_def)
  show ?thesis
  proof (cases "at = None")
    case True
    then show ?thesis using e by (simp add: fail_json_def)
  next
    case False
    then have "make_room j n = Some (at, j\<lparr>j_to := s\<rparr>)" using e by auto
    then show ?thesis using r(2) False by auto
  qed
qed

lemma want_ok:
  assumes "holds out (j_to j)" and "0 < n"
  shows "\<exists>at j'. want j n = Some (at, j') \<and>
    (case at of None \<Rightarrow> j_failed j'
     | Some a \<Rightarrow> \<exists>s. j' = j\<lparr>j_to := s\<rparr> \<and> holds out s \<and> tail s = (Some a, snd (tail s)) \<and> n \<le> snd (tail s) \<and> \<not> sink_failed s)"
proof (cases "snd (tail (j_to j)) \<ge> n \<and> \<not> sink_failed (j_to j)")
  case True
  then obtain a where a: "fst (tail (j_to j)) = Some a" using tail_there[OF assms(1)] assms(2) by auto
  have "want j n = Some (Some a, j)" using True a by (simp add: want_def case_prod_beta)
  moreover have "j = j\<lparr>j_to := j_to j\<rparr>" by simp
  moreover have "tail (j_to j) = (Some a, snd (tail (j_to j)))" using a by (metis prod.collapse)
  ultimately have "want j n = Some (Some a, j) \<and> (\<exists>s. j = j\<lparr>j_to := s\<rparr> \<and> holds out s \<and> tail s = (Some a, snd (tail s)) \<and> n \<le> snd (tail s) \<and> \<not> sink_failed s)"
    using assms(1) True by blast
  then show ?thesis by (intro exI[of _ "Some a"] exI[of _ j]) (simp only: option.case)
next
  case False
  then have e: "want j n = make_room j n" by (auto simp: want_def case_prod_beta)
  obtain at j' where m: "make_room j n = Some (at, j')"
    "if at = None then j_failed j' else \<exists>s. j' = j\<lparr>j_to := s\<rparr> \<and> holds out s \<and> at = fst (tail s) \<and> n \<le> snd (tail s) \<and> \<not> sink_failed s"
    using make_room_ok[OF assms(1)] by blast
  show ?thesis unfolding e
  proof (cases at)
    case None
    then show "\<exists>at j'. make_room j n = Some (at, j') \<and>
      (case at of None \<Rightarrow> j_failed j'
       | Some a \<Rightarrow> \<exists>s. j' = j\<lparr>j_to := s\<rparr> \<and> holds out s \<and> tail s = (Some a, snd (tail s)) \<and> n \<le> snd (tail s) \<and> \<not> sink_failed s)"
      using m by (intro exI[of _ None] exI[of _ j']) simp
  next
    case (Some a)
    then obtain s where "j' = j\<lparr>j_to := s\<rparr>" "holds out s" "fst (tail s) = Some a" "n \<le> snd (tail s)" "\<not> sink_failed s" using m(2) by auto
    then show "\<exists>at j'. make_room j n = Some (at, j') \<and>
      (case at of None \<Rightarrow> j_failed j'
       | Some a \<Rightarrow> \<exists>s. j' = j\<lparr>j_to := s\<rparr> \<and> holds out s \<and> tail s = (Some a, snd (tail s)) \<and> n \<le> snd (tail s) \<and> \<not> sink_failed s)"
      using m(1) Some by (intro exI[of _ "Some a"] exI[of _ j'], simp, intro exI[of _ s], metis prod.collapse)
  qed
qed

text \<open>What every call that writes gives: the bytes appended and nothing else changed, or the failure recorded.\<close>

definition wrote :: "bytes \<Rightarrow> json \<Rightarrow> (bool \<times> json) option \<Rightarrow> bool" where
  "wrote text j r \<longleftrightarrow> (\<exists>ok j'. r = Some (ok, j') \<and> (if ok then \<exists>s. j' = j\<lparr>j_to := s\<rparr> \<and> holds text s else j_failed j'))"

lemma wroteI: "r = Some (True, j\<lparr>j_to := s\<rparr>) \<Longrightarrow> holds text s \<Longrightarrow> wrote text j r"
  by (auto simp: wrote_def)

lemma wrote_failed: "r = Some (False, j') \<Longrightarrow> j_failed j' \<Longrightarrow> wrote text j r"
  unfolding wrote_def by (intro exI[of _ False] exI[of _ j']) simp

lemma wrote_sink [simp]: "wrote text (j\<lparr>j_to := s\<rparr>) r = wrote text j r"
  by (simp add: wrote_def)

lemma put_wrote: "holds out (j_to j) \<Longrightarrow> wrote (out @ p) j (put j p)"
proof (induction "length p" arbitrary: j out p rule: less_induct)
  case less
  show ?case
  proof (cases "p = []")
    case True
    then have "put j p = Some (True, j\<lparr>j_to := j_to j\<rparr>)" by (subst put.simps) simp
    then show ?thesis using less.prems True by (intro wroteI) simp_all
  next
    case False
    define m where "m = (if length p < RUN_MAX then length p else RUN_MAX)"
    have m: "0 < m" using False by (simp add: m_def)
    define rest where "rest = (\<lambda>j. let (at, room) = tail (j_to j); k = (if length p < room then length p else room)
        in put (j\<lparr>j_to := commit (store (j_to j) (the at) (take k p)) k\<rparr>) (drop k p))"
    have go: "wrote (out @ p) j0 (rest j0)" if h: "holds out (j_to j0)" "snd (tail (j_to j0)) \<noteq> 0" "\<not> sink_failed (j_to j0)" for j0
    proof -
      define room where "room = snd (tail (j_to j0))"
      obtain a where a: "tail (j_to j0) = (Some a, room)" using tail_there[OF h(1,2)] by (metis option.exhaust prod.collapse room_def)
      define k where "k = (if length p < room then length p else room)"
      have k: "0 < k" "k \<le> room" "length (take k p) = k" using False h(2) by (auto simp: k_def room_def)
      define s where "s = commit (store (j_to j0) a (take k p)) k"
      have "length (take k p) \<le> room" using k(2,3) by simp
      from store_appends[OF h(1) a this h(3)] have s: "holds (out @ take k p) s" unfolding k(3) s_def .
      have "length (drop k p) < length p" using k(1) False by simp
      from less.hyps[OF this, of "out @ take k p" "j0\<lparr>j_to := s\<rparr>"] s have "wrote (out @ p) (j0\<lparr>j_to := s\<rparr>) (put (j0\<lparr>j_to := s\<rparr>) (drop k p))" by simp
      moreover have "rest j0 = put (j0\<lparr>j_to := s\<rparr>) (drop k p)" by (simp add: rest_def a s_def k_def)
      ultimately show ?thesis by simp
    qed
    show ?thesis
    proof (cases "snd (tail (j_to j)) = 0 \<or> sink_failed (j_to j)")
      case room: False
      then have "put j p = rest j" using False by (subst put.simps) (auto simp: rest_def case_prod_beta Let_def)
      then show ?thesis using go[OF less.prems] room by simp
    next
      case True
      obtain at j' where r: "make_room j m = Some (at, j')"
        "if at = None then j_failed j' else \<exists>s. j' = j\<lparr>j_to := s\<rparr> \<and> holds out s \<and> at = fst (tail s) \<and> m \<le> snd (tail s) \<and> \<not> sink_failed s"
        using make_room_ok[OF less.prems] by blast
      have e: "put j p = (if at = None then Some (False, j') else rest j')"
        using False True r(1) by (subst put.simps) (auto simp: rest_def m_def case_prod_beta Let_def)
      show ?thesis
      proof (cases "at = None")
        case True
        then show ?thesis using e r(2) by (intro wrote_failed) simp_all
      next
        case some: False
        then obtain s where s: "j' = j\<lparr>j_to := s\<rparr>" "holds out s" "m \<le> snd (tail s)" "\<not> sink_failed s" using r(2) by auto
        have "wrote (out @ p) j' (rest j')" using go[of j'] s m by simp
        then show ?thesis using e some s(1) by simp
      qed
    qed
  qed
qed


lemma wrote_then:
  assumes "wrote t1 j r" and "\<And>s. holds t1 s \<Longrightarrow> wrote t2 j (f (j\<lparr>j_to := s\<rparr>))"
  shows "wrote t2 j (do { (ok, j) \<leftarrow> r; (if \<not> ok then Some (False, j) else f j) })"
proof -
  obtain ok j' where r: "r = Some (ok, j')" "if ok then \<exists>s. j' = j\<lparr>j_to := s\<rparr> \<and> holds t1 s else j_failed j'" using assms(1) by (auto simp: wrote_def)
  show ?thesis
  proof (cases ok)
    case True
    then obtain s where "j' = j\<lparr>j_to := s\<rparr>" "holds t1 s" using r(2) by auto
    then show ?thesis using r(1) True assms(2)[of s] by simp
  next
    case False
    then show ?thesis using r by (intro wrote_failed[of _ j']) simp_all
  qed
qed

text \<open>The bytes of a string with every byte that needs it escaped.\<close>

lemma put_escaped_wrote: "holds out (j_to j) \<Longrightarrow> wrote (out @ esc p) j (put_escaped j p)"
proof (induction "length p" arbitrary: j out p rule: less_induct)
  case less
  show ?case
  proof (cases "p = []")
    case True
    then have "put_escaped j p = Some (True, j\<lparr>j_to := j_to j\<rparr>)" by (simp add: put_escaped.simps)
    then show ?thesis using less.prems True by (intro wroteI) simp_all
  next
    case False
    define n where "n = clean_run p"
    note e = esc_clean_run[of p, folded n_def]
    have first: "wrote (out @ take n p) j (if n \<noteq> 0 then put j (take n p) else Some (True, j))"
    proof (cases "n = 0")
      case True
      then show ?thesis using less.prems by (intro wroteI[of _ "j_to j" j]) simp_all
    next
      case False
      then show ?thesis using put_wrote[OF less.prems] by simp
    qed
    define tl' where "tl' = (\<lambda>j. case drop n p of [] \<Rightarrow> Some (True, j)
        | c # p \<Rightarrow> do { (ok, j) \<leftarrow> put j (escape c); (if \<not> ok then Some (False, j) else put_escaped j p) })"
    have "wrote (out @ esc p) j (tl' (j\<lparr>j_to := s\<rparr>))" if h: "holds (out @ take n p) s" for s
    proof (cases "drop n p")
      case Nil
      then have "esc p = take n p" unfolding e by simp
      then show ?thesis using h Nil by (intro wroteI[of _ s j]) (simp_all add: tl'_def)
    next
      case (Cons c q)
      have t: "out @ esc p = ((out @ take n p) @ escape c) @ esc q" unfolding e using Cons clean_run_next[of p c q] by (simp add: n_def)
      have "length p - n = length (c # q)" unfolding Cons[symmetric] by simp
      then have lt: "length q < length p" by simp
      have step: "wrote (((out @ take n p) @ escape c) @ esc q) j (put_escaped (j\<lparr>j_to := s'\<rparr>) q)" if "holds ((out @ take n p) @ escape c) s'" for s'
        using less.hyps[OF lt, of "(out @ take n p) @ escape c" "j\<lparr>j_to := s'\<rparr>"] that by simp
      have "wrote ((out @ take n p) @ escape c) j (put (j\<lparr>j_to := s\<rparr>) (escape c))"
        using put_wrote[of "out @ take n p" "j\<lparr>j_to := s\<rparr>" "escape c"] h by simp
      from wrote_then[where f = "\<lambda>j. put_escaped j q", OF this step] show ?thesis using Cons t by (simp add: tl'_def)
    qed
    moreover have "put_escaped j p = do { (ok, j) \<leftarrow> (if n \<noteq> 0 then put j (take n p) else Some (True, j)); (if \<not> ok then Some (False, j) else tl' j) }"
      unfolding tl'_def n_def using False by (subst put_escaped.simps) (simp only: Let_def if_False)
    ultimately show ?thesis using wrote_then[where f = tl', OF first] by simp
  qed
qed

lemma store_wrote:
  assumes "holds out s" and "tail s = (Some at, room)" and "n \<le> room" and "\<not> sink_failed s" and "n = length d"
  shows "wrote (out @ d) j (Some (True, j\<lparr>j_to := commit (store s at d) n\<rparr>))"
  using store_appends[OF assms(1,2) _ assms(4), of d] assms(3,5) by (intro wroteI) simp_all

text \<open>Storing at a place that was asked for.\<close>

lemma want_wrote:
  assumes "holds out (j_to j)" and "d \<noteq> []" and "n = length d"
  shows "wrote (out @ d) j (do { (at, j) \<leftarrow> want j n;
    (case at of None \<Rightarrow> Some (False, j) | Some at \<Rightarrow> Some (True, j\<lparr>j_to := commit (store (j_to j) at d) n\<rparr>)) })"
proof -
  have "0 < n" using assms(2,3) by simp
  from want_ok[OF assms(1) this] obtain at j' where w: "want j n = Some (at, j')"
    "case at of None \<Rightarrow> j_failed j'
     | Some a \<Rightarrow> \<exists>s. j' = j\<lparr>j_to := s\<rparr> \<and> holds out s \<and> tail s = (Some a, snd (tail s)) \<and> n \<le> snd (tail s) \<and> \<not> sink_failed s" by blast
  show ?thesis
  proof (cases at)
    case None
    then show ?thesis using w by (intro wrote_failed[of _ j']) simp_all
  next
    case (Some a)
    then obtain s where s: "j' = j\<lparr>j_to := s\<rparr>" "holds out s" "tail s = (Some a, snd (tail s))" "n \<le> snd (tail s)" "\<not> sink_failed s" using w(2) by auto
    show ?thesis using store_wrote[OF s(2-5) assms(3), of "j\<lparr>j_to := s\<rparr>"] w(1) Some s(1) by simp
  qed
qed

lemma then_put:
  assumes "holds t (j_to j)" and "\<And>s. holds (t @ p) s \<Longrightarrow> wrote t2 j (f (j\<lparr>j_to := s\<rparr>))"
  shows "wrote t2 j (do { (ok, j) \<leftarrow> put j p; (if \<not> ok then Some (False, j) else f j) })"
  by (rule wrote_then[OF put_wrote[OF assms(1)]]) (rule assms(2))

lemma then_put_escaped:
  assumes "holds t (j_to j)" and "\<And>s. holds (t @ esc p) s \<Longrightarrow> wrote t2 j (f (j\<lparr>j_to := s\<rparr>))"
  shows "wrote t2 j (do { (ok, j) \<leftarrow> put_escaped j p; (if \<not> ok then Some (False, j) else f j) })"
  by (rule wrote_then[OF put_escaped_wrote[OF assms(1)]]) (rule assms(2))

lemma put_string_slowly:
  assumes "holds t (j_to j)"
  shows "wrote (t @ [DQUOTE] @ esc p @ [DQUOTE] @ (if after \<noteq> NUL then [after] else [])) j (do {
        (ok, j) \<leftarrow> put j [DQUOTE];
        (if \<not> ok then Some (False, j) else do {
        (ok, j) \<leftarrow> put_escaped j p;
        (if \<not> ok then Some (False, j) else do {
        (ok, j) \<leftarrow> put j [DQUOTE];
        (if \<not> ok then Some (False, j)
         else if after = NUL then Some (True, j) else put j [after]) }) }) })" (is "wrote ?text j _")
proof (rule then_put[OF assms])
  fix s
  assume "holds (t @ [DQUOTE]) s"
  then have "holds (t @ [DQUOTE]) (j_to (j\<lparr>j_to := s\<rparr>))" by simp
  then have "wrote ?text (j\<lparr>j_to := s\<rparr>) (do {
        (ok, j) \<leftarrow> put_escaped (j\<lparr>j_to := s\<rparr>) p;
        (if \<not> ok then Some (False, j) else do {
        (ok, j) \<leftarrow> put j [DQUOTE];
        (if \<not> ok then Some (False, j)
         else if after = NUL then Some (True, j) else put j [after]) }) })"
  proof (rule then_put_escaped)
    fix s'
    assume "holds ((t @ [DQUOTE]) @ esc p) s'"
    then have h: "holds ((t @ [DQUOTE]) @ esc p) (j_to (j\<lparr>j_to := s'\<rparr>))" by simp
    have "wrote ?text (j\<lparr>j_to := s'\<rparr>) (do {
        (ok, j) \<leftarrow> put (j\<lparr>j_to := s'\<rparr>) [DQUOTE];
        (if \<not> ok then Some (False, j) else if after = NUL then Some (True, j) else put j [after]) })"
    proof (rule then_put[OF h])
      fix s2
      assume h2: "holds (((t @ [DQUOTE]) @ esc p) @ [DQUOTE]) s2"
      show "wrote ?text (j\<lparr>j_to := s'\<rparr>)
          (if after = NUL then Some (True, j\<lparr>j_to := s', j_to := s2\<rparr>) else put (j\<lparr>j_to := s', j_to := s2\<rparr>) [after])"
        using h2 wroteI[of _ s2 j] put_wrote[of "((t @ [DQUOTE]) @ esc p) @ [DQUOTE]" "j\<lparr>j_to := s2\<rparr>" "[after]"] by simp
    qed
    then show "wrote ?text (j\<lparr>j_to := s\<rparr>) (do {
        (ok, j) \<leftarrow> put (j\<lparr>j_to := s, j_to := s'\<rparr>) [DQUOTE];
        (if \<not> ok then Some (False, j) else if after = NUL then Some (True, j) else put j [after]) })" by simp
  qed
  then show "wrote ?text j (do {
        (ok, j) \<leftarrow> put_escaped (j\<lparr>j_to := s\<rparr>) p;
        (if \<not> ok then Some (False, j) else do {
        (ok, j) \<leftarrow> put j [DQUOTE];
        (if \<not> ok then Some (False, j)
         else if after = NUL then Some (True, j) else put j [after]) }) })" by simp
qed

lemma put_string_wrote:
  assumes h: "holds out (j_to j)" and c: "comma = 0 \<or> comma = 1"
  shows "wrote (out @ string_text comma (esc p) after) j (put_string j comma p after)"
proof -
  define need where "need = comma + length p + 2 + (if after \<noteq> NUL then 1 else 0 :: nat)"
  have need: "need = length (string_text comma p after)" using c by (auto simp: need_def string_text_def)
  show ?thesis
  proof (cases "need \<le> RUN_MAX \<and> clean_run p = length p \<and> fst (tail (j_to j)) \<noteq> None \<and> need \<le> snd (tail (j_to j)) \<and> \<not> sink_failed (j_to j)")
    case True
    then obtain a where a: "fst (tail (j_to j)) = Some a" by auto
    then have t: "tail (j_to j) = (Some a, snd (tail (j_to j)))" by (metis prod.collapse)
    have "put_string j comma p after = Some (True, j\<lparr>j_to := commit (store (j_to j) a (string_text comma p after)) need\<rparr>)"
      unfolding put_string_eq Let_def need_def[symmetric] using True a by simp
    then show ?thesis using store_wrote[OF h t _ _ need, of j] True clean_esc[of p] by simp
  next
    case False
    have c1: "wrote (out @ (if comma \<noteq> 0 then '','' else [])) j (if comma \<noteq> 0 then put j '','' else Some (True, j))"
      using put_wrote[OF h, of "'',''"] wroteI[of "Some (True, j)" "j_to j" j out] h by simp
    have tx: "out @ string_text comma (esc p) after
        = (out @ (if comma \<noteq> 0 then '','' else [])) @ [DQUOTE] @ esc p @ [DQUOTE] @ (if after \<noteq> NUL then [after] else [])" by (simp add: string_text_def)
    show ?thesis unfolding put_string_eq Let_def need_def[symmetric] if_not_P[OF False] tx
    proof (rule wrote_then[OF c1])
      fix s
      assume "holds (out @ (if comma \<noteq> 0 then '','' else [])) s"
      then show "wrote ((out @ (if comma \<noteq> 0 then '','' else [])) @ [DQUOTE] @ esc p @ [DQUOTE] @ (if after \<noteq> NUL then [after] else [])) j (do {
        (ok, j) \<leftarrow> put (j\<lparr>j_to := s\<rparr>) [DQUOTE];
        (if \<not> ok then Some (False, j) else do {
        (ok, j) \<leftarrow> put_escaped j p;
        (if \<not> ok then Some (False, j) else do {
        (ok, j) \<leftarrow> put j [DQUOTE];
        (if \<not> ok then Some (False, j)
         else if after = NUL then Some (True, j) else put j [after]) }) }) })"
        using put_string_slowly[of "out @ (if comma \<noteq> 0 then '','' else [])" "j\<lparr>j_to := s\<rparr>" p after] by simp
    qed
  qed
qed

end

end
