(* ===== verification/Json_Doc.thy ===== *)
theory Json_Doc
  imports Json_Text
begin

text \<open>
  The document the calls of the JSON writer describe, and that the writer writes it: a machine over a
  stack of open containers builds the tree, and the writer's masks and flags are a view of that stack.
\<close>

section \<open>Documents\<close>

datatype jv = Jraw bytes | Jstr bytes | Jarr "jv list" | Jobj "(bytes \<times> jv) list"

definition quoted :: "bytes \<Rightarrow> bytes" where
  "quoted s = [DQUOTE] @ esc s @ [DQUOTE]"

fun commas :: "bytes list \<Rightarrow> bytes" where
  "commas [] = []"
| "commas [x] = x"
| "commas (x # xs) = x @ '','' @ commas xs"

lemma commas_snoc: "commas (xs @ [x]) = commas xs @ (if xs \<noteq> [] then '','' else []) @ x"
  by (induction xs rule: commas.induct) auto

fun json_text :: "jv \<Rightarrow> bytes" where
  "json_text (Jraw b) = b"
| "json_text (Jstr s) = quoted s"
| "json_text (Jarr vs) = ''['' @ commas (map json_text vs) @ '']''"
| "json_text (Jobj kvs) = ''{'' @ commas (map (\<lambda>kv. quoted (fst kv) @ '':'' @ json_text (snd kv)) kvs) @ ''}''"

text \<open>An open container: what is in it so far and the key that waits for its value; the root is one too.\<close>

datatype container = Root | Array | Object

record frame =
  f_kind :: container
  f_items :: "(bytes \<times> jv) list"
  f_key :: "bytes option"

type_synonym doc = "frame list"

definition new_frame :: "container \<Rightarrow> frame" where
  "new_frame k = \<lparr>f_kind = k, f_items = [], f_key = None\<rparr>"

fun doc_value :: "jv \<Rightarrow> doc \<Rightarrow> doc option" where
  "doc_value v [] = None"
| "doc_value v (f # fs) =
     (if f_kind f = Object then
        case f_key f of None \<Rightarrow> None | Some k \<Rightarrow> Some (f\<lparr>f_items := f_items f @ [(k, v)], f_key := None\<rparr> # fs)
      else Some (f\<lparr>f_items := f_items f @ [([], v)]\<rparr> # fs))"

fun doc_open :: "container \<Rightarrow> doc \<Rightarrow> doc option" where
  "doc_open k [] = None"
| "doc_open k (f # fs) =
     (if length fs = IOXD_JSON_DEPTH \<or> f_kind f = Object \<and> f_key f = None then None else Some (new_frame k # f # fs))"

definition closed :: "frame \<Rightarrow> jv" where
  "closed f = (if f_kind f = Object then Jobj (f_items f) else Jarr (map snd (f_items f)))"

fun doc_end :: "doc \<Rightarrow> doc option" where
  "doc_end (f # g # fs) = (if f_key f \<noteq> None then None else doc_value (closed f) (g # fs))"
| "doc_end _ = None"

fun doc_key :: "bytes \<Rightarrow> doc \<Rightarrow> doc option" where
  "doc_key k [] = None"
| "doc_key k (f # fs) = (if f_kind f = Object \<and> f_key f = None then Some (f\<lparr>f_key := Some k\<rparr> # fs) else None)"

text \<open>The text of a document that is not closed yet.\<close>

fun bracket_of :: "container \<Rightarrow> bytes" where
  "bracket_of Root = []" | "bracket_of Array = ''[''" | "bracket_of Object = ''{''"

fun item_text :: "container \<Rightarrow> bytes \<times> jv \<Rightarrow> bytes" where
  "item_text k (n, v) = (if k = Object then quoted n @ '':'' else []) @ json_text v"

definition frame_text :: "frame \<Rightarrow> bytes" where
  "frame_text f = bracket_of (f_kind f) @ commas (map (item_text (f_kind f)) (f_items f)) @
     (case f_key f of None \<Rightarrow> [] | Some k \<Rightarrow> (if f_items f \<noteq> [] then '','' else []) @ quoted k @ '':'')"

definition lead :: "frame \<Rightarrow> bytes" where
  "lead f = (if f_items f \<noteq> [] \<and> f_key f = None then '','' else [])"

fun doc_text :: "doc \<Rightarrow> bytes" where
  "doc_text [] = []"
| "doc_text [f] = frame_text f"
| "doc_text (f # g # fs) = doc_text (g # fs) @ lead g @ frame_text f"

lemma doc_text_top: "frame_text f' = frame_text f @ t \<Longrightarrow> doc_text (f' # fs) = doc_text (f # fs) @ t"
  by (cases fs) simp_all

lemma doc_value_text:
  assumes "doc_value v (f # fs) = Some d" and "f_key f \<noteq> None \<longrightarrow> f_kind f = Object"
  shows "doc_text d = doc_text (f # fs) @ lead f @ json_text v"
  using assms by (auto simp: frame_text_def lead_def commas_snoc intro!: doc_text_top split: if_splits option.splits)

lemma closed_text:
  assumes "f_key f = None" and "f_kind f \<noteq> Root"
  shows "json_text (closed f) = frame_text f @ (if f_kind f = Object then ''}'' else '']'')"
proof -
  have o: "(\<lambda>kv. quoted (fst kv) @ CHR '':'' # json_text (snd kv)) = item_text Object" by (auto simp: fun_eq_iff)
  have a: "json_text \<circ> snd = item_text Array" by (auto simp: fun_eq_iff)
  show ?thesis using assms by (cases "f_kind f") (simp_all add: closed_def frame_text_def o a)
qed

lemma doc_end_text:
  assumes "doc_end (f # g # fs) = Some d" and "f_kind f \<noteq> Root" and "f_key g \<noteq> None \<longrightarrow> f_kind g = Object"
  shows "doc_text d = doc_text (f # g # fs) @ (if f_kind f = Object then ''}'' else '']'')"
  using assms doc_value_text[of "closed f" g fs d] closed_text[of f] by (auto split: if_splits)

lemma doc_key_text:
  assumes "doc_key k (f # fs) = Some d"
  shows "doc_text d = doc_text (f # fs) @ lead f @ quoted k @ '':''"
  using assms by (auto simp: frame_text_def lead_def intro!: doc_text_top split: if_splits)


section \<open>The writer's view of the stack\<close>

definition doc_ok :: "doc \<Rightarrow> bool" where
  "doc_ok d \<longleftrightarrow> d \<noteq> [] \<and> length d \<le> Suc IOXD_JSON_DEPTH \<and> f_kind (last d) = Root \<and> Root \<notin> f_kind ` set (butlast d) \<and>
     (\<forall>f \<in> set d. f_key f \<noteq> None \<longrightarrow> f_kind f = Object) \<and> (\<forall>f \<in> set (tl d). f_kind f = Object \<longrightarrow> f_key f \<noteq> None)"

definition views :: "json \<Rightarrow> doc \<Rightarrow> bool" where
  "views j d \<longleftrightarrow> doc_ok d \<and> \<not> j_failed j \<and> Suc (j_depth j) = length d \<and> after_key j = (f_key (hd d) \<noteq> None) \<and>
     (\<forall>i < length d. bit (is_object j) i \<longleftrightarrow> rev (map f_kind d) ! i = Object) \<and>
     (\<forall>i < j_depth j. bit (has_value j) i) \<and> (bit (has_value j) (j_depth j) \<longleftrightarrow> f_items (hd d) \<noteq> [] \<or> f_key (hd d) \<noteq> None)"

text \<open>The state between \<open>value_lead\<close> and the value.\<close>

definition led :: "json \<Rightarrow> doc \<Rightarrow> bool" where
  "led j d \<longleftrightarrow> doc_ok d \<and> \<not> j_failed j \<and> Suc (j_depth j) = length d \<and> \<not> after_key j \<and>
     (\<forall>i < length d. bit (is_object j) i \<longleftrightarrow> rev (map f_kind d) ! i = Object) \<and> (\<forall>i \<le> j_depth j. bit (has_value j) i) \<and>
     (f_kind (hd d) = Object \<longrightarrow> f_key (hd d) \<noteq> None)"

lemma level_bit: "(x :: u64) AND level n \<noteq> 0 \<longleftrightarrow> bit x n"
  unfolding level_def by (simp only: bit_iff_and_push_bit_not_eq_0)

lemma bit_level: "bit ((x :: u64) OR level n) i \<longleftrightarrow> bit x i \<or> i = n \<and> n < 64"
  by (auto simp: level_def bit_or_iff bit_exp_iff)

lemma bit_not_level: "bit ((x :: u64) AND NOT (level n)) i \<longleftrightarrow> bit x i \<and> i \<noteq> n"
  by (auto simp: level_def bit_and_iff bit_not_iff bit_exp_iff dest: bit_imp_le_length)

lemma top_kind: "Suc n = length d \<Longrightarrow> rev (map f_kind d) ! n = f_kind (hd d)"
  by (cases d) (simp_all add: nth_append)

lemma value_lead_ok:
  assumes V: "views j d" and e: "value_lead j = (c, j')"
  shows "if f_kind (hd d) = Object \<and> f_key (hd d) = None then c = - 1 \<and> j_failed j'
    else c = int (length (lead (hd d))) \<and> j_to j' = j_to j \<and> led j' d"
proof -
  have d: "d \<noteq> []" "length d \<le> 64" "Suc (j_depth j) = length d" using V by (auto simp: views_def doc_ok_def)
  have top: "bit (is_object j) (j_depth j) \<longleftrightarrow> f_kind (hd d) = Object" using V d top_kind[OF d(3)] by (auto simp: views_def)
  show ?thesis
  proof (cases "f_key (hd d)")
    case (Some k)
    then have "after_key j" "\<not> j_failed j" using V by (auto simp: views_def)
    then have "c = 0" "j' = j\<lparr>after_key := False\<rparr>" using e by (auto simp: value_lead_def)
    moreover have "\<forall>i \<le> j_depth j. bit (has_value j) i" using V Some by (auto simp: views_def le_less)
    ultimately show ?thesis using V Some by (simp add: led_def views_def lead_def)
  next
    case None
    then have k: "\<not> after_key j" "\<not> j_failed j" "bit (has_value j) (j_depth j) \<longleftrightarrow> f_items (hd d) \<noteq> []" using V by (auto simp: views_def)
    show ?thesis
    proof (cases "f_kind (hd d) = Object")
      case True
      then have "(c, j') = (- 1, fail_json j)" using e k top unfolding value_lead_def level_bit Let_def by simp
      then show ?thesis using True None by (simp add: fail_json_def)
    next
      case False
      then have "(c, j') = (if f_items (hd d) \<noteq> [] then (1, j) else (0, j\<lparr>has_value := has_value j OR level (j_depth j)\<rparr>))"
        using e k top unfolding value_lead_def level_bit Let_def by simp
      then show ?thesis using V None False d(2,3) by (cases "f_items (hd d) = []") (auto simp: led_def views_def lead_def bit_level le_less)
    qed
  qed
qed


text \<open>The steps of the stack, on the writer's side.\<close>

lemma doc_value_shape:
  assumes "doc_value v d = Some d'"
  shows "map f_kind d' = map f_kind d" "tl d' = tl d" "f_items (hd d') \<noteq> []" "f_key (hd d') = None \<or> f_kind (hd d') \<noteq> Object" "d \<noteq> []" "d' \<noteq> []"
  using assms by (cases d; auto split: if_splits option.splits)+

lemma doc_ok_Cons:
  "doc_ok (f # fs) \<longleftrightarrow> length fs \<le> IOXD_JSON_DEPTH \<and> (f_kind f = Root \<longleftrightarrow> fs = []) \<and> (f_key f \<noteq> None \<longrightarrow> f_kind f = Object) \<and>
     (fs \<noteq> [] \<longrightarrow> f_kind (last fs) = Root \<and> Root \<notin> f_kind ` set (butlast fs)) \<and>
     (\<forall>g \<in> set fs. f_kind g = Object \<longleftrightarrow> f_key g \<noteq> None)"
proof (cases "fs = []")
  case True
  then show ?thesis by (simp add: doc_ok_def)
next
  case False
  have eq: "(\<forall>g \<in> set fs. f_kind g = Object \<longleftrightarrow> f_key g \<noteq> None) \<longleftrightarrow>
      (\<forall>g \<in> set fs. f_key g \<noteq> None \<longrightarrow> f_kind g = Object) \<and> (\<forall>g \<in> set fs. f_kind g = Object \<longrightarrow> f_key g \<noteq> None)" by blast
  show ?thesis unfolding eq using False by (simp del: not_None_eq add: doc_ok_def eq_commute[of Root]) argo
qed

lemma doc_value_ok:
  assumes "doc_value v d = Some d'" and "doc_ok d"
  shows "doc_ok d'" and "f_key (hd d') = None"
proof -
  obtain f fs where d: "d = f # fs" using assms(2) by (cases d) (auto simp: doc_ok_def)
  obtain f' where d': "d' = f' # fs" "f_kind f' = f_kind f" "f_key f' = None"
    using assms unfolding d by (auto simp: doc_ok_Cons split: if_splits option.splits)
  show "doc_ok d'" using assms(2) d' unfolding d d'(1) doc_ok_Cons by simp
  show "f_key (hd d') = None" using d' by simp
qed

lemma led_value:
  assumes "led j d" and "doc_value v d = Some d'"
  shows "views j d'"
proof -
  note s = doc_value_shape[OF assms(2)] and o = doc_value_ok[OF assms(2)]
  have "length d' = length d" using s(1) by (metis length_map)
  then show ?thesis using assms(1) o s(1,3) by (auto simp: led_def views_def)
qed

lemma led_has_value: "led j d \<Longrightarrow> \<exists>d'. doc_value v d = Some d'"
  by (cases d) (auto simp: led_def doc_ok_def split: option.splits)

lemma doc_open_ok:
  assumes "doc_ok d" and "length d \<le> IOXD_JSON_DEPTH" and "f_kind (hd d) = Object \<longrightarrow> f_key (hd d) \<noteq> None" and "k \<noteq> Root"
  shows "doc_ok (new_frame k # d)"
  using assms by (cases d) (auto simp: doc_ok_Cons new_frame_def doc_ok_def[of "[]"])

lemma led_open:
  assumes "led j d" and "length d \<le> IOXD_JSON_DEPTH" and "k \<noteq> Root"
  defines "lvl \<equiv> level (Suc (j_depth j))"
  shows "views (j\<lparr>j_depth := Suc (j_depth j), has_value := has_value j AND NOT lvl,
      is_object := (if k = Object then is_object j OR lvl else is_object j AND NOT lvl)\<rparr>) (new_frame k # d)" (is "views ?j ?d")
proof -
  have o: "doc_ok ?d" using assms(1-3) doc_open_ok by (auto simp: led_def)
  have n: "Suc (j_depth j) = length d" using assms(1) by (simp add: led_def)
  have "bit (is_object ?j) i \<longleftrightarrow> rev (map f_kind ?d) ! i = Object" if "i < length ?d" for i
  proof (cases "i = length d")
    case True
    then show ?thesis using n assms(2) by (auto simp: lvl_def bit_level bit_not_level nth_append new_frame_def)
  next
    case False
    then have "i < length d" using that by simp
    then have "rev (map f_kind ?d) ! i = rev (map f_kind d) ! i" "bit (is_object j) i \<longleftrightarrow> rev (map f_kind d) ! i = Object"
      using assms(1) by (auto simp: nth_append led_def)
    then show ?thesis using False n by (auto simp: lvl_def bit_level bit_not_level)
  qed
  moreover have "\<forall>i < j_depth ?j. bit (has_value ?j) i" "\<not> bit (has_value ?j) (j_depth ?j)"
    using assms(1) by (auto simp: lvl_def bit_not_level led_def)
  ultimately show ?thesis using o n assms(1) unfolding views_def by (auto simp: new_frame_def led_def)
qed

lemma views_end:
  assumes "views j (f # g # fs)" and "doc_end (f # g # fs) = Some d"
  shows "views (j\<lparr>j_depth := j_depth j - 1\<rparr>) d"
proof -
  have v: "doc_value (closed f) (g # fs) = Some d" "f_key f = None" using assms(2) by (auto split: if_splits)
  have "doc_ok (f # g # fs)" using assms(1) by (simp add: views_def)
  then have o: "doc_ok (g # fs)" unfolding doc_ok_Cons by (cases fs) auto
  note s = doc_value_shape[OF v(1)] and ok = doc_value_ok[OF v(1) o]
  have l: "length d = Suc (length fs)" using arg_cong[OF s(1), of length] by simp
  have n: "j_depth j = Suc (length fs)" using assms(1) by (simp add: views_def)
  have "bit (is_object j) i \<longleftrightarrow> rev (map f_kind d) ! i = Object" if "i < length d" for i
  proof -
    have "rev (map f_kind d) ! i = rev (map f_kind (f # g # fs)) ! i" unfolding s(1) using that l by (simp add: nth_append)
    moreover have "i < length (f # g # fs)" using that l by simp
    ultimately show ?thesis using assms(1) unfolding views_def by metis
  qed
  then show ?thesis using assms(1) ok v(2) s(3) l n unfolding views_def by simp
qed

lemma views_key:
  assumes "views j (f # fs)" and "doc_key k (f # fs) = Some d"
  shows "views (j\<lparr>has_value := has_value j OR level (j_depth j), after_key := True\<rparr>) d"
proof -
  have d: "d = f\<lparr>f_key := Some k\<rparr> # fs" "f_kind f = Object" using assms(2) by (auto split: if_splits)
  have n: "j_depth j = length fs" "length fs \<le> 63" using assms(1) by (auto simp: views_def doc_ok_def)
  have m: "map f_kind d = map f_kind (f # fs)" using d by simp
  have "doc_ok (f # fs)" using assms(1) by (simp add: views_def)
  then have "doc_ok d" using d(2) unfolding d(1) doc_ok_Cons by simp
  then show ?thesis using assms(1) n d unfolding views_def m by (simp add: bit_level)
qed


section \<open>The calls\<close>

text \<open>
  A call of a handler.  \<open>Op_double\<close> and \<open>Op_float\<close> carry the C library's part: whether the C locale is
  there, what \<open>snprintf\<close> prints at a precision, whether a text reads back the same, and whether the number is
  finite.
\<close>

datatype jop =
  Op_object | Op_array | Op_end | Op_key bytes | Op_string bytes | Op_cstr "bytes option" | Op_int u64 | Op_uint u64
| Op_double bool "nat \<Rightarrow> bytes option" "bytes \<Rightarrow> bool" bool
| Op_float bool "nat \<Rightarrow> bytes option" "bytes \<Rightarrow> bool" bool
| Op_bool bool | Op_null | Op_raw bytes

fun json_step :: "jop \<Rightarrow> json \<Rightarrow> (bool \<times> json) option" where
  "json_step Op_object j = ioxd_json_object j"
| "json_step Op_array j = ioxd_json_array j"
| "json_step Op_end j = ioxd_json_end j"
| "json_step (Op_key k) j = ioxd_json_key j k"
| "json_step (Op_string s) j = ioxd_json_string j s"
| "json_step (Op_cstr s) j = ioxd_json_cstr j s"
| "json_step (Op_int v) j = ioxd_json_int j v"
| "json_step (Op_uint v) j = ioxd_json_uint j v"
| "json_step (Op_double l fmt same fin) j = ioxd_json_double l fmt same fin j"
| "json_step (Op_float l fmt same fin) j = ioxd_json_float l fmt same fin j"
| "json_step (Op_bool b) j = ioxd_json_bool j b"
| "json_step Op_null j = ioxd_json_null j"
| "json_step (Op_raw b) j = ioxd_json_raw j b"

abbreviation c_string :: "bytes \<Rightarrow> bytes" where
  "c_string s \<equiv> takeWhile (\<lambda>c. c \<noteq> NUL) s"

definition number_value :: "bool \<Rightarrow> bytes option \<Rightarrow> jv option" where
  "number_value fin printed = (if \<not> fin then Some (Jraw ''null'') else map_option Jraw printed)"

text \<open>The value a call stands for; \<open>None\<close> when it is not a value, or the library could not print it.\<close>

fun op_value :: "jop \<Rightarrow> jv option" where
  "op_value (Op_string s) = Some (Jstr s)"
| "op_value (Op_cstr s) = Some (case s of None \<Rightarrow> Jraw ''null'' | Some s \<Rightarrow> Jstr (c_string s))"
| "op_value (Op_int v) = Some (Jraw ((if sint v < 0 then ''-'' else []) @ digits (if sint v < 0 then - (v + 1) + 1 else v)))"
| "op_value (Op_uint v) = Some (Jraw (digits v))"
| "op_value (Op_double l fmt same fin) = number_value fin (shortest l 32 fmt same 15 17)"
| "op_value (Op_float l fmt same fin) = number_value fin (shortest l 32 fmt same 6 9)"
| "op_value (Op_bool b) = Some (Jraw (if b then ''true'' else ''false''))"
| "op_value Op_null = Some (Jraw ''null'')"
| "op_value (Op_raw b) = (if b = [] then None else Some (Jraw b))"
| "op_value _ = None"

fun doc_step :: "jop \<Rightarrow> doc \<Rightarrow> doc option" where
  "doc_step Op_object d = doc_open Object d"
| "doc_step Op_array d = doc_open Array d"
| "doc_step Op_end d = doc_end d"
| "doc_step (Op_key k) d = doc_key (c_string k) d"
| "doc_step op d = (case op_value op of None \<Rightarrow> None | Some v \<Rightarrow> doc_value v d)"

text \<open>A call that has a place in the document adds to its text.\<close>

lemma doc_ok_keys: "doc_ok (f # fs) \<Longrightarrow> f_key f \<noteq> None \<longrightarrow> f_kind f = Object"
  by (simp add: doc_ok_def)

lemma doc_value_grows:
  assumes "doc_ok d" and "doc_value v d = Some d'"
  shows "prefix (doc_text d) (doc_text d')"
proof -
  obtain f fs where d: "d = f # fs" using assms(1) by (cases d) (auto simp: doc_ok_def)
  have "doc_text d' = doc_text (f # fs) @ lead f @ json_text v"
    by (rule doc_value_text[OF assms(2)[unfolded d] doc_ok_keys[OF assms(1)[unfolded d]]])
  then show ?thesis by (simp add: d)
qed

lemma doc_end_grows:
  assumes "doc_ok d" and "doc_end d = Some d'"
  shows "prefix (doc_text d) (doc_text d')"
proof -
  obtain f g fs where d: "d = f # g # fs" using assms(2) by (cases d rule: doc_end.cases) auto
  have "f_kind f \<noteq> Root" "f_key g \<noteq> None \<longrightarrow> f_kind g = Object" using assms(1) by (auto simp: d doc_ok_def)
  from doc_end_text[OF assms(2)[unfolded d] this] show ?thesis by (simp add: d)
qed

lemma doc_open_grows: "doc_open k d = Some d' \<Longrightarrow> prefix (doc_text d) (doc_text d')"
  by (cases d) (auto split: if_splits)

lemma doc_key_grows: "doc_key k d = Some d' \<Longrightarrow> prefix (doc_text d) (doc_text d')"
  using doc_key_text by (cases d) (simp, metis prefixI)

lemma doc_step_grows:
  assumes "doc_ok d" and "doc_step op d = Some d'"
  shows "prefix (doc_text d) (doc_text d')"
proof -
  consider "doc_open Object d = Some d'" | "doc_open Array d = Some d'" | "doc_end d = Some d'" | k where "doc_key k d = Some d'"
    | v where "doc_value v d = Some d'"
    using assms(2) by (cases op) (auto split: option.splits)
  then show ?thesis using assms(1) doc_value_grows doc_end_grows doc_open_grows doc_key_grows by cases blast+
qed

text \<open>A number the library prints has at least one character.\<close>

definition prints :: "jop \<Rightarrow> bool" where
  "prints op \<longleftrightarrow> (case op_value op of Some (Jraw b) \<Rightarrow> b \<noteq> [] | _ \<Rightarrow> True)"

lemma views_sink [simp]: "views (j\<lparr>j_to := s\<rparr>) d = views j d"
  by (simp add: views_def)

context json_sink
begin

definition emits :: "bytes \<Rightarrow> doc option \<Rightarrow> (bool \<times> json) option \<Rightarrow> bool" where
  "emits pre d r \<longleftrightarrow> (\<exists>ok j'. r = Some (ok, j') \<and>
     (if ok then \<exists>d'. d = Some d' \<and> views j' d' \<and> holds (pre @ doc_text d') (j_to j') else j_failed j'))"

lemma emits_failed: "r = Some (False, j') \<Longrightarrow> j_failed j' \<Longrightarrow> emits pre d r"
  unfolding emits_def by (intro exI[of _ False] exI[of _ j']) simp

lemma wrote_emits:
  assumes "wrote (pre @ doc_text d') j r" and "views j d'" and "d = Some d'"
  shows "emits pre d r"
proof -
  obtain ok j' where r: "r = Some (ok, j')" "if ok then \<exists>s. j' = j\<lparr>j_to := s\<rparr> \<and> holds (pre @ doc_text d') s else j_failed j'"
    using assms(1) by (auto simp: wrote_def)
  show ?thesis
  proof (cases ok)
    case True
    then obtain s where "j' = j\<lparr>j_to := s\<rparr>" "holds (pre @ doc_text d') s" using r(2) by auto
    then show ?thesis unfolding emits_def using r(1) True assms(2,3) by (intro exI[of _ True] exI[of _ j']) simp
  next
    case False
    then show ?thesis using r by (intro emits_failed[of _ j']) simp_all
  qed
qed

text \<open>A value: its comma and its text.\<close>

lemma value_emits:
  assumes V: "views j d" and h: "holds (pre @ doc_text d) (j_to j)" and e: "value_lead j = (c, j1)"
    and w: "\<And>out. \<not> c < 0 \<Longrightarrow> holds out (j_to j1) \<Longrightarrow> c = 0 \<or> c = 1 \<Longrightarrow> wrote (out @ (if c \<noteq> 0 then '','' else []) @ json_text v) j1 r"
  shows "emits pre (doc_value v d) (if c < 0 then Some (False, j1) else r)"
proof (cases "f_kind (hd d) = Object \<and> f_key (hd d) = None")
  case True
  then show ?thesis using value_lead_ok[OF V e] by (intro emits_failed[of _ j1]) simp_all
next
  case False
  then have l: "c = int (length (lead (hd d)))" "j_to j1 = j_to j" "led j1 d" using value_lead_ok[OF V e] unfolding if_not_P[OF False] by blast+
  obtain d' where d': "doc_value v d = Some d'" using led_has_value[OF l(3)] by blast
  obtain f fs where d: "d = f # fs" using d' by (cases d) auto
  have c: "c = 0 \<or> c = 1" "(if c \<noteq> 0 then '','' else []) = lead f" using l(1) d by (auto simp: lead_def)
  have k: "f_key f \<noteq> None \<longrightarrow> f_kind f = Object" using V d by (auto simp: views_def doc_ok_Cons)
  have "wrote ((pre @ doc_text d) @ lead f @ json_text v) j1 r" using w[of "pre @ doc_text d"] h l(2) c by auto
  then have "wrote (pre @ doc_text d') j1 r" using doc_value_text[of v f fs d'] d' d k by simp
  then have "emits pre (Some d') r" by (rule wrote_emits[OF _ led_value[OF l(3) d'] refl])
  then show ?thesis using c(1) d' by auto
qed

lemma put_value_emits:
  assumes "views j d" and "holds (pre @ doc_text d) (j_to j)" and "p \<noteq> []"
  shows "emits pre (doc_value (Jraw p) d) (put_value j p)"
proof -
  obtain c j1 where e: "value_lead j = (c, j1)" by fastforce
  define r where "r = do { (at, j) \<leftarrow> want j1 (nat c + length p);
        (case at of None \<Rightarrow> Some (False, j)
         | Some at \<Rightarrow> Some (True, j\<lparr>j_to := commit (store (j_to j) at ((if c \<noteq> 0 then '','' else []) @ p)) (nat c + length p)\<rparr>)) }"
  have "wrote (out @ (if c \<noteq> 0 then '','' else []) @ json_text (Jraw p)) j1 r" if "holds out (j_to j1)" "c = 0 \<or> c = 1" for out
    unfolding r_def json_text.simps by (rule want_wrote[OF that(1)]) (use that(2) assms(3) in auto)
  from value_emits[OF assms(1,2) e this] have "emits pre (doc_value (Jraw p) d) (if c < 0 then Some (False, j1) else r)" .
  moreover have "put_value j p = (if c < 0 then Some (False, j1) else r)" unfolding put_value_def e Let_def prod.case r_def by (rule refl)
  ultimately show ?thesis by simp
qed

lemma string_emits:
  assumes "views j d" and "holds (pre @ doc_text d) (j_to j)"
  shows "emits pre (doc_value (Jstr p) d) (let (comma, j) = value_lead j in if comma < 0 then Some (False, j) else put_string j (nat comma) p NUL)"
proof -
  obtain c j1 where e: "value_lead j = (c, j1)" by fastforce
  have "wrote (out @ (if c \<noteq> 0 then '','' else []) @ json_text (Jstr p)) j1 (put_string j1 (nat c) p NUL)"
    if "holds out (j_to j1)" "c = 0 \<or> c = 1" for out
    using put_string_wrote[OF that(1), of "nat c" p NUL] that(2) by (auto simp: string_text_def quoted_def)
  from value_emits[OF assms e this] show ?thesis by (simp add: e)
qed

lemma raw_emits:
  assumes "views j d" and "holds (pre @ doc_text d) (j_to j)" and "p \<noteq> []"
  shows "emits pre (doc_value (Jraw p) d) (ioxd_json_raw j p)"
proof -
  obtain c j1 where e: "value_lead j = (c, j1)" by fastforce
  have "wrote (out @ (if c \<noteq> 0 then '','' else []) @ json_text (Jraw p)) j1
      (do { (ok, j) \<leftarrow> (if c \<noteq> 0 then put j1 '','' else Some (True, j1)); (if \<not> ok then Some (False, j) else put j p) })"
    if h: "holds out (j_to j1)" for out
  proof (rule wrote_then)
    show "wrote (out @ (if c \<noteq> 0 then '','' else [])) j1 (if c \<noteq> 0 then put j1 '','' else Some (True, j1))"
      using put_wrote[OF h, of "'',''"] wroteI[of "Some (True, j1)" "j_to j1" j1 out] h by simp
    fix s
    assume "holds (out @ (if c \<noteq> 0 then '','' else [])) s"
    then show "wrote (out @ (if c \<noteq> 0 then '','' else []) @ json_text (Jraw p)) j1 (put (j1\<lparr>j_to := s\<rparr>) p)"
      using put_wrote[of "out @ (if c \<noteq> 0 then '','' else [])" "j1\<lparr>j_to := s\<rparr>" p] by simp
  qed
  from value_emits[OF assms(1,2) e this] show ?thesis using assms(3) by (simp add: ioxd_json_raw_def e)
qed

lemma open_emits:
  assumes V: "views j d" and h: "holds (pre @ doc_text d) (j_to j)" and k: "k = Array \<or> k = Object"
  shows "emits pre (doc_open k d) (open_level j (hd (bracket_of k)))"
proof -
  obtain f fs where d: "d = f # fs" using V by (cases d) (auto simp: views_def doc_ok_def)
  have nf: "\<not> j_failed j" and n: "j_depth j = length fs" using V d by (auto simp: views_def)
  show ?thesis
  proof (cases "j_depth j = IOXD_JSON_DEPTH")
    case True
    then show ?thesis using nf by (intro emits_failed[of _ "fail_json j"]) (simp_all add: open_level_def fail_json_def)
  next
    case deep: False
    obtain c j1 where e: "value_lead j = (c, j1)" by fastforce
    show ?thesis
    proof (cases "f_kind f = Object \<and> f_key f = None")
      case True
      then have "c = - 1" "j_failed j1" using value_lead_ok[OF V e] d by simp_all
      then show ?thesis using nf deep e by (intro emits_failed[of _ j1]) (simp_all add: open_level_def)
    next
      case False
      then have "\<not> (f_kind (hd d) = Object \<and> f_key (hd d) = None)" using d by simp
      then have l: "c = int (length (lead f))" "j_to j1 = j_to j" "led j1 d" using value_lead_ok[OF V e] d by (auto split: if_splits)
      have len: "length d \<le> IOXD_JSON_DEPTH" using V d deep n by (auto simp: views_def doc_ok_def)
      define lvl where "lvl = level (Suc (j_depth j1))"
      define j2 where "j2 = j1\<lparr>j_depth := Suc (j_depth j1), has_value := has_value j1 AND NOT lvl,
        is_object := (if k = Object then is_object j1 OR lvl else is_object j1 AND NOT lvl)\<rparr>"
      have v2: "views j2 (new_frame k # d)" using led_open[OF l(3) len, of k] k by (auto simp: j2_def lvl_def)
      have br: "hd (bracket_of k) = CHR ''{'' \<longleftrightarrow> k = Object" "[hd (bracket_of k)] = bracket_of k" using k by auto
      have c: "c = 0 \<or> c = 1" "(if c \<noteq> 0 then '','' else []) = lead f" using l(1) by (auto simp: lead_def)
      have ol: "open_level j (hd (bracket_of k)) = do { (at, j) \<leftarrow> want j2 (nat c + 1);
          (case at of None \<Rightarrow> Some (False, j) | Some at \<Rightarrow> Some (True, j\<lparr>j_to := commit (store (j_to j) at (lead f @ [hd (bracket_of k)])) (nat c + 1)\<rparr>)) }"
        unfolding c(2)[symmetric] using nf deep e c(1) br(1) by (auto simp: open_level_def j2_def lvl_def Let_def)
      have "wrote ((pre @ doc_text d) @ lead f @ [hd (bracket_of k)]) j2 (open_level j (hd (bracket_of k)))"
        unfolding ol by (rule want_wrote) (use h l(1,2) in \<open>auto simp: j2_def\<close>)
      moreover have "doc_text (new_frame k # d) = doc_text d @ lead f @ [hd (bracket_of k)]"
        unfolding d br(2) by (simp add: frame_text_def new_frame_def)
      ultimately have "wrote (pre @ doc_text (new_frame k # d)) j2 (open_level j (hd (bracket_of k)))" by simp
      moreover have "doc_open k d = Some (new_frame k # d)" using d False deep n by auto
      ultimately show ?thesis by (intro wrote_emits[OF _ v2]) simp_all
    qed
  qed
qed

lemma end_emits:
  assumes V: "views j d" and h: "holds (pre @ doc_text d) (j_to j)"
  shows "emits pre (doc_end d) (ioxd_json_end j)"
proof -
  obtain f fs where d: "d = f # fs" using V by (cases d) (auto simp: views_def doc_ok_def)
  have nf: "\<not> j_failed j" and n: "j_depth j = length fs" and ak: "after_key j \<longleftrightarrow> f_key f \<noteq> None" using V d by (auto simp: views_def)
  show ?thesis
  proof (cases "fs = [] \<or> f_key f \<noteq> None")
    case True
    then show ?thesis using nf n ak by (intro emits_failed[of _ "fail_json j"]) (auto simp: ioxd_json_end_def fail_json_def)
  next
    case False
    then obtain g gs where fs: "fs = g # gs" by (cases fs) auto
    have D: "doc_ok (f # g # gs)" using V d fs by (simp add: views_def)
    have g: "f_key g \<noteq> None \<longleftrightarrow> f_kind g = Object" "f_kind f \<noteq> Root" using D by (auto simp: doc_ok_Cons)
    obtain d' where d': "doc_end (f # g # gs) = Some d'" using False g by (cases "f_key g") auto
    have top: "is_object j AND level (j_depth j) \<noteq> 0 \<longleftrightarrow> f_kind f = Object"
      using V d top_kind[of "j_depth j" d] unfolding level_bit by (auto simp: views_def)
    define j1 where "j1 = j\<lparr>j_depth := j_depth j - 1\<rparr>"
    have v1: "views j1 d'" using views_end[OF _ d'] V d fs by (simp add: j1_def)
    have je: "ioxd_json_end j = do { (at, j) \<leftarrow> want j1 1;
        (case at of None \<Rightarrow> Some (False, j) | Some at \<Rightarrow> Some (True, j\<lparr>j_to := commit (store (j_to j) at (if f_kind f = Object then ''}'' else '']'')) 1\<rparr>)) }"
      unfolding ioxd_json_end_def Let_def top j1_def using nf n ak False fs by simp
    have "wrote ((pre @ doc_text d) @ (if f_kind f = Object then ''}'' else '']'')) j1 (ioxd_json_end j)"
      unfolding je by (rule want_wrote) (use h in \<open>auto simp: j1_def\<close>)
    then have "wrote (pre @ doc_text d') j1 (ioxd_json_end j)" using doc_end_text[OF d'] g d fs by simp
    from wrote_emits[OF this v1] show ?thesis using d fs d' by simp
  qed
qed

lemma key_emits:
  assumes V: "views j d" and h: "holds (pre @ doc_text d) (j_to j)"
  shows "emits pre (doc_key k d) (ioxd__json_key_n j k)"
proof -
  obtain f fs where d: "d = f # fs" using V by (cases d) (auto simp: views_def doc_ok_def)
  have nf: "\<not> j_failed j" and ak: "after_key j \<longleftrightarrow> f_key f \<noteq> None"
    and hv: "bit (has_value j) (j_depth j) \<longleftrightarrow> f_items f \<noteq> [] \<or> f_key f \<noteq> None" using V d by (auto simp: views_def)
  have top: "is_object j AND level (j_depth j) = 0 \<longleftrightarrow> f_kind f \<noteq> Object"
    using V d top_kind[of "j_depth j" d] level_bit[of "is_object j" "j_depth j"] by (auto simp: views_def)
  show ?thesis
  proof (cases "f_kind f = Object \<and> f_key f = None")
    case False
    then show ?thesis using nf ak top by (intro emits_failed[of _ "fail_json j"]) (auto simp: ioxd__json_key_n_def fail_json_def Let_def)
  next
    case True
    define comma where "comma = (if f_items f \<noteq> [] then 1 else 0 :: nat)"
    define j1 where "j1 = j\<lparr>has_value := has_value j OR level (j_depth j)\<rparr>"
    have c: "(if comma \<noteq> 0 then '','' else []) = lead f" "comma = 0 \<or> comma = 1" using True by (auto simp: comma_def lead_def)
    have ke: "ioxd__json_key_n j k = do { (ok, j) \<leftarrow> put_string j1 comma k (CHR '':''); (if \<not> ok then Some (False, j) else Some (True, j\<lparr>after_key := True\<rparr>)) }"
      unfolding ioxd__json_key_n_def Let_def top level_bit j1_def comma_def using nf ak hv True by simp
    obtain d' where d': "doc_key k (f # fs) = Some d'" using True by simp
    have v': "views (j1\<lparr>after_key := True\<rparr>) d'" using views_key[OF _ d'] V d by (simp add: j1_def)
    have t: "pre @ doc_text d' = (pre @ doc_text d) @ string_text comma (esc k) (CHR '':'')"
      unfolding string_text_def c(1) using doc_key_text[OF d'] d by (simp add: quoted_def)
    have "wrote (pre @ doc_text d') j1 (put_string j1 comma k (CHR '':''))"
      unfolding t by (rule put_string_wrote) (use h c(2) in \<open>auto simp: j1_def\<close>)
    then obtain ok j2 where p: "put_string j1 comma k (CHR '':'') = Some (ok, j2)"
      "if ok then \<exists>s. j2 = j1\<lparr>j_to := s\<rparr> \<and> holds (pre @ doc_text d') s else j_failed j2" by (auto simp: wrote_def)
    show ?thesis
    proof (cases ok)
      case ok: True
      then obtain s where s: "j2 = j1\<lparr>j_to := s\<rparr>" "holds (pre @ doc_text d') s" using p(2) by auto
      have "views (j2\<lparr>after_key := True\<rparr>) d'" using v' s(1) by (simp add: views_def)
      then show ?thesis unfolding emits_def ke p(1) using ok s d d' by (intro exI[of _ True] exI[of _ "j2\<lparr>after_key := True\<rparr>"]) simp
    next
      case False
      then show ?thesis unfolding ke p(1) using p(2) by (intro emits_failed[of _ j2]) simp_all
    qed
  qed
qed

lemma step_emits:
  assumes V: "views j d" and h: "holds (pre @ doc_text d) (j_to j)" and p: "prints op"
  shows "emits pre (doc_step op d) (json_step op j)"
proof -
  note raw = put_value_emits[OF V h] and str = string_emits[OF V h]
  have num: "emits pre (case number_value fin printed of None \<Rightarrow> None | Some v \<Rightarrow> doc_value v d)
      (if \<not> fin then ioxd_json_null j else put_number j printed)" if "fin \<Longrightarrow> printed \<noteq> Some []" for fin printed
    using that raw[of "the printed"] raw[of "''null''"] emits_failed[of _ "fail_json j"]
    by (cases printed) (auto simp: number_value_def put_number_def ioxd_json_null_def fail_json_def)
  show ?thesis
  proof (cases op)
    case Op_object
    then show ?thesis using open_emits[OF V h, of Object] by (simp add: ioxd_json_object_def)
  next
    case Op_array
    then show ?thesis using open_emits[OF V h, of Array] by (simp add: ioxd_json_array_def)
  next
    case Op_end
    then show ?thesis using end_emits[OF V h] by simp
  next
    case (Op_key k)
    then show ?thesis using key_emits[OF V h] by (simp add: ioxd_json_key_def)
  next
    case (Op_string x)
    then show ?thesis using str[of x] by (simp add: ioxd_json_string_def)
  next
    case (Op_cstr x)
    show ?thesis
    proof (cases x)
      case None
      then show ?thesis using Op_cstr raw[of "''null''"] by (simp add: ioxd_json_cstr_def ioxd_json_null_def)
    next
      case (Some a)
      then show ?thesis using Op_cstr str[of "c_string a"] by (simp add: ioxd_json_cstr_def)
    qed
  next
    case (Op_int v)
    then show ?thesis using raw[of "(if sint v < 0 then ''-'' else []) @ digits (if sint v < 0 then - (v + 1) + 1 else v)"] p
      by (simp add: ioxd_json_int_def prints_def Let_def)
  next
    case (Op_uint v)
    then show ?thesis using raw[of "digits v"] p by (simp add: ioxd_json_uint_def prints_def)
  next
    case (Op_double l fmt same fin)
    then have "fin \<Longrightarrow> shortest l 32 fmt same 15 17 \<noteq> Some []" using p by (auto simp: prints_def number_value_def)
    from num[OF this] show ?thesis using Op_double by (simp add: ioxd_json_double_def)
  next
    case (Op_float l fmt same fin)
    then have "fin \<Longrightarrow> shortest l 32 fmt same 6 9 \<noteq> Some []" using p by (auto simp: prints_def number_value_def)
    from num[OF this] show ?thesis using Op_float by (simp add: ioxd_json_float_def)
  next
    case (Op_bool b)
    then show ?thesis using raw[of "''true''"] raw[of "''false''"] by (cases b) (simp_all add: ioxd_json_bool_def)
  next
    case Op_null
    then show ?thesis using raw[of "''null''"] by (simp add: ioxd_json_null_def)
  next
    case (Op_raw b)
    then show ?thesis using raw_emits[OF V h, of b] emits_failed[of "Some (False, fail_json j)" "fail_json j"]
      by (cases "b = []") (simp_all add: ioxd_json_raw_def[of j "[]"] fail_json_def)
  qed
qed

end

text \<open>A failed writer drops every call.\<close>

lemma failed_lead: "j_failed j \<Longrightarrow> value_lead j = (- 1, j)"
  by (simp add: value_lead_def)

lemma failed_step_json:
  assumes "j_failed j"
  shows "\<exists>j'. json_step op j = Some (False, j') \<and> j_failed j'"
proof -
  have v: "put_value j p = Some (False, j)" for p using failed_lead[OF assms] by (simp add: put_value_def)
  have n: "put_number j x = Some (False, fail_json j) \<or> put_number j x = Some (False, j)" for x by (cases x) (simp_all add: put_number_def v)
  show ?thesis
  proof (cases op)
    case (Op_double l fmt same fin)
    then show ?thesis using assms v n[of "shortest l 32 fmt same 15 17"] by (auto simp: ioxd_json_double_def ioxd_json_null_def fail_json_def)
  next
    case (Op_float l fmt same fin)
    then show ?thesis using assms v n[of "shortest l 32 fmt same 6 9"] by (auto simp: ioxd_json_float_def ioxd_json_null_def fail_json_def)
  next
    case (Op_cstr x)
    then show ?thesis using assms v failed_lead by (cases x) (simp_all add: ioxd_json_cstr_def ioxd_json_null_def)
  qed (use assms v failed_lead in \<open>simp_all add: ioxd_json_object_def ioxd_json_array_def open_level_def ioxd_json_end_def ioxd_json_key_def
    ioxd__json_key_n_def ioxd_json_string_def ioxd_json_int_def ioxd_json_uint_def ioxd_json_bool_def ioxd_json_null_def ioxd_json_raw_def
    fail_json_def Let_def\<close>)
qed

text \<open>The calls of a handler one after the other, whatever each returns.\<close>

fun json_run :: "jop list \<Rightarrow> json \<Rightarrow> json option" where
  "json_run [] j = Some j"
| "json_run (op # ops) j = do { (_, j) \<leftarrow> json_step op j; json_run ops j }"

fun doc_run :: "jop list \<Rightarrow> doc \<Rightarrow> doc option" where
  "doc_run [] d = Some d"
| "doc_run (op # ops) d = do { d \<leftarrow> doc_step op d; doc_run ops d }"

lemma failed_run: "j_failed j \<Longrightarrow> \<exists>j'. json_run ops j = Some j' \<and> j_failed j'"
proof (induction ops arbitrary: j)
  case (Cons op ops)
  obtain j1 where "json_step op j = Some (False, j1)" "j_failed j1" using failed_step_json[OF Cons.prems] by blast
  then show ?case using Cons.IH[of j1] by simp
qed simp

context json_sink
begin

lemma run_emits:
  assumes "views j d" and "holds (pre @ doc_text d) (j_to j)" and "\<forall>op \<in> set ops. prints op"
  shows "\<exists>j'. json_run ops j = Some j' \<and>
    (j_failed j' \<or> (\<exists>d'. doc_run ops d = Some d' \<and> views j' d' \<and> holds (pre @ doc_text d') (j_to j') \<and> prefix (doc_text d) (doc_text d')))"
  using assms
proof (induction ops arbitrary: j d)
  case (Cons op ops)
  obtain ok j1 where s: "json_step op j = Some (ok, j1)"
    "if ok then \<exists>d'. doc_step op d = Some d' \<and> views j1 d' \<and> holds (pre @ doc_text d') (j_to j1) else j_failed j1"
    using step_emits[OF Cons.prems(1,2), of op] Cons.prems(3) by (auto simp: emits_def)
  show ?case
  proof (cases ok)
    case True
    then obtain d1 where d1: "doc_step op d = Some d1" "views j1 d1" "holds (pre @ doc_text d1) (j_to j1)" using s(2) by auto
    have "prefix (doc_text d) (doc_text d1)" using doc_step_grows d1(1) Cons.prems(1) by (auto simp: views_def)
    then show ?thesis using Cons.IH[of j1 d1] d1 Cons.prems(3) s(1) by (auto intro: prefix_order.trans)
  next
    case False
    then show ?thesis using failed_run[of j1 ops] s by auto
  qed
qed auto

end

lemma json_run_append: "json_run (ops @ ops') j = Option.bind (json_run ops j) (json_run ops')"
  by (induction ops arbitrary: j) (auto split: prod.splits bind_split)

lemma doc_run_append: "doc_run (ops @ ops') d = Option.bind (doc_run ops d) (doc_run ops')"
  by (induction ops arbitrary: d) (auto split: bind_split)

lemma new_views: "views (new_json s) [new_frame Root]"
  by (simp add: views_def new_json_def doc_ok_def new_frame_def)

text \<open>The values at the root: one in a document as JSON knows it.\<close>

definition root_values :: "doc \<Rightarrow> jv list" where
  "root_values d = map snd (f_items (last d))"

lemma done_views:
  assumes "views j d" and "ioxd_json_done j"
  shows "doc_text d = commas (map json_text (root_values d))"
proof -
  obtain f where d: "d = [f]" using assms by (cases d; cases "tl d") (auto simp: views_def ioxd_json_done_def doc_ok_def)
  have f: "f_kind f = Root" "f_key f = None" using assms(1) d by (auto simp: views_def doc_ok_def)
  then show ?thesis using d by (auto simp: frame_text_def root_values_def intro!: arg_cong[of _ _ commas])
qed


section \<open>The three sinks\<close>

definition mem_holds :: "nat \<Rightarrow> bytes \<Rightarrow> sink \<Rightarrow> bool" where
  "mem_holds cap out s \<longleftrightarrow> (\<exists>buf n. s = To_mem (Some buf) n \<and> length buf = cap \<and> n \<le> cap \<and> take n buf = out)"

interpretation jmem: json_sink "mem_holds cap" for cap
proof unfold_locales
  fix out s at room n and d :: bytes
  assume h: "mem_holds cap out s"
  show "fst (tail s) \<noteq> None" using h by (auto simp: mem_holds_def)
  show "\<exists>at s'. sink_reserve s n = Some (at, s') \<and> (at \<noteq> None \<longrightarrow> mem_holds cap out s' \<and> at = fst (tail s') \<and> n \<le> snd (tail s') \<and> \<not> sink_failed s')"
    using h by (auto simp: mem_holds_def)
  assume t: "tail s = (Some at, room)" "length d \<le> room"
  then show "mem_holds cap (out @ d) (commit (store s at d) (length d))"
    using h by (auto simp: mem_holds_def memwrite_def)
qed

definition pipe_holds :: "io \<Rightarrow> bytes \<Rightarrow> sink \<Rightarrow> bool" where
  "pipe_holds w0 out s \<longleftrightarrow> (\<exists>p w sent. s = To_pipe p w \<and> writer_ok (p_out p) \<and> \<not> pw_failed (p_out p) \<and> pw_tail (p_out p) = 0 \<and>
     sent_to w0 w sent \<and> sent @ span (p_out p) = out)"

interpretation jpipe: json_sink "pipe_holds w0" for w0
proof unfold_locales
  fix out s at room n and d :: bytes
  assume h: "pipe_holds w0 out s"
  then obtain p w sent where s: "s = To_pipe p w" "writer_ok (p_out p)" "\<not> pw_failed (p_out p)" "pw_tail (p_out p) = 0" "sent_to w0 w sent"
    "sent @ span (p_out p) = out" by (auto simp: pipe_holds_def)
  show "fst (tail s) \<noteq> None" using s(1) by simp
  obtain a q v where r: "ioxd__pipewriter_reserve (p_out p) w n = (a, q, v)" by (metis surj_pair)
  note R = reserve_ok[OF s(2-4) r]
  have e: "sink_reserve s n = Some (a, To_pipe (p\<lparr>p_out := q\<rparr>) v)" using s(1) r by (simp add: ioxd_pipe_reserve_def)
  have "a \<noteq> None \<longrightarrow> pipe_holds w0 out (To_pipe (p\<lparr>p_out := q\<rparr>) v)"
  proof
    assume "a \<noteq> None"
    then have nf: "\<not> pw_failed q" using R by auto
    then obtain o' where o: "sent_to w v o'" "o' @ span q = span (p_out p)" using R by auto
    then show "pipe_holds w0 out (To_pipe (p\<lparr>p_out := q\<rparr>) v)"
      unfolding pipe_holds_def using conjunct1[OF R] conjunct1[OF conjunct2[OF conjunct2[OF R]]] nf s(6) sent_to_trans[OF s(5) o(1)]
      by (intro exI[of _ "p\<lparr>p_out := q\<rparr>"] exI[of _ v] exI[of _ "sent @ o'"]) (simp add: o(2)[symmetric])
  qed
  moreover have "a \<noteq> None \<longrightarrow> a = fst (tail (To_pipe (p\<lparr>p_out := q\<rparr>) v)) \<and> n \<le> snd (tail (To_pipe (p\<lparr>p_out := q\<rparr>) v)) \<and>
      \<not> sink_failed (To_pipe (p\<lparr>p_out := q\<rparr>) v)"
    using conjunct2[OF conjunct2[OF conjunct2[OF conjunct2[OF conjunct2[OF R]]]]] by (cases a) auto
  ultimately show "\<exists>at s'. sink_reserve s n = Some (at, s') \<and> (at \<noteq> None \<longrightarrow> pipe_holds w0 out s' \<and> at = fst (tail s') \<and> n \<le> snd (tail s') \<and> \<not> sink_failed s')"
    using e by blast
  assume t: "tail s = (Some at, room)" "length d \<le> room"
  have "pw_len (p_out p) + length d \<le> pw_cap (p_out p)" using t s(1,2) by (auto simp: writer_ok_def)
  note P = span_poke[OF s(2,4) this]
  show "pipe_holds w0 (out @ d) (commit (store s at d) (length d))"
    unfolding pipe_holds_def using P s t(1)
    by (intro exI[of _ "p\<lparr>p_out := (poke (p_out p) at d)\<lparr>pw_len := pw_len (p_out p) + length d\<rparr>\<rparr>"] exI[of _ w] exI[of _ sent])
      (simp add: poke_def s(6)[symmetric])
qed

definition reply_holds :: "request \<times> bool \<Rightarrow> response \<Rightarrow> io \<Rightarrow> bytes \<Rightarrow> sink \<Rightarrow> bool" where
  "reply_holds G hr w0 out s \<longleftrightarrow> (\<exists>cx. s = To_reply cx \<and> replying G hr w0 out cx)"

interpretation jreply: json_sink "reply_holds G hr w0" for G hr w0
proof unfold_locales
  fix out s at room n and d :: bytes
  assume h: "reply_holds G hr w0 out s"
  then obtain cx where s: "s = To_reply cx" "replying G hr w0 out cx" by (auto simp: reply_holds_def)
  show "fst (tail s) \<noteq> None" using s(1) by simp
  obtain a cx' where r: "ioxd_reserve cx n = Some (a, cx')"
    "\<And>p. a = Some p \<Longrightarrow> replying G hr w0 out cx' \<and> p = ioxd__pipewriter_at (WRITER cx') \<and> n \<le> ioxd__pipewriter_room (WRITER cx')"
    using reserve_ok_ctx[OF s(2)] by metis
  have "a \<noteq> None \<longrightarrow> reply_holds G hr w0 out (To_reply cx') \<and> a = fst (tail (To_reply cx')) \<and> n \<le> snd (tail (To_reply cx')) \<and> \<not> sink_failed (To_reply cx')"
    using r(2) by (cases a) (simp_all add: reply_holds_def replying_def ioxd__pipewriter_at_def ioxd__pipewriter_room_def)
  then show "\<exists>at s'. sink_reserve s n = Some (at, s') \<and> (at \<noteq> None \<longrightarrow> reply_holds G hr w0 out s' \<and> at = fst (tail s') \<and> n \<le> snd (tail s') \<and> \<not> sink_failed s')"
    using s(1) r(1) by (intro exI[of _ a] exI[of _ "To_reply cx'"]) simp
  assume t: "tail s = (Some at, room)" "length d \<le> room"
  have l: "length d \<le> ioxd__pipewriter_room (WRITER cx)" using t s(1) by (auto simp: ioxd__pipewriter_room_def)
  have "ioxd__pipewriter_advance (poke (WRITER cx) (ioxd__pipewriter_at (WRITER cx)) d) (length d)
      = (poke (WRITER cx) at d)\<lparr>pw_len := pw_len (WRITER cx) + length d\<rparr>"
    using l t s(1) by (simp add: ioxd__pipewriter_advance_def ioxd__pipewriter_room_def ioxd__pipewriter_at_def poke_def Let_def)
  then have "replying G hr w0 (out @ d) (set_writer ((poke (WRITER cx) at d)\<lparr>pw_len := pw_len (WRITER cx) + length d\<rparr>) (cx_io cx) cx)"
    using place_ok(1)[OF s(2) l order_refl] by simp
  then show "reply_holds G hr w0 (out @ d) (commit (store s at d) (length d))"
    using s(1) by (simp add: reply_holds_def poke_def set_writer_def WRITER_def)
qed

end
