(* ===== verification/Json_Read.thy ===== *)
theory Json_Read
  imports Json_Doc
begin

text \<open>
  The documents the JSON writer leaves behind: in memory, in a reply, and a string read back.
\<close>

section \<open>Strings read back\<close>

text \<open>A reader of the rest of a JSON string, up to its closing quote: the string and what follows.\<close>

fun read_string :: "bytes \<Rightarrow> (bytes \<times> bytes) option" where
  "read_string [] = None"
| "read_string (c # cs) =
     (if c = DQUOTE then Some ([], cs)
      else if c = BSLASH then
        (case cs of
           [] \<Rightarrow> None
         | e # r \<Rightarrow>
             if e = CHR ''u'' then
               (if length r \<ge> 4 \<and> list_all (\<lambda>h. ioxd__http_hexval h \<ge> 0) (take 4 r) \<and> hex_value (take 4 r) < 256
                then map_option (map_prod (Cons (char_of (hex_value (take 4 r)))) id) (read_string (drop 4 r)) else None)
             else if e = DQUOTE \<or> e = BSLASH \<or> e = CHR ''/'' then map_option (map_prod (Cons e) id) (read_string r)
             else if e = CHR ''n'' then map_option (map_prod (Cons LF) id) (read_string r)
             else if e = CHR ''r'' then map_option (map_prod (Cons CR) id) (read_string r)
             else if e = CHR ''t'' then map_option (map_prod (Cons TAB) id) (read_string r)
             else if e = CHR ''b'' then map_option (map_prod (Cons (CHR 0x08)) id) (read_string r)
             else if e = CHR ''f'' then map_option (map_prod (Cons (CHR 0x0C)) id) (read_string r)
             else None)
      else if byte_val c < 32 then None
      else map_option (map_prod (Cons c) id) (read_string cs))"

declare read_string.simps [simp del]

lemma read_simple:
  assumes "(e, c) \<in> {(DQUOTE, DQUOTE), (BSLASH, BSLASH), (CHR ''n'', LF), (CHR ''r'', CR), (CHR ''t'', TAB), (CHR ''b'', CHR 0x08), (CHR ''f'', CHR 0x0C)}"
  shows "read_string (BSLASH # e # r) = map_option (map_prod (Cons c) id) (read_string r)"
  using assms by (elim insertE) (simp_all add: read_string.simps(2)[of BSLASH])

lemma read_unicode:
  assumes "ioxd__http_hexval h = int x" and "ioxd__http_hexval l = int y" and "x * 16 + y = byte_val c"
  shows "read_string (BSLASH # CHR ''u'' # CHR ''0'' # CHR ''0'' # h # l # r) = map_option (map_prod (Cons c) id) (read_string r)"
proof -
  have z: "ioxd__http_hexval (CHR ''0'') = 0" by (simp add: ioxd__http_hexval_def)
  have t: "take 4 (CHR ''0'' # CHR ''0'' # h # l # r) = [CHR ''0'', CHR ''0'', h, l]" "drop 4 (CHR ''0'' # CHR ''0'' # h # l # r) = r"
    "4 \<le> length (CHR ''0'' # CHR ''0'' # h # l # r)"
    by simp_all
  have v: "hex_value [CHR ''0'', CHR ''0'', h, l] = byte_val c" unfolding hex_value_def using assms by (simp add: z)
  have b: "byte_val c < 256" by simp
  have l: "list_all (\<lambda>h. ioxd__http_hexval h \<ge> 0) [CHR ''0'', CHR ''0'', h, l]" using assms z by simp
  show ?thesis unfolding read_string.simps(2)[of BSLASH] list.case t v using t(3) b l by simp
qed

lemma read_escape: "needs_escape c \<Longrightarrow> read_string (escape c @ r) = map_option (map_prod (Cons c) id) (read_string r)"
proof -
  assume n: "needs_escape c"
  show ?thesis
  proof (cases "c \<in> {DQUOTE, BSLASH, LF, CR, TAB, CHR 0x08, CHR 0x0C}")
    case True
    then show ?thesis by (elim insertE) (simp_all add: escape_def read_simple)
  next
    case False
    then have b: "byte_val c < 32" using n by (auto simp: needs_escape_def)
    let ?h = "''0123456789abcdef'' ! (byte_val c div 16)" and ?l = "''0123456789abcdef'' ! (byte_val c mod 16)"
    have h: "ioxd__http_hexval ?h = int (byte_val c div 16)" "ioxd__http_hexval ?l = int (byte_val c mod 16)"
      using b by (auto intro!: hex_digit)
    have e: "escape c = [BSLASH, CHR ''u'', CHR ''0'', CHR ''0'', ?h, ?l]" using False by (simp add: escape_def)
    show ?thesis unfolding e append.simps by (rule read_unicode[OF h]) simp
  qed
qed

lemma read_esc: "read_string (esc s @ DQUOTE # r) = Some (s, r)"
proof (induction s)
  case (Cons c s)
  show ?case
  proof (cases "needs_escape c")
    case True
    then show ?thesis using read_escape[OF True] Cons by simp
  next
    case False
    then show ?thesis using Cons by (simp add: needs_escape_def read_string.simps(2)[of c])
  qed
qed (simp add: read_string.simps)

section \<open>Numbers read back\<close>

lemma char_of_digit: "d < 10 \<Longrightarrow> byte_val (char_of (48 + d)) = 48 + d"
  by simp

lemma digits_tmp_value:
  "digits_tmp v \<noteq> [] \<and> list_all is_digit (digits_tmp v) \<and> digits_value (rev (digits_tmp v)) = unat v"
proof (induction v rule: digits_tmp.induct)
  case (1 v)
  have m: "unat (v mod 10) = unat v mod 10" "unat (v div 10) = unat v div 10" by (simp_all add: unat_mod unat_div)
  have d: "unat v mod 10 < 10" by simp
  have b: "byte_val (char_of (48 + unat v mod 10)) = 48 + unat v mod 10" by (rule char_of_digit[OF d])
  have D: "is_digit (char_of (48 + unat v mod 10))" unfolding is_digit_def using b d by simp
  show ?case
  proof (cases "v div 10 = 0")
    case True
    then have "unat v div 10 = 0" using m(2) by simp
    then show ?thesis using D b True m(1) by (subst (1 2 3) digits_tmp.simps) (simp add: digits_value_def digit_val_def)
  next
    case False
    then show ?thesis using 1[OF False] D b m by (subst (1 2 3) digits_tmp.simps) (simp add: digits_value_def digit_val_def)
  qed
qed

lemma digits_ok: "digits v \<noteq> []" "list_all is_digit (digits v)" "digits_value (digits v) = unat v"
  using digits_tmp_value[of v] by (auto simp: digits_def list_all_rev)

lemma int_text:
  "i64_text ((if sint (v :: u64) < 0 then ''-'' else []) @ digits (if sint v < 0 then - (v + 1) + 1 else v)) (sint v)"
proof (cases "sint v < 0")
  case True
  have e: "- (v + 1) + 1 = - v" by simp
  have "0 \<le> - sint v" "- sint v < 2 ^ 64" using True sint_ge[of v] by simp_all
  moreover have "- v = word_of_int (- sint v)" by simp
  ultimately have "uint (- v) = - sint v" by (simp only: uint_word_of_int) (simp add: take_bit_int_eq_self)
  then have "int (unat (- v)) = - sint v" by simp
  then show ?thesis unfolding i64_text_def e using True digits_ok[of "- v"] by (intro exI[of _ "digits (- v)"]) simp
next
  case False
  have "sint v < 2 ^ 64" using sint_lt[of v] by simp
  then have "uint (word_of_int (sint v) :: u64) = sint v" using False by (simp only: uint_word_of_int) (simp add: take_bit_int_eq_self)
  then have "sint v = int (unat v)" by simp
  then show ?thesis unfolding i64_text_def using False digits_ok[of v] by (intro exI[of _ "digits v"]) simp
qed


section \<open>What reaches memory, and the peer\<close>

lemma new_holds: "mem_holds (length buf) ([] @ doc_text [new_frame Root]) (j_to (ioxd_json_mem (Some buf)))"
  by (simp add: mem_holds_def frame_text_def new_frame_def ioxd_json_mem_def new_json_def)

lemmas mem_start = new_views[of "To_mem (Some buf) 0" for buf, folded ioxd_json_mem_def] new_holds

lemma mem_value:
  assumes "json_step op (ioxd_json_mem (Some buf)) = Some (True, j)" and "op_value op = Some v" and "prints op"
  shows "\<exists>buf' n. j_to j = To_mem (Some buf') n \<and> take n buf' = json_text v"
proof -
  obtain d where d: "doc_step op [new_frame Root] = Some d" "mem_holds (length buf) (doc_text d) (j_to j)"
    using jmem.step_emits[OF mem_start(1)[of buf] mem_start(2)[of buf] assms(3)] assms(1) by (auto simp: jmem.emits_def)
  have "doc_step op [new_frame Root] = doc_value v [new_frame Root]" using assms(2) by (cases op) simp_all
  then have "doc_text d = json_text v"
    using d(1) doc_value_text[of v "new_frame Root" "[]" d] by (simp add: new_frame_def frame_text_def lead_def)
  then show ?thesis using d(2) by (auto simp: mem_holds_def)
qed

text \<open>What the JSON writer leaves in a buffer is the document its calls describe. Any calls on a writer over a
  buffer of the caller's return; unless one failed, the calls had a place in the document each, the bytes in the buffer are
  the text of the containers opened and the values written so far - each value comma-separated from the one before, each
  key quoted and escaped and followed by its value - and no byte was stored past the buffer's end. When \<open>ioxd_json_done\<close>
  holds, that is the text of whole values. The one assumption is on the C library: a finite number prints as at least one
  character.\<close>

theorem json_mem_writes_the_document:
  assumes "\<forall>op \<in> set ops. prints op"
  shows "\<exists>j. json_run ops (ioxd_json_mem (Some buf)) = Some j \<and>
    (j_failed j \<or> (\<exists>d buf' n. doc_run ops [new_frame Root] = Some d \<and> j_to j = To_mem (Some buf') n \<and>
       length buf' = length buf \<and> n \<le> length buf \<and> take n buf' = doc_text d \<and>
       (ioxd_json_done j \<longrightarrow> take n buf' = commas (map json_text (root_values d)))))"
proof -
  obtain j where j: "json_run ops (ioxd_json_mem (Some buf)) = Some j"
    "j_failed j \<or> (\<exists>d. doc_run ops [new_frame Root] = Some d \<and> views j d \<and> mem_holds (length buf) (doc_text d) (j_to j))"
    using jmem.run_emits[OF mem_start(1)[of buf] mem_start(2)[of buf] assms] by auto
  show ?thesis
  proof (cases "j_failed j")
    case False
    then obtain d buf' n where d: "doc_run ops [new_frame Root] = Some d" "views j d" "j_to j = To_mem (Some buf') n"
      "length buf' = length buf" "n \<le> length buf" "take n buf' = doc_text d" using j(2) by (auto simp: mem_holds_def)
    then have "ioxd_json_done j \<longrightarrow> take n buf' = commas (map json_text (root_values d))" using done_views by simp
    then show ?thesis using j(1) d by blast
  qed (use j(1) in blast)
qed

text \<open>An integer written to a document can be read back: where \<open>ioxd_json_int\<close> says it wrote the integer, the text
  is one \<open>ioxd_to_i64\<close> takes for that integer, \<open>INT64_MIN\<close> included.\<close>

theorem json_int_reads_back:
  assumes "ioxd_json_int (ioxd_json_mem (Some buf)) v = Some (True, j)"
  shows "\<exists>buf' n. j_to j = To_mem (Some buf') n \<and> ioxd_to_i64 (take n buf') = Some v"
proof -
  let ?t = "(if sint v < 0 then ''-'' else []) @ digits (if sint v < 0 then - (v + 1) + 1 else v)"
  obtain buf' n where "j_to j = To_mem (Some buf') n" "take n buf' = ?t"
    using mem_value[of "Op_int v" buf j "Jraw ?t"] assms digits_ok(1) by (auto simp: prints_def)
  then show ?thesis using to_i64_iff[THEN iffD2, OF int_text[of v]] by simp
qed

text \<open>The reply of a JSON writer: a fresh one, with its content type set.\<close>

abbreviation json_response :: "ctx \<Rightarrow> response" where
  "json_response cx \<equiv> shape_step (cx_res cx) (Set_type (Some ''application/json''))"

lemma json_response_fields:
  assumes "fresh_reply cx"
  shows "rs_status (json_response cx) = 200" "deref (json_response cx) (rs_content_type (json_response cx)) = ''application/json''"
proof -
  note ff = fresh_fields[OF assms]
  have l: "length (rs_head (cx_res cx)) = IOXD_RESP_HEAD_CAP" and i: "fst (init_response (cx_res cx) (WRITER cx)) = cx_res cx"
    using assms by (simp_all add: fresh_reply_def)
  have n: "rs_head_len (cx_res cx) = 0" by (subst i[symmetric]) (simp add: init_response_def)
  have v: "valid_field_value ''application/json''" by code_simp
  show "rs_status (json_response cx) = 200" "deref (json_response cx) (rs_content_type (json_response cx)) = ''application/json''"
    using ff(1,2) l n v by (simp_all add: ioxd_content_type_def Let_def put_bytes_def size_minus_def memread_memwrite_same)
qed

lemma reply_start:
  assumes "fresh_reply cx"
  defines "G \<equiv> (cx_req cx, st_head_only (cx_st cx))"
  shows "views (ioxd_json_reply cx) [new_frame Root]"
    and "reply_holds G (json_response cx) (cx_io cx) ([] @ doc_text [new_frame Root]) (j_to (ioxd_json_reply cx))"
proof -
  have "replying G (json_response cx) (cx_io cx) [] (upd_res (\<lambda>r. shape_step r (Set_type (Some ''application/json''))) cx)"
    using shape_replying[OF fresh_replying[OF assms(1)], of "Set_type (Some ''application/json'')"] fresh_fields(2)[OF assms(1)]
    unfolding G_def by simp
  then show "reply_holds G (json_response cx) (cx_io cx) ([] @ doc_text [new_frame Root]) (j_to (ioxd_json_reply cx))"
    by (simp add: reply_holds_def ioxd_json_reply_def new_json_def frame_text_def new_frame_def)
  show "views (ioxd_json_reply cx) [new_frame Root]" unfolding ioxd_json_reply_def by (rule new_views)
qed

text \<open>The end of a reply that a JSON writer filled.\<close>

lemma json_finish:
  assumes "reply_holds (cx_req cx, st_head_only (cx_st cx)) (json_response cx) (cx_io cx) out (j_to j)" and "\<not> st_head_only (cx_st cx)"
  shows "\<exists>cx1 rc cx'. j_to j = To_reply cx1 \<and> finish cx1 = Some (rc, cx') \<and>
    (if rc = 0 then \<exists>msg. io_wire (cx_io cx') = io_wire (cx_io cx) @ msg \<and> reply_message (cx_req cx) (json_response cx) out (rs_close (cx_res cx')) msg
     else rc = - 1 \<and> rs_failed (cx_res cx'))"
proof -
  let ?G = "(cx_req cx, st_head_only (cx_st cx))"
  obtain cx1 where c: "j_to j = To_reply cx1" "replying ?G (json_response cx) (cx_io cx) out cx1" using assms(1) by (auto simp: reply_holds_def)
  obtain rc cx' where f: "finish cx1 = Some (rc, cx')"
    "rc = - 1 \<and> rs_failed (cx_res cx') \<or> rc = 0 \<and> reply_done ?G (json_response cx) (cx_io cx) out cx'"
    using finish_replying[OF c(2)] by blast
  then show ?thesis using c(1) reply_done_wire[OF _ assms(2) same_shape_refl, of "json_response cx" out cx'] by auto
qed


text \<open>A text in which a string stands where the calls before it left off: at most a comma, the opening quote, and then
  what a reader of JSON strings takes for the string.\<close>

definition string_after :: "jop list \<Rightarrow> bytes \<Rightarrow> bytes \<Rightarrow> bool" where
  "string_after ops s text \<longleftrightarrow>
     (\<exists>d comma t rest. doc_run ops [new_frame Root] = Some d \<and> comma \<in> {[], '',''} \<and>
        text = doc_text d @ comma @ DQUOTE # t \<and> read_string t = Some (s, rest))"

context json_sink
begin

lemma string_emits:
  assumes "views j [new_frame Root]" and "holds (pre @ doc_text [new_frame Root]) (j_to j)"
    and "\<forall>op \<in> set ops \<union> set ops'. prints op"
  shows "\<exists>j'. json_run (ops @ Op_string s # ops') j = Some j' \<and>
    (j_failed j' \<or> (\<exists>text. string_after ops s text \<and> holds (pre @ text) (j_to j')))"
proof -
  let ?d0 = "[new_frame Root]"
  have p: "\<forall>op \<in> set (ops @ Op_string s # ops'). prints op" "\<forall>op \<in> set ops. prints op" "prints (Op_string s)" "\<forall>op \<in> set ops'. prints op"
    using assms(3) by (auto simp: prints_def)
  obtain j1 where j1: "json_run ops j = Some j1"
    "j_failed j1 \<or> (\<exists>d. doc_run ops ?d0 = Some d \<and> views j1 d \<and> holds (pre @ doc_text d) (j_to j1))"
    using run_emits[OF assms(1,2) p(2)] by blast
  show ?thesis
  proof (cases "j_failed j1")
    case True
    from failed_run[OF this, of "Op_string s # ops'"] show ?thesis unfolding json_run_append j1(1) bind.bind_lunit by blast
  next
    case False
    then obtain d where d: "doc_run ops ?d0 = Some d" "views j1 d" "holds (pre @ doc_text d) (j_to j1)" using j1(2) by blast
    obtain ok j2 where j2: "json_step (Op_string s) j1 = Some (ok, j2)"
      "if ok then \<exists>d'. doc_value (Jstr s) d = Some d' \<and> views j2 d' \<and> holds (pre @ doc_text d') (j_to j2) else j_failed j2"
      using step_emits[OF d(2,3) p(3)] by (auto simp: emits_def)
    have run: "json_run (ops @ Op_string s # ops') j = json_run ops' j2" using j1(1) j2(1) by (simp add: json_run_append)
    show ?thesis
    proof (cases "j_failed j2")
      case True
      from failed_run[OF this, of ops'] show ?thesis unfolding run by blast
    next
      case False
      then obtain d2 where d2: "doc_value (Jstr s) d = Some d2" "views j2 d2" "holds (pre @ doc_text d2) (j_to j2)"
        using j2(2) by (auto split: if_splits)
      obtain f fs where f: "d = f # fs" "f_key f \<noteq> None \<longrightarrow> f_kind f = Object"
        using d(2) by (cases d) (auto simp: views_def doc_ok_def)
      have t2: "doc_text d2 = doc_text d @ lead f @ quoted s" using doc_value_text[OF d2(1)[unfolded f(1)] f(2)] f(1) by simp
      obtain j' where j': "json_run ops' j2 = Some j'"
        "j_failed j' \<or> (\<exists>d'. holds (pre @ doc_text d') (j_to j') \<and> prefix (doc_text d2) (doc_text d'))"
        using run_emits[OF d2(2,3) p(4)] by blast
      have "string_after ops s (doc_text d')" if pre: "prefix (doc_text d2) (doc_text d')" for d'
      proof -
        obtain z where z: "doc_text d' = doc_text d @ lead f @ DQUOTE # esc s @ DQUOTE # z" using pre t2 by (auto simp: prefix_def quoted_def)
        show ?thesis unfolding string_after_def
          by (rule exI[of _ d], rule exI[of _ "lead f"], rule exI[of _ "esc s @ DQUOTE # z"], rule exI[of _ z])
            (use d(1) z read_esc in \<open>simp add: lead_def\<close>)
      qed
      then show ?thesis using run j' by auto
    qed
  qed
qed

end



section \<open>Witnesses\<close>

definition sample_ops :: "jop list" where
  "sample_ops = [Op_object, Op_key ''id'', Op_int (- 7), Op_key ''tags'', Op_array, Op_string [LF], Op_null, Op_end, Op_end]"

lemma sample_prints: "\<forall>op \<in> set sample_ops. prints op"
  using digits_ok(1) by (simp add: sample_ops_def prints_def)

lemma sample_doc:
  "doc_run sample_ops [new_frame Root] =
     Some [\<lparr>f_kind = Root, f_items = [([], Jobj [(''id'', Jraw ''-7''), (''tags'', Jarr [Jstr [LF], Jraw ''null''])])], f_key = None\<rparr>]"
proof -
  have c: "char_of (55 :: nat) = CHR ''7''" by code_simp
  have "digits 7 = ''7''" by (simp add: digits_def digits_tmp.simps c)
  then show ?thesis by (simp add: sample_ops_def new_frame_def closed_def)
qed

theorem json_mem_writes_the_document_witness:
  "\<exists>j. json_run sample_ops (ioxd_json_mem (Some (replicate 64 NUL))) = Some j \<and>
     (j_failed j \<or> (\<exists>buf n. j_to j = To_mem (Some buf) n \<and> length buf = 64 \<and>
        take n buf = ''{'' @ [DQUOTE] @ ''id'' @ [DQUOTE] @ '':-7,'' @ [DQUOTE] @ ''tags'' @ [DQUOTE] @ '':['' @
          [DQUOTE, BSLASH, CHR ''n'', DQUOTE] @ '',null]}''))"
proof -
  have t: "doc_text [\<lparr>f_kind = Root, f_items = [([], Jobj [(''id'', Jraw ''-7''), (''tags'', Jarr [Jstr [LF], Jraw ''null''])])], f_key = None\<rparr>]
      = ''{'' @ [DQUOTE] @ ''id'' @ [DQUOTE] @ '':-7,'' @ [DQUOTE] @ ''tags'' @ [DQUOTE] @ '':['' @ [DQUOTE, BSLASH, CHR ''n'', DQUOTE] @ '',null]}''"
    by (simp add: frame_text_def quoted_def needs_escape_def escape_def)
  obtain j where "json_run sample_ops (ioxd_json_mem (Some (replicate 64 NUL))) = Some j"
    "j_failed j \<or> (\<exists>d buf' n. doc_run sample_ops [new_frame Root] = Some d \<and> j_to j = To_mem (Some buf') n \<and>
       length buf' = 64 \<and> take n buf' = doc_text d)"
    using json_mem_writes_the_document[OF sample_prints, of "replicate 64 NUL"] unfolding length_replicate by blast
  then show ?thesis unfolding sample_doc t[symmetric] by auto
qed



lemma sample_int: "\<exists>j. ioxd_json_int (ioxd_json_mem (Some (replicate 8 NUL))) 42 = Some (True, j)"
proof -
  have c: "char_of (52 :: nat) = CHR ''4''" "char_of (50 :: nat) = CHR ''2''" by code_simp+
  have "digits 42 = ''42''" by (simp add: digits_def digits_tmp.simps c)
  then show ?thesis
    by (simp add: ioxd_json_int_def ioxd_json_mem_def new_json_def value_lead_def level_def put_value_def want_def)
qed

theorem json_int_reads_back_witness:
  "\<exists>j buf n. ioxd_json_int (ioxd_json_mem (Some (replicate 8 NUL))) 42 = Some (True, j) \<and>
     j_to j = To_mem (Some buf) n \<and> ioxd_to_i64 (take n buf) = Some 42"
proof -
  obtain j where j: "ioxd_json_int (ioxd_json_mem (Some (replicate 8 NUL))) 42 = Some (True, j)" using sample_int by blast
  from json_int_reads_back[OF j] show ?thesis using j by blast
qed

end
