(* ===== verification/Router.thy ===== *)
theory Router
  imports Reply_Wire
begin

text \<open>
  The router, \<^verbatim>\<open>lib/http/router.c\<close>: groups, endpoints and middleware as they are registered, the
  segment tree and the flat chains they are resolved into once, and the dispatch of a request.

  Groups and endpoints are kept in lists, a pointer to one is its index, group 0 is the root; an
  endpoint's index is its \<open>seq\<close>.  Handlers and middleware are the program's: a handler is a function on
  the context, a middleware a tree of what it does - it returns, or calls \<open>ioxd_next_run\<close> and goes on
  with the context that call left.
\<close>

abbreviation IOXD_MAX_MW :: nat where "IOXD_MAX_MW \<equiv> 16"
abbreviation IOXD_MAX_ROUTE_PARAMS :: nat where "IOXD_MAX_ROUTE_PARAMS \<equiv> 8"
abbreviation IOXD_ROUTE_ARENA :: nat where "IOXD_ROUTE_ARENA \<equiv> 256"
abbreviation SEEN_MAX :: nat where "SEEN_MAX \<equiv> 8"
abbreviation ALLOW_MAX :: nat where "ALLOW_MAX \<equiv> 16"

datatype mw_run = Returned ctx | Next_run ctx "ctx \<Rightarrow> mw_run"

type_synonym mw = "ctx \<Rightarrow> mw_run"
type_synonym handler = "ctx \<Rightarrow> ctx option"

record group =
  g_parent :: "nat option"
  g_prefix :: bytes
  g_mws :: "mw list"

record endpoint =
  ep_group :: nat
  ep_method :: bytes
  ep_path :: bytes
  ep_fn :: handler
  ep_own :: "mw list"
  ep_full :: bytes
  ep_names :: "bytes list"
  ep_chain :: "mw list"

datatype node = Node (nd_seg: bytes) (nd_kids: "node list") (nd_param: "node option") (nd_eps: "nat list")

record router =
  r_groups :: "group list"
  r_current :: nat
  r_endpoints :: "endpoint list"
  r_tree :: node
  r_fallback :: handler
  r_built :: bool

definition empty_node :: node where
  "empty_node = Node [] [] None []"

definition not_found :: handler where
  "not_found cx = map_option snd (ioxd_text (upd_res (\<lambda>r. r\<lparr>rs_status := 404\<rparr>) cx) (Some (''404 Not Found'' @ [LF])))"

definition not_allowed :: handler where
  "not_allowed cx = map_option snd (ioxd_text cx (Some (''405 Method Not Allowed'' @ [LF])))"

text \<open>The statics of the file before anything is registered.\<close>

definition fresh_router :: router where
  "fresh_router =
     \<lparr>r_groups = [\<lparr>g_parent = None, g_prefix = [], g_mws = []\<rparr>], r_current = 0, r_endpoints = [], r_tree = empty_node,
      r_fallback = not_found, r_built = False\<rparr>"


section \<open>Registration\<close>

definition too_late :: "router \<Rightarrow> bool" where
  "too_late r = r_built r"

definition ioxd_group_new :: "router \<Rightarrow> nat option \<Rightarrow> bytes \<Rightarrow> nat \<times> router" where
  "ioxd_group_new r parent prefx =
     (length (r_groups r),
      r\<lparr>r_groups := r_groups r @ [\<lparr>g_parent = Some (case parent of Some g \<Rightarrow> g | None \<Rightarrow> 0), g_prefix = prefx, g_mws = []\<rparr>]\<rparr>)"

definition ioxd_group_use :: "router \<Rightarrow> nat option \<Rightarrow> mw \<Rightarrow> router" where
  "ioxd_group_use r g m =
     (let g = (case g of Some g \<Rightarrow> g | None \<Rightarrow> 0); grp = r_groups r ! g in
      if too_late r then r
      else if length (g_mws grp) = IOXD_MAX_MW then r
      else r\<lparr>r_groups := (r_groups r)[g := grp\<lparr>g_mws := g_mws grp @ [m]\<rparr>]\<rparr>)"

definition ioxd_use :: "router \<Rightarrow> mw \<Rightarrow> router" where
  "ioxd_use r m = (if too_late r then r else ioxd_group_use r (Some 0) m)"

definition ioxd_route :: "router \<Rightarrow> nat option \<Rightarrow> bytes \<Rightarrow> bytes \<Rightarrow> handler \<Rightarrow> nat option \<times> router" where
  "ioxd_route r g method path fn =
     (if too_late r then (None, r)
      else
        (Some (length (r_endpoints r)),
         r\<lparr>r_endpoints := r_endpoints r @
           [\<lparr>ep_group = (case g of Some g \<Rightarrow> g | None \<Rightarrow> 0), ep_method = method, ep_path = path, ep_fn = fn, ep_own = [],
             ep_full = [], ep_names = [], ep_chain = []\<rparr>]\<rparr>))"

definition ioxd_endpoint_use :: "router \<Rightarrow> nat option \<Rightarrow> mw \<Rightarrow> router" where
  "ioxd_endpoint_use r e m =
     (case e of
        None \<Rightarrow> r
      | Some e \<Rightarrow>
          let ep = r_endpoints r ! e in
          if too_late r then r
          else if length (ep_own ep) = IOXD_MAX_MW then r
          else r\<lparr>r_endpoints := (r_endpoints r)[e := ep\<lparr>ep_own := ep_own ep @ [m]\<rparr>]\<rparr>)"

text \<open>The script form; the middleware list is what stands before its null.\<close>

definition ioxd__router_group_begin :: "router \<Rightarrow> bytes \<Rightarrow> mw list \<Rightarrow> nat \<times> router" where
  "ioxd__router_group_begin r prefx mws =
     (let (g, r) = ioxd_group_new r (Some (r_current r)) prefx;
          r = foldl (\<lambda>r m. ioxd_group_use r (Some g) m) r (take IOXD_MAX_MW mws)
      in (g, r\<lparr>r_current := g\<rparr>))"

definition ioxd__router_group_end :: "router \<Rightarrow> router" where
  "ioxd__router_group_end r = (case g_parent (r_groups r ! r_current r) of Some p \<Rightarrow> r\<lparr>r_current := p\<rparr> | None \<Rightarrow> r)"

definition ioxd__router_group_pop :: "router \<Rightarrow> nat option \<Rightarrow> router" where
  "ioxd__router_group_pop r opened = (if opened \<noteq> None then ioxd__router_group_end r else r)"

definition ioxd__router_group_current :: "router \<Rightarrow> nat" where
  "ioxd__router_group_current r = r_current r"

definition ioxd__router_endpoint :: "router \<Rightarrow> bytes \<Rightarrow> bytes \<Rightarrow> handler \<Rightarrow> mw list \<Rightarrow> nat option \<times> router" where
  "ioxd__router_endpoint r method path fn mws =
     (let (e, r) = ioxd_route r (Some (r_current r)) method path fn
      in (e, foldl (\<lambda>r m. ioxd_endpoint_use r e m) r (take IOXD_MAX_MW mws)))"

definition ioxd_default :: "router \<Rightarrow> handler \<Rightarrow> router" where
  "ioxd_default r fn = (if too_late r then r else r\<lparr>r_fallback := fn\<rparr>)"


section \<open>Resolution\<close>

text \<open>The next segment and the path after it; \<open>None\<close> at the end.\<close>

definition next_segment :: "bytes \<Rightarrow> (bytes \<times> bytes) option" where
  "next_segment at =
     (let p = dropWhile (\<lambda>c. c = CHR ''/'') at in
      if p = [] then None
      else case memchr (CHR ''/'') p of Some i \<Rightarrow> Some (take i p, drop i p) | None \<Rightarrow> Some (p, []))"

lemma next_segment_shorter: "next_segment at = Some (seg, rest) \<Longrightarrow> length rest < length at"
proof -
  assume n: "next_segment at = Some (seg, rest)"
  define p where "p = dropWhile (\<lambda>c. c = CHR ''/'') at"
  have p: "p \<noteq> []" "hd p \<noteq> CHR ''/''" using n hd_dropWhile[of "\<lambda>c. c = CHR ''/''" at] by (auto simp: next_segment_def p_def Let_def split: if_splits)
  have "length p \<le> length at" by (simp add: p_def length_dropWhile_le)
  moreover have "length rest < length p"
    using n p by (cases p; cases "memchr (CHR ''/'') p") (auto simp: next_segment_def p_def[symmetric] split: if_splits)
  ultimately show ?thesis by simp
qed

text \<open>A part in front of what is there already, the NUL-ended text from \<open>buf + *at\<close> on.\<close>

definition prepend :: "bytes \<Rightarrow> bytes \<Rightarrow> bytes" where
  "prepend part buf =
     (if part \<noteq> [] \<and> buf \<noteq> [] \<and> last part \<noteq> CHR ''/'' \<and> hd buf \<noteq> CHR ''/'' then part @ CHR ''/'' # buf else part @ buf)"

text \<open>The loops up the parents of a group: the groups from the inner to the root.\<close>

partial_function (option) up :: "group list \<Rightarrow> nat option \<Rightarrow> group list option" where
  "up gs g =
     (case g of
        None \<Rightarrow> Some []
      | Some i \<Rightarrow> do { outer \<leftarrow> up gs (g_parent (gs ! i)); Some ((gs ! i) # outer) })"

definition full_path :: "group list \<Rightarrow> endpoint \<Rightarrow> bytes option" where
  "full_path gs ep = do {
     outer \<leftarrow> up gs (Some (ep_group ep));
     Some (foldl (\<lambda>buf g. prepend (g_prefix g) buf) (prepend (ep_path ep) []) outer) }"

text \<open>Filled from the end, like the path.\<close>

definition flatten_chain :: "group list \<Rightarrow> endpoint \<Rightarrow> endpoint option" where
  "flatten_chain gs ep = do {
     outer \<leftarrow> up gs (Some (ep_group ep));
     Some (ep\<lparr>ep_chain := foldl (\<lambda>chain g. g_mws g @ chain) (ep_own ep) outer\<rparr>) }"

fun kid_index :: "node list \<Rightarrow> bytes \<Rightarrow> nat option" where
  "kid_index [] seg = None"
| "kid_index (k # ks) seg = (if nd_seg k = seg then Some 0 else map_option Suc (kid_index ks seg))"

text \<open>
  The descent of \<open>insert\<close> with the tree put together again: the captures' names and the node.  A
  route with too many captures leaves the nodes it made.
\<close>

function insert_at :: "(nat \<Rightarrow> bytes) \<Rightarrow> nat \<Rightarrow> bytes \<Rightarrow> bytes list \<Rightarrow> node \<Rightarrow> bytes list \<times> node" where
  "insert_at methods e at names nd =
     (case next_segment at of
        None \<Rightarrow>
          (names,
           if \<exists>o' \<in> set (nd_eps nd). methods o' = methods e then nd
           else Node (nd_seg nd) (nd_kids nd) (nd_param nd) (nd_eps nd @ [e]))
      | Some (seg, at) \<Rightarrow>
          if hd seg = CHR '':'' then
            if length names = IOXD_MAX_ROUTE_PARAMS then (names, nd)
            else
              let (names, sub) = insert_at methods e at (names @ [tl seg]) (case nd_param nd of Some p \<Rightarrow> p | None \<Rightarrow> empty_node)
              in (names, Node (nd_seg nd) (nd_kids nd) (Some sub) (nd_eps nd))
          else
            case kid_index (nd_kids nd) seg of
              Some i \<Rightarrow>
                let (names, sub) = insert_at methods e at names (nd_kids nd ! i)
                in (names, Node (nd_seg nd) ((nd_kids nd)[i := sub]) (nd_param nd) (nd_eps nd))
            | None \<Rightarrow>
                let (names, sub) = insert_at methods e at names (Node seg [] None [])
                in (names, Node (nd_seg nd) (nd_kids nd @ [sub]) (nd_param nd) (nd_eps nd)))"
  by pat_completeness auto
termination by (relation "measure (\<lambda>(m, e, at, names, nd). length at)") (auto dest: next_segment_shorter)

declare insert_at.simps [simp del]

definition insert_ep :: "router \<Rightarrow> nat \<Rightarrow> router" where
  "insert_ep r e =
     (let ep = r_endpoints r ! e;
          (names, tree) = insert_at (\<lambda>i. ep_method (r_endpoints r ! i)) e (ep_full ep) (ep_names ep) (r_tree r)
      in r\<lparr>r_endpoints := (r_endpoints r)[e := ep\<lparr>ep_names := names\<rparr>], r_tree := tree\<rparr>)"

definition build_one :: "router \<Rightarrow> nat \<Rightarrow> router option" where
  "build_one r e = do {
     full \<leftarrow> full_path (r_groups r) (r_endpoints r ! e);
     (let r = r\<lparr>r_endpoints := (r_endpoints r)[e := (r_endpoints r ! e)\<lparr>ep_full := full\<rparr>]\<rparr>;
          r = insert_ep r e in do {
     ep \<leftarrow> flatten_chain (r_groups r) (r_endpoints r ! e);
     Some (r\<lparr>r_endpoints := (r_endpoints r)[e := ep]\<rparr>) }) }"

fun build_all :: "router \<Rightarrow> nat list \<Rightarrow> router option" where
  "build_all r [] = Some r"
| "build_all r (e # es) = do { r \<leftarrow> build_one r e; build_all r es }"

text \<open>How deep the open group is, which is only reported.\<close>

definition group_depth :: "router \<Rightarrow> nat option" where
  "group_depth r = map_option (\<lambda>gs. length gs - 1) (up (r_groups r) (Some (r_current r)))"

definition ioxd__router_build :: "router \<Rightarrow> router option" where
  "ioxd__router_build r =
     (if r_built r then Some r
      else do { _ \<leftarrow> group_depth r; build_all (r\<lparr>r_built := True\<rparr>) [0..<length (r_endpoints r)] })"


section \<open>A request\<close>

fun endpoint_for_loop :: "(nat \<Rightarrow> bytes) \<Rightarrow> bytes \<Rightarrow> nat list \<Rightarrow> nat option \<Rightarrow> nat option" where
  "endpoint_for_loop methods method [] get = (if method = ''HEAD'' then get else None)"
| "endpoint_for_loop methods method (e # es) get =
     (if methods e = method then Some e
      else endpoint_for_loop methods method es (if methods e = ''GET'' then Some e else get))"

definition endpoint_for :: "(nat \<Rightarrow> bytes) \<Rightarrow> node \<Rightarrow> bytes \<Rightarrow> nat option" where
  "endpoint_for methods nd method = endpoint_for_loop methods method (nd_eps nd) None"

text \<open>The endpoint, the captured values and the nodes at the end of the path that were seen.\<close>

function walk :: "(nat \<Rightarrow> bytes) \<Rightarrow> bytes \<Rightarrow> node \<Rightarrow> bytes \<Rightarrow> bytes list \<Rightarrow> node list \<Rightarrow> nat option \<times> bytes list \<times> node list" where
  "walk methods method nd at caps seen =
     (case next_segment at of
        None \<Rightarrow>
          (endpoint_for methods nd method, caps, if nd_eps nd \<noteq> [] \<and> length seen < SEEN_MAX then seen @ [nd] else seen)
      | Some (seg, at) \<Rightarrow>
          let (ep, caps, seen) =
            (case kid_index (nd_kids nd) seg of
               Some i \<Rightarrow> walk methods method (nd_kids nd ! i) at caps seen
             | None \<Rightarrow> (None, caps, seen))
          in if ep \<noteq> None then (ep, caps, seen)
          else case nd_param nd of
            None \<Rightarrow> (None, caps, seen)
          | Some p \<Rightarrow>
              if length caps < IOXD_MAX_ROUTE_PARAMS then
                let mark = length caps;
                    (ep, caps, seen) = walk methods method p at (caps @ [seg]) seen
                in if ep \<noteq> None then (ep, caps, seen) else (None, take mark caps, seen)
              else (None, caps, seen))"
  by pat_completeness auto
termination by (relation "measure (\<lambda>(m, meth, nd, at, caps, seen). length at)") (auto dest: next_segment_shorter)

declare walk.simps [simp del]

fun pct_decoded :: "bytes \<Rightarrow> bytes" where
  "pct_decoded [] = []"
| "pct_decoded (c # cs) =
     (if c = CHR ''%'' \<and> length cs \<ge> 2 then
        let hi = ioxd__http_hexval (cs ! 0); lo = ioxd__http_hexval (cs ! 1) in
        if hi \<ge> 0 \<and> lo \<ge> 0 then char_of (nat (hi * 16 + lo)) # pct_decoded (drop 2 cs) else c # pct_decoded cs
      else c # pct_decoded cs)"

definition decoded_value :: "bytes \<Rightarrow> nat \<Rightarrow> nat \<Rightarrow> bytes \<times> nat" where
  "decoded_value raw cap used =
     (if memchr (CHR ''%'') raw = None \<or> used + length raw > cap then (raw, used)
      else let d = pct_decoded raw in (d, used + length d))"

definition listed :: "(nat \<Rightarrow> bytes) \<Rightarrow> nat list \<Rightarrow> nat \<Rightarrow> bool" where
  "listed methods out ep = (\<exists>o' \<in> set out. methods o' = methods ep)"

fun allowed_of_node :: "(nat \<Rightarrow> bytes) \<Rightarrow> nat list \<Rightarrow> nat list \<Rightarrow> nat list" where
  "allowed_of_node methods [] out = out"
| "allowed_of_node methods (ep # eps) out =
     (if length out < ALLOW_MAX then
        if listed methods out ep then allowed_of_node methods eps out
        else
          let at = length (takeWhile (\<lambda>o'. o' < ep) out)
          in allowed_of_node methods eps (take at out @ ep # drop at out)
      else out)"

definition allowed_endpoints :: "(nat \<Rightarrow> bytes) \<Rightarrow> node list \<Rightarrow> nat list" where
  "allowed_endpoints methods seen = foldl (\<lambda>out nd. allowed_of_node methods (nd_eps nd) out) [] seen"

fun allow_text :: "(nat \<Rightarrow> bytes) \<Rightarrow> bool \<Rightarrow> bool \<Rightarrow> nat list \<Rightarrow> bytes" where
  "allow_text methods add_head first [] = []"
| "allow_text methods add_head first (e # es) =
     (if first then [] else '', '') @ methods e @ (if add_head \<and> methods e = ''GET'' then '', HEAD'' else []) @
     allow_text methods add_head False es"

definition allow_value :: "(nat \<Rightarrow> bytes) \<Rightarrow> node list \<Rightarrow> bytes option" where
  "allow_value methods seen =
     (let eps = allowed_endpoints methods seen;
          n = length eps;
          get = (\<exists>e \<in> set eps. methods e = ''GET'');
          head = (\<exists>e \<in> set eps. methods e = ''HEAD'');
          len = (if n \<noteq> 0 then (n - 1) * 2 + 1 else 0) + sum_list (map (\<lambda>e. length (methods e)) eps);
          add_head = (get \<and> \<not> head)
      in if n = 0 \<or> len + (if add_head then 6 else 0) > IOXD_ROUTE_ARENA then None
      else Some (allow_text methods add_head True eps))"

text \<open>
  The chain cursor.  \<open>next_run\<close> runs what a middleware does, the suspended callers on a stack: a call of
  \<open>ioxd_next_run\<close> moves the cursor and enters the next middleware or the handler, or does nothing once
  both are spent.
\<close>

partial_function (option) run_loop :: "mw list \<Rightarrow> handler \<Rightarrow> nat \<Rightarrow> (ctx \<Rightarrow> mw_run) list \<Rightarrow> mw_run \<Rightarrow> (nat \<times> ctx) option" where
  "run_loop mws fn i callers st =
     (case st of
        Returned cx \<Rightarrow>
          (case callers of
             [] \<Rightarrow> Some (i, cx)
           | k # ks \<Rightarrow> run_loop mws fn i ks (k cx))
      | Next_run cx k \<Rightarrow>
          if i > length mws then run_loop mws fn i callers (k cx)
          else if i < length mws then run_loop mws fn (i + 1) (k # callers) ((mws ! i) cx)
          else do { cx \<leftarrow> fn cx; run_loop mws fn (i + 1) callers (k cx) })"

definition ioxd_next_run :: "mw list \<Rightarrow> handler \<Rightarrow> nat \<Rightarrow> ctx \<Rightarrow> (nat \<times> ctx) option" where
  "ioxd_next_run mws fn i cx = run_loop mws fn i [] (Next_run cx Returned)"

definition run_chain :: "mw list \<Rightarrow> handler \<Rightarrow> handler" where
  "run_chain mws fn cx = (if mws = [] then fn cx else map_option snd (ioxd_next_run mws fn 0 cx))"

definition set_route_params :: "(bytes \<times> bytes) list \<Rightarrow> ctx \<Rightarrow> ctx" where
  "set_route_params ps cx = cx\<lparr>cx_req := (cx_req cx)\<lparr>rq_route_params := ps\<rparr>\<rparr>"

fun bind_params :: "bytes list \<Rightarrow> bytes list \<Rightarrow> nat \<Rightarrow> (bytes \<times> bytes) list" where
  "bind_params names [] used = []"
| "bind_params names (v # vs) used =
     (let (d, used) = decoded_value v IOXD_ROUTE_ARENA used in (hd names, d) # bind_params (tl names) vs used)"

definition ioxd__router_dispatch :: "router \<Rightarrow> handler" where
  "ioxd__router_dispatch r cx =
     (let methods = (\<lambda>i. ep_method (r_endpoints r ! i));
          (ep, caps, seen) = walk methods (rq_method (cx_req cx)) (r_tree r) (rq_path (cx_req cx)) [] [];
          root = r_groups r ! 0
      in case ep of
        Some e \<Rightarrow>
          let ep = r_endpoints r ! e
          in run_chain (ep_chain ep) (ep_fn ep) (set_route_params (bind_params (ep_names ep) caps 0) cx)
      | None \<Rightarrow>
          let cx = set_route_params [] cx in
          if seen \<noteq> [] then
            let cx = upd_res (\<lambda>res. res\<lparr>rs_status := 405\<rparr>) cx;
                cx = (case allow_value methods seen of
                        Some v \<Rightarrow> upd_res (\<lambda>res. snd (ioxd_header res (Some ''allow'') (Some v))) cx
                      | None \<Rightarrow> cx)
            in run_chain (g_mws root) not_allowed cx
          else run_chain (g_mws root) (r_fallback r) cx)"

end
