(* ===== verification/Router_Tree.thy ===== *)
theory Router_Tree
  imports Router
begin

text \<open>
  The router's tree against the routes it was built from.  A path is its segments, a route a pattern of
  literal segments and captures; the tree is a map from patterns to the endpoints registered there, and
  the walk is a search through the ways a path can be read, literals first.
\<close>

abbreviation SLASH :: byte where "SLASH \<equiv> CHR ''/''"

section \<open>Segments\<close>

lemma memchr_cut: "(case memchr c p of Some i \<Rightarrow> Some (take i p, drop i p) | None \<Rightarrow> Some (p, [])) = Some (takeWhile (\<lambda>x. x \<noteq> c) p, dropWhile (\<lambda>x. x \<noteq> c) p)"
proof (induction p)
  case (Cons x p)
  then show ?case by (cases "memchr c p") auto
qed simp

lemma next_segment_alt:
  "next_segment at = (let p = dropWhile (\<lambda>c. c = SLASH) at in if p = [] then None else Some (takeWhile (\<lambda>c. c \<noteq> SLASH) p, dropWhile (\<lambda>c. c \<noteq> SLASH) p))"
  unfolding next_segment_def memchr_cut ..

function segments :: "bytes \<Rightarrow> bytes list" where
  "segments at = (case next_segment at of None \<Rightarrow> [] | Some (seg, at) \<Rightarrow> seg # segments at)"
  by pat_completeness auto
termination by (relation "measure length") (auto dest: next_segment_shorter)

declare segments.simps [simp del]

lemma segments_simps [simp]:
  "segments [] = []"
  "segments (SLASH # at) = segments at"
  "c \<noteq> SLASH \<Longrightarrow> segments (c # at) = (c # takeWhile (\<lambda>c. c \<noteq> SLASH) at) # segments (dropWhile (\<lambda>c. c \<noteq> SLASH) at)"
  by (subst segments.simps, simp add: next_segment_alt)+

lemma segments_slash: "segments (a @ SLASH # b) = segments a @ segments b"
proof (induction a rule: length_induct)
  case (1 a)
  show ?case
  proof (cases a)
    case (Cons c a')
    show ?thesis
    proof (cases "c = SLASH")
      case True
      then show ?thesis using 1 Cons by simp
    next
      case False
      have l: "length (dropWhile (\<lambda>c. c \<noteq> SLASH) a') < length a" using length_dropWhile_le[of _ a'] Cons by (simp add: le_imp_less_Suc)
      have "segments (dropWhile (\<lambda>c. c \<noteq> SLASH) a' @ SLASH # b) = segments (dropWhile (\<lambda>c. c \<noteq> SLASH) a') @ segments b"
        using 1 l by blast
      moreover have "dropWhile (\<lambda>c. c \<noteq> SLASH) (a' @ SLASH # b) = dropWhile (\<lambda>c. c \<noteq> SLASH) a' @ SLASH # b"
        "takeWhile (\<lambda>c. c \<noteq> SLASH) (a' @ SLASH # b) = takeWhile (\<lambda>c. c \<noteq> SLASH) a'"
        by (induction a') auto
      ultimately show ?thesis using False Cons by simp
    qed
  qed simp
qed

lemma segments_snoc_slash [simp]: "segments (a @ [SLASH]) = segments a"
  using segments_slash[of a "[]"] by simp

text \<open>The join of \<open>prepend\<close> neither merges two segments nor makes an empty one.\<close>

lemma segments_prepend: "segments (prepend part buf) = segments part @ segments buf"
proof -
  consider (join) "part \<noteq> [] \<and> buf \<noteq> [] \<and> last part \<noteq> SLASH \<and> hd buf \<noteq> SLASH" | (part) "part = []" | (buf) "buf = []"
    | (last) "part \<noteq> []" "last part = SLASH" | (hd) "buf \<noteq> []" "hd buf = SLASH" by blast
  then show ?thesis
  proof cases
    case join
    then show ?thesis by (simp add: prepend_def segments_slash)
  next
    case last
    then obtain a where "part = a @ [SLASH]" by (metis append_butlast_last_id)
    then show ?thesis by (simp add: prepend_def segments_slash)
  next
    case hd
    then obtain b where "buf = SLASH # b" by (cases buf) auto
    then show ?thesis by (simp add: prepend_def segments_slash)
  qed (simp_all add: prepend_def)
qed

lemma next_segment_nonempty:
  assumes "next_segment at = Some (seg, rest)"
  shows "seg \<noteq> []"
proof -
  let ?p = "dropWhile (\<lambda>c. c = SLASH) at"
  have "?p \<noteq> []" and s: "seg = takeWhile (\<lambda>c. c \<noteq> SLASH) ?p" using assms by (auto simp: next_segment_alt Let_def split: if_splits)
  then obtain c q where "?p = c # q" "c \<noteq> SLASH" using hd_dropWhile[of "\<lambda>c. c = SLASH" at] by (cases ?p) auto
  then show ?thesis using s by simp
qed


section \<open>Patterns\<close>

text \<open>A literal segment, or a capture.\<close>

type_synonym pattern = "bytes option list"

abbreviation is_capture :: "bytes \<Rightarrow> bool" where
  "is_capture seg \<equiv> hd seg = CHR '':''"

definition pattern_of :: "bytes list \<Rightarrow> pattern" where
  "pattern_of segs = map (\<lambda>s. if is_capture s then None else Some s) segs"

definition cap_names :: "bytes list \<Rightarrow> bytes list" where
  "cap_names segs = map tl (filter is_capture segs)"

lemma pattern_of_simps [simp]:
  "pattern_of [] = []" "pattern_of (s # ss) = (if is_capture s then None else Some s) # pattern_of ss"
  "cap_names [] = []" "cap_names (s # ss) = (if is_capture s then [tl s] else []) @ cap_names ss"
  by (simp_all add: pattern_of_def cap_names_def)

definition n_caps :: "pattern \<Rightarrow> nat" where
  "n_caps pat = length (filter (\<lambda>s. s = None) pat)"

lemma n_caps_simps [simp]: "n_caps [] = 0" "n_caps (None # pat) = Suc (n_caps pat)" "n_caps (Some s # pat) = n_caps pat"
  by (simp_all add: n_caps_def)

lemma n_caps_pattern: "n_caps (pattern_of segs) = length (cap_names segs)"
  by (induction segs) auto

text \<open>The ways to read a path as a pattern, a literal before a capture, and the values captured.\<close>

fun readings :: "bytes list \<Rightarrow> pattern list" where
  "readings [] = [[]]"
| "readings (s # ss) = map (Cons (Some s)) (readings ss) @ map (Cons None) (readings ss)"

fun captured :: "pattern \<Rightarrow> bytes list \<Rightarrow> bytes list" where
  "captured (None # pat) (s # ss) = s # captured pat ss"
| "captured (Some l # pat) (s # ss) = captured pat ss"
| "captured _ _ = []"

lemma captured_length: "pat \<in> set (readings segs) \<Longrightarrow> length (captured pat segs) = n_caps pat"
  by (induction segs arbitrary: pat) auto


section \<open>The tree as a map\<close>

fun eps_at :: "node \<Rightarrow> pattern \<Rightarrow> nat list" where
  "eps_at nd [] = nd_eps nd"
| "eps_at nd (Some s # pat) = (case kid_index (nd_kids nd) s of Some i \<Rightarrow> eps_at (nd_kids nd ! i) pat | None \<Rightarrow> [])"
| "eps_at nd (None # pat) = (case nd_param nd of Some p \<Rightarrow> eps_at p pat | None \<Rightarrow> [])"

lemma eps_at_new [simp]: "eps_at (Node s [] None []) pat = []"
  by (cases "(Node s [] None [], pat)" rule: eps_at.cases) simp_all

lemma kid_index_Some:
  assumes "kid_index ks s = Some i"
  shows "i < length ks" "nd_seg (ks ! i) = s"
proof -
  have "i < length ks \<and> nd_seg (ks ! i) = s"
    using assms by (induction ks arbitrary: i) (auto split: if_splits simp: nth_Cons')
  then show "i < length ks" "nd_seg (ks ! i) = s" by auto
qed

lemma kid_index_update [simp]: "nd_seg sub = nd_seg (ks ! i) \<Longrightarrow> kid_index (ks[i := sub]) s = kid_index ks s"
  by (induction ks arbitrary: i) (auto split: nat.splits)

lemma kid_index_snoc: "kid_index (ks @ [k]) s = (case kid_index ks s of Some i \<Rightarrow> Some i | None \<Rightarrow> if nd_seg k = s then Some (length ks) else None)"
  by (induction ks) (auto split: option.splits)

text \<open>What \<open>insert\<close> adds at a pattern: nothing when the route has too many captures or its method is there already.\<close>

definition eps_add :: "(nat \<Rightarrow> bytes) \<Rightarrow> nat \<Rightarrow> nat list \<Rightarrow> nat list" where
  "eps_add methods e eps = (if \<exists>o' \<in> set eps. methods o' = methods e then eps else eps @ [e])"

lemma insert_at_ok:
  assumes "insert_at methods e at names nd = (names', nd')" and "length names \<le> IOXD_MAX_ROUTE_PARAMS"
  shows "nd_seg nd' = nd_seg nd \<and>
    (length names + length (cap_names (segments at)) \<le> IOXD_MAX_ROUTE_PARAMS \<longrightarrow> names' = names @ cap_names (segments at)) \<and>
    (\<forall>pat. eps_at nd' pat =
      (if pat = pattern_of (segments at) \<and> length names + length (cap_names (segments at)) \<le> IOXD_MAX_ROUTE_PARAMS
       then eps_add methods e (eps_at nd pat) else eps_at nd pat))"
  using assms
proof (induction methods e at names nd arbitrary: names' nd' rule: insert_at.induct)
  case (1 methods e at names nd)
  show ?case
  proof (cases "next_segment at")
    case None
    then have s: "segments at = []" by (simp add: segments.simps)
    have "names' = names" "nd' = Node (nd_seg nd) (nd_kids nd) (nd_param nd) (eps_add methods e (nd_eps nd))"
      using 1(4) None by (auto simp: insert_at.simps[of _ _ at] eps_add_def split: if_splits)
    moreover have "eps_at (Node (nd_seg nd) (nd_kids nd) (nd_param nd) eps) pat = (if pat = [] then eps else eps_at nd pat)" for eps pat
      by (cases "(nd, pat)" rule: eps_at.cases) (simp_all split: option.split)
    ultimately show ?thesis using s 1(5) by simp
  next
    case (Some r)
    obtain seg at' where r: "r = (seg, at')" by fastforce
    then have n: "next_segment at = Some (seg, at')" and s: "segments at = seg # segments at'" using Some by (simp_all add: segments.simps[of at])
    let ?cap = "IOXD_MAX_ROUTE_PARAMS"
    show ?thesis
    proof (cases "is_capture seg")
      case True
      show ?thesis
      proof (cases "length names = ?cap")
        case full: True
        then have "names' = names" "nd' = nd" using 1(4) n True by (simp_all add: insert_at.simps[of _ _ at])
        then show ?thesis using full s True by simp
      next
        case False
        let ?p = "case nd_param nd of Some p \<Rightarrow> p | None \<Rightarrow> empty_node"
        obtain ns sub where i: "insert_at methods e at' (names @ [tl seg]) ?p = (ns, sub)" by fastforce
        have nd': "names' = ns" "nd' = Node (nd_seg nd) (nd_kids nd) (Some sub) (nd_eps nd)"
          using 1(4) n True False i by (simp_all add: insert_at.simps[of _ _ at])
        have l: "length (names @ [tl seg]) \<le> ?cap" using 1(5) False by simp
        have pe: "eps_at ?p pat = eps_at nd (None # pat)" for pat by (cases "nd_param nd") (simp_all add: empty_node_def)
        note IH = 1(1)[OF n refl True False i l]
        have "eps_at nd' pat = (if pat = pattern_of (segments at) \<and> length names + length (cap_names (segments at)) \<le> ?cap
            then eps_add methods e (eps_at nd pat) else eps_at nd pat)" for pat
          using IH unfolding pe nd' by (cases "(nd, pat)" rule: eps_at.cases) (simp_all add: s True split: option.split)
        then show ?thesis using IH nd' by (simp add: s True)
      qed
    next
      case False
      show ?thesis
      proof (cases "kid_index (nd_kids nd) seg")
        case None
        obtain ns sub where i: "insert_at methods e at' names (Node seg [] None []) = (ns, sub)" by fastforce
        have nd': "names' = ns" "nd' = Node (nd_seg nd) (nd_kids nd @ [sub]) (nd_param nd) (nd_eps nd)"
          using 1(4) n False None i by (simp_all add: insert_at.simps[of _ _ at])
        note IH = 1(2)[OF n refl False None i 1(5)]
        have "eps_at nd' pat = (if pat = pattern_of (segments at) \<and> length names + length (cap_names (segments at)) \<le> ?cap
            then eps_add methods e (eps_at nd pat) else eps_at nd pat)" for pat
          using IH unfolding nd' by (cases "(nd, pat)" rule: eps_at.cases)
            (auto simp: s False None kid_index_snoc nth_append dest: kid_index_Some split: option.splits)
        then show ?thesis using IH nd' by (simp add: s False)
      next
        case (Some k)
        obtain ns sub where i: "insert_at methods e at' names (nd_kids nd ! k) = (ns, sub)" by fastforce
        have nd': "names' = ns" "nd' = Node (nd_seg nd) ((nd_kids nd)[k := sub]) (nd_param nd) (nd_eps nd)"
          using 1(4) n False Some i by (simp_all add: insert_at.simps[of _ _ at])
        note IH = 1(3)[OF n refl False Some i 1(5)] and K = kid_index_Some[OF Some]
        have "eps_at nd' pat = (if pat = pattern_of (segments at) \<and> length names + length (cap_names (segments at)) \<le> ?cap
            then eps_add methods e (eps_at nd pat) else eps_at nd pat)" for pat
          using IH K unfolding nd' by (cases "(nd, pat)" rule: eps_at.cases)
            (auto simp: s False Some nth_list_update dest: kid_index_Some split: option.splits)
        then show ?thesis using IH nd' by (simp add: s False)
      qed
    qed
  qed
qed


section \<open>The walk as a search\<close>

definition pick :: "(nat \<Rightarrow> bytes) \<Rightarrow> bytes \<Rightarrow> nat list \<Rightarrow> nat option" where
  "pick methods method eps = endpoint_for_loop methods method eps None"

text \<open>The first reading of a path that leads to an endpoint, with \<open>k\<close> values captured before, and all there is at its readings.\<close>

definition found :: "(nat \<Rightarrow> bytes) \<Rightarrow> bytes \<Rightarrow> node \<Rightarrow> nat \<Rightarrow> bytes list \<Rightarrow> pattern option" where
  "found methods method nd k segs =
     find (\<lambda>pat. k + n_caps pat \<le> IOXD_MAX_ROUTE_PARAMS \<and> pick methods method (eps_at nd pat) \<noteq> None) (readings segs)"

definition visible :: "node \<Rightarrow> nat \<Rightarrow> bytes list \<Rightarrow> nat list list" where
  "visible nd k segs =
     filter (\<lambda>eps. eps \<noteq> []) (map (eps_at nd) (filter (\<lambda>pat. k + n_caps pat \<le> IOXD_MAX_ROUTE_PARAMS) (readings segs)))"

lemma find_append: "find P (xs @ ys) = (case find P xs of Some x \<Rightarrow> Some x | None \<Rightarrow> find P ys)"
  by (induction xs) auto

lemma find_map: "find P (map f xs) = map_option f (find (\<lambda>x. P (f x)) xs)"
  by (induction xs) auto

lemma find_never: "(\<And>x. \<not> P x) \<Longrightarrow> find P xs = None"
  by (simp add: find_None_iff)

lemma pick_Nil [simp]: "pick methods method [] = None"
  by (simp add: pick_def)

lemma found_Cons:
  "found methods method nd k (s # ss) =
     (case (case kid_index (nd_kids nd) s of Some i \<Rightarrow> found methods method (nd_kids nd ! i) k ss | None \<Rightarrow> None) of
        Some pat \<Rightarrow> Some (Some s # pat)
      | None \<Rightarrow>
          (case nd_param nd of
             Some p \<Rightarrow> if k < IOXD_MAX_ROUTE_PARAMS then map_option (Cons None) (found methods method p (Suc k) ss) else None
           | None \<Rightarrow> None))"
proof -
  let ?ok = "\<lambda>nd k pat. k + n_caps pat \<le> IOXD_MAX_ROUTE_PARAMS \<and> pick methods method (eps_at nd pat) \<noteq> None"
  have lit: "find (\<lambda>pat. ?ok nd k (Some s # pat)) (readings ss) =
      (case kid_index (nd_kids nd) s of Some i \<Rightarrow> found methods method (nd_kids nd ! i) k ss | None \<Rightarrow> None)"
    by (cases "kid_index (nd_kids nd) s") (simp_all add: found_def find_never del: not_None_eq)
  have cap: "find (\<lambda>pat. ?ok nd k (None # pat)) (readings ss) =
      (case nd_param nd of Some p \<Rightarrow> if k < IOXD_MAX_ROUTE_PARAMS then found methods method p (Suc k) ss else None | None \<Rightarrow> None)"
    by (cases "nd_param nd"; cases "k < IOXD_MAX_ROUTE_PARAMS") (simp_all add: found_def find_never del: not_None_eq)
  show ?thesis unfolding found_def[of _ _ nd] readings.simps find_append find_map lit cap by (simp split: option.split)
qed

lemma visible_Cons:
  "visible nd k (s # ss) =
     (case kid_index (nd_kids nd) s of Some i \<Rightarrow> visible (nd_kids nd ! i) k ss | None \<Rightarrow> []) @
     (case nd_param nd of Some p \<Rightarrow> if k < IOXD_MAX_ROUTE_PARAMS then visible p (Suc k) ss else [] | None \<Rightarrow> [])"
proof -
  have lit: "filter (\<lambda>eps. eps \<noteq> []) (map (eps_at nd) (filter (\<lambda>pat. k + n_caps pat \<le> IOXD_MAX_ROUTE_PARAMS) (map (Cons (Some s)) ps))) =
      (case kid_index (nd_kids nd) s of None \<Rightarrow> []
       | Some i \<Rightarrow> filter (\<lambda>eps. eps \<noteq> []) (map (eps_at (nd_kids nd ! i)) (filter (\<lambda>pat. k + n_caps pat \<le> IOXD_MAX_ROUTE_PARAMS) ps)))" for ps
    by (induction ps) (auto split: option.split)
  have cap: "filter (\<lambda>eps. eps \<noteq> []) (map (eps_at nd) (filter (\<lambda>pat. k + n_caps pat \<le> IOXD_MAX_ROUTE_PARAMS) (map (Cons None) ps))) =
      (case nd_param nd of None \<Rightarrow> []
       | Some p \<Rightarrow> if k < IOXD_MAX_ROUTE_PARAMS then
           filter (\<lambda>eps. eps \<noteq> []) (map (eps_at p) (filter (\<lambda>pat. Suc k + n_caps pat \<le> IOXD_MAX_ROUTE_PARAMS) ps)) else [])" for ps
    by (induction ps) (auto split: option.split)
  show ?thesis unfolding visible_def readings.simps filter_append map_append lit cap by (simp split: option.split)
qed

lemma take_take_append: "take n (take n xs @ ys) = take n (xs @ ys)"
  by (simp add: min_def)

definition walked :: "(nat \<Rightarrow> bytes) \<Rightarrow> bytes \<Rightarrow> node \<Rightarrow> bytes list \<Rightarrow> bytes list \<Rightarrow> node list \<Rightarrow> nat option \<times> bytes list \<times> node list \<Rightarrow> bool" where
  "walked methods method nd segs caps seen r \<longleftrightarrow>
     (case found methods method nd (length caps) segs of
        Some pat \<Rightarrow> fst r = pick methods method (eps_at nd pat) \<and> fst r \<noteq> None \<and> fst (snd r) = caps @ captured pat segs
      | None \<Rightarrow> fst r = None \<and> fst (snd r) = caps \<and>
          map nd_eps (snd (snd r)) = take SEEN_MAX (map nd_eps seen @ visible nd (length caps) segs))"

lemma walk_ok:
  assumes "length caps \<le> IOXD_MAX_ROUTE_PARAMS" and "length seen \<le> SEEN_MAX"
  shows "walked methods meth nd (segments at) caps seen (walk methods meth nd at caps seen)"
  using assms
proof (induction methods meth nd at caps seen rule: walk.induct)
  case (1 methods meth nd at caps seen)
  show ?case
  proof (cases "next_segment at")
    case None
    then have s: "segments at = []" by (simp add: segments.simps)
    then show ?thesis using None 1(3,4)
      by (auto simp: walked_def walk.simps[of _ _ _ at] found_def visible_def endpoint_for_def pick_def split: option.splits)
  next
    case (Some r)
    obtain seg at' where r: "r = (seg, at')" by fastforce
    then have n: "next_segment at = Some (seg, at')" and s: "segments at = seg # segments at'" using Some by (simp_all add: segments.simps[of at])
    let ?V1 = "case kid_index (nd_kids nd) seg of Some i \<Rightarrow> visible (nd_kids nd ! i) (length caps) (segments at') | None \<Rightarrow> []"
    let ?F1 = "case kid_index (nd_kids nd) seg of Some i \<Rightarrow> found methods meth (nd_kids nd ! i) (length caps) (segments at') | None \<Rightarrow> None"
    obtain ep1 caps1 seen1 where w1: "(case kid_index (nd_kids nd) seg of Some i \<Rightarrow> walk methods meth (nd_kids nd ! i) at' caps seen
        | None \<Rightarrow> (None, caps, seen)) = (ep1, caps1, seen1)" by (metis surj_pair)
    have F1: "case ?F1 of
        Some pat \<Rightarrow> ep1 = pick methods meth (eps_at nd (Some seg # pat)) \<and> ep1 \<noteq> None \<and> caps1 = caps @ captured pat (segments at')
      | None \<Rightarrow> ep1 = None \<and> caps1 = caps \<and> map nd_eps seen1 = take SEEN_MAX (map nd_eps seen @ ?V1)"
    proof (cases "kid_index (nd_kids nd) seg")
      case None
      then show ?thesis using w1 1(4) by auto
    next
      case (Some i)
      then have "walk methods meth (nd_kids nd ! i) at' caps seen = (ep1, caps1, seen1)" using w1 by simp
      then show ?thesis using 1(1)[OF n refl Some 1(3,4)] Some by (auto simp: walked_def split: option.splits)
    qed
    have W: "walk methods meth nd at caps seen =
        (if ep1 \<noteq> None then (ep1, caps1, seen1)
         else case nd_param nd of None \<Rightarrow> (None, caps1, seen1)
         | Some p \<Rightarrow>
             if length caps1 < IOXD_MAX_ROUTE_PARAMS then
               let mark = length caps1; (ep, caps, seen) = walk methods meth p at' (caps1 @ [seg]) seen1
               in if ep \<noteq> None then (ep, caps, seen) else (None, take mark caps, seen)
             else (None, caps1, seen1))"
      unfolding walk.simps[of _ _ _ at] n using w1 by simp
    show ?thesis
    proof (cases ?F1)
      case (Some pat)
      then have e: "ep1 = pick methods meth (eps_at nd (Some seg # pat))" "ep1 \<noteq> None" "caps1 = caps @ captured pat (segments at')"
        using F1 by auto
      show ?thesis unfolding W walked_def s found_Cons Some using e by simp
    next
      case None
      then have e: "ep1 = None" "caps1 = caps" "map nd_eps seen1 = take SEEN_MAX (map nd_eps seen @ ?V1)" using F1 by auto
      have l: "length seen1 \<le> SEEN_MAX" using arg_cong[OF e(3), of length] by simp
      show ?thesis
      proof (cases "nd_param nd")
        case N: None
        show ?thesis unfolding W walked_def s found_Cons None visible_Cons N using e by simp
      next
        case P: (Some p)
        show ?thesis
        proof (cases "length caps < IOXD_MAX_ROUTE_PARAMS")
          case False
          show ?thesis unfolding W walked_def s found_Cons None visible_Cons P using e False by simp
        next
          case True
          obtain ep2 caps2 seen2 where w2: "walk methods meth p at' (caps @ [seg]) seen1 = (ep2, caps2, seen2)" by (metis surj_pair)
          have ne: "\<not> ep1 \<noteq> None" and t: "length caps1 < IOXD_MAX_ROUTE_PARAMS" using e(1,2) True by simp_all
          have w: "walked methods meth p (segments at') (caps @ [seg]) seen1 (ep2, caps2, seen2)"
            using 1(2)[OF n refl w1[symmetric] refl refl ne P t refl _ l] t w2 unfolding e(2) by simp
          have W2: "walk methods meth nd at caps seen = (if ep2 \<noteq> None then (ep2, caps2, seen2) else (None, take (length caps) caps2, seen2))"
            unfolding W using e P True w2 by simp
          show ?thesis
          proof (cases "found methods meth p (Suc (length caps)) (segments at')")
            case F: (Some pat)
            then show ?thesis unfolding W2 walked_def s found_Cons None visible_Cons using w P True by (auto simp: walked_def)
          next
            case F: None
            then have w': "ep2 = None" "caps2 = caps @ [seg]"
              "map nd_eps seen2 = take SEEN_MAX (map nd_eps seen1 @ visible p (Suc (length caps)) (segments at'))" using w by (simp_all add: walked_def)
            have sn: "map nd_eps seen2 = take SEEN_MAX (map nd_eps seen @ ?V1 @ visible p (Suc (length caps)) (segments at'))"
              unfolding w'(3) e(3) by (simp only: take_take_append append_assoc)
            have f: "found methods meth nd (length caps) (segments at) = None" unfolding s found_Cons None P using F by simp
            have v: "visible nd (length caps) (segments at) = ?V1 @ visible p (Suc (length caps)) (segments at')"
              unfolding s visible_Cons P using True by simp
            show ?thesis unfolding W2 walked_def f v w'(1,2) by (simp only: option.case simp_thms if_False snd_conv fst_conv sn) simp
          qed
        qed
      qed
    qed
  qed
qed

end
