(* ===== verification/Router_Routes.thy ===== *)
theory Router_Routes
  imports Router_Tree "HOL-Library.Multiset"
begin

text \<open>
  What the router answers, from the routes as they were registered: the states registration reaches, the
  resolution of all of them, and the dispatch against a search of the registered routes.
\<close>

section \<open>Registration\<close>

text \<open>
  The routers a program can set up before it runs, with the groups and endpoints it was given as
  handles.
\<close>

inductive registered :: "router \<Rightarrow> bool" where
  reg_fresh: "registered fresh_router"
| reg_group: "registered r \<Longrightarrow> pred_option (\<lambda>g. g < length (r_groups r)) parent \<Longrightarrow> registered (snd (ioxd_group_new r parent prefx))"
| reg_group_use: "registered r \<Longrightarrow> pred_option (\<lambda>g. g < length (r_groups r)) g \<Longrightarrow> registered (ioxd_group_use r g m)"
| reg_use: "registered r \<Longrightarrow> registered (ioxd_use r m)"
| reg_route: "registered r \<Longrightarrow> pred_option (\<lambda>g. g < length (r_groups r)) g \<Longrightarrow> registered (snd (ioxd_route r g method path fn))"
| reg_endpoint_use: "registered r \<Longrightarrow> pred_option (\<lambda>e. e < length (r_endpoints r)) e \<Longrightarrow> registered (ioxd_endpoint_use r e m)"
| reg_begin: "registered r \<Longrightarrow> registered (snd (ioxd__router_group_begin r prefx mws))"
| reg_end: "registered r \<Longrightarrow> registered (ioxd__router_group_end r)"
| reg_endpoint: "registered r \<Longrightarrow> registered (snd (ioxd__router_endpoint r method path fn mws))"
| reg_default: "registered r \<Longrightarrow> registered (ioxd_default r fn)"

definition parents_ok :: "group list \<Rightarrow> bool" where
  "parents_ok gs \<longleftrightarrow> gs \<noteq> [] \<and> (\<forall>i < length gs. case g_parent (gs ! i) of None \<Rightarrow> i = 0 | Some p \<Rightarrow> p < i)"

definition router_ok :: "router \<Rightarrow> bool" where
  "router_ok r \<longleftrightarrow> parents_ok (r_groups r) \<and> r_current r < length (r_groups r) \<and> \<not> r_built r \<and> r_tree r = empty_node \<and>
     (\<forall>ep \<in> set (r_endpoints r). ep_group ep < length (r_groups r) \<and> ep_names ep = [] \<and> length (ep_own ep) \<le> IOXD_MAX_MW) \<and>
     (\<forall>g \<in> set (r_groups r). length (g_mws g) \<le> IOXD_MAX_MW)"

lemma parents_ok_update:
  assumes "parents_ok gs" and "g_parent g = g_parent (gs ! i)"
  shows "parents_ok (gs[i := g])"
proof -
  have "g_parent (gs[i := g] ! k) = g_parent (gs ! k)" for k using assms(2) by (cases "k = i"; cases "i < length gs") (simp_all add: list_update_beyond)
  then show ?thesis using assms(1) by (auto simp: parents_ok_def)
qed

lemma parents_ok_snoc:
  assumes "parents_ok gs" and "g_parent g = Some p" and "p < length gs"
  shows "parents_ok (gs @ [g])"
  using assms by (auto simp: parents_ok_def nth_append less_Suc_eq)

lemma group_new_ok: "router_ok r \<Longrightarrow> pred_option (\<lambda>g. g < length (r_groups r)) parent \<Longrightarrow> router_ok (snd (ioxd_group_new r parent prefx))"
  by (auto simp: router_ok_def ioxd_group_new_def intro!: parents_ok_snoc split: option.splits)

lemma group_use_ok:
  assumes "router_ok r" and "pred_option (\<lambda>g. g < length (r_groups r)) g"
  shows "router_ok (ioxd_group_use r g m)"
proof -
  define i where "i = (case g of Some g \<Rightarrow> g | None \<Rightarrow> 0)"
  have i: "i < length (r_groups r)" using assms by (cases g) (auto simp: i_def router_ok_def parents_ok_def)
  let ?g = "(r_groups r ! i)\<lparr>g_mws := g_mws (r_groups r ! i) @ [m]\<rparr>"
  have p: "parents_ok ((r_groups r)[i := ?g])" using assms(1) by (intro parents_ok_update) (simp_all add: router_ok_def)
  have "length (g_mws (r_groups r ! i)) \<le> IOXD_MAX_MW" using assms(1) i by (simp add: router_ok_def)
  then have "\<forall>g \<in> set ((r_groups r)[i := ?g]). length (g_mws g) \<le> IOXD_MAX_MW" if "length (g_mws (r_groups r ! i)) \<noteq> IOXD_MAX_MW"
    using assms(1) that set_update_subset_insert[of "r_groups r" i ?g] by (auto simp: router_ok_def)
  then show ?thesis using assms(1) p unfolding ioxd_group_use_def i_def[symmetric] Let_def by (simp add: router_ok_def)
qed

lemma route_ok: "router_ok r \<Longrightarrow> pred_option (\<lambda>g. g < length (r_groups r)) g \<Longrightarrow> router_ok (snd (ioxd_route r g method path fn))"
  by (cases g) (auto simp: router_ok_def ioxd_route_def parents_ok_def)

lemma endpoint_use_ok:
  assumes "router_ok r" and "pred_option (\<lambda>e. e < length (r_endpoints r)) e"
  shows "router_ok (ioxd_endpoint_use r e m)"
proof (cases e)
  case (Some i)
  let ?e = "(r_endpoints r ! i)\<lparr>ep_own := ep_own (r_endpoints r ! i) @ [m]\<rparr>"
  have i: "i < length (r_endpoints r)" using Some assms(2) by simp
  then have o: "ep_group (r_endpoints r ! i) < length (r_groups r) \<and> ep_names (r_endpoints r ! i) = [] \<and> length (ep_own (r_endpoints r ! i)) \<le> IOXD_MAX_MW"
    using assms(1) by (simp add: router_ok_def)
  have "\<forall>ep \<in> set ((r_endpoints r)[i := ?e]). ep_group ep < length (r_groups r) \<and> ep_names ep = [] \<and> length (ep_own ep) \<le> IOXD_MAX_MW"
    if "length (ep_own (r_endpoints r ! i)) \<noteq> IOXD_MAX_MW"
    using assms(1) o that set_update_subset_insert[of "r_endpoints r" i ?e] by (auto simp: router_ok_def)
  then show ?thesis using assms(1) Some unfolding ioxd_endpoint_use_def Let_def by (simp add: router_ok_def)
qed (use assms in \<open>simp add: ioxd_endpoint_use_def\<close>)

lemma group_uses_ok:
  "router_ok r \<Longrightarrow> g < length (r_groups r) \<Longrightarrow>
    (let r' = foldl (\<lambda>r m. ioxd_group_use r (Some g) m) r mws in router_ok r' \<and> length (r_groups r') = length (r_groups r))"
proof (induction mws arbitrary: r)
  case (Cons m mws)
  have "length (r_groups (ioxd_group_use r (Some g) m)) = length (r_groups r)" by (simp add: ioxd_group_use_def Let_def)
  then show ?case using Cons.IH[of "ioxd_group_use r (Some g) m"] Cons.prems group_use_ok[of r "Some g" m] by simp
qed simp

lemma endpoint_uses_ok: "router_ok r \<Longrightarrow> pred_option (\<lambda>e. e < length (r_endpoints r)) e \<Longrightarrow> router_ok (foldl (\<lambda>r m. ioxd_endpoint_use r e m) r mws)"
proof (induction mws arbitrary: r)
  case (Cons m mws)
  have "length (r_endpoints (ioxd_endpoint_use r e m)) = length (r_endpoints r)" by (simp add: ioxd_endpoint_use_def Let_def split: option.split)
  then show ?case using Cons.IH[of "ioxd_endpoint_use r e m"] Cons.prems endpoint_use_ok[of r e m] by simp
qed simp

lemma current_ok: "router_ok r \<Longrightarrow> g < length (r_groups r) \<Longrightarrow> router_ok (r\<lparr>r_current := g\<rparr>)"
  by (simp add: router_ok_def)

lemma default_ok: "router_ok r \<Longrightarrow> router_ok (ioxd_default r fn)"
  by (simp add: router_ok_def ioxd_default_def)

lemma registered_ok: "registered r \<Longrightarrow> router_ok r"
proof (induction rule: registered.induct)
  case reg_fresh
  show ?case by (simp add: router_ok_def fresh_router_def parents_ok_def)
next
  case (reg_use r m)
  then show ?case using group_use_ok[of r "Some 0" m] by (simp add: ioxd_use_def router_ok_def parents_ok_def)
next
  case (reg_begin r prefx mws)
  have c: "r_current r < length (r_groups r)" using reg_begin by (simp add: router_ok_def)
  define r1 g where "r1 = snd (ioxd_group_new r (Some (r_current r)) prefx)" and "g = length (r_groups r)"
  define r2 where "r2 = foldl (\<lambda>r m. ioxd_group_use r (Some g) m) r1 (take IOXD_MAX_MW mws)"
  have "router_ok r1" using group_new_ok[of r "Some (r_current r)" prefx] reg_begin c by (simp add: r1_def)
  moreover have "g < length (r_groups r1)" by (simp add: r1_def g_def ioxd_group_new_def)
  ultimately have "router_ok r2" "g < length (r_groups r2)" using group_uses_ok[of r1 g "take IOXD_MAX_MW mws"] by (simp_all add: r2_def Let_def)
  moreover have "snd (ioxd__router_group_begin r prefx mws) = r2\<lparr>r_current := g\<rparr>"
    by (simp add: ioxd__router_group_begin_def r2_def r1_def g_def ioxd_group_new_def Let_def)
  ultimately show ?case using current_ok by simp
next
  case (reg_end r)
  then have "r_current r < length (r_groups r)" "parents_ok (r_groups r)" by (simp_all add: router_ok_def)
  then have "g_parent (r_groups r ! r_current r) = Some p \<Longrightarrow> p < length (r_groups r)" for p unfolding parents_ok_def by (metis less_trans option.case(2))
  then show ?case using reg_end by (auto simp: ioxd__router_group_end_def router_ok_def split: option.split)
next
  case (reg_endpoint r meth path fn mws)
  have c: "r_current r < length (r_groups r)" "\<not> r_built r" using reg_endpoint by (simp_all add: router_ok_def)
  have "router_ok (snd (ioxd_route r (Some (r_current r)) meth path fn))" using route_ok[of r "Some (r_current r)"] reg_endpoint c by simp
  then show ?case using endpoint_uses_ok c(2) by (simp add: ioxd__router_endpoint_def ioxd_route_def too_late_def)
qed (auto intro: group_new_ok group_use_ok route_ok endpoint_use_ok default_ok)

text \<open>The loops up the parents end.\<close>

lemma up_ends: "parents_ok gs \<Longrightarrow> i < length gs \<Longrightarrow> \<exists>outer. up gs (Some i) = Some outer"
proof (induction i rule: less_induct)
  case (less i)
  show ?case
  proof (cases "g_parent (gs ! i)")
    case None
    then show ?thesis by (simp add: up.simps[of _ "Some i"] up.simps[of _ None])
  next
    case (Some p)
    then have "p < i" using less.prems unfolding parents_ok_def by (metis option.case(2))
    then obtain outer where "up gs (Some p) = Some outer" using less by fastforce
    then show ?thesis using Some by (simp add: up.simps[of _ "Some i"])
  qed
qed


section \<open>Resolution\<close>

text \<open>The groups an endpoint is in, the inner first; its segments and its chain, the root's first.\<close>

definition groups_of :: "router \<Rightarrow> nat \<Rightarrow> group list" where
  "groups_of r e = the (up (r_groups r) (Some (ep_group (r_endpoints r ! e))))"

definition route_segments :: "router \<Rightarrow> nat \<Rightarrow> bytes list" where
  "route_segments r e = concat (map (\<lambda>g. segments (g_prefix g)) (rev (groups_of r e))) @ segments (ep_path (r_endpoints r ! e))"

definition route_chain :: "router \<Rightarrow> nat \<Rightarrow> mw list" where
  "route_chain r e = concat (map g_mws (rev (groups_of r e))) @ ep_own (r_endpoints r ! e)"

definition route_pattern :: "router \<Rightarrow> nat \<Rightarrow> pattern" where
  "route_pattern r e = pattern_of (route_segments r e)"

definition method_of :: "router \<Rightarrow> nat \<Rightarrow> bytes" where
  "method_of r e = ep_method (r_endpoints r ! e)"

text \<open>A route with more captures than a request can hold is left out.\<close>

definition routable :: "router \<Rightarrow> nat \<Rightarrow> bool" where
  "routable r e \<longleftrightarrow> n_caps (route_pattern r e) \<le> IOXD_MAX_ROUTE_PARAMS"

lemma prepend_all: "segments (foldl (\<lambda>buf g. prepend (g_prefix g) buf) b outer) = concat (map (\<lambda>g. segments (g_prefix g)) (rev outer)) @ segments b"
  by (induction outer arbitrary: b) (simp_all add: segments_prepend)

lemma chain_all: "foldl (\<lambda>chain g. g_mws g @ chain) own outer = concat (map g_mws (rev outer)) @ own"
  by (induction outer arbitrary: own) simp_all

lemma prepend_Nil [simp]: "prepend part [] = part"
  by (simp add: prepend_def)

definition eps_step :: "router \<Rightarrow> pattern \<Rightarrow> nat list \<Rightarrow> nat \<Rightarrow> nat list" where
  "eps_step r pat eps e = (if route_pattern r e = pat \<and> routable r e then eps_add (method_of r) e eps else eps)"

text \<open>The router with its first \<open>k\<close> endpoints resolved.\<close>

definition resolved :: "router \<Rightarrow> nat \<Rightarrow> router \<Rightarrow> bool" where
  "resolved r k r' \<longleftrightarrow> r_groups r' = r_groups r \<and> r_fallback r' = r_fallback r \<and> length (r_endpoints r') = length (r_endpoints r) \<and>
     (\<forall>e < length (r_endpoints r). ep_method (r_endpoints r' ! e) = method_of r e \<and> ep_fn (r_endpoints r' ! e) = ep_fn (r_endpoints r ! e) \<and>
        (if e < k then ep_chain (r_endpoints r' ! e) = route_chain r e \<and> (routable r e \<longrightarrow> ep_names (r_endpoints r' ! e) = cap_names (route_segments r e))
         else r_endpoints r' ! e = r_endpoints r ! e)) \<and>
     (\<forall>pat. eps_at (r_tree r') pat = foldl (eps_step r pat) [] [0..<k])"

lemma eps_step_less: "set (foldl (eps_step r pat) [] [0..<k]) \<subseteq> {..<k}"
  by (induction k) (auto simp: eps_step_def eps_add_def)

lemma build_one_ok:
  assumes R: "router_ok r" and k: "k < length (r_endpoints r)" and r': "resolved r k r'"
  shows "\<exists>r''. build_one r' k = Some r'' \<and> resolved r (Suc k) r''"
proof -
  let ?eps = "r_endpoints r'" and ?n = "length (r_endpoints r)"
  have g: "r_groups r' = r_groups r" and l: "length ?eps = ?n" and t: "\<And>pat. eps_at (r_tree r') pat = foldl (eps_step r pat) [] [0..<k]"
    and ep: "?eps ! k = r_endpoints r ! k" using r' k by (auto simp: resolved_def)
  have o: "ep_group (r_endpoints r ! k) < length (r_groups r)" "ep_names (r_endpoints r ! k) = []" "parents_ok (r_groups r)"
    using R nth_mem[OF k] by (auto simp: router_ok_def)
  then have up: "up (r_groups r) (Some (ep_group (r_endpoints r ! k))) = Some (groups_of r k)"
    using up_ends[OF o(3,1)] by (auto simp: groups_of_def)
  define full where "full = foldl (\<lambda>buf g. prepend (g_prefix g) buf) (ep_path (r_endpoints r ! k)) (groups_of r k)"
  have seg: "segments full = route_segments r k" by (simp add: full_def prepend_all route_segments_def)
  define r1 where "r1 = r'\<lparr>r_endpoints := ?eps[k := (r_endpoints r ! k)\<lparr>ep_full := full\<rparr>]\<rparr>"
  define ms where "ms = (\<lambda>i. ep_method (r_endpoints r1 ! i))"
  obtain names tree where i: "insert_at ms k full [] (r_tree r') = (names, tree)" by fastforce
  note I = insert_at_ok[OF i, simplified, unfolded seg]
  define ep1 where "ep1 = (r_endpoints r ! k)\<lparr>ep_full := full, ep_names := names\<rparr>"
  define ep2 where "ep2 = ep1\<lparr>ep_chain := route_chain r k\<rparr>"
  define r2 where "r2 = r'\<lparr>r_endpoints := ?eps[k := ep2], r_tree := tree\<rparr>"
  have ins: "insert_ep r1 k = r'\<lparr>r_endpoints := ?eps[k := ep1], r_tree := tree\<rparr>"
    using i k l o(2) by (simp add: insert_ep_def ms_def r1_def ep1_def)
  have "flatten_chain (r_groups r) ep1 = Some ep2"
    using up by (simp add: flatten_chain_def ep1_def ep2_def chain_all route_chain_def)
  then have "build_one r' k = Some r2"
    using up k l unfolding build_one_def g ep full_path_def by (simp add: full_def[symmetric] r1_def[symmetric] ins g r2_def)
  moreover have "resolved r (Suc k) r2"
  proof -
    have ms: "ms e = method_of r e" if "e < ?n" for e
      using r' that k l by (cases "e = k") (auto simp: ms_def r1_def resolved_def method_of_def)
    have add: "eps_add ms k (eps_at (r_tree r') pat) = eps_add (method_of r) k (eps_at (r_tree r') pat)" for pat
    proof -
      have "ms o' = method_of r o'" if "o' \<in> set (eps_at (r_tree r') pat)" for o'
        using that eps_step_less[of r pat k] k by (intro ms) (auto simp: t)
      then show ?thesis using ms[OF k] by (simp add: eps_add_def)
    qed
    have "eps_at tree pat = foldl (eps_step r pat) [] [0..<Suc k]" for pat
      using I add[of pat] by (simp add: t[symmetric] eps_step_def route_pattern_def routable_def n_caps_pattern)
    moreover have "routable r k \<longrightarrow> names = cap_names (route_segments r k)"
      using I by (simp add: routable_def route_pattern_def n_caps_pattern)
    moreover have "ep_method ep2 = method_of r k" "ep_fn ep2 = ep_fn (r_endpoints r ! k)" "ep_chain ep2 = route_chain r k" "ep_names ep2 = names"
      by (simp_all add: ep2_def ep1_def method_of_def)
    ultimately show ?thesis using r' k unfolding resolved_def r2_def by (auto simp: nth_list_update less_Suc_eq)
  qed
  ultimately show ?thesis by blast
qed

lemma build_all_ok:
  assumes "router_ok r" and "k + n = length (r_endpoints r)" and "resolved r k r'"
  shows "\<exists>r''. build_all r' [k..<length (r_endpoints r)] = Some r'' \<and> resolved r (length (r_endpoints r)) r''"
  using assms(2,3)
proof (induction n arbitrary: k r')
  case (Suc n)
  then have k: "k < length (r_endpoints r)" by simp
  obtain r1 where r1: "build_one r' k = Some r1" "resolved r (Suc k) r1" using build_one_ok[OF assms(1) k Suc.prems(2)] by blast
  obtain r2 where "build_all r1 [Suc k..<length (r_endpoints r)] = Some r2" "resolved r (length (r_endpoints r)) r2"
    using Suc.IH[of "Suc k" r1] Suc.prems(1) r1(2) by auto
  then show ?case using r1(1) k by (simp add: upt_conv_Cons[of k])
qed simp

lemma build_ok:
  assumes "router_ok r"
  shows "\<exists>r'. ioxd__router_build r = Some r' \<and> resolved r (length (r_endpoints r)) r'"
proof -
  have "r_current r < length (r_groups r)" "parents_ok (r_groups r)" "\<not> r_built r" "r_tree r = empty_node" using assms by (simp_all add: router_ok_def)
  moreover have "resolved r 0 (r\<lparr>r_built := True\<rparr>)" using \<open>r_tree r = empty_node\<close> by (simp add: resolved_def method_of_def empty_node_def)
  ultimately show ?thesis
    using build_all_ok[OF assms, of 0 "length (r_endpoints r)" "r\<lparr>r_built := True\<rparr>"] up_ends[of "r_groups r" "r_current r"]
    by (auto simp: ioxd__router_build_def group_depth_def)
qed


section \<open>The routes searched as they were registered\<close>

text \<open>The first route of a method at a pattern; a HEAD is also served by the GET there.\<close>

definition route_for :: "router \<Rightarrow> pattern \<Rightarrow> bytes \<Rightarrow> nat option" where
  "route_for r pat method =
     find (\<lambda>e. route_pattern r e = pat \<and> routable r e \<and> method_of r e = method) [0..<length (r_endpoints r)]"

definition choose_route :: "router \<Rightarrow> bytes \<Rightarrow> pattern \<Rightarrow> nat option" where
  "choose_route r method pat =
     (case route_for r pat method of Some e \<Rightarrow> Some e | None \<Rightarrow> if method = ''HEAD'' then route_for r pat ''GET'' else None)"

text \<open>The readings of the path in turn; the first with a route decides, and gives the captured values.\<close>

definition best_route :: "router \<Rightarrow> bytes \<Rightarrow> bytes \<Rightarrow> (nat \<times> bytes list) option" where
  "best_route r method path =
     (case find (\<lambda>pat. choose_route r method pat \<noteq> None) (readings (segments path)) of
        None \<Rightarrow> None
      | Some pat \<Rightarrow> Some (the (choose_route r method pat), captured pat (segments path)))"

definition path_known :: "router \<Rightarrow> bytes \<Rightarrow> bool" where
  "path_known r path \<longleftrightarrow> (\<exists>e < length (r_endpoints r). routable r e \<and> route_pattern r e \<in> set (readings (segments path)))"

lemma loop_distinct:
  "distinct (map methods eps) \<Longrightarrow>
    endpoint_for_loop methods method eps get =
      (case find (\<lambda>e. methods e = method) eps of
         Some e \<Rightarrow> Some e
       | None \<Rightarrow> if method = ''HEAD'' then (case find (\<lambda>e. methods e = ''GET'') eps of Some e \<Rightarrow> Some e | None \<Rightarrow> get) else None)"
proof (induction eps arbitrary: get)
  case (Cons e eps)
  show ?case
  proof (cases "methods e = ''GET''")
    case True
    then have "find (\<lambda>e. methods e = ''GET'') eps = None" using Cons.prems by (force simp: find_None_iff)
    then show ?thesis using Cons True by (auto split: option.splits)
  qed (use Cons in \<open>auto split: option.splits\<close>)
qed simp

lemma eps_fold:
  fixes r pat
  defines "at \<equiv> \<lambda>k. foldl (eps_step r pat) [] [0..<k]"
  shows "distinct (map (method_of r) (at k))"
    and "find (\<lambda>e. method_of r e = m) (at k) = find (\<lambda>e. route_pattern r e = pat \<and> routable r e \<and> method_of r e = m) [0..<k]"
    and "at k = [] \<longleftrightarrow> (\<forall>e < k. \<not> (route_pattern r e = pat \<and> routable r e))"
proof -
  have "distinct (map (method_of r) (at k)) \<and>
    (\<forall>m. find (\<lambda>e. method_of r e = m) (at k) = find (\<lambda>e. route_pattern r e = pat \<and> routable r e \<and> method_of r e = m) [0..<k])"
  proof (induction k)
    case (Suc k)
    have at: "at (Suc k) = eps_step r pat (at k) k" by (simp add: at_def)
    have none: "find (\<lambda>e. method_of r e = method_of r k) (at k) = None \<longleftrightarrow> \<not> (\<exists>o' \<in> set (at k). method_of r o' = method_of r k)"
      by (auto simp: find_None_iff)
    show ?case
    proof (cases "route_pattern r k = pat \<and> routable r k")
      case True
      then have e: "at (Suc k) = eps_add (method_of r) k (at k)" using at by (simp add: eps_step_def)
      show ?thesis
      proof (cases "\<exists>o' \<in> set (at k). method_of r o' = method_of r k")
        case old: True
        then have e': "at (Suc k) = at k" using e by (simp add: eps_add_def)
        have f: "find (\<lambda>e. method_of r e = method_of r k) (at k) \<noteq> None" using old none by simp
        have "(case find (\<lambda>e. method_of r e = m) (at k) of Some x \<Rightarrow> Some x | None \<Rightarrow> if method_of r k = m then Some k else None)
            = find (\<lambda>e. method_of r e = m) (at k)" for m using f by (cases "method_of r k = m") (auto split: option.split)
        moreover have "find (\<lambda>e. route_pattern r e = pat \<and> routable r e \<and> method_of r e = m) [0..<Suc k] =
            (case find (\<lambda>e. route_pattern r e = pat \<and> routable r e \<and> method_of r e = m) [0..<k] of
               Some x \<Rightarrow> Some x | None \<Rightarrow> if method_of r k = m then Some k else None)" for m
          using True by (simp add: find_append split: option.split)
        ultimately show ?thesis using Suc unfolding e' by simp
      next
        case False
        then have e': "at (Suc k) = at k @ [k]" using e by (simp add: eps_add_def)
        show ?thesis using Suc True False by (auto simp: e' find_append split: option.split)
      qed
    next
      case False
      then have "at (Suc k) = at k" using at unfolding eps_step_def by argo
      then show ?thesis using Suc False by (auto simp: find_append split: option.split)
    qed
  qed (simp add: at_def)
  then show "distinct (map (method_of r) (at k))"
    and "find (\<lambda>e. method_of r e = m) (at k) = find (\<lambda>e. route_pattern r e = pat \<and> routable r e \<and> method_of r e = m) [0..<k]" by auto
  show "at k = [] \<longleftrightarrow> (\<forall>e < k. \<not> (route_pattern r e = pat \<and> routable r e))"
  proof (induction k)
    case (Suc k)
    have "at (Suc k) = eps_step r pat (at k) k" by (simp add: at_def)
    then show ?case using Suc by (auto simp: eps_step_def eps_add_def less_Suc_eq)
  qed (simp add: at_def)
qed

lemma pick_cong: "(\<And>e. e \<in> set eps \<Longrightarrow> ms e = ms' e) \<Longrightarrow> endpoint_for_loop ms method eps get = endpoint_for_loop ms' method eps get"
  by (induction eps arbitrary: get) auto

lemma pick_resolved:
  assumes "resolved r (length (r_endpoints r)) r'"
  shows "pick (\<lambda>i. ep_method (r_endpoints r' ! i)) method (eps_at (r_tree r') pat) = choose_route r method pat"
proof -
  let ?n = "length (r_endpoints r)"
  have t: "eps_at (r_tree r') pat = foldl (eps_step r pat) [] [0..<?n]" using assms by (simp add: resolved_def)
  have "pick (\<lambda>i. ep_method (r_endpoints r' ! i)) method (eps_at (r_tree r') pat) = pick (method_of r) method (eps_at (r_tree r') pat)"
    unfolding pick_def using assms eps_step_less[of r pat ?n] by (intro pick_cong) (auto simp: t resolved_def)
  also have "\<dots> = choose_route r method pat"
    unfolding pick_def t loop_distinct[OF eps_fold(1)] eps_fold(2) choose_route_def route_for_def by (simp split: option.split)
  finally show ?thesis .
qed

lemma found_resolved:
  assumes "resolved r (length (r_endpoints r)) r'"
  shows "found (\<lambda>i. ep_method (r_endpoints r' ! i)) method (r_tree r') 0 segs = find (\<lambda>pat. choose_route r method pat \<noteq> None) (readings segs)"
proof -
  have "n_caps pat \<le> IOXD_MAX_ROUTE_PARAMS" if c: "choose_route r method pat \<noteq> None" for pat
  proof -
    have "route_for r pat m = Some e \<Longrightarrow> n_caps pat \<le> IOXD_MAX_ROUTE_PARAMS" for m e
      unfolding route_for_def find_Some_iff routable_def by auto
    then show ?thesis using c by (auto simp: choose_route_def split: option.splits if_splits)
  qed
  then show ?thesis unfolding found_def pick_resolved[OF assms] by (intro find_cong refl) auto
qed

lemma visible_resolved:
  assumes "resolved r (length (r_endpoints r)) r'"
  shows "visible (r_tree r') 0 (segments path) = [] \<longleftrightarrow> \<not> path_known r path"
proof -
  have "eps_at (r_tree r') pat = [] \<longleftrightarrow> (\<forall>e < length (r_endpoints r). \<not> (route_pattern r e = pat \<and> routable r e))" for pat
    using assms eps_fold(3)[of r pat "length (r_endpoints r)"] by (simp add: resolved_def)
  then show ?thesis unfolding visible_def path_known_def filter_empty_conv routable_def by auto
qed

lemma choose_route_Some:
  assumes "choose_route r method pat = Some e"
  shows "e < length (r_endpoints r)" "route_pattern r e = pat" "routable r e"
proof -
  have "route_for r pat m = Some e \<Longrightarrow> e < length (r_endpoints r) \<and> route_pattern r e = pat \<and> routable r e" for m
    unfolding route_for_def find_Some_iff by auto
  then have "e < length (r_endpoints r) \<and> route_pattern r e = pat \<and> routable r e"
    using assms by (auto simp: choose_route_def split: option.splits if_splits)
  then show "e < length (r_endpoints r)" "route_pattern r e = pat" "routable r e" by auto
qed

definition with_allow :: "bytes option \<Rightarrow> ctx \<Rightarrow> ctx" where
  "with_allow allow cx = (case allow of Some v \<Rightarrow> upd_res (\<lambda>res. snd (ioxd_header res (Some ''allow'') (Some v))) cx | None \<Rightarrow> cx)"

lemma find_hit: "find P xs = Some x \<Longrightarrow> P x \<and> x \<in> set xs"
  by (auto simp: find_Some_iff)

lemma dispatch_found:
  assumes R: "resolved r (length (r_endpoints r)) r'" and b: "best_route r (rq_method (cx_req cx)) (rq_path (cx_req cx)) = Some (e, caps)"
  shows "length caps = length (cap_names (route_segments r e)) \<and>
    ioxd__router_dispatch r' cx = run_chain (route_chain r e) (ep_fn (r_endpoints r ! e))
      (set_route_params (bind_params (cap_names (route_segments r e)) caps 0) cx)"
proof -
  let ?ms = "\<lambda>i. ep_method (r_endpoints r' ! i)" and ?m = "rq_method (cx_req cx)" and ?segs = "segments (rq_path (cx_req cx))"
  obtain pat where p: "find (\<lambda>pat. choose_route r ?m pat \<noteq> None) (readings ?segs) = Some pat" "choose_route r ?m pat = Some e" "caps = captured pat ?segs"
    using b find_hit by (force simp: best_route_def split: option.splits)
  note e = choose_route_Some[OF p(2)]
  have "pat \<in> set (readings ?segs)" using p(1) by (auto simp: find_Some_iff)
  then have l: "length caps = length (cap_names (route_segments r e))"
    using captured_length p(3) e(2) by (simp add: route_pattern_def n_caps_pattern flip: e(2))
  obtain ep caps' seen where w: "walk ?ms ?m (r_tree r') (rq_path (cx_req cx)) [] [] = (ep, caps', seen)" by (metis surj_pair)
  have "ep = Some e" "caps' = caps"
    using walk_ok[of "[]" "[]" ?ms ?m "r_tree r'" "rq_path (cx_req cx)"] p
    by (simp_all add: w walked_def found_resolved[OF R] pick_resolved[OF R] del: not_None_eq)
  moreover have "ep_chain (r_endpoints r' ! e) = route_chain r e" "ep_fn (r_endpoints r' ! e) = ep_fn (r_endpoints r ! e)"
    "ep_names (r_endpoints r' ! e) = cap_names (route_segments r e)" using R e by (auto simp: resolved_def)
  ultimately show ?thesis using l w by (simp add: ioxd__router_dispatch_def)
qed

lemma dispatch_missed:
  assumes R: "resolved r (length (r_endpoints r)) r'" and b: "best_route r (rq_method (cx_req cx)) (rq_path (cx_req cx)) = None"
  shows "if path_known r (rq_path (cx_req cx)) then
      \<exists>allow. ioxd__router_dispatch r' cx = run_chain (g_mws (r_groups r ! 0)) not_allowed
            (with_allow allow (upd_res (\<lambda>res. res\<lparr>rs_status := 405\<rparr>) (set_route_params [] cx)))
    else ioxd__router_dispatch r' cx = run_chain (g_mws (r_groups r ! 0)) (r_fallback r) (set_route_params [] cx)"
proof -
  let ?ms = "\<lambda>i. ep_method (r_endpoints r' ! i)" and ?m = "rq_method (cx_req cx)" and ?segs = "segments (rq_path (cx_req cx))"
  have p: "find (\<lambda>pat. choose_route r ?m pat \<noteq> None) (readings ?segs) = None" using b by (simp add: best_route_def del: not_None_eq split: option.splits)
  obtain ep caps' seen where w: "walk ?ms ?m (r_tree r') (rq_path (cx_req cx)) [] [] = (ep, caps', seen)" by (metis surj_pair)
  have k: "ep = None" "map nd_eps seen = take SEEN_MAX (visible (r_tree r') 0 ?segs)"
    using walk_ok[of "[]" "[]" ?ms ?m "r_tree r'" "rq_path (cx_req cx)"] p by (simp_all add: w walked_def found_resolved[OF R] del: not_None_eq)
  then have "seen = [] \<longleftrightarrow> \<not> path_known r (rq_path (cx_req cx))"
    using visible_resolved[OF R] by (metis (no_types, lifting) map_is_Nil_conv take_eq_Nil zero_neq_numeral)
  moreover have g: "r_groups r' = r_groups r" "r_fallback r' = r_fallback r" using R by (simp_all add: resolved_def)
  ultimately show ?thesis using k(1) w
    by (auto simp: ioxd__router_dispatch_def with_allow_def Let_def intro!: exI[of _ "allow_value ?ms seen"])
qed

text \<open>
  C8. The router serves a request by the routes as they were registered. After any registration with valid handles
  \<open>ioxd__router_build\<close> returns, and from then on a request is dispatched as a plain search of the registered routes
  decides, with no tree: of the ways to read the segments of its path, a literal before a capture at every segment from the
  left, the first that is the pattern of a route - its groups' prefixes and its path, segment by segment - for the method
  wins, the first registered of two that are the same, a GET for a HEAD that has no route of its own. That route's handler
  runs behind the middleware of its groups, the root's first, and its own, with the captured values under the names the
  route gave them. A path that is known for other methods only is answered with 405, any other by the fallback, both behind
  the root's middleware.
\<close>

theorem dispatch_serves_the_best_route:
  assumes "registered r"
  shows "\<exists>r'. ioxd__router_build r = Some r' \<and> (\<forall>cx.
    case best_route r (rq_method (cx_req cx)) (rq_path (cx_req cx)) of
      Some (e, caps) \<Rightarrow> length caps = length (cap_names (route_segments r e)) \<and>
        ioxd__router_dispatch r' cx = run_chain (route_chain r e) (ep_fn (r_endpoints r ! e))
          (set_route_params (bind_params (cap_names (route_segments r e)) caps 0) cx)
    | None \<Rightarrow>
        if path_known r (rq_path (cx_req cx)) then
          \<exists>allow. ioxd__router_dispatch r' cx = run_chain (g_mws (r_groups r ! 0)) not_allowed
            (with_allow allow (upd_res (\<lambda>res. res\<lparr>rs_status := 405\<rparr>) (set_route_params [] cx)))
        else ioxd__router_dispatch r' cx = run_chain (g_mws (r_groups r ! 0)) (r_fallback r) (set_route_params [] cx))"
proof -
  obtain r' where b: "ioxd__router_build r = Some r'" and R: "resolved r (length (r_endpoints r)) r'"
    using build_ok[OF registered_ok[OF assms]] by blast
  show ?thesis
    by (rule exI[of _ r'], rule conjI[OF b], rule allI) (use dispatch_found[OF R] dispatch_missed[OF R] in \<open>auto split: option.split prod.split\<close>)
qed


section \<open>The allow header\<close>

fun comma_list :: "bytes list \<Rightarrow> bytes" where
  "comma_list [] = []"
| "comma_list [x] = x"
| "comma_list (x # xs) = x @ '', '' @ comma_list xs"

text \<open>One entry per method, in the order of registration.\<close>

definition allow_ok :: "(nat \<Rightarrow> bytes) \<Rightarrow> nat set \<Rightarrow> nat list \<Rightarrow> bool" where
  "allow_ok methods known out \<longleftrightarrow> sorted out \<and> distinct (map methods out) \<and> length out \<le> ALLOW_MAX \<and> set out \<subseteq> known \<and>
     (length out < ALLOW_MAX \<longrightarrow> methods ` set out = methods ` known)"

lemma sorted_insert_at: "sorted out \<Longrightarrow> (let at = length (takeWhile (\<lambda>o'. o' < ep) out) in take at out @ ep # drop at out) = insort (ep :: nat) out"
  by (induction out) (auto simp: Let_def)

lemma allow_ok_listed:
  assumes "allow_ok methods known out" and "listed methods out ep"
  shows "allow_ok methods (insert ep known) out"
proof -
  obtain o' where "o' \<in> known" "methods ep = methods o'" using assms by (auto simp: listed_def allow_ok_def)
  then have e: "methods ` insert ep known = methods ` known" by auto
  have "set out \<subseteq> insert ep known" using assms(1) by (auto simp: allow_ok_def)
  then show ?thesis using assms(1) unfolding allow_ok_def e by simp
qed

lemma allow_ok_insort:
  assumes "allow_ok methods known out" and "\<not> listed methods out ep" and "length out < ALLOW_MAX"
  shows "allow_ok methods (insert ep known) (insort ep out)"
proof -
  have "distinct (map methods out)" "methods ep \<notin> set (map methods out)" using assms(1,2) by (auto simp: allow_ok_def listed_def)
  then have "distinct (methods ep # map methods out)" by simp
  moreover have "mset (map methods (insort ep out)) = mset (methods ep # map methods out)" by simp
  ultimately have d: "distinct (map methods (insort ep out))" using mset_eq_imp_distinct_iff by blast
  have s: "sorted (insort ep out)" "set (insort ep out) \<subseteq> insert ep known" "methods ` set (insort ep out) = methods ` insert ep known"
    "length (insort ep out) \<le> ALLOW_MAX" using assms(1,3) by (auto simp: allow_ok_def sorted_insort set_insort_key)
  then show ?thesis using d unfolding allow_ok_def by blast
qed

lemma allowed_of_node_ok:
  "allow_ok methods known out \<Longrightarrow> allow_ok methods (known \<union> set eps) (allowed_of_node methods eps out)"
proof (induction eps arbitrary: known out)
  case (Cons ep eps)
  have sorted: "sorted out" using Cons.prems by (simp add: allow_ok_def)
  have u: "known \<union> set (ep # eps) = insert ep known \<union> set eps" by simp
  show ?case
  proof (cases "length out < ALLOW_MAX")
    case False
    then show ?thesis using Cons.prems by (auto simp: allow_ok_def)
  next
    case True
    have "allowed_of_node methods (ep # eps) out = allowed_of_node methods eps (if listed methods out ep then out else insort ep out)"
      using True sorted_insert_at[OF sorted, of ep] by (simp only: allowed_of_node.simps if_True Let_def split: if_split) simp
    moreover have "allow_ok methods (insert ep known) (if listed methods out ep then out else insort ep out)"
      using allow_ok_listed[OF Cons.prems] allow_ok_insort[OF Cons.prems _ True] by (simp split: if_split)
    ultimately show ?thesis unfolding u using Cons.IH by metis
  qed
qed simp

lemma allowed_endpoints_ok: "allow_ok methods (\<Union>nd \<in> set seen. set (nd_eps nd)) (allowed_endpoints methods seen)"
proof -
  have "allow_ok methods (known \<union> (\<Union>nd \<in> set seen. set (nd_eps nd))) (foldl (\<lambda>out nd. allowed_of_node methods (nd_eps nd) out) out seen)"
    if "allow_ok methods known out" for known out
    using that
  proof (induction seen arbitrary: known out)
    case (Cons nd seen)
    then show ?case using allowed_of_node_ok[OF Cons.prems, of "nd_eps nd"] by (fastforce simp: Un_assoc)
  qed simp
  from this[of "{}" "[]"] show ?thesis by (simp add: allowed_endpoints_def allow_ok_def)
qed

definition allow_names :: "(nat \<Rightarrow> bytes) \<Rightarrow> bool \<Rightarrow> nat list \<Rightarrow> bytes list" where
  "allow_names methods add_head eps = concat (map (\<lambda>e. if add_head \<and> methods e = ''GET'' then [''GET'', ''HEAD''] else [methods e]) eps)"

lemma allow_names_Cons:
  "allow_names methods add_head (e # eps) = (if add_head \<and> methods e = ''GET'' then [''GET'', ''HEAD''] else [methods e]) @ allow_names methods add_head eps"
  by (simp add: allow_names_def)

lemma allow_names_Nil: "allow_names methods add_head eps = [] \<longleftrightarrow> eps = []"
  by (cases eps) (simp_all add: allow_names_Cons, simp add: allow_names_def)

lemma comma_list_append: "xs \<noteq> [] \<Longrightarrow> comma_list (xs @ ys) = comma_list xs @ (if ys = [] then [] else '', '' @ comma_list ys)"
proof (induction xs rule: comma_list.induct)
  case (2 x)
  then show ?case by (cases ys) simp_all
qed simp_all

lemma comma_names_Cons:
  "comma_list (allow_names methods add_head (e # eps)) =
     methods e @ (if add_head \<and> methods e = ''GET'' then '', HEAD'' else []) @ (if eps = [] then [] else '', '' @ comma_list (allow_names methods add_head eps))"
  unfolding allow_names_Cons by (simp add: comma_list_append allow_names_Nil)

lemma allow_text_Cons:
  assumes "allow_text methods add_head False eps = (if eps = [] then [] else '', '' @ comma_list (allow_names methods add_head eps))"
  shows "allow_text methods add_head start (e # eps) = (if start then [] else '', '') @ comma_list (allow_names methods add_head (e # eps))"
  unfolding allow_text.simps assms comma_names_Cons ..

lemma allow_text_rest: "allow_text methods add_head False eps = (if eps = [] then [] else '', '' @ comma_list (allow_names methods add_head eps))"
proof (induction eps)
  case (Cons e eps)
  show ?case unfolding allow_text_Cons[OF Cons] by simp
qed simp

lemma allow_text_names:
  assumes "eps \<noteq> []"
  shows "allow_text methods add_head True eps = comma_list (allow_names methods add_head eps)"
proof -
  obtain e es where "eps = e # es" using assms by (cases eps) auto
  then show ?thesis by (simp only: allow_text_Cons[OF allow_text_rest] if_True append_Nil)
qed

lemma allow_length:
  "eps \<noteq> [] \<Longrightarrow> distinct (map methods eps) \<Longrightarrow>
    length (comma_list (allow_names methods add_head eps)) + 2 =
      2 * length eps + sum_list (map (\<lambda>e. length (methods e)) eps) + (if add_head \<and> ''GET'' \<in> methods ` set eps then 6 else 0)"
proof (induction eps)
  case (Cons e eps)
  have g: "methods e = ''GET'' \<Longrightarrow> ''GET'' \<notin> methods ` set eps" using Cons.prems(2) by auto
  show ?case
  proof (cases "eps = []")
    case True
    then show ?thesis by (auto simp: comma_names_Cons)
  next
    case False
    then show ?thesis using Cons g unfolding comma_names_Cons by auto
  qed
qed simp

lemma image_methods: "x \<in> methods ` set eps \<longleftrightarrow> (\<exists>e \<in> set eps. methods e = x)"
  by auto

text \<open>
  The allow header of a 405 fits its arena and says what the path is registered for. When \<open>allow_value\<close> gives a
  value, it is shorter than the 256 bytes it and its NUL are stored in, and it is the methods of the endpoints seen on the
  way, each once and in the order of registration, with HEAD after GET where GET alone is there; none is missing unless
  sixteen are listed already.
\<close>

theorem allow_value_fits:
  assumes "allow_value methods seen = Some v"
  shows "length v < IOXD_ROUTE_ARENA \<and> (\<exists>eps. eps \<noteq> [] \<and> allow_ok methods (\<Union>nd \<in> set seen. set (nd_eps nd)) eps \<and>
    v = comma_list (allow_names methods (''GET'' \<in> methods ` set eps \<and> ''HEAD'' \<notin> methods ` set eps) eps))"
proof -
  define eps where "eps = allowed_endpoints methods seen"
  note ok = allowed_endpoints_ok[of methods seen, folded eps_def]
  define hd where "hd \<longleftrightarrow> ''GET'' \<in> methods ` set eps \<and> ''HEAD'' \<notin> methods ` set eps"
  have h: "((\<exists>e \<in> set eps. methods e = ''GET'') \<and> \<not> (\<exists>e \<in> set eps. methods e = ''HEAD'')) = hd" unfolding hd_def image_methods ..
  have e: "eps \<noteq> []" "(length eps - 1) * 2 + 1 + sum_list (map (\<lambda>e. length (methods e)) eps) + (if hd then 6 else 0) \<le> IOXD_ROUTE_ARENA"
    and v: "v = allow_text methods hd True eps"
  proof -
    let ?len = "(if length eps \<noteq> 0 then (length eps - 1) * 2 + 1 else 0) + sum_list (map (\<lambda>e. length (methods e)) eps) + (if hd then 6 else 0)"
    have a: "(if length eps = 0 \<or> ?len > IOXD_ROUTE_ARENA then None else Some (allow_text methods hd True eps)) = Some v"
      using assms unfolding allow_value_def eps_def[symmetric] Let_def h by (simp only: add.assoc)
    then have c: "\<not> (length eps = 0 \<or> ?len > IOXD_ROUTE_ARENA)" by (metis option.distinct(1))
    then show "eps \<noteq> []" "(length eps - 1) * 2 + 1 + sum_list (map (\<lambda>e. length (methods e)) eps) + (if hd then 6 else 0) \<le> IOXD_ROUTE_ARENA" by auto
    show "v = allow_text methods hd True eps" using a unfolding if_not_P[OF c] by simp
  qed
  have v': "v = comma_list (allow_names methods hd eps)" unfolding v by (rule allow_text_names[OF e(1)])
  have "distinct (map methods eps)" using ok by (simp add: allow_ok_def)
  then have "length v < IOXD_ROUTE_ARENA"
  proof -
    assume d: "distinct (map methods eps)"
    have six: "(if hd \<and> ''GET'' \<in> methods ` set eps then 6 else 0) = (if hd then 6 else 0 :: nat)" by (simp add: hd_def)
    have "0 < length eps" using e(1) by simp
    then show ?thesis using allow_length[OF e(1) d, of hd] e(2) unfolding v' six by linarith
  qed
  then show ?thesis using e(1) ok v' unfolding hd_def by (intro conjI exI[of _ eps])
qed


section \<open>The chain\<close>

lemma run_loop_returns:
  assumes "\<forall>cx. fn cx \<noteq> None"
  shows "\<exists>i' cx. i \<le> i' \<and> (i \<le> Suc (length mws) \<longrightarrow> i' \<le> Suc (length mws)) \<and> run_loop mws fn i callers st = run_loop mws fn i' callers (Returned cx)"
proof (induction "Suc (length mws) - i" arbitrary: i callers st rule: less_induct)
  case less
  show ?case
  proof (induction st arbitrary: callers)
    case (Returned cx)
    then show ?case by blast
  next
    case (Next_run cx k)
    note step = run_loop.simps[of mws fn _ _ "Next_run cx k"] and ret = run_loop.simps[of mws fn _ "_ # _" "Returned _"]
    consider (spent) "i > length mws" | (mw) "i < length mws" | (handler) "i = length mws" by linarith
    then show ?case
    proof cases
      case spent
      then have "run_loop mws fn i callers (Next_run cx k) = run_loop mws fn i callers (k cx)" by (simp add: step)
      moreover obtain i1 cx1 where "i \<le> i1" "i \<le> Suc (length mws) \<longrightarrow> i1 \<le> Suc (length mws)"
        "run_loop mws fn i callers (k cx) = run_loop mws fn i1 callers (Returned cx1)" using Next_run[of "k cx" callers] by auto
      ultimately show ?thesis by (intro exI[of _ i1] exI[of _ cx1]) simp
    next
      case mw
      have lt: "Suc (length mws) - (i + 1) < Suc (length mws) - i" using mw by linarith
      obtain i1 cx1 where i1: "i + 1 \<le> i1" "i1 \<le> Suc (length mws)"
        "run_loop mws fn (i + 1) (k # callers) ((mws ! i) cx) = run_loop mws fn i1 (k # callers) (Returned cx1)"
        using less[OF lt, of "k # callers" "(mws ! i) cx"] mw by auto
      then have "run_loop mws fn i callers (Next_run cx k) = run_loop mws fn i1 callers (k cx1)" using mw by (simp add: step ret)
      moreover have lt1: "Suc (length mws) - i1 < Suc (length mws) - i" using mw i1(1) by linarith
      moreover obtain i2 cx2 where "i1 \<le> i2" "i2 \<le> Suc (length mws)" "run_loop mws fn i1 callers (k cx1) = run_loop mws fn i2 callers (Returned cx2)"
        using less[OF lt1, of callers "k cx1"] i1(2) by auto
      ultimately show ?thesis using i1(1) by (intro exI[of _ i2] exI[of _ cx2]) simp
    next
      case handler
      obtain cx1 where "fn cx = Some cx1" using assms by blast
      then have "run_loop mws fn i callers (Next_run cx k) = run_loop mws fn (i + 1) callers (k cx1)" using handler by (simp add: step)
      moreover obtain i2 cx2 where "i + 1 \<le> i2" "i2 \<le> Suc (length mws)" "run_loop mws fn (i + 1) callers (k cx1) = run_loop mws fn i2 callers (Returned cx2)"
        using less[of "i + 1" callers "k cx1"] handler by auto
      ultimately show ?thesis by (intro exI[of _ i2] exI[of _ cx2]) simp
    qed
  qed
qed

text \<open>
  A chain of middleware comes to an end. Whatever the middleware of a chain do - call \<open>ioxd_next_run\<close> once, never, or
  over and over, with any context - the chain returns when its handler does, and the cursor, which moves by one as each
  middleware and then the handler is entered and never back, is left at most one past the chain: none of them is entered a
  second time.
\<close>

theorem chain_returns:
  assumes "\<forall>cx. fn cx \<noteq> None"
  shows "(\<exists>cx'. run_chain mws fn cx = Some cx') \<and> (\<exists>i' cx'. ioxd_next_run mws fn 0 cx = Some (i', cx') \<and> i' \<le> Suc (length mws))"
proof -
  obtain i' cx' where r: "i' \<le> Suc (length mws)" "run_loop mws fn 0 [] (Next_run cx Returned) = run_loop mws fn i' [] (Returned cx')"
    using run_loop_returns[OF assms, of 0 mws "[]" "Next_run cx Returned"] by auto
  then have n: "ioxd_next_run mws fn 0 cx = Some (i', cx')" by (simp add: ioxd_next_run_def run_loop.simps[of _ _ _ "[]" "Returned _"])
  have "\<exists>cx'. run_chain mws fn cx = Some cx'" using n assms by (auto simp: run_chain_def)
  then show ?thesis using n r(1) by blast
qed


section \<open>Witnesses\<close>

definition sample_routes :: router where
  "sample_routes =
     snd (ioxd_route (snd (ioxd_route (snd (ioxd_group_new fresh_router None ''/users/'')) (Some 1) ''GET'' ''/:id'' Some)) (Some 1) ''PUT'' ''me'' Some)"

lemma sample_registered: "registered sample_routes"
  unfolding sample_routes_def by (intro reg_route reg_group reg_fresh) (simp_all add: fresh_router_def ioxd_group_new_def ioxd_route_def too_late_def)

lemma sample_routes_eq:
  "sample_routes = fresh_router\<lparr>r_groups := r_groups fresh_router @ [\<lparr>g_parent = Some 0, g_prefix = ''/users/'', g_mws = []\<rparr>],
     r_endpoints := [\<lparr>ep_group = 1, ep_method = ''GET'', ep_path = ''/:id'', ep_fn = Some, ep_own = [], ep_full = [], ep_names = [], ep_chain = []\<rparr>,
       \<lparr>ep_group = 1, ep_method = ''PUT'', ep_path = ''me'', ep_fn = Some, ep_own = [], ep_full = [], ep_names = [], ep_chain = []\<rparr>]\<rparr>"
  by (simp add: sample_routes_def fresh_router_def ioxd_group_new_def ioxd_route_def too_late_def)

lemma sample_groups:
  "groups_of sample_routes 0 = [\<lparr>g_parent = Some 0, g_prefix = ''/users/'', g_mws = []\<rparr>, \<lparr>g_parent = None, g_prefix = [], g_mws = []\<rparr>]"
  "groups_of sample_routes (Suc 0) = [\<lparr>g_parent = Some 0, g_prefix = ''/users/'', g_mws = []\<rparr>, \<lparr>g_parent = None, g_prefix = [], g_mws = []\<rparr>]"
  by (simp_all add: groups_of_def sample_routes_eq fresh_router_def up.simps)

lemma sample_segments:
  "route_segments sample_routes 0 = [''users'', '':id'']" "route_segments sample_routes (Suc 0) = [''users'', ''me'']" "route_chain sample_routes 0 = []"
  unfolding route_segments_def route_chain_def sample_groups by (simp_all add: sample_routes_eq)

lemma sample_best: "best_route sample_routes ''HEAD'' ''/users/me'' = Some (0, [''me''])"
proof -
  have n: "[0..<length (r_endpoints sample_routes)] = [0, Suc 0]" by (simp add: sample_routes_eq upt_rec)
  have m: "method_of sample_routes 0 = ''GET''" "method_of sample_routes (Suc 0) = ''PUT''" by (simp_all add: method_of_def sample_routes_eq)
  have p: "route_pattern sample_routes 0 = [Some ''users'', None]" "route_pattern sample_routes (Suc 0) = [Some ''users'', Some ''me'']"
    by (simp_all add: route_pattern_def sample_segments)
  have r: "routable sample_routes 0" "routable sample_routes (Suc 0)" by (simp_all add: routable_def p)
  show ?thesis by (simp add: best_route_def choose_route_def route_for_def n m p r)
qed

theorem dispatch_serves_the_best_route_witness:
  "\<exists>r'. ioxd__router_build sample_routes = Some r' \<and> (\<forall>cx. rq_method (cx_req cx) = ''HEAD'' \<and> rq_path (cx_req cx) = ''/users/me'' \<longrightarrow>
     ioxd__router_dispatch r' cx = Some (set_route_params [(''id'', ''me'')] cx))"
proof -
  have f: "ep_fn (r_endpoints sample_routes ! 0) = Some" by (simp add: sample_routes_eq)
  show ?thesis using dispatch_serves_the_best_route[OF sample_registered]
  proof (elim exE conjE, intro exI conjI allI impI)
    fix r' and cx :: ctx
    assume d: "\<forall>cx. case best_route sample_routes (rq_method (cx_req cx)) (rq_path (cx_req cx)) of
        Some (e, caps) \<Rightarrow> length caps = length (cap_names (route_segments sample_routes e)) \<and>
          ioxd__router_dispatch r' cx = run_chain (route_chain sample_routes e) (ep_fn (r_endpoints sample_routes ! e))
            (set_route_params (bind_params (cap_names (route_segments sample_routes e)) caps 0) cx)
      | None \<Rightarrow>
          if path_known sample_routes (rq_path (cx_req cx)) then
            \<exists>allow. ioxd__router_dispatch r' cx = run_chain (g_mws (r_groups sample_routes ! 0)) not_allowed
              (with_allow allow (upd_res (\<lambda>res. res\<lparr>rs_status := 405\<rparr>) (set_route_params [] cx)))
          else ioxd__router_dispatch r' cx = run_chain (g_mws (r_groups sample_routes ! 0)) (r_fallback sample_routes) (set_route_params [] cx)"
      and q: "rq_method (cx_req cx) = ''HEAD'' \<and> rq_path (cx_req cx) = ''/users/me''"
    show "ioxd__router_dispatch r' cx = Some (set_route_params [(''id'', ''me'')] cx)"
      using spec[OF d, of cx] unfolding conjunct1[OF q] conjunct2[OF q] sample_best by (simp add: sample_segments f run_chain_def decoded_value_def)
  qed
qed

theorem allow_value_fits_witness:
  "\<exists>v. allow_value (\<lambda>e. if e = 0 then ''GET'' else ''PUT'') [Node [] [] None [0, 1]] = Some v \<and> length v < IOXD_ROUTE_ARENA"
proof -
  have "allow_value (\<lambda>e. if e = 0 then ''GET'' else ''PUT'') [Node [] [] None [0, 1]] = Some ''GET, HEAD, PUT''"
    by (simp add: allow_value_def allowed_endpoints_def listed_def)
  then show ?thesis using allow_value_fits by blast
qed

theorem chain_returns_witness:
  "\<exists>cx'. run_chain [\<lambda>cx. Next_run cx (\<lambda>cx. Next_run cx Returned), Returned] Some (sample_ctx False) = Some cx'"
  using chain_returns[of Some "[\<lambda>cx. Next_run cx (\<lambda>cx. Next_run cx Returned), Returned]" "sample_ctx False"] by simp

end
