(* ===== verification/Worker.thy ===== *)
theory Worker
  imports Ring "HOL-Library.Monad_Syntax"
begin

text \<open>
  A worker and its connections, \<^verbatim>\<open>lib/io/conn.c\<close> and \<^verbatim>\<open>lib/io/proactor.c\<close>: accepting, the
  multishot receive of a connection with its pausing, starving and ending, the coroutine that serves it,
  closing, the count of references that decides when a connection is recycled, and the loop's sweeps.

  A connection is an address in the worker's memory.  Its coroutine is the list of what the handler still
  does on it; a handler that decides as it goes is some such list in any one run.  What the kernel was
  asked for is \<open>staged\<close>, and \<open>inflight\<close> has an address for every receive it has not ended.  An abort of the
  process is \<open>None\<close>.  \<open>c_held\<close> are the buffers the handler took and has not given back;
  \<open>c_got\<close> and \<open>c_gave\<close> record the buffers delivered for the connection and given back on its behalf.
\<close>

abbreviation E_NOBUFS :: int where "E_NOBUFS \<equiv> - 105"
abbreviation E_CANCELED :: int where "E_CANCELED \<equiv> - 125"
abbreviation E_IO :: int where "E_IO \<equiv> - 5"
abbreviation E_PROTO :: int where "E_PROTO \<equiv> - 71"
abbreviation E_NOENT :: int where "E_NOENT \<equiv> - 2"

datatype recv_state = RECV_ARMED | RECV_STARVED | RECV_PAUSED | RECV_DONE

text \<open>
  What a handler does on its connection: take the next received buffer, give one back, stop and restart the
  receive, await an operation of its own.  \<open>Pause_wait\<close> is the loop of a pause that has begun.
\<close>

datatype hop = Take | Give nat | Pause | Pause_wait | Resume | Await

record conn =
  c_fd :: int
  c_tls :: bool
  waiter :: bool
  rx :: spsc
  recv :: recv_state
  pausing :: bool
  cancelling :: bool
  refs :: int
  closed :: bool
  eof :: bool
  err :: int
  co_todo :: "hop list"
  in_op :: bool
  c_held :: "16 word list"
  c_got :: "16 word list"
  c_gave :: "16 word list"

record listener =
  l_fd :: int
  l_tls :: bool
  stalled :: bool
  stalled_live :: nat
  retry_at :: nat
  err_log_at :: nat
  err_since_log :: nat

datatype sqe = Sqe_recv nat | Sqe_cancel_recv nat | Sqe_close int | Sqe_accept nat | Sqe_cancel_accept nat | Sqe_cancel_any

record proactor =
  conns :: "nat \<Rightarrow> conn"
  allocated :: "nat set"
  conn_free :: "nat list"
  conn_free_count :: nat
  idle_connections :: nat
  live_count :: nat
  p_bufs :: bufring
  starved :: "nat list"
  cap_starved :: nat
  starved_total :: nat
  starved_since_log :: nat
  starved_log_at :: nat
  ready :: "nat list"
  listeners :: "listener list"
  file_slots :: nat
  accepted :: nat
  draining :: bool
  cancel_each :: bool
  staged :: "sqe list"
  inflight :: "nat list"
  clock :: nat
  failed :: int

definition upd :: "nat \<Rightarrow> (conn \<Rightarrow> conn) \<Rightarrow> proactor \<Rightarrow> proactor" where
  "upd i f p = p\<lparr>conns := (conns p)(i := f (conns p i))\<rparr>"

text \<open>\<open>ioxd__proactor_sqe\<close> and the fields the caller fills in; the kernel has it from then on.\<close>

definition stage :: "sqe \<Rightarrow> proactor \<Rightarrow> proactor" where
  "stage s p = p\<lparr>staged := staged p @ [s], inflight := (case s of Sqe_recv i \<Rightarrow> i # inflight p | _ \<Rightarrow> inflight p)\<rparr>"

text \<open>A buffer of the connection goes back to the ring.\<close>

definition give_back :: "nat \<Rightarrow> 16 word \<Rightarrow> proactor \<Rightarrow> proactor option" where
  "give_back i b p = do {
     r \<leftarrow> ioxd__bufring_return (p_bufs p) b;
     Some (upd i (\<lambda>c. c\<lparr>c_gave := b # c_gave c\<rparr>) (p\<lparr>p_bufs := r\<rparr>)) }"


section \<open>The object\<close>

definition cancel_recv :: "nat \<Rightarrow> proactor \<Rightarrow> proactor" where
  "cancel_recv i p =
     (if cancelling (conns p i) then p
      else stage (Sqe_cancel_recv i) (upd i (\<lambda>c. c\<lparr>cancelling := True\<rparr>) p))"

definition end_input :: "int \<Rightarrow> conn \<Rightarrow> conn" where
  "end_input e c = (if \<not> eof c then c\<lparr>eof := True, err := e\<rparr> else c)"

definition zero_conn :: conn where
  "zero_conn =
     \<lparr>c_fd = 0, c_tls = False, waiter = False,
      rx = \<lparr>items = replicate RX_QUEUE \<lparr>rx_ptr = 0, rx_len = 0, rx_buf_id = 0\<rparr>, head = 0, tail = 0\<rparr>,
      recv = RECV_ARMED, pausing = False, cancelling = False, refs = 0, closed = False, eof = False, err = 0,
      co_todo = [], in_op = False, c_held = [], c_got = [], c_gave = []\<rparr>"

text \<open>\<open>fresh\<close> is the address \<open>calloc\<close> returns when the pool is empty.\<close>

definition ioxd__conn_new :: "proactor \<Rightarrow> nat \<Rightarrow> bool \<Rightarrow> int \<Rightarrow> nat \<times> proactor" where
  "ioxd__conn_new p fresh tls fd =
     (let (i, p) =
        (case conn_free p of
           i # rest \<Rightarrow> (i, p\<lparr>conn_free := rest, conn_free_count := conn_free_count p - 1\<rparr>)
         | [] \<Rightarrow> (fresh, p\<lparr>allocated := insert fresh (allocated p), conns := (conns p)(fresh := zero_conn)\<rparr>))
      in (i, (upd i (\<lambda>c. c\<lparr>c_fd := fd, c_tls := tls, waiter := False, rx := ioxd__spsc_reset (rx c), recv := RECV_ARMED,
                pausing := False, cancelling := False, refs := 2, closed := False, eof := False, err := 0,
                c_held := [], c_got := [], c_gave := []\<rparr>) p)\<lparr>live_count := live_count p + 1\<rparr>))"

definition conn_unref :: "nat \<Rightarrow> proactor \<Rightarrow> proactor" where
  "conn_unref i p =
     (let p = upd i (\<lambda>c. c\<lparr>refs := refs c - 1\<rparr>) p in
      if refs (conns p i) \<noteq> 0 then p
      else
        let p = p\<lparr>live_count := live_count p - 1\<rparr> in
        if conn_free_count p < idle_connections p
        then p\<lparr>conn_free := i # conn_free p, conn_free_count := conn_free_count p + 1\<rparr>
        else p\<lparr>allocated := allocated p - {i}\<rparr>)"

definition ioxd__conn_pool_drain :: "proactor \<Rightarrow> proactor" where
  "ioxd__conn_pool_drain p = p\<lparr>allocated := allocated p - set (conn_free p), conn_free := [], conn_free_count := 0\<rparr>"

definition ioxd__conn_arm_recv :: "proactor \<Rightarrow> nat \<Rightarrow> proactor" where
  "ioxd__conn_arm_recv p i = upd i (\<lambda>c. c\<lparr>recv := RECV_ARMED, cancelling := False\<rparr>) (stage (Sqe_recv i) p)"

definition note_starved :: "proactor \<Rightarrow> proactor" where
  "note_starved p =
     (let p = p\<lparr>starved_total := starved_total p + 1, starved_since_log := starved_since_log p + 1\<rparr> in
      if clock p < starved_log_at p then p else p\<lparr>starved_since_log := 0, starved_log_at := clock p + 1\<rparr>)"

definition starved_push :: "nat \<Rightarrow> proactor \<Rightarrow> proactor" where
  "starved_push i p =
     (let p = (if length (starved p) = cap_starved p
               then p\<lparr>cap_starved := (if cap_starved p \<noteq> 0 then cap_starved p * 2 else 64)\<rparr> else p)
      in p\<lparr>starved := starved p @ [i]\<rparr>)"

definition starved_remove :: "nat \<Rightarrow> proactor \<Rightarrow> proactor" where
  "starved_remove i p = p\<lparr>starved := remove1 i (starved p)\<rparr>"


section \<open>Closing\<close>

definition ioxd__conn_close_socket :: "proactor \<Rightarrow> int \<Rightarrow> proactor" where
  "ioxd__conn_close_socket p fd = stage (Sqe_close fd) p"

text \<open>The loop that empties the queue, and the one of the pipe that gives back what the handler holds.\<close>

partial_function (option) drain_rx :: "nat \<Rightarrow> proactor \<Rightarrow> proactor option" where
  "drain_rx i p =
     (if ioxd__spsc_empty (rx (conns p i)) then Some p
      else
        let (it, q) = ioxd__spsc_pop (rx (conns p i)) in do {
        p \<leftarrow> give_back i (rx_buf_id it) (upd i (\<lambda>c. c\<lparr>rx := q\<rparr>) p);
        drain_rx i p })"

fun give_all :: "nat \<Rightarrow> 16 word list \<Rightarrow> proactor \<Rightarrow> proactor option" where
  "give_all i [] p = Some p"
| "give_all i (b # bs) p = do { p \<leftarrow> give_back i b (upd i (\<lambda>c. c\<lparr>c_held := bs\<rparr>) p); give_all i bs p }"

definition ioxd__conn_close :: "nat \<Rightarrow> proactor \<Rightarrow> proactor option" where
  "ioxd__conn_close i p =
     (let p = upd i (\<lambda>c. c\<lparr>closed := True\<rparr>) p;
          p = (if recv (conns p i) = RECV_ARMED then cancel_recv i p
               else if recv (conns p i) = RECV_STARVED \<or> recv (conns p i) = RECV_PAUSED then
                 let p = (if recv (conns p i) = RECV_STARVED then starved_remove i p else p)
                 in upd i (\<lambda>c. c\<lparr>recv := RECV_DONE, refs := refs c - 1\<rparr>) p
               else p)
      in do {
        p \<leftarrow> drain_rx i p;
        Some (conn_unref i (ioxd__conn_close_socket p (c_fd (conns p i)))) })"


section \<open>The coroutine\<close>

text \<open>\<open>recv_pause\<close> before its wait and after it, and \<open>recv_resume\<close>.\<close>

definition pause_begin :: "nat \<Rightarrow> proactor \<Rightarrow> proactor" where
  "pause_begin i p = cancel_recv i (upd i (\<lambda>c. c\<lparr>pausing := True\<rparr>) p)"

definition pause_end :: "nat \<Rightarrow> proactor \<Rightarrow> int \<times> proactor" where
  "pause_end i p =
     (let p = (if recv (conns p i) = RECV_STARVED then upd i (\<lambda>c. c\<lparr>recv := RECV_PAUSED\<rparr>) (starved_remove i p) else p)
      in (if eof (conns p i) then - 1 else if recv (conns p i) = RECV_PAUSED then 0 else - 1, p))"

definition ioxd__conn_recv_resume :: "nat \<Rightarrow> proactor \<Rightarrow> bool \<times> proactor" where
  "ioxd__conn_recv_resume i p =
     (if recv (conns p i) \<noteq> RECV_PAUSED \<or> eof (conns p i) \<or> closed (conns p i) then (False, p)
      else if draining p then
        (False, conn_unref i (upd i (\<lambda>c. (end_input E_CANCELED c)\<lparr>recv := RECV_DONE\<rparr>) p))
      else (True, ioxd__conn_arm_recv p i))"

definition park :: "nat \<Rightarrow> hop list \<Rightarrow> proactor \<Rightarrow> proactor" where
  "park i todo p = upd i (\<lambda>c. c\<lparr>waiter := True, co_todo := todo\<rparr>) p"

text \<open>
  The coroutine of a connection from where it stands to its next wait, or to its end: the handler returned,
  the pipe is closed and the connection too, \<open>ioxd__conn_main\<close>.
\<close>

fun run_co :: "nat \<Rightarrow> hop list \<Rightarrow> proactor \<Rightarrow> proactor option" where
  "run_co i [] p = do { p \<leftarrow> give_all i (c_held (conns p i)) p; ioxd__conn_close i (upd i (\<lambda>c. c\<lparr>co_todo := []\<rparr>) p) }"
| "run_co i (Take # ops) p =
     (if \<not> ioxd__spsc_empty (rx (conns p i)) then
        let (it, q) = ioxd__spsc_pop (rx (conns p i))
        in run_co i ops (upd i (\<lambda>c. c\<lparr>rx := q, c_held := c_held c @ [rx_buf_id it]\<rparr>) p)
      else if eof (conns p i) then run_co i ops p
      else Some (park i (Take # ops) p))"
| "run_co i (Give k # ops) p =
     (if k < length (c_held (conns p i)) then do {
        p \<leftarrow> give_back i (c_held (conns p i) ! k) (upd i (\<lambda>c. c\<lparr>c_held := take k (c_held c) @ drop (Suc k) (c_held c)\<rparr>) p);
        run_co i ops p }
      else run_co i ops p)"
| "run_co i (Pause # ops) p =
     (if recv (conns p i) = RECV_ARMED then Some (park i (Pause_wait # ops) (pause_begin i p))
      else run_co i ops (snd (pause_end i p)))"
| "run_co i (Pause_wait # ops) p =
     (if recv (conns p i) = RECV_ARMED then Some (park i (Pause_wait # ops) p)
      else run_co i ops (snd (pause_end i (upd i (\<lambda>c. c\<lparr>pausing := False\<rparr>) p))))"
| "run_co i (Resume # ops) p = run_co i ops (snd (ioxd__conn_recv_resume i p))"
| "run_co i (Await # ops) p = Some (upd i (\<lambda>c. c\<lparr>in_op := True, co_todo := ops\<rparr>) p)"

definition wake_reader :: "nat \<Rightarrow> proactor \<Rightarrow> proactor option" where
  "wake_reader i p =
     (if waiter (conns p i) then run_co i (co_todo (conns p i)) (upd i (\<lambda>c. c\<lparr>waiter := False\<rparr>) p) else Some p)"


section \<open>A receive completes\<close>

definition CQE_F_BUFFER :: u32 where "CQE_F_BUFFER = 1"
definition CQE_F_MORE :: u32 where "CQE_F_MORE = 2"

text \<open>The part for \<open>-ENOBUFS\<close>, the one for the other results that end the receive, the delivery, and what follows it.\<close>

definition recv_nobufs :: "proactor \<Rightarrow> nat \<Rightarrow> proactor option" where
  "recv_nobufs p i =
     (if closed (conns p i) then Some (conn_unref i (upd i (\<lambda>c. c\<lparr>recv := RECV_DONE\<rparr>) p))
      else if pausing (conns p i) then wake_reader i (upd i (\<lambda>c. c\<lparr>pausing := False, recv := RECV_PAUSED\<rparr>) p)
      else if eof (conns p i) then do {
        p \<leftarrow> wake_reader i (upd i (\<lambda>c. c\<lparr>recv := RECV_DONE\<rparr>) p);
        Some (conn_unref i p) }
      else Some (starved_push i (note_starved (upd i (\<lambda>c. c\<lparr>recv := RECV_STARVED\<rparr>) p))))"

definition recv_ended :: "proactor \<Rightarrow> nat \<Rightarrow> int \<Rightarrow> bool \<Rightarrow> 16 word \<Rightarrow> proactor option" where
  "recv_ended p i result has_buf buf_id = do {
     p \<leftarrow> (if has_buf then give_back i buf_id p else Some p);
     (if pausing (conns p i) \<and> \<not> closed (conns p i) \<and> result = E_CANCELED then
        wake_reader i (upd i (\<lambda>c. c\<lparr>pausing := False, recv := RECV_PAUSED\<rparr>) p)
      else do {
        p \<leftarrow> wake_reader i (upd i (\<lambda>c. (end_input (if result = E_IO \<and> c_tls c then 0 else result) c)\<lparr>recv := RECV_DONE\<rparr>) p);
        Some (conn_unref i p) }) }"

definition recv_data :: "proactor \<Rightarrow> nat \<Rightarrow> int \<Rightarrow> bool \<Rightarrow> bool \<Rightarrow> 16 word \<Rightarrow> proactor option" where
  "recv_data p i result more_left has_buf buf_id =
     (if \<not> has_buf then
        let p = upd i (end_input E_PROTO) p
        in wake_reader i (if more_left then cancel_recv i p else p)
      else if closed (conns p i) then give_back i buf_id p
      else if ioxd__spsc_full (rx (conns p i)) then do {
        p \<leftarrow> give_back i buf_id p;
        (let p = upd i (end_input E_NOBUFS) p
         in wake_reader i (if more_left then cancel_recv i p else p)) }
      else do {
        a \<leftarrow> ioxd__bufring_at (p_bufs p) buf_id;
        wake_reader i (upd i (\<lambda>c. c\<lparr>rx := ioxd__spsc_push \<lparr>rx_ptr = a, rx_len = word_of_int result, rx_buf_id = buf_id\<rparr> (rx c)\<rparr>) p) })"

definition recv_after :: "proactor \<Rightarrow> nat \<Rightarrow> bool \<Rightarrow> proactor option" where
  "recv_after p i more_left =
     (if \<not> more_left then
        if pausing (conns p i) \<and> \<not> closed (conns p i) then wake_reader i (upd i (\<lambda>c. c\<lparr>pausing := False, recv := RECV_PAUSED\<rparr>) p)
        else if \<not> closed (conns p i) \<and> \<not> eof (conns p i) then Some (ioxd__conn_arm_recv p i)
        else Some (conn_unref i (upd i (\<lambda>c. c\<lparr>recv := RECV_DONE\<rparr>) p))
      else if cancel_each p \<and> \<not> closed (conns p i) then Some (cancel_recv i p)
      else Some p)"

definition ioxd__conn_on_recv :: "proactor \<Rightarrow> nat \<Rightarrow> int \<Rightarrow> u32 \<Rightarrow> proactor option" where
  "ioxd__conn_on_recv p i result flags =
     (let more_left = (flags AND CQE_F_MORE \<noteq> 0);
          has_buf = (flags AND CQE_F_BUFFER \<noteq> 0);
          buf_id = ucast (drop_bit 16 flags);
          p = (if \<not> more_left then upd i (\<lambda>c. c\<lparr>cancelling := False\<rparr>) p else p);
          p = (if has_buf then upd i (\<lambda>c. c\<lparr>c_got := buf_id # c_got c\<rparr>) p else p)
      in if result = E_NOBUFS then recv_nobufs p i
      else if result \<le> 0 then recv_ended p i result has_buf buf_id
      else do {
        p \<leftarrow> recv_data p i result more_left has_buf buf_id;
        recv_after p i more_left })"

definition ioxd__conn_recv_drain :: "nat \<Rightarrow> proactor \<Rightarrow> proactor option" where
  "ioxd__conn_recv_drain i p =
     (if recv (conns p i) \<noteq> RECV_STARVED then Some p
      else do {
        p \<leftarrow> wake_reader i (upd i (\<lambda>c. (end_input E_CANCELED c)\<lparr>recv := RECV_DONE\<rparr>) p);
        Some (conn_unref i p) })"


section \<open>Accepting\<close>

definition accept_room :: "proactor \<Rightarrow> bool" where
  "accept_room p \<longleftrightarrow> \<not> draining p \<and> (file_slots p = 0 \<or> live_count p < file_slots p)"

definition upd_listener :: "nat \<Rightarrow> (listener \<Rightarrow> listener) \<Rightarrow> proactor \<Rightarrow> proactor" where
  "upd_listener l f p = p\<lparr>listeners := (listeners p)[l := f (listeners p ! l)]\<rparr>"

definition stall_accept :: "nat \<Rightarrow> proactor \<Rightarrow> proactor" where
  "stall_accept l p =
     upd_listener l (\<lambda>x. x\<lparr>stalled := True, stalled_live := live_count p, retry_at := clock p + 1\<rparr>) p"

definition arm_accept :: "nat \<Rightarrow> proactor \<Rightarrow> proactor" where
  "arm_accept l p =
     (if \<not> accept_room p then stall_accept l p
      else stage (Sqe_accept l) (upd_listener l (\<lambda>x. x\<lparr>stalled := False\<rparr>) p))"

fun rearm_each :: "nat list \<Rightarrow> proactor \<Rightarrow> proactor" where
  "rearm_each [] p = p"
| "rearm_each (l # ls) p =
     rearm_each ls
       (let x = listeners p ! l
        in if stalled x \<and> (live_count p < stalled_live x \<or> clock p \<ge> retry_at x) then arm_accept l p else p)"

definition rearm_stalled :: "proactor \<Rightarrow> proactor" where
  "rearm_stalled p =
     (if \<not> (\<exists>x \<in> set (listeners p). stalled x) then p else rearm_each [0..<length (listeners p)] p)"

definition accept_exhausted :: "int \<Rightarrow> bool" where
  "accept_exhausted e \<longleftrightarrow> e = - 23 \<or> e = - 24 \<or> e = - 12 \<or> e = E_NOBUFS"

definition note_accept_error :: "nat \<Rightarrow> proactor \<Rightarrow> proactor" where
  "note_accept_error l p =
     (let p = upd_listener l (\<lambda>x. x\<lparr>err_since_log := err_since_log x + 1\<rparr>) p in
      if clock p < err_log_at (listeners p ! l) then p
      else upd_listener l (\<lambda>x. x\<lparr>err_since_log := 0, err_log_at := clock p + 1\<rparr>) p)"

text \<open>A new coroutine, with what its handler will do.\<close>

definition ioxd__proactor_spawn :: "nat \<Rightarrow> hop list \<Rightarrow> proactor \<Rightarrow> proactor" where
  "ioxd__proactor_spawn i todo p = (upd i (\<lambda>c. c\<lparr>co_todo := todo, in_op := False\<rparr>) p)\<lparr>ready := ready p @ [i]\<rparr>"

definition on_accept :: "nat \<Rightarrow> int \<Rightarrow> u32 \<Rightarrow> nat \<Rightarrow> hop list \<Rightarrow> proactor \<Rightarrow> proactor" where
  "on_accept l result flags fresh todo p =
     (let p =
        (if result \<ge> 0 \<and> draining p then ioxd__conn_close_socket p result
         else if result \<ge> 0 then
           let (i, p) = ioxd__conn_new p fresh (l_tls (listeners p ! l)) result;
               p = ioxd__conn_arm_recv p i;
               p = ioxd__proactor_spawn i todo p
           in p\<lparr>accepted := accepted p + 1\<rparr>
         else if \<not> (draining p \<and> result = E_CANCELED) then note_accept_error l p
         else p)
      in if flags AND CQE_F_MORE \<noteq> 0 then p
      else if result < 0 \<and> accept_exhausted result then stall_accept l p
      else arm_accept l p)"


section \<open>The loop\<close>

text \<open>A completion by its tag; \<open>Cqe_op\<close> is that of the operation the coroutine of a connection awaits.\<close>

datatype cqe =
    Cqe_op nat | Cqe_recv nat int u32 | Cqe_accept nat int u32 nat "hop list" | Cqe_close int | Cqe_drain int | Cqe_ignore

fun dispatch :: "proactor \<Rightarrow> cqe \<Rightarrow> proactor option" where
  "dispatch p (Cqe_op i) = run_co i (co_todo (conns p i)) (upd i (\<lambda>c. c\<lparr>in_op := False\<rparr>) p)"
| "dispatch p (Cqe_recv i res flags) = ioxd__conn_on_recv p i res flags"
| "dispatch p (Cqe_accept l res flags fresh todo) = Some (on_accept l res flags fresh todo p)"
| "dispatch p (Cqe_close res) = Some p"
| "dispatch p (Cqe_drain res) = Some (if res < 0 \<and> res \<noteq> E_NOENT then p\<lparr>cancel_each := True\<rparr> else p)"
| "dispatch p Cqe_ignore = Some p"

partial_function (option) run_ready :: "proactor \<Rightarrow> proactor option" where
  "run_ready p =
     (case ready p of
        [] \<Rightarrow> Some p
      | i # rest \<Rightarrow> do { p \<leftarrow> run_co i (co_todo (conns p i)) (p\<lparr>ready := rest\<rparr>); run_ready p })"

definition rearm_starved :: "proactor \<Rightarrow> proactor" where
  "rearm_starved p =
     (let room = unat (returned (p_bufs p));
          p = p\<lparr>p_bufs := (p_bufs p)\<lparr>returned := 0\<rparr>\<rparr>
      in if starved p = [] \<or> room = 0 then p
      else
        let n = (if room < length (starved p) then room else length (starved p));
            p = foldl (\<lambda>p i. ioxd__conn_arm_recv p i) p (take n (starved p))
        in p\<lparr>starved := drop n (starved p)\<rparr>)"

partial_function (option) drain_starved :: "proactor \<Rightarrow> proactor option" where
  "drain_starved p =
     (if starved p = [] then Some p
      else do { p \<leftarrow> ioxd__conn_recv_drain (last (starved p)) (p\<lparr>starved := butlast (starved p)\<rparr>); drain_starved p })"

definition begin_drain :: "proactor \<Rightarrow> proactor option" where
  "begin_drain p =
     (let p = p\<lparr>draining := True\<rparr>;
          p = foldl (\<lambda>p l. upd_listener l (\<lambda>x. x\<lparr>stalled := True\<rparr>)
                (if \<not> stalled (listeners p ! l) then stage (Sqe_cancel_accept l) p else p)) p [0..<length (listeners p)];
          p = stage Sqe_cancel_any p
      in drain_starved p)"

definition publish :: "proactor \<Rightarrow> proactor" where
  "publish p = p\<lparr>p_bufs := ioxd__bufring_publish (p_bufs p)\<rparr>"

end
