(* ===== verification/Worker_Inv.thy ===== *)
theory Worker_Inv
  imports Worker
begin

text \<open>
  The invariant of a worker: who holds a reference to a connection, which receives the kernel has, where a
  delivered buffer is, and what a waiting coroutine waits for.  It is stated for one connection at a time,
  with what the code in the middle of handling it still owes, and every operation on a connection is shown to
  keep it and to leave the others alone.
\<close>

section \<open>The invariant\<close>

definition used :: "proactor \<Rightarrow> nat set" where
  "used p = allocated p - set (conn_free p)"

definition queued :: "conn \<Rightarrow> 16 word list" where
  "queued c = map rx_buf_id (spsc_contents (rx c))"

text \<open>Since its receive was last armed, the kernel was asked to cancel it.\<close>

definition stop_asked :: "nat \<Rightarrow> sqe list \<Rightarrow> bool" where
  "stop_asked i st \<longleftrightarrow> Sqe_cancel_recv i \<in> set (takeWhile (\<lambda>s. s \<noteq> Sqe_recv i) (rev st))"

lemma stop_asked_snoc [simp]: "stop_asked i (st @ [s]) \<longleftrightarrow> s \<noteq> Sqe_recv i \<and> (s = Sqe_cancel_recv i \<or> stop_asked i st)"
  by (auto simp: stop_asked_def)

text \<open>
  A connection \<open>c\<close> with \<open>n\<close> receives in flight, on the list of starved connections or not, with its
  coroutine ready to start or not and its receive told to stop or not.  \<open>fin\<close>: its last completion is being handled; \<open>cr\<close>: references that are
  about to be dropped; \<open>owe\<close>: buffers that were delivered and are in nobody's hands yet.
\<close>

definition cinv :: "bool \<Rightarrow> int \<Rightarrow> 16 word list \<Rightarrow> u32 \<Rightarrow> conn \<Rightarrow> nat \<Rightarrow> bool \<Rightarrow> bool \<Rightarrow> bool \<Rightarrow> bool" where
  "cinv fin cr owe cnt c n st rd told \<longleftrightarrow>
     refs c = (if closed c then 0 else 1) + (if recv c = RECV_DONE then 0 else 1) + cr \<and> 0 < refs c \<and> 0 \<le> cr \<and>
     n = (if recv c = RECV_ARMED \<and> \<not> fin then 1 else 0) \<and> (st \<longleftrightarrow> recv c = RECV_STARVED) \<and>
     (recv c = RECV_DONE \<longrightarrow> eof c \<or> closed c) \<and> (cancelling c \<longrightarrow> told) \<and> (closed c \<and> recv c = RECV_ARMED \<and> \<not> fin \<longrightarrow> cancelling c) \<and>
     (closed c \<longrightarrow> \<not> waiter c \<and> \<not> in_op c \<and> \<not> rd) \<and> (waiter c \<longrightarrow> \<not> in_op c \<and> \<not> rd) \<and> (in_op c \<longrightarrow> \<not> rd) \<and>
     spsc_good (rx c) \<and> (\<forall>b \<in> set (queued c) \<union> set (c_held c) \<union> set owe. unat b < unat cnt) \<and>
     mset (c_got c) = mset (c_gave c) + mset (queued c) + mset (c_held c) + mset owe"

abbreviation cinv_at :: "bool \<Rightarrow> int \<Rightarrow> 16 word list \<Rightarrow> u32 \<Rightarrow> proactor \<Rightarrow> nat \<Rightarrow> bool" where
  "cinv_at fin cr owe cnt p i \<equiv>
     cinv fin cr owe cnt (conns p i) (count_list (inflight p) i) (i \<in> set (starved p)) (i \<in> set (ready p)) (stop_asked i (staged p))"

lemma cinv_told: "cinv fin cr owe cnt c n st rd t \<Longrightarrow> (t \<Longrightarrow> t') \<Longrightarrow> cinv fin cr owe cnt c n st rd t'"
  unfolding cinv_def by blast

definition glob :: "u32 \<Rightarrow> proactor \<Rightarrow> bool" where
  "glob cnt p \<longleftrightarrow> finite (allocated p) \<and> set (conn_free p) \<subseteq> allocated p \<and> distinct (conn_free p) \<and>
     conn_free_count p = length (conn_free p) \<and> live_count p = card (used p) \<and> distinct (starved p) \<and> distinct (ready p) \<and>
     set (starved p) \<union> set (inflight p) \<union> set (ready p) \<subseteq> used p \<and> b_count (p_bufs p) = cnt \<and>
     (\<forall>i \<in> set (conn_free p). spsc_good (rx (conns p i)))"

definition W :: "u32 \<Rightarrow> proactor \<Rightarrow> bool" where
  "W cnt p \<longleftrightarrow> glob cnt p \<and> (\<forall>j \<in> used p. cinv_at False 0 [] cnt p j)"

definition Wx :: "nat \<Rightarrow> bool \<Rightarrow> int \<Rightarrow> 16 word list \<Rightarrow> u32 \<Rightarrow> proactor \<Rightarrow> bool" where
  "Wx i fin cr owe cnt p \<longleftrightarrow> glob cnt p \<and> i \<in> used p \<and> cinv_at fin cr owe cnt p i \<and> (\<forall>j \<in> used p - {i}. cinv_at False 0 [] cnt p j)"

text \<open>What an operation on connection \<open>i\<close> leaves alone.\<close>

definition frame :: "nat \<Rightarrow> proactor \<Rightarrow> proactor \<Rightarrow> bool" where
  "frame i p p' \<longleftrightarrow> ready p' = ready p \<and> length (starved p') \<le> length (starved p) \<and>
     (\<forall>j. j \<noteq> i \<longrightarrow> conns p' j = conns p j \<and> count_list (inflight p') j = count_list (inflight p) j \<and>
        (j \<in> used p' \<longleftrightarrow> j \<in> used p) \<and> (j \<in> set (starved p') \<longleftrightarrow> j \<in> set (starved p)))"

lemma frame_refl [simp]: "frame i p p"
  by (simp add: frame_def)

lemma frame_trans: "frame i p q \<Longrightarrow> frame i q r \<Longrightarrow> frame i p r"
  by (auto simp: frame_def)

lemma Wx_W: "Wx i False 0 [] cnt p \<longleftrightarrow> W cnt p \<and> i \<in> used p"
  by (auto simp: Wx_def W_def)

section \<open>Primitive steps\<close>

lemma upd_simps [simp]:
  "conns (upd i f p) = (conns p)(i := f (conns p i))" "allocated (upd i f p) = allocated p" "conn_free (upd i f p) = conn_free p"
  "conn_free_count (upd i f p) = conn_free_count p" "live_count (upd i f p) = live_count p" "p_bufs (upd i f p) = p_bufs p"
  "starved (upd i f p) = starved p" "ready (upd i f p) = ready p" "inflight (upd i f p) = inflight p" "draining (upd i f p) = draining p"
  "cancel_each (upd i f p) = cancel_each p" "staged (upd i f p) = staged p" "idle_connections (upd i f p) = idle_connections p"
  by (simp_all add: upd_def)

lemma used_upd [simp]: "used (upd i f p) = used p"
  by (simp add: used_def)

lemma glob_upd:
  assumes "glob cnt p" and "i \<in> used p"
  shows "glob cnt (upd i f p)"
  using assms by (auto simp: glob_def used_def)

lemma frame_upd [simp]: "frame i p (upd i f p)"
  by (simp add: frame_def)

lemma Wx_upd:
  assumes "Wx i fin cr owe cnt p" and "cinv fin' cr' owe' cnt (f (conns p i)) (count_list (inflight p) i) (i \<in> set (starved p)) (i \<in> set (ready p)) (stop_asked i (staged p))"
  shows "Wx i fin' cr' owe' cnt (upd i f p)"
  using assms by (simp add: Wx_def glob_upd)

lemma stage_simps [simp]:
  "conns (stage s p) = conns p" "allocated (stage s p) = allocated p" "conn_free (stage s p) = conn_free p"
  "conn_free_count (stage s p) = conn_free_count p" "live_count (stage s p) = live_count p" "p_bufs (stage s p) = p_bufs p"
  "starved (stage s p) = starved p" "ready (stage s p) = ready p" "draining (stage s p) = draining p" "used (stage s p) = used p"
  "cancel_each (stage s p) = cancel_each p" "staged (stage s p) = staged p @ [s]" "(\<forall>i. s \<noteq> Sqe_recv i) \<Longrightarrow> inflight (stage s p) = inflight p"
  "inflight (stage (Sqe_recv i) p) = i # inflight p"
  by (auto simp: stage_def used_def split: sqe.splits)

lemma Wx_stage:
  assumes "\<forall>i. s \<noteq> Sqe_recv i"
  shows "Wx i fin cr owe cnt p \<Longrightarrow> Wx i fin cr owe cnt (stage s p)" "frame i p (stage s p)"
proof -
  have t: "cinv fin cr owe cnt c n a b (stop_asked j (staged p)) \<Longrightarrow> cinv fin cr owe cnt c n a b (stop_asked j (staged p @ [s]))" for fin cr owe c n a b j
    using assms by (auto elim!: cinv_told)
  show "Wx i fin cr owe cnt (stage s p)" if "Wx i fin cr owe cnt p"
    using assms that t unfolding Wx_def glob_def by (simp del: stop_asked_snoc)
  show "frame i p (stage s p)" using assms by (simp add: frame_def)
qed

lemma Wx_cancel: "Wx i fin cr owe cnt p \<Longrightarrow> Wx i fin cr owe cnt (cancel_recv i p)"
proof (cases "cancelling (conns p i)")
  case False
  assume W: "Wx i fin cr owe cnt p"
  let ?f = "\<lambda>c. c\<lparr>cancelling := True\<rparr>" and ?s = "Sqe_cancel_recv i"
  have e: "cancel_recv i p = upd i ?f (stage ?s p)" using False by (simp add: cancel_recv_def stage_def upd_def)
  have "Wx i fin cr owe cnt (stage ?s p)" using W by (intro Wx_stage) simp_all
  then show ?thesis unfolding e by (rule Wx_upd) (use W in \<open>auto simp: Wx_def cinv_def queued_def\<close>)
qed (simp add: cancel_recv_def)

lemma Wx_cinv: "Wx i fin cr owe cnt p \<Longrightarrow> cinv_at fin cr owe cnt p i"
  by (simp add: Wx_def)

lemma Wx_used: "Wx i fin cr owe cnt p \<Longrightarrow> i \<in> used p"
  by (simp add: Wx_def)

lemma frame_cancel [simp]: "frame i p (cancel_recv i p)"
  by (auto simp: cancel_recv_def frame_def)

lemma cancel_fields [simp]:
  "recv (conns (cancel_recv i p) i) = recv (conns p i)" "closed (conns (cancel_recv i p) i) = closed (conns p i)"
  "waiter (conns (cancel_recv i p) i) = waiter (conns p i)" "in_op (conns (cancel_recv i p) i) = in_op (conns p i)"
  "eof (conns (cancel_recv i p) i) = eof (conns p i)" "rx (conns (cancel_recv i p) i) = rx (conns p i)"
  "c_held (conns (cancel_recv i p) i) = c_held (conns p i)" "co_todo (conns (cancel_recv i p) i) = co_todo (conns p i)"
  "pausing (conns (cancel_recv i p) i) = pausing (conns p i)" "refs (conns (cancel_recv i p) i) = refs (conns p i)"
  "ready (cancel_recv i p) = ready p" "cancelling (conns (cancel_recv i p) i)" "starved (cancel_recv i p) = starved p" "used (cancel_recv i p) = used p"
  by (auto simp: cancel_recv_def)

lemma bufring_return_ok:
  assumes "unat b < unat (b_count r)"
  shows "\<exists>r'. ioxd__bufring_return r b = Some r' \<and> b_count r' = b_count r"
  using assms by (auto simp: ioxd__bufring_return_def ioxd__bufring_at_def)

lemma used_bufs [simp]: "used (p\<lparr>p_bufs := r\<rparr>) = used p"
  by (simp add: used_def)

lemma give_back_ok:
  assumes "Wx i fin cr (b # owe) cnt p"
  shows "\<exists>p'. give_back i b p = Some p' \<and> Wx i fin cr owe cnt p' \<and> frame i p p' \<and> conns p' i = (conns p i)\<lparr>c_gave := b # c_gave (conns p i)\<rparr> \<and>
    ready p' = ready p \<and> starved p' = starved p \<and> used p' = used p"
proof -
  have g: "b_count (p_bufs p) = cnt" using assms by (simp add: Wx_def glob_def)
  have c: "cinv_at fin cr (b # owe) cnt p i" by (rule Wx_cinv[OF assms])
  then have "unat b < unat cnt" by (simp add: cinv_def)
  then obtain r where r: "ioxd__bufring_return (p_bufs p) b = Some r" "b_count r = cnt" using bufring_return_ok[of b "p_bufs p"] g by auto
  let ?q = "p\<lparr>p_bufs := r\<rparr>" and ?f = "\<lambda>c. c\<lparr>c_gave := b # c_gave c\<rparr>"
  have "Wx i fin cr (b # owe) cnt ?q" using assms r(2) by (simp add: Wx_def glob_def)
  moreover have "cinv fin cr owe cnt (?f (conns ?q i)) (count_list (inflight ?q) i) (i \<in> set (starved ?q)) (i \<in> set (ready ?q)) (stop_asked i (staged ?q))"
    using c by (simp add: cinv_def queued_def)
  ultimately have "Wx i fin cr owe cnt (upd i ?f ?q)" by (rule Wx_upd)
  moreover have "frame i p (upd i ?f ?q)" by (simp add: frame_def)
  ultimately show ?thesis using r(1) by (simp add: give_back_def)
qed

lemma queued_pop:
  assumes "spsc_good (rx c)" and "\<not> ioxd__spsc_empty (rx c)" and "ioxd__spsc_pop (rx c) = (it, q)"
  shows "spsc_good q" "queued c = rx_buf_id it # queued (c\<lparr>rx := q\<rparr>)"
  using spsc_pop_contents[OF assms(1,2)] assms(3) by (auto simp: queued_def)

lemma queued_empty: "spsc_good (rx c) \<Longrightarrow> ioxd__spsc_empty (rx c) \<longleftrightarrow> queued c = []"
  using rxq.empty_iff[of "rx c"] by (simp add: queued_def)

lemma queued_other [simp]: "rx (f c) = rx c \<Longrightarrow> queued (f c) = queued c"
  by (simp add: queued_def)

lemma Wx_pop:
  assumes W: "Wx i fin cr owe cnt p" and ne: "\<not> ioxd__spsc_empty (rx (conns p i))" and pop: "ioxd__spsc_pop (rx (conns p i)) = (it, q)"
  shows "Wx i fin cr (rx_buf_id it # owe) cnt (upd i (\<lambda>c. c\<lparr>rx := q\<rparr>) p)"
    and "Wx i fin cr owe cnt (upd i (\<lambda>c. c\<lparr>rx := q, c_held := c_held c @ [rx_buf_id it]\<rparr>) p)"
proof -
  have c: "cinv_at fin cr owe cnt p i" by (rule Wx_cinv[OF W])
  then have "spsc_good (rx (conns p i))" by (simp add: cinv_def)
  note P = queued_pop[OF this ne pop]
  have q: "queued ((conns p i)\<lparr>rx := q, c_held := h\<rparr>) = queued ((conns p i)\<lparr>rx := q\<rparr>)" for h by (simp add: queued_def)
  show "Wx i fin cr (rx_buf_id it # owe) cnt (upd i (\<lambda>c. c\<lparr>rx := q\<rparr>) p)"
    by (rule Wx_upd[OF W]) (use c P in \<open>simp add: cinv_def\<close>)
  show "Wx i fin cr owe cnt (upd i (\<lambda>c. c\<lparr>rx := q, c_held := c_held c @ [rx_buf_id it]\<rparr>) p)"
    by (rule Wx_upd[OF W]) (use c P in \<open>auto simp: cinv_def q\<close>)
qed

lemma drain_rx_ok:
  assumes "Wx i fin cr owe cnt p"
  shows "\<exists>p'. drain_rx i p = Some p' \<and> Wx i fin cr owe cnt p' \<and> frame i p p' \<and> queued (conns p' i) = [] \<and>
    (\<exists>q g. conns p' i = (conns p i)\<lparr>rx := q, c_gave := g\<rparr>)"
  using assms
proof (induction "length (queued (conns p i))" arbitrary: p)
  case (0 p)
  have e: "ioxd__spsc_empty (rx (conns p i))" using 0 queued_empty[of "conns p i"] Wx_cinv[OF 0(2)] by (simp add: cinv_def)
  have "\<exists>q g. conns p i = (conns p i)\<lparr>rx := q, c_gave := g\<rparr>" by (intro exI[of _ "rx (conns p i)"] exI[of _ "c_gave (conns p i)"]) simp
  then show ?case using 0 e by (simp add: drain_rx.simps)
next
  case (Suc n p)
  have g: "spsc_good (rx (conns p i))" using Wx_cinv[OF Suc(3)] by (simp add: cinv_def)
  then have ne: "\<not> ioxd__spsc_empty (rx (conns p i))" using Suc(2) queued_empty[OF g] by auto
  obtain it q where pop: "ioxd__spsc_pop (rx (conns p i)) = (it, q)" by fastforce
  let ?p = "upd i (\<lambda>c. c\<lparr>rx := q\<rparr>) p"
  obtain p1 where p1: "give_back i (rx_buf_id it) ?p = Some p1" "Wx i fin cr owe cnt p1" "frame i ?p p1"
    "conns p1 i = (conns ?p i)\<lparr>c_gave := rx_buf_id it # c_gave (conns ?p i)\<rparr>"
    using give_back_ok[OF Wx_pop(1)[OF Suc(3) ne pop]] by blast
  have "queued (conns p1 i) = queued ((conns p i)\<lparr>rx := q\<rparr>)" using p1(4) by (simp add: queued_def)
  then have "n = length (queued (conns p1 i))" using Suc(2) queued_pop(2)[OF g ne pop] by simp
  from Suc(1)[OF this p1(2)] obtain p2 where p2: "drain_rx i p1 = Some p2" "Wx i fin cr owe cnt p2" "frame i p1 p2" "queued (conns p2 i) = []"
    "\<exists>q g. conns p2 i = (conns p1 i)\<lparr>rx := q, c_gave := g\<rparr>" by blast
  have "frame i p p2" using frame_trans[OF frame_trans[OF frame_upd p1(3)] p2(3)] .
  moreover have "\<exists>q g. conns p2 i = (conns p i)\<lparr>rx := q, c_gave := g\<rparr>" using p2(5) p1(4) by auto
  ultimately show ?case using ne pop p1(1) p2 by (simp add: drain_rx.simps[of _ p])
qed

lemma give_all_ok:
  assumes "Wx i fin cr owe cnt p" and "c_held (conns p i) = bs"
  shows "\<exists>p'. give_all i bs p = Some p' \<and> Wx i fin cr owe cnt p' \<and> frame i p p' \<and> (\<exists>g. conns p' i = (conns p i)\<lparr>c_held := [], c_gave := g\<rparr>)"
  using assms
proof (induction bs arbitrary: p)
  case Nil
  have "\<exists>g. conns p i = (conns p i)\<lparr>c_held := [], c_gave := g\<rparr>" using Nil(2) by (intro exI[of _ "c_gave (conns p i)"]) simp
  then show ?case using Nil by simp
next
  case (Cons b bs)
  let ?p = "upd i (\<lambda>c. c\<lparr>c_held := bs\<rparr>) p"
  have "Wx i fin cr (b # owe) cnt ?p" by (rule Wx_upd[OF Cons.prems(1)]) (use Wx_cinv[OF Cons.prems(1)] Cons.prems(2) in \<open>auto simp: cinv_def queued_def\<close>)
  then obtain p1 where p1: "give_back i b ?p = Some p1" "Wx i fin cr owe cnt p1" "frame i ?p p1" "conns p1 i = (conns ?p i)\<lparr>c_gave := b # c_gave (conns ?p i)\<rparr>"
    using give_back_ok by blast
  then obtain p2 where p2: "give_all i bs p1 = Some p2" "Wx i fin cr owe cnt p2" "frame i p1 p2" "\<exists>g. conns p2 i = (conns p1 i)\<lparr>c_held := [], c_gave := g\<rparr>"
    using Cons.IH[of p1] by auto
  have "frame i p p2" using frame_trans[OF frame_trans[OF frame_upd p1(3)] p2(3)] .
  then show ?case using p1(1,4) p2 by auto
qed

lemma remove_simps [simp]:
  "conns (starved_remove i p) = conns p" "inflight (starved_remove i p) = inflight p" "ready (starved_remove i p) = ready p"
  "used (starved_remove i p) = used p" "staged (starved_remove i p) = staged p" "starved (starved_remove i p) = remove1 i (starved p)" "draining (starved_remove i p) = draining p"
  by (simp_all add: starved_remove_def used_def)

lemma frame_remove: "frame i p (starved_remove i p)"
  by (auto simp: frame_def length_remove1)

lemma Wx_remove:
  assumes "Wx i fin cr owe cnt p" and "cinv fin' cr' owe' cnt (f (conns p i)) (count_list (inflight p) i) False (i \<in> set (ready p)) (stop_asked i (staged p))"
  shows "Wx i fin' cr' owe' cnt (upd i f (starved_remove i p))"
proof -
  have d: "distinct (starved p)" using assms(1) by (simp add: Wx_def glob_def)
  have "glob cnt (starved_remove i p)" using assms(1) d by (auto simp: Wx_def glob_def starved_remove_def used_def dest: notin_set_remove1 subsetD)
  then have "glob cnt (upd i f (starved_remove i p))" using assms(1) by (intro glob_upd) (simp_all add: Wx_def)
  then show ?thesis using assms d by (simp add: Wx_def)
qed

lemma unref_ok:
  assumes W: "Wx i fin (cr + 1) owe cnt p" and cr: "0 \<le> cr"
  shows "frame i p (conn_unref i p) \<and> (if refs (conns p i) = 1 then i \<notin> used (conn_unref i p) \<and> W cnt (conn_unref i p) else
    Wx i fin cr owe cnt (conn_unref i p) \<and> conns (conn_unref i p) i = (conns p i)\<lparr>refs := refs (conns p i) - 1\<rparr>)"
proof (cases "refs (conns p i) = 1")
  case False
  have c: "cinv_at fin (cr + 1) owe cnt p i" by (rule Wx_cinv[OF W])
  then have "Wx i fin cr owe cnt (upd i (\<lambda>c. c\<lparr>refs := refs c - 1\<rparr>) p)" using False cr by (intro Wx_upd[OF W]) (simp add: cinv_def)
  then show ?thesis using False by (simp add: conn_unref_def)
next
  case True
  let ?p = "upd i (\<lambda>c. c\<lparr>refs := refs c - 1\<rparr>) p"
  have c: "cinv_at fin (cr + 1) owe cnt p i" by (rule Wx_cinv[OF W])
  have s: "closed (conns p i)" "recv (conns p i) = RECV_DONE" using c True cr by (auto simp: cinv_def split: if_splits)
  then have o: "i \<notin> set (ready p)" "i \<notin> set (starved p)" "i \<notin> set (inflight p)" "spsc_good (rx (conns p i))" using c by (auto simp: cinv_def count_list_0_iff)
  have g: "glob cnt p" "i \<in> used p" "\<forall>j \<in> used p - {i}. cinv_at False 0 [] cnt p j" using W by (auto simp: Wx_def)
  have u: "used (conn_unref i p) = used p - {i}" using True by (auto simp: conn_unref_def used_def Let_def)
  have "card (used p - {i}) = card (used p) - 1" using g(1,2) by (simp add: glob_def used_def)
  then have "glob cnt (conn_unref i p)"
    using g(1,2) o True u unfolding glob_def conn_unref_def Let_def by (auto simp: used_def)
  moreover have "cinv_at False 0 [] cnt (conn_unref i p) j" if "j \<in> used p - {i}" for j
    using g(3) that True by (auto simp: conn_unref_def Let_def)
  moreover have "frame i p (conn_unref i p)" using u True by (auto simp: frame_def conn_unref_def Let_def)
  ultimately show ?thesis using True u by (simp add: W_def)
qed

text \<open>The coroutine of \<open>i\<close> runs: it is not parked, and its connection is open.\<close>

definition running :: "nat \<Rightarrow> proactor \<Rightarrow> bool" where
  "running i p \<longleftrightarrow> \<not> closed (conns p i) \<and> \<not> waiter (conns p i) \<and> \<not> in_op (conns p i) \<and> i \<notin> set (ready p)"

lemma close_begin:
  fixes p i
  defines "p1 \<equiv> upd i (\<lambda>c. c\<lparr>closed := True\<rparr>) p"
  defines "p2 \<equiv> (if recv (conns p1 i) = RECV_ARMED then cancel_recv i p1
               else if recv (conns p1 i) = RECV_STARVED \<or> recv (conns p1 i) = RECV_PAUSED then
                 let p = (if recv (conns p1 i) = RECV_STARVED then starved_remove i p1 else p1)
                 in upd i (\<lambda>c. c\<lparr>recv := RECV_DONE, refs := refs c - 1\<rparr>) p
               else p1)"
  assumes W: "Wx i fin cr owe cnt p" and r: "running i p"
  shows "Wx i fin (cr + 1) owe cnt p2" "frame i p p2" "closed (conns p2 i)" "c_held (conns p2 i) = c_held (conns p i)"
    "recv (conns p2 i) = (if recv (conns p i) = RECV_ARMED then RECV_ARMED else RECV_DONE)"
proof -
  have c: "cinv_at fin cr owe cnt p i" by (rule Wx_cinv[OF W])
  have cr0: "0 \<le> cr" using c by (simp add: cinv_def)
  have W1: "Wx i fin (cr + 1) owe cnt p1" if "recv (conns p i) \<noteq> RECV_ARMED"
    unfolding p1_def by (rule Wx_upd[OF W]) (use c r that in \<open>simp add: cinv_def running_def\<close>)
  note c1 = Wx_cinv[OF W1]
  have f1: "frame i p p1" by (simp add: p1_def)
  have e: "recv (conns p1 i) = recv (conns p i)" "closed (conns p1 i)" "c_held (conns p1 i) = c_held (conns p i)" by (simp_all add: p1_def)
  have "Wx i fin (cr + 1) owe cnt p2 \<and> frame i p p2"
  proof (cases "recv (conns p i)")
    case RECV_ARMED
    then have p2: "p2 = cancel_recv i p1" by (simp add: p2_def e)
    also have "\<dots> = upd i (\<lambda>c. c\<lparr>closed := True\<rparr>) (cancel_recv i p)"
    proof -
      have x: "(conns p i)\<lparr>closed := True, cancelling := True\<rparr> = (conns p i)\<lparr>cancelling := True, closed := True\<rparr>" by simp
      show ?thesis by (simp add: p1_def cancel_recv_def upd_def stage_def x)
    qed
    also have "Wx i fin (cr + 1) owe cnt \<dots>"
      by (rule Wx_upd[OF Wx_cancel[OF W]]) (use Wx_cinv[OF Wx_cancel[OF W]] r in \<open>simp add: cinv_def running_def\<close>)
    finally show ?thesis using frame_trans[OF f1 frame_cancel] p2 by simp
  next
    case RECV_STARVED
    then have n: "recv (conns p i) \<noteq> RECV_ARMED" by simp
    from RECV_STARVED have p2: "p2 = upd i (\<lambda>c. c\<lparr>recv := RECV_DONE, refs := refs c - 1\<rparr>) (starved_remove i p1)" by (simp add: p2_def e)
    have "Wx i fin (cr + 1) owe cnt p2" unfolding p2 by (rule Wx_remove[OF W1[OF n]]) (use c1[OF n] cr0 e RECV_STARVED in \<open>simp add: cinv_def\<close>)
    then show ?thesis using frame_trans[OF frame_trans[OF f1 frame_remove] frame_upd] p2 by blast
  next
    case RECV_PAUSED
    then have n: "recv (conns p i) \<noteq> RECV_ARMED" by simp
    from RECV_PAUSED have p2: "p2 = upd i (\<lambda>c. c\<lparr>recv := RECV_DONE, refs := refs c - 1\<rparr>) p1" by (simp add: p2_def e)
    have "Wx i fin (cr + 1) owe cnt p2" unfolding p2 by (rule Wx_upd[OF W1[OF n]]) (use c1[OF n] cr0 e RECV_PAUSED in \<open>simp add: cinv_def\<close>)
    then show ?thesis using frame_trans[OF f1 frame_upd] p2 by blast
  next
    case RECV_DONE
    then show ?thesis using W1 f1 e by (simp add: p2_def)
  qed
  then show "Wx i fin (cr + 1) owe cnt p2" "frame i p p2" by blast+
  show "closed (conns p2 i)" "c_held (conns p2 i) = c_held (conns p i)"
    "recv (conns p2 i) = (if recv (conns p i) = RECV_ARMED then RECV_ARMED else RECV_DONE)"
    using e by (cases "recv (conns p i)"; simp add: p2_def)+
qed

lemma conn_close_ok:
  assumes W: "Wx i fin cr owe cnt p" and r: "running i p"
  shows "\<exists>p'. ioxd__conn_close i p = Some p' \<and> frame i p p' \<and>
    (if recv (conns p i) = RECV_ARMED \<or> cr > 0 then Wx i fin cr owe cnt p' \<and> closed (conns p' i) \<and> queued (conns p' i) = [] \<and>
       c_held (conns p' i) = c_held (conns p i) \<and> recv (conns p' i) = (if recv (conns p i) = RECV_ARMED then RECV_ARMED else RECV_DONE)
     else i \<notin> used p' \<and> W cnt p')"
proof -
  define p1 where "p1 = upd i (\<lambda>c. c\<lparr>closed := True\<rparr>) p"
  define p2 where "p2 = (if recv (conns p1 i) = RECV_ARMED then cancel_recv i p1
               else if recv (conns p1 i) = RECV_STARVED \<or> recv (conns p1 i) = RECV_PAUSED then
                 let p = (if recv (conns p1 i) = RECV_STARVED then starved_remove i p1 else p1)
                 in upd i (\<lambda>c. c\<lparr>recv := RECV_DONE, refs := refs c - 1\<rparr>) p
               else p1)"
  note B = close_begin[OF W r, folded p1_def, folded p2_def]
  obtain p3 where p3: "drain_rx i p2 = Some p3" "Wx i fin (cr + 1) owe cnt p3" "frame i p2 p3" "queued (conns p3 i) = []"
    "\<exists>q g. conns p3 i = (conns p2 i)\<lparr>rx := q, c_gave := g\<rparr>" using drain_rx_ok[OF B(1)] by blast
  have k: "closed (conns p3 i)" "c_held (conns p3 i) = c_held (conns p i)" "recv (conns p3 i) = (if recv (conns p i) = RECV_ARMED then RECV_ARMED else RECV_DONE)"
    using p3(5) B(3-5) by auto
  define p4 where "p4 = ioxd__conn_close_socket p3 (c_fd (conns p3 i))"
  have W4: "Wx i fin (cr + 1) owe cnt p4" and f4: "frame i p3 p4" and c4: "conns p4 = conns p3"
    using p3(2) by (simp_all add: p4_def ioxd__conn_close_socket_def Wx_stage)
  have cr: "0 \<le> cr" using Wx_cinv[OF W] by (simp add: cinv_def)
  have refs: "refs (conns p4 i) = 1 \<longleftrightarrow> \<not> (recv (conns p i) = RECV_ARMED \<or> cr > 0)"
    using Wx_cinv[OF W4] k cr by (auto simp: cinv_def c4 split: if_splits)
  note U = unref_ok[OF W4 cr]
  have "frame i p (conn_unref i p4)" using frame_trans[OF frame_trans[OF frame_trans[OF B(2) p3(3)] f4]] U by blast
  moreover have "ioxd__conn_close i p = Some (conn_unref i p4)"
    unfolding ioxd__conn_close_def by (simp only: Let_def p1_def[symmetric] p2_def[unfolded Let_def, symmetric] p3(1) bind.bind_lunit p4_def)
  moreover have "queued (c\<lparr>refs := n\<rparr>) = queued c" for c n by (simp add: queued_def)
  ultimately show ?thesis using U refs k p3(4) by (auto simp: c4)
qed


section \<open>The coroutine\<close>

text \<open>
  Where a coroutine stands while the worker does something else: a closed connection holds nothing; an open
  one has its coroutine parked in one place, and it waits for bytes only when there are none and the input has not
  ended, for a pause only while the receive is armed.
\<close>

abbreviation plain_ops :: "hop list \<Rightarrow> bool" where
  "plain_ops ops \<equiv> Pause_wait \<notin> set ops"

definition quiet :: "conn \<Rightarrow> bool \<Rightarrow> bool" where
  "quiet c rd \<longleftrightarrow> (closed c \<longrightarrow> queued c = [] \<and> c_held c = [] \<and> (recv c = RECV_ARMED \<or> recv c = RECV_DONE)) \<and> (\<not> closed c \<longrightarrow> waiter c \<or> in_op c \<or> rd) \<and>
     (in_op c \<or> rd \<longrightarrow> plain_ops (co_todo c)) \<and>
     (waiter c \<longrightarrow> (\<exists>ops. plain_ops ops \<and>
        (co_todo c = Take # ops \<and> queued c = [] \<and> \<not> eof c \<or> co_todo c = Pause_wait # ops \<and> recv c = RECV_ARMED \<and> pausing c)))"

abbreviation quiet_at :: "proactor \<Rightarrow> nat \<Rightarrow> bool" where
  "quiet_at p i \<equiv> quiet (conns p i) (i \<in> set (ready p))"

definition settled :: "nat \<Rightarrow> bool \<Rightarrow> int \<Rightarrow> 16 word list \<Rightarrow> u32 \<Rightarrow> proactor \<Rightarrow> proactor \<Rightarrow> bool" where
  "settled i fin cr owe cnt p p' \<longleftrightarrow> frame i p p' \<and> (if i \<in> used p' then Wx i fin cr owe cnt p' \<and> quiet_at p' i else W cnt p') \<and>
     (recv (conns p i) = RECV_ARMED \<longrightarrow> i \<in> used p' \<and> recv (conns p' i) = RECV_ARMED) \<and> (0 < cr \<longrightarrow> i \<in> used p')"

lemma settled_trans:
  assumes "settled i fin cr owe cnt q p'" and "frame i p q" and "recv (conns p i) = RECV_ARMED \<Longrightarrow> recv (conns q i) = RECV_ARMED"
  shows "settled i fin cr owe cnt p p'"
  using assms frame_trans[OF assms(2)] by (auto simp: settled_def)

definition starts :: "hop list \<Rightarrow> conn \<Rightarrow> bool" where
  "starts ops c \<longleftrightarrow> plain_ops ops \<or> (\<exists>ops'. ops = Pause_wait # ops' \<and> plain_ops ops' \<and> (recv c = RECV_ARMED \<longrightarrow> pausing c))"

lemma running_upd:
  assumes "running i p" and "closed (f (conns p i)) = closed (conns p i)" "waiter (f (conns p i)) = waiter (conns p i)" "in_op (f (conns p i)) = in_op (conns p i)"
  shows "running i (upd i f p)"
  using assms by (simp add: running_def)

lemma pause_end_ok:
  assumes W: "Wx i fin cr owe cnt p" and r: "running i p"
  shows "Wx i fin cr owe cnt (snd (pause_end i p)) \<and> running i (snd (pause_end i p)) \<and> frame i p (snd (pause_end i p)) \<and>
    (recv (conns p i) \<noteq> RECV_STARVED \<longrightarrow> conns (snd (pause_end i p)) i = conns p i) \<and>
    (recv (conns p i) = RECV_ARMED \<longleftrightarrow> recv (conns (snd (pause_end i p)) i) = RECV_ARMED)"
proof (cases "recv (conns p i) = RECV_STARVED")
  case True
  let ?f = "\<lambda>c. c\<lparr>recv := RECV_PAUSED\<rparr>"
  have e: "snd (pause_end i p) = upd i ?f (starved_remove i p)" using True by (simp add: pause_end_def Let_def)
  have "Wx i fin cr owe cnt (upd i ?f (starved_remove i p))" by (rule Wx_remove[OF W]) (use Wx_cinv[OF W] True in \<open>simp add: cinv_def\<close>)
  moreover have "running i (upd i ?f (starved_remove i p))" using r by (simp add: running_def)
  ultimately show ?thesis unfolding e using True frame_trans[OF frame_remove frame_upd] by simp
next
  case False
  then have "snd (pause_end i p) = p" by (simp add: pause_end_def)
  then show ?thesis using W r by simp
qed

lemma arm_ok:
  assumes W: "Wx i fin cr owe cnt p" and r: "recv (conns p i) = RECV_PAUSED \<or> recv (conns p i) = RECV_ARMED \<and> fin" and o: "\<not> closed (conns p i)"
  shows "Wx i False cr owe cnt (ioxd__conn_arm_recv p i)" "frame i p (ioxd__conn_arm_recv p i)"
    "conns (ioxd__conn_arm_recv p i) i = (conns p i)\<lparr>recv := RECV_ARMED, cancelling := False\<rparr>" "ready (ioxd__conn_arm_recv p i) = ready p"
    "used (ioxd__conn_arm_recv p i) = used p"
proof -
  let ?f = "\<lambda>c. c\<lparr>recv := RECV_ARMED, cancelling := False\<rparr>"
  have c: "cinv_at fin cr owe cnt p i" and u: "i \<in> used p" using Wx_cinv[OF W] Wx_used[OF W] by auto
  have "glob cnt (stage (Sqe_recv i) p)" using W u by (simp add: Wx_def glob_def)
  then have "glob cnt (upd i ?f (stage (Sqe_recv i) p))" using u by (intro glob_upd) simp_all
  moreover have "\<forall>j \<in> used p - {i}. cinv_at False 0 [] cnt (upd i ?f (stage (Sqe_recv i) p)) j"
  proof
    fix j assume j: "j \<in> used p - {i}"
    then have "cinv_at False 0 [] cnt p j" "i \<noteq> j" "j \<noteq> i" using W by (auto simp: Wx_def)
    then show "cinv_at False 0 [] cnt (upd i ?f (stage (Sqe_recv i) p)) j" by simp
  qed
  moreover have "count_list (inflight p) i = (if recv (conns p i) = RECV_ARMED \<and> \<not> fin then 1 else 0)" using c unfolding cinv_def by blast
  then have "count_list (inflight p) i = 0" "recv (conns p i) \<noteq> RECV_DONE" "recv (conns p i) \<noteq> RECV_STARVED" using r by auto
  then have "cinv False cr owe cnt (?f (conns p i)) (Suc (count_list (inflight p) i)) (i \<in> set (starved p)) (i \<in> set (ready p)) False"
    using c o by (simp add: cinv_def)
  ultimately show "Wx i False cr owe cnt (ioxd__conn_arm_recv p i)" using u by (simp add: ioxd__conn_arm_recv_def Wx_def)
  show "frame i p (ioxd__conn_arm_recv p i)" by (auto simp: ioxd__conn_arm_recv_def frame_def)
  show "conns (ioxd__conn_arm_recv p i) i = (conns p i)\<lparr>recv := RECV_ARMED, cancelling := False\<rparr>" "ready (ioxd__conn_arm_recv p i) = ready p"
    "used (ioxd__conn_arm_recv p i) = used p" by (simp_all add: ioxd__conn_arm_recv_def)
qed

lemma resume_ok:
  assumes W: "Wx i fin cr owe cnt p" and r: "running i p" and f: "fin \<longrightarrow> recv (conns p i) = RECV_ARMED"
  defines "p' \<equiv> snd (ioxd__conn_recv_resume i p)"
  shows "Wx i fin cr owe cnt p' \<and> running i p' \<and> frame i p p' \<and> (recv (conns p i) = RECV_ARMED \<longrightarrow> p' = p)"
proof -
  consider (no) "recv (conns p i) \<noteq> RECV_PAUSED \<or> eof (conns p i) \<or> closed (conns p i)"
    | (drain) "recv (conns p i) = RECV_PAUSED" "\<not> eof (conns p i)" "\<not> closed (conns p i)" "draining p"
    | (arm) "recv (conns p i) = RECV_PAUSED" "\<not> eof (conns p i)" "\<not> closed (conns p i)" "\<not> draining p" by blast
  then show ?thesis
  proof cases
    case no
    then show ?thesis using W r by (auto simp: p'_def ioxd__conn_recv_resume_def)
  next
    case drain
    let ?f = "\<lambda>c. (end_input E_CANCELED c)\<lparr>recv := RECV_DONE\<rparr>"
    let ?q = "upd i ?f p"
    have c: "cinv_at fin cr owe cnt p i" by (rule Wx_cinv[OF W])
    have W': "Wx i fin (cr + 1) owe cnt ?q" by (rule Wx_upd[OF W]) (use c drain in \<open>simp add: cinv_def end_input_def queued_def\<close>)
    have cr: "0 \<le> cr" using c by (simp add: cinv_def)
    have n: "refs (conns ?q i) \<noteq> 1" using c drain by (auto simp: cinv_def end_input_def)
    have e: "p' = conn_unref i ?q" using drain by (simp add: p'_def ioxd__conn_recv_resume_def)
    note U = unref_ok[OF W' cr]
    have "conns p' i = (conns ?q i)\<lparr>refs := refs (conns ?q i) - 1\<rparr>" "Wx i fin cr owe cnt p'" "frame i p p'"
      using U n e frame_trans[OF frame_upd] by auto
    moreover then have "running i p'" using r by (simp add: running_def end_input_def frame_def)
    ultimately show ?thesis using drain by simp
  next
    case arm
    have e: "p' = ioxd__conn_arm_recv p i" using arm by (simp add: p'_def ioxd__conn_recv_resume_def)
    have nf: "\<not> fin" using f arm by auto
    note A = arm_ok[OF W disjI1[OF arm(1)] arm(3)]
    show ?thesis unfolding e using A nf r arm by (simp add: running_def)
  qed
qed

lemma park_ok:
  assumes W: "Wx i fin cr owe cnt p" and r: "running i p" and t: "plain_ops ops"
    and w: "todo = Take # ops \<and> queued (conns p i) = [] \<and> \<not> eof (conns p i) \<or> todo = Pause_wait # ops \<and> recv (conns p i) = RECV_ARMED \<and> pausing (conns p i)"
  shows "settled i fin cr owe cnt p (park i todo p)"
proof -
  let ?f = "\<lambda>c. c\<lparr>waiter := True, co_todo := todo\<rparr>"
  have "Wx i fin cr owe cnt (upd i ?f p)" by (rule Wx_upd[OF W]) (use Wx_cinv[OF W] r in \<open>simp add: cinv_def running_def\<close>)
  moreover have "quiet_at (upd i ?f p) i" using r t w by (auto simp: quiet_def running_def)
  ultimately show ?thesis using Wx_used[OF W] by (simp add: settled_def park_def)
qed

lemma run_end:
  assumes W: "Wx i fin cr owe cnt p" and r: "running i p"
  shows "\<exists>p'. run_co i [] p = Some p' \<and> settled i fin cr owe cnt p p'"
proof -
  obtain p1 where p1: "give_all i (c_held (conns p i)) p = Some p1" "Wx i fin cr owe cnt p1" "frame i p p1"
    "\<exists>g. conns p1 i = (conns p i)\<lparr>c_held := [], c_gave := g\<rparr>" using give_all_ok[OF W refl] by blast
  let ?p = "upd i (\<lambda>c. c\<lparr>co_todo := []\<rparr>) p1"
  have c1: "closed (conns p1 i) = closed (conns p i)" "waiter (conns p1 i) = waiter (conns p i)" "in_op (conns p1 i) = in_op (conns p i)"
    "recv (conns p1 i) = recv (conns p i)" "c_held (conns p1 i) = []" "ready p1 = ready p" using p1(3,4) by (auto simp: frame_def)
  have W1: "Wx i fin cr owe cnt ?p" by (rule Wx_upd[OF p1(2)]) (use Wx_cinv[OF p1(2)] in \<open>simp add: cinv_def\<close>)
  have r1: "running i ?p" using r c1 by (simp add: running_def)
  obtain p' where p': "ioxd__conn_close i ?p = Some p'" "frame i ?p p'"
    "if recv (conns ?p i) = RECV_ARMED \<or> cr > 0 then Wx i fin cr owe cnt p' \<and> closed (conns p' i) \<and> queued (conns p' i) = [] \<and>
       c_held (conns p' i) = c_held (conns ?p i) \<and> recv (conns p' i) = (if recv (conns ?p i) = RECV_ARMED then RECV_ARMED else RECV_DONE)
     else i \<notin> used p' \<and> W cnt p'" using conn_close_ok[OF W1 r1] by blast
  have "frame i p p'" using frame_trans[OF frame_trans[OF p1(3) frame_upd] p'(2)] .
  moreover have "quiet_at p' i" if "recv (conns p i) = RECV_ARMED \<or> cr > 0"
    using p'(3) that c1 Wx_cinv[of i fin cr owe cnt p'] by (simp add: quiet_def cinv_def)
  ultimately have "settled i fin cr owe cnt p p'" using p'(3) c1 by (auto simp: settled_def Wx_used split: if_splits)
  then show ?thesis using p1(1) p'(1) by simp
qed

lemma run_co_ok:
  assumes "Wx i fin cr owe cnt p" and "running i p" and "fin \<longrightarrow> recv (conns p i) = RECV_ARMED" and "starts ops (conns p i)"
  shows "\<exists>p'. run_co i ops p = Some p' \<and> settled i fin cr owe cnt p p'"
  using assms
proof (induction ops arbitrary: p)
  case Nil
  then show ?case using run_end by blast
next
  case (Cons op ops)
  note W = Cons.prems(1) and r = Cons.prems(2) and f = Cons.prems(3)
  have pl: "plain_ops ops" and hd: "op = Pause_wait \<longrightarrow> recv (conns p i) = RECV_ARMED \<longrightarrow> pausing (conns p i)" using Cons.prems(4) by (auto simp: starts_def)
  have st: "starts ops c" for c using pl by (simp add: starts_def)
  have g: "spsc_good (rx (conns p i))" using Wx_cinv[OF W] by (simp add: cinv_def)
  have go: "\<exists>p'. run_co i ops q = Some p' \<and> settled i fin cr owe cnt p p'"
    if a: "Wx i fin cr owe cnt q" "running i q" "frame i p q" "recv (conns p i) = RECV_ARMED \<longrightarrow> recv (conns q i) = RECV_ARMED" for q
  proof -
    obtain p' where "run_co i ops q = Some p'" "settled i fin cr owe cnt q p'" using Cons.IH[OF a(1,2) _ st] f a(4) by blast
    then show ?thesis using settled_trans a(3,4) by blast
  qed
  show ?case
  proof (cases op)
    case Take
    consider (pop) "\<not> ioxd__spsc_empty (rx (conns p i))" | (eof) "ioxd__spsc_empty (rx (conns p i))" "eof (conns p i)"
      | (wait) "ioxd__spsc_empty (rx (conns p i))" "\<not> eof (conns p i)" by blast
    then show ?thesis
    proof cases
      case pop
      obtain it q where "ioxd__spsc_pop (rx (conns p i)) = (it, q)" by fastforce
      then show ?thesis using go[OF Wx_pop(2)[OF W pop]] running_upd[OF r] pop Take by simp
    next
      case eof
      then show ?thesis using go[OF W r] Take by simp
    next
      case wait
      then have "queued (conns p i) = []" using queued_empty[OF g] by simp
      then show ?thesis using park_ok[OF W r pl] wait Take by simp
    qed
  next
    case (Give k)
    show ?thesis
    proof (cases "k < length (c_held (conns p i))")
      case True
      let ?f = "\<lambda>c. c\<lparr>c_held := take k (c_held c) @ drop (Suc k) (c_held c)\<rparr>" and ?b = "c_held (conns p i) ! k"
      have h: "c_held (conns p i) = take k (c_held (conns p i)) @ ?b # drop (Suc k) (c_held (conns p i))" using True by (rule id_take_nth_drop)
      have "mset (c_held (conns p i)) = add_mset ?b (mset (take k (c_held (conns p i)) @ drop (Suc k) (c_held (conns p i))))"
        "set (c_held (conns p i)) = insert ?b (set (take k (c_held (conns p i)) @ drop (Suc k) (c_held (conns p i))))"
        by (subst h, simp)+
      then have "Wx i fin cr (?b # owe) cnt (upd i ?f p)" using Wx_cinv[OF W] by (intro Wx_upd[OF W]) (simp add: cinv_def)
      then obtain p1 where p1: "give_back i ?b (upd i ?f p) = Some p1" "Wx i fin cr owe cnt p1" "frame i (upd i ?f p) p1"
        "conns p1 i = (conns (upd i ?f p) i)\<lparr>c_gave := ?b # c_gave (conns (upd i ?f p) i)\<rparr>" "ready p1 = ready (upd i ?f p)" using give_back_ok by blast
      have "running i p1" using r p1(4,5) by (simp add: running_def)
      then show ?thesis using go[OF p1(2) _ frame_trans[OF frame_upd p1(3)]] p1(1,4) True Give by simp
    next
      case False
      then show ?thesis using go[OF W r] Give by simp
    qed
  next
    case Pause
    show ?thesis
    proof (cases "recv (conns p i) = RECV_ARMED")
      case True
      let ?q = "upd i (\<lambda>c. c\<lparr>pausing := True\<rparr>) p"
      have "Wx i fin cr owe cnt ?q" by (rule Wx_upd[OF W]) (use Wx_cinv[OF W] in \<open>simp add: cinv_def\<close>)
      then have "Wx i fin cr owe cnt (pause_begin i p)" unfolding pause_begin_def by (rule Wx_cancel)
      moreover have "running i (pause_begin i p)" using r by (simp add: running_def pause_begin_def)
      moreover have "frame i p (pause_begin i p)" unfolding pause_begin_def using frame_trans[OF frame_upd frame_cancel] .
      ultimately show ?thesis using park_ok[OF _ _ pl, of i fin cr owe cnt "pause_begin i p" "Pause_wait # ops"] True Pause settled_trans
        by (auto simp: pause_begin_def)
    next
      case False
      then show ?thesis using go pause_end_ok[OF W r] Pause by simp
    qed
  next
    case Pause_wait
    show ?thesis
    proof (cases "recv (conns p i) = RECV_ARMED")
      case True
      then show ?thesis using park_ok[OF W r pl] hd Pause_wait by simp
    next
      case False
      let ?q = "upd i (\<lambda>c. c\<lparr>pausing := False\<rparr>) p"
      have Wq: "Wx i fin cr owe cnt ?q" by (rule Wx_upd[OF W]) (use Wx_cinv[OF W] in \<open>simp add: cinv_def\<close>)
      have rq: "running i ?q" using r by (simp add: running_def)
      note E = pause_end_ok[OF Wq rq]
      have "frame i p (snd (pause_end i ?q))" using frame_trans[OF frame_upd] E by blast
      then show ?thesis using go[of "snd (pause_end i ?q)"] E False Pause_wait by simp
    qed
  next
    case Resume
    then show ?thesis using go resume_ok[OF W r f] by simp
  next
    case Await
    let ?f = "\<lambda>c. c\<lparr>in_op := True, co_todo := ops\<rparr>"
    have "Wx i fin cr owe cnt (upd i ?f p)" by (rule Wx_upd[OF W]) (use Wx_cinv[OF W] r in \<open>simp add: cinv_def running_def\<close>)
    moreover have "quiet_at (upd i ?f p) i" using r pl by (simp add: quiet_def running_def)
    ultimately show ?thesis using Wx_used[OF W] Await by (simp add: settled_def)
  qed
qed

text \<open>Waking the reader of a connection that is parked as it should be, but for what just happened to it.\<close>

definition settles :: "nat \<Rightarrow> bool \<Rightarrow> int \<Rightarrow> 16 word list \<Rightarrow> u32 \<Rightarrow> proactor \<Rightarrow> proactor option \<Rightarrow> bool" where
  "settles i fin cr owe cnt p r \<longleftrightarrow> (\<exists>p'. r = Some p' \<and> settled i fin cr owe cnt p p')"

lemma wake_ok:
  assumes W: "Wx i fin cr owe cnt p" and f: "fin \<longrightarrow> recv (conns p i) = RECV_ARMED"
    and t: "waiter (conns p i) \<longrightarrow> starts (co_todo (conns p i)) (conns p i)" and q: "\<not> waiter (conns p i) \<longrightarrow> quiet_at p i"
  shows "settles i fin cr owe cnt p (wake_reader i p)"
proof (cases "waiter (conns p i)")
  case True
  let ?p = "upd i (\<lambda>c. c\<lparr>waiter := False\<rparr>) p"
  have c: "cinv_at fin cr owe cnt p i" by (rule Wx_cinv[OF W])
  have "Wx i fin cr owe cnt ?p" by (rule Wx_upd[OF W]) (use c in \<open>simp add: cinv_def\<close>)
  moreover have "running i ?p" using c True by (auto simp: running_def cinv_def)
  ultimately obtain p' where "run_co i (co_todo (conns p i)) ?p = Some p'" "settled i fin cr owe cnt ?p p'"
    using run_co_ok[of i fin cr owe cnt ?p "co_todo (conns p i)"] f t True by (auto simp: starts_def)
  moreover then have "settled i fin cr owe cnt p p'" using settled_trans[OF _ frame_upd] by simp
  ultimately show ?thesis using True by (simp add: settles_def wake_reader_def)
next
  case False
  then show ?thesis using W q Wx_used[OF W] by (auto simp: settles_def settled_def wake_reader_def)
qed


section \<open>A receive completes\<close>

definition touches :: "nat \<Rightarrow> proactor \<Rightarrow> proactor \<Rightarrow> bool" where
  "touches i p p' \<longleftrightarrow> ready p' = ready p \<and> (\<forall>j. j \<noteq> i \<longrightarrow> conns p' j = conns p j \<and> count_list (inflight p') j = count_list (inflight p) j \<and>
     (j \<in> used p' \<longleftrightarrow> j \<in> used p) \<and> (j \<in> set (starved p') \<longleftrightarrow> j \<in> set (starved p)))"

lemma frame_touches: "frame i p p' \<Longrightarrow> touches i p p'"
  by (auto simp: frame_def touches_def)

lemma touches_trans: "touches i p q \<Longrightarrow> touches i q r \<Longrightarrow> touches i p r"
  by (auto simp: touches_def)

text \<open>The invariant of a worker between two events.\<close>

definition worker_ok :: "u32 \<Rightarrow> proactor \<Rightarrow> bool" where
  "worker_ok cnt p \<longleftrightarrow> W cnt p \<and> (\<forall>j \<in> used p. quiet_at p j)"

definition handled :: "nat \<Rightarrow> u32 \<Rightarrow> proactor \<Rightarrow> proactor \<Rightarrow> bool" where
  "handled i cnt p p' \<longleftrightarrow> touches i p p' \<and> (if i \<in> used p' then Wx i False 0 [] cnt p' \<and> quiet_at p' i else W cnt p')"

lemma handled_ok:
  assumes "handled i cnt p p'" and "\<forall>j \<in> used p - {i}. quiet_at p j"
  shows "worker_ok cnt p'"
proof -
  have t: "touches i p p'" using assms(1) by (simp add: handled_def)
  have "quiet_at p' j" if "j \<in> used p'" "j \<noteq> i" for j using t that assms(2) by (auto simp: touches_def)
  then show ?thesis using assms(1) by (auto simp: worker_ok_def handled_def Wx_W split: if_splits)
qed

lemma fin_done: "recv (conns p i) \<noteq> RECV_ARMED \<Longrightarrow> Wx i fin cr owe cnt p \<longleftrightarrow> Wx i False cr owe cnt p"
  by (simp add: Wx_def cinv_def)

lemma settled_handled:
  assumes "settles i False 0 [] cnt q r" and "touches i p q"
  shows "\<exists>p'. r = Some p' \<and> handled i cnt p p'"
  using assms frame_touches touches_trans unfolding settles_def settled_def handled_def by (metis (no_types, lifting))

lemma quiet_refs: "quiet (c\<lparr>refs := n\<rparr>) rd = quiet c rd"
  by (simp add: quiet_def queued_def)

lemma unref_settled:
  assumes s: "settles i False 1 [] cnt q r"
  shows "\<exists>p'. do { p \<leftarrow> r; Some (conn_unref i p) } = Some p' \<and> frame i q p' \<and> (if i \<in> used p' then Wx i False 0 [] cnt p' \<and> quiet_at p' i else W cnt p')"
proof -
  obtain p1 where p1: "r = Some p1" "frame i q p1" "Wx i False 1 [] cnt p1" "quiet_at p1 i"
    using s by (auto simp: settles_def settled_def)
  have U: "frame i p1 (conn_unref i p1) \<and> (if refs (conns p1 i) = 1 then i \<notin> used (conn_unref i p1) \<and> W cnt (conn_unref i p1) else
    Wx i False 0 [] cnt (conn_unref i p1) \<and> conns (conn_unref i p1) i = (conns p1 i)\<lparr>refs := refs (conns p1 i) - 1\<rparr>)"
    using unref_ok[of i False 0 "[]" cnt p1] p1(3) by simp
  have "frame i q (conn_unref i p1)" using frame_trans[OF p1(2)] U by blast
  moreover have "ready (conn_unref i p1) = ready p1" using U by (simp add: frame_def)
  ultimately show ?thesis using U p1(1,4) by (auto simp: Wx_used quiet_refs split: if_splits)
qed

lemma unref_handled:
  assumes "settles i False 1 [] cnt q r" and "touches i p q"
  shows "\<exists>p'. do { p \<leftarrow> r; Some (conn_unref i p) } = Some p' \<and> handled i cnt p p'"
  using unref_settled[OF assms(1)] frame_touches touches_trans[OF assms(2)] unfolding handled_def by (metis (no_types, lifting))

lemma quiet_starts: "quiet c rd \<Longrightarrow> waiter c \<Longrightarrow> co_todo c' = co_todo c \<Longrightarrow> pausing c' \<or> recv c' \<noteq> RECV_ARMED \<or> (\<exists>ops. co_todo c = Take # ops) \<Longrightarrow> starts (co_todo c') c'"
  by (auto simp: quiet_def starts_def)

lemma wake_paused:
  assumes W: "Wx i True 0 [] cnt p" and q: "quiet_at p i" and o: "\<not> closed (conns p i)" "recv (conns p i) = RECV_ARMED"
  shows "\<exists>p'. wake_reader i (upd i (\<lambda>c. c\<lparr>pausing := False, recv := RECV_PAUSED\<rparr>) p) = Some p' \<and> handled i cnt p p'"
proof -
  let ?f = "\<lambda>c. c\<lparr>pausing := False, recv := RECV_PAUSED\<rparr>"
  have "Wx i False 0 [] cnt (upd i ?f p)" by (rule Wx_upd[OF W]) (use Wx_cinv[OF W] o in \<open>simp add: cinv_def\<close>)
  moreover have "waiter (conns p i) \<longrightarrow> starts (co_todo (conns p i)) (?f (conns p i))"
    using quiet_starts[OF q, of "?f (conns p i)"] by simp
  moreover have "\<not> waiter (conns p i) \<longrightarrow> quiet_at (upd i ?f p) i" using q o by (auto simp: quiet_def)
  ultimately have "settles i False 0 [] cnt (upd i ?f p) (wake_reader i (upd i ?f p))" by (intro wake_ok) auto
  from settled_handled[OF this frame_touches[OF frame_upd]] show ?thesis .
qed

lemma wake_ended:
  assumes W: "Wx i True 0 [] cnt p" and q: "quiet_at p i" and o: "recv (conns p i) = RECV_ARMED"
    and f: "f (conns p i) = (end_input e (conns p i))\<lparr>recv := RECV_DONE\<rparr> \<or> f (conns p i) = (conns p i)\<lparr>recv := RECV_DONE\<rparr> \<and> eof (conns p i)"
  shows "\<exists>p'. do { p \<leftarrow> wake_reader i (upd i f p); Some (conn_unref i p) } = Some p' \<and> handled i cnt p p'"
proof -
  have k: "recv (f (conns p i)) = RECV_DONE" "eof (f (conns p i))" "closed (f (conns p i)) = closed (conns p i)" "waiter (f (conns p i)) = waiter (conns p i)"
    "in_op (f (conns p i)) = in_op (conns p i)" "refs (f (conns p i)) = refs (conns p i)" "rx (f (conns p i)) = rx (conns p i)" "co_todo (f (conns p i)) = co_todo (conns p i)"
    "c_held (f (conns p i)) = c_held (conns p i)" "c_got (f (conns p i)) = c_got (conns p i)" "c_gave (f (conns p i)) = c_gave (conns p i)" "cancelling (f (conns p i)) = cancelling (conns p i)"
    using f by (elim disjE; simp add: end_input_def)+
  have qd: "queued (f (conns p i)) = queued (conns p i)" using k(7) by (simp add: queued_def)
  have "Wx i False 1 [] cnt (upd i f p)" by (rule Wx_upd[OF W]) (use Wx_cinv[OF W] o in \<open>simp add: cinv_def k qd\<close>)
  moreover have "waiter (conns p i) \<longrightarrow> starts (co_todo (f (conns p i))) (f (conns p i))" using quiet_starts[OF q, of "f (conns p i)"] k by simp
  moreover have "\<not> waiter (conns p i) \<longrightarrow> quiet_at (upd i f p) i" using q by (auto simp: quiet_def k qd)
  ultimately have "settles i False 1 [] cnt (upd i f p) (wake_reader i (upd i f p))" by (intro wake_ok) (auto simp: k)
  from unref_handled[OF this frame_touches[OF frame_upd]] show ?thesis .
qed

lemma settles_self: "Wx i fin cr owe cnt p \<Longrightarrow> quiet_at p i \<Longrightarrow> settles i fin cr owe cnt p (Some p)"
  by (simp add: settles_def settled_def Wx_used)

lemma drop_recv:
  assumes W: "Wx i True 0 [] cnt p" and q: "quiet_at p i" and a: "recv (conns p i) = RECV_ARMED"
    and o: "closed (conns p i) \<or> eof (conns p i) \<and> \<not> pausing (conns p i)"
  shows "handled i cnt p (conn_unref i (upd i (\<lambda>c. c\<lparr>recv := RECV_DONE\<rparr>) p))"
proof -
  let ?q = "upd i (\<lambda>c. c\<lparr>recv := RECV_DONE\<rparr>) p"
  have "Wx i False 1 [] cnt ?q" by (rule Wx_upd[OF W]) (use Wx_cinv[OF W] a o in \<open>auto simp: cinv_def\<close>)
  moreover have "quiet_at ?q i" using q o Wx_cinv[OF W] by (auto simp: quiet_def cinv_def)
  ultimately show ?thesis using unref_handled[OF settles_self frame_touches[OF frame_upd]] by fastforce
qed

lemma starve_ok:
  assumes W: "Wx i True 0 [] cnt p" and q: "quiet_at p i" and a: "recv (conns p i) = RECV_ARMED" and o: "\<not> closed (conns p i)" "\<not> pausing (conns p i)"
  shows "handled i cnt p (starved_push i (note_starved (upd i (\<lambda>c. c\<lparr>recv := RECV_STARVED\<rparr>) p)))"
proof -
  let ?q = "upd i (\<lambda>c. c\<lparr>recv := RECV_STARVED\<rparr>) p"
  define p' where "p' = starved_push i (note_starved ?q)"
  have c: "cinv_at True 0 [] cnt p i" by (rule Wx_cinv[OF W])
  have e: "conns p' = conns ?q" "inflight p' = inflight p" "ready p' = ready p" "starved p' = starved p @ [i]" "used p' = used p"
    "allocated p' = allocated p" "conn_free p' = conn_free p" "conn_free_count p' = conn_free_count p" "live_count p' = live_count p" "p_bufs p' = p_bufs p" "staged p' = staged p"
    by (simp_all add: p'_def starved_push_def note_starved_def used_def Let_def)
  have ns: "i \<notin> set (starved p)" using c a by (simp add: cinv_def)
  have "glob cnt p'" using W ns glob_upd[of cnt p i "\<lambda>c. c\<lparr>recv := RECV_STARVED\<rparr>"] unfolding Wx_def glob_def e by auto
  moreover have "cinv_at False 0 [] cnt p' i" using c a by (simp add: cinv_def e)
  moreover have "\<forall>j \<in> used p - {i}. cinv_at False 0 [] cnt p' j" using W by (simp add: Wx_def e)
  ultimately have "Wx i False 0 [] cnt p'" using Wx_used[OF W] by (simp add: Wx_def e)
  moreover have "quiet_at p' i" using q o by (auto simp: quiet_def e)
  moreover have "touches i p p'" by (auto simp: touches_def e)
  ultimately show ?thesis unfolding p'_def[symmetric] by (simp add: handled_def Wx_used)
qed

lemma nobufs_ok:
  assumes W: "Wx i True 0 [] cnt p" and q: "quiet_at p i" and a: "recv (conns p i) = RECV_ARMED"
  shows "\<exists>p'. recv_nobufs p i = Some p' \<and> handled i cnt p p'"
proof -
  consider (closed) "closed (conns p i)" | (pausing) "\<not> closed (conns p i)" "pausing (conns p i)"
    | (eof) "\<not> closed (conns p i)" "\<not> pausing (conns p i)" "eof (conns p i)" | (starve) "\<not> closed (conns p i)" "\<not> pausing (conns p i)" "\<not> eof (conns p i)" by blast
  then show ?thesis
  proof cases
    case closed
    then show ?thesis using drop_recv[OF W q a] by (simp add: recv_nobufs_def)
  next
    case pausing
    then show ?thesis using wake_paused[OF W q _ a] by (simp add: recv_nobufs_def)
  next
    case eof
    then show ?thesis using wake_ended[OF W q a, of "\<lambda>c. c\<lparr>recv := RECV_DONE\<rparr>"] by (simp add: recv_nobufs_def)
  next
    case starve
    then show ?thesis using starve_ok[OF W q a] by (simp add: recv_nobufs_def)
  qed
qed

lemma quiet_gave: "quiet (c\<lparr>c_gave := g\<rparr>) rd = quiet c rd"
  by (simp add: quiet_def queued_def)

lemma handled_trans:
  assumes "handled i cnt q p'" and "touches i p q"
  shows "handled i cnt p p'"
  using assms touches_trans[OF assms(2)] by (simp add: handled_def)

lemma ended_ok:
  assumes W: "Wx i True 0 (if has_buf then [b] else []) cnt p" and q: "quiet_at p i" and a: "recv (conns p i) = RECV_ARMED"
  shows "\<exists>p'. recv_ended p i result has_buf b = Some p' \<and> handled i cnt p p'"
proof -
  obtain p1 where p1: "(if has_buf then give_back i b p else Some p) = Some p1" "Wx i True 0 [] cnt p1" "frame i p p1" "quiet_at p1 i" "recv (conns p1 i) = RECV_ARMED"
  proof (cases has_buf)
    case True
    then show thesis using that give_back_ok[of i True 0 b "[]" cnt p] W q a by (auto simp: quiet_gave)
  next
    case False
    then show thesis using that[of p] W q a by simp
  qed
  let ?e = "\<lambda>c. (end_input (if result = E_IO \<and> c_tls c then 0 else result) c)\<lparr>recv := RECV_DONE\<rparr>"
  have e: "\<exists>p'. do { p \<leftarrow> wake_reader i (upd i ?e p1); Some (conn_unref i p) } = Some p' \<and> handled i cnt p1 p'"
    using wake_ended[OF p1(2,4,5), of ?e] by blast
  have "\<exists>p'. recv_ended p i result has_buf b = Some p' \<and> handled i cnt p1 p'"
    unfolding recv_ended_def p1(1) bind.bind_lunit using e wake_paused[OF p1(2,4) _ p1(5)] by (simp split: if_split)
  then show ?thesis using handled_trans frame_touches[OF p1(3)] by blast
qed

lemma wake_data:
  assumes W: "Wx i fin 0 [] cnt p" and q: "quiet (conns p0 i) (i \<in> set (ready p))" and a: "recv (conns p i) = RECV_ARMED"
    and k: "waiter (conns p i) = waiter (conns p0 i)" "in_op (conns p i) = in_op (conns p0 i)" "closed (conns p i) = closed (conns p0 i)"
      "co_todo (conns p i) = co_todo (conns p0 i)" "pausing (conns p i) = pausing (conns p0 i)" "c_held (conns p i) = c_held (conns p0 i)"
    and c: "closed (conns p i) \<longrightarrow> queued (conns p i) = queued (conns p0 i)"
  shows "settles i fin 0 [] cnt p (wake_reader i p)"
proof (rule wake_ok[OF W])
  show "fin \<longrightarrow> recv (conns p i) = RECV_ARMED" using a by simp
  show "waiter (conns p i) \<longrightarrow> starts (co_todo (conns p i)) (conns p i)" using q k a by (auto simp: quiet_def starts_def)
  show "\<not> waiter (conns p i) \<longrightarrow> quiet_at p i" using q c a unfolding quiet_def k by (cases "closed (conns p0 i)"; cases "waiter (conns p0 i)") simp_all
qed

lemma settles_trans:
  assumes "settles i fin cr owe cnt q r" and "frame i p q" and "recv (conns q i) = RECV_ARMED"
  shows "settles i fin cr owe cnt p r"
  using assms settled_trans unfolding settles_def by blast

lemma end_input_simps [simp]:
  "recv (end_input e c) = recv c" "closed (end_input e c) = closed c" "waiter (end_input e c) = waiter c" "in_op (end_input e c) = in_op c"
  "refs (end_input e c) = refs c" "rx (end_input e c) = rx c" "co_todo (end_input e c) = co_todo c" "c_held (end_input e c) = c_held c"
  "c_got (end_input e c) = c_got c" "c_gave (end_input e c) = c_gave c" "pausing (end_input e c) = pausing c" "cancelling (end_input e c) = cancelling c" "eof (end_input e c)"
  "queued (end_input e c) = queued c"
  by (simp_all add: end_input_def queued_def)

lemma end_wake:
  assumes W: "Wx i fin 0 [] cnt p" and q: "quiet_at p i" and a: "recv (conns p i) = RECV_ARMED"
  shows "settles i fin 0 [] cnt p (wake_reader i (if m then cancel_recv i (upd i (end_input e) p) else upd i (end_input e) p))"
proof -
  define p1 where "p1 = (if m then cancel_recv i (upd i (end_input e) p) else upd i (end_input e) p)"
  have "Wx i fin 0 [] cnt (upd i (end_input e) p)" by (rule Wx_upd[OF W]) (use Wx_cinv[OF W] in \<open>simp add: cinv_def\<close>)
  then have "Wx i fin 0 [] cnt p1" using Wx_cancel by (simp add: p1_def)
  moreover have "frame i p p1" using frame_trans[OF frame_upd frame_cancel] by (simp add: p1_def)
  moreover have "recv (conns p1 i) = RECV_ARMED" "waiter (conns p1 i) = waiter (conns p i)" "in_op (conns p1 i) = in_op (conns p i)"
    "closed (conns p1 i) = closed (conns p i)" "co_todo (conns p1 i) = co_todo (conns p i)" "pausing (conns p1 i) = pausing (conns p i)"
    "c_held (conns p1 i) = c_held (conns p i)" "queued (conns p1 i) = queued (conns p i)" "ready p1 = ready p"
    using a by (auto simp: p1_def queued_def)
  ultimately show ?thesis unfolding p1_def[symmetric] using wake_data[of i fin cnt p1 p] q settles_trans by simp
qed

lemma data_ok:
  assumes W: "Wx i fin 0 (if has_buf then [b] else []) cnt p" and q: "quiet_at p i" and a: "recv (conns p i) = RECV_ARMED"
  shows "settles i fin 0 [] cnt p (recv_data p i result m has_buf b)"
proof -
  consider (none) "\<not> has_buf" | (closed) "has_buf" "closed (conns p i)" | (full) "has_buf" "\<not> closed (conns p i)" "ioxd__spsc_full (rx (conns p i))"
    | (push) "has_buf" "\<not> closed (conns p i)" "\<not> ioxd__spsc_full (rx (conns p i))" by blast
  then show ?thesis
  proof cases
    case none
    then show ?thesis using end_wake[OF _ q a, of fin cnt m E_PROTO] W unfolding recv_data_def Let_def by simp
  next
    case closed
    then obtain p1 where "give_back i b p = Some p1" "Wx i fin 0 [] cnt p1" "frame i p p1" "quiet_at p1 i" "recv (conns p1 i) = RECV_ARMED"
      using give_back_ok[of i fin 0 b "[]" cnt p] W q a by (auto simp: quiet_gave)
    then show ?thesis using closed settles_trans[OF settles_self] by (simp add: recv_data_def)
  next
    case full
    then obtain p1 where "give_back i b p = Some p1" "Wx i fin 0 [] cnt p1" "frame i p p1" "quiet_at p1 i" "recv (conns p1 i) = RECV_ARMED"
      using give_back_ok[of i fin 0 b "[]" cnt p] W q a by (auto simp: quiet_gave)
    then show ?thesis using full settles_trans[OF end_wake] by (simp add: recv_data_def Let_def)
  next
    case push
    have c: "cinv_at fin 0 [b] cnt p i" using Wx_cinv[OF W] push by simp
    then have g: "spsc_good (rx (conns p i))" and b: "unat b < unat cnt" by (simp_all add: cinv_def)
    have "b_count (p_bufs p) = cnt" using W by (simp add: Wx_def glob_def)
    then obtain at where at: "ioxd__bufring_at (p_bufs p) b = Some at" using b by (simp add: ioxd__bufring_at_def)
    let ?it = "\<lparr>rx_ptr = at, rx_len = word_of_int result, rx_buf_id = b\<rparr>"
    let ?f = "\<lambda>c. c\<lparr>rx := ioxd__spsc_push ?it (rx c)\<rparr>"
    have P: "spsc_good (ioxd__spsc_push ?it (rx (conns p i)))" "queued (?f (conns p i)) = queued (conns p i) @ [b]"
      using rxq.push_contents[OF g push(3)] by (simp_all add: queued_def)
    have Wf: "Wx i fin 0 [] cnt (upd i ?f p)" by (rule Wx_upd[OF W]) (use c P in \<open>auto simp: cinv_def\<close>)
    have "settles i fin 0 [] cnt (upd i ?f p) (wake_reader i (upd i ?f p))"
      by (rule wake_data[OF Wf, of p]) (use q a push in auto)
    then show ?thesis using settles_trans[OF _ frame_upd] push a at by (simp add: recv_data_def)
  qed
qed

lemma after_ok:
  assumes W: "Wx i (\<not> m) 0 [] cnt p" and q: "quiet_at p i" and a: "recv (conns p i) = RECV_ARMED"
  shows "\<exists>p'. recv_after p i m = Some p' \<and> handled i cnt p p'"
proof (cases m)
  case True
  have "Wx i False 0 [] cnt (cancel_recv i p)" using Wx_cancel W True by simp
  moreover have "quiet_at (cancel_recv i p) i" using q by (simp add: quiet_def queued_def)
  ultimately have "handled i cnt p (cancel_recv i p)" using frame_touches[OF frame_cancel] Wx_used[OF W] by (simp add: handled_def)
  moreover have "handled i cnt p p" using W q True Wx_used[OF W] by (simp add: handled_def touches_def)
  ultimately show ?thesis using True by (simp add: recv_after_def)
next
  case False
  then have Wt: "Wx i True 0 [] cnt p" using W by simp
  consider (pausing) "pausing (conns p i)" "\<not> closed (conns p i)" | (arm) "\<not> pausing (conns p i)" "\<not> closed (conns p i)" "\<not> eof (conns p i)"
    | (drop) "closed (conns p i) \<or> eof (conns p i) \<and> \<not> pausing (conns p i)" by blast
  then show ?thesis
  proof cases
    case pausing
    then show ?thesis using wake_paused[OF Wt q _ a] False by (simp add: recv_after_def)
  next
    case arm
    note A = arm_ok[OF Wt _ arm(2)]
    have "quiet_at (ioxd__conn_arm_recv p i) i" using q arm A(3,4) a by (auto simp: quiet_def queued_def)
    then have "handled i cnt p (ioxd__conn_arm_recv p i)" using A a frame_touches False Wx_used[OF W] by (simp add: handled_def)
    then show ?thesis using False arm by (simp add: recv_after_def)
  next
    case drop
    then show ?thesis using drop_recv[OF Wt q a drop] False by (auto simp: recv_after_def)
  qed
qed

end
