(* ===== verification/Worker_Run.thy ===== *)
theory Worker_Run
  imports Worker_Inv
begin

text \<open>
  A worker as it runs: the steps of its loop and the completions the kernel may post, the invariant at every
  point, and what follows for a connection: it is not touched after it was recycled, it is recycled once its
  handler and its receive are done, and its handler does not sleep through what it waits for.
\<close>

section \<open>The kernel\<close>

abbreviation more_flag :: "u32 \<Rightarrow> bool" where "more_flag flags \<equiv> flags AND CQE_F_MORE \<noteq> 0"
abbreviation buf_flag :: "u32 \<Rightarrow> bool" where "buf_flag flags \<equiv> flags AND CQE_F_BUFFER \<noteq> 0"
abbreviation flag_id :: "u32 \<Rightarrow> 16 word" where "flag_id flags \<equiv> ucast (drop_bit 16 flags)"

text \<open>
  What the kernel documents of the completions it posts: a receive completes while it is in flight, a result that
  is not a byte count ends it, a buffer is one of the ring and never comes with \<open>-ENOBUFS\<close>; an awaited operation
  completes while it is awaited.  \<open>calloc\<close> returns memory that is not in use.
\<close>

fun may_post :: "u32 \<Rightarrow> proactor \<Rightarrow> cqe \<Rightarrow> bool" where
  "may_post cnt p (Cqe_op i) \<longleftrightarrow> i \<in> used p \<and> in_op (conns p i)"
| "may_post cnt p (Cqe_recv i res flags) \<longleftrightarrow> i \<in> set (inflight p) \<and> (res \<le> 0 \<longrightarrow> \<not> more_flag flags) \<and>
     (buf_flag flags \<longrightarrow> unat (flag_id flags) < unat cnt \<and> res \<noteq> E_NOBUFS)"
| "may_post cnt p (Cqe_accept l res flags fresh todo) \<longleftrightarrow> fresh \<notin> allocated p \<and> plain_ops todo"
| "may_post cnt p _ \<longleftrightarrow> True"

text \<open>A receive without the flag for more is over for the kernel.\<close>

fun posted :: "proactor \<Rightarrow> cqe \<Rightarrow> proactor" where
  "posted p (Cqe_recv i res flags) = (if more_flag flags then p else p\<lparr>inflight := remove1 i (inflight p)\<rparr>)"
| "posted p _ = p"

lemma count_remove1: "count_list (remove1 i xs) j = (if i = j then count_list xs j - 1 else count_list xs j)"
  by (induction xs) (auto simp: count_list_0_iff)

lemma used_inflight [simp]: "used (p\<lparr>inflight := xs\<rparr>) = used p" "used (p\<lparr>ready := xs\<rparr>) = used p" "used (p\<lparr>starved := xs\<rparr>) = used p"
  by (simp_all add: used_def)

lemma posted_recv:
  assumes ok: "worker_ok cnt p" and m: "may_post cnt p (Cqe_recv i res flags)"
  defines "q \<equiv> posted p (Cqe_recv i res flags)"
  shows "Wx i (\<not> more_flag flags) 0 [] cnt q" "quiet_at q i" "recv (conns q i) = RECV_ARMED" "used q = used p" "conns q = conns p" "ready q = ready p"
proof -
  have g: "glob cnt p" and c: "\<forall>j \<in> used p. cinv_at False 0 [] cnt p j" and i: "i \<in> set (inflight p)" using ok m by (auto simp: worker_ok_def W_def)
  have u: "i \<in> used p" using g i by (auto simp: glob_def)
  have ci: "cinv_at False 0 [] cnt p i" using c u by blast
  then have n: "count_list (inflight p) i = 1" and a: "recv (conns p i) = RECV_ARMED"
    using i count_list_0_iff[of "inflight p" i] by (auto simp: cinv_def split: if_splits)
  show s: "used q = used p" "conns q = conns p" "ready q = ready p" by (simp_all add: q_def)
  show "recv (conns q i) = RECV_ARMED" "quiet_at q i" using a ok u by (simp_all add: s worker_ok_def)
  have "glob cnt q" using g unfolding glob_def s by (auto simp: q_def dest: notin_set_remove1)
  moreover have "cinv_at (\<not> more_flag flags) 0 [] cnt q i" using ci n a by (simp add: cinv_def q_def count_remove1)
  moreover have "\<forall>j \<in> used p - {i}. cinv_at False 0 [] cnt q j" using c by (auto simp: q_def count_remove1)
  ultimately show "Wx i (\<not> more_flag flags) 0 [] cnt q" using u by (simp add: Wx_def s)
qed

lemma on_recv_ok:
  assumes W: "Wx i (\<not> more_flag flags) 0 [] cnt p" and q: "quiet_at p i" and a: "recv (conns p i) = RECV_ARMED"
    and k: "res \<le> 0 \<longrightarrow> \<not> more_flag flags" "buf_flag flags \<longrightarrow> unat (flag_id flags) < unat cnt \<and> res \<noteq> E_NOBUFS"
  shows "\<exists>p'. ioxd__conn_on_recv p i res flags = Some p' \<and> handled i cnt p p'"
proof -
  define p1 where "p1 = (if \<not> more_flag flags then upd i (\<lambda>c. c\<lparr>cancelling := False\<rparr>) p else p)"
  define p2 where "p2 = (if buf_flag flags then upd i (\<lambda>c. c\<lparr>c_got := flag_id flags # c_got c\<rparr>) p1 else p1)"
  let ?fin = "\<not> more_flag flags" and ?owe = "if buf_flag flags then [flag_id flags] else []"
  have "Wx i ?fin 0 [] cnt (upd i (\<lambda>c. c\<lparr>cancelling := False\<rparr>) p)" if "?fin" by (rule Wx_upd[OF W]) (use Wx_cinv[OF W] that in \<open>simp add: cinv_def\<close>)
  then have W1: "Wx i ?fin 0 [] cnt p1" using W unfolding p1_def by (cases "flags AND CQE_F_MORE = 0") simp_all
  have "Wx i ?fin 0 [flag_id flags] cnt (upd i (\<lambda>c. c\<lparr>c_got := flag_id flags # c_got c\<rparr>) p1)" if "buf_flag flags"
    by (rule Wx_upd[OF W1]) (use Wx_cinv[OF W1] k(2) that in \<open>simp add: cinv_def\<close>)
  then have W2: "Wx i ?fin 0 ?owe cnt p2" using W1 by (simp add: p2_def)
  have t: "touches i p p2" using touches_trans[OF frame_touches[OF frame_upd] frame_touches[OF frame_upd]] frame_touches[OF frame_upd]
    by (simp add: p2_def p1_def touches_def)
  have q2: "quiet_at p2 i" and a2: "recv (conns p2 i) = RECV_ARMED" using q a by (auto simp: p2_def p1_def quiet_def queued_def)
  have "\<exists>p'. ioxd__conn_on_recv p i res flags = Some p' \<and> handled i cnt p2 p'"
  proof -
    have e: "ioxd__conn_on_recv p i res flags = (if res = E_NOBUFS then recv_nobufs p2 i
      else if res \<le> 0 then recv_ended p2 i res (buf_flag flags) (flag_id flags)
      else do { p \<leftarrow> recv_data p2 i res (more_flag flags) (buf_flag flags) (flag_id flags); recv_after p i (more_flag flags) })"
      by (simp only: ioxd__conn_on_recv_def Let_def p2_def p1_def)
    consider (nobufs) "res = E_NOBUFS" | (ended) "res \<noteq> E_NOBUFS" "res \<le> 0" | (data) "0 < res" by linarith
    then show ?thesis
    proof cases
      case nobufs
      then have "Wx i True 0 [] cnt p2" using W2 k by auto
      then show ?thesis unfolding e using nobufs_ok[OF _ q2 a2] nobufs by simp
    next
      case ended
      then have "Wx i True 0 ?owe cnt p2" using W2 k(1) by auto
      then show ?thesis unfolding e using ended_ok[OF _ q2 a2] ended by simp
    next
      case data
      obtain p3 where p3: "recv_data p2 i res (more_flag flags) (buf_flag flags) (flag_id flags) = Some p3" "settled i ?fin 0 [] cnt p2 p3"
        using data_ok[OF W2 q2 a2] by (auto simp: settles_def)
      then have "Wx i ?fin 0 [] cnt p3" "quiet_at p3 i" "recv (conns p3 i) = RECV_ARMED" "touches i p2 p3"
        using a2 by (auto simp: settled_def frame_touches)
      then show ?thesis unfolding e using after_ok[of i "more_flag flags" cnt p3] handled_trans p3(1) data by auto
    qed
  qed
  then show ?thesis using handled_trans t by blast
qed


section \<open>The steps of the loop\<close>

lemma worker_at:
  assumes "worker_ok cnt p" and "i \<in> used p"
  shows "Wx i False 0 [] cnt p" "quiet_at p i" "\<forall>j \<in> used p - {i}. quiet_at p j"
  using assms by (auto simp: worker_ok_def Wx_W)

lemma settled_worker:
  assumes "settled i False 0 [] cnt q p'" and "\<forall>j \<in> used q - {i}. quiet_at q j"
  shows "worker_ok cnt p'"
proof -
  have "handled i cnt q p'" using assms(1) by (auto simp: settled_def handled_def frame_touches)
  then show ?thesis using handled_ok assms(2) by blast
qed

lemma op_ok:
  assumes ok: "worker_ok cnt p" and i: "i \<in> used p" "in_op (conns p i)"
  shows "\<exists>p'. run_co i (co_todo (conns p i)) (upd i (\<lambda>c. c\<lparr>in_op := False\<rparr>) p) = Some p' \<and> worker_ok cnt p'"
proof -
  let ?q = "upd i (\<lambda>c. c\<lparr>in_op := False\<rparr>) p"
  note A = worker_at[OF ok i(1)]
  have c: "cinv_at False 0 [] cnt p i" by (rule Wx_cinv[OF A(1)])
  have W: "Wx i False 0 [] cnt ?q" by (rule Wx_upd[OF A(1)]) (use c in \<open>simp add: cinv_def\<close>)
  have r: "running i ?q" using c i(2) by (auto simp: running_def cinv_def)
  have st: "starts (co_todo (conns p i)) (conns ?q i)" using A(2) i(2) by (simp add: quiet_def starts_def)
  obtain p' where p': "run_co i (co_todo (conns p i)) ?q = Some p'" "settled i False 0 [] cnt ?q p'" using run_co_ok[OF W r _ st] by auto
  have "\<forall>j \<in> used ?q - {i}. quiet_at ?q j" using A(3) by simp
  then show ?thesis using p' settled_worker by blast
qed

lemma ready_ok:
  assumes ok: "worker_ok cnt p" and r: "ready p = i # rest"
  shows "\<exists>p'. run_co i (co_todo (conns p i)) (p\<lparr>ready := rest\<rparr>) = Some p' \<and> worker_ok cnt p' \<and> ready p' = rest"
proof -
  let ?q = "p\<lparr>ready := rest\<rparr>"
  have g: "glob cnt p" using ok by (simp add: worker_ok_def W_def)
  then have i: "i \<in> used p" "i \<notin> set rest" using r by (auto simp: glob_def)
  note A = worker_at[OF ok i(1)]
  have c: "cinv_at False 0 [] cnt p i" by (rule Wx_cinv[OF A(1)])
  have "glob cnt ?q" using g r unfolding glob_def by auto
  moreover have "cinv_at False 0 [] cnt ?q i" using c i(2) r by (auto simp: cinv_def)
  moreover have "cinv_at False 0 [] cnt ?q j" if "j \<in> used p - {i}" for j
    using worker_at(1)[OF ok, of j, THEN Wx_cinv] that r by simp
  ultimately have W: "Wx i False 0 [] cnt ?q" using i(1) by (simp add: Wx_def)
  have rn: "running i ?q" using c i(2) r by (auto simp: running_def cinv_def)
  have st: "starts (co_todo (conns p i)) (conns ?q i)" using A(2) r by (simp add: quiet_def starts_def)
  obtain p' where p': "run_co i (co_todo (conns p i)) ?q = Some p'" "settled i False 0 [] cnt ?q p'" using run_co_ok[OF W rn _ st] by auto
  have "\<forall>j \<in> used ?q - {i}. quiet_at ?q j" using A(3) r by simp
  then have "worker_ok cnt p'" using settled_worker[OF p'(2)] by blast
  moreover have "ready p' = rest" using p'(2) by (simp add: settled_def frame_def)
  ultimately show ?thesis using p'(1) by blast
qed

lemma run_ready_ok: "worker_ok cnt p \<Longrightarrow> \<exists>p'. run_ready p = Some p' \<and> worker_ok cnt p' \<and> ready p' = []"
proof (induction "ready p" arbitrary: p)
  case Nil
  then show ?case by (simp add: run_ready.simps)
next
  case (Cons i rest)
  obtain p1 where p1: "run_co i (co_todo (conns p i)) (p\<lparr>ready := rest\<rparr>) = Some p1" "worker_ok cnt p1" "ready p1 = rest"
    using ready_ok[OF Cons.prems Cons.hyps(2)[symmetric]] by blast
  have e: "ready p = i # rest" using Cons.hyps(2) by simp
  obtain p2 where "run_ready p1 = Some p2" "worker_ok cnt p2" "ready p2 = []" using Cons.hyps(1)[OF p1(3)[symmetric] p1(2)] by blast
  then show ?case using p1(1) by (simp add: run_ready.simps[of p] e)
qed

lemma drain_one:
  assumes ok: "worker_ok cnt p" and s: "starved p \<noteq> []"
  shows "\<exists>p'. ioxd__conn_recv_drain (last (starved p)) (p\<lparr>starved := butlast (starved p)\<rparr>) = Some p' \<and> worker_ok cnt p' \<and>
    length (starved p') < length (starved p)"
proof -
  define i where "i = last (starved p)"
  let ?p1 = "p\<lparr>starved := butlast (starved p)\<rparr>" and ?f = "\<lambda>c. (end_input E_CANCELED c)\<lparr>recv := RECV_DONE\<rparr>"
  let ?q = "upd i ?f ?p1"
  have g: "glob cnt p" using ok by (simp add: worker_ok_def W_def)
  have sp: "starved p = butlast (starved p) @ [i]" using s by (simp add: i_def)
  have d: "distinct (butlast (starved p))" "i \<notin> set (butlast (starved p))" using g sp by (metis distinct_append distinct_butlast glob_def, metis distinct_append glob_def not_distinct_conv_prefix)
  have i: "i \<in> used p" "i \<in> set (starved p)" using g s by (auto simp: glob_def i_def)
  note A = worker_at[OF ok i(1)]
  have c: "cinv_at False 0 [] cnt p i" by (rule Wx_cinv[OF A(1)])
  have a: "recv (conns p i) = RECV_STARVED" using c i(2) by (simp add: cinv_def)
  have mem: "j \<in> set (butlast (starved p)) \<longleftrightarrow> j \<in> set (starved p)" if "j \<noteq> i" for j using sp that by (metis Un_iff empty_iff empty_set insertE list.set(2) set_append)
  have "glob cnt ?p1" using g d unfolding glob_def by (auto dest: in_set_butlastD)
  then have "glob cnt ?q" using i(1) by (intro glob_upd) simp_all
  moreover have "cinv_at False 1 [] cnt ?q i" using c a d(2) by (simp add: cinv_def queued_def)
  moreover have "cinv_at False 0 [] cnt ?q j" if "j \<in> used p - {i}" for j
    using worker_at(1)[OF ok, of j, THEN Wx_cinv] that mem by simp
  ultimately have W: "Wx i False 1 [] cnt ?q" using i(1) by (simp add: Wx_def)
  have "settles i False 1 [] cnt ?q (wake_reader i ?q)"
  proof (rule wake_ok[OF W])
    show "waiter (conns ?q i) \<longrightarrow> starts (co_todo (conns ?q i)) (conns ?q i)" using A(2) by (auto simp: quiet_def starts_def)
    show "\<not> waiter (conns ?q i) \<longrightarrow> quiet_at ?q i" using A(2) by (auto simp: quiet_def queued_def)
  qed simp
  then obtain p' where p': "do { p \<leftarrow> wake_reader i ?q; Some (conn_unref i p) } = Some p'" "frame i ?q p'"
    "if i \<in> used p' then Wx i False 0 [] cnt p' \<and> quiet_at p' i else W cnt p'" using unref_settled by blast
  have "handled i cnt ?q p'" using p'(2,3) by (simp add: handled_def frame_touches)
  moreover have "\<forall>j \<in> used ?q - {i}. quiet_at ?q j" using A(3) by simp
  ultimately have "worker_ok cnt p'" by (rule handled_ok)
  moreover have "length (starved p') < length (starved p)" using p'(2) s by (auto simp: frame_def length_greater_0_conv[symmetric] simp del: length_greater_0_conv)
  moreover have "ioxd__conn_recv_drain i ?p1 = Some p'" using p'(1) a by (simp add: ioxd__conn_recv_drain_def)
  ultimately show ?thesis unfolding i_def[symmetric] by blast
qed

lemma drain_starved_ok: "worker_ok cnt p \<Longrightarrow> \<exists>p'. drain_starved p = Some p' \<and> worker_ok cnt p' \<and> starved p' = []"
proof (induction "length (starved p)" arbitrary: p rule: less_induct)
  case less
  show ?case
  proof (cases "starved p = []")
    case True
    then show ?thesis using less.prems by (simp add: drain_starved.simps)
  next
    case False
    obtain p1 where p1: "ioxd__conn_recv_drain (last (starved p)) (p\<lparr>starved := butlast (starved p)\<rparr>) = Some p1" "worker_ok cnt p1"
      "length (starved p1) < length (starved p)" using drain_one[OF less.prems False] by blast
    obtain p2 where "drain_starved p1 = Some p2" "worker_ok cnt p2" "starved p2 = []" using less.hyps[OF p1(3,2)] by blast
    then show ?thesis using p1(1) False by (simp add: drain_starved.simps[of p])
  qed
qed

text \<open>Arming the oldest of the starved connections.\<close>

lemma arm_all:
  assumes "distinct xs"
  defines "p' \<equiv> \<lambda>p. foldl (\<lambda>p i. ioxd__conn_arm_recv p i) p xs"
  shows "conns (p' p) j = (if j \<in> set xs then (conns p j)\<lparr>recv := RECV_ARMED, cancelling := False\<rparr> else conns p j)"
    "inflight (p' p) = rev xs @ inflight p" "ready (p' p) = ready p" "starved (p' p) = starved p" "used (p' p) = used p" "allocated (p' p) = allocated p"
    "conn_free (p' p) = conn_free p" "conn_free_count (p' p) = conn_free_count p" "live_count (p' p) = live_count p" "p_bufs (p' p) = p_bufs p"
    "staged (p' p) = staged p @ map Sqe_recv xs"
proof -
  have "conns (p' p) j = (if j \<in> set xs then (conns p j)\<lparr>recv := RECV_ARMED, cancelling := False\<rparr> else conns p j) \<and>
    inflight (p' p) = rev xs @ inflight p \<and> ready (p' p) = ready p \<and> starved (p' p) = starved p \<and> used (p' p) = used p \<and> allocated (p' p) = allocated p \<and>
    conn_free (p' p) = conn_free p \<and> conn_free_count (p' p) = conn_free_count p \<and> live_count (p' p) = live_count p \<and> p_bufs (p' p) = p_bufs p \<and>
    staged (p' p) = staged p @ map Sqe_recv xs"
    using assms(1) unfolding p'_def
  proof (induction xs arbitrary: p)
    case (Cons x xs)
    then show ?case by (simp add: ioxd__conn_arm_recv_def)
  qed simp
  then show "conns (p' p) j = (if j \<in> set xs then (conns p j)\<lparr>recv := RECV_ARMED, cancelling := False\<rparr> else conns p j)"
    "inflight (p' p) = rev xs @ inflight p" "ready (p' p) = ready p" "starved (p' p) = starved p" "used (p' p) = used p" "allocated (p' p) = allocated p"
    "conn_free (p' p) = conn_free p" "conn_free_count (p' p) = conn_free_count p" "live_count (p' p) = live_count p" "p_bufs (p' p) = p_bufs p"
    "staged (p' p) = staged p @ map Sqe_recv xs" by auto
qed

lemma count_distinct: "distinct xs \<Longrightarrow> count_list xs x = (if x \<in> set xs then 1 else 0)"
  by (induction xs) (auto simp: count_list_0_iff)

lemma quiet_rearmed: "quiet c rd \<Longrightarrow> recv c = RECV_STARVED \<Longrightarrow> quiet (c\<lparr>recv := RECV_ARMED, cancelling := b\<rparr>) rd"
  by (auto simp: quiet_def queued_def)

lemma stop_asked_arms: "j \<notin> set xs \<Longrightarrow> stop_asked j (st @ map Sqe_recv xs) = stop_asked j st"
proof (induction xs rule: rev_induct)
  case (snoc x xs)
  then show ?case using stop_asked_snoc[of j "st @ map Sqe_recv xs" "Sqe_recv x"] by simp
qed simp

lemma rearm_list:
  assumes ok: "worker_ok cnt p" and s: "starved p = xs @ ys"
  defines "p' \<equiv> (foldl (\<lambda>p i. ioxd__conn_arm_recv p i) p xs)\<lparr>starved := ys\<rparr>"
  shows "worker_ok cnt p'"
proof -
  have g: "glob cnt p" using ok by (simp add: worker_ok_def W_def)
  then have d: "distinct xs" "set xs \<inter> set ys = {}" "set xs \<subseteq> used p" using s by (auto simp: glob_def)
  note F = arm_all[OF d(1), of p]
  have e: "used p' = used p" "ready p' = ready p" "inflight p' = rev xs @ inflight p" "starved p' = ys" "staged p' = staged p @ map Sqe_recv xs"
    "\<And>j. conns p' j = (if j \<in> set xs then (conns p j)\<lparr>recv := RECV_ARMED, cancelling := False\<rparr> else conns p j)"
    by (simp_all add: p'_def F)
  have "glob cnt p'" using g d s unfolding glob_def e by (auto simp: p'_def F)
  moreover have "cinv_at False 0 [] cnt p' j" "quiet_at p' j" if j: "j \<in> used p" for j
  proof -
    have c: "cinv_at False 0 [] cnt p j" and q: "quiet_at p j" using worker_at[OF ok j] Wx_cinv by auto
    have r: "j \<in> set xs \<Longrightarrow> recv (conns p j) = RECV_STARVED" using c s by (auto simp: cinv_def)
    have n: "count_list (rev xs @ inflight p) j = (if j \<in> set xs then 1 else 0) + count_list (inflight p) j"
      using d(1) by (simp add: count_distinct)
    have o: "j \<in> set xs \<Longrightarrow> \<not> closed (conns p j)" using q r by (auto simp: quiet_def)
    show "cinv_at False 0 [] cnt p' j"
    proof (cases "j \<in> set xs")
      case True
      then show ?thesis unfolding e n using c r o d(2) s by (auto simp: cinv_def queued_def)
    next
      case False
      then show ?thesis unfolding e n stop_asked_arms[OF False] using c s by simp
    qed
    show "quiet_at p' j" unfolding e using quiet_rearmed[OF q] q r by simp
  qed
  ultimately show ?thesis by (simp add: worker_ok_def W_def e)
qed

text \<open>Steps that touch neither connections nor what they hang on.\<close>

definition same_core :: "proactor \<Rightarrow> proactor \<Rightarrow> bool" where
  "same_core p q \<longleftrightarrow> (\<forall>i. stop_asked i (staged p) \<longrightarrow> stop_asked i (staged q)) \<and> conns q = conns p \<and> allocated q = allocated p \<and> conn_free q = conn_free p \<and> conn_free_count q = conn_free_count p \<and>
     live_count q = live_count p \<and> starved q = starved p \<and> ready q = ready p \<and> inflight q = inflight p \<and> b_count (p_bufs q) = b_count (p_bufs p)"

lemma core_ok: "same_core p q \<Longrightarrow> worker_ok cnt p \<Longrightarrow> worker_ok cnt q"
  by (auto simp: same_core_def worker_ok_def W_def glob_def used_def intro: cinv_told)

lemma core_trans: "same_core p q \<Longrightarrow> same_core q r \<Longrightarrow> same_core p r"
  by (simp add: same_core_def)

lemma core_refl [simp]: "same_core p p"
  by (simp add: same_core_def)

lemma core_listener [simp]: "same_core p (upd_listener l f p)"
  by (simp add: same_core_def upd_listener_def)

lemma core_stage [simp]: "\<forall>i. s \<noteq> Sqe_recv i \<Longrightarrow> same_core p (stage s p)"
  by (simp add: same_core_def)

lemma core_stall [simp]: "same_core p (stall_accept l p)"
  by (simp add: stall_accept_def)

lemma core_arm [simp]: "same_core p (arm_accept l p)"
  unfolding arm_accept_def using core_trans[OF core_listener core_stage] by simp

lemma core_rearm_each: "same_core p (rearm_each ls p)"
proof (induction ls arbitrary: p)
  case (Cons l ls)
  show ?case by (simp add: Let_def, intro conjI impI) (use Cons core_trans[OF core_arm] in blast)+
qed simp

lemma core_rearm: "same_core p (rearm_stalled p)"
  by (simp add: rearm_stalled_def core_rearm_each)

lemma core_note [simp]: "same_core p (note_accept_error l p)"
  unfolding note_accept_error_def Let_def using core_trans[OF core_listener core_listener] by simp

lemma core_publish: "same_core p (publish p)"
  by (simp add: same_core_def publish_def ioxd__bufring_publish_def)

lemma rearm_starved_ok:
  assumes "worker_ok cnt p"
  shows "worker_ok cnt (rearm_starved p)"
proof -
  define q where "q = p\<lparr>p_bufs := (p_bufs p)\<lparr>returned := 0\<rparr>\<rparr>"
  define n where "n = (if unat (returned (p_bufs p)) < length (starved q) then unat (returned (p_bufs p)) else length (starved q))"
  have "same_core p q" by (simp add: same_core_def q_def)
  then have q: "worker_ok cnt q" using core_ok assms by blast
  have s: "starved q = take n (starved q) @ drop n (starved q)" by simp
  have "starved (foldl (\<lambda>p i. ioxd__conn_arm_recv p i) q (take n (starved q))) = starved q"
    by (rule arm_all(4)) (use q in \<open>simp add: worker_ok_def W_def glob_def\<close>)
  then have "rearm_starved p = (if starved q = [] \<or> unat (returned (p_bufs p)) = 0 then q
      else (foldl (\<lambda>p i. ioxd__conn_arm_recv p i) q (take n (starved q)))\<lparr>starved := drop n (starved q)\<rparr>)"
    unfolding rearm_starved_def Let_def q_def[symmetric] n_def[symmetric] by (simp only:)
  then show ?thesis using q rearm_list[OF q s] by simp
qed

lemma begin_drain_ok:
  assumes "worker_ok cnt p"
  shows "\<exists>p'. begin_drain p = Some p' \<and> worker_ok cnt p' \<and> starved p' = []"
proof -
  let ?step = "\<lambda>p l. upd_listener l (\<lambda>x. x\<lparr>stalled := True\<rparr>) (if \<not> stalled (listeners p ! l) then stage (Sqe_cancel_accept l) p else p)"
  have one: "same_core p (?step p l)" for p l using core_trans[OF core_stage core_listener] by simp
  have "same_core p (foldl ?step p ls)" for p ls
  proof (induction ls arbitrary: p)
    case (Cons l ls)
    show ?case unfolding foldl_Cons by (rule core_trans[OF one Cons])
  qed simp
  then have "same_core (p\<lparr>draining := True\<rparr>) (stage Sqe_cancel_any (foldl ?step (p\<lparr>draining := True\<rparr>) [0..<length (listeners p)]))"
    using core_trans[OF _ core_stage] by simp
  moreover have "same_core p (p\<lparr>draining := True\<rparr>)" by (simp add: same_core_def)
  ultimately have "worker_ok cnt (stage Sqe_cancel_any (foldl ?step (p\<lparr>draining := True\<rparr>) [0..<length (listeners p)]))"
    using assms core_ok by blast
  from drain_starved_ok[OF this] show ?thesis by (simp add: begin_drain_def)
qed

text \<open>A new connection: recycled from the pool, or fresh.\<close>

definition reset_conn :: "bool \<Rightarrow> int \<Rightarrow> conn \<Rightarrow> conn" where
  "reset_conn tls fd c = c\<lparr>c_fd := fd, c_tls := tls, waiter := False, rx := ioxd__spsc_reset (rx c), recv := RECV_ARMED,
     pausing := False, cancelling := False, refs := 2, closed := False, eof := False, err := 0, c_held := [], c_got := [], c_gave := []\<rparr>"

lemma conn_new_ok:
  assumes g: "glob cnt p" and f: "fresh \<notin> allocated p" and n: "ioxd__conn_new p fresh tls fd = (i, p1)"
  shows "i \<notin> used p" "used p1 = insert i (used p)" "finite (allocated p1)" "set (conn_free p1) \<subseteq> allocated p1" "distinct (conn_free p1)"
    "conn_free_count p1 = length (conn_free p1)" "live_count p1 = live_count p + 1" "starved p1 = starved p" "ready p1 = ready p" "inflight p1 = inflight p"
    "p_bufs p1 = p_bufs p" "\<And>j. j \<noteq> i \<Longrightarrow> conns p1 j = conns p j" "\<exists>c. spsc_good (rx c) \<and> conns p1 i = reset_conn tls fd c" "i \<notin> set (conn_free p1)"
    "set (conn_free p1) \<subseteq> set (conn_free p)" "staged p1 = staged p"
proof -
  have z: "spsc_good (rx zero_conn)" by (simp add: zero_conn_def spsc_good_def)
  show "i \<notin> used p" "used p1 = insert i (used p)" "finite (allocated p1)" "set (conn_free p1) \<subseteq> allocated p1" "distinct (conn_free p1)"
    "conn_free_count p1 = length (conn_free p1)" "live_count p1 = live_count p + 1" "starved p1 = starved p" "ready p1 = ready p" "inflight p1 = inflight p"
    "p_bufs p1 = p_bufs p" "\<And>j. j \<noteq> i \<Longrightarrow> conns p1 j = conns p j" "i \<notin> set (conn_free p1)" "set (conn_free p1) \<subseteq> set (conn_free p)" "staged p1 = staged p"
    using g f n by (cases "conn_free p"; auto simp: ioxd__conn_new_def glob_def used_def)+
  show "\<exists>c. spsc_good (rx c) \<and> conns p1 i = reset_conn tls fd c"
    using g f n z by (cases "conn_free p") (auto simp: ioxd__conn_new_def glob_def reset_conn_def)
qed

lemma accept_conn_ok:
  assumes ok: "worker_ok cnt p" and f: "fresh \<notin> allocated p" and n: "ioxd__conn_new p fresh tls fd = (i, p1)" and t: "plain_ops todo"
  shows "worker_ok cnt ((ioxd__proactor_spawn i todo (ioxd__conn_arm_recv p1 i))\<lparr>accepted := a\<rparr>)"
proof -
  define p' where "p' = (ioxd__proactor_spawn i todo (ioxd__conn_arm_recv p1 i))\<lparr>accepted := a\<rparr>"
  have g: "glob cnt p" using ok by (simp add: worker_ok_def W_def)
  note N = conn_new_ok[OF g f n]
  obtain c where c: "spsc_good (rx c)" "conns p1 i = reset_conn tls fd c" using N(13) by blast
  have e: "used p' = insert i (used p)" "ready p' = ready p @ [i]" "inflight p' = i # inflight p" "starved p' = starved p" "allocated p' = allocated p1"
    "conn_free p' = conn_free p1" "conn_free_count p' = conn_free_count p1" "live_count p' = live_count p + 1" "p_bufs p' = p_bufs p"
    "\<And>j. j \<noteq> i \<Longrightarrow> conns p' j = conns p j" "staged p' = staged p @ [Sqe_recv i]"
    "conns p' i = (reset_conn tls fd c)\<lparr>recv := RECV_ARMED, cancelling := False, co_todo := todo, in_op := False\<rparr>"
    using N c by (simp_all add: p'_def ioxd__proactor_spawn_def ioxd__conn_arm_recv_def used_def)
  have u: "finite (used p)" "live_count p = card (used p)" using g by (auto simp: glob_def used_def)
  have sub: "i \<notin> set (starved p)" "i \<notin> set (inflight p)" "i \<notin> set (ready p)" using g N(1) by (auto simp: glob_def)
  have "spsc_good (rx (conns p' j))" if "j \<in> set (conn_free p1)" for j
  proof -
    have "j \<noteq> i" "j \<in> set (conn_free p)" using that N(14,15) by auto
    then show ?thesis using g e(10) by (simp add: glob_def)
  qed
  then have "glob cnt p'" using g u sub N(1,3-6) unfolding glob_def e by auto
  moreover have old: "cinv_at False 0 [] cnt p' j" "quiet_at p' j" if j: "j \<in> used p" "j \<noteq> i" for j
    using worker_at[OF ok j(1)] Wx_cinv[of j False 0 "[]" cnt p] j(2) e(10)[OF j(2)] by (simp_all add: e)
  moreover have new: "cinv_at False 0 [] cnt p' i" "quiet_at p' i"
    using rxq.reset_contents[OF c(1)] sub t by (simp_all add: e cinv_def quiet_def queued_def reset_conn_def count_list_0_iff)
  moreover have "cinv_at False 0 [] cnt p' j \<and> quiet_at p' j" if "j \<in> used p'" for j using that old[of j] new e(1) by (cases "j = i") auto
  ultimately show ?thesis unfolding p'_def[symmetric] by (simp add: worker_ok_def W_def)
qed

lemma on_accept_ok:
  assumes ok: "worker_ok cnt p" and f: "fresh \<notin> allocated p" and t: "plain_ops todo"
  shows "worker_ok cnt (on_accept l res flags fresh todo p)"
proof -
  obtain i p1 where n: "ioxd__conn_new p fresh (l_tls (listeners p ! l)) res = (i, p1)" by fastforce
  define q where "q = (if res \<ge> 0 \<and> draining p then ioxd__conn_close_socket p res
         else if res \<ge> 0 then (ioxd__proactor_spawn i todo (ioxd__conn_arm_recv p1 i))\<lparr>accepted := accepted (ioxd__proactor_spawn i todo (ioxd__conn_arm_recv p1 i)) + 1\<rparr>
         else if \<not> (draining p \<and> res = E_CANCELED) then note_accept_error l p else p)"
  have "worker_ok cnt q" unfolding q_def using ok accept_conn_ok[OF ok f n t] core_ok[OF core_stage ok] core_ok[OF core_note ok]
    by (simp add: ioxd__conn_close_socket_def)
  moreover have "on_accept l res flags fresh todo p = (if more_flag flags then q else if res < 0 \<and> accept_exhausted res then stall_accept l q else arm_accept l q)"
    unfolding on_accept_def n Let_def q_def by simp
  ultimately show ?thesis using core_ok[OF core_stall] core_ok[OF core_arm] by simp
qed

lemma dispatch_ok:
  assumes ok: "worker_ok cnt p" and m: "may_post cnt p e"
  shows "\<exists>p'. dispatch (posted p e) e = Some p' \<and> worker_ok cnt p'"
proof (cases e)
  case (Cqe_op i)
  then show ?thesis using op_ok[OF ok] m by simp
next
  case (Cqe_recv i res flags)
  note P = posted_recv[OF ok m[unfolded Cqe_recv]]
  obtain p' where "ioxd__conn_on_recv (posted p e) i res flags = Some p'" "handled i cnt (posted p e) p'"
    using on_recv_ok[OF P(1-3)] m Cqe_recv by auto
  moreover have "\<forall>j \<in> used (posted p e) - {i}. quiet_at (posted p e) j" using ok P(4-6) Cqe_recv by (simp add: worker_ok_def)
  ultimately show ?thesis using handled_ok Cqe_recv by fastforce
next
  case (Cqe_accept l res flags fresh todo)
  then show ?thesis using on_accept_ok[OF ok] m by simp
next
  case (Cqe_drain res)
  have "same_core p (p\<lparr>cancel_each := True\<rparr>)" by (simp add: same_core_def)
  then show ?thesis using core_ok ok Cqe_drain by auto
qed (use ok in auto)


section \<open>A worker that runs\<close>

fun dispatch_all :: "proactor \<Rightarrow> cqe list \<Rightarrow> proactor option" where
  "dispatch_all p [] = Some p"
| "dispatch_all p (e # es) = do { p \<leftarrow> dispatch (posted p e) e; dispatch_all p es }"

text \<open>
  One turn of the loop: \<open>stop\<close> was asked for, or not; \<open>late\<close>: the deadline of the drain has passed; \<open>rc\<close>: what entering the
  kernel returned; \<open>es\<close>: the completions it finds.  The result says whether the loop is left and whether a stop is asked for.
\<close>

definition enter_failed :: "int \<Rightarrow> bool" where
  "enter_failed rc \<longleftrightarrow> rc < 0 \<and> rc \<noteq> - 62 \<and> rc \<noteq> - 4 \<and> rc \<noteq> - 11 \<and> rc \<noteq> - 16"

definition loop_turn :: "bool \<Rightarrow> bool \<Rightarrow> int \<Rightarrow> cqe list \<Rightarrow> proactor \<Rightarrow> (bool \<times> bool \<times> proactor) option" where
  "loop_turn stop late rc es p = do {
     p \<leftarrow> (if stop \<and> \<not> draining p then begin_drain p else Some p);
     (if draining p \<and> (live_count p = 0 \<or> late) then Some (True, stop, p)
      else do {
        p \<leftarrow> run_ready p;
        (let p = publish (rearm_starved p)
         in if enter_failed rc then Some (True, True, p\<lparr>failed := rc\<rparr>)
         else do {
           p \<leftarrow> dispatch_all p es;
           Some (False, stop, rearm_stalled p) }) }) }"

text \<open>The states of a worker, after each part of a turn; the clock runs as it likes.\<close>

inductive worker :: "u32 \<Rightarrow> proactor \<Rightarrow> bool" for cnt :: u32 where
  w_start: "allocated p = {} \<Longrightarrow> conn_free p = [] \<Longrightarrow> conn_free_count p = 0 \<Longrightarrow> live_count p = 0 \<Longrightarrow> starved p = [] \<Longrightarrow> ready p = [] \<Longrightarrow>
    inflight p = [] \<Longrightarrow> b_count (p_bufs p) = cnt \<Longrightarrow> worker cnt p"
| w_drain: "worker cnt p \<Longrightarrow> begin_drain p = Some p' \<Longrightarrow> worker cnt p'"
| w_ready: "worker cnt p \<Longrightarrow> run_ready p = Some p' \<Longrightarrow> worker cnt p'"
| w_starved: "worker cnt p \<Longrightarrow> worker cnt (publish (rearm_starved p))"
| w_cqe: "worker cnt p \<Longrightarrow> may_post cnt p e \<Longrightarrow> dispatch (posted p e) e = Some p' \<Longrightarrow> worker cnt p'"
| w_stalled: "worker cnt p \<Longrightarrow> worker cnt (rearm_stalled p)"
| w_failed: "worker cnt p \<Longrightarrow> worker cnt (p\<lparr>failed := rc\<rparr>)"
| w_clock: "worker cnt p \<Longrightarrow> worker cnt (p\<lparr>clock := t\<rparr>)"

text \<open>Nothing a coroutine or the sweep over the starved connections does ends a drain.\<close>

lemma draining_give: "give_back i b p = Some p' \<Longrightarrow> draining p' = draining p"
  by (auto simp: give_back_def bind_eq_Some_conv)

lemma draining_rx: "drain_rx i p = Some p' \<Longrightarrow> draining p' = draining p"
proof (erule drain_rx.raw_induct[of "\<lambda>i p p'. draining p' = draining p", rotated])
  fix f i p p'
  assume "\<And>i p p'. f i p = Some p' \<Longrightarrow> draining p' = draining p"
    "(if ioxd__spsc_empty (rx (conns p i)) then Some p else let (it, q) = ioxd__spsc_pop (rx (conns p i)) in do { p \<leftarrow> give_back i (rx_buf_id it) (upd i (\<lambda>c. c\<lparr>rx := q\<rparr>) p); f i p }) = Some p'"
  then show "draining p' = draining p" using draining_give by (fastforce simp: bind_eq_Some_conv split: if_splits prod.splits)
qed

lemma draining_all: "give_all i bs p = Some p' \<Longrightarrow> draining p' = draining p"
  by (induction bs arbitrary: p) (auto simp: bind_eq_Some_conv dest!: draining_give)

lemma draining_small [simp]:
  "draining (conn_unref i p) = draining p" "draining (cancel_recv i p) = draining p" "draining (ioxd__conn_arm_recv p i) = draining p"
  "draining (park i ops p) = draining p" "draining (pause_begin i p) = draining p" "draining (snd (pause_end i p)) = draining p"
  "draining (snd (ioxd__conn_recv_resume i p)) = draining p" "draining (ioxd__conn_close_socket p fd) = draining p"
  by (simp_all add: conn_unref_def cancel_recv_def ioxd__conn_arm_recv_def park_def pause_begin_def pause_end_def ioxd__conn_recv_resume_def ioxd__conn_close_socket_def Let_def)

lemma draining_close: "ioxd__conn_close i p = Some p' \<Longrightarrow> draining p' = draining p"
  by (auto simp: ioxd__conn_close_def Let_def bind_eq_Some_conv split: if_splits dest!: draining_rx)

lemma draining_run: "run_co i ops p = Some p' \<Longrightarrow> draining p' = draining p"
proof (induction i ops p rule: run_co.induct)
  case (3 i k ops p)
  then show ?case using draining_give by (fastforce simp: bind_eq_Some_conv split: if_splits)
qed (auto simp: bind_eq_Some_conv Let_def split: if_splits prod.splits dest!: draining_all draining_close)

lemma drain_starved_draining: "drain_starved p = Some p' \<Longrightarrow> draining p' = draining p"
proof (erule drain_starved.raw_induct[of "\<lambda>p p'. draining p' = draining p", rotated])
  fix f p p'
  assume "\<And>p p'. f p = Some p' \<Longrightarrow> draining p' = draining p"
    "(if starved p = [] then Some p else do { p \<leftarrow> ioxd__conn_recv_drain (last (starved p)) (p\<lparr>starved := butlast (starved p)\<rparr>); f p }) = Some p'"
  moreover have "draining q' = draining q" if "ioxd__conn_recv_drain i q = Some q'" for i q q'
    using that draining_run by (fastforce simp: ioxd__conn_recv_drain_def wake_reader_def bind_eq_Some_conv split: if_splits)
  ultimately show "draining p' = draining p" by (fastforce simp: bind_eq_Some_conv split: if_splits)
qed

lemma begin_drain_drains:
  assumes "begin_drain p = Some p'"
  shows "draining p'"
proof -
  have f: "draining (foldl (\<lambda>p l. upd_listener l (\<lambda>x. x\<lparr>stalled := True\<rparr>) (if \<not> stalled (listeners p ! l) then stage (Sqe_cancel_accept l) p else p)) p ls) = draining p" for p ls
    by (induction ls arbitrary: p) (auto simp: upd_listener_def)
  show ?thesis using assms drain_starved_draining by (fastforce simp: begin_drain_def Let_def f)
qed

lemma worker_inv: "worker cnt p \<Longrightarrow> worker_ok cnt p"
proof (induction rule: worker.induct)
  case (w_start p)
  then show ?case by (auto simp: worker_ok_def W_def glob_def used_def)
next
  case (w_drain p p')
  then show ?case using begin_drain_ok by fastforce
next
  case (w_ready p p')
  then show ?case using run_ready_ok by fastforce
next
  case (w_starved p)
  then show ?case using core_ok[OF core_publish] rearm_starved_ok by blast
next
  case (w_cqe p e p')
  then show ?case using dispatch_ok by fastforce
next
  case (w_stalled p)
  then show ?case using core_ok[OF core_rearm] by blast
next
  case (w_failed p rc)
  have "same_core p (p\<lparr>failed := rc\<rparr>)" by (simp add: same_core_def)
  then show ?case using core_ok w_failed by blast
next
  case (w_clock p t)
  have "same_core p (p\<lparr>clock := t\<rparr>)" by (simp add: same_core_def)
  then show ?case using core_ok w_clock by blast
qed

text \<open>The completions of a turn, each when the kernel may post it.\<close>

fun may_post_all :: "u32 \<Rightarrow> proactor \<Rightarrow> cqe list \<Rightarrow> bool" where
  "may_post_all cnt p [] \<longleftrightarrow> True"
| "may_post_all cnt p (e # es) \<longleftrightarrow> may_post cnt p e \<and> (case dispatch (posted p e) e of Some p \<Rightarrow> may_post_all cnt p es | None \<Rightarrow> True)"

lemma dispatch_all_worker: "worker cnt p \<Longrightarrow> may_post_all cnt p es \<Longrightarrow> \<exists>p'. dispatch_all p es = Some p' \<and> worker cnt p'"
proof (induction es arbitrary: p)
  case (Cons e es)
  obtain p1 where p1: "dispatch (posted p e) e = Some p1" using dispatch_ok[OF worker_inv[OF Cons.prems(1)]] Cons.prems(2) by auto
  then have "worker cnt p1" using w_cqe Cons.prems by auto
  then show ?case using Cons.IH[of p1] Cons.prems(2) p1 by simp
qed simp

text \<open>The last completion of a closed connection's receive drops its last reference.\<close>

lemma unref_gone: "refs (conns p i) = 1 \<Longrightarrow> i \<notin> used (conn_unref i p)"
  by (auto simp: conn_unref_def used_def Let_def)

lemma give_back_fields:
  assumes "give_back i b p = Some p'"
  shows "closed (conns p' i) = closed (conns p i)" "waiter (conns p' i) = waiter (conns p i)" "refs (conns p' i) = refs (conns p i)"
    "pausing (conns p' i) = pausing (conns p i)"
  using assms by (auto simp: give_back_def split: bind_splits)

lemma wake_none: "\<not> waiter (conns p i) \<Longrightarrow> wake_reader i p = Some p"
  by (simp add: wake_reader_def)

lemma closed_after:
  assumes "closed (conns p i)" "refs (conns p i) = 1" and "recv_after p i False = Some p'"
  shows "i \<notin> used p'"
  using assms unref_gone[of "upd i (\<lambda>c. c\<lparr>recv := RECV_DONE\<rparr>) p" i] by (auto simp: recv_after_def)

lemma closed_data:
  assumes c: "closed (conns p i)" "refs (conns p i) = 1" "\<not> waiter (conns p i)" and d: "recv_data p i res False has_buf b = Some p1"
  shows "closed (conns p1 i)" "refs (conns p1 i) = 1"
proof -
  have "closed (conns p1 i) \<and> refs (conns p1 i) = 1"
  proof (cases has_buf)
    case True
    then have "give_back i b p = Some p1" using d c(1) by (simp add: recv_data_def)
    then show ?thesis using give_back_fields c by metis
  next
    case False
    then show ?thesis using d c by (auto simp: recv_data_def wake_none)
  qed
  then show "closed (conns p1 i)" "refs (conns p1 i) = 1" by blast+
qed

lemma closed_ended:
  assumes c: "closed (conns p i)" "refs (conns p i) = 1" "\<not> waiter (conns p i)" and d: "recv_ended p i res has_buf b = Some p'"
  shows "i \<notin> used p'"
proof -
  obtain p1 where p1: "(if has_buf then give_back i b p else Some p) = Some p1" using d by (auto simp: recv_ended_def split: bind_splits)
  then have c1: "closed (conns p1 i)" "refs (conns p1 i) = 1" "\<not> waiter (conns p1 i)" using c by (auto dest: give_back_fields split: if_splits)
  let ?q = "upd i (\<lambda>c. (end_input (if res = E_IO \<and> c_tls c then 0 else res) c)\<lparr>recv := RECV_DONE\<rparr>) p1"
  have "p' = conn_unref i ?q" using d c1 unfolding recv_ended_def p1 by (simp add: wake_none)
  then show ?thesis using unref_gone[of ?q i] c1 by simp
qed

lemma closed_final:
  assumes c: "closed (conns p i)" "refs (conns p i) = 1" "\<not> waiter (conns p i)" and m: "\<not> more_flag flags"
    and r: "ioxd__conn_on_recv p i res flags = Some p'"
  shows "i \<notin> used p'"
proof -
  define p1 where "p1 = upd i (\<lambda>c. c\<lparr>cancelling := False\<rparr>) p"
  define p2 where "p2 = (if buf_flag flags then upd i (\<lambda>c. c\<lparr>c_got := flag_id flags # c_got c\<rparr>) p1 else p1)"
  have c2: "closed (conns p2 i)" "refs (conns p2 i) = 1" "\<not> waiter (conns p2 i)" using c by (simp_all add: p2_def p1_def)
  have e: "ioxd__conn_on_recv p i res flags = (if res = E_NOBUFS then recv_nobufs p2 i
      else if res \<le> 0 then recv_ended p2 i res (buf_flag flags) (flag_id flags)
      else do { p \<leftarrow> recv_data p2 i res False (buf_flag flags) (flag_id flags); recv_after p i False })"
    using m unfolding ioxd__conn_on_recv_def Let_def p2_def p1_def by simp
  consider "res = E_NOBUFS" | "res \<noteq> E_NOBUFS" "res \<le> 0" | "0 < res" by linarith
  then show ?thesis
  proof cases
    case 1
    then have "p' = conn_unref i (upd i (\<lambda>c. c\<lparr>recv := RECV_DONE\<rparr>) p2)" using r e c2 by (simp add: recv_nobufs_def)
    then show ?thesis using unref_gone[of "upd i (\<lambda>c. c\<lparr>recv := RECV_DONE\<rparr>) p2" i] c2 by simp
  next
    case 2
    then show ?thesis using r e closed_ended[OF c2] by simp
  next
    case 3
    then obtain p3 where "recv_data p2 i res False (buf_flag flags) (flag_id flags) = Some p3" "recv_after p3 i False = Some p'"
      using r e by (auto split: bind_splits)
    then show ?thesis using closed_data[OF c2] closed_after by blast
  qed
qed


section \<open>What a worker keeps\<close>

text \<open>A worker that has just opened its rings, and one with a connection whose handler waits for its first bytes.\<close>

definition idle_worker :: proactor where
  "idle_worker =
     \<lparr>conns = (\<lambda>_. zero_conn), allocated = {}, conn_free = [], conn_free_count = 0, idle_connections = 1, live_count = 0,
      p_bufs = \<lparr>bufs = [], ring_tail = 0, slab = 0, b_count = 4, b_size = 64, b_mask = 3, b_tail = 0, dirty = False, returned = 0\<rparr>,
      starved = [], cap_starved = 0, starved_total = 0, starved_since_log = 0, starved_log_at = 0, ready = [],
      listeners = [\<lparr>l_fd = 3, l_tls = False, stalled = False, stalled_live = 0, retry_at = 0, err_log_at = 0, err_since_log = 0\<rparr>],
      file_slots = 0, accepted = 0, draining = False, cancel_each = False, staged = [], inflight = [], clock = 0, failed = 0\<rparr>"

definition one_conn :: "hop list \<Rightarrow> proactor" where
  "one_conn todo = on_accept 0 7 CQE_F_MORE 0 todo idle_worker"

lemma one_conn_worker: "plain_ops todo \<Longrightarrow> worker 4 (one_conn todo)"
proof -
  assume t: "plain_ops todo"
  have "worker 4 idle_worker" by (rule w_start) (simp_all add: idle_worker_def)
  from w_cqe[OF this, of "Cqe_accept 0 7 CQE_F_MORE 0 todo"] t show ?thesis by (simp add: one_conn_def idle_worker_def)
qed

lemma one_conn_simps:
  "used (one_conn todo) = {0}" "ready (one_conn todo) = [0]" "inflight (one_conn todo) = [0]" "co_todo (conns (one_conn todo) 0) = todo"
  "starved (one_conn todo) = []" "allocated (one_conn todo) = {0}" "conn_free (one_conn todo) = []" "live_count (one_conn todo) = 1"
  "conns (one_conn todo) 0 = (reset_conn False 7 zero_conn)\<lparr>co_todo := todo, in_op := False\<rparr>"
  by (simp_all add: one_conn_def on_accept_def ioxd__conn_new_def idle_worker_def CQE_F_MORE_def ioxd__conn_arm_recv_def ioxd__proactor_spawn_def
      upd_def stage_def used_def reset_conn_def)

lemma rx_new [simp]: "ioxd__spsc_empty (ioxd__spsc_reset q)"
  by (simp add: ioxd__spsc_reset_def ioxd__spsc_empty_def)

definition waiting :: proactor where
  "waiting = park 0 [Take] ((one_conn [Take])\<lparr>ready := []\<rparr>)"

lemma waiting_runs: "run_ready (one_conn [Take]) = Some waiting"
  by (simp add: run_ready.simps[of "one_conn [Take]"] one_conn_simps reset_conn_def waiting_def)
    (simp add: run_ready.simps park_def)

lemma waiting_worker: "worker 4 waiting"
  by (rule w_ready[OF one_conn_worker waiting_runs]) simp

lemma waiting_simps:
  "used waiting = {0}" "ready waiting = []" "inflight waiting = [0]" "starved waiting = []" "live_count waiting = 1" "draining waiting = False"
  "conns waiting 0 = (reset_conn False 7 zero_conn)\<lparr>co_todo := [Take], in_op := False, waiter := True\<rparr>"
  by (simp_all add: waiting_def park_def one_conn_simps)
    (simp_all add: one_conn_def on_accept_def ioxd__conn_new_def idle_worker_def CQE_F_MORE_def ioxd__conn_arm_recv_def ioxd__proactor_spawn_def
      upd_def stage_def)

text \<open>A connection whose handler returned at once.\<close>

definition shut :: proactor where
  "shut = the (run_ready (one_conn []))"

lemma shut_runs: "run_ready (one_conn []) = Some shut" "worker 4 shut" "0 \<in> used shut" "closed (conns shut 0)" "0 \<in> set (inflight shut)"
proof -
  let ?p = "(one_conn [])\<lparr>ready := []\<rparr>"
  obtain p1 where p1: "run_ready (one_conn []) = Some p1"
    using run_ready_ok[OF worker_inv[OF one_conn_worker, of "[]"]] by auto
  then show r: "run_ready (one_conn []) = Some shut" by (simp add: shut_def)
  show w: "worker 4 shut" by (rule w_ready[OF one_conn_worker r]) simp
  have "run_ready (one_conn []) = Some (conn_unref 0 (ioxd__conn_close_socket (cancel_recv 0 (upd 0 (\<lambda>c. c\<lparr>closed := True\<rparr>) (upd 0 (\<lambda>c. c\<lparr>co_todo := []\<rparr>) ?p))) 7))"
    by (simp add: run_ready.simps[of "one_conn []"] one_conn_simps reset_conn_def ioxd__conn_close_def Let_def drain_rx.simps
        cancel_recv_def ioxd__conn_close_socket_def)
      (simp add: run_ready.simps conn_unref_def one_conn_simps reset_conn_def)
  then have e: "shut = conn_unref 0 (ioxd__conn_close_socket (cancel_recv 0 (upd 0 (\<lambda>c. c\<lparr>closed := True\<rparr>) (upd 0 (\<lambda>c. c\<lparr>co_todo := []\<rparr>) ?p))) 7)"
    using r by simp
  show "0 \<in> used shut" "closed (conns shut 0)" "0 \<in> set (inflight shut)"
    unfolding e by (simp_all add: conn_unref_def Let_def ioxd__conn_close_socket_def cancel_recv_def one_conn_simps reset_conn_def)
qed

text \<open>
  C11. Who holds a connection is counted exactly, at every point of a worker's run: a connection in use has one reference for its
  handler until it is closed and one for its receive until that is over, and at least one; the kernel has exactly one receive of it
  while it is armed and none otherwise; it is on the list of starved connections exactly when its receive starves.  Nothing that is
  queued, starving or in flight names a connection that was recycled, none is twice in the pool, and \<open>live\<close> counts those in use.
\<close>

theorem connection_counts_its_owners:
  assumes "worker cnt p"
  shows "live_count p = card (used p) \<and> distinct (conn_free p) \<and> set (starved p) \<union> set (inflight p) \<union> set (ready p) \<subseteq> used p \<and>
    (\<forall>i \<in> used p. 0 < refs (conns p i) \<and>
       refs (conns p i) = (if closed (conns p i) then 0 else 1) + (if recv (conns p i) = RECV_DONE then 0 else 1) \<and>
       count_list (inflight p) i = (if recv (conns p i) = RECV_ARMED then 1 else 0) \<and>
       (i \<in> set (starved p) \<longleftrightarrow> recv (conns p i) = RECV_STARVED))"
proof -
  have g: "glob cnt p" and c: "\<And>i. i \<in> used p \<Longrightarrow> cinv_at False 0 [] cnt p i"
    using worker_inv[OF assms] by (simp_all add: worker_ok_def W_def)
  have "0 < refs (conns p i) \<and> refs (conns p i) = (if closed (conns p i) then 0 else 1) + (if recv (conns p i) = RECV_DONE then 0 else 1) \<and>
      count_list (inflight p) i = (if recv (conns p i) = RECV_ARMED then 1 else 0) \<and> (i \<in> set (starved p) \<longleftrightarrow> recv (conns p i) = RECV_STARVED)"
    if "i \<in> used p" for i
    using c[OF that] unfolding cinv_def by simp
  then show ?thesis using g unfolding glob_def by blast
qed

theorem connection_counts_its_owners_witness: "live_count waiting = card (used waiting) \<and> refs (conns waiting 0) = 2"
  using connection_counts_its_owners[OF waiting_worker] by (simp add: waiting_simps reset_conn_def)

text \<open>
  C12. A completion never reaches a recycled connection and never stops the process: in any state of a worker, for any completion the
  kernel may post, the connection a receive names is in use, handling it returns, and the result is again a state of a worker.  The
  same holds for starting the coroutines that are ready, and for the beginning of a drain, after which none starves.
\<close>

theorem completions_are_handled:
  assumes "worker cnt p" and "may_post cnt p e"
  shows "(\<forall>i res flags. e = Cqe_recv i res flags \<longrightarrow> i \<in> used p) \<and> (\<exists>p'. dispatch (posted p e) e = Some p' \<and> worker cnt p') \<and>
    (\<exists>p'. run_ready p = Some p' \<and> worker cnt p' \<and> ready p' = []) \<and> (\<exists>p'. begin_drain p = Some p' \<and> worker cnt p' \<and> starved p' = [])"
proof -
  have ok: "worker_ok cnt p" by (rule worker_inv[OF assms(1)])
  have "i \<in> used p" if "e = Cqe_recv i res flags" for i res flags
    using ok assms(2) that by (auto simp: worker_ok_def W_def glob_def)
  then show ?thesis using dispatch_ok[OF ok assms(2)] run_ready_ok[OF ok] begin_drain_ok[OF ok] w_cqe[OF assms] w_ready[OF assms(1)] w_drain[OF assms(1)]
    by blast
qed

theorem completions_are_handled_witness: "\<exists>p'. dispatch (posted waiting (Cqe_recv 0 0 0)) (Cqe_recv 0 0 0) = Some p' \<and> worker 4 p'"
  using completions_are_handled[OF waiting_worker, of "Cqe_recv 0 0 0"] by (simp add: waiting_simps)

text \<open>
  C15. No receive buffer is lost by a connection: those delivered for it are those given back to the ring, those in its queue and those its
  handler holds, and once it is closed all have been given back.
\<close>

theorem every_buffer_is_accounted_for:
  assumes "worker cnt p" and "i \<in> used p"
  shows "mset (c_got (conns p i)) = mset (c_gave (conns p i)) + mset (queued (conns p i)) + mset (c_held (conns p i)) \<and>
    (closed (conns p i) \<longrightarrow> mset (c_got (conns p i)) = mset (c_gave (conns p i)))"
  using worker_at[OF worker_inv[OF assms(1)] assms(2)] Wx_cinv[of i False 0 "[]" cnt p] by (simp add: cinv_def quiet_def)

theorem every_buffer_is_accounted_for_witness: "0 \<in> used shut \<and> closed (conns shut 0) \<and> mset (c_got (conns shut 0)) = mset (c_gave (conns shut 0))"
  using every_buffer_is_accounted_for[OF shut_runs(2,3)] shut_runs by blast

text \<open>
  C13. A handler never sleeps through what it waits for.  The coroutine of an open connection is in exactly one place: parked on the
  connection, in an operation of its own, or ready to start.  One that waits for bytes has none queued and has not been told of the end,
  and its receive is not over: it is in flight, or on the list that is armed again when buffers come back, or was paused by the handler.
  One that waits for its receive to pause has that receive in flight.
\<close>

theorem a_waiting_handler_is_woken:
  assumes "worker cnt p" and "i \<in> used p" and "\<not> closed (conns p i)"
  shows "of_bool (waiter (conns p i)) + of_bool (in_op (conns p i)) + of_bool (i \<in> set (ready p)) = (1 :: nat) \<and>
    (waiter (conns p i) \<longrightarrow>
       (\<exists>ops. co_todo (conns p i) = Take # ops) \<and> queued (conns p i) = [] \<and> \<not> eof (conns p i) \<and>
         (i \<in> set (inflight p) \<or> i \<in> set (starved p) \<or> recv (conns p i) = RECV_PAUSED) \<or>
       (\<exists>ops. co_todo (conns p i) = Pause_wait # ops) \<and> pausing (conns p i) \<and> i \<in> set (inflight p))"
proof -
  note A = worker_at(1,2)[OF worker_inv[OF assms(1)] assms(2)]
  have c: "cinv_at False 0 [] cnt p i" by (rule Wx_cinv[OF A(1)])
  have f: "i \<in> set (inflight p)" if "recv (conns p i) = RECV_ARMED" using c that count_list_0_iff[of "inflight p" i] by (auto simp: cinv_def)
  have "i \<in> set (inflight p) \<or> i \<in> set (starved p) \<or> recv (conns p i) = RECV_PAUSED" if "\<not> eof (conns p i)"
    using c that f assms(3) by (cases "recv (conns p i)") (auto simp: cinv_def)
  moreover have "of_bool (waiter (conns p i)) + of_bool (in_op (conns p i)) + of_bool (i \<in> set (ready p)) = (1 :: nat)"
    using c A(2) assms(3) by (auto simp: cinv_def quiet_def)
  ultimately show ?thesis using A(2) f unfolding quiet_def by blast
qed

theorem a_waiting_handler_is_woken_witness:
  "waiter (conns waiting 0) \<and> queued (conns waiting 0) = [] \<and> 0 \<in> set (inflight waiting)"
  using a_waiting_handler_is_woken[OF waiting_worker, of 0] by (simp add: waiting_simps reset_conn_def)

text \<open>
  C14. A closed connection goes away: while it is still in use the kernel has its receive and was asked to cancel it after it was last armed, and the last completion
  of that receive, whatever it carries, recycles the connection.
\<close>

theorem a_closed_connection_is_recycled:
  assumes "worker cnt p" and "i \<in> used p" and "closed (conns p i)"
  shows "i \<in> set (inflight p) \<and> stop_asked i (staged p) \<and>
    (\<forall>res flags. may_post cnt p (Cqe_recv i res flags) \<and> flags AND CQE_F_MORE = 0 \<longrightarrow>
       (\<exists>p'. dispatch (posted p (Cqe_recv i res flags)) (Cqe_recv i res flags) = Some p' \<and> i \<notin> used p'))"
proof -
  note ok = worker_inv[OF assms(1)]
  note A = worker_at(1,2)[OF ok assms(2)]
  have c: "cinv_at False 0 [] cnt p i" by (rule Wx_cinv[OF A(1)])
  have a: "recv (conns p i) = RECV_ARMED" using A(2) c assms(3) by (auto simp: quiet_def cinv_def)
  have t: "stop_asked i (staged p)" using c a assms(3) by (simp add: cinv_def)
  have s: "refs (conns p i) = 1" "\<not> waiter (conns p i)" "i \<in> set (inflight p)"
    using c a assms(3) count_list_0_iff[of "inflight p" i] by (auto simp: cinv_def)
  have "\<exists>p'. dispatch (posted p (Cqe_recv i res flags)) (Cqe_recv i res flags) = Some p' \<and> i \<notin> used p'"
    if m: "may_post cnt p (Cqe_recv i res flags)" "flags AND CQE_F_MORE = 0" for res flags
  proof -
    obtain p' where p': "ioxd__conn_on_recv (posted p (Cqe_recv i res flags)) i res flags = Some p'" using dispatch_ok[OF ok m(1)] by auto
    then show ?thesis using closed_final[OF _ _ _ _ p'] assms(3) s m(2) by simp
  qed
  then show ?thesis using s(3) t by blast
qed

theorem a_closed_connection_is_recycled_witness:
  "closed (conns shut 0) \<and> (\<exists>p'. dispatch (posted shut (Cqe_recv 0 (- 125) 0)) (Cqe_recv 0 (- 125) 0) = Some p' \<and> 0 \<notin> used p')"
  using a_closed_connection_is_recycled[OF shut_runs(2-4)] shut_runs by simp

text \<open>
  C16. A turn of the loop ends, in a state of a worker, and a request to stop makes the worker drain.  The loop is left exactly when it drains and no connection is in
  use or the deadline has passed, with nothing else done in that turn, or when entering the kernel failed, which is recorded and asks every worker to stop;
  otherwise it goes on.
\<close>

theorem loop_turn_returns:
  assumes "worker cnt p"
    and "\<And>p1 p2. (if stop \<and> \<not> draining p then begin_drain p else Some p) = Some p1 \<Longrightarrow> run_ready p1 = Some p2 \<Longrightarrow>
      may_post_all cnt (publish (rearm_starved p2)) es"
  shows "\<exists>p1 out st p'. (if stop \<and> \<not> draining p then begin_drain p else Some p) = Some p1 \<and> worker cnt p1 \<and> (draining p1 \<longleftrightarrow> stop \<or> draining p) \<and>
    loop_turn stop late rc es p = Some (out, st, p') \<and> worker cnt p' \<and>
    (if draining p1 \<and> (live_count p1 = 0 \<or> late) then out \<and> st = stop \<and> p' = p1
     else if enter_failed rc then out \<and> st \<and> failed p' = rc
     else \<not> out \<and> st = stop)"
proof -
  obtain p1 where p1: "(if stop \<and> \<not> draining p then begin_drain p else Some p) = Some p1" "worker cnt p1"
    using begin_drain_ok[OF worker_inv[OF assms(1)]] w_drain[OF assms(1)] assms(1) by metis
  have d: "draining p1 \<longleftrightarrow> stop \<or> draining p" using p1(1) begin_drain_drains by (cases "stop \<and> \<not> draining p") auto
  obtain p2 where p2: "run_ready p1 = Some p2" using run_ready_ok[OF worker_inv[OF p1(2)]] by blast
  define q where "q = publish (rearm_starved p2)"
  have q: "worker cnt q" unfolding q_def by (rule w_starved[OF w_ready[OF p1(2) p2]])
  from dispatch_all_worker[OF this assms(2)[OF p1(1) p2, folded q_def]] obtain p3 where p3: "dispatch_all q es = Some p3" "worker cnt p3" by blast
  have e: "loop_turn stop late rc es p = (if draining p1 \<and> (live_count p1 = 0 \<or> late) then Some (True, stop, p1)
      else if enter_failed rc then Some (True, True, q\<lparr>failed := rc\<rparr>) else Some (False, stop, rearm_stalled p3))"
    unfolding loop_turn_def p1(1) by (simp add: p2 q_def[symmetric] p3(1) Let_def) auto
  consider (left) "draining p1 \<and> (live_count p1 = 0 \<or> late)" | (fails) "\<not> (draining p1 \<and> (live_count p1 = 0 \<or> late))" "enter_failed rc"
    | (goes_on) "\<not> (draining p1 \<and> (live_count p1 = 0 \<or> late))" "\<not> enter_failed rc" by blast
  then show ?thesis
  proof cases
    case left
    then have "loop_turn stop late rc es p = Some (True, stop, p1)" using e by simp
    then show ?thesis unfolding p1(1) using left p1(2) d by (intro exI[of _ p1] exI[of _ True] exI[of _ stop]) simp
  next
    case fails
    then have "loop_turn stop late rc es p = Some (True, True, q\<lparr>failed := rc\<rparr>)" unfolding e by (simp only: if_False if_True)
    moreover have "failed (q\<lparr>failed := rc\<rparr>) = rc" by simp
    ultimately show ?thesis unfolding p1(1) if_not_P[OF fails(1)] using w_failed[OF q] fails p1(2) d by - (rule exI[of _ p1], rule exI[of _ True], rule exI[of _ True], rule exI[of _ "q\<lparr>failed := rc\<rparr>"], auto)
  next
    case goes_on
    then have "loop_turn stop late rc es p = Some (False, stop, rearm_stalled p3)" unfolding e by (simp only: if_False)
    then show ?thesis unfolding p1(1) using w_stalled[OF p3(2)] goes_on p1(2) d by - (rule exI[of _ p1], rule exI[of _ False], rule exI[of _ stop], rule exI[of _ "rearm_stalled p3"], simp)
  qed
qed

theorem loop_turn_returns_witness:
  "\<exists>out st p'. loop_turn False False 1 [Cqe_recv 0 0 0] waiting = Some (out, st, p') \<and> worker 4 p'"
proof -
  have "rearm_starved waiting = waiting\<lparr>p_bufs := (p_bufs waiting)\<lparr>returned := 0\<rparr>\<rparr>" by (simp add: rearm_starved_def waiting_simps)
  then have "inflight (publish (rearm_starved waiting)) = [0]" by (simp add: publish_def waiting_simps)
  then have "may_post 4 (publish (rearm_starved waiting)) (Cqe_recv 0 0 0)" by simp
  then have m: "may_post_all 4 (publish (rearm_starved waiting)) [Cqe_recv 0 0 0]" unfolding may_post_all.simps by (auto split: option.split)
  have "run_ready waiting = Some waiting" by (simp add: run_ready.simps waiting_simps)
  then have M: "may_post_all 4 (publish (rearm_starved p2)) [Cqe_recv 0 0 0]"
    if "(if False \<and> \<not> draining waiting then begin_drain waiting else Some waiting) = Some p1" "run_ready p1 = Some p2" for p1 p2
    using that m by (metis option.inject)
  from loop_turn_returns[OF waiting_worker, where stop = False and es = "[Cqe_recv 0 0 0]" and late = False and rc = 1] M show ?thesis by blast
qed

end
