(* ===== verification/Static_Name.thy ===== *)
theory Static_Name
  imports Response
begin

text \<open>
  Files from a directory, \<^verbatim>\<open>lib/http/static.c\<close>, the parts that only compute: the content type of a name, dates and
  validators, the relative name a request path resolves to, conditional requests and byte ranges.

  Times are seconds since the epoch as \<open>int\<close>; \<open>gmtime_r\<close> and \<open>timegm\<close> of the C library are the proleptic Gregorian
  calendar.  Offsets in a file are \<open>64 word\<close>, the \<open>size_t\<close> of the source.
\<close>

section \<open>Names, types, dates\<close>

definition types :: "(bytes \<times> bytes) list" where
  "types =
     [(''html'', ''text/html; charset=utf-8''), (''htm'', ''text/html; charset=utf-8''),
      (''css'', ''text/css''), (''js'', ''text/javascript''),
      (''mjs'', ''text/javascript''), (''json'', ''application/json''),
      (''map'', ''application/json''), (''webmanifest'', ''application/manifest+json''),
      (''xml'', ''application/xml''), (''txt'', ''text/plain; charset=utf-8''),
      (''md'', ''text/markdown; charset=utf-8''), (''csv'', ''text/csv; charset=utf-8''),
      (''svg'', ''image/svg+xml''), (''png'', ''image/png''),
      (''jpg'', ''image/jpeg''), (''jpeg'', ''image/jpeg''),
      (''gif'', ''image/gif''), (''webp'', ''image/webp''),
      (''avif'', ''image/avif''), (''ico'', ''image/x-icon''),
      (''woff'', ''font/woff''), (''woff2'', ''font/woff2''),
      (''ttf'', ''font/ttf''), (''otf'', ''font/otf''),
      (''pdf'', ''application/pdf''), (''wasm'', ''application/wasm''),
      (''mp4'', ''video/mp4''), (''webm'', ''video/webm''),
      (''mp3'', ''audio/mpeg''), (''ogg'', ''audio/ogg''),
      (''zip'', ''application/zip''), (''gz'', ''application/gzip'')]"

definition type_of :: "bytes \<Rightarrow> bytes" where
  "type_of name =
     (let dot = ioxd_slice_rfind_char name (CHR ''.''); slash = ioxd_slice_rfind_char name (CHR ''/'') in
      if dot > slash then
        case find (\<lambda>(ext, _). ioxd_slice_eq_ci (ioxd_slice_from name (nat dot + 1)) ext) types of
          Some (_, t) \<Rightarrow> t
        | None \<Rightarrow> ''application/octet-stream''
      else ''application/octet-stream'')"

text \<open>The calendar.\<close>

definition leap :: "int \<Rightarrow> bool" where
  "leap y \<longleftrightarrow> 4 dvd y \<and> (\<not> 100 dvd y \<or> 400 dvd y)"

definition year_days :: "int \<Rightarrow> int" where
  "year_days y = (if leap y then 366 else 365)"

definition month_days :: "int \<Rightarrow> nat \<Rightarrow> int" where
  "month_days y m = (if m = 1 then (if leap y then 29 else 28) else if m = 3 \<or> m = 5 \<or> m = 8 \<or> m = 10 then 30 else 31)"

definition days_before_year :: "int \<Rightarrow> int" where
  "days_before_year y = 365 * (y - 1970) + ((y - 1) div 4 - (y - 1) div 100 + (y - 1) div 400) - 477"

fun days_before_month :: "int \<Rightarrow> nat \<Rightarrow> int" where
  "days_before_month y 0 = 0"
| "days_before_month y (Suc m) = days_before_month y m + month_days y m"

record tm =
  tm_sec :: int
  tm_min :: int
  tm_hour :: int
  tm_mday :: int
  tm_mon :: nat
  tm_year :: int
  tm_wday :: nat

lemma year_days_pos: "0 < year_days y"
  by (simp add: year_days_def)

function civil_year :: "int \<Rightarrow> int \<Rightarrow> int \<times> int" where
  "civil_year y d =
     (if d < 0 then civil_year (y - 1) (d + year_days (y - 1))
      else if d \<ge> year_days y then civil_year (y + 1) (d - year_days y)
      else (y, d))"
  by pat_completeness auto
termination
  by (relation "measure (\<lambda>(y, d). nat (if d < 0 then 400 - d else d))") (auto simp: year_days_def split: if_splits)

declare civil_year.simps [simp del]

fun civil_month :: "int \<Rightarrow> nat \<Rightarrow> int \<Rightarrow> nat \<times> int" where
  "civil_month y 0 d = (0, d)"
| "civil_month y (Suc m) d = (if d \<ge> days_before_month y (Suc m) then (Suc m, d - days_before_month y (Suc m)) else civil_month y m d)"

definition gmtime_r :: "int \<Rightarrow> tm" where
  "gmtime_r t =
     (let days = t div 86400; s = t mod 86400;
          (y, yday) = civil_year 1970 days; (m, d) = civil_month y 11 yday
      in \<lparr>tm_sec = s mod 60, tm_min = s div 60 mod 60, tm_hour = s div 3600, tm_mday = d + 1, tm_mon = m, tm_year = y - 1900,
          tm_wday = nat ((days + 4) mod 7)\<rparr>)"

text \<open>\<open>timegm\<close> does not look at the day of the week, and takes fields out of their range as they add up.\<close>

definition timegm :: "tm \<Rightarrow> int" where
  "timegm tm =
     (let y = tm_year tm + 1900; days = days_before_year y + days_before_month y (tm_mon tm) + tm_mday tm - 1
      in ((days * 24 + tm_hour tm) * 60 + tm_min tm) * 60 + tm_sec tm)"

definition day_names :: "bytes list" where
  "day_names = [''Sun'', ''Mon'', ''Tue'', ''Wed'', ''Thu'', ''Fri'', ''Sat'']"

definition month_names :: "bytes list" where
  "month_names = [''Jan'', ''Feb'', ''Mar'', ''Apr'', ''May'', ''Jun'', ''Jul'', ''Aug'', ''Sep'', ''Oct'', ''Nov'', ''Dec'']"

text \<open>The \<open>%0wd\<close> of \<open>printf\<close>.\<close>

definition printf_0d :: "nat \<Rightarrow> int \<Rightarrow> bytes" where
  "printf_0d w i =
     (let s = put_uint (nat \<bar>i\<bar>); sign = (if i < 0 then ''-'' else [])
      in sign @ replicate (w - length sign - length s) (CHR ''0'') @ s)"

definition snprintf :: "nat \<Rightarrow> bytes \<Rightarrow> bytes" where
  "snprintf cap s = take (cap - 1) s"

definition http_date :: "nat \<Rightarrow> int \<Rightarrow> bytes" where
  "http_date cap t =
     (let tm = gmtime_r t
      in snprintf cap (day_names ! tm_wday tm @ '', '' @ printf_0d 2 (tm_mday tm) @ '' '' @ month_names ! tm_mon tm @ '' '' @
           printf_0d 4 (tm_year tm + 1900) @ '' '' @ printf_0d 2 (tm_hour tm) @ '':'' @ printf_0d 2 (tm_min tm) @ '':'' @
           printf_0d 2 (tm_sec tm) @ '' GMT''))"

fun number_loop :: "bytes \<Rightarrow> int \<Rightarrow> int option" where
  "number_loop [] v = Some v"
| "number_loop (c # p) v = (if byte_val c < 48 \<or> byte_val c > 57 then None else number_loop p (v * 10 + (int (byte_val c) - 48)))"

definition number :: "bytes \<Rightarrow> int option" where
  "number p = number_loop p 0"

fun month_loop :: "bytes \<Rightarrow> nat \<Rightarrow> bytes list \<Rightarrow> nat option \<Rightarrow> nat option" where
  "month_loop s i [] month = month"
| "month_loop s i (n # ns) month = month_loop s (Suc i) ns (if s = n then Some i else month)"

definition parse_date :: "bytes \<Rightarrow> int option" where
  "parse_date s =
     (let s = ioxd_slice_trim s in
      if length s \<noteq> 29 \<or> s ! 3 \<noteq> CHR '','' \<or> s ! 4 \<noteq> CHR '' '' \<or> s ! 7 \<noteq> CHR '' '' \<or> s ! 11 \<noteq> CHR '' '' \<or> s ! 16 \<noteq> CHR '' ''
         \<or> s ! 19 \<noteq> CHR '':'' \<or> s ! 22 \<noteq> CHR '':'' \<or> memread s 25 4 \<noteq> '' GMT'' then None
      else case month_loop (memread s 8 3) 0 month_names None of
        None \<Rightarrow> None
      | Some month \<Rightarrow>
          (case (number (memread s 5 2), number (memread s 12 4), number (memread s 17 2), number (memread s 20 2), number (memread s 23 2)) of
             (Some mday, Some year, Some hour, Some mn, Some sec) \<Rightarrow>
               let t = timegm \<lparr>tm_sec = sec, tm_min = mn, tm_hour = hour, tm_mday = mday, tm_mon = month, tm_year = year - 1900, tm_wday = 0\<rparr>
               in if t \<noteq> - 1 then Some t else None
           | _ \<Rightarrow> None))"

record stat =
  st_dev :: nat
  st_ino :: nat
  st_size :: nat
  st_sec :: int
  st_nsec :: int
  st_isdir :: bool
  st_isreg :: bool

function put_hex_tmp :: "nat \<Rightarrow> bytes" where
  "put_hex_tmp v = (if v mod 16 < 10 then char_of (48 + v mod 16) else char_of (87 + v mod 16)) # (if v div 16 \<noteq> 0 then put_hex_tmp (v div 16) else [])"
  by pat_completeness auto
termination by (relation "measure id") auto

declare put_hex_tmp.simps [simp del]

text \<open>The entity tag and the modification date; \<open>%x\<close> of a 64-bit number.\<close>

definition stamp :: "stat \<Rightarrow> bytes \<times> bytes" where
  "stamp sb =
     (let mtime = (word_of_int (st_sec sb) * 1000000000 + word_of_int (st_nsec sb) :: u64);
          hex = (\<lambda>w :: u64. rev (put_hex_tmp (unat w)))
      in (snprintf 48 ([DQUOTE] @ hex (of_nat (st_size sb)) @ ''-'' @ hex mtime @ [DQUOTE]), http_date 32 (st_sec sb)))"

definition hash_of :: "bytes \<Rightarrow> u32" where
  "hash_of p = foldl (\<lambda>h c. (h XOR of_nat (byte_val c)) * 16777619) 2166136261 p"


section \<open>The name under the directory\<close>

abbreviation NAME_CAP :: nat where "NAME_CAP \<equiv> 1024"

record ioxd_static =
  s_mount :: bytes
  s_index :: bytes
  s_cache_control :: "bytes option"
  s_budget :: nat
  s_file_max :: nat
  s_revalidate_ms :: nat
  s_precompressed :: bool
  s_hidden :: bool
  s_slot :: nat
  s_gen :: u32

text \<open>The bytes of the path with the escapes decoded, when they are to be; \<open>None\<close> for one with a zero byte.\<close>

definition unescape :: "bool \<Rightarrow> byte \<Rightarrow> bytes \<Rightarrow> byte \<times> bytes" where
  "unescape dec c rest =
     (if dec \<and> c = CHR ''%'' \<and> 2 \<le> length rest then
        let hi = ioxd__http_hexval (rest ! 0); lo = ioxd__http_hexval (rest ! 1)
        in if hi \<ge> 0 \<and> lo \<ge> 0 then (char_of (nat (hi * 16 + lo)), drop 2 rest) else (c, rest)
      else (c, rest))"

lemma unescape_rest: "length (snd (unescape dec c rest)) \<le> length rest"
  by (simp add: unescape_def Let_def)

function raw_name :: "bool \<Rightarrow> bytes \<Rightarrow> bytes option" where
  "raw_name dec p =
     (case p of
        [] \<Rightarrow> Some []
      | c # rest \<Rightarrow>
          let (ch, rest) = unescape dec c rest
          in if ch = NUL then None else map_option (Cons ch) (raw_name dec rest))"
  by pat_completeness auto
termination
proof (relation "measure (\<lambda>(dec, p). length p)")
  fix dec p and c :: byte and rest x ch rest'
  assume "p = c # rest" "x = unescape dec c rest" "(ch, rest') = x" "ch \<noteq> NUL"
  then show "((dec, rest'), dec, p) \<in> measure (\<lambda>(dec, p). length p)" using unescape_rest[of dec c rest] by (auto simp: less_Suc_eq_le dest: arg_cong[of _ _ snd])
qed simp

declare raw_name.simps [simp del]

definition refused :: "bool \<Rightarrow> bytes \<Rightarrow> bool" where
  "refused hidden seg \<longleftrightarrow> seg ! 0 = CHR ''.'' \<and> (\<not> hidden \<or> ioxd_slice_eq seg ''.'' \<or> ioxd_slice_eq seg ''..'')"

function join_segs :: "bool \<Rightarrow> bytes \<Rightarrow> bytes \<Rightarrow> bytes option" where
  "join_segs hidden rest out =
     (if rest = [] then Some out
      else
        let (_, seg, rest') = ioxd_slice_cut rest (CHR ''/'') in
        if seg = [] then join_segs hidden rest' out
        else if refused hidden seg then None
        else join_segs hidden rest' ((if out \<noteq> [] then out @ ''/'' else out) @ seg))"
  by pat_completeness auto
termination
  by (relation "measure (\<lambda>(hidden, rest, out). length rest)") (use cut_tail_shorter in \<open>fastforce simp: prod_eq_iff\<close>)+

declare join_segs.simps [simp del]

definition resolve :: "ioxd_static \<Rightarrow> bytes \<Rightarrow> bool \<Rightarrow> bytes option" where
  "resolve st path dec =
     (if length path \<ge> NAME_CAP then None
      else case raw_name dec path of
        None \<Rightarrow> None
      | Some raw \<Rightarrow>
          let dir = (length raw = 0 \<or> raw ! (length raw - 1) = CHR ''/'') in
          case join_segs (s_hidden st) raw [] of
            None \<Rightarrow> None
          | Some out \<Rightarrow>
              if dir then
                if length (s_index st) = 0 \<or> length out + 1 + length (s_index st) \<ge> NAME_CAP then None
                else Some ((if out \<noteq> [] then out @ ''/'' else out) @ s_index st)
              else if length out > 0 then Some out else None)"

text \<open>The prefix of a store: a slash and the mount without its outer slashes, or nothing.\<close>

definition mount_of :: "bytes option \<Rightarrow> bytes" where
  "mount_of mount =
     (let s = (case mount of None \<Rightarrow> [] | Some m \<Rightarrow> m);
          s = dropWhile (\<lambda>c. c = CHR ''/'') s;
          s = rev (dropWhile (\<lambda>c. c = CHR ''/'') (rev s))
      in if length s = 0 then [] else CHR ''/'' # s)"

text \<open>Whether a request path is under the mount, and what follows it.\<close>

definition under_mount :: "ioxd_static \<Rightarrow> bytes \<Rightarrow> bytes option" where
  "under_mount st path =
     (if length path < length (s_mount st) \<or> memread path 0 (length (s_mount st)) \<noteq> s_mount st then None
      else if length path > length (s_mount st) \<and> path ! length (s_mount st) \<noteq> CHR ''/'' then None
      else Some (ioxd_slice_from path (length (s_mount st))))"


section \<open>Conditional requests and ranges\<close>

function tag_loop :: "bytes \<Rightarrow> bytes \<Rightarrow> bool" where
  "tag_loop tags etag =
     (case ioxd_slice_next tags (CHR '','') of
        None \<Rightarrow> False
      | Some (tag, tags) \<Rightarrow>
          let tag = (if ioxd_slice_starts_with tag ''W/'' then ioxd_slice_from tag 2 else tag)
          in if ioxd_slice_eq tag ''*'' \<or> ioxd_slice_eq tag etag then True else tag_loop tags etag)"
  by pat_completeness auto
termination by (relation "measure (\<lambda>(tags, etag). length tags)") (auto dest: slice_next_shorter)

declare tag_loop.simps [simp del]

definition not_modified :: "request \<Rightarrow> bytes \<Rightarrow> int \<Rightarrow> bool" where
  "not_modified req etag mtime =
     (case ioxd_req_header req ''if-none-match'' of
        Some tags \<Rightarrow> tag_loop tags etag
      | None \<Rightarrow>
          (case ioxd_req_header req ''if-modified-since'' of
             None \<Rightarrow> False
           | Some since \<Rightarrow> (case parse_date since of None \<Rightarrow> False | Some t \<Rightarrow> mtime \<le> t)))"

datatype range = RANGE_NONE | RANGE_ONE u64 u64 | RANGE_BAD

definition range_spec :: "bytes \<Rightarrow> u64 \<Rightarrow> range" where
  "range_spec spec tot =
     (let (cut, lo, hi) = ioxd_slice_cut spec (CHR ''-'') in
      if ioxd_slice_find_char spec (CHR '','') \<ge> 0 \<or> \<not> cut then RANGE_NONE
      else
        let lo = ioxd_slice_trim lo; hi = ioxd_slice_trim hi in
        if length lo = 0 then
          (case ioxd_to_u64 hi of
             None \<Rightarrow> RANGE_NONE
           | Some b \<Rightarrow>
               if b = 0 \<or> tot = 0 then RANGE_BAD
               else let b = (if b > tot then tot else b) in RANGE_ONE (tot - b) (tot - 1))
        else
          (case ioxd_to_u64 lo of
             None \<Rightarrow> RANGE_NONE
           | Some a \<Rightarrow>
               (case (if length hi = 0 then Some UINT64_MAX else ioxd_to_u64 hi) of
                  None \<Rightarrow> RANGE_NONE
                | Some b \<Rightarrow>
                    if a \<ge> tot \<or> a > b then RANGE_BAD
                    else RANGE_ONE a (if b \<ge> tot then tot - 1 else b))))"

definition range_of :: "request \<Rightarrow> bytes \<Rightarrow> u64 \<Rightarrow> range" where
  "range_of req etag tot =
     (case ioxd_req_header req ''range'' of
        None \<Rightarrow> RANGE_NONE
      | Some rng \<Rightarrow>
          if \<not> ioxd_slice_starts_with rng ''bytes='' then RANGE_NONE
          else if (case ioxd_req_header req ''if-range'' of None \<Rightarrow> False | Some v \<Rightarrow> \<not> ioxd_slice_eq (ioxd_slice_trim v) etag) then RANGE_NONE
          else range_spec (ioxd_slice_trim (ioxd_slice_from rng 6)) tot)"

text \<open>The headers of a reply: the arguments of the calls on the response, their results unused as in the source.\<close>

definition content_range :: "response \<Rightarrow> bytes \<Rightarrow> u64 \<Rightarrow> response" where
  "content_range res sp tot =
     snd (ioxd_header res (Some ''content-range'') (Some (snprintf 80 (''bytes '' @ sp @ ''/'' @ put_uint (unat tot)))))"

definition head_of :: "request \<Rightarrow> response \<Rightarrow> ioxd_static \<Rightarrow> bytes \<Rightarrow> bytes \<Rightarrow> bytes \<Rightarrow> int \<Rightarrow> bool \<Rightarrow> bool \<times> response" where
  "head_of req res st type etag modified mtime twins =
     (let res = res\<lparr>rs_content_type := Outside type\<rparr>;
          res = snd (ioxd_header res (Some ''etag'') (Some etag));
          res = snd (ioxd_header res (Some ''last-modified'') (Some modified));
          res = (case s_cache_control st of None \<Rightarrow> res | Some v \<Rightarrow> snd (ioxd_header res (Some ''cache-control'') (Some v)));
          res = (if twins then snd (ioxd_header res (Some ''vary'') (Some ''accept-encoding'')) else res)
      in if not_modified req etag mtime then (False, res\<lparr>rs_status := 304\<rparr>)
      else (True, snd (ioxd_header res (Some ''accept-ranges'') (Some ''bytes''))))"

text \<open>The span of a representation to send, \<open>None\<close> when there is none to send.\<close>

definition span_of :: "request \<Rightarrow> response \<Rightarrow> bytes \<Rightarrow> u64 \<Rightarrow> (u64 \<times> u64) option \<times> response" where
  "span_of req res etag tot =
     (case range_of req etag tot of
        RANGE_BAD \<Rightarrow> (None, content_range (res\<lparr>rs_status := 416\<rparr>) ''*'' tot)
      | RANGE_ONE fst_at lst_at \<Rightarrow>
          (Some (fst_at, lst_at - fst_at + 1),
           content_range (res\<lparr>rs_status := 206\<rparr>) (snprintf 48 (put_uint (unat fst_at) @ ''-'' @ put_uint (unat lst_at))) tot)
      | RANGE_NONE \<Rightarrow> (Some (0, tot), res))"


section \<open>A name stays under the directory\<close>

fun join_slash :: "bytes list \<Rightarrow> bytes" where
  "join_slash [] = []"
| "join_slash [s] = s"
| "join_slash (s # t # ss) = s @ CHR ''/'' # join_slash (t # ss)"

lemma join_slash_snoc: "join_slash (ss @ [s]) = (if ss = [] then s else join_slash ss @ CHR ''/'' # s)"
  by (induction ss rule: join_slash.induct) auto

text \<open>A segment that names an entry of the directory it is looked up in.\<close>

definition plain_seg :: "bool \<Rightarrow> bytes \<Rightarrow> bool" where
  "plain_seg hidden s \<longleftrightarrow> s \<noteq> [] \<and> CHR ''/'' \<notin> set s \<and> NUL \<notin> set s \<and> s \<noteq> ''.'' \<and> s \<noteq> ''..'' \<and> (\<not> hidden \<longrightarrow> hd s \<noteq> CHR ''.'')"

lemma not_refused:
  assumes "s \<noteq> []" and "\<not> refused hidden s" and "CHR ''/'' \<notin> set s" and "NUL \<notin> set s"
  shows "plain_seg hidden s"
  using assms by (auto simp: plain_seg_def refused_def hd_conv_nth)

lemma join_empty: "list_all (plain_seg hidden) ss \<Longrightarrow> join_slash ss = [] \<longleftrightarrow> ss = []"
  by (cases ss rule: join_slash.cases) (auto simp: plain_seg_def)

lemma cut_slash:
  assumes "ioxd_slice_cut rest (CHR ''/'') = (c, seg, rest')"
  shows "CHR ''/'' \<notin> set seg" "set seg \<subseteq> set rest" "set rest' \<subseteq> set rest" "length seg + length rest' \<le> length rest"
    "rest' \<noteq> [] \<Longrightarrow> length seg + length rest' < length rest"
  using assms by (cases rule: slice_cut_cases[of "CHR ''/''" rest]; auto)+

lemma join_segs_step:
  assumes "rest \<noteq> []" and "ioxd_slice_cut rest (CHR ''/'') = (c, seg, rest')"
  shows "join_segs hidden rest out = (if seg = [] then join_segs hidden rest' out else if refused hidden seg then None
    else join_segs hidden rest' ((if out \<noteq> [] then out @ ''/'' else out) @ seg))"
  using assms by (subst join_segs.simps) simp

lemma join_segs_spec:
  assumes "join_segs hidden rest (join_slash ss) = Some out" and "list_all (plain_seg hidden) ss" and "NUL \<notin> set rest"
  shows "\<exists>ts. out = join_slash ts \<and> list_all (plain_seg hidden) ts \<and>
    length out \<le> length (join_slash ss) + length rest + (if ss = [] \<or> rest = [] then 0 else 1)"
  using assms
proof (induction "length rest" arbitrary: rest ss rule: less_induct)
  case less
  show ?case
  proof (cases "rest = []")
    case True
    then have "out = join_slash ss" using less.prems(1) by (simp add: join_segs.simps)
    then show ?thesis using less.prems(2) by (intro exI[of _ ss]) simp
  next
    case False
    obtain c seg rest' where cut: "ioxd_slice_cut rest (CHR ''/'') = (c, seg, rest')" by (cases "ioxd_slice_cut rest (CHR ''/'')")
    have sh: "length rest' < length rest" using cut_tail_shorter[OF False, of "CHR ''/''"] cut by simp
    note parts = cut_slash[OF cut] and step = join_segs_step[OF False cut, of hidden "join_slash ss"] and IH = less.hyps[OF sh]
    have n: "NUL \<notin> set rest'" "NUL \<notin> set seg" using parts(2,3) less.prems(3) by blast+
    show ?thesis
    proof (cases "seg = []")
      case True
      then have "join_segs hidden rest' (join_slash ss) = Some out" using less.prems(1) step by simp
      then obtain ts where ts: "out = join_slash ts" "list_all (plain_seg hidden) ts"
        "length out \<le> length (join_slash ss) + length rest' + (if ss = [] \<or> rest' = [] then 0 else 1)" using IH less.prems(2) n(1) by blast
      have "length out \<le> length (join_slash ss) + length rest + (if ss = [] \<or> rest = [] then 0 else 1)"
        using ts(3) sh False by (cases "ss = []"; cases "rest' = []") simp_all
      then show ?thesis using ts by blast
    next
      case seg: False
      have r: "\<not> refused hidden seg" using less.prems(1) step seg by (auto split: if_splits)
      have e: "(if join_slash ss \<noteq> [] then join_slash ss @ ''/'' else join_slash ss) @ seg = join_slash (ss @ [seg])"
        using join_empty[OF less.prems(2)] by (simp add: join_slash_snoc)
      have j: "join_segs hidden rest' (join_slash (ss @ [seg])) = Some out" using less.prems(1) step seg r unfolding e by simp
      have p: "list_all (plain_seg hidden) (ss @ [seg])" using less.prems(2) not_refused[OF seg r parts(1) n(2)] by simp
      obtain ts where ts: "out = join_slash ts" "list_all (plain_seg hidden) ts"
        "length out \<le> length (join_slash (ss @ [seg])) + length rest' + (if rest' = [] then 0 else 1)" using IH[OF j p n(1)] by auto
      have "length out \<le> length (join_slash ss) + length rest + (if ss = [] \<or> rest = [] then 0 else 1)"
      proof (cases "rest' = []")
        case True
        then show ?thesis using ts(3) parts(4) False by (simp add: join_slash_snoc split: if_splits)
      next
        case ne: False
        then show ?thesis using ts(3) parts(5)[OF ne] False by (simp add: join_slash_snoc split: if_splits)
      qed
      then show ?thesis using ts by blast
    qed
  qed
qed

lemma raw_name_step:
  "raw_name dec (c # p) = (if fst (unescape dec c p) = NUL then None else map_option (Cons (fst (unescape dec c p))) (raw_name dec (snd (unescape dec c p))))"
  by (subst raw_name.simps) (simp add: case_prod_beta)

lemma raw_name_ok: "raw_name dec p = Some raw \<Longrightarrow> NUL \<notin> set raw \<and> length raw \<le> length p"
proof (induction "length p" arbitrary: p raw rule: less_induct)
  case less
  show ?case
  proof (cases p)
    case Nil
    then show ?thesis using less.prems by (simp add: raw_name.simps)
  next
    case (Cons c rest)
    obtain r where r: "fst (unescape dec c rest) \<noteq> NUL" "raw_name dec (snd (unescape dec c rest)) = Some r" "raw = fst (unescape dec c rest) # r"
      using less.prems Cons by (auto simp: raw_name_step split: if_splits)
    have "NUL \<notin> set r \<and> length r \<le> length (snd (unescape dec c rest))"
      using less.hyps[OF _ r(2)] unescape_rest[of dec c rest] Cons by simp
    then show ?thesis using r unescape_rest[of dec c rest] Cons by auto
  qed
qed

text \<open>
  C26. A resolved name stays under the directory and fits its buffer: whatever the request path and its escapes, a name that is not
  refused is shorter than the buffer of 1024 bytes, has no zero byte, and is a sequence of segments joined by single slashes, not
  beginning with one, each not empty, without a slash, and neither \<open>.\<close> nor \<open>..\<close>, none beginning with a dot unless hidden names are
  served; only the index of a directory, from the configuration, may follow.
\<close>

theorem resolved_name_stays_inside:
  assumes "resolve st path dec = Some name" and "NUL \<notin> set (s_index st)"
  shows "0 < length name \<and> length name < NAME_CAP \<and> NUL \<notin> set name \<and>
    (\<exists>ss. (name = join_slash ss \<and> ss \<noteq> [] \<or> name = join_slash (ss @ [s_index st]) \<and> s_index st \<noteq> []) \<and> list_all (plain_seg (s_hidden st)) ss)"
proof -
  have short: "length path < NAME_CAP" using assms(1) by (simp add: resolve_def split: if_splits)
  obtain raw where raw: "raw_name dec path = Some raw" using assms(1) by (auto simp: resolve_def split: if_splits option.splits)
  note R = raw_name_ok[OF raw]
  obtain out where out: "join_segs (s_hidden st) raw [] = Some out" using assms(1) raw by (auto simp: resolve_def Let_def split: if_splits option.splits)
  obtain ss where ss: "out = join_slash ss" "list_all (plain_seg (s_hidden st)) ss" "length out \<le> length raw"
    using join_segs_spec[of "s_hidden st" raw "[]" out] out R by auto
  have nul: "NUL \<notin> set (join_slash ts)" if "list_all (\<lambda>s. NUL \<notin> set s) ts" for ts
    using that by (induction ts rule: join_slash.induct) auto
  have n: "NUL \<notin> set out" unfolding ss(1) by (rule nul) (use ss(2) in \<open>auto simp: list_all_iff plain_seg_def\<close>)
  define dir where "dir = (length raw = 0 \<or> raw ! (length raw - 1) = CHR ''/'')"
  have e: "Some name = (if dir then
                if length (s_index st) = 0 \<or> length out + 1 + length (s_index st) \<ge> NAME_CAP then None
                else Some ((if out \<noteq> [] then out @ ''/'' else out) @ s_index st)
              else if length out > 0 then Some out else None)"
    using assms(1) short unfolding resolve_def raw Let_def option.case out dir_def by simp
  show ?thesis
  proof (cases dir)
    case True
    then have i: "s_index st \<noteq> []" "length out + 1 + length (s_index st) < NAME_CAP" "name = (if out \<noteq> [] then out @ ''/'' else out) @ s_index st"
      using e by (auto split: if_splits)
    have "name = join_slash (ss @ [s_index st])" unfolding i(3) using join_empty[OF ss(2)] by (simp add: join_slash_snoc ss(1))
    moreover have "0 < length name" "length name < NAME_CAP" "NUL \<notin> set name" unfolding i(3) using i(1,2) n assms(2) by auto
    ultimately show ?thesis using i(1) ss(2) by blast
  next
    case False
    then have "name = out" "out \<noteq> []" using e by (auto split: if_splits)
    then show ?thesis using n ss short R by (auto intro!: exI[of _ ss])
  qed
qed

definition a_store :: ioxd_static where
  "a_store = \<lparr>s_mount = ''/files'', s_index = ''index.html'', s_cache_control = None, s_budget = 100, s_file_max = 50, s_revalidate_ms = 0,
     s_precompressed = True, s_hidden = False, s_slot = 0, s_gen = 1\<rparr>"

theorem resolved_name_stays_inside_witness:
  "resolve a_store ''/a%2Fb//c'' True = Some ''a/b/c'' \<and> length ''a/b/c'' < NAME_CAP \<and> resolve a_store ''/%2e%2E/etc'' True = None"
proof -
  have "resolve a_store ''/a%2Fb//c'' True = Some ''a/b/c''" "resolve a_store ''/%2e%2E/etc'' True = None" by code_simp+
  moreover have "NUL \<notin> set (s_index a_store)" by code_simp
  ultimately show ?thesis using resolved_name_stays_inside[of a_store "''/a%2Fb//c''" True "''a/b/c''"] by blast
qed


section \<open>Ranges\<close>

lemma pred_less: "tot \<noteq> 0 \<Longrightarrow> tot - 1 < (tot :: u64)" "tot \<noteq> 0 \<Longrightarrow> x < tot \<Longrightarrow> x \<le> tot - 1"
  using unat_minus_one[of tot] by (auto simp: word_le_nat_alt word_less_nat_alt unat_gt_0[symmetric])

lemma pred_bound: "x < tot \<Longrightarrow> x \<le> tot - 1 \<and> tot - 1 < (tot :: u64)"
  by (metis pred_less word_not_simps(1))

lemma suffix_start: "x \<noteq> 0 \<Longrightarrow> x \<le> tot \<Longrightarrow> tot - x \<le> tot - (1 :: u64)"
  by (auto simp: word_le_nat_alt unat_sub unat_gt_0[symmetric] word_less_nat_alt intro!: diff_le_mono2)

lemma range_spec_bounds:
  assumes "range_spec spec tot = RANGE_ONE a b"
  shows "a \<le> b" "b < tot"
proof -
  obtain cut lo hi where c: "ioxd_slice_cut spec (CHR ''-'') = (cut, lo, hi)" by (cases "ioxd_slice_cut spec (CHR ''-'')")
  have "a \<le> b \<and> b < tot"
  proof (cases "length (ioxd_slice_trim lo) = 0")
    case True
    then obtain x where "x \<noteq> 0" "tot \<noteq> 0" "a = tot - (if x > tot then tot else x)" "b = tot - 1"
      using assms c by (auto simp: range_spec_def Let_def split: if_splits option.splits)
    then show ?thesis using pred_less(1)[of tot] suffix_start[of x tot] suffix_start[of tot tot] by (cases "x > tot") (auto simp: not_less)
  next
    case False
    then have "\<exists>y. \<not> (a \<ge> tot \<or> a > y) \<and> b = (if y \<ge> tot then tot - 1 else y)"
      using assms c unfolding range_spec_def Let_def by (force split: if_split_asm option.split_asm)
    then obtain y where "a < tot" "a \<le> y" "b = (if y \<ge> tot then tot - 1 else y)" by (metis not_le)
    then show ?thesis using pred_bound[of a tot] by (cases "tot \<le> y") (auto simp: not_le)
  qed
  then show "a \<le> b" "b < tot" by blast+
qed

lemma span_in_file:
  assumes "span_of req res etag tot = (Some (at, n), res')"
  shows "unat at + unat n \<le> unat tot"
proof (cases "range_of req etag tot")
  case (RANGE_ONE a b)
  then obtain spec where s: "range_spec spec tot = RANGE_ONE a b" by (auto simp: range_of_def split: option.splits if_splits)
  note B = range_spec_bounds[OF s]
  have e: "at = a" "n = b - a + 1" using assms RANGE_ONE by (auto simp: span_of_def)
  have "unat (b - a) = unat b - unat a" using B(1) by (simp add: unat_sub word_le_nat_alt)
  moreover have "unat (b - a) + 1 < 2 ^ 64" using B calculation unsigned_less[of tot, where 'a = nat] by (simp add: word_less_nat_alt)
  ultimately have "unat n = unat b - unat a + 1" unfolding e by (simp add: unat_word_ariths)
  then show ?thesis using B e(1) by (simp add: word_less_nat_alt word_le_nat_alt)
qed (use assms in \<open>auto simp: span_of_def\<close>)

lemma trim_digits: "list_all is_digit s \<Longrightarrow> ioxd_slice_trim s = s"
proof -
  assume "list_all is_digit s"
  then have "\<forall>c \<in> set s. \<not> is_space c" by (auto simp: list_all_iff is_digit_def is_space_def)
  then have "dropWhile is_space s = s" "dropWhile is_space (rev s) = rev s" by (auto simp: dropWhile_eq_self_iff hd_rev)
  then show ?thesis by (simp add: ioxd_slice_trim_def trim_front_eq trim_back_eq)
qed

lemma to_u64_text: "ioxd_to_u64 (put_uint (unat w)) = Some w"
proof -
  have "unat w < 2 ^ 64" using unsigned_less[of w, where 'a = nat] by simp
  then show ?thesis using put_uint_digits[of "unat w"] by (simp add: to_u64_exact)
qed

lemma not_in_digits: "\<not> is_digit c \<Longrightarrow> c \<notin> set (put_uint v)"
  using put_uint_clean by blast

lemma dash_cut: "ioxd_slice_cut (put_uint v @ CHR ''-'' # t) (CHR ''-'') = (True, put_uint v, t)"
  "ioxd_slice_cut (CHR ''-'' # t) (CHR ''-'') = (True, [], t)"
  using slice_cut_at[OF not_in_digits[of "CHR ''-''" v]] slice_cut_at[of "CHR ''-''" "[]" t] by (simp_all add: is_digit_def)

lemma no_comma: "CHR '','' \<notin> set s \<Longrightarrow> \<not> ioxd_slice_find_char s (CHR '','') \<ge> 0"
  by (simp add: ioxd_slice_find_char_def memchr_None_iff[THEN iffD2])

text \<open>
  C28. A byte range is read as it is written and lies in the file: the three forms of a range with their numbers in decimal are the first
  and last position they name, the last cut to the file, or unsatisfiable; and of whatever the headers of a request say, the span to be
  sent, \<open>n\<close> bytes from \<open>at\<close> on, ends no later than the file, without wrapping around.
\<close>

theorem byte_ranges_lie_in_the_file:
  "range_spec (put_uint (unat a) @ ''-'' @ put_uint (unat b)) tot = (if a < tot \<and> a \<le> b then RANGE_ONE a (min b (tot - 1)) else RANGE_BAD) \<and>
   range_spec (put_uint (unat a) @ ''-'') tot = (if a < tot then RANGE_ONE a (tot - 1) else RANGE_BAD) \<and>
   range_spec (''-'' @ put_uint (unat b)) tot = (if b \<noteq> 0 \<and> tot \<noteq> 0 then RANGE_ONE (tot - min b tot) (tot - 1) else RANGE_BAD) \<and>
   (\<forall>at n res'. span_of req res etag tot = (Some (at, n), res') \<longrightarrow> unat at + unat n \<le> unat tot)"
proof (intro conjI allI impI)
  have d: "list_all is_digit (put_uint v)" "length (put_uint v) \<noteq> 0" for v using put_uint_digits[of v] by auto
  have c: "CHR '','' \<notin> set (put_uint v)" for v by (rule not_in_digits) (simp add: is_digit_def)
  have top: "(if b \<ge> tot then tot - 1 else b) = min b (tot - 1)" if "a < tot" for b
  proof (cases "b \<ge> tot")
    case True
    have "tot - 1 < tot" using pred_bound[OF that] by blast
    then show ?thesis using True by (simp add: min_def) (metis leD le_less_trans)
  next
    case False
    then show ?thesis using pred_bound[of b tot] by (auto simp: min_def not_le)
  qed
  show "range_spec (put_uint (unat a) @ ''-'' @ put_uint (unat b)) tot = (if a < tot \<and> a \<le> b then RANGE_ONE a (min b (tot - 1)) else RANGE_BAD)"
    using d c no_comma[of "put_uint (unat a) @ ''-'' @ put_uint (unat b)"] top
    by (simp add: range_spec_def dash_cut trim_digits to_u64_text not_le not_less)
  have m: "UINT64_MAX \<ge> tot" "\<not> UINT64_MAX < a" by (simp_all add: UINT64_MAX_def not_less)
  show "range_spec (put_uint (unat a) @ ''-'') tot = (if a < tot then RANGE_ONE a (tot - 1) else RANGE_BAD)"
    using d c no_comma[of "put_uint (unat a) @ ''-''"] m by (simp add: range_spec_def dash_cut trim_digits to_u64_text not_le) (auto simp: not_less)
  show "range_spec (''-'' @ put_uint (unat b)) tot = (if b \<noteq> 0 \<and> tot \<noteq> 0 then RANGE_ONE (tot - min b tot) (tot - 1) else RANGE_BAD)"
    using d c no_comma[of "''-'' @ put_uint (unat b)"] by (simp add: range_spec_def dash_cut trim_digits to_u64_text min_def not_le not_less) (auto simp: not_less)
qed (rule span_in_file)

theorem byte_ranges_lie_in_the_file_witness:
  "range_spec (put_uint (unat (2 :: u64)) @ ''-'' @ put_uint (unat (900 :: u64))) 10 = RANGE_ONE 2 9"
  using byte_ranges_lie_in_the_file[of 2 900 10] by (simp add: min_def)


section \<open>Dates\<close>

lemma step_div: "0 < k \<Longrightarrow> y div k - (y - 1) div k = (if k dvd y then 1 else (0 :: int))"
  for y k :: int
proof -
  assume k: "0 < k"
  have y: "y = k * (y div k) + y mod k" by simp
  show ?thesis
  proof (cases "y mod k = 0")
    case True
    have "y - 1 = k * (y div k - 1) + (k - 1)" using y True by (simp add: algebra_simps)
    then have "(y - 1) div k = y div k - 1" by (rule int_div_pos_eq) (use k in simp_all)
    then show ?thesis using True by (simp add: dvd_eq_mod_eq_0)
  next
    case False
    have "y - 1 = k * (y div k) + (y mod k - 1)" using y by (simp add: algebra_simps)
    moreover have "0 \<le> y mod k - 1" "y mod k - 1 < k" using False k pos_mod_bound[OF k, of y] pos_mod_sign[OF k, of y] by linarith+
    ultimately have "(y - 1) div k = y div k" using k int_div_pos_eq by blast
    then show ?thesis using False by (simp add: dvd_eq_mod_eq_0)
  qed
qed

lemma days_before_step: "days_before_year (y + 1) = days_before_year y + year_days y"
proof -
  have s: "y div 4 - (y - 1) div 4 = (if 4 dvd y then 1 else 0)" "y div 100 - (y - 1) div 100 = (if 100 dvd y then 1 else 0)"
    "y div 400 - (y - 1) div 400 = (if 400 dvd y then 1 else 0)" using step_div[of 4 y] step_div[of 100 y] step_div[of 400 y] by simp_all
  have d: "100 dvd y \<Longrightarrow> 4 dvd y" "400 dvd y \<Longrightarrow> 100 dvd y" using dvd_trans[of 4 100 y] dvd_trans[of 100 400 y] by simp_all
  have "days_before_year (y + 1) - days_before_year y = 365 + (if 4 dvd y then 1 else 0) - (if 100 dvd y then 1 else 0) + (if 400 dvd y then 1 else 0)"
    unfolding days_before_year_def s[symmetric] by simp
  also have "\<dots> = year_days y"
    unfolding year_days_def leap_def using d by (cases "4 dvd y"; cases "100 dvd y"; cases "400 dvd y") simp_all
  finally show ?thesis by simp
qed

lemma civil_year_spec: "civil_year y d = (y', d') \<Longrightarrow> 0 \<le> d' \<and> d' < year_days y' \<and> days_before_year y' + d' = days_before_year y + d"
proof (induction y d rule: civil_year.induct)
  case (1 y d)
  consider "d < 0" | "0 \<le> d" "d \<ge> year_days y" | "0 \<le> d" "d < year_days y" by linarith
  then show ?case
  proof cases
    case 1
    then show ?thesis using "1.IH"(1)[OF 1] "1.prems" days_before_step[of "y - 1"] by (simp add: civil_year.simps[of y d])
  next
    case 2
    then have "civil_year (y + 1) (d - year_days y) = (y', d')" using "1.prems" by (simp add: civil_year.simps[of y d])
    then show ?thesis using "1.IH"(2) 2 days_before_step[of y] by auto
  next
    case 3
    then show ?thesis using "1.prems" by (simp add: civil_year.simps[of y d])
  qed
qed

lemma civil_month_spec:
  "civil_month y m d = (m', d') \<Longrightarrow> 0 \<le> d \<Longrightarrow> d < days_before_month y (Suc m) \<Longrightarrow>
    m' \<le> m \<and> days_before_month y m' + d' = d \<and> 0 \<le> d' \<and> d' < 31"
proof (induction m)
  case 0
  then show ?case by (auto simp: month_days_def)
next
  case (Suc m)
  have "month_days y (Suc m) \<le> 31" by (simp add: month_days_def)
  then show ?case using Suc by (cases "d \<ge> days_before_month y (Suc m)") auto
qed

lemma year_months: "days_before_month y 12 = year_days y"
  by (simp add: numeral_eq_Suc month_days_def year_days_def)

lemma days_before_mono: "y \<le> z \<Longrightarrow> days_before_year y \<le> days_before_year z"
proof (induction z rule: int_ge_induct)
  case (step z)
  then show ?case using days_before_step[of z] year_days_pos[of z] by simp
qed simp

text \<open>A point in time of the years 1970 to 9999 has its fields in range, and they add up to it.\<close>

lemma gmtime_fields:
  assumes t: "0 \<le> t" "t < 253402300800"
  defines "tm \<equiv> gmtime_r t"
  shows "0 \<le> tm_sec tm" "tm_sec tm < 60" "0 \<le> tm_min tm" "tm_min tm < 60" "0 \<le> tm_hour tm" "tm_hour tm < 24" "1 \<le> tm_mday tm" "tm_mday tm \<le> 31"
    "tm_mon tm < 12" "1970 \<le> tm_year tm + 1900" "tm_year tm + 1900 \<le> 9999" "tm_wday tm < 7" "timegm tm = t"
proof -
  define days where "days = t div 86400"
  define s where "s = t mod 86400"
  obtain y yd where y: "civil_year 1970 days = (y, yd)" by fastforce
  obtain m d where m: "civil_month y 11 yd = (m, d)" by fastforce
  have e: "tm = \<lparr>tm_sec = s mod 60, tm_min = s div 60 mod 60, tm_hour = s div 3600, tm_mday = d + 1, tm_mon = m, tm_year = y - 1900,
      tm_wday = nat ((days + 4) mod 7)\<rparr>"
    by (simp add: tm_def gmtime_r_def days_def[symmetric] s_def[symmetric] y m)
  have ts: "t = days * 86400 + s" "0 \<le> s" "s < 86400" by (simp_all add: days_def s_def)
  have dd: "0 \<le> days" "days < 2932897" using t by (simp_all add: days_def)
  have b: "days_before_year 1970 = 0" "days_before_year 10000 = 2932897" by (simp_all add: days_before_year_def)
  have Y: "0 \<le> yd" "yd < year_days y" "days_before_year y + yd = days" using civil_year_spec[OF y] b by auto
  have M: "m \<le> 11" "days_before_month y m + d = yd" "0 \<le> d" "d < 31"
    using civil_month_spec[OF m Y(1)] Y(2) year_months[of y] by (simp_all add: numeral_eq_Suc)
  have y1: "1970 \<le> y"
  proof (rule ccontr)
    assume "\<not> 1970 \<le> y"
    then have "days_before_year (y + 1) \<le> 0" using days_before_mono[of "y + 1" 1970] b by simp
    then show False using days_before_step[of y] Y dd by simp
  qed
  have y2: "y \<le> 9999"
  proof (rule ccontr)
    assume "\<not> y \<le> 9999"
    then show False using days_before_mono[of 10000 y] b Y dd by simp
  qed
  show "0 \<le> tm_sec tm" "tm_sec tm < 60" "0 \<le> tm_min tm" "tm_min tm < 60" by (simp_all add: e)
  show "0 \<le> tm_hour tm" "tm_hour tm < 24" using ts by (simp_all add: e)
  show "1 \<le> tm_mday tm" "tm_mday tm \<le> 31" "tm_mon tm < 12" using M by (simp_all add: e)
  show "1970 \<le> tm_year tm + 1900" "tm_year tm + 1900 \<le> 9999" using y1 y2 by (simp_all add: e)
  show "tm_wday tm < 7" by (simp add: e nat_less_iff)
  have hms: "(s div 3600 * 60 + s div 60 mod 60) * 60 + s mod 60 = s"
  proof -
    have "s div 3600 * 60 + s div 60 mod 60 = s div 60" using div_mult_mod_eq[of "s div 60" 60] by (simp add: zdiv_zmult2_eq[symmetric])
    then show ?thesis using div_mult_mod_eq[of s 60] by simp
  qed
  show "timegm tm = t" using hms Y(3) M(2) ts(1) by (simp add: e timegm_def Let_def algebra_simps)
qed

lemma char_zero: "char_of (48 :: nat) = CHR ''0''"
  by code_simp

lemma two_digits: "0 \<le> n \<Longrightarrow> n < 100 \<Longrightarrow> printf_0d 2 n = [char_of (48 + nat n div 10), char_of (48 + nat n mod 10)]"
proof -
  assume n: "0 \<le> n" "n < 100"
  then have q: "nat n div 10 div 10 = 0" by (simp add: div_mult2_eq[symmetric] nat_less_iff)
  have "put_uint (nat n) = (if nat n div 10 \<noteq> 0 then [char_of (48 + nat n div 10)] else []) @ [char_of (48 + nat n mod 10)]"
    using q by (subst put_uint_rec, subst put_uint_rec) (simp add: div_eq_0_iff)
  then show ?thesis using n by (simp add: printf_0d_def char_zero)
qed

lemma four_digits:
  assumes "1000 \<le> n" "n \<le> 9999"
  shows "printf_0d 4 n = [char_of (48 + nat n div 1000), char_of (48 + nat n div 100 mod 10), char_of (48 + nat n div 10 mod 10), char_of (48 + nat n mod 10)]"
proof -
  define k where "k = nat n"
  have k: "1000 \<le> k" "k \<le> 9999" using assms by (auto simp: k_def)
  have q: "k div 10 \<noteq> 0" "k div 10 div 10 \<noteq> 0" "k div 10 div 10 div 10 \<noteq> 0" "k div 10 div 10 div 10 div 10 = 0" "k div 1000 mod 10 = k div 1000"
    using k by (simp_all add: div_mult2_eq[symmetric])
  have "put_uint k = [char_of (48 + k div 1000), char_of (48 + k div 100 mod 10), char_of (48 + k div 10 mod 10), char_of (48 + k mod 10)]"
    by (subst put_uint_rec, subst put_uint_rec, subst put_uint_rec, subst put_uint_rec) (use q in \<open>simp add: div_mult2_eq[symmetric]\<close>)
  then show ?thesis using assms by (simp add: printf_0d_def k_def)
qed

lemma number_step: "d < 10 \<Longrightarrow> number_loop (char_of (48 + d) # p) v = number_loop p (v * 10 + int d)"
  by simp

lemma number_two: "0 \<le> n \<Longrightarrow> n < 100 \<Longrightarrow> number [char_of (48 + nat n div 10), char_of (48 + nat n mod 10)] = Some n"
proof -
  assume n: "0 \<le> n" "n < 100"
  have "nat n div 10 < 10" using n by (simp add: div_less_iff_less_mult nat_less_iff)
  moreover have "int (nat n div 10) * 10 + int (nat n mod 10) = n" using n by (simp add: zdiv_int zmod_int)
  ultimately show ?thesis unfolding number_def by (simp only: number_step mod_less_divisor zero_less_numeral number_loop.simps) simp
qed

lemma number_four:
  assumes "1000 \<le> n" "n \<le> 9999"
  shows "number [char_of (48 + nat n div 1000), char_of (48 + nat n div 100 mod 10), char_of (48 + nat n div 10 mod 10), char_of (48 + nat n mod 10)] = Some n"
proof -
  define k where "k = nat n"
  have k: "k \<le> 9999" "int k = n" using assms by (auto simp: k_def)
  have "k div 10 * 10 + k mod 10 = k" "k div 100 * 10 + k div 10 mod 10 = k div 10" "k div 1000 * 10 + k div 100 mod 10 = k div 100"
    using div_mult_mod_eq[of "k div 10" 10] div_mult_mod_eq[of "k div 100" 10] by (simp_all add: div_mult2_eq[symmetric])
  then have "((k div 1000 * 10 + k div 100 mod 10) * 10 + k div 10 mod 10) * 10 + k mod 10 = k" by simp
  then have "((int (k div 1000) * 10 + int (k div 100 mod 10)) * 10 + int (k div 10 mod 10)) * 10 + int (k mod 10) = int k"
    by (metis of_nat_add of_nat_mult of_nat_numeral)
  moreover have "k div 1000 < 10" using k by (simp add: div_less_iff_less_mult)
  moreover have "\<not> 9 < k mod 10" "\<not> 9 < k div 10 mod 10" "\<not> 9 < k div 100 mod 10"
    using mod_less_divisor[of 10 k] mod_less_divisor[of 10 "k div 10"] mod_less_divisor[of 10 "k div 100"] by linarith+
  ultimately show ?thesis unfolding number_def k_def[symmetric] using k(2) by (simp add: algebra_simps)
qed

lemma two_read:
  assumes "0 \<le> n" "n < 100"
  obtains a b where "printf_0d 2 n = [a, b]" "number [a, b] = Some n"
  using two_digits[OF assms] number_two[OF assms] by blast

lemma four_read:
  assumes "1000 \<le> n" "n \<le> 9999"
  obtains a b c d where "printf_0d 4 n = [a, b, c, d]" "number [a, b, c, d] = Some n"
  using four_digits[OF assms] number_four[OF assms] by blast

lemma trim_ends:
  assumes "s \<noteq> []" and "\<not> is_space (hd s)" and "\<not> is_space (last s)"
  shows "ioxd_slice_trim s = s"
proof -
  have "dropWhile is_space s = s" "dropWhile is_space (rev s) = rev s" using assms by (simp_all add: dropWhile_eq_self_iff hd_rev)
  then show ?thesis by (simp add: ioxd_slice_trim_def trim_front_eq trim_back_eq)
qed

lemma month_found: "m < 12 \<Longrightarrow> month_loop (month_names ! m) 0 month_names None = Some m \<and> (\<exists>a b c. month_names ! m = [a, b, c])"
  by (auto simp: numeral_eq_Suc less_Suc_eq month_names_def)

lemma day_found: "d < 7 \<Longrightarrow> \<exists>a b c. day_names ! d = [a, b, c] \<and> \<not> is_space a"
  by (auto simp: numeral_eq_Suc less_Suc_eq day_names_def is_space_def)

text \<open>
  A date reads back: every modification time of the years 1970 to 9999, written as the date of a reply and sent back in a conditional
  request, is the same time.  So \<open>If-Modified-Since\<close> with the \<open>Last-Modified\<close> of a file that did not change is answered 304.
\<close>

theorem http_date_reads_back:
  assumes "0 \<le> t" and "t < 253402300800"
  shows "parse_date (http_date 32 t) = Some t"
proof -
  define tm where "tm = gmtime_r t"
  note F = gmtime_fields[OF assms, folded tm_def]
  obtain a b c where d: "day_names ! tm_wday tm = [a, b, c]" "\<not> is_space a" using day_found[OF F(12)] by blast
  obtain x y z where m: "month_names ! tm_mon tm = [x, y, z]" "month_loop [x, y, z] 0 month_names None = Some (tm_mon tm)"
    using month_found[OF F(9)] by auto
  obtain d1 d2 where d12: "printf_0d 2 (tm_mday tm) = [d1, d2]" "number [d1, d2] = Some (tm_mday tm)" by (rule two_read[of "tm_mday tm"]) (use F in auto)
  obtain y1 y2 y3 y4 where yy: "printf_0d 4 (tm_year tm + 1900) = [y1, y2, y3, y4]" "number [y1, y2, y3, y4] = Some (tm_year tm + 1900)"
    by (rule four_read[of "tm_year tm + 1900"]) (use F in auto)
  obtain h1 h2 where h12: "printf_0d 2 (tm_hour tm) = [h1, h2]" "number [h1, h2] = Some (tm_hour tm)" by (rule two_read[of "tm_hour tm"]) (use F in auto)
  obtain m1 m2 where m12: "printf_0d 2 (tm_min tm) = [m1, m2]" "number [m1, m2] = Some (tm_min tm)" by (rule two_read[of "tm_min tm"]) (use F in auto)
  obtain s1 s2 where s12: "printf_0d 2 (tm_sec tm) = [s1, s2]" "number [s1, s2] = Some (tm_sec tm)" by (rule two_read[of "tm_sec tm"]) (use F in auto)
  note n = d12(2) yy(2) h12(2) m12(2) s12(2)
  define s where "s = http_date 32 t"
  have S: "s = [a, b, c, CHR '','', CHR '' '', d1, d2, CHR '' '', x, y, z, CHR '' '', y1, y2, y3, y4, CHR '' '', h1, h2, CHR '':'', m1, m2, CHR '':'', s1, s2,
      CHR '' '', CHR ''G'', CHR ''M'', CHR ''T'']"
    unfolding s_def http_date_def tm_def[symmetric] Let_def snprintf_def d(1) m(1) d12(1) yy(1) h12(1) m12(1) s12(1) by simp
  have tr: "ioxd_slice_trim s = s" by (rule trim_ends) (use d(2) in \<open>simp_all add: S is_space_def\<close>)
  have tg: "timegm \<lparr>tm_sec = tm_sec tm, tm_min = tm_min tm, tm_hour = tm_hour tm, tm_mday = tm_mday tm, tm_mon = tm_mon tm, tm_year = tm_year tm + 1900 - 1900, tm_wday = 0\<rparr> = t"
    using F(13) by (simp add: timegm_def)
  have p: "length s = 29" "s ! 3 = CHR '',''" "s ! 4 = CHR '' ''" "s ! 7 = CHR '' ''" "s ! 11 = CHR '' ''" "s ! 16 = CHR '' ''" "s ! 19 = CHR '':''" "s ! 22 = CHR '':''"
    "memread s 25 4 = '' GMT''" "memread s 8 3 = [x, y, z]" "memread s 5 2 = [d1, d2]" "memread s 12 4 = [y1, y2, y3, y4]" "memread s 17 2 = [h1, h2]"
    "memread s 20 2 = [m1, m2]" "memread s 23 2 = [s1, s2]"
    by (simp_all add: S memread_def)
  show ?thesis unfolding s_def[symmetric] parse_date_def tr Let_def p m(2) n option.case prod.case tg using assms(1) by simp
qed

theorem http_date_reads_back_witness: "parse_date (http_date 32 784111777) = Some 784111777"
  using http_date_reads_back[of 784111777] by simp

end
