(* ===== verification/Static_Cache.thy ===== *)
theory Static_Cache
  imports Static_Name "HOL-Library.Monad_Syntax" "HOL-Library.Multiset"
begin

text \<open>
  The table of files a worker keeps, \<^verbatim>\<open>lib/http/static.c\<close> from \<open>cache_of\<close> to \<open>insert\<close>: hash buckets whose chains run through
  the entries, a doubly linked list of the entries in the order they were last served, a budget of bytes, and entries
  that outlive their place in the table while a reply is reading from them.

  An entry is an address in the worker's memory and a pointer is \<open>nat option\<close>; \<open>alloced\<close> has the addresses that were allocated and not
  freed.  The mapping of a store to the table of the running thread, \<open>cache_of\<close>, is a table made with the budget of the store.
  Following a null pointer is \<open>None\<close>.
\<close>

datatype variant = PLAIN | BR | GZIP

record entry =
  e_chain :: "nat option"
  newer :: "nat option"
  older :: "nat option"
  e_name :: bytes
  e_hash :: u32
  e_stat :: stat
  e_type :: bytes
  e_v :: "variant \<Rightarrow> bytes option"
  e_bytes :: nat
  e_etag :: bytes
  e_modified :: bytes
  e_checked_at :: nat
  e_refs :: nat
  e_dropped :: bool

record cache =
  store :: "nat \<Rightarrow> entry"
  alloced :: "nat set"
  buckets :: "nat option list"
  n_buckets :: nat
  c_count :: nat
  newest :: "nat option"
  oldest :: "nat option"
  c_bytes :: nat
  c_budget :: nat

definition upd_e :: "nat \<Rightarrow> (entry \<Rightarrow> entry) \<Rightarrow> cache \<Rightarrow> cache" where
  "upd_e a f c = c\<lparr>store := (store c)(a := f (store c a))\<rparr>"

definition new_cache :: "nat \<Rightarrow> (nat \<Rightarrow> entry) \<Rightarrow> cache" where
  "new_cache budget mem =
     \<lparr>store = mem, alloced = {}, buckets = replicate 64 None, n_buckets = 64, c_count = 0, newest = None, oldest = None,
      c_bytes = 0, c_budget = budget\<rparr>"

definition bucket_of :: "nat \<Rightarrow> u32 \<Rightarrow> nat" where
  "bucket_of n hash = (unat hash AND (n - 1))"

partial_function (option) lookup_from :: "cache \<Rightarrow> bytes \<Rightarrow> u32 \<Rightarrow> nat option \<Rightarrow> nat option option" where
  "lookup_from c name hash p =
     (if p = None then Some None
      else if e_hash (store c (the p)) = hash \<and> length (e_name (store c (the p))) = length name \<and> e_name (store c (the p)) = name then Some p
      else lookup_from c name hash (e_chain (store c (the p))))"

definition lookup :: "cache \<Rightarrow> bytes \<Rightarrow> u32 \<Rightarrow> nat option option" where
  "lookup c name hash = lookup_from c name hash (buckets c ! bucket_of (n_buckets c) hash)"

definition recency_out :: "nat \<Rightarrow> cache \<Rightarrow> cache" where
  "recency_out a c =
     (let c = (case newer (store c a) of
                 Some n \<Rightarrow> upd_e n (\<lambda>e. e\<lparr>older := older (store c a)\<rparr>) c
               | None \<Rightarrow> c\<lparr>newest := older (store c a)\<rparr>);
          c = (case older (store c a) of
                 Some n \<Rightarrow> upd_e n (\<lambda>e. e\<lparr>newer := newer (store c a)\<rparr>) c
               | None \<Rightarrow> c\<lparr>oldest := newer (store c a)\<rparr>)
      in upd_e a (\<lambda>e. e\<lparr>newer := None, older := None\<rparr>) c)"

definition recency_in :: "nat \<Rightarrow> cache \<Rightarrow> cache" where
  "recency_in a c =
     (let c = upd_e a (\<lambda>e. e\<lparr>older := newest c, newer := None\<rparr>) c;
          c = (case newest c of Some n \<Rightarrow> upd_e n (\<lambda>e. e\<lparr>newer := Some a\<rparr>) c | None \<Rightarrow> c);
          c = c\<lparr>newest := Some a\<rparr>
      in if oldest c = None then c\<lparr>oldest := Some a\<rparr> else c)"

definition touch :: "nat \<Rightarrow> cache \<Rightarrow> cache" where
  "touch a c = (if newest c \<noteq> Some a then recency_in a (recency_out a c) else c)"

definition entry_free :: "nat \<Rightarrow> cache \<Rightarrow> cache" where
  "entry_free a c = c\<lparr>alloced := alloced c - {a}\<rparr>"

text \<open>The pointer that points at an entry: that of its bucket, or the \<open>chain\<close> of the entry before it.\<close>

datatype link = Bucket nat | Chain nat

fun link_get :: "cache \<Rightarrow> link \<Rightarrow> nat option" where
  "link_get c (Bucket i) = buckets c ! i"
| "link_get c (Chain a) = e_chain (store c a)"

fun link_set :: "link \<Rightarrow> nat option \<Rightarrow> cache \<Rightarrow> cache" where
  "link_set (Bucket i) p c = c\<lparr>buckets := (buckets c)[i := p]\<rparr>"
| "link_set (Chain a) p c = upd_e a (\<lambda>e. e\<lparr>e_chain := p\<rparr>) c"

partial_function (option) find_link :: "cache \<Rightarrow> nat \<Rightarrow> link \<Rightarrow> link option" where
  "find_link c a at =
     (if link_get c at = Some a then Some at
      else case link_get c at of None \<Rightarrow> None | Some b \<Rightarrow> find_link c a (Chain b))"

definition unlink_entry :: "nat \<Rightarrow> cache \<Rightarrow> cache option" where
  "unlink_entry a c = do {
     at \<leftarrow> find_link c a (Bucket (bucket_of (n_buckets c) (e_hash (store c a))));
     (let c = recency_out a (link_set at (e_chain (store c a)) c)
      in Some (c\<lparr>c_bytes := c_bytes c - e_bytes (store c a), c_count := c_count c - 1\<rparr>)) }"

definition drop_entry :: "nat \<Rightarrow> cache \<Rightarrow> cache option" where
  "drop_entry a c = do {
     c \<leftarrow> unlink_entry a c;
     (let c = upd_e a (\<lambda>e. e\<lparr>e_dropped := True\<rparr>) c
      in Some (if e_refs (store c a) = 0 then entry_free a c else c)) }"

definition release :: "nat \<Rightarrow> cache \<Rightarrow> cache" where
  "release a c =
     (let c = upd_e a (\<lambda>e. e\<lparr>e_refs := e_refs e - 1\<rparr>) c
      in if e_refs (store c a) = 0 \<and> e_dropped (store c a) then entry_free a c else c)"

partial_function (option) make_room :: "cache \<Rightarrow> nat \<Rightarrow> cache option" where
  "make_room c need =
     (if c_bytes c + need > c_budget c then
        (case oldest c of
           None \<Rightarrow> Some c
         | Some a \<Rightarrow> (case drop_entry a c of None \<Rightarrow> None | Some c \<Rightarrow> make_room c need))
      else Some c)"

text \<open>Twice the buckets: every chain is taken apart and its entries are pushed where they belong now.\<close>

partial_function (option) grow_chain :: "nat \<Rightarrow> cache \<Rightarrow> nat option list \<Rightarrow> nat option \<Rightarrow> (cache \<times> nat option list) option" where
  "grow_chain n c nb p =
     (if p = None then Some (c, nb)
      else grow_chain n (upd_e (the p) (\<lambda>e. e\<lparr>e_chain := nb ! bucket_of n (e_hash (store c (the p)))\<rparr>) c)
        (nb[bucket_of n (e_hash (store c (the p))) := p]) (e_chain (store c (the p))))"

fun grow_all :: "nat \<Rightarrow> cache \<Rightarrow> nat option list \<Rightarrow> nat list \<Rightarrow> (cache \<times> nat option list) option" where
  "grow_all n c nb [] = Some (c, nb)"
| "grow_all n c nb (i # is) = do { (c, nb) \<leftarrow> grow_chain n c nb (buckets c ! i); grow_all n c nb is }"

definition grow :: "bool \<Rightarrow> cache \<Rightarrow> cache option" where
  "grow calloc_ok c =
     (let n = n_buckets c * 2 in
      if \<not> calloc_ok then Some c
      else do {
        (c, nb) \<leftarrow> grow_all n c (replicate n None) [0..<n_buckets c];
        Some (c\<lparr>buckets := nb, n_buckets := n\<rparr>) })"

definition insert_entry :: "bool \<Rightarrow> nat \<Rightarrow> cache \<Rightarrow> cache option" where
  "insert_entry calloc_ok a c = do {
     c \<leftarrow> (if c_count c \<ge> n_buckets c then grow calloc_ok c else Some c);
     (let i = bucket_of (n_buckets c) (e_hash (store c a));
          c = upd_e a (\<lambda>e. e\<lparr>e_chain := buckets c ! i\<rparr>) c;
          c = c\<lparr>buckets := (buckets c)[i := Some a]\<rparr>;
          c = recency_in a c
      in Some (c\<lparr>c_bytes := c_bytes c + e_bytes (store c a), c_count := c_count c + 1\<rparr>)) }"

text \<open>
  The end of \<open>load\<close>: an entry that was read is kept when it fits the budget and is otherwise marked to be freed after the reply.
  \<open>a\<close> is its address, from \<open>calloc\<close>.
\<close>

definition keep_entry :: "bool \<Rightarrow> nat \<Rightarrow> entry \<Rightarrow> cache \<Rightarrow> cache option" where
  "keep_entry calloc_ok a e c =
     (let c = c\<lparr>store := (store c)(a := e), alloced := insert a (alloced c)\<rparr> in
      if e_bytes e \<le> c_budget c then do { c \<leftarrow> make_room c (e_bytes e); insert_entry calloc_ok a c }
      else Some (upd_e a (\<lambda>e. e\<lparr>e_dropped := True\<rparr>) c))"

text \<open>A reply holds the entry while it sends from it.\<close>

definition hold :: "nat \<Rightarrow> cache \<Rightarrow> cache" where
  "hold a c = upd_e a (\<lambda>e. e\<lparr>e_refs := e_refs e + 1\<rparr>) c"

end
