(* ===== verification/Static_Lru.thy ===== *)
theory Static_Lru
  imports Static_Cache
begin

text \<open>
  The table of kept files refines a list of entries, the one served last first: a lookup finds an entry exactly when one of
  the name is on the list, serving moves to the front, making room drops from the end, and the bytes on the list stay
  within the budget.  Chains and the recency list are paths of pointers through the entries.
\<close>

section \<open>Paths of pointers\<close>

fun seg :: "(nat \<Rightarrow> nat option) \<Rightarrow> nat option \<Rightarrow> nat list \<Rightarrow> nat option \<Rightarrow> bool" where
  "seg f p [] q \<longleftrightarrow> p = q"
| "seg f p (a # as) q \<longleftrightarrow> p = Some a \<and> seg f (f a) as q"

lemma seg_append: "seg f p (xs @ ys) q \<longleftrightarrow> (\<exists>m. seg f p xs m \<and> seg f m ys q)"
  by (induction xs arbitrary: p) auto

lemma seg_upd [simp]: "a \<notin> set xs \<Longrightarrow> seg (f(a := v)) p xs q = seg f p xs q"
  by (induction xs arbitrary: p) auto

lemma seg_cong: "(\<And>b. b \<in> set xs \<Longrightarrow> f b = g b) \<Longrightarrow> seg f p xs q = seg g p xs q"
  by (induction xs arbitrary: p) auto

lemma seg_start: "seg f p xs None \<Longrightarrow> p = (if xs = [] then None else Some (hd xs))"
  by (cases xs) auto

lemma seg_nth: "seg f p (xs @ a # ys) None \<Longrightarrow> f a = (if ys = [] then None else Some (hd ys))"
  by (auto simp: seg_append dest: seg_start)

lemma seg_unlink:
  assumes "seg f p (xs @ a # ys) q" and "distinct (xs @ a # ys)"
  shows "if xs = [] then seg f (f a) ys q else seg (f(last xs := f a)) p (xs @ ys) q"
proof (cases xs rule: rev_cases)
  case (snoc xs' l)
  then show ?thesis using assms by (auto simp: seg_append)
qed (use assms in auto)

lemma seg_snoc:
  assumes "seg f p xs None" and "distinct xs" and "a \<notin> set xs" and "xs \<noteq> []"
  shows "seg (f(last xs := Some a, a := None)) p (xs @ [a]) None"
proof (cases xs rule: rev_cases)
  case (snoc xs' l)
  then show ?thesis using assms by (auto simp: seg_append)
qed (use assms in simp)


section \<open>The recency list\<close>

abbreviation chains :: "cache \<Rightarrow> nat \<Rightarrow> nat option" where "chains c \<equiv> \<lambda>a. e_chain (store c a)"
abbreviation newers :: "cache \<Rightarrow> nat \<Rightarrow> nat option" where "newers c \<equiv> \<lambda>a. newer (store c a)"
abbreviation olders :: "cache \<Rightarrow> nat \<Rightarrow> nat option" where "olders c \<equiv> \<lambda>a. older (store c a)"

definition rec_ok :: "cache \<Rightarrow> nat list \<Rightarrow> bool" where
  "rec_ok c rs \<longleftrightarrow> distinct rs \<and> seg (olders c) (newest c) rs None \<and> seg (newers c) (oldest c) (rev rs) None"

text \<open>An entry without its place in the table.\<close>

definition payload :: "entry \<Rightarrow> entry" where
  "payload e = e\<lparr>e_chain := None, newer := None, older := None\<rparr>"

text \<open>A step that only relinks: what the entries hold and which are allocated stays.\<close>

definition relinks :: "cache \<Rightarrow> cache \<Rightarrow> bool" where
  "relinks c c' \<longleftrightarrow> (\<forall>a. payload (store c' a) = payload (store c a)) \<and> alloced c' = alloced c \<and> c_budget c' = c_budget c"

lemma relinks_trans: "relinks c c1 \<Longrightarrow> relinks c1 c2 \<Longrightarrow> relinks c c2"
  by (simp add: relinks_def)

lemma relinks_refl [simp]: "relinks c c"
  by (simp add: relinks_def)

lemma payload_fields:
  assumes "payload e = payload e'"
  shows "e_name e = e_name e'" "e_hash e = e_hash e'" "e_stat e = e_stat e'" "e_type e = e_type e'" "e_v e = e_v e'" "e_bytes e = e_bytes e'"
    "e_etag e = e_etag e'" "e_modified e = e_modified e'" "e_checked_at e = e_checked_at e'" "e_refs e = e_refs e'" "e_dropped e = e_dropped e'"
  using assms by (cases e; cases e'; simp add: payload_def)+

lemma upd_e_simps [simp]:
  "store (upd_e a f c) = (store c)(a := f (store c a))" "alloced (upd_e a f c) = alloced c" "buckets (upd_e a f c) = buckets c"
  "n_buckets (upd_e a f c) = n_buckets c" "c_count (upd_e a f c) = c_count c" "newest (upd_e a f c) = newest c" "oldest (upd_e a f c) = oldest c"
  "c_bytes (upd_e a f c) = c_bytes c" "c_budget (upd_e a f c) = c_budget c"
  by (simp_all add: upd_e_def)

lemma relinks_upd: "(\<And>e. payload (f e) = payload e) \<Longrightarrow> relinks c (upd_e a f c)"
  by (simp add: relinks_def)

text \<open>The pointers after an entry was taken out, one direction at a time.\<close>

lemma recency_out_ptrs:
  assumes "newer (store c a) \<noteq> Some a" and "older (store c a) \<noteq> Some a"
  defines "c' \<equiv> recency_out a c"
  shows "olders c' = (case newer (store c a) of None \<Rightarrow> olders c | Some n \<Rightarrow> (olders c)(n := older (store c a)))(a := None)"
    "newers c' = (case older (store c a) of None \<Rightarrow> newers c | Some n \<Rightarrow> (newers c)(n := newer (store c a)))(a := None)"
    "newest c' = (case newer (store c a) of None \<Rightarrow> older (store c a) | Some n \<Rightarrow> newest c)"
    "oldest c' = (case older (store c a) of None \<Rightarrow> newer (store c a) | Some n \<Rightarrow> oldest c)"
    "chains c' = chains c" "buckets c' = buckets c" "n_buckets c' = n_buckets c" "c_count c' = c_count c" "c_bytes c' = c_bytes c" "relinks c c'"
  using assms(1,2) unfolding c'_def recency_out_def Let_def
  by (auto simp: fun_eq_iff relinks_def payload_def split: option.split)

lemma recency_out_ok:
  assumes r: "rec_ok c (xs @ a # ys)"
  shows "rec_ok (recency_out a c) (xs @ ys)" "chains (recency_out a c) = chains c" "buckets (recency_out a c) = buckets c"
    "n_buckets (recency_out a c) = n_buckets c" "c_count (recency_out a c) = c_count c" "c_bytes (recency_out a c) = c_bytes c" "relinks c (recency_out a c)"
proof -
  let ?c = "recency_out a c"
  have d: "distinct (xs @ a # ys)" and o: "seg (olders c) (newest c) (xs @ a # ys) None" and n: "seg (newers c) (oldest c) (rev ys @ a # rev xs) None"
    using r by (auto simp: rec_ok_def)
  have oa: "older (store c a) = (if ys = [] then None else Some (hd ys))" using seg_nth[OF o] .
  have na: "newer (store c a) = (if xs = [] then None else Some (last xs))" using seg_nth[OF n] by (simp add: hd_rev)
  have ne: "newer (store c a) \<noteq> Some a" "older (store c a) \<noteq> Some a" using d oa na by auto
  note P = recency_out_ptrs[OF ne]
  have "seg (olders ?c) (newest ?c) (xs @ ys) None"
  proof (cases "xs = []")
    case True
    then show ?thesis using seg_unlink[OF o d] d na unfolding P(1,3) by simp
  next
    case False
    then show ?thesis using seg_unlink[OF o d] d na unfolding P(1,3) by simp
  qed
  moreover have "seg (newers ?c) (oldest ?c) (rev ys @ rev xs) None"
  proof (cases "ys = []")
    case True
    then show ?thesis using seg_unlink[OF n] d oa unfolding P(2,4) by simp
  next
    case False
    then show ?thesis using seg_unlink[OF n] d oa unfolding P(2,4) by (simp add: last_rev Int_commute)
  qed
  ultimately show "rec_ok ?c (xs @ ys)" using d by (simp add: rec_ok_def)
  show "chains ?c = chains c" "buckets ?c = buckets c" "n_buckets ?c = n_buckets c" "c_count ?c = c_count c" "c_bytes ?c = c_bytes c" "relinks c ?c"
    using P(5-10) by blast+
qed

lemma recency_in_ok:
  assumes r: "rec_ok c rs" and a: "a \<notin> set rs"
  shows "rec_ok (recency_in a c) (a # rs)" "chains (recency_in a c) = chains c" "buckets (recency_in a c) = buckets c"
    "n_buckets (recency_in a c) = n_buckets c" "c_count (recency_in a c) = c_count c" "c_bytes (recency_in a c) = c_bytes c" "relinks c (recency_in a c)"
proof -
  let ?c = "recency_in a c"
  have d: "distinct rs" and o: "seg (olders c) (newest c) rs None" and n: "seg (newers c) (oldest c) (rev rs) None" using r by (auto simp: rec_ok_def)
  have nw: "newest c = (if rs = [] then None else Some (hd rs))" using seg_start[OF o] .
  have od: "oldest c = (if rs = [] then None else Some (last rs))" using seg_start[OF n] by (simp add: hd_rev)
  have "hd rs \<noteq> a" if "rs \<noteq> []" using a that hd_in_set by metis
  then have P: "olders ?c = (olders c)(a := newest c)" "newers ?c = (if rs = [] then (newers c)(a := None) else (newers c)(a := None, hd rs := Some a))"
    "newest ?c = Some a" "oldest ?c = (if rs = [] then Some a else oldest c)"
    unfolding recency_in_def Let_def using nw od by (auto simp: fun_eq_iff split: option.split)
  have "seg (olders ?c) (newest ?c) (a # rs) None" unfolding P using o a by simp
  moreover have "seg (newers ?c) (oldest ?c) (rev rs @ [a]) None"
  proof (cases "rs = []")
    case False
    have "hd rs \<noteq> a" using a False hd_in_set by metis
    then show ?thesis unfolding P using seg_snoc[OF n, of a] d a False by (simp add: last_rev fun_upd_twist)
  qed (simp add: P)
  ultimately show "rec_ok ?c (a # rs)" using d a by (simp add: rec_ok_def)
  show "chains ?c = chains c" "buckets ?c = buckets c" "n_buckets ?c = n_buckets c" "c_count ?c = c_count c" "c_bytes ?c = c_bytes c" "relinks c ?c"
    unfolding recency_in_def Let_def by (auto simp: fun_eq_iff relinks_def payload_def split: option.split)
qed


section \<open>The chains\<close>

lemma bucket_less: "bucket_of (2 ^ k) h < 2 ^ k"
proof -
  have "bucket_of (2 ^ k) h = take_bit k (unat h)" by (simp add: bucket_of_def take_bit_eq_mask mask_eq_exp_minus_1)
  then show ?thesis by simp
qed

definition chain_tab :: "(nat \<Rightarrow> nat option) \<Rightarrow> (nat \<Rightarrow> u32) \<Rightarrow> nat \<Rightarrow> nat option list \<Rightarrow> nat list list \<Rightarrow> bool" where
  "chain_tab f h n nb bs \<longleftrightarrow> length nb = n \<and> length bs = n \<and>
     (\<forall>i < n. distinct (bs ! i) \<and> seg f (nb ! i) (bs ! i) None \<and> (\<forall>a \<in> set (bs ! i). bucket_of n (h a) = i))"

lemma chain_mem:
  assumes "chain_tab f h (2 ^ k) nb bs"
  shows "a \<in> set (concat bs) \<longleftrightarrow> a \<in> set (bs ! bucket_of (2 ^ k) (h a))"
proof
  have len: "length bs = 2 ^ k" and bk: "\<And>i b. i < 2 ^ k \<Longrightarrow> b \<in> set (bs ! i) \<Longrightarrow> bucket_of (2 ^ k) (h b) = i"
    using assms by (auto simp: chain_tab_def)
  {
    assume "a \<in> set (concat bs)"
    then obtain b where "b \<in> set bs" "a \<in> set b" by auto
    then obtain i where "i < 2 ^ k" "a \<in> set (bs ! i)" using len by (metis in_set_conv_nth)
    then show "a \<in> set (bs ! bucket_of (2 ^ k) (h a))" using bk by simp
  next
    assume "a \<in> set (bs ! bucket_of (2 ^ k) (h a))"
    moreover have "bs ! bucket_of (2 ^ k) (h a) \<in> set bs" using len bucket_less[of k "h a"] by simp
    ultimately show "a \<in> set (concat bs)" by auto
  }
qed

lemma chain_disjoint: "chain_tab f h n nb bs \<Longrightarrow> i < n \<Longrightarrow> j < n \<Longrightarrow> a \<in> set (bs ! i) \<Longrightarrow> a \<in> set (bs ! j) \<Longrightarrow> i = j"
  unfolding chain_tab_def by metis

lemma set_concat_update: "i < length bs \<Longrightarrow> set (concat (bs[i := xs])) = set xs \<union> (\<Union>j \<in> {..<length bs} - {i}. set (bs ! j))"
  by (auto simp: set_conv_nth[of "bs[i := xs]"] nth_list_update split: if_splits)

text \<open>Taking an entry out of its chain, and putting one in front of one.\<close>

lemma chain_unlink:
  assumes t: "chain_tab f h n nb bs" and i: "i < n" and e: "bs ! i = xs @ a # ys"
  defines "f' \<equiv> if xs = [] then f else f(last xs := f a)" and "nb' \<equiv> if xs = [] then nb[i := f a] else nb"
  shows "chain_tab f' h n nb' (bs[i := xs @ ys])"
  unfolding chain_tab_def
proof (intro conjI allI impI)
  show "length nb' = n" "length (bs[i := xs @ ys]) = n" using t by (simp_all add: nb'_def chain_tab_def)
  fix j
  assume j: "j < n"
  have len: "length bs = n" "length nb = n" using t by (simp_all add: chain_tab_def)
  have ti: "distinct (xs @ a # ys)" "seg f (nb ! i) (xs @ a # ys) None" using t i unfolding e[symmetric] by (simp_all add: chain_tab_def)
  have tj: "distinct (bs ! j)" "seg f (nb ! j) (bs ! j) None" "\<forall>a \<in> set (bs ! j). bucket_of n (h a) = j" using t j by (auto simp: chain_tab_def)
  show "distinct (bs[i := xs @ ys] ! j)" using ti tj j len by (cases "j = i") auto
  show "\<forall>a \<in> set (bs[i := xs @ ys] ! j). bucket_of n (h a) = j" using tj j len e by (cases "j = i") auto
  show "seg f' (nb' ! j) (bs[i := xs @ ys] ! j) None"
  proof (cases "j = i")
    case True
    then show ?thesis using seg_unlink[OF ti(2,1)] i len by (auto simp: f'_def nb'_def)
  next
    case False
    have "last xs \<notin> set (bs ! j)" if "xs \<noteq> []"
      using chain_disjoint[OF t i j, of "last xs"] that e False by auto
    then show ?thesis using False tj(2) by (auto simp: f'_def nb'_def)
  qed
qed

lemma chain_push:
  assumes t: "chain_tab f h n nb bs" and i: "bucket_of n (h a) < n" and a: "a \<notin> set (concat bs)"
  defines "i \<equiv> bucket_of n (h a)"
  shows "chain_tab (f(a := nb ! i)) h n (nb[i := Some a]) (bs[i := a # bs ! i])"
  unfolding chain_tab_def
proof (intro conjI allI impI)
  show "length (nb[i := Some a]) = n" "length (bs[i := a # bs ! i]) = n" using t by (simp_all add: chain_tab_def)
  fix j
  assume j: "j < n"
  have len: "length bs = n" "length nb = n" using t by (simp_all add: chain_tab_def)
  have tj: "distinct (bs ! j)" "seg f (nb ! j) (bs ! j) None" "\<forall>a \<in> set (bs ! j). bucket_of n (h a) = j" using t j by (auto simp: chain_tab_def)
  have aj: "a \<notin> set (bs ! j)" using a j len nth_mem[of j bs] by auto
  show "distinct (bs[i := a # bs ! i] ! j)" using tj j len aj by (cases "j = i") auto
  show "\<forall>b \<in> set (bs[i := a # bs ! i] ! j). bucket_of n (h b) = j" using tj j len i_def by (cases "j = i") auto
  show "seg (f(a := nb ! i)) (nb[i := Some a] ! j) (bs[i := a # bs ! i] ! j) None" using tj j len aj by (cases "j = i") auto
qed

lemma find_link_ok: "seg (chains c) (link_get c at) (xs @ a # ys) q \<Longrightarrow> a \<notin> set xs \<Longrightarrow> find_link c a at = Some (if xs = [] then at else Chain (last xs))"
proof (induction xs arbitrary: at)
  case Nil
  then show ?case by (subst find_link.simps) simp
next
  case (Cons x xs)
  then have "find_link c a (Chain x) = Some (if xs = [] then Chain x else Chain (last xs))" by simp
  then show ?case using Cons.prems by (subst find_link.simps) auto
qed

lemma lookup_from_ok:
  "seg (chains c) p xs None \<Longrightarrow> lookup_from c name hash p = Some (find (\<lambda>a. e_hash (store c a) = hash \<and> e_name (store c a) = name) xs)"
proof (induction xs arbitrary: p)
  case Nil
  then show ?case by (simp add: lookup_from.simps)
next
  case (Cons x xs)
  then show ?case by (subst lookup_from.simps) auto
qed


section \<open>The table\<close>

definition shape :: "cache \<Rightarrow> nat list list \<Rightarrow> nat list \<Rightarrow> bool" where
  "shape c bs rs \<longleftrightarrow> (\<exists>k. n_buckets c = 2 ^ k) \<and> chain_tab (chains c) (\<lambda>a. e_hash (store c a)) (n_buckets c) (buckets c) bs \<and> rec_ok c rs \<and>
     set (concat bs) = set rs \<and> c_count c = length rs \<and> c_bytes c = sum_list (map (\<lambda>a. e_bytes (store c a)) rs) \<and>
     (\<forall>a \<in> set rs. e_hash (store c a) = hash_of (e_name (store c a)))"

text \<open>Who owns the memory of an entry: the table; the coroutine that is loading it, for those in \<open>L\<close>; or, once it was dropped, those
  that still read from it.\<close>

definition owned :: "nat set \<Rightarrow> cache \<Rightarrow> nat list \<Rightarrow> bool" where
  "owned L c rs \<longleftrightarrow> set rs \<union> L \<subseteq> alloced c \<and> set rs \<inter> L = {} \<and> (\<forall>a \<in> set rs \<union> L. \<not> e_dropped (store c a)) \<and>
     (\<forall>a \<in> alloced c - set rs - L. e_dropped (store c a))"

definition kept :: "nat set \<Rightarrow> cache \<Rightarrow> nat list \<Rightarrow> bool" where
  "kept L c rs \<longleftrightarrow> (\<exists>bs. shape c bs rs) \<and> owned L c rs"

lemma new_kept: "kept {} (new_cache budget mem) []"
proof -
  have "shape (new_cache budget mem) (replicate 64 []) [] \<and> owned {} (new_cache budget mem) []"
    by (simp add: shape_def owned_def new_cache_def chain_tab_def rec_ok_def exI[of _ 6])
  then show ?thesis by (auto simp: kept_def)
qed

lemma lookup_ok:
  assumes "kept L c rs"
  shows "\<exists>r. lookup c name (hash_of name) = Some r \<and> (case r of None \<Rightarrow> \<forall>a \<in> set rs. e_name (store c a) \<noteq> name | Some a \<Rightarrow> a \<in> set rs \<and> e_name (store c a) = name)"
proof -
  obtain bs k where T: "shape c bs rs" and k: "n_buckets c = 2 ^ k" using assms by (auto simp: kept_def shape_def)
  let ?i = "bucket_of (2 ^ k) (hash_of name)" and ?P = "\<lambda>a. e_hash (store c a) = hash_of name \<and> e_name (store c a) = name"
  have ct: "chain_tab (chains c) (\<lambda>a. e_hash (store c a)) (2 ^ k) (buckets c) bs" and sr: "set (concat bs) = set rs"
    and hs: "\<forall>a \<in> set rs. e_hash (store c a) = hash_of (e_name (store c a))" using T k by (auto simp: shape_def)
  have i: "?i < 2 ^ k" by (rule bucket_less)
  then have "seg (chains c) (buckets c ! ?i) (bs ! ?i) None" using ct by (simp add: chain_tab_def)
  then have l: "lookup c name (hash_of name) = Some (find ?P (bs ! ?i))" using lookup_from_ok k by (simp add: lookup_def)
  have sub: "set (bs ! ?i) \<subseteq> set rs" using sr ct i nth_mem[of ?i bs] by (auto simp: chain_tab_def)
  show ?thesis
  proof (cases "find ?P (bs ! ?i)")
    case None
    have "e_name (store c a) \<noteq> name" if a: "a \<in> set rs" for a
    proof
      assume n: "e_name (store c a) = name"
      then have "a \<in> set (bs ! ?i)" using chain_mem[OF ct, of a] a sr hs by auto
      then show False using None n hs a by (auto simp: find_None_iff)
    qed
    then show ?thesis using l None by simp
  next
    case (Some a)
    then have "a \<in> set (bs ! ?i)" "e_name (store c a) = name" by (auto simp: find_Some_iff)
    then show ?thesis using l Some sub by auto
  qed
qed

lemma sum_remove: "sum_list (map w (xs @ a # ys)) = w a + sum_list (map w (xs @ ys))"
  for w :: "nat \<Rightarrow> nat"
  by simp

lemma relinks_fun:
  assumes "relinks c c'"
  shows "(\<lambda>a. e_hash (store c' a)) = (\<lambda>a. e_hash (store c a))" "(\<lambda>a. e_bytes (store c' a)) = (\<lambda>a. e_bytes (store c a))"
    "(\<lambda>a. e_name (store c' a)) = (\<lambda>a. e_name (store c a))" "(\<lambda>a. e_dropped (store c' a)) = (\<lambda>a. e_dropped (store c a))"
    "(\<lambda>a. e_refs (store c' a)) = (\<lambda>a. e_refs (store c a))"
proof -
  have p: "payload (store c' a) = payload (store c a)" for a using assms by (simp add: relinks_def)
  show "(\<lambda>a. e_hash (store c' a)) = (\<lambda>a. e_hash (store c a))" "(\<lambda>a. e_bytes (store c' a)) = (\<lambda>a. e_bytes (store c a))"
    "(\<lambda>a. e_name (store c' a)) = (\<lambda>a. e_name (store c a))" "(\<lambda>a. e_dropped (store c' a)) = (\<lambda>a. e_dropped (store c a))"
    "(\<lambda>a. e_refs (store c' a)) = (\<lambda>a. e_refs (store c a))"
    by (rule ext, rule payload_fields[OF p])+
qed

lemma link_set_ok:
  fixes xs :: "nat list"
  assumes "i < n_buckets c" and "length (buckets c) = n_buckets c"
  defines "at \<equiv> if xs = [] then Bucket i else Chain (last xs)"
  shows "chains (link_set at p c) = (if xs = [] then chains c else (chains c)(last xs := p))"
    "buckets (link_set at p c) = (if xs = [] then (buckets c)[i := p] else buckets c)" "rec_ok (link_set at p c) rs = rec_ok c rs"
    "n_buckets (link_set at p c) = n_buckets c" "c_count (link_set at p c) = c_count c" "c_bytes (link_set at p c) = c_bytes c"
    "relinks c (link_set at p c)"
proof -
  have "olders (link_set at p c) = olders c" "newers (link_set at p c) = newers c" "newest (link_set at p c) = newest c" "oldest (link_set at p c) = oldest c"
    by (auto simp: at_def fun_eq_iff)
  then show "rec_ok (link_set at p c) rs = rec_ok c rs" by (simp add: rec_ok_def)
qed (auto simp: at_def fun_eq_iff relinks_def payload_def)

lemma unlink_shape:
  assumes S: "shape c bs (xs @ a # ys)"
  shows "\<exists>c' bs'. unlink_entry a c = Some c' \<and> shape c' bs' (xs @ ys) \<and> relinks c c'"
proof -
  obtain k where k: "n_buckets c = 2 ^ k" using S by (auto simp: shape_def)
  let ?h = "\<lambda>a. e_hash (store c a)" and ?rs = "xs @ a # ys"
  define i where "i = bucket_of (2 ^ k) (?h a)"
  have t: "chain_tab (chains c) ?h (2 ^ k) (buckets c) bs" and R: "rec_ok c ?rs" and m: "set (concat bs) = set ?rs" using S k by (auto simp: shape_def)
  have i: "i < 2 ^ k" unfolding i_def by (rule bucket_less)
  have len: "length bs = 2 ^ k" "length (buckets c) = 2 ^ k" using t by (auto simp: chain_tab_def)
  have "a \<in> set (concat bs)" unfolding m by simp
  then have "a \<in> set (bs ! i)" using chain_mem[OF t, of a] unfolding i_def by blast
  then obtain us vs where b: "bs ! i = us @ a # vs" by (meson split_list)
  have di: "distinct (us @ a # vs)" "seg (chains c) (buckets c ! i) (us @ a # vs) None" using t i unfolding b[symmetric] by (simp_all add: chain_tab_def)
  define at where "at = (if us = [] then Bucket i else Chain (last us))"
  have fl: "find_link c a (Bucket i) = Some at" using find_link_ok[of c "Bucket i" us a vs None] di by (simp add: at_def)
  define c1 where "c1 = link_set at (e_chain (store c a)) c"
  note L = link_set_ok[of i c us "e_chain (store c a)", folded at_def c1_def]
  have L': "chains c1 = (if us = [] then chains c else (chains c)(last us := chains c a))" "buckets c1 = (if us = [] then (buckets c)[i := chains c a] else buckets c)"
    "rec_ok c1 ?rs" "n_buckets c1 = n_buckets c" "c_count c1 = c_count c" "c_bytes c1 = c_bytes c" "relinks c c1"
    using L i k len R by simp_all
  define c2 where "c2 = recency_out a c1"
  note O = recency_out_ok[OF L'(3), folded c2_def]
  define c' where "c' = c2\<lparr>c_bytes := c_bytes c2 - e_bytes (store c2 a), c_count := c_count c2 - 1\<rparr>"
  have u: "unlink_entry a c = Some c'" using fl k by (simp add: unlink_entry_def i_def c'_def c2_def c1_def Let_def)
  have rl: "relinks c c2" using relinks_trans[OF L'(7) O(7)] .
  then have rl': "relinks c c'" by (simp add: c'_def relinks_def)
  note F = relinks_fun[OF rl']
  have "chain_tab (chains c2) ?h (2 ^ k) (buckets c2) (bs[i := us @ vs])"
    using chain_unlink[OF t i b] unfolding O(2,3) L'(1,2) by (auto split: if_splits)
  then have ct: "chain_tab (chains c') (\<lambda>a. e_hash (store c' a)) (2 ^ k) (buckets c') (bs[i := us @ vs])"
    unfolding F by (simp add: c'_def)
  have mm: "set (concat (bs[i := us @ vs])) = set (xs @ ys)"
  proof -
    have "a \<notin> set (bs ! j)" if "j < 2 ^ k" "j \<noteq> i" for j using chain_disjoint[OF t i that(1), of a] b that(2) by auto
    moreover have "set (concat bs) = set (bs ! i) \<union> (\<Union>j \<in> {..<2 ^ k} - {i}. set (bs ! j))"
      using set_concat_update[of i bs "bs ! i"] i len by simp
    ultimately have "set (concat (bs[i := us @ vs])) = set (concat bs) - {a}"
      using set_concat_update[of i bs "us @ vs"] i len b di(1) by auto
    then show ?thesis using m R by (auto simp: rec_ok_def)
  qed
  have rr: "rec_ok c' (xs @ ys)" using O(1) by (simp add: c'_def rec_ok_def)
  have "c_count c' = length (xs @ ys)" "c_bytes c' = sum_list (map (\<lambda>a. e_bytes (store c' a)) (xs @ ys))"
    using S O(5,6) L'(5,6) F(2) relinks_fun(2)[OF rl] unfolding shape_def by (simp_all add: c'_def fun_eq_iff)
  moreover have "\<forall>b \<in> set (xs @ ys). e_hash (store c' b) = hash_of (e_name (store c' b))"
    using S F(1,3) by (simp add: shape_def fun_eq_iff)
  moreover have "n_buckets c' = 2 ^ k" using O(4) L'(4) k by (simp add: c'_def)
  ultimately have "shape c' (bs[i := us @ vs]) (xs @ ys)" using ct mm rr by (auto simp: shape_def)
  then show ?thesis using u rl' by blast
qed

text \<open>A change of an entry that leaves its links, its name and its size alone.\<close>

definition marks :: "(entry \<Rightarrow> entry) \<Rightarrow> bool" where
  "marks f \<longleftrightarrow> (\<forall>e. e_chain (f e) = e_chain e \<and> newer (f e) = newer e \<and> older (f e) = older e \<and> e_hash (f e) = e_hash e \<and>
     e_bytes (f e) = e_bytes e \<and> e_name (f e) = e_name e)"

lemma shape_marks:
  assumes "marks f"
  shows "shape (upd_e a f c) bs rs = shape c bs rs"
proof -
  have e: "chains (upd_e a f c) = chains c" "newers (upd_e a f c) = newers c" "olders (upd_e a f c) = olders c"
    "(\<lambda>b. e_hash (store (upd_e a f c) b)) = (\<lambda>b. e_hash (store c b))" "(\<lambda>b. e_bytes (store (upd_e a f c) b)) = (\<lambda>b. e_bytes (store c b))"
    "\<And>b. e_name (store (upd_e a f c) b) = e_name (store c b)" "\<And>b. e_hash (store (upd_e a f c) b) = e_hash (store c b)"
    using assms by (auto simp: marks_def fun_eq_iff)
  show ?thesis unfolding shape_def rec_ok_def e upd_e_simps(3-9) by simp
qed

lemma shape_live [simp]: "shape (entry_free a c) bs rs = shape c bs rs"
  by (simp add: shape_def rec_ok_def entry_free_def)

text \<open>What an entry holds: all of it but its links and whether it was dropped.\<close>

definition data :: "entry \<Rightarrow> entry" where
  "data e = e\<lparr>e_chain := None, newer := None, older := None, e_dropped := False\<rparr>"

lemma data_payload: "payload e = payload e' \<Longrightarrow> data e = data e'"
  by (cases e; cases e') (simp add: payload_def data_def)

lemma data_fields:
  assumes "data e = data e'"
  shows "e_name e = e_name e'" "e_hash e = e_hash e'" "e_stat e = e_stat e'" "e_type e = e_type e'" "e_v e = e_v e'" "e_bytes e = e_bytes e'"
    "e_etag e = e_etag e'" "e_modified e = e_modified e'" "e_checked_at e = e_checked_at e'" "e_refs e = e_refs e'"
  using assms by (cases e; cases e'; simp add: data_def)+

text \<open>A step that changes no entry's data and frees none that is being read.\<close>

definition frees_unread :: "cache \<Rightarrow> cache \<Rightarrow> bool" where
  "frees_unread c c' \<longleftrightarrow> (\<forall>b. data (store c' b) = data (store c b)) \<and> c_budget c' = c_budget c \<and> alloced c' \<subseteq> alloced c \<and>
     (\<forall>b \<in> alloced c. 0 < e_refs (store c b) \<longrightarrow> b \<in> alloced c')"

lemma frees_trans: "frees_unread c c1 \<Longrightarrow> frees_unread c1 c2 \<Longrightarrow> frees_unread c c2"
proof -
  assume a: "frees_unread c c1" "frees_unread c1 c2"
  have "e_refs (store c1 b) = e_refs (store c b)" for b
    using a(1) data_fields(10)[of "store c1 b" "store c b"] by (simp add: frees_unread_def)
  then show ?thesis using a unfolding frees_unread_def by auto
qed

lemma frees_refl [simp]: "frees_unread c c"
  by (simp add: frees_unread_def)

lemma relinks_frees: "relinks c c' \<Longrightarrow> frees_unread c c'"
  by (auto simp: relinks_def frees_unread_def intro: data_payload)

lemma drop_entry_ok:
  assumes "kept L c (xs @ a # ys)"
  shows "\<exists>c'. drop_entry a c = Some c' \<and> kept L c' (xs @ ys) \<and> frees_unread c c' \<and> (a \<in> alloced c' \<longleftrightarrow> 0 < e_refs (store c a))"
proof -
  obtain bs where S: "shape c bs (xs @ a # ys)" and O: "owned L c (xs @ a # ys)" using assms by (auto simp: kept_def)
  obtain c1 bs1 where c1: "unlink_entry a c = Some c1" "shape c1 bs1 (xs @ ys)" "relinks c c1" using unlink_shape[OF S] by blast
  define c2 where "c2 = upd_e a (\<lambda>e. e\<lparr>e_dropped := True\<rparr>) c1"
  define c' where "c' = (if e_refs (store c2 a) = 0 then entry_free a c2 else c2)"
  have d: "drop_entry a c = Some c'" using c1(1) by (simp add: drop_entry_def c'_def c2_def)
  have s2: "shape c' bs1 (xs @ ys)" using c1(2) shape_marks[of "\<lambda>e. e\<lparr>e_dropped := True\<rparr>" a c1] by (simp add: c'_def c2_def marks_def)
  have p: "payload (store c1 b) = payload (store c b)" for b using c1(3) by (simp add: relinks_def)
  have l: "alloced c1 = alloced c" "c_budget c1 = c_budget c" using c1(3) by (simp_all add: relinks_def)
  have dist: "a \<notin> set (xs @ ys)" "a \<in> alloced c" using S O by (auto simp: shape_def rec_ok_def owned_def)
  have st: "store c' b = (if b = a then (store c1 a)\<lparr>e_dropped := True\<rparr> else store c1 b)" for b by (simp add: c'_def c2_def entry_free_def)
  have lv: "alloced c' = (if e_refs (store c a) = 0 then alloced c - {a} else alloced c)" using payload_fields(10)[OF p[of a]] l by (simp add: c'_def c2_def entry_free_def)
  have "data (store c' b) = data (store c b)" for b using data_payload[OF p[of b]] by (auto simp: st data_def)
  moreover have "c_budget c' = c_budget c" using l(2) by (simp add: c'_def c2_def entry_free_def)
  ultimately have "frees_unread c c'" by (auto simp: frees_unread_def lv)
  moreover have dr: "e_dropped (store c' b) = (if b = a then True else e_dropped (store c b))" for b using p[of b, THEN payload_fields(11)] by (simp add: st)
  then have "owned L c' (xs @ ys)" using O dist unfolding owned_def lv dr by auto
  ultimately show ?thesis using d s2 lv dist by (auto simp: kept_def)
qed

lemma touch_ok:
  assumes "kept L c (xs @ a # ys)"
  shows "kept L (touch a c) (a # xs @ ys)" "relinks c (touch a c)"
proof -
  obtain bs where S: "shape c bs (xs @ a # ys)" and O: "owned L c (xs @ a # ys)" using assms by (auto simp: kept_def)
  have R: "rec_ok c (xs @ a # ys)" using S by (simp add: shape_def)
  have "kept L (touch a c) (a # xs @ ys) \<and> relinks c (touch a c)"
  proof (cases "newest c = Some a")
    case True
    have "newest c = Some (hd (xs @ a # ys))" using R seg_start[of "olders c" "newest c" "xs @ a # ys"] by (simp add: rec_ok_def)
    then have "xs = []" using True R by (cases xs) (auto simp: rec_ok_def)
    then show ?thesis using True assms by (simp add: touch_def)
  next
    case False
    define c' where "c' = recency_in a (recency_out a c)"
    have a: "a \<notin> set (xs @ ys)" using R by (simp add: rec_ok_def)
    note A = recency_out_ok[OF R] and B = recency_in_ok[OF recency_out_ok(1)[OF R] a]
    have rl: "relinks c c'" unfolding c'_def using relinks_trans[OF A(7) B(7)] .
    note F = relinks_fun[OF rl]
    have "shape c' bs (a # xs @ ys)"
      using S B(1) unfolding shape_def F(1,2) by (simp add: c'_def[symmetric] B(2-6)[folded c'_def] A(2-6) F(1,3)[unfolded fun_eq_iff] insert_commute)
    moreover have "owned L c' (a # xs @ ys)" using O rl F(4) by (auto simp: owned_def relinks_def fun_eq_iff)
    ultimately show ?thesis using rl False by (auto simp: touch_def c'_def[symmetric] kept_def)
  qed
  then show "kept L (touch a c) (a # xs @ ys)" "relinks c (touch a c)" by blast+
qed

text \<open>Dropping from the end until what is needed fits, or nothing is left.\<close>

function evict :: "nat \<Rightarrow> nat \<Rightarrow> (nat \<Rightarrow> nat) \<Rightarrow> nat list \<Rightarrow> nat list" where
  "evict budget need w rs = (if rs \<noteq> [] \<and> sum_list (map w rs) + need > budget then evict budget need w (butlast rs) else rs)"
  by pat_completeness auto
termination by (relation "measure (\<lambda>(b, n, w, rs). length rs)") auto

declare evict.simps [simp del]

lemma evict_prefix: "\<exists>zs. rs = evict budget need w rs @ zs"
proof (induction budget need w rs rule: evict.induct)
  case (1 budget need w rs)
  show ?case
  proof (cases "rs \<noteq> [] \<and> sum_list (map w rs) + need > budget")
    case True
    then obtain zs where "butlast rs = evict budget need w (butlast rs) @ zs" using "1.IH" by blast
    then have "rs = evict budget need w (butlast rs) @ zs @ [last rs]" using True by (metis append_assoc append_butlast_last_id)
    moreover have "evict budget need w rs = evict budget need w (butlast rs)" using True by (simp add: evict.simps[of budget need w rs])
    ultimately show ?thesis by metis
  next
    case False
    then have "evict budget need w rs = rs" by (subst evict.simps) (rule if_not_P)
    then show ?thesis by simp
  qed
qed

lemma evict_cong: "map w rs = map w' rs \<Longrightarrow> evict B n w rs = evict B n w' rs"
proof (induction B n w rs rule: evict.induct)
  case (1 B n w rs)
  have "sum_list (map w rs) = sum_list (map w' rs)" by (simp only: "1.prems")
  moreover have "map w (butlast rs) = map w' (butlast rs)" using "1.prems" by (metis map_butlast)
  ultimately show ?case using "1.IH" by (simp only: evict.simps[of _ _ _ rs]) presburger
qed

lemma evict_fits: "need \<le> budget \<Longrightarrow> sum_list (map w (evict budget need w rs)) + need \<le> budget"
proof (induction budget need w rs rule: evict.induct)
  case (1 budget need w rs)
  then show ?case by (cases "rs \<noteq> [] \<and> sum_list (map w rs) + need > budget") (simp_all add: evict.simps[of budget need w rs], auto)
qed

lemma evict_room_ok:
  assumes "kept L c rs"
  shows "\<exists>c'. make_room c need = Some c' \<and> kept L c' (evict (c_budget c) need (\<lambda>a. e_bytes (store c a)) rs) \<and> frees_unread c c'"
  using assms
proof (induction "length rs" arbitrary: c rs)
  case 0
  then have "oldest c = None" using seg_start[of "newers c" "oldest c" "rev rs"] by (auto simp: kept_def shape_def rec_ok_def)
  then show ?case using 0 by (auto simp: make_room.simps[of c] evict.simps[of _ _ _ "[]"])
next
  case (Suc m)
  then obtain ys a where rs: "rs = ys @ [a]" by (metis length_Suc_conv_rev)
  have o: "oldest c = Some a" using Suc.prems rs seg_start[of "newers c" "oldest c" "rev rs"] by (auto simp: kept_def shape_def rec_ok_def)
  have b: "c_bytes c = sum_list (map (\<lambda>a. e_bytes (store c a)) rs)" using Suc.prems by (auto simp: kept_def shape_def)
  show ?case
  proof (cases "c_bytes c + need > c_budget c")
    case False
    then show ?thesis using Suc.prems b by (auto simp: make_room.simps[of c] evict.simps[of _ _ _ rs])
  next
    case True
    obtain c1 where c1: "drop_entry a c = Some c1" "kept L c1 ys" "frees_unread c c1" using drop_entry_ok[of L c ys a "[]"] Suc.prems rs by auto
    have w: "(\<lambda>a. e_bytes (store c1 a)) = (\<lambda>a. e_bytes (store c a))" "c_budget c1 = c_budget c"
      using c1(3) data_fields(6)[of "store c1 b" "store c b" for b] by (auto simp: frees_unread_def fun_eq_iff)
    have len: "m = length ys" using Suc.hyps(2) rs by simp
    obtain c2 where "make_room c1 need = Some c2" "kept L c2 (evict (c_budget c) need (\<lambda>a. e_bytes (store c a)) ys)" "frees_unread c1 c2"
      using Suc.hyps(1)[OF len c1(2)] unfolding w by blast
    moreover have "evict (c_budget c) need (\<lambda>a. e_bytes (store c a)) rs = evict (c_budget c) need (\<lambda>a. e_bytes (store c a)) ys"
      using True b rs by (subst evict.simps) simp
    ultimately show ?thesis using True o c1(1) frees_trans[OF c1(3)] by (auto simp: make_room.simps[of c])
  qed
qed


section \<open>Growing and inserting\<close>

text \<open>What taking chains apart leaves: links other than \<open>chain\<close>, and the rest of the table.\<close>

definition rechains :: "cache \<Rightarrow> cache \<Rightarrow> bool" where
  "rechains c c' \<longleftrightarrow> relinks c c' \<and> newers c' = newers c \<and> olders c' = olders c \<and> newest c' = newest c \<and> oldest c' = oldest c \<and> buckets c' = buckets c \<and>
     n_buckets c' = n_buckets c \<and> c_count c' = c_count c \<and> c_bytes c' = c_bytes c"

lemma rechains_refl [simp]: "rechains c c"
  by (simp add: rechains_def)

lemma rechains_trans: "rechains c c1 \<Longrightarrow> rechains c1 c2 \<Longrightarrow> rechains c c2"
  using relinks_trans by (simp add: rechains_def) blast

lemma rechains_upd: "rechains c (upd_e a (\<lambda>e. e\<lparr>e_chain := p\<rparr>) c)"
  by (auto simp: rechains_def relinks_def payload_def fun_eq_iff)

lemma rechains_hash: "rechains c c' \<Longrightarrow> (\<lambda>a. e_hash (store c' a)) = (\<lambda>a. e_hash (store c a))"
  using relinks_fun(1) by (simp add: rechains_def)

lemma chains_upd: "chains (upd_e a (\<lambda>e. e\<lparr>e_chain := p\<rparr>) c) = (chains c)(a := p)"
  by auto

lemma set_concat_push: "i < length bs \<Longrightarrow> set (concat (bs[i := a # bs ! i])) = insert a (set (concat bs))"
  using set_concat_update[of i bs "a # bs ! i"] set_concat_update[of i bs "bs ! i"] by simp

lemma grow_chain_ok:
  assumes "seg (chains c) p xs None" and "distinct xs" and "set xs \<inter> set (concat nbs) = {}" and "chain_tab (chains c) (\<lambda>a. e_hash (store c a)) (2 ^ k) nb nbs"
  shows "\<exists>c' nb' nbs'. grow_chain (2 ^ k) c nb p = Some (c', nb') \<and> chain_tab (chains c') (\<lambda>a. e_hash (store c a)) (2 ^ k) nb' nbs' \<and>
    set (concat nbs') = set xs \<union> set (concat nbs) \<and> (\<forall>b. b \<notin> set xs \<longrightarrow> chains c' b = chains c b) \<and> rechains c c'"
  using assms
proof (induction xs arbitrary: c p nb nbs)
  case Nil
  then show ?case by (subst grow_chain.simps) auto
next
  case (Cons a xs)
  let ?h = "\<lambda>a. e_hash (store c a)"
  define i where "i = bucket_of (2 ^ k) (?h a)"
  have i: "i < 2 ^ k" unfolding i_def by (rule bucket_less)
  define c1 where "c1 = upd_e a (\<lambda>e. e\<lparr>e_chain := nb ! i\<rparr>) c"
  have ch: "chains c1 = (chains c)(a := nb ! i)" unfolding c1_def by (rule chains_upd)
  have rc: "rechains c c1" unfolding c1_def by (rule rechains_upd)
  have an: "a \<notin> set (concat nbs)" using Cons.prems(3) by auto
  have t1: "chain_tab (chains c1) ?h (2 ^ k) (nb[i := Some a]) (nbs[i := a # nbs ! i])"
    unfolding ch using chain_push[OF Cons.prems(4) _ an] i by (simp add: i_def)
  have len: "length nbs = 2 ^ k" using Cons.prems(4) by (simp add: chain_tab_def)
  have m1: "set (concat (nbs[i := a # nbs ! i])) = insert a (set (concat nbs))" by (rule set_concat_push) (use i len in simp)
  have sg: "seg (chains c1) (chains c a) xs None" unfolding ch using Cons.prems(1,2) by simp
  have dj: "set xs \<inter> set (concat (nbs[i := a # nbs ! i])) = {}" unfolding m1 using Cons.prems(2,3) by auto
  obtain c' nb' nbs' where r: "grow_chain (2 ^ k) c1 (nb[i := Some a]) (chains c a) = Some (c', nb')" "chain_tab (chains c') ?h (2 ^ k) nb' nbs'"
    "set (concat nbs') = set xs \<union> set (concat (nbs[i := a # nbs ! i]))" "\<forall>b. b \<notin> set xs \<longrightarrow> chains c' b = chains c1 b" "rechains c1 c'"
    using Cons.IH[OF sg _ dj, unfolded rechains_hash[OF rc], OF _ t1] Cons.prems(2) by (simp del: set_concat) blast
  have "p = Some a" using Cons.prems(1) by simp
  then have "grow_chain (2 ^ k) c nb p = Some (c', nb')" using r(1) by (subst grow_chain.simps) (simp add: c1_def i_def)
  moreover have "chains c1 b = chains c b" if "b \<noteq> a" for b using fun_cong[OF ch, of b] that by simp
  then have "\<forall>b. b \<notin> set (a # xs) \<longrightarrow> chains c' b = chains c b" using r(4) by simp
  moreover have "set (concat nbs') = set (a # xs) \<union> set (concat nbs)" using r(3) unfolding m1 by auto
  ultimately show ?case using r(2) rechains_trans[OF rc r(5)] by blast
qed

lemma grow_all_ok:
  assumes "chain_tab (chains c) (\<lambda>a. e_hash (store c a)) (2 ^ k) nb nbs" and "distinct is" and "set is \<subseteq> {..<n}"
    and "\<forall>i \<in> set is. distinct (bs ! i) \<and> seg (chains c) (buckets c ! i) (bs ! i) None \<and> set (bs ! i) \<inter> set (concat nbs) = {}"
    and "\<forall>i < n. \<forall>j < n. i \<noteq> j \<longrightarrow> set (bs ! i) \<inter> set (bs ! j) = {}"
  shows "\<exists>c' nb' nbs'. grow_all (2 ^ k) c nb is = Some (c', nb') \<and> chain_tab (chains c') (\<lambda>a. e_hash (store c a)) (2 ^ k) nb' nbs' \<and>
    set (concat nbs') = (\<Union>i \<in> set is. set (bs ! i)) \<union> set (concat nbs) \<and> rechains c c'"
  using assms
proof (induction "is" arbitrary: c nb nbs)
  case Nil
  then show ?case by auto
next
  case (Cons i js)
  let ?h = "\<lambda>a. e_hash (store c a)"
  obtain c1 nb1 nbs1 where r: "grow_chain (2 ^ k) c nb (buckets c ! i) = Some (c1, nb1)" "chain_tab (chains c1) ?h (2 ^ k) nb1 nbs1"
    "set (concat nbs1) = set (bs ! i) \<union> set (concat nbs)" "\<forall>b. b \<notin> set (bs ! i) \<longrightarrow> chains c1 b = chains c b" "rechains c c1"
    using grow_chain_ok[OF _ _ _ Cons.prems(1), of "buckets c ! i" "bs ! i"] bspec[OF Cons.prems(4), of i] by (simp del: set_concat) blast
  have bk: "buckets c1 = buckets c" using r(5) by (simp add: rechains_def)
  have "seg (chains c1) (buckets c1 ! j) (bs ! j) None" "set (bs ! j) \<inter> set (concat nbs1) = {}" "distinct (bs ! j)" if "j \<in> set js" for j
  proof -
    have j: "j < n" "i < n" "i \<noteq> j" using Cons.prems(2,3) that by auto
    then have dj: "set (bs ! j) \<inter> set (bs ! i) = {}" using Cons.prems(5) by blast
    have P: "distinct (bs ! j)" "seg (chains c) (buckets c ! j) (bs ! j) None" "set (bs ! j) \<inter> set (concat nbs) = {}"
      using bspec[OF Cons.prems(4), of j] that by auto
    have "chains c1 b = chains c b" if "b \<in> set (bs ! j)" for b using r(4) dj that by blast
    then show "seg (chains c1) (buckets c1 ! j) (bs ! j) None" using P(2) seg_cong[of "bs ! j" "chains c1" "chains c"] unfolding bk by blast
    show "distinct (bs ! j)" by (rule P(1))
    show "set (bs ! j) \<inter> set (concat nbs1) = {}" unfolding r(3) using P(3) dj by blast
  qed
  then have p4: "\<forall>j \<in> set js. distinct (bs ! j) \<and> seg (chains c1) (buckets c1 ! j) (bs ! j) None \<and> set (bs ! j) \<inter> set (concat nbs1) = {}" by blast
  have p1: "chain_tab (chains c1) (\<lambda>a. e_hash (store c1 a)) (2 ^ k) nb1 nbs1" using r(2) unfolding rechains_hash[OF r(5)] .
  obtain c' nb' nbs' where s: "grow_all (2 ^ k) c1 nb1 js = Some (c', nb')" "chain_tab (chains c') ?h (2 ^ k) nb' nbs'"
    "set (concat nbs') = (\<Union>i \<in> set js. set (bs ! i)) \<union> set (concat nbs1)" "rechains c1 c'"
    using Cons.IH[OF p1 _ _ p4 Cons.prems(5)] Cons.prems(2,3) unfolding rechains_hash[OF r(5)] by (simp del: set_concat) blast
  have "grow_all (2 ^ k) c nb (i # js) = Some (c', nb')" using r(1) s(1) by simp
  moreover have "set (concat nbs') = (\<Union>i \<in> set (i # js). set (bs ! i)) \<union> set (concat nbs)" unfolding s(3) r(3) by auto
  ultimately show ?case using s(2) rechains_trans[OF r(5) s(4)] by blast
qed

lemma grow_ok:
  assumes S: "shape c bs rs"
  shows "\<exists>c' bs'. grow calloc_ok c = Some c' \<and> shape c' bs' rs \<and> relinks c c'"
proof (cases calloc_ok)
  case False
  then show ?thesis using S by (auto simp: grow_def)
next
  case True
  obtain k where k: "n_buckets c = 2 ^ k" using S by (auto simp: shape_def)
  let ?h = "\<lambda>a. e_hash (store c a)" and ?n = "2 ^ Suc k"
  have t: "chain_tab (chains c) ?h (2 ^ k) (buckets c) bs" and m: "set (concat bs) = set rs" using S k by (auto simp: shape_def)
  have len: "length bs = 2 ^ k" using t by (simp add: chain_tab_def)
  have e: "chain_tab (chains c) ?h ?n (replicate ?n None) (replicate ?n [])" by (simp add: chain_tab_def)
  have c0: "set (concat (replicate ?n [])) = {}" by simp
  have a: "\<forall>i \<in> set [0..<2 ^ k]. distinct (bs ! i) \<and> seg (chains c) (buckets c ! i) (bs ! i) None \<and> set (bs ! i) \<inter> set (concat (replicate ?n [])) = {}"
    unfolding c0 using t by (simp add: chain_tab_def)
  have d: "\<forall>i < 2 ^ k. \<forall>j < 2 ^ k. i \<noteq> j \<longrightarrow> set (bs ! i) \<inter> set (bs ! j) = {}" using chain_disjoint[OF t] by blast
  have sub: "distinct [0..<2 ^ k]" "set [0..<2 ^ k] \<subseteq> {..<2 ^ k}" by auto
  obtain c1 nb nbs where g: "grow_all ?n c (replicate ?n None) [0..<2 ^ k] = Some (c1, nb)" "chain_tab (chains c1) ?h ?n nb nbs"
    "set (concat nbs) = (\<Union>i \<in> set [0..<2 ^ k]. set (bs ! i)) \<union> set (concat (replicate ?n []))" "rechains c c1"
    using grow_all_ok[OF e sub a d] by blast
  have un: "(\<Union>i \<in> set [0..<2 ^ k]. set (bs ! i)) = set (concat bs)" 
  proof -
    have "set bs = (\<lambda>i. bs ! i) ` set [0..<2 ^ k]" using len by (metis map_nth set_map)
    then show ?thesis by auto
  qed
  have mm: "set (concat nbs) = set rs" unfolding g(3) un m c0 by simp
  define c' where "c' = c1\<lparr>buckets := nb, n_buckets := ?n\<rparr>"
  have gr: "grow calloc_ok c = Some c'" using True g(1) k by (simp add: grow_def c'_def mult.commute)
  have rl: "relinks c c'" using g(4) by (simp add: rechains_def relinks_def c'_def)
  note F = relinks_fun[OF rl]
  have "chain_tab (chains c') (\<lambda>a. e_hash (store c' a)) ?n (buckets c') nbs" unfolding F using g(2) by (simp add: c'_def)
  moreover have "rec_ok c' rs" using S g(4) by (simp add: shape_def rec_ok_def rechains_def c'_def)
  moreover have "c_count c' = length rs" "c_bytes c' = sum_list (map (\<lambda>a. e_bytes (store c' a)) rs)"
    unfolding F using S g(4) by (simp_all add: shape_def rechains_def c'_def)
  moreover have "\<forall>a \<in> set rs. e_hash (store c' a) = hash_of (e_name (store c' a))" using S F(1,3) by (simp add: shape_def fun_eq_iff)
  moreover have "n_buckets c' = 2 ^ Suc k" by (simp add: c'_def)
  ultimately have "shape c' nbs rs" using mm unfolding shape_def by metis
  then show ?thesis using gr rl by blast
qed

lemma insert_ok:
  assumes K: "kept (insert a L) c rs" and a: "e_hash (store c a) = hash_of (e_name (store c a))" "a \<notin> L"
  shows "\<exists>c'. insert_entry calloc_ok a c = Some c' \<and> kept L c' (a # rs) \<and> relinks c c'"
proof -
  obtain bs where S: "shape c bs rs" and O: "owned (insert a L) c rs" using K by (auto simp: kept_def)
  obtain c1 bs1 where c1: "(if c_count c \<ge> n_buckets c then grow calloc_ok c else Some c) = Some c1" "shape c1 bs1 rs" "relinks c c1"
    using S grow_ok[OF S, of calloc_ok] by (cases "c_count c \<ge> n_buckets c") auto
  note F1 = relinks_fun[OF c1(3)]
  obtain k where k: "n_buckets c1 = 2 ^ k" using c1(2) by (auto simp: shape_def)
  let ?h = "\<lambda>b. e_hash (store c1 b)"
  define i where "i = bucket_of (2 ^ k) (?h a)"
  have i: "i < 2 ^ k" unfolding i_def by (rule bucket_less)
  have t: "chain_tab (chains c1) ?h (2 ^ k) (buckets c1) bs1" and m: "set (concat bs1) = set rs" and R: "rec_ok c1 rs" using c1(2) k by (auto simp: shape_def)
  have len: "length bs1 = 2 ^ k" using t by (simp add: chain_tab_def)
  have ar: "a \<notin> set rs" using O by (auto simp: owned_def)
  define c2 where "c2 = (upd_e a (\<lambda>e. e\<lparr>e_chain := buckets c1 ! i\<rparr>) c1)\<lparr>buckets := (buckets c1)[i := Some a]\<rparr>"
  have "olders c2 = olders c1" "newers c2 = newers c1" "newest c2 = newest c1" "oldest c2 = oldest c1" by (auto simp: c2_def fun_eq_iff)
  then have R2: "rec_ok c2 rs" using R by (simp add: rec_ok_def)
  have rl2: "relinks c1 c2" by (simp add: c2_def relinks_def payload_def)
  have ch2: "chains c2 = (chains c1)(a := buckets c1 ! i)" by (auto simp: c2_def)
  note I = recency_in_ok[OF R2 ar]
  define c' where "c' = (recency_in a c2)\<lparr>c_bytes := c_bytes (recency_in a c2) + e_bytes (store (recency_in a c2) a), c_count := c_count (recency_in a c2) + 1\<rparr>"
  have ins: "insert_entry calloc_ok a c = Some c'" using c1(1) k by (simp add: insert_entry_def Let_def c'_def c2_def i_def)
  have rl3: "relinks c1 (recency_in a c2)" using relinks_trans[OF rl2 I(7)] .
  have rl': "relinks c1 c'" using rl3 by (simp add: c'_def relinks_def)
  note F = relinks_fun[OF rl']
  have "a \<notin> set (concat bs1)" unfolding m by (rule ar)
  then have "chain_tab (chains c2) ?h (2 ^ k) (buckets c2) (bs1[i := a # bs1 ! i])"
    unfolding ch2 using chain_push[OF t, of a] i by (simp add: i_def c2_def)
  then have ct: "chain_tab (chains c') (\<lambda>b. e_hash (store c' b)) (2 ^ k) (buckets c') (bs1[i := a # bs1 ! i])"
    unfolding F using I(2,3) by (simp add: c'_def)
  have mm: "set (concat (bs1[i := a # bs1 ! i])) = set (a # rs)" using set_concat_push[of i bs1 a] i len m by (simp del: set_concat)
  have cn: "c_count c' = length (a # rs)" "c_bytes c' = sum_list (map (\<lambda>b. e_bytes (store c' b)) (a # rs))" "n_buckets c' = 2 ^ k"
    unfolding F using c1(2) I(4-6) k relinks_fun(2)[OF rl3] by (simp_all add: shape_def c'_def c2_def fun_eq_iff)
  have "\<forall>b \<in> set (a # rs). e_hash (store c' b) = hash_of (e_name (store c' b))"
    using c1(2) a(1) F(1,3) F1(1,3) by (simp add: shape_def fun_eq_iff)
  moreover have "rec_ok c' (a # rs)" using I(1) by (simp add: c'_def rec_ok_def)
  ultimately have "shape c' (bs1[i := a # bs1 ! i]) (a # rs)" using ct mm cn unfolding shape_def by metis
  moreover have rl: "relinks c c'" using relinks_trans[OF c1(3) rl'] .
  moreover have "owned L c' (a # rs)" using O a(2) ar rl relinks_fun(4)[OF rl] by (auto simp: owned_def relinks_def fun_eq_iff)
  ultimately show ?thesis using ins by (auto simp: kept_def)
qed

lemma keep_entry_ok:
  assumes K: "kept L c rs" and f: "a \<notin> alloced c" and e: "e_hash e = hash_of (e_name e)" "\<not> e_dropped e"
  shows "\<exists>c'. keep_entry calloc_ok a e c = Some c' \<and>
    kept L c' (if e_bytes e \<le> c_budget c then a # evict (c_budget c) (e_bytes e) (\<lambda>b. e_bytes (store c b)) rs else rs) \<and> c_budget c' = c_budget c \<and>
    data (store c' a) = data e \<and> (\<forall>b. b \<noteq> a \<longrightarrow> data (store c' b) = data (store c b)) \<and> (\<forall>b \<in> alloced c. 0 < e_refs (store c b) \<longrightarrow> b \<in> alloced c') \<and>
    alloced c' \<subseteq> insert a (alloced c)"
proof -
  define c0 where "c0 = c\<lparr>store := (store c)(a := e), alloced := insert a (alloced c)\<rparr>"
  obtain bs where S: "shape c bs rs" and O: "owned L c rs" using K by (auto simp: kept_def)
  have al: "a \<notin> set rs" "a \<notin> L" using O f by (auto simp: owned_def)
  have mem: "b \<noteq> a" if "i < n_buckets c" "b \<in> set (bs ! i)" for i b
    using that S al nth_mem[of i bs] by (auto simp: shape_def chain_tab_def)
  have "seg (chains c0) p xs q = seg (chains c) p xs q" "seg (newers c0) p xs q = seg (newers c) p xs q" "seg (olders c0) p xs q = seg (olders c) p xs q"
    if "a \<notin> set xs" for p xs q using that by (auto simp: c0_def intro!: seg_cong)
  then have "chain_tab (chains c0) (\<lambda>b. e_hash (store c0 b)) (n_buckets c0) (buckets c0) bs" "rec_ok c0 rs"
    using S mem al(1) unfolding shape_def chain_tab_def rec_ok_def by (auto simp: c0_def)
  moreover have w: "map (\<lambda>b. e_bytes (store c0 b)) rs = map (\<lambda>b. e_bytes (store c b)) rs" using al(1) by (auto simp: c0_def)
  moreover have "\<forall>b \<in> set rs. e_hash (store c0 b) = hash_of (e_name (store c0 b))" using S al(1) by (auto simp: shape_def c0_def)
  moreover have "n_buckets c0 = n_buckets c" "c_count c0 = c_count c" "c_bytes c0 = c_bytes c" by (simp_all add: c0_def)
  ultimately have S0: "shape c0 bs rs" using S unfolding shape_def w by simp
  have O0: "owned (insert a L) c0 rs" using O f al e(2) by (auto simp: owned_def c0_def)
  have K0: "kept (insert a L) c0 rs" using S0 O0 by (auto simp: kept_def)
  show ?thesis
  proof (cases "e_bytes e \<le> c_budget c")
    case True
    let ?ev = "evict (c_budget c) (e_bytes e) (\<lambda>b. e_bytes (store c b)) rs"
    obtain c1 where c1: "make_room c0 (e_bytes e) = Some c1" "kept (insert a L) c1 ?ev" "frees_unread c0 c1"
      using evict_room_ok[OF K0, of "e_bytes e"] evict_cong[OF w] by (auto simp: c0_def)
    have d: "data (store c1 b) = data (store c0 b)" for b using c1(3) by (simp add: frees_unread_def)
    have "store c0 a = e" by (simp add: c0_def)
    then have ea: "e_hash (store c1 a) = hash_of (e_name (store c1 a))" using e(1) data_fields(1,2)[OF d[of a]] by simp
    obtain c' where c': "insert_entry calloc_ok a c1 = Some c'" "kept L c' (a # ?ev)" "relinks c1 c'" using insert_ok[OF c1(2) ea al(2)] by blast
    have "keep_entry calloc_ok a e c = Some c'" using True c1(1) c'(1) by (simp add: keep_entry_def c0_def)
    moreover have fr: "frees_unread c0 c'" using frees_trans[OF c1(3) relinks_frees[OF c'(3)]] .
    have "c_budget c' = c_budget c" "data (store c' a) = data e" "\<forall>b. b \<noteq> a \<longrightarrow> data (store c' b) = data (store c b)" "alloced c' \<subseteq> insert a (alloced c)"
      using fr by (auto simp: frees_unread_def c0_def)
    moreover have "b \<in> alloced c'" if b: "b \<in> alloced c" "0 < e_refs (store c b)" for b
    proof -
      have "b \<noteq> a" using f b(1) by blast
      then have "b \<in> alloced c0" "0 < e_refs (store c0 b)" using b by (simp_all add: c0_def)
      then show ?thesis using fr by (simp add: frees_unread_def)
    qed
    ultimately show ?thesis using c'(2) True by auto
  next
    case False
    define c' where "c' = upd_e a (\<lambda>e. e\<lparr>e_dropped := True\<rparr>) c0"
    have "keep_entry calloc_ok a e c = Some c'" using False by (simp add: keep_entry_def c'_def c0_def)
    moreover have "shape c' bs rs" unfolding c'_def by (subst shape_marks) (simp_all add: marks_def S0)
    moreover have "owned L c' rs" using O f al by (auto simp: owned_def c'_def c0_def)
    moreover have "c_budget c' = c_budget c" "data (store c' a) = data e" "\<forall>b. b \<noteq> a \<longrightarrow> data (store c' b) = data (store c b)" "alloced c' = insert a (alloced c)"
      by (auto simp: c'_def c0_def data_def)
    ultimately show ?thesis using False by (auto simp: kept_def)
  qed
qed


section \<open>A worker's use of its table\<close>

lemma marks_kept:
  assumes "kept L c rs" and "marks f" and "\<And>e. e_dropped (f e) = e_dropped e"
  shows "kept L (upd_e a f c) rs"
  using assms(1) shape_marks[OF assms(2)] assms(3) by (auto simp: kept_def owned_def)

lemma free_kept:
  assumes "kept L c rs" and "e_dropped (store c a)"
  shows "kept L (entry_free a c) rs"
  using assms by (auto simp: kept_def owned_def entry_free_def[of a c] simp del: shape_live) (metis entry_free_def shape_live)

lemma release_kept: "kept L c rs \<Longrightarrow> kept L (release a c) rs"
  using marks_kept[of L c rs "\<lambda>e. e\<lparr>e_refs := e_refs e - 1\<rparr>" a] free_kept[of L _ rs a] by (simp add: release_def Let_def marks_def)

lemma hold_kept: "kept L c rs \<Longrightarrow> kept L (hold a c) rs"
  using marks_kept[of L c rs "\<lambda>e. e\<lparr>e_refs := e_refs e + 1\<rparr>" a] by (simp add: hold_def marks_def)

text \<open>The steps a worker makes on its table, with the list it stands for; \<open>B\<close> is the budget.\<close>

inductive cache_run :: "nat \<Rightarrow> cache \<Rightarrow> nat list \<Rightarrow> bool" for B :: nat where
  start: "cache_run B (new_cache B mem) []"
| keep: "cache_run B c rs \<Longrightarrow> a \<notin> alloced c \<Longrightarrow> e_hash e = hash_of (e_name e) \<Longrightarrow> \<not> e_dropped e \<Longrightarrow> keep_entry calloc_ok a e c = Some c' \<Longrightarrow>
    cache_run B c' (if e_bytes e \<le> B then a # evict B (e_bytes e) (\<lambda>b. e_bytes (store c b)) rs else rs)"
| touch: "cache_run B c rs \<Longrightarrow> a \<in> set rs \<Longrightarrow> cache_run B (touch a c) (a # remove1 a rs)"
| drop: "cache_run B c rs \<Longrightarrow> a \<in> set rs \<Longrightarrow> drop_entry a c = Some c' \<Longrightarrow> cache_run B c' (remove1 a rs)"
| hold: "cache_run B c rs \<Longrightarrow> a \<in> alloced c \<Longrightarrow> cache_run B (hold a c) rs"
| release: "cache_run B c rs \<Longrightarrow> a \<in> alloced c \<Longrightarrow> 0 < e_refs (store c a) \<Longrightarrow> cache_run B (release a c) rs"
| check: "cache_run B c rs \<Longrightarrow> a \<in> alloced c \<Longrightarrow> cache_run B (upd_e a (\<lambda>e. e\<lparr>e_checked_at := now\<rparr>) c) rs"

lemma split_kept:
  assumes "kept L c rs" and "a \<in> set rs"
  obtains xs ys where "rs = xs @ a # ys" "remove1 a rs = xs @ ys"
proof -
  obtain xs ys where rs: "rs = xs @ a # ys" using split_list[OF assms(2)] by blast
  have "a \<notin> set xs" using assms(1) rs by (auto simp: kept_def shape_def rec_ok_def)
  then show ?thesis using that[OF rs] rs by (simp add: remove1_append)
qed

lemma kept_sum: "kept L c rs \<Longrightarrow> c_bytes c = sum_list (map (\<lambda>b. e_bytes (store c b)) rs)"
  by (auto simp: kept_def shape_def)

lemma cache_run_kept: "cache_run B c rs \<Longrightarrow> kept {} c rs \<and> c_budget c = B \<and> c_bytes c \<le> B"
proof (induction rule: cache_run.induct)
  case (start mem)
  then show ?case using new_kept[of B mem] by (simp add: new_cache_def)
next
  case (keep c rs a e calloc_ok c')
  let ?ev = "evict B (e_bytes e) (\<lambda>b. e_bytes (store c b)) rs"
  have K: "kept {} c' (if e_bytes e \<le> B then a # ?ev else rs)" "c_budget c' = B" and d: "data (store c' a) = data e" "\<forall>b. b \<noteq> a \<longrightarrow> data (store c' b) = data (store c b)"
    using keep_entry_ok[of "{}" c rs a e calloc_ok] keep by auto
  have w: "map (\<lambda>b. e_bytes (store c' b)) xs = map (\<lambda>b. e_bytes (store c b)) xs" if "a \<notin> set xs" for xs
  proof -
    have "e_bytes (store c' b) = e_bytes (store c b)" if "b \<noteq> a" for b using data_fields(6)[of "store c' b" "store c b"] d(2) that by simp
    then show ?thesis using that by (metis (mono_tags, lifting) map_cong)
  qed
  have al: "a \<notin> set rs" using keep.IH keep.hyps by (auto simp: kept_def owned_def)
  have "c_bytes c' \<le> B"
  proof (cases "e_bytes e \<le> B")
    case True
    obtain zs where "rs = ?ev @ zs" using evict_prefix by blast
    then have "a \<notin> set ?ev" using al by (metis Un_iff set_append)
    then have "c_bytes c' = e_bytes e + sum_list (map (\<lambda>b. e_bytes (store c b)) ?ev)" using kept_sum[OF K(1)] True w data_fields(6)[OF d(1)] by simp
    then show ?thesis using evict_fits[OF True, of "\<lambda>b. e_bytes (store c b)" rs] by simp
  next
    case False
    then have "c_bytes c' = c_bytes c" using kept_sum[OF K(1)] kept_sum[of "{}" c rs] keep.IH w[OF al] by simp
    then show ?thesis using keep.IH by simp
  qed
  then show ?case using K by blast
next
  case (touch c rs a)
  obtain xs ys where rs: "rs = xs @ a # ys" "remove1 a rs = xs @ ys" using split_kept[of "{}" c rs a] touch by blast
  have K: "kept {} (Static_Cache.touch a c) (a # xs @ ys)" "relinks c (Static_Cache.touch a c)" using touch_ok[of "{}" c xs a ys] touch rs by auto
  have "c_bytes (Static_Cache.touch a c) = c_bytes c"
    using kept_sum[OF K(1)] kept_sum[of "{}" c rs] touch.IH rs(1) relinks_fun(2)[OF K(2)] by (simp add: fun_eq_iff)
  then show ?case using K touch.IH rs(2) by (simp add: relinks_def)
next
  case (drop c rs a c')
  obtain xs ys where rs: "rs = xs @ a # ys" "remove1 a rs = xs @ ys" using split_kept[of "{}" c rs a] drop by blast
  obtain c1 where "drop_entry a c = Some c1" "kept {} c1 (xs @ ys)" "frees_unread c c1" using drop_entry_ok[of "{}" c xs a ys] drop rs by auto
  then have K: "kept {} c' (xs @ ys)" "frees_unread c c'" using drop by auto
  have "(\<lambda>b. e_bytes (store c' b)) = (\<lambda>b. e_bytes (store c b))" using K(2) data_fields(6)[of "store c' b" "store c b" for b] by (auto simp: frees_unread_def)
  then have "c_bytes c' \<le> c_bytes c" using kept_sum[OF K(1)] kept_sum[of "{}" c rs] drop.IH rs(1) by simp
  then show ?case using K drop.IH rs(2) by (simp add: frees_unread_def)
next
  case (hold c rs a)
  then show ?case using hold_kept[of "{}" c rs a] by (simp add: Static_Cache.hold_def)
next
  case (release c rs a)
  then show ?case using release_kept[of "{}" c rs a] by (simp add: Static_Cache.release_def Let_def entry_free_def)
next
  case (check c rs a now)
  then show ?case using marks_kept[of "{}" c rs "\<lambda>e. e\<lparr>e_checked_at := now\<rparr>" a] by (simp add: marks_def)
qed

text \<open>The recency list as the pointers give it.\<close>

fun links :: "(nat \<Rightarrow> nat option) \<Rightarrow> nat option \<Rightarrow> nat \<Rightarrow> nat list" where
  "links f p 0 = []"
| "links f p (Suc n) = (case p of None \<Rightarrow> [] | Some a \<Rightarrow> a # links f (f a) n)"

definition recency :: "cache \<Rightarrow> nat list" where
  "recency c = links (olders c) (newest c) (c_count c)"

lemma links_seg: "seg f p xs None \<Longrightarrow> links f p (length xs) = xs"
  by (induction xs arbitrary: p) auto

lemma recency_kept: "kept L c rs \<Longrightarrow> recency c = rs"
  by (auto simp: kept_def shape_def rec_ok_def recency_def links_seg)

text \<open>
  C27. The table of kept files is a least-recently-served list within its budget.  However files were loaded, served, dropped, held and
  released, the list its pointers give is the one these steps have on a plain list: loading drops from the end until the new file fits and
  puts it in front, serving moves to the front.  The sizes add up to what is charged and never exceed the budget.  A lookup returns, and
  finds an entry exactly when one of the name is on the list; making room returns, drops from the end no more than it has to,
  and never frees an entry a reply is still reading from.
\<close>

theorem kept_files_are_an_lru_list:
  assumes "cache_run B c rs"
  shows "recency c = rs \<and> set rs \<subseteq> alloced c \<and> c_bytes c = sum_list (map (\<lambda>a. e_bytes (store c a)) rs) \<and> c_bytes c \<le> B \<and>
    (\<forall>name. \<exists>r. lookup c name (hash_of name) = Some r \<and>
       (case r of None \<Rightarrow> \<forall>a \<in> set rs. e_name (store c a) \<noteq> name | Some a \<Rightarrow> a \<in> set rs \<and> e_name (store c a) = name)) \<and>
    (\<forall>need. \<exists>c'. make_room c need = Some c' \<and> recency c' = evict B need (\<lambda>a. e_bytes (store c a)) rs \<and>
       (\<forall>a \<in> alloced c. 0 < e_refs (store c a) \<longrightarrow> a \<in> alloced c'))"
proof -
  have K: "kept {} c rs" "c_budget c = B" "c_bytes c \<le> B" using cache_run_kept[OF assms] by auto
  have "\<exists>c'. make_room c need = Some c' \<and> recency c' = evict B need (\<lambda>a. e_bytes (store c a)) rs \<and>
      (\<forall>a \<in> alloced c. 0 < e_refs (store c a) \<longrightarrow> a \<in> alloced c')" for need
    using evict_room_ok[OF K(1), of need] K(2) recency_kept unfolding frees_unread_def by blast
  moreover have "set rs \<subseteq> alloced c" using K(1) by (auto simp: kept_def owned_def)
  ultimately show ?thesis using recency_kept[OF K(1)] kept_sum[OF K(1)] K(3) lookup_ok[OF K(1)] by blast
qed

definition small_file :: "bytes \<Rightarrow> entry" where
  "small_file name = \<lparr>e_chain = None, newer = None, older = None, e_name = name, e_hash = hash_of name,
     e_stat = \<lparr>st_dev = 1, st_ino = 1, st_size = 3, st_sec = 0, st_nsec = 0, st_isdir = False, st_isreg = True\<rparr>, e_type = [],
     e_v = (\<lambda>v. if v = PLAIN then Some ''abc'' else None), e_bytes = 3, e_etag = [], e_modified = [], e_checked_at = 0, e_refs = 0, e_dropped = False\<rparr>"

theorem kept_files_are_an_lru_list_witness:
  "\<exists>c. cache_run 5 c [8] \<and> recency c = [8] \<and> c_bytes c = 3 \<and> lookup c ''b'' (hash_of ''b'') = Some (Some 8)"
proof -
  have e: "e_hash (small_file n) = hash_of (e_name (small_file n))" "\<not> e_dropped (small_file n)" "e_bytes (small_file n) = 3" "e_name (small_file n) = n" for n
    by (simp_all add: small_file_def)
  define c0 where "c0 = new_cache 5 (\<lambda>_. small_file [])"
  have r0: "cache_run 5 c0 []" unfolding c0_def by (rule cache_run.start)
  have l0: "alloced c0 = {}" by (simp add: c0_def new_cache_def)
  obtain c1 where c1: "keep_entry True 7 (small_file ''a'') c0 = Some c1" "data (store c1 7) = data (small_file ''a'')" "alloced c1 \<subseteq> {7}"
    using keep_entry_ok[of "{}" c0 "[]" 7 "small_file ''a''" True] cache_run_kept[OF r0] e l0 by auto
  have r1: "cache_run 5 c1 [7]" using cache_run.keep[OF r0 _ _ _ c1(1)] e l0 by (simp add: evict.simps)
  have b1: "e_bytes (store c1 7) = 3" using data_fields(6)[OF c1(2)] e(3) by simp
  have k1: "kept {} c1 [7]" using cache_run_kept[OF r1] by simp
  have "8 \<notin> alloced c1" using c1(3) by auto
  then obtain c2 where c2: "keep_entry True 8 (small_file ''b'') c1 = Some c2" "data (store c2 8) = data (small_file ''b'')"
    using keep_entry_ok[of "{}" c1 "[7]" 8 "small_file ''b''" True] k1 e by auto
  have ev: "evict 5 3 (\<lambda>b. e_bytes (store c1 b)) [7] = []" using b1 by (simp add: evict.simps[of _ _ _ "[7]"] evict.simps[of _ _ _ "[]"])
  have r2: "cache_run 5 c2 [8]" using cache_run.keep[OF r1 _ _ _ c2(1)] e ev \<open>8 \<notin> alloced c1\<close> by simp
  have n2: "e_name (store c2 8) = ''b''" "e_bytes (store c2 8) = 3" using data_fields(1,6)[OF c2(2)] e by simp_all
  obtain r where r: "lookup c2 ''b'' (hash_of ''b'') = Some r" "case r of None \<Rightarrow> \<forall>a \<in> set [8]. e_name (store c2 a) \<noteq> ''b'' | Some a \<Rightarrow> a \<in> set [8] \<and> e_name (store c2 a) = ''b''"
    using kept_files_are_an_lru_list[OF r2] by blast
  then have "r = Some 8" using n2(1) by (cases r) auto
  moreover have "recency c2 = [8]" "c_bytes c2 = 3" using kept_files_are_an_lru_list[OF r2] n2(2) by simp_all
  ultimately show ?thesis using r2 r(1) by blast
qed

end
