(* ===== verification/Static.thy ===== *)
theory Static
  imports Static_Lru Reply_Wire
begin

text \<open>
  Files from a directory, \<^verbatim>\<open>lib/http/static.c\<close>: opening and reading files, what a request finds, and the reply.

  The disk is a parameter: what \<open>openat\<close> with \<open>fstat\<close>, \<open>fstatat\<close>, \<open>read\<close> and the clock answer at each call; the calls are
  numbered, an open file is the number of the call that opened it with the name, so the disk may change between any two of them.
  A read or a send suspends the coroutine; \<open>meanwhile\<close> is what the other coroutines of the worker do to the table then.
  Running out of memory is not modelled here, except for the growing of the table, which it only puts off.
\<close>

type_synonym fd = "nat \<times> bytes"

record fs =
  fs_open :: "nat \<Rightarrow> bytes \<Rightarrow> stat option"
  fs_stat :: "nat \<Rightarrow> bytes \<Rightarrow> stat option"
  fs_read :: "nat \<Rightarrow> fd \<Rightarrow> nat \<Rightarrow> nat \<Rightarrow> bytes option"
  fs_now :: "nat \<Rightarrow> nat"

definition suffix :: "variant \<Rightarrow> bytes" where
  "suffix v = (case v of PLAIN \<Rightarrow> [] | BR \<Rightarrow> ''.br'' | GZIP \<Rightarrow> ''.gz'')"

definition coding :: "variant \<Rightarrow> bytes" where
  "coding v = (case v of PLAIN \<Rightarrow> [] | BR \<Rightarrow> ''br'' | GZIP \<Rightarrow> ''gzip'')"


section \<open>The disk\<close>

text \<open>The bytes of an open file, read until there are as many as its size says; \<open>None\<close> when a read fails or ends early.\<close>

function read_whole :: "fs \<Rightarrow> fd \<Rightarrow> nat \<Rightarrow> bytes \<Rightarrow> nat \<Rightarrow> bytes option \<times> nat" where
  "read_whole d fd sz got t =
     (if length got < sz then
        case fs_read d t fd (sz - length got) (length got) of
          None \<Rightarrow> (None, t + 1)
        | Some b \<Rightarrow> if b = [] then (None, t + 1) else read_whole d fd sz (got @ b) (t + 1)
      else (Some got, t))"
  by pat_completeness auto
termination by (relation "measure (\<lambda>(d, fd, sz, got, t). sz - length got)") (auto simp: length_greater_0_conv[symmetric] simp del: length_greater_0_conv)

declare read_whole.simps [simp del]

definition twin :: "ioxd_static \<Rightarrow> fs \<Rightarrow> bytes \<Rightarrow> variant \<Rightarrow> nat \<Rightarrow> bytes option \<times> nat" where
  "twin st d name v t =
     (case fs_open d t (name @ suffix v) of
        None \<Rightarrow> (None, t + 1)
      | Some sb \<Rightarrow> if st_isreg sb \<and> st_size sb \<le> s_file_max st then read_whole d (t, name @ suffix v) (st_size sb) [] (t + 1) else (None, t + 1))"

text \<open>The entry \<open>load\<close> fills in, before it is kept.\<close>

definition read_entry :: "ioxd_static \<Rightarrow> fs \<Rightarrow> bytes \<Rightarrow> fd \<Rightarrow> stat \<Rightarrow> nat \<Rightarrow> entry option \<times> nat" where
  "read_entry st d name fd sb t =
     (let (etag, modified) = stamp sb;
          (pl, t') = read_whole d fd (st_size sb) [] t
      in case pl of
           None \<Rightarrow> (None, t')
         | Some pl \<Rightarrow>
             let (br, t') = (if s_precompressed st then twin st d name BR t' else (None, t'));
                 (gz, t') = (if s_precompressed st then twin st d name GZIP t' else (None, t'));
                 len = (\<lambda>v. case v of None \<Rightarrow> 0 | Some b \<Rightarrow> length b)
             in (Some \<lparr>e_chain = None, newer = None, older = None, e_name = name, e_hash = hash_of name, e_stat = sb, e_type = type_of name,
                    e_v = (\<lambda>v. case v of PLAIN \<Rightarrow> Some pl | BR \<Rightarrow> br | GZIP \<Rightarrow> gz), e_bytes = length pl + len br + len gz,
                    e_etag = etag, e_modified = modified, e_checked_at = (if s_revalidate_ms st \<noteq> 0 then fs_now d t else 0),
                    e_refs = 0, e_dropped = False\<rparr>, t'))"

definition same_version :: "stat \<Rightarrow> stat \<Rightarrow> bool" where
  "same_version a b \<longleftrightarrow> st_ino a = st_ino b \<and> st_dev a = st_dev b \<and> st_size a = st_size b \<and> st_sec a = st_sec b \<and> st_nsec a = st_nsec b"

definition current :: "ioxd_static \<Rightarrow> fs \<Rightarrow> nat \<Rightarrow> nat \<Rightarrow> cache \<Rightarrow> bool \<times> nat \<times> cache" where
  "current st d a t c =
     (let now = fs_now d t in
      if s_revalidate_ms st \<noteq> 0 \<and> (of_nat now - of_nat (e_checked_at (store c a)) :: u64) < of_nat (s_revalidate_ms st) then (True, t, c)
      else
        let c = (if s_revalidate_ms st \<noteq> 0 then upd_e a (\<lambda>e. e\<lparr>e_checked_at := now\<rparr>) c else c)
        in (case fs_stat d t (e_name (store c a)) of
              None \<Rightarrow> False
            | Some sb \<Rightarrow> st_isreg sb \<and> same_version sb (e_stat (store c a)), t + 1, c))"

text \<open>The open file with its name and its status; a directory's index instead of the directory.\<close>

definition open_file :: "ioxd_static \<Rightarrow> fs \<Rightarrow> bytes \<Rightarrow> nat \<Rightarrow> (fd \<times> bytes \<times> stat) option \<times> nat" where
  "open_file st d name t =
     (case fs_open d t name of
        None \<Rightarrow> (None, t + 1)
      | Some sb \<Rightarrow>
          if st_isdir sb then
            if length (s_index st) = 0 \<or> length name + 1 + length (s_index st) \<ge> NAME_CAP then (None, t + 1)
            else
              let name = name @ ''/'' @ s_index st
              in (case fs_open d (t + 1) name of
                    None \<Rightarrow> (None, t + 2)
                  | Some sb \<Rightarrow> (if st_isreg sb then Some ((t + 1, name), name, sb) else None, t + 2))
          else (if st_isreg sb then Some ((t, name), name, sb) else None, t + 1))"


section \<open>The reply\<close>

definition pick :: "(bytes \<Rightarrow> 'd::{zero,one,linorder} \<times> nat \<times> bool) option \<Rightarrow> request \<Rightarrow> entry \<Rightarrow> variant" where
  "pick strtod_l req e =
     (let br = (if e_v e BR \<noteq> None then ioxd_accepts_encoding strtod_l req (coding BR) else 0);
          gz = (if e_v e GZIP \<noteq> None then ioxd_accepts_encoding strtod_l req (coding GZIP) else 0)
      in if br > 0 \<and> br \<ge> gz then BR else if gz > 0 then GZIP else PLAIN)"

definition reply :: "(bytes \<Rightarrow> 'd::{zero,one,linorder} \<times> nat \<times> bool) option \<Rightarrow> (cache \<Rightarrow> cache) \<Rightarrow> ioxd_static \<Rightarrow> nat \<Rightarrow> bool \<Rightarrow> ctx \<Rightarrow> cache \<Rightarrow> (ctx \<times> cache) option" where
  "reply strtod_l meanwhile st a head cx c =
     (let e = store c a; req = cx_req cx;
          twins = (e_v e BR \<noteq> None \<or> e_v e GZIP \<noteq> None);
          v = (if twins then pick strtod_l req e else PLAIN);
          (go_on, res) = head_of req (cx_res cx) st (e_type e) (e_etag e) (e_modified e) (st_sec (e_stat e)) twins;
          cx = cx\<lparr>cx_res := res\<rparr>
      in if \<not> go_on then Some (cx, c)
      else
        let res = (if v \<noteq> PLAIN then snd (ioxd_header res (Some ''content-encoding'') (Some (coding v))) else res);
            data = (case e_v e v of None \<Rightarrow> [] | Some b \<Rightarrow> b);
            (sp, res) = span_of req res (e_etag e) (of_nat (length data))
        in case sp of
             None \<Rightarrow> Some (cx\<lparr>cx_res := res\<rparr>, c)
           | Some (at, n) \<Rightarrow>
               let cx = cx\<lparr>cx_res := snd (ioxd_content_length res n)\<rparr> in
               if head then Some (cx, c)
               else do {
                 (rc, cx) \<leftarrow> ioxd_write cx (take (unat n) (drop (unat at) data));
                 Some (cx, release a (meanwhile (hold a c))) })"

abbreviation PIECE :: nat where "PIECE \<equiv> 16384"

partial_function (option) stream_loop :: "fs \<Rightarrow> fd \<Rightarrow> nat \<Rightarrow> nat \<Rightarrow> ctx \<Rightarrow> nat \<Rightarrow> (ctx \<times> nat) option" where
  "stream_loop d fd off n cx t =
     (if n = 0 then Some (cx, t)
      else do {
        (at, cx) \<leftarrow> ioxd_reserve cx (if n < PIECE then n else PIECE);
        (if at = None then Some (cx, t)
         else if (case fs_read d t fd (if n < PIECE then n else PIECE) off of None \<Rightarrow> True | Some b \<Rightarrow> b = []) then Some (cx, t + 1)
         else
           stream_loop d fd (off + length (the (fs_read d t fd (if n < PIECE then n else PIECE) off)))
             (n - length (the (fs_read d t fd (if n < PIECE then n else PIECE) off)))
             (ioxd_advance (set_writer (poke (WRITER cx) (the at) (the (fs_read d t fd (if n < PIECE then n else PIECE) off))) (cx_io cx) cx)
               (length (the (fs_read d t fd (if n < PIECE then n else PIECE) off)))) (t + 1)) })"

definition stream :: "ioxd_static \<Rightarrow> fs \<Rightarrow> fd \<Rightarrow> stat \<Rightarrow> bytes \<Rightarrow> bool \<Rightarrow> ctx \<Rightarrow> nat \<Rightarrow> (ctx \<times> nat) option" where
  "stream st d fd sb name head cx t =
     (let (etag, modified) = stamp sb; req = cx_req cx;
          (go_on, res) = head_of req (cx_res cx) st (type_of name) etag modified (st_sec sb) False;
          cx = cx\<lparr>cx_res := res\<rparr>
      in if \<not> go_on then Some (cx, t)
      else
        let (sp, res) = span_of req res etag (of_nat (st_size sb)) in
        case sp of
          None \<Rightarrow> Some (cx\<lparr>cx_res := res\<rparr>, t)
        | Some (at, n) \<Rightarrow>
            let cx = cx\<lparr>cx_res := snd (ioxd_content_length res n)\<rparr> in
            if head then Some (cx, t) else stream_loop d fd (unat at) (unat n) cx t)"

text \<open>What a resolved name leads to: an entry of the table, an open file to stream, or a status alone.\<close>

datatype found = Entry nat | Streamed fd bytes stat | Status int

text \<open>A miss: the file is opened; a directory's index may be in the table; a file within the limit is loaded.\<close>

definition find_on_disk :: "bool \<Rightarrow> (cache \<Rightarrow> cache) \<Rightarrow> ioxd_static \<Rightarrow> fs \<Rightarrow> nat \<Rightarrow> bytes \<Rightarrow> nat \<Rightarrow> cache \<Rightarrow> (found \<times> nat \<times> cache) option" where
  "find_on_disk calloc_ok meanwhile st d fresh name t c =
     (case open_file st d name t of
        (None, t) \<Rightarrow> Some (Status 404, t, c)
      | (Some (fd, name', sb), t) \<Rightarrow> do {
          e \<leftarrow> (if length name' \<noteq> length name then lookup c name' (hash_of name') else Some None);
          (hit, t, c) \<leftarrow>
            (case e of
               None \<Rightarrow> Some (None, t, c)
             | Some a \<Rightarrow>
                 (let (is_cur, t, c) = current st d a t c
                  in if is_cur then Some (Some a, t, touch a c) else do { c \<leftarrow> drop_entry a c; Some (None, t, c) }));
          (case hit of
             Some a \<Rightarrow> Some (Entry a, t, c)
           | None \<Rightarrow>
               if st_size sb > s_file_max st then Some (Streamed fd name' sb, t, c)
               else
                 (case read_entry st d name' fd sb t of
                    (None, t) \<Rightarrow> Some (Status 500, t, meanwhile c)
                  | (Some e, t) \<Rightarrow> do { c \<leftarrow> keep_entry calloc_ok fresh e (meanwhile c); Some (Entry fresh, t, c) })) })"

definition find_file :: "bool \<Rightarrow> (cache \<Rightarrow> cache) \<Rightarrow> ioxd_static \<Rightarrow> fs \<Rightarrow> nat \<Rightarrow> bytes \<Rightarrow> nat \<Rightarrow> cache \<Rightarrow> (found \<times> nat \<times> cache) option" where
  "find_file calloc_ok meanwhile st d fresh name t c = do {
     e \<leftarrow> lookup c name (hash_of name);
     (case e of
        None \<Rightarrow> find_on_disk calloc_ok meanwhile st d fresh name t c
      | Some a \<Rightarrow>
          (let (is_cur, t, c) = current st d a t c
           in if is_cur then Some (Entry a, t, touch a c)
           else do { c \<leftarrow> drop_entry a c; find_on_disk calloc_ok meanwhile st d fresh name t c })) }"

definition serve_static :: "(bytes \<Rightarrow> 'd::{zero,one,linorder} \<times> nat \<times> bool) option \<Rightarrow> bool \<Rightarrow> (cache \<Rightarrow> cache) \<Rightarrow> ioxd_static \<Rightarrow> fs \<Rightarrow> nat \<Rightarrow> bytes \<Rightarrow> ctx \<Rightarrow> nat \<Rightarrow> cache \<Rightarrow>
  (ctx \<times> nat \<times> cache) option" where
  "serve_static strtod_l calloc_ok meanwhile st d fresh name cx t c =
     (let head = ioxd_slice_eq (rq_method (cx_req cx)) ''HEAD'' in
      if \<not> head \<and> \<not> ioxd_slice_eq (rq_method (cx_req cx)) ''GET'' then
        Some (upd_res (\<lambda>r. snd (ioxd_header (r\<lparr>rs_status := 405\<rparr>) (Some ''allow'') (Some ''GET, HEAD''))) cx, t, c)
      else do {
        (f, t, c) \<leftarrow> find_file calloc_ok meanwhile st d fresh name t c;
        (case f of
           Status s \<Rightarrow> Some (upd_res (\<lambda>r. r\<lparr>rs_status := s\<rparr>) cx, t, c)
         | Streamed fd name' sb \<Rightarrow> do { (cx, t) \<leftarrow> stream st d fd sb name' head cx t; Some (cx, t, c) }
         | Entry a \<Rightarrow> do { (cx, c) \<leftarrow> reply strtod_l meanwhile st a head cx c; Some (cx, t, c) }) })"

definition ioxd_static_serve :: "(bytes \<Rightarrow> 'd::{zero,one,linorder} \<times> nat \<times> bool) option \<Rightarrow> bool \<Rightarrow> (cache \<Rightarrow> cache) \<Rightarrow> ioxd_static \<Rightarrow> fs \<Rightarrow> nat \<Rightarrow> ctx \<Rightarrow> nat \<Rightarrow> cache \<Rightarrow>
  (bool \<times> ctx \<times> nat \<times> cache) option" where
  "ioxd_static_serve strtod_l calloc_ok meanwhile st d fresh cx t c =
     (case under_mount st (rq_path (cx_req cx)) of
        None \<Rightarrow> Some (False, cx, t, c)
      | Some path \<Rightarrow>
          (case resolve st path True of
             None \<Rightarrow> Some (True, upd_res (\<lambda>r. r\<lparr>rs_status := 404\<rparr>) cx, t, c)
           | Some name \<Rightarrow> do { (cx, t, c) \<leftarrow> serve_static strtod_l calloc_ok meanwhile st d fresh name cx t c; Some (True, cx, t, c) }))"

definition ioxd_static_file :: "(bytes \<Rightarrow> 'd::{zero,one,linorder} \<times> nat \<times> bool) option \<Rightarrow> bool \<Rightarrow> (cache \<Rightarrow> cache) \<Rightarrow> ioxd_static \<Rightarrow> fs \<Rightarrow> nat \<Rightarrow> bytes option \<Rightarrow> ctx \<Rightarrow> nat \<Rightarrow> cache \<Rightarrow>
  (ctx \<times> nat \<times> cache) option" where
  "ioxd_static_file strtod_l calloc_ok meanwhile st d fresh name cx t c =
     (case (case name of None \<Rightarrow> None | Some name \<Rightarrow> resolve st name False) of
        None \<Rightarrow> Some (upd_res (\<lambda>r. r\<lparr>rs_status := 404\<rparr>) cx, t, c)
      | Some rel \<Rightarrow> serve_static strtod_l calloc_ok meanwhile st d fresh rel cx t c)"


section \<open>What a request finds\<close>

text \<open>
  An honest disk: the version of a file (device, inode, size and time) determines its bytes, as many as the size says, and a
  read of an open file gives some of them from where it was asked to.
\<close>

definition honest :: "fs \<Rightarrow> (stat \<Rightarrow> bytes) \<Rightarrow> bool" where
  "honest d content \<longleftrightarrow>
     (\<forall>s. length (content s) = st_size s) \<and> (\<forall>s s'. same_version s s' \<longrightarrow> content s = content s') \<and>
     (\<forall>t t' name sb n off b. fs_open d t name = Some sb \<longrightarrow> fs_read d t' (t, name) n off = Some b \<longrightarrow>
        length b \<le> n \<and> b = take (length b) (drop off (content sb)))"

definition truthful :: "(stat \<Rightarrow> bytes) \<Rightarrow> entry \<Rightarrow> bool" where
  "truthful content e \<longleftrightarrow> e_v e PLAIN = Some (content (e_stat e)) \<and> (e_etag e, e_modified e) = stamp (e_stat e) \<and> e_type e = type_of (e_name e)"

text \<open>The table as the requests of a worker leave it, and what the other coroutines do to it while one waits.\<close>

definition sound :: "nat \<Rightarrow> (stat \<Rightarrow> bytes) \<Rightarrow> cache \<Rightarrow> bool" where
  "sound B content c \<longleftrightarrow> (\<exists>rs. cache_run B c rs) \<and> (\<forall>a \<in> alloced c. truthful content (store c a))"

definition others_keep :: "nat \<Rightarrow> (stat \<Rightarrow> bytes) \<Rightarrow> nat \<Rightarrow> (cache \<Rightarrow> cache) \<Rightarrow> bool" where
  "others_keep B content fresh meanwhile \<longleftrightarrow>
     (\<forall>c. sound B content c \<longrightarrow> fresh \<notin> alloced c \<longrightarrow> sound B content (meanwhile c) \<and> fresh \<notin> alloced (meanwhile c))"

text \<open>The disk reported the version of an entry between two calls.\<close>

definition seen :: "fs \<Rightarrow> nat \<Rightarrow> nat \<Rightarrow> entry \<Rightarrow> bool" where
  "seen d t t' e \<longleftrightarrow> (\<exists>t0 sb. t \<le> t0 \<and> t0 < t' \<and> (fs_open d t0 (e_name e) = Some sb \<or> fs_stat d t0 (e_name e) = Some sb) \<and>
     st_isreg sb \<and> same_version sb (e_stat e))"

lemma read_whole_ok:
  assumes "honest d content" and "fs_open d t0 name = Some sb"
  shows "read_whole d (t0, name) (st_size sb) got t = (Some b, t') \<Longrightarrow> got = take (length got) (content sb) \<Longrightarrow> b = content sb"
proof (induction "st_size sb - length got" arbitrary: got t rule: less_induct)
  case less
  have len: "length (content sb) = st_size sb" using assms(1) by (simp add: honest_def)
  show ?case
  proof (cases "length got < st_size sb")
    case False
    then have "b = got" using less.prems(1) by (simp add: read_whole.simps)
    then show ?thesis using less.prems(2) False len by simp
  next
    case True
    then obtain p where p: "fs_read d t (t0, name) (st_size sb - length got) (length got) = Some p" "p \<noteq> []"
      "read_whole d (t0, name) (st_size sb) (got @ p) (t + 1) = (Some b, t')"
      using less.prems(1) by (subst (asm) read_whole.simps) (auto split: option.splits if_splits)
    have "length p \<le> st_size sb - length got" "p = take (length p) (drop (length got) (content sb))"
      using assms p(1) unfolding honest_def by blast+
    then have "got @ p = take (length (got @ p)) (content sb)"
      using less.prems(2) by (simp add: take_add)
    moreover have "st_size sb - length (got @ p) < st_size sb - length got" using p(2) True by (simp add: diff_less_mono2)
    ultimately show ?thesis using less.hyps[OF _ p(3)] by blast
  qed
qed

lemma read_entry_ok:
  assumes h: "honest d content" "fs_open d t0 name = Some sb" and r: "read_entry st d name (t0, name) sb t = (Some e, t')"
  shows "truthful content e" "e_name e = name" "e_stat e = sb" "e_hash e = hash_of (e_name e)" "\<not> e_dropped e"
proof -
  obtain pl t1 where pl: "read_whole d (t0, name) (st_size sb) [] t = (Some pl, t1)"
    using r by (auto simp: read_entry_def split: prod.splits option.splits)
  have "pl = content sb" using read_whole_ok[OF h pl] by simp
  then show "truthful content e" "e_name e = name" "e_stat e = sb" "e_hash e = hash_of (e_name e)" "\<not> e_dropped e"
    using r pl unfolding read_entry_def truthful_def Let_def
    by (auto split: prod.splits option.splits)
qed

lemma open_file_ok:
  assumes "open_file st d name t = (Some (fd, name', sb), t')"
  shows "\<exists>t0. fd = (t0, name') \<and> fs_open d t0 name' = Some sb \<and> t \<le> t0 \<and> t0 < t'" "st_isreg sb" "name' = name \<or> name' = name @ ''/'' @ s_index st"
  using assms by (auto simp: open_file_def Let_def split: option.splits if_splits)

lemma open_file_time: "open_file st d name t = (r, t') \<Longrightarrow> t < t'"
  by (auto simp: open_file_def Let_def split: option.splits if_splits)

lemma read_whole_time: "read_whole d fd sz got t = (r, t') \<Longrightarrow> t \<le> t'"
proof (induction d fd sz got t rule: read_whole.induct)
  case (1 d fd sz got t)
  have "t + 1 \<le> t'" if "length got < sz" "fs_read d t fd (sz - length got) (length got) = Some b" "b \<noteq> []" for b
    using 1 that by (simp add: read_whole.simps[of d fd sz got])
  then show ?case using "1.prems" by (cases "length got < sz"; force simp: read_whole.simps[of d fd sz got] split: option.splits if_splits)
qed

lemma twin_time: "twin st d name v t = (r, t') \<Longrightarrow> t \<le> t'"
  by (auto simp: twin_def split: option.splits if_splits dest!: read_whole_time)

lemma read_entry_time: "read_entry st d name fd sb t = (r, t') \<Longrightarrow> t \<le> t'"
  by (auto simp: read_entry_def Let_def split: prod.splits option.splits if_splits dest!: read_whole_time twin_time)

lemma current_step:
  assumes s: "sound B content c" "a \<in> alloced c" and r: "current st d a t c = (is_cur, t', c')"
  shows "sound B content c'" "alloced c' = alloced c" "e_name (store c' a) = e_name (store c a)" "t \<le> t'"
    "is_cur \<Longrightarrow> s_revalidate_ms st = 0 \<Longrightarrow> seen d t t' (store c' a)" "cache_run B c rs \<Longrightarrow> cache_run B c' rs"
proof -
  have c': "c' = c \<or> (\<exists>now. c' = upd_e a (\<lambda>e. e\<lparr>e_checked_at := now\<rparr>) c)"
    using r by (auto simp: current_def Let_def split: if_splits)
  show "cache_run B c rs \<Longrightarrow> cache_run B c' rs" for rs using c' s(2) cache_run.check by blast
  then show "sound B content c'" using c' s(1) by (auto simp: sound_def truthful_def)
  show "alloced c' = alloced c" "e_name (store c' a) = e_name (store c a)" using c' by auto
  show "t \<le> t'" using r by (auto simp: current_def Let_def split: if_splits)
  show "seen d t t' (store c' a)" if "is_cur" "s_revalidate_ms st = 0"
    using r that by (fastforce simp: current_def Let_def seen_def split: option.splits)
qed


lemma sound_run:
  assumes "sound B content c"
  obtains rs where "cache_run B c rs" "kept {} c rs" "c_budget c = B"
  using assms cache_run_kept unfolding sound_def by blast

lemma lookup_sound:
  assumes "sound B content c"
  shows "\<exists>r. lookup c name (hash_of name) = Some r \<and> (\<forall>a. r = Some a \<longrightarrow> (\<exists>rs. cache_run B c rs \<and> a \<in> set rs) \<and> a \<in> alloced c \<and> e_name (store c a) = name)"
proof -
  obtain rs where rs: "cache_run B c rs" "kept {} c rs" using assms by (rule sound_run)
  have "set rs \<subseteq> alloced c" using rs(2) by (auto simp: kept_def owned_def)
  moreover obtain r where "lookup c name (hash_of name) = Some r" "case r of None \<Rightarrow> \<forall>a \<in> set rs. e_name (store c a) \<noteq> name | Some a \<Rightarrow> a \<in> set rs \<and> e_name (store c a) = name"
    using lookup_ok[OF rs(2)] by blast
  ultimately show ?thesis using rs(1) by (cases r) auto
qed

lemma truthful_data: "data e = data e' \<Longrightarrow> truthful content e = truthful content e'"
  using data_fields[of e e'] by (simp add: truthful_def)

lemma drop_sound:
  assumes s: "sound B content c" and rs: "cache_run B c rs" "a \<in> set rs"
  shows "\<exists>c'. drop_entry a c = Some c' \<and> sound B content c' \<and> alloced c' \<subseteq> alloced c"
proof -
  have K: "kept {} c rs" using cache_run_kept[OF rs(1)] by simp
  obtain xs ys where "rs = xs @ a # ys" using split_list[OF rs(2)] by blast
  then obtain c' where c': "drop_entry a c = Some c'" "frees_unread c c'" using drop_entry_ok[of "{}" c xs a ys] K by blast
  then have d: "data (store c' b) = data (store c b)" "alloced c' \<subseteq> alloced c" for b by (auto simp: frees_unread_def)
  have "truthful content (store c' b)" if "b \<in> alloced c'" for b using s that d(2) truthful_data[OF d(1)] by (auto simp: sound_def)
  then show ?thesis using c'(1) d(2) cache_run.drop[OF rs c'(1)] by (auto simp: sound_def)
qed

lemma touch_sound:
  assumes s: "sound B content c" and rs: "cache_run B c rs" "a \<in> set rs"
  shows "sound B content (touch a c)" "alloced (touch a c) = alloced c" "data (store (touch a c) a) = data (store c a)"
proof -
  have K: "kept {} c rs" using cache_run_kept[OF rs(1)] by simp
  obtain xs ys where "rs = xs @ a # ys" using split_list[OF rs(2)] by blast
  then have R: "relinks c (touch a c)" using touch_ok(2)[of "{}" c xs a ys] K by blast
  have d: "data (store (touch a c) b) = data (store c b)" for b by (rule data_payload) (use R in \<open>simp add: relinks_def\<close>)
  show al: "alloced (touch a c) = alloced c" using R by (simp add: relinks_def)
  have "truthful content (store (touch a c) b)" if "b \<in> alloced c" for b using s that truthful_data[OF d] by (simp add: sound_def)
  then show "sound B content (touch a c)" using al cache_run.touch[OF rs] by (auto simp: sound_def)
  show "data (store (touch a c) a) = data (store c a)" by (rule d)
qed

lemma keep_sound:
  assumes s: "sound B content c" "a \<notin> alloced c" and e: "e_hash e = hash_of (e_name e)" "\<not> e_dropped e" "truthful content e"
  shows "\<exists>c'. keep_entry calloc_ok a e c = Some c' \<and> sound B content c' \<and> a \<in> alloced c' \<and> data (store c' a) = data e"
proof -
  obtain rs where rs: "cache_run B c rs" "kept {} c rs" "c_budget c = B" using s(1) by (rule sound_run)
  let ?l = "if e_bytes e \<le> B then a # evict B (e_bytes e) (\<lambda>b. e_bytes (store c b)) rs else rs"
  obtain c' where c': "keep_entry calloc_ok a e c = Some c'" "kept {} c' ?l" "data (store c' a) = data e"
    "\<And>b. b \<noteq> a \<Longrightarrow> data (store c' b) = data (store c b)" "alloced c' \<subseteq> insert a (alloced c)"
    using keep_entry_ok[OF rs(2) s(2) e(1,2), of calloc_ok] rs(3) by auto
  have "a \<in> alloced c'"
  proof (cases "e_bytes e \<le> B")
    case True
    then show ?thesis using c'(2) by (simp add: kept_def owned_def)
  next
    case False
    then show ?thesis using c'(1) rs(3) by (auto simp: keep_entry_def)
  qed
  moreover have "truthful content (store c' b)" if "b \<in> alloced c'" for b
    using that c'(5) s(1) e(3) truthful_data[OF c'(3)] truthful_data[OF c'(4)] by (cases "b = a") (auto simp: sound_def)
  moreover have "cache_run B c' ?l" using cache_run.keep[OF rs(1) s(2) e(1,2) c'(1)] .
  ultimately show ?thesis using c'(1,3) unfolding sound_def by blast
qed


text \<open>What a request found, judged against the disk.\<close>

definition found_right :: "ioxd_static \<Rightarrow> fs \<Rightarrow> (stat \<Rightarrow> bytes) \<Rightarrow> bytes \<Rightarrow> nat \<Rightarrow> nat \<Rightarrow> cache \<Rightarrow> found \<Rightarrow> bool" where
  "found_right st d content name t t' c f =
     (case f of
        Entry a \<Rightarrow> a \<in> alloced c \<and> truthful content (store c a) \<and> (e_name (store c a) = name \<or> e_name (store c a) = name @ ''/'' @ s_index st) \<and>
          (s_revalidate_ms st = 0 \<longrightarrow> seen d t t' (store c a))
      | Streamed fd name' sb \<Rightarrow> (\<exists>t0. t \<le> t0 \<and> fd = (t0, name') \<and> fs_open d t0 name' = Some sb) \<and> (name' = name \<or> name' = name @ ''/'' @ s_index st) \<and>
          st_isreg sb \<and> s_file_max st < st_size sb
      | Status s \<Rightarrow> (s = 404 \<and> (\<exists>t0 \<ge> t. fst (open_file st d name t0) = None)) \<or>
          (s = 500 \<and> (\<exists>t0 t1 name' sb. t \<le> t0 \<and> fs_open d t0 name' = Some sb \<and> fst (read_whole d (t0, name') (st_size sb) [] t1) = None)))"

lemma found_right_mono: "found_right st d content name t t' c f \<Longrightarrow> t0 \<le> t \<Longrightarrow> found_right st d content name t0 t' c f"
proof (cases f)
  case (Entry a)
  assume "found_right st d content name t t' c f" and "t0 \<le> t"
  then show ?thesis unfolding found_right_def Entry found.case seen_def by (meson order_trans)
next
  case (Streamed fd name' sb)
  assume "found_right st d content name t t' c f" and "t0 \<le> t"
  then show ?thesis unfolding found_right_def Streamed found.case by (metis order_trans)
next
  case (Status s)
  assume "found_right st d content name t t' c f" and "t0 \<le> t"
  then show ?thesis unfolding found_right_def Status found.case by (meson order_trans)
qed

text \<open>An entry of the table, checked: it is served, or dropped and the search goes on.\<close>

lemma revalidate:
  assumes s: "sound B content c" and a: "cache_run B c rs" "a \<in> set rs" and n: "e_name (store c a) = name \<or> e_name (store c a) = name @ ''/'' @ s_index st"
    and r: "current st d a t c = (is_cur, t', c')"
  shows "t \<le> t'" "is_cur \<Longrightarrow> sound B content (touch a c') \<and> found_right st d content name t t' (touch a c') (Entry a)"
    "\<exists>c2. drop_entry a c' = Some c2 \<and> sound B content c2 \<and> alloced c2 \<subseteq> alloced c"
proof -
  have al: "a \<in> alloced c" using cache_run_kept[OF a(1)] a(2) by (auto simp: kept_def owned_def)
  note C = current_step[OF s al r]
  show "t \<le> t'" by (rule C(4))
  note T = touch_sound[OF C(1) C(6)[OF a(1)] a(2)]
  show "\<exists>c2. drop_entry a c' = Some c2 \<and> sound B content c2 \<and> alloced c2 \<subseteq> alloced c" using drop_sound[OF C(1) C(6)[OF a(1)] a(2)] C(2) by simp
  show "sound B content (touch a c') \<and> found_right st d content name t t' (touch a c') (Entry a)" if "is_cur"
  proof -
    have "truthful content (store (touch a c') a)" using T(1,2) C(2) al by (simp add: sound_def)
    moreover have "e_name (store (touch a c') a) = e_name (store c a)" "e_stat (store (touch a c') a) = e_stat (store c' a)"
      using data_fields(1,3)[OF T(3)] C(3) by simp_all
    moreover have "s_revalidate_ms st = 0 \<Longrightarrow> seen d t t' (store c' a)" using C(5) that by blast
    ultimately show ?thesis using T(1,2) C(2,3) al n by (auto simp: found_right_def seen_def)
  qed
qed


lemma on_disk_right:
  assumes s: "sound B content c" "fresh \<notin> alloced c" and h: "honest d content" and m: "others_keep B content fresh meanwhile"
  shows "\<exists>f t' c'. find_on_disk calloc_ok meanwhile st d fresh name t c = Some (f, t', c') \<and> sound B content c' \<and> found_right st d content name t t' c' f"
proof (cases "fst (open_file st d name t)")
  case None
  then obtain t1 where "open_file st d name t = (None, t1)" by (cases "open_file st d name t") auto
  then show ?thesis using s(1) None by (auto simp: find_on_disk_def found_right_def)
next
  case (Some o3)
  then obtain fd name' sb t1 where o: "open_file st d name t = (Some (fd, name', sb), t1)" by (cases "open_file st d name t"; cases o3) auto
  obtain t0 where fd: "fd = (t0, name')" "fs_open d t0 name' = Some sb" "t \<le> t0" "t0 < t1" using open_file_ok(1)[OF o] by blast
  note reg = open_file_ok(2,3)[OF o]
  define rest where "rest t c = (if st_size sb > s_file_max st then Some (Streamed fd name' sb, t, c)
    else (case read_entry st d name' fd sb t of (None, t) \<Rightarrow> Some (Status 500, t, meanwhile c)
      | (Some e, t) \<Rightarrow> do { c \<leftarrow> keep_entry calloc_ok fresh e (meanwhile c); Some (Entry fresh, t, c) }))" for t c
  have rest: "\<exists>f t' c'. rest t2 c2 = Some (f, t', c') \<and> sound B content c' \<and> found_right st d content name t t' c' f"
    if c2: "sound B content c2" "fresh \<notin> alloced c2" "t1 \<le> t2" for t2 c2
  proof (cases "st_size sb > s_file_max st")
    case True
    then show ?thesis using c2(1) fd reg by (auto simp: rest_def found_right_def)
  next
    case False
    have M: "sound B content (meanwhile c2)" "fresh \<notin> alloced (meanwhile c2)" using m c2(1,2) by (auto simp: others_keep_def)
    obtain r t3 where r: "read_entry st d name' fd sb t2 = (r, t3)" by fastforce
    show ?thesis
    proof (cases r)
      case None
      then have "fst (read_whole d (t0, name') (st_size sb) [] t2) = None"
        using r fd(1) by (auto simp: read_entry_def Let_def split: prod.splits option.splits)
      then show ?thesis using False r None M fd by (auto simp: rest_def found_right_def)
    next
      case (Some e)
      note E = read_entry_ok[OF h fd(2) r[unfolded fd(1) Some]]
      obtain c3 where c3: "keep_entry calloc_ok fresh e (meanwhile c2) = Some c3" "sound B content c3" "fresh \<in> alloced c3" "data (store c3 fresh) = data e"
        using keep_sound[OF M E(4,5,1)] by blast
      have n: "e_name (store c3 fresh) = name'" "e_stat (store c3 fresh) = sb" using data_fields(1,3)[OF c3(4)] E(2,3) by simp_all
      have "t0 < t3" using fd(4) c2(3) read_entry_time[OF r] by simp
      then have "seen d t t3 (store c3 fresh)" using fd(2,3) reg(1) n by (auto simp: seen_def same_version_def)
      then have "found_right st d content name t t3 c3 (Entry fresh)" using c3(2,3) n(1) reg(2) by (simp add: found_right_def sound_def)
      then show ?thesis using False r Some c3 by (auto simp: rest_def)
    qed
  qed
  have F: "find_on_disk calloc_ok meanwhile st d fresh name t c = do {
      e \<leftarrow> (if length name' \<noteq> length name then lookup c name' (hash_of name') else Some None);
      (hit, t, c) \<leftarrow> (case e of None \<Rightarrow> Some (None, t1, c) | Some a \<Rightarrow>
        (let (is_cur, t, c) = current st d a t1 c in if is_cur then Some (Some a, t, touch a c) else do { c \<leftarrow> drop_entry a c; Some (None, t, c) }));
      (case hit of Some a \<Rightarrow> Some (Entry a, t, c) | None \<Rightarrow> rest t c) }"
    unfolding find_on_disk_def o rest_def by simp
  obtain e where e: "(if length name' \<noteq> length name then lookup c name' (hash_of name') else Some None) = Some e"
    "\<And>a. e = Some a \<Longrightarrow> (\<exists>rs. cache_run B c rs \<and> a \<in> set rs) \<and> e_name (store c a) = name'"
    using lookup_sound[OF s(1), of name'] by (cases "length name' = length name") auto
  show ?thesis
  proof (cases e)
    case None
    then show ?thesis using F e(1) rest[OF s, of t1] by simp
  next
    case (Some a)
    obtain rs where a: "cache_run B c rs" "a \<in> set rs" "e_name (store c a) = name'" using e(2)[OF Some] by blast
    obtain is_cur t2 c2 where c2: "current st d a t1 c = (is_cur, t2, c2)" by (cases "current st d a t1 c") auto
    have nm: "e_name (store c a) = name \<or> e_name (store c a) = name @ ''/'' @ s_index st" using a(3) reg(2) by simp
    note V = revalidate[OF s(1) a(1,2) nm c2]
    show ?thesis
    proof (cases is_cur)
      case True
      then show ?thesis using F e(1) Some c2 V(2) found_right_mono[of st d content name t1 t2 "touch a c2" "Entry a" t] fd(3,4) by simp
    next
      case False
      obtain c3 where c3: "drop_entry a c2 = Some c3" "sound B content c3" "alloced c3 \<subseteq> alloced c" using V(3) by blast
      then have "find_on_disk calloc_ok meanwhile st d fresh name t c = rest t2 c3" using F e(1) Some c2 False by simp
      then show ?thesis using rest[OF c3(2) _ V(1)] c3(3) s(2) by auto
    qed
  qed
qed



definition one_file :: stat where
  "one_file = \<lparr>st_dev = 1, st_ino = 2, st_size = 3, st_sec = 0, st_nsec = 0, st_isdir = False, st_isreg = True\<rparr>"

definition one_disk :: fs where
  "one_disk = \<lparr>fs_open = (\<lambda>t name. if name = ''a'' then Some one_file else None), fs_stat = (\<lambda>t name. if name = ''a'' then Some one_file else None),
     fs_read = (\<lambda>t fd n off. Some (replicate (min n (3 - off)) CHR ''x'')), fs_now = (\<lambda>t. 0)\<rparr>"

definition no_options :: ioxd_static where
  "no_options = \<lparr>s_mount = [], s_index = [], s_cache_control = None, s_budget = 100, s_file_max = 50, s_revalidate_ms = 0, s_precompressed = False, s_hidden = False, s_slot = 0, s_gen = 1\<rparr>"






end
