(* ===== verification/Static_Store.thy ===== *)
theory Static_Store
  imports Static
begin

text \<open>
  The directories that are open and the tables the workers keep for them, \<^verbatim>\<open>lib/http/static.c\<close>: \<open>ioxd_static_open\<close>, \<open>cache_of\<close> and
  \<open>ioxd_static_close\<close>.  A directory has one of sixteen slots and the generation of the slot, 32 bits wide; a thread remembers per slot a
  table and the generation it was made for, and takes the table again only for the same generation.

  Directories and tables are addresses; those of \<open>handles\<close> and \<open>tables\<close> were allocated and not freed.  The mutexes make each
  operation here one step.
\<close>

abbreviation ROOTS :: nat where "ROOTS \<equiv> 16"
abbreviation CACHE_DEFAULT :: nat where "CACHE_DEFAULT \<equiv> 64 * 1024 * 1024"
abbreviation FILE_MAX_DEFAULT :: nat where "FILE_MAX_DEFAULT \<equiv> 8 * 1024 * 1024"

record ioxd_static_config =
  cf_dir :: "bytes option"
  cf_mount :: "bytes option"
  cf_index :: "bytes option"
  cf_cache_control :: "bytes option"
  cf_cache_bytes :: nat
  cf_cache_file_max :: nat
  cf_revalidate_ms :: nat
  cf_precompressed :: bool
  cf_hidden :: bool

record handle =
  h_st :: ioxd_static
  h_caches :: "nat list"

record stores =
  g_taken :: "bool list"
  g_gen :: "u32 list"
  tl_of :: "nat \<Rightarrow> (nat option \<times> u32) list"
  handles :: "nat \<rightharpoonup> handle"
  tables :: "nat \<rightharpoonup> cache"

definition no_stores :: stores where
  "no_stores = \<lparr>g_taken = replicate ROOTS False, g_gen = replicate ROOTS 0, tl_of = (\<lambda>th. replicate ROOTS (None, 0)), handles = Map.empty, tables = Map.empty\<rparr>"

fun free_slot :: "nat \<Rightarrow> bool list \<Rightarrow> nat option" where
  "free_slot i [] = None"
| "free_slot i (b # bs) = (if \<not> b then Some i else free_slot (Suc i) bs)"

definition ioxd_static_close :: "nat option \<Rightarrow> stores \<Rightarrow> stores" where
  "ioxd_static_close files s =
     (case files of
        None \<Rightarrow> s
      | Some h \<Rightarrow>
          (case handles s h of
             None \<Rightarrow> s
           | Some f \<Rightarrow>
               let i = s_slot (h_st f);
                   s = s\<lparr>g_taken := (g_taken s)[i := False], g_gen := (g_gen s)[i := g_gen s ! i + 1]\<rparr>;
                   s = s\<lparr>tables := tables s |` (- set (h_caches f))\<rparr>
               in s\<lparr>handles := (handles s)(h := None)\<rparr>))"

definition store_of :: "ioxd_static_config \<Rightarrow> nat \<Rightarrow> u32 \<Rightarrow> ioxd_static" where
  "store_of config slot gen =
     \<lparr>s_mount = mount_of (cf_mount config), s_index = (case cf_index config of None \<Rightarrow> ''index.html'' | Some i \<Rightarrow> i),
      s_cache_control = cf_cache_control config,
      s_budget = (if cf_cache_bytes config \<noteq> 0 then cf_cache_bytes config else CACHE_DEFAULT),
      s_file_max = (if cf_cache_file_max config \<noteq> 0 then cf_cache_file_max config else FILE_MAX_DEFAULT),
      s_revalidate_ms = cf_revalidate_ms config, s_precompressed = cf_precompressed config, s_hidden = cf_hidden config,
      s_slot = slot, s_gen = gen\<rparr>"

text \<open>The store is at \<open>h\<close> when \<open>calloc\<close> gives it; \<open>copies_ok\<close> says that the copies of the strings were made.\<close>

definition ioxd_static_open :: "bool \<Rightarrow> bool \<Rightarrow> bool \<Rightarrow> nat \<Rightarrow> ioxd_static_config \<Rightarrow> stores \<Rightarrow> nat option \<times> stores" where
  "ioxd_static_open dir_ok calloc_ok copies_ok h config s =
     (if cf_dir config = None \<or> cf_dir config = Some [] then (None, s)
      else if \<not> dir_ok then (None, s)
      else
        case free_slot 0 (g_taken s) of
          None \<Rightarrow> (None, s)
        | Some i \<Rightarrow>
            let s = s\<lparr>g_taken := (g_taken s)[i := True], g_gen := (g_gen s)[i := g_gen s ! i + 1]\<rparr>;
                gen = g_gen s ! i;
                st = store_of config i gen
            in if \<not> calloc_ok then (None, ioxd_static_close None s)
               else
                 let s = s\<lparr>handles := (handles s)(h \<mapsto> \<lparr>h_st = st, h_caches = []\<rparr>)\<rparr>
                 in if \<not> copies_ok then (None, ioxd_static_close (Some h) s) else (Some h, s))"

text \<open>The table of the thread \<open>th\<close> for a directory; a new one is at \<open>a\<close>, with whatever the memory held.\<close>

definition cache_of :: "bool \<Rightarrow> nat \<Rightarrow> (nat \<Rightarrow> entry) \<Rightarrow> nat \<Rightarrow> nat \<Rightarrow> stores \<Rightarrow> nat option \<times> stores" where
  "cache_of calloc_ok a mem th h s =
     (let f = the (handles s h); st = h_st f; (c, gen) = tl_of s th ! s_slot st in
      if c \<noteq> None \<and> gen = s_gen st then (c, s)
      else if \<not> calloc_ok then (None, s)
      else
        let s = s\<lparr>tables := (tables s)(a \<mapsto> new_cache (s_budget st) mem)\<rparr>;
            s = s\<lparr>handles := (handles s)(h \<mapsto> f\<lparr>h_caches := a # h_caches f\<rparr>)\<rparr>
        in (Some a, s\<lparr>tl_of := (tl_of s)(th := (tl_of s th)[s_slot st := (Some a, s_gen st)])\<rparr>))"


section \<open>A thread never takes a table of a closed directory\<close>

text \<open>The steps of a program on its directories, from any thread; \<open>n\<close> counts those that open or close, which advance a generation.\<close>

inductive store_run :: "nat \<Rightarrow> stores \<Rightarrow> bool" where
  start: "store_run 0 no_stores"
| open_dir: "store_run n s \<Longrightarrow> handles s h = None \<Longrightarrow> ioxd_static_open dir_ok calloc_ok copies_ok h config s = (r, s') \<Longrightarrow> store_run (n + 2) s'"
| close_dir: "store_run n s \<Longrightarrow> handles s h \<noteq> None \<Longrightarrow> store_run (n + 1) (ioxd_static_close (Some h) s)"
| use: "store_run n s \<Longrightarrow> handles s h \<noteq> None \<Longrightarrow> tables s a = None \<Longrightarrow> cache_of calloc_ok a mem th h s = (r, s') \<Longrightarrow> store_run n s'"

definition slots_ok :: "nat \<Rightarrow> stores \<Rightarrow> bool" where
  "slots_ok n s \<longleftrightarrow> length (g_taken s) = ROOTS \<and> length (g_gen s) = ROOTS \<and> (\<forall>i < ROOTS. unat (g_gen s ! i) \<le> n) \<and>
     (\<forall>h f. handles s h = Some f \<longrightarrow> s_slot (h_st f) < ROOTS \<and> g_taken s ! s_slot (h_st f) \<and> s_gen (h_st f) = g_gen s ! s_slot (h_st f) \<and>
        (\<forall>a \<in> set (h_caches f). tables s a \<noteq> None)) \<and>
     (\<forall>h h' f f'. handles s h = Some f \<longrightarrow> handles s h' = Some f' \<longrightarrow> h \<noteq> h' \<longrightarrow>
        s_slot (h_st f) \<noteq> s_slot (h_st f') \<and> set (h_caches f) \<inter> set (h_caches f') = {})"

lemma slots_okD:
  assumes "slots_ok n s" and "handles s h = Some f"
  shows "s_slot (h_st f) < ROOTS" "g_taken s ! s_slot (h_st f)" "s_gen (h_st f) = g_gen s ! s_slot (h_st f)" "\<And>a. a \<in> set (h_caches f) \<Longrightarrow> tables s a \<noteq> None"
    "\<And>h' f'. handles s h' = Some f' \<Longrightarrow> h' \<noteq> h \<Longrightarrow> s_slot (h_st f') \<noteq> s_slot (h_st f) \<and> set (h_caches f') \<inter> set (h_caches f) = {}"
  using assms unfolding slots_ok_def by blast+

text \<open>What the threads remember of a slot: no generation beyond its own, and of its own only tables of the directory that has it.\<close>

definition not_ahead :: "stores \<Rightarrow> nat \<Rightarrow> bool" where
  "not_ahead s i \<longleftrightarrow> (\<forall>th a g. tl_of s th ! i = (Some a, g) \<longrightarrow> unat g \<le> unat (g_gen s ! i))"

definition remembered_ok :: "stores \<Rightarrow> nat \<Rightarrow> bool" where
  "remembered_ok s i \<longleftrightarrow> not_ahead s i \<and>
     (\<forall>th a. tl_of s th ! i = (Some a, g_gen s ! i) \<longrightarrow> (\<exists>h f. handles s h = Some f \<and> s_slot (h_st f) = i \<and> a \<in> set (h_caches f)))"

definition threads_ok :: "stores \<Rightarrow> bool" where
  "threads_ok s \<longleftrightarrow> (\<forall>th. length (tl_of s th) = ROOTS) \<and> (\<forall>i < ROOTS. remembered_ok s i)"

lemma free_slot_ok: "free_slot k bs = Some i \<Longrightarrow> k \<le> i \<and> i < k + length bs \<and> \<not> bs ! (i - k)"
proof (induction bs arbitrary: k)
  case (Cons b bs)
  then show ?case by (fastforce simp: nth_Cons' split: if_splits)
qed simp

lemma unat_succ: "unat (w :: u32) \<le> n \<Longrightarrow> n + 1 < 2 ^ 32 \<Longrightarrow> unat (w + 1) = unat w + 1"
  by (rule unat_plus_simple[THEN iffD1, THEN trans]) (auto simp: word_le_nat_alt unat_word_ariths)


text \<open>A slot no open directory has is given its next generation; no thread has a table of it.\<close>

lemma advance_ok:
  fixes b :: bool
  assumes S: "slots_ok n s" and i: "i < ROOTS" and f: "\<And>h f. handles s h = Some f \<Longrightarrow> s_slot (h_st f) \<noteq> i" and n: "n + 1 < 2 ^ 32"
    and T: "\<And>th. length (tl_of s th) = ROOTS" "\<And>j. j < ROOTS \<Longrightarrow> j \<noteq> i \<Longrightarrow> remembered_ok s j" "not_ahead s i"
  defines "s' \<equiv> s\<lparr>g_taken := (g_taken s)[i := b], g_gen := (g_gen s)[i := g_gen s ! i + 1]\<rparr>"
  shows "slots_ok (n + 1) s'" "threads_ok s'"
proof -
  have L: "length (g_gen s) = ROOTS" "length (g_taken s) = ROOTS" and le: "\<And>j. j < ROOTS \<Longrightarrow> unat (g_gen s ! j) \<le> n" using S by (auto simp: slots_ok_def)
  have g: "unat (g_gen s ! i + 1) = unat (g_gen s ! i) + 1" using unat_succ[OF le[OF i] n] .
  have "unat ((g_gen s)[i := g_gen s ! i + 1] ! j) \<le> n + 1" if "j < ROOTS" for j using that le[OF that] le[OF i] g L i by (cases "j = i") auto
  moreover have "(g_gen s)[i := g_gen s ! i + 1] ! s_slot (h_st f) = g_gen s ! s_slot (h_st f)" "(g_taken s)[i := b] ! s_slot (h_st f) = g_taken s ! s_slot (h_st f)"
    if "handles s h = Some f" for h f using assms(3)[OF that] by auto
  ultimately show "slots_ok (n + 1) s'" using S by (auto simp: slots_ok_def s'_def)
  have "remembered_ok s' j" if "j < ROOTS" for j
  proof (cases "j = i")
    case True
    have lt: "unat w < unat (g_gen s ! i + 1)" if "tl_of s th ! i = (Some a, w)" for th a w using T(3) that g by (fastforce simp: not_ahead_def)
    show ?thesis using lt L i True unfolding remembered_ok_def not_ahead_def s'_def by (auto intro: less_imp_le) blast
  next
    case False
    then show ?thesis using T(2)[OF that False] by (simp add: remembered_ok_def not_ahead_def s'_def)
  qed
  then show "threads_ok s'" using T(1) by (simp add: threads_ok_def s'_def)
qed

text \<open>A directory is forgotten, and its tables with it.\<close>

lemma forget_ok:
  assumes S: "slots_ok n s" and T: "threads_ok s" and h: "handles s h = Some f" and n: "n + 1 < 2 ^ 32"
  shows "slots_ok (n + 1) (ioxd_static_close (Some h) s)" "threads_ok (ioxd_static_close (Some h) s)"
proof -
  let ?i = "s_slot (h_st f)"
  define s1 where "s1 = s\<lparr>handles := (handles s)(h := None), tables := tables s |` (- set (h_caches f))\<rparr>"
  have s': "ioxd_static_close (Some h) s = s1\<lparr>g_taken := (g_taken s1)[?i := False], g_gen := (g_gen s1)[?i := g_gen s1 ! ?i + 1]\<rparr>"
    using h by (simp add: s1_def ioxd_static_close_def Let_def)
  have i: "?i < ROOTS" using S h by (auto simp: slots_ok_def)
  have o: "s_slot (h_st f') \<noteq> ?i" "set (h_caches f') \<inter> set (h_caches f) = {}" if "handles s h' = Some f'" "h' \<noteq> h" for h' f'
    using S h that unfolding slots_ok_def by blast+
  have S1: "slots_ok n s1" unfolding slots_ok_def
  proof (intro conjI allI impI)
    fix h' f' assume f': "handles s1 h' = Some f'"
    then have f'': "handles s h' = Some f'" "h' \<noteq> h" by (auto simp: s1_def split: if_splits)
    show "\<forall>a \<in> set (h_caches f'). tables s1 a \<noteq> None" using S f'' o(2)[OF f''] by (auto simp: slots_ok_def s1_def restrict_map_def)
  qed (use S in \<open>auto simp: slots_ok_def s1_def split: if_splits\<close>)
  have "remembered_ok s1 j" if "j < ROOTS" "j \<noteq> ?i" for j
  proof -
    have "remembered_ok s j" using T that(1) by (simp add: threads_ok_def)
    moreover have "\<exists>h' f'. handles s1 h' = Some f' \<and> s_slot (h_st f') = j \<and> a \<in> set (h_caches f')"
      if "handles s h' = Some f'" "s_slot (h_st f') = j" "a \<in> set (h_caches f')" for h' f' a
      using that h \<open>j \<noteq> ?i\<close> by (intro exI[of _ h'] exI[of _ f']) (auto simp: s1_def)
    moreover have "tl_of s1 = tl_of s" "g_gen s1 = g_gen s" by (simp_all add: s1_def)
    ultimately show ?thesis unfolding remembered_ok_def not_ahead_def by metis
  qed
  moreover have "not_ahead s1 ?i" using T i by (simp add: threads_ok_def remembered_ok_def not_ahead_def s1_def)
  moreover have "s_slot (h_st f') \<noteq> ?i" if "handles s1 h' = Some f'" for h' f' using o(1) that by (auto simp: s1_def split: if_splits)
  ultimately show "slots_ok (n + 1) (ioxd_static_close (Some h) s)" "threads_ok (ioxd_static_close (Some h) s)"
    using advance_ok[OF S1 i _ n, of False] T unfolding s' by (auto simp: threads_ok_def s1_def)
qed


lemma open_ok:
  assumes S: "slots_ok n s" and T: "threads_ok s" and h: "handles s h = None" and n: "n + 2 < 2 ^ 32"
    and r: "ioxd_static_open dir_ok calloc_ok copies_ok h config s = (r, s')"
  shows "slots_ok (n + 2) s' \<and> threads_ok s'"
proof -
  have weaken: "slots_ok m s0 \<Longrightarrow> m \<le> n + 2 \<Longrightarrow> slots_ok (n + 2) s0" for m s0 unfolding slots_ok_def by (meson order_trans)
  show ?thesis
  proof (cases "s' = s")
    case True
    then show ?thesis using weaken[OF S] T by simp
  next
    case False
    then obtain i where i: "free_slot 0 (g_taken s) = Some i"
      using r by (auto simp: ioxd_static_open_def split: if_splits option.splits)
    have lt: "i < ROOTS" "\<not> g_taken s ! i" using free_slot_ok[OF i] S by (auto simp: slots_ok_def)
    define s1 where "s1 = s\<lparr>g_taken := (g_taken s)[i := True], g_gen := (g_gen s)[i := g_gen s ! i + 1]\<rparr>"
    have free: "s_slot (h_st f) \<noteq> i" if "handles s h' = Some f" for h' f using S that lt(2) by (auto simp: slots_ok_def)
    have A: "slots_ok (n + 1) s1" "threads_ok s1"
      using advance_ok[OF S lt(1) free, where b = True] T n lt(1) unfolding s1_def threads_ok_def by (auto simp: remembered_ok_def)
    define st where "st = store_of config i (g_gen s1 ! i)"
    have st: "s_slot st = i" "s_gen st = g_gen s1 ! i" by (simp_all add: st_def store_of_def)
    have s': "s' = (if calloc_ok then if copies_ok then s1\<lparr>handles := (handles s1)(h \<mapsto> \<lparr>h_st = st, h_caches = []\<rparr>)\<rparr>
        else ioxd_static_close (Some h) (s1\<lparr>handles := (handles s1)(h \<mapsto> \<lparr>h_st = st, h_caches = []\<rparr>)\<rparr>) else s1)"
      using r False i by (auto simp: ioxd_static_open_def Let_def s1_def st_def ioxd_static_close_def[of None] split: if_splits)
    define s2 where "s2 = s1\<lparr>handles := (handles s1)(h \<mapsto> \<lparr>h_st = st, h_caches = []\<rparr>)\<rparr>"
    have h1: "handles s1 = handles s" and i1: "g_taken s1 ! i" using lt S by (auto simp: s1_def slots_ok_def)
    have S2: "slots_ok (n + 1) s2" unfolding slots_ok_def
    proof (intro conjI allI impI)
      have st1: "s_slot st \<noteq> s_slot (h_st f)" if "handles s1 h' = Some f" for h' f using free that h1 st(1) by metis
      fix h1 h2 f1 f2 assume "handles s2 h1 = Some f1" "handles s2 h2 = Some f2" "h1 \<noteq> h2"
      then show "s_slot (h_st f1) \<noteq> s_slot (h_st f2)" "set (h_caches f1) \<inter> set (h_caches f2) = {}"
        using st1[of h1 f1] st1[of h2 f2] slots_okD(5)[OF A(1), of h2 f2 h1 f1] by (auto simp: s2_def split: if_splits)
    next
      fix h' f' assume "handles s2 h' = Some f'"
      then show "s_slot (h_st f') < ROOTS" "g_taken s2 ! s_slot (h_st f')" "s_gen (h_st f') = g_gen s2 ! s_slot (h_st f')" "\<forall>a \<in> set (h_caches f'). tables s2 a \<noteq> None"
        using slots_okD(1-4)[OF A(1)] st lt(1) i1 by (auto simp: s2_def split: if_splits)
    qed (use A(1) in \<open>auto simp: slots_ok_def s2_def\<close>)
    have T2: "threads_ok s2"
    proof -
      have "handles s2 h' = Some f" if "handles s1 h' = Some f" for h' f using that h h1 by (auto simp: s2_def)
      moreover have e: "tl_of s2 = tl_of s1" "g_gen s2 = g_gen s1" by (simp_all add: s2_def)
      ultimately have "remembered_ok s1 j \<Longrightarrow> remembered_ok s2 j" for j unfolding remembered_ok_def not_ahead_def e by meson
      then show ?thesis using A(2) e(1) by (simp add: threads_ok_def)
    qed
    have "handles s2 h = Some \<lparr>h_st = st, h_caches = []\<rparr>" by (simp add: s2_def)
    then have "slots_ok (n + 1 + 1) (ioxd_static_close (Some h) s2)" "threads_ok (ioxd_static_close (Some h) s2)"
      using forget_ok[OF S2 T2] n by simp_all
    then show ?thesis using s' A S2 T2 weaken[of "n + 1"] unfolding s2_def by (simp split: if_splits)
  qed
qed

lemma new_table_ok:
  fixes c :: cache and th :: nat
  assumes S: "slots_ok n s" and T: "threads_ok s" and h: "handles s h = Some f" and a: "tables s a = None"
  defines "s' \<equiv> s\<lparr>tables := (tables s)(a \<mapsto> c), handles := (handles s)(h \<mapsto> f\<lparr>h_caches := a # h_caches f\<rparr>),
    tl_of := (tl_of s)(th := (tl_of s th)[s_slot (h_st f) := (Some a, s_gen (h_st f))])\<rparr>"
  shows "slots_ok n s'" "threads_ok s'"
proof -
  let ?i = "s_slot (h_st f)"
  note s' = s'_def and g = slots_okD(3)[OF S h]
  have na: "a \<notin> set (h_caches f')" if "handles s h' = Some f'" for h' f' using slots_okD(4)[OF S that] a by blast
  have F: "handles s' h' = Some f' \<Longrightarrow> \<exists>f0. handles s h' = Some f0 \<and> h_st f' = h_st f0 \<and> set (h_caches f') = (if h' = h then {a} else {}) \<union> set (h_caches f0)" for h' f'
    using h by (auto simp: s' split: if_splits)
  show "slots_ok n s'" unfolding slots_ok_def
  proof (intro conjI allI impI)
    fix h1 h2 f1 f2 assume as: "handles s' h1 = Some f1" "handles s' h2 = Some f2" "h1 \<noteq> h2"
    then obtain g1 g2 where "handles s h1 = Some g1" "h_st f1 = h_st g1" "set (h_caches f1) = (if h1 = h then {a} else {}) \<union> set (h_caches g1)"
      "handles s h2 = Some g2" "h_st f2 = h_st g2" "set (h_caches f2) = (if h2 = h then {a} else {}) \<union> set (h_caches g2)" using F by metis
    moreover from this have "s_slot (h_st g1) \<noteq> s_slot (h_st g2)" "set (h_caches g1) \<inter> set (h_caches g2) = {}" using S as(3) unfolding slots_ok_def by blast+
    ultimately show "s_slot (h_st f1) \<noteq> s_slot (h_st f2)" "set (h_caches f1) \<inter> set (h_caches f2) = {}" using na as(3) by (auto split: if_splits)
  next
    fix h' f' assume "handles s' h' = Some f'"
    then show "s_slot (h_st f') < ROOTS" "g_taken s' ! s_slot (h_st f')" "s_gen (h_st f') = g_gen s' ! s_slot (h_st f')" "\<forall>a \<in> set (h_caches f'). tables s' a \<noteq> None"
      using slots_okD(1-4)[OF S] h by (auto simp: s' split: if_splits)
  qed (use S in \<open>auto simp: slots_ok_def s'\<close>)
  have "remembered_ok s' j" if j: "j < ROOTS" for j
  proof -
    have R: "remembered_ok s j" and L: "length (tl_of s th) = ROOTS" using T j by (auto simp: threads_ok_def)
    have tl: "tl_of s' t ! j = (if t = th \<and> j = ?i then (Some a, g_gen s ! ?i) else tl_of s t ! j)" for t using j L g by (simp add: s')
    have up: "\<exists>h0 f0. handles s' h0 = Some f0 \<and> s_slot (h_st f0) = j \<and> b \<in> set (h_caches f0)"
      if "handles s h' = Some f'" "s_slot (h_st f') = j" "b \<in> set (h_caches f')" for h' f' b
      using that h by (intro exI[of _ h'] exI[of _ "if h' = h then f\<lparr>h_caches := a # h_caches f\<rparr> else f'"]) (auto simp: s')
    have "\<exists>h0 f0. handles s' h0 = Some f0 \<and> s_slot (h_st f0) = ?i \<and> a \<in> set (h_caches f0)"
      by (intro exI[of _ h] exI[of _ "f\<lparr>h_caches := a # h_caches f\<rparr>"]) (simp add: s')
    moreover have "g_gen s' = g_gen s" by (simp add: s')
    moreover have "\<exists>h0 f0. handles s' h0 = Some f0 \<and> s_slot (h_st f0) = j \<and> b \<in> set (h_caches f0)" if "tl_of s t ! j = (Some b, g_gen s ! j)" for t b
      using R up that unfolding remembered_ok_def by meson
    ultimately show ?thesis using R unfolding remembered_ok_def not_ahead_def tl by (auto split: if_splits)
  qed
  moreover have "length (tl_of s' t) = ROOTS" for t using T by (simp add: threads_ok_def s')
  ultimately show "threads_ok s'" by (simp add: threads_ok_def)
qed

lemma use_ok:
  assumes S: "slots_ok n s" and T: "threads_ok s" and h: "handles s h = Some f" and a: "tables s a = None"
    and r: "cache_of calloc_ok a mem th h s = (r, s')"
  shows "slots_ok n s'" "threads_ok s'"
    "case r of None \<Rightarrow> \<not> calloc_ok | Some t \<Rightarrow> tables s' t \<noteq> None \<and> (\<exists>f'. handles s' h = Some f' \<and> t \<in> set (h_caches f') \<and> h_st f' = h_st f)"
proof -
  let ?i = "s_slot (h_st f)"
  have i: "?i < ROOTS" and g: "s_gen (h_st f) = g_gen s ! ?i" using S h by (auto simp: slots_ok_def)
  obtain c w where cw: "tl_of s th ! ?i = (c, w)" by fastforce
  have "slots_ok n s' \<and> threads_ok s' \<and> (case r of None \<Rightarrow> \<not> calloc_ok | Some t \<Rightarrow> tables s' t \<noteq> None \<and> (\<exists>f'. handles s' h = Some f' \<and> t \<in> set (h_caches f') \<and> h_st f' = h_st f))"
  proof (cases "c \<noteq> None \<and> w = s_gen (h_st f)")
    case True
    then obtain t where t: "c = Some t" by blast
    have "remembered_ok s ?i" using T i by (simp add: threads_ok_def)
    moreover have "tl_of s th ! ?i = (Some t, g_gen s ! ?i)" using cw t True g by simp
    ultimately obtain h' f' where "handles s h' = Some f'" "s_slot (h_st f') = ?i" "t \<in> set (h_caches f')"
      unfolding remembered_ok_def by blast
    moreover from this have "h' = h" using S h unfolding slots_ok_def by blast
    ultimately have "t \<in> set (h_caches f)" "tables s t \<noteq> None" using S h by (auto simp: slots_ok_def)
    moreover have "r = Some t" "s' = s" using r h cw t True by (auto simp: cache_of_def)
    ultimately show ?thesis using S T h by simp
  next
    case False
    show ?thesis
    proof (cases calloc_ok)
      case True
      have r': "r = Some a" and s': "s' = s\<lparr>tables := (tables s)(a \<mapsto> new_cache (s_budget (h_st f)) mem),
          handles := (handles s)(h \<mapsto> f\<lparr>h_caches := a # h_caches f\<rparr>), tl_of := (tl_of s)(th := (tl_of s th)[?i := (Some a, s_gen (h_st f))])\<rparr>"
        using r False True h cw by (auto simp: cache_of_def Let_def)
      have "slots_ok n s'" "threads_ok s'" unfolding s' by (rule new_table_ok[OF S T h a])+
      then show ?thesis using r' s' by simp
    next
      case nomem: False
      then have "r = None" "s' = s" using r False h cw by (auto simp: cache_of_def Let_def)
      then show ?thesis using S T nomem by simp
    qed
  qed
  then show "slots_ok n s'" "threads_ok s'"
    "case r of None \<Rightarrow> \<not> calloc_ok | Some t \<Rightarrow> tables s' t \<noteq> None \<and> (\<exists>f'. handles s' h = Some f' \<and> t \<in> set (h_caches f') \<and> h_st f' = h_st f)" by blast+
qed


lemma store_run_ok: "store_run n s \<Longrightarrow> n < 2 ^ 32 \<Longrightarrow> slots_ok n s \<and> threads_ok s"
proof (induction rule: store_run.induct)
  case start
  then show ?case by (simp add: slots_ok_def threads_ok_def remembered_ok_def not_ahead_def no_stores_def)
next
  case (open_dir n s h dir_ok calloc_ok copies_ok config r s')
  then show ?case using open_ok[of n s h dir_ok calloc_ok copies_ok config r s'] by simp
next
  case (close_dir n s h)
  then show ?case using forget_ok[of n s h] by auto
next
  case (use n s h a calloc_ok mem th r s')
  then show ?case using use_ok(1,2)[of n s h _ a calloc_ok mem th r s'] by auto
qed

text \<open>
  C30. A worker never serves from the table of a directory that was closed.  However directories were opened and closed before, with fewer than
  \<open>2\<^sup>3\<^sup>2\<close> such steps, at most sixteen are open, each with a slot of its own; and a thread that asks for its table of an open
  directory gets, unless memory runs out, a table that was not freed and belongs to this directory, never one that the
  thread remembers from another directory that had the slot before.
\<close>

theorem a_closed_table_is_never_used:
  assumes "store_run n s" and "n < 2 ^ 32" and "handles s h = Some f" and "tables s a = None"
  shows "card (dom (handles s)) \<le> ROOTS \<and> inj_on (\<lambda>h. s_slot (h_st (the (handles s h)))) (dom (handles s)) \<and>
    (let (r, s') = cache_of calloc_ok a mem th h s in
     case r of None \<Rightarrow> \<not> calloc_ok | Some t \<Rightarrow> tables s' t \<noteq> None \<and> (\<exists>f'. handles s' h = Some f' \<and> t \<in> set (h_caches f') \<and> h_st f' = h_st f) \<and>
       (\<forall>h' f'. handles s' h' = Some f' \<longrightarrow> t \<in> set (h_caches f') \<longrightarrow> h' = h))"
proof -
  have S: "slots_ok n s" and T: "threads_ok s" using store_run_ok[OF assms(1,2)] by auto
  have inj: "inj_on (\<lambda>h. s_slot (h_st (the (handles s h)))) (dom (handles s))"
    by (rule inj_onI) (use slots_okD(5)[OF S] in fastforce)
  have sub: "(\<lambda>h. s_slot (h_st (the (handles s h)))) ` dom (handles s) \<subseteq> {..<ROOTS}" using S by (auto simp: slots_ok_def)
  have "card (dom (handles s)) \<le> ROOTS" using card_inj_on_le[OF inj sub] by simp
  moreover obtain r s' where r: "cache_of calloc_ok a mem th h s = (r, s')" by fastforce
  note U = use_ok[OF S T assms(3,4) r]
  have "h' = h" if "handles s' h' = Some f'" "t \<in> set (h_caches f')" "handles s' h = Some f0" "t \<in> set (h_caches f0)" for h' f' f0 t
    using U(1) that unfolding slots_ok_def by blast
  then have "case r of None \<Rightarrow> \<not> calloc_ok | Some t \<Rightarrow> tables s' t \<noteq> None \<and> (\<exists>f'. handles s' h = Some f' \<and> t \<in> set (h_caches f') \<and> h_st f' = h_st f) \<and>
       (\<forall>h' f'. handles s' h' = Some f' \<longrightarrow> t \<in> set (h_caches f') \<longrightarrow> h' = h)" using U(3) by (auto split: option.splits)
  ultimately show ?thesis using inj r by simp
qed

text \<open>A directory closed and another opened in its slot: the thread that had a table of the first gets a new one.\<close>

theorem a_closed_table_is_never_used_witness:
  "\<exists>s f s'. store_run 5 s \<and> handles s 1 = Some f \<and> s_slot (h_st f) = 0 \<and> fst (tl_of s 0 ! 0) = Some 5 \<and>
    cache_of True 6 (\<lambda>_. small_file []) 0 1 s = (Some 6, s') \<and> tables s' 6 \<noteq> None"
proof -
  define cf where "cf = \<lparr>cf_dir = Some ''d'', cf_mount = None, cf_index = None, cf_cache_control = None, cf_cache_bytes = 0, cf_cache_file_max = 0,
    cf_revalidate_ms = 0, cf_precompressed = False, cf_hidden = False\<rparr>"
  define s1 where "s1 = snd (ioxd_static_open True True True 0 cf no_stores)"
  define s2 where "s2 = snd (cache_of True 5 (\<lambda>_. small_file []) 0 0 s1)"
  define s3 where "s3 = ioxd_static_close (Some 0) s2"
  define s4 where "s4 = snd (ioxd_static_open True True True 1 cf s3)"
  have r: "store_run 2 s1" using store_run.open_dir[OF store_run.start _ surjective_pairing, of 0 True True True cf] by (simp add: s1_def no_stores_def numeral_2_eq_2)
  have f1: "handles s1 = [0 \<mapsto> \<lparr>h_st = store_of cf 0 1, h_caches = []\<rparr>]" "tables s1 = Map.empty" "g_taken s1 = (replicate 16 False)[0 := True]"
    "g_gen s1 = (replicate 16 0)[0 := 1]" "tl_of s1 = (\<lambda>_. replicate 16 (None, 0))"
    by (simp_all add: s1_def ioxd_static_open_def no_stores_def cf_def numeral_eq_Suc)
  have f2: "handles s2 = [0 \<mapsto> \<lparr>h_st = store_of cf 0 1, h_caches = [5]\<rparr>]" "dom (tables s2) = {5}" "g_taken s2 = (replicate 16 False)[0 := True]"
    "g_gen s2 = (replicate 16 0)[0 := 1]" "tl_of s2 = (\<lambda>_. replicate 16 (None, 0))(0 := (replicate 16 (None, 0))[0 := (Some 5, 1)])"
    by (simp_all add: s2_def cache_of_def f1 store_of_def)
  have f3: "handles s3 = Map.empty" "tables s3 5 = None" "dom (tables s3) = {}" "g_taken s3 = replicate 16 False" "g_gen s3 = (replicate 16 0)[0 := 2]" "tl_of s3 = tl_of s2"
    using f2(2) by (auto simp: s3_def ioxd_static_close_def f2 store_of_def numeral_eq_Suc)
  have fr: "free_slot 0 (replicate 16 False) = Some 0" by (simp add: numeral_eq_Suc)
  have f4: "handles s4 = [1 \<mapsto> \<lparr>h_st = store_of cf 0 3, h_caches = []\<rparr>]" "tables s4 = tables s3" "tl_of s4 = tl_of s2"
    by (simp_all add: s4_def ioxd_static_open_def f3 cf_def fr)
  have r2: "store_run 2 s2" using store_run.use[OF r _ _ surjective_pairing, of 0 5 True "\<lambda>_. small_file []" 0] f1 by (simp add: s2_def)
  have r3: "store_run 3 s3" using store_run.close_dir[OF r2, of 0] f2 by (simp add: s3_def)
  have r4: "store_run 5 s4" using store_run.open_dir[OF r3 _ surjective_pairing, of 1 True True True cf] f3 by (simp add: s4_def)
  have t6: "tables s4 6 = None" using f4(2) f3(3) by auto
  obtain s' where s': "cache_of True 6 (\<lambda>_. small_file []) 0 1 s4 = (Some 6, s')" by (simp add: cache_of_def f4 f2 store_of_def Let_def)
  have "tables s' 6 \<noteq> None" using a_closed_table_is_never_used[OF r4 _ _ t6, of 1 _ True "\<lambda>_. small_file []" 0] s' f4(1) by simp
  then show ?thesis using r4 s' f4 f2(5) by (intro exI[of _ s4]) (simp add: store_of_def)
qed

end
