(* ===== verification/Compress.thy ===== *)
theory Compress
  imports Router Reply_Wire
begin

text \<open>
  Response compression, \<^verbatim>\<open>lib/http/compress.c\<close>: the pooled coders with the arena of a brotli instance, the two filters, the decision taken
  when the head is about to go out, and the middleware that asks for it.

  Brotli and zlib are parameters: \<open>codecs\<close> has what their calls answer.  A coder is its address and its fields; the pools of the running
  thread are lists, the coder given back last first.  \<open>brotli\<close> and \<open>zlib\<close> say what the build has.
\<close>

section \<open>The configuration\<close>

record ioxd_compress_config =
  brotli_quality :: int
  brotli_window :: int
  gzip_level :: int
  min_bytes :: nat

definition g_cfg_start :: ioxd_compress_config where
  "g_cfg_start = \<lparr>brotli_quality = 1, brotli_window = 22, gzip_level = 1, min_bytes = 256\<rparr>"

text \<open>The settings of a call over those in force; zero leaves a setting as it is.\<close>

definition overlaid :: "ioxd_compress_config \<Rightarrow> ioxd_compress_config \<Rightarrow> ioxd_compress_config" where
  "overlaid config g_cfg =
     \<lparr>brotli_quality = (if brotli_quality config \<noteq> 0 then brotli_quality config else brotli_quality g_cfg),
      brotli_window = (if brotli_window config \<noteq> 0 then brotli_window config else brotli_window g_cfg),
      gzip_level = (if gzip_level config \<noteq> 0 then gzip_level config else gzip_level g_cfg),
      min_bytes = (if min_bytes config \<noteq> 0 then min_bytes config else min_bytes g_cfg)\<rparr>"

definition ioxd_compress_configure :: "ioxd_compress_config \<Rightarrow> ioxd_compress_config \<Rightarrow> int \<times> ioxd_compress_config" where
  "ioxd_compress_configure config g_cfg =
     (let cfg = overlaid config g_cfg in
      if brotli_quality cfg < 0 \<or> brotli_quality cfg > 11 then (- 1, g_cfg)
      else if brotli_window cfg < 10 \<or> brotli_window cfg > 24 then (- 1, g_cfg)
      else if gzip_level cfg < 1 \<or> gzip_level cfg > 9 then (- 1, g_cfg)
      else (0, cfg))"

definition ioxd_compress_codings :: "bool \<Rightarrow> bool \<Rightarrow> bytes" where
  "ioxd_compress_codings brotli zlib = (if brotli \<and> zlib then ''br, gzip'' else if brotli then ''br'' else if zlib then ''gzip'' else [])"


section \<open>Coders\<close>

datatype kind = KIND_BR | KIND_GZIP

definition names :: "kind \<Rightarrow> bytes" where
  "names k = (case k of KIND_BR \<Rightarrow> ''br'' | KIND_GZIP \<Rightarrow> ''gzip'')"

datatype br_op = BROTLI_OPERATION_PROCESS | BROTLI_OPERATION_FLUSH | BROTLI_OPERATION_FINISH
datatype z_flush = Z_NO_FLUSH | Z_SYNC_FLUSH | Z_FINISH
datatype z_rc = Z_OK | Z_STREAM_END | Z_STREAM_ERROR | Z_BUF_ERROR

text \<open>
  What the libraries answer: creating a brotli instance gives it, unless that fails, and the sizes it allocated; a call
  of an encoder gives its result, the input left over, the output and the state that follows.
\<close>

record ('b, 'z) codecs =
  br_create :: "'b option \<times> u64 list"
  br_set :: "'b \<Rightarrow> bytes \<Rightarrow> u32 \<Rightarrow> 'b"
  br_stream :: "'b \<Rightarrow> br_op \<Rightarrow> bytes \<Rightarrow> nat \<Rightarrow> bool \<times> nat \<times> bytes \<times> 'b"
  br_more :: "'b \<Rightarrow> bool"
  br_finished :: "'b \<Rightarrow> bool"
  z_init :: "int \<Rightarrow> 'z option"
  z_reset :: "'z \<Rightarrow> 'z"
  z_deflate :: "'z \<Rightarrow> z_flush \<Rightarrow> bytes \<Rightarrow> nat \<Rightarrow> z_rc \<times> nat \<times> bytes \<times> 'z"

record ('b, 'z) enc =
  en_at :: nat
  en_kind :: kind
  en_br :: "'b option"
  en_arena :: "u64 option"
  en_cap :: u64
  en_used :: u64
  en_peak :: u64
  en_zs :: "'z option"

abbreviation ARENA_FIRST :: u64 where "ARENA_FIRST \<equiv> 1024 * 1024"
abbreviation ALIGN :: u64 where "ALIGN \<equiv> 16"

definition arena_need :: "u64 \<Rightarrow> u64" where
  "arena_need sz = ((sz + ALIGN - 1) AND NOT (ALIGN - 1))"

text \<open>The address of a block: in the arena while it lasts, from \<open>malloc\<close> after that.\<close>

definition arena_alloc :: "u64 \<Rightarrow> u64 \<Rightarrow> ('b, 'z) enc \<Rightarrow> u64 \<times> ('b, 'z) enc" where
  "arena_alloc malloc sz c =
     (let need = arena_need sz; c = c\<lparr>en_peak := en_peak c + need\<rparr> in
      case en_arena c of
        None \<Rightarrow> (malloc, c)
      | Some base \<Rightarrow>
          if en_used c + need \<le> en_cap c then (base + en_used c, c\<lparr>en_used := en_used c + need\<rparr>)
          else (malloc, c))"

text \<open>What is given to \<open>free\<close>.\<close>

definition arena_free :: "('b, 'z) enc \<Rightarrow> u64 \<Rightarrow> u64 option" where
  "arena_free c address =
     (if address = 0 \<or> (case en_arena c of None \<Rightarrow> False | Some base \<Rightarrow> address \<ge> base \<and> address < base + en_cap c) then None
      else Some address)"

definition br_make :: "('b, 'z) codecs \<Rightarrow> ioxd_compress_config \<Rightarrow> u64 option \<Rightarrow> nat \<Rightarrow> ('b, 'z) enc \<Rightarrow> bool \<times> ('b, 'z) enc" where
  "br_make lib cfg malloc hint c =
     (let c = (if en_arena c = None then c\<lparr>en_cap := ARENA_FIRST, en_arena := malloc\<rparr> else c);
          c = c\<lparr>en_used := 0, en_peak := 0\<rparr>;
          (br, sizes) = br_create lib;
          c = fold (\<lambda>sz c. snd (arena_alloc 0 sz c)) sizes c;
          c = c\<lparr>en_br := br\<rparr>
      in case br of
           None \<Rightarrow> (False, c)
         | Some b \<Rightarrow>
             let b = br_set lib b ''quality'' (of_int (brotli_quality cfg));
                 b = br_set lib b ''lgwin'' (of_int (brotli_window cfg));
                 b = (if hint \<noteq> 0 then br_set lib b ''size_hint'' (if hint > 2 ^ 32 - 1 then - 1 else of_nat hint) else b)
             in (True, c\<lparr>en_br := Some b\<rparr>))"

definition br_done :: "u64 option \<Rightarrow> ('b, 'z) enc \<Rightarrow> ('b, 'z) enc" where
  "br_done realloc c =
     (let c = c\<lparr>en_br := None\<rparr>;
          c = (if en_peak c > en_cap c \<and> realloc \<noteq> None
               then c\<lparr>en_arena := realloc, en_cap := en_peak c + en_peak c div 4\<rparr> else c)
      in c\<lparr>en_used := 0\<rparr>)"

text \<open>The pools of the thread; \<open>calloc\<close> gives the address of a new coder, if one can be had.\<close>

type_synonym ('b, 'z) pools = "kind \<Rightarrow> ('b, 'z) enc list"

definition new_enc :: "nat \<Rightarrow> kind \<Rightarrow> ('b, 'z) enc" where
  "new_enc a k = \<lparr>en_at = a, en_kind = k, en_br = None, en_arena = None, en_cap = 0, en_used = 0, en_peak = 0, en_zs = None\<rparr>"

definition coder_fresh :: "('b, 'z) codecs \<Rightarrow> ioxd_compress_config \<Rightarrow> (kind \<Rightarrow> nat option) \<Rightarrow> bool \<Rightarrow> kind \<Rightarrow> ('b, 'z) enc option" where
  "coder_fresh lib cfg calloc zlib k =
     (case calloc k of
        None \<Rightarrow> None
      | Some a \<Rightarrow>
          if zlib \<and> k = KIND_GZIP then
            (case z_init lib (gzip_level cfg) of None \<Rightarrow> None | Some z \<Rightarrow> Some ((new_enc a k)\<lparr>en_zs := Some z\<rparr>))
          else Some (new_enc a k))"

definition coder_take :: "('b, 'z) codecs \<Rightarrow> ioxd_compress_config \<Rightarrow> (kind \<Rightarrow> nat option) \<Rightarrow> u64 option \<Rightarrow> bool \<Rightarrow> bool \<Rightarrow> kind \<Rightarrow> nat \<Rightarrow>
  ('b, 'z) pools \<Rightarrow> ('b, 'z) enc option \<times> ('b, 'z) pools" where
  "coder_take lib cfg calloc malloc brotli zlib k hint tl_free =
     (let (c, tl_free) = (case tl_free k of c # cs \<Rightarrow> (Some c, tl_free(k := cs)) | [] \<Rightarrow> (coder_fresh lib cfg calloc zlib k, tl_free)) in
      case c of
        None \<Rightarrow> (None, tl_free)
      | Some c \<Rightarrow>
          let (made, c) = (if brotli \<and> k = KIND_BR then br_make lib cfg malloc hint c else (True, c)) in
          if \<not> made then (None, tl_free(k := c # tl_free k))
          else (Some (if zlib \<and> k = KIND_GZIP then c\<lparr>en_zs := map_option (z_reset lib) (en_zs c)\<rparr> else c), tl_free))"

definition coder_give :: "u64 option \<Rightarrow> bool \<Rightarrow> ('b, 'z) enc \<Rightarrow> ('b, 'z) pools \<Rightarrow> ('b, 'z) pools" where
  "coder_give realloc brotli c tl_free =
     (let c = (if brotli \<and> en_kind c = KIND_BR then br_done realloc c else c)
      in tl_free(en_kind c := c # tl_free (en_kind c)))"


section \<open>The filters\<close>

text \<open>The result, the input consumed, the output and the state that follows.\<close>

definition br_run :: "('b, 'z) codecs \<Rightarrow> 'b \<Rightarrow> bytes \<Rightarrow> nat \<Rightarrow> fop \<Rightarrow> int \<times> nat \<times> bytes \<times> 'b" where
  "br_run lib b inp room op =
     (let bop = (if op = IOXD_FILTER_FINISH then BROTLI_OPERATION_FINISH else if op = IOXD_FILTER_FLUSH then BROTLI_OPERATION_FLUSH
                 else BROTLI_OPERATION_PROCESS);
          (ok, avail_in, out, b) = br_stream lib b bop inp room
      in if \<not> ok then (- 1, length inp, [], b)
      else (if br_more lib b then 1 else if op = IOXD_FILTER_FINISH \<and> \<not> br_finished lib b then 1 else 0, length inp - avail_in, out, b))"

definition gzip_run :: "('b, 'z) codecs \<Rightarrow> 'z \<Rightarrow> bytes \<Rightarrow> nat \<Rightarrow> fop \<Rightarrow> int \<times> nat \<times> bytes \<times> 'z" where
  "gzip_run lib z inp room op =
     (let flush = (if op = IOXD_FILTER_FINISH then Z_FINISH else if op = IOXD_FILTER_FLUSH then Z_SYNC_FLUSH else Z_NO_FLUSH);
          avail_in = unat (of_nat (length inp) :: u32); avail_out = unat (of_nat room :: u32);
          (rc, left, out, z) = z_deflate lib z flush (take avail_in inp) avail_out
      in if rc = Z_STREAM_ERROR then (- 1, length inp, [], z)
      else (if rc = Z_STREAM_END then 0 else if op = IOXD_FILTER_FINISH \<or> avail_out - length out = 0 then 1 else 0, length inp - left, out, z))"

primcorec br_coder :: "('b, 'z) codecs \<Rightarrow> 'b \<Rightarrow> coder" where
  "run_coder (br_coder lib b) = (\<lambda>inp room op. map_prod id (map_prod id (map_prod id (br_coder lib))) (br_run lib b inp room op))"

primcorec gzip_coder :: "('b, 'z) codecs \<Rightarrow> 'z \<Rightarrow> coder" where
  "run_coder (gzip_coder lib z) = (\<lambda>inp room op. map_prod id (map_prod id (map_prod id (gzip_coder lib))) (gzip_run lib z inp room op))"

definition filter_of :: "('b, 'z) codecs \<Rightarrow> ('b, 'z) enc \<Rightarrow> coder" where
  "filter_of lib c = (case en_kind c of KIND_BR \<Rightarrow> br_coder lib (the (en_br c)) | KIND_GZIP \<Rightarrow> gzip_coder lib (the (en_zs c)))"


section \<open>The decision\<close>

definition compressible :: "bytes \<Rightarrow> bool" where
  "compressible type =
     (let type = ioxd_slice_trim (fst (snd (ioxd_slice_cut type (CHR '';'')))) in
      ioxd_slice_starts_with type ''text/'' \<or> ioxd_slice_ends_with type ''+json'' \<or> ioxd_slice_ends_with type ''+xml'' \<or>
      list_ex (ioxd_slice_eq_ci type) [''application/json'', ''application/javascript'', ''application/x-javascript'', ''application/xml'',
        ''application/wasm'', ''image/svg+xml''])"

definition has_header :: "response \<Rightarrow> bytes \<Rightarrow> bool" where
  "has_header res name = list_ex (\<lambda>(k, v). ioxd_slice_eq (deref res k) name) (rs_headers res)"

definition passes_by :: "response \<Rightarrow> bool" where
  "passes_by res \<longleftrightarrow> rs_status res < 200 \<or> rs_status res \<ge> 300 \<or> rs_status res = 204 \<or> has_header res ''content-encoding'' \<or>
     \<not> compressible (deref res (rs_content_type res))"

text \<open>The coder for the reply, if one is wanted and to be had: brotli when the client takes it at least as gladly as gzip.\<close>

definition pick_coder :: "(bytes \<Rightarrow> 'd::{zero,one,linorder} \<times> nat \<times> bool) option \<Rightarrow> ('b, 'z) codecs \<Rightarrow> ioxd_compress_config \<Rightarrow> (kind \<Rightarrow> nat option) \<Rightarrow> u64 option \<Rightarrow>
  bool \<Rightarrow> bool \<Rightarrow> request \<Rightarrow> nat \<Rightarrow> bool \<Rightarrow> ('b, 'z) pools \<Rightarrow> ('b, 'z) enc option \<times> ('b, 'z) pools" where
  "pick_coder strtod_l lib cfg calloc malloc brotli zlib req buffered whole tl_free =
     (let gz = ioxd_accepts_encoding strtod_l req ''gzip''; br = ioxd_accepts_encoding strtod_l req ''br'';
          (c, tl_free) = (if brotli \<and> br > 0 \<and> br \<ge> gz
                          then coder_take lib cfg calloc malloc brotli zlib KIND_BR (if whole then buffered else 0) tl_free else (None, tl_free))
      in if zlib \<and> c = None \<and> gz > 0 then coder_take lib cfg calloc malloc brotli zlib KIND_GZIP 0 tl_free else (c, tl_free))"

text \<open>The coder installed, the context and the pools.\<close>

definition decide :: "(bytes \<Rightarrow> 'd::{zero,one,linorder} \<times> nat \<times> bool) option \<Rightarrow> ('b, 'z) codecs \<Rightarrow> ioxd_compress_config \<Rightarrow> (kind \<Rightarrow> nat option) \<Rightarrow> u64 option \<Rightarrow>
  bool \<Rightarrow> bool \<Rightarrow> nat \<Rightarrow> bool \<Rightarrow> ctx \<Rightarrow> ('b, 'z) pools \<Rightarrow> ('b, 'z) enc option \<times> ctx \<times> ('b, 'z) pools" where
  "decide strtod_l lib cfg calloc malloc brotli zlib buffered whole cx tl_free =
     (if passes_by (cx_res cx) then (None, cx, tl_free)
      else
        let cx = upd_res (\<lambda>r. snd (ioxd_header r (Some ''vary'') (Some ''accept-encoding''))) cx in
        if whole \<and> buffered < min_bytes cfg then (None, cx, tl_free)
        else
          case pick_coder strtod_l lib cfg calloc malloc brotli zlib (cx_req cx) buffered whole tl_free of
            (None, tl_free) \<Rightarrow> (None, cx, tl_free)
          | (Some c, tl_free) \<Rightarrow>
              let (installed, cx) = ioxd_reply_filter cx (filter_of lib c) in
              if \<not> installed then (None, cx, coder_give malloc brotli c tl_free)
              else (Some c, upd_res (\<lambda>r. snd (ioxd_header r (Some ''content-encoding'') (Some (names (en_kind c))))) cx, tl_free))"

text \<open>
  The delegate as the engine runs it: the calls it makes on the response, the filter, and the call it makes once the filter is installed.  The engine runs it
  once; the pools and the memory are those of that moment.
\<close>

definition decide_fn :: "(bytes \<Rightarrow> 'd::{zero,one,linorder} \<times> nat \<times> bool) option \<Rightarrow> ('b, 'z) codecs \<Rightarrow> ioxd_compress_config \<Rightarrow> (kind \<Rightarrow> nat option) \<Rightarrow> u64 option \<Rightarrow>
  bool \<Rightarrow> bool \<Rightarrow> ('b, 'z) pools \<Rightarrow> head_fn" where
  "decide_fn strtod_l lib cfg calloc malloc brotli zlib tl_free req res buffered whole =
     (if passes_by res then ([], None)
      else if whole \<and> buffered < min_bytes cfg then ([Add_header (Some ''vary'') (Some ''accept-encoding'')], None)
      else case pick_coder strtod_l lib cfg calloc malloc brotli zlib req buffered whole tl_free of
        (None, tl_free) \<Rightarrow> ([Add_header (Some ''vary'') (Some ''accept-encoding'')], None)
      | (Some c, tl_free) \<Rightarrow>
          ([Add_header (Some ''vary'') (Some ''accept-encoding'')], Some (filter_of lib c, [Add_header (Some ''content-encoding'') (Some (names (en_kind c)))])))"

definition ioxd_compress :: "(bytes \<Rightarrow> 'd::{zero,one,linorder} \<times> nat \<times> bool) option \<Rightarrow> ('b, 'z) codecs \<Rightarrow> ioxd_compress_config \<Rightarrow> (kind \<Rightarrow> nat option) \<Rightarrow> u64 option \<Rightarrow>
  bool \<Rightarrow> bool \<Rightarrow> ('b, 'z) pools \<Rightarrow> mw" where
  "ioxd_compress strtod_l lib cfg calloc malloc brotli zlib tl_free cx =
     Next_run
       (if ioxd_req_header (cx_req cx) ''accept-encoding'' \<noteq> None
        then snd (ioxd_on_head cx (Some (decide_fn strtod_l lib cfg calloc malloc brotli zlib tl_free))) else cx)
       Returned"



section \<open>What a coded reply says\<close>

definition cfg_ok :: "ioxd_compress_config \<Rightarrow> bool" where
  "cfg_ok g \<longleftrightarrow> 0 \<le> brotli_quality g \<and> brotli_quality g \<le> 11 \<and> 10 \<le> brotli_window g \<and> brotli_window g \<le> 24 \<and> 1 \<le> gzip_level g \<and> gzip_level g \<le> 9 \<and>
     0 < min_bytes g"

lemma configure_ok: "cfg_ok g \<Longrightarrow> cfg_ok (snd (ioxd_compress_configure c g))"
  by (simp add: ioxd_compress_configure_def cfg_ok_def Let_def) (simp add: overlaid_def)

text \<open>
  The settings are always ones brotli and zlib take.  After any calls of \<open>ioxd_compress_configure\<close>, accepted or refused, the quality is within
  0 to 11, the window within 10 to 24, the level within 1 to 9 and the least size is not zero; a call that is refused changes nothing.
\<close>

theorem settings_stay_in_range:
  "let g = foldl (\<lambda>g c. snd (ioxd_compress_configure c g)) g_cfg_start calls in
   cfg_ok g \<and> (fst (ioxd_compress_configure c g) = 0 \<or> fst (ioxd_compress_configure c g) = - 1 \<and> snd (ioxd_compress_configure c g) = g)"
proof -
  have "cfg_ok g \<Longrightarrow> cfg_ok (foldl (\<lambda>g c. snd (ioxd_compress_configure c g)) g calls)" for g
    by (induction calls arbitrary: g) (simp_all add: configure_ok)
  moreover have "cfg_ok g_cfg_start" by (simp add: cfg_ok_def g_cfg_start_def)
  ultimately show ?thesis by (auto simp: ioxd_compress_configure_def Let_def)
qed

text \<open>A header of the library's own: its name is lower case and allowed, and there is room for it.\<close>

definition fits :: "response \<Rightarrow> bytes \<Rightarrow> bytes \<Rightarrow> bool" where
  "fits res n v \<longleftrightarrow> length (rs_headers res) < IOXD_MAX_RESP_HEADERS \<and> rs_head_len res + (length n + 2 + length v + 2) + content_type_reserved res \<le> IOXD_RESP_HEAD_CAP"

lemma header_added:
  assumes "\<not> rs_head_sent res" "fits res n v" "good_header (n, v)"
  defines "r \<equiv> ioxd_header res (Some n) (Some v)"
  shows "fst r" "rs_head_len (snd r) = rs_head_len res + (length n + 2 + length v + 2)" "length (rs_headers (snd r)) = length (rs_headers res) + 1"
    "content_type_reserved (snd r) = content_type_reserved res"
proof -
  have n: "n \<noteq> []" "list_all is_tchar n" "map lower n = n" "valid_field_value v" "n \<notin> {''content-type'', ''content-length'', ''transfer-encoding'', ''connection''}"
    using assms(3) by (auto simp: good_header_def)
  have ci: "strncasecmp_eq n m k \<Longrightarrow> length n = k \<Longrightarrow> length m = k \<Longrightarrow> map lower m = m \<Longrightarrow> n = m" for m k
    using n(3) by (simp add: strncasecmp_eq_def)
  have sp: "\<not> (length n = 12 \<and> strncasecmp_eq n ''content-type'' 12)" "\<not> (length n = 14 \<and> strncasecmp_eq n ''content-length'' 14)"
    "\<not> (length n = 17 \<and> strncasecmp_eq n ''transfer-encoding'' 17)" "\<not> (length n = 10 \<and> strncasecmp_eq n ''connection'' 10)"
    using ci[of "''content-type''" 12] ci[of "''content-length''" 14] ci[of "''transfer-encoding''" 17] ci[of "''connection''" 10] n(5) by (auto simp: lower_def)
  have hr: "head_room res (length n + 2 + length v + 2) = (Some (rs_head_len res), res\<lparr>rs_head_len := rs_head_len res + (length n + 2 + length v + 2)\<rparr>)"
    using assms(2) by (simp add: fits_def head_room_def size_minus_def) linarith
  have few: "length (rs_headers res) \<noteq> IOXD_MAX_RESP_HEADERS" "length n \<noteq> 0" using assms(2) n(1) by (auto simp: fits_def)
  obtain X where r: "r = (True, res\<lparr>rs_head_len := rs_head_len res + (length n + 2 + length v + 2), rs_head := X,
      rs_headers := rs_headers res @ [(In_head (rs_head_len res) (length n), In_head (rs_head_len res + length n + 2) (length v))]\<rparr>)"
    unfolding r_def ioxd_header_def option.case prod.case Let_def if_not_P[OF sp(1)] hr using assms(1) few sp n(2,4)
    by (simp add: put_bytes_def)
  then show "fst r" "rs_head_len (snd r) = rs_head_len res + (length n + 2 + length v + 2)" "length (rs_headers (snd r)) = length (rs_headers res) + 1"
    "content_type_reserved (snd r) = content_type_reserved res"
    by (simp_all add: content_type_reserved_def)
qed

lemma header_keeps [simp]:
  "rs_head_sent (snd (ioxd_header res n v)) = rs_head_sent res" "rs_status (snd (ioxd_header res n v)) = rs_status res"
  by (auto simp: ioxd_header_def ioxd_content_type_def head_room_def Let_def put_bytes_def split: option.splits prod.splits)


text \<open>Every coder of a pool is of its kind.\<close>

definition pools_ok :: "('b, 'z) pools \<Rightarrow> bool" where
  "pools_ok tl_free \<longleftrightarrow> (\<forall>k. \<forall>c \<in> set (tl_free k). en_kind c = k)"

lemma br_make_kind: "en_kind (snd (br_make lib cfg malloc hint c)) = en_kind c"
proof -
  have "en_kind (fold (\<lambda>sz c. snd (arena_alloc 0 sz c)) sizes c) = en_kind c" for sizes and c :: "('a, 'b) enc"
    by (induction sizes arbitrary: c) (auto simp: arena_alloc_def Let_def split: option.split)
  then show ?thesis by (auto simp: br_make_def Let_def split: prod.split option.split)
qed

lemma coder_take_ok:
  assumes "pools_ok tl_free" and "coder_take lib cfg calloc malloc brotli zlib k hint tl_free = (r, tl_free')"
  shows "pools_ok tl_free'" "r = Some c \<Longrightarrow> en_kind c = k"
proof -
  obtain c0 fr where p: "(case tl_free k of c # cs \<Rightarrow> (Some c, tl_free(k := cs)) | [] \<Rightarrow> (coder_fresh lib cfg calloc zlib k, tl_free)) = (c0, fr)" by fastforce
  have fr: "pools_ok fr" using p assms(1) by (auto simp: pools_ok_def split: list.splits if_splits)
  have k0: "en_kind c = k" if "c0 = Some c" for c
    using p that assms(1) by (fastforce simp: pools_ok_def coder_fresh_def new_enc_def split: list.splits option.splits if_splits)
  have "pools_ok tl_free' \<and> (\<forall>c. r = Some c \<longrightarrow> en_kind c = k)"
  proof (cases c0)
    case None
    then show ?thesis using assms(2) p fr by (simp add: coder_take_def)
  next
    case (Some c)
    then show ?thesis using assms(2) p fr k0[OF Some] br_make_kind[of lib cfg malloc hint c]
      by (auto simp: coder_take_def pools_ok_def split: prod.splits if_splits)
  qed
  then show "pools_ok tl_free'" "r = Some c \<Longrightarrow> en_kind c = k" by auto
qed

lemma coder_give_ok: "pools_ok tl_free \<Longrightarrow> pools_ok (coder_give realloc brotli c tl_free)"
  by (auto simp: pools_ok_def coder_give_def br_done_def Let_def)

lemma pick_coder_ok:
  assumes "pools_ok tl_free" and "pick_coder strtod_l lib cfg calloc malloc brotli zlib req buffered whole tl_free = (Some c, tl_free')"
  shows "0 < ioxd_accepts_encoding strtod_l req (names (en_kind c))"
    "en_kind c = KIND_BR \<Longrightarrow> ioxd_accepts_encoding strtod_l req ''gzip'' \<le> ioxd_accepts_encoding strtod_l req ''br''"
proof -
  let ?br = "coder_take lib cfg calloc malloc brotli zlib KIND_BR (if whole then buffered else 0) tl_free"
  have k: "pools_ok (snd ?br)" "fst ?br = Some c \<Longrightarrow> en_kind c = KIND_BR" using coder_take_ok[OF assms(1), of lib cfg calloc malloc brotli zlib KIND_BR] by (metis prod.collapse)+
  have g: "en_kind c = KIND_GZIP" if "coder_take lib cfg calloc malloc brotli zlib KIND_GZIP 0 p = (Some c, tl_free')" "pools_ok p" for p
    using coder_take_ok(2)[OF that(2,1)] by simp
  show "0 < ioxd_accepts_encoding strtod_l req (names (en_kind c))"
    "en_kind c = KIND_BR \<Longrightarrow> ioxd_accepts_encoding strtod_l req ''gzip'' \<le> ioxd_accepts_encoding strtod_l req ''br''"
    using assms k g by (auto simp: pick_coder_def Let_def names_def split: prod.splits if_splits)
qed

text \<open>The engine's call of the delegate is the decision.\<close>

lemma run_on_head_decides:
  assumes "st_on_head (cx_st cx) = Some (decide_fn strtod_l lib cfg calloc malloc brotli zlib tl_free)" and "\<not> rs_head_sent (cx_res cx)"
    and "\<not> st_head_only (cx_st cx)"
  shows "run_on_head cx final =
    fst (snd (decide strtod_l lib cfg calloc malloc brotli zlib (pw_len (WRITER cx)) final (upd_st (\<lambda>s. s\<lparr>st_on_head := None\<rparr>) cx) tl_free))"
proof -
  let ?res = "cx_res cx" and ?n = "pw_len (WRITER cx)"
  obtain r p where c: "pick_coder strtod_l lib cfg calloc malloc brotli zlib (cx_req cx) ?n final tl_free = (r, p)" by fastforce
  have e: "run_on_head cx final = (let cx1 = upd_st (\<lambda>s. s\<lparr>st_on_head := None\<rparr>) cx; (ops, flt) = decide_fn strtod_l lib cfg calloc malloc brotli zlib tl_free (cx_req cx) ?res ?n final;
      cx2 = upd_res (\<lambda>r. foldl shape_step r ops) cx1 in (case flt of None \<Rightarrow> cx2 | Some (f, then_ops) \<Rightarrow>
        let (installed, cx3) = ioxd_reply_filter cx2 f in if installed then upd_res (\<lambda>r. foldl shape_step r then_ops) cx3 else cx3))"
    using assms(1-3) by (simp add: run_on_head_def upd_st_def WRITER_def Let_def)
  show ?thesis
  proof (cases "passes_by ?res \<or> final \<and> ?n < min_bytes cfg \<or> r = None")
    case True
    then show ?thesis unfolding e using c by (auto simp: decide_def decide_fn_def Let_def upd_st_def upd_res_def)
  next
    case False
    then obtain c1 where "r = Some c1" by blast
    then show ?thesis unfolding e using c False assms(2)
      by (auto simp: decide_def decide_fn_def upd_st_def upd_res_def ioxd_reply_filter_def Let_def)
  qed
qed

lemma good_vary: "good_header (''vary'', ''accept-encoding'')"
  by code_simp

lemma good_coding: "good_header (''content-encoding'', names k)"
proof -
  have "good_header (''content-encoding'', ''br'')" "good_header (''content-encoding'', ''gzip'')" by code_simp+
  then show ?thesis by (cases k) (simp_all add: names_def)
qed

lemma header_read:
  assumes "\<not> rs_head_sent res" "fits res n v" "good_header (n, v)" "resp_ok res"
  shows "read_headers (snd (ioxd_header res (Some n) (Some v))) = read_headers res @ [(n, v)]" "resp_ok (snd (ioxd_header res (Some n) (Some v)))"
proof -
  obtain b res' where h: "ioxd_header res (Some n) (Some v) = (b, res')" by fastforce
  have b: "b" using header_added(1)[OF assms(1-3)] h by simp
  have "map lower n = n" "n \<noteq> ''content-type''" using assms(3) by (auto simp: good_header_def)
  then have "read_headers res' = read_headers res @ [(n, v)]" using header_ok(2)[OF assms(4) h b] by auto
  then show "read_headers (snd (ioxd_header res (Some n) (Some v))) = read_headers res @ [(n, v)]" "resp_ok (snd (ioxd_header res (Some n) (Some v)))"
    using header_ok(1)[OF assms(4) h] h by simp_all
qed

text \<open>What the decision does, case by case.\<close>

lemma decide_cases:
  obtains (plain) "decide strtod_l lib cfg calloc malloc brotli zlib n whole cx tl_free = (None, cx, tl_free)"
  | (vary) p where "decide strtod_l lib cfg calloc malloc brotli zlib n whole cx tl_free =
      (None, upd_res (\<lambda>r. snd (ioxd_header r (Some ''vary'') (Some ''accept-encoding''))) cx, p)"
  | (coded) c p where "\<not> passes_by (cx_res cx)" "\<not> (whole \<and> n < min_bytes cfg)" "pick_coder strtod_l lib cfg calloc malloc brotli zlib (cx_req cx) n whole tl_free = (Some c, p)"
      "decide strtod_l lib cfg calloc malloc brotli zlib n whole cx tl_free =
       (Some c, upd_st (\<lambda>s. s\<lparr>st_filter := Some (filter_of lib c)\<rparr>)
          (upd_res (\<lambda>r. snd (ioxd_header (snd (ioxd_header r (Some ''vary'') (Some ''accept-encoding''))) (Some ''content-encoding'') (Some (names (en_kind c))))) cx), p)"
proof -
  obtain r p where c: "pick_coder strtod_l lib cfg calloc malloc brotli zlib (cx_req cx) n whole tl_free = (r, p)" by fastforce
  have q: "cx_req (upd_res f cx) = cx_req cx" for f by (simp add: upd_res_def)
  show ?thesis
  proof (cases "passes_by (cx_res cx) \<or> whole \<and> n < min_bytes cfg \<or> r = None")
    case True
    show ?thesis
    proof (cases "passes_by (cx_res cx)")
      case pass: False
      show ?thesis by (rule vary[of "if whole \<and> n < min_bytes cfg then tl_free else p"]) (use c True pass in \<open>auto simp: decide_def Let_def q\<close>)
    qed (rule plain, simp add: decide_def)
  next
    case False
    then obtain c1 where r: "r = Some c1" by blast
    show ?thesis
    proof (cases "rs_head_sent (cx_res cx) \<or> st_filter (cx_st cx) \<noteq> None")
      case True
      then show ?thesis by (intro vary[of "coder_give malloc brotli c1 p"]) (use c r False in \<open>auto simp: decide_def Let_def ioxd_reply_filter_def upd_res_def\<close>)
    next
      case inst: False
      show ?thesis by (rule coded) (use c r False inst in \<open>auto simp: decide_def Let_def ioxd_reply_filter_def upd_res_def upd_st_def\<close>)
    qed
  qed
qed

text \<open>
  C31. A coded reply says how it is coded.  When the middleware's delegate has run on a reply whose table and space of headers have room for two
  more, either no filter is set and at most \<open>vary\<close> was added, or a coder's filter is set and exactly \<open>vary\<close> and a \<open>content-encoding\<close> naming
  that coder were added.  A filter is set only on a reply with a status of 2xx but 204, of a compressible type, that
  carried no coding, to a client that takes this one, and brotli only when it takes it at least as gladly as gzip; a whole body below the least size stays as it is.
\<close>

theorem a_coded_reply_says_so:
  assumes d: "st_on_head (cx_st cx) = Some (decide_fn strtod_l lib cfg calloc malloc brotli zlib tl_free)" "\<not> rs_head_sent (cx_res cx)"
      "\<not> st_head_only (cx_st cx)" "st_filter (cx_st cx) = None"
    and p: "pools_ok tl_free" and ok: "resp_ok (cx_res cx)" and few: "length (rs_headers (cx_res cx)) + 2 \<le> IOXD_MAX_RESP_HEADERS"
    and room: "rs_head_len (cx_res cx) + 47 + content_type_reserved (cx_res cx) \<le> IOXD_RESP_HEAD_CAP"
  shows "let cx' = run_on_head cx final; hs = read_headers (cx_res cx); vary = (''vary'', ''accept-encoding'') in
    case st_filter (cx_st cx') of
      None \<Rightarrow> read_headers (cx_res cx') = hs \<or> read_headers (cx_res cx') = hs @ [vary]
    | Some f \<Rightarrow> \<exists>c. f = filter_of lib c \<and> read_headers (cx_res cx') = hs @ [vary, (''content-encoding'', names (en_kind c))] \<and>
        200 \<le> rs_status (cx_res cx) \<and> rs_status (cx_res cx) < 300 \<and> rs_status (cx_res cx) \<noteq> 204 \<and> compressible (deref (cx_res cx) (rs_content_type (cx_res cx))) \<and>
        \<not> has_header (cx_res cx) ''content-encoding'' \<and> 0 < ioxd_accepts_encoding strtod_l (cx_req cx) (names (en_kind c)) \<and>
        (en_kind c = KIND_GZIP \<or> ioxd_accepts_encoding strtod_l (cx_req cx) ''gzip'' \<le> ioxd_accepts_encoding strtod_l (cx_req cx) ''br'') \<and>
        (\<not> final \<or> min_bytes cfg \<le> pw_len (WRITER cx))"
proof -
  let ?res = "cx_res cx" and ?vary = "(''vary'', ''accept-encoding'')"
  define r1 where "r1 = snd (ioxd_header ?res (Some ''vary'') (Some ''accept-encoding''))"
  have v: "fits ?res ''vary'' ''accept-encoding''" using few room by (simp add: fits_def)
  have s1: "\<not> rs_head_sent r1" using d(2) by (simp add: r1_def)
  have f1: "fits r1 ''content-encoding'' (names k)" for k
    using header_added[OF d(2) v good_vary] few room by (cases k) (auto simp: r1_def fits_def names_def)
  note h1 = header_read[OF d(2) v good_vary ok, folded r1_def]
  note h2 = header_read(1)[OF s1 f1 good_coding h1(2)]
  note e = run_on_head_decides[OF d(1-3), of final]
  have cx: "cx_res (upd_st (\<lambda>s. s\<lparr>st_on_head := None\<rparr>) cx) = ?res" "cx_req (upd_st (\<lambda>s. s\<lparr>st_on_head := None\<rparr>) cx) = cx_req cx" by (simp_all add: upd_st_def)
  show ?thesis
  proof (cases rule: decide_cases[of strtod_l lib cfg calloc malloc brotli zlib "pw_len (WRITER cx)" final "upd_st (\<lambda>s. s\<lparr>st_on_head := None\<rparr>) cx" tl_free])
    case plain
    then show ?thesis using d(4) by (simp add: e upd_st_def)
  next
    case (vary p)
    then show ?thesis using d(4) h1(1) by (simp add: e upd_st_def upd_res_def r1_def)
  next
    case (coded c p')
    note k = pick_coder_ok[OF p coded(3)]
    have "en_kind c = KIND_GZIP \<or> en_kind c = KIND_BR" by (cases "en_kind c") auto
    then show ?thesis using coded(1,2,4) h1(1) h2[of "en_kind c"] k
      by (auto simp: e cx upd_st_def upd_res_def r1_def passes_by_def)
  qed
qed


text \<open>A reply in plain text to a client that takes gzip, in a build with zlib alone whose coder copies.\<close>

definition copying :: "(unit, unit) codecs" where
  "copying = \<lparr>br_create = (None, []), br_set = (\<lambda>b _ _. b), br_stream = (\<lambda>b _ _ _. (True, 0, [], b)), br_more = (\<lambda>_. False), br_finished = (\<lambda>_. True),
     z_init = (\<lambda>_. Some ()), z_reset = id, z_deflate = (\<lambda>z _ inp room. (Z_OK, length inp - room, take room inp, z))\<rparr>"

abbreviation no_strtod :: "(bytes \<Rightarrow> nat \<times> nat \<times> bool) option" where "no_strtod \<equiv> None"

definition plain_reply :: "(slice_ref \<times> slice_ref) list \<Rightarrow> ctx" where
  "plain_reply hs = (sample_ctx False)\<lparr>cx_req := sample_request\<lparr>rq_headers := [(Some ''accept-encoding'', ''gzip'')]\<rparr>,
     cx_res := (fst (init_response blank_response (ioxd__pipewriter_init [] 0 0 0)))\<lparr>rs_headers := hs\<rparr>,
     cx_st := (cx_st (sample_ctx False))\<lparr>st_on_head := Some (decide_fn no_strtod copying (g_cfg_start\<lparr>min_bytes := 0\<rparr>) (\<lambda>_. Some 1) None False True (\<lambda>_. []))\<rparr>\<rparr>"

lemma plain_reply_facts:
  "cx_req (plain_reply hs) = sample_request\<lparr>rq_headers := [(Some ''accept-encoding'', ''gzip'')]\<rparr>"
  "st_on_head (cx_st (plain_reply hs)) = Some (decide_fn no_strtod copying (g_cfg_start\<lparr>min_bytes := 0\<rparr>) (\<lambda>_. Some 1) None False True (\<lambda>_. []))"
  "\<not> rs_head_sent (cx_res (plain_reply hs))" "\<not> st_head_only (cx_st (plain_reply hs))" "st_filter (cx_st (plain_reply hs)) = None"
  "rs_headers (cx_res (plain_reply hs)) = hs" "rs_head_len (cx_res (plain_reply hs)) = 0" "content_type_reserved (cx_res (plain_reply hs)) = 0"
  "rs_status (cx_res (plain_reply hs)) = 200" "deref (cx_res (plain_reply hs)) (rs_content_type (cx_res (plain_reply hs))) = ''text/plain''"
  by (simp_all add: plain_reply_def init_response_def blank_response_def sample_ctx_def content_type_reserved_def)

lemma plain_reply_pick:
  "\<exists>p. pick_coder no_strtod copying cfg (\<lambda>_. Some 1) None False True (cx_req (plain_reply hs)) n final (\<lambda>_. []) = (Some ((new_enc 1 KIND_GZIP)\<lparr>en_zs := Some ()\<rparr>), p)"
proof -
  have "0 < ioxd_accepts_encoding no_strtod (sample_request\<lparr>rq_headers := [(Some ''accept-encoding'', ''gzip'')]\<rparr>) ''gzip''" by code_simp
  then show ?thesis by (simp add: plain_reply_facts(1) pick_coder_def coder_take_def coder_fresh_def copying_def new_enc_def)
qed

lemma plain_reply_compressible: "compressible ''text/plain''" by code_simp

theorem a_coded_reply_says_so_witness:
  "read_headers (cx_res (run_on_head (plain_reply []) True)) = [(''vary'', ''accept-encoding''), (''content-encoding'', ''gzip'')]"
proof -
  note f = plain_reply_facts[of "[]"]
  have "cx_res (plain_reply []) = fst (init_response blank_response (ioxd__pipewriter_init [] 0 0 0))" by (simp add: plain_reply_def init_response_def)
  then have r: "resp_ok (cx_res (plain_reply []))" using init_response_ok[of blank_response] by (simp add: blank_response_def)
  obtain p where p: "pick_coder no_strtod copying (g_cfg_start\<lparr>min_bytes := 0\<rparr>) (\<lambda>_. Some 1) None False True (cx_req (plain_reply [])) (pw_len (WRITER (plain_reply []))) True (\<lambda>_. []) =
      (Some ((new_enc 1 KIND_GZIP)\<lparr>en_zs := Some ()\<rparr>), p)" using plain_reply_pick by blast
  have "\<not> passes_by (cx_res (plain_reply []))" using f plain_reply_compressible by (simp add: passes_by_def has_header_def)
  then have "st_filter (cx_st (run_on_head (plain_reply []) True)) \<noteq> None"
    using f(3,5) p by (simp add: run_on_head_decides[OF f(2-4)] decide_def Let_def upd_st_def upd_res_def ioxd_reply_filter_def)
  then obtain fl where fl: "st_filter (cx_st (run_on_head (plain_reply []) True)) = Some fl" by blast
  have po: "pools_ok (\<lambda>_. [] :: (unit, unit) enc list)" by (simp add: pools_ok_def)
  have e: "read_headers (cx_res (plain_reply [])) = []" using f(6) by (simp add: read_headers_def)
  have "length (rs_headers (cx_res (plain_reply []))) + 2 \<le> IOXD_MAX_RESP_HEADERS"
    "rs_head_len (cx_res (plain_reply [])) + 47 + content_type_reserved (cx_res (plain_reply [])) \<le> IOXD_RESP_HEAD_CAP" using f(6-8) by simp_all
  note T = a_coded_reply_says_so[OF f(2-5) po r this, of True, unfolded Let_def fl option.case e append_Nil]
  obtain c :: "(unit, unit) enc" where c: "read_headers (cx_res (run_on_head (plain_reply []) True)) = [(''vary'', ''accept-encoding''), (''content-encoding'', names (en_kind c))]"
    "0 < ioxd_accepts_encoding no_strtod (cx_req (plain_reply [])) (names (en_kind c))" using T by (elim exE conjE) (rule that)
  have "ioxd_accepts_encoding no_strtod (cx_req (plain_reply [])) ''br'' = 0" unfolding f(1) by code_simp
  then have "names (en_kind c) \<noteq> ''br''" using c(2) by auto
  then have "names (en_kind c) = ''gzip''" by (cases "en_kind c") (simp_all add: names_def)
  then show ?thesis using c(1) by simp
qed

text \<open>
  C33. A coded reply may not say so.  The delegate does not look at what \<open>ioxd_header\<close> answers: on a reply whose sixteen headers are all taken it still
  sets the filter of the coder it picked, and adds neither \<open>content-encoding\<close> nor \<open>vary\<close>, so the body goes out coded under a head
  that does not say it.
\<close>

theorem a_full_head_hides_the_coding:
  assumes d: "st_on_head (cx_st cx) = Some (decide_fn strtod_l lib cfg calloc malloc brotli zlib tl_free)" "\<not> rs_head_sent (cx_res cx)"
      "\<not> st_head_only (cx_st cx)" "st_filter (cx_st cx) = None"
    and full: "length (rs_headers (cx_res cx)) = IOXD_MAX_RESP_HEADERS" and n: "\<not> passes_by (cx_res cx)" "min_bytes cfg \<le> pw_len (WRITER cx)"
    and c: "pick_coder strtod_l lib cfg calloc malloc brotli zlib (cx_req cx) (pw_len (WRITER cx)) final tl_free = (Some c, tl_free')"
  shows "st_filter (cx_st (run_on_head cx final)) = Some (filter_of lib c) \<and> cx_res (run_on_head cx final) = cx_res cx \<and>
    \<not> has_header (cx_res (run_on_head cx final)) ''content-encoding''"
proof -
  have h: "snd (ioxd_header (cx_res cx) (Some k) (Some v)) = cx_res cx" for k v using full by (simp add: ioxd_header_def)
  have "st_filter (cx_st (run_on_head cx final)) = Some (filter_of lib c) \<and> cx_res (run_on_head cx final) = cx_res cx"
    using d(2,4) n c by (simp add: run_on_head_decides[OF d(1-3)] decide_def Let_def upd_st_def upd_res_def ioxd_reply_filter_def h)
  then show ?thesis using n(1) by (simp add: passes_by_def)
qed


theorem a_full_head_hides_the_coding_witness:
  "let cx = plain_reply (replicate 16 (Outside [], Outside [])) in st_filter (cx_st (run_on_head cx True)) \<noteq> None \<and> \<not> has_header (cx_res (run_on_head cx True)) ''content-encoding''"
proof -
  let ?hs = "replicate 16 (Outside [], Outside [])"
  note f = plain_reply_facts[of ?hs]
  obtain p where p: "pick_coder no_strtod copying (g_cfg_start\<lparr>min_bytes := 0\<rparr>) (\<lambda>_. Some 1) None False True (cx_req (plain_reply ?hs)) (pw_len (WRITER (plain_reply ?hs))) True (\<lambda>_. []) =
      (Some ((new_enc 1 KIND_GZIP)\<lparr>en_zs := Some ()\<rparr>), p)" using plain_reply_pick by blast
  have "\<not> passes_by (cx_res (plain_reply ?hs))"
    using f plain_reply_compressible by (simp add: passes_by_def has_header_def ioxd_slice_eq_def list_ex_iff)
  then show ?thesis using a_full_head_hides_the_coding[OF f(2-5) _ _ _ p] f(6) by (auto simp: Let_def)
qed

section \<open>The arena\<close>

lemma and_not_15: "unat (x AND NOT (15 :: u64)) = unat x - unat x mod 16"
  using and_not_mask[of x 4] by simp

lemma arena_need_bounds:
  assumes "sz < 2 ^ 63"
  shows "unat sz \<le> unat (arena_need sz)" "unat (arena_need sz) \<le> 2 ^ 63"
proof -
  have s: "unat sz < 2 ^ 63" using assms by (simp add: word_less_nat_alt)
  have "unat (sz + 15) = unat sz + 15" using s by (simp add: unat_word_ariths)
  moreover have "arena_need sz = ((sz + 15) AND NOT 15)" by (simp add: arena_need_def add.commute)
  ultimately have "unat (arena_need sz) = unat sz + 15 - (unat sz + 15) mod 16" using and_not_15[of "sz + 15"] by (simp only:)
  then have n: "unat (arena_need sz) = 16 * ((unat sz + 15) div 16)" by (simp add: minus_mod_eq_mult_div)
  then show "unat sz \<le> unat (arena_need sz)" by simp
  have "(unat sz + 15) div 16 \<le> (2 ^ 63 + 14) div 16" by (rule div_le_mono) (use s in simp)
  then show "unat (arena_need sz) \<le> 2 ^ 63" using n by simp
qed

text \<open>The blocks an encoder asks for one after another, with their sizes.\<close>

fun alloc_all :: "u64 \<Rightarrow> u64 list \<Rightarrow> ('b, 'z) enc \<Rightarrow> (u64 \<times> u64) list \<times> ('b, 'z) enc" where
  "alloc_all malloc [] c = ([], c)"
| "alloc_all malloc (sz # szs) c =
     (let (a, c) = arena_alloc malloc sz c; (bs, c) = alloc_all malloc szs c in ((a, sz) # bs, c))"

definition in_arena :: "('b, 'z) enc \<Rightarrow> u64 \<times> u64 \<Rightarrow> bool" where
  "in_arena c b = (case en_arena c of None \<Rightarrow> False | Some base \<Rightarrow> base \<le> fst b \<and> fst b < base + en_cap c)"

lemma alloc_all_ok:
  assumes "en_arena c = Some base" "unat base + unat (en_cap c) < 2 ^ 64" "en_cap c < 2 ^ 63" "en_used c \<le> en_cap c"
    "\<forall>sz \<in> set sizes. 0 < sz \<and> sz < 2 ^ 63" "malloc < base \<or> base + en_cap c \<le> malloc" "alloc_all malloc sizes c = (bs, c')"
  shows "en_arena c' = Some base \<and> en_cap c' = en_cap c \<and> sorted_wrt (\<lambda>(a, s) (b, t). unat a + unat s \<le> unat b) (filter (in_arena c) bs) \<and>
    (\<forall>(a, s) \<in> set (filter (in_arena c) bs). unat base + unat (en_used c) \<le> unat a \<and> unat a + unat s \<le> unat base + unat (en_cap c)) \<and> (\<forall>b \<in> set bs. in_arena c b \<or> fst b = malloc)"
  using assms
proof (induction sizes arbitrary: c bs c')
  case (Cons sz szs)
  note need = arena_need_bounds[of sz]
  obtain a c1 where a: "arena_alloc malloc sz c = (a, c1)" by fastforce
  obtain bs1 where bs1: "alloc_all malloc szs c1 = (bs1, c')" and bs: "bs = (a, sz) # bs1" using Cons.prems(7) a by (auto split: prod.splits)
  have u: "unat (en_used c) \<le> unat (en_cap c)" "unat (en_cap c) < 2 ^ 63" using Cons.prems(3,4) by (simp_all add: word_le_nat_alt word_less_nat_alt)
  have sz: "0 < unat sz" "unat sz \<le> unat (arena_need sz)" "unat (arena_need sz) \<le> 2 ^ 63" using need Cons.prems(5) by (auto simp: unat_gt_0)
  have bc: "unat (base + en_cap c) = unat base + unat (en_cap c)" using Cons.prems(2) by (simp add: unat_word_ariths)
  show ?case
  proof (cases "en_used c + arena_need sz \<le> en_cap c")
    case True
    have c1: "c1 = c\<lparr>en_peak := en_peak c + arena_need sz, en_used := en_used c + arena_need sz\<rparr>" "a = base + en_used c"
      using a True Cons.prems(1) by (auto simp: arena_alloc_def Let_def)
    have un: "unat (en_used c + arena_need sz) = unat (en_used c) + unat (arena_need sz)" using u sz(3) by (simp add: unat_word_ariths)
    then have fit: "unat (en_used c) + unat (arena_need sz) \<le> unat (en_cap c)" using True by (simp add: word_le_nat_alt)
    have ua: "unat a = unat base + unat (en_used c)" using c1(2) u Cons.prems(2) by (simp add: unat_word_ariths)
    have f: "en_arena c1 = Some base" "en_cap c1 = en_cap c" "en_used c1 = en_used c + arena_need sz" "in_arena c1 = in_arena c"
      using c1(1) Cons.prems(1) by (auto simp: in_arena_def fun_eq_iff)
    have I: "en_arena c' = Some base \<and> en_cap c' = en_cap c1 \<and> sorted_wrt (\<lambda>(a, s) (b, t). unat a + unat s \<le> unat b) (filter (in_arena c1) bs1) \<and>
      (\<forall>(a, s) \<in> set (filter (in_arena c1) bs1). unat base + unat (en_used c1) \<le> unat a \<and> unat a + unat s \<le> unat base + unat (en_cap c1)) \<and> (\<forall>b \<in> set bs1. in_arena c1 b \<or> fst b = malloc)"
      using Cons.IH[OF f(1) _ _ _ _ _ bs1] Cons.prems True f by auto
    moreover have "in_arena c (a, sz)" using ua bc fit sz Cons.prems(1) by (simp add: in_arena_def word_le_nat_alt word_less_nat_alt)
    moreover have "unat base + unat (en_used c) + unat sz \<le> unat b" if "(b, t) \<in> set (filter (in_arena c) bs1)" for b t
    proof -
      have "unat base + unat (en_used c1) \<le> unat b" using I that f(4) by fastforce
      then show ?thesis using sz(2) un f(3) by simp
    qed
    ultimately show ?thesis using I ua fit sz by (auto simp: bs f un simp del: unat_plus_if' dest: add_leD1)
  next
    case False
    have c1: "c1 = c\<lparr>en_peak := en_peak c + arena_need sz\<rparr>" "a = malloc" using a False Cons.prems(1) by (auto simp: arena_alloc_def Let_def)
    then have f: "en_arena c1 = Some base" "en_cap c1 = en_cap c" "en_used c1 = en_used c" "in_arena c1 = in_arena c" "\<not> in_arena c (a, sz)"
      using Cons.prems(1,6) by (auto simp: in_arena_def fun_eq_iff)
    show ?thesis using Cons.IH[OF f(1) _ _ _ _ _ bs1] Cons.prems f bs c1(2) by auto
  qed
qed simp

lemma zero_block_freed:
  assumes "en_arena c = Some base" "unat base + unat (en_cap c) < 2 ^ 64" "en_used c = en_cap c" "0 < base"
  shows "arena_free c (fst (arena_alloc malloc 0 c)) = Some (base + en_cap c)"
proof -
  have "arena_need 0 = 0" by code_simp
  moreover have "unat (base + en_cap c) = unat base + unat (en_cap c)" using assms(2) by (simp add: unat_word_ariths)
  then have "base + en_cap c \<noteq> 0" using assms(4) by (auto simp: word_less_nat_alt unat_eq_0 dest: arg_cong[of _ 0 unat])
  ultimately show ?thesis using assms(1,3) by (simp add: arena_alloc_def arena_free_def Let_def)
qed




end
