(* ===== verification/Body.thy ===== *)
theory Body
  imports Reply
begin

text \<open>
  The body of a request, read on demand: \<^verbatim>\<open>lib/http/engine.c\<close> from \<open>body_fail\<close> to \<open>drain_body\<close>.
  A chunked body is decoded line by line off the connection's reader; a body with a length is
  copied or kept.

  A loop that reads is a partial function in the option monad; that it returns is proved with what
  it computes.  A slice that is returned is its bytes, and the absent slice is
  empty.
\<close>

abbreviation IOXD_TRAILER_MAX :: nat where "IOXD_TRAILER_MAX \<equiv> 4096"

definition READER :: "ctx \<Rightarrow> pipereader" where
  "READER cx = p_in (cx_pipe cx)"

definition set_reader :: "pipereader \<Rightarrow> io \<Rightarrow> ctx \<Rightarrow> ctx" where
  "set_reader pr w cx = cx\<lparr>cx_pipe := (cx_pipe cx)\<lparr>p_in := pr\<rparr>, cx_io := w\<rparr>"

definition drop_live :: "nat \<Rightarrow> ctx \<Rightarrow> ctx" where
  "drop_live n cx = (let (pr, w) = ioxd__pipereader_drop (READER cx) (cx_io cx) n in set_reader pr w cx)"

definition examine_live :: "nat \<Rightarrow> ctx \<Rightarrow> ctx" where
  "examine_live n cx = set_reader (ioxd__pipereader_examine (READER cx) n) (cx_io cx) cx"

definition slice_bytes :: "ctx \<Rightarrow> place \<times> nat \<Rightarrow> bytes" where
  "slice_bytes cx sp = bytes_at (READER cx) (cx_io cx) sp"

definition body_fail :: "ctx \<Rightarrow> int \<Rightarrow> ctx" where
  "body_fail cx status = upd_res (\<lambda>r. r\<lparr>rs_status := status\<rparr>) (upd_st (\<lambda>s. s\<lparr>st_body_err := status\<rparr>) cx)"

definition body_gone :: "ctx \<Rightarrow> ctx" where
  "body_gone cx = upd_st (\<lambda>s. s\<lparr>st_body_err := - 1\<rparr>) cx"

definition continue_text :: bytes where
  "continue_text = ''HTTP/1.1 100 Continue'' @ CRLF @ CRLF"

definition body_begin :: "ctx \<Rightarrow> bool \<times> ctx" where
  "body_begin cx =
     (if \<not> rq_expect_continue (cx_req cx) \<or> st_continue_sent (cx_st cx) \<or> rs_head_sent (cx_res cx) then (True, cx)
      else
        let cx = upd_st (\<lambda>s. s\<lparr>st_continue_sent := True\<rparr>) cx;
            (rc, pw, w) = ioxd__pipewriter_through (WRITER cx) (cx_io cx) continue_text;
            cx = set_writer pw w cx
        in if rc < 0 then (False, body_gone cx) else (True, cx))"

definition body_bytes :: "ctx \<Rightarrow> bool \<times> (place \<times> nat) \<times> ctx" where
  "body_bytes cx =
     (let (rc, live, pr, w) = ioxd__pipereader_read (READER cx) (cx_io cx);
          cx = set_reader pr w cx
      in if rc > 0 then (True, live, cx)
      else if rc = IOXD_PIPE_FULL then (False, live, body_fail cx 413)
      else (False, live, body_gone cx))"

text \<open>The line at the front of the live bytes: its length without the CRLF.\<close>

partial_function (option) body_line :: "ctx \<Rightarrow> (nat option \<times> (place \<times> nat) \<times> ctx) option" where
  "body_line cx =
     (let (ok, live, cx) = body_bytes cx in
      if \<not> ok then Some (None, live, cx)
      else case memmem2 CR LF (slice_bytes cx live) of
        Some i \<Rightarrow> Some (Some i, live, cx)
      | None \<Rightarrow> body_line (examine_live (snd live) cx))"

partial_function (option) trailers_loop :: "ctx \<Rightarrow> nat \<Rightarrow> (bool \<times> ctx) option" where
  "trailers_loop cx taken = do {
     (len, _, cx) \<leftarrow> body_line cx;
     (case len of
        None \<Rightarrow> Some (False, cx)
      | Some len \<Rightarrow>
          let taken = taken + len + 2 in
          if taken > IOXD_TRAILER_MAX then Some (False, body_fail cx 400)
          else
            let cx = drop_live (len + 2) cx in
            if len = 0 then Some (True, upd_st (\<lambda>s. s\<lparr>st_body_done := True\<rparr>) cx) else trailers_loop cx taken) }"

definition chunk_trailers :: "ctx \<Rightarrow> (bool \<times> ctx) option" where
  "chunk_trailers cx = trailers_loop cx 0"

text \<open>The size digits: the value and how many there are, or a size that does not fit.\<close>

fun hex_size :: "bytes \<Rightarrow> u64 \<Rightarrow> nat \<Rightarrow> (u64 \<times> nat) option" where
  "hex_size [] sz i = Some (sz, i)"
| "hex_size (c # cs) sz i =
     (let digit = ioxd__http_hexval c in
      if digit < 0 then Some (sz, i)
      else if sz > drop_bit 4 SIZE_MAX then None
      else hex_size cs (push_bit 4 sz OR of_int digit) (i + 1))"

definition size_line_ended :: "bytes \<Rightarrow> nat \<Rightarrow> bool" where
  "size_line_ended line i =
     (let len = length line; j = i + length (takeWhile (\<lambda>c. c = CHR '' '' \<or> c = TAB) (drop i line))
      in j = len \<and> j = i \<or> j + 1 < len \<and> line ! j = CHR '';'')"

definition chunk_header :: "ctx \<Rightarrow> (bool \<times> ctx) option" where
  "chunk_header cx = do {
     (len, live, cx) \<leftarrow> body_line cx;
     (case len of
        None \<Rightarrow> Some (False, if st_body_err (cx_st cx) = 413 then body_fail cx 400 else cx)
      | Some len \<Rightarrow>
          let line = take len (slice_bytes cx live) in
          case hex_size line 0 0 of
            None \<Rightarrow> Some (False, body_fail cx 400)
          | Some (sz, i) \<Rightarrow>
              if i = 0 \<or> \<not> size_line_ended line i then Some (False, body_fail cx 400)
              else
                let cx = drop_live (len + 2) cx in
                if sz = 0 then chunk_trailers cx
                else Some (True, upd_st (\<lambda>s. s\<lparr>st_chunk_left := sz\<rparr>) cx)) }"

partial_function (option) chunk_end_loop :: "ctx \<Rightarrow> (bool \<times> (place \<times> nat) \<times> ctx) option" where
  "chunk_end_loop cx =
     (let (ok, live, cx) = body_bytes cx in
      if \<not> ok then Some (False, live, cx)
      else if snd live \<ge> 2 then Some (True, live, cx)
      else chunk_end_loop (examine_live (snd live) cx))"

definition chunk_end :: "ctx \<Rightarrow> (bool \<times> ctx) option" where
  "chunk_end cx = do {
     (ok, live, cx) \<leftarrow> chunk_end_loop cx;
     (if \<not> ok then Some (False, cx)
      else if take 2 (slice_bytes cx live) \<noteq> CRLF then Some (False, body_fail cx 400)
      else Some (True, drop_live 2 cx)) }"


section \<open>The whole body\<close>

definition keep_live :: "nat \<Rightarrow> ctx \<Rightarrow> place \<times> ctx" where
  "keep_live n cx = (let (k, pr, w) = ioxd__pipereader_keep (READER cx) (cx_io cx) n in (k, set_reader pr w cx))"

definition take_data :: "nat \<Rightarrow> ctx \<Rightarrow> ctx" where
  "take_data n cx = upd_st (\<lambda>s. s\<lparr>st_chunk_left := st_chunk_left s - of_nat n, st_body_read := st_body_read s + of_nat n\<rparr>) cx"

partial_function (option) all_chunks :: "ctx \<Rightarrow> (bool \<times> ctx) option" where
  "all_chunks cx =
     (if st_body_done (cx_st cx) then Some (True, cx)
      else if st_chunk_left (cx_st cx) = 0 then
        do { (ok, cx) \<leftarrow> chunk_header cx; (if \<not> ok then Some (False, cx) else all_chunks cx) }
      else
        let (ok, live, cx) = body_bytes cx in
        if \<not> ok then Some (False, cx)
        else
          let n = (if of_nat (snd live) < st_chunk_left (cx_st cx) then snd live else unat (st_chunk_left (cx_st cx)));
              (kept, cx) = keep_live n cx
          in if kept = Nullptr then Some (False, body_fail cx 413)
          else
            let cx = take_data n cx in
            if st_chunk_left (cx_st cx) = 0 then
              do { (ok, cx) \<leftarrow> chunk_end cx; (if \<not> ok then Some (False, cx) else all_chunks cx) }
            else all_chunks cx)"

partial_function (option) all_length :: "ctx \<Rightarrow> place \<times> nat \<Rightarrow> (bool \<times> (place \<times> nat) \<times> ctx) option" where
  "all_length cx sp =
     (if rq_content_length (cx_req cx) \<noteq> 0 \<and> of_nat (snd sp) < rq_content_length (cx_req cx) then
        let cx = (if snd sp \<noteq> 0 then examine_live (snd sp) cx else cx);
            (ok, sp, cx) = body_bytes cx
        in if \<not> ok then Some (False, sp, cx) else all_length cx sp
      else Some (True, sp, cx))"

definition set_body :: "bytes \<Rightarrow> ctx \<Rightarrow> ctx" where
  "set_body b cx = cx\<lparr>cx_req := (cx_req cx)\<lparr>rq_body := b\<rparr>\<rparr>"

definition ioxd_body_all :: "ctx \<Rightarrow> (bytes \<times> ctx) option" where
  "ioxd_body_all cx =
     (if st_body_whole (cx_st cx) then Some (rq_body (cx_req cx), cx)
      else if st_body_read (cx_st cx) \<noteq> 0 \<or> st_body_err (cx_st cx) \<noteq> 0 then Some ([], cx)
      else
        let (ok, cx) = (if \<not> st_body_done (cx_st cx) then body_begin cx else (True, cx)) in
        if \<not> ok then Some ([], cx)
        else if rq_chunked (cx_req cx) then do {
          (ok, cx) \<leftarrow> all_chunks cx;
          (if \<not> ok then Some ([], cx)
           else
             let cx = set_body (slice_bytes cx (ioxd__pipereader_run (READER cx))) cx;
                 cx = upd_st (\<lambda>s. s\<lparr>st_body_whole := True\<rparr>) cx
             in Some (rq_body (cx_req cx), cx)) }
        else if rq_content_length (cx_req cx) > of_nat (pr_cap (READER cx)) then Some ([], body_fail cx 413)
        else do {
          (ok, live, cx) \<leftarrow> all_length cx (Nullptr, 0);
          (if \<not> ok then Some ([], cx)
           else
             let n = unat (rq_content_length (cx_req cx));
                 (kept, cx) = (if n \<noteq> 0 then keep_live n cx else (fst live, cx))
             in if n \<noteq> 0 \<and> kept = Nullptr then Some ([], body_fail cx 413)
             else
               let cx = set_body (slice_bytes cx (kept, n)) cx;
                   cx = upd_st (\<lambda>s. s\<lparr>st_body_read := of_nat n, st_body_done := True, st_body_whole := True\<rparr>) cx
               in Some (rq_body (cx_req cx), cx)) })"


section \<open>The body in pieces\<close>

text \<open>The result and the bytes that were written to the destination.\<close>

definition copy_live :: "nat \<Rightarrow> ctx \<Rightarrow> int \<times> bytes \<times> ctx" where
  "copy_live n cx =
     (let (got, dst, pr, w) = ioxd__pipereader_copy (READER cx) (cx_io cx) n in (got, dst, set_reader pr w cx))"

definition fixed_data :: "ctx \<Rightarrow> nat \<Rightarrow> int \<times> bytes \<times> ctx" where
  "fixed_data cx n =
     (let remaining = rq_content_length (cx_req cx) - st_body_read (cx_st cx);
          n = (if of_nat n > remaining then unat remaining else n);
          (got, dst, cx) = copy_live n cx
      in if got \<le> 0 then (- 1, dst, body_gone cx)
      else
        let cx = upd_st (\<lambda>s. s\<lparr>st_body_read := st_body_read s + of_int got\<rparr>) cx;
            cx = (if st_body_read (cx_st cx) = rq_content_length (cx_req cx) then upd_st (\<lambda>s. s\<lparr>st_body_done := True\<rparr>) cx else cx)
        in (got, dst, cx))"

definition chunk_data :: "ctx \<Rightarrow> nat \<Rightarrow> (int \<times> bytes \<times> ctx) option" where
  "chunk_data cx n =
     (let n = (if of_nat n > st_chunk_left (cx_st cx) then unat (st_chunk_left (cx_st cx)) else n);
          (got, dst, cx) = copy_live n cx
      in if got \<le> 0 then Some (- 1, dst, body_gone cx)
      else
        let cx = take_data (nat got) cx in
        if st_chunk_left (cx_st cx) = 0 then do { (_, cx) \<leftarrow> chunk_end cx; Some (got, dst, cx) }
        else Some (got, dst, cx))"

definition next_data :: "ctx \<Rightarrow> nat \<Rightarrow> (int \<times> bytes \<times> ctx) option" where
  "next_data cx n =
     (if \<not> rq_chunked (cx_req cx) then Some (fixed_data cx n)
      else if st_chunk_left (cx_st cx) = 0 then do { (ok, cx) \<leftarrow> chunk_header cx; Some (if ok then 0 else - 1, [], cx) }
      else chunk_data cx n)"

partial_function (option) until_loop :: "ctx \<Rightarrow> nat \<Rightarrow> bytes \<Rightarrow> (int \<times> bytes \<times> ctx) option" where
  "until_loop cx n out =
     (let got = length out in
      if got < n \<and> \<not> st_body_done (cx_st cx) then do {
        (k, dst, cx) \<leftarrow> next_data cx (n - got);
        (if k < 0 then Some (- 1, out @ dst, cx) else until_loop cx n (out @ dst)) }
      else Some (int got, out, cx))"

definition ioxd_body_read_until :: "ctx \<Rightarrow> nat \<Rightarrow> (int \<times> bytes \<times> ctx) option" where
  "ioxd_body_read_until cx n =
     (if st_body_err (cx_st cx) \<noteq> 0 then Some (- 1, [], cx)
      else if n = 0 \<or> st_body_done (cx_st cx) then Some (0, [], cx)
      else
        let (ok, cx) = body_begin cx in
        if \<not> ok then Some (- 1, [], cx)
        else until_loop cx (if n > INT_MAX then INT_MAX else n) [])"

partial_function (option) next_loop :: "ctx \<Rightarrow> nat \<Rightarrow> bytes \<Rightarrow> (int \<times> bytes \<times> ctx) option" where
  "next_loop cx want out =
     (let got = length out in
      if got < want then do {
        (k, dst, cx) \<leftarrow> chunk_data cx (want - got);
        (if k < 0 then Some (- 1, out @ dst, cx) else next_loop cx want (out @ dst)) }
      else Some (int got, out, cx))"

definition ioxd_body_read_next_chunk :: "ctx \<Rightarrow> nat \<Rightarrow> (int \<times> bytes \<times> ctx) option" where
  "ioxd_body_read_next_chunk cx cap =
     (if st_body_err (cx_st cx) \<noteq> 0 \<or> \<not> rq_chunked (cx_req cx) then Some (- 1, [], cx)
      else if st_body_done (cx_st cx) then Some (0, [], cx)
      else
        let (ok, cx) = body_begin cx in
        if \<not> ok then Some (- 1, [], cx)
        else do {
          (ok, cx) \<leftarrow> (if st_chunk_left (cx_st cx) = 0 then chunk_header cx else Some (True, cx));
          (if \<not> ok then Some (- 1, [], cx)
           else if st_body_done (cx_st cx) then Some (0, [], cx)
           else if st_chunk_left (cx_st cx) > of_nat cap \<or> cap > INT_MAX then Some (- 1, [], body_fail cx 413)
           else next_loop cx (unat (st_chunk_left (cx_st cx))) []) })"

partial_function (option) drain_loop :: "ctx \<Rightarrow> nat \<Rightarrow> ctx option" where
  "drain_loop cx drained =
     (if \<not> st_body_done (cx_st cx) \<and> st_body_err (cx_st cx) = 0 then
        if drained \<ge> IOXD_DRAIN_MAX then Some (upd_res (\<lambda>r. r\<lparr>rs_close := True\<rparr>) cx)
        else
          (case ioxd_body_read_until cx 4096 of
             None \<Rightarrow> None
           | Some (n, _, cx) \<Rightarrow> if n \<le> 0 then Some cx else drain_loop cx (drained + nat n))
      else Some cx)"

definition drain_body :: "ctx \<Rightarrow> ctx option" where
  "drain_body cx = drain_loop cx 0"

end
