(* ===== verification/Body_Decode.thy ===== *)
theory Body_Decode
  imports Body Reply_Wire
begin

text \<open>
  What the body readers deliver.  The chunked coding is given as a grammar, and its decoder as a
  step relation between how much of the stream was taken, what was delivered and what is left of
  the current chunk; every call of the engine moves along it, whatever the input and however it
  arrives in buffers, and every call returns.
\<close>

section \<open>Reading without failing\<close>

definition reading :: "ctx \<Rightarrow> bool" where
  "reading cx \<longleftrightarrow> reader_ok (READER cx) (cx_io cx) \<and> pr_error (READER cx) = 0"

definition stream :: "ctx \<Rightarrow> bytes" where
  "stream cx = Pipe_Stream.pending (READER cx) (cx_io cx)"

definition live_bytes :: "ctx \<Rightarrow> bytes" where
  "live_bytes cx = live (READER cx) (cx_io cx)"

definition kept_bytes :: "ctx \<Rightarrow> bytes" where
  "kept_bytes cx = run (READER cx) (cx_io cx)"

lemma stream_live: "stream cx = live_bytes cx @ concat (io_rx (cx_io cx))"
  by (simp add: stream_def live_bytes_def Pipe_Stream.pending_def)

definition same_rest :: "ctx \<Rightarrow> ctx \<Rightarrow> bool" where
  "same_rest cx cx' \<longleftrightarrow> cx_req cx' = cx_req cx \<and> cx_res cx' = cx_res cx \<and> cx_st cx' = cx_st cx \<and> WRITER cx' = WRITER cx"

lemma same_rest_refl [simp]: "same_rest cx cx"
  by (simp add: same_rest_def)

lemma same_rest_trans: "same_rest a b \<Longrightarrow> same_rest b c \<Longrightarrow> same_rest a c"
  by (simp add: same_rest_def)

text \<open>A call that took \<open>t\<close> off the stream, or failed with an error recorded.\<close>

definition took :: "bytes \<Rightarrow> ctx \<Rightarrow> ctx \<Rightarrow> bool" where
  "took t cx cx' \<longleftrightarrow> reading cx' \<and> stream cx = t @ stream cx' \<and> kept_bytes cx' = kept_bytes cx"

lemma took_refl: "reading cx \<Longrightarrow> took [] cx cx"
  by (simp add: took_def)

lemma took_trans: "took s a b \<Longrightarrow> took t b c \<Longrightarrow> took (s @ t) a c"
  by (auto simp: took_def)

lemma reader_access' [simp]:
  "READER (upd_st f cx) = READER cx" "READER (upd_res g cx) = READER cx" "READER (set_writer pw w cx) = READER cx"
  "READER (set_body b cx) = READER cx" "cx_io (set_body b cx) = cx_io cx" "cx_st (set_body b cx) = cx_st cx"
  by (simp_all add: READER_def upd_st_def upd_res_def set_writer_def set_body_def)

lemma reader_access [simp]:
  "READER (set_reader pr w cx) = pr" "cx_io (set_reader pr w cx) = w" "cx_res (set_reader pr w cx) = cx_res cx"
  "cx_st (set_reader pr w cx) = cx_st cx" "cx_req (set_reader pr w cx) = cx_req cx" "WRITER (set_reader pr w cx) = WRITER cx"
  by (simp_all add: READER_def set_reader_def WRITER_def)

lemma views_st [simp]:
  "reading (upd_st f cx) = reading cx" "stream (upd_st f cx) = stream cx" "kept_bytes (upd_st f cx) = kept_bytes cx"
  "live_bytes (upd_st f cx) = live_bytes cx"
  by (simp_all add: reading_def stream_def kept_bytes_def live_bytes_def)

lemma body_err_set [simp]:
  "st_body_err (cx_st (body_fail cx s)) = s" "st_body_err (cx_st (body_gone cx)) = - 1"
  by (simp_all add: body_fail_def body_gone_def)

text \<open>The stream is no longer read once an error is recorded; the reader stays well-formed for its release.\<close>

definition broken :: "ctx \<Rightarrow> bool" where
  "broken cx \<longleftrightarrow> st_body_err (cx_st cx) \<noteq> 0 \<and> reader_ok (READER cx) (cx_io cx) \<and> pr_error (READER cx) \<le> 0"

lemma broken_fail: "reading cx \<Longrightarrow> s \<noteq> 0 \<Longrightarrow> broken (body_fail cx s)"
  by (simp add: broken_def body_fail_def reading_def)

text \<open>Every read that waited for input leaves less of it to come.\<close>

lemma read_loop_progress:
  assumes "read_loop pr w = (rc, sp, pr', w')" and "rc > 0"
  shows "sp = live_span pr'" and "(pr' = pr \<and> w' = w \<and> snd (live_span pr) > examined pr) \<or> length (io_rx w') < length (io_rx w)"
proof -
  have "sp = live_span pr' \<and> ((pr' = pr \<and> w' = w \<and> snd (live_span pr) > examined pr) \<or> length (io_rx w') < length (io_rx w))"
    using assms
  proof (induction pr w rule: read_loop.induct)
    case (1 pr w)
    obtain r q v where m: "Pipe_Reader.more pr w = (r, q, v)" by (metis surj_pair)
    show ?case
    proof (cases "snd (live_span pr) > examined pr")
      case True
      then show ?thesis using 1(2) by (auto simp: read_loop.simps[of pr w])
    next
      case False
      then have r: "r > 0" "read_loop q v = (rc, sp, pr', w')" using 1(2,3) m by (auto simp: read_loop.simps[of pr w] split: if_splits)
      have "length (io_rx v) < length (io_rx w)" using more_shrinks[OF m r(1)] .
      then show ?thesis using 1(1)[OF False m[symmetric] refl refl _ r(2) 1(3)] r(1) by auto
    qed
  qed
  then show "sp = live_span pr'" and "(pr' = pr \<and> w' = w \<and> snd (live_span pr) > examined pr) \<or> length (io_rx w') < length (io_rx w)" by auto
qed

definition unread :: "ctx \<Rightarrow> nat" where
  "unread cx = 2 * length (io_rx (cx_io cx)) + (if snd (live_span (READER cx)) > examined (READER cx) then 1 else 0)"

lemma body_bytes_progress:
  assumes "reading cx" and "body_bytes cx = (True, sp, cx')"
  shows "unread (examine_live (snd sp) cx') < unread cx"
proof -
  obtain rc sp' pr w where r: "ioxd__pipereader_read (READER cx) (cx_io cx) = (rc, sp', pr, w)" by (metis surj_pair)
  then have rc: "rc > 0" and e: "sp = sp'" "cx' = set_reader pr w cx"
    using assms by (auto simp: body_bytes_def Let_def split: if_splits)
  have l: "read_loop (READER cx) (cx_io cx) = (rc, sp', pr, w)"
    using r assms(1) by (auto simp: ioxd__pipereader_read_def reading_def)
  note p = read_loop_progress[OF l rc]
  have "live_span (pr\<lparr>examined := n\<rparr>) = live_span pr" for n by (simp add: live_span_def)
  then show ?thesis using p e by (auto simp: unread_def examine_live_def ioxd__pipereader_examine_def)
qed

lemma body_bytes_ok:
  assumes R: "reading cx" and b: "body_bytes cx = (ok, sp, cx')"
  shows "if ok then took [] cx cx' \<and> same_rest cx cx' \<and> slice_bytes cx' sp = live_bytes cx' \<and> snd sp = length (live_bytes cx') \<and> live_bytes cx' \<noteq> []
    else broken cx'"
proof -
  obtain rc sp' pr w where r: "ioxd__pipereader_read (READER cx) (cx_io cx) = (rc, sp', pr, w)" by (metis surj_pair)
  have l: "read_loop (READER cx) (cx_io cx) = (rc, sp', pr, w)" using r R by (simp add: ioxd__pipereader_read_def reading_def)
  have o: "reader_ok (READER cx) (cx_io cx)" "pr_error (READER cx) = 0" using R by (auto simp: reading_def)
  note k = read_loop_ok[OF o l]
  have ok': "reader_ok pr w" using k by (simp add: conserves_def)
  show ?thesis
  proof (cases "rc > 0")
    case True
    then have e: "ok" "sp = sp'" "cx' = set_reader pr w cx" using b r by (auto simp: body_bytes_def)
    have "sp' = live_span pr" by (rule read_loop_progress(1)[OF l True])
    then show ?thesis using e k True o ok' live_length[OF ok']
      by (auto simp: took_def reading_def stream_def kept_bytes_def live_bytes_def slice_bytes_def same_rest_def conserves_def)
  next
    case False
    then have e: "\<not> ok" "cx' = body_fail (set_reader pr w cx) 413 \<or> cx' = body_gone (set_reader pr w cx)"
      using b r by (auto simp: body_bytes_def Let_def split: if_splits)
    then show ?thesis using ok' k False by (cases "rc = 0") (auto simp: broken_def body_fail_def body_gone_def)
  qed
qed

lemma examine_ok:
  assumes "reading cx" shows "took [] cx (examine_live n cx)" "same_rest cx (examine_live n cx)"
  using assms by (simp_all add: took_def reading_def stream_def kept_bytes_def examine_live_def ioxd__pipereader_examine_def
      same_rest_def Pipe_Stream.pending_def)

lemma drop_ok:
  assumes "reading cx" and "n \<le> length (live_bytes cx)"
  shows "took (take n (live_bytes cx)) cx (drop_live n cx)" "same_rest cx (drop_live n cx)"
proof -
  obtain pr w where c: "consume (READER cx) (cx_io cx) n = (pr, w)" by fastforce
  have o: "reader_ok (READER cx) (cx_io cx)" "pr_error (READER cx) = 0" using assms by (auto simp: reading_def)
  note k = consume_ok[OF o(1) c] and f = consume_flags[OF c]
  have e: "drop_live n cx = set_reader pr w cx" using c by (simp add: drop_live_def ioxd__pipereader_drop_def)
  show "took (take n (live_bytes cx)) cx (drop_live n cx)"
    using k f o by (simp add: e took_def reading_def stream_def kept_bytes_def live_bytes_def Pipe_Stream.pending_def)
  show "same_rest cx (drop_live n cx)" by (simp add: e same_rest_def)
qed


section \<open>Lines\<close>

text \<open>A line has no CRLF before its own.\<close>

definition is_line :: "bytes \<Rightarrow> bool" where
  "is_line l \<longleftrightarrow> memmem2 CR LF (l @ CRLF) = Some (length l)"

lemma memmem2_take: "memmem2 a b s = Some i \<Longrightarrow> memmem2 a b (take (i + 2) s) = Some i"
proof (induction a b s arbitrary: i rule: memmem2.induct)
  case (1 a b x y ys)
  then show ?case by (cases i) (auto split: if_splits)
qed simp_all

lemma memmem2_line:
  assumes "memmem2 CR LF s = Some i"
  shows "is_line (take i s)" and "take (i + 2) s = take i s @ CRLF" and "i + 2 \<le> length s"
proof -
  show l: "i + 2 \<le> length s" by (rule memmem2_Some_bound[OF assms])
  have n: "s ! i = CR" "s ! Suc i = LF" using memmem2_Some[OF assms] by auto
  have "take (i + 2) s = take i s @ [s ! i, s ! Suc i]" using l by (simp add: take_Suc_conv_app_nth)
  then show t: "take (i + 2) s = take i s @ CRLF" using n by simp
  show "is_line (take i s)" using memmem2_take[OF assms] l unfolding is_line_def t by simp
qed

lemma memmem2_append: "memmem2 a b s = Some i \<Longrightarrow> memmem2 a b (s @ t) = Some i"
proof (induction a b s arbitrary: i rule: memmem2.induct)
  case (1 a b x y ys)
  then show ?case by (cases i) (auto split: if_splits)
qed simp_all

lemma is_line_unique: "is_line l \<Longrightarrow> is_line m \<Longrightarrow> l @ CRLF @ s = m @ CRLF @ t \<Longrightarrow> l = m \<and> s = t"
proof -
  assume l: "is_line l" and m: "is_line m" and e: "l @ CRLF @ s = m @ CRLF @ t"
  have "memmem2 CR LF (l @ CRLF @ s) = Some (length l)" "memmem2 CR LF (m @ CRLF @ t) = Some (length m)"
    using memmem2_append[of CR LF "l @ CRLF" "length l" s] memmem2_append[of CR LF "m @ CRLF" "length m" t] l m by (simp_all add: is_line_def)
  then have "length l = length m" using e by simp
  then show "l = m \<and> s = t" using e by simp
qed

lemma body_line_ok:
  assumes "reading cx"
  shows "\<exists>r sp cx'. body_line cx = Some (r, sp, cx') \<and>
    (case r of
       None \<Rightarrow> broken cx'
     | Some n \<Rightarrow> took [] cx cx' \<and> same_rest cx cx' \<and> slice_bytes cx' sp = live_bytes cx' \<and> memmem2 CR LF (live_bytes cx') = Some n)"
  using assms
proof (induction "unread cx" arbitrary: cx rule: less_induct)
  case less
  obtain ok sp cx1 where b: "body_bytes cx = (ok, sp, cx1)" by (metis surj_pair)
  note B = body_bytes_ok[OF less.prems b]
  show ?case
  proof (cases ok)
    case False
    then show ?thesis using b B by (subst body_line.simps) simp
  next
    case True
    then have B: "took [] cx cx1" "same_rest cx cx1" "slice_bytes cx1 sp = live_bytes cx1" using B by auto
    show ?thesis
    proof (cases "memmem2 CR LF (live_bytes cx1)")
      case (Some n)
      then show ?thesis using b B True by (subst body_line.simps) simp
    next
      case None
      define cx2 where "cx2 = examine_live (snd sp) cx1"
      have r1: "reading cx1" using B by (simp add: took_def)
      have m: "unread cx2 < unread cx" using body_bytes_progress[OF less.prems] b True by (simp add: cx2_def)
      have t: "took [] cx cx2" "same_rest cx cx2"
        using took_trans[OF B(1) examine_ok(1)[OF r1]] same_rest_trans[OF B(2) examine_ok(2)[OF r1]] by (simp_all add: cx2_def)
      then have "reading cx2" by (simp add: took_def)
      from less.hyps[OF m this] obtain r sp' cx' where i: "body_line cx2 = Some (r, sp', cx')"
        "case r of None \<Rightarrow> broken cx' | Some n \<Rightarrow> took [] cx2 cx' \<and> same_rest cx2 cx' \<and> slice_bytes cx' sp' = live_bytes cx' \<and>
           memmem2 CR LF (live_bytes cx') = Some n" by blast
      have "body_line cx = body_line cx2" using b True None B(3) by (subst body_line.simps) (simp add: cx2_def)
      then show ?thesis using i took_trans[OF t(1)] same_rest_trans[OF t(2)] by (cases r) fastforce+
    qed
  qed
qed

text \<open>Taking the line with its CRLF.\<close>

lemma drop_line:
  assumes "reading cx" and "memmem2 CR LF (live_bytes cx) = Some n"
  shows "took (take n (live_bytes cx) @ CRLF) cx (drop_live (n + 2) cx)" "same_rest cx (drop_live (n + 2) cx)"
  using drop_ok[OF assms(1) memmem2_line(3)[OF assms(2)]] memmem2_line(2)[OF assms(2)] by simp_all


section \<open>The chunked coding\<close>

inductive trailers :: "bytes \<Rightarrow> bool" where
  end_of_trailers: "trailers CRLF"
| trailer_field: "is_line l \<Longrightarrow> l \<noteq> [] \<Longrightarrow> trailers t \<Longrightarrow> trailers (l @ CRLF @ t)"

definition size_line :: "bytes \<Rightarrow> u64 \<Rightarrow> bool" where
  "size_line l sz \<longleftrightarrow> is_line l \<and> (\<exists>i. hex_size l 0 0 = Some (sz, i) \<and> i \<noteq> 0 \<and> size_line_ended l i)"

text \<open>
  The decoder: what it took off the stream, what it delivered, the bytes left of the chunk it is in
  and whether the body is over.
\<close>

inductive decoded :: "bytes \<Rightarrow> bytes \<Rightarrow> u64 \<Rightarrow> bool \<Rightarrow> bool" where
  dec_start: "decoded [] [] 0 False"
| dec_size: "decoded e d 0 False \<Longrightarrow> size_line l sz \<Longrightarrow> sz \<noteq> 0 \<Longrightarrow> decoded (e @ l @ CRLF) d sz False"
| dec_data: "decoded e d k False \<Longrightarrow> 0 < length x \<Longrightarrow> length x < unat k \<Longrightarrow> decoded (e @ x) (d @ x) (k - of_nat (length x)) False"
| dec_end: "decoded e d k False \<Longrightarrow> 0 < length x \<Longrightarrow> length x = unat k \<Longrightarrow> decoded (e @ x @ CRLF) (d @ x) 0 False"
| dec_last: "decoded e d 0 False \<Longrightarrow> size_line l 0 \<Longrightarrow> trailers t \<Longrightarrow> decoded (e @ l @ CRLF @ t) d 0 True"

lemma trailers_loop_ok:
  assumes "reading cx"
  shows "\<exists>ok cx'. trailers_loop cx taken = Some (ok, cx') \<and>
    (if ok then \<exists>t. trailers t \<and> took t cx cx' \<and> cx_st cx' = (cx_st cx)\<lparr>st_body_done := True\<rparr> \<and>
       cx_req cx' = cx_req cx \<and> cx_res cx' = cx_res cx \<and> WRITER cx' = WRITER cx
     else broken cx')"
  using assms
proof (induction "IOXD_TRAILER_MAX - taken" arbitrary: cx taken rule: less_induct)
  case less
  obtain r sp cx1 where b: "body_line cx = Some (r, sp, cx1)"
    "case r of None \<Rightarrow> broken cx1 | Some n \<Rightarrow> took [] cx cx1 \<and> same_rest cx cx1 \<and> slice_bytes cx1 sp = live_bytes cx1 \<and>
       memmem2 CR LF (live_bytes cx1) = Some n"
    using body_line_ok[OF less.prems] by blast
  show ?case
  proof (cases r)
    case None
    then show ?thesis using b by (subst trailers_loop.simps) auto
  next
    case (Some n)
    then have t: "took [] cx cx1" "same_rest cx cx1" "memmem2 CR LF (live_bytes cx1) = Some n" using b(2) by auto
    have r1: "reading cx1" using t(1) by (simp add: took_def)
    define l where "l = take n (live_bytes cx1)"
    have l: "is_line l" "length l = n" using memmem2_line[OF t(3)] by (auto simp: l_def)
    define cx2 where "cx2 = drop_live (n + 2) cx1"
    have d: "took (l @ CRLF) cx cx2" "same_rest cx cx2"
      using took_trans[OF t(1) drop_line(1)[OF r1 t(3)]] same_rest_trans[OF t(2) drop_line(2)[OF r1 t(3)]] by (simp_all add: l_def cx2_def)
    have e: "trailers_loop cx taken = (if taken + n + 2 > IOXD_TRAILER_MAX then Some (False, body_fail cx1 400)
        else if n = 0 then Some (True, upd_st (\<lambda>s. s\<lparr>st_body_done := True\<rparr>) cx2) else trailers_loop cx2 (taken + n + 2))"
      using b(1) Some by (subst trailers_loop.simps) (simp add: cx2_def Let_def)
    consider (long) "taken + n + 2 > IOXD_TRAILER_MAX" | (last) "\<not> taken + n + 2 > IOXD_TRAILER_MAX" "n = 0"
      | (more) "\<not> taken + n + 2 > IOXD_TRAILER_MAX" "n \<noteq> 0" by blast
    then show ?thesis
    proof cases
      case long
      then show ?thesis using e broken_fail[OF r1] by auto
    next
      case last
      then have "l = []" using l(2) by simp
      then have "trailers (l @ CRLF)" using end_of_trailers by simp
      then show ?thesis using e last d by (auto simp: took_def same_rest_def intro!: exI[of _ "l @ CRLF"])
    next
      case more
      have r2: "reading cx2" using d(1) by (simp add: took_def)
      have "IOXD_TRAILER_MAX - (taken + n + 2) < IOXD_TRAILER_MAX - taken" using more by simp
      from less.hyps[OF this r2] obtain ok cx' where i: "trailers_loop cx2 (taken + n + 2) = Some (ok, cx')"
        "if ok then \<exists>t. trailers t \<and> took t cx2 cx' \<and> cx_st cx' = (cx_st cx2)\<lparr>st_body_done := True\<rparr> \<and>
           cx_req cx' = cx_req cx2 \<and> cx_res cx' = cx_res cx2 \<and> WRITER cx' = WRITER cx2 else broken cx'" by blast
      show ?thesis
      proof (cases ok)
        case True
        then obtain t where t: "trailers t" "took t cx2 cx'" using i(2) by auto
        have "trailers (l @ CRLF @ t)" using trailer_field[OF l(1) _ t(1)] l(2) more by auto
        moreover have "took (l @ CRLF @ t) cx cx'" using took_trans[OF d(1) t(2)] by simp
        ultimately show ?thesis using e more i True d(2) by (auto simp: same_rest_def)
      next
        case False
        then show ?thesis using e more i by auto
      qed
    qed
  qed
qed

text \<open>Where a reader is in the body that began with the stream \<open>S\<close>.\<close>

definition at_body :: "bytes \<Rightarrow> bytes \<Rightarrow> ctx \<Rightarrow> bool" where
  "at_body S data cx \<longleftrightarrow>
     reading cx \<and> (\<exists>e. S = e @ stream cx \<and> decoded e data (st_chunk_left (cx_st cx)) (st_body_done (cx_st cx)))"

definition same_frame :: "ctx \<Rightarrow> ctx \<Rightarrow> bool" where
  "same_frame cx cx' \<longleftrightarrow> cx_req cx' = cx_req cx \<and> WRITER cx' = WRITER cx \<and> st_body_whole (cx_st cx') = st_body_whole (cx_st cx) \<and>
     st_body_err (cx_st cx') = st_body_err (cx_st cx)"

lemma same_frame_trans: "same_frame a b \<Longrightarrow> same_frame b c \<Longrightarrow> same_frame a c"
  by (simp add: same_frame_def)

lemma chunk_header_ok:
  assumes A: "at_body S data cx" and k: "st_chunk_left (cx_st cx) = 0" and nd: "\<not> st_body_done (cx_st cx)"
  shows "\<exists>ok cx'. chunk_header cx = Some (ok, cx') \<and>
    (if ok then at_body S data cx' \<and> kept_bytes cx' = kept_bytes cx \<and> same_frame cx cx' \<and>
       st_body_read (cx_st cx') = st_body_read (cx_st cx) \<and> length (stream cx') < length (stream cx) \<and>
       (st_body_done (cx_st cx') \<or> st_chunk_left (cx_st cx') \<noteq> 0)
     else broken cx')"
proof -
  have R: "reading cx" using A by (simp add: at_body_def)
  obtain e where e: "S = e @ stream cx" "decoded e data 0 False" using A k nd by (auto simp: at_body_def)
  obtain r sp cx1 where b: "body_line cx = Some (r, sp, cx1)"
    "case r of None \<Rightarrow> broken cx1 | Some n \<Rightarrow> took [] cx cx1 \<and> same_rest cx cx1 \<and> slice_bytes cx1 sp = live_bytes cx1 \<and>
       memmem2 CR LF (live_bytes cx1) = Some n"
    using body_line_ok[OF R] by blast
  show ?thesis
  proof (cases r)
    case None
    then show ?thesis using b by (auto simp: chunk_header_def broken_def body_fail_def)
  next
    case (Some n)
    then have t: "took [] cx cx1" "same_rest cx cx1" "slice_bytes cx1 sp = live_bytes cx1" "memmem2 CR LF (live_bytes cx1) = Some n" using b(2) by auto
    have r1: "reading cx1" using t(1) by (simp add: took_def)
    have bad: "broken (body_fail cx1 400)" by (rule broken_fail[OF r1]) simp
    define l where "l = take n (live_bytes cx1)"
    have l: "is_line l" using memmem2_line[OF t(4)] by (auto simp: l_def)
    define cx2 where "cx2 = drop_live (n + 2) cx1"
    have d: "took (l @ CRLF) cx cx2" "same_rest cx cx2"
      using took_trans[OF t(1) drop_line(1)[OF r1 t(4)]] same_rest_trans[OF t(2) drop_line(2)[OF r1 t(4)]] by (simp_all add: l_def cx2_def)
    have ch: "chunk_header cx = (case hex_size l 0 0 of None \<Rightarrow> Some (False, body_fail cx1 400)
        | Some (sz, i) \<Rightarrow> if i = 0 \<or> \<not> size_line_ended l i then Some (False, body_fail cx1 400)
            else if sz = 0 then chunk_trailers cx2 else Some (True, upd_st (\<lambda>s. s\<lparr>st_chunk_left := sz\<rparr>) cx2))"
      using b(1) Some t(3) by (simp add: chunk_header_def l_def cx2_def Let_def split: option.split)
    show ?thesis
    proof (cases "\<exists>sz i. hex_size l 0 0 = Some (sz, i) \<and> i \<noteq> 0 \<and> size_line_ended l i")
      case False
      then have "chunk_header cx = Some (False, body_fail cx1 400)" using ch by (auto split: option.splits)
      then show ?thesis using bad by auto
    next
      case True
      then obtain sz i where h: "hex_size l 0 0 = Some (sz, i)" "i \<noteq> 0" "size_line_ended l i" by blast
      have sl: "size_line l sz" using l h by (auto simp: size_line_def)
      have r2: "reading cx2" using d(1) by (simp add: took_def)
      show ?thesis
      proof (cases "sz = 0")
        case False
        then have "chunk_header cx = Some (True, upd_st (\<lambda>s. s\<lparr>st_chunk_left := sz\<rparr>) cx2)" using ch h by simp
        moreover have "decoded (e @ l @ CRLF) data sz False" by (rule dec_size[OF e(2) sl False])
        ultimately show ?thesis using d e(1) r2 nd False
          by (auto simp: at_body_def took_def same_rest_def same_frame_def intro!: exI[of _ "e @ l @ CRLF"])
      next
        case True
        obtain ok cx' where tr: "trailers_loop cx2 0 = Some (ok, cx')"
          "if ok then \<exists>t. trailers t \<and> took t cx2 cx' \<and> cx_st cx' = (cx_st cx2)\<lparr>st_body_done := True\<rparr> \<and>
             cx_req cx' = cx_req cx2 \<and> cx_res cx' = cx_res cx2 \<and> WRITER cx' = WRITER cx2 else broken cx'"
          using trailers_loop_ok[OF r2] by blast
        have ce: "chunk_header cx = Some (ok, cx')" using ch h True tr by (simp add: chunk_trailers_def)
        show ?thesis
        proof (cases ok)
          case ok: True
          then obtain t where x: "trailers t" "took t cx2 cx'" using tr(2) by auto
          have de: "decoded (e @ l @ CRLF @ t) data 0 True" by (rule dec_last[OF e(2) sl[unfolded True] x(1)])
          have tk: "took ((l @ CRLF) @ t) cx cx'" by (rule took_trans[OF d(1) x(2)])
          have st: "cx_st cx' = (cx_st cx)\<lparr>st_body_done := True\<rparr>" "cx_req cx' = cx_req cx" "WRITER cx' = WRITER cx"
            using tr(2) ok d(2) by (auto simp: same_rest_def)
          have "at_body S data cx'" unfolding at_body_def using tk e(1) de k st by (auto simp: took_def intro!: exI[of _ "e @ l @ CRLF @ t"])
          then show ?thesis using ce ok tk st by (auto simp: took_def same_frame_def)
        next
          case False
          then show ?thesis using ce tr by auto
        qed
      qed
    qed
  qed
qed

lemma chunk_end_loop_ok:
  assumes "reading cx"
  shows "\<exists>ok sp cx'. chunk_end_loop cx = Some (ok, sp, cx') \<and>
    (if ok then took [] cx cx' \<and> same_rest cx cx' \<and> slice_bytes cx' sp = live_bytes cx' \<and> 2 \<le> length (live_bytes cx') else broken cx')"
  using assms
proof (induction "unread cx" arbitrary: cx rule: less_induct)
  case less
  obtain ok sp cx1 where b: "body_bytes cx = (ok, sp, cx1)" by (metis surj_pair)
  note B = body_bytes_ok[OF less.prems b]
  consider (bad) "\<not> ok" | (two) "ok" "2 \<le> snd sp" | (one) "ok" "\<not> 2 \<le> snd sp" by blast
  then show ?case
  proof cases
    case bad
    then have "chunk_end_loop cx = Some (False, sp, cx1)" using b by (subst chunk_end_loop.simps) simp
    then show ?thesis using B bad by auto
  next
    case two
    then have "chunk_end_loop cx = Some (True, sp, cx1)" using b by (subst chunk_end_loop.simps) simp
    moreover have "took [] cx cx1 \<and> same_rest cx cx1 \<and> slice_bytes cx1 sp = live_bytes cx1 \<and> 2 \<le> length (live_bytes cx1)"
      using B two by simp
    ultimately show ?thesis by (intro exI[of _ True] exI[of _ sp] exI[of _ cx1]) simp
  next
    case one
    then have B: "took [] cx cx1" "same_rest cx cx1" using B by simp_all
    define cx2 where "cx2 = examine_live (snd sp) cx1"
    have r1: "reading cx1" using B by (simp add: took_def)
    have m: "unread cx2 < unread cx" using body_bytes_progress[OF less.prems] b one by (simp add: cx2_def)
    have t: "took [] cx cx2" "same_rest cx cx2"
      using took_trans[OF B(1) examine_ok(1)[OF r1]] same_rest_trans[OF B(2) examine_ok(2)[OF r1]] by (simp_all add: cx2_def)
    then have "reading cx2" by (simp add: took_def)
    from less.hyps[OF m this] obtain ok' sp' cx' where i: "chunk_end_loop cx2 = Some (ok', sp', cx')"
      "if ok' then took [] cx2 cx' \<and> same_rest cx2 cx' \<and> slice_bytes cx' sp' = live_bytes cx' \<and> 2 \<le> length (live_bytes cx') else broken cx'" by blast
    have "chunk_end_loop cx = Some (ok', sp', cx')" using b one i(1) by (subst chunk_end_loop.simps) (simp add: cx2_def)
    moreover have "if ok' then took [] cx cx' \<and> same_rest cx cx' \<and> slice_bytes cx' sp' = live_bytes cx' \<and> 2 \<le> length (live_bytes cx') else broken cx'"
      using i(2) took_trans[OF t(1)] same_rest_trans[OF t(2)] by (cases ok') fastforce+
    ultimately show ?thesis by blast
  qed
qed

lemma chunk_end_ok:
  assumes "reading cx"
  shows "\<exists>ok cx'. chunk_end cx = Some (ok, cx') \<and> (if ok then took CRLF cx cx' \<and> same_rest cx cx' else broken cx')"
proof -
  obtain ok sp cx1 where l: "chunk_end_loop cx = Some (ok, sp, cx1)"
    "if ok then took [] cx cx1 \<and> same_rest cx cx1 \<and> slice_bytes cx1 sp = live_bytes cx1 \<and> 2 \<le> length (live_bytes cx1) else broken cx1"
    using chunk_end_loop_ok[OF assms] by blast
  show ?thesis
  proof (cases ok)
    case False
    then show ?thesis using l by (auto simp: chunk_end_def)
  next
    case True
    then have t: "took [] cx cx1" "same_rest cx cx1" "slice_bytes cx1 sp = live_bytes cx1" "2 \<le> length (live_bytes cx1)" using l(2) by auto
    have r1: "reading cx1" using t(1) by (simp add: took_def)
    show ?thesis
    proof (cases "take 2 (live_bytes cx1) = CRLF")
      case False
      then show ?thesis using l(1) True t(3) broken_fail[OF r1, of 400] by (auto simp: chunk_end_def)
    next
      case crlf: True
      then have "chunk_end cx = Some (True, drop_live 2 cx1)" using l(1) True t(3) by (simp add: chunk_end_def)
      then show ?thesis
        using took_trans[OF t(1) drop_ok(1)[OF r1 t(4)]] same_rest_trans[OF t(2) drop_ok(2)[OF r1 t(4)]] crlf by auto
    qed
  qed
qed

text \<open>Some of the current chunk was taken; its end is taken with its last byte.\<close>

lemma take_data_st [simp]:
  "READER (take_data n cx) = READER cx" "cx_io (take_data n cx) = cx_io cx" "cx_req (take_data n cx) = cx_req cx"
  "WRITER (take_data n cx) = WRITER cx" "cx_res (take_data n cx) = cx_res cx"
  "cx_st (take_data n cx) = (cx_st cx)\<lparr>st_chunk_left := st_chunk_left (cx_st cx) - of_nat n, st_body_read := st_body_read (cx_st cx) + of_nat n\<rparr>"
  "reading (take_data n cx) = reading cx" "stream (take_data n cx) = stream cx" "kept_bytes (take_data n cx) = kept_bytes cx"
  by (simp_all add: take_data_def)

lemma chunk_left_after:
  assumes "n \<le> unat (k :: u64)"
  shows "unat (k - of_nat n) = unat k - n" and "k - of_nat n = 0 \<longleftrightarrow> n = unat k"
proof -
  have "unat (of_nat n :: u64) = n" using assms unsigned_less[of k, where 'a = nat] by (intro unat_of_nat_less) simp
  then show u: "unat (k - of_nat n) = unat k - n" using assms by (simp add: unat_sub word_le_nat_alt)
  have "k - of_nat n = 0 \<longleftrightarrow> unat (k - of_nat n) = 0" by (simp add: unat_eq_0)
  then show "k - of_nat n = 0 \<longleftrightarrow> n = unat k" using u assms by auto
qed

definition after_data :: "ctx \<Rightarrow> (bool \<times> ctx) option" where
  "after_data cx = (if st_chunk_left (cx_st cx) = 0 then chunk_end cx else Some (True, cx))"

lemma after_data_ok:
  assumes A: "at_body S data cx" and nd: "\<not> st_body_done (cx_st cx)" and r: "reading cx1"
    and x: "stream cx = x @ stream cx1" "x \<noteq> []" "length x \<le> unat (st_chunk_left (cx_st cx))"
    and st: "cx_st cx1 = cx_st cx"
  shows "\<exists>ok cx'. after_data (take_data (length x) cx1) = Some (ok, cx') \<and>
    (if ok then at_body S (data @ x) cx' \<and> kept_bytes cx' = kept_bytes cx1 \<and> same_frame cx1 cx' \<and> \<not> st_body_done (cx_st cx') \<and>
       st_body_read (cx_st cx') = st_body_read (cx_st cx) + of_nat (length x) \<and> length (stream cx') < length (stream cx)
     else broken cx')"
proof -
  define k where "k = st_chunk_left (cx_st cx)"
  define cx2 where "cx2 = take_data (length x) cx1"
  obtain e where e: "S = e @ stream cx" "decoded e data k False" using A nd by (auto simp: at_body_def k_def)
  have le: "length x \<le> unat k" and l0: "0 < length x" using x by (auto simp: k_def)
  note u = chunk_left_after[OF le]
  have c2: "st_chunk_left (cx_st cx2) = k - of_nat (length x)" by (simp add: cx2_def st k_def)
  show ?thesis
  proof (cases "length x = unat k")
    case False
    then have "after_data cx2 = Some (True, cx2)" using u(2) c2 by (simp add: after_data_def)
    moreover have "decoded (e @ x) (data @ x) (k - of_nat (length x)) False" using dec_data[OF e(2) l0] le False by simp
    then have "at_body S (data @ x) cx2" unfolding at_body_def using r e(1) x(1) c2 nd st
      by (auto simp: cx2_def intro!: exI[of _ "e @ x"])
    moreover have "kept_bytes cx2 = kept_bytes cx1" "same_frame cx1 cx2" "\<not> st_body_done (cx_st cx2)"
      "st_body_read (cx_st cx2) = st_body_read (cx_st cx) + of_nat (length x)" "length (stream cx2) < length (stream cx)"
      using x(1) l0 nd st by (simp_all add: cx2_def same_frame_def)
    ultimately show ?thesis unfolding cx2_def[symmetric] by (intro exI[of _ True] exI[of _ cx2]) simp
  next
    case True
    have r2: "reading cx2" using r by (simp add: cx2_def)
    obtain ok cx' where c: "chunk_end cx2 = Some (ok, cx')" "if ok then took CRLF cx2 cx' \<and> same_rest cx2 cx' else broken cx'"
      using chunk_end_ok[OF r2] by blast
    have a: "after_data cx2 = Some (ok, cx')" using True u(2) c2 c(1) by (simp add: after_data_def)
    show ?thesis
    proof (cases ok)
      case ok: True
      then have t: "took CRLF cx2 cx'" "same_rest cx2 cx'" using c(2) by auto
      have "decoded (e @ x @ CRLF) (data @ x) 0 False" using dec_end[OF e(2) l0] True by simp
      moreover have k0: "k - of_nat (length x) = 0" using True u(2) by simp
      have st': "cx_st cx' = cx_st cx2" using t(2) by (simp add: same_rest_def)
      have str: "stream cx1 = CRLF @ stream cx'" "reading cx'" "kept_bytes cx' = kept_bytes cx1" using t(1) by (simp_all add: took_def cx2_def)
      have st2: "cx_st cx' = (cx_st cx)\<lparr>st_chunk_left := 0, st_body_read := st_body_read (cx_st cx) + of_nat (length x)\<rparr>"
        using st' c2 k0 st by (simp add: cx2_def k_def)
      have "at_body S (data @ x) cx'" unfolding at_body_def
        using str e(1) x(1) nd calculation st2 by (intro conjI exI[of _ "e @ x @ CRLF"]) simp_all
      moreover have "same_frame cx1 cx'" using t(2) st2 st by (simp add: same_rest_def same_frame_def cx2_def)
      moreover have "length (stream cx') < length (stream cx)" using str(1) x(1) by simp
      ultimately show ?thesis using a ok str(3) st2 nd unfolding cx2_def[symmetric] by (intro exI[of _ True] exI[of _ cx']) simp
    next
      case False
      then show ?thesis using a c unfolding cx2_def[symmetric] by (intro exI[of _ False] exI[of _ cx']) simp
    qed
  qed
qed


section \<open>The whole body\<close>

lemma keep_live_ok:
  assumes R: "reading cx" and n: "0 < n" "n \<le> length (live_bytes cx)" and k: "keep_live n cx = (pl, cx')"
  shows "if pl = Nullptr then broken (body_fail cx' 413)
    else reading cx' \<and> stream cx = take n (live_bytes cx) @ stream cx' \<and> kept_bytes cx' = kept_bytes cx @ take n (live_bytes cx) \<and>
      slice_bytes cx' (pl, n) = take n (live_bytes cx) \<and> same_rest cx cx'"
proof -
  obtain pr w where e: "ioxd__pipereader_keep (READER cx) (cx_io cx) n = (pl, pr, w)" "cx' = set_reader pr w cx"
    using k by (auto simp: keep_live_def split: prod.splits)
  have o: "reader_ok (READER cx) (cx_io cx)" "pr_error (READER cx) = 0" using R by (simp_all add: reading_def)
  note K = keep_ok[OF o(1) e(1)] and F = keep_flags[OF e(1)]
  show ?thesis
  proof (cases "pl = Nullptr")
    case True
    then show ?thesis using K F o e(2) by (auto simp: broken_def body_fail_def)
  next
    case False
    then show ?thesis using K F o e(2) n
      by (simp add: reading_def stream_def live_bytes_def kept_bytes_def slice_bytes_def same_rest_def Pipe_Stream.pending_def)
  qed
qed

lemma all_chunks_step:
  assumes "\<not> st_body_done (cx_st cx)" and "st_chunk_left (cx_st cx) \<noteq> 0" and "body_bytes cx = (True, sp, cx1)"
    and "n = (if of_nat (snd sp) < st_chunk_left (cx_st cx1) then snd sp else unat (st_chunk_left (cx_st cx1)))"
    and "keep_live n cx1 = (pl, cx2)" and "pl \<noteq> Nullptr"
  shows "all_chunks cx = do { (ok, cx) \<leftarrow> after_data (take_data n cx2); (if \<not> ok then Some (False, cx) else all_chunks cx) }"
  using assms by (subst all_chunks.simps) (simp add: after_data_def)

text \<open>How much of the live bytes belongs to the chunk.\<close>

lemma chunk_part:
  fixes k :: u64
  assumes "n = (if of_nat l < k then l else unat k)" and "0 < l" and "l < 2 ^ 64" and "k \<noteq> 0"
  shows "0 < n" "n \<le> l" "n \<le> unat k"
proof -
  have u: "unat (of_nat l :: u64) = l" using assms(3) by (simp add: unat_of_nat_less)
  have "0 < unat k" using assms(4) by (simp add: unat_gt_0)
  then show "0 < n" "n \<le> l" "n \<le> unat k" using assms(1,2) u by (auto simp: word_less_nat_alt split: if_splits)
qed

lemma all_chunks_ok:
  assumes "at_body S data cx" and "kept_bytes cx = data" and "length (stream cx) < 2 ^ 64"
  shows "\<exists>ok cx'. all_chunks cx = Some (ok, cx') \<and>
    (if ok then at_body S (kept_bytes cx') cx' \<and> st_body_done (cx_st cx') \<and> same_frame cx cx' else broken cx')"
  using assms
proof (induction "length (stream cx)" arbitrary: cx data rule: less_induct)
  case less
  note A = less.prems
  have R: "reading cx" using A(1) by (simp add: at_body_def)
  have again: "\<exists>ok cx'. all_chunks cx2 = Some (ok, cx') \<and>
      (if ok then at_body S (kept_bytes cx') cx' \<and> st_body_done (cx_st cx') \<and> same_frame cx cx' else broken cx')"
    if "at_body S d cx2" "kept_bytes cx2 = d" "length (stream cx2) < length (stream cx)" "same_frame cx cx2" for d cx2
  proof -
    have "length (stream cx2) < 2 ^ 64" using that(3) A(3) by simp
    from less.hyps[OF that(3) that(1,2) this] obtain ok cx' where i: "all_chunks cx2 = Some (ok, cx')"
      "if ok then at_body S (kept_bytes cx') cx' \<and> st_body_done (cx_st cx') \<and> same_frame cx2 cx' else broken cx'" by blast
    then show ?thesis using same_frame_trans[OF that(4)] by (intro exI[of _ ok] exI[of _ cx']) (cases ok; simp)
  qed
  consider (over) "st_body_done (cx_st cx)" | (header) "\<not> st_body_done (cx_st cx)" "st_chunk_left (cx_st cx) = 0"
    | (data) "\<not> st_body_done (cx_st cx)" "st_chunk_left (cx_st cx) \<noteq> 0" by blast
  then show ?case
  proof cases
    case over
    then have "all_chunks cx = Some (True, cx)" by (subst all_chunks.simps) simp
    then show ?thesis using A over by (auto simp: same_frame_def)
  next
    case header
    obtain ok cx2 where h: "chunk_header cx = Some (ok, cx2)"
      "if ok then at_body S data cx2 \<and> kept_bytes cx2 = kept_bytes cx \<and> same_frame cx cx2 \<and>
         st_body_read (cx_st cx2) = st_body_read (cx_st cx) \<and> length (stream cx2) < length (stream cx) \<and>
         (st_body_done (cx_st cx2) \<or> st_chunk_left (cx_st cx2) \<noteq> 0)
       else broken cx2"
      using chunk_header_ok[OF A(1) header(2,1)] by blast
    have e: "all_chunks cx = (if ok then all_chunks cx2 else Some (False, cx2))"
      using header h(1) by (subst all_chunks.simps) simp
    show ?thesis
    proof (cases ok)
      case True
      then have "at_body S data cx2" "kept_bytes cx2 = data" "length (stream cx2) < length (stream cx)" "same_frame cx cx2"
        using h(2) A(2) by simp_all
      from again[OF this] show ?thesis using e True by simp
    next
      case False
      then show ?thesis using e h(2) by auto
    qed
  next
    case data
    obtain ok sp cx1 where b: "body_bytes cx = (ok, sp, cx1)" by (metis surj_pair)
    note B = body_bytes_ok[OF R b]
    show ?thesis
    proof (cases ok)
      case False
      then have "all_chunks cx = Some (False, cx1)" using data b by (subst all_chunks.simps) simp
      then show ?thesis using B False by auto
    next
      case True
      then have t: "took [] cx cx1" "same_rest cx cx1" "snd sp = length (live_bytes cx1)" "live_bytes cx1 \<noteq> []" using B by simp_all
      have r1: "reading cx1" and s1: "stream cx1 = stream cx" and k1: "kept_bytes cx1 = kept_bytes cx" using t(1) by (simp_all add: took_def)
      have st1: "cx_st cx1 = cx_st cx" "cx_req cx1 = cx_req cx" "WRITER cx1 = WRITER cx" using t(2) by (simp_all add: same_rest_def)
      define n where "n = (if of_nat (snd sp) < st_chunk_left (cx_st cx1) then snd sp else unat (st_chunk_left (cx_st cx1)))"
      have "length (live_bytes cx1) \<le> length (stream cx1)" by (simp add: stream_live)
      then have "length (live_bytes cx1) < 2 ^ 64" using A(3) s1 by simp
      then have n: "0 < n" "n \<le> length (live_bytes cx1)" "n \<le> unat (st_chunk_left (cx_st cx))"
        using chunk_part[of n "snd sp" "st_chunk_left (cx_st cx1)"] t(3,4) data(2) st1 by (simp_all add: n_def)
      obtain pl cx2 where kp: "keep_live n cx1 = (pl, cx2)" by fastforce
      note K = keep_live_ok[OF r1 n(1,2) kp]
      show ?thesis
      proof (cases "pl = Nullptr")
        case null: True
        then have "all_chunks cx = Some (False, body_fail cx2 413)"
          using data b True kp by (subst all_chunks.simps) (simp add: n_def)
        then show ?thesis using K null by auto
      next
        case False
        define x where "x = take n (live_bytes cx1)"
        have K: "reading cx2" "stream cx1 = x @ stream cx2" "kept_bytes cx2 = kept_bytes cx1 @ x" "same_rest cx1 cx2" using K False by (simp_all add: x_def)
        have lx: "length x = n" "x \<noteq> []" using n by (auto simp: x_def)
        have st2: "cx_st cx2 = cx_st cx" "cx_req cx2 = cx_req cx" "WRITER cx2 = WRITER cx" using K(4) st1 by (simp_all add: same_rest_def)
        obtain ok' cx' where a: "after_data (take_data (length x) cx2) = Some (ok', cx')"
          "if ok' then at_body S (data @ x) cx' \<and> kept_bytes cx' = kept_bytes cx2 \<and> same_frame cx2 cx' \<and> \<not> st_body_done (cx_st cx') \<and>
             st_body_read (cx_st cx') = st_body_read (cx_st cx) + of_nat (length x) \<and> length (stream cx') < length (stream cx)
           else broken cx'"
          using after_data_ok[OF A(1) data(1) K(1) _ lx(2) _ st2(1)] K(2) s1 lx(1) n(3) by metis
        have b': "body_bytes cx = (True, sp, cx1)" using b True by simp
        have e: "all_chunks cx = (if ok' then all_chunks cx' else Some (False, cx'))"
          using all_chunks_step[OF data b' n_def kp False] a(1) lx(1) by simp
        show ?thesis
        proof (cases ok')
          case ok: True
          then have "at_body S (data @ x) cx'" "kept_bytes cx' = data @ x" "length (stream cx') < length (stream cx)" "same_frame cx cx'"
            using a(2) K(3) k1 A(2) st2 by (simp_all add: same_frame_def)
          from again[OF this] show ?thesis using e ok by simp
        next
          case bad: False
          then show ?thesis using e a(2) by auto
        qed
      qed
    qed
  qed
qed


section \<open>The size line of a chunk that the engine writes\<close>

lemma push_or_digit:
  fixes sz :: u64
  assumes "0 \<le> d" and "d < 16"
  shows "push_bit 4 sz OR of_int d = sz * 16 + of_int d"
proof -
  have hi: "\<not> bit d n" if "4 \<le> n" for n
  proof -
    have "(2 :: int) ^ 4 \<le> 2 ^ n" using that by (intro power_increasing) simp_all
    then have "d div 2 ^ n = 0" using assms by simp
    then show ?thesis by (simp add: bit_iff_odd)
  qed
  have "push_bit 4 sz AND of_int d = 0"
    by (rule bit_eqI) (use hi in \<open>auto simp: bit_and_iff bit_push_bit_iff bit_of_int_iff\<close>)
  from disjunctive_add_eq_or[OF this] show ?thesis by (simp add: push_bit_eq_mult)
qed

lemma hex_size_digits:
  assumes "list_all (\<lambda>c. ioxd__http_hexval c \<ge> 0) ds"
    and "foldl (\<lambda>v c. v * 16 + nat (ioxd__http_hexval c)) v ds < 2 ^ 64"
  shows "hex_size ds (of_nat v) i = Some (of_nat (foldl (\<lambda>v c. v * 16 + nat (ioxd__http_hexval c)) v ds), i + length ds)"
  using assms
proof (induction ds arbitrary: v i)
  case Nil
  then show ?case by simp
next
  case (Cons c ds)
  let ?d = "ioxd__http_hexval c" and ?f = "\<lambda>v c. v * 16 + nat (ioxd__http_hexval c)"
  have mono: "v \<le> foldl ?f v ds" for v
  proof (induction ds arbitrary: v)
    case (Cons d ds)
    show ?case using Cons[of "v * 16 + nat (ioxd__http_hexval d)"] by simp
  qed simp
  have le: "v * 16 + nat ?d < 2 ^ 64" using mono[of "v * 16 + nat ?d"] Cons.prems(2) by simp
  have d: "0 \<le> ?d" "?d < 16" using Cons.prems(1) hexval_bounds[of c] by auto
  have "unat (of_nat v :: u64) = v" using le by (intro unat_of_nat_less) simp
  moreover have "unat (drop_bit 4 SIZE_MAX) = 2 ^ 60 - 1" by (simp add: unat_drop_bit_eq drop_bit_eq_div unsigned_minus_1_eq_mask mask_eq_exp_minus_1)
  moreover have "v \<le> 2 ^ 60 - 1" using le by simp
  ultimately have "\<not> of_nat v > drop_bit 4 SIZE_MAX" by (simp only: word_less_nat_alt not_less)
  moreover have "push_bit 4 (of_nat v :: u64) OR of_int ?d = of_nat (v * 16 + nat ?d)"
    using push_or_digit[OF d, of "of_nat v"] d by simp
  ultimately show ?case using Cons.IH[of "v * 16 + nat ?d" "i + 1"] Cons.prems d by simp
qed


lemma no_crlf_is_line: "CR \<notin> set l \<Longrightarrow> is_line l"
proof (induction l)
  case Nil
  then show ?case by (simp add: is_line_def)
next
  case (Cons c l)
  then have "memmem2 CR LF (l @ CRLF) = Some (length l)" by (simp add: is_line_def)
  then show ?case using Cons.prems by (cases l) (auto simp: is_line_def)
qed

lemma put_hex_size_line:
  assumes "v < 2 ^ 64" shows "size_line (put_hex v) (of_nat v)"
proof -
  have d: "list_all (\<lambda>c. ioxd__http_hexval c \<ge> 0) (put_hex v)" "hex_value (put_hex v) = v" "put_hex v \<noteq> []"
    using put_hex_digits[of v] by auto
  have "ioxd__http_hexval CR < 0" by (simp add: ioxd__http_hexval_def)
  then have "is_line (put_hex v)" using d(1) by (intro no_crlf_is_line) (auto simp: list_all_iff)
  moreover have "hex_size (put_hex v) 0 0 = Some (of_nat v, length (put_hex v))"
    using hex_size_digits[OF d(1), of 0 0] d(2) assms by (simp add: hex_value_def)
  ultimately show ?thesis using d(3) by (auto simp: size_line_def size_line_ended_def)
qed

text \<open>Any place in a chunk is where some coding leads.\<close>

lemma anywhere:
  assumes "reading cx" and "\<not> st_body_done (cx_st cx)"
  shows "\<exists>S. at_body S [] cx"
proof -
  let ?k = "st_chunk_left (cx_st cx)"
  have "\<exists>e. decoded e [] ?k False"
  proof (cases "?k = 0")
    case True
    then show ?thesis using dec_start by metis
  next
    case False
    have "size_line (put_hex (unat ?k)) ?k" using put_hex_size_line[of "unat ?k"] unsigned_less[of ?k, where 'a = nat] by simp
    from dec_size[OF dec_start this False] show ?thesis by blast
  qed
  then show ?thesis using assms by (auto simp: at_body_def)
qed


section \<open>The body in pieces\<close>

lemma copy_loop_result:
  assumes "reader_ok pr w" and "pr_error pr = 0" and "copy_loop pr w n = (rc, dst, pr', w')" and "0 < n" "n < 2 ^ 31"
  shows "run pr' w' = run pr w \<and> (if rc > 0 then rc = int (length dst) \<and> dst \<noteq> [] \<and> pr_error pr' = 0 else dst = [] \<and> pr_error pr' \<le> 0)"
  using assms
proof (induction pr w n rule: copy_loop.induct)
  case (1 pr w n)
  obtain r q v where m: "Pipe_Reader.more pr w = (r, q, v)" by (metis surj_pair)
  note mo = more_ok[OF 1(2) m] and mf = more_flags[OF m]
  obtain p len where ls: "live_span pr = (p, len)" by fastforce
  consider (now) "len \<noteq> 0" | (stop) "len = 0" "r \<le> 0" | (again) "len = 0" "r > 0" by linarith
  then show ?case
  proof cases
    case now
    let ?k = "if len < n then len else n"
    have ll: "length (live pr w) = len" using live_length[OF 1(2)] ls by simp
    have "bytes_at pr w (p, ?k) = take ?k (live pr w)"
      using ls by (cases p) (auto simp: live_def memread_take)
    then have d: "dst = take ?k (live pr w)" "consume pr w ?k = (pr', w')" "rc = int_of_size ?k"
      using 1(4) now ls by (auto simp: copy_loop.simps[of pr w n] Let_def split: prod.splits if_splits)
    have k: "0 < ?k" "?k < 2 ^ 31" using now 1(5,6) by auto
    have "rc = int ?k" using d(3) int_of_size_small[OF k(2)] by simp
    moreover have "length dst = ?k" using d(1) ll by simp
    moreover have "dst \<noteq> []" using k(1) \<open>length dst = ?k\<close> by (metis list.size(3) less_irrefl)
    ultimately show ?thesis using k(1) consume_ok[OF 1(2) d(2)] consume_flags[OF d(2)] 1(3) by simp
  next
    case stop
    then have "dst = []" "pr' = q" "w' = v" "rc = r" using 1(4) m ls by (auto simp: copy_loop.simps[of pr w n])
    then show ?thesis using stop(2) mo mf 1(3) by (cases "r = 0") auto
  next
    case again
    then have e: "copy_loop q v n = (rc, dst, pr', w')" using 1(4) m ls by (auto simp: copy_loop.simps[of pr w n])
    have q: "reader_ok q v" "pr_error q = 0" using mo mf again 1(3) by auto
    have "run pr' w' = run q v \<and> (if rc > 0 then rc = int (length dst) \<and> dst \<noteq> [] \<and> pr_error pr' = 0 else dst = [] \<and> pr_error pr' \<le> 0)"
      by (rule 1(1)[OF refl ls[symmetric] _ refl m[symmetric] refl _ q e 1(5,6)]) (use again in auto)
    then show ?thesis using mo by simp
  qed
qed

definition readable :: "ctx \<Rightarrow> bool" where
  "readable cx \<longleftrightarrow> reader_ok (READER cx) (cx_io cx) \<and> pr_error (READER cx) \<le> 0"

lemma readable_cases: "readable cx \<longleftrightarrow> reading cx \<or> reader_ok (READER cx) (cx_io cx) \<and> pr_error (READER cx) < 0"
  by (auto simp: readable_def reading_def)

lemma broken_readable: "broken cx \<longleftrightarrow> readable cx \<and> st_body_err (cx_st cx) \<noteq> 0"
  by (auto simp: broken_def readable_def)

lemma readable_set [simp]:
  "readable (upd_st f cx) = readable cx" "readable (body_gone cx) = readable cx" "readable (body_fail cx s) = readable cx"
  "readable (take_data n cx) = readable cx" "readable (set_body b cx) = readable cx"
  by (simp_all add: readable_def body_gone_def body_fail_def)

lemma copy_live_ok:
  assumes "readable cx" and "0 < n" "n < 2 ^ 31" and k: "copy_live n cx = (got, dst, cx')"
  shows "if got > 0 then reading cx \<and> got = int (length dst) \<and> dst \<noteq> [] \<and> length dst \<le> n \<and> reading cx' \<and> stream cx = dst @ stream cx' \<and>
      kept_bytes cx' = kept_bytes cx \<and> same_rest cx cx'
    else dst = [] \<and> readable cx' \<and> same_rest cx cx'"
proof -
  obtain pr w where e: "ioxd__pipereader_copy (READER cx) (cx_io cx) n = (got, dst, pr, w)" "cx' = set_reader pr w cx"
    using k by (auto simp: copy_live_def split: prod.splits)
  have o: "reader_ok (READER cx) (cx_io cx)" using assms(1) by (simp add: readable_def)
  show ?thesis
  proof (cases "pr_error (READER cx) = 0")
    case True
    then have c: "copy_loop (READER cx) (cx_io cx) n = (got, dst, pr, w)" using e(1) by (simp add: ioxd__pipereader_copy_def)
    note r = copy_loop_result[OF o True c assms(2,3)] and q = copy_loop_ok[OF o True c]
    then show ?thesis using e(2) o True
      by (cases "got > 0") (simp_all add: reading_def readable_def stream_def kept_bytes_def same_rest_def conserves_def)
  next
    case False
    then have "got < 0" "dst = []" "pr = READER cx" "w = cx_io cx"
      using e(1) assms(1) by (auto simp: ioxd__pipereader_copy_def readable_def)
    then show ?thesis using assms(1) e(2) by (simp add: readable_def same_rest_def)
  qed
qed

text \<open>A reader that has failed answers every call at once.\<close>

lemma failed_reads:
  assumes "readable cx" and "\<not> reading cx"
  shows "\<exists>cx'. chunk_header cx = Some (False, cx') \<and> broken cx'" and "\<exists>cx'. chunk_end cx = Some (False, cx') \<and> broken cx'"
proof -
  have e: "reader_ok (READER cx) (cx_io cx)" "pr_error (READER cx) < 0" using assms by (auto simp: readable_def reading_def)
  then have r: "ioxd__pipereader_read (READER cx) (cx_io cx) = (pr_error (READER cx), (Nullptr, 0), READER cx, cx_io cx)"
    by (simp add: ioxd__pipereader_read_def)
  have "\<exists>cx1. body_bytes cx = (False, (Nullptr, 0), cx1) \<and> broken cx1"
    using r e by (cases "pr_error (READER cx) = IOXD_PIPE_FULL") (simp_all add: body_bytes_def broken_def body_fail_def body_gone_def)
  then obtain cx1 where b: "body_bytes cx = (False, (Nullptr, 0), cx1)" "broken cx1" by blast
  have "body_line cx = Some (None, (Nullptr, 0), cx1)" using b by (subst body_line.simps) simp
  then show "\<exists>cx'. chunk_header cx = Some (False, cx') \<and> broken cx'" using b(2)
    by (auto simp: chunk_header_def broken_def body_fail_def)
  have "chunk_end_loop cx = Some (False, (Nullptr, 0), cx1)" using b by (subst chunk_end_loop.simps) simp
  then show "\<exists>cx'. chunk_end cx = Some (False, cx') \<and> broken cx'" using b(2) by (auto simp: chunk_end_def)
qed


text \<open>Reading changes neither the request nor the writer.\<close>

lemma body_bytes_frame: "body_bytes cx = (ok, sp, cx') \<Longrightarrow> cx_req cx' = cx_req cx \<and> WRITER cx' = WRITER cx"
  by (auto simp: body_bytes_def body_fail_def body_gone_def Let_def split: prod.splits if_splits)

lemma live_frame [simp]:
  "cx_req (examine_live n cx) = cx_req cx" "WRITER (examine_live n cx) = WRITER cx"
  "cx_req (drop_live n cx) = cx_req cx" "WRITER (drop_live n cx) = WRITER cx"
  "cx_req (body_fail cx s) = cx_req cx" "WRITER (body_fail cx s) = WRITER cx"
  "cx_req (body_gone cx) = cx_req cx" "WRITER (body_gone cx) = WRITER cx"
  by (simp_all add: examine_live_def drop_live_def body_fail_def body_gone_def case_prod_beta)

lemma body_line_frame:
  assumes "body_line cx = Some (r, sp, cx')" shows "cx_req cx' = cx_req cx \<and> WRITER cx' = WRITER cx"
proof -
  have "cx_req (snd (snd t)) = cx_req cx \<and> WRITER (snd (snd t)) = WRITER cx" if "body_line cx = Some t" for t
  proof (rule body_line.raw_induct[of "\<lambda>cx t. cx_req (snd (snd t)) = cx_req cx \<and> WRITER (snd (snd t)) = WRITER cx", OF _ that])
    fix f cx t
    assume ih: "\<And>cx t. f cx = Some t \<Longrightarrow> cx_req (snd (snd t)) = cx_req cx \<and> WRITER (snd (snd t)) = WRITER cx"
      and e: "(let (ok, live, cx) = body_bytes cx in
        if \<not> ok then Some (None, live, cx)
        else case memmem2 CR LF (slice_bytes cx live) of Some i \<Rightarrow> Some (Some i, live, cx) | None \<Rightarrow> f (examine_live (snd live) cx)) = Some t"
    obtain ok sp cx1 where b: "body_bytes cx = (ok, sp, cx1)" by (metis surj_pair)
    note fr = body_bytes_frame[OF b]
    show "cx_req (snd (snd t)) = cx_req cx \<and> WRITER (snd (snd t)) = WRITER cx"
      using e b fr by (auto split: if_splits option.splits dest!: ih)
  qed
  from this[OF assms] show ?thesis by simp
qed

lemma chunk_end_loop_frame:
  assumes "chunk_end_loop cx = Some (r, sp, cx')" shows "cx_req cx' = cx_req cx \<and> WRITER cx' = WRITER cx"
proof -
  have "cx_req (snd (snd t)) = cx_req cx \<and> WRITER (snd (snd t)) = WRITER cx" if "chunk_end_loop cx = Some t" for t
  proof (rule chunk_end_loop.raw_induct[of "\<lambda>cx t. cx_req (snd (snd t)) = cx_req cx \<and> WRITER (snd (snd t)) = WRITER cx", OF _ that])
    fix f cx t
    assume ih: "\<And>cx t. f cx = Some t \<Longrightarrow> cx_req (snd (snd t)) = cx_req cx \<and> WRITER (snd (snd t)) = WRITER cx"
      and e: "(let (ok, live, cx) = body_bytes cx in
        if \<not> ok then Some (False, live, cx) else if snd live \<ge> 2 then Some (True, live, cx)
        else f (examine_live (snd live) cx)) = Some t"
    obtain ok sp cx1 where b: "body_bytes cx = (ok, sp, cx1)" by (metis surj_pair)
    note fr = body_bytes_frame[OF b]
    show "cx_req (snd (snd t)) = cx_req cx \<and> WRITER (snd (snd t)) = WRITER cx"
      using e[unfolded b] fr by (auto split: if_splits dest!: ih)
  qed
  from this[OF assms] show ?thesis by simp
qed

lemma trailers_loop_frame:
  assumes "trailers_loop cx n = Some (r, cx')" shows "cx_req cx' = cx_req cx \<and> WRITER cx' = WRITER cx"
proof -
  have "cx_req (snd t) = cx_req cx \<and> WRITER (snd t) = WRITER cx" if "trailers_loop cx n = Some t" for t
  proof (rule trailers_loop.raw_induct[of "\<lambda>cx n t. cx_req (snd t) = cx_req cx \<and> WRITER (snd t) = WRITER cx", OF _ that])
    fix f cx n t
    assume ih: "\<And>cx n t. f cx n = Some t \<Longrightarrow> cx_req (snd t) = cx_req cx \<and> WRITER (snd t) = WRITER cx"
      and e: "do { (len, _, cx) \<leftarrow> body_line cx;
        (case len of None \<Rightarrow> Some (False, cx)
         | Some len \<Rightarrow> let taken = n + len + 2 in
            if taken > IOXD_TRAILER_MAX then Some (False, body_fail cx 400)
            else let cx = drop_live (len + 2) cx in
              if len = 0 then Some (True, upd_st (\<lambda>s. s\<lparr>st_body_done := True\<rparr>) cx) else f cx taken) } = Some t"
    obtain r sp cx1 where b: "body_line cx = Some (r, sp, cx1)" using e by (cases "body_line cx") auto
    note fr = body_line_frame[OF b]
    show "cx_req (snd t) = cx_req cx \<and> WRITER (snd t) = WRITER cx"
      using e b fr by (auto simp: Let_def split: if_splits option.splits dest!: ih)
  qed
  from this[OF assms] show ?thesis by simp
qed

lemma chunk_end_frame: "chunk_end cx = Some (ok, cx') \<Longrightarrow> cx_req cx' = cx_req cx \<and> WRITER cx' = WRITER cx"
  by (auto simp: chunk_end_def bind_eq_Some_conv split: if_splits dest!: chunk_end_loop_frame)

lemma chunk_header_frame: "chunk_header cx = Some (ok, cx') \<Longrightarrow> cx_req cx' = cx_req cx \<and> WRITER cx' = WRITER cx"
  by (auto simp: chunk_header_def chunk_trailers_def bind_eq_Some_conv Let_def split: if_splits option.splits
      dest!: body_line_frame trailers_loop_frame)


text \<open>The place in a body of either kind.\<close>

definition body_at :: "bytes \<Rightarrow> bytes \<Rightarrow> ctx \<Rightarrow> bool" where
  "body_at S data cx \<longleftrightarrow>
     (if rq_chunked (cx_req cx) then at_body S data cx
      else reading cx \<and> S = data @ stream cx \<and> length data \<le> unat (rq_content_length (cx_req cx)) \<and>
        st_body_read (cx_st cx) = of_nat (length data) \<and>
        (st_body_done (cx_st cx) \<longleftrightarrow> length data = unat (rq_content_length (cx_req cx))))"

lemma body_at_reading: "body_at S data cx \<Longrightarrow> reading cx"
  by (auto simp: body_at_def at_body_def split: if_splits)

text \<open>What one step of a loop over the body gives.\<close>

definition stepped :: "bytes \<Rightarrow> bytes \<Rightarrow> nat \<Rightarrow> ctx \<Rightarrow> int \<Rightarrow> bytes \<Rightarrow> ctx \<Rightarrow> bool" where
  "stepped S data n cx k dst cx' \<longleftrightarrow>
     cx_req cx' = cx_req cx \<and> WRITER cx' = WRITER cx \<and> readable cx' \<and>
     (if k < 0 then dst = [] \<and> broken cx'
      else k = int (length dst) \<and> length dst \<le> n \<and> (st_body_err (cx_st cx) \<noteq> 0 \<longrightarrow> st_body_err (cx_st cx') \<noteq> 0) \<and>
        (st_body_err (cx_st cx') = 0 \<longrightarrow> body_at S (data @ dst) cx') \<and>
        (dst = [] \<longrightarrow> rq_chunked (cx_req cx) \<and> st_chunk_left (cx_st cx) = 0 \<and> (st_body_done (cx_st cx') \<or> st_chunk_left (cx_st cx') \<noteq> 0)))"

lemma clip:
  fixes m :: u64
  assumes "0 < n" "n < 2 ^ 31" "m \<noteq> 0"
  defines "c \<equiv> if of_nat n > m then unat m else n"
  shows "0 < c" "c \<le> n" "c \<le> unat m" "c < 2 ^ 31"
proof -
  have u: "unat (of_nat n :: u64) = n" using assms(2) by (intro unat_of_nat_less) simp
  have "0 < unat m" using assms(3) by (simp add: unat_gt_0)
  then show "0 < c" "c \<le> n" "c \<le> unat m" "c < 2 ^ 31" using assms(1,2) u by (auto simp: c_def word_less_nat_alt split: if_splits)
qed

lemma chunk_data_ok:
  assumes A: "at_body S data cx" and ch: "rq_chunked (cx_req cx)" and nd: "\<not> st_body_done (cx_st cx)"
    and k0: "st_chunk_left (cx_st cx) \<noteq> 0" and n: "0 < n" "n < 2 ^ 31"
  shows "\<exists>k dst cx'. chunk_data cx n = Some (k, dst, cx') \<and> stepped S data n cx k dst cx'"
proof -
  have R: "reading cx" "readable cx" using A by (simp_all add: at_body_def readable_def reading_def)
  define c where "c = (if of_nat n > st_chunk_left (cx_st cx) then unat (st_chunk_left (cx_st cx)) else n)"
  note c = clip[OF n k0, folded c_def]
  obtain got x cx1 where cp: "copy_live c cx = (got, x, cx1)" by (metis surj_pair)
  note C = copy_live_ok[OF R(2) c(1,4) cp]
  show ?thesis
  proof (cases "got > 0")
    case False
    then have "chunk_data cx n = Some (- 1, x, body_gone cx1)" using cp by (simp add: chunk_data_def c_def)
    then show ?thesis using C False
      by (intro exI[of _ "- 1"] exI[of _ x] exI[of _ "body_gone cx1"]) (simp add: stepped_def same_rest_def broken_readable)
  next
    case True
    then have g: "got = int (length x)" "x \<noteq> []" "length x \<le> c" "reading cx1" "stream cx = x @ stream cx1" "kept_bytes cx1 = kept_bytes cx"
      "cx_st cx1 = cx_st cx" "cx_req cx1 = cx_req cx" "WRITER cx1 = WRITER cx" using C by (simp_all add: same_rest_def)
    have lx: "length x \<le> unat (st_chunk_left (cx_st cx))" using g(3) c(3) by simp
    obtain ok cx' where a: "after_data (take_data (length x) cx1) = Some (ok, cx')"
      "if ok then at_body S (data @ x) cx' \<and> kept_bytes cx' = kept_bytes cx1 \<and> same_frame cx1 cx' \<and> \<not> st_body_done (cx_st cx') \<and>
         st_body_read (cx_st cx') = st_body_read (cx_st cx) + of_nat (length x) \<and> length (stream cx') < length (stream cx)
       else broken cx'"
      using after_data_ok[OF A nd g(4,5,2) lx g(7)] by blast
    have fr: "cx_req cx' = cx_req cx" "WRITER cx' = WRITER cx"
      using a(1) chunk_end_frame[of "take_data (length x) cx1" ok cx'] g(8,9) by (auto simp: after_data_def split: if_splits)
    have e: "chunk_data cx n = Some (got, x, cx')"
      using cp True g(1) a(1) by (auto simp: chunk_data_def c_def[symmetric] after_data_def split: if_splits)
    have "readable cx'" "st_body_err (cx_st cx) \<noteq> 0 \<longrightarrow> st_body_err (cx_st cx') \<noteq> 0" "st_body_err (cx_st cx') = 0 \<longrightarrow> at_body S (data @ x) cx'"
      using a(2) g(7) by (cases ok; simp add: broken_readable at_body_def reading_def readable_def same_frame_def)+
    then show ?thesis using e fr g(1,2,3) c(2) ch
      by (intro exI[of _ got] exI[of _ x] exI[of _ cx']) (simp add: stepped_def body_at_def)
  qed
qed


lemma fixed_data_ok:
  assumes A: "body_at S data cx" and ch: "\<not> rq_chunked (cx_req cx)" and nd: "\<not> st_body_done (cx_st cx)"
    and er: "st_body_err (cx_st cx) = 0" and n: "0 < n" "n < 2 ^ 31" and f: "fixed_data cx n = (k, dst, cx')"
  shows "stepped S data n cx k dst cx'"
proof -
  define cl where "cl = rq_content_length (cx_req cx)"
  have R: "reading cx" "readable cx" using body_at_reading[OF A] by (simp_all add: readable_def reading_def)
  have B: "S = data @ stream cx" "length data < unat cl" "st_body_read (cx_st cx) = of_nat (length data)"
    using A ch nd by (auto simp: body_at_def cl_def)
  define m where "m = cl - st_body_read (cx_st cx)"
  have um: "unat m = unat cl - length data" and m0: "m \<noteq> 0"
    using chunk_left_after[of "length data" cl] B(2,3) by (auto simp: m_def)
  define c where "c = (if of_nat n > m then unat m else n)"
  note c = clip[OF n m0, folded c_def]
  obtain got x cx1 where cp: "copy_live c cx = (got, x, cx1)" by (metis surj_pair)
  note C = copy_live_ok[OF R(2) c(1,4) cp]
  define rd where "rd = st_body_read (cx_st cx1) + of_int got"
  have fd: "fixed_data cx n = (if got \<le> 0 then (- 1, x, body_gone cx1)
      else (got, x, upd_st (\<lambda>s. s\<lparr>st_body_read := rd, st_body_done := (st_body_done s \<or> rd = rq_content_length (cx_req cx1))\<rparr>) cx1))"
    using cp by (simp add: fixed_data_def c_def[symmetric] m_def[symmetric] cl_def[symmetric] Let_def rd_def upd_st_def)
  show ?thesis
  proof (cases "got > 0")
    case False
    then have "k = - 1" "dst = x" "cx' = body_gone cx1" 
      using fd f by simp_all
    then show ?thesis using C False by (simp add: stepped_def same_rest_def broken_readable)
  next
    case True
    then have g: "got = int (length x)" "x \<noteq> []" "length x \<le> c" "reading cx1" "stream cx = x @ stream cx1"
      "cx_st cx1 = cx_st cx" "cx_req cx1 = cx_req cx" "WRITER cx1 = WRITER cx" using C by (simp_all add: same_rest_def)
    have le: "length (data @ x) \<le> unat cl" using g(3) c(3) um B(2) by simp
    have "(of_nat (length (data @ x)) :: u64) = cl \<longleftrightarrow> length (data @ x) = unat cl"
    proof -
      have "unat (of_nat (length (data @ x)) :: u64) = length (data @ x)"
        using le unsigned_less[of cl, where 'a = nat] by (intro unat_of_nat_less) simp
      then show ?thesis by (metis unsigned_word_eqI)
    qed
    moreover define st where "st = (cx_st cx)\<lparr>st_body_read := of_nat (length (data @ x)), st_body_done := (of_nat (length (data @ x)) = cl)\<rparr>"
    have e: "k = got" "dst = x" "cx_st cx' = st" "READER cx' = READER cx1" "cx_io cx' = cx_io cx1" "cx_req cx' = cx_req cx" "WRITER cx' = WRITER cx"
      using fd f True g nd B(3) by (simp_all add: st_def rd_def cl_def)
    have "reading cx'" "stream cx' = stream cx1" using e(4,5) g(4) by (simp_all add: reading_def stream_def)
    ultimately have "body_at S (data @ x) cx'"
      using ch e(3,6) B(1) g(5) le by (simp add: body_at_def st_def cl_def)
    then show ?thesis using e g c(2) er \<open>reading cx'\<close> by (simp add: stepped_def st_def reading_def readable_def)
  qed
qed

lemma chunk_header_step:
  assumes A: "at_body S data cx" and ch: "rq_chunked (cx_req cx)" and nd: "\<not> st_body_done (cx_st cx)" and k: "st_chunk_left (cx_st cx) = 0"
  shows "\<exists>ok cx'. chunk_header cx = Some (ok, cx') \<and> stepped S data n cx (if ok then 0 else - 1) [] cx'"
proof -
  obtain ok cx' where h: "chunk_header cx = Some (ok, cx')"
    "if ok then at_body S data cx' \<and> kept_bytes cx' = kept_bytes cx \<and> same_frame cx cx' \<and>
       st_body_read (cx_st cx') = st_body_read (cx_st cx) \<and> length (stream cx') < length (stream cx) \<and>
       (st_body_done (cx_st cx') \<or> st_chunk_left (cx_st cx') \<noteq> 0)
     else broken cx'"
    using chunk_header_ok[OF A k nd] by blast
  note fr = chunk_header_frame[OF h(1)]
  show ?thesis
  proof (cases ok)
    case True
    then show ?thesis using h fr ch k
      by (intro exI[of _ True] exI[of _ cx']) (simp add: stepped_def body_at_def same_frame_def at_body_def reading_def readable_def)
  next
    case False
    then show ?thesis using h fr by (intro exI[of _ False] exI[of _ cx']) (simp add: stepped_def broken_readable)
  qed
qed

text \<open>A step in a body whose error is recorded already: the coding is lost, the loop goes on.\<close>

lemma stepped_lost:
  assumes "stepped S data n cx k dst cx'" and "st_body_err (cx_st cx) \<noteq> 0"
  shows "stepped S' data' n cx k dst cx'"
  using assms by (auto simp: stepped_def split: if_splits)

lemma next_data_ok:
  assumes r: "readable cx" and at: "st_body_err (cx_st cx) = 0 \<longrightarrow> body_at S data cx"
    and ch: "rq_chunked (cx_req cx) \<or> st_body_err (cx_st cx) = 0" and nd: "\<not> st_body_done (cx_st cx)" and n: "0 < n" "n < 2 ^ 31"
  shows "\<exists>k dst cx'. next_data cx n = Some (k, dst, cx') \<and> stepped S data n cx k dst cx'"
proof -
  have step: "\<exists>k dst cx'. next_data cx n = Some (k, dst, cx') \<and> stepped S' data' n cx k dst cx'"
    if c: "rq_chunked (cx_req cx)" and a: "at_body S' data' cx" for S' data'
  proof (cases "st_chunk_left (cx_st cx) = 0")
    case True
    obtain ok cx' where "chunk_header cx = Some (ok, cx')" "stepped S' data' n cx (if ok then 0 else - 1) [] cx'"
      using chunk_header_step[OF a c nd True] by blast
    then show ?thesis using c True by (auto simp: next_data_def)
  next
    case False
    then show ?thesis using chunk_data_ok[OF a c nd False n] c by (simp add: next_data_def)
  qed
  consider (fixed) "\<not> rq_chunked (cx_req cx)" "st_body_err (cx_st cx) = 0" | (sound) "rq_chunked (cx_req cx)" "st_body_err (cx_st cx) = 0"
    | (lost) "rq_chunked (cx_req cx)" "st_body_err (cx_st cx) \<noteq> 0" "reading cx"
    | (dead) "rq_chunked (cx_req cx)" "st_body_err (cx_st cx) \<noteq> 0" "\<not> reading cx" using ch by blast
  then show ?thesis
  proof cases
    case fixed
    obtain k dst cx' where f: "fixed_data cx n = (k, dst, cx')" by (metis surj_pair)
    then show ?thesis using fixed_data_ok[OF _ fixed(1) nd fixed(2) n f] at fixed by (simp add: next_data_def)
  next
    case sound
    then show ?thesis using step[OF sound(1)] at by (simp add: body_at_def)
  next
    case lost
    obtain S' where "at_body S' [] cx" using anywhere[OF lost(3) nd] by blast
    from step[OF lost(1) this] show ?thesis using stepped_lost[OF _ lost(2)] by blast
  next
    case dead
    show ?thesis
    proof (cases "st_chunk_left (cx_st cx) = 0")
      case True
      obtain cx' where h: "chunk_header cx = Some (False, cx')" "broken cx'" using failed_reads(1)[OF r dead(3)] by blast
      then show ?thesis using dead True chunk_header_frame[OF h(1)] by (simp add: next_data_def stepped_def broken_readable)
    next
      case False
      define c where "c = (if of_nat n > st_chunk_left (cx_st cx) then unat (st_chunk_left (cx_st cx)) else n)"
      obtain got x cx1 where cp: "copy_live c cx = (got, x, cx1)" by (metis surj_pair)
      note C = copy_live_ok[OF r clip(1,4)[OF n False, folded c_def] cp]
      then have "\<not> got > 0" using dead(3) by auto
      then have "next_data cx n = Some (- 1, x, body_gone cx1)" using cp dead False by (simp add: next_data_def chunk_data_def c_def)
      then show ?thesis using C \<open>\<not> got > 0\<close> by (simp add: stepped_def same_rest_def broken_readable)
    qed
  qed
qed


text \<open>
  The loop of \<open>ioxd_body_read_until\<close> returns from every state of a body, a broken one included.
\<close>

lemma fixed_no_err:
  assumes "next_data cx n = Some (k, dst, cx')" and "\<not> k < 0" and "\<not> rq_chunked (cx_req cx)" and "st_body_err (cx_st cx) = 0"
  shows "st_body_err (cx_st cx') = 0"
  using assms by (auto simp: next_data_def fixed_data_def copy_live_def Let_def split: prod.splits if_splits)

lemma until_loop_ok:
  assumes "readable cx" and "st_body_err (cx_st cx) = 0 \<longrightarrow> body_at S (data @ out) cx"
    and "rq_chunked (cx_req cx) \<or> st_body_err (cx_st cx) = 0" and "length out \<le> n" and "n < 2 ^ 31"
  shows "\<exists>k out' cx'. until_loop cx n out = Some (k, out', cx') \<and> length out' \<le> n \<and> prefix out out' \<and> readable cx' \<and>
    cx_req cx' = cx_req cx \<and> WRITER cx' = WRITER cx \<and>
    (st_body_err (cx_st cx') = 0 \<longrightarrow> body_at S (data @ out') cx') \<and>
    (if k < 0 then k = - 1 \<and> broken cx' else k = int (length out') \<and> (length out' = n \<or> st_body_done (cx_st cx')))"
  using assms
proof (induction "2 * (n - length out) + (if st_chunk_left (cx_st cx) = 0 then 1 else 0)" arbitrary: cx out rule: less_induct)
  case less
  note A = less.prems
  show ?case
  proof (cases "length out < n \<and> \<not> st_body_done (cx_st cx)")
    case False
    then have "until_loop cx n out = Some (int (length out), out, cx)" by (subst until_loop.simps) (simp only: Let_def if_False)
    moreover have "length out = n \<or> st_body_done (cx_st cx)" using False A(4) by auto
    ultimately show ?thesis using A(1,2,4) by (intro exI[of _ "int (length out)"] exI[of _ out] exI[of _ cx]) simp
  next
    case True
    have m: "0 < n - length out" "n - length out < 2 ^ 31" using True A(5) by auto
    obtain k dst cx1 where s: "next_data cx (n - length out) = Some (k, dst, cx1)" "stepped S (data @ out) (n - length out) cx k dst cx1"
      using next_data_ok[OF A(1,2,3) conjunct2[OF True] m] by blast
    have e: "until_loop cx n out = (if k < 0 then Some (- 1, out @ dst, cx1) else until_loop cx1 n (out @ dst))"
      using True s(1) by (subst until_loop.simps) simp
    show ?thesis
    proof (cases "k < 0")
      case neg: True
      then have d: "dst = []" "broken cx1" "readable cx1" "cx_req cx1 = cx_req cx" "WRITER cx1 = WRITER cx" using s(2) by (simp_all add: stepped_def)
      then have "until_loop cx n out = Some (- 1, out, cx1)" using e neg by simp
      then show ?thesis using d A(4) by (intro exI[of _ "- 1"] exI[of _ out] exI[of _ cx1]) (simp add: broken_readable)
    next
      case False
      then have d: "length dst \<le> n - length out" "readable cx1" "cx_req cx1 = cx_req cx" "WRITER cx1 = WRITER cx"
        "st_body_err (cx_st cx1) = 0 \<longrightarrow> body_at S (data @ out @ dst) cx1" "st_body_err (cx_st cx) \<noteq> 0 \<longrightarrow> st_body_err (cx_st cx1) \<noteq> 0"
        "dst = [] \<longrightarrow> rq_chunked (cx_req cx) \<and> st_chunk_left (cx_st cx) = 0 \<and> (st_body_done (cx_st cx1) \<or> st_chunk_left (cx_st cx1) \<noteq> 0)"
        using s(2) by (simp_all add: stepped_def)
      have e': "until_loop cx n out = until_loop cx1 n (out @ dst)" using e False by simp
      have len: "length (out @ dst) \<le> n" using d(1) True by auto
      have chk: "rq_chunked (cx_req cx1) \<or> st_body_err (cx_st cx1) = 0" using A(3) d(3)
        fixed_no_err[OF s(1) False] by (cases "rq_chunked (cx_req cx)") auto
      show ?thesis
      proof (cases "dst = [] \<and> st_body_done (cx_st cx1)")
        case over: True
        then have "until_loop cx1 n (out @ dst) = Some (int (length out), out, cx1)" by (subst until_loop.simps) (simp add: Let_def)
        then show ?thesis unfolding e' using d over A(4)
          by (intro exI[of _ "int (length out)"] exI[of _ out] exI[of _ cx1]) simp
      next
        case more: False
        have lt: "2 * (n - length (out @ dst)) + (if st_chunk_left (cx_st cx1) = 0 then 1 else 0)
            < 2 * (n - length out) + (if st_chunk_left (cx_st cx) = 0 then 1 else (0 :: nat))"
          using more d(1,7) True by (cases "dst = []") (auto simp: neq_Nil_conv)
        have "st_body_err (cx_st cx1) = 0 \<longrightarrow> body_at S (data @ (out @ dst)) cx1" using d(5) by simp
        from less.hyps[OF lt d(2) this chk len A(5)] obtain k' out' cx' where i: "until_loop cx1 n (out @ dst) = Some (k', out', cx')"
          "length out' \<le> n" "prefix (out @ dst) out'" "readable cx'" "cx_req cx' = cx_req cx1" "WRITER cx' = WRITER cx1"
          "st_body_err (cx_st cx') = 0 \<longrightarrow> body_at S (data @ out') cx'"
          "if k' < 0 then k' = - 1 \<and> broken cx' else k' = int (length out') \<and> (length out' = n \<or> st_body_done (cx_st cx'))" by blast
        have "prefix out out'" by (rule append_prefixD[OF i(3)])
        then show ?thesis unfolding e' using i d(3,4) by (intro exI[of _ k'] exI[of _ out'] exI[of _ cx']) simp
      qed
    qed
  qed
qed


section \<open>The calls of a handler\<close>

lemma through_sends:
  assumes "ioxd__pipewriter_through pw w data = (rc, pw', w')" and "length data < 2 ^ 31"
  shows "\<exists>out. sent_to w w' out"
proof (cases "pw_failed pw")
  case True
  then show ?thesis using assms(1) by (auto simp: ioxd__pipewriter_through_def intro!: exI[of _ "[]"])
next
  case False
  obtain r x where c: "ioxd__conn_send data w = (r, x)" by (metis surj_pair)
  have "w' = x" using assms(1) False c by (auto simp: ioxd__pipewriter_through_def split: if_splits)
  then show ?thesis using conn_send_wire[OF c assms(2)] by blast
qed

lemma body_begin_ok:
  assumes "body_begin cx = (ok, cx')" and "readable cx"
  shows "readable cx' \<and> READER cx' = READER cx \<and> cx_req cx' = cx_req cx \<and> cx_res cx' = cx_res cx \<and>
    (if ok then (\<exists>b. cx_st cx' = (cx_st cx)\<lparr>st_continue_sent := b\<rparr>) \<and> (reading cx \<longrightarrow> reading cx') \<and> stream cx' = stream cx \<and>
       kept_bytes cx' = kept_bytes cx else broken cx')"
proof (cases "\<not> rq_expect_continue (cx_req cx) \<or> st_continue_sent (cx_st cx) \<or> rs_head_sent (cx_res cx)")
  case True
  then have "ok" "cx' = cx" using assms(1) by (simp_all add: body_begin_def)
  moreover have "cx_st cx = (cx_st cx)\<lparr>st_continue_sent := st_continue_sent (cx_st cx)\<rparr>" by simp
  ultimately show ?thesis using assms(2) by (simp only: if_True) blast
next
  case False
  obtain rc pw w where t: "ioxd__pipewriter_through (WRITER cx) (cx_io cx) continue_text = (rc, pw, w)" by (metis surj_pair)
  define cx1 where "cx1 = set_writer pw w (upd_st (\<lambda>s. s\<lparr>st_continue_sent := True\<rparr>) cx)"
  have e: "(ok, cx') = (if rc < 0 then (False, body_gone cx1) else (True, cx1))"
    using assms(1) False t by (cases "rc < 0") (simp_all add: body_begin_def cx1_def Let_def)
  have "length continue_text < 2 ^ 31" by (simp add: continue_text_def)
  then obtain out where s: "sent_to (cx_io cx) w out" using through_sends[OF t] by blast
  note k = sent_keeps_reader[OF s]
  have c1: "READER cx1 = READER cx" "cx_io cx1 = w" "cx_req cx1 = cx_req cx" "cx_res cx1 = cx_res cx"
    "cx_st cx1 = (cx_st cx)\<lparr>st_continue_sent := True\<rparr>" by (simp_all add: cx1_def)
  have st: "stream cx1 = stream cx" "kept_bytes cx1 = kept_bytes cx" "reading cx \<longrightarrow> reading cx1" "readable cx1"
    using c1 k sent_to_fields[OF s] assms(2) by (simp_all add: stream_def kept_bytes_def reading_def readable_def Pipe_Stream.pending_def)
  show ?thesis
  proof (cases "rc < 0")
    case True
    then have "\<not> ok" "cx' = body_gone cx1" using e by simp_all
    then show ?thesis using st(4) c1 by (simp add: broken_readable body_gone_def)
  next
    case False
    then have "ok" "cx' = cx1" using e by simp_all
    then show ?thesis using st c1 by auto
  qed
qed

lemma body_at_begin:
  assumes "body_at S data cx" and "body_begin cx = (True, cx')"
  shows "body_at S data cx'"
proof -
  have "reading cx" "readable cx" using body_at_reading[OF assms(1)] by (simp_all add: reading_def readable_def)
  then have "reading cx'" "cx_req cx' = cx_req cx" "\<exists>b. cx_st cx' = (cx_st cx)\<lparr>st_continue_sent := b\<rparr>" "stream cx' = stream cx"
    using body_begin_ok[OF assms(2)] by auto
  then show ?thesis using assms(1) by (auto simp: body_at_def at_body_def)
qed


lemma all_length_ok:
  assumes "reading cx" and "snd sp = 0 \<or> snd sp = length (live_bytes cx)" and "length (stream cx) < 2 ^ 64"
  shows "\<exists>ok sp' cx'. all_length cx sp = Some (ok, sp', cx') \<and>
    (if ok then took [] cx cx' \<and> same_rest cx cx' \<and> unat (rq_content_length (cx_req cx)) \<le> length (live_bytes cx') \<and>
       (rq_content_length (cx_req cx) = 0 \<longrightarrow> sp' = sp) else broken cx')"
  using assms
proof (induction "if snd sp \<noteq> 0 then unread (examine_live (snd sp) cx) else unread cx" arbitrary: cx sp rule: less_induct)
  case less
  let ?cl = "rq_content_length (cx_req cx)"
  have live_lt: "length (live_bytes c) < 2 ^ 64" if "stream c = stream cx" for c
    using less.prems(3) stream_live[of c] that by (metis length_append linorder_not_less order_trans le_add1)
  show ?case
  proof (cases "?cl \<noteq> 0 \<and> of_nat (snd sp) < ?cl")
    case False
    then have e: "all_length cx sp = Some (True, sp, cx)" by (subst all_length.simps) (simp only: if_False)
    have "unat ?cl \<le> length (live_bytes cx)"
    proof (cases "?cl = 0")
      case nz: False
      then have "\<not> of_nat (snd sp) < ?cl" using False by simp
      moreover have "snd sp \<noteq> 0"
      proof
        assume "snd sp = 0"
        then show False using calculation nz by (simp add: word_gt_0)
      qed
      ultimately have "unat ?cl \<le> unat (of_nat (length (live_bytes cx)) :: u64)" using less.prems(2) by (simp add: word_le_nat_alt not_less)
      then show ?thesis using live_lt[of cx] by (simp add: unat_of_nat_less)
    qed simp
    then show ?thesis using e less.prems took_refl[of cx] by (intro exI[of _ True] exI[of _ sp] exI[of _ cx]) simp
  next
    case True
    define cx0 where "cx0 = (if snd sp \<noteq> 0 then examine_live (snd sp) cx else cx)"
    have t0: "took [] cx cx0" "same_rest cx cx0"
      using examine_ok[OF less.prems(1), of "snd sp"] took_refl[OF less.prems(1)] by (simp_all add: cx0_def)
    have r0: "reading cx0" using t0(1) by (simp add: took_def)
    obtain ok sp1 cx1 where b: "body_bytes cx0 = (ok, sp1, cx1)" by (metis surj_pair)
    note B = body_bytes_ok[OF r0 b]
    have e: "all_length cx sp = (if ok then all_length cx1 sp1 else Some (False, sp1, cx1))"
      using True b unfolding cx0_def by (subst all_length.simps) (cases "snd sp = 0"; simp)
    show ?thesis
    proof (cases ok)
      case False
      then show ?thesis using B e by (intro exI[of _ False] exI[of _ sp1] exI[of _ cx1]) simp
    next
      case ok: True
      then have B: "took [] cx0 cx1" "same_rest cx0 cx1" "snd sp1 = length (live_bytes cx1)" "snd sp1 \<noteq> 0" using B by simp_all
      have t1: "took [] cx cx1" "same_rest cx cx1" using took_trans[OF t0(1) B(1)] same_rest_trans[OF t0(2) B(2)] by simp_all
      have b': "body_bytes cx0 = (True, sp1, cx1)" using b ok by simp
      have lt: "(if snd sp1 \<noteq> 0 then unread (examine_live (snd sp1) cx1) else unread cx1)
          < (if snd sp \<noteq> 0 then unread (examine_live (snd sp) cx) else unread cx)"
        using body_bytes_progress[OF r0 b'] B(4) by (simp add: cx0_def split: if_splits)
      have pr: "reading cx1" "length (stream cx1) < 2 ^ 64" "cx_req cx1 = cx_req cx"
        using t1 less.prems(3) by (auto simp: took_def same_rest_def)
      from less.hyps[OF lt pr(1) disjI2[OF B(3)] pr(2)] obtain ok' sp' cx' where i: "all_length cx1 sp1 = Some (ok', sp', cx')"
        "if ok' then took [] cx1 cx' \<and> same_rest cx1 cx' \<and> unat (rq_content_length (cx_req cx1)) \<le> length (live_bytes cx') \<and>
          (rq_content_length (cx_req cx1) = 0 \<longrightarrow> sp' = sp1) else broken cx'" by blast
      show ?thesis
      proof (cases ok')
        case True
        then have "took [] cx cx'" "same_rest cx cx'" using i(2) took_trans[OF t1(1), of "[]" cx'] same_rest_trans[OF t1(2), of cx'] by simp_all
        then show ?thesis using e ok i True pr(3) \<open>?cl \<noteq> 0 \<and> of_nat (snd sp) < ?cl\<close>
          by (intro exI[of _ True] exI[of _ sp'] exI[of _ cx']) simp
      next
        case False
        then show ?thesis using e ok i by (intro exI[of _ False] exI[of _ sp'] exI[of _ cx']) simp
      qed
    qed
  qed
qed


text \<open>A body nothing was read of yet.\<close>

definition new_body :: "ctx \<Rightarrow> bool" where
  "new_body cx \<longleftrightarrow> body_at (stream cx) [] cx \<and> st_body_read (cx_st cx) = 0 \<and> st_body_err (cx_st cx) = 0 \<and> \<not> st_body_whole (cx_st cx) \<and>
     kept_bytes cx = []"

definition whole_body :: "bytes \<Rightarrow> bytes \<Rightarrow> ctx \<Rightarrow> bool" where
  "whole_body S b cx \<longleftrightarrow> body_at S b cx \<and> st_body_done (cx_st cx) \<and> st_body_whole (cx_st cx) \<and> st_body_err (cx_st cx) = 0 \<and> rq_body (cx_req cx) = b"

lemma body_all_chunked:
  assumes A: "body_at S [] cx" and ch: "rq_chunked (cx_req cx)" and k: "kept_bytes cx = []" and er: "st_body_err (cx_st cx) = 0"
    and len: "length (stream cx) < 2 ^ 64"
  shows "\<exists>ok cx'. all_chunks cx = Some (ok, cx') \<and>
    (if ok then body_at S (kept_bytes cx') cx' \<and> st_body_done (cx_st cx') \<and> st_body_err (cx_st cx') = 0 \<and> cx_req cx' = cx_req cx else broken cx')"
proof -
  have "at_body S [] cx" using A ch by (simp add: body_at_def)
  from all_chunks_ok[OF this k len] obtain ok cx' where i: "all_chunks cx = Some (ok, cx')"
    "if ok then at_body S (kept_bytes cx') cx' \<and> st_body_done (cx_st cx') \<and> same_frame cx cx' else broken cx'" by blast
  then show ?thesis using ch er by (intro exI[of _ ok] exI[of _ cx']) (cases ok; simp add: body_at_def same_frame_def)
qed

lemma slice_bytes_st [simp]: "slice_bytes (upd_st f cx) sp = slice_bytes cx sp" "slice_bytes (set_body b cx) sp = slice_bytes cx sp"
  by (simp_all add: slice_bytes_def)

lemma views_body [simp]:
  "reading (set_body b cx) = reading cx" "stream (set_body b cx) = stream cx" "rq_body (cx_req (set_body b cx)) = b"
  "rq_chunked (cx_req (set_body b cx)) = rq_chunked (cx_req cx)"
  "rq_content_length (cx_req (set_body b cx)) = rq_content_length (cx_req cx)" "cx_req (upd_st f cx) = cx_req cx"
  by (simp add: reading_def, simp add: stream_def, simp_all add: set_body_def upd_st_def)

lemma body_all_sized:
  assumes A: "body_at S [] cx" and ch: "\<not> rq_chunked (cx_req cx)" and er: "st_body_err (cx_st cx) = 0"
    and len: "length (stream cx) < 2 ^ 64"
  defines "n \<equiv> unat (rq_content_length (cx_req cx))"
  shows "\<exists>ok sp cx1. all_length cx (Nullptr, 0) = Some (ok, sp, cx1) \<and> (if \<not> ok then broken cx1
    else cx_req cx1 = cx_req cx \<and> (\<forall>pl cx2. (if n \<noteq> 0 then keep_live n cx1 else (fst sp, cx1)) = (pl, cx2) \<longrightarrow>
      (if n \<noteq> 0 \<and> pl = Nullptr then broken (body_fail cx2 413)
       else let b = slice_bytes cx2 (pl, n) in
         whole_body S b (upd_st (\<lambda>s. s\<lparr>st_body_read := of_nat n, st_body_done := True, st_body_whole := True\<rparr>) (set_body b cx2)))))"
proof -
  have R: "reading cx" "S = stream cx" using A ch by (simp_all add: body_at_def)
  obtain ok sp cx1 where l: "all_length cx (Nullptr, 0) = Some (ok, sp, cx1)"
    "if ok then took [] cx cx1 \<and> same_rest cx cx1 \<and> n \<le> length (live_bytes cx1) \<and>
       (rq_content_length (cx_req cx) = 0 \<longrightarrow> sp = (Nullptr, 0)) else broken cx1"
    using all_length_ok[OF R(1), of "(Nullptr, 0)"] len by (auto simp: n_def)
  show ?thesis
  proof (cases ok)
    case False
    then show ?thesis using l by (intro exI[of _ False] exI[of _ sp] exI[of _ cx1]) simp
  next
    case True
    then have t: "reading cx1" "stream cx = stream cx1" "cx_st cx1 = cx_st cx" "cx_req cx1 = cx_req cx" "n \<le> length (live_bytes cx1)"
      "rq_content_length (cx_req cx) = 0 \<longrightarrow> sp = (Nullptr, 0)" using l(2) by (simp_all add: took_def same_rest_def)
    have "if n \<noteq> 0 \<and> pl = Nullptr then broken (body_fail cx2 413)
       else let b = slice_bytes cx2 (pl, n) in
         whole_body S b (upd_st (\<lambda>s. s\<lparr>st_body_read := of_nat n, st_body_done := True, st_body_whole := True\<rparr>) (set_body b cx2))"
      if k: "(if n \<noteq> 0 then keep_live n cx1 else (fst sp, cx1)) = (pl, cx2)" for pl cx2
    proof (cases "n = 0")
      case z: True
      then have "rq_content_length (cx_req cx) = 0" by (simp add: n_def unat_eq_0)
      then have "pl = Nullptr" "cx2 = cx1" using k z t(6) by auto
      then show ?thesis using z t ch er R by (simp add: whole_body_def body_at_def slice_bytes_def n_def[symmetric])
    next
      case False
      then have k: "keep_live n cx1 = (pl, cx2)" using k by simp
      note K = keep_live_ok[OF t(1) _ t(5) k]
      show ?thesis
      proof (cases "pl = Nullptr")
        case True
        then show ?thesis using K False by simp
      next
        case nn: False
        then have "reading cx2" "stream cx1 = take n (live_bytes cx1) @ stream cx2" "slice_bytes cx2 (pl, n) = take n (live_bytes cx1)"
          "cx_st cx2 = cx_st cx" "cx_req cx2 = cx_req cx" using K False t by (simp_all add: same_rest_def)
        then show ?thesis using nn t ch er R by (simp add: whole_body_def body_at_def n_def[symmetric])
      qed
    qed
    then show ?thesis using l(1) True t(4) by (intro exI[of _ True] exI[of _ sp] exI[of _ cx1]) (simp only: not_True_eq_False if_False simp_thms, blast)
  qed
qed


lemma whole_bodyI:
  assumes "body_at S (kept_bytes cx) cx" and "st_body_done (cx_st cx)" and "st_body_err (cx_st cx) = 0"
  shows "whole_body S (kept_bytes cx) (upd_st (\<lambda>s. s\<lparr>st_body_whole := True\<rparr>) (set_body (kept_bytes cx) cx))"
  using assms by (simp add: whole_body_def body_at_def at_body_def split: if_splits)

lemma all_after_begin:
  assumes A: "body_at S [] cx" and k: "kept_bytes cx = []" and er: "st_body_err (cx_st cx) = 0" "st_body_read (cx_st cx) = 0" "\<not> st_body_whole (cx_st cx)"
    and len: "length (stream cx) < 2 ^ 64" and b: "(if \<not> st_body_done (cx_st cx) then body_begin cx0 else (True, cx0)) = (True, cx)"
    and st: "cx_st cx0 = (cx_st cx)\<lparr>st_continue_sent := c\<rparr>" "rq_body (cx_req cx0) = rq_body (cx_req cx)"
  shows "\<exists>b cx'. ioxd_body_all cx0 = Some (b, cx') \<and>
    (if st_body_err (cx_st cx') = 0 then whole_body S b cx' else b = [] \<and> readable cx')"
proof -
  have go: "ioxd_body_all cx0 = (if rq_chunked (cx_req cx) then do {
          (ok, cx) \<leftarrow> all_chunks cx;
          (if \<not> ok then Some ([], cx)
           else
             let cx = set_body (slice_bytes cx (ioxd__pipereader_run (READER cx))) cx;
                 cx = upd_st (\<lambda>s. s\<lparr>st_body_whole := True\<rparr>) cx
             in Some (rq_body (cx_req cx), cx)) }
        else if rq_content_length (cx_req cx) > of_nat (pr_cap (READER cx)) then Some ([], body_fail cx 413)
        else do {
          (ok, live, cx) \<leftarrow> all_length cx (Nullptr, 0);
          (if \<not> ok then Some ([], cx)
           else
             let n = unat (rq_content_length (cx_req cx));
                 (kept, cx) = (if n \<noteq> 0 then keep_live n cx else (fst live, cx))
             in if n \<noteq> 0 \<and> kept = Nullptr then Some ([], body_fail cx 413)
             else
               let cx = set_body (slice_bytes cx (kept, n)) cx;
                   cx = upd_st (\<lambda>s. s\<lparr>st_body_read := of_nat n, st_body_done := True, st_body_whole := True\<rparr>) cx
               in Some (rq_body (cx_req cx), cx)) })"
    using er b st by (simp add: ioxd_body_all_def)
  have R: "reading cx" by (rule body_at_reading[OF A])
  consider (chunked) "rq_chunked (cx_req cx)" | (big) "\<not> rq_chunked (cx_req cx)" "rq_content_length (cx_req cx) > of_nat (pr_cap (READER cx))"
    | (sized) "\<not> rq_chunked (cx_req cx)" "\<not> rq_content_length (cx_req cx) > of_nat (pr_cap (READER cx))" by blast
  then show ?thesis
  proof cases
    case chunked
    obtain ok cx' where i: "all_chunks cx = Some (ok, cx')"
      "if ok then body_at S (kept_bytes cx') cx' \<and> st_body_done (cx_st cx') \<and> st_body_err (cx_st cx') = 0 \<and> cx_req cx' = cx_req cx else broken cx'"
      using body_all_chunked[OF A chunked k er(1) len] by blast
    show ?thesis
    proof (cases ok)
      case True
      have "slice_bytes cx' (ioxd__pipereader_run (READER cx')) = kept_bytes cx'" by (simp add: slice_bytes_def kept_bytes_def run_def)
      then show ?thesis using go chunked i True whole_bodyI[of S cx'] by (simp add: Let_def)
    next
      case False
      then show ?thesis using go chunked i by (simp add: broken_readable)
    qed
  next
    case big
    then show ?thesis using go broken_fail[OF R, of 413] by (simp add: broken_readable)
  next
    case sized
    define n where "n = unat (rq_content_length (cx_req cx))"
    obtain ok sp cx1 where l: "all_length cx (Nullptr, 0) = Some (ok, sp, cx1)" and L: "if \<not> ok then broken cx1
      else cx_req cx1 = cx_req cx \<and> (\<forall>pl cx2. (if n \<noteq> 0 then keep_live n cx1 else (fst sp, cx1)) = (pl, cx2) \<longrightarrow>
        (if n \<noteq> 0 \<and> pl = Nullptr then broken (body_fail cx2 413)
         else let b = slice_bytes cx2 (pl, n) in
           whole_body S b (upd_st (\<lambda>s. s\<lparr>st_body_read := of_nat n, st_body_done := True, st_body_whole := True\<rparr>) (set_body b cx2))))"
      using body_all_sized[OF A sized(1) er(1) len, folded n_def] by blast
    show ?thesis
    proof (cases ok)
      case False
      then show ?thesis using go sized l L by (simp add: broken_readable)
    next
      case True
      obtain pl cx2 where p: "(if n \<noteq> 0 then keep_live n cx1 else (fst sp, cx1)) = (pl, cx2)" by (metis surj_pair)
      have q: "cx_req cx1 = cx_req cx" and P: "if n \<noteq> 0 \<and> pl = Nullptr then broken (body_fail cx2 413)
         else let b = slice_bytes cx2 (pl, n) in
           whole_body S b (upd_st (\<lambda>s. s\<lparr>st_body_read := of_nat n, st_body_done := True, st_body_whole := True\<rparr>) (set_body b cx2))"
        using L True p by auto
      have e: "ioxd_body_all cx0 = (if n \<noteq> 0 \<and> pl = Nullptr then Some ([], body_fail cx2 413)
         else Some (slice_bytes cx2 (pl, n), upd_st (\<lambda>s. s\<lparr>st_body_read := of_nat n, st_body_done := True, st_body_whole := True\<rparr>)
           (set_body (slice_bytes cx2 (pl, n)) cx2)))"
        using go sized l True p q unfolding n_def by (simp only: Let_def bind.simps prod.case if_False if_True not_True_eq_False views_body)
      show ?thesis
      proof (cases "n \<noteq> 0 \<and> pl = Nullptr")
        case True
        then show ?thesis using e P by (simp add: broken_readable)
      next
        case False
        then have "ioxd_body_all cx0 = Some (slice_bytes cx2 (pl, n), upd_st (\<lambda>s. s\<lparr>st_body_read := of_nat n, st_body_done := True, st_body_whole := True\<rparr>)
           (set_body (slice_bytes cx2 (pl, n)) cx2))" using e by (simp only: if_False)
        moreover have "whole_body S (slice_bytes cx2 (pl, n)) (upd_st (\<lambda>s. s\<lparr>st_body_read := of_nat n, st_body_done := True, st_body_whole := True\<rparr>)
           (set_body (slice_bytes cx2 (pl, n)) cx2))" using False P by (simp only: if_False Let_def)
        ultimately show ?thesis unfolding whole_body_def by (metis (no_types, lifting))
      qed
    qed
  qed
qed

end
