(* ===== verification/Body_Read.thy ===== *)
theory Body_Read
  imports Body_Decode
begin

text \<open>
  The calls of a handler on the body: reading it in pieces, and the draining of what is left.  Then
  the same calls on a body that has arrived, where what they return can be said outright.
\<close>

lemma until_ok:
  assumes A: "body_at S data cx" and er: "st_body_err (cx_st cx) = 0"
  shows "\<exists>k out cx'. ioxd_body_read_until cx n = Some (k, out, cx') \<and> length out \<le> n \<and> readable cx' \<and>
    (st_body_err (cx_st cx') = 0 \<longrightarrow> body_at S (data @ out) cx') \<and>
    (if k < 0 then k = - 1 \<and> broken cx' else k = int (length out) \<and> (length out = min n INT_MAX \<or> st_body_done (cx_st cx')))"
proof -
  have R: "reading cx" "readable cx" using body_at_reading[OF A] by (simp_all add: reading_def readable_def)
  consider (idle) "n = 0 \<or> st_body_done (cx_st cx)" | (read) "n \<noteq> 0" "\<not> st_body_done (cx_st cx)" by blast
  then show ?thesis
  proof cases
    case idle
    then have "ioxd_body_read_until cx n = Some (0, [], cx)" using er by (auto simp: ioxd_body_read_until_def)
    moreover have "length [] = min n INT_MAX \<or> st_body_done (cx_st cx)" using idle by (elim disjE) simp_all
    ultimately show ?thesis using A R by (intro exI[of _ 0] exI[of _ "[]"] exI[of _ cx]) simp
  next
    case read
    obtain ok cx1 where b: "body_begin cx = (ok, cx1)" by fastforce
    note B = body_begin_ok[OF b R(2)]
    show ?thesis
    proof (cases ok)
      case False
      then have "ioxd_body_read_until cx n = Some (- 1, [], cx1)" using er read b by (simp add: ioxd_body_read_until_def)
      then show ?thesis using B False by (auto simp: broken_readable)
    next
      case True
      define m where "m = (if n > INT_MAX then INT_MAX else n)"
      have m: "m < 2 ^ 31" "m = min n INT_MAX" "m \<le> n" by (simp_all add: m_def)
      have a: "body_at S (data @ []) cx1" using body_at_begin[OF A] b True by simp
      have e1: "st_body_err (cx_st cx1) = 0" "readable cx1" using B True er by auto
      obtain k out cx' where u: "until_loop cx1 m [] = Some (k, out, cx')" "length out \<le> m" "readable cx'"
        "st_body_err (cx_st cx') = 0 \<longrightarrow> body_at S (data @ out) cx'"
        "if k < 0 then k = - 1 \<and> broken cx' else k = int (length out) \<and> (length out = m \<or> st_body_done (cx_st cx'))"
        using until_loop_ok[OF e1(2) _ _ _ m(1), of S data "[]"] a e1(1) by auto
      have "ioxd_body_read_until cx n = Some (k, out, cx')" using er read b True u(1) by (simp add: ioxd_body_read_until_def m_def)
      then show ?thesis using u m(3) unfolding m(2)[symmetric] by (intro exI[of _ k] exI[of _ out] exI[of _ cx']) (cases "k < 0"; simp)
    qed
  qed
qed

definition over_or_closing :: "bytes \<Rightarrow> bytes \<Rightarrow> ctx \<Rightarrow> bool" where
  "over_or_closing S data cx \<longleftrightarrow>
     st_body_err (cx_st cx) \<noteq> 0 \<or>
     (\<exists>d. body_at S (data @ d) cx \<and> length d < IOXD_DRAIN_MAX + 4096 \<and>
        (st_body_done (cx_st cx) \<or> rs_close (cx_res cx) \<and> IOXD_DRAIN_MAX \<le> length d))"

lemma body_at_res [simp]: "body_at S data (upd_res f cx) = body_at S data cx"
  by (simp add: body_at_def at_body_def upd_res_def reading_def READER_def stream_def)

lemma drain_loop_ok:
  assumes "body_at S (data @ d) cx" and "st_body_err (cx_st cx) = 0" and "length d = drained" and "drained < IOXD_DRAIN_MAX + 4096"
  shows "\<exists>cx'. drain_loop cx drained = Some cx' \<and> over_or_closing S data cx'"
  using assms
proof (induction "IOXD_DRAIN_MAX - drained" arbitrary: cx drained d rule: less_induct)
  case less
  note A = less.prems
  consider (over) "st_body_done (cx_st cx)" | (much) "\<not> st_body_done (cx_st cx)" "drained \<ge> IOXD_DRAIN_MAX"
    | (read) "\<not> st_body_done (cx_st cx)" "drained < IOXD_DRAIN_MAX" by linarith
  then show ?case
  proof cases
    case over
    then have "drain_loop cx drained = Some cx" by (subst drain_loop.simps) simp
    then show ?thesis using A over by (auto simp: over_or_closing_def)
  next
    case much
    then have "drain_loop cx drained = Some (upd_res (\<lambda>r. r\<lparr>rs_close := True\<rparr>) cx)" using A(2) by (subst drain_loop.simps) simp
    moreover have "over_or_closing S data (upd_res (\<lambda>r. r\<lparr>rs_close := True\<rparr>) cx)"
      unfolding over_or_closing_def body_at_res using A much(2) by (auto simp: upd_res_def)
    ultimately show ?thesis by simp
  next
    case read
    have m: "min 4096 INT_MAX = (4096 :: nat)" by simp
    obtain k out cx1 where u: "ioxd_body_read_until cx 4096 = Some (k, out, cx1)" "length out \<le> 4096"
      "st_body_err (cx_st cx1) = 0 \<longrightarrow> body_at S (data @ d @ out) cx1"
      "if k < 0 then k = - 1 \<and> broken cx1 else k = int (length out) \<and> (length out = 4096 \<or> st_body_done (cx_st cx1))"
      using until_ok[OF A(1,2), of 4096] by (simp only: append.assoc m) blast
    have e: "drain_loop cx drained = (if k \<le> 0 then Some cx1 else drain_loop cx1 (drained + nat k))"
      using read A(2) u(1) by (subst drain_loop.simps) simp
    consider (stop) "k \<le> 0" | (lost) "k > 0" "st_body_err (cx_st cx1) \<noteq> 0" | (more) "k > 0" "st_body_err (cx_st cx1) = 0" by linarith
    then show ?thesis
    proof cases
      case stop
      then have "st_body_err (cx_st cx1) = 0 \<longrightarrow> out = [] \<and> st_body_done (cx_st cx1)" using u(4) by (auto simp: broken_def split: if_splits)
      then have "over_or_closing S data cx1" unfolding over_or_closing_def using u(3) A(3,4) by fastforce
      then show ?thesis using e stop by simp
    next
      case lost
      then have "drain_loop cx drained = Some cx1" using e by (simp, subst drain_loop.simps) simp
      then show ?thesis using lost by (simp add: over_or_closing_def)
    next
      case more
      have lt: "IOXD_DRAIN_MAX - (drained + nat k) < IOXD_DRAIN_MAX - drained" using more read by auto
      have "body_at S (data @ (d @ out)) cx1" using u(3) more by simp
      moreover have "length (d @ out) = drained + nat k" "drained + nat k < IOXD_DRAIN_MAX + 4096" using A(3) u(2,4) more read by auto
      ultimately show ?thesis using less.hyps[OF lt _ more(2)] e more by simp
    qed
  qed
qed


section \<open>A body that has arrived\<close>

definition at_hand :: "bytes \<Rightarrow> ctx \<Rightarrow> bool" where
  "at_hand l cx \<longleftrightarrow> reading cx \<and> live_bytes cx = l \<and> examined (READER cx) = 0"

lemma set_reader_same [simp]: "set_reader (READER cx) (cx_io cx) cx = cx"
  by (simp add: set_reader_def READER_def)

lemma at_hand_span: "at_hand l cx \<Longrightarrow> snd (live_span (READER cx)) = length l \<and> slice_bytes cx (live_span (READER cx)) = l"
  using live_length[where pr = "READER cx" and w = "cx_io cx"] by (auto simp: at_hand_def reading_def live_bytes_def slice_bytes_def live_def)

lemma at_hand_bytes:
  assumes "at_hand l cx" and "l \<noteq> []"
  shows "body_bytes cx = (True, live_span (READER cx), cx)"
  using assms at_hand_span[OF assms(1)]
  by (simp add: body_bytes_def ioxd__pipereader_read_def read_loop.simps[of "READER cx"] at_hand_def reading_def)

lemma at_hand_drop:
  assumes "at_hand l cx" and "n \<le> length l"
  shows "at_hand (drop n l) (drop_live n cx)" "same_rest cx (drop_live n cx)"
proof -
  have R: "reading cx" and l: "live_bytes cx = l" using assms(1) by (simp_all add: at_hand_def)
  note d = drop_ok[OF R, unfolded l, OF assms(2)]
  show "same_rest cx (drop_live n cx)" by (rule d(2))
  obtain pr w where c: "consume (READER cx) (cx_io cx) n = (pr, w)" by fastforce
  have o: "reader_ok (READER cx) (cx_io cx)" using R by (simp add: reading_def)
  have "examined pr = 0" using c assms(1) by (auto simp: consume_def at_hand_def cur_done_def Let_def split: if_splits prod.splits)
  moreover have "live pr w = drop n l" using consume_ok[OF o c] l by (simp add: live_bytes_def)
  ultimately show "at_hand (drop n l) (drop_live n cx)" using d(1) c
    by (simp add: at_hand_def took_def drop_live_def ioxd__pipereader_drop_def live_bytes_def)
qed

lemma at_hand_st [simp]: "at_hand l (upd_st f cx) = at_hand l cx" "at_hand l (take_data n cx) = at_hand l cx"
  "at_hand l (body_fail cx s) = at_hand l cx"
  by (simp_all add: at_hand_def take_data_def body_fail_def live_bytes_def reading_def)

lemma at_hand_line:
  assumes "at_hand (l @ CRLF @ r) cx" and "is_line l"
  shows "body_line cx = Some (Some (length l), live_span (READER cx), cx)"
proof -
  have "memmem2 CR LF (l @ CRLF @ r) = Some (length l)" using memmem2_append[of CR LF "l @ CRLF" "length l" r] assms(2) by (simp add: is_line_def)
  then show ?thesis using at_hand_bytes[OF assms(1)] at_hand_span[OF assms(1)] by (subst body_line.simps) simp
qed

lemma at_hand_header:
  assumes h: "at_hand (l @ CRLF @ r) cx" and l: "size_line l sz" and z: "sz \<noteq> 0"
  shows "\<exists>cx'. chunk_header cx = Some (True, cx') \<and> at_hand r cx' \<and> cx_req cx' = cx_req cx \<and> cx_st cx' = (cx_st cx)\<lparr>st_chunk_left := sz\<rparr>"
proof -
  obtain i where i: "is_line l" "hex_size l 0 0 = Some (sz, i)" "i \<noteq> 0" "size_line_ended l i" using l by (auto simp: size_line_def)
  define cx1 where "cx1 = drop_live (length l + 2) cx"
  have d: "at_hand r cx1" "same_rest cx cx1" using at_hand_drop[OF h, of "length l + 2"] by (simp_all add: cx1_def)
  have "chunk_header cx = Some (True, upd_st (\<lambda>s. s\<lparr>st_chunk_left := sz\<rparr>) cx1)"
    using at_hand_line[OF h i(1)] at_hand_span[OF h] i z by (simp add: chunk_header_def cx1_def)
  then show ?thesis using d by (simp add: same_rest_def)
qed

lemma at_hand_last:
  assumes h: "at_hand (l @ CRLF @ CRLF @ r) cx" and l: "size_line l 0"
  shows "\<exists>cx'. chunk_header cx = Some (True, cx') \<and> at_hand r cx' \<and> cx_req cx' = cx_req cx \<and> cx_st cx' = (cx_st cx)\<lparr>st_body_done := True\<rparr>"
proof -
  obtain i where i: "is_line l" "hex_size l 0 0 = Some (0, i)" "i \<noteq> 0" "size_line_ended l i" using l by (auto simp: size_line_def)
  define cx1 where "cx1 = drop_live (length l + 2) cx"
  have d: "at_hand ([] @ CRLF @ r) cx1" "same_rest cx cx1" using at_hand_drop[OF h, of "length l + 2"] by (simp_all add: cx1_def)
  have e: "is_line []" by (simp add: is_line_def)
  define cx2 where "cx2 = drop_live 2 cx1"
  have d2: "at_hand r cx2" "same_rest cx1 cx2" using at_hand_drop[OF d(1), of 2] by (simp_all add: cx2_def)
  have "trailers_loop cx1 0 = Some (True, upd_st (\<lambda>s. s\<lparr>st_body_done := True\<rparr>) cx2)"
    using at_hand_line[OF d(1) e] by (subst trailers_loop.simps) (simp add: cx2_def numeral_2_eq_2)
  then have "chunk_header cx = Some (True, upd_st (\<lambda>s. s\<lparr>st_body_done := True\<rparr>) cx2)"
    using at_hand_line[OF h i(1)] at_hand_span[OF h] i by (simp add: chunk_header_def cx1_def chunk_trailers_def)
  then show ?thesis using d d2 by (simp add: same_rest_def)
qed


text \<open>Copying from the current chunk.\<close>

lemma at_hand_copy:
  assumes h: "at_hand (x @ r) cx" and x: "x \<noteq> []" "length x < 2 ^ 31" and n: "n = length x"
  shows "\<exists>cx'. copy_live n cx = (int n, x, cx') \<and> at_hand r cx' \<and> same_rest cx cx'"
proof -
  note sp = at_hand_span[OF h]
  obtain p len where ls: "live_span (READER cx) = (p, len)" by fastforce
  have len: "len = length (x @ r)" using sp ls by simp
  have R: "reading cx" using h by (simp add: at_hand_def)
  have k: "\<not> len < n" "len \<noteq> 0" using len n x by auto
  have "bytes_at (READER cx) (cx_io cx) (p, n) = take n (live (READER cx) (cx_io cx))"
    using ls len n by (cases p) (auto simp: live_def memread_take)
  then have b: "bytes_at (READER cx) (cx_io cx) (p, n) = x" using h n by (simp add: at_hand_def live_bytes_def)
  have "copy_live n cx = (int n, x, drop_live n cx)"
    using R k ls b int_of_size_small[OF x(2)] n
    by (simp add: copy_live_def ioxd__pipereader_copy_def copy_loop.simps[of "READER cx"] reading_def drop_live_def ioxd__pipereader_drop_def
        Let_def case_prod_beta)
  then show ?thesis using at_hand_drop[OF h, of n] n by simp
qed

lemma word_le_of_nat: "length x \<le> n \<Longrightarrow> n < 2 ^ 31 \<Longrightarrow> (if of_nat n > (of_nat (length x) :: u64) then unat (of_nat (length x) :: u64) else n) = length x"
proof -
  assume "length x \<le> n" "n < 2 ^ 31"
  then have "unat (of_nat (length x) :: u64) = length x" "unat (of_nat n :: u64) = n" by (auto intro!: unat_of_nat_less)
  then show ?thesis using \<open>length x \<le> n\<close> by (auto simp: word_less_nat_alt)
qed

text \<open>The last of a chunk, and what follows it in place of its CRLF.\<close>

lemma at_hand_chunk_data:
  assumes h: "at_hand (x @ r) cx" and x: "x \<noteq> []" "length x \<le> n" "n < 2 ^ 31" and k: "st_chunk_left (cx_st cx) = of_nat (length x)" and r: "2 \<le> length r"
  shows "\<exists>cx'. chunk_data cx n = Some (int (length x), x, cx') \<and> cx_req cx' = cx_req cx \<and>
    st_chunk_left (cx_st cx') = 0 \<and> st_body_done (cx_st cx') = st_body_done (cx_st cx) \<and>
    (if take 2 r = CRLF then at_hand (drop 2 r) cx' \<and> st_body_err (cx_st cx') = st_body_err (cx_st cx) else at_hand r cx' \<and> st_body_err (cx_st cx') = 400)"
proof -
  have lx: "length x < 2 ^ 31" using x by simp
  obtain cx1 where c: "copy_live (length x) cx = (int (length x), x, cx1)" "at_hand r cx1" "same_rest cx cx1"
    using at_hand_copy[OF h x(1) lx refl] by blast
  define cx2 where "cx2 = take_data (length x) cx1"
  have h2: "at_hand r cx2" "r \<noteq> []" using c(2) r by (auto simp: cx2_def)
  have s2: "st_chunk_left (cx_st cx2) = 0" "st_body_done (cx_st cx2) = st_body_done (cx_st cx)" "cx_req cx2 = cx_req cx"
    "st_body_err (cx_st cx2) = st_body_err (cx_st cx)" using c(3) k by (simp_all add: cx2_def same_rest_def)
  have cl: "chunk_end_loop cx2 = Some (True, live_span (READER cx2), cx2)"
    using at_hand_bytes[OF h2] at_hand_span[OF h2(1)] r by (subst chunk_end_loop.simps) simp
  have e: "chunk_data cx n = do { (_, cx) \<leftarrow> chunk_end cx2; Some (int (length x), x, cx) }"
    unfolding chunk_data_def Let_def k word_le_of_nat[OF x(2,3)] using c(1) x(1) s2(1) k c(3) by (simp add: cx2_def[symmetric] same_rest_def)
  show ?thesis
  proof (cases "take 2 r = CRLF")
    case True
    have "chunk_end cx2 = Some (True, drop_live 2 cx2)" using cl True at_hand_span[OF h2(1)] by (simp add: chunk_end_def)
    then show ?thesis using e True at_hand_drop[OF h2(1) r] s2 by (simp add: same_rest_def)
  next
    case False
    have "chunk_end cx2 = Some (False, body_fail cx2 400)" using cl False at_hand_span[OF h2(1)] by (simp add: chunk_end_def)
    then have "chunk_data cx n = Some (int (length x), x, body_fail cx2 400)" using e by simp
    moreover have "cx_st (body_fail cx2 400) = (cx_st cx2)\<lparr>st_body_err := 400\<rparr>" by (simp add: body_fail_def)
    ultimately show ?thesis using False h2(1) s2 by (intro exI[of _ "body_fail cx2 400"]) simp
  qed
qed


lemma size_line_no_crlf: "size_line l sz \<Longrightarrow> take 2 (l @ r) \<noteq> CRLF"
  by (cases l) (auto simp: size_line_def ioxd__http_hexval_def Let_def)

lemma until_chunk:
  assumes h: "at_hand (y @ r) cx" and y: "y \<noteq> []" "length out + length y \<le> n" "n < 2 ^ 31" and r: "2 \<le> length r"
    and st: "rq_chunked (cx_req cx)" "\<not> st_body_done (cx_st cx)" "st_chunk_left (cx_st cx) = of_nat (length y)"
  shows "\<exists>cx'. until_loop cx n out = until_loop cx' n (out @ y) \<and> cx_req cx' = cx_req cx \<and>
    st_chunk_left (cx_st cx') = 0 \<and> \<not> st_body_done (cx_st cx') \<and>
    (if take 2 r = CRLF then at_hand (drop 2 r) cx' \<and> st_body_err (cx_st cx') = st_body_err (cx_st cx) else at_hand r cx' \<and> st_body_err (cx_st cx') = 400)"
proof -
  have n: "length y \<le> n - length out" "n - length out < 2 ^ 31" "length out < n" using y by (auto simp: neq_Nil_conv)
  have "unat (of_nat (length y) :: u64) = length y" using y by (intro unat_of_nat_less) simp
  then have nz: "st_chunk_left (cx_st cx) \<noteq> 0" using st(3) y(1) by (metis length_0_conv unat_0)
  obtain cx' where c: "chunk_data cx (n - length out) = Some (int (length y), y, cx')" "cx_req cx' = cx_req cx" "st_chunk_left (cx_st cx') = 0"
    "st_body_done (cx_st cx') = st_body_done (cx_st cx)"
    "if take 2 r = CRLF then at_hand (drop 2 r) cx' \<and> st_body_err (cx_st cx') = st_body_err (cx_st cx) else at_hand r cx' \<and> st_body_err (cx_st cx') = 400"
    using at_hand_chunk_data[OF h y(1) n(1,2) st(3) r] by blast
  have "until_loop cx n out = until_loop cx' n (out @ y)" using n(3) st nz c(1) by (subst until_loop.simps) (simp add: next_data_def)
  then show ?thesis using c st(2) by (intro exI[of _ cx']) simp
qed

lemma until_header:
  assumes h: "at_hand (l @ CRLF @ r) cx" and l: "size_line l sz" "sz \<noteq> 0" and n: "length out < n"
    and st: "rq_chunked (cx_req cx)" "\<not> st_body_done (cx_st cx)" "st_chunk_left (cx_st cx) = 0"
  shows "\<exists>cx'. until_loop cx n out = until_loop cx' n out \<and> at_hand r cx' \<and> cx_req cx' = cx_req cx \<and> cx_st cx' = (cx_st cx)\<lparr>st_chunk_left := sz\<rparr>"
proof -
  obtain cx' where c: "chunk_header cx = Some (True, cx')" "at_hand r cx'" "cx_req cx' = cx_req cx" "cx_st cx' = (cx_st cx)\<lparr>st_chunk_left := sz\<rparr>"
    using at_hand_header[OF h l] by blast
  have "until_loop cx n out = until_loop cx' n out" using n st c(1) by (subst until_loop.simps) (simp add: next_data_def)
  then show ?thesis using c(2-) by blast
qed

text \<open>The coding the engine writes, read back by the engine.\<close>

lemma until_roundtrip:
  assumes "at_hand (concat (map chunk ps) @ put_terminator @ r) cx" and "[] \<notin> set ps" and "length out + length (concat ps) < n" and "n < 2 ^ 31"
    and "rq_chunked (cx_req cx)" "\<not> st_body_done (cx_st cx)" "st_chunk_left (cx_st cx) = 0" "st_body_err (cx_st cx) = 0"
  shows "\<exists>cx'. until_loop cx n out = Some (int (length (out @ concat ps)), out @ concat ps, cx') \<and> st_body_done (cx_st cx') \<and>
    st_body_err (cx_st cx') = 0 \<and> at_hand r cx'"
  using assms
proof (induction ps arbitrary: cx out)
  case Nil
  have t: "put_terminator = put_hex 0 @ CRLF @ CRLF" by (simp add: put_terminator_def put_hex_def put_hex_tmp.simps[of 0])
  have z: "size_line (put_hex 0) 0" using put_hex_size_line[of 0] by simp
  have h: "at_hand (put_hex 0 @ CRLF @ CRLF @ r) cx" using Nil.prems(1) unfolding t by simp
  obtain cx' where c: "chunk_header cx = Some (True, cx')" "at_hand r cx'" "cx_st cx' = (cx_st cx)\<lparr>st_body_done := True\<rparr>"
    using at_hand_last[OF h z] by blast
  have "until_loop cx n out = until_loop cx' n out" using Nil.prems c(1) by (subst until_loop.simps) (simp add: next_data_def)
  moreover have "until_loop cx' n out = Some (int (length out), out, cx')" using c(3) by (subst until_loop.simps) (simp add: Let_def)
  ultimately show ?case using c Nil.prems(8) by simp
next
  case (Cons y ps)
  let ?rest = "concat (map chunk ps) @ put_terminator @ r"
  have y: "y \<noteq> []" "length out + length y \<le> n" using Cons.prems(2,3) by auto
  have sl: "size_line (put_hex (length y)) (of_nat (length y))" using y Cons.prems(4) by (intro put_hex_size_line) simp
  have "unat (of_nat (length y) :: u64) = length y" using y Cons.prems(4) by (intro unat_of_nat_less) simp
  then have nz: "(of_nat (length y) :: u64) \<noteq> 0" using y(1) by (metis length_0_conv unat_0)
  have h: "at_hand (put_hex (length y) @ CRLF @ (y @ CRLF @ ?rest)) cx" using Cons.prems(1) by (simp add: chunk_def[of y])
  have lt: "length out < n" using y by (cases y) auto
  obtain cx1 where c1: "until_loop cx n out = until_loop cx1 n out" "at_hand (y @ CRLF @ ?rest) cx1" "cx_req cx1 = cx_req cx"
    "cx_st cx1 = (cx_st cx)\<lparr>st_chunk_left := of_nat (length y)\<rparr>"
    using until_header[OF h sl nz lt Cons.prems(5-7)] by blast
  obtain cx2 where c2: "until_loop cx1 n out = until_loop cx2 n (out @ y)" "cx_req cx2 = cx_req cx1" "st_chunk_left (cx_st cx2) = 0"
    "\<not> st_body_done (cx_st cx2)" "at_hand ?rest cx2" "st_body_err (cx_st cx2) = 0"
    using until_chunk[OF c1(2) y Cons.prems(4)] c1(3,4) Cons.prems(5-8) by auto
  have "length (out @ y) + length (concat ps) < n" using Cons.prems(3) by simp
  from Cons.IH[OF c2(5) _ this Cons.prems(4) _ c2(4,3,6)] show ?case using c1 c2 Cons.prems(2,5) by simp
qed


inductive_cases decoded_overE: "decoded e d k True"

lemma decoded_over: "decoded e d k True \<Longrightarrow> k = 0"
  by (erule decoded_overE) simp


section \<open>Properties\<close>

text \<open>C2. The whole body of a request. Whatever the peer sends after a request head, and however it
  arrives in buffers, \<open>ioxd_body_all\<close> returns. When no error is recorded the slice it returns is the
  body: the payload of the chunked coding that stands at the front of the stream - its size lines,
  its chunks with their CRLFs, the last chunk and its trailers, nothing more taken - or the bytes
  that the content length counts; and the reader stands on the first byte after it. Otherwise the
  slice is empty, the error is recorded, and the reader is still well-formed.\<close>

theorem body_all_is_the_body:
  assumes "new_body cx" and "length (stream cx) < 2 ^ 64"
  shows "\<exists>b cx'. ioxd_body_all cx = Some (b, cx') \<and>
    (if st_body_err (cx_st cx') = 0
     then (\<exists>e. stream cx = e @ stream cx' \<and>
        (if rq_chunked (cx_req cx') then decoded e b 0 True else e = b \<and> length b = unat (rq_content_length (cx_req cx')))) \<and>
        rq_body (cx_req cx') = b \<and> st_body_done (cx_st cx') \<and> st_body_whole (cx_st cx')
     else b = []) \<and> readable cx'"
proof -
  have A: "body_at (stream cx) [] cx" "st_body_read (cx_st cx) = 0" "st_body_err (cx_st cx) = 0" "\<not> st_body_whole (cx_st cx)" "kept_bytes cx = []"
    using assms(1) by (simp_all add: new_body_def)
  have R: "reading cx" "readable cx" using body_at_reading[OF A(1)] by (simp_all add: reading_def readable_def)
  obtain ok cx1 where b: "(if \<not> st_body_done (cx_st cx) then body_begin cx else (True, cx)) = (ok, cx1)" by (metis surj_pair)
  have "\<exists>b cx'. ioxd_body_all cx = Some (b, cx') \<and> (if st_body_err (cx_st cx') = 0 then whole_body (stream cx) b cx' else b = [] \<and> readable cx')"
  proof (cases ok)
    case False
    then have "body_begin cx = (False, cx1)" "\<not> st_body_done (cx_st cx)" using b by (auto split: if_splits)
    then show ?thesis using A body_begin_ok[OF _ R(2), of False cx1] by (simp add: ioxd_body_all_def broken_readable)
  next
    case True
    have c1: "body_at (stream cx) [] cx1 \<and> kept_bytes cx1 = [] \<and> stream cx1 = stream cx \<and> cx_req cx1 = cx_req cx \<and>
      (\<exists>c. cx_st cx1 = (cx_st cx)\<lparr>st_continue_sent := c\<rparr>)"
    proof (cases "st_body_done (cx_st cx)")
      case over: True
      then have e: "cx1 = cx" using b by simp
      show ?thesis unfolding e using A by (intro conjI exI[of _ "st_continue_sent (cx_st cx)"]) simp_all
    next
      case False
      then have bb: "body_begin cx = (True, cx1)" using b True by simp
      then show ?thesis using body_at_begin[OF A(1) bb] body_begin_ok[OF bb R(2)] A(5) by auto
    qed
    then obtain c where c: "cx_st cx1 = (cx_st cx)\<lparr>st_continue_sent := c\<rparr>" by blast
    then have f: "cx_st cx = (cx_st cx1)\<lparr>st_continue_sent := st_continue_sent (cx_st cx)\<rparr>" by simp
    have b': "(if \<not> st_body_done (cx_st cx1) then body_begin cx else (True, cx)) = (True, cx1)" using b True c by simp
    have s1: "st_body_err (cx_st cx1) = 0" "st_body_read (cx_st cx1) = 0" "\<not> st_body_whole (cx_st cx1)" using c A by simp_all
    have l1: "body_at (stream cx) [] cx1" "kept_bytes cx1 = []" "length (stream cx1) < 2 ^ 64" "rq_body (cx_req cx) = rq_body (cx_req cx1)"
      using c1 assms(2) by simp_all
    show ?thesis by (rule all_after_begin[OF l1(1,2) s1 l1(3) b' f l1(4)])
  qed
  then obtain b' cx' where r: "ioxd_body_all cx = Some (b', cx')"
    "if st_body_err (cx_st cx') = 0 then whole_body (stream cx) b' cx' else b' = [] \<and> readable cx'" by blast
  show ?thesis
  proof (cases "st_body_err (cx_st cx') = 0")
    case True
    then have w: "whole_body (stream cx) b' cx'" using r(2) by simp
    then have "readable cx'" using body_at_reading[of "stream cx" b' cx'] by (simp add: whole_body_def reading_def readable_def)
    moreover have "\<exists>e. stream cx = e @ stream cx' \<and>
        (if rq_chunked (cx_req cx') then decoded e b' 0 True else e = b' \<and> length b' = unat (rq_content_length (cx_req cx')))"
    proof (cases "rq_chunked (cx_req cx')")
      case ch: True
      then obtain e where "stream cx = e @ stream cx'" "decoded e b' (st_chunk_left (cx_st cx')) True"
        using w by (auto simp: whole_body_def body_at_def at_body_def)
      moreover from this(2) have "st_chunk_left (cx_st cx') = 0" by (rule decoded_over)
      ultimately show ?thesis using ch by auto
    next
      case False
      then show ?thesis using w by (auto simp: whole_body_def body_at_def)
    qed
    ultimately show ?thesis using r(1) w True by (intro exI[of _ b'] exI[of _ cx']) (simp add: whole_body_def)
  next
    case False
    then show ?thesis using r by (intro exI[of _ b'] exI[of _ cx']) simp
  qed
qed


text \<open>A request whose body has come in one piece: its bytes are in the reader's buffer.\<close>

definition sample_body :: "bytes \<Rightarrow> ctx" where
  "sample_body rx =
     \<lparr>cx_req = sample_request\<lparr>rq_chunked := True, rq_expect_continue := False\<rparr>, cx_res = cx_res (sample_ctx False),
      cx_st = \<lparr>st_body_read = 0, st_body_done = False, st_body_whole = False, st_body_err = 0, st_chunk_left = 0,
               st_head_only = False, st_no_body = False, st_continue_sent = False, st_on_head = None, st_filter = None,
               st_coded = ioxd__pipewriter_init [] 0 0 0\<rparr>,
      cx_pipe = (ioxd__pipe_init [] 0 [] 0 0 0)
        \<lparr>p_in := (ioxd__pipereader_init rx (length rx))\<lparr>live_in_buf := True, buf_end := length rx\<rparr>\<rparr>,
      cx_io = cx_io (sample_ctx False)\<rparr>"

lemma sample_body_fields [simp]:
  "cx_req (sample_body rx) = sample_request\<lparr>rq_chunked := True, rq_expect_continue := False\<rparr>"
  "st_body_read (cx_st (sample_body rx)) = 0" "st_body_done (cx_st (sample_body rx)) = False" "st_body_whole (cx_st (sample_body rx)) = False"
  "st_body_err (cx_st (sample_body rx)) = 0" "st_chunk_left (cx_st (sample_body rx)) = 0"
  by (simp_all add: sample_body_def)

lemma sample_body_ok [simp]: "at_hand rx (sample_body rx)" "kept_bytes (sample_body rx) = []" "stream (sample_body rx) = rx"
proof -
  show "at_hand rx (sample_body rx)"
    by (simp add: at_hand_def reading_def live_bytes_def sample_body_def READER_def ioxd__pipereader_init_def reader_defs accounted_def held_def
        sample_ctx_def view_defs memread_def)
  show "kept_bytes (sample_body rx) = []" "stream (sample_body rx) = rx"
    by (simp_all add: kept_bytes_def stream_def Pipe_Stream.pending_def sample_body_def READER_def ioxd__pipereader_init_def view_defs memread_def
        sample_ctx_def)
qed

lemma sample_body_new [simp]: "new_body (sample_body rx)" "body_at rx [] (sample_body rx)"
  using sample_body_ok(1)[of rx] dec_start by (auto simp: new_body_def body_at_def at_body_def at_hand_def)

theorem body_all_is_the_body_witness:
  "\<exists>b cx'. ioxd_body_all (sample_body (''3'' @ CRLF @ ''abc'' @ CRLF @ ''0'' @ CRLF @ CRLF)) = Some (b, cx') \<and> readable cx'"
  using body_all_is_the_body[OF sample_body_new(1), of "''3'' @ CRLF @ ''abc'' @ CRLF @ ''0'' @ CRLF @ CRLF"] by auto

text \<open>C4. The body in pieces. From any place in a body, \<open>ioxd_body_read_until\<close> returns - also when
  the peer stops, or breaks the coding - with at most as many bytes as it was asked for; and when no
  error is recorded the bytes it copied are the next bytes of the body and the reader stands right
  after them. A call that does not fail copies all it was asked for unless the body ended.\<close>

theorem read_until_takes_the_next_bytes:
  assumes "body_at S data cx" and "st_body_err (cx_st cx) = 0"
  shows "\<exists>k out cx'. ioxd_body_read_until cx n = Some (k, out, cx') \<and> length out \<le> n \<and> readable cx' \<and>
    (st_body_err (cx_st cx') = 0 \<longrightarrow> body_at S (data @ out) cx') \<and>
    (if k < 0 then k = - 1 \<and> st_body_err (cx_st cx') \<noteq> 0
     else k = int (length out) \<and> (length out = min n INT_MAX \<or> st_body_done (cx_st cx')))"
  using until_ok[OF assms, of n] unfolding broken_def by (metis (no_types, lifting))

theorem read_until_takes_the_next_bytes_witness:
  "\<exists>k out cx'. ioxd_body_read_until (sample_body (''3'' @ CRLF @ ''abc'' @ CRLF @ ''0'' @ CRLF @ CRLF)) 2 = Some (k, out, cx') \<and>
     length out \<le> 2 \<and> readable cx'"
  using read_until_takes_the_next_bytes[OF sample_body_new(2), of "''3'' @ CRLF @ ''abc'' @ CRLF @ ''0'' @ CRLF @ CRLF" 2] by auto

text \<open>C3. Draining. After the handler, \<open>drain_body\<close> returns, and then an error is recorded for the body, or it
  has taken fewer bytes of the body than \<open>IOXD_DRAIN_MAX\<close> and the 4096 of one call more, the reader stands
  right behind them, and either the body is over, so the next byte is the first after the body, or at least
  \<open>IOXD_DRAIN_MAX\<close> bytes were taken and the connection is marked to close: what is parsed as the next request
  is never a part of this one's body.\<close>

theorem drain_ends_at_the_next_request:
  assumes "body_at S data cx" and "st_body_err (cx_st cx) = 0"
  shows "\<exists>cx'. drain_body cx = Some cx' \<and>
    (st_body_err (cx_st cx') \<noteq> 0 \<or>
     (\<exists>d. body_at S (data @ d) cx' \<and> length d < IOXD_DRAIN_MAX + 4096 \<and>
        (st_body_done (cx_st cx') \<or> rs_close (cx_res cx') \<and> IOXD_DRAIN_MAX \<le> length d)))"
  using drain_loop_ok[of S data "[]" cx 0] assms by (simp add: drain_body_def over_or_closing_def)

theorem drain_ends_at_the_next_request_witness:
  "\<exists>cx'. drain_body (sample_body (''3'' @ CRLF @ ''abc'' @ CRLF @ ''0'' @ CRLF @ CRLF @ ''GET'')) = Some cx' \<and>
    (rs_close (cx_res cx') \<or> st_body_err (cx_st cx') \<noteq> 0 \<or> st_body_done (cx_st cx'))"
  using drain_ends_at_the_next_request[OF sample_body_new(2), of "''3'' @ CRLF @ ''abc'' @ CRLF @ ''0'' @ CRLF @ CRLF @ ''GET''"] by auto

text \<open>What the engine puts on the wire for a slab is a chunk with the slab's bytes.\<close>

lemma frame_chunk_span:
  assumes "engine_slab pw" and "clean pw"
  shows "fst (frame_chunk pw)" "span (snd (frame_chunk pw)) = chunk (Reply_Wire.pending pw)"
proof -
  have "writer_ok pw" using assms(1) by (simp add: engine_slab_def)
  then show "fst (frame_chunk pw)" "span (snd (frame_chunk pw)) = chunk (Reply_Wire.pending pw)"
    using frame_chunk_ok[OF assms] clean_span[OF assms(2)] pending_length by (simp_all add: around_def chunk_def)
qed

text \<open>C5. The chunked coding both ways. \<open>frame_chunk\<close> frames any slab with bytes in it, and when what it makes of
  such slabs \<open>pws\<close>, followed by \<open>put_terminator\<close>, has arrived and stands in the reader, the engine's own
  decoder gives back exactly the bytes of the slabs put together: one call of \<open>ioxd_body_read_until\<close> with room for
  more than that many bytes, below \<open>2\<^sup>3\<^sup>1\<close>, on a request that is chunked, expects no 100 and has read nothing of its body yet. The
  body is over then, no error is recorded, and the bytes after the terminator are untouched.\<close>

theorem chunked_coding_roundtrip:
  assumes "at_hand (concat (map (\<lambda>pw. span (snd (frame_chunk pw))) pws) @ put_terminator @ r) cx"
    and "\<forall>pw \<in> set pws. engine_slab pw \<and> clean pw \<and> pw_len pw \<noteq> 0" and "length (concat (map Reply_Wire.pending pws)) < n" and "n < 2 ^ 31"
    and "rq_chunked (cx_req cx)" "\<not> rq_expect_continue (cx_req cx)"
    and "\<not> st_body_done (cx_st cx)" "st_chunk_left (cx_st cx) = 0" "st_body_err (cx_st cx) = 0"
  shows "(\<forall>pw \<in> set pws. fst (frame_chunk pw)) \<and>
    (\<exists>cx'. ioxd_body_read_until cx n = Some (int (length (concat (map Reply_Wire.pending pws))), concat (map Reply_Wire.pending pws), cx') \<and>
       st_body_done (cx_st cx') \<and> st_body_err (cx_st cx') = 0 \<and> at_hand r cx')"
proof -
  have e: "map (\<lambda>pw. span (snd (frame_chunk pw))) pws = map chunk (map Reply_Wire.pending pws)" using assms(2) frame_chunk_span by auto
  have "[] \<noteq> Reply_Wire.pending pw" if "pw \<in> set pws" for pw using assms(2) that pending_length[of pw] by (auto simp: engine_slab_def)
  then have ne: "[] \<notin> set (map Reply_Wire.pending pws)" by auto
  have "ioxd_body_read_until cx n = until_loop cx n []" using assms by (simp add: ioxd_body_read_until_def body_begin_def)
  then show ?thesis using until_roundtrip[OF assms(1)[unfolded e] ne _ assms(4,5,7-9), of "[]"] assms(2,3) frame_chunk_span(1) by simp
qed

definition slab_with :: "bytes \<Rightarrow> pipewriter" where
  "slab_with d = (ioxd__pipewriter_init (replicate 16 NUL @ d @ replicate 8 NUL) 16 (length d) 8)\<lparr>pw_len := length d\<rparr>"

lemma slab_with_ok:
  assumes "d \<noteq> []" and "length d < 100"
  shows "engine_slab (slab_with d) \<and> clean (slab_with d) \<and> pw_len (slab_with d) \<noteq> 0" "Reply_Wire.pending (slab_with d) = d"
  using assms by (simp_all add: slab_with_def engine_slab_def clean_def writer_ok_def ioxd__pipewriter_init_def Reply_Wire.pending_def memread_def)

theorem chunked_coding_roundtrip_witness:
  "let s = span (snd (frame_chunk (slab_with ''hello, ''))) @ span (snd (frame_chunk (slab_with ''world''))) @ put_terminator @ ''GET'' in
   \<exists>cx'. ioxd_body_read_until (sample_body s) 64 = Some (12, ''hello, world'', cx') \<and> at_hand ''GET'' cx'"
  using chunked_coding_roundtrip[of "[slab_with ''hello, '', slab_with ''world'']" "''GET''"
      "sample_body (span (snd (frame_chunk (slab_with ''hello, ''))) @ span (snd (frame_chunk (slab_with ''world''))) @ put_terminator @ ''GET'')" 64]
    slab_with_ok[of "''hello, ''"] slab_with_ok[of "''world''"]
  by (auto simp: sample_request_def Let_def)

text \<open>C23. A chunk whose CRLF is missing does not stop the call that reads it. \<open>chunk_data\<close> records the
  400 and returns what it copied, and the loop of \<open>ioxd_body_read_until\<close> does not look at the recorded
  error: it goes on, takes the bytes that stand in place of the CRLF for the next size line and copies
  from that chunk too. The call reports success over bytes on both sides of the fault; only the
  next call fails.\<close>

theorem read_until_goes_past_a_broken_chunk:
  assumes "at_hand (x @ l @ CRLF @ y @ CRLF @ r) cx" and "size_line l (of_nat (length y))" and "x \<noteq> []" "y \<noteq> []"
    and "n = length x + length y" "n < 2 ^ 31" and "rq_chunked (cx_req cx)" "\<not> rq_expect_continue (cx_req cx)"
    and "\<not> st_body_done (cx_st cx)" "st_chunk_left (cx_st cx) = of_nat (length x)" "st_body_err (cx_st cx) = 0"
  shows "\<exists>cx'. ioxd_body_read_until cx n = Some (int n, x @ y, cx') \<and> st_body_err (cx_st cx') = 400"
proof -
  have nz: "n \<noteq> 0" "length x < n" using assms(3-5) by auto
  have "unat (of_nat (length y) :: u64) = length y" using assms(5,6) by (intro unat_of_nat_less) simp
  then have yz: "(of_nat (length y) :: u64) \<noteq> 0" using assms(4) by (metis length_0_conv unat_0)
  have e: "ioxd_body_read_until cx n = until_loop cx n []" using assms nz by (simp add: ioxd_body_read_until_def body_begin_def)
  obtain cx1 where c1: "until_loop cx n [] = until_loop cx1 n x" "cx_req cx1 = cx_req cx" "st_chunk_left (cx_st cx1) = 0" "\<not> st_body_done (cx_st cx1)"
    "at_hand (l @ CRLF @ y @ CRLF @ r) cx1" "st_body_err (cx_st cx1) = 400"
    using until_chunk[OF assms(1,3) _ assms(6) _ assms(7,9,10), of "[]"] size_line_no_crlf[OF assms(2)] assms(5) by auto
  have ch: "rq_chunked (cx_req cx1)" using c1(2) assms(7) by simp
  obtain cx2 where c2: "until_loop cx1 n x = until_loop cx2 n x" "at_hand (y @ CRLF @ r) cx2" "cx_req cx2 = cx_req cx1"
    "cx_st cx2 = (cx_st cx1)\<lparr>st_chunk_left := of_nat (length y)\<rparr>"
    using until_header[OF c1(5) assms(2) yz nz(2) ch c1(4,3)] by blast
  obtain cx3 where c3: "until_loop cx2 n x = until_loop cx3 n (x @ y)" "st_body_err (cx_st cx3) = 400"
    using until_chunk[OF c2(2) assms(4) _ assms(6), of x] c2(3,4) ch c1(4,6) assms(5) by auto
  have "until_loop cx3 n (x @ y) = Some (int n, x @ y, cx3)" using assms(5) by (subst until_loop.simps) (simp add: Let_def)
  then show ?thesis using e c1(1) c2(1) c3 by simp
qed

theorem read_until_goes_past_a_broken_chunk_witness:
  "\<exists>cx'. ioxd_body_read_until (upd_st (\<lambda>s. s\<lparr>st_chunk_left := 3\<rparr>) (sample_body (''abc'' @ ''5'' @ CRLF @ ''hello'' @ CRLF))) 8 = Some (8, ''abchello'', cx') \<and>
     st_body_err (cx_st cx') = 400"
proof -
  have "put_hex 5 = ''5''" by (simp add: put_hex_def put_hex_tmp.simps[of 5])
  then have "size_line ''5'' 5" using put_hex_size_line[of 5] by simp
  then show ?thesis
    using read_until_goes_past_a_broken_chunk[of "''abc''" "''5''" "''hello''" "[]" "upd_st (\<lambda>s. s\<lparr>st_chunk_left := 3\<rparr>) (sample_body (''abc'' @ ''5'' @ CRLF @ ''hello'' @ CRLF))" 8]
    by (simp add: sample_request_def)
qed

end
