(* ===== verification/Serve.thy ===== *)
theory Serve
  imports Body_Read Router
begin

text \<open>
  One connection served, the rest of \<^verbatim>\<open>lib/http/engine.c\<close>: reading a head off the pipe, the state of
  a new request, what happens after the dispatch and the loop over the requests.

  The head parser is third-party code, \<open>phr_parse_request\<close>: it is a function of the bytes so far and of how
  many of them it was shown before, and answers with the length of the head and its parts, with an
  error, or that the head is not complete.
\<close>

datatype parse_result = Parsed nat bytes bytes int "header list" | Malformed | Partial

type_synonym head_parser = "bytes \<Rightarrow> nat \<Rightarrow> parse_result"

abbreviation IOXD_PARAM_CAP :: nat where "IOXD_PARAM_CAP \<equiv> 2048"
abbreviation IOXD_PIPE_LEAD :: nat where "IOXD_PIPE_LEAD \<equiv> 512"
abbreviation IOXD_PIPE_CAP :: nat where "IOXD_PIPE_CAP \<equiv> 16384"
abbreviation IOXD_PIPE_SLACK :: nat where "IOXD_PIPE_SLACK \<equiv> 8"
abbreviation CODED_SLACK :: nat where "CODED_SLACK \<equiv> 256"

definition answer :: "int \<Rightarrow> ctx \<Rightarrow> ctx" where
  "answer code cx = (let (pw, w) = send_status (WRITER cx) (cx_io cx) code in set_writer pw w cx)"

definition set_head :: "bytes \<Rightarrow> bytes \<Rightarrow> int \<Rightarrow> header list \<Rightarrow> ctx \<Rightarrow> ctx" where
  "set_head method target minor headers cx =
     cx\<lparr>cx_req := (cx_req cx)\<lparr>rq_method := method, rq_target := target, rq_minor_version := minor, rq_headers := headers\<rparr>\<rparr>"

partial_function (option) read_head_loop :: "head_parser \<Rightarrow> nat \<Rightarrow> ctx \<Rightarrow> (nat option \<times> ctx) option" where
  "read_head_loop parse already cx =
     (let (rc, live, pr, w) = ioxd__pipereader_read (READER cx) (cx_io cx);
          cx = set_reader pr w cx
      in if rc = 0 then Some (None, cx)
      else if rc = IOXD_PIPE_FULL then Some (None, answer 431 cx)
      else if rc < 0 then Some (None, cx)
      else case parse (slice_bytes cx live) already of
        Parsed n method target minor headers \<Rightarrow>
          let cx = set_head method target minor headers cx;
              (kept, cx) = keep_live n cx
          in if kept = Nullptr then Some (None, answer 431 cx)
          else let (pr, w) = ioxd__pipereader_run_begin (READER cx) (cx_io cx) in Some (Some n, set_reader pr w cx)
      | Malformed \<Rightarrow> Some (None, answer 400 cx)
      | Partial \<Rightarrow> read_head_loop parse (snd live) (examine_live (snd live) cx))"

definition read_head :: "head_parser \<Rightarrow> ctx \<Rightarrow> (nat option \<times> ctx) option" where
  "read_head parse cx = read_head_loop parse 0 cx"

definition zero_state :: "pipewriter \<Rightarrow> serve_state" where
  "zero_state coded =
     \<lparr>st_body_read = 0, st_body_done = False, st_body_whole = False, st_body_err = 0, st_chunk_left = 0, st_head_only = False,
      st_no_body = False, st_continue_sent = False, st_on_head = None, st_filter = None, st_coded = coded\<rparr>"

definition init_body_state :: "pipewriter \<Rightarrow> ctx \<Rightarrow> ctx" where
  "init_body_state coded cx =
     cx\<lparr>cx_st := (zero_state coded)\<lparr>st_body_done := (\<not> rq_chunked (cx_req cx) \<and> rq_content_length (cx_req cx) = 0)\<rparr>\<rparr>"

definition filter_end :: "ctx \<Rightarrow> ctx" where
  "filter_end cx = upd_st (\<lambda>s. s\<lparr>st_filter := None\<rparr>) cx"

definition after_dispatch :: "ctx \<Rightarrow> (int \<times> ctx) option" where
  "after_dispatch cx =
     (if st_body_err (cx_st cx) \<noteq> 0 then
        Some (- 1, if st_body_err (cx_st cx) > 0 \<and> \<not> rs_head_sent (cx_res cx) then answer (st_body_err (cx_st cx)) cx else cx)
      else do {
        cx \<leftarrow> (if rq_expect_continue (cx_req cx) \<and> \<not> st_continue_sent (cx_st cx) \<and> \<not> st_body_done (cx_st cx)
              then Some (upd_res (\<lambda>r. r\<lparr>rs_close := True\<rparr>) cx) else drain_body cx);
        (if st_body_err (cx_st cx) \<noteq> 0 then Some (- 1, cx)
         else do {
           (rc, cx) \<leftarrow> finish cx;
           (if rc < 0 then Some (- 1, cx)
            else Some (if \<not> rq_keep_alive (cx_req cx) \<or> rs_close (cx_res cx) then - 1 else 0, cx)) }) })"

text \<open>What the request and the response are before the dispatch; the refusal, when there is one.\<close>

definition start_request :: "bytes \<Rightarrow> ctx \<Rightarrow> int \<times> ctx" where
  "start_request coded cx =
     (let (refused, req) = fill_request (cx_req cx) IOXD_PARAM_CAP;
          cx = init_body_state (ioxd__pipewriter_init coded IOXD_PIPE_LEAD (IOXD_PIPE_CAP + CODED_SLACK) IOXD_PIPE_SLACK) (cx\<lparr>cx_req := req\<rparr>);
          (res, pw) = init_response (cx_res cx) (WRITER cx);
          cx = set_writer pw (cx_io cx) (cx\<lparr>cx_res := res\<rparr>)
      in (refused, cx))"

text \<open>One turn of the loop: whether another follows.\<close>

definition serve_one :: "head_parser \<Rightarrow> router \<Rightarrow> bytes \<Rightarrow> ctx \<Rightarrow> (bool \<times> ctx) option" where
  "serve_one parse r coded cx = do {
     (head_len, cx) \<leftarrow> read_head parse cx;
     (if head_len = None then Some (False, cx)
      else
        let (refused, cx) = start_request coded cx in
        if refused \<noteq> 0 then Some (False, answer refused cx)
        else
          let cx = upd_st (\<lambda>s. s\<lparr>st_head_only := (rq_method (cx_req cx) = ''HEAD'')\<rparr>) cx in do {
          cx \<leftarrow> ioxd__router_dispatch r cx;
          (rc, cx) \<leftarrow> after_dispatch cx;
          (let cx = filter_end cx in
           if rc < 0 then Some (False, cx)
           else let (pr, w) = ioxd__pipereader_release (READER cx) (cx_io cx) in Some (True, set_reader pr w cx)) }) }"

partial_function (option) ioxd__engine_serve :: "head_parser \<Rightarrow> router \<Rightarrow> bytes \<Rightarrow> ctx \<Rightarrow> ctx option" where
  "ioxd__engine_serve parse r coded cx = do {
     (again, cx) \<leftarrow> serve_one parse r coded cx;
     (if again then ioxd__engine_serve parse r coded cx else Some cx) }"

end
