(* ===== verification/Uring.thy ===== *)
theory Uring
  imports Ring "HOL-Library.Multiset" "HOL-Library.Monad_Syntax"
begin

text \<open>
  The submission and completion rings of a worker, \<^verbatim>\<open>lib/io/uring.c\<close>, and how a worker claims an entry, \<open>ioxd__proactor_sqe\<close> of
  \<^verbatim>\<open>lib/io/proactor.c\<close>.  The counters are 32 bits wide and wrap around.  An entry is of any type: the model needs the zeroed one.

  The kernel's side is the environment: it takes published entries from the head on, posts completions, and keeps the ones that do not fit in a backlog
  that an enter for events flushes.  Descriptors and mappings are counted, so that what a failed start leaves open is visible.
\<close>

record ('e, 'c) uring =
  ur_fd :: int
  ur_enter_fd :: int
  registered_ring :: bool
  fixed_files :: bool
  sq_head :: u32
  sq_tail :: u32
  sq_array :: "u32 list"
  sq_cq_overflow :: bool
  sq_mask :: u32
  sq_entries :: u32
  sqe_tail :: u32
  sqes :: "'e list"
  has_sq_array :: bool
  cq_head :: u32
  cq_tail :: u32
  cq_mask :: u32
  cqes :: "'c list"
  cq_overflows :: u64
  ring_mem :: "nat option"
  sqe_mem :: "nat option"


section \<open>Starting and ending\<close>

text \<open>
  What the system answers while a ring is made: the two calls of \<open>io_uring_setup\<close>, the parameters it fills in, and the two mappings (0, or minus the error).
\<close>

record ring_setup =
  setup_no_sqarray :: int
  setup_sqarray :: int
  single_mmap :: bool
  array_off :: nat
  dropped_off :: nat
  cqes_off :: nat
  setup_sq_entries :: u32
  setup_cq_entries :: u32
  mmap_ring :: int
  mmap_sqes :: int

text \<open>The descriptors and mappings of the process.\<close>

record owned =
  fds :: "int multiset"
  maps :: "nat multiset"

abbreviation EINVAL :: int where "EINVAL \<equiv> 22"
abbreviation ENOSPC :: int where "ENOSPC \<equiv> 28"
abbreviation ENOSYS :: int where "ENOSYS \<equiv> 38"

definition ring_clear :: "('e, 'c) uring" where
  "ring_clear =
     \<lparr>ur_fd = - 1, ur_enter_fd = - 1, registered_ring = False, fixed_files = False, sq_head = 0, sq_tail = 0, sq_array = [], sq_cq_overflow = False, sq_mask = 0, sq_entries = 0,
      sqe_tail = 0, sqes = [], has_sq_array = False, cq_head = 0, cq_tail = 0, cq_mask = 0, cqes = [], cq_overflows = 0, ring_mem = None, sqe_mem = None\<rparr>"

definition ring_failed :: "int \<Rightarrow> owned \<Rightarrow> int \<times> ('e, 'c) uring \<times> owned" where
  "ring_failed err res = (err, ring_clear, res)"

definition close_fd :: "int \<Rightarrow> owned \<Rightarrow> owned" where
  "close_fd fd res = res\<lparr>fds := fds res - {#fd#}\<rparr>"

definition munmap :: "nat \<Rightarrow> owned \<Rightarrow> owned" where
  "munmap n res = res\<lparr>maps := maps res - {#n#}\<rparr>"

text \<open>The mapping that holds both rings.\<close>

definition ring_bytes :: "bool \<Rightarrow> ring_setup \<Rightarrow> nat" where
  "ring_bytes arr q =
     (let sq_bytes = (if arr then array_off q + unat (setup_sq_entries q) * 4 else dropped_off q + 4);
          cq_bytes = cqes_off q + unat (setup_cq_entries q) * 16
      in if sq_bytes > cq_bytes then sq_bytes else cq_bytes)"

definition ioxd__uring_init :: "'e \<Rightarrow> 'c \<Rightarrow> ring_setup \<Rightarrow> owned \<Rightarrow> int \<times> ('e, 'c) uring \<times> owned" where
  "ioxd__uring_init e0 c0 q res =
     (let fd = setup_no_sqarray q;
          arr = (fd = - EINVAL);
          fd = (if arr then setup_sqarray q else fd)
      in if arr \<and> fd < 0 then ring_failed (- EINVAL) res
      else if fd < 0 then ring_failed fd res
      else
        let res = res\<lparr>fds := add_mset fd (fds res)\<rparr> in
        if \<not> single_mmap q then ring_failed (- ENOSYS) (close_fd fd res)
        else if mmap_ring q < 0 then ring_failed (mmap_ring q) (close_fd fd res)
        else
          let n = ring_bytes arr q;
              res = res\<lparr>maps := add_mset n (maps res)\<rparr>;
              sqe_bytes = unat (setup_sq_entries q) * 64
          in if mmap_sqes q < 0 then ring_failed (mmap_sqes q) (close_fd fd (munmap n res))
          else
            (0, ring_clear\<lparr>ur_fd := fd, ur_enter_fd := fd, sq_entries := setup_sq_entries q, has_sq_array := arr, ring_mem := Some n, sqe_mem := Some sqe_bytes,
                 sq_array := (if arr then replicate (unat (setup_sq_entries q)) 0 else []), sq_mask := setup_sq_entries q - 1, sqes := replicate (unat (setup_sq_entries q)) e0,
                 cq_mask := setup_cq_entries q - 1, cqes := replicate (unat (setup_cq_entries q)) c0\<rparr>,
             res\<lparr>maps := add_mset sqe_bytes (maps res)\<rparr>))"

text \<open>\<open>rc\<close> is what \<open>io_uring_register\<close> answers, \<open>off\<close> the index it gives.\<close>

definition ioxd__uring_register_ring_fd :: "int \<Rightarrow> int \<Rightarrow> ('e, 'c) uring \<Rightarrow> int \<times> ('e, 'c) uring" where
  "ioxd__uring_register_ring_fd rc off r =
     (if rc < 0 then (rc, r) else if rc \<noteq> 1 then (- ENOSPC, r) else (0, r\<lparr>ur_enter_fd := off, registered_ring := True\<rparr>))"

definition ioxd__uring_register_files_sparse :: "int \<Rightarrow> ('e, 'c) uring \<Rightarrow> int \<times> ('e, 'c) uring" where
  "ioxd__uring_register_files_sparse rc r = (if rc < 0 then (rc, r) else (0, r\<lparr>fixed_files := True\<rparr>))"

definition ioxd__uring_exit :: "('e, 'c) uring \<Rightarrow> owned \<Rightarrow> ('e, 'c) uring \<times> owned" where
  "ioxd__uring_exit r res =
     (let res = (case sqe_mem r of None \<Rightarrow> res | Some n \<Rightarrow> munmap n res);
          res = (case ring_mem r of None \<Rightarrow> res | Some n \<Rightarrow> munmap n res);
          res = (if ur_fd r \<ge> 0 then close_fd (ur_fd r) res else res)
      in (ring_clear, res))"


section \<open>The submission side\<close>

text \<open>The slot of the entry, zeroed; \<open>None\<close> when the ring is full.\<close>

definition ioxd__uring_get_sqe :: "'e \<Rightarrow> ('e, 'c) uring \<Rightarrow> nat option \<times> ('e, 'c) uring" where
  "ioxd__uring_get_sqe zero r =
     (let head = sq_head r in
      if sqe_tail r - head \<ge> sq_entries r then (None, r)
      else
        let slot = ring_slot (sq_mask r) (sqe_tail r);
            r = (if has_sq_array r then r\<lparr>sq_array := (sq_array r)[slot := of_nat slot]\<rparr> else r);
            r = r\<lparr>sqe_tail := sqe_tail r + 1\<rparr>
        in (Some slot, r\<lparr>sqes := (sqes r)[slot := zero]\<rparr>))"

text \<open>The entry the kernel finds at a counter.\<close>

definition kernel_sqe :: "('e, 'c) uring \<Rightarrow> u32 \<Rightarrow> 'e" where
  "kernel_sqe r i = sqes r ! (if has_sq_array r then unat (sq_array r ! ring_slot (sq_mask r) i) else ring_slot (sq_mask r) i)"

text \<open>
  The ring with the kernel behind it: what it took so far, and the completions it could not place.  \<open>cq_taken\<close> is the worker's, the completions it
  has read and not yet given back.
\<close>

record ('e, 'c) port =
  ring :: "('e, 'c) uring"
  cq_taken :: u32
  sent :: "'e list"
  backlog :: "'c list"

text \<open>
  The kernel of an enter: \<open>ans\<close> is an error, or how many entries it takes, never more than \<open>to_submit\<close> nor past the tail the worker has published; asked for events, it moves what fits of its backlog to the completion ring.
\<close>

definition kernel_place :: "'c \<Rightarrow> ('e, 'c) uring \<Rightarrow> ('e, 'c) uring" where
  "kernel_place c r = r\<lparr>cqes := (cqes r)[ring_slot (cq_mask r) (cq_tail r) := c], cq_tail := cq_tail r + 1\<rparr>"

definition cq_room :: "('e, 'c) uring \<Rightarrow> bool" where
  "cq_room r \<longleftrightarrow> unat (cq_tail r - cq_head r) < length (cqes r)"

fun kernel_flush :: "'c list \<Rightarrow> ('e, 'c) uring \<Rightarrow> 'c list \<times> ('e, 'c) uring" where
  "kernel_flush [] r = ([], r\<lparr>sq_cq_overflow := False\<rparr>)"
| "kernel_flush (c # cs) r = (if cq_room r then kernel_flush cs (kernel_place c r) else (c # cs, r))"

definition kernel_take :: "nat \<Rightarrow> ('e, 'c) port \<Rightarrow> ('e, 'c) port" where
  "kernel_take n p =
     (let r = ring p in
      p\<lparr>ring := r\<lparr>sq_head := sq_head r + of_nat n\<rparr>, sent := sent p @ map (\<lambda>i. kernel_sqe r (sq_head r + of_nat i)) [0..<n]\<rparr>)"

definition kernel_enter :: "int \<Rightarrow> u32 \<Rightarrow> bool \<Rightarrow> ('e, 'c) port \<Rightarrow> int \<times> ('e, 'c) port" where
  "kernel_enter ans to_submit getevents p =
     (let n = (if ans < 0 then 0 else min (nat ans) (min (unat to_submit) (unat (sq_tail (ring p) - sq_head (ring p)))));
          p = kernel_take n p;
          p = (if getevents then let (back, r) = kernel_flush (backlog p) (ring p) in p\<lparr>backlog := back, ring := r\<rparr> else p)
      in (if ans < 0 then ans else int n, p))"

definition flush_and_enter :: "u32 \<Rightarrow> bool \<Rightarrow> int \<Rightarrow> ('e, 'c) port \<Rightarrow> int \<times> ('e, 'c) port" where
  "flush_and_enter wait_nr getevents ans p =
     (let r = ring p;
          khead = sq_head r;
          to_submit = sqe_tail r - khead;
          r = (if sq_tail r \<noteq> sqe_tail r then r\<lparr>sq_tail := sqe_tail r\<rparr> else r);
          (r, getevents) = (if sq_cq_overflow r then (r\<lparr>cq_overflows := cq_overflows r + 1\<rparr>, True) else (r, getevents));
          p = p\<lparr>ring := r\<rparr>
      in if to_submit = 0 \<and> wait_nr = 0 \<and> \<not> getevents then (0, p)
         else kernel_enter ans to_submit getevents p)"

definition ioxd__uring_submit :: "int \<Rightarrow> ('e, 'c) port \<Rightarrow> int \<times> ('e, 'c) port" where
  "ioxd__uring_submit ans p = flush_and_enter 0 False ans p"

definition ioxd__uring_submit_wait :: "u32 \<Rightarrow> int \<Rightarrow> ('e, 'c) port \<Rightarrow> int \<times> ('e, 'c) port" where
  "ioxd__uring_submit_wait wait_nr ans p = flush_and_enter wait_nr True ans p"


section \<open>The completion side\<close>

definition ioxd__uring_cq_ready :: "('e, 'c) uring \<Rightarrow> u32" where
  "ioxd__uring_cq_ready r = cq_tail r - cq_head r"

definition ioxd__uring_cqe_at :: "('e, 'c) uring \<Rightarrow> u32 \<Rightarrow> 'c" where
  "ioxd__uring_cqe_at r i = cqes r ! ring_slot (cq_mask r) (cq_head r + i)"

definition ioxd__uring_cq_advance :: "u32 \<Rightarrow> ('e, 'c) uring \<Rightarrow> ('e, 'c) uring" where
  "ioxd__uring_cq_advance n r = (if n = 0 then r else r\<lparr>cq_head := cq_head r + n\<rparr>)"

definition kernel_post :: "'c \<Rightarrow> ('e, 'c) port \<Rightarrow> ('e, 'c) port" where
  "kernel_post c p =
     (if backlog p = [] \<and> cq_room (ring p) then p\<lparr>ring := kernel_place c (ring p)\<rparr>
      else p\<lparr>backlog := backlog p @ [c], ring := (ring p)\<lparr>sq_cq_overflow := True\<rparr>\<rparr>)"

definition publish_cq :: "('e, 'c) port \<Rightarrow> ('e, 'c) port" where
  "publish_cq p = (if cq_taken p \<noteq> 0 then p\<lparr>ring := ioxd__uring_cq_advance (cq_taken p) (ring p), cq_taken := 0\<rparr> else p)"

text \<open>One completion of a batch: it is copied out, then counted as taken.\<close>

definition take_cqe :: "('e, 'c) port \<Rightarrow> 'c \<times> ('e, 'c) port" where
  "take_cqe p = (ioxd__uring_cqe_at (ring p) (cq_taken p), p\<lparr>cq_taken := cq_taken p + 1\<rparr>)"


section \<open>Claiming an entry\<close>

text \<open>
  A worker that finds the ring full submits and tries again, sixteen times at most; an answer is what the kernel gives the submission and, when it is
  busy, the enter that reaps.  \<open>None\<close> is the abort.
\<close>

abbreviation EINTR :: int where "EINTR \<equiv> 4"
abbreviation EAGAIN :: int where "EAGAIN \<equiv> 11"
abbreviation EBUSY :: int where "EBUSY \<equiv> 16"

fun proactor_sqe_loop :: "nat \<Rightarrow> 'e \<Rightarrow> (nat \<Rightarrow> int \<times> int) \<Rightarrow> nat option \<Rightarrow> ('e, 'c) port \<Rightarrow> (nat \<times> ('e, 'c) port) option" where
  "proactor_sqe_loop n zero ans (Some slot) p = Some (slot, p)"
| "proactor_sqe_loop 0 zero ans None p = None"
| "proactor_sqe_loop (Suc n) zero ans None p =
     (let p = publish_cq p;
          (rc, p) = ioxd__uring_submit (fst (ans n)) p;
          (rc, p) = (if rc = - EBUSY \<or> rc = - EAGAIN \<or> rc = - EINTR then ioxd__uring_submit_wait 0 (snd (ans n)) p else (rc, p));
          (sqe, r) = ioxd__uring_get_sqe zero (ring p)
      in proactor_sqe_loop n zero ans sqe (p\<lparr>ring := r\<rparr>))"

definition ioxd__proactor_sqe :: "'e \<Rightarrow> (nat \<Rightarrow> int \<times> int) \<Rightarrow> ('e, 'c) port \<Rightarrow> (nat \<times> ('e, 'c) port) option" where
  "ioxd__proactor_sqe zero ans p =
     (let (sqe, r) = ioxd__uring_get_sqe zero (ring p) in proactor_sqe_loop 16 zero ans sqe (p\<lparr>ring := r\<rparr>))"


section \<open>A worker's use of the rings\<close>

text \<open>
  What happens between two completions: an entry is claimed and filled, the worker submits or waits, the kernel posts.  \<open>None\<close> is the abort of a ring the kernel
  does not consume.
\<close>

datatype ('e, 'c) uop = Stage 'e "nat \<Rightarrow> int \<times> int" | Submit int | Wait u32 int | Post 'c

definition fill :: "nat \<Rightarrow> 'e \<Rightarrow> ('e, 'c) port \<Rightarrow> ('e, 'c) port" where
  "fill slot e p = p\<lparr>ring := (ring p)\<lparr>sqes := (sqes (ring p))[slot := e]\<rparr>\<rparr>"

fun ustep :: "'e \<Rightarrow> ('e, 'c) uop \<Rightarrow> ('e, 'c) port \<Rightarrow> ('e, 'c) port option" where
  "ustep zero (Stage e ans) p = map_option (\<lambda>(slot, p). fill slot e p) (ioxd__proactor_sqe zero ans p)"
| "ustep zero (Submit ans) p = Some (snd (ioxd__uring_submit ans p))"
| "ustep zero (Wait n ans) p = Some (snd (ioxd__uring_submit_wait n ans p))"
| "ustep zero (Post c) p = Some (kernel_post c p)"

text \<open>
  A worker from its start: \<open>st\<close> are the entries it staged, \<open>po\<close> the completions the kernel posted, \<open>gt\<close> those it read, and \<open>n\<close> how many it still reads in this batch.  A batch
  is what was ready when it began; while one completion is handled entries are staged, and the kernel posts more.
\<close>

definition fresh_port :: "nat \<Rightarrow> nat \<Rightarrow> ('e, 'c) port \<Rightarrow> bool" where
  "fresh_port k m p \<longleftrightarrow> k < 31 \<and> m < 31 \<and> cq_taken p = 0 \<and> sent p = [] \<and> backlog p = [] \<and>
     sqe_tail (ring p) = sq_head (ring p) \<and> cq_tail (ring p) = cq_head (ring p) \<and>
     sq_mask (ring p) = 2 ^ k - 1 \<and> sq_entries (ring p) = 2 ^ k \<and> length (sqes (ring p)) = 2 ^ k \<and> (has_sq_array (ring p) \<longrightarrow> length (sq_array (ring p)) = 2 ^ k) \<and>
     cq_mask (ring p) = 2 ^ m - 1 \<and> length (cqes (ring p)) = 2 ^ m"

fun staged_by :: "('e, 'c) uop \<Rightarrow> 'e list" where
  "staged_by (Stage e ans) = [e]"
| "staged_by _ = []"

fun posted_by :: "('e, 'c) uop \<Rightarrow> 'c list" where
  "posted_by (Post c) = [c]"
| "posted_by _ = []"

inductive uring_run :: "nat \<Rightarrow> nat \<Rightarrow> 'e \<Rightarrow> ('e, 'c) port \<Rightarrow> 'e list \<Rightarrow> 'c list \<Rightarrow> 'c list \<Rightarrow> nat \<Rightarrow> bool" for k m zero where
  start: "fresh_port k m p \<Longrightarrow> uring_run k m zero p [] [] [] 0"
| op: "uring_run k m zero p st po gt n \<Longrightarrow> ustep zero q p = Some p' \<Longrightarrow> uring_run k m zero p' (st @ staged_by q) (po @ posted_by q) gt n"
| batch: "uring_run k m zero p st po gt 0 \<Longrightarrow> cq_taken p = 0 \<Longrightarrow> n = unat (ioxd__uring_cq_ready (ring p)) \<Longrightarrow> uring_run k m zero p st po gt n"
| take: "uring_run k m zero p st po gt (Suc n) \<Longrightarrow> take_cqe p = (c, p') \<Longrightarrow> uring_run k m zero p' st po (gt @ [c]) n"
| publish: "uring_run k m zero p st po gt 0 \<Longrightarrow> uring_run k m zero (publish_cq p) st po gt 0"


lemma init_exit:
  assumes "ioxd__uring_init e0 c0 q res = (rc, r, res1)"
  shows "rc < 0 \<Longrightarrow> res1 = res \<and> r = ring_clear" and "rc \<ge> 0 \<Longrightarrow> rc = 0 \<and> ur_fd r \<in># fds res1"
    and "ur_fd r' = ur_fd r \<Longrightarrow> ring_mem r' = ring_mem r \<Longrightarrow> sqe_mem r' = sqe_mem r \<Longrightarrow> snd (ioxd__uring_exit r' res1) = res"
  using assms by (auto simp: ioxd__uring_init_def ioxd__uring_exit_def ring_failed_def close_fd_def munmap_def ring_clear_def Let_def split: if_splits)

text \<open>
  A ring gives back what it took from the system.  Whatever fails while a ring is made, the process is left with the descriptors and mappings it had and the ring owns
  none; when nothing fails, the entries of both rings lie inside the mapping; and in either case, whatever registration answered in between,
  ending the ring leaves exactly what there was before it was made.
\<close>

theorem a_ring_gives_back_what_it_took:
  assumes "ioxd__uring_init e0 c0 q res = (rc, r, res1)"
    and "r2 = snd (ioxd__uring_register_files_sparse rc2 (snd (ioxd__uring_register_ring_fd rc1 off r)))"
  shows "snd (ioxd__uring_exit r2 res1) = res \<and> (rc < 0 \<longrightarrow> res1 = res \<and> r = ring_clear) \<and>
    (rc \<ge> 0 \<longrightarrow> cqes_off q + 16 * length (cqes r) \<le> the (ring_mem r) \<and> (has_sq_array r \<longrightarrow> array_off q + 4 * length (sq_array r) \<le> the (ring_mem r)) \<and> 64 * length (sqes r) \<le> the (sqe_mem r))"
proof -
  have "ur_fd r2 = ur_fd r" "ring_mem r2 = ring_mem r" "sqe_mem r2 = sqe_mem r"
    using assms(2) by (simp_all add: ioxd__uring_register_ring_fd_def ioxd__uring_register_files_sparse_def)
  then have "snd (ioxd__uring_exit r2 res1) = res" by (rule init_exit(3)[OF assms(1)])
  moreover have "rc \<ge> 0 \<longrightarrow> cqes_off q + 16 * length (cqes r) \<le> the (ring_mem r) \<and> (has_sq_array r \<longrightarrow> array_off q + 4 * length (sq_array r) \<le> the (ring_mem r)) \<and> 64 * length (sqes r) \<le> the (sqe_mem r)"
    using assms(1) by (auto simp: ioxd__uring_init_def ring_failed_def ring_bytes_def Let_def split: if_splits)
  ultimately show ?thesis using init_exit(1)[OF assms(1)] by blast
qed

definition old_kernel :: ring_setup where
  "old_kernel = \<lparr>setup_no_sqarray = - EINVAL, setup_sqarray = 5, single_mmap = True, array_off = 64, dropped_off = 20, cqes_off = 128, setup_sq_entries = 2, setup_cq_entries = 4,
     mmap_ring = 0, mmap_sqes = - 12\<rparr>"

theorem a_ring_gives_back_what_it_took_witness:
  "\<exists>r res1. ioxd__uring_init (0 :: nat) (0 :: nat) old_kernel \<lparr>fds = {#1#}, maps = {#}\<rparr> = (- 12, r, res1) \<and> fds res1 = {#1#} \<and> ring_mem r = None"
proof -
  obtain rc r res1 where i: "ioxd__uring_init (0 :: nat) (0 :: nat) old_kernel \<lparr>fds = {#1#}, maps = {#}\<rparr> = (rc, r, res1)" by (metis surj_pair)
  then have "rc = - 12" by (simp add: ioxd__uring_init_def old_kernel_def ring_failed_def Let_def split: if_splits)
  then show ?thesis using a_ring_gives_back_what_it_took[OF i refl] i by (simp add: ring_clear_def)
qed


section \<open>What the kernel finds\<close>

definition waiting :: "('e, 'c) uring \<Rightarrow> 'e list" where
  "waiting r = map (\<lambda>i. kernel_sqe r (sq_head r + of_nat i)) [0..<unat (sqe_tail r - sq_head r)]"

definition ready :: "('e, 'c) uring \<Rightarrow> 'c list" where
  "ready r = ring_view (cqes r) (cq_mask r) (cq_head r) (cq_tail r)"

definition unread :: "('e, 'c) port \<Rightarrow> 'c list" where
  "unread p = drop (unat (cq_taken p)) (ready (ring p))"

definition sq_ok :: "nat \<Rightarrow> ('e, 'c) uring \<Rightarrow> bool" where
  "sq_ok k r \<longleftrightarrow> k < 31 \<and> sq_mask r = 2 ^ k - 1 \<and> sq_entries r = 2 ^ k \<and> length (sqes r) = 2 ^ k \<and> unat (sqe_tail r - sq_head r) \<le> 2 ^ k \<and>
     (has_sq_array r \<longrightarrow> length (sq_array r) = 2 ^ k \<and>
        (\<forall>i < unat (sqe_tail r - sq_head r). sq_array r ! ring_slot (sq_mask r) (sq_head r + of_nat i) = of_nat (ring_slot (sq_mask r) (sq_head r + of_nat i))))"

definition cq_ok :: "nat \<Rightarrow> ('e, 'c) uring \<Rightarrow> bool" where
  "cq_ok m r \<longleftrightarrow> m < 31 \<and> cq_mask r = 2 ^ m - 1 \<and> length (cqes r) = 2 ^ m \<and> unat (cq_tail r - cq_head r) \<le> 2 ^ m"

lemma length_ready [simp]: "length (ready r) = unat (cq_tail r - cq_head r)"
  by (simp add: ready_def)

lemma length_waiting [simp]: "length (waiting r) = unat (sqe_tail r - sq_head r)"
  by (simp add: waiting_def)

lemma slot_word: "k < 31 \<Longrightarrow> unat (of_nat (ring_slot (2 ^ k - 1) i) :: u32) = ring_slot (2 ^ k - 1) i"
  using ring_slot_less[of k i] power_strict_increasing[of k 32 "2::nat"] by (intro unat_of_nat_less) auto

lemma waiting_view:
  assumes "sq_ok k r"
  shows "waiting r = ring_view (sqes r) (sq_mask r) (sq_head r) (sqe_tail r)"
proof -
  have "kernel_sqe r (sq_head r + of_nat i) = sqes r ! ring_slot (sq_mask r) (sq_head r + of_nat i)" if "i < unat (sqe_tail r - sq_head r)" for i
    using assms that slot_word[of k] by (auto simp: kernel_sqe_def sq_ok_def Let_def)
  then show ?thesis by (auto simp: waiting_def ring_view_def)
qed

lemma ring_view_split:
  assumes "n \<le> unat (t - h)"
  shows "ring_view xs msk h t = ring_view xs msk h (h + of_nat n) @ ring_view xs msk (h + of_nat n) t"
    and "unat (t - (h + of_nat n)) = unat (t - h) - n" and "unat (h + of_nat n - h) = n"
proof -
  have n: "unat (of_nat n :: u32) = n" using assms unsigned_less[of "t - h", where 'a = nat] by (intro unat_of_nat_less) simp
  have "of_nat n \<le> t - h" using assms n by (simp add: word_le_nat_alt)
  then show d: "unat (t - (h + of_nat n)) = unat (t - h) - n" using n unat_sub[of "of_nat n" "t - h"] by (simp add: diff_diff_add)
  show "unat (h + of_nat n - h) = n" using n by simp
  have u: "[0..<unat (t - h)] = [0..<n] @ map (\<lambda>i. i + n) [0..<unat (t - h) - n]"
    using assms upt_add_eq_append[of 0 n "unat (t - h) - n"] by (simp add: map_add_upt add.commute)
  show "ring_view xs msk h t = ring_view xs msk h (h + of_nat n) @ ring_view xs msk (h + of_nat n) t"
    unfolding ring_view_def d u using n by (simp add: o_def algebra_simps)
qed

lemma sq_small: "sq_ok k r \<Longrightarrow> (2::nat) ^ k < 2 ^ 31"
  using power_strict_increasing[of k 31 "2::nat"] by (simp add: sq_ok_def)

lemma unat_exp: "k < 31 \<Longrightarrow> unat (2 ^ k :: u32) = 2 ^ k"
  using unat_of_nat_less[where 'a = 32, of "2 ^ k"] power_strict_increasing[of k 32 "2::nat"] by simp

text \<open>A ring just made is one a worker starts from.\<close>

lemma init_is_fresh:
  assumes "ioxd__uring_init e0 c0 q res = (rc, r, res1)" and "rc \<ge> 0" and "k < 31" "setup_sq_entries q = 2 ^ k" "m < 31" "setup_cq_entries q = 2 ^ m"
  shows "fresh_port k m \<lparr>ring = r, cq_taken = 0, sent = [], backlog = []\<rparr>"
  using assms unat_exp[OF assms(3)] unat_exp[OF assms(5)]
  by (auto simp: ioxd__uring_init_def ring_failed_def ring_clear_def fresh_port_def Let_def split: if_splits)

lemma claim_full:
  assumes "sq_ok k r" and "ioxd__uring_get_sqe zero r = (None, r')"
  shows "r' = r" "unat (sqe_tail r - sq_head r) = 2 ^ k"
proof -
  have "unat (2 ^ k :: u32) = 2 ^ k" using assms(1) by (simp add: sq_ok_def unat_exp)
  then show "r' = r" "unat (sqe_tail r - sq_head r) = 2 ^ k" using assms by (auto simp: ioxd__uring_get_sqe_def sq_ok_def word_le_nat_alt Let_def split: if_splits)
qed

lemma claim_ok:
  assumes ok: "sq_ok k r" and g: "ioxd__uring_get_sqe zero r = (Some slot, r')"
  shows "sq_ok k r'" "waiting r' = waiting r @ [zero]" "slot = ring_slot (sq_mask r') (sqe_tail r' - 1)" "sq_head r' = sq_head r"
    "cqes r' = cqes r" "cq_mask r' = cq_mask r" "cq_head r' = cq_head r" "cq_tail r' = cq_tail r"
proof -
  have k: "k < 31" "sq_mask r = 2 ^ k - 1" "length (sqes r) = 2 ^ k" using ok by (simp_all add: sq_ok_def)
  have "unat (2 ^ k :: u32) = 2 ^ k" using k by (simp add: unat_exp)
  then have room: "unat (sqe_tail r - sq_head r) < 2 ^ k" using g ok by (auto simp: ioxd__uring_get_sqe_def sq_ok_def word_le_nat_alt Let_def split: if_splits)
  have s: "slot = ring_slot (sq_mask r) (sqe_tail r)" using g by (auto simp: ioxd__uring_get_sqe_def Let_def split: if_splits)
  have f: "sqes r' = (sqes r)[slot := zero]" "sqe_tail r' = sqe_tail r + 1" "sq_head r' = sq_head r" "sq_mask r' = sq_mask r" "sq_entries r' = sq_entries r"
    "has_sq_array r' = has_sq_array r" "sq_array r' = (if has_sq_array r then (sq_array r)[slot := of_nat slot] else sq_array r)"
    using g s by (auto simp: ioxd__uring_get_sqe_def Let_def split: if_splits)
  show "cqes r' = cqes r" "cq_mask r' = cq_mask r" "cq_head r' = cq_head r" "cq_tail r' = cq_tail r"
    using g by (auto simp: ioxd__uring_get_sqe_def Let_def split: if_splits)
  show "slot = ring_slot (sq_mask r') (sqe_tail r' - 1)" "sq_head r' = sq_head r" using s f by simp_all
  have n: "unat (sqe_tail r' - sq_head r') = unat (sqe_tail r - sq_head r) + 1"
    unfolding f using unat_succ_diff[of "sqe_tail r" "sq_head r"] room sq_small[OF ok] by linarith
  have slot: "slot < 2 ^ k" using s k ring_slot_less[of k] by simp
  have "sq_array r' ! ring_slot (sq_mask r') (sq_head r' + of_nat i) = of_nat (ring_slot (sq_mask r') (sq_head r' + of_nat i))"
    if "has_sq_array r'" "i < unat (sqe_tail r' - sq_head r')" for i
  proof (cases "i < unat (sqe_tail r - sq_head r)")
    case True
    then show ?thesis using that ok slot by (auto simp: sq_ok_def f nth_list_update)
  next
    case False
    then have "i = unat (sqe_tail r - sq_head r)" using that n by simp
    then have "sq_head r + of_nat i = sqe_tail r" by simp
    then show ?thesis using that ok slot s by (simp add: sq_ok_def f)
  qed
  then show ok': "sq_ok k r'" using ok n room by (auto simp: sq_ok_def f)
  show "waiting r' = waiting r @ [zero]"
    unfolding waiting_view[OF ok'] waiting_view[OF ok] f s using ring_view_push[of k "sqes r" "sqe_tail r" "sq_head r" zero] k room by simp
qed

lemma fill_last:
  fixes r r' :: "('e, 'c) uring" and e :: 'e
  assumes ok: "sq_ok k r" and n: "sqe_tail r \<noteq> sq_head r" and slot: "slot = ring_slot (sq_mask r) (sqe_tail r - 1)"
  defines "r' \<equiv> r\<lparr>sqes := (sqes r)[slot := e]\<rparr>"
  shows "sq_ok k r' \<and> waiting r' = butlast (waiting r) @ [e]"
proof -
  let ?t = "sqe_tail r - 1"
  have k: "k < 31" "sq_mask r = 2 ^ k - 1" "length (sqes r) = 2 ^ k" using ok by (simp_all add: sq_ok_def)
  have "sqe_tail r - sq_head r \<noteq> 0" using n by simp
  then have u: "unat (?t - sq_head r) = unat (sqe_tail r - sq_head r) - 1" "0 < unat (sqe_tail r - sq_head r)"
    using unat_minus_one[of "sqe_tail r - sq_head r"] by (simp_all add: algebra_simps unat_gt_0)
  have room: "unat (?t - sq_head r) < 2 ^ k" using u ok by (auto simp: sq_ok_def)
  have v: "ring_view ((sqes r)[slot := x]) (sq_mask r) (sq_head r) (sqe_tail r) = ring_view (sqes r) (sq_mask r) (sq_head r) ?t @ [x]" for x
    unfolding slot using ring_view_push[of k "sqes r" ?t "sq_head r" x] k room by simp
  have ok': "sq_ok k r'" using ok by (auto simp: sq_ok_def r'_def)
  have "waiting r = ring_view (sqes r) (sq_mask r) (sq_head r) ?t @ [sqes r ! slot]" using waiting_view[OF ok] v[of "sqes r ! slot"] by simp
  moreover have "waiting r' = ring_view (sqes r) (sq_mask r) (sq_head r) ?t @ [e]" using waiting_view[OF ok'] v[of e] by (simp add: r'_def)
  ultimately show ?thesis using ok' by simp
qed

lemma kernel_take_ok:
  assumes ok: "sq_ok k (ring p)" and n: "n \<le> unat (sqe_tail (ring p) - sq_head (ring p))"
  shows "sq_ok k (ring (kernel_take n p))" "sent (kernel_take n p) @ waiting (ring (kernel_take n p)) = sent p @ waiting (ring p)"
proof -
  define r r' where "r = ring p" and "r' = ring (kernel_take n p)"
  have r': "r' = r\<lparr>sq_head := sq_head r + of_nat n\<rparr>" by (simp add: r_def r'_def kernel_take_def Let_def)
  have n': "n \<le> unat (sqe_tail r - sq_head r)" using n by (simp add: r_def)
  note sp = ring_view_split[OF n'] and ok1 = ok[folded r_def]
  have "sq_array r ! ring_slot (sq_mask r) (sq_head r + of_nat n + of_nat i) = of_nat (ring_slot (sq_mask r) (sq_head r + of_nat n + of_nat i))"
    if "has_sq_array r" "i < unat (sqe_tail r - sq_head r) - n" for i
    using ok1 that by (auto simp: sq_ok_def add.assoc simp flip: of_nat_add)
  then have ok': "sq_ok k r'" using ok1 sp(2) by (auto simp: sq_ok_def r')
  then show "sq_ok k (ring (kernel_take n p))" by (simp add: r'_def)
  have "[0..<unat (sqe_tail r - sq_head r)] = [0..<n] @ [n..<unat (sqe_tail r - sq_head r)]" using n' by (metis le_iff_add upt_add_eq_append zero_le)
  then have t: "map (\<lambda>i. kernel_sqe r (sq_head r + of_nat i)) [0..<n] = take n (waiting r)" using n' by (simp add: waiting_def take_map)
  have "take n (waiting r) = ring_view (sqes r) (sq_mask r) (sq_head r) (sq_head r + of_nat n)" unfolding waiting_view[OF ok1] using sp(1)[of "sqes r" "sq_mask r"] sp(3) by simp
  moreover have "waiting r' = ring_view (sqes r) (sq_mask r) (sq_head r + of_nat n) (sqe_tail r)" unfolding waiting_view[OF ok'] by (simp add: r')
  ultimately have "take n (waiting r) @ waiting r' = waiting r" unfolding waiting_view[OF ok1] using sp(1)[of "sqes r" "sq_mask r"] by simp
  then show "sent (kernel_take n p) @ waiting (ring (kernel_take n p)) = sent p @ waiting (ring p)"
    unfolding r'_def[symmetric] r_def[symmetric] using t by (simp add: kernel_take_def Let_def r_def)
qed

definition port_ok :: "nat \<Rightarrow> nat \<Rightarrow> ('e, 'c) port \<Rightarrow> bool" where
  "port_ok k m p \<longleftrightarrow> sq_ok k (ring p) \<and> cq_ok m (ring p) \<and> unat (cq_taken p) \<le> unat (cq_tail (ring p) - cq_head (ring p))"

text \<open>\<open>passes st po p p'\<close>: the step put the entries \<open>st\<close> behind those on their way to the kernel, and the completions \<open>po\<close> behind those on their way to the worker.\<close>

definition passes :: "nat \<Rightarrow> nat \<Rightarrow> 'e list \<Rightarrow> 'c list \<Rightarrow> ('e, 'c) port \<Rightarrow> ('e, 'c) port \<Rightarrow> bool" where
  "passes k m st po p p' \<longleftrightarrow> port_ok k m p' \<and> sent p' @ waiting (ring p') = sent p @ waiting (ring p) @ st \<and>
     unread p' @ backlog p' = unread p @ backlog p @ po \<and> length (unread p) \<le> length (unread p')"

lemma passes_trans: "passes k m st po p q \<Longrightarrow> passes k m st' po' q r \<Longrightarrow> passes k m (st @ st') (po @ po') p r"
  by (auto simp: passes_def)

lemma passes_refl: "port_ok k m p \<Longrightarrow> passes k m [] [] p p"
  by (simp add: passes_def)

lemma cq_place_ok:
  assumes ok: "cq_ok m r" and room: "cq_room r"
  shows "cq_ok m (kernel_place c r)" "ready (kernel_place c r) = ready r @ [c]" "sq_ok k (kernel_place c r) = sq_ok k r" "waiting (kernel_place c r) = waiting r"
proof -
  have m: "m < 31" "cq_mask r = 2 ^ m - 1" "length (cqes r) = 2 ^ m" "unat (cq_tail r - cq_head r) < 2 ^ m" using ok room by (simp_all add: cq_ok_def cq_room_def)
  have "(2::nat) ^ m < 2 ^ 31" using m(1) by (intro power_strict_increasing) auto
  then have n: "unat (cq_tail r + 1 - cq_head r) = unat (cq_tail r - cq_head r) + 1" using unat_succ_diff[of "cq_tail r" "cq_head r"] m(4) by linarith
  show "cq_ok m (kernel_place c r)" using m n by (auto simp: cq_ok_def kernel_place_def)
  show "ready (kernel_place c r) = ready r @ [c]" using ring_view_push[of m "cqes r" "cq_tail r" "cq_head r" c] m by (simp add: ready_def kernel_place_def)
  show "sq_ok k (kernel_place c r) = sq_ok k r" "waiting (kernel_place c r) = waiting r" by (simp_all add: sq_ok_def waiting_def kernel_sqe_def kernel_place_def Let_def)
qed

lemma flush_backlog:
  "cq_ok m r \<Longrightarrow> kernel_flush back r = (back', r') \<Longrightarrow>
     \<exists>moved. back = moved @ back' \<and> cq_ok m r' \<and> ready r' = ready r @ moved \<and> sq_ok k r' = sq_ok k r \<and> waiting r' = waiting r"
proof (induction "back" r rule: kernel_flush.induct)
  case (1 r)
  then show ?case by (auto simp: cq_ok_def sq_ok_def ready_def waiting_def kernel_sqe_def)
next
  case (2 c cs r)
  show ?case
  proof (cases "cq_room r")
    case True
    then obtain moved where "cs = moved @ back'" "cq_ok m r'" "ready r' = ready (kernel_place c r) @ moved" "sq_ok k r' = sq_ok k (kernel_place c r)" "waiting r' = waiting (kernel_place c r)"
      using 2(1)[OF True cq_place_ok(1)[OF 2(2) True]] 2(3) by auto
    then show ?thesis using cq_place_ok(2-)[OF 2(2) True] by (intro exI[of _ "c # moved"]) auto
  next
    case False
    then show ?thesis using 2 by auto
  qed
qed

lemma kernel_enter_ok:
  assumes ok: "port_ok k m p" and n: "to_submit = sqe_tail (ring p) - sq_head (ring p)" and e: "kernel_enter ans to_submit ge p = (rc, p')"
  shows "passes k m [] [] p p'"
proof -
  define j where "j = (if ans < 0 then 0 else min (nat ans) (min (unat to_submit) (unat (sq_tail (ring p) - sq_head (ring p)))))"
  define q where "q = kernel_take j p"
  have "j \<le> unat (sqe_tail (ring p) - sq_head (ring p))" by (auto simp: j_def n)
  then have sq: "sq_ok k (ring q)" "sent q @ waiting (ring q) = sent p @ waiting (ring p)" using kernel_take_ok ok by (auto simp: q_def port_ok_def)
  have c: "cq_ok m (ring q)" "ready (ring q) = ready (ring p)" "cq_taken q = cq_taken p" "backlog q = backlog p" using ok by (simp_all add: q_def kernel_take_def Let_def port_ok_def cq_ok_def ready_def)
  have t: "unat (cq_taken p) \<le> length (ready (ring p))" using ok by (simp add: port_ok_def)
  show ?thesis
  proof (cases ge)
    case False
    then have "p' = q" using e by (simp add: kernel_enter_def j_def q_def Let_def)
    moreover have "unread q = unread p" using c by (simp add: unread_def)
    moreover have "port_ok k m q" using sq c t by (simp add: port_ok_def flip: length_ready)
    ultimately show ?thesis using sq c by (simp add: passes_def)
  next
    case True
    obtain b r where f: "kernel_flush (backlog q) (ring q) = (b, r)" by fastforce
    obtain moved where mv: "backlog q = moved @ b" "cq_ok m r" "ready r = ready (ring q) @ moved" "sq_ok k r = sq_ok k (ring q)" "waiting r = waiting (ring q)"
      using flush_backlog[OF c(1) f] by blast
    have p': "p' = q\<lparr>backlog := b, ring := r\<rparr>" using e True f by (simp add: kernel_enter_def j_def q_def Let_def)
    have "unread p' = unread p @ moved" using mv(3) c t by (simp add: p' unread_def)
    moreover have "port_ok k m p'" using mv sq c t by (simp add: port_ok_def p' flip: length_ready)
    moreover have "backlog p = moved @ b" "sent q = sent p' " "backlog p' = b" using mv c p' by simp_all
    ultimately show ?thesis using sq mv p' unfolding passes_def by simp
  qed
qed

lemma flush_enter_ok:
  assumes ok: "port_ok k m p" and e: "flush_and_enter w ge ans p = (rc, p')"
  shows "passes k m [] [] p p'"
proof -
  define r where "r = (let r = ring p; r = (if sq_tail r \<noteq> sqe_tail r then r\<lparr>sq_tail := sqe_tail r\<rparr> else r) in if sq_cq_overflow r then r\<lparr>cq_overflows := cq_overflows r + 1\<rparr> else r)"
  define q where "q = p\<lparr>ring := r\<rparr>"
  have r: "sqe_tail r = sqe_tail (ring p)" "sq_head r = sq_head (ring p)" "sq_ok k r = sq_ok k (ring p)" "cq_ok m r = cq_ok m (ring p)" "waiting r = waiting (ring p)" "ready r = ready (ring p)"
    "cq_tail r = cq_tail (ring p)" "cq_head r = cq_head (ring p)"
    by (auto simp: r_def Let_def sq_ok_def cq_ok_def waiting_def ready_def kernel_sqe_def)
  have okq: "port_ok k m q" using ok r by (simp add: q_def port_ok_def)
  have pq: "passes k m [] [] p q" using okq r by (simp add: passes_def q_def unread_def)
  have "(rc, p') = (0, q) \<or> (\<exists>g. kernel_enter ans (sqe_tail (ring q) - sq_head (ring q)) g q = (rc, p'))"
    using e r by (auto simp: flush_and_enter_def Let_def q_def r_def split: if_splits)
  then show ?thesis using pq kernel_enter_ok[OF okq refl] passes_trans[OF pq] by fastforce
qed

text \<open>A submission offers the kernel all that is staged: it finds the entries up to the tail just published.\<close>

lemma kernel_take_sent: "n \<le> length (waiting (ring p)) \<Longrightarrow> sent (kernel_take n p) = sent p @ take n (waiting (ring p))"
  by (simp add: kernel_take_def Let_def waiting_def take_map)

lemma enter_takes_staged: "sent (snd (flush_and_enter w ge ans p)) = sent p @ take (nat ans) (waiting (ring p))"
proof -
  define r where "r = (let r = ring p; r = (if sq_tail r \<noteq> sqe_tail r then r\<lparr>sq_tail := sqe_tail r\<rparr> else r) in if sq_cq_overflow r then r\<lparr>cq_overflows := cq_overflows r + 1\<rparr> else r)"
  define q n where "q = p\<lparr>ring := r\<rparr>" and "n = (if ans < 0 then 0 else min (nat ans) (length (waiting (ring p))))"
  have r: "sqe_tail r = sqe_tail (ring p)" "sq_head r = sq_head (ring p)" "waiting r = waiting (ring p)" "sq_tail r = sqe_tail r"
    by (auto simp: r_def Let_def waiting_def kernel_sqe_def)
  have e: "snd (flush_and_enter w ge ans p) = q \<and> waiting (ring p) = [] \<or> (\<exists>g. snd (flush_and_enter w ge ans p) = snd (kernel_enter ans (sqe_tail r - sq_head r) g q))"
    using r by (auto simp: flush_and_enter_def Let_def q_def r_def simp flip: length_0_conv)
  have "sent (snd (kernel_enter ans (sqe_tail r - sq_head r) g q)) = sent (kernel_take n q)" for g
    using r by (auto simp: kernel_enter_def Let_def n_def q_def split: prod.split)
  moreover have "sent (kernel_take n q) = sent p @ take (nat ans) (waiting (ring p))" using kernel_take_sent[of n q] r(3) by (auto simp: n_def q_def min_def)
  ultimately show ?thesis using e by (auto simp: q_def)
qed

lemma cq_publish_ok:
  assumes ok: "port_ok k m p"
  shows "passes k m [] [] p (publish_cq p)" "cq_taken (publish_cq p) = 0" "unread (publish_cq p) = unread p"
proof -
  define r n where "r = ring p" and "n = unat (cq_taken p)"
  have n: "n \<le> unat (cq_tail r - cq_head r)" "of_nat n = cq_taken p" using ok by (simp_all add: port_ok_def r_def n_def)
  note sp = ring_view_split(1)[OF n(1), of "cqes r" "cq_mask r", unfolded n(2)] ring_view_split(2,3)[OF n(1), unfolded n(2)]
  have q: "publish_cq p = p\<lparr>ring := r\<lparr>cq_head := cq_head r + cq_taken p\<rparr>, cq_taken := 0\<rparr>" by (simp add: publish_cq_def ioxd__uring_cq_advance_def r_def)
  show "cq_taken (publish_cq p) = 0" by (simp add: q)
  show u: "unread (publish_cq p) = unread p" using sp(1,3) by (simp add: q unread_def ready_def r_def n_def)
  have "port_ok k m (publish_cq p)" using ok sp(2) by (auto simp: q port_ok_def sq_ok_def cq_ok_def r_def)
  then show "passes k m [] [] p (publish_cq p)" using u by (simp add: passes_def q waiting_def kernel_sqe_def r_def)
qed

lemma claim_passes:
  assumes ok: "port_ok k m p" and g: "ioxd__uring_get_sqe zero (ring p) = (sqe, r)"
  shows "passes k m (if sqe = None then [] else [zero]) [] p (p\<lparr>ring := r\<rparr>) \<and>
    (\<forall>s. sqe = Some s \<longrightarrow> s = ring_slot (sq_mask r) (sqe_tail r - 1) \<and> sqe_tail r \<noteq> sq_head r)"
proof (cases sqe)
  case None
  have "sq_ok k (ring p)" using ok by (simp add: port_ok_def)
  then have r: "r = ring p" using claim_full(1) g[unfolded None] by metis
  have "p\<lparr>ring := ring p\<rparr> = p" by simp
  then show ?thesis unfolding r None using passes_refl[OF ok] by simp
next
  case (Some s)
  have sq: "sq_ok k (ring p)" using ok by (simp add: port_ok_def)
  note c = claim_ok[OF sq, of zero s r, OF g[unfolded Some]]
  have "unat (sqe_tail r - sq_head r) = length (waiting (ring p)) + 1" using arg_cong[OF c(2), of length] by simp
  then have ne: "sqe_tail r \<noteq> sq_head r" by auto
  have u: "unread (p\<lparr>ring := r\<rparr>) = unread p" using c(5-8) by (simp add: unread_def ready_def)
  have po: "port_ok k m (p\<lparr>ring := r\<rparr>)" using ok c(1,5-8) by (simp add: port_ok_def cq_ok_def)
  have "passes k m [zero] [] p (p\<lparr>ring := r\<rparr>)" unfolding passes_def u using po c(2) by simp
  then show ?thesis using ne c(3) unfolding Some by simp
qed

lemma sqe_loop_ok:
  assumes "port_ok k m p" and "proactor_sqe_loop n zero ans sqe p = Some (slot, p')"
    and "\<And>s. sqe = Some s \<Longrightarrow> s = ring_slot (sq_mask (ring p)) (sqe_tail (ring p) - 1) \<and> sqe_tail (ring p) \<noteq> sq_head (ring p)"
  shows "passes k m (if sqe = None then [zero] else []) [] p p' \<and> slot = ring_slot (sq_mask (ring p')) (sqe_tail (ring p') - 1) \<and> sqe_tail (ring p') \<noteq> sq_head (ring p')"
  using assms
proof (induction n zero ans sqe p rule: proactor_sqe_loop.induct)
  case (1 n zero ans s p)
  then show ?case using passes_refl by auto
next
  case (3 n zero ans p)
  define p1 where "p1 = publish_cq p"
  obtain rc p2 where s: "ioxd__uring_submit (fst (ans n)) p1 = (rc, p2)" by fastforce
  obtain rc' p3 where w: "(if rc = - EBUSY \<or> rc = - EAGAIN \<or> rc = - EINTR then ioxd__uring_submit_wait 0 (snd (ans n)) p2 else (rc, p2)) = (rc', p3)" by fastforce
  obtain sqe r where g: "ioxd__uring_get_sqe zero (ring p3) = (sqe, r)" by fastforce
  have l: "proactor_sqe_loop n zero ans sqe (p3\<lparr>ring := r\<rparr>) = Some (slot, p')" using 3(3) s w g by (simp add: p1_def)
  note P1 = cq_publish_ok(1)[OF 3(2), folded p1_def]
  have P2: "passes k m [] [] p p2" using flush_enter_ok[of k m p1] s passes_trans[OF P1] P1 by (fastforce simp: ioxd__uring_submit_def passes_def)
  have P3: "passes k m [] [] p p3"
    using w flush_enter_ok[of k m p2 0 True "snd (ans n)" rc' p3] passes_trans[OF P2] P2 by (fastforce simp: ioxd__uring_submit_wait_def passes_def split: if_splits)
  have ok3: "port_ok k m p3" using P3 by (simp add: passes_def)
  let ?q = "p3\<lparr>ring := r\<rparr>"
  have Q: "passes k m (if sqe = None then [] else [zero]) [] p3 ?q \<and> (\<forall>s. sqe = Some s \<longrightarrow> s = ring_slot (sq_mask r) (sqe_tail r - 1) \<and> sqe_tail r \<noteq> sq_head r)"
    using claim_passes[OF ok3 g] by simp
  have "passes k m (if sqe = None then [zero] else []) [] ?q p' \<and> slot = ring_slot (sq_mask (ring p')) (sqe_tail (ring p') - 1) \<and> sqe_tail (ring p') \<noteq> sq_head (ring p')"
    by (rule 3(1)[OF p1_def refl s[symmetric] refl w[symmetric] refl g[symmetric] _ l]) (use Q in \<open>auto simp: passes_def\<close>)
  then show ?case using passes_trans[OF P3 passes_trans[OF conjunct1[OF Q]]] by (cases "sqe = None") auto
qed simp

lemma stage_ok:
  assumes ok: "port_ok k m p" and s: "ustep zero (Stage e ans) p = Some p'"
  shows "passes k m [e] [] p p'"
proof -
  obtain sqe r where g: "ioxd__uring_get_sqe zero (ring p) = (sqe, r)" by fastforce
  obtain slot q where l: "proactor_sqe_loop 16 zero ans sqe (p\<lparr>ring := r\<rparr>) = Some (slot, q)" and p': "p' = fill slot e q"
    using s g by (auto simp: ioxd__proactor_sqe_def)
  note c = claim_passes[OF ok g]
  have L: "passes k m (if sqe = None then [zero] else []) [] (p\<lparr>ring := r\<rparr>) q \<and> slot = ring_slot (sq_mask (ring q)) (sqe_tail (ring q) - 1) \<and> sqe_tail (ring q) \<noteq> sq_head (ring q)"
    by (rule sqe_loop_ok[OF _ l]) (use c in \<open>auto simp: passes_def\<close>)
  have P: "passes k m [zero] [] p q" using passes_trans[OF conjunct1[OF c] conjunct1[OF L]] by (cases "sqe = None") auto
  have okq: "port_ok k m q" using P by (simp add: passes_def)
  define r' where "r' = (ring q)\<lparr>sqes := (sqes (ring q))[slot := e]\<rparr>"
  have F: "sq_ok k r'" "waiting r' = butlast (waiting (ring q)) @ [e]" using fill_last[of k "ring q" slot e] L okq by (auto simp: port_ok_def r'_def)
  have f: "p' = q\<lparr>ring := r'\<rparr>" by (simp add: p' fill_def r'_def)
  have "unread p' = unread q" by (simp add: f unread_def ready_def r'_def)
  moreover have "port_ok k m p'" using okq F(1) by (simp add: f port_ok_def cq_ok_def r'_def)
  moreover have "sent p' @ waiting (ring p') = sent p @ waiting (ring p) @ [e]"
  proof -
    have "waiting (ring q) \<noteq> []" using L by (metis length_waiting list.size(3) right_minus_eq unat_eq_0)
    then have "sent q @ butlast (waiting (ring q)) = butlast (sent q @ waiting (ring q))" by (simp add: butlast_append)
    also have "\<dots> = sent p @ waiting (ring p)" using P by (simp add: passes_def butlast_append)
    finally show ?thesis using F(2) by (simp add: f)
  qed
  ultimately show ?thesis using P unfolding passes_def by (simp add: f)
qed

lemma post_ok:
  assumes ok: "port_ok k m p"
  shows "passes k m [] [c] p (kernel_post c p)"
proof (cases "backlog p = [] \<and> cq_room (ring p)")
  case True
  have cq: "cq_ok m (ring p)" and t: "unat (cq_taken p) \<le> length (ready (ring p))" using ok by (simp_all add: port_ok_def)
  note pl = cq_place_ok[OF cq conjunct2[OF True], where c = c]
  have e: "kernel_post c p = p\<lparr>ring := kernel_place c (ring p)\<rparr>" using True by (simp add: kernel_post_def)
  have u: "unread (kernel_post c p) = unread p @ [c]" using pl(2) t by (simp add: e unread_def)
  have "port_ok k m (kernel_post c p)" using ok pl t by (simp add: e port_ok_def flip: length_ready)
  then show ?thesis using u pl(4) True by (simp add: passes_def e)
next
  case False
  let ?r = "(ring p)\<lparr>sq_cq_overflow := True\<rparr>"
  have r: "sq_ok k ?r = sq_ok k (ring p)" "cq_ok m ?r = cq_ok m (ring p)" "waiting ?r = waiting (ring p)" "ready ?r = ready (ring p)"
    by (simp_all add: sq_ok_def cq_ok_def waiting_def kernel_sqe_def ready_def)
  have e: "kernel_post c p = p\<lparr>backlog := backlog p @ [c], ring := ?r\<rparr>" using False by (auto simp: kernel_post_def)
  have "port_ok k m (kernel_post c p)" using ok r(1,2) by (simp add: e port_ok_def)
  then show ?thesis using r(3,4) by (simp add: passes_def e unread_def)
qed

lemma ustep_ok: "port_ok k m p \<Longrightarrow> ustep zero q p = Some p' \<Longrightarrow> passes k m (staged_by q) (posted_by q) p p'"
  by (cases q) (auto simp: ioxd__uring_submit_def ioxd__uring_submit_wait_def post_ok simp del: ustep.simps(1) intro: stage_ok flush_enter_ok[OF _ surjective_pairing])

lemma take_ok:
  assumes ok: "port_ok k m p" and n: "unread p \<noteq> []" and t: "take_cqe p = (c, p')"
  shows "port_ok k m p'" "unread p = c # unread p'" "ring p' = ring p" "sent p' = sent p" "backlog p' = backlog p"
proof -
  have e: "c = ioxd__uring_cqe_at (ring p) (cq_taken p)" "p' = p\<lparr>cq_taken := cq_taken p + 1\<rparr>" using t by (simp_all add: take_cqe_def)
  have l: "unat (cq_taken p) < unat (cq_tail (ring p) - cq_head (ring p))" using n by (simp add: unread_def)
  then have s: "unat (cq_taken p + 1) = unat (cq_taken p) + 1"
    using unsigned_less[of "cq_tail (ring p) - cq_head (ring p)", where 'a = nat] by (subst unat_word_ariths) simp
  then show "port_ok k m p'" using ok l by (simp add: e(2) port_ok_def)
  have "ready (ring p) ! unat (cq_taken p) = c" using l by (simp add: ready_def ring_view_def e(1) ioxd__uring_cqe_at_def)
  then show "unread p = c # unread p'" using l s Cons_nth_drop_Suc[of "unat (cq_taken p)" "ready (ring p)"] by (simp add: unread_def e(2))
  show "ring p' = ring p" "sent p' = sent p" "backlog p' = backlog p" by (simp_all add: e(2))
qed

lemma uring_run_ok:
  "uring_run k m zero p st po gt n \<Longrightarrow> port_ok k m p \<and> st = sent p @ waiting (ring p) \<and> po = gt @ unread p @ backlog p \<and> n \<le> length (unread p)"
proof (induction rule: uring_run.induct)
  case (start p)
  then show ?case by (auto simp: fresh_port_def port_ok_def sq_ok_def cq_ok_def waiting_def unread_def ready_def)
next
  case (op p st po gt n q p')
  then show ?case using ustep_ok[of k m p zero q p'] by (auto simp: passes_def)
next
  case (batch p st po gt n)
  then show ?case by (simp add: unread_def ioxd__uring_cq_ready_def)
next
  case (take p st po gt n c p')
  then have ne: "unread p \<noteq> []" and ok: "port_ok k m p" by auto
  show ?case using take take_ok[OF ok ne take(2)] by simp
next
  case (publish p st po gt)
  then show ?case using cq_publish_ok[of k m p] by (auto simp: passes_def)
qed


text \<open>
  C38. The rings lose nothing and repeat nothing.  However a worker stages, submits and reads, however the kernel consumes and posts, and wherever the 32-bit counters
  wrap: the entries staged are those the kernel took, in order, and then those it will find, never more than the ring has; a submission shows the kernel all
  of them, so when it agrees to take some it takes the oldest of those staged; and the completions posted are those the worker read, in order, and then those not read yet and those in the kernel's backlog.  A batch
  only reads completions that are there, also when handling one makes the worker give back the ones it has read.
\<close>

theorem rings_pass_everything_once:
  assumes "uring_run k m zero p st po gt n"
  shows "st = sent p @ waiting (ring p) \<and> length (waiting (ring p)) \<le> 2 ^ k \<and> po = gt @ unread p @ backlog p \<and> n \<le> length (unread p) \<and>
    sent (snd (flush_and_enter w ge ans p)) = sent p @ take (nat ans) (waiting (ring p))"
  using uring_run_ok[OF assms] enter_takes_staged by (auto simp: port_ok_def sq_ok_def)

definition small_port :: "(nat, nat) port" where
  "small_port = \<lparr>ring = \<lparr>ur_fd = 3, ur_enter_fd = 3, registered_ring = False, fixed_files = False, sq_head = - 1, sq_tail = - 1, sq_array = [0, 0], sq_cq_overflow = False,
       sq_mask = 1, sq_entries = 2, sqe_tail = - 1, sqes = [0, 0], has_sq_array = True, cq_head = - 1, cq_tail = - 1, cq_mask = 1, cqes = [0, 0], cq_overflows = 0,
       ring_mem = Some 64, sqe_mem = Some 128\<rparr>, cq_taken = 0, sent = [], backlog = []\<rparr>"

lemma small_run:
  "map_option (\<lambda>p. (sent p, unat (sqe_tail (ring p)))) (do { p \<leftarrow> ustep 0 (Stage 5 (\<lambda>_. (0, 0))) small_port; p \<leftarrow> ustep 0 (Stage 6 (\<lambda>_. (0, 0))) p; ustep 0 (Stage 7 (\<lambda>_. (1, 0))) p }) = Some ([5], 2)"
  by code_simp

theorem rings_pass_everything_once_witness:
  "\<exists>p :: (nat, nat) port. uring_run 1 1 0 p [5, 6, 7] [] [] 0 \<and> sent p = [5 :: nat] \<and> waiting (ring p) = [6, 7]"
proof -
  obtain p where p: "do { p \<leftarrow> ustep 0 (Stage 5 (\<lambda>_. (0, 0))) small_port; p \<leftarrow> ustep 0 (Stage 6 (\<lambda>_. (0, 0))) p; ustep 0 (Stage 7 (\<lambda>_. (1, 0))) p } = Some p" "sent p = [5]"
    using small_run by (auto simp: map_option_case split: option.splits)
  have "fresh_port 1 1 small_port" by (simp add: fresh_port_def small_port_def)
  then have "uring_run 1 1 0 p [5, 6, 7] [] [] 0"
    using p(1) uring_run.op[OF uring_run.op[OF uring_run.op[OF uring_run.start]], of 1 1 small_port 0 "Stage 5 (\<lambda>_. (0, 0))" _ "Stage 6 (\<lambda>_. (0, 0))" _ "Stage 7 (\<lambda>_. (1, 0))" p]
    by (auto simp del: ustep.simps simp: bind_eq_Some_conv)
  moreover from rings_pass_everything_once[OF this] have "waiting (ring p) = [6, 7]" using p(2) by simp
  ultimately show ?thesis using p(2) by blast
qed

end
