(* ===== verification/Coro.thy ===== *)
theory Coro
  imports Prelude
begin

text \<open>
  The coroutines of a worker, \<^verbatim>\<open>lib/io/coro.c\<close>: who runs, and where the stacks are.  A coroutine is the address of its stack; the switch of registers is
  not modelled, so resuming is two steps, into the coroutine and back out when it yields or its function returns.  \<open>None\<close> is an abort.
\<close>

unbundle bit_operations_syntax

abbreviation CORO_GUARD :: u64 where "CORO_GUARD \<equiv> 64 * 1024"

text \<open>\<open>finished\<close> has an entry for every coroutine that was created and not given back, its \<open>done\<close>.\<close>

record coros =
  mapped :: "nat \<rightharpoonup> u64"
  finished :: "nat \<rightharpoonup> bool"
  cur_co :: "nat option"
  pool :: "(nat \<times> u64) list"
  pool_count :: u32
  pool_max :: u32

definition ioxd__coro_pool_limit :: "u32 \<Rightarrow> coros \<Rightarrow> coros" where
  "ioxd__coro_pool_limit max_idle s = s\<lparr>pool_max := max_idle\<rparr>"

definition ioxd__coro_current :: "coros \<Rightarrow> nat option" where
  "ioxd__coro_current s = cur_co s"

definition page_up :: "u64 \<Rightarrow> u64 \<Rightarrow> u64" where
  "page_up page n = ((n + page - 1) AND NOT (page - 1))"

definition stack_total :: "u64 \<Rightarrow> u64 \<Rightarrow> u64" where
  "stack_total page stack_bytes =
     (let stack_bytes = page_up page stack_bytes; guard = page_up page CORO_GUARD in stack_bytes + guard)"

text \<open>\<open>mem\<close> is where the system maps a new stack, if it does.\<close>

definition ioxd__coro_create :: "u64 \<Rightarrow> u64 \<Rightarrow> nat option \<Rightarrow> coros \<Rightarrow> (nat \<times> coros) option" where
  "ioxd__coro_create page stack_bytes mem s =
     (let total = stack_total page stack_bytes in
      case pool s of
        (c, sz) # rest \<Rightarrow>
          if sz \<noteq> total then None
          else Some (c, s\<lparr>pool := rest, pool_count := pool_count s - 1, finished := (finished s)(c \<mapsto> False)\<rparr>)
      | [] \<Rightarrow>
          (case mem of
             None \<Rightarrow> None
           | Some c \<Rightarrow> Some (c, s\<lparr>mapped := (mapped s)(c \<mapsto> total), finished := (finished s)(c \<mapsto> False)\<rparr>)))"

definition coro_destroy :: "nat \<Rightarrow> coros \<Rightarrow> coros" where
  "coro_destroy c s =
     (let sz = the (mapped s c); s = s\<lparr>finished := (finished s)(c := None)\<rparr> in
      if pool_count s < pool_max s then s\<lparr>pool := (c, sz) # pool s, pool_count := pool_count s + 1\<rparr>
      else s\<lparr>mapped := (mapped s)(c := None)\<rparr>)"

fun drain_stacks :: "(nat \<times> u64) list \<Rightarrow> (nat \<rightharpoonup> u64) \<Rightarrow> (nat \<rightharpoonup> u64)" where
  "drain_stacks [] m = m"
| "drain_stacks ((c, sz) # cs) m = drain_stacks cs (m(c := None))"

definition ioxd__coro_pool_drain :: "coros \<Rightarrow> coros" where
  "ioxd__coro_pool_drain s = s\<lparr>mapped := drain_stacks (pool s) (mapped s), pool := [], pool_count := 0\<rparr>"

text \<open>\<open>ioxd__coro_resume\<close> up to the switch, and after it; \<open>ioxd__coro_yield\<close> and the end of \<open>coro_entry\<close> lead to the second.\<close>

definition resume_in :: "nat \<Rightarrow> coros \<Rightarrow> coros option" where
  "resume_in c s =
     (if cur_co s \<noteq> None then None
      else if finished s c \<noteq> Some False then None
      else Some (s\<lparr>cur_co := Some c\<rparr>))"

definition coro_entry_returns :: "nat \<Rightarrow> coros \<Rightarrow> coros" where
  "coro_entry_returns c s = s\<lparr>finished := (finished s)(c \<mapsto> True)\<rparr>"

definition resume_out :: "nat \<Rightarrow> coros \<Rightarrow> coros" where
  "resume_out c s =
     (let s = s\<lparr>cur_co := None\<rparr> in if finished s c = Some True then coro_destroy c s else s)"


section \<open>The size of a stack\<close>

lemma page_up_bounds:
  assumes "k < 32" and "unat n < 2 ^ 63"
  shows "unat n \<le> unat (page_up (2 ^ k) n)" "unat (page_up (2 ^ k) n) < unat n + 2 ^ k" "2 ^ k dvd unat (page_up (2 ^ k) n)"
proof -
  have kk: "(2::nat) ^ k < 2 ^ 32" using assms(1) by (intro power_strict_increasing) auto
  have p: "unat (2 ^ k - 1 :: u64) = 2 ^ k - 1" using unat_of_nat_less[where 'a = 64, of "2 ^ k - 1"] kk by (simp add: of_nat_diff)
  have "unat (n + (2 ^ k - 1)) = unat n + (2 ^ k - 1)" using assms(2) kk by (subst unat_word_ariths) (simp add: p)
  then have u: "unat (page_up (2 ^ k) n) = (unat n + (2 ^ k - 1)) div 2 ^ k * 2 ^ k"
    by (simp add: page_up_def and_not_mask add_diff_eq[symmetric] minus_mod_eq_div_mult)
  have d: "(unat n + (2 ^ k - 1)) div 2 ^ k * 2 ^ k + (unat n + (2 ^ k - 1)) mod 2 ^ k = unat n + (2 ^ k - 1)" by (rule div_mult_mod_eq)
  have "(unat n + (2 ^ k - 1)) mod 2 ^ k < 2 ^ k" by simp
  then show "unat n \<le> unat (page_up (2 ^ k) n)" "unat (page_up (2 ^ k) n) < unat n + 2 ^ k" using d u by linarith+
  show "2 ^ k dvd unat (page_up (2 ^ k) n)" by (simp add: u)
qed

text \<open>The stack is as large as it was asked for, above a guard of its own; both are whole pages.\<close>

lemma stack_total_bounds:
  assumes "k < 32" and "unat bytes < 2 ^ 62"
  shows "unat bytes + 65536 \<le> unat (stack_total (2 ^ k) bytes)" "2 ^ k dvd unat (stack_total (2 ^ k) bytes)"
proof -
  have kk: "(2::nat) ^ k < 2 ^ 32" using assms(1) by (intro power_strict_increasing) auto
  note b = page_up_bounds[OF assms(1), of bytes] and g = page_up_bounds[OF assms(1), of CORO_GUARD]
  have "unat (page_up (2 ^ k) bytes + page_up (2 ^ k) CORO_GUARD) = unat (page_up (2 ^ k) bytes) + unat (page_up (2 ^ k) CORO_GUARD)"
    using b(2) g(2) assms(2) kk by (subst unat_word_ariths) simp
  then have u: "unat (stack_total (2 ^ k) bytes) = unat (page_up (2 ^ k) bytes) + unat (page_up (2 ^ k) CORO_GUARD)" by (simp add: stack_total_def Let_def)
  show "unat bytes + 65536 \<le> unat (stack_total (2 ^ k) bytes)" "2 ^ k dvd unat (stack_total (2 ^ k) bytes)" using b g assms(2) by (simp_all add: u)
qed


section \<open>A worker's coroutines\<close>

text \<open>
  A worker creates coroutines of one size, from the loop or from inside one, and resumes those it has not seen finish.  \<open>mem\<close> is new memory.
\<close>

inductive coro_run :: "u64 \<Rightarrow> u64 \<Rightarrow> u32 \<Rightarrow> coros \<Rightarrow> bool" for page bytes lim where
  start: "coro_run page bytes lim \<lparr>mapped = Map.empty, finished = Map.empty, cur_co = None, pool = [], pool_count = 0, pool_max = lim\<rparr>"
| create: "coro_run page bytes lim s \<Longrightarrow> (\<forall>a. mem = Some a \<longrightarrow> a \<notin> dom (mapped s)) \<Longrightarrow> ioxd__coro_create page bytes mem s = Some (c, s') \<Longrightarrow> coro_run page bytes lim s'"
| enter: "coro_run page bytes lim s \<Longrightarrow> resume_in c s = Some s' \<Longrightarrow> coro_run page bytes lim s'"
| yield: "coro_run page bytes lim s \<Longrightarrow> cur_co s = Some c \<Longrightarrow> coro_run page bytes lim (resume_out c s)"
| returns: "coro_run page bytes lim s \<Longrightarrow> cur_co s = Some c \<Longrightarrow> coro_run page bytes lim (resume_out c (coro_entry_returns c s))"
| drain: "coro_run page bytes lim s \<Longrightarrow> cur_co s = None \<Longrightarrow> coro_run page bytes lim (ioxd__coro_pool_drain s)"

definition coros_ok :: "u64 \<Rightarrow> u32 \<Rightarrow> coros \<Rightarrow> bool" where
  "coros_ok tot lim s \<longleftrightarrow> distinct (map fst (pool s)) \<and> (\<forall>x \<in> set (pool s). snd x = tot \<and> finished s (fst x) = None) \<and>
     (\<forall>c. mapped s c = (if c \<in> fst ` set (pool s) \<or> finished s c \<noteq> None then Some tot else None)) \<and>
     pool_max s = lim \<and> length (pool s) \<le> unat lim \<and> pool_count s = of_nat (length (pool s)) \<and>
     (\<forall>c. finished s c \<noteq> Some True) \<and> (\<forall>c. cur_co s = Some c \<longrightarrow> finished s c = Some False)"

lemma pool_count_small: "coros_ok tot lim s \<Longrightarrow> unat (pool_count s) = length (pool s)"
  using unsigned_less[of lim, where 'a = nat] by (auto simp: coros_ok_def intro!: unat_of_nat_less)

lemma create_ok:
  assumes ok: "coros_ok (stack_total page bytes) lim s" and m: "\<forall>a. mem = Some a \<longrightarrow> mapped s a = None"
    and c: "ioxd__coro_create page bytes mem s = Some (c, s')"
  shows "coros_ok (stack_total page bytes) lim s' \<and> finished s c = None \<and> mapped s' c = Some (stack_total page bytes)"
proof (cases "pool s")
  case Nil
  then obtain "mem = Some c" and s': "s' = s\<lparr>mapped := (mapped s)(c \<mapsto> stack_total page bytes), finished := (finished s)(c \<mapsto> False)\<rparr>"
    using c by (auto simp: ioxd__coro_create_def split: option.splits)
  then have "finished s c = None" using m ok by (auto simp: coros_ok_def split: if_splits)
  then show ?thesis using ok Nil unfolding s' coros_ok_def by simp
next
  case (Cons x rest)
  obtain b sz where x: "x = (b, sz)" by (cases x)
  have s': "c = b" "s' = s\<lparr>pool := rest, pool_count := pool_count s - 1, finished := (finished s)(b \<mapsto> False)\<rparr>"
    using c Cons x by (auto simp: ioxd__coro_create_def Let_def split: if_splits)
  have b: "finished s b = None" "b \<notin> fst ` set rest" "mapped s b = Some (stack_total page bytes)" using ok Cons x by (auto simp: coros_ok_def)
  then have "\<forall>x \<in> set rest. fst x \<noteq> b" by auto
  then show ?thesis using ok b Cons x unfolding s' coros_ok_def by auto
qed

lemma destroy_ok:
  assumes ok: "coros_ok tot lim s" and c: "finished s c = Some False" and no: "cur_co s = None"
  shows "coros_ok tot lim (coro_destroy c s)"
proof -
  have m: "mapped s c = Some tot" "c \<notin> fst ` set (pool s)" using ok c by (auto simp: coros_ok_def)
  note n = pool_count_small[OF ok]
  show ?thesis
  proof (cases "pool_count s < pool_max s")
    case True
    then have l: "length (pool s) < unat lim" using ok n by (simp add: coros_ok_def word_less_nat_alt)
    have e: "coro_destroy c s = s\<lparr>finished := (finished s)(c := None), pool := (c, tot) # pool s, pool_count := pool_count s + 1\<rparr>" using True m by (simp add: coro_destroy_def)
    show ?thesis using ok m no l unfolding e coros_ok_def by (auto split: if_splits)
  next
    case False
    then have e: "coro_destroy c s = s\<lparr>finished := (finished s)(c := None), mapped := (mapped s)(c := None)\<rparr>" by (simp add: coro_destroy_def)
    show ?thesis using ok m no unfolding e coros_ok_def by (auto split: if_splits)
  qed
qed

lemma drain_stacks_dom: "drain_stacks ps m c = (if c \<in> fst ` set ps then None else m c)"
  by (induction ps m rule: drain_stacks.induct) (simp_all add: fun_upd_def)

lemma coro_run_ok: "coro_run page bytes lim s \<Longrightarrow> coros_ok (stack_total page bytes) lim s"
proof (induction rule: coro_run.induct)
  case start
  then show ?case by (simp add: coros_ok_def)
next
  case (create s mem c s')
  then show ?case using create_ok by (metis domIff)
next
  case (enter s c s')
  then have "s' = s\<lparr>cur_co := Some c\<rparr>" "finished s c = Some False" by (auto simp: resume_in_def split: if_splits)
  then show ?case using enter(3) by (simp add: coros_ok_def)
next
  case (yield s c)
  moreover have "finished s c \<noteq> Some True" using yield(3) by (simp add: coros_ok_def)
  ultimately show ?case by (simp add: resume_out_def coros_ok_def)
next
  case (returns s c)
  let ?s = "s\<lparr>cur_co := None\<rparr>"
  have "coros_ok (stack_total page bytes) lim ?s" "finished s c = Some False" using returns by (simp_all add: coros_ok_def)
  then have "coros_ok (stack_total page bytes) lim (coro_destroy c ?s)" using destroy_ok[of _ lim ?s c] by simp
  moreover have "resume_out c (coro_entry_returns c s) = coro_destroy c ?s" by (simp add: resume_out_def coro_entry_returns_def coro_destroy_def Let_def)
  ultimately show ?case by simp
next
  case (drain s)
  then show ?case by (auto simp: ioxd__coro_pool_drain_def coros_ok_def drain_stacks_dom)
qed

text \<open>
  C39. A stack has one owner.  Over any run of a worker, a mapped stack is either that of one coroutine still to finish or one of the idle ones, never both; the
  idle ones are at most the limit and are counted; creating a coroutine returns and gives it a stack that no other coroutine has, whole pages and as
  large as it was asked for above its guard; and when no coroutine is left, draining the pool unmaps every stack.
\<close>

theorem a_stack_has_one_owner:
  assumes "coro_run (2 ^ k) bytes lim s" and "mem \<notin> dom (mapped s)" and "k < 32" and "unat bytes < 2 ^ 62"
  shows "dom (mapped s) = fst ` set (pool s) \<union> dom (finished s) \<and> fst ` set (pool s) \<inter> dom (finished s) = {} \<and> distinct (map fst (pool s)) \<and>
    length (pool s) \<le> unat lim \<and> unat (pool_count s) = length (pool s) \<and>
    (\<exists>c s'. ioxd__coro_create (2 ^ k) bytes (Some mem) s = Some (c, s') \<and> c \<notin> dom (finished s) \<and> (\<exists>n. mapped s' c = Some n \<and> unat bytes + 65536 \<le> unat n \<and> 2 ^ k dvd unat n)) \<and>
    (finished s = Map.empty \<longrightarrow> mapped (ioxd__coro_pool_drain s) = Map.empty)"
proof -
  note ok = coro_run_ok[OF assms(1)]
  obtain c s' where c: "ioxd__coro_create (2 ^ k) bytes (Some mem) s = Some (c, s')"
    using ok by (cases "pool s") (auto simp: ioxd__coro_create_def coros_ok_def)
  have "\<forall>a. Some mem = Some a \<longrightarrow> mapped s a = None" using assms(2) by auto
  then have n: "c \<notin> dom (finished s)" "mapped s' c = Some (stack_total (2 ^ k) bytes)" using create_ok[OF ok _ c] by auto
  have m: "mapped s b = (if b \<in> fst ` set (pool s) \<or> finished s b \<noteq> None then Some (stack_total (2 ^ k) bytes) else None)" for b using ok unfolding coros_ok_def by blast
  have d: "dom (mapped s) = fst ` set (pool s) \<union> dom (finished s)" by (force simp: m split: if_splits)
  have i: "fst ` set (pool s) \<inter> dom (finished s) = {}" using ok by (auto simp: coros_ok_def)
  have "mapped (ioxd__coro_pool_drain s) b = None" if "finished s = Map.empty" for b
    using that m[of b] by (simp add: ioxd__coro_pool_drain_def drain_stacks_dom)
  then have e: "finished s = Map.empty \<longrightarrow> mapped (ioxd__coro_pool_drain s) = Map.empty" by blast
  have o: "distinct (map fst (pool s))" "length (pool s) \<le> unat lim" using ok by (simp_all add: coros_ok_def)
  show ?thesis using d i o e c n stack_total_bounds[OF assms(3,4)] pool_count_small[OF ok] by blast
qed

theorem a_stack_has_one_owner_witness:
  "\<exists>s. coro_run (2 ^ 12) 100 1 s \<and> dom (mapped s) = {7} \<and> pool s = [(7, stack_total (2 ^ 12) 100)] \<and> unat (pool_count s) = 1"
proof -
  define s0 where "s0 = \<lparr>mapped = Map.empty, finished = Map.empty, cur_co = None, pool = [], pool_count = 0, pool_max = 1\<rparr>"
  have r0: "coro_run (2 ^ 12) 100 1 s0" unfolding s0_def by (rule coro_run.start)
  define s1 where "s1 = s0\<lparr>mapped := [7 \<mapsto> stack_total (2 ^ 12) 100], finished := [7 \<mapsto> False]\<rparr>"
  have "ioxd__coro_create (2 ^ 12) 100 (Some 7) s0 = Some (7, s1)" by (simp add: ioxd__coro_create_def s0_def s1_def)
  from coro_run.create[OF r0 _ this] have r1: "coro_run (2 ^ 12) 100 1 s1" by (simp add: s0_def)
  have r2: "coro_run (2 ^ 12) 100 1 (s1\<lparr>cur_co := Some 7\<rparr>)" by (rule coro_run.enter[OF r1]) (simp add: resume_in_def s1_def s0_def)
  let ?s = "resume_out 7 (coro_entry_returns 7 (s1\<lparr>cur_co := Some 7\<rparr>))"
  have r3: "coro_run (2 ^ 12) 100 1 ?s" by (rule coro_run.returns[OF r2]) simp
  have p: "pool ?s = [(7, stack_total (2 ^ 12) 100)]" "finished ?s = Map.empty" by (simp_all add: resume_out_def coro_entry_returns_def coro_destroy_def s1_def s0_def)
  have "8 \<notin> dom (mapped ?s)" by (simp add: resume_out_def coro_entry_returns_def coro_destroy_def s1_def s0_def)
  from a_stack_has_one_owner[OF r3 this] show ?thesis using r3 p unfolding s0_def[symmetric] by (intro exI[of _ ?s]) simp
qed

end
