(* ===== verification/Tls_Certs.thy ===== *)
theory Tls_Certs
  imports Slice "HOL-Library.Multiset"
begin

text \<open>
  The certificate store, \<^verbatim>\<open>lib/tls/certs.c\<close>: the table of hosts, the choice of a context by the server name of a ClientHello, and the
  references that let a reload swap the table under handshakes in flight.

  OpenSSL is a parameter: a context is a number, \<open>ctxs\<close> has the references each one has, and an entry of the directory comes with what
  \<open>context_for\<close> and \<open>X509_cmp_time\<close> answer for it.  A table is an address of \<open>tabs\<close> until it is freed.  Running out of memory ends the program
  in \<open>load\<close> and is not modelled.
\<close>

record host =
  hs_name :: bytes
  hs_ctx :: nat

record table =
  t_refs :: nat
  t_hosts :: "host list"
  t_fallback :: "nat option"

record certs =
  tabs :: "nat \<rightharpoonup> table"
  ctxs :: "nat \<Rightarrow> nat"
  serving :: nat


section \<open>The choice of a host\<close>

definition fold_byte :: "byte \<Rightarrow> byte" where
  "fold_byte c = (if 65 \<le> byte_val c \<and> byte_val c \<le> 90 then char_of (byte_val c + 32) else c)"

fun same_folded :: "bytes \<Rightarrow> bytes \<Rightarrow> bool" where
  "same_folded (a # as) (b # bs) = (if fold_byte a \<noteq> fold_byte b then False else same_folded as bs)"
| "same_folded _ _ = True"

definition host_eq :: "bytes \<Rightarrow> bytes \<Rightarrow> bool" where
  "host_eq a b = (if length b \<noteq> length a then False else same_folded a b)"

fun first_host :: "bytes \<Rightarrow> host list \<Rightarrow> nat option" where
  "first_host name [] = None"
| "first_host name (h # hs) = (if host_eq name (hs_name h) then Some (hs_ctx h) else first_host name hs)"

definition lookup_host :: "table \<Rightarrow> bytes \<Rightarrow> nat option" where
  "lookup_host t name =
     (let name = (if length name > 1 \<and> last name = CHR ''.'' then butlast name else name) in
      case first_host name (t_hosts t) of
        Some c \<Rightarrow> Some c
      | None \<Rightarrow>
          (case memchr (CHR ''.'') name of
             None \<Rightarrow> None
           | Some dot \<Rightarrow>
               let rest = length name - dot in
               if rest + 1 < 256 then first_host (CHR ''_'' # drop dot name) (t_hosts t) else None))"

text \<open>The context to switch to; \<open>ext\<close> is the server name extension of the ClientHello, if it has one.\<close>

definition on_client_hello :: "table option \<Rightarrow> bytes option \<Rightarrow> nat option" where
  "on_client_hello t ext =
     (case (t, ext) of
        (Some t, Some ext) \<Rightarrow>
          if length ext < 5 then None
          else
            let list_len = byte_val (ext ! 0) * 256 + byte_val (ext ! 1);
                name_len = byte_val (ext ! 3) * 256 + byte_val (ext ! 4)
            in if byte_val (ext ! 2) \<noteq> 0 \<or> name_len + 3 \<noteq> list_len \<or> list_len + 2 \<noteq> length ext then None
               else lookup_host t (take name_len (drop 5 ext))
      | _ \<Rightarrow> None)"


section \<open>Loading\<close>

text \<open>
  An entry of the directory: whether both files are there, the context \<open>context_for\<close> makes of them, and the two times of its certificate
  compared with now as \<open>X509_cmp_time\<close> does, if there is a certificate.
\<close>

record dirent =
  d_name :: bytes
  d_files :: bool
  d_made :: "nat option"
  d_valid :: "(int \<times> int) option"

definition not_current :: "(int \<times> int) option \<Rightarrow> bytes option" where
  "not_current x =
     (case x of
        None \<Rightarrow> Some ''no certificate in the chain''
      | Some (before, after) \<Rightarrow>
          if before = 0 \<or> after = 0 then Some ''a validity period that does not parse''
          else if before > 0 then Some ''not valid yet: notBefore is in the future''
          else if after < 0 then Some ''expired: notAfter has passed''
          else None)"

definition cert_current :: "dirent \<Rightarrow> bool" where
  "cert_current e \<longleftrightarrow> not_current (d_valid e) = None"

abbreviation PATH_MAX :: nat where "PATH_MAX \<equiv> 4096"

definition ctx_free :: "nat \<Rightarrow> (nat \<Rightarrow> nat) \<Rightarrow> nat \<Rightarrow> nat" where
  "ctx_free c refs = refs(c := refs c - 1)"

definition ctx_up_ref :: "nat \<Rightarrow> (nat \<Rightarrow> nat) \<Rightarrow> nat \<Rightarrow> nat" where
  "ctx_up_ref c refs = refs(c := refs c + 1)"

text \<open>The context a host had, referenced once more for the new table.\<close>

fun carried :: "bytes \<Rightarrow> host list \<Rightarrow> nat option \<Rightarrow> (nat \<Rightarrow> nat) \<Rightarrow> nat option \<times> (nat \<Rightarrow> nat)" where
  "carried name [] c refs = (c, refs)"
| "carried name (h # hs) c refs =
     (if hs_name h = name then carried name hs (Some (hs_ctx h)) (ctx_up_ref (hs_ctx h) refs) else carried name hs c refs)"

definition add_host :: "bytes \<Rightarrow> nat \<Rightarrow> table \<Rightarrow> table" where
  "add_host name c t =
     (let t = t\<lparr>t_hosts := t_hosts t @ [\<lparr>hs_name = name, hs_ctx = c\<rparr>]\<rparr>
      in if name = ''default'' then t\<lparr>t_fallback := Some c\<rparr> else t)"

definition load_one :: "bytes \<Rightarrow> table option \<Rightarrow> dirent \<Rightarrow> table \<times> (nat \<Rightarrow> nat) \<Rightarrow> table \<times> (nat \<Rightarrow> nat)" where
  "load_one dir old e = (\<lambda>(t, refs).
     if take 1 (d_name e) = ''.'' then (t, refs)
     else if length dir + 1 + length (d_name e) + 9 \<ge> PATH_MAX then (t, refs)
     else if \<not> d_files e then (t, refs)
     else
       let (c, refs) = (case d_made e of
              None \<Rightarrow> (None, refs)
            | Some c \<Rightarrow>
                let refs = refs(c := 1) in
                if cert_current e then (Some c, refs) else (None, ctx_free c refs));
           (c, refs) = (case c of
              Some c \<Rightarrow> (Some c, refs)
            | None \<Rightarrow> (case old of None \<Rightarrow> (None, refs) | Some old \<Rightarrow> carried (d_name e) (t_hosts old) None refs))
       in case c of None \<Rightarrow> (t, refs) | Some c \<Rightarrow> (add_host (d_name e) c t, refs))"

definition table_free :: "table \<Rightarrow> (nat \<Rightarrow> nat) \<Rightarrow> nat \<Rightarrow> nat" where
  "table_free t refs = fold (\<lambda>h. ctx_free (hs_ctx h)) (t_hosts t) refs"

fun fallback_name :: "nat option \<Rightarrow> host list \<Rightarrow> bytes option" where
  "fallback_name f [] = None"
| "fallback_name f (h # hs) = (if Some (hs_ctx h) = f then Some (hs_name h) else fallback_name f hs)"

fun host_named :: "bytes \<Rightarrow> host list \<Rightarrow> nat option" where
  "host_named name [] = None"
| "host_named name (h # hs) = (if hs_name h = name then Some (hs_ctx h) else host_named name hs)"

text \<open>The table of a directory, \<open>None\<close> when it cannot serve; \<open>es\<close> is \<open>None\<close> when the directory cannot be read.\<close>

definition load_table :: "bytes \<Rightarrow> table option \<Rightarrow> dirent list option \<Rightarrow> (nat \<Rightarrow> nat) \<Rightarrow> table option \<times> (nat \<Rightarrow> nat)" where
  "load_table dir old es refs =
     (case es of
        None \<Rightarrow> (None, refs)
      | Some es \<Rightarrow>
          let (t, refs) = fold (load_one dir old) es (\<lparr>t_refs = 1, t_hosts = [], t_fallback = None\<rparr>, refs) in
          if t_hosts t = [] then (None, table_free t refs)
          else if t_fallback t \<noteq> None then (Some t, refs)
          else
            case (case old of None \<Rightarrow> None | Some old \<Rightarrow> fallback_name (t_fallback old) (t_hosts old)) of
              None \<Rightarrow> (None, table_free t refs)
            | Some prev \<Rightarrow>
                (case host_named prev (t_hosts t) of
                   None \<Rightarrow> (None, table_free t refs)
                 | Some c \<Rightarrow> (Some (t\<lparr>t_fallback := Some c\<rparr>), refs)))"

text \<open>A new store; its table is at \<open>a\<close>.\<close>

definition ioxd_certs_load :: "bytes \<Rightarrow> bool \<Rightarrow> dirent list option \<Rightarrow> nat \<Rightarrow> (nat \<Rightarrow> nat) \<Rightarrow> certs option \<times> (nat \<Rightarrow> nat)" where
  "ioxd_certs_load dir calloc_ok es a refs =
     (case load_table dir None es refs of
        (None, refs) \<Rightarrow> (None, refs)
      | (Some t, refs) \<Rightarrow>
          if \<not> calloc_ok then (None, table_free t refs)
          else (Some \<lparr>tabs = [a \<mapsto> t], ctxs = refs, serving = a\<rparr>, refs))"


section \<open>References\<close>

definition ioxd__certs_acquire :: "certs \<Rightarrow> nat \<times> certs" where
  "ioxd__certs_acquire s =
     (let t = the (tabs s (serving s))
      in (serving s, s\<lparr>tabs := (tabs s)(serving s \<mapsto> t\<lparr>t_refs := t_refs t + 1\<rparr>)\<rparr>))"

definition ioxd__certs_release :: "nat \<Rightarrow> certs \<Rightarrow> certs" where
  "ioxd__certs_release a s =
     (let t = the (tabs s a); t = t\<lparr>t_refs := t_refs t - 1\<rparr> in
      if t_refs t = 0 then s\<lparr>ctxs := table_free t (ctxs s), tabs := (tabs s)(a := None)\<rparr>
      else s\<lparr>tabs := (tabs s)(a \<mapsto> t)\<rparr>)"

definition ioxd__certs_fallback :: "table \<Rightarrow> nat option" where
  "ioxd__certs_fallback t = t_fallback t"

text \<open>
  A reload takes a reference to the table serving now, reads the directory, and swaps.  Other threads take and return references in
  between, so it is two steps; a new table is at \<open>a\<close>.
\<close>

definition reload_begin :: "certs \<Rightarrow> nat \<times> certs" where
  "reload_begin s = ioxd__certs_acquire s"

definition reload_end :: "bytes \<Rightarrow> dirent list option \<Rightarrow> nat \<Rightarrow> nat \<Rightarrow> certs \<Rightarrow> int \<times> certs" where
  "reload_end dir es a old s =
     (let (fresh, refs) = load_table dir (tabs s old) es (ctxs s);
          s = s\<lparr>ctxs := refs\<rparr>
      in case fresh of
           None \<Rightarrow> (- 1, ioxd__certs_release old s)
         | Some t \<Rightarrow>
             let s = s\<lparr>tabs := (tabs s)(a \<mapsto> t)\<rparr>;
                 s = s\<lparr>serving := a\<rparr>;
                 s = ioxd__certs_release old s
             in (0, ioxd__certs_release old s))"

definition ioxd_certs_free :: "certs \<Rightarrow> certs" where
  "ioxd_certs_free s = ioxd__certs_release (serving s) s"



section \<open>A server name picks its host\<close>

text \<open>The extension for one host name.\<close>

definition sni :: "bytes \<Rightarrow> bytes" where
  "sni name = [char_of ((length name + 3) div 256), char_of ((length name + 3) mod 256), NUL, char_of (length name div 256), char_of (length name mod 256)] @ name"

definition without_root :: "bytes \<Rightarrow> bytes" where
  "without_root name = (if length name > 1 \<and> last name = CHR ''.'' then butlast name else name)"

definition host_for :: "bytes \<Rightarrow> host list \<Rightarrow> nat option" where
  "host_for name hs = map_option hs_ctx (find (\<lambda>h. map fold_byte (hs_name h) = map fold_byte name) hs)"

lemma same_folded_iff: "length a = length b \<Longrightarrow> same_folded a b = (map fold_byte a = map fold_byte b)"
  by (induction a b rule: list_induct2) auto

lemma first_host_for: "first_host name hs = host_for name hs"
proof (induction hs)
  case (Cons h hs)
  have "host_eq name (hs_name h) = (map fold_byte (hs_name h) = map fold_byte name)"
    using same_folded_iff[of name "hs_name h"] by (auto simp: host_eq_def dest: map_eq_imp_length_eq)
  then show ?case using Cons by (simp add: host_for_def)
qed (simp add: host_for_def)

lemma memchr_takeWhile: "memchr c bs = (if c \<in> set bs then Some (length (takeWhile (\<lambda>b. b \<noteq> c) bs)) else None)"
  by (induction bs) auto

lemma drop_takeWhile: "drop (length (takeWhile P xs)) xs = dropWhile P xs"
  by (simp add: dropWhile_eq_drop)

lemma lookup_host_spec:
  "lookup_host t name =
    (let n = without_root name; domain = dropWhile (\<lambda>b. b \<noteq> CHR ''.'') n in
     case host_for n (t_hosts t) of Some c \<Rightarrow> Some c
     | None \<Rightarrow> if CHR ''.'' \<in> set n \<and> length domain < 255 then host_for (CHR ''_'' # domain) (t_hosts t) else None)"
proof -
  define n where "n = without_root name"
  define dom where "dom = dropWhile (\<lambda>b. b \<noteq> CHR ''.'') n"
  have d: "drop (length (takeWhile (\<lambda>b. b \<noteq> CHR ''.'') n)) n = dom" "length n - length (takeWhile (\<lambda>b. b \<noteq> CHR ''.'') n) = length dom"
    by (simp_all add: dom_def drop_takeWhile flip: length_drop)
  have "lookup_host t name = (case first_host n (t_hosts t) of Some c \<Rightarrow> Some c | None \<Rightarrow>
      (case memchr (CHR ''.'') n of None \<Rightarrow> None | Some dot \<Rightarrow>
        if length n - dot + 1 < 256 then first_host (CHR ''_'' # drop dot n) (t_hosts t) else None))"
    unfolding lookup_host_def n_def without_root_def Let_def by (rule refl)
  then show ?thesis unfolding memchr_takeWhile first_host_for Let_def n_def[symmetric] dom_def[symmetric]
    using d by (auto split: option.split)
qed

lemma hello_sni:
  assumes "length name + 3 < 65536"
  shows "on_client_hello (Some t) (Some (sni name)) = lookup_host t name"
proof -
  have "(length name + 3) div 256 < 256" "length name div 256 < 256" using assms by auto
  then show ?thesis by (simp add: on_client_hello_def sni_def)
qed

lemma hello_only_sni:
  assumes "on_client_hello (Some t) (Some ext) = Some c"
  obtains name where "ext = sni name" "length name + 3 < 65536"
proof -
  obtain a b d e f name where x: "ext = a # b # d # e # f # name"
    using assms by (cases ext; cases "tl ext"; cases "tl (tl ext)"; cases "tl (tl (tl ext))"; cases "tl (tl (tl (tl ext)))") (auto simp: on_client_hello_def)
  have l: "byte_val d = 0" "byte_val e * 256 + byte_val f + 3 = byte_val a * 256 + byte_val b" "byte_val a * 256 + byte_val b + 2 = length ext"
    using assms by (auto simp: on_client_hello_def Let_def x split: if_splits)
  have bv: "byte_val z < 256" "char_of (byte_val z) = z" for z by simp_all
  have n: "length name = byte_val e * 256 + byte_val f" "length name + 3 = byte_val a * 256 + byte_val b" using l x by simp_all
  have "(length name + 3) div 256 = byte_val a" "(length name + 3) mod 256 = byte_val b" "length name div 256 = byte_val e" "length name mod 256 = byte_val f"
    using bv(1)[of b] bv(1)[of f] by (simp_all add: n(2)) (simp_all add: n(1))
  moreover have "byte_val NUL = 0" by simp
  then have "NUL = d" using l(1) by (metis char_of_char)
  ultimately have "ext = sni name" using x unfolding sni_def by simp
  moreover have "length name + 3 < 65536" using n(2) bv[of a] bv[of b] by linarith
  ultimately show ?thesis by (rule that)
qed


text \<open>
  C37. A ClientHello picks its host.  A server name extension with one host name, up to the length the extension has room for, leads to the host of that
  name, case and the root dot aside, else to the wildcard host of its parent domain when that fits, else to none, and the fallback answers; an
  extension of any other form leads to none.
\<close>

theorem client_hello_picks_the_host:
  "(\<forall>name. if length name + 3 < 65536 then on_client_hello (Some t) (Some (sni name)) =
      (let n = without_root name; domain = dropWhile (\<lambda>b. b \<noteq> CHR ''.'') n in
       case host_for n (t_hosts t) of Some c \<Rightarrow> Some c
       | None \<Rightarrow> if CHR ''.'' \<in> set n \<and> length domain < 255 then host_for (CHR ''_'' # domain) (t_hosts t) else None) else True) \<and>
   (\<forall>ext. on_client_hello (Some t) (Some ext) = None \<or> (\<exists>name. ext = sni name \<and> length name + 3 < 65536)) \<and> on_client_hello (Some t) None = None"
proof -
  have "on_client_hello (Some t) (Some ext) = None \<or> (\<exists>name. ext = sni name \<and> length name + 3 < 65536)" for ext
    by (cases "on_client_hello (Some t) (Some ext)") (simp, metis hello_only_sni)
  moreover have "on_client_hello (Some t) None = None" by (simp add: on_client_hello_def)
  ultimately show ?thesis using hello_sni lookup_host_spec by simp
qed


section \<open>References\<close>

definition uses :: "table \<Rightarrow> nat \<Rightarrow> nat" where
  "uses t c = count_list (map hs_ctx (t_hosts t)) c"

definition table_ok :: "table \<Rightarrow> bool" where
  "table_ok t \<longleftrightarrow> distinct (map hs_name (t_hosts t)) \<and> (\<exists>h \<in> set (t_hosts t). t_fallback t = Some (hs_ctx h))"

text \<open>A directory as it can be: no name twice, and a context that is made was not in use.\<close>

definition made :: "dirent list \<Rightarrow> nat list" where
  "made es = concat (map (\<lambda>e. case d_made e of None \<Rightarrow> [] | Some c \<Rightarrow> [c]) es)"

definition entries_ok :: "dirent list \<Rightarrow> (nat \<Rightarrow> nat) \<Rightarrow> bool" where
  "entries_ok es refs \<longleftrightarrow> distinct (map d_name es) \<and> distinct (made es) \<and> (\<forall>c \<in> set (made es). refs c = 0)"

lemma ctx_simps [simp]: "ctx_free c refs = refs(c := refs c - 1)" "ctx_up_ref c refs = refs(c := refs c + 1)"
  by (simp_all add: ctx_free_def ctx_up_ref_def)

lemma table_free_refs: "table_free t refs c = refs c - uses t c"
proof -
  have "fold (\<lambda>h. ctx_free (hs_ctx h)) hs refs c = refs c - count_list (map hs_ctx hs) c" for hs
    by (induction hs arbitrary: refs) auto
  then show ?thesis by (simp add: table_free_def uses_def)
qed

lemma carried_none: "name \<notin> hs_name ` set hs \<Longrightarrow> carried name hs c refs = (c, refs)"
  by (induction hs arbitrary: c refs) auto

lemma carried_ok:
  assumes "distinct (map hs_name hs)" and "carried name hs None refs = (r, refs')"
  shows "(r = None \<and> refs' = refs) \<or> (\<exists>h \<in> set hs. r = Some (hs_ctx h) \<and> refs' = refs(hs_ctx h := refs (hs_ctx h) + 1))"
  using assms by (induction hs) (auto simp: carried_none split: if_splits)

lemma made_Cons: "made (e # es) = (case d_made e of None \<Rightarrow> [] | Some c \<Rightarrow> [c]) @ made es"
  by (simp add: made_def)


text \<open>
  While a directory is read: the new table's hosts account for what the references grew by, and nothing of the entries to come is in use yet.
\<close>

definition loading :: "(nat \<Rightarrow> nat) \<Rightarrow> dirent list \<Rightarrow> table \<times> (nat \<Rightarrow> nat) \<Rightarrow> bool" where
  "loading base es = (\<lambda>(t, refs).
     (\<forall>c. refs c = base c + uses t c) \<and> distinct (map hs_name (t_hosts t) @ map d_name es) \<and> distinct (made es) \<and>
     (\<forall>c \<in> set (made es). base c = 0 \<and> uses t c = 0) \<and> (\<forall>c. t_fallback t = Some c \<longrightarrow> c \<in> hs_ctx ` set (t_hosts t)) \<and> t_refs t = 1)"

lemma uses_add [simp]: "uses (add_host name c t) c' = uses t c' + (if c' = c then 1 else 0)"
  by (simp add: uses_def add_host_def Let_def)

lemma add_host_simps [simp]:
  "t_hosts (add_host name c t) = t_hosts t @ [\<lparr>hs_name = name, hs_ctx = c\<rparr>]" "t_refs (add_host name c t) = t_refs t"
  "t_fallback (add_host name c t) = (if name = ''default'' then Some c else t_fallback t)"
  by (simp_all add: add_host_def Let_def)

lemma loading_add:
  assumes "loading base (e # es) (t, refs)" and "\<forall>c'. refs' c' = refs c' + (if c' = c then 1 else 0)" and "c \<notin> set (made es)"
  shows "loading base es (add_host (d_name e) c t, refs')"
  using assms by (auto simp: loading_def made_Cons split: option.splits)

lemma loading_skip: "loading base (e # es) (t, refs) \<Longrightarrow> loading base es (t, refs)"
  by (auto simp: loading_def made_Cons)

lemma load_one_ok:
  assumes L: "loading base (e # es) (t, refs)" and o: "\<And>old'. old = Some old' \<Longrightarrow> distinct (map hs_name (t_hosts old')) \<and> (\<forall>h \<in> set (t_hosts old'). 0 < base (hs_ctx h))"
  shows "loading base es (load_one dir old e (t, refs))"
proof (cases "take 1 (d_name e) = ''.'' \<or> length dir + 1 + length (d_name e) + 9 \<ge> PATH_MAX \<or> \<not> d_files e")
  case True
  then show ?thesis using loading_skip[OF L] by (auto simp: load_one_def)
next
  case False
  define c refs1 where "c = (if cert_current e then d_made e else None)" and "refs1 = (case d_made e of Some c \<Rightarrow> if cert_current e then refs(c := 1) else refs(c := 0) | None \<Rightarrow> refs)"
  define cr where "cr = (case c of Some c \<Rightarrow> (Some c, refs1) | None \<Rightarrow> (case old of None \<Rightarrow> (None, refs1) | Some old \<Rightarrow> carried (d_name e) (t_hosts old) None refs1))"
  have E: "load_one dir old e (t, refs) = (case fst cr of None \<Rightarrow> (t, snd cr) | Some c \<Rightarrow> (add_host (d_name e) c t, snd cr))"
    using False by (simp add: load_one_def cr_def c_def refs1_def Let_def split: option.split prod.split)
  have z: "refs c = 0" "base c = 0" "c \<notin> set (made es)" if "d_made e = Some c" for c using L that by (auto simp: loading_def made_Cons)
  show ?thesis
  proof (cases c)
    case (Some c1)
    then have m: "d_made e = Some c1" "cert_current e" by (auto simp: c_def split: if_splits)
    have "loading base es (add_host (d_name e) c1 t, refs1)" by (rule loading_add[OF L]) (use z[OF m(1)] m in \<open>auto simp: refs1_def\<close>)
    then show ?thesis using E Some by (simp add: cr_def)
  next
    case None
    have r1: "refs1 = refs" using None z by (auto simp: refs1_def c_def fun_eq_iff split: option.splits if_splits)
    obtain r refs2 where cr: "cr = (r, refs2)" by fastforce
    have "r = None \<and> refs2 = refs \<or> (\<exists>c. r = Some c \<and> 0 < base c \<and> refs2 = refs(c := refs c + 1))"
    proof (cases old)
      case (Some old')
      then have "carried (d_name e) (t_hosts old') None refs = (r, refs2)" using cr None r1 by (simp add: cr_def)
      then show ?thesis using carried_ok[of "t_hosts old'"] o[OF Some] by fastforce
    qed (use cr None r1 in \<open>simp add: cr_def\<close>)
    then consider "r = None" "refs2 = refs" | c1 where "r = Some c1" "0 < base c1" "refs2 = refs(c1 := refs c1 + 1)" by blast
    then show ?thesis
    proof cases
      case 1
      then show ?thesis using E cr loading_skip[OF L] by simp
    next
      case (2 c1)
      have "c1 \<notin> set (made es)" using L 2(2) by (auto simp: loading_def made_Cons)
      then have "loading base es (add_host (d_name e) c1 t, refs2)" by (intro loading_add[OF L]) (use 2 in auto)
      then show ?thesis using E cr 2(1) by simp
    qed
  qed
qed

lemma load_fold_ok:
  assumes "loading base es tr" and "\<And>old'. old = Some old' \<Longrightarrow> distinct (map hs_name (t_hosts old')) \<and> (\<forall>h \<in> set (t_hosts old'). 0 < base (hs_ctx h))"
  shows "loading base [] (fold (load_one dir old) es tr)"
  using assms
proof (induction es arbitrary: tr)
  case (Cons e es)
  then show ?case using load_one_ok[of base e es "fst tr" "snd tr" old dir] by simp
qed simp

lemma load_table_ok:
  assumes "\<And>es'. es = Some es' \<Longrightarrow> entries_ok es' refs" and "\<And>old'. old = Some old' \<Longrightarrow> distinct (map hs_name (t_hosts old')) \<and> (\<forall>h \<in> set (t_hosts old'). 0 < refs (hs_ctx h))"
    and "load_table dir old es refs = (r, refs')"
  shows "case r of None \<Rightarrow> refs' = refs | Some t \<Rightarrow> table_ok t \<and> t_refs t = 1 \<and> (\<forall>c. refs' c = refs c + uses t c)"
proof (cases es)
  case None
  then show ?thesis using assms(3) by (auto simp: load_table_def)
next
  case (Some es')
  obtain t refs1 where f: "fold (load_one dir old) es' (\<lparr>t_refs = 1, t_hosts = [], t_fallback = None\<rparr>, refs) = (t, refs1)" by fastforce
  have "loading refs es' (\<lparr>t_refs = 1, t_hosts = [], t_fallback = None\<rparr>, refs)" using assms(1)[OF Some] by (auto simp: loading_def entries_ok_def uses_def)
  then have L: "loading refs [] (t, refs1)" using load_fold_ok[of refs es' _ old dir] assms(2) f by metis
  then have rf: "refs1 c = refs c + uses t c" for c by (simp add: loading_def)
  then have fr: "table_free t refs1 = refs" by (auto simp: table_free_refs)
  have hn: "host_named p hs = Some c \<Longrightarrow> \<exists>h \<in> set hs. hs_ctx h = c" for p hs c by (induction hs) (auto split: if_splits)
  have tf: "table_ok t" if "t_fallback t = Some c" for c using L that by (fastforce simp: loading_def table_ok_def)
  have tn: "table_ok (t\<lparr>t_fallback := Some c\<rparr>)" if "host_named p (t_hosts t) = Some c" for p c using L hn[OF that] by (auto simp: loading_def table_ok_def)
  show ?thesis using assms(3) Some f fr rf tf tn L
    by (auto simp: load_table_def loading_def uses_def split: option.splits if_splits prod.splits)
qed


text \<open>Who holds a table: the store the one that serves, a reload the one it started from, and the handshakes.\<close>

definition holders :: "certs \<Rightarrow> nat multiset \<Rightarrow> nat option \<Rightarrow> nat multiset" where
  "holders s hs r = add_mset (serving s) (hs + (case r of None \<Rightarrow> {#} | Some t \<Rightarrow> {#t#}))"

definition refs_ok :: "certs \<Rightarrow> nat multiset \<Rightarrow> bool" where
  "refs_ok s M \<longleftrightarrow> finite (dom (tabs s)) \<and> dom (tabs s) = set_mset M \<and>
     (\<forall>a t. tabs s a = Some t \<longrightarrow> t_refs t = count M a \<and> table_ok t) \<and>
     (\<forall>c. ctxs s c = (\<Sum>a \<in> dom (tabs s). uses (the (tabs s a)) c))"

lemma uses_refs [simp]: "uses (t\<lparr>t_refs := n\<rparr>) c = uses t c" "table_ok (t\<lparr>t_refs := n\<rparr>) = table_ok t"
  by (simp_all add: uses_def table_ok_def)

lemma sum_same_uses: "(\<And>b. b \<in> D \<Longrightarrow> uses (the (f b)) c = uses (the (g b)) c) \<Longrightarrow> (\<Sum>b \<in> D. uses (the (f b)) c) = (\<Sum>b \<in> D. uses (the (g b)) c)"
  by (rule sum.cong) auto

lemma acquire_ok:
  assumes "refs_ok s M" "serving s \<in># M" "ioxd__certs_acquire s = (a, s')"
  shows "refs_ok s' (add_mset a M)" "a = serving s" "serving s' = serving s"
proof -
  obtain t where t: "tabs s (serving s) = Some t" using assms(1,2) unfolding refs_ok_def by blast
  define t' where "t' = t\<lparr>t_refs := t_refs t + 1\<rparr>"
  have t': "t_refs t' = count M (serving s) + 1" "table_ok t'" "\<And>c. uses t' c = uses t c" using assms(1) t by (auto simp: t'_def refs_ok_def)
  have s': "a = serving s" "s' = s\<lparr>tabs := (tabs s)(serving s \<mapsto> t')\<rparr>" using assms(3) t by (auto simp: ioxd__certs_acquire_def Let_def t'_def)
  then show "a = serving s" "serving s' = serving s" by simp_all
  have d: "dom (tabs s') = dom (tabs s)" using t by (auto simp: s'(2))
  have "(\<Sum>b \<in> dom (tabs s). uses (the (tabs s' b)) c) = (\<Sum>b \<in> dom (tabs s). uses (the (tabs s b)) c)" for c
    using t t'(3) by (auto simp: s'(2) intro!: sum_same_uses)
  then have "ctxs s' c = (\<Sum>b \<in> dom (tabs s'). uses (the (tabs s' b)) c)" for c
    unfolding d using assms(1) by (simp add: refs_ok_def s'(2))
  moreover have "t_refs u = count (add_mset a M) b \<and> table_ok u" if "tabs s' b = Some u" for b u
    using assms(1) that t' s' by (auto simp: refs_ok_def split: if_splits)
  moreover have "finite (dom (tabs s'))" "dom (tabs s') = set_mset (add_mset a M)" using assms(1,2) d s'(1) by (auto simp: refs_ok_def)
  ultimately show "refs_ok s' (add_mset a M)" unfolding refs_ok_def by blast
qed

lemma release_serving [simp]: "serving (ioxd__certs_release a s) = serving s"
  by (simp add: ioxd__certs_release_def Let_def)

lemma certs_release_ok:
  assumes R: "refs_ok s (add_mset a M)"
  shows "refs_ok (ioxd__certs_release a s) M"
proof -
  obtain t where t: "tabs s a = Some t" "t_refs t = count M a + 1" "table_ok t" using R by (auto simp: refs_ok_def dom_def set_eq_iff) blast
  have fin: "finite (dom (tabs s))" and d: "dom (tabs s) = insert a (set_mset M)" using R by (auto simp: refs_ok_def)
  have cs: "ctxs s c = (\<Sum>b \<in> dom (tabs s). uses (the (tabs s b)) c)" for c using R by (simp add: refs_ok_def)
  show "refs_ok (ioxd__certs_release a s) M"
  proof (cases "a \<in># M")
    case True
    define t' s' where "t' = t\<lparr>t_refs := t_refs t - 1\<rparr>" and "s' = s\<lparr>tabs := (tabs s)(a \<mapsto> t')\<rparr>"
    have s': "ioxd__certs_release a s = s'" using t True by (simp add: ioxd__certs_release_def Let_def t'_def s'_def count_eq_zero_iff)
    have t': "t_refs t' = count M a" "table_ok t'" "\<And>c. uses t' c = uses t c" using t by (auto simp: t'_def)
    have d': "dom (tabs s') = dom (tabs s)" using t by (auto simp: s'_def)
    have "(\<Sum>b \<in> dom (tabs s). uses (the (tabs s' b)) c) = (\<Sum>b \<in> dom (tabs s). uses (the (tabs s b)) c)" for c
      using t t'(3) by (auto simp: s'_def intro!: sum_same_uses)
    then have "ctxs s' c = (\<Sum>b \<in> dom (tabs s'). uses (the (tabs s' b)) c)" for c unfolding d' by (simp add: cs s'_def)
    moreover have "t_refs u = count M b \<and> table_ok u" if "tabs s' b = Some u" for b u using R that t' by (auto simp: refs_ok_def s'_def split: if_splits)
    moreover have "finite (dom (tabs s'))" "dom (tabs s') = set_mset M" using d' d fin True by auto
    ultimately show ?thesis unfolding s' refs_ok_def by blast
  next
    case False
    then have s': "ioxd__certs_release a s = s\<lparr>ctxs := table_free (t\<lparr>t_refs := 0\<rparr>) (ctxs s), tabs := (tabs s)(a := None)\<rparr>"
      using t by (simp add: ioxd__certs_release_def Let_def not_in_iff)
    have d': "dom ((tabs s)(a := None)) = dom (tabs s) - {a}" "dom (tabs s) - {a} = set_mset M" using d False by auto
    have "table_free (t\<lparr>t_refs := 0\<rparr>) (ctxs s) c = (\<Sum>b \<in> dom (tabs s) - {a}. uses (the (((tabs s)(a := None)) b)) c)" for c
    proof -
      have "ctxs s c = uses t c + (\<Sum>b \<in> dom (tabs s) - {a}. uses (the (tabs s b)) c)" unfolding cs using fin t by (simp add: sum.remove[of _ a] domI)
      then show ?thesis by (simp add: table_free_refs)
    qed
    then show ?thesis using R t d' fin False unfolding s' refs_ok_def by (auto split: if_splits)
  qed
qed


text \<open>The contexts of a table that is there are alive.\<close>

lemma ctx_alive:
  assumes R: "refs_ok s M" and t: "tabs s a = Some t" and h: "h \<in> set (t_hosts t)"
  shows "0 < ctxs s (hs_ctx h)"
proof -
  have "0 < uses t (hs_ctx h)" using h by (simp add: uses_def count_list_0_iff flip: neq0_conv)
  moreover have "uses t (hs_ctx h) \<le> (\<Sum>b \<in> dom (tabs s). uses (the (tabs s b)) (hs_ctx h))"
    using member_le_sum[of a "dom (tabs s)" "\<lambda>b. uses (the (tabs s b)) (hs_ctx h)"] R t by (auto simp: refs_ok_def)
  ultimately show ?thesis using R by (simp add: refs_ok_def)
qed

text \<open>A new table becomes the one that serves.\<close>

lemma publish_ok:
  assumes R: "refs_ok s M" and a: "tabs s a = None" and t: "table_ok t" "t_refs t = 1" "\<And>c. refs' c = ctxs s c + uses t c"
  shows "refs_ok (s\<lparr>ctxs := refs', tabs := (tabs s)(a \<mapsto> t), serving := a\<rparr>) (add_mset a M)"
proof -
  let ?s = "s\<lparr>ctxs := refs', tabs := (tabs s)(a \<mapsto> t), serving := a\<rparr>"
  have n: "a \<notin> dom (tabs s)" "finite (dom (tabs s))" and "set_mset M = dom (tabs s)" using R a by (auto simp: refs_ok_def)
  then have m: "count M a = 0" by (simp add: count_eq_zero_iff)
  have "(\<Sum>b \<in> dom (tabs s). uses (the (((tabs s)(a \<mapsto> t)) b)) c) = (\<Sum>b \<in> dom (tabs s). uses (the (tabs s b)) c)" for c
    by (rule sum_same_uses) (metis fun_upd_other n(1))
  then have "ctxs ?s c = (\<Sum>b \<in> dom (tabs ?s). uses (the (tabs ?s b)) c)" for c using R n t(3) by (simp add: refs_ok_def)
  moreover have "t_refs u = count (add_mset a M) b \<and> table_ok u" if "tabs ?s b = Some u" for b u
    using R that t(1,2) m by (auto simp: refs_ok_def split: if_splits)
  moreover have "finite (dom (tabs ?s))" "dom (tabs ?s) = set_mset (add_mset a M)" using R by (auto simp: refs_ok_def)
  ultimately show ?thesis unfolding refs_ok_def by blast
qed

text \<open>
  The steps of a program on a store: \<open>hs\<close> has the tables the handshakes in flight hold, \<open>r\<close> the one a reload started from.  A reload may be
  interleaved with any handshakes.
\<close>

inductive certs_run :: "certs \<Rightarrow> nat multiset \<Rightarrow> nat option \<Rightarrow> bool" where
  start: "(\<And>es'. es = Some es' \<Longrightarrow> entries_ok es' (\<lambda>_. 0)) \<Longrightarrow> ioxd_certs_load dir True es a (\<lambda>_. 0) = (Some s, refs) \<Longrightarrow> certs_run s {#} None"
| acquire: "certs_run s hs r \<Longrightarrow> ioxd__certs_acquire s = (a, s') \<Longrightarrow> certs_run s' (add_mset a hs) r"
| release: "certs_run s (add_mset a hs) r \<Longrightarrow> certs_run (ioxd__certs_release a s) hs r"
| reload_begin: "certs_run s hs None \<Longrightarrow> reload_begin s = (a, s') \<Longrightarrow> certs_run s' hs (Some a)"
| reload_end: "certs_run s hs (Some old) \<Longrightarrow> tabs s a = None \<Longrightarrow> (\<And>es'. es = Some es' \<Longrightarrow> entries_ok es' (ctxs s)) \<Longrightarrow>
    reload_end dir es a old s = (rc, s') \<Longrightarrow> certs_run s' hs None"

text \<open>A reload runs alone, so the table it started from is still the one that serves when it ends.\<close>

lemma certs_run_ok: "certs_run s hs r \<Longrightarrow> refs_ok s (holders s hs r) \<and> (\<forall>t. r = Some t \<longrightarrow> t = serving s)"
proof (induction rule: certs_run.induct)
  case (start es dir a s refs)
  obtain r refs1 where l: "load_table dir None es (\<lambda>_. 0) = (r, refs1)" by fastforce
  obtain t where t: "r = Some t" and s: "s = \<lparr>tabs = [a \<mapsto> t], ctxs = refs1, serving = a\<rparr>" using start(2) l by (cases r) (auto simp: ioxd_certs_load_def)
  have "table_ok t \<and> t_refs t = 1 \<and> (\<forall>c. refs1 c = uses t c)" using load_table_ok[OF start(1) _ l] t by simp
  then show ?case by (simp add: s refs_ok_def holders_def)
next
  case (acquire s hs r a s')
  have "serving s \<in># holders s hs r" by (simp add: holders_def)
  then show ?case using acquire_ok[OF _ _ acquire.hyps(2), of "holders s hs r"] acquire.IH by (simp add: holders_def add_mset_commute)
next
  case (release s a hs r)
  then show ?case using certs_release_ok[of s a "holders s hs r"] by (simp add: holders_def add_mset_commute)
next
  case (reload_begin s hs a s')
  have "serving s \<in># holders s hs None" by (simp add: holders_def)
  then show ?case using acquire_ok[of s "holders s hs None" a s'] reload_begin by (simp add: holders_def reload_begin_def add_mset_commute)
next
  case (reload_end s hs old a es dir rc s')
  let ?M = "holders s hs (Some old)"
  have R: "refs_ok s ?M" and o: "old = serving s" using reload_end.IH by auto
  have "old \<in> dom (tabs s)" using R o by (simp add: refs_ok_def holders_def)
  then obtain t0 where t0: "tabs s old = Some t0" by blast
  have pos: "0 < ctxs s (hs_ctx h)" if "h \<in> set (t_hosts t0)" for h using ctx_alive[OF R t0 that] .
  obtain r refs' where l: "load_table dir (tabs s old) es (ctxs s) = (r, refs')" by fastforce
  have "table_ok t0" using R t0 by (auto simp: refs_ok_def)
  then have T: "case r of None \<Rightarrow> refs' = ctxs s | Some t \<Rightarrow> table_ok t \<and> t_refs t = 1 \<and> (\<forall>c. refs' c = ctxs s c + uses t c)"
    using load_table_ok[OF reload_end.hyps(3) _ l] t0 pos by (auto simp: table_ok_def)
  show ?case
  proof (cases r)
    case None
    then have "s' = ioxd__certs_release old s" using reload_end.hyps(4) l T by (simp add: reload_end_def)
    then show ?thesis using certs_release_ok[of s old "holders s hs None"] R by (simp add: holders_def add_mset_commute)
  next
    case (Some t)
    let ?s = "s\<lparr>ctxs := refs', tabs := (tabs s)(a \<mapsto> t), serving := a\<rparr>"
    have s': "s' = ioxd__certs_release old (ioxd__certs_release old ?s)" using reload_end.hyps(4) l Some by (simp add: reload_end_def Let_def)
    have "refs_ok ?s (add_mset a ?M)" using publish_ok[OF R reload_end.hyps(2)] T Some by simp
    moreover have "add_mset a ?M = add_mset old (add_mset old (add_mset a hs))" by (simp add: holders_def o add_mset_commute)
    ultimately have "refs_ok (ioxd__certs_release old ?s) (add_mset old (add_mset a hs))" using certs_release_ok by metis
    then show ?thesis using certs_release_ok[of "ioxd__certs_release old ?s" old "add_mset a hs"] unfolding s' by (simp add: holders_def)
  qed
qed


text \<open>
  C36. A handshake keeps the certificates it started with.  Whatever handshakes begin and end while the directory is reloaded any number of times, the
  table that serves and every table a handshake holds is there, with a fallback among its hosts and every context
  of it alive; and nothing else is: a table nobody holds has been freed, and a context is alive exactly as often as tables have it, also one that a host whose files
  went bad carries on from an earlier table.
\<close>

theorem a_handshake_keeps_its_certificates:
  assumes "certs_run s hs r"
  shows "(\<forall>a \<in># add_mset (serving s) hs. \<exists>t. tabs s a = Some t \<and> (\<forall>h \<in> set (t_hosts t). 0 < ctxs s (hs_ctx h)) \<and>
      (\<exists>h \<in> set (t_hosts t). ioxd__certs_fallback t = Some (hs_ctx h))) \<and>
    (\<forall>a t. tabs s a = Some t \<longrightarrow> t_refs t = count (holders s hs r) a \<and> a \<in># holders s hs r) \<and>
    (\<forall>c. ctxs s c = (\<Sum>a \<in> dom (tabs s). uses (the (tabs s a)) c))"
proof -
  have R: "refs_ok s (holders s hs r)" using certs_run_ok[OF assms] by simp
  have "\<exists>t. tabs s a = Some t \<and> (\<forall>h \<in> set (t_hosts t). 0 < ctxs s (hs_ctx h)) \<and> (\<exists>h \<in> set (t_hosts t). ioxd__certs_fallback t = Some (hs_ctx h))"
    if a: "a \<in># add_mset (serving s) hs" for a
  proof -
    have "a \<in> dom (tabs s)" using R a by (auto simp: refs_ok_def holders_def)
    then obtain t where t: "tabs s a = Some t" by blast
    have "table_ok t" using R t by (simp add: refs_ok_def)
    moreover have "0 < ctxs s (hs_ctx h)" if "h \<in> set (t_hosts t)" for h using ctx_alive[OF R t that] .
    ultimately show ?thesis using t by (auto simp: table_ok_def ioxd__certs_fallback_def)
  qed
  moreover have "\<forall>a t. tabs s a = Some t \<longrightarrow> t_refs t = count (holders s hs r) a \<and> a \<in># holders s hs r" using R unfolding refs_ok_def by (metis domI)
  moreover have "\<forall>c. ctxs s c = (\<Sum>a \<in> dom (tabs s). uses (the (tabs s a)) c)" using R by (simp add: refs_ok_def)
  ultimately show ?thesis by blast
qed

text \<open>A host whose key went bad: the new table shares its old context, and the handshake that began before keeps the old table.\<close>

theorem a_handshake_keeps_its_certificates_witness:
  "\<exists>s. certs_run s {#1#} None \<and> serving s = 2 \<and> tabs s 1 \<noteq> None \<and> ctxs s 10 = 2"
proof -
  define es where "es = [\<lparr>d_name = ''default'', d_files = True, d_made = Some 10, d_valid = Some (- 1, 1)\<rparr>]"
  define es' where "es' = [\<lparr>d_name = ''default'', d_files = True, d_made = None, d_valid = None\<rparr>]"
  obtain s0 refs where s0: "ioxd_certs_load ''d'' True (Some es) 1 (\<lambda>_. 0) = (Some s0, refs)"
    by (simp add: ioxd_certs_load_def load_table_def load_one_def cert_current_def not_current_def es_def add_host_def Let_def)
  have f0: "serving s0 = 1" "ctxs s0 = (\<lambda>_. 0)(10 := 1)" "tabs s0 = [1 \<mapsto> \<lparr>t_refs = 1, t_hosts = [\<lparr>hs_name = ''default'', hs_ctx = 10\<rparr>], t_fallback = Some 10\<rparr>]"
    using s0 by (auto simp: ioxd_certs_load_def load_table_def load_one_def cert_current_def not_current_def es_def add_host_def Let_def)
  have r0: "certs_run s0 {#} None" by (rule certs_run.start[OF _ s0]) (simp add: es_def entries_ok_def made_def)
  define s1 where "s1 = snd (ioxd__certs_acquire s0)"
  have r1: "certs_run s1 {#1#} None" using certs_run.acquire[OF r0 surjective_pairing] f0 by (simp add: s1_def ioxd__certs_acquire_def Let_def)
  define s2 where "s2 = snd (reload_begin s1)"
  have f1: "serving s1 = 1" by (simp add: s1_def ioxd__certs_acquire_def Let_def f0)
  have r2: "certs_run s2 {#1#} (Some 1)" using certs_run.reload_begin[OF r1 surjective_pairing] f1 by (simp add: s2_def reload_begin_def ioxd__certs_acquire_def Let_def)
  have f2: "serving s2 = 1" "ctxs s2 = (\<lambda>_. 0)(10 := 1)" "tabs s2 = [1 \<mapsto> \<lparr>t_refs = 3, t_hosts = [\<lparr>hs_name = ''default'', hs_ctx = 10\<rparr>], t_fallback = Some 10\<rparr>]"
    by (simp_all add: s2_def reload_begin_def s1_def ioxd__certs_acquire_def Let_def f0 numeral_3_eq_3)
  define s3 where "s3 = snd (reload_end ''d'' (Some es') 2 1 s2)"
  have r3: "certs_run s3 {#1#} None" using certs_run.reload_end[OF r2 _ _ surjective_pairing, of 2 "Some es'" "''d''"] f2
    by (simp add: s3_def es'_def entries_ok_def made_def)
  have f3: "serving s3 = 2" "ctxs s3 10 = 2"
    by (simp_all add: s3_def reload_end_def load_table_def load_one_def es'_def f2 add_host_def ioxd__certs_release_def Let_def)
  have "tabs s3 1 \<noteq> None" using a_handshake_keeps_its_certificates[OF r3] by auto
  then show ?thesis using r3 f3 by blast
qed

end
