(* ===== verification/Tls_Handshake.thy ===== *)
theory Tls_Handshake
  imports Tls_Certs Pipe_Stream "HOL-Library.Monad_Syntax"
begin

text \<open>
  The records of a TLS handshake, \<^verbatim>\<open>lib/tls/handshake.c\<close>: the traffic secrets of the keylog callback, the labels and the sequence number given to the
  kernel, taking one record off the connection, and the draining of early application data before the kernel takes over.

  OpenSSL is a parameter with a state of its own.  \<open>sock\<close> are the bytes that are still to come from the socket past those the reader was
  given: once the receive is paused, \<open>ioxd__conn_recv_exact\<close> reads them directly.
\<close>

section \<open>Secrets and labels\<close>

abbreviation SECRET_LEN :: nat where "SECRET_LEN \<equiv> 32"
abbreviation RECORD_MAX :: nat where "RECORD_MAX \<equiv> 5 + 16384 + 256"
abbreviation PLAIN_MAX :: nat where "PLAIN_MAX \<equiv> 16384"

record secrets =
  se_tx :: bytes
  se_rx :: bytes
  have_tx :: bool
  have_rx :: bool

definition hexdigit :: "byte \<Rightarrow> int" where
  "hexdigit c =
     (let v = int (byte_val c) in
      if 48 \<le> v \<and> v \<le> 57 then v - 48 else if 97 \<le> v \<and> v \<le> 102 then v - 97 + 10 else if 65 \<le> v \<and> v \<le> 70 then v - 65 + 10 else - 1)"

text \<open>Whether every digit was good, and the bytes written.\<close>

fun unhex :: "nat \<Rightarrow> bytes \<Rightarrow> bool \<times> bytes" where
  "unhex 0 hex = (True, [])"
| "unhex (Suc n) (a # b # hex) =
     (let hi = hexdigit a; lo = hexdigit b in
      if hi < 0 \<or> lo < 0 then (False, [])
      else let (ok, out) = unhex n hex in (ok, char_of (nat (hi * 16 + lo)) # out))"
| "unhex (Suc n) _ = (False, [])"

definition overwrite :: "bytes \<Rightarrow> bytes \<Rightarrow> bytes" where
  "overwrite into out = out @ drop (length out) into"

text \<open>The line is up to its terminating zero.\<close>

definition ioxd__handshake_keylog :: "secrets option \<Rightarrow> bytes \<Rightarrow> secrets option" where
  "ioxd__handshake_keylog s line =
     (case s of
        None \<Rightarrow> None
      | Some s \<Rightarrow>
          let tx = (take 24 line = ''SERVER_TRAFFIC_SECRET_0 ''); rx = (take 24 line = ''CLIENT_TRAFFIC_SECRET_0 '') in
          if \<not> tx \<and> \<not> rx then Some s
          else
            (case memchr (CHR '' '') (drop 24 line) of
               None \<Rightarrow> Some s
             | Some i \<Rightarrow>
                 let secret = drop (i + 1) (drop 24 line) in
                 if length secret \<ge> 2 * SECRET_LEN then
                   let (ok, out) = unhex SECRET_LEN secret
                   in Some (if tx then s\<lparr>se_tx := overwrite (se_tx s) out, have_tx := have_tx s \<or> ok\<rparr>
                            else s\<lparr>se_rx := overwrite (se_rx s) out, have_rx := have_rx s \<or> ok\<rparr>)
                 else Some s))"

text \<open>The input of HKDF-Expand-Label.\<close>

definition label_info :: "bytes \<Rightarrow> nat \<Rightarrow> bytes" where
  "label_info label n = [char_of (n div 256), char_of n, char_of (6 + length label)] @ ''tls13 '' @ label @ [NUL]"

definition rec_seq :: "u64 \<Rightarrow> bytes" where
  "rec_seq sq = map (\<lambda>i. char_of (unat (drop_bit (56 - 8 * i) sq))) [0..<8]"


section \<open>Records\<close>

definition record_len :: "bytes \<Rightarrow> nat" where
  "record_len r = 5 + (byte_val (r ! 3) * 256 + byte_val (r ! 4))"

text \<open>The bytes of the socket that were asked for, all of them, or a failure.\<close>

definition ioxd__conn_recv_exact :: "nat \<Rightarrow> bytes \<Rightarrow> (bytes \<times> bytes) option" where
  "ioxd__conn_recv_exact n sock = (if n \<le> length sock then Some (take n sock, drop n sock) else None)"

definition next_need :: "bytes \<Rightarrow> nat \<Rightarrow> nat option" where
  "next_need r need = (if length r = 5 \<and> need = 5 then if record_len r > RECORD_MAX then None else Some (record_len r) else Some need)"

type_synonym input = "pipereader \<times> io \<times> bytes"

partial_function (option) take_loop :: "bool \<Rightarrow> bytes \<Rightarrow> nat \<Rightarrow> input \<Rightarrow> (int \<times> bytes \<times> input) option" where
  "take_loop draining r need inp =
     (if \<not> length r < need then Some (1, r, inp)
      else
        (let (pr, w, sock) = inp;
             (rc, sp, pr, w) = (if draining then ioxd__pipereader_avail pr w else ioxd__pipereader_read pr w)
         in if rc < 0 \<or> rc = 0 \<and> \<not> draining then Some (- 1, r, pr, w, sock)
         else if rc = 0 \<and> r = [] then Some (0, r, pr, w, sock)
         else if rc = 0 \<and> ioxd__conn_recv_exact (need - length r) sock = None then Some (- 1, r, pr, w, sock)
         else
           let (r, pr, w, sock) =
                 (if rc = 0 then (let (b, sock) = the (ioxd__conn_recv_exact (need - length r) sock) in (r @ b, pr, w, sock))
                  else
                    let k = (if snd sp < need - length r then snd sp else need - length r);
                        b = bytes_at pr w (fst sp, k);
                        (pr, w) = ioxd__pipereader_drop pr w k
                    in (r @ b, pr, w, sock))
           in if next_need r need = None then Some (- 1, r, pr, w, sock) else take_loop draining r (the (next_need r need)) (pr, w, sock)))"

definition take_record :: "bool \<Rightarrow> input \<Rightarrow> (int \<times> bytes \<times> input) option" where
  "take_record draining inp = take_loop draining [] 5 inp"


section \<open>Early application data\<close>

text \<open>What OpenSSL answers: \<open>BIO_write\<close>, \<open>SSL_read\<close>, \<open>SSL_get_error\<close>, \<open>SSL_pending\<close> and \<open>BIO_pending\<close>.\<close>

datatype ssl_err = SSL_ERROR_WANT_READ | SSL_ERROR_ZERO_RETURN | SSL_ERROR_SSL

record 's openssl =
  bio_write :: "'s \<Rightarrow> bytes \<Rightarrow> nat \<times> 's"
  ssl_read :: "'s \<Rightarrow> nat \<Rightarrow> bytes \<times> 's"
  ssl_get_error :: "'s \<Rightarrow> ssl_err"
  ssl_pending :: "'s \<Rightarrow> nat"
  bio_pending :: "'s \<Rightarrow> nat"

definition feed_inbound :: "'s openssl \<Rightarrow> 's \<Rightarrow> input \<Rightarrow> (int \<times> 's \<times> input) option" where
  "feed_inbound lib ssl inp = do {
     (rc, r, inp) \<leftarrow> take_record False inp;
     (if rc \<le> 0 then Some (- 1, ssl, inp)
      else let (n, ssl) = bio_write lib ssl r in Some (if n = length r then 0 else - 1, ssl, inp)) }"

text \<open>\<open>SSL_read\<close> until it has no more or the buffer is full; a result of no bytes is its failure.\<close>

partial_function (option) read_plain :: "'s openssl \<Rightarrow> 's \<Rightarrow> bytes \<Rightarrow> ('s \<times> bytes) option" where
  "read_plain lib ssl plain =
     (if length plain < PLAIN_MAX then
        (let (b, ssl) = ssl_read lib ssl (PLAIN_MAX - length plain)
         in if b = [] then Some (ssl, plain) else read_plain lib ssl (plain @ b))
      else Some (ssl, plain))"

datatype why = Taken | Not_data | Too_much | No_memory | Ssl_refused | Post_handshake

text \<open>The number of records or the reason for dropping the connection.\<close>

partial_function (option) drain_loop_tls :: "'s openssl \<Rightarrow> 's \<Rightarrow> bytes \<Rightarrow> nat \<Rightarrow> input \<Rightarrow> ((why + nat) \<times> 's \<times> bytes \<times> input) option" where
  "drain_loop_tls lib ssl plain records inp = do {
     (rc, r, inp) \<leftarrow> take_record True inp;
     (if rc < 0 then Some (Inl Taken, ssl, plain, inp)
      else if rc = 0 then Some (Inr records, ssl, plain, inp)
      else if byte_val (r ! 0) \<noteq> 23 then Some (Inl Not_data, ssl, plain, inp)
      else if length plain = PLAIN_MAX then Some (Inl Too_much, ssl, plain, inp)
      else if fst (bio_write lib ssl r) \<noteq> length r then Some (Inl No_memory, snd (bio_write lib ssl r), plain, inp)
      else do {
        (ssl, plain) \<leftarrow> read_plain lib (snd (bio_write lib ssl r)) plain;
        (if length plain = PLAIN_MAX \<and> ssl_pending lib ssl > 0 then Some (Inl Too_much, ssl, plain, inp)
         else if length plain = PLAIN_MAX then drain_loop_tls lib ssl plain (records + 1) inp
         else if ssl_get_error lib ssl = SSL_ERROR_ZERO_RETURN then Some (Inr (records + 1), ssl, plain, inp)
         else if ssl_get_error lib ssl \<noteq> SSL_ERROR_WANT_READ then Some (Inl Ssl_refused, ssl, plain, inp)
         else if bio_pending lib ssl > 0 then Some (Inl Post_handshake, ssl, plain, inp)
         else drain_loop_tls lib ssl plain (records + 1) inp) }) }"

definition drain_records :: "'s openssl \<Rightarrow> 's \<Rightarrow> input \<Rightarrow> ((why + nat) \<times> 's \<times> bytes \<times> input) option" where
  "drain_records lib ssl inp = drain_loop_tls lib ssl [] 0 inp"



section \<open>One record at a time\<close>

text \<open>The reader has nothing to give and will not have without new input.\<close>

definition quiet :: "pipereader \<Rightarrow> io \<Rightarrow> bool" where
  "quiet pr w \<longleftrightarrow> live pr w = [] \<and> (rx_empty w \<or> pr_eof pr)"

text \<open>While draining the receive is paused, so all that will come is queued; at the end of the input nothing is.\<close>

definition settled :: "bool \<Rightarrow> pipereader \<Rightarrow> io \<Rightarrow> bool" where
  "settled draining pr w \<longleftrightarrow> (draining \<longrightarrow> io_ready w = length (io_rx w)) \<and> (pr_eof pr \<longrightarrow> io_rx w = [])"

lemma quiet_settled: "quiet pr w \<Longrightarrow> settled True pr w \<Longrightarrow> pending pr w = []"
  by (auto simp: quiet_def settled_def rx_empty_def pending_def)

lemma cur_done_ready: "cur_done pr w = (pr', w') \<Longrightarrow> io_ready w' = io_ready w \<and> io_rx w' = io_rx w \<and> pr_eof pr' = pr_eof pr"
  by (auto simp: cur_done_def buf_return_def Let_def split: if_splits)

lemma gather_ready: "gather pr w = (ok, pr', w') \<Longrightarrow> io_ready w' = io_ready w \<and> io_rx w' = io_rx w \<and> pr_eof pr' = pr_eof pr"
  by (auto simp: gather_def gather_live_def gather_run_def Let_def split: if_splits prod.splits dest!: cur_done_ready)

lemma compact_eof [simp]: "pr_eof (compact pr) = pr_eof pr"
  by (simp add: compact_def)

lemma consume_settled: "consume pr w n = (pr', w') \<Longrightarrow> settled d pr w \<Longrightarrow> settled d pr' w'"
  by (auto simp: consume_def settled_def Let_def split: if_splits prod.splits dest!: cur_done_ready)

lemma more_settled:
  assumes "Pipe_Reader.more pr w = (rc, pr', w')" and "settled d pr w"
  shows "settled d pr' w'"
proof (cases "pr_eof pr \<or> io_rx w = []")
  case True
  then show ?thesis using assms by (auto simp: Pipe_Reader.more_def ioxd__conn_recv_item_def settled_def Let_def split: if_splits)
next
  case False
  then obtain p rest where rx: "io_rx w = p # rest" by (cases "io_rx w") auto
  define it v where "it = \<lparr>it_id = io_next w, it_len = length p\<rparr>"
    and "v = w\<lparr>io_rx := rest, io_ready := io_ready w - 1, io_next := io_next w + 1, io_slab := (io_slab w)(io_next w := p)\<rparr>"
  have r: "ioxd__conn_recv_item w = (Inr it, v)" using rx by (simp add: ioxd__conn_recv_item_def it_def v_def)
  have "\<not> pr_eof pr' \<and> io_ready w' = io_ready v \<and> io_rx w' = io_rx v"
    using assms(1) False unfolding Pipe_Reader.more_def r
    by (auto simp: refuse_def buf_return_def Let_def split: if_splits prod.splits dest!: gather_ready)
  then show ?thesis using assms(2) rx by (simp add: settled_def v_def)
qed

lemma read_loop_settled: "read_loop pr w = (rc, sp, pr', w') \<Longrightarrow> settled d pr w \<Longrightarrow> settled d pr' w'"
proof (induction pr w rule: read_loop.induct)
  case (1 pr w)
  obtain r q v where m: "Pipe_Reader.more pr w = (r, q, v)" by (metis surj_pair)
  have e: "read_loop pr w = (if examined pr < snd (live_span pr) then (1, live_span pr, pr, w) else if r \<le> 0 then (r, (Nullptr, 0), q, v) else read_loop q v)"
    using m by (auto simp: read_loop.simps[of pr w])
  show ?case
  proof (cases "examined pr < snd (live_span pr) \<or> r \<le> 0")
    case True
    then show ?thesis using e 1(2,3) more_settled[OF m] by (auto split: if_splits)
  next
    case False
    then show ?thesis using 1(1)[OF _ m[symmetric] refl] e 1(2,3) more_settled[OF m] by auto
  qed
qed

lemma avail_loop_settled: "avail_loop pr w = (rc, sp, pr', w') \<Longrightarrow> settled d pr w \<Longrightarrow> settled d pr' w'"
proof (induction pr w rule: avail_loop.induct)
  case (1 pr w)
  obtain r q v where m: "Pipe_Reader.more pr w = (r, q, v)" by (metis surj_pair)
  show ?case
  proof (cases "snd (live_span pr) \<le> examined pr \<and> \<not> rx_empty w \<and> r > 0")
    case False
    then show ?thesis using 1(2,3) m more_settled[OF m] by (auto simp: avail_loop.simps[of pr w] split: if_splits)
  next
    case True
    then have e: "avail_loop q v = (rc, sp, pr', w')" using 1(2) m by (simp add: avail_loop.simps[of pr w])
    show ?thesis by (rule 1(1)[OF _ _ refl m[symmetric] refl _ e more_settled[OF m 1(3)]]) (use True in auto)
  qed
qed

definition fetch :: "bool \<Rightarrow> pipereader \<Rightarrow> io \<Rightarrow> int \<times> (place \<times> nat) \<times> pipereader \<times> io" where
  "fetch draining pr w = (if draining then ioxd__pipereader_avail pr w else ioxd__pipereader_read pr w)"

lemma read_loop_sp:
  assumes "reader_ok pr w" and "pr_error pr = 0" and "examined pr = 0" and "read_loop pr w = (rc, sp, pr', w')"
  shows "examined pr' = 0 \<and> (rc > 0 \<longrightarrow> sp = live_span pr' \<and> 0 < snd sp)"
  using assms
proof (induction pr w rule: read_loop.induct)
  case (1 pr w)
  obtain r q v where m: "Pipe_Reader.more pr w = (r, q, v)" by (metis surj_pair)
  note mo = more_ok[OF 1(2) m] and mf = more_flags[OF m]
  show ?case
  proof (cases "examined pr < snd (live_span pr) \<or> r \<le> 0")
    case True
    then show ?thesis using 1(4,5) m mf by (auto simp: read_loop.simps[of pr w] split: if_splits)
  next
    case False
    then have e: "read_loop q v = (rc, sp, pr', w')" using 1(5) m by (simp add: read_loop.simps[of pr w])
    have q: "reader_ok q v" "pr_error q = 0" "examined q = 0" using mo mf False 1(3,4) by auto
    show ?thesis by (rule 1(1)[OF _ refl m[symmetric] refl _ q e]) (use False in auto)
  qed
qed

lemma avail_loop_sp:
  assumes "reader_ok pr w" and "pr_error pr = 0" and "examined pr = 0" and "avail_loop pr w = (rc, sp, pr', w')"
  shows "examined pr' = 0 \<and> (rc \<ge> 0 \<longrightarrow> pr_error pr' = 0) \<and> (rc > 0 \<longrightarrow> sp = live_span pr' \<and> 0 < snd sp) \<and> (rc = 0 \<longrightarrow> quiet pr' w')"
  using assms
proof (induction pr w rule: avail_loop.induct)
  case (1 pr w)
  obtain r q v where m: "Pipe_Reader.more pr w = (r, q, v)" by (metis surj_pair)
  note mo = more_ok[OF 1(2) m] and mf = more_flags[OF m]
  show ?case
  proof (cases "snd (live_span pr) \<le> examined pr \<and> \<not> rx_empty w \<and> r > 0")
    case False
    have "live pr w = []" if "snd (live_span pr) \<le> examined pr" using that 1(4) live_length[OF 1(2)] by simp
    then show ?thesis using 1(2-5) m mo mf False by (auto simp: avail_loop.simps[of pr w] quiet_def split: if_splits)
  next
    case True
    then have e: "avail_loop q v = (rc, sp, pr', w')" using 1(5) m by (simp add: avail_loop.simps[of pr w])
    have q: "reader_ok q v" "pr_error q = 0" "examined q = 0" using mo mf True 1(3,4) by auto
    show ?thesis by (rule 1(1)[OF _ _ refl m[symmetric] refl _ q e]) (use True in auto)
  qed
qed

lemma fetch_ok:
  assumes "reader_ok pr w" and "pr_error pr = 0" and "examined pr = 0" and "fetch draining pr w = (rc, sp, pr', w')"
  shows "conserves [] pr w pr' w'" "examined pr' = 0" "rc \<ge> 0 \<Longrightarrow> pr_error pr' = 0" "rc > 0 \<Longrightarrow> sp = live_span pr' \<and> 0 < snd sp"
    "rc = 0 \<Longrightarrow> draining \<Longrightarrow> quiet pr' w'"
proof -
  have "conserves [] pr w pr' w' \<and> examined pr' = 0 \<and> (rc \<ge> 0 \<longrightarrow> pr_error pr' = 0) \<and> (rc > 0 \<longrightarrow> sp = live_span pr' \<and> 0 < snd sp) \<and> (rc = 0 \<and> draining \<longrightarrow> quiet pr' w')"
  proof (cases draining)
    case True
    then have e: "avail_loop pr w = (rc, sp, pr', w')" using assms(2,4) by (simp add: fetch_def ioxd__pipereader_avail_def)
    show ?thesis using avail_loop_sp[OF assms(1-3) e] avail_loop_ok[OF assms(1,2) e] by auto
  next
    case False
    then have e: "read_loop pr w = (rc, sp, pr', w')" using assms(2,4) by (simp add: fetch_def ioxd__pipereader_read_def)
    show ?thesis using read_loop_sp[OF assms(1-3) e] read_loop_ok[OF assms(1,2) e] False by auto
  qed
  then show "conserves [] pr w pr' w'" "examined pr' = 0" "rc \<ge> 0 \<Longrightarrow> pr_error pr' = 0" "rc > 0 \<Longrightarrow> sp = live_span pr' \<and> 0 < snd sp"
    "rc = 0 \<Longrightarrow> draining \<Longrightarrow> quiet pr' w'" by auto
qed

lemma fetch_settled: "fetch draining pr w = (rc, sp, pr', w') \<Longrightarrow> settled d pr w \<Longrightarrow> settled d pr' w'"
  by (auto simp: fetch_def ioxd__pipereader_avail_def ioxd__pipereader_read_def split: if_splits dest: avail_loop_settled read_loop_settled)

lemma fetch_quiet:
  assumes "quiet pr w" and "reader_ok pr w" and "pr_error pr = 0" and "examined pr = 0"
  shows "\<exists>sp. fetch True pr w = (0, sp, pr, w)"
proof -
  have "snd (live_span pr) = 0" using assms(1,2) live_length[OF assms(2)] by (simp add: quiet_def)
  moreover have "Pipe_Reader.more pr w = (0, pr, w)" if "pr_eof pr" using that by (simp add: Pipe_Reader.more_def)
  ultimately show ?thesis using assms(1,3,4) by (auto simp: fetch_def ioxd__pipereader_avail_def avail_loop.simps[of pr w] quiet_def)
qed


text \<open>A turn of the loop that goes on: what was read is added, from the reader or, when it is quiet, from the socket.\<close>

definition got :: "bool \<Rightarrow> bytes \<Rightarrow> nat \<Rightarrow> input \<Rightarrow> bytes \<Rightarrow> input \<Rightarrow> bool" where
  "got draining r need inp b inp' \<longleftrightarrow>
     (\<exists>pr w sock rc sp pr1 w1. inp = (pr, w, sock) \<and> fetch draining pr w = (rc, sp, pr1, w1) \<and> b \<noteq> [] \<and> length b \<le> need - length r \<and>
        (rc = 0 \<and> draining \<and> r \<noteq> [] \<and> sock = b @ snd (snd inp') \<and> length b = need - length r \<and> fst inp' = pr1 \<and> fst (snd inp') = w1 \<or>
         rc > 0 \<and> b = take (need - length r) (live pr1 w1) \<and> consume pr1 w1 (length b) = (fst inp', fst (snd inp')) \<and> snd (snd inp') = sock))"

lemma take_loop_turn:
  assumes "reader_ok pr w" and "pr_error pr = 0" and "examined pr = 0" and st: "settled draining pr w" and "length r < need"
  shows "(\<exists>pr' w'. take_loop draining r need (pr, w, sock) = Some (- 1, r, pr', w', sock) \<and> conserves [] pr w pr' w') \<or>
    (\<exists>pr' w'. take_loop draining r need (pr, w, sock) = Some (0, r, pr', w', sock) \<and> conserves [] pr w pr' w' \<and> r = [] \<and> draining \<and> quiet pr' w' \<and> pr_error pr' = 0 \<and> examined pr' = 0 \<and> settled draining pr' w') \<or>
    (\<exists>b inp'. got draining r need (pr, w, sock) b inp' \<and>
       take_loop draining r need (pr, w, sock) =
         (if next_need (r @ b) need = None then Some (- 1, r @ b, inp') else take_loop draining (r @ b) (the (next_need (r @ b) need)) inp'))"
proof -
  obtain rc sp pr1 w1 where f: "fetch draining pr w = (rc, sp, pr1, w1)" by (metis surj_pair)
  note F = fetch_ok[OF assms(1-3) f]
  have e: "take_loop draining r need (pr, w, sock) =
      (if rc < 0 \<or> rc = 0 \<and> \<not> draining then Some (- 1, r, pr1, w1, sock)
       else if rc = 0 \<and> r = [] then Some (0, r, pr1, w1, sock)
       else if rc = 0 \<and> ioxd__conn_recv_exact (need - length r) sock = None then Some (- 1, r, pr1, w1, sock)
       else
         let (r, pr, w, sock) =
               (if rc = 0 then (let (b, sock) = the (ioxd__conn_recv_exact (need - length r) sock) in (r @ b, pr1, w1, sock))
                else let k = (if snd sp < need - length r then snd sp else need - length r); b = bytes_at pr1 w1 (fst sp, k); (pr, w) = consume pr1 w1 k in (r @ b, pr, w, sock))
         in if next_need r need = None then Some (- 1, r, pr, w, sock) else take_loop draining r (the (next_need r need)) (pr, w, sock))"
    using assms(5) f unfolding take_loop.simps[of draining r need] by (simp add: fetch_def ioxd__pipereader_drop_def)
  consider (stop) "rc < 0 \<or> rc = 0 \<and> \<not> draining" | (none) "rc = 0" "draining" "r = []" | (short) "rc = 0" "draining" "r \<noteq> []" "ioxd__conn_recv_exact (need - length r) sock = None"
    | (sock) "rc = 0" "draining" "r \<noteq> []" "ioxd__conn_recv_exact (need - length r) sock \<noteq> None" | (data) "rc > 0" by linarith
  then show ?thesis
  proof cases
    case sock
    then have "need - length r \<le> length sock" by (auto simp: ioxd__conn_recv_exact_def split: if_splits)
    then have x: "ioxd__conn_recv_exact (need - length r) sock = Some (take (need - length r) sock, drop (need - length r) sock)" by (simp add: ioxd__conn_recv_exact_def)
    have "got draining r need (pr, w, sock) (take (need - length r) sock) (pr1, w1, drop (need - length r) sock)"
      using sock f assms(5) \<open>need - length r \<le> length sock\<close> by (auto simp: got_def)
    moreover have "take_loop draining r need (pr, w, sock) = (if next_need (r @ take (need - length r) sock) need = None then Some (- 1, r @ take (need - length r) sock, pr1, w1, drop (need - length r) sock)
      else take_loop draining (r @ take (need - length r) sock) (the (next_need (r @ take (need - length r) sock) need)) (pr1, w1, drop (need - length r) sock))"
      using e sock x by simp
    ultimately show ?thesis by blast
  next
    case data
    have sp: "sp = live_span pr1" "0 < snd sp" using F(4)[OF data] by auto
    have ok1: "reader_ok pr1 w1" using F(1) by (simp add: conserves_def)
    define k where "k = (if snd sp < need - length r then snd sp else need - length r)"
    have len: "length (live pr1 w1) = snd sp" using live_length[OF ok1] sp by simp
    have b: "bytes_at pr1 w1 (fst sp, k) = take k (live pr1 w1)" using sp by (cases "live_span pr1"; cases "fst (live_span pr1)") (auto simp: live_def memread_take k_def)
    have tk: "take k (live pr1 w1) = take (need - length r) (live pr1 w1)" "length (take (need - length r) (live pr1 w1)) = k" using len by (auto simp: k_def)
    obtain pr2 w2 where c: "consume pr1 w1 k = (pr2, w2)" by fastforce
    have "got draining r need (pr, w, sock) (take (need - length r) (live pr1 w1)) (pr2, w2, sock)"
      using data f tk c assms(5) len sp(2) by (auto simp: got_def)
    moreover have "take_loop draining r need (pr, w, sock) = (if next_need (r @ take (need - length r) (live pr1 w1)) need = None then Some (- 1, r @ take (need - length r) (live pr1 w1), pr2, w2, sock)
      else take_loop draining (r @ take (need - length r) (live pr1 w1)) (the (next_need (r @ take (need - length r) (live pr1 w1)) need)) (pr2, w2, sock))"
      using e data b tk(1) c unfolding k_def by simp
    ultimately show ?thesis by blast
  qed (use e F fetch_settled[OF f st] in auto)
qed


text \<open>
  How far a record is: \<open>a\<close> came from the reader and then \<open>b\<close> from the socket, which is read only once the reader is quiet; the length is known from the
  fifth byte on.
\<close>

definition from_input :: "bool \<Rightarrow> input \<Rightarrow> bytes \<Rightarrow> input \<Rightarrow> bool" where
  "from_input draining inp r inp' \<longleftrightarrow>
     (\<exists>a b. r = a @ b \<and> conserves a (fst inp) (fst (snd inp)) (fst inp') (fst (snd inp')) \<and> snd (snd inp) = b @ snd (snd inp') \<and>
        (b \<noteq> [] \<longrightarrow> draining \<and> quiet (fst inp') (fst (snd inp'))))"

definition usable :: "bool \<Rightarrow> input \<Rightarrow> bool" where
  "usable draining inp \<longleftrightarrow> reader_ok (fst inp) (fst (snd inp)) \<and> pr_error (fst inp) = 0 \<and> examined (fst inp) = 0 \<and> settled draining (fst inp) (fst (snd inp))"

lemma consume_examined: "examined pr = 0 \<Longrightarrow> examined (fst (consume pr w n)) = 0"
  by (auto simp: consume_def Let_def split: prod.splits dest!: cur_done_flags)

lemma got_input:
  assumes "got draining r need inp b inp'" and "usable draining inp" and "from_input draining inp0 (pre @ r) inp"
  shows "usable draining inp' \<and> from_input draining inp0 (pre @ r @ b) inp'"
proof -
  obtain pr w sock pr' w' sock' where i: "inp = (pr, w, sock)" "inp' = (pr', w', sock')" by (cases inp; cases inp')
  have u: "reader_ok pr w" "pr_error pr = 0" "examined pr = 0" and st: "settled draining pr w" using assms(2) i by (simp_all add: usable_def)
  obtain x y where xy: "pre @ r = x @ y" "conserves x (fst inp0) (fst (snd inp0)) pr w" "snd (snd inp0) = y @ sock" "y \<noteq> [] \<longrightarrow> draining \<and> quiet pr w"
    using assms(3) i by (auto simp: from_input_def)
  obtain rc sp pr1 w1 where f: "fetch draining pr w = (rc, sp, pr1, w1)" and
    g: "rc = 0 \<and> draining \<and> sock = b @ sock' \<and> pr' = pr1 \<and> w' = w1 \<or> rc > 0 \<and> b = take (need - length r) (live pr1 w1) \<and> consume pr1 w1 (length b) = (pr', w') \<and> sock' = sock"
    using assms(1) i by (auto simp: got_def)
  note F = fetch_ok[OF u f]
  have st1: "settled draining pr1 w1" by (rule fetch_settled[OF f st])
  from g show ?thesis
  proof
    assume s: "rc = 0 \<and> draining \<and> sock = b @ sock' \<and> pr' = pr1 \<and> w' = w1"
    have q: "quiet pr' w'" using F(5) s by simp
    have c: "conserves x (fst inp0) (fst (snd inp0)) pr' w'" using conserves_trans[OF xy(2) F(1)] s by simp
    have "pre @ r @ b = x @ y @ b" using xy(1) by (metis append_assoc)
    then have "from_input draining inp0 (pre @ r @ b) inp'" unfolding from_input_def using c q s xy(3) i by (intro exI[of _ x] exI[of _ "y @ b"]) auto
    moreover have "usable draining inp'" using F(1-3) st1 s i by (simp add: usable_def conserves_def)
    ultimately show ?thesis by simp
  next
    assume s: "rc > 0 \<and> b = take (need - length r) (live pr1 w1) \<and> consume pr1 w1 (length b) = (pr', w') \<and> sock' = sock"
    have y: "y = []"
    proof (rule ccontr)
      assume "y \<noteq> []"
      then have "rc = 0" using xy(4) fetch_quiet[OF _ u] f by auto
      then show False using s by simp
    qed
    have ok1: "reader_ok pr1 w1" using F(1) by (simp add: conserves_def)
    have "conserves (take (length b) (live pr1 w1)) pr1 w1 pr' w'" using consume_conserves[OF ok1] s by blast
    moreover have "take (length b) (live pr1 w1) = b" using s by (cases "length (live pr1 w1) \<le> need - length r") auto
    ultimately have cb: "conserves b pr1 w1 pr' w'" by simp
    have c: "conserves (x @ b) (fst inp0) (fst (snd inp0)) pr' w'" using conserves_trans[OF conserves_trans[OF xy(2) F(1)] cb] by simp
    have "pre @ r @ b = x @ b" using xy(1) y by (metis append_assoc append_Nil2)
    then have "from_input draining inp0 (pre @ r @ b) inp'" unfolding from_input_def using c s xy(3) y i by (intro exI[of _ "x @ b"] exI[of _ "[]"]) auto
    moreover have "pr_error pr' = 0" "examined pr' = 0" using consume_flags[of pr1 w1 "length b" pr' w'] F(2,3) s consume_examined[of pr1 w1 "length b"] by auto
    moreover have "settled draining pr' w'" using consume_settled[OF _ st1] s by blast
    ultimately show ?thesis using cb i by (simp add: usable_def conserves_def)
  qed
qed

definition under_way :: "bytes \<Rightarrow> nat \<Rightarrow> bool" where
  "under_way r need \<longleftrightarrow> need = 5 \<and> length r < 5 \<or> 5 \<le> length r \<and> need = record_len r \<and> length r \<le> need \<and> need \<le> RECORD_MAX"

lemma record_len_append: "5 \<le> length r \<Longrightarrow> record_len (r @ b) = record_len r"
  by (simp add: record_len_def nth_append)

lemma under_way_step:
  assumes "under_way r need" and "length r < need" and "length b \<le> need - length r" and "next_need (r @ b) need = Some need'"
  shows "under_way (r @ b) need'"
proof (cases "length r < 5")
  case True
  then have "need = 5" using assms(1,2) by (auto simp: under_way_def)
  then show ?thesis using assms True by (auto simp: next_need_def under_way_def record_len_def split: if_splits)
next
  case False
  then have "need = record_len r" "need \<le> RECORD_MAX" "need \<noteq> 5" using assms(1,2) by (auto simp: under_way_def)
  then show ?thesis using assms False record_len_append[of r b] by (auto simp: next_need_def under_way_def)
qed

definition took :: "bool \<Rightarrow> input \<Rightarrow> bytes \<Rightarrow> int \<Rightarrow> bytes \<Rightarrow> input \<Rightarrow> bool" where
  "took draining inp pre rc r inp' \<longleftrightarrow> rc = - 1 \<or> from_input draining inp (pre @ r) inp' \<and>
     (rc = 0 \<and> draining \<and> r = [] \<and> usable draining inp' \<and> quiet (fst inp') (fst (snd inp')) \<or>
      rc = 1 \<and> usable draining inp' \<and> 5 \<le> length r \<and> length r = record_len r \<and> length r \<le> RECORD_MAX)"

lemma take_loop_ok:
  assumes "usable draining inp" and "from_input draining inp0 (pre @ r) inp" and "under_way r need"
  shows "\<exists>rc r' inp'. take_loop draining r need inp = Some (rc, r', inp') \<and> took draining inp0 pre rc r' inp'"
  using assms
proof (induction "RECORD_MAX - length r" arbitrary: r need inp rule: less_induct)
  case less
  obtain pr w sock where i: "inp = (pr, w, sock)" by (cases inp)
  have u: "reader_ok pr w" "pr_error pr = 0" "examined pr = 0" and st: "settled draining pr w" using less.prems(1) i by (simp_all add: usable_def)
  have fi: "from_input draining inp0 (pre @ r) (pr', w', sock)" if q: "conserves [] pr w pr' w'" "draining" "quiet pr' w'" for pr' w'
  proof -
    obtain x y where "pre @ r = x @ y" "conserves x (fst inp0) (fst (snd inp0)) pr w" "snd (snd inp0) = y @ sock" using less.prems(2) i by (auto simp: from_input_def)
    then show ?thesis using conserves_trans[OF _ q(1), of x] q(2,3) unfolding from_input_def by (intro exI[of _ x] exI[of _ y]) auto
  qed
  show ?case
  proof (cases "length r < need")
    case False
    then have "take_loop draining r need inp = Some (1, r, inp)" by (simp add: take_loop.simps)
    then show ?thesis using less.prems False by (auto simp: took_def under_way_def)
  next
    case True
    have lim: "need \<le> RECORD_MAX" using less.prems(3) by (auto simp: under_way_def)
    from take_loop_turn[OF u st True, of sock] show ?thesis
    proof (elim disjE exE conjE)
      fix b inp' assume g: "got draining r need (pr, w, sock) b inp'" and e: "take_loop draining r need (pr, w, sock) =
        (if next_need (r @ b) need = None then Some (- 1, r @ b, inp') else take_loop draining (r @ b) (the (next_need (r @ b) need)) inp')"
      have b: "b \<noteq> []" "length b \<le> need - length r" using g by (auto simp: got_def)
      note I = got_input[OF g, folded i, OF less.prems(1,2)]
      show ?thesis
      proof (cases "next_need (r @ b) need")
        case None
        then show ?thesis using e I i by (auto simp: took_def)
      next
        case (Some need')
        have uw: "under_way (r @ b) need'" by (rule under_way_step[OF less.prems(3) True b(2) Some])
        have "RECORD_MAX - length (r @ b) < RECORD_MAX - length r" using b True lim by (simp add: diff_less_mono2)
        from less.hyps[OF this _ _ uw] show ?thesis using e I i Some by simp
      qed
    next
      fix pr' w' assume e: "take_loop draining r need (pr, w, sock) = Some (0, r, pr', w', sock)" "conserves [] pr w pr' w'" "r = []" "draining" "quiet pr' w'" "pr_error pr' = 0" "examined pr' = 0" "settled draining pr' w'"
      have "reader_ok pr' w'" using e(2) by (simp add: conserves_def)
      then show ?thesis using e fi i by (auto simp: took_def usable_def)
    next
      fix pr' w' assume e: "take_loop draining r need (pr, w, sock) = Some (- 1, r, pr', w', sock)" "conserves [] pr w pr' w'"
      then show ?thesis using i by (simp add: took_def)
    qed
  qed
qed


text \<open>
  C35. A record is taken whole, and nothing past it.  On a reader that has not failed, taking a record returns: with one record, its header and as many bytes
  as the header says, at most \<open>RECORD_MAX\<close>; or, while draining, with nothing when nothing is left; or with a failure.
  What it took are the next bytes of the connection in order: those of the reader first, and only when nothing is left there those
  of the socket; and the bytes left are the ones that follow.
\<close>

theorem a_record_is_taken_whole:
  assumes "reader_ok pr w" and "pr_error pr = 0" and "examined pr = 0" and "settled draining pr w"
  shows "\<exists>rc r pr' w' sock'. take_record draining (pr, w, sock) = Some (rc, r, pr', w', sock') \<and>
    (rc = - 1 \<or>
     (rc = 1 \<and> length r = record_len r \<and> 5 \<le> length r \<and> length r \<le> RECORD_MAX \<or> rc = 0 \<and> draining \<and> r = [] \<and> pending pr' w' = []) \<and>
     reader_ok pr' w' \<and> pr_error pr' = 0 \<and> examined pr' = 0 \<and>
     (\<exists>a b. r = a @ b \<and> pending pr w = a @ pending pr' w' \<and> sock = b @ sock' \<and> (b = [] \<or> draining \<and> pending pr' w' = [])))"
proof -
  have u: "usable draining (pr, w, sock)" using assms by (simp add: usable_def)
  have f: "from_input draining (pr, w, sock) [] (pr, w, sock)" using conserves_same[OF assms(1)] by (auto simp: from_input_def)
  obtain rc r inp' where t: "take_record draining (pr, w, sock) = Some (rc, r, inp')" "took draining (pr, w, sock) [] rc r inp'"
    using take_loop_ok[OF u, of "(pr, w, sock)" "[]" "[]" 5] f by (auto simp: take_record_def under_way_def)
  obtain pr' w' sock' where i: "inp' = (pr', w', sock')" by (cases inp')
  have R: "rc = - 1 \<or> usable draining inp' \<and> from_input draining (pr, w, sock) r inp' \<and>
      (rc = 1 \<and> length r = record_len r \<and> 5 \<le> length r \<and> length r \<le> RECORD_MAX \<or> rc = 0 \<and> draining \<and> r = [] \<and> quiet pr' w')"
    using t(2) i by (auto simp: took_def)
  have empty: "pending pr' w' = []" if "usable draining inp'" "draining" "quiet pr' w'" using that i quiet_settled by (simp add: usable_def)
  have "\<exists>a b. r = a @ b \<and> pending pr w = a @ pending pr' w' \<and> sock = b @ sock' \<and> (b = [] \<or> draining \<and> pending pr' w' = [])"
    if h: "usable draining inp'" "from_input draining (pr, w, sock) r inp'"
  proof -
    obtain a b where "r = a @ b" "conserves a pr w pr' w'" "sock = b @ sock'" "b \<noteq> [] \<longrightarrow> draining \<and> quiet pr' w'"
      using h(2) i by (auto simp: from_input_def)
    then show ?thesis using h(1) assms(2) i empty by (auto simp: usable_def conserves_def)
  qed
  moreover have "reader_ok pr' w' \<and> pr_error pr' = 0 \<and> examined pr' = 0" if "usable draining inp'" using that i by (simp add: usable_def)
  ultimately show ?thesis using t(1) i R empty by blast
qed

definition two_records :: io where
  "two_records = fresh_io [[CHR 0x17, CHR 3, CHR 3, NUL, CHR 2, CHR ''h''], [CHR ''i'', CHR 0x17]] 0"

theorem a_record_is_taken_whole_witness:
  "\<exists>rc r inp'. take_record False (ioxd__pipereader_init (replicate 8 NUL) 8, two_records, []) = Some (rc, r, inp') \<and> (rc = - 1 \<or> length r = record_len r)"
proof -
  have "reader_ok (ioxd__pipereader_init (replicate 8 NUL) 8) two_records" by (rule init_ok) (simp_all add: two_records_def fresh_io_def)
  moreover have "pr_error (ioxd__pipereader_init (replicate 8 NUL) 8) = 0" "examined (ioxd__pipereader_init (replicate 8 NUL) 8) = 0"
    by (simp_all add: ioxd__pipereader_init_def)
  ultimately show ?thesis using a_record_is_taken_whole[of _ two_records False "[]"] by (fastforce simp: settled_def ioxd__pipereader_init_def)
qed



section \<open>Early application data\<close>

lemma read_plain_ok:
  assumes "\<And>s n. length (fst (ssl_read lib s n)) \<le> n"
  shows "length plain \<le> PLAIN_MAX \<Longrightarrow> \<exists>ssl' plain'. read_plain lib ssl plain = Some (ssl', plain') \<and> length plain' \<le> PLAIN_MAX"
proof (induction "PLAIN_MAX - length plain" arbitrary: plain ssl rule: less_induct)
  case less
  show ?case
  proof (cases "length plain < PLAIN_MAX \<and> fst (ssl_read lib ssl (PLAIN_MAX - length plain)) \<noteq> []")
    case True
    obtain b ssl1 where b: "ssl_read lib ssl (PLAIN_MAX - length plain) = (b, ssl1)" by fastforce
    have l: "b \<noteq> []" "length b \<le> PLAIN_MAX - length plain" using True b assms[of ssl "PLAIN_MAX - length plain"] by auto
    have "PLAIN_MAX - length (plain @ b) < PLAIN_MAX - length plain" using l(1) True by (simp add: diff_less_mono2)
    moreover have "length (plain @ b) \<le> PLAIN_MAX" using l(2) less.prems unfolding length_append by linarith
    ultimately obtain ssl' plain' where "read_plain lib ssl1 (plain @ b) = Some (ssl', plain')" "length plain' \<le> PLAIN_MAX" using less.hyps by blast
    then show ?thesis using True b by (simp add: read_plain.simps[of lib ssl plain])
  next
    case False
    then show ?thesis using less.prems by (auto simp: read_plain.simps[of lib ssl plain] split: prod.splits)
  qed
qed

text \<open>OpenSSL given records one after another, its plaintext read after each.\<close>

fun feed :: "'s openssl \<Rightarrow> bytes list \<Rightarrow> 's \<Rightarrow> bytes \<Rightarrow> ('s \<times> bytes) option" where
  "feed lib [] ssl plain = Some (ssl, plain)"
| "feed lib (r # rs) ssl plain = do { (ssl, plain) \<leftarrow> read_plain lib (snd (bio_write lib ssl r)) plain; feed lib rs ssl plain }"

lemma feed_snoc: "feed lib (rs @ [r]) ssl plain = do { (ssl, plain) \<leftarrow> feed lib rs ssl plain; read_plain lib (snd (bio_write lib ssl r)) plain }"
  by (induction rs arbitrary: ssl plain) (auto split: Option.bind_splits)

definition data_record :: "bytes \<Rightarrow> bool" where
  "data_record r \<longleftrightarrow> length r = record_len r \<and> 5 \<le> length r \<and> length r \<le> RECORD_MAX \<and> byte_val (r ! 0) = 23"

definition drained :: "'s openssl \<Rightarrow> 's \<Rightarrow> input \<Rightarrow> bytes list \<Rightarrow> 's \<Rightarrow> bytes \<Rightarrow> input \<Rightarrow> bool" where
  "drained lib ssl0 inp0 recs ssl plain inp \<longleftrightarrow> list_all data_record recs \<and> feed lib recs ssl0 [] = Some (ssl, plain) \<and>
     from_input True inp0 (concat recs) inp \<and> length plain \<le> PLAIN_MAX"

definition input_left :: "input \<Rightarrow> nat" where
  "input_left inp = length (pending (fst inp) (fst (snd inp))) + length (snd (snd inp))"

lemma from_input_left: "from_input draining inp r inp' \<Longrightarrow> usable d inp \<Longrightarrow> usable d inp' \<Longrightarrow> input_left inp = length r + input_left inp'"
  by (auto simp: from_input_def usable_def conserves_def input_left_def)

text \<open>Nothing is left in the reader, unless OpenSSL has seen the peer close.\<close>

definition at_rest :: "'s openssl \<Rightarrow> 's \<Rightarrow> input \<Rightarrow> bool" where
  "at_rest lib ssl inp \<longleftrightarrow> pending (fst inp) (fst (snd inp)) = [] \<or> ssl_get_error lib ssl = SSL_ERROR_ZERO_RETURN"

lemma drain_tls_ok:
  assumes h: "\<And>s n. length (fst (ssl_read lib s n)) \<le> n" and u0: "usable True inp0"
  shows "usable True inp \<Longrightarrow> drained lib ssl0 inp0 recs ssl plain inp \<Longrightarrow>
    \<exists>res ssl' plain' inp'. drain_loop_tls lib ssl plain (length recs) inp = Some (res, ssl', plain', inp') \<and>
      (\<forall>n. res = Inr n \<longrightarrow> (\<exists>recs'. n = length recs' \<and> drained lib ssl0 inp0 recs' ssl' plain' inp' \<and> usable True inp' \<and> at_rest lib ssl' inp'))"
proof (induction "input_left inp" arbitrary: recs ssl plain inp rule: less_induct)
  case less
  note d = less.prems(2)[unfolded drained_def]
  have under: "under_way [] 5" by (simp add: under_way_def)
  have "from_input True inp0 (concat recs @ []) inp" using d by simp
  then obtain rc r inp1 where t: "take_record True inp = Some (rc, r, inp1)" "took True inp0 (concat recs) rc r inp1"
    using take_loop_ok[OF less.prems(1) _ under, of inp0 "concat recs"] by (auto simp: take_record_def)
  define go where "go = (rc = 1 \<and> byte_val (r ! 0) = 23 \<and> length plain \<noteq> PLAIN_MAX \<and> fst (bio_write lib ssl r) = length r)"
  have rc: "rc = - 1 \<or> rc = 0 \<and> usable True inp1 \<and> from_input True inp0 (concat recs) inp1 \<and> quiet (fst inp1) (fst (snd inp1)) \<or> rc = 1"
    using t(2) by (auto simp: took_def)
  have stop: "(\<exists>y s. drain_loop_tls lib ssl plain (length recs) inp = Some (Inl y, s, plain, inp1)) \<or>
      rc = 0 \<and> drain_loop_tls lib ssl plain (length recs) inp = Some (Inr (length recs), ssl, plain, inp1)" if "\<not> go"
    using rc that unfolding drain_loop_tls.simps[of lib ssl plain "length recs" inp] t(1) go_def by (elim disjE) (simp_all, blast?)
  show ?case
  proof (cases go)
    case False
    have "at_rest lib ssl inp1" if "rc = 0" using rc that quiet_settled by (auto simp: at_rest_def usable_def)
    moreover have "drained lib ssl0 inp0 recs ssl plain inp1 \<and> usable True inp1" if "rc = 0" using rc that d by (auto simp: drained_def)
    ultimately show ?thesis using stop[OF False] by blast
  next
    case True
    then have i1: "usable True inp1" "from_input True inp0 (concat (recs @ [r])) inp1" and dr: "data_record r" using t(2) by (simp_all add: go_def took_def data_record_def)
    obtain ssl1 plain1 where p: "read_plain lib (snd (bio_write lib ssl r)) plain = Some (ssl1, plain1)" "length plain1 \<le> PLAIN_MAX"
      using read_plain_ok[OF h, of plain] d by blast
    have D: "drained lib ssl0 inp0 (recs @ [r]) ssl1 plain1 inp1" using d dr i1(2) p by (simp add: drained_def feed_snoc)
    have "input_left inp1 < input_left inp"
      using from_input_left[OF i1(2) u0 i1(1)] from_input_left[of True inp0 "concat recs" inp] u0 less.prems(1) d dr by (simp add: data_record_def)
    note IH = less.hyps[OF this i1(1) D, unfolded length_append list.size, simplified]
    have turn: "(\<exists>y. drain_loop_tls lib ssl plain (length recs) inp = Some (Inl y, ssl1, plain1, inp1)) \<or>
        drain_loop_tls lib ssl plain (length recs) inp = Some (Inr (length (recs @ [r])), ssl1, plain1, inp1) \<and> ssl_get_error lib ssl1 = SSL_ERROR_ZERO_RETURN \<or>
        drain_loop_tls lib ssl plain (length recs) inp = drain_loop_tls lib ssl1 plain1 (Suc (length recs)) inp1"
      using True p(1) unfolding drain_loop_tls.simps[of lib ssl plain "length recs" inp] t(1) go_def by simp
    then show ?thesis
    proof (elim disjE)
      assume "drain_loop_tls lib ssl plain (length recs) inp = Some (Inr (length (recs @ [r])), ssl1, plain1, inp1) \<and> ssl_get_error lib ssl1 = SSL_ERROR_ZERO_RETURN"
      then show ?thesis using D i1(1) unfolding at_rest_def by blast
    next
      assume "drain_loop_tls lib ssl plain (length recs) inp = drain_loop_tls lib ssl1 plain1 (Suc (length recs)) inp1"
      then show ?thesis using IH by simp
    qed blast
  qed
qed

lemma drain_records_ok:
  assumes h: "\<And>s n. length (fst (ssl_read lib s n)) \<le> n" and u: "usable True inp"
  shows "\<exists>res ssl' plain inp'. drain_records lib ssl inp = Some (res, ssl', plain, inp') \<and>
    (\<forall>n. res = Inr n \<longrightarrow> (\<exists>recs. n = length recs \<and> drained lib ssl inp recs ssl' plain inp' \<and> usable True inp' \<and> at_rest lib ssl' inp'))"
proof -
  have "from_input True inp [] inp" using conserves_same[of "fst inp" "fst (snd inp)"] u by (auto simp: from_input_def usable_def)
  then have "drained lib ssl inp [] ssl [] inp" by (simp add: drained_def)
  from drain_tls_ok[OF h u u this] show ?thesis by (simp add: drain_records_def)
qed

lemma drained_stream:
  assumes "drained lib ssl (pr, w, sock) recs ssl' plain (pr', w', sock')" and "usable True (pr, w, sock)" and "usable True (pr', w', sock')"
  shows "\<exists>a b. concat recs = a @ b \<and> pending pr w = a @ pending pr' w' \<and> sock = b @ sock' \<and> (b = [] \<or> pending pr' w' = [])"
proof -
  obtain a b where "concat recs = a @ b" "conserves a pr w pr' w'" "sock = b @ sock'" "b \<noteq> [] \<longrightarrow> quiet pr' w'"
    using assms(1) by (auto simp: drained_def from_input_def)
  then show ?thesis using assms(2,3) quiet_settled by (auto simp: usable_def conserves_def)
qed

text \<open>
  The records given to the kernel's counter are the ones that were read.  Draining the early application data returns, whatever the peer sent and however OpenSSL
  answers.  When it ends with a number, that many whole records, all of them application data, were taken off the connection in order, OpenSSL was
  given exactly these, and the plaintext it gave for them, in order and within \<open>PLAIN_MAX\<close>, is what is handed on: the kernel's receive sequence
  starts at the first record nobody has read.
\<close>

theorem drained_records_are_counted:
  assumes "\<And>s n. length (fst (ssl_read lib s n)) \<le> n" and "reader_ok pr w" and "pr_error pr = 0" and "examined pr = 0" and "settled True pr w"
  shows "\<exists>res ssl' plain pr' w' sock'. drain_records lib ssl (pr, w, sock) = Some (res, ssl', plain, pr', w', sock') \<and>
    (case res of Inl why \<Rightarrow> True
     | Inr n \<Rightarrow> \<exists>recs a b. n = length recs \<and> list_all data_record recs \<and> concat recs = a @ b \<and> pending pr w = a @ pending pr' w' \<and> sock = b @ sock' \<and>
         (b = [] \<or> pending pr' w' = []) \<and> feed lib recs ssl [] = Some (ssl', plain) \<and> length plain \<le> PLAIN_MAX \<and>
         (pending pr' w' = [] \<or> ssl_get_error lib ssl' = SSL_ERROR_ZERO_RETURN))"
proof -
  have u: "usable True (pr, w, sock)" using assms(2-) by (simp add: usable_def)
  obtain res ssl' plain pr' w' sock' where r: "drain_records lib ssl (pr, w, sock) = Some (res, ssl', plain, pr', w', sock')"
    "\<forall>n. res = Inr n \<longrightarrow> (\<exists>recs. n = length recs \<and> drained lib ssl (pr, w, sock) recs ssl' plain (pr', w', sock') \<and> usable True (pr', w', sock') \<and> at_rest lib ssl' (pr', w', sock'))"
    using drain_records_ok[OF assms(1) u, of ssl] by (metis prod_cases3)
  have "\<exists>recs a b. n = length recs \<and> list_all data_record recs \<and> concat recs = a @ b \<and> pending pr w = a @ pending pr' w' \<and> sock = b @ sock' \<and>
         (b = [] \<or> pending pr' w' = []) \<and> feed lib recs ssl [] = Some (ssl', plain) \<and> length plain \<le> PLAIN_MAX \<and>
         (pending pr' w' = [] \<or> ssl_get_error lib ssl' = SSL_ERROR_ZERO_RETURN)" if n: "res = Inr n" for n
  proof -
    obtain recs where recs: "n = length recs" "drained lib ssl (pr, w, sock) recs ssl' plain (pr', w', sock')" "usable True (pr', w', sock')"
      "at_rest lib ssl' (pr', w', sock')" using r(2) n by blast
    then show ?thesis using drained_stream[OF recs(2) u recs(3)] unfolding at_rest_def drained_def fst_conv snd_conv by blast
  qed
  then show ?thesis using r(1) by (auto split: sum.split)
qed

text \<open>An OpenSSL that hands out what it was given.\<close>

definition echo :: "bytes openssl" where
  "echo = \<lparr>bio_write = (\<lambda>s r. (length r, s @ drop 5 r)), ssl_read = (\<lambda>s n. (take n s, drop n s)), ssl_get_error = (\<lambda>s. SSL_ERROR_WANT_READ),
     ssl_pending = length, bio_pending = (\<lambda>s. 0)\<rparr>"

definition early_records :: io where
  "early_records = (fresh_io [[CHR 0x17, CHR 3, CHR 3, NUL, CHR 2, CHR ''h''], [CHR ''i'', CHR 0x17]] 0)\<lparr>io_ready := 2\<rparr>"

theorem drained_records_are_counted_witness:
  "\<exists>r. drain_records echo [] (ioxd__pipereader_init (replicate 8 NUL) 8, early_records, [CHR 3, CHR 3, NUL, NUL]) = Some r"
proof -
  have "length (fst (ssl_read echo s n)) \<le> n" for s n by (simp add: echo_def)
  moreover have "reader_ok (ioxd__pipereader_init (replicate 8 NUL) 8) early_records" by (rule init_ok) (simp_all add: early_records_def fresh_io_def)
  moreover have "pr_error (ioxd__pipereader_init (replicate 8 NUL) 8) = 0" "examined (ioxd__pipereader_init (replicate 8 NUL) 8) = 0"
    "settled True (ioxd__pipereader_init (replicate 8 NUL) 8) early_records"
    by (simp_all add: ioxd__pipereader_init_def settled_def early_records_def fresh_io_def)
  ultimately show ?thesis using drained_records_are_counted[of echo _ early_records "[]" "[CHR 3, CHR 3, NUL, NUL]"] by blast
qed

end
