(* ===== verification/Tls_Prologue.thy ===== *)
theory Tls_Prologue
  imports Tls_Handshake Pipe
begin

text \<open>
  The handshake as a whole, \<open>ioxd__handshake_prologue\<close> of \<^verbatim>\<open>lib/tls/handshake.c\<close>: the loop that carries OpenSSL's records, and the hand-over to the
  kernel.  OpenSSL and the kernel are parameters.  The input not yet received when the receive is paused stays in the socket; \<open>queued_at_pause\<close>
  says how much of it the kernel had delivered by then, or that the input ended.
\<close>

section \<open>The keys\<close>

datatype direction = TLS_TX | TLS_RX

record crypto_info =
  ci_key :: bytes
  ci_salt :: bytes
  ci_iv :: bytes
  ci_seq :: bytes

record kernel =
  hkdf_expand :: "bytes \<Rightarrow> bytes \<Rightarrow> nat \<Rightarrow> bytes option"
  set_ulp :: int
  set_key :: "direction \<Rightarrow> crypto_info \<Rightarrow> int"
  queued_at_pause :: "nat option"
  resumed :: bool

abbreviation KDF_FAILED :: int where "KDF_FAILED \<equiv> - 4096"

definition expand_label :: "kernel \<Rightarrow> bytes \<Rightarrow> bytes \<Rightarrow> nat \<Rightarrow> bytes option" where
  "expand_label k secret label n =
     (case hkdf_expand k (take SECRET_LEN secret) (label_info label n) n of
        None \<Rightarrow> None
      | Some out \<Rightarrow> if length out = n then Some out else None)"

text \<open>The result, and the key the kernel has from now on.\<close>

definition install :: "kernel \<Rightarrow> direction \<Rightarrow> bytes \<Rightarrow> u64 \<Rightarrow> int \<times> (direction \<times> crypto_info) list" where
  "install k dir secret sq =
     (case (expand_label k secret ''key'' 16, expand_label k secret ''iv'' 12) of
        (Some key, Some iv) \<Rightarrow>
          let ci = \<lparr>ci_key = key, ci_salt = take 4 iv, ci_iv = drop 4 iv, ci_seq = rec_seq sq\<rparr>;
              rc = set_key k dir ci
          in (rc, if rc = 0 then [(dir, ci)] else [])
      | _ \<Rightarrow> (KDF_FAILED, []))"


section \<open>The records of the handshake\<close>

record 's tls =
  lib :: "'s openssl"
  ssl_new :: "nat option \<Rightarrow> 's option"
  ssl_do_handshake :: "'s \<Rightarrow> int \<times> ssl_err \<times> bytes list \<times> 's"
  bio_read :: "'s \<Rightarrow> nat \<Rightarrow> bytes \<times> 's"

partial_function (option) flush_outbound :: "'s tls \<Rightarrow> 's \<Rightarrow> pipewriter \<Rightarrow> io \<Rightarrow> (int \<times> 's \<times> pipewriter \<times> io) option" where
  "flush_outbound t ssl pw w =
     (let (b, ssl) = bio_read t ssl 4096 in
      if b = [] then (let (rc, pw, w) = ioxd__pipewriter_flush pw w in Some (rc, ssl, pw, w))
      else
        let (rc, pw, w) = ioxd__pipewriter_write pw w b
        in if rc < 0 then Some (- 1, ssl, pw, w) else flush_outbound t ssl pw w)"

datatype reason = Memory | Gone_sending | Ssl_error | Gone | No_secrets | Input_ended | Early why | Ulp int | Keys int | Does_not_fit

type_synonym 's shake = "reason option \<times> 's \<times> secrets \<times> pipewriter \<times> input"

text \<open>Each call of \<open>SSL_do_handshake\<close> comes with the lines it gave to the keylog callback.\<close>

definition keylog_all :: "bytes list \<Rightarrow> secrets \<Rightarrow> secrets" where
  "keylog_all ls s = fold (\<lambda>l s. the (ioxd__handshake_keylog (Some s) l)) ls s"

partial_function (option) shake_loop :: "'s tls \<Rightarrow> 's \<Rightarrow> secrets \<Rightarrow> pipewriter \<Rightarrow> input \<Rightarrow> 's shake option" where
  "shake_loop t ssl s pw inp =
     (let (ret, err, ls, ssl) = ssl_do_handshake t ssl in do {
        (rc, ssl, pw, w) \<leftarrow> flush_outbound t ssl pw (fst (snd inp));
        (if rc < 0 then Some (Some Gone_sending, ssl, keylog_all ls s, pw, fst inp, w, snd (snd inp))
         else if ret = 1 then Some (None, ssl, keylog_all ls s, pw, fst inp, w, snd (snd inp))
         else if err \<noteq> SSL_ERROR_WANT_READ then Some (Some Ssl_error, ssl, keylog_all ls s, pw, fst inp, w, snd (snd inp))
         else do {
           (rc, ssl, inp) \<leftarrow> feed_inbound (lib t) ssl (fst inp, w, snd (snd inp));
           (if rc < 0 then Some (Some Gone, ssl, keylog_all ls s, pw, inp)
            else shake_loop t ssl (keylog_all ls s) pw inp) }) })"


section \<open>The hand-over\<close>

text \<open>What is queued when the receive has stopped, and what is left in the socket.\<close>

definition recv_paused :: "nat \<Rightarrow> input \<Rightarrow> input" where
  "recv_paused k inp =
     (case inp of (pr, w, sock) \<Rightarrow> (pr, w\<lparr>io_rx := take k (io_rx w), io_ready := length (take k (io_rx w))\<rparr>, concat (drop k (io_rx w)) @ sock))"

definition take_over :: "kernel \<Rightarrow> secrets \<Rightarrow> nat \<Rightarrow> bytes \<Rightarrow> pipereader \<Rightarrow> io \<Rightarrow> reason option \<times> pipereader \<times> io \<times> (direction \<times> crypto_info) list" where
  "take_over k s records plain pr w =
     (if set_ulp k < 0 then (Some (Ulp (set_ulp k)), pr, w, [])
      else
        let (r, keys) = install k TLS_TX (se_tx s) 0;
            (r, keys) = (if r = 0 then let (r, more_keys) = install k TLS_RX (se_rx s) (word_of_nat records) in (r, keys @ more_keys) else (r, keys))
        in if r < 0 then (Some (Keys r), pr, w, keys)
           else
             let (ok, pr, w) = (if plain \<noteq> [] then ioxd__pipereader_inject pr w plain else (True, pr, w))
             in if \<not> ok then (Some Does_not_fit, pr, w, keys)
                else (if resumed k then None else Some Input_ended, pr, w, keys))"

record outcome =
  o_why :: "reason option"
  o_pipe :: ioxd_pipe
  o_input :: "io \<times> bytes"
  o_keys :: "(direction \<times> crypto_info) list"
  o_certs :: certs

definition no_secrets :: secrets where
  "no_secrets = \<lparr>se_tx = replicate SECRET_LEN NUL, se_rx = replicate SECRET_LEN NUL, have_tx = False, have_rx = False\<rparr>"

definition hand_over :: "kernel \<Rightarrow> 's tls \<Rightarrow> 's \<Rightarrow> secrets \<Rightarrow> input \<Rightarrow> (reason option \<times> input \<times> (direction \<times> crypto_info) list) option" where
  "hand_over k t ssl s inp =
     (if \<not> have_tx s \<or> \<not> have_rx s then Some (Some No_secrets, inp, [])
      else
        case queued_at_pause k of
          None \<Rightarrow> Some (Some Input_ended, inp, [])
        | Some n \<Rightarrow> do {
            (res, ssl, plain, pr, w, sock) \<leftarrow> drain_records (lib t) ssl (recv_paused n inp);
            (case res of
               Inl y \<Rightarrow> Some (Some (Early y), (pr, w, sock), [])
             | Inr records \<Rightarrow> let (y, pr, w, keys) = take_over k s records plain pr w in Some (y, (pr, w, sock), keys)) })"

definition ioxd__handshake_prologue :: "kernel \<Rightarrow> 's tls \<Rightarrow> ioxd_pipe \<Rightarrow> io \<Rightarrow> certs \<Rightarrow> (int \<times> outcome) option" where
  "ioxd__handshake_prologue k t pipe w certs =
     (let (a, certs) = ioxd__certs_acquire certs in
      case ssl_new t (ioxd__certs_fallback (the (tabs certs a))) of
        None \<Rightarrow> Some (- 1, \<lparr>o_why = Some Memory, o_pipe = pipe, o_input = (w, []), o_keys = [], o_certs = ioxd__certs_release a certs\<rparr>)
      | Some ssl \<Rightarrow> do {
          (y, ssl, s, pw, inp) \<leftarrow> shake_loop t ssl no_secrets (p_out pipe) (p_in pipe, w, []);
          (y, inp, keys) \<leftarrow> (case y of Some y \<Rightarrow> Some (Some y, inp, []) | None \<Rightarrow> hand_over k t ssl s inp);
          Some (if y = None then 0 else - 1,
                \<lparr>o_why = y, o_pipe = \<lparr>p_in = fst inp, p_out = pw\<rparr>, o_input = snd inp, o_keys = keys, o_certs = ioxd__certs_release a certs\<rparr>) })"


text \<open>The alert of a closing connection: a record type and its bytes, through \<open>ioxd__conn_sendmsg\<close>.\<close>

definition ioxd__handshake_close_notify :: "(nat \<times> bytes \<Rightarrow> 'c \<Rightarrow> 'c) \<Rightarrow> 'c \<Rightarrow> 'c" where
  "ioxd__handshake_close_notify sendmsg c = sendmsg (21, [CHR 0x01, NUL]) c"


section \<open>What each part does\<close>

definition writes_on :: "pipewriter \<Rightarrow> bool" where
  "writes_on pw \<longleftrightarrow> writer_ok pw \<and> \<not> pw_failed pw \<and> pw_tail pw = 0"

lemma flush_outbound_ok:
  assumes law: "\<And>s n b s'. bio_read t s n = (b, s') \<Longrightarrow> length b \<le> n \<and> (b = [] \<or> bio_pending (lib t) s' < bio_pending (lib t) s)"
  shows "writes_on pw \<Longrightarrow> \<exists>rc ssl' pw' w' out. flush_outbound t ssl pw w = Some (rc, ssl', pw', w') \<and> sent_to w w' out \<and> (rc < 0 \<or> writes_on pw')"
proof (induction "bio_pending (lib t) ssl" arbitrary: ssl pw w rule: less_induct)
  case less
  obtain b ssl1 where b: "bio_read t ssl 4096 = (b, ssl1)" by fastforce
  note l = law[OF b]
  have pw: "writer_ok pw" "\<not> pw_failed pw" "pw_tail pw = 0" using less.prems by (simp_all add: writes_on_def)
  show ?case
  proof (cases "b = []")
    case True
    obtain rc q v where f: "ioxd__pipewriter_flush pw w = (rc, q, v)" by (metis surj_pair)
    obtain out where "sent_to w v out" using flush_ok[OF pw(1,2) f] by blast
    moreover have "rc < 0 \<or> writes_on q" using flush_ok[OF pw(1,2) f] by (auto simp: writes_on_def split: if_splits)
    ultimately show ?thesis using b True f by (auto simp: flush_outbound.simps[of t ssl])
  next
    case False
    obtain rc q v where f: "ioxd__pipewriter_write pw w b = (rc, q, v)" by (metis surj_pair)
    have "length b < 2 ^ 31" using l by simp
    note a = write_ok[OF pw this f, unfolded appends_def]
    then obtain out where out: "sent_to w v out" by blast
    show ?thesis
    proof (cases "rc < 0")
      case True
      then show ?thesis using b False f out by (auto simp: flush_outbound.simps[of t ssl])
    next
      case go: False
      then have "writes_on q" using a by (auto simp: writes_on_def split: if_splits)
      then obtain rc' ssl' pw' w' out' where r: "flush_outbound t ssl1 q v = Some (rc', ssl', pw', w')" "sent_to v w' out'" "rc' < 0 \<or> writes_on pw'"
        using less.hyps[of ssl1 q v] l False by blast
      have "flush_outbound t ssl pw w = Some (rc', ssl', pw', w')" using b False f go r(1) by (simp add: flush_outbound.simps[of t ssl])
      then show ?thesis using sent_to_trans[OF out r(2)] r(3) by blast
    qed
  qed
qed

definition whole_record :: "bytes \<Rightarrow> bool" where
  "whole_record r \<longleftrightarrow> length r = record_len r \<and> 5 \<le> length r \<and> length r \<le> RECORD_MAX"

lemma feed_inbound_ok:
  assumes "usable False inp" and "from_input False inp0 pre inp"
  shows "\<exists>rc ssl' inp'. feed_inbound ossl ssl inp = Some (rc, ssl', inp') \<and>
    (rc < 0 \<or> (\<exists>r. whole_record r \<and> usable False inp' \<and> from_input False inp0 (pre @ r) inp'))"
proof -
  obtain rc r inp' where t: "take_record False inp = Some (rc, r, inp')" "took False inp0 pre rc r inp'"
    using take_loop_ok[OF assms(1), of inp0 pre "[]" 5] assms(2) by (auto simp: take_record_def under_way_def)
  obtain n ssl' where b: "bio_write ossl ssl r = (n, ssl')" by fastforce
  show ?thesis
  proof (cases "rc \<le> 0")
    case True
    then show ?thesis using t(1) by (auto simp: feed_inbound_def)
  next
    case False
    then have "whole_record r" "usable False inp'" "from_input False inp0 (pre @ r) inp'" using t(2) by (auto simp: took_def whole_record_def)
    moreover have "feed_inbound ossl ssl inp = Some (if n = length r then 0 else - 1, ssl', inp')" using False t(1) b by (simp add: feed_inbound_def)
    ultimately show ?thesis by blast
  qed
qed

lemma sent_input:
  assumes "sent_to w w' out"
  shows "usable d (pr, w', sock) = usable d (pr, w, sock)" and "from_input False inp (concat hs) (pr, w', sock) = from_input False inp (concat hs) (pr, w, sock)"
    and "pending pr w' = pending pr w"
proof -
  note f = sent_to_fields[OF assms] and k = sent_keeps_reader[OF assms]
  show p: "pending pr w' = pending pr w" using f k by (simp add: pending_def)
  show "usable d (pr, w', sock) = usable d (pr, w, sock)" using f k by (simp add: usable_def settled_def)
  show "from_input False inp (concat hs) (pr, w', sock) = from_input False inp (concat hs) (pr, w, sock)"
    using k p by (simp add: from_input_def conserves_def)
qed

lemma shake_ok:
  assumes law: "\<And>s n b s'. bio_read t s n = (b, s') \<Longrightarrow> length b \<le> n \<and> (b = [] \<or> bio_pending (lib t) s' < bio_pending (lib t) s)" and u0: "usable False inp0"
  shows "usable False inp \<Longrightarrow> from_input False inp0 (concat hs) inp \<Longrightarrow> list_all whole_record hs \<Longrightarrow> writes_on pw \<Longrightarrow>
    \<exists>y ssl' s' pw' inp'. shake_loop t ssl s pw inp = Some (y, ssl', s', pw', inp') \<and>
      (y = None \<longrightarrow> (\<exists>hs. list_all whole_record hs \<and> usable False inp' \<and> from_input False inp0 (concat hs) inp'))"
proof (induction "input_left inp" arbitrary: inp hs pw ssl s rule: less_induct)
  case less
  obtain pr w sock where i: "inp = (pr, w, sock)" by (cases inp)
  obtain ret err ls ssl1 where d: "ssl_do_handshake t ssl = (ret, err, ls, ssl1)" by (metis surj_pair)
  obtain rc ssl2 pw2 w2 out where f: "flush_outbound t ssl1 pw w = Some (rc, ssl2, pw2, w2)" "sent_to w w2 out" "rc < 0 \<or> writes_on pw2"
    using flush_outbound_ok[OF law less.prems(4), where w = w and ssl = ssl1] by blast
  note si = sent_input[OF f(2)]
  have u2: "usable False (pr, w2, sock)" and i2: "from_input False inp0 (concat hs) (pr, w2, sock)" using less.prems(1,2) i si by simp_all
  obtain rc' ssl3 inp3 where g: "feed_inbound (lib t) ssl2 (pr, w2, sock) = Some (rc', ssl3, inp3)"
    "rc' < 0 \<or> (\<exists>r. whole_record r \<and> usable False inp3 \<and> from_input False inp0 (concat hs @ r) inp3)" using feed_inbound_ok[OF u2 i2, of "lib t" ssl2] by blast
  have e: "shake_loop t ssl s pw inp =
      (if rc < 0 then Some (Some Gone_sending, ssl2, keylog_all ls s, pw2, pr, w2, sock)
       else if ret = 1 then Some (None, ssl2, keylog_all ls s, pw2, pr, w2, sock)
       else if err \<noteq> SSL_ERROR_WANT_READ then Some (Some Ssl_error, ssl2, keylog_all ls s, pw2, pr, w2, sock)
       else if rc' < 0 then Some (Some Gone, ssl3, keylog_all ls s, pw2, inp3) else shake_loop t ssl3 (keylog_all ls s) pw2 inp3)"
    using f(1) g(1) by (subst shake_loop.simps) (simp add: d i)
  show ?case
  proof (cases "rc < 0 \<or> ret = 1 \<or> err \<noteq> SSL_ERROR_WANT_READ \<or> rc' < 0")
    case True
    then show ?thesis using e u2 i2 less.prems(3) by (cases "rc < 0"; cases "ret = 1"; cases "err \<noteq> SSL_ERROR_WANT_READ") auto
  next
    case False
    then obtain r where r: "whole_record r" "usable False inp3" "from_input False inp0 (concat (hs @ [r])) inp3" using g(2) by auto
    have "input_left inp3 < input_left inp"
      using from_input_left[OF r(3) u0 r(2)] from_input_left[OF less.prems(2) u0 less.prems(1)] r(1) by (simp add: whole_record_def)
    from less.hyps[OF this r(2,3)] show ?thesis using False e less.prems(3) r(1) f(3) by simp
  qed
qed

lemma install_one: "(\<And>d ci. set_key k d ci \<le> 0) \<Longrightarrow> install k dir secret sq = (r, keys) \<Longrightarrow> r \<le> 0 \<and> (r = 0 \<longrightarrow> length keys = 1)"
  by (auto simp: install_def Let_def split: option.splits if_splits)

lemma take_over_ok:
  assumes law: "\<And>d ci. set_key k d ci \<le> 0" and ok: "reader_ok pr w" and t: "take_over k s n plain pr w = (None, pr', w', keys)"
  shows "keys = snd (install k TLS_TX (se_tx s) 0) @ snd (install k TLS_RX (se_rx s) (word_of_nat n))" "length keys = 2" "pending pr' w' = live pr w @ plain @ concat (io_rx w)"
proof -
  obtain r1 k1 r2 k2 where i: "install k TLS_TX (se_tx s) 0 = (r1, k1)" "install k TLS_RX (se_rx s) (word_of_nat n) = (r2, k2)" by fastforce
  have r: "r1 \<le> 0" "r2 \<le> 0" "r1 = 0 \<Longrightarrow> length k1 = 1" "r2 = 0 \<Longrightarrow> length k2 = 1" using install_one[OF law i(1)] install_one[OF law i(2)] by auto
  have e: "r1 = 0" "r2 = 0" "keys = k1 @ k2" "(if plain \<noteq> [] then ioxd__pipereader_inject pr w plain else (True, pr, w)) = (True, pr', w')"
    using t r(1,2) by (auto simp: take_over_def i split: if_splits prod.splits)
  show "keys = snd (install k TLS_TX (se_tx s) 0) @ snd (install k TLS_RX (se_rx s) (word_of_nat n))" "length keys = 2" using e r i by simp_all
  show "pending pr' w' = live pr w @ plain @ concat (io_rx w)" using e(4) inject_ok[OF ok, of plain pr' w'] by (auto simp: pending_def split: if_splits)
qed

text \<open>
  The connection in the kernel's hands: of the bytes \<open>ahead\<close>, whole records of application data were read, \<open>sock\<close> is in the socket, and between them is
  nothing unless OpenSSL saw the peer close; the keys go on from there.  The reader has the plaintext, put behind what it held already and before the buffers that
  came after that, so after the peer's close the records between are there as they came.
\<close>

definition handed_over :: "kernel \<Rightarrow> 's tls \<Rightarrow> 's \<Rightarrow> secrets \<Rightarrow> bytes \<Rightarrow> pipereader \<Rightarrow> io \<times> bytes \<Rightarrow> (direction \<times> crypto_info) list \<Rightarrow> bool" where
  "handed_over k t ssl s ahead pr inp keys \<longleftrightarrow> have_tx s \<and> have_rx s \<and>
     (\<exists>recs ssl' plain rest.
        list_all data_record recs \<and> ahead = concat recs @ rest @ snd inp \<and>
        keys = snd (install k TLS_TX (se_tx s) 0) @ snd (install k TLS_RX (se_rx s) (word_of_nat (length recs))) \<and> length keys = 2 \<and>
        feed (lib t) recs ssl [] = Some (ssl', plain) \<and>
        (\<exists>held queued. rest = held @ queued \<and> pending pr (fst inp) = held @ plain @ queued) \<and>
        (rest = [] \<or> ssl_get_error (lib t) ssl' = SSL_ERROR_ZERO_RETURN))"

lemma hand_over_ok:
  assumes read: "\<And>s n. length (fst (ssl_read (lib t) s n)) \<le> n" and key: "\<And>d ci. set_key k d ci \<le> 0" and u: "usable False (pr, w, [])"
  shows "\<exists>y pr' inp' keys. hand_over k t ssl s (pr, w, []) = Some (y, (pr', inp'), keys) \<and>
    (y = None \<longrightarrow> handed_over k t ssl s (pending pr w) pr' inp' keys)"
proof (cases "(\<not> have_tx s \<or> \<not> have_rx s) \<or> queued_at_pause k = None")
  case True
  then show ?thesis by (cases "\<not> have_tx s \<or> \<not> have_rx s") (auto simp: hand_over_def)
next
  case False
  then obtain n where n: "queued_at_pause k = Some n" "have_tx s" "have_rx s" by auto
  define v sock where "v = w\<lparr>io_rx := take n (io_rx w), io_ready := length (take n (io_rx w))\<rparr>" and "sock = concat (drop n (io_rx w))"
  have rp: "recv_paused n (pr, w, []) = (pr, v, sock)" by (simp add: recv_paused_def v_def sock_def)
  have v: "reader_ok pr v" "live pr v = live pr w" using u by (simp_all add: usable_def v_def reader_defs accounted_def view_defs)
  have pv: "pending pr w = pending pr v @ sock"
    using v(2) by (simp add: pending_def v_def sock_def flip: concat_append)
  have uv: "usable True (pr, v, sock)" using u v by (auto simp: usable_def settled_def v_def)
  obtain res ssl' plain pr1 w1 sock1 where d: "drain_records (lib t) ssl (pr, v, sock) = Some (res, ssl', plain, pr1, w1, sock1)"
    "\<forall>n. res = Inr n \<longrightarrow> (\<exists>recs. n = length recs \<and> drained (lib t) ssl (pr, v, sock) recs ssl' plain (pr1, w1, sock1) \<and> usable True (pr1, w1, sock1) \<and> at_rest (lib t) ssl' (pr1, w1, sock1))"
    using drain_records_ok[OF read uv, of ssl] by (metis prod_cases3)
  show ?thesis
  proof (cases res)
    case (Inl y)
    then show ?thesis using n d(1) by (simp add: hand_over_def rp)
  next
    case (Inr m)
    then obtain recs where r: "m = length recs" "drained (lib t) ssl (pr, v, sock) recs ssl' plain (pr1, w1, sock1)" "usable True (pr1, w1, sock1)"
      "at_rest (lib t) ssl' (pr1, w1, sock1)" using d(2) by blast
    obtain y pr' w' keys where o: "take_over k s m plain pr1 w1 = (y, pr', w', keys)" by (metis surj_pair)
    have h: "hand_over k t ssl s (pr, w, []) = Some (y, (pr', w', sock1), keys)" using n d(1) Inr o by (simp add: hand_over_def rp)
    obtain a b where ab: "concat recs = a @ b" "pending pr v = a @ pending pr1 w1" "sock = b @ sock1" "b = [] \<or> pending pr1 w1 = []"
      using drained_stream[OF r(2) uv r(3)] by blast
    have st: "pending pr w = concat recs @ pending pr1 w1 @ sock1" using pv ab by auto
    have "reader_ok pr1 w1" using r(3) by (simp add: usable_def)
    note T = take_over_ok[OF key this, of s m plain pr' w' keys]
    have "\<exists>held queued. pending pr1 w1 = held @ queued \<and> pending pr' w' = held @ plain @ queued" if "y = None"
      using T(3) o that unfolding pending_def[of pr1] by blast
    moreover have "pending pr1 w1 = [] \<or> ssl_get_error (lib t) ssl' = SSL_ERROR_ZERO_RETURN" using r(4) by (auto simp: at_rest_def)
    moreover have "list_all data_record recs" "feed (lib t) recs ssl [] = Some (ssl', plain)" using r(2) by (simp_all add: drained_def)
    ultimately have "y = None \<longrightarrow> handed_over k t ssl s (pending pr w) pr' (w', sock1) keys"
      using n st T(1,2) o r(1) unfolding handed_over_def fst_conv snd_conv by blast
    then show ?thesis using h by blast
  qed
qed

lemma shaken:
  assumes law: "\<And>s n b s'. bio_read t s n = (b, s') \<Longrightarrow> length b \<le> n \<and> (b = [] \<or> bio_pending (lib t) s' < bio_pending (lib t) s)"
    and u: "usable False (pr, w, [])" and pw: "writes_on pw"
  shows "\<exists>y ssl' s' pw' inp'. shake_loop t ssl s pw (pr, w, []) = Some (y, ssl', s', pw', inp') \<and>
    (y = None \<longrightarrow> usable False inp' \<and> snd (snd inp') = [] \<and> (\<exists>hs. list_all whole_record hs \<and> pending pr w = concat hs @ pending (fst inp') (fst (snd inp'))))"
proof -
  have f: "from_input False (pr, w, []) (concat []) (pr, w, [])" using conserves_same[of pr w] u by (auto simp: from_input_def usable_def)
  have n: "list_all whole_record []" by simp
  have "snd (snd inp') = [] \<and> pending pr w = concat hs @ pending (fst inp') (fst (snd inp'))" if "usable False inp'" "from_input False (pr, w, []) (concat hs) inp'" for hs inp'
    using that u by (auto simp: from_input_def conserves_def usable_def)
  then show ?thesis using shake_ok[OF law u u f n pw, of ssl s] by blast
qed

lemma acquire_release:
  assumes "tabs s (serving s) = Some tb" and "0 < t_refs tb" and "ioxd__certs_acquire s = (a, s')"
  shows "ioxd__certs_release a s' = s"
proof -
  have "a = serving s" "s' = s\<lparr>tabs := (tabs s)(serving s \<mapsto> tb\<lparr>t_refs := t_refs tb + 1\<rparr>)\<rparr>" using assms(1,3) by (auto simp: ioxd__certs_acquire_def)
  moreover have "(tabs s)(serving s \<mapsto> tb) = tabs s" using assms(1) by auto
  ultimately show ?thesis using assms(2) by (simp add: ioxd__certs_release_def)
qed


text \<open>
  A handshake hands the connection to the kernel where it stands.  With an OpenSSL that keeps its interface, the prologue returns, whatever the peer sends,
  and gives its reference to the certificates back on every path.  When it reports success, the bytes of the connection are whole handshake
  records, then whole records of early application data, then what is left in the socket; the kernel was given two keys, the sending one from
  the server's secret at sequence 0 and the receiving one from the client's at the number of application records
  read; and the reader next gives exactly the plaintext of those records, unless the peer had closed its side: then records that came after its close are there too, as
  they came.
\<close>

theorem handshake_hands_over:
  assumes "\<And>s n. length (fst (ssl_read (lib t) s n)) \<le> n"
    and "\<And>s n b s'. bio_read t s n = (b, s') \<Longrightarrow> length b \<le> n \<and> (b = [] \<or> bio_pending (lib t) s' < bio_pending (lib t) s)"
    and "\<And>d ci. set_key k d ci \<le> 0"
    and "reader_ok (p_in pipe) w" and "pr_error (p_in pipe) = 0" and "examined (p_in pipe) = 0" and "settled False (p_in pipe) w"
    and "writer_ok (p_out pipe)" and "\<not> pw_failed (p_out pipe)" and "pw_tail (p_out pipe) = 0"
    and "tabs certs (serving certs) = Some tb" and "0 < t_refs tb"
  shows "\<exists>rc r. ioxd__handshake_prologue k t pipe w certs = Some (rc, r) \<and> o_certs r = certs \<and> (rc = 0 \<longleftrightarrow> o_why r = None) \<and>
    (rc = 0 \<longrightarrow> (\<exists>ssl0 ssl s pw inp hs early.
       ssl_new t (t_fallback tb) = Some ssl0 \<and> shake_loop t ssl0 no_secrets (p_out pipe) (p_in pipe, w, []) = Some (None, ssl, s, pw, inp) \<and>
       list_all whole_record hs \<and> pending (p_in pipe) w = concat hs @ early \<and>
       handed_over k t ssl s early (p_in (o_pipe r)) (o_input r) (o_keys r)))"
proof -
  obtain a certs' where c: "ioxd__certs_acquire certs = (a, certs')" by fastforce
  have rel: "ioxd__certs_release a certs' = certs" by (rule acquire_release[OF assms(11,12) c])
  have fb: "ioxd__certs_fallback (the (tabs certs' a)) = t_fallback tb" using c assms(11) by (auto simp: ioxd__certs_acquire_def ioxd__certs_fallback_def)
  note P = ioxd__handshake_prologue_def[of k t pipe w certs, unfolded c prod.case Let_def fb rel]
  have pw: "writes_on (p_out pipe)" using assms(8-10) by (simp add: writes_on_def)
  have u: "usable False (p_in pipe, w, [])" using assms(4-7) by (simp add: usable_def)
  show ?thesis
  proof (cases "ssl_new t (t_fallback tb)")
    case None
    then show ?thesis unfolding P by simp
  next
    case ssl0: (Some ssl0)
    obtain y ssl s pw inp where sh: "shake_loop t ssl0 no_secrets (p_out pipe) (p_in pipe, w, []) = Some (y, ssl, s, pw, inp)"
      "y = None \<longrightarrow> usable False inp \<and> snd (snd inp) = [] \<and> (\<exists>hs. list_all whole_record hs \<and> pending (p_in pipe) w = concat hs @ pending (fst inp) (fst (snd inp)))"
      using shaken[OF assms(2) u pw] by blast
    obtain pr1 w1 sock1 where inp: "inp = (pr1, w1, sock1)" by (cases inp)
    show ?thesis
    proof (cases y)
      case (Some z)
      then show ?thesis unfolding P ssl0 by (simp add: sh(1))
    next
      case None
      then obtain hs where hs: "list_all whole_record hs" "pending (p_in pipe) w = concat hs @ pending pr1 w1" and u1: "usable False (pr1, w1, [])" "sock1 = []" using sh(2) inp by auto
      obtain y' pr' inp' keys where h: "hand_over k t ssl s (pr1, w1, []) = Some (y', (pr', inp'), keys)"
        "y' = None \<longrightarrow> handed_over k t ssl s (pending pr1 w1) pr' inp' keys" using hand_over_ok[OF assms(1,3) u1(1), of ssl s] by blast
      have e: "ioxd__handshake_prologue k t pipe w certs = Some (if y' = None then 0 else - 1,
          \<lparr>o_why = y', o_pipe = \<lparr>p_in = pr', p_out = pw\<rparr>, o_input = inp', o_keys = keys, o_certs = certs\<rparr>)"
        unfolding P ssl0 using sh(1) None h(1) inp u1(2) by simp
      show ?thesis
      proof (cases "y' = None")
        case True
        then show ?thesis unfolding e using h(2) ssl0 sh(1) None hs inp by simp blast
      qed (auto simp: e)
    qed
  qed
qed

text \<open>An OpenSSL whose handshake is over at once, and a kernel that takes the keys.\<close>

definition ready_tls :: "bytes tls" where
  "ready_tls = \<lparr>lib = echo, ssl_new = (\<lambda>c. Some []),
     ssl_do_handshake = (\<lambda>s. (1, SSL_ERROR_WANT_READ,
       [''SERVER_TRAFFIC_SECRET_0 aa '' @ replicate 64 (CHR ''1''), ''CLIENT_TRAFFIC_SECRET_0 aa '' @ replicate 64 (CHR ''2'')], s)), bio_read = (\<lambda>s n. ([], s))\<rparr>"

definition willing :: kernel where
  "willing = \<lparr>hkdf_expand = (\<lambda>key info n. Some (replicate n (hd (key @ info)))), set_ulp = 0, set_key = (\<lambda>d ci. 0), queued_at_pause = Some 2, resumed = True\<rparr>"

definition one_host :: certs where
  "one_host = \<lparr>tabs = [0 \<mapsto> \<lparr>t_refs = 1, t_hosts = [\<lparr>hs_name = ''default'', hs_ctx = 0\<rparr>], t_fallback = Some 0\<rparr>], ctxs = (\<lambda>c. 1), serving = 0\<rparr>"

abbreviation small_pipe :: ioxd_pipe where "small_pipe \<equiv> ioxd__pipe_init (replicate 8 NUL) 8 (replicate 8 NUL) 2 4 2"

definition no_input :: io where
  "no_input = fresh_io [] 0"

declare shake_loop.simps [code] flush_outbound.simps [code] take_loop.simps [code] read_plain.simps [code] drain_loop_tls.simps [code]

lemma ready_run:
  "map_option (\<lambda>(rc, r). (rc, map fst (o_keys r))) (ioxd__handshake_prologue willing ready_tls small_pipe no_input one_host) = Some (0, [TLS_TX, TLS_RX])"
  by code_simp

lemma ready_laws:
  "length (fst (ssl_read (lib ready_tls) s n)) \<le> n"
  "bio_read ready_tls s n = (b, s') \<Longrightarrow> length b \<le> n \<and> (b = [] \<or> bio_pending (lib ready_tls) s' < bio_pending (lib ready_tls) s)"
  "set_key willing d ci \<le> 0"
  "reader_ok (p_in small_pipe) no_input" "pr_error (p_in small_pipe) = 0" "examined (p_in small_pipe) = 0" "settled False (p_in small_pipe) no_input"
  "writer_ok (p_out small_pipe)" "\<not> pw_failed (p_out small_pipe)" "pw_tail (p_out small_pipe) = 0"
  "tabs one_host (serving one_host) = Some \<lparr>t_refs = 1, t_hosts = [\<lparr>hs_name = ''default'', hs_ctx = 0\<rparr>], t_fallback = Some 0\<rparr>" "0 < t_refs \<lparr>t_refs = 1, t_hosts = [\<lparr>hs_name = ''default'', hs_ctx = 0\<rparr>], t_fallback = Some 0\<rparr>"
proof -
  show "reader_ok (p_in small_pipe) no_input" unfolding ioxd__pipe_init_def ioxd_pipe.simps by (rule init_ok) (simp_all add: no_input_def fresh_io_def)
qed (simp_all add: ready_tls_def echo_def willing_def one_host_def settled_def ioxd__pipe_init_def ioxd__pipereader_init_def ioxd__pipewriter_init_def writer_ok_def)

theorem handshake_hands_over_witness:
  "\<exists>r. ioxd__handshake_prologue willing ready_tls small_pipe no_input one_host = Some (0, r) \<and> map fst (o_keys r) = [TLS_TX, TLS_RX] \<and> o_certs r = one_host"
  using handshake_hands_over[OF ready_laws] ready_run by auto

end
