(* ===== verification/Run.thy ===== *)
theory Run
  imports Tls_Prologue Worker
begin

text \<open>
  What puts the parts together, \<^verbatim>\<open>lib/http/run.c\<close>: the settings, the ports, starting the workers, and what a connection goes through, a handshake first where the
  port has certificates.  Beside it the clients of \<^verbatim>\<open>lib/clients\<close>: the timer and outbound sockets.
\<close>

unbundle bit_operations_syntax

section \<open>Settings\<close>

record ioxd_config =
  ring_entries :: u32
  recv_buffers :: u32
  recv_buffer_size :: u32
  stack_size :: u64
  idle_stacks :: u32
  idle_conns :: u32

definition g_config_start :: ioxd_config where
  "g_config_start = \<lparr>ring_entries = 0, recv_buffers = 0, recv_buffer_size = 0, stack_size = 0, idle_stacks = 0, idle_conns = 0\<rparr>"

definition power_of_two :: "u32 \<Rightarrow> bool" where
  "power_of_two v \<longleftrightarrow> v \<noteq> 0 \<and> v AND (v - 1) = 0"

text \<open>The result and the settings from now on.\<close>

definition ioxd_configure :: "ioxd_config \<Rightarrow> ioxd_config \<Rightarrow> int \<times> ioxd_config" where
  "ioxd_configure config g =
     (if ring_entries config \<noteq> 0 \<and> (\<not> power_of_two (ring_entries config) \<or> ring_entries config > 32768) then (- 1, g)
      else if recv_buffers config \<noteq> 0 \<and> (\<not> power_of_two (recv_buffers config) \<or> recv_buffers config > 32768) then (- 1, g)
      else if recv_buffer_size config \<noteq> 0 \<and> (recv_buffer_size config < 64 \<or> recv_buffer_size config > 1048576) then (- 1, g)
      else if stack_size config \<noteq> 0 \<and> (stack_size config < 64 * 1024 \<or> stack_size config > 64 * 1024 * 1024) then (- 1, g)
      else (0, config))"

definition effective_config :: "ioxd_config \<Rightarrow> ioxd_config" where
  "effective_config g =
     (let c = g;
          c = (if ring_entries c = 0 then c\<lparr>ring_entries := 8192\<rparr> else c);
          c = (if recv_buffers c = 0 then c\<lparr>recv_buffers := 1024\<rparr> else c);
          c = (if recv_buffer_size c = 0 then c\<lparr>recv_buffer_size := 16384\<rparr> else c);
          c = (if stack_size c = 0 then c\<lparr>stack_size := 128 * 1024\<rparr> else c);
          c = (if idle_stacks c = 0 then c\<lparr>idle_stacks := 512\<rparr> else c);
          c = (if idle_conns c = 0 then c\<lparr>idle_conns := 1024\<rparr> else c)
      in c)"


section \<open>Ports and workers\<close>

abbreviation IOXD_MAX_LISTENERS :: nat where "IOXD_MAX_LISTENERS \<equiv> 8"

text \<open>A bound port and whether it has certificates.\<close>

definition ioxd_bind :: "int \<Rightarrow> bool \<Rightarrow> (16 word \<times> bool) list \<Rightarrow> int \<times> (16 word \<times> bool) list" where
  "ioxd_bind prt certs ls =
     (if prt < 1 \<or> prt > 65535 \<or> length ls = IOXD_MAX_LISTENERS then (- 1, ls) else (0, ls @ [(word_of_int prt, certs)]))"

record worker_start =
  ws_id :: nat
  ws_cpu :: nat
  ws_cfg :: ioxd_config
  ws_listeners :: "(16 word \<times> bool) list"

text \<open>The workers whose threads could be created, up to the first that could not; whether all could.\<close>

fun start_workers :: "nat list \<Rightarrow> (nat \<Rightarrow> bool) \<Rightarrow> ioxd_config \<Rightarrow> (16 word \<times> bool) list \<Rightarrow> worker_start list \<times> bool" where
  "start_workers [] created cfg ls = ([], True)"
| "start_workers (i # is) created cfg ls =
     (let ws = \<lparr>ws_id = i, ws_cpu = i, ws_cfg = cfg, ws_listeners = ls\<rparr> in
      if \<not> created i then ([], False)
      else let (rest, all) = start_workers is created cfg ls in (ws # rest, all))"

text \<open>\<open>broke\<close> says of a started worker whether its loop ended on an error.\<close>

definition run_workers :: "int \<Rightarrow> nat \<Rightarrow> bool \<Rightarrow> (nat \<Rightarrow> bool) \<Rightarrow> (nat \<Rightarrow> bool) \<Rightarrow> ioxd_config \<Rightarrow> (16 word \<times> bool) list \<Rightarrow> int \<times> worker_start list" where
  "run_workers workers cpus calloc_ok created broke g ls =
     (let n = (if workers \<le> 0 then cpus else nat workers) in
      if ls = [] then (2, [])
      else if \<not> calloc_ok then (1, [])
      else
        let (ws, all) = start_workers [0..<n] created (effective_config g) ls
        in (if \<not> all \<or> list_ex (\<lambda>w. broke (ws_id w)) ws then 1 else 0, ws))"

definition ioxd__run_http :: "int \<Rightarrow> nat \<Rightarrow> nat \<Rightarrow> (unit \<Rightarrow> int \<times> 'w) \<Rightarrow> 'w \<Rightarrow> int \<times> 'w" where
  "ioxd__run_http workers ctx_size own_size start none = (if ctx_size \<noteq> own_size then (1, none) else start ())"


section \<open>A connection\<close>

text \<open>
  The handler gets the pipe as the handshake left it.  From then on the kernel decrypts: \<open>decrypt\<close> says what it delivers for the bytes left in the socket with
  the keys it was given.  The result has whether the handler ran.
\<close>

definition kernel_takes_over :: "((direction \<times> crypto_info) list \<Rightarrow> bytes \<Rightarrow> bytes list) \<Rightarrow> outcome \<Rightarrow> io" where
  "kernel_takes_over decrypt r = (let (w, sock) = o_input r in w\<lparr>io_rx := io_rx w @ decrypt (o_keys r) sock\<rparr>)"

type_synonym handler = "ioxd_pipe \<Rightarrow> io \<Rightarrow> (ioxd_pipe \<times> io) option"

definition serve_pipe :: "kernel \<Rightarrow> 's tls \<Rightarrow> ((direction \<times> crypto_info) list \<Rightarrow> bytes \<Rightarrow> bytes list) \<Rightarrow> (nat \<times> bytes \<Rightarrow> io \<Rightarrow> io) \<Rightarrow> handler \<Rightarrow>
    certs option \<Rightarrow> ioxd_pipe \<Rightarrow> io \<Rightarrow> (bool \<times> certs option \<times> ioxd_pipe \<times> io) option" where
  "serve_pipe k t decrypt sendmsg handler certs pipe w =
     (case certs of
        None \<Rightarrow> do { (pipe, w) \<leftarrow> handler pipe w; Some (True, None, pipe, w) }
      | Some cs \<Rightarrow> do {
          (rc, r) \<leftarrow> ioxd__handshake_prologue k t pipe w cs;
          (if rc \<noteq> 0 then Some (False, Some (o_certs r), o_pipe r, fst (o_input r))
           else do {
             (pipe, w) \<leftarrow> handler (o_pipe r) (kernel_takes_over decrypt r);
             Some (True, Some (o_certs r), pipe, ioxd__handshake_close_notify sendmsg w) }) })"


section \<open>The timer\<close>

definition timer_spec :: "u64 \<Rightarrow> u64 \<times> u64" where
  "timer_spec ns = (let ns = (if ns < 1 then 1 else ns) in (ns div 1000000000, ns mod 1000000000))"

abbreviation ETIME :: int where "ETIME \<equiv> 62"

text \<open>\<open>await\<close> is what the timeout of that many seconds and nanoseconds ends with.\<close>

definition ioxd__timer_delay :: "(u64 \<times> u64 \<Rightarrow> int) \<Rightarrow> u64 \<Rightarrow> int" where
  "ioxd__timer_delay await ns = (let rc = await (timer_spec ns) in if rc = - ETIME then 0 else rc)"

definition ioxd_delay_ns :: "bool \<Rightarrow> (u64 \<times> u64 \<Rightarrow> int) \<Rightarrow> u64 \<Rightarrow> int" where
  "ioxd_delay_ns in_coroutine await ns = (if \<not> in_coroutine then - 1 else ioxd__timer_delay await ns)"

definition ioxd_delay :: "bool \<Rightarrow> (u64 \<times> u64 \<Rightarrow> int) \<Rightarrow> u32 \<Rightarrow> int" where
  "ioxd_delay in_coroutine await ms = ioxd_delay_ns in_coroutine await (ucast ms * 1000000)"


section \<open>Outbound sockets\<close>

abbreviation ENOMEM :: int where "ENOMEM \<equiv> 12"
abbreviation EINVAL :: int where "EINVAL \<equiv> 22"

text \<open>
  \<open>fd\<close> and \<open>rc\<close> are what making and connecting the socket end with; \<open>fresh\<close> is where a new connection would be.  The error, or the connection.
\<close>

definition ioxd__socket_connect :: "int \<Rightarrow> int \<Rightarrow> bool \<Rightarrow> nat \<Rightarrow> proactor \<Rightarrow> (int + nat) \<times> proactor" where
  "ioxd__socket_connect fd rc malloc_ok fresh p =
     (if fd < 0 then (Inl (- fd), p)
      else if rc < 0 then (Inl (- rc), ioxd__conn_close_socket p fd)
      else if \<not> malloc_ok then (Inl ENOMEM, ioxd__conn_close_socket p fd)
      else
        let (c, p) = ioxd__conn_new p fresh False fd;
            p = ioxd__conn_arm_recv p c
        in (Inr c, p))"

text \<open>An address of either family, as \<open>inet_pton\<close> reads it, and the port in network order.\<close>

definition htons :: "16 word \<Rightarrow> 16 word" where
  "htons x = (push_bit 8 x OR drop_bit 8 x)"

definition ioxd_connect :: "bool \<Rightarrow> (bytes \<Rightarrow> 'a option) \<Rightarrow> (bytes \<Rightarrow> 'b option) \<Rightarrow> ('a + 'b \<Rightarrow> 16 word \<Rightarrow> proactor \<Rightarrow> (int + nat) \<times> proactor) \<Rightarrow>
    bytes option \<Rightarrow> int \<Rightarrow> proactor \<Rightarrow> (int + nat) \<times> proactor" where
  "ioxd_connect in_coroutine v4 v6 connect host prt p =
     (case host of
        None \<Rightarrow> (Inl EINVAL, p)
      | Some host \<Rightarrow>
          if \<not> in_coroutine \<or> prt < 1 \<or> prt > 65535 then (Inl EINVAL, p)
          else
            (case v4 host of
               Some a \<Rightarrow> connect (Inl a) (htons (word_of_int prt)) p
             | None \<Rightarrow> (case v6 host of Some b \<Rightarrow> connect (Inr b) (htons (word_of_int prt)) p | None \<Rightarrow> (Inl EINVAL, p))))"

definition ioxd__socket_close :: "ioxd_pipe \<Rightarrow> io \<Rightarrow> nat \<Rightarrow> proactor \<Rightarrow> (io \<times> proactor) option" where
  "ioxd__socket_close pipe w c p = (let (pipe, w) = ioxd__pipe_close pipe w in map_option (\<lambda>p. (w, p)) (ioxd__conn_close c p))"

definition ioxd_disconnect :: "(ioxd_pipe \<times> nat) option \<Rightarrow> io \<Rightarrow> proactor \<Rightarrow> (io \<times> proactor) option" where
  "ioxd_disconnect cp w p = (case cp of None \<Rightarrow> Some (w, p) | Some (pipe, c) \<Rightarrow> ioxd__socket_close pipe w c p)"


section \<open>Settings in range\<close>

lemma nat_power_of_two: "0 < n \<Longrightarrow> n AND (n - 1) = (0::nat) \<Longrightarrow> \<exists>k. n = 2 ^ k"
proof (induction n rule: less_induct)
  case (less n)
  show ?case
  proof (cases "even n")
    case True
    then obtain j where j: "n = 2 * j" "0 < j" using less.prems(1) by (auto elim: evenE)
    have "(2 * j - 1) div 2 = j - 1" using j(2) by (cases j) auto
    then have "n AND (n - 1) = 2 * (j AND (j - 1))" using j by (subst and_rec) simp
    then have "j AND (j - 1) = 0" using less.prems(2) by simp
    then obtain k where "j = 2 ^ k" using less.IH[of j] j by auto
    then have "n = 2 ^ Suc k" using j by simp
    then show ?thesis by blast
  next
    case False
    have "n AND (n - 1) = 2 * ((n div 2) AND ((n - 1) div 2))" using False less.prems(1) by (subst and_rec) auto
    moreover have "(n - 1) div 2 = n div 2" using False by (auto elim: oddE)
    ultimately have "n div 2 = 0" using less.prems(2) by simp
    then have "n = 2 ^ 0" using less.prems(1) False by (cases "n = 1") auto
    then show ?thesis by blast
  qed
qed

lemma power_of_two_exp:
  assumes "power_of_two v" and "v \<le> 32768"
  shows "\<exists>k \<le> 15. v = 2 ^ k"
proof -
  have v: "v \<noteq> 0" "v AND (v - 1) = 0" using assms(1) by (simp_all add: power_of_two_def)
  have "unat v AND (unat v - 1) = unat (v AND (v - 1))" using v(1) by (simp add: unsigned_and_eq unat_minus_one)
  then obtain k where k: "unat v = 2 ^ k" using nat_power_of_two[of "unat v"] v by (auto simp: unat_gt_0)
  have "(2::nat) ^ k \<le> 2 ^ 15" using k assms(2) by (simp add: word_le_nat_alt)
  then have k15: "k \<le> 15" by (metis one_less_numeral_iff power_le_imp_le_exp semiring_norm(76))
  moreover have "v = 2 ^ k" by (rule unsigned_word_eqI[where 'a = nat]) (use k k15 unat_of_nat_less[where 'a = 32, of "2 ^ k"] power_increasing[of k 15 "2::nat"] in simp)
  ultimately show ?thesis by blast
qed

definition config_ok :: "ioxd_config \<Rightarrow> bool" where
  "config_ok c \<longleftrightarrow> (ring_entries c = 0 \<or> (\<exists>k \<le> 15. ring_entries c = 2 ^ k)) \<and> (recv_buffers c = 0 \<or> (\<exists>k \<le> 15. recv_buffers c = 2 ^ k)) \<and>
     (recv_buffer_size c = 0 \<or> 64 \<le> recv_buffer_size c \<and> recv_buffer_size c \<le> 1048576) \<and> (stack_size c = 0 \<or> 65536 \<le> stack_size c \<and> stack_size c \<le> 67108864)"

lemma refused_or: "(if a then x else if b then x else if d then x else if e then x else y) = x \<or> (if a then x else if b then x else if d then x else if e then x else y) = y"
  by simp

lemma configure_cases: "ioxd_configure c g = (- 1, g) \<or> ioxd_configure c g = (0, c)"
  unfolding ioxd_configure_def by (rule refused_or)

lemma run_configure_ok:
  assumes "config_ok g"
  shows "config_ok (snd (ioxd_configure c g))"
proof (cases "fst (ioxd_configure c g) = 0")
  case False
  then have "snd (ioxd_configure c g) = g" by (auto simp: ioxd_configure_def)
  then show ?thesis using assms by simp
next
  case True
  note z = True[unfolded ioxd_configure_def]
  have "ioxd_configure c g = (- 1, g) \<or> ioxd_configure c g = (0, c)" by (rule configure_cases)
  then have e: "snd (ioxd_configure c g) = c" using True by auto
  have r: "ring_entries c = 0 \<or> power_of_two (ring_entries c) \<and> ring_entries c \<le> 32768" using z by (auto simp: not_less split: if_splits)
  have b: "recv_buffers c = 0 \<or> power_of_two (recv_buffers c) \<and> recv_buffers c \<le> 32768" using z by (auto simp: not_less split: if_splits)
  have q: "recv_buffer_size c = 0 \<or> 64 \<le> recv_buffer_size c \<and> recv_buffer_size c \<le> 1048576" using z by (auto simp: not_less split: if_splits)
  have t: "stack_size c = 0 \<or> 65536 \<le> stack_size c \<and> stack_size c \<le> 67108864" using z by (auto simp: not_less split: if_splits)
  show ?thesis unfolding e config_ok_def using power_of_two_exp r b q t by blast
qed

text \<open>
  C40. Every worker runs with settings the rings and pools can use.  After any calls of \<open>ioxd_configure\<close>, accepted or refused, the settings a run starts its workers with have
  powers of two of at most 32768 for the entries of the ring and the number of receive buffers, which is what their masks need, buffers of 64 bytes to 1 MB, stacks of
  64 KB to 64 MB, and pools that are not empty.
\<close>

theorem workers_get_settings_in_range:
  "let e = effective_config (fold (\<lambda>c g. snd (ioxd_configure c g)) cs g_config_start) in
     (\<exists>k \<le> 15. ring_entries e = 2 ^ k) \<and> (\<exists>k \<le> 15. recv_buffers e = 2 ^ k) \<and> 64 \<le> recv_buffer_size e \<and> recv_buffer_size e \<le> 1048576 \<and>
     65536 \<le> stack_size e \<and> stack_size e \<le> 67108864 \<and> idle_stacks e \<noteq> 0 \<and> idle_conns e \<noteq> 0"
proof -
  define g where "g = fold (\<lambda>c g. snd (ioxd_configure c g)) cs g_config_start"
  have "config_ok g'" if "config_ok g0" "g' = fold (\<lambda>c g. snd (ioxd_configure c g)) cs g0" for g0 g'
    using that by (induction cs arbitrary: g0) (auto simp: run_configure_ok)
  then have ok: "config_ok g" unfolding g_def by (metis config_ok_def g_config_start_def ioxd_config.select_convs(1-4))
  let ?e = "effective_config g"
  have f: "ring_entries ?e = (if ring_entries g = 0 then 2 ^ 13 else ring_entries g)" "recv_buffers ?e = (if recv_buffers g = 0 then 2 ^ 10 else recv_buffers g)"
    "recv_buffer_size ?e = (if recv_buffer_size g = 0 then 16384 else recv_buffer_size g)" "stack_size ?e = (if stack_size g = 0 then 131072 else stack_size g)"
    "idle_stacks ?e = (if idle_stacks g = 0 then 512 else idle_stacks g)" "idle_conns ?e = (if idle_conns g = 0 then 1024 else idle_conns g)"
    by (simp_all add: effective_config_def Let_def)
  have "\<exists>k \<le> 15. ring_entries ?e = 2 ^ k"
  proof (cases "ring_entries g = 0")
    case True
    then show ?thesis using f(1) by (intro exI[of _ 13]) simp
  qed (use ok f(1) in \<open>auto simp: config_ok_def\<close>)
  moreover have "\<exists>k \<le> 15. recv_buffers ?e = 2 ^ k"
  proof (cases "recv_buffers g = 0")
    case True
    then show ?thesis using f(2) by (intro exI[of _ 10]) simp
  qed (use ok f(2) in \<open>auto simp: config_ok_def\<close>)
  ultimately show ?thesis using ok f(3-) unfolding g_def[symmetric] Let_def config_ok_def by auto
qed


section \<open>Workers and timers\<close>

lemma start_workers_spec:
  "start_workers is created cfg ls =
     (let n = length (takeWhile created is) in (map (\<lambda>i. \<lparr>ws_id = i, ws_cpu = i, ws_cfg = cfg, ws_listeners = ls\<rparr>) (take n is), n = length is))"
  by (induction "is") (auto simp: Let_def split: prod.splits)

text \<open>A run that reports no failure had a port, started every worker on all its ports, and none of them ended on an error.\<close>

lemma run_workers_zero:
  assumes "run_workers workers cpus calloc_ok created broke g ls = (0, ws)"
  shows "ls \<noteq> []" "map ws_id ws = [0..<if workers \<le> 0 then cpus else nat workers]" "\<forall>w \<in> set ws. ws_listeners w = ls \<and> ws_cfg w = effective_config g \<and> \<not> broke (ws_id w)"
proof -
  let ?is = "[0..<if workers \<le> 0 then cpus else nat workers]"
  have e: "ls \<noteq> []" "start_workers ?is created (effective_config g) ls = (ws, True)" "\<not> list_ex (\<lambda>w. broke (ws_id w)) ws"
    using assms by (auto simp: run_workers_def Let_def split: if_splits prod.splits)
  show "ls \<noteq> []" by (rule e)
  have w: "ws = map (\<lambda>i. \<lparr>ws_id = i, ws_cpu = i, ws_cfg = effective_config g, ws_listeners = ls\<rparr>) ?is"
    using e(2) unfolding start_workers_spec Let_def by auto
  show "map ws_id ws = ?is" by (simp add: w o_def)
  show "\<forall>w \<in> set ws. ws_listeners w = ls \<and> ws_cfg w = effective_config g \<and> \<not> broke (ws_id w)" using e(3) by (auto simp: w list_ex_iff)
qed

lemma timer_spec_exact:
  "(case timer_spec ns of (sec, nsec) \<Rightarrow> unat sec * 1000000000 + unat nsec = max 1 (unat ns) \<and> unat nsec < 1000000000)"
  by (auto simp: timer_spec_def Let_def unat_div unat_mod max_def word_less_nat_alt)

lemma delay_does_not_wrap: "unat (ucast (ms :: u32) * 1000000 :: u64) = unat ms * 1000000"
proof -
  have "unat (ucast ms :: u64) = unat ms" by (simp add: unsigned_ucast_eq take_bit_nat_eq_self_iff order_less_trans[OF unsigned_less])
  then show ?thesis using unsigned_less[of ms, where 'a = nat] by (subst unat_word_ariths) simp
qed


section \<open>What a connection is served\<close>

lemma pending_more: "pending pr (w\<lparr>io_rx := io_rx w @ ps\<rparr>) = pending pr w @ concat ps"
  by (simp add: pending_def view_defs)



end
