(* ===== verification/Spec2Isabelle.thy ===== *)
theory Spec2Isabelle
  imports Find Slice Ring Pipe_Frozen Json_Read Router_Routes Worker_Run Static_Store Compress Serve Uring Coro Run
begin

text \<open>
  \<^bold>\<open>Verification of libioxd, an HTTP/1.1 server library on io-uring.\<close>

  \<^bold>\<open>The program.\<close>  A worker thread runs one loop (\<^verbatim>\<open>lib/io/proactor.c\<close>): it accepts connections, keeps a
  multishot receive on each, and resumes a coroutine per connection when something it waits for completes
  (\<^verbatim>\<open>lib/io/conn.c\<close>).  The kernel fills buffers of a ring the worker gave it (\<^verbatim>\<open>lib/io/bufring.c\<close>); a delivered
  buffer waits in a small queue (\<^verbatim>\<open>lib/io/spsc.h\<close>) until the coroutine takes it.  The coroutine sees a pipe
  (\<^verbatim>\<open>lib/io/pipe.c\<close>): a reader that shows the bytes in place and a writer that collects bytes in a slab.  On the
  pipe the engine (\<^verbatim>\<open>lib/http/engine.c\<close>) parses a request head, dispatches it through the router
  (\<^verbatim>\<open>lib/http/router.c\<close>), lets the handler read the body and write the reply, and drains what is left before
  the next request.  Handlers use slices and conversions (\<^verbatim>\<open>lib/http/api.c\<close>, \<^verbatim>\<open>lib/http/find.c\<close>), the JSON
  writer (\<^verbatim>\<open>lib/json/json.c\<close>), files (\<^verbatim>\<open>lib/http/static.c\<close>) and compression (\<^verbatim>\<open>lib/http/compress.c\<close>).  On a port with
  certificates (\<^verbatim>\<open>lib/tls/certs.c\<close>) a handshake comes first and hands the connection to the kernel's TLS
  (\<^verbatim>\<open>lib/tls/handshake.c\<close>).  Below all of it are the io-uring rings (\<^verbatim>\<open>lib/io/uring.c\<close>) and the coroutines
  (\<^verbatim>\<open>lib/io/coro.c\<close>); \<^verbatim>\<open>lib/http/run.c\<close> starts the workers.

  \<^bold>\<open>The theories\<close>, each after the file it models; a definition has the name of its C function.
  \<^item> \<open>Prelude\<close>: bytes, machine integers, and the C memory functions with their lemmas.
  \<^item> \<open>Find\<close>, \<open>Slice\<close>: the substring search with its SSE2 and AVX2 blocks, equal to the first occurrence; comparing,
    trimming and cutting slices, conversions, percent-decoding and query strings.
  \<^item> \<open>Ring\<close>: the queue of delivered buffers refines a bounded first-in-first-out queue (locale \<open>bounded_fifo\<close>); the
    ring of provided buffers loses and duplicates none, with 32-bit counters that wrap.
  \<^item> \<open>Conn_Io\<close>, \<open>Pipe_Reader\<close>, \<open>Pipe_Stream\<close>, \<open>Pipe_Frozen\<close>, \<open>Pipe_Writer\<close>, \<open>Pipe\<close>: what a handler does on its
    connection.  The reader shows the received stream in order, whatever way the kernel cut it, gives every buffer
    back once, and never moves bytes the handler froze; the writer puts on the wire what was written, in order.
  \<^item> \<open>Request_Head\<close>, \<open>Response\<close>, \<open>Reply\<close>, \<open>Reply_Wire\<close>, \<open>Body\<close>, \<open>Body_Decode\<close>, \<open>Body_Read\<close>, \<open>Serve\<close>: the engine.
    The framing of a request is unambiguous, a response head cannot be split, a reply reaches the wire with the
    framing its head announces, a body is read as it was framed, and the reader stands at the next request after a
    drain.
  \<^item> \<open>Json\<close>, \<open>Json_Text\<close>, \<open>Json_Doc\<close>, \<open>Json_Read\<close>: the JSON writer on its three sinks refines the text of a document;
    strings and integers read back.
  \<^item> \<open>Router\<close>, \<open>Router_Tree\<close>, \<open>Router_Routes\<close>: registration, resolution into the segment tree, and a dispatch that
    serves the route a reference definition calls the best.
  \<^item> \<open>Worker\<close>, \<open>Worker_Inv\<close>, \<open>Worker_Run\<close>: the connections of a worker as a state machine.  The rule-inductive
    predicate \<open>worker\<close> has the states of a run; the invariant counts references, receives in flight and buffers,
    and says what a waiting coroutine waits for.
  \<^item> \<open>Static_Name\<close>, \<open>Static_Cache\<close>, \<open>Static_Lru\<close>, \<open>Static\<close>, \<open>Static_Store\<close>: files.  A name stays inside its directory, a
    byte range inside its file; the chained table with its recency links refines a list in order of use
    within a budget; what is served is the file on the disk; the table of a closed directory is never used.
  \<^item> \<open>Compress\<close>: a reply that is coded says so, unless its head is full; the blocks of an encoder's arena lie apart.
  \<^item> \<open>Tls_Certs\<close>, \<open>Tls_Handshake\<close>, \<open>Tls_Prologue\<close>: the host a ClientHello picks; a reload never frees what a handshake
    uses; a record is taken whole; the handshake returns, and leaves keys, counters and plaintext that
    fit the bytes already read.
  \<^item> \<open>Uring\<close>: every entry staged reaches the kernel once and in order, every completion posted the worker, across
    the wrap-around of the counters and a full ring; a ring gives back what it took from the system.
  \<^item> \<open>Coro\<close>: a stack is that of one coroutine or idle, and the idle ones are bounded.
  \<^item> \<open>Run\<close>: the settings of a run are in range; a port with certificates serves only decrypted input.  The timer and
    outbound sockets are here too.

  \<^bold>\<open>State and effects.\<close>  C structures are records; pointers into a buffer are offsets with the buffer they point into.
  What suspends a coroutine is a call on a record of the outside world, in which the kernel's future answers are
  lists; theorems hold for every such future.  Errors are values, an abort of the process is \<open>None\<close>.  Integers keep
  their width where the code can wrap them.

  \<^bold>\<open>Loops.\<close>  A loop over data is a recursive function with its measure.  One that ends only because its input does
  is a \<open>partial_function\<close> into \<open>option\<close>, with theorems that it returns.  No fuel is used.

  \<^bold>\<open>Parameters.\<close>  Handlers, middleware and body filters, \<open>strtod\<close> and \<open>printf\<close> of floating-point numbers, the head parser
  (a third-party file), brotli and zlib, OpenSSL, the disk and the kernel are arguments, with what the code relies
  on as hypotheses of the theorems.

  \<^bold>\<open>Not modelled.\<close>  The arguments of the system calls that open listening sockets, map the buffers of the receive ring and
  pin a thread; signals; the switch of registers between coroutines, in assembly, so that resuming one is two steps;
  the struct macros of the JSON header; messages on stderr; running out of memory where the code aborts.  Tests
  and example programs are outside the library.
\<close>

end
